(* ===== verification/Prelude.thy ===== *)
theory Prelude
  imports Main "HOL-Library.Word"
begin

unbundle bit_operations_syntax

text \<open>
  Shared vocabulary of the development.  A C function that returns a \<open>bool\<close> status is modelled
  by a value of type \<open>('a, 'f) res\<close>: \<open>Ok\<close> carries what the function produced when it returned
  true, \<open>Fail\<close> the state it left behind when it returned false, \<open>Undef\<close> says that the C
  program reached undefined behaviour (an access outside every live object, a free of something
  that was not allocated) and \<open>Timeout\<close> that the recursion or loop bound given to the model ran
  out.  Theorems about termination and about memory safety say that \<open>Timeout\<close> and \<open>Undef\<close> do
  not occur.
\<close>

declare One_nat_def [simp del]

lemma take_drop_1 [simp]: "take 1 (x # xs) = [x]" "drop 1 (x # xs) = xs"
  by (simp_all add: One_nat_def)

type_synonym byte = "8 word"
type_synonym uint32 = "32 word"
type_synonym uint64 = "64 word"

text \<open>\<open>size_t\<close> values are natural numbers; an addition that may wrap is \<open>size_add\<close>.\<close>

type_synonym size_t = nat

definition size_max :: size_t where
  "size_max = 2 ^ 64 - 1"

definition size_add :: "size_t \<Rightarrow> size_t \<Rightarrow> size_t" where
  "size_add a b = (a + b) mod 2 ^ 64"

datatype ('a, 'f) res = Undef | Timeout | Fail 'f | Ok 'a

named_theorems res_simps \<open>evaluation of the result combinators\<close>
named_theorems pb_defs \<open>constants of the nanopb headers\<close>

text \<open>Sequencing: the rest of the function runs only when the call returned true.\<close>

fun andThen :: "('a, 'f) res \<Rightarrow> ('a \<Rightarrow> ('b, 'f) res) \<Rightarrow> ('b, 'f) res" where
  "andThen Undef k = Undef"
| "andThen Timeout k = Timeout"
| "andThen (Fail f) k = Fail f"
| "andThen (Ok a) k = k a"

lemma andThen_cong [fundef_cong]:
  "m = m' \<Longrightarrow> (\<And>a. m' = Ok a \<Longrightarrow> k a = k' a) \<Longrightarrow> andThen m k = andThen m' k'"
  by (cases m') auto

text \<open>\<open>status = f(...)\<close>: the code looks at the status itself and goes on in both cases.\<close>

fun withStatus :: "('a, 'f) res \<Rightarrow> ('a + 'f \<Rightarrow> ('b, 'g) res) \<Rightarrow> ('b, 'g) res" where
  "withStatus Undef k = Undef"
| "withStatus Timeout k = Timeout"
| "withStatus (Fail f) k = k (Inr f)"
| "withStatus (Ok a) k = k (Inl a)"

text \<open>A memory access: \<open>None\<close> is undefined behaviour.\<close>

definition access :: "'a option \<Rightarrow> ('a \<Rightarrow> ('b, 'f) res) \<Rightarrow> ('b, 'f) res" where
  "access x k = (case x of None \<Rightarrow> Undef | Some a \<Rightarrow> k a)"

text \<open>Change the state carried by a failure.\<close>

fun mapFail :: "('f \<Rightarrow> 'g) \<Rightarrow> ('a, 'f) res \<Rightarrow> ('a, 'g) res" where
  "mapFail g Undef = Undef"
| "mapFail g Timeout = Timeout"
| "mapFail g (Fail f) = Fail (g f)"
| "mapFail g (Ok a) = Ok a"

text \<open>A call that works on one component of a pair of states.\<close>

definition onStream :: "('a \<times> 's, 's) res \<Rightarrow> 'h \<Rightarrow> ('a \<times> 's \<times> 'h, 's \<times> 'h) res" where
  "onStream r h = (case r of Undef \<Rightarrow> Undef | Timeout \<Rightarrow> Timeout
     | Fail s \<Rightarrow> Fail (s, h) | Ok (a, s) \<Rightarrow> Ok (a, s, h))"

fun defined :: "('a, 'f) res \<Rightarrow> bool" where
  "defined Undef = False"
| "defined Timeout = False"
| "defined (Fail f) = True"
| "defined (Ok a) = True"

lemma access_simps [simp]:
  "access None k = Undef"
  "access (Some a) k = k a"
  by (simp_all add: access_def)

lemma onStream_simps [simp]:
  "onStream Undef h = Undef"
  "onStream Timeout h = Timeout"
  "onStream (Fail s) h = Fail (s, h)"
  "onStream (Ok (a, s)) h = Ok (a, s, h)"
  by (simp_all add: onStream_def)

lemma andThen_assoc: "andThen (andThen m f) g = andThen m (\<lambda>x. andThen (f x) g)"
  by (cases m) auto

lemma andThen_Ok_iff: "andThen m k = Ok b \<longleftrightarrow> (\<exists>a. m = Ok a \<and> k a = Ok b)"
  by (cases m) auto

lemma andThen_Fail_iff:
  "andThen m k = Fail f \<longleftrightarrow> m = Fail f \<or> (\<exists>a. m = Ok a \<and> k a = Fail f)"
  by (cases m) auto

lemma andThen_Undef_iff:
  "andThen m k = Undef \<longleftrightarrow> m = Undef \<or> (\<exists>a. m = Ok a \<and> k a = Undef)"
  by (cases m) auto

lemma andThen_Timeout_iff:
  "andThen m k = Timeout \<longleftrightarrow> m = Timeout \<or> (\<exists>a. m = Ok a \<and> k a = Timeout)"
  by (cases m) auto

lemma mapFail_iffs:
  "mapFail g m = Ok a \<longleftrightarrow> m = Ok a"
  "mapFail g m = Fail f' \<longleftrightarrow> (\<exists>f. m = Fail f \<and> f' = g f)"
  "mapFail g m = Undef \<longleftrightarrow> m = Undef"
  "mapFail g m = Timeout \<longleftrightarrow> m = Timeout"
  by (cases m; auto)+

lemma onStream_iffs:
  "onStream m h = Ok (a, s, h') \<longleftrightarrow> m = Ok (a, s) \<and> h' = h"
  "onStream m h = Fail (s, h') \<longleftrightarrow> m = Fail s \<and> h' = h"
  "onStream m h = Undef \<longleftrightarrow> m = Undef"
  "onStream m h = Timeout \<longleftrightarrow> m = Timeout"
  by (cases m; auto)+

lemma access_iffs:
  "access x k = Ok b \<longleftrightarrow> (\<exists>a. x = Some a \<and> k a = Ok b)"
  "access x k = Fail f \<longleftrightarrow> (\<exists>a. x = Some a \<and> k a = Fail f)"
  "access x k = Timeout \<longleftrightarrow> (\<exists>a. x = Some a \<and> k a = Timeout)"
  "access x k = Undef \<longleftrightarrow> x = None \<or> (\<exists>a. x = Some a \<and> k a = Undef)"
  by (cases x; auto)+

lemma withStatus_iffs:
  "withStatus m k = Ok b \<longleftrightarrow> (\<exists>a. m = Ok a \<and> k (Inl a) = Ok b) \<or> (\<exists>f. m = Fail f \<and> k (Inr f) = Ok b)"
  "withStatus m k = Fail g \<longleftrightarrow> (\<exists>a. m = Ok a \<and> k (Inl a) = Fail g) \<or> (\<exists>f. m = Fail f \<and> k (Inr f) = Fail g)"
  by (cases m; auto)+

lemmas res_iffs = andThen_Ok_iff andThen_Fail_iff mapFail_iffs onStream_iffs access_iffs withStatus_iffs

lemma defined_iff: "defined r \<longleftrightarrow> r \<noteq> Undef \<and> r \<noteq> Timeout"
  by (cases r) auto

lemma defined_andThen:
  "defined (andThen m k) \<longleftrightarrow> defined m \<and> (\<forall>a. m = Ok a \<longrightarrow> defined (k a))"
  by (cases m) auto

section \<open>Little-endian byte sequences\<close>

text \<open>The C code runs on little-endian machines: an object of \<open>n\<close> bytes is its value's base-256
  digits, least significant first.\<close>

fun nat_of_le :: "byte list \<Rightarrow> nat" where
  "nat_of_le [] = 0"
| "nat_of_le (b # bs) = unat b + 256 * nat_of_le bs"

fun le_of_nat :: "nat \<Rightarrow> nat \<Rightarrow> byte list" where
  "le_of_nat 0 v = []"
| "le_of_nat (Suc n) v = word_of_nat v # le_of_nat n (v div 256)"

lemma length_le_of_nat [simp]: "length (le_of_nat n v) = n"
  by (induction n arbitrary: v) auto

lemma unat_byte_of_nat [simp]: "unat (word_of_nat v :: byte) = v mod 256"
  by (simp add: unat_of_nat)

lemma nat_of_le_less: "nat_of_le bs < 256 ^ length bs"
proof (induction bs)
  case Nil
  then show ?case by simp
next
  case (Cons b bs)
  have "unat b < 256" using unsigned_less [where ?'a = nat, of b] by simp
  with Cons show ?case by simp
qed

lemma nat_of_le_of_nat: "nat_of_le (le_of_nat n v) = v mod 256 ^ n"
proof (induction n arbitrary: v)
  case 0
  then show ?case by simp
next
  case (Suc n)
  have "v mod (256 * 256 ^ n) = 256 * (v div 256 mod 256 ^ n) + v mod 256"
    by (simp add: mod_mult2_eq)
  with Suc show ?case by simp
qed

lemma le_of_nat_of_le: "le_of_nat (length bs) (nat_of_le bs) = bs"
proof (induction bs)
  case Nil
  then show ?case by simp
next
  case (Cons b bs)
  have b: "unat b < 256" using unsigned_less [where ?'a = nat, of b] by simp
  have "word_of_nat (unat b + 256 * nat_of_le bs) = b"
  proof -
    have "unat (word_of_nat (unat b + 256 * nat_of_le bs) :: byte) = unat b"
      using b by (simp only: unat_byte_of_nat mod_mult_self2 mod_less)
    then show ?thesis by (simp only: word_unat_eq_iff)
  qed
  with b Cons show ?case by simp
qed

section \<open>Words put together from their parts\<close>

text \<open>A number below \<open>2 ^ k\<close> and a multiple of \<open>2 ^ k\<close> have no bit in common.\<close>

lemma word_of_nat_or_exp:
  "x < 2 ^ k \<Longrightarrow> (word_of_nat (x + 2 ^ k * y) :: 'a::len word) =
     word_of_nat x OR push_bit k (word_of_nat y)"
proof -
  assume x: "x < 2 ^ k"
  have "x AND push_bit k y = 0"
  proof (rule bit_eqI)
    fix n
    have "bit x n \<Longrightarrow> n < k"
      using x bit_take_bit_iff [of k x n] by (simp add: take_bit_nat_eq_self)
    then show "bit (x AND push_bit k y) n \<longleftrightarrow> bit (0 :: nat) n"
      by (auto simp: bit_simps)
  qed
  then have e: "x + 2 ^ k * y = x OR push_bit k y"
    by (simp add: disjunctive_add_eq_or [symmetric] push_bit_eq_mult)
  show ?thesis unfolding e
    by (rule bit_word_eqI) (auto simp: bit_simps)
qed

end
