(* ===== verification/CMemory.thy ===== *)
theory CMemory
  imports Prelude
begin

text \<open>
  The memory of the C program: bytes addressed by integers, where only the bytes of live objects
  are mapped, so an access outside every live object is \<open>None\<close>.  Objects are 64-bit
  little-endian: a pointer is eight bytes, an \<open>int32_t\<close> or a \<open>pb_size_t\<close> four, a \<open>bool\<close> one.
  Dynamic memory is a bump allocator: \<open>brk\<close> is the first address that was never handed out, an
  allocation beyond \<open>heap_limit\<close> returns NULL, fresh memory holds the arbitrary bytes \<open>junk\<close>,
  and \<open>live\<close> records the size of every block that was allocated and not yet freed.
\<close>

type_synonym addr = int

record heap =
  mem :: "addr \<Rightarrow> byte option"
  brk :: addr
  heap_limit :: addr
  junk :: "addr \<Rightarrow> byte"
  live :: "addr \<Rightarrow> nat option"

section \<open>Byte access\<close>

primrec load_bytes :: "heap \<Rightarrow> addr \<Rightarrow> nat \<Rightarrow> byte list option" where
  "load_bytes h a 0 = Some []"
| "load_bytes h a (Suc n) = (case mem h a of None \<Rightarrow> None
     | Some b \<Rightarrow> map_option ((#) b) (load_bytes h (a + 1) n))"

primrec store_bytes :: "heap \<Rightarrow> addr \<Rightarrow> byte list \<Rightarrow> heap option" where
  "store_bytes h a [] = Some h"
| "store_bytes h a (b # bs) = (case mem h a of None \<Rightarrow> None
     | Some _ \<Rightarrow> store_bytes (h\<lparr>mem := (mem h)(a \<mapsto> b)\<rparr>) (a + 1) bs)"

definition region :: "addr \<Rightarrow> nat \<Rightarrow> addr set" where
  "region a n = {a..<a + int n}"

definition mapped :: "heap \<Rightarrow> addr \<Rightarrow> nat \<Rightarrow> bool" where
  "mapped h a n \<longleftrightarrow> region a n \<subseteq> dom (mem h)"

lemma region_0 [simp]: "region a 0 = {}"
  by (simp add: region_def)

lemma region_Suc: "region a (Suc n) = insert a (region (a + 1) n)"
  by (auto simp: region_def)

lemma mapped_0 [simp]: "mapped h a 0"
  by (simp add: mapped_def)

lemma mapped_Suc: "mapped h a (Suc n) \<longleftrightarrow> a \<in> dom (mem h) \<and> mapped h (a + 1) n"
  by (simp add: mapped_def region_Suc)

lemma mapped_sub:
  assumes "mapped h a n" "a \<le> b" "b + int m \<le> a + int n"
  shows "mapped h b m"
proof -
  have "region b m \<subseteq> region a n" using assms(2,3) by (auto simp: region_def)
  with assms(1) show ?thesis by (auto simp: mapped_def)
qed

lemma load_bytes_length: "load_bytes h a n = Some bs \<Longrightarrow> length bs = n"
  by (induction n arbitrary: a bs) (auto split: option.splits)

lemma load_bytes_iff: "(\<exists>bs. load_bytes h a n = Some bs) \<longleftrightarrow> mapped h a n"
proof (induction n arbitrary: a)
  case 0
  then show ?case by simp
next
  case (Suc n)
  show ?case
  proof (cases "mem h a")
    case None
    then show ?thesis by (auto simp: mapped_Suc)
  next
    case (Some b)
    then show ?thesis using Suc [of "a + 1"] by (auto simp: mapped_Suc)
  qed
qed

lemma load_bytes_mapped: "mapped h a n \<Longrightarrow> \<exists>bs. load_bytes h a n = Some bs \<and> length bs = n"
  using load_bytes_iff load_bytes_length by blast

lemma load_bytes_cong:
  "(\<And>x. x \<in> region a n \<Longrightarrow> mem h x = mem h' x) \<Longrightarrow> load_bytes h a n = load_bytes h' a n"
proof (induction n arbitrary: a)
  case 0
  then show ?case by simp
next
  case (Suc n)
  have "mem h a = mem h' a" using Suc.prems by (simp add: region_Suc)
  moreover have "load_bytes h (a + 1) n = load_bytes h' (a + 1) n"
    using Suc.prems by (intro Suc.IH) (simp add: region_Suc)
  ultimately show ?case by (auto split: option.split)
qed

lemma load_bytes_append:
  "load_bytes h a (m + n) = (case load_bytes h a m of None \<Rightarrow> None
     | Some xs \<Rightarrow> map_option ((@) xs) (load_bytes h (a + int m) n))"
proof (induction m arbitrary: a)
  case 0
  then show ?case by (cases "load_bytes h a n") auto
next
  case (Suc m)
  have a: "a + int (Suc m) = a + 1 + int m" by simp
  have c: "((@) (b # bs)) = ((#) b) \<circ> ((@) bs)" for b :: byte and bs by auto
  show ?case using Suc [of "a + 1"]
    by (auto simp: a c option.map_comp split: option.splits simp del: of_nat_Suc)
qed

lemma store_bytes_frame:
  assumes "store_bytes h a bs = Some h'"
  shows "brk h' = brk h \<and> heap_limit h' = heap_limit h \<and> junk h' = junk h \<and> live h' = live h
    \<and> dom (mem h') = dom (mem h) \<and> (\<forall>x. x \<notin> region a (length bs) \<longrightarrow> mem h' x = mem h x)"
  using assms
proof (induction bs arbitrary: h a)
  case Nil
  then show ?case by simp
next
  case (Cons b bs)
  from Cons.prems obtain c where c: "mem h a = Some c"
    and s: "store_bytes (h\<lparr>mem := (mem h)(a \<mapsto> b)\<rparr>) (a + 1) bs = Some h'"
    by (auto split: option.splits)
  have "dom ((mem h)(a \<mapsto> b)) = dom (mem h)" using c by auto
  moreover have "mem (h\<lparr>mem := (mem h)(a \<mapsto> b)\<rparr>) = (mem h)(a \<mapsto> b)" by simp
  ultimately show ?case using Cons.IH [OF s] by (auto simp: region_Suc simp del: dom_fun_upd)
qed

lemma store_bytes_iff: "(\<exists>h'. store_bytes h a bs = Some h') \<longleftrightarrow> mapped h a (length bs)"
proof (induction bs arbitrary: h a)
  case Nil
  then show ?case by simp
next
  case (Cons b bs)
  show ?case
  proof (cases "mem h a")
    case None
    then show ?thesis by (auto simp: mapped_Suc)
  next
    case (Some c)
    have "mapped (h\<lparr>mem := (mem h)(a \<mapsto> b)\<rparr>) (a + 1) (length bs) \<longleftrightarrow> mapped h (a + 1) (length bs)"
      using Some by (auto simp: mapped_def)
    then show ?thesis using Some Cons.IH [of "h\<lparr>mem := (mem h)(a \<mapsto> b)\<rparr>" "a + 1"]
      by (auto simp: mapped_Suc)
  qed
qed

lemma load_store_same: "store_bytes h a bs = Some h' \<Longrightarrow> load_bytes h' a (length bs) = Some bs"
proof (induction bs arbitrary: h a)
  case Nil
  then show ?case by simp
next
  case (Cons b bs)
  from Cons.prems have s: "store_bytes (h\<lparr>mem := (mem h)(a \<mapsto> b)\<rparr>) (a + 1) bs = Some h'"
    by (auto split: option.splits)
  have "mem h' a = Some b"
    using store_bytes_frame [OF s] by (simp add: region_def)
  with Cons.IH [OF s] show ?case by simp
qed

lemma load_store_other:
  "store_bytes h a bs = Some h' \<Longrightarrow> region a (length bs) \<inter> region b n = {} \<Longrightarrow>
   load_bytes h' b n = load_bytes h b n"
  using store_bytes_frame [of h a bs h'] by (intro load_bytes_cong) blast

lemma store_bytes_mapped: "store_bytes h a bs = Some h' \<Longrightarrow> mapped h' b n \<longleftrightarrow> mapped h b n"
  using store_bytes_frame by (simp add: mapped_def)

section \<open>Typed access\<close>

definition load_nat :: "heap \<Rightarrow> nat \<Rightarrow> addr \<Rightarrow> nat option" where
  "load_nat h n a = map_option nat_of_le (load_bytes h a n)"

definition store_nat :: "heap \<Rightarrow> nat \<Rightarrow> addr \<Rightarrow> nat \<Rightarrow> heap option" where
  "store_nat h n a v = store_bytes h a (le_of_nat n v)"

definition load_ptr :: "heap \<Rightarrow> addr \<Rightarrow> addr option" where
  "load_ptr h a = map_option int (load_nat h 8 a)"

definition store_ptr :: "heap \<Rightarrow> addr \<Rightarrow> addr \<Rightarrow> heap option" where
  "store_ptr h a p = store_nat h 8 a (nat p)"

definition load_u32 :: "heap \<Rightarrow> addr \<Rightarrow> uint32 option" where
  "load_u32 h a = map_option word_of_nat (load_nat h 4 a)"

definition store_u32 :: "heap \<Rightarrow> addr \<Rightarrow> uint32 \<Rightarrow> heap option" where
  "store_u32 h a w = store_nat h 4 a (unat w)"

definition store_bool :: "heap \<Rightarrow> addr \<Rightarrow> bool \<Rightarrow> heap option" where
  "store_bool h a b = store_bytes h a [if b then 1 else 0]"

definition fill_zero :: "heap \<Rightarrow> addr \<Rightarrow> nat \<Rightarrow> heap option" where
  \<comment> \<open>\<open>memset(a, 0, n)\<close>\<close>
  "fill_zero h a n = store_bytes h a (replicate n 0)"

definition store_prefix :: "heap \<Rightarrow> addr \<Rightarrow> byte list \<Rightarrow> nat \<Rightarrow> heap option" where
  \<comment> \<open>\<open>memcpy(a, bs, n)\<close> from a constant object holding \<open>bs\<close>\<close>
  "store_prefix h a bs n = (if length bs < n then None else store_bytes h a (take n bs))"

lemma load_store_nat_same:
  "store_nat h n a v = Some h' \<Longrightarrow> load_nat h' n a = Some (v mod 256 ^ n)"
  using load_store_same [of h a "le_of_nat n v" h']
  by (simp add: store_nat_def load_nat_def nat_of_le_of_nat)

lemma load_store_u32_same: "store_u32 h a w = Some h' \<Longrightarrow> load_u32 h' a = Some w"
  using load_store_nat_same [of h 4 a "unat w" h'] unsigned_less [where ?'a = nat, of w]
  by (simp add: store_u32_def load_u32_def word_unat_eq_iff unat_of_nat)

lemma load_store_ptr_same:
  "store_ptr h a p = Some h' \<Longrightarrow> 0 \<le> p \<Longrightarrow> p < 2 ^ 64 \<Longrightarrow> load_ptr h' a = Some p"
  using load_store_nat_same [of h 8 a "nat p" h']
  by (simp add: store_ptr_def load_ptr_def)

section \<open>Dynamic memory and automatic variables\<close>

text \<open>\<open>realloc(p, n)\<close> for positive \<open>n\<close>: the new address (0 is NULL) and the heap after it.\<close>

definition block_copy :: "heap \<Rightarrow> addr \<Rightarrow> nat \<Rightarrow> addr \<Rightarrow> nat \<Rightarrow> addr \<Rightarrow> byte option" where
  "block_copy h old m a n x =
     (if x \<in> region a n
      then (case (if x - a < int m then mem h (old + (x - a)) else None) of
              Some b \<Rightarrow> Some b | None \<Rightarrow> Some (junk h x))
      else mem h x)"

definition pb_realloc :: "heap \<Rightarrow> addr \<Rightarrow> nat \<Rightarrow> (addr \<times> heap) option" where
  "pb_realloc h p n =
     (case (if p = 0 then Some 0 else live h p) of
        None \<Rightarrow> None
      | Some old \<Rightarrow>
          if brk h + int n > heap_limit h then Some (0, h)
          else let a = brk h;
                   new = block_copy h p (min old n) a n
               in Some (a, h\<lparr>mem := (\<lambda>x. if p \<noteq> 0 \<and> x \<in> region p old then None else new x),
                              brk := a + int n,
                              live := (live h)(p := None, a := Some n)\<rparr>))"

definition pb_free :: "heap \<Rightarrow> addr \<Rightarrow> heap option" where
  "pb_free h p =
     (if p = 0 then Some h
      else case live h p of None \<Rightarrow> None
        | Some n \<Rightarrow> Some (h\<lparr>mem := (\<lambda>x. if x \<in> region p n then None else mem h x),
                            live := (live h)(p := None)\<rparr>))"

text \<open>An automatic variable of \<open>n\<close> bytes holding \<open>bs\<close>: it gets an address no object has, and is
  unmapped when its function returns.\<close>

definition enter_local :: "heap \<Rightarrow> byte list \<Rightarrow> addr \<times> heap" where
  "enter_local h bs = (brk h, h\<lparr>mem := (\<lambda>x. if x \<in> region (brk h) (length bs)
                                          then Some (bs ! nat (x - brk h)) else mem h x),
                                brk := brk h + int (length bs)\<rparr>)"

definition leave_local :: "heap \<Rightarrow> addr \<Rightarrow> nat \<Rightarrow> heap" where
  "leave_local h a n = h\<lparr>mem := (\<lambda>x. if x \<in> region a n then None else mem h x)\<rparr>"

text \<open>What the runtime guarantees of the heap: nothing is mapped at NULL or from \<open>brk\<close> on, every
  pointer fits in eight bytes, and the live blocks are mapped and apart from each other.\<close>

definition heap_ok :: "heap \<Rightarrow> bool" where
  "heap_ok h \<longleftrightarrow> 0 < brk h \<and> heap_limit h < 2 ^ 64
     \<and> (\<forall>x. x \<le> 0 \<or> brk h \<le> x \<longrightarrow> mem h x = None)
     \<and> (\<forall>p n. live h p = Some n \<longrightarrow> 0 < p \<and> p + int n \<le> brk h \<and> mapped h p n)
     \<and> (\<forall>p n q m. live h p = Some n \<and> live h q = Some m \<and> p \<noteq> q \<longrightarrow> region p n \<inter> region q m = {})"

lemma store_bytes_heap_ok: "store_bytes h a bs = Some h' \<Longrightarrow> heap_ok h \<Longrightarrow> heap_ok h'"
  using store_bytes_frame [of h a bs h'] store_bytes_mapped [of h a bs h']
  by (simp add: heap_ok_def) (metis domIff)

end
