(* ===== verification/Pb_Types.thy ===== *)
theory Pb_Types
  imports CMemory
begin

unbundle bit_operations_syntax

text \<open>
  \<open>nanopb/pb.h\<close>: the field type codes, the field descriptor \<open>pb_field_t\<close>, the macros that fill
  descriptors from the layout of a C structure, the layout of the run-time structures
  (\<open>pb_bytes_array_t\<close>, \<open>pb_callback_t\<close>, \<open>pb_extension_t\<close>) and the error macros.  The
  configuration is the one of the build settings of the repository: \<open>PB_FIELD_32BIT\<close>,
  \<open>PB_ENABLE_MALLOC\<close>, \<open>PB_NO_PACKED_STRUCTS\<close>, 64-bit integers and error messages on.
\<close>

section \<open>Field type codes\<close>

type_synonym pb_type_t = byte
type_synonym pb_size_t = uint32
type_synonym pb_wire_type = nat

abbreviation (input) PB_MAX_REQUIRED_FIELDS :: nat where "PB_MAX_REQUIRED_FIELDS \<equiv> 64"

abbreviation (input) PB_LTYPE_BOOL :: pb_type_t where "PB_LTYPE_BOOL \<equiv> 0x00"
abbreviation (input) PB_LTYPE_VARINT :: pb_type_t where "PB_LTYPE_VARINT \<equiv> 0x01"
abbreviation (input) PB_LTYPE_UVARINT :: pb_type_t where "PB_LTYPE_UVARINT \<equiv> 0x02"
abbreviation (input) PB_LTYPE_SVARINT :: pb_type_t where "PB_LTYPE_SVARINT \<equiv> 0x03"
abbreviation (input) PB_LTYPE_FIXED32 :: pb_type_t where "PB_LTYPE_FIXED32 \<equiv> 0x04"
abbreviation (input) PB_LTYPE_FIXED64 :: pb_type_t where "PB_LTYPE_FIXED64 \<equiv> 0x05"
abbreviation (input) PB_LTYPE_LAST_PACKABLE :: pb_type_t where "PB_LTYPE_LAST_PACKABLE \<equiv> 0x05"
abbreviation (input) PB_LTYPE_BYTES :: pb_type_t where "PB_LTYPE_BYTES \<equiv> 0x06"
abbreviation (input) PB_LTYPE_STRING :: pb_type_t where "PB_LTYPE_STRING \<equiv> 0x07"
abbreviation (input) PB_LTYPE_SUBMESSAGE :: pb_type_t where "PB_LTYPE_SUBMESSAGE \<equiv> 0x08"
abbreviation (input) PB_LTYPE_EXTENSION :: pb_type_t where "PB_LTYPE_EXTENSION \<equiv> 0x09"
abbreviation (input) PB_LTYPE_FIXED_LENGTH_BYTES :: pb_type_t
  where "PB_LTYPE_FIXED_LENGTH_BYTES \<equiv> 0x0A"
abbreviation (input) PB_LTYPES_COUNT :: nat where "PB_LTYPES_COUNT \<equiv> 0x0B"
abbreviation (input) PB_LTYPE_MASK :: pb_type_t where "PB_LTYPE_MASK \<equiv> 0x0F"

abbreviation (input) PB_HTYPE_REQUIRED :: pb_type_t where "PB_HTYPE_REQUIRED \<equiv> 0x00"
abbreviation (input) PB_HTYPE_OPTIONAL :: pb_type_t where "PB_HTYPE_OPTIONAL \<equiv> 0x10"
abbreviation (input) PB_HTYPE_REPEATED :: pb_type_t where "PB_HTYPE_REPEATED \<equiv> 0x20"
abbreviation (input) PB_HTYPE_ONEOF :: pb_type_t where "PB_HTYPE_ONEOF \<equiv> 0x30"
abbreviation (input) PB_HTYPE_MASK :: pb_type_t where "PB_HTYPE_MASK \<equiv> 0x30"

abbreviation (input) PB_ATYPE_STATIC :: pb_type_t where "PB_ATYPE_STATIC \<equiv> 0x00"
abbreviation (input) PB_ATYPE_POINTER :: pb_type_t where "PB_ATYPE_POINTER \<equiv> 0x80"
abbreviation (input) PB_ATYPE_CALLBACK :: pb_type_t where "PB_ATYPE_CALLBACK \<equiv> 0x40"
abbreviation (input) PB_ATYPE_MASK :: pb_type_t where "PB_ATYPE_MASK \<equiv> 0xC0"

definition PB_ATYPE :: "pb_type_t \<Rightarrow> pb_type_t" where "PB_ATYPE x = x AND PB_ATYPE_MASK"
definition PB_HTYPE :: "pb_type_t \<Rightarrow> pb_type_t" where "PB_HTYPE x = x AND PB_HTYPE_MASK"
definition PB_LTYPE :: "pb_type_t \<Rightarrow> pb_type_t" where "PB_LTYPE x = x AND PB_LTYPE_MASK"

definition PB_SIZE_MAX :: pb_size_t where "PB_SIZE_MAX = - 1"

abbreviation (input) PB_WT_VARINT :: pb_wire_type where "PB_WT_VARINT \<equiv> 0"
abbreviation (input) PB_WT_64BIT :: pb_wire_type where "PB_WT_64BIT \<equiv> 1"
abbreviation (input) PB_WT_STRING :: pb_wire_type where "PB_WT_STRING \<equiv> 2"
abbreviation (input) PB_WT_32BIT :: pb_wire_type where "PB_WT_32BIT \<equiv> 5"

section \<open>Field descriptors\<close>

text \<open>The \<open>ptr\<close> member points to the descriptors of a submessage, to the bytes of a default
  value, or is NULL.  A message is described by the array of its descriptors, which ends with
  \<open>PB_LAST_FIELD\<close>; descriptors nest as deep as the message types do.\<close>

datatype pb_field =
  Pb_field (fld_tag: pb_size_t) (fld_type: pb_type_t) (data_offset: pb_size_t)
    (size_offset: "32 word") (data_size: pb_size_t) (array_size: pb_size_t) (fld_ptr: pb_ptr)
and pb_ptr = PtrNull | PtrFields "pb_field list" | PtrDefault "byte list"

definition PB_LAST_FIELD :: pb_field where
  "PB_LAST_FIELD = Pb_field 0 0 0 0 0 0 PtrNull"

section \<open>Structure layouts and the descriptor macros\<close>

text \<open>What the macros ask the compiler about a structure type: where a member starts, how large
  it is, and how large the element of an array or the target of a pointer is.\<close>

record cstruct =
  offsetof :: "string \<Rightarrow> nat"
  membersize :: "string \<Rightarrow> nat"
  itemsize :: "string \<Rightarrow> nat"

definition pb_membersize :: "cstruct \<Rightarrow> string \<Rightarrow> nat" where
  "pb_membersize st m = membersize st m"

definition pb_arraysize :: "cstruct \<Rightarrow> string \<Rightarrow> nat" where
  "pb_arraysize st m = membersize st m div itemsize st m"

definition pb_delta :: "cstruct \<Rightarrow> string \<Rightarrow> string \<Rightarrow> int" where
  "pb_delta st m1 m2 = int (offsetof st m1) - int (offsetof st m2)"

datatype placement = FIRST | OTHER | UNION | CHOOSE
datatype rules = REQUIRED | OPTIONAL | SINGULAR | REPEATED | OPTEXT
datatype allocation = STATIC | POINTER | CALLBACK
datatype proto_type = BOOL | BYTES | DOUBLE | ENUM | UENUM | FIXED32 | FIXED64 | FLOAT | INT32
  | INT64 | MESSAGE | SFIXED32 | SFIXED64 | SINT32 | SINT64 | STRING | UINT32 | UINT64
  | EXTENSION | FIXED_LENGTH_BYTES

definition PB_DATAOFFSET_FIRST :: "cstruct \<Rightarrow> string \<Rightarrow> string \<Rightarrow> pb_size_t" where
  "PB_DATAOFFSET_FIRST st m1 m2 = word_of_nat (offsetof st m1)"

definition PB_DATAOFFSET_OTHER :: "cstruct \<Rightarrow> string \<Rightarrow> string \<Rightarrow> pb_size_t" where
  "PB_DATAOFFSET_OTHER st m1 m2 =
     word_of_int (int (offsetof st m1) - int (offsetof st m2) - int (pb_membersize st m2))"

definition PB_DATAOFFSET_UNION :: "cstruct \<Rightarrow> string \<Rightarrow> string \<Rightarrow> pb_size_t" where
  "PB_DATAOFFSET_UNION st m1 m2 = PB_SIZE_MAX"

definition PB_DATAOFFSET_CHOOSE :: "cstruct \<Rightarrow> string \<Rightarrow> string \<Rightarrow> pb_size_t" where
  "PB_DATAOFFSET_CHOOSE st m1 m2 =
     (if offsetof st m1 = offsetof st m2 then PB_DATAOFFSET_FIRST st m1 m2
      else PB_DATAOFFSET_OTHER st m1 m2)"

fun PB_DATAOFFSET :: "placement \<Rightarrow> cstruct \<Rightarrow> string \<Rightarrow> string \<Rightarrow> pb_size_t" where
  "PB_DATAOFFSET FIRST = PB_DATAOFFSET_FIRST"
| "PB_DATAOFFSET OTHER = PB_DATAOFFSET_OTHER"
| "PB_DATAOFFSET UNION = PB_DATAOFFSET_UNION"
| "PB_DATAOFFSET CHOOSE = PB_DATAOFFSET_CHOOSE"

fun PB_LTYPE_MAP :: "proto_type \<Rightarrow> pb_type_t" where
  "PB_LTYPE_MAP BOOL = PB_LTYPE_BOOL"
| "PB_LTYPE_MAP BYTES = PB_LTYPE_BYTES"
| "PB_LTYPE_MAP DOUBLE = PB_LTYPE_FIXED64"
| "PB_LTYPE_MAP ENUM = PB_LTYPE_VARINT"
| "PB_LTYPE_MAP UENUM = PB_LTYPE_UVARINT"
| "PB_LTYPE_MAP FIXED32 = PB_LTYPE_FIXED32"
| "PB_LTYPE_MAP FIXED64 = PB_LTYPE_FIXED64"
| "PB_LTYPE_MAP FLOAT = PB_LTYPE_FIXED32"
| "PB_LTYPE_MAP INT32 = PB_LTYPE_VARINT"
| "PB_LTYPE_MAP INT64 = PB_LTYPE_VARINT"
| "PB_LTYPE_MAP MESSAGE = PB_LTYPE_SUBMESSAGE"
| "PB_LTYPE_MAP SFIXED32 = PB_LTYPE_FIXED32"
| "PB_LTYPE_MAP SFIXED64 = PB_LTYPE_FIXED64"
| "PB_LTYPE_MAP SINT32 = PB_LTYPE_SVARINT"
| "PB_LTYPE_MAP SINT64 = PB_LTYPE_SVARINT"
| "PB_LTYPE_MAP STRING = PB_LTYPE_STRING"
| "PB_LTYPE_MAP UINT32 = PB_LTYPE_UVARINT"
| "PB_LTYPE_MAP UINT64 = PB_LTYPE_UVARINT"
| "PB_LTYPE_MAP EXTENSION = PB_LTYPE_EXTENSION"
| "PB_LTYPE_MAP FIXED_LENGTH_BYTES = PB_LTYPE_FIXED_LENGTH_BYTES"

text \<open>One definition per initialiser macro; \<open>fd\<close> is the data offset, \<open>m\<close> the member.\<close>

definition PB_REQUIRED_STATIC ::
  "pb_size_t \<Rightarrow> cstruct \<Rightarrow> string \<Rightarrow> pb_size_t \<Rightarrow> pb_type_t \<Rightarrow> pb_ptr \<Rightarrow> pb_field" where
  "PB_REQUIRED_STATIC tag st m fd ltype ptr =
     Pb_field tag (PB_ATYPE_STATIC OR PB_HTYPE_REQUIRED OR ltype)
       fd 0 (word_of_nat (pb_membersize st m)) 0 ptr"

definition PB_OPTIONAL_STATIC ::
  "pb_size_t \<Rightarrow> cstruct \<Rightarrow> string \<Rightarrow> pb_size_t \<Rightarrow> pb_type_t \<Rightarrow> pb_ptr \<Rightarrow> pb_field" where
  "PB_OPTIONAL_STATIC tag st m fd ltype ptr =
     Pb_field tag (PB_ATYPE_STATIC OR PB_HTYPE_OPTIONAL OR ltype)
       fd (word_of_int (pb_delta st (''has_'' @ m) m)) (word_of_nat (pb_membersize st m)) 0 ptr"

definition PB_SINGULAR_STATIC ::
  "pb_size_t \<Rightarrow> cstruct \<Rightarrow> string \<Rightarrow> pb_size_t \<Rightarrow> pb_type_t \<Rightarrow> pb_ptr \<Rightarrow> pb_field" where
  "PB_SINGULAR_STATIC tag st m fd ltype ptr =
     Pb_field tag (PB_ATYPE_STATIC OR PB_HTYPE_OPTIONAL OR ltype)
       fd 0 (word_of_nat (pb_membersize st m)) 0 ptr"

definition PB_REPEATED_STATIC ::
  "pb_size_t \<Rightarrow> cstruct \<Rightarrow> string \<Rightarrow> pb_size_t \<Rightarrow> pb_type_t \<Rightarrow> pb_ptr \<Rightarrow> pb_field" where
  "PB_REPEATED_STATIC tag st m fd ltype ptr =
     Pb_field tag (PB_ATYPE_STATIC OR PB_HTYPE_REPEATED OR ltype)
       fd (word_of_int (pb_delta st (m @ ''_count'') m)) (word_of_nat (itemsize st m))
       (word_of_nat (pb_arraysize st m)) ptr"

definition PB_REQUIRED_POINTER ::
  "pb_size_t \<Rightarrow> cstruct \<Rightarrow> string \<Rightarrow> pb_size_t \<Rightarrow> pb_type_t \<Rightarrow> pb_ptr \<Rightarrow> pb_field" where
  "PB_REQUIRED_POINTER tag st m fd ltype ptr =
     Pb_field tag (PB_ATYPE_POINTER OR PB_HTYPE_REQUIRED OR ltype)
       fd 0 (word_of_nat (itemsize st m)) 0 ptr"

definition PB_OPTIONAL_POINTER ::
  "pb_size_t \<Rightarrow> cstruct \<Rightarrow> string \<Rightarrow> pb_size_t \<Rightarrow> pb_type_t \<Rightarrow> pb_ptr \<Rightarrow> pb_field" where
  "PB_OPTIONAL_POINTER tag st m fd ltype ptr =
     Pb_field tag (PB_ATYPE_POINTER OR PB_HTYPE_OPTIONAL OR ltype)
       fd 0 (word_of_nat (itemsize st m)) 0 ptr"

definition PB_SINGULAR_POINTER ::
  "pb_size_t \<Rightarrow> cstruct \<Rightarrow> string \<Rightarrow> pb_size_t \<Rightarrow> pb_type_t \<Rightarrow> pb_ptr \<Rightarrow> pb_field" where
  "PB_SINGULAR_POINTER tag st m fd ltype ptr =
     Pb_field tag (PB_ATYPE_POINTER OR PB_HTYPE_OPTIONAL OR ltype)
       fd 0 (word_of_nat (itemsize st m)) 0 ptr"

definition PB_REPEATED_POINTER ::
  "pb_size_t \<Rightarrow> cstruct \<Rightarrow> string \<Rightarrow> pb_size_t \<Rightarrow> pb_type_t \<Rightarrow> pb_ptr \<Rightarrow> pb_field" where
  "PB_REPEATED_POINTER tag st m fd ltype ptr =
     Pb_field tag (PB_ATYPE_POINTER OR PB_HTYPE_REPEATED OR ltype)
       fd (word_of_int (pb_delta st (m @ ''_count'') m)) (word_of_nat (itemsize st m)) 0 ptr"

definition PB_REQUIRED_CALLBACK ::
  "pb_size_t \<Rightarrow> cstruct \<Rightarrow> string \<Rightarrow> pb_size_t \<Rightarrow> pb_type_t \<Rightarrow> pb_ptr \<Rightarrow> pb_field" where
  "PB_REQUIRED_CALLBACK tag st m fd ltype ptr =
     Pb_field tag (PB_ATYPE_CALLBACK OR PB_HTYPE_REQUIRED OR ltype)
       fd 0 (word_of_nat (pb_membersize st m)) 0 ptr"

definition PB_OPTIONAL_CALLBACK ::
  "pb_size_t \<Rightarrow> cstruct \<Rightarrow> string \<Rightarrow> pb_size_t \<Rightarrow> pb_type_t \<Rightarrow> pb_ptr \<Rightarrow> pb_field" where
  "PB_OPTIONAL_CALLBACK tag st m fd ltype ptr =
     Pb_field tag (PB_ATYPE_CALLBACK OR PB_HTYPE_OPTIONAL OR ltype)
       fd 0 (word_of_nat (pb_membersize st m)) 0 ptr"

definition PB_SINGULAR_CALLBACK ::
  "pb_size_t \<Rightarrow> cstruct \<Rightarrow> string \<Rightarrow> pb_size_t \<Rightarrow> pb_type_t \<Rightarrow> pb_ptr \<Rightarrow> pb_field" where
  "PB_SINGULAR_CALLBACK tag st m fd ltype ptr =
     Pb_field tag (PB_ATYPE_CALLBACK OR PB_HTYPE_OPTIONAL OR ltype)
       fd 0 (word_of_nat (pb_membersize st m)) 0 ptr"

definition PB_REPEATED_CALLBACK ::
  "pb_size_t \<Rightarrow> cstruct \<Rightarrow> string \<Rightarrow> pb_size_t \<Rightarrow> pb_type_t \<Rightarrow> pb_ptr \<Rightarrow> pb_field" where
  "PB_REPEATED_CALLBACK tag st m fd ltype ptr =
     Pb_field tag (PB_ATYPE_CALLBACK OR PB_HTYPE_REPEATED OR ltype)
       fd 0 (word_of_nat (pb_membersize st m)) 0 ptr"

definition PB_OPTEXT_STATIC ::
  "pb_size_t \<Rightarrow> cstruct \<Rightarrow> string \<Rightarrow> pb_size_t \<Rightarrow> pb_type_t \<Rightarrow> pb_ptr \<Rightarrow> pb_field" where
  "PB_OPTEXT_STATIC tag st m fd ltype ptr =
     Pb_field tag (PB_ATYPE_STATIC OR PB_HTYPE_REQUIRED OR ltype)
       0 0 (word_of_nat (pb_membersize st m)) 0 ptr"

definition PB_OPTEXT_POINTER ::
  "pb_size_t \<Rightarrow> cstruct \<Rightarrow> string \<Rightarrow> pb_size_t \<Rightarrow> pb_type_t \<Rightarrow> pb_ptr \<Rightarrow> pb_field" where
  "PB_OPTEXT_POINTER tag st m fd ltype ptr = PB_OPTIONAL_POINTER tag st m fd ltype ptr"

definition PB_OPTEXT_CALLBACK ::
  "pb_size_t \<Rightarrow> cstruct \<Rightarrow> string \<Rightarrow> pb_size_t \<Rightarrow> pb_type_t \<Rightarrow> pb_ptr \<Rightarrow> pb_field" where
  "PB_OPTEXT_CALLBACK tag st m fd ltype ptr = PB_OPTIONAL_CALLBACK tag st m fd ltype ptr"

fun PB_RULES_ALLOCATION :: "rules \<Rightarrow> allocation \<Rightarrow>
  pb_size_t \<Rightarrow> cstruct \<Rightarrow> string \<Rightarrow> pb_size_t \<Rightarrow> pb_type_t \<Rightarrow> pb_ptr \<Rightarrow> pb_field" where
  "PB_RULES_ALLOCATION REQUIRED STATIC = PB_REQUIRED_STATIC"
| "PB_RULES_ALLOCATION OPTIONAL STATIC = PB_OPTIONAL_STATIC"
| "PB_RULES_ALLOCATION SINGULAR STATIC = PB_SINGULAR_STATIC"
| "PB_RULES_ALLOCATION REPEATED STATIC = PB_REPEATED_STATIC"
| "PB_RULES_ALLOCATION OPTEXT STATIC = PB_OPTEXT_STATIC"
| "PB_RULES_ALLOCATION REQUIRED POINTER = PB_REQUIRED_POINTER"
| "PB_RULES_ALLOCATION OPTIONAL POINTER = PB_OPTIONAL_POINTER"
| "PB_RULES_ALLOCATION SINGULAR POINTER = PB_SINGULAR_POINTER"
| "PB_RULES_ALLOCATION REPEATED POINTER = PB_REPEATED_POINTER"
| "PB_RULES_ALLOCATION OPTEXT POINTER = PB_OPTEXT_POINTER"
| "PB_RULES_ALLOCATION REQUIRED CALLBACK = PB_REQUIRED_CALLBACK"
| "PB_RULES_ALLOCATION OPTIONAL CALLBACK = PB_OPTIONAL_CALLBACK"
| "PB_RULES_ALLOCATION SINGULAR CALLBACK = PB_SINGULAR_CALLBACK"
| "PB_RULES_ALLOCATION REPEATED CALLBACK = PB_REPEATED_CALLBACK"
| "PB_RULES_ALLOCATION OPTEXT CALLBACK = PB_OPTEXT_CALLBACK"

definition PB_FIELD :: "pb_size_t \<Rightarrow> proto_type \<Rightarrow> rules \<Rightarrow> allocation \<Rightarrow> placement \<Rightarrow> cstruct \<Rightarrow>
  string \<Rightarrow> string \<Rightarrow> pb_ptr \<Rightarrow> pb_field" where
  "PB_FIELD tag ty rl al pl message field prevfield ptr =
     PB_RULES_ALLOCATION rl al tag message field
       (PB_DATAOFFSET pl message field prevfield) (PB_LTYPE_MAP ty) ptr"

definition PB_REPEATED_FIXED_COUNT :: "pb_size_t \<Rightarrow> proto_type \<Rightarrow> placement \<Rightarrow> cstruct \<Rightarrow>
  string \<Rightarrow> string \<Rightarrow> pb_ptr \<Rightarrow> pb_field" where
  "PB_REPEATED_FIXED_COUNT tag ty pl message field prevfield ptr =
     Pb_field tag (PB_ATYPE_STATIC OR PB_HTYPE_REPEATED OR PB_LTYPE_MAP ty)
       (PB_DATAOFFSET pl message field prevfield) 0 (word_of_nat (itemsize message field))
       (word_of_nat (pb_arraysize message field)) ptr"

text \<open>The members of a union \<open>u\<close> are written \<open>u.m\<close>; its selector is \<open>which_u\<close>.\<close>

definition PB_ONEOF_STATIC :: "string \<Rightarrow>
  pb_size_t \<Rightarrow> cstruct \<Rightarrow> string \<Rightarrow> pb_size_t \<Rightarrow> pb_type_t \<Rightarrow> pb_ptr \<Rightarrow> pb_field" where
  "PB_ONEOF_STATIC u tag st m fd ltype ptr =
     Pb_field tag (PB_ATYPE_STATIC OR PB_HTYPE_ONEOF OR ltype)
       fd (word_of_int (pb_delta st (''which_'' @ u) (u @ ''.'' @ m)))
       (word_of_nat (pb_membersize st (u @ ''.'' @ m))) 0 ptr"

definition PB_ONEOF_POINTER :: "string \<Rightarrow>
  pb_size_t \<Rightarrow> cstruct \<Rightarrow> string \<Rightarrow> pb_size_t \<Rightarrow> pb_type_t \<Rightarrow> pb_ptr \<Rightarrow> pb_field" where
  "PB_ONEOF_POINTER u tag st m fd ltype ptr =
     Pb_field tag (PB_ATYPE_POINTER OR PB_HTYPE_ONEOF OR ltype)
       fd (word_of_int (pb_delta st (''which_'' @ u) (u @ ''.'' @ m)))
       (word_of_nat (itemsize st (u @ ''.'' @ m))) 0 ptr"

text \<open>The macro exists for static and for pointer allocation only; there is no initialiser for a
  callback inside a union, so that case is not a field.\<close>

definition PB_ONEOF_FIELD :: "string \<Rightarrow> pb_size_t \<Rightarrow> proto_type \<Rightarrow> rules \<Rightarrow> allocation \<Rightarrow>
  placement \<Rightarrow> cstruct \<Rightarrow> string \<Rightarrow> string \<Rightarrow> pb_ptr \<Rightarrow> pb_field option" where
  "PB_ONEOF_FIELD u tag ty rl al pl message field prevfield ptr =
     (let fd = PB_DATAOFFSET pl message (u @ ''.'' @ field) prevfield
      in case al of
           STATIC \<Rightarrow> Some (PB_ONEOF_STATIC u tag message field fd (PB_LTYPE_MAP ty) ptr)
         | POINTER \<Rightarrow> Some (PB_ONEOF_POINTER u tag message field fd (PB_LTYPE_MAP ty) ptr)
         | CALLBACK \<Rightarrow> None)"

definition PB_ANONYMOUS_ONEOF_STATIC :: "string \<Rightarrow>
  pb_size_t \<Rightarrow> cstruct \<Rightarrow> string \<Rightarrow> pb_size_t \<Rightarrow> pb_type_t \<Rightarrow> pb_ptr \<Rightarrow> pb_field" where
  "PB_ANONYMOUS_ONEOF_STATIC u tag st m fd ltype ptr =
     Pb_field tag (PB_ATYPE_STATIC OR PB_HTYPE_ONEOF OR ltype)
       fd (word_of_int (pb_delta st (''which_'' @ u) m)) (word_of_nat (pb_membersize st m)) 0 ptr"

definition PB_ANONYMOUS_ONEOF_POINTER :: "string \<Rightarrow>
  pb_size_t \<Rightarrow> cstruct \<Rightarrow> string \<Rightarrow> pb_size_t \<Rightarrow> pb_type_t \<Rightarrow> pb_ptr \<Rightarrow> pb_field" where
  "PB_ANONYMOUS_ONEOF_POINTER u tag st m fd ltype ptr =
     Pb_field tag (PB_ATYPE_POINTER OR PB_HTYPE_ONEOF OR ltype)
       fd (word_of_int (pb_delta st (''which_'' @ u) m)) (word_of_nat (itemsize st m)) 0 ptr"

definition PB_ANONYMOUS_ONEOF_FIELD :: "string \<Rightarrow> pb_size_t \<Rightarrow> proto_type \<Rightarrow> rules \<Rightarrow> allocation \<Rightarrow>
  placement \<Rightarrow> cstruct \<Rightarrow> string \<Rightarrow> string \<Rightarrow> pb_ptr \<Rightarrow> pb_field option" where
  "PB_ANONYMOUS_ONEOF_FIELD u tag ty rl al pl message field prevfield ptr =
     (let fd = PB_DATAOFFSET pl message field prevfield
      in case al of
           STATIC \<Rightarrow> Some (PB_ANONYMOUS_ONEOF_STATIC u tag message field fd (PB_LTYPE_MAP ty) ptr)
         | POINTER \<Rightarrow> Some (PB_ANONYMOUS_ONEOF_POINTER u tag message field fd (PB_LTYPE_MAP ty) ptr)
         | CALLBACK \<Rightarrow> None)"

section \<open>Run-time structures and error messages\<close>

text \<open>\<open>pb_bytes_array_t\<close>: the length in the first four bytes, the data from the fifth on.\<close>

definition bytes_array_size :: "addr \<Rightarrow> addr" where "bytes_array_size p = p"
definition bytes_array_bytes :: "addr \<Rightarrow> addr" where "bytes_array_bytes p = p + 4"

definition PB_BYTES_ARRAY_T_ALLOCSIZE :: "size_t \<Rightarrow> size_t" where
  "PB_BYTES_ARRAY_T_ALLOCSIZE n = size_add n 4"

text \<open>\<open>pb_callback_t\<close>: the function pointer, then \<open>arg\<close>.\<close>

definition callback_funcs :: "addr \<Rightarrow> addr" where "callback_funcs p = p"
definition callback_arg :: "addr \<Rightarrow> addr" where "callback_arg p = p + 8"

text \<open>\<open>pb_extension_type_t\<close> (\<open>decode\<close>, \<open>encode\<close>, \<open>arg\<close>) and \<open>pb_extension_t\<close> (\<open>type\<close>, \<open>dest\<close>,
  \<open>next\<close>, \<open>found\<close>).\<close>

definition ext_type_decode :: "addr \<Rightarrow> addr" where "ext_type_decode p = p"
definition ext_type_encode :: "addr \<Rightarrow> addr" where "ext_type_encode p = p + 8"
definition ext_type_arg :: "addr \<Rightarrow> addr" where "ext_type_arg p = p + 16"

definition extension_type :: "addr \<Rightarrow> addr" where "extension_type p = p"
definition extension_dest :: "addr \<Rightarrow> addr" where "extension_dest p = p + 8"
definition extension_next :: "addr \<Rightarrow> addr" where "extension_next p = p + 16"
definition extension_found :: "addr \<Rightarrow> addr" where "extension_found p = p + 24"

definition PB_SET_ERROR :: "string option \<Rightarrow> string \<Rightarrow> string option" where
  "PB_SET_ERROR errmsg msg = (case errmsg of None \<Rightarrow> Some msg | Some m \<Rightarrow> Some m)"

definition PB_GET_ERROR :: "string option \<Rightarrow> string" where
  "PB_GET_ERROR errmsg = (case errmsg of None \<Rightarrow> ''(none)'' | Some m \<Rightarrow> m)"

lemma PB_SET_ERROR_simps [simp]:
  "PB_SET_ERROR None msg = Some msg"
  "PB_SET_ERROR (Some m) msg = Some m"
  by (simp_all add: PB_SET_ERROR_def)

lemma PB_SET_ERROR_Some: "\<exists>m. PB_SET_ERROR e msg = Some m"
  by (cases e) auto

end
