(* ===== verification/Pb_Ostream.thy ===== *)
theory Pb_Ostream
  imports Pb_Types "HOL-Library.Sublist"
begin

text \<open>
  The output streams of \<open>nanopb/pb_encode.c\<close> and the encoders of the wire primitives.  A stream
  without a callback only counts (\<open>PB_OSTREAM_SIZING\<close>); a buffer stream fills an object of which
  \<open>room\<close> bytes are left, and writing more is undefined behaviour; the callback of any other
  stream is a parameter that accepts the bytes or fails.  What \<open>pb_write\<close> is given as \<open>buf\<close> is a
  reader, a function from the count to the bytes found there: the code does not look at \<open>buf\<close>
  when the stream only counts.
\<close>

section \<open>Streams\<close>

datatype 'u ocallback = Buf_write | User_write "'u \<Rightarrow> byte list \<Rightarrow> bool \<times> 'u"

datatype 'u ostate = ONull | OBuf (room: nat) (written: "byte list") | OUser 'u

record 'u pb_ostream =
  o_callback :: "'u ocallback option"
  o_state :: "'u ostate"
  max_size :: size_t
  bytes_written :: size_t
  o_errmsg :: "string option"

type_synonym 'u enc = "('u pb_ostream, 'u pb_ostream) res"

type_synonym reader = "nat \<Rightarrow> byte list option"

definition o_error :: "'u pb_ostream \<Rightarrow> string \<Rightarrow> 'u pb_ostream" where
  "o_error s msg = s\<lparr>o_errmsg := PB_SET_ERROR (o_errmsg s) msg\<rparr>"

definition PB_OSTREAM_SIZING :: "'u pb_ostream" where
  "PB_OSTREAM_SIZING =
     \<lparr>o_callback = None, o_state = ONull, max_size = 0, bytes_written = 0, o_errmsg = None\<rparr>"

text \<open>The buffer is an object of \<open>length_buf\<close> bytes, of which the caller offers \<open>bufsize\<close>.\<close>

definition pb_ostream_from_buffer :: "nat \<Rightarrow> size_t \<Rightarrow> 'u pb_ostream" where
  "pb_ostream_from_buffer length_buf bufsize =
     \<lparr>o_callback = Some Buf_write, o_state = OBuf length_buf [], max_size = bufsize,
      bytes_written = 0, o_errmsg = None\<rparr>"

definition local_array :: "byte list \<Rightarrow> reader" where
  "local_array bs n = (if n \<le> length bs then Some (take n bs) else None)"

definition null_reader :: reader where
  "null_reader n = (if n = 0 then Some [] else None)"

definition buf_write :: "'u pb_ostream \<Rightarrow> byte list \<Rightarrow> 'u enc" where
  "buf_write s bytes = (case o_state s of
       OBuf r w \<Rightarrow> if length bytes \<le> r
                   then Ok (s\<lparr>o_state := OBuf (r - length bytes) (w @ bytes)\<rparr>) else Undef
     | _ \<Rightarrow> Undef)"

text \<open>\<open>stream->callback(stream, buf, count)\<close>\<close>

definition o_call :: "'u pb_ostream \<Rightarrow> 'u ocallback \<Rightarrow> byte list \<Rightarrow> 'u enc" where
  "o_call s cb bytes = (case cb of
       Buf_write \<Rightarrow> buf_write s bytes
     | User_write f \<Rightarrow> (case o_state s of
           OUser u \<Rightarrow> (case f u bytes of (ok, u') \<Rightarrow>
             if ok then Ok (s\<lparr>o_state := OUser u'\<rparr>) else Fail (s\<lparr>o_state := OUser u'\<rparr>))
         | _ \<Rightarrow> Undef))"

definition pb_write :: "'u pb_ostream \<Rightarrow> reader \<Rightarrow> size_t \<Rightarrow> 'u enc" where
  "pb_write s buf count =
     andThen
       (case o_callback s of
          None \<Rightarrow> Ok s
        | Some cb \<Rightarrow>
            if count = 0 then Ok s
            else if size_add (bytes_written s) count < bytes_written s
                    \<or> max_size s < size_add (bytes_written s) count
            then Fail (o_error s ''stream full'')
            else access (buf count) (\<lambda>bytes.
              mapFail (\<lambda>s. o_error s ''io error'') (o_call s cb bytes)))
       (\<lambda>s. Ok (s\<lparr>bytes_written := size_add (bytes_written s) count\<rparr>))"

section \<open>Wire primitives\<close>

text \<open>The \<open>while (value)\<close> loop that fills \<open>buffer\<close>.\<close>

function varint_chunks :: "uint64 \<Rightarrow> byte list" where
  "varint_chunks value =
     (if value = 0 then [] else (ucast (value AND 0x7F) OR 0x80) # varint_chunks (drop_bit 7 value))"
  by pat_completeness auto

lemma drop_bit_7_less: "v \<noteq> 0 \<Longrightarrow> unat (drop_bit 7 v) < unat (v :: uint64)"
proof -
  assume "v \<noteq> 0"
  then have "0 < unat v" by (simp add: unat_gt_0)
  moreover have "unat (drop_bit 7 v) = unat v div 128"
    by (simp add: drop_bit_eq_div unat_div)
  ultimately show ?thesis by simp
qed

termination varint_chunks
  by (relation "measure unat") (auto simp: drop_bit_7_less)

declare varint_chunks.simps [simp del]

text \<open>\<open>buffer\<close> has ten bytes; writing an eleventh would be undefined.\<close>

definition pb_encode_varint :: "'u pb_ostream \<Rightarrow> uint64 \<Rightarrow> 'u enc" where
  "pb_encode_varint s value =
     (if value \<le> 0x7F then pb_write s (local_array [ucast value]) 1
      else
        let buffer = varint_chunks value; i = length buffer in
        if 10 < i then Undef
        else pb_write s (local_array (buffer[i - 1 := (buffer ! (i - 1)) AND 0x7F])) i)"

definition pb_encode_svarint :: "'u pb_ostream \<Rightarrow> uint64 \<Rightarrow> 'u enc" where
  "pb_encode_svarint s value =
     (let zigzagged = (if value <s 0 then NOT (push_bit 1 value) else push_bit 1 value)
      in pb_encode_varint s zigzagged)"

definition pb_encode_fixed32 :: "'u pb_ostream \<Rightarrow> uint32 \<Rightarrow> 'u enc" where
  "pb_encode_fixed32 s val =
     pb_write s (local_array [ucast (val AND 0xFF), ucast (drop_bit 8 val AND 0xFF),
       ucast (drop_bit 16 val AND 0xFF), ucast (drop_bit 24 val AND 0xFF)]) 4"

definition pb_encode_fixed64 :: "'u pb_ostream \<Rightarrow> uint64 \<Rightarrow> 'u enc" where
  "pb_encode_fixed64 s val =
     pb_write s (local_array [ucast (val AND 0xFF), ucast (drop_bit 8 val AND 0xFF),
       ucast (drop_bit 16 val AND 0xFF), ucast (drop_bit 24 val AND 0xFF),
       ucast (drop_bit 32 val AND 0xFF), ucast (drop_bit 40 val AND 0xFF),
       ucast (drop_bit 48 val AND 0xFF), ucast (drop_bit 56 val AND 0xFF)]) 8"

definition pb_encode_tag :: "'u pb_ostream \<Rightarrow> pb_wire_type \<Rightarrow> uint32 \<Rightarrow> 'u enc" where
  "pb_encode_tag s wiretype field_number =
     pb_encode_varint s (push_bit 3 (ucast field_number) OR word_of_nat wiretype)"

definition wire_type_of :: "pb_type_t \<Rightarrow> pb_wire_type option" where
  "wire_type_of ltype =
     (if ltype \<in> {PB_LTYPE_BOOL, PB_LTYPE_VARINT, PB_LTYPE_UVARINT, PB_LTYPE_SVARINT}
      then Some PB_WT_VARINT
      else if ltype = PB_LTYPE_FIXED32 then Some PB_WT_32BIT
      else if ltype = PB_LTYPE_FIXED64 then Some PB_WT_64BIT
      else if ltype \<in> {PB_LTYPE_BYTES, PB_LTYPE_STRING, PB_LTYPE_SUBMESSAGE,
                       PB_LTYPE_FIXED_LENGTH_BYTES} then Some PB_WT_STRING
      else None)"

definition pb_encode_tag_for_field :: "'u pb_ostream \<Rightarrow> pb_field \<Rightarrow> 'u enc" where
  "pb_encode_tag_for_field s f =
     (case wire_type_of (PB_LTYPE (fld_type f)) of
        None \<Rightarrow> Fail (o_error s ''invalid field type'')
      | Some wiretype \<Rightarrow> pb_encode_tag s wiretype (fld_tag f))"

definition pb_encode_string :: "'u pb_ostream \<Rightarrow> reader \<Rightarrow> size_t \<Rightarrow> 'u enc" where
  "pb_encode_string s buffer sz =
     andThen (pb_encode_varint s (word_of_nat sz)) (\<lambda>s. pb_write s buffer sz)"

section \<open>What a writer does to a stream\<close>

text \<open>A buffer stream in use: no error so far, and the room that is left in the buffer covers what
  the stream may still write.  No object is larger than \<open>2 ^ 63 - 1\<close> bytes (\<open>PTRDIFF_MAX\<close>).\<close>

definition ostream_ok :: "'u pb_ostream \<Rightarrow> bool" where
  "ostream_ok s \<longleftrightarrow> o_callback s = Some Buf_write \<and> o_errmsg s = None \<and> max_size s < 2 ^ 63
     \<and> bytes_written s \<le> max_size s
     \<and> (\<exists>r w. o_state s = OBuf r w \<and> max_size s - bytes_written s \<le> r)"

definition put :: "byte list \<Rightarrow> 'u pb_ostream \<Rightarrow> 'u pb_ostream" where
  "put bs s = s\<lparr>o_state := OBuf (room (o_state s) - length bs) (written (o_state s) @ bs),
                bytes_written := bytes_written s + length bs\<rparr>"

definition full :: "byte list \<Rightarrow> 'u pb_ostream \<Rightarrow> 'u pb_ostream" where
  "full bs s = (put bs s)\<lparr>o_errmsg := Some ''stream full''\<rparr>"

text \<open>
  \<open>emits bs e\<close>: the writer \<open>e\<close> counts the bytes of \<open>bs\<close> on a sizing stream; on a buffer stream it
  writes exactly \<open>bs\<close> if they fit below \<open>max_size\<close>, and otherwise fails with the error
  \<open>stream full\<close> after a prefix of \<open>bs\<close> that does fit.
\<close>

definition emits :: "byte list \<Rightarrow> ('u pb_ostream \<Rightarrow> 'u enc) \<Rightarrow> bool" where
  "emits bs e \<longleftrightarrow>
     (\<forall>s. o_callback s = None \<longrightarrow> bytes_written s < 2 ^ 64 \<longrightarrow>
        e s = Ok (s\<lparr>bytes_written := size_add (bytes_written s) (length bs)\<rparr>))
     \<and> (\<forall>s. ostream_ok s \<longrightarrow> bytes_written s + length bs \<le> max_size s \<longrightarrow> e s = Ok (put bs s))
     \<and> (\<forall>s. ostream_ok s \<longrightarrow> max_size s < bytes_written s + length bs \<longrightarrow>
        (\<exists>ext. prefix ext bs \<and> bytes_written s + length ext \<le> max_size s \<and> e s = Fail (full ext s)))"

lemma put_Nil [simp]: "ostream_ok s \<Longrightarrow> put [] s = s"
  by (auto simp: ostream_ok_def put_def)

lemma put_put: "put b (put a s) = put (a @ b) s"
  by (simp add: put_def)

lemma put_fields [simp]:
  "bytes_written (put a s) = bytes_written s + length a"
  "max_size (put a s) = max_size s"
  "o_callback (put a s) = o_callback s"
  "o_errmsg (put a s) = o_errmsg s"
  "o_state (put a s) = OBuf (room (o_state s) - length a) (written (o_state s) @ a)"
  by (simp_all add: put_def)

lemma put_ok: "ostream_ok s \<Longrightarrow> bytes_written s + length a \<le> max_size s \<Longrightarrow> ostream_ok (put a s)"
  by (auto simp: ostream_ok_def)

lemma size_add_less [simp]: "size_add a b < 2 ^ 64" "size_add a b < 18446744073709551616"
  by (simp_all add: size_add_def)

lemma size_add_assoc: "size_add (size_add a b) c = size_add a (b + c)"
  by (simp add: size_add_def mod_simps add.assoc)

lemma emits_sizing: "emits bs e \<Longrightarrow> o_callback s = None \<Longrightarrow> bytes_written s < 2 ^ 64 \<Longrightarrow>
    e s = Ok (s\<lparr>bytes_written := size_add (bytes_written s) (length bs)\<rparr>)"
  by (simp add: emits_def)

lemma emits_fits: "emits bs e \<Longrightarrow> ostream_ok s \<Longrightarrow> bytes_written s + length bs \<le> max_size s \<Longrightarrow>
    e s = Ok (put bs s)"
  by (simp add: emits_def)

lemma emits_full: "emits bs e \<Longrightarrow> ostream_ok s \<Longrightarrow> max_size s < bytes_written s + length bs \<Longrightarrow>
    \<exists>ext. prefix ext bs \<and> bytes_written s + length ext \<le> max_size s \<and> e s = Fail (full ext s)"
  by (simp add: emits_def)

lemma emits_Nil: "emits [] Ok"
  by (auto simp: emits_def ostream_ok_def size_add_def put_def)

lemma emits_andThen:
  assumes 1: "emits a e" and 2: "emits b k"
  shows "emits (a @ b) (\<lambda>s. andThen (e s) k)"
  unfolding emits_def
proof (intro conjI allI impI)
  fix s :: "'a pb_ostream"
  assume n: "o_callback s = None" "bytes_written s < 2 ^ 64"
  show "andThen (e s) k = Ok (s\<lparr>bytes_written := size_add (bytes_written s) (length (a @ b))\<rparr>)"
    using n by (simp add: emits_sizing [OF 1] emits_sizing [OF 2] size_add_assoc)
next
  fix s :: "'a pb_ostream"
  assume s: "ostream_ok s" "bytes_written s + length (a @ b) \<le> max_size s"
  then show "andThen (e s) k = Ok (put (a @ b) s)"
    using emits_fits [OF 1 s(1)] emits_fits [OF 2 put_ok [OF s(1), of a]] by (simp add: put_put)
next
  fix s :: "'a pb_ostream"
  assume s: "ostream_ok s" "max_size s < bytes_written s + length (a @ b)"
  show "\<exists>ext. prefix ext (a @ b) \<and> bytes_written s + length ext \<le> max_size s
      \<and> andThen (e s) k = Fail (full ext s)"
  proof (cases "bytes_written s + length a \<le> max_size s")
    case True
    from emits_full [OF 2 put_ok [OF s(1) True]] s(2) obtain ext where
      "prefix ext b" "bytes_written s + length (a @ ext) \<le> max_size s"
      "k (put a s) = Fail (full ext (put a s))" by (auto simp: add.assoc)
    moreover have "full ext (put a s) = full (a @ ext) s" by (simp add: full_def put_put)
    ultimately show ?thesis using emits_fits [OF 1 s(1) True] by (intro exI [of _ "a @ ext"]) simp
  next
    case False
    from emits_full [OF 1 s(1)] False obtain ext where
      "prefix ext a" "bytes_written s + length ext \<le> max_size s" "e s = Fail (full ext s)"
      by (auto simp: not_le)
    then show ?thesis by (intro exI [of _ ext]) (simp add: prefix_prefix)
  qed
qed

lemma emits_pb_write:
  assumes n: "n = length bs" "n < 2 ^ 64" and r: "buf n = Some bs"
  shows "emits bs (\<lambda>s. pb_write s buf n)"
  unfolding emits_def
proof (intro conjI allI impI)
  fix s :: "'a pb_ostream"
  assume "o_callback s = None"
  then show "pb_write s buf n = Ok (s\<lparr>bytes_written := size_add (bytes_written s) (length bs)\<rparr>)"
    using n by (simp add: pb_write_def)
next
  fix s :: "'a pb_ostream"
  assume s: "ostream_ok s" "bytes_written s + length bs \<le> max_size s"
  then have "size_add (bytes_written s) n = bytes_written s + n"
    using n by (simp add: size_add_def ostream_ok_def)
  with s n r show "pb_write s buf n = Ok (put bs s)"
    by (auto simp: pb_write_def ostream_ok_def o_call_def buf_write_def put_def)
next
  fix s :: "'a pb_ostream"
  assume s: "ostream_ok s" "max_size s < bytes_written s + length bs"
  then have "n \<noteq> 0" using n by (auto simp: ostream_ok_def)
  moreover have "size_add (bytes_written s) n < bytes_written s \<or> max_size s < size_add (bytes_written s) n"
  proof (cases "bytes_written s + n < 2 ^ 64")
    case True
    then show ?thesis using s n by (simp add: size_add_def)
  next
    case False
    moreover have "bytes_written s < 2 ^ 64" using s by (auto simp: ostream_ok_def)
    ultimately have "(bytes_written s + n) mod 2 ^ 64 = bytes_written s + n - 2 ^ 64"
      using n(2) by (subst le_mod_geq) simp_all
    then have "size_add (bytes_written s) n = bytes_written s + n - 2 ^ 64"
      by (simp only: size_add_def)
    then show ?thesis using n(2) False by simp linarith
  qed
  ultimately have "pb_write s buf n = Fail (full [] s)"
    using s by (auto simp: pb_write_def ostream_ok_def o_error_def full_def put_def)
  then show "\<exists>ext. prefix ext bs \<and> bytes_written s + length ext \<le> max_size s
      \<and> pb_write s buf n = Fail (full ext s)"
    using s by (intro exI [of _ "[]"]) (auto simp: ostream_ok_def)
qed

lemma emits_local: "length bs < 2 ^ 64 \<Longrightarrow> emits bs (\<lambda>s. pb_write s (local_array bs) (length bs))"
  by (rule emits_pb_write) (simp_all add: local_array_def)

end
