(* ===== verification/Pb_Common.thy ===== *)
theory Pb_Common
  imports Pb_Types
begin

text \<open>
  \<open>nanopb/pb_common.c\<close>: the iterator over the descriptors of a message.  \<open>it_pos\<close> is the index of
  the current descriptor in the array \<open>it_start\<close>; reading at or past the end of the array gives
  the terminator \<open>PB_LAST_FIELD\<close>.  \<open>iter_at fs d i\<close> is the iterator that stands on the field \<open>i\<close> of
  a structure at \<open>d\<close>: the lemmas say that stepping and searching move between these.
\<close>

record pb_field_iter =
  it_start :: "pb_field list"
  it_pos :: nat
  required_field_index :: nat
  dest_struct :: addr
  pData :: addr
  pSize :: addr

definition field_at :: "pb_field list \<Rightarrow> nat \<Rightarrow> pb_field" where
  "field_at fs i = (if i < length fs then fs ! i else PB_LAST_FIELD)"

definition it_field :: "pb_field_iter \<Rightarrow> pb_field" where
  "it_field it = field_at (it_start it) (it_pos it)"

section \<open>Operations\<close>

definition pb_field_iter_begin :: "pb_field list \<Rightarrow> addr \<Rightarrow> bool \<times> pb_field_iter" where
  "pb_field_iter_begin flds dest =
     (let f = field_at flds 0;
          pd = dest + uint (data_offset f)
      in (fld_tag f \<noteq> 0,
          \<lparr>it_start = flds, it_pos = 0, required_field_index = 0, dest_struct = dest,
           pData = pd, pSize = pd + sint (size_offset f)\<rparr>))"

definition pb_field_iter_next :: "pb_field_iter \<Rightarrow> bool \<times> pb_field_iter" where
  "pb_field_iter_next it =
     (let prev_field = it_field it in
      if fld_tag prev_field = 0 then (False, it)
      else
        let it1 = it\<lparr>it_pos := Suc (it_pos it)\<rparr>; f = it_field it1 in
        if fld_tag f = 0
        then (False, snd (pb_field_iter_begin (it_start it1) (dest_struct it1)))
        else
          if PB_HTYPE (fld_type prev_field) = PB_HTYPE_ONEOF
             \<and> PB_HTYPE (fld_type f) = PB_HTYPE_ONEOF
             \<and> data_offset f = PB_SIZE_MAX
          then (True, it1)
          else
            let prev_size =
                  (if PB_ATYPE (fld_type prev_field) = PB_ATYPE_STATIC
                      \<and> PB_HTYPE (fld_type prev_field) = PB_HTYPE_REPEATED
                   then uint (data_size prev_field) * uint (array_size prev_field)
                   else if PB_ATYPE (fld_type prev_field) = PB_ATYPE_POINTER then 8
                   else uint (data_size prev_field));
                rfi = (if PB_HTYPE (fld_type prev_field) = PB_HTYPE_REQUIRED
                       then Suc (required_field_index it1) else required_field_index it1);
                pd = pData it1 + prev_size + uint (data_offset f)
            in (True, it1\<lparr>required_field_index := rfi, pData := pd,
                          pSize := pd + sint (size_offset f)\<rparr>))"

text \<open>The loop of \<open>pb_field_iter_find\<close>; the bound is one more than the length of the array, and
  \<open>iter_find_loop_more\<close> below shows that a larger one changes nothing.\<close>

fun iter_find_loop :: "nat \<Rightarrow> nat \<Rightarrow> uint32 \<Rightarrow> pb_field_iter \<Rightarrow> bool \<times> pb_field_iter" where
  "iter_find_loop 0 start tag it = (False, it)"
| "iter_find_loop (Suc k) start tag it =
     (if fld_tag (it_field it) = tag \<and> PB_LTYPE (fld_type (it_field it)) \<noteq> PB_LTYPE_EXTENSION
      then (True, it)
      else let it' = snd (pb_field_iter_next it)
           in if it_pos it' \<noteq> start then iter_find_loop k start tag it' else (False, it'))"

definition pb_field_iter_find :: "pb_field_iter \<Rightarrow> uint32 \<Rightarrow> bool \<times> pb_field_iter" where
  "pb_field_iter_find it tag = iter_find_loop (Suc (length (it_start it))) (it_pos it) tag it"

section \<open>Where the iterator stands\<close>

text \<open>The number of fields before the terminator.\<close>

definition nfields :: "pb_field list \<Rightarrow> nat" where
  "nfields fs = length (takeWhile (\<lambda>f. fld_tag f \<noteq> 0) fs)"

primrec iter_at :: "pb_field list \<Rightarrow> addr \<Rightarrow> nat \<Rightarrow> pb_field_iter" where
  "iter_at fs d 0 = snd (pb_field_iter_begin fs d)"
| "iter_at fs d (Suc i) = snd (pb_field_iter_next (iter_at fs d i))"

lemma nfields_le: "nfields fs \<le> length fs"
  by (simp add: nfields_def length_takeWhile_le)

lemma field_at_less: "i < nfields fs \<Longrightarrow> field_at fs i = fs ! i \<and> i < length fs"
  using nfields_le [of fs] by (simp add: field_at_def)

lemma fld_tag_last [simp]: "fld_tag PB_LAST_FIELD = 0"
  by (simp add: PB_LAST_FIELD_def)

lemma tag_before_end: "i < nfields fs \<Longrightarrow> fld_tag (field_at fs i) \<noteq> 0"
proof -
  assume i: "i < nfields fs"
  then have "takeWhile (\<lambda>f. fld_tag f \<noteq> 0) fs ! i \<in> set (takeWhile (\<lambda>f. fld_tag f \<noteq> 0) fs)"
    by (simp add: nfields_def)
  then have "fld_tag (takeWhile (\<lambda>f. fld_tag f \<noteq> 0) fs ! i) \<noteq> 0" by (auto dest: set_takeWhileD)
  with i show ?thesis by (simp add: field_at_less nfields_def takeWhile_nth)
qed

lemma tag_at_end: "fld_tag (field_at fs (nfields fs)) = 0"
  using nth_length_takeWhile [of "\<lambda>f. fld_tag f \<noteq> 0" fs]
  by (auto simp: nfields_def field_at_def)

lemma begin_fields [simp]:
  "it_start (snd (pb_field_iter_begin fs d)) = fs"
  "it_pos (snd (pb_field_iter_begin fs d)) = 0"
  "dest_struct (snd (pb_field_iter_begin fs d)) = d"
  by (simp_all add: pb_field_iter_begin_def Let_def)

lemma begin_nonempty: "fst (pb_field_iter_begin fs d) \<longleftrightarrow> 0 < nfields fs"
  using tag_at_end [of fs] tag_before_end [of 0 fs]
  by (cases "nfields fs") (auto simp: pb_field_iter_begin_def Let_def)

lemma next_frame:
  "it_start (snd (pb_field_iter_next it)) = it_start it"
  "dest_struct (snd (pb_field_iter_next it)) = dest_struct it"
  by (simp_all add: pb_field_iter_next_def Let_def)

lemma next_pos:
  assumes "it_pos it < nfields (it_start it)"
  shows "fst (pb_field_iter_next it) \<longleftrightarrow> Suc (it_pos it) < nfields (it_start it)"
    and "Suc (it_pos it) < nfields (it_start it) \<Longrightarrow>
         it_pos (snd (pb_field_iter_next it)) = Suc (it_pos it)"
    and "Suc (it_pos it) = nfields (it_start it) \<Longrightarrow>
         snd (pb_field_iter_next it) = iter_at (it_start it) (dest_struct it) 0"
proof -
  have 1: "fld_tag (it_field it) \<noteq> 0"
    using tag_before_end [OF assms] by (simp add: it_field_def)
  have 2: "fld_tag (field_at (it_start it) (Suc (it_pos it))) = 0 \<longleftrightarrow>
      Suc (it_pos it) = nfields (it_start it)"
    using assms tag_at_end [of "it_start it"] tag_before_end [of "Suc (it_pos it)" "it_start it"]
    by (cases "Suc (it_pos it) < nfields (it_start it)") (auto simp: not_less dest: le_antisym)
  show "fst (pb_field_iter_next it) \<longleftrightarrow> Suc (it_pos it) < nfields (it_start it)"
    using 1 2 assms by (auto simp: pb_field_iter_next_def it_field_def Let_def)
  show "it_pos (snd (pb_field_iter_next it)) = Suc (it_pos it)"
    if "Suc (it_pos it) < nfields (it_start it)"
    using that 1 2 by (simp add: pb_field_iter_next_def it_field_def Let_def)
  show "snd (pb_field_iter_next it) = iter_at (it_start it) (dest_struct it) 0"
    if "Suc (it_pos it) = nfields (it_start it)"
    using that 1 2 by (simp add: pb_field_iter_next_def it_field_def Let_def)
qed

lemma iter_at_fields:
  "it_start (iter_at fs d i) = fs \<and> dest_struct (iter_at fs d i) = d"
  by (induction i) (simp_all add: next_frame)

lemma iter_at_start [simp]: "it_start (iter_at fs d i) = fs"
  and iter_at_dest [simp]: "dest_struct (iter_at fs d i) = d"
  by (simp_all add: iter_at_fields)

lemma iter_at_pos: "i < nfields fs \<Longrightarrow> it_pos (iter_at fs d i) = i"
proof (induction i)
  case 0
  then show ?case by simp
next
  case (Suc i)
  then show ?case using next_pos(2) [of "iter_at fs d i"] by simp
qed

lemma iter_at_0_pos [simp]: "it_pos (iter_at fs d 0) = 0"
  by simp

lemma iter_next_at:
  assumes "i < nfields fs"
  shows "pb_field_iter_next (iter_at fs d i) =
    (if Suc i < nfields fs then (True, iter_at fs d (Suc i)) else (False, iter_at fs d 0))"
  using assms next_pos [of "iter_at fs d i"]
  by (auto simp: iter_at_pos prod_eq_iff)

lemma iter_next_empty: "nfields fs = 0 \<Longrightarrow> pb_field_iter_next (iter_at fs d 0) = (False, iter_at fs d 0)"
  using tag_at_end [of fs] by (simp add: pb_field_iter_next_def it_field_def)

lemma it_field_at: "i < nfields fs \<or> i = 0 \<Longrightarrow> it_field (iter_at fs d i) = field_at fs i"
  using iter_at_pos [of i fs d] iter_at_0_pos [of fs d]
  by (auto simp: it_field_def simp del: iter_at.simps)

section \<open>Searching\<close>

definition tag_matches :: "pb_field list \<Rightarrow> uint32 \<Rightarrow> nat \<Rightarrow> bool" where
  "tag_matches fs tag i \<longleftrightarrow> fld_tag (field_at fs i) = tag
     \<and> PB_LTYPE (fld_type (field_at fs i)) \<noteq> PB_LTYPE_EXTENSION"

text \<open>The positions a search from \<open>p\<close> visits before it stands on \<open>q\<close>, in the circular order.\<close>

definition cyc :: "nat \<Rightarrow> nat \<Rightarrow> nat \<Rightarrow> nat" where
  "cyc n p j = (p + j) mod n"

lemma iter_next_cyc:
  assumes "p < nfields fs"
  shows "snd (pb_field_iter_next (iter_at fs d (cyc (nfields fs) p j)))
       = iter_at fs d (cyc (nfields fs) p (Suc j))"
proof -
  let ?n = "nfields fs" and ?q = "cyc (nfields fs) p j"
  have q: "?q < ?n" using assms by (simp add: cyc_def)
  have s: "cyc ?n p (Suc j) = Suc ?q mod ?n" by (simp add: cyc_def mod_Suc_eq)
  show ?thesis
  proof (cases "Suc ?q < ?n")
    case True
    then show ?thesis using iter_next_at [OF q, of d] s by simp
  next
    case False
    with q have "Suc ?q = ?n" by simp
    then show ?thesis using iter_next_at [OF q, of d] s by simp
  qed
qed

lemma iter_find_loop_step:
  "q < nfields fs \<Longrightarrow> iter_find_loop (Suc k) p tag (iter_at fs d q) =
    (if tag_matches fs tag q then (True, iter_at fs d q)
     else let it' = snd (pb_field_iter_next (iter_at fs d q))
          in if it_pos it' \<noteq> p then iter_find_loop k p tag it' else (False, it'))"
  by (simp add: it_field_at tag_matches_def)

lemma iter_find_loop_from:
  assumes p: "p < nfields fs" and k: "nfields fs \<le> j + k" "j < nfields fs"
    and none: "\<forall>i<j. \<not> tag_matches fs tag (cyc (nfields fs) p i)"
  shows "iter_find_loop k p tag (iter_at fs d (cyc (nfields fs) p j)) =
    (case List.find (\<lambda>i. tag_matches fs tag (cyc (nfields fs) p i)) [j..<nfields fs] of
       None \<Rightarrow> (False, iter_at fs d p)
     | Some i \<Rightarrow> (True, iter_at fs d (cyc (nfields fs) p i)))"
  using k none
proof (induction k arbitrary: j)
  case 0
  then show ?case by simp
next
  case (Suc k)
  let ?n = "nfields fs" and ?q = "cyc (nfields fs) p j"
  have q: "?q < ?n" using p by (simp add: cyc_def)
  have up: "[j..<?n] = j # [Suc j..<?n]" using Suc.prems by (simp add: upt_conv_Cons)
  show ?case
  proof (cases "tag_matches fs tag ?q")
    case True
    then show ?thesis using q by (simp add: up iter_find_loop_step del: iter_find_loop.simps)
  next
    case False
    have nx: "snd (pb_field_iter_next (iter_at fs d ?q)) = iter_at fs d (cyc ?n p (Suc j))"
      by (rule iter_next_cyc [OF p])
    have q': "cyc ?n p (Suc j) < ?n" using p by (simp add: cyc_def)
    show ?thesis
    proof (cases "Suc j < ?n")
      case True
      have ne: "cyc ?n p (Suc j) \<noteq> p"
      proof
        assume "cyc ?n p (Suc j) = p"
        then have "(p + Suc j) mod ?n = p mod ?n" using p by (simp add: cyc_def)
        then have "?n dvd Suc j" by (simp add: mod_eq_dvd_iff_nat)
        with True show False by (auto dest: dvd_imp_le)
      qed
      have "iter_find_loop k p tag (iter_at fs d (cyc ?n p (Suc j))) =
        (case List.find (\<lambda>i. tag_matches fs tag (cyc ?n p i)) [Suc j..<?n] of
           None \<Rightarrow> (False, iter_at fs d p)
         | Some i \<Rightarrow> (True, iter_at fs d (cyc ?n p i)))"
        using Suc.prems False True by (intro Suc.IH) (auto simp: less_Suc_eq)
      with False ne q q' show ?thesis
        by (simp add: up iter_find_loop_step nx iter_at_pos del: iter_find_loop.simps)
    next
      case False': False
      with Suc.prems have "Suc j = ?n" by simp
      then have "cyc ?n p (Suc j) = p" using p by (simp add: cyc_def)
      with False \<open>Suc j = ?n\<close> q p show ?thesis
        by (simp add: up iter_find_loop_step nx iter_at_pos del: iter_find_loop.simps)
    qed
  qed
qed

text \<open>Searching from a field \<open>p\<close>: the first match in circular order, or back at \<open>p\<close>.\<close>

lemma iter_find_at:
  assumes p: "p < nfields fs"
  shows "pb_field_iter_find (iter_at fs d p) tag =
    (case List.find (\<lambda>i. tag_matches fs tag (cyc (nfields fs) p i)) [0..<nfields fs] of
       None \<Rightarrow> (False, iter_at fs d p)
     | Some i \<Rightarrow> (True, iter_at fs d (cyc (nfields fs) p i)))"
  using iter_find_loop_from [OF p, of 0 "Suc (length fs)" tag d] p nfields_le [of fs]
  by (simp add: pb_field_iter_find_def cyc_def iter_at_pos)

lemma iter_find_loop_more:
  assumes "p < nfields fs" "nfields fs \<le> k"
  shows "iter_find_loop k p tag (iter_at fs d p) = pb_field_iter_find (iter_at fs d p) tag"
  using iter_find_loop_from [OF assms(1), of 0 k tag d] assms iter_find_at [OF assms(1), of d tag]
  by (simp add: cyc_def)

lemma iter_find_empty:
  "nfields fs = 0 \<Longrightarrow> pb_field_iter_find (iter_at fs d 0) tag =
     (tag_matches fs tag 0, iter_at fs d 0)"
  using it_field_at [of 0 fs d] iter_next_empty [of fs d]
  by (auto simp: pb_field_iter_find_def tag_matches_def simp del: iter_at.simps)

lemma iter_find_Some:
  assumes p: "p < nfields fs" and f: "pb_field_iter_find (iter_at fs d p) tag = (True, it)"
  shows "\<exists>q<nfields fs. it = iter_at fs d q \<and> tag_matches fs tag q"
proof -
  let ?P = "\<lambda>i. tag_matches fs tag (cyc (nfields fs) p i)"
  from f iter_find_at [OF p, of d tag] obtain i where
    "List.find ?P [0..<nfields fs] = Some i" "it = iter_at fs d (cyc (nfields fs) p i)"
    by (auto split: option.splits)
  moreover from this(1) have "?P i" by (auto simp: find_Some_iff)
  moreover have "cyc (nfields fs) p i < nfields fs" using p by (simp add: cyc_def)
  ultimately show ?thesis by blast
qed

lemma iter_find_None:
  assumes p: "p < nfields fs"
  shows "fst (pb_field_iter_find (iter_at fs d p) tag) \<longleftrightarrow> (\<exists>q<nfields fs. tag_matches fs tag q)"
proof
  assume "fst (pb_field_iter_find (iter_at fs d p) tag)"
  then show "\<exists>q<nfields fs. tag_matches fs tag q"
    using iter_find_Some [OF p, of d tag] by (metis prod.collapse)
next
  assume "\<exists>q<nfields fs. tag_matches fs tag q"
  then obtain q where q: "q < nfields fs" "tag_matches fs tag q" by blast
  let ?j = "(q + nfields fs - p) mod nfields fs"
  have "?j < nfields fs" using p by simp
  moreover have "cyc (nfields fs) p ?j = q" using p q(1) by (simp add: cyc_def mod_add_right_eq)
  ultimately have "List.find (\<lambda>i. tag_matches fs tag (cyc (nfields fs) p i)) [0..<nfields fs] \<noteq> None"
    using q(2) by (auto simp: find_None_iff)
  then show "fst (pb_field_iter_find (iter_at fs d p) tag)"
    using iter_find_at [OF p, of d tag] by auto
qed

end
