(* ===== verification/Pb_Encode.thy ===== *)
theory Pb_Encode
  imports Pb_Ostream Pb_Common
begin

text \<open>
  \<open>nanopb/pb_encode.c\<close>: encoding of fields and of messages.  The encoder reads the message from
  the heap and changes only the stream.  The functions behind \<open>funcs.encode\<close> and
  \<open>extension->type->encode\<close> are the components of an \<open>enc_env\<close>, indexed by the value of the
  pointer; \<open>pb.h\<close> lets the library call them several times and asks that they write the same
  data each time.  With fuel \<open>Suc n\<close> a message is encoded with its submessages at fuel \<open>n\<close>, through
  the argument \<open>enc\<close>.
\<close>

type_synonym 'u encoder = "'u pb_ostream \<Rightarrow> heap \<Rightarrow> pb_field \<Rightarrow> addr \<Rightarrow> 'u enc"

type_synonym 'u msg_encoder = "'u pb_ostream \<Rightarrow> heap \<Rightarrow> pb_field list \<Rightarrow> addr \<Rightarrow> 'u enc"

record 'u enc_env =
  enc_field_array :: "addr \<Rightarrow> pb_field list"
  encode_cb :: "addr \<Rightarrow> 'u encoder"
  ext_encode :: "addr \<Rightarrow> 'u pb_ostream \<Rightarrow> heap \<Rightarrow> addr \<Rightarrow> 'u enc"

section \<open>Field encoders\<close>

definition safe_read_bool :: "heap \<Rightarrow> addr \<Rightarrow> bool option" where
  "safe_read_bool h p = map_option (\<lambda>b. b \<noteq> 0) (mem h p)"

text \<open>An integer field as the 64-bit integer that is encoded; no size but 1, 2, 4 and 8 is
  accepted.\<close>

definition read_signed :: "heap \<Rightarrow> pb_size_t \<Rightarrow> addr \<Rightarrow> uint64 option" where
  "read_signed h sz src =
     map_option (\<lambda>v. if sz = 1 then scast (word_of_nat v :: 8 word)
                     else if sz = 2 then scast (word_of_nat v :: 16 word)
                     else if sz = 4 then scast (word_of_nat v :: 32 word)
                     else word_of_nat v) (load_nat h (unat sz) src)"

definition read_unsigned :: "heap \<Rightarrow> pb_size_t \<Rightarrow> addr \<Rightarrow> uint64 option" where
  "read_unsigned h sz src = map_option word_of_nat (load_nat h (unat sz) src)"

definition integer_size :: "pb_size_t \<Rightarrow> bool" where
  "integer_size sz \<longleftrightarrow> sz = 1 \<or> sz = 2 \<or> sz = 4 \<or> sz = 8"

definition pb_enc_bool :: "'u encoder" where
  "pb_enc_bool s h f src =
     access (safe_read_bool h src) (\<lambda>b. pb_encode_varint s (if b then 1 else 0))"

definition pb_enc_varint :: "'u encoder" where
  "pb_enc_varint s h f src =
     (if \<not> integer_size (data_size f) then Fail (o_error s ''invalid data_size'')
      else access (read_signed h (data_size f) src) (pb_encode_varint s))"

definition pb_enc_uvarint :: "'u encoder" where
  "pb_enc_uvarint s h f src =
     (if \<not> integer_size (data_size f) then Fail (o_error s ''invalid data_size'')
      else access (read_unsigned h (data_size f) src) (pb_encode_varint s))"

definition pb_enc_svarint :: "'u encoder" where
  "pb_enc_svarint s h f src =
     (if \<not> integer_size (data_size f) then Fail (o_error s ''invalid data_size'')
      else access (read_signed h (data_size f) src) (pb_encode_svarint s))"

definition pb_enc_fixed32 :: "'u encoder" where
  "pb_enc_fixed32 s h f src = access (load_u32 h src) (pb_encode_fixed32 s)"

definition pb_enc_fixed64 :: "'u encoder" where
  "pb_enc_fixed64 s h f src =
     access (load_nat h 8 src) (\<lambda>v. pb_encode_fixed64 s (word_of_nat v))"

definition pb_enc_bytes :: "'u encoder" where
  "pb_enc_bytes s h f src =
     (if src = 0 then pb_encode_string s null_reader 0
      else access (load_u32 h (bytes_array_size src)) (\<lambda>sz.
        let allocsize = PB_BYTES_ARRAY_T_ALLOCSIZE (unat sz) in
        if allocsize < unat sz
           \<or> PB_ATYPE (fld_type f) = PB_ATYPE_STATIC \<and> unat (data_size f) < allocsize
        then Fail (o_error s ''bytes size exceeded'')
        else pb_encode_string s (load_bytes h (bytes_array_bytes src)) (unat sz)))"

text \<open>\<open>while (size < max_size && *p != '\0')\<close>\<close>

function strnlen_loop :: "heap \<Rightarrow> addr \<Rightarrow> size_t \<Rightarrow> size_t \<Rightarrow> size_t option" where
  "strnlen_loop h p sz max_sz =
     (if sz < max_sz
      then (case mem h p of None \<Rightarrow> None
            | Some b \<Rightarrow> if b = 0 then Some sz else strnlen_loop h (p + 1) (sz + 1) max_sz)
      else Some sz)"
  by pat_completeness auto
termination
  by (relation "measure (\<lambda>(h, p, sz, max_sz). max_sz - sz)") auto

declare strnlen_loop.simps [simp del]

definition pb_enc_string :: "'u encoder" where
  "pb_enc_string s h f src =
     (let max_sz = (if PB_ATYPE (fld_type f) = PB_ATYPE_POINTER then size_max
                    else unat (data_size f)) in
      access (if src = 0 then Some 0 else strnlen_loop h src 0 max_sz) (\<lambda>sz.
        pb_encode_string s (if src = 0 then null_reader else load_bytes h src) sz))"

definition pb_enc_fixed_length_bytes :: "'u encoder" where
  "pb_enc_fixed_length_bytes s h f src =
     pb_encode_string s (load_bytes h src) (unat (data_size f))"

definition pb_encode_submessage :: "'u msg_encoder \<Rightarrow> 'u msg_encoder" where
  "pb_encode_submessage enc s h fs src =
     andThen (mapFail (\<lambda>sub. s\<lparr>o_errmsg := o_errmsg sub\<rparr>) (enc PB_OSTREAM_SIZING h fs src)) (\<lambda>sub.
       let sz = bytes_written sub in
       andThen (pb_encode_varint s (word_of_nat sz)) (\<lambda>s.
         if o_callback s = None then pb_write s null_reader sz
         else if max_size s < size_add (bytes_written s) sz then Fail (o_error s ''stream full'')
         else
           withStatus
             (enc (sub\<lparr>o_callback := o_callback s, o_state := o_state s, max_size := sz,
                       bytes_written := 0, o_errmsg := None\<rparr>) h fs src)
             (\<lambda>r.
               let (status, sub) = (case r of Inl sub \<Rightarrow> (True, sub) | Inr sub \<Rightarrow> (False, sub));
                   s = s\<lparr>bytes_written := size_add (bytes_written s) (bytes_written sub),
                         o_state := o_state sub, o_errmsg := o_errmsg sub\<rparr>
               in if bytes_written sub \<noteq> sz then Fail (o_error s ''submsg size changed'')
                  else if status then Ok s else Fail s)))"

definition pb_enc_submessage :: "'u msg_encoder \<Rightarrow> 'u encoder" where
  "pb_enc_submessage enc s h f src =
     (case fld_ptr f of
        PtrNull \<Rightarrow> Fail (o_error s ''invalid field descriptor'')
      | PtrDefault bs \<Rightarrow> Undef
      | PtrFields fs \<Rightarrow> pb_encode_submessage enc s h fs src)"

definition PB_ENCODERS :: "'u msg_encoder \<Rightarrow> pb_type_t \<Rightarrow> 'u encoder" where
  "PB_ENCODERS enc ltype =
     (if ltype = PB_LTYPE_BOOL then pb_enc_bool
      else if ltype = PB_LTYPE_VARINT then pb_enc_varint
      else if ltype = PB_LTYPE_UVARINT then pb_enc_uvarint
      else if ltype = PB_LTYPE_SVARINT then pb_enc_svarint
      else if ltype = PB_LTYPE_FIXED32 then pb_enc_fixed32
      else if ltype = PB_LTYPE_FIXED64 then pb_enc_fixed64
      else if ltype = PB_LTYPE_BYTES then pb_enc_bytes
      else if ltype = PB_LTYPE_STRING then pb_enc_string
      else if ltype = PB_LTYPE_SUBMESSAGE then pb_enc_submessage enc
      else if ltype = PB_LTYPE_FIXED_LENGTH_BYTES then pb_enc_fixed_length_bytes
      else (\<lambda>s h f src. Undef))"

section \<open>Arrays and default values\<close>

text \<open>\<open>for (i = 0; i < count; i++) { if (!func(stream, field, p)) return false; p += step; }\<close>\<close>

fun encode_items :: "('u pb_ostream \<Rightarrow> addr \<Rightarrow> 'u enc) \<Rightarrow> nat \<Rightarrow> nat \<Rightarrow> addr \<Rightarrow>
    'u pb_ostream \<Rightarrow> 'u enc" where
  "encode_items item step 0 p s = Ok s"
| "encode_items item step (Suc count) p s =
     andThen (item s p) (\<lambda>s. encode_items item step count (p + int step) s)"

text \<open>The size of a packed array, as computed before anything is written; a failure of the sizing
  stream leaves the stream itself unchanged.\<close>

definition packed_size :: "'u encoder \<Rightarrow> 'u pb_ostream \<Rightarrow> heap \<Rightarrow> pb_field \<Rightarrow> addr \<Rightarrow> size_t \<Rightarrow>
    (size_t, 'u pb_ostream) res" where
  "packed_size func s h f pd count =
     (if PB_LTYPE (fld_type f) = PB_LTYPE_FIXED32 then Ok (4 * count mod 2 ^ 64)
      else if PB_LTYPE (fld_type f) = PB_LTYPE_FIXED64 then Ok (8 * count mod 2 ^ 64)
      else
        andThen (mapFail (\<lambda>_. s)
          (encode_items (\<lambda>s p. func s h f p) (unat (data_size f)) count pd PB_OSTREAM_SIZING))
          (\<lambda>sizestream. Ok (bytes_written sizestream)))"

definition encode_array :: "'u pb_ostream \<Rightarrow> heap \<Rightarrow> pb_field \<Rightarrow> addr \<Rightarrow> size_t \<Rightarrow>
    'u encoder \<Rightarrow> 'u enc" where
  "encode_array s h f pd count func =
     (let type = fld_type f; step = unat (data_size f) in
      if count = 0 then Ok s
      else if PB_ATYPE type \<noteq> PB_ATYPE_POINTER \<and> unat (array_size f) < count
      then Fail (o_error s ''array max size exceeded'')
      else if PB_LTYPE type \<le> PB_LTYPE_LAST_PACKABLE
      then andThen (pb_encode_tag s PB_WT_STRING (fld_tag f)) (\<lambda>s.
        andThen (packed_size func s h f pd count) (\<lambda>sz.
        andThen (pb_encode_varint s (word_of_nat sz)) (\<lambda>s.
          if o_callback s = None then pb_write s null_reader sz
          else encode_items (\<lambda>s p. func s h f p) step count pd s)))
      else encode_items (\<lambda>s p.
        andThen (pb_encode_tag_for_field s f) (\<lambda>s.
          if PB_ATYPE type = PB_ATYPE_POINTER
             \<and> (PB_LTYPE type = PB_LTYPE_STRING \<or> PB_LTYPE type = PB_LTYPE_BYTES)
          then access (load_ptr h p) (\<lambda>item. func s h f item)
          else func s h f p)) step count pd s)"

text \<open>The catch-all branch: every one of \<open>k\<close> bytes is zero.\<close>

fun bytes_zero :: "heap \<Rightarrow> addr \<Rightarrow> nat \<Rightarrow> bool option" where
  "bytes_zero h p 0 = Some True"
| "bytes_zero h p (Suc k) = (case mem h p of None \<Rightarrow> None
     | Some b \<Rightarrow> if b \<noteq> 0 then Some False else bytes_zero h (p + 1) k)"

text \<open>\<open>do { if (!check(...)) return false; } while (pb_field_iter_next(&iter)); return true;\<close>\<close>

fun all_fields :: "nat \<Rightarrow> (pb_field_iter \<Rightarrow> (bool, 'f) res) \<Rightarrow> pb_field_iter \<Rightarrow> (bool, 'f) res" where
  "all_fields 0 check iter = Timeout"
| "all_fields (Suc k) check iter =
     andThen (check iter) (\<lambda>ok.
       if \<not> ok then Ok False
       else let (more, iter') = pb_field_iter_next iter in
            if more then all_fields k check iter' else Ok True)"

text \<open>The part of \<open>pb_check_proto3_default_value\<close> for singular fields; \<open>check\<close> is the function
  itself on the fields of a submessage.\<close>

definition proto3_singular_default ::
  "(pb_field \<Rightarrow> addr \<Rightarrow> (bool, 'f) res) \<Rightarrow> heap \<Rightarrow> pb_field \<Rightarrow> addr \<Rightarrow> (bool, 'f) res" where
  "proto3_singular_default check h f pd =
     (let type = fld_type f; ltype = PB_LTYPE type; static = (PB_ATYPE type = PB_ATYPE_STATIC) in
      if static \<and> ltype = PB_LTYPE_BYTES
      then access (load_u32 h (bytes_array_size pd)) (\<lambda>sz. Ok (sz = 0))
      else if static \<and> ltype = PB_LTYPE_STRING then access (mem h pd) (\<lambda>c. Ok (c = 0))
      else if static \<and> ltype = PB_LTYPE_FIXED_LENGTH_BYTES then Ok (data_size f = 0)
      else if static \<and> ltype = PB_LTYPE_SUBMESSAGE
      then (case fld_ptr f of
          PtrFields fs \<Rightarrow>
            let (nonempty, iter) = pb_field_iter_begin fs pd in
            if nonempty
            then all_fields (Suc (length fs)) (\<lambda>it. check (it_field it) (pData it)) iter
            else Ok True
        | _ \<Rightarrow> Undef)
      else if PB_ATYPE type = PB_ATYPE_POINTER \<and> PB_LTYPE_LAST_PACKABLE < ltype
      then access (load_ptr h pd) (\<lambda>p. Ok (p = 0))
      else access (bytes_zero h pd (unat (data_size f))) Ok)"

primrec pb_check_proto3_default_value ::
  "nat \<Rightarrow> heap \<Rightarrow> pb_field \<Rightarrow> addr \<Rightarrow> (bool, 'f) res" where
  "pb_check_proto3_default_value 0 = (\<lambda>h f pd. Timeout)"
| "pb_check_proto3_default_value (Suc n) = (\<lambda>h f pd.
     let type = fld_type f; htype = PB_HTYPE type; psize = pd + sint (size_offset f);
         rest = proto3_singular_default (pb_check_proto3_default_value n h) h f pd
     in if htype = PB_HTYPE_REQUIRED then Ok False
        else if htype = PB_HTYPE_REPEATED
        then if size_offset f \<noteq> 0 then access (load_u32 h psize) (\<lambda>count. Ok (count = 0))
             else if PB_ATYPE type = PB_ATYPE_STATIC then Ok False
             else rest
        else if htype = PB_HTYPE_ONEOF then access (load_u32 h psize) (\<lambda>which. Ok (which = 0))
        else if htype = PB_HTYPE_OPTIONAL \<and> size_offset f \<noteq> 0
        then access (safe_read_bool h psize) (\<lambda>has. Ok (\<not> has))
        else rest)"

section \<open>A single field\<close>

text \<open>\<open>implicit_has\<close> of \<open>encode_basic_field\<close> before the pointer is followed; it is not assigned when
  the structure has a size member.\<close>

definition implicit_has :: "nat \<Rightarrow> heap \<Rightarrow> pb_field \<Rightarrow> addr \<Rightarrow> (bool, 'f) res" where
  "implicit_has n h f pd =
     (if size_offset f \<noteq> 0 then Ok False
      else if PB_HTYPE (fld_type f) = PB_HTYPE_OPTIONAL
      then andThen (pb_check_proto3_default_value n h f pd) (\<lambda>d. Ok (\<not> d))
      else Ok True)"

definition encode_basic_field :: "nat \<Rightarrow> 'u msg_encoder \<Rightarrow> 'u encoder" where
  "encode_basic_field n enc s h f pd =
     (let type = fld_type f; func = PB_ENCODERS enc (PB_LTYPE type);
          psize = pd + sint (size_offset f); in_struct = (size_offset f \<noteq> 0) in
      andThen (implicit_has n h f pd) (\<lambda>has.
      access (if PB_ATYPE type = PB_ATYPE_POINTER
              then map_option (\<lambda>p. (p, p \<noteq> 0)) (load_ptr h pd) else Some (pd, has))
      (\<lambda>(pd, has).
        if PB_HTYPE type = PB_HTYPE_REQUIRED
        then if pd = 0 then Fail (o_error s ''missing required field'')
             else andThen (pb_encode_tag_for_field s f) (\<lambda>s. func s h f pd)
        else if PB_HTYPE type = PB_HTYPE_OPTIONAL
        then access (if in_struct then safe_read_bool h psize else Some has) (\<lambda>has.
          if has then andThen (pb_encode_tag_for_field s f) (\<lambda>s. func s h f pd) else Ok s)
        else if PB_HTYPE type = PB_HTYPE_REPEATED
        then access (if in_struct then load_u32 h psize else Some (array_size f)) (\<lambda>count.
          encode_array s h f pd (unat count) func)
        else if PB_HTYPE type = PB_HTYPE_ONEOF
        then access (if in_struct then load_u32 h psize else None) (\<lambda>which.
          if which = fld_tag f
          then andThen (pb_encode_tag_for_field s f) (\<lambda>s. func s h f pd) else Ok s)
        else Fail (o_error s ''invalid field type''))))"

definition encode_callback_field :: "'u enc_env \<Rightarrow> 'u encoder" where
  "encode_callback_field env s h f pd =
     access (load_ptr h (callback_funcs pd)) (\<lambda>fn.
       if fn \<noteq> 0
       then mapFail (\<lambda>s. o_error s ''callback error'') (encode_cb env fn s h f (callback_arg pd))
       else Ok s)"

definition encode_field :: "'u enc_env \<Rightarrow> nat \<Rightarrow> 'u msg_encoder \<Rightarrow> 'u encoder" where
  "encode_field env n enc s h f pd =
     (let atype = PB_ATYPE (fld_type f) in
      if atype = PB_ATYPE_STATIC \<or> atype = PB_ATYPE_POINTER
      then encode_basic_field n enc s h f pd
      else if atype = PB_ATYPE_CALLBACK then encode_callback_field env s h f pd
      else Fail (o_error s ''invalid field type''))"

definition default_extension_encoder :: "'u enc_env \<Rightarrow> nat \<Rightarrow> 'u msg_encoder \<Rightarrow>
    'u pb_ostream \<Rightarrow> heap \<Rightarrow> addr \<Rightarrow> 'u enc" where
  "default_extension_encoder env n enc s h extension =
     access (load_ptr h (extension_type extension)) (\<lambda>type.
     access (load_ptr h (ext_type_arg type)) (\<lambda>arg.
       let f = field_at (enc_field_array env arg) 0 in
       if PB_ATYPE (fld_type f) = PB_ATYPE_POINTER
       then encode_field env n enc s h f (extension_dest extension)
       else access (load_ptr h (extension_dest extension)) (encode_field env n enc s h f)))"

text \<open>The loop of \<open>encode_extension_field\<close>; the fuel bounds the length of the list.\<close>

fun encode_extensions :: "nat \<Rightarrow> 'u enc_env \<Rightarrow> nat \<Rightarrow> 'u msg_encoder \<Rightarrow>
    'u pb_ostream \<Rightarrow> heap \<Rightarrow> addr \<Rightarrow> 'u enc" where
  "encode_extensions 0 env n enc s h extension = (if extension = 0 then Ok s else Timeout)"
| "encode_extensions (Suc k) env n enc s h extension =
     (if extension = 0 then Ok s
      else
        access (load_ptr h (extension_type extension)) (\<lambda>type.
        access (load_ptr h (ext_type_encode type)) (\<lambda>encode.
        andThen (if encode \<noteq> 0 then ext_encode env encode s h extension
                 else default_extension_encoder env n enc s h extension)
          (\<lambda>s. access (load_ptr h (extension_next extension)) (\<lambda>next.
             encode_extensions k env n enc s h next)))))"

definition encode_extension_field :: "'u enc_env \<Rightarrow> nat \<Rightarrow> 'u msg_encoder \<Rightarrow> 'u encoder" where
  "encode_extension_field env n enc s h f pd =
     access (load_ptr h pd) (encode_extensions n env n enc s h)"

section \<open>Messages\<close>

text \<open>\<open>do { if (!body) return false; } while (pb_field_iter_next(&iter)); return true;\<close>\<close>

fun encode_each :: "nat \<Rightarrow> (pb_field_iter \<Rightarrow> 'u pb_ostream \<Rightarrow> 'u enc) \<Rightarrow> pb_field_iter \<Rightarrow>
    'u pb_ostream \<Rightarrow> 'u enc" where
  "encode_each 0 body iter s = Timeout"
| "encode_each (Suc k) body iter s =
     andThen (body iter s) (\<lambda>s.
       let (more, iter') = pb_field_iter_next iter in
       if more then encode_each k body iter' s else Ok s)"

definition encode_any :: "'u enc_env \<Rightarrow> nat \<Rightarrow> 'u msg_encoder \<Rightarrow> heap \<Rightarrow> pb_field_iter \<Rightarrow>
    'u pb_ostream \<Rightarrow> 'u enc" where
  "encode_any env n enc h iter s =
     (let f = it_field iter in
      if PB_LTYPE (fld_type f) = PB_LTYPE_EXTENSION
      then encode_extension_field env n enc s h f (pData iter)
      else encode_field env n enc s h f (pData iter))"

primrec pb_encode :: "'u enc_env \<Rightarrow> nat \<Rightarrow> 'u msg_encoder" where
  "pb_encode env 0 = (\<lambda>s h fs src. Timeout)"
| "pb_encode env (Suc n) = (\<lambda>s h fs src.
     let (nonempty, iter) = pb_field_iter_begin fs src in
     if \<not> nonempty then Ok s
     else encode_each (Suc (length fs)) (encode_any env (Suc n) (pb_encode env n) h) iter s)"

definition pb_encode_delimited :: "'u enc_env \<Rightarrow> nat \<Rightarrow> 'u msg_encoder" where
  "pb_encode_delimited env n s h fs src = pb_encode_submessage (pb_encode env n) s h fs src"

definition pb_encode_nullterminated :: "'u enc_env \<Rightarrow> nat \<Rightarrow> 'u msg_encoder" where
  "pb_encode_nullterminated env n s h fs src =
     andThen (pb_encode env n s h fs src) (\<lambda>s. pb_write s (local_array [0]) 1)"

text \<open>\<open>*size\<close> when it returns true.\<close>

definition pb_get_encoded_size :: "'u enc_env \<Rightarrow> nat \<Rightarrow> heap \<Rightarrow> pb_field list \<Rightarrow> addr \<Rightarrow>
    (size_t, 'u pb_ostream) res" where
  "pb_get_encoded_size env n h fs src =
     andThen (pb_encode env n PB_OSTREAM_SIZING h fs src) (\<lambda>s. Ok (bytes_written s))"

end
