(* ===== verification/Pb_Istream.thy ===== *)
theory Pb_Istream
  imports Pb_Types
begin

text \<open>
  The input streams of \<open>nanopb/pb_decode.c\<close> and the decoders of the wire primitives: raw reads,
  varints, tags, skipping, substreams and fixed-width integers.  A stream is a callback with its
  state, the number of bytes it may still read and the first error message.  For a memory buffer
  (\<open>pb_istream_from_buffer\<close>) the state is the part of the buffer that was not read yet, and reading
  past its end is undefined behaviour; the callback of any other stream is a parameter.  It reads
  or fails, and changes nothing but its own state: that is what \<open>pb_decode.h\<close> asks of it.
\<close>

section \<open>Streams\<close>

datatype 'u icallback = Buf_read | User_read "'u \<Rightarrow> nat \<Rightarrow> bool \<times> (nat \<Rightarrow> byte) \<times> 'u"

datatype 'u istate = IBuf "byte list" | IUser 'u

record 'u pb_istream =
  i_callback :: "'u icallback"
  i_state :: "'u istate"
  bytes_left :: size_t
  i_errmsg :: "string option"

definition i_error :: "'u pb_istream \<Rightarrow> string \<Rightarrow> 'u pb_istream" where
  "i_error s msg = s\<lparr>i_errmsg := PB_SET_ERROR (i_errmsg s) msg\<rparr>"

definition pb_istream_from_buffer :: "byte list \<Rightarrow> size_t \<Rightarrow> 'u pb_istream" where
  "pb_istream_from_buffer buf bufsize =
     \<lparr>i_callback = Buf_read, i_state = IBuf buf, bytes_left = bufsize, i_errmsg = None\<rparr>"

definition buf_read :: "'u pb_istream \<Rightarrow> size_t \<Rightarrow> (byte list \<times> 'u pb_istream, 'u pb_istream) res" where
  "buf_read s count = (case i_state s of
       IBuf source \<Rightarrow> if count \<le> length source
                      then Ok (take count source, s\<lparr>i_state := IBuf (drop count source)\<rparr>)
                      else Undef
     | IUser u \<Rightarrow> Undef)"

text \<open>\<open>stream->callback(stream, buf, count)\<close>; the bytes are what \<open>buf\<close> holds afterwards.\<close>

definition i_call :: "'u pb_istream \<Rightarrow> size_t \<Rightarrow> (byte list \<times> 'u pb_istream, 'u pb_istream) res" where
  "i_call s count = (case i_callback s of
       Buf_read \<Rightarrow> buf_read s count
     | User_read f \<Rightarrow> (case i_state s of
           IBuf source \<Rightarrow> Undef
         | IUser u \<Rightarrow> (case f u count of (ok, bytes, u') \<Rightarrow>
             if ok then Ok (map bytes [0..<count], s\<lparr>i_state := IUser u'\<rparr>)
             else Fail (s\<lparr>i_state := IUser u'\<rparr>))))"

text \<open>The part of \<open>pb_read\<close> after its two special cases.\<close>

definition read_checked :: "'u pb_istream \<Rightarrow> size_t \<Rightarrow> (byte list \<times> 'u pb_istream, 'u pb_istream) res" where
  "read_checked s count =
     (if bytes_left s < count then Fail (i_error s ''end-of-stream'')
      else andThen (mapFail (\<lambda>s. i_error s ''io error'') (i_call s count))
             (\<lambda>(bytes, s). Ok (bytes, s\<lparr>bytes_left := bytes_left s - count\<rparr>)))"

text \<open>Skipping input of a stream that is not a buffer: chunks of 16 bytes into a scratch array.\<close>

fun read_skip :: "'u pb_istream \<Rightarrow> size_t \<Rightarrow> ('u pb_istream, 'u pb_istream) res" where
  "read_skip s count =
     (if 16 < count then andThen (read_checked s 16) (\<lambda>(_, s). read_skip s (count - 16))
      else andThen (read_checked s count) (\<lambda>(_, s). Ok s))"

declare read_skip.simps [simp del]

text \<open>\<open>pb_read(stream, buf, count)\<close>; \<open>buf_null\<close> says that \<open>buf\<close> is NULL.\<close>

definition pb_read :: "bool \<Rightarrow> 'u pb_istream \<Rightarrow> size_t \<Rightarrow>
    (byte list \<times> 'u pb_istream, 'u pb_istream) res" where
  "pb_read buf_null s count =
     (if count = 0 then Ok ([], s)
      else if buf_null \<and> (case i_callback s of Buf_read \<Rightarrow> False | User_read f \<Rightarrow> True)
      then andThen (read_skip s count) (\<lambda>s. Ok ([], s))
      else read_checked s count)"

definition pb_readbyte :: "'u pb_istream \<Rightarrow> (byte \<times> 'u pb_istream, 'u pb_istream) res" where
  "pb_readbyte s =
     (if bytes_left s = 0 then Fail (i_error s ''end-of-stream'')
      else andThen (mapFail (\<lambda>s. i_error s ''io error'') (i_call s 1))
             (\<lambda>(bytes, s). Ok (hd bytes, s\<lparr>bytes_left := bytes_left s - 1\<rparr>)))"

subsection \<open>What reading does to a stream\<close>

text \<open>\<open>advanced s k s'\<close>: \<open>s'\<close> is \<open>s\<close> after \<open>k\<close> bytes were taken from it.\<close>

definition advanced :: "'u pb_istream \<Rightarrow> nat \<Rightarrow> 'u pb_istream \<Rightarrow> bool" where
  "advanced s k s' \<longleftrightarrow> i_callback s' = i_callback s \<and> bytes_left s = bytes_left s' + k
     \<and> (case i_state s of IBuf src \<Rightarrow> k \<le> length src \<and> i_state s' = IBuf (drop k src)
         | IUser u \<Rightarrow> \<exists>u'. i_state s' = IUser u')"

definition istream_ok :: "'u pb_istream \<Rightarrow> bool" where
  "istream_ok s \<longleftrightarrow> (case i_callback s of
       Buf_read \<Rightarrow> (case i_state s of IBuf src \<Rightarrow> bytes_left s \<le> length src | IUser u \<Rightarrow> False)
     | User_read f \<Rightarrow> (case i_state s of IBuf src \<Rightarrow> False | IUser u \<Rightarrow> True))"

lemma advanced_0 [simp]: "advanced s 0 s"
  by (simp add: advanced_def split: istate.splits)

lemma advanced_trans: "advanced s k s' \<Longrightarrow> advanced s' m s'' \<Longrightarrow> advanced s (k + m) s''"
  by (auto simp: advanced_def add.commute split: istate.splits)

lemma advanced_i_error [simp]: "advanced s k (i_error s' msg) \<longleftrightarrow> advanced s k s'"
  by (simp add: advanced_def i_error_def split: istate.splits)

lemma advanced_left: "advanced s k s' \<Longrightarrow> bytes_left s = bytes_left s' + k"
  by (simp add: advanced_def)

lemma advanced_callback: "advanced s k s' \<Longrightarrow> i_callback s' = i_callback s"
  by (simp add: advanced_def)

lemma advanced_ok: "advanced s k s' \<Longrightarrow> istream_ok s \<Longrightarrow> istream_ok s'"
  by (auto simp: advanced_def istream_ok_def split: istate.splits icallback.splits)

text \<open>What is left of a stream when an operation on it failed: a failed substream is not always
  closed, so the position may be behind what \<open>bytes_left\<close> says, but it is never beyond it.\<close>

definition shrunk :: "'u pb_istream \<Rightarrow> 'u pb_istream \<Rightarrow> bool" where
  "shrunk s s' \<longleftrightarrow> i_callback s' = i_callback s
     \<and> (case i_state s of
          IBuf src \<Rightarrow> \<exists>k. i_state s' = IBuf (drop k src) \<and> k + bytes_left s' \<le> bytes_left s
        | IUser u \<Rightarrow> bytes_left s' \<le> bytes_left s \<and> (\<exists>u'. i_state s' = IUser u'))"

lemma shrunk_refl [simp]: "shrunk s s"
  by (auto simp: shrunk_def intro: exI [of _ 0] split: istate.splits)

lemma shrunk_trans: "shrunk s s' \<Longrightarrow> shrunk s' s'' \<Longrightarrow> shrunk s s''"
  by (fastforce simp: shrunk_def split: istate.splits)

lemma shrunk_left: "shrunk s s' \<Longrightarrow> bytes_left s' \<le> bytes_left s"
  by (auto simp: shrunk_def split: istate.splits)

lemma shrunk_ok: "shrunk s s' \<Longrightarrow> istream_ok s \<Longrightarrow> istream_ok s'"
  by (auto simp: shrunk_def istream_ok_def split: istate.splits icallback.splits)

lemma advanced_shrunk: "advanced s k s' \<Longrightarrow> shrunk s s'"
  by (auto simp: shrunk_def advanced_def split: istate.splits)

lemma i_error_fields [simp]:
  "bytes_left (i_error s m) = bytes_left s"
  "i_callback (i_error s m) = i_callback s"
  "i_state (i_error s m) = i_state s"
  "i_errmsg (i_error s m) \<noteq> None"
  using PB_SET_ERROR_Some [of "i_errmsg s" m] by (auto simp: i_error_def)

lemma i_error_Some [simp]: "\<exists>m'. i_errmsg (i_error s m) = Some m'"
  by (simp add: i_error_def PB_SET_ERROR_Some)

lemma istream_ok_i_error [simp]: "istream_ok (i_error s m) \<longleftrightarrow> istream_ok s"
  by (simp only: istream_ok_def i_error_fields)

lemma shrunk_i_error [simp]: "shrunk s (i_error s' m) \<longleftrightarrow> shrunk s s'"
  by (simp add: shrunk_def split: istate.splits)

lemma i_call_Ok: "i_call s n = Ok (bs, s') \<Longrightarrow> n \<le> bytes_left s \<Longrightarrow>
    advanced s n (s'\<lparr>bytes_left := bytes_left s' - n\<rparr>) \<and> length bs = n
    \<and> i_errmsg s' = i_errmsg s \<and> bytes_left s' = bytes_left s"
  by (auto simp: i_call_def buf_read_def advanced_def
      split: icallback.splits istate.splits if_splits prod.splits)

lemma i_call_Fail: "i_call s n = Fail s' \<Longrightarrow>
    advanced s 0 s' \<and> i_errmsg s' = i_errmsg s \<and> bytes_left s' = bytes_left s"
  by (auto simp: i_call_def buf_read_def advanced_def
      split: icallback.splits istate.splits if_splits prod.splits)

lemma i_call_defined: "istream_ok s \<Longrightarrow> n \<le> bytes_left s \<Longrightarrow> defined (i_call s n)"
  by (auto simp: i_call_def buf_read_def istream_ok_def
      split: icallback.splits istate.splits prod.splits)

lemma read_checked_Ok:
  "read_checked s n = Ok (bs, s') \<Longrightarrow> advanced s n s' \<and> length bs = n \<and> i_errmsg s' = i_errmsg s"
  using i_call_Ok [of s n]
  by (fastforce simp: read_checked_def res_iffs split: if_splits)

lemma read_checked_less: "read_checked s 1 = Ok (bs, s') \<Longrightarrow> bytes_left s' < bytes_left s"
  using read_checked_Ok [of s 1 bs s'] by (auto dest: advanced_left)

lemma read_checked_Fail:
  "read_checked s n = Fail s' \<Longrightarrow> advanced s 0 s' \<and> i_errmsg s' \<noteq> None"
  by (auto simp: read_checked_def res_iffs dest: i_call_Fail split: if_splits)

lemma read_checked_defined: "istream_ok s \<Longrightarrow> defined (read_checked s n)"
  using i_call_defined [of s n]
  by (auto simp: read_checked_def defined_iff andThen_Undef_iff andThen_Timeout_iff mapFail_iffs)

text \<open>
  \<open>reads m s r\<close> is the contract of every reading operation started on \<open>s\<close>: its result is defined
  when the stream is well formed; when it succeeds it has taken at least \<open>m\<close> bytes from the
  stream, and when it fails it leaves a stream that is no longer than it was.
\<close>

definition reads :: "nat \<Rightarrow> 'u pb_istream \<Rightarrow> ('a \<times> 'u pb_istream, 'u pb_istream) res \<Rightarrow> bool" where
  "reads m s r \<longleftrightarrow> (case r of Undef \<Rightarrow> \<not> istream_ok s | Timeout \<Rightarrow> False
     | Fail s' \<Rightarrow> shrunk s s'
     | Ok (a, s') \<Rightarrow> \<exists>k\<ge>m. advanced s k s')"

lemma reads_Ok: "m = 0 \<Longrightarrow> reads m s (Ok (a, s))"
  using advanced_0 [of s] by (auto simp: reads_def intro!: exI [of _ 0] simp del: advanced_0)

lemma reads_Fail: "reads m s (Fail s)"
  by (simp add: reads_def)

lemma reads_error: "reads m s (Fail (i_error s msg))"
  by (simp add: reads_def)

lemma reads_bind:
  assumes m: "reads i s r" and k: "\<And>a s'. r = Ok (a, s') \<Longrightarrow> reads j s' (f a s')" and le: "n \<le> i + j"
  shows "reads n s (andThen r (\<lambda>(a, s'). f a s'))"
proof (cases r)
  case Undef
  with m show ?thesis by (simp add: reads_def)
next
  case Timeout
  with m show ?thesis by (simp add: reads_def)
next
  case (Fail s')
  with m show ?thesis by (simp add: reads_def)
next
  case (Ok as)
  obtain a s' where as: "as = (a, s')" by (cases as)
  with m Ok obtain l where l: "i \<le> l" "advanced s l s'" by (auto simp: reads_def)
  have r: "reads j s' (f a s')" using k Ok as by simp
  have ok: "istream_ok s \<Longrightarrow> istream_ok s'" using l(2) by (rule advanced_ok)
  show ?thesis
  proof (cases "f a s'")
    case (Ok bs)
    then obtain b s'' q where "bs = (b, s'')" "j \<le> q" "advanced s' q s''"
      using r by (cases bs) (auto simp: reads_def)
    with l le Ok \<open>r = Ok as\<close> as show ?thesis
      using advanced_trans [of s l s' q s''] by (auto simp: reads_def intro!: exI [of _ "l + q"])
  next
    case (Fail s'')
    with r have "shrunk s' s''" by (simp add: reads_def)
    with l Fail \<open>r = Ok as\<close> as show ?thesis
      using advanced_shrunk [of s l s'] shrunk_trans [of s s' s''] by (simp add: reads_def)
  qed (use r ok \<open>r = Ok as\<close> as in \<open>auto simp: reads_def\<close>)
qed

lemma reads_weaken: "reads i s r \<Longrightarrow> n \<le> i \<Longrightarrow> reads n s r"
  by (auto simp: reads_def split: res.splits) (meson order_trans)

lemma reads_defined: "reads m s r \<Longrightarrow> istream_ok s \<Longrightarrow> defined r"
  by (auto simp: reads_def split: res.splits)

lemma reads_OkD: "reads m s (Ok (a, s')) \<Longrightarrow> \<exists>k\<ge>m. advanced s k s'"
  by (simp add: reads_def)

lemma reads_FailD: "reads m s (Fail s') \<Longrightarrow> shrunk s s'"
  by (simp add: reads_def)

lemma reads_if: "(b \<Longrightarrow> reads m s x) \<Longrightarrow> (\<not> b \<Longrightarrow> reads m s y) \<Longrightarrow> reads m s (if b then x else y)"
  by simp

lemma read_checked_reads: "reads n s (read_checked s n)"
proof (cases "read_checked s n")
  case (Ok as)
  then show ?thesis using read_checked_Ok [of s n "fst as" "snd as"] by (auto simp: reads_def)
next
  case (Fail s')
  then show ?thesis using read_checked_Fail [of s n s'] advanced_shrunk by (auto simp: reads_def)
qed (use read_checked_defined [of s n] in \<open>auto simp: reads_def read_checked_def
   i_call_def buf_read_def andThen_Timeout_iff mapFail_iffs
   split: if_splits icallback.splits istate.splits prod.splits\<close>)

lemma read_skip_reads: "reads n s (andThen (read_skip s n) (\<lambda>s. Ok ((), s)))"
proof (induction s n rule: read_skip.induct)
  case (1 s n)
  show ?case
  proof (cases "16 < n")
    case True
    have "reads n s (andThen (read_checked s 16) (\<lambda>(bs, s'). andThen (read_skip s' (n - 16)) (\<lambda>s. Ok ((), s))))"
      using True "1.IH" by (intro reads_bind [where i = 16 and j = "n - 16"] read_checked_reads) auto
    with True show ?thesis by (simp add: read_skip.simps [of s n] andThen_assoc case_prod_unfold)
  next
    case False
    have "reads n s (andThen (read_checked s n) (\<lambda>(bs, s'). Ok ((), s')))"
      by (rule reads_bind [where i = n and j = 0]) (auto intro: read_checked_reads reads_Ok)
    with False show ?thesis by (simp add: read_skip.simps [of s n] andThen_assoc case_prod_unfold)
  qed
qed

lemma pb_read_reads: "reads n s (pb_read b s n)"
proof -
  have "reads n s (andThen (andThen (read_skip s n) (\<lambda>s. Ok ((), s))) (\<lambda>(_, s). Ok ([], s)))"
    by (rule reads_bind [where i = n and j = 0, OF read_skip_reads]) (auto intro: reads_Ok)
  then have "reads n s (andThen (read_skip s n) (\<lambda>s. Ok ([], s)))" by (simp add: andThen_assoc)
  then show ?thesis
    using read_checked_reads [of n s] by (auto simp: pb_read_def intro: reads_Ok)
qed

lemma pb_readbyte_read: "pb_readbyte s = andThen (read_checked s 1) (\<lambda>(bs, s'). Ok (hd bs, s'))"
  by (cases "i_call s 1")
    (auto simp: pb_readbyte_def read_checked_def andThen_assoc case_prod_unfold)

lemma pb_readbyte_reads: "reads 1 s (pb_readbyte s)"
  unfolding pb_readbyte_read
  by (rule reads_bind [where i = 1 and j = 0]) (auto intro: read_checked_reads reads_Ok)

lemma pb_readbyte_Ok:
  "pb_readbyte s = Ok (b, s') \<Longrightarrow> advanced s 1 s' \<and> i_errmsg s' = i_errmsg s"
  unfolding pb_readbyte_read by (auto simp: andThen_Ok_iff dest: read_checked_Ok)

lemma pb_readbyte_less: "pb_readbyte s = Ok (b, s') \<Longrightarrow> bytes_left s' < bytes_left s"
  using pb_readbyte_Ok [of s b s'] by (auto simp: advanced_def)


section \<open>Varints\<close>

text \<open>The \<open>do ... while\<close> loop of \<open>pb_decode_varint32_eof\<close>.  \<open>bitpos\<close> is a \<open>uint_fast8_t\<close>, so it
  wraps at 256.\<close>

function varint32_loop :: "nat \<Rightarrow> uint32 \<Rightarrow> 'u pb_istream \<Rightarrow>
    ((byte \<times> nat \<times> uint32) \<times> 'u pb_istream, 'u pb_istream) res" where
  "varint32_loop bitpos result s =
     andThen (pb_readbyte s) (\<lambda>(byte, s).
       let sign_extension = (if bitpos < 63 then 0xFF else 0x01) in
       if 32 \<le> bitpos \<and> byte AND 0x7F \<noteq> 0 \<and> (drop_bit 31 result = 0 \<or> byte \<noteq> sign_extension)
       then Fail (i_error s ''varint overflow'')
       else
         let result = (if 32 \<le> bitpos then result
                       else result OR push_bit bitpos (ucast (byte AND 0x7F)));
             bitpos = (bitpos + 7) mod 256
         in if byte AND 0x80 \<noteq> 0 then varint32_loop bitpos result s
            else Ok ((byte, bitpos, result), s))"
  by pat_completeness auto
termination
  by (relation "measure (\<lambda>(_, _, s). bytes_left s)") (auto dest: pb_readbyte_less)

declare varint32_loop.simps [simp del]

text \<open>A failure says whether \<open>*eof\<close> was set.\<close>

definition pb_decode_varint32_eof :: "'u pb_istream \<Rightarrow>
    (uint32 \<times> 'u pb_istream, bool \<times> 'u pb_istream) res" where
  "pb_decode_varint32_eof s =
     andThen (mapFail (\<lambda>s. (bytes_left s = 0, s)) (pb_readbyte s)) (\<lambda>(byte, s).
       if byte AND 0x80 = 0 then Ok (ucast byte, s)
       else andThen (mapFail (\<lambda>s. (False, s)) (varint32_loop 7 (ucast (byte AND 0x7F)) s))
         (\<lambda>((byte, bitpos, result), s).
           if bitpos = 35 \<and> byte AND 0x70 \<noteq> 0 then Fail (False, i_error s ''varint overflow'')
           else Ok (result, s)))"

definition pb_decode_varint32 :: "'u pb_istream \<Rightarrow> (uint32 \<times> 'u pb_istream, 'u pb_istream) res" where
  "pb_decode_varint32 s = mapFail snd (pb_decode_varint32_eof s)"

function varint_loop :: "nat \<Rightarrow> uint64 \<Rightarrow> 'u pb_istream \<Rightarrow>
    (uint64 \<times> 'u pb_istream, 'u pb_istream) res" where
  "varint_loop bitpos result s =
     (if 64 \<le> bitpos then Fail (i_error s ''varint overflow'')
      else andThen (pb_readbyte s) (\<lambda>(byte, s).
        let result = result OR push_bit bitpos (ucast (byte AND 0x7F));
            bitpos = (bitpos + 7) mod 256
        in if byte AND 0x80 \<noteq> 0 then varint_loop bitpos result s else Ok (result, s)))"
  by pat_completeness auto
termination
  by (relation "measure (\<lambda>(_, _, s). bytes_left s)") (auto dest: pb_readbyte_less)

declare varint_loop.simps [simp del]

definition pb_decode_varint :: "'u pb_istream \<Rightarrow> (uint64 \<times> 'u pb_istream, 'u pb_istream) res" where
  "pb_decode_varint s = varint_loop 0 0 s"

text \<open>\<open>pb_skip_varint\<close> reads its bytes with \<open>pb_read(stream, &byte, 1)\<close>.\<close>

lemma pb_read_1: "pb_read False s 1 = read_checked s 1"
  by (simp add: pb_read_def)

function pb_skip_varint :: "'u pb_istream \<Rightarrow> (unit \<times> 'u pb_istream, 'u pb_istream) res" where
  "pb_skip_varint s =
     andThen (pb_read False s 1) (\<lambda>(bytes, s).
       if hd bytes AND 0x80 \<noteq> 0 then pb_skip_varint s else Ok ((), s))"
  by pat_completeness auto
termination
  by (relation "measure bytes_left")
    (use read_checked_less in \<open>auto simp: pb_read_1 simp del: One_nat_def\<close>)

declare pb_skip_varint.simps [simp del]

section \<open>Skipping, tags and substreams\<close>

definition pb_skip_string :: "'u pb_istream \<Rightarrow> (unit \<times> 'u pb_istream, 'u pb_istream) res" where
  "pb_skip_string s =
     andThen (pb_decode_varint32 s) (\<lambda>(length, s).
       andThen (pb_read True s (unat length)) (\<lambda>(_, s). Ok ((), s)))"

definition pb_decode_tag :: "'u pb_istream \<Rightarrow>
    ((pb_wire_type \<times> uint32) \<times> 'u pb_istream, bool \<times> 'u pb_istream) res" where
  "pb_decode_tag s =
     andThen (pb_decode_varint32_eof s) (\<lambda>(temp, s).
       if temp = 0 then Fail (True, s)
       else Ok ((unat (temp AND 7), drop_bit 3 temp), s))"

definition pb_skip_field :: "'u pb_istream \<Rightarrow> pb_wire_type \<Rightarrow>
    (unit \<times> 'u pb_istream, 'u pb_istream) res" where
  "pb_skip_field s wire_type =
     (if wire_type = PB_WT_VARINT then pb_skip_varint s
      else if wire_type = PB_WT_64BIT then andThen (pb_read True s 8) (\<lambda>(_, s). Ok ((), s))
      else if wire_type = PB_WT_STRING then pb_skip_string s
      else if wire_type = PB_WT_32BIT then andThen (pb_read True s 4) (\<lambda>(_, s). Ok ((), s))
      else Fail (i_error s ''invalid wire_type''))"

text \<open>\<open>read_raw_value\<close> returns the bytes it put into the buffer; their number is \<open>*size\<close>.  The
  fuel of the varint case is the room left in the buffer.\<close>

fun raw_varint :: "nat \<Rightarrow> 'u pb_istream \<Rightarrow> (byte list \<times> 'u pb_istream, 'u pb_istream) res" where
  "raw_varint 0 s = Fail s"
| "raw_varint (Suc room) s =
     andThen (pb_read False s 1) (\<lambda>(bytes, s).
       if hd bytes AND 0x80 \<noteq> 0
       then andThen (raw_varint room s) (\<lambda>(rest, s). Ok (hd bytes # rest, s))
       else Ok ([hd bytes], s))"

definition read_raw_value :: "'u pb_istream \<Rightarrow> pb_wire_type \<Rightarrow> size_t \<Rightarrow>
    (byte list \<times> 'u pb_istream, 'u pb_istream) res" where
  "read_raw_value s wire_type max_size =
     (if wire_type = PB_WT_VARINT then raw_varint max_size s
      else if wire_type = PB_WT_64BIT then pb_read False s 8
      else if wire_type = PB_WT_32BIT then pb_read False s 4
      else Fail (i_error s ''invalid wire_type''))"

text \<open>The result is the substream and the parent.\<close>

definition pb_make_string_substream :: "'u pb_istream \<Rightarrow>
    ('u pb_istream \<times> 'u pb_istream, 'u pb_istream) res" where
  "pb_make_string_substream s =
     andThen (pb_decode_varint32 s) (\<lambda>(size, s).
       if bytes_left s < unat size then Fail (i_error s ''parent stream too short'')
       else Ok (s\<lparr>bytes_left := unat size\<rparr>, s\<lparr>bytes_left := bytes_left s - unat size\<rparr>))"

definition pb_close_string_substream :: "'u pb_istream \<Rightarrow> 'u pb_istream \<Rightarrow>
    (unit \<times> 'u pb_istream, 'u pb_istream) res" where
  "pb_close_string_substream s sub =
     andThen (if bytes_left sub \<noteq> 0 then mapFail (\<lambda>_. s) (pb_read True sub (bytes_left sub))
              else Ok ([], sub))
       (\<lambda>(_, sub). Ok ((), s\<lparr>i_state := i_state sub, i_errmsg := i_errmsg sub\<rparr>))"

section \<open>Signed varints and fixed-width integers\<close>

definition pb_decode_svarint :: "'u pb_istream \<Rightarrow> (64 word \<times> 'u pb_istream, 'u pb_istream) res" where
  "pb_decode_svarint s =
     andThen (pb_decode_varint s) (\<lambda>(value, s).
       Ok (if value AND 1 \<noteq> 0 then NOT (drop_bit 1 value) else drop_bit 1 value, s))"

definition pb_decode_fixed32 :: "'u pb_istream \<Rightarrow> (uint32 \<times> 'u pb_istream, 'u pb_istream) res" where
  "pb_decode_fixed32 s =
     andThen (pb_read False s 4) (\<lambda>(bytes, s).
       Ok (push_bit 0 (ucast (bytes ! 0)) OR push_bit 8 (ucast (bytes ! 1)) OR
           push_bit 16 (ucast (bytes ! 2)) OR push_bit 24 (ucast (bytes ! 3)), s))"

definition pb_decode_fixed64 :: "'u pb_istream \<Rightarrow> (uint64 \<times> 'u pb_istream, 'u pb_istream) res" where
  "pb_decode_fixed64 s =
     andThen (pb_read False s 8) (\<lambda>(bytes, s).
       Ok (push_bit 0 (ucast (bytes ! 0)) OR push_bit 8 (ucast (bytes ! 1)) OR
           push_bit 16 (ucast (bytes ! 2)) OR push_bit 24 (ucast (bytes ! 3)) OR
           push_bit 32 (ucast (bytes ! 4)) OR push_bit 40 (ucast (bytes ! 5)) OR
           push_bit 48 (ucast (bytes ! 6)) OR push_bit 56 (ucast (bytes ! 7)), s))"

section \<open>Every reader keeps the contract\<close>

lemma mapFail_snd_reads: "reads m s r \<Longrightarrow> mapFail snd (mapFail (\<lambda>s. (b s, s)) r) = r"
  by (cases r) auto

lemma varint32_loop_reads: "reads 1 s (varint32_loop bitpos result s)"
proof (induction bitpos result s rule: varint32_loop.induct)
  case (1 bitpos result s)
  show ?case
    unfolding varint32_loop.simps [of bitpos result s]
  proof (rule reads_bind [where i = 1 and j = 0, OF pb_readbyte_reads])
    fix byte s'
    assume r: "pb_readbyte s = Ok (byte, s')"
    show "reads 0 s' (let sign_extension = (if bitpos < 63 then 0xFF else 0x01) in
       if 32 \<le> bitpos \<and> byte AND 0x7F \<noteq> 0 \<and> (drop_bit 31 result = 0 \<or> byte \<noteq> sign_extension)
       then Fail (i_error s' ''varint overflow'')
       else
         let result = (if 32 \<le> bitpos then result
                       else result OR push_bit bitpos (ucast (byte AND 0x7F)));
             bitpos = (bitpos + 7) mod 256
         in if byte AND 0x80 \<noteq> 0 then varint32_loop bitpos result s'
            else Ok ((byte, bitpos, result), s'))"
      unfolding Let_def
      by (intro reads_if reads_error reads_Ok refl)
        (rule reads_weaken [OF "1.IH" [OF r refl refl _ refl refl]], assumption+, simp)
  qed simp
qed

lemma snd_mapFail_andThen:
  "mapFail g (andThen r k) = andThen (mapFail g r) (\<lambda>a. mapFail g (k a))"
  by (cases r) auto

lemma mapFail_mapFail: "mapFail g (mapFail f r) = mapFail (g \<circ> f) r"
  by (cases r) auto

lemma mapFail_id: "mapFail (\<lambda>s. s) r = r"
  by (cases r) auto

lemma pb_decode_varint32_reads: "reads 1 s (pb_decode_varint32 s)"
proof -
  have e: "pb_decode_varint32 s = andThen (pb_readbyte s) (\<lambda>(byte, s).
       if byte AND 0x80 = 0 then Ok (ucast byte, s)
       else andThen (varint32_loop 7 (ucast (byte AND 0x7F)) s)
         (\<lambda>((byte, bitpos, result), s).
           if bitpos = 35 \<and> byte AND 0x70 \<noteq> 0 then Fail (i_error s ''varint overflow'')
           else Ok (result, s)))"
    by (auto simp: pb_decode_varint32_def pb_decode_varint32_eof_def snd_mapFail_andThen
        mapFail_mapFail mapFail_id comp_def if_distrib [of "mapFail snd"] intro!: andThen_cong)
  show ?thesis
    unfolding e
    by (rule reads_bind [where i = 1 and j = 0, OF pb_readbyte_reads])
      (auto intro!: reads_Ok reads_error
        reads_bind [where i = 1 and j = 0 and n = 0, OF varint32_loop_reads] split: prod.split)
qed

lemma pb_decode_varint32_eof_reads: "reads 1 s (mapFail snd (pb_decode_varint32_eof s))"
  using pb_decode_varint32_reads [of s] by (simp add: pb_decode_varint32_def)

lemma varint_loop_reads: "reads (if bitpos < 64 then 1 else 0) s (varint_loop bitpos result s)"
proof (induction bitpos result s rule: varint_loop.induct)
  case (1 bitpos result s)
  show ?case
  proof (cases "64 \<le> bitpos")
    case True
    then show ?thesis by (simp add: varint_loop.simps [of bitpos] reads_error)
  next
    case False
    have "reads 1 s (andThen (pb_readbyte s) (\<lambda>(byte, s).
        let result = result OR push_bit bitpos (ucast (byte AND 0x7F));
            bitpos = (bitpos + 7) mod 256
        in if byte AND 0x80 \<noteq> 0 then varint_loop bitpos result s else Ok (result, s)))"
    proof (rule reads_bind [where i = 1 and j = 0, OF pb_readbyte_reads])
      fix byte s'
      assume r: "pb_readbyte s = Ok (byte, s')"
      show "reads 0 s' (let result = result OR push_bit bitpos (ucast (byte AND 0x7F));
            bitpos = (bitpos + 7) mod 256
        in if byte AND 0x80 \<noteq> 0 then varint_loop bitpos result s' else Ok (result, s'))"
        using "1.IH" [OF False r refl refl refl] by (auto simp: Let_def intro: reads_Ok reads_weaken)
    qed simp
    with False show ?thesis by (simp add: varint_loop.simps [of bitpos])
  qed
qed

lemma pb_decode_varint_reads: "reads 1 s (pb_decode_varint s)"
  using varint_loop_reads [of 0 s 0] by (simp add: pb_decode_varint_def)

lemma pb_skip_varint_reads: "reads 1 s (pb_skip_varint s)"
proof (induction s rule: pb_skip_varint.induct)
  case (1 s)
  show ?case
    unfolding pb_skip_varint.simps [of s]
  proof (rule reads_bind [where i = 1 and j = 0, OF pb_read_reads])
    fix bytes s'
    assume "pb_read False s 1 = Ok (bytes, s')"
    then show "reads 0 s' (if hd bytes AND 0x80 \<noteq> 0 then pb_skip_varint s' else Ok ((), s'))"
      using "1.IH" [of "(bytes, s')" bytes s'] by (auto intro: reads_Ok reads_weaken)
  qed simp
qed

lemma read_unit_reads: "reads n s (andThen (pb_read b s n) (\<lambda>(_, s). Ok ((), s)))"
  by (rule reads_bind [where i = n and j = 0, OF pb_read_reads]) (auto intro: reads_Ok)

lemma pb_skip_string_reads: "reads 1 s (pb_skip_string s)"
  unfolding pb_skip_string_def
  by (rule reads_bind [where i = 1 and j = 0, OF pb_decode_varint32_reads])
    (auto intro: reads_weaken [OF read_unit_reads])

lemma pb_skip_field_reads: "reads 1 s (pb_skip_field s w)"
  by (auto simp: pb_skip_field_def
      intro: pb_skip_varint_reads pb_skip_string_reads reads_error reads_weaken [OF read_unit_reads])

lemma pb_decode_tag_reads: "reads 1 s (mapFail snd (pb_decode_tag s))"
  unfolding pb_decode_tag_def snd_mapFail_andThen case_prod_unfold if_distrib [of "mapFail snd"]
  by (rule reads_bind [where i = 1 and j = 0, OF pb_decode_varint32_eof_reads, unfolded case_prod_unfold])
    (auto intro: reads_Fail reads_Ok)

lemma raw_varint_reads: "reads 1 s (raw_varint room s)"
proof (induction room arbitrary: s)
  case 0
  then show ?case by (simp add: reads_Fail)
next
  case (Suc room)
  have "reads 0 s' (if hd bytes AND 0x80 \<noteq> 0
       then andThen (raw_varint room s') (\<lambda>(rest, s). Ok (hd bytes # rest, s))
       else Ok ([hd bytes], s'))" for bytes and s' :: "'a pb_istream"
    by (auto intro!: reads_bind [where i = 1 and j = 0 and n = 0, OF Suc] reads_Ok)
  then show ?case
    unfolding raw_varint.simps by (intro reads_bind [where i = 1 and j = 0, OF pb_read_reads]) auto
qed

lemma raw_varint_length: "raw_varint room s = Ok (bs, s') \<Longrightarrow> length bs \<le> room"
  by (induction room arbitrary: s bs) (fastforce simp: andThen_Ok_iff split: if_splits)+

lemma read_raw_value_reads: "reads 1 s (read_raw_value s w m)"
  by (auto simp: read_raw_value_def
      intro: raw_varint_reads reads_weaken [OF pb_read_reads] reads_error)

lemma pb_decode_svarint_reads: "reads 1 s (pb_decode_svarint s)"
  unfolding pb_decode_svarint_def
  by (rule reads_bind [where i = 1 and j = 0, OF pb_decode_varint_reads]) (auto intro: reads_Ok)

lemma pb_decode_fixed32_reads: "reads 4 s (pb_decode_fixed32 s)"
  unfolding pb_decode_fixed32_def
  by (rule reads_bind [where i = 4 and j = 0, OF pb_read_reads]) (auto intro: reads_Ok)

lemma pb_decode_fixed64_reads: "reads 8 s (pb_decode_fixed64 s)"
  unfolding pb_decode_fixed64_def
  by (rule reads_bind [where i = 8 and j = 0, OF pb_read_reads]) (auto intro: reads_Ok)

text \<open>Opening a substream splits the bytes that are left; closing it moves the parent past it.\<close>

lemma pb_make_string_substream_Ok:
  assumes "pb_make_string_substream s = Ok (sub, s')"
  shows "\<exists>k\<ge>1. \<exists>n. advanced s k (s'\<lparr>bytes_left := bytes_left s' + n\<rparr>)
     \<and> bytes_left sub = n \<and> i_state s' = i_state sub \<and> i_callback s' = i_callback sub
     \<and> i_errmsg s' = i_errmsg sub"
proof -
  from assms obtain len s1 where d: "pb_decode_varint32 s = Ok (len, s1)"
    and le: "unat len \<le> bytes_left s1"
    and sub: "sub = s1\<lparr>bytes_left := unat len\<rparr>" "s' = s1\<lparr>bytes_left := bytes_left s1 - unat len\<rparr>"
    by (auto simp: pb_make_string_substream_def andThen_Ok_iff split: if_splits)
  from pb_decode_varint32_reads [of s] d obtain k where k: "1 \<le> k" "advanced s k s1"
    by (auto simp: reads_def)
  from le sub(2) have "s'\<lparr>bytes_left := bytes_left s' + unat len\<rparr> = s1" by simp
  with k sub show ?thesis by auto
qed

lemma pb_make_string_substream_other:
  "istream_ok s \<Longrightarrow> defined (pb_make_string_substream s)"
  "pb_make_string_substream s \<noteq> Timeout"
  "pb_make_string_substream s = Fail s' \<Longrightarrow> shrunk s s'"
  using pb_decode_varint32_reads [of s]
  by (auto simp: pb_make_string_substream_def reads_def defined_andThen andThen_Timeout_iff
      andThen_Fail_iff dest: advanced_shrunk reads_defined split: res.splits if_splits)

lemma substream_shrunk:
  assumes "pb_make_string_substream s = Ok (sub, s')"
  shows "shrunk s s'" "bytes_left sub < bytes_left s" "bytes_left s' < bytes_left s"
proof -
  from pb_make_string_substream_Ok [OF assms] obtain k n where
    k: "1 \<le> k" "advanced s k (s'\<lparr>bytes_left := bytes_left s' + n\<rparr>)" "bytes_left sub = n"
       "i_state s' = i_state sub" "i_callback s' = i_callback sub" by blast
  then show "shrunk s s'" "bytes_left sub < bytes_left s" "bytes_left s' < bytes_left s"
    by (auto simp: shrunk_def advanced_def split: istate.splits)
qed

lemma substream_ok:
  assumes "pb_make_string_substream s = Ok (sub, s')" "istream_ok s"
  shows "istream_ok sub" "istream_ok s'"
proof -
  from pb_make_string_substream_Ok [OF assms(1)] obtain k n where
    k: "advanced s k (s'\<lparr>bytes_left := bytes_left s' + n\<rparr>)" "bytes_left sub = n"
       "i_state s' = i_state sub" "i_callback s' = i_callback sub" by blast
  from advanced_ok [OF k(1) assms(2)] k(2,3,4) show "istream_ok sub" "istream_ok s'"
    by (auto simp: istream_ok_def split: icallback.splits istate.splits)
qed

lemma closed_stream:
  assumes "pb_close_string_substream s1 sub = Ok ((), s2)"
  shows "\<exists>j sub2. advanced sub j sub2 \<and> bytes_left sub2 = 0
     \<and> s2 = s1\<lparr>i_state := i_state sub2, i_errmsg := i_errmsg sub2\<rparr>"
proof (cases "bytes_left sub = 0")
  case True
  with assms show ?thesis
    by (intro exI [of _ 0] exI [of _ sub]) (simp add: pb_close_string_substream_def)
next
  case False
  with assms obtain bs sub2 where r: "pb_read True sub (bytes_left sub) = Ok (bs, sub2)"
    "s2 = s1\<lparr>i_state := i_state sub2, i_errmsg := i_errmsg sub2\<rparr>"
    by (auto simp: pb_close_string_substream_def andThen_Ok_iff mapFail_iffs)
  with pb_read_reads [of "bytes_left sub" sub True] obtain q where
    "bytes_left sub \<le> q" "advanced sub q sub2" by (auto simp: reads_def)
  with r(2) show ?thesis
    by (intro exI [of _ q] exI [of _ sub2]) (auto dest: advanced_left)
qed

text \<open>\<open>pb_make_string_substream\<close>, then \<open>k\<close> bytes taken from the substream, then
  \<open>pb_close_string_substream\<close>.\<close>

lemma substream_closed:
  assumes "pb_make_string_substream s = Ok (sub, s1)" "advanced sub k sub'"
    "pb_close_string_substream s1 sub' = Ok ((), s2)"
  shows "\<exists>m\<ge>1. advanced s m s2"
proof -
  from pb_make_string_substream_Ok [OF assms(1)] obtain l n where
    l: "1 \<le> l" "advanced s l (s1\<lparr>bytes_left := bytes_left s1 + n\<rparr>)" "bytes_left sub = n"
       "i_state s1 = i_state sub" "i_callback s1 = i_callback sub" by blast
  obtain sub2 j where j: "advanced sub' j sub2" "bytes_left sub2 = 0"
    and s2: "s2 = s1\<lparr>i_state := i_state sub2, i_errmsg := i_errmsg sub2\<rparr>"
    using closed_stream [OF assms(3)] by blast
  have "advanced sub (k + j) sub2" using assms(2) j(1) by (rule advanced_trans)
  with l j(2) have "n = k + j" by (auto dest: advanced_left)
  with l \<open>advanced sub (k + j) sub2\<close> s2 j(2) have
    "advanced (s1\<lparr>bytes_left := bytes_left s1 + n\<rparr>) (k + j) s2"
    by (auto simp: advanced_def split: istate.splits)
  from advanced_trans [OF l(2) this] l(1) show ?thesis by (intro exI [of _ "l + (k + j)"]) simp
qed

text \<open>The same when the work on the substream failed: the parent is left within its bounds, whatever
  error it recorded before.\<close>

lemma substream_closed_shrunk:
  assumes "pb_make_string_substream s = Ok (sub, s1)" "shrunk sub sub'"
    "pb_close_string_substream (s1\<lparr>i_errmsg := e\<rparr>) sub' = Ok ((), s2)"
  shows "shrunk s s2"
proof -
  from pb_make_string_substream_Ok [OF assms(1)] obtain l n where
    l: "advanced s l (s1\<lparr>bytes_left := bytes_left s1 + n\<rparr>)" "bytes_left sub = n"
       "i_state s1 = i_state sub" "i_callback s1 = i_callback sub" by blast
  obtain sub2 j where j: "advanced sub' j sub2" "bytes_left sub2 = 0"
    and s2: "s2 = s1\<lparr>i_state := i_state sub2, i_errmsg := i_errmsg sub2\<rparr>"
    using closed_stream [OF assms(3)] by auto
  have "shrunk sub sub2" using assms(2) advanced_shrunk [OF j(1)] by (rule shrunk_trans)
  with l j(2) s2 show ?thesis
    by (fastforce simp: shrunk_def advanced_def split: istate.splits)
qed

lemma pb_close_string_substream_other:
  "istream_ok sub \<Longrightarrow> defined (pb_close_string_substream s sub)"
  "pb_close_string_substream s sub \<noteq> Timeout"
  "pb_close_string_substream s sub = Fail s' \<Longrightarrow> s' = s"
  using pb_read_reads [of "bytes_left sub" sub True]
  by (auto simp: pb_close_string_substream_def reads_def defined_iff andThen_Undef_iff mapFail_iffs
      andThen_Timeout_iff andThen_Fail_iff split: res.splits if_splits)

end
