(* ===== verification/Byte_Format.thy ===== *)
theory Byte_Format
  imports Prelude
begin

text \<open>
  Integers as bytes: base-128 varints (the canonical encoding, the value of any encoding, its length)
  and fixed-width little-endian words put together and taken apart by shifts.  Both encoders of the
  repository, nanopb and leveldb, write these formats.
\<close>

declare One_nat_def [simp del]

section \<open>Bytes and their bits\<close>

lemma and_127: "w AND 0x7F = take_bit 7 (w :: 'a::len word)"
  by (simp add: take_bit_eq_mask mask_eq_exp_minus_1)

lemma unat_and_127: "unat (b AND 0x7F :: byte) = unat b mod 128"
  by (simp add: and_127 take_bit_eq_mod unat_mod)

lemma byte_less: "unat (b :: byte) < 256"
  using unsigned_less [where ?'a = nat, of b] by simp

lemma and_128: "b AND 0x80 = 0 \<longleftrightarrow> unat (b :: byte) < 128"
proof -
  have "b AND 0x80 = 0 \<longleftrightarrow> \<not> bit b 7"
    using and_exp_eq_0_iff_not_bit [of b 7] by simp
  also have "bit b 7 \<longleftrightarrow> bit (unat b) 7" by (simp add: bit_unsigned_iff)
  also have "\<dots> \<longleftrightarrow> odd (unat b div 128)" by (simp add: bit_iff_odd)
  also have "odd (unat b div 128) \<longleftrightarrow> \<not> unat b < 128"
  proof -
    have "unat b div 128 < 2" using byte_less [of b] by simp
    then have "unat b div 128 = 0 \<or> unat b div 128 = 1" by linarith
    then show ?thesis by (auto simp: div_eq_0_iff)
  qed
  finally show ?thesis by simp
qed

lemma or_128: "(w AND 0x7F) OR 0x80 = (w AND 0x7F) + (0x80 :: byte)"
proof -
  have "(w AND 0x7F) AND (0x80 :: byte) = 0" by (simp add: and.assoc)
  then show ?thesis by (simp add: disjunctive_add_eq_or)
qed

lemma word_of_nat_or:
  "x < 128 \<Longrightarrow> (word_of_nat (x + 128 * y) :: 'a::len word) =
     word_of_nat x OR push_bit 7 (word_of_nat y)"
  using word_of_nat_or_exp [of x 7 y] by simp

section \<open>Varints\<close>

text \<open>The canonical encoding of a number, the value of any encoding, and what an encoding is: every
  byte but the last has its top bit set.\<close>

fun varint :: "nat \<Rightarrow> byte list" where
  "varint v = (if v < 128 then [word_of_nat v]
               else word_of_nat (v mod 128 + 128) # varint (v div 128))"

declare varint.simps [simp del]

fun varint_value :: "byte list \<Rightarrow> nat" where
  "varint_value [] = 0"
| "varint_value (b # bs) = unat b mod 128 + 128 * varint_value bs"

fun varint_bytes :: "byte list \<Rightarrow> bool" where
  "varint_bytes [] \<longleftrightarrow> False"
| "varint_bytes [b] \<longleftrightarrow> unat b < 128"
| "varint_bytes (b # bs) \<longleftrightarrow> 128 \<le> unat b \<and> varint_bytes bs"

lemma varint_bytes_Cons:
  "varint_bytes (b # bs) \<longleftrightarrow> (if bs = [] then unat b < 128 else 128 \<le> unat b \<and> varint_bytes bs)"
  by (cases bs) auto

lemma unat_low7 [simp]: "unat (word_of_nat (v mod 128) + 128 :: byte) = v mod 128 + 128"
proof -
  have "unat (word_of_nat (v mod 128 + 128) :: byte) = (v mod 128 + 128) mod 256"
    by (rule unat_byte_of_nat)
  moreover have "v mod 128 + 128 < 256" by (simp add: less_imp_add_positive)
  ultimately show ?thesis by simp
qed

lemma varint_not_Nil [simp]: "varint v \<noteq> []"
  by (simp add: varint.simps [of v])

lemma varint_bytes_varint: "varint_bytes (varint v)"
proof (induction v rule: varint.induct)
  case (1 v)
  then show ?case
    by (cases "v < 128") (simp_all add: varint.simps [of v] varint_bytes_Cons, linarith?)
qed

lemma varint_value_varint: "varint_value (varint v) = v"
proof (induction v rule: varint.induct)
  case (1 v)
  then show ?case by (cases "v < 128") (simp_all add: varint.simps [of v])
qed

lemma length_varint: "length (varint v) \<le> k \<longleftrightarrow> 0 < k \<and> v < 128 ^ k"
proof (induction v arbitrary: k rule: varint.induct)
  case (1 v)
  show ?case
  proof (cases "v < 128")
    case True
    moreover have "0 < k \<Longrightarrow> (128::nat) ^ 1 \<le> 128 ^ k" by (rule power_increasing) auto
    ultimately show ?thesis by (auto simp: varint.simps [of v])
  next
    case False
    show ?thesis
    proof (cases k)
      case (Suc j)
      have "v div 128 < 128 ^ j \<longleftrightarrow> v < 128 ^ Suc j" by (simp add: div_less_iff_less_mult mult.commute)
      moreover have "j = 0 \<Longrightarrow> \<not> v < 128 ^ Suc j" using False by simp
      ultimately show ?thesis using False Suc "1.IH" [of j] by (auto simp: varint.simps [of v])
    qed simp
  qed
qed

lemma varint_value_less: "varint_value bs < 128 ^ length bs"
proof (induction bs)
  case (Cons b bs)
  have "unat b mod 128 < 128" by simp
  with Cons show ?case by (simp add: algebra_simps) linarith?
qed simp

lemma ucast_and_127: "ucast (b AND 0x7F :: byte) = (word_of_nat (unat b mod 128) :: 'a::len word)"
proof -
  have "ucast (b AND 0x7F) = (word_of_nat (unat (b AND 0x7F)) :: 'a word)" by simp
  then show ?thesis by (simp only: unat_and_127)
qed

lemma or_push_bit_varint:
  "(r OR push_bit p (word_of_nat (unat b mod 128))) OR push_bit (p + 7) (word_of_nat v) =
   (r :: 'a::len word) OR push_bit p (word_of_nat (unat b mod 128 + 128 * v))"
  by (simp only: word_of_nat_or mod_less_divisor zero_less_numeral)
    (simp add: or.assoc push_bit_or)

lemma length_varint64: "length (varint (unat (v :: uint64))) \<le> 10"
  using unsigned_less [where ?'a = nat, of v] by (simp add: length_varint)

lemma length_varint32: "v < 2 ^ 32 \<Longrightarrow> length (varint v) \<le> 5"
  by (simp add: length_varint)

section \<open>Fixed-width integers\<close>

lemma and_255: "w AND 0xFF = take_bit 8 (w :: 'a::len word)"
  by (simp add: take_bit_eq_mask mask_eq_exp_minus_1)

lemma byte_of_word:
  "ucast (drop_bit k v AND 0xFF) = (word_of_nat (unat v div 2 ^ k) :: byte)"
proof -
  have "unat (ucast (drop_bit k v AND 0xFF) :: byte) =
      take_bit 8 (take_bit 8 (drop_bit k (unat v)))"
    by (simp only: and_255 unsigned_ucast_eq unsigned_take_bit_eq unsigned_drop_bit_eq len_num1
        len_bit0) (simp add: take_bit_nat_eq_self unsigned_less)
  also have "\<dots> = unat v div 2 ^ k mod 256" by (simp add: take_bit_eq_mod drop_bit_eq_div)
  finally show ?thesis by (simp add: word_unat_eq_iff)
qed

lemma le_of_nat_map: "le_of_nat n v = map (\<lambda>i. word_of_nat (v div 256 ^ i)) [0..<n]"
proof (induction n arbitrary: v)
  case (Suc n)
  have "[0..<Suc n] = 0 # map Suc [0..<n]" by (simp add: map_Suc_upt upt_conv_Cons)
  with Suc show ?case by (simp add: div_mult2_eq)
qed simp

lemma fixed32_bytes:
  "[ucast (v AND 0xFF), ucast (drop_bit 8 v AND 0xFF), ucast (drop_bit 16 v AND 0xFF),
    ucast (drop_bit 24 v AND 0xFF)] = le_of_nat 4 (unat (v :: uint32))"
proof -
  have "[0..<4] = [0, 1, 2, 3 :: nat]" by code_simp
  then show ?thesis
    using byte_of_word [of 0 v] byte_of_word [of 8 v] byte_of_word [of 16 v] byte_of_word [of 24 v]
    by (simp only: le_of_nat_map list.map) simp
qed

lemma fixed64_bytes:
  "[ucast (v AND 0xFF), ucast (drop_bit 8 v AND 0xFF), ucast (drop_bit 16 v AND 0xFF),
    ucast (drop_bit 24 v AND 0xFF), ucast (drop_bit 32 v AND 0xFF), ucast (drop_bit 40 v AND 0xFF),
    ucast (drop_bit 48 v AND 0xFF), ucast (drop_bit 56 v AND 0xFF)] = le_of_nat 8 (unat (v :: uint64))"
proof -
  have "[0..<8] = [0, 1, 2, 3, 4, 5, 6, 7 :: nat]" by code_simp
  then show ?thesis
    using byte_of_word [of 0 v] byte_of_word [of 8 v] byte_of_word [of 16 v] byte_of_word [of 24 v]
      byte_of_word [of 32 v] byte_of_word [of 40 v] byte_of_word [of 48 v] byte_of_word [of 56 v]
    by (simp only: le_of_nat_map list.map) simp
qed

lemma or_of_byte:
  "ucast (b :: byte) OR push_bit 8 (word_of_nat v) = (word_of_nat (unat b + 256 * v) :: 'a::len word)"
proof -
  have "ucast b = (word_of_nat (unat b) :: 'a word)" by simp
  moreover have "word_of_nat (unat b + 2 ^ 8 * v) =
      (word_of_nat (unat b) OR push_bit 8 (word_of_nat v) :: 'a word)"
    using byte_less [of b] by (intro word_of_nat_or_exp) simp
  ultimately show ?thesis by simp
qed

lemma word_of_le32:
  "push_bit 0 (ucast b0) OR push_bit 8 (ucast b1) OR push_bit 16 (ucast b2) OR push_bit 24 (ucast b3)
   = (word_of_nat (nat_of_le [b0, b1, b2, b3]) :: 'a::len word)"
proof -
  have "word_of_nat (nat_of_le [b0, b1, b2, b3]) =
    (ucast b0 OR push_bit 8 (ucast b1 OR push_bit 8 (ucast b2 OR push_bit 8
      (ucast b3 OR push_bit 8 (word_of_nat 0)))) :: 'a word)"
    by (simp only: or_of_byte nat_of_le.simps)
  then show ?thesis by (simp add: push_bit_or)
qed

lemma word_of_le64:
  "push_bit 0 (ucast b0) OR push_bit 8 (ucast b1) OR push_bit 16 (ucast b2) OR push_bit 24 (ucast b3)
   OR push_bit 32 (ucast b4) OR push_bit 40 (ucast b5) OR push_bit 48 (ucast b6) OR push_bit 56 (ucast b7)
   = (word_of_nat (nat_of_le [b0, b1, b2, b3, b4, b5, b6, b7]) :: 'a::len word)"
proof -
  have "word_of_nat (nat_of_le [b0, b1, b2, b3, b4, b5, b6, b7]) =
    (ucast b0 OR push_bit 8 (ucast b1 OR push_bit 8 (ucast b2 OR push_bit 8 (ucast b3 OR
      push_bit 8 (ucast b4 OR push_bit 8 (ucast b5 OR push_bit 8 (ucast b6 OR push_bit 8
      (ucast b7 OR push_bit 8 (word_of_nat 0)))))))) :: 'a word)"
    by (simp only: or_of_byte nat_of_le.simps)
  then show ?thesis by (simp add: push_bit_or)
qed

lemma list_4: "length xs = 4 \<Longrightarrow> xs = [xs ! 0, xs ! 1, xs ! 2, xs ! 3]"
  by (auto simp: numeral_eq_Suc length_Suc_conv One_nat_def)

lemma list_8: "length xs = 8 \<Longrightarrow>
    xs = [xs ! 0, xs ! 1, xs ! 2, xs ! 3, xs ! 4, xs ! 5, xs ! 6, xs ! 7]"
  by (auto simp: numeral_eq_Suc length_Suc_conv One_nat_def)

end
