(* ===== verification/Pb_Wire.thy ===== *)
theory Pb_Wire
  imports Pb_Istream Pb_Ostream Byte_Format
begin

text \<open>
  The wire format of protocol buffers as functions on numbers and byte lists, and the proofs that
  the readers and writers of nanopb implement it on memory buffers: varints with all their
  encodings, zigzag integers, tags and fixed-width integers.  \<open>input s\<close> is what a buffer stream
  can still deliver and \<open>consume k s\<close> the stream \<open>k\<close> bytes later.
\<close>

section \<open>Buffer streams\<close>

definition buffered :: "'u pb_istream \<Rightarrow> bool" where
  "buffered s \<longleftrightarrow> i_callback s = Buf_read \<and> istream_ok s"

definition input :: "'u pb_istream \<Rightarrow> byte list" where
  "input s = (case i_state s of IBuf src \<Rightarrow> take (bytes_left s) src | IUser u \<Rightarrow> [])"

definition consume :: "nat \<Rightarrow> 'u pb_istream \<Rightarrow> 'u pb_istream" where
  "consume k s = (case i_state s of
       IBuf src \<Rightarrow> s\<lparr>i_state := IBuf (drop k src), bytes_left := bytes_left s - k\<rparr> | IUser u \<Rightarrow> s)"

lemma buffered_iff: "buffered s \<longleftrightarrow>
    i_callback s = Buf_read \<and> (\<exists>src. i_state s = IBuf src \<and> bytes_left s \<le> length src)"
  by (auto simp: buffered_def istream_ok_def split: istate.splits)

lemma consume_0 [simp]: "buffered s \<Longrightarrow> consume 0 s = s"
  by (auto simp: consume_def split: istate.splits)

lemma consume_consume [simp]: "consume k (consume j s) = consume (j + k) s"
  by (auto simp: consume_def add.commute split: istate.splits)

lemma buffered_consume [simp]: "buffered s \<Longrightarrow> buffered (consume k s)"
  by (auto simp: buffered_iff consume_def)

lemma input_consume [simp]: "input (consume k s) = drop k (input s)"
  by (auto simp: input_def consume_def drop_take split: istate.splits)

lemma length_input: "buffered s \<Longrightarrow> length (input s) = bytes_left s"
  by (auto simp: buffered_iff input_def)

lemma from_buffer [simp]:
  "n \<le> length buf \<Longrightarrow> buffered (pb_istream_from_buffer buf n)"
  "n \<le> length buf \<Longrightarrow> input (pb_istream_from_buffer buf n) = take n buf"
  by (auto simp: buffered_iff pb_istream_from_buffer_def input_def)

lemma bytes_left_consume: "buffered s \<Longrightarrow> bytes_left (consume k s) = bytes_left s - k"
  by (auto simp: buffered_iff consume_def)

lemma read_checked_buffer:
  "buffered s \<Longrightarrow> n \<le> bytes_left s \<Longrightarrow> read_checked s n = Ok (take n (input s), consume n s)"
  by (auto simp: buffered_iff read_checked_def i_call_def buf_read_def input_def consume_def)

lemma pb_read_buffer:
  "buffered s \<Longrightarrow> n \<le> bytes_left s \<Longrightarrow> pb_read b s n = Ok (take n (input s), consume n s)"
  by (cases "n = 0") (auto simp: pb_read_def read_checked_buffer buffered_def)

lemma pb_readbyte_buffer:
  "buffered s \<Longrightarrow> input s = b # bs \<Longrightarrow> pb_readbyte s = Ok (b, consume 1 s)"
  using length_input [of s] by (simp add: pb_readbyte_read read_checked_buffer)

lemma pb_readbyte_empty:
  "buffered s \<Longrightarrow> input s = [] \<Longrightarrow> pb_readbyte s = Fail (i_error s ''end-of-stream'')"
  using length_input [of s] by (simp add: pb_readbyte_def)

section \<open>Varints\<close>

subsection \<open>Writing\<close>

lemma varint_chunks_varint:
  "v \<noteq> 0 \<Longrightarrow> varint_chunks v \<noteq> [] \<and>
     (varint_chunks v)[length (varint_chunks v) - 1 := last (varint_chunks v) AND 0x7F] = varint (unat v)"
proof (induction v rule: varint_chunks.induct)
  case (1 v)
  let ?b = "ucast (v AND 0x7F) OR 0x80 :: byte"
  have u: "unat (drop_bit 7 v) = unat v div 128" by (simp add: drop_bit_eq_div unat_div)
  have a: "unat (v AND 0x7F) = unat v mod 128" by (simp add: and_127 take_bit_eq_mod unat_mod)
  have c: "ucast (v AND 0x7F) = (word_of_nat (unat v mod 128) :: byte)"
    by (simp only: a [symmetric] unsigned_of_nat [symmetric] of_nat_unat) simp?
  have m: "(word_of_nat (unat v mod 128) :: byte) AND 0x7F = word_of_nat (unat v mod 128)"
    by (simp add: word_unat_eq_iff unat_and_127)
  have b: "?b = word_of_nat (unat v mod 128 + 128)"
    using or_128 [of "word_of_nat (unat v mod 128)"] by (simp add: c m)
  show ?case
  proof (cases "drop_bit 7 v = 0")
    case True
    then have "unat v < 128" using u by (simp add: div_eq_0_iff)
    moreover have "?b AND 0x7F = word_of_nat (unat v mod 128)"
      using m by (simp add: c bit.conj_disj_distrib2 and.assoc)
    ultimately show ?thesis using 1 True
      by (simp add: varint_chunks.simps [of v] varint_chunks.simps [of 0] varint.simps [of "unat v"])
  next
    case False
    then have "\<not> unat v < 128" using u by (metis div_less unat_eq_zero)
    with 1 False u b show ?thesis
      by (cases "varint_chunks (drop_bit 7 v)")
        (simp_all add: varint_chunks.simps [of v] varint.simps [of "unat v"])
  qed
qed

lemma pb_encode_varint_eq:
  "pb_encode_varint s v = pb_write s (local_array (varint (unat v))) (length (varint (unat v)))"
proof (cases "v \<le> 0x7F")
  case True
  then have "unat v < 128" by (simp add: word_le_nat_alt)
  moreover have "ucast v = (word_of_nat (unat v) :: byte)" by simp
  ultimately show ?thesis using True
    by (simp add: pb_encode_varint_def varint.simps [of "unat v"] One_nat_def)
next
  case False
  then have "v \<noteq> 0" by auto
  note c = varint_chunks_varint [OF this]
  have "length (varint_chunks v) = length (varint (unat v))"
    using arg_cong [OF conjunct2 [OF c], of length] by simp
  moreover have "length (varint (unat v)) \<le> 10"
    using unsigned_less [where ?'a = nat, of v] by (simp add: length_varint)
  moreover have "varint_chunks v ! (length (varint_chunks v) - 1) = last (varint_chunks v)"
    using c by (simp add: last_conv_nth)
  ultimately show ?thesis using False c by (simp add: pb_encode_varint_def Let_def)
qed

subsection \<open>Reading\<close>

lemma varint_loop_bytes:
  "buffered s \<Longrightarrow> input s = bs @ rest \<Longrightarrow> varint_bytes bs \<Longrightarrow> p + 7 * length bs \<le> 70 \<Longrightarrow>
   varint_loop p r s = Ok (r OR push_bit p (word_of_nat (varint_value bs)), consume (length bs) s)"
proof (induction bs arbitrary: p r s)
  case (Cons b bs)
  have p: "p < 64" using Cons.prems(4) by simp
  have r: "pb_readbyte s = Ok (b, consume 1 s)"
    using Cons.prems by (simp add: pb_readbyte_buffer)
  show ?case
  proof (cases "bs = []")
    case True
    with Cons.prems(3) have "b AND 0x80 = 0" "unat b mod 128 = unat b" by (simp_all add: and_128)
    with r p True ucast_and_127 [where ?'a = 64, of b] show ?thesis
      by (simp add: varint_loop.simps [of p] Let_def One_nat_def)
  next
    case False
    with Cons.prems(3) have t: "b AND 0x80 \<noteq> 0" "varint_bytes bs"
      by (simp_all add: and_128 varint_bytes_Cons)
    have "varint_loop (p + 7) (r OR push_bit p (word_of_nat (unat b mod 128))) (consume 1 s) =
      Ok ((r OR push_bit p (word_of_nat (unat b mod 128))) OR
            push_bit (p + 7) (word_of_nat (varint_value bs)), consume (length bs) (consume 1 s))"
      using Cons.prems t by (intro Cons.IH) auto
    with r p t show ?thesis
      unfolding varint_loop.simps [of p r s]
      by (simp add: Let_def ucast_and_127 or_push_bit_varint One_nat_def del: of_nat_add)
  qed
qed simp

lemma pb_decode_varint_bytes:
  "buffered s \<Longrightarrow> input s = bs @ rest \<Longrightarrow> varint_bytes bs \<Longrightarrow> length bs \<le> 10 \<Longrightarrow>
   pb_decode_varint s = Ok (word_of_nat (varint_value bs), consume (length bs) s)"
  using varint_loop_bytes [of s bs rest 0 0] by (simp add: pb_decode_varint_def)

lemma pb_decode_varint_varint:
  "buffered s \<Longrightarrow> input s = varint (unat v) @ rest \<Longrightarrow>
   pb_decode_varint s = Ok (v, consume (length (varint (unat v))) s)"
  using pb_decode_varint_bytes [of s "varint (unat v)" rest] length_varint64 [of v]
  by (simp add: varint_bytes_varint varint_value_varint)

lemma varint_loop_overflow:
  "buffered s \<Longrightarrow> input s = bs @ rest \<Longrightarrow> \<forall>b\<in>set bs. 128 \<le> unat b \<Longrightarrow>
   p + 7 * length bs = 70 \<Longrightarrow>
   varint_loop p r s = Fail (i_error (consume (length bs) s) ''varint overflow'')"
proof (induction bs arbitrary: p r s)
  case Nil
  then show ?case by (simp add: varint_loop.simps [of 70])
next
  case (Cons b bs)
  have p: "p < 64" using Cons.prems(4) by simp
  have r: "pb_readbyte s = Ok (b, consume 1 s)"
    using Cons.prems by (simp add: pb_readbyte_buffer)
  have t: "b AND 0x80 \<noteq> 0" using Cons.prems(3) by (simp add: and_128)
  have "varint_loop (p + 7) r' (consume 1 s) =
      Fail (i_error (consume (length bs) (consume 1 s)) ''varint overflow'')" for r'
    using Cons.prems by (intro Cons.IH) auto
  with r p t show ?case by (simp add: varint_loop.simps [of p r s] Let_def One_nat_def)
qed

lemma varint_loop_truncated:
  "buffered s \<Longrightarrow> input s = bs \<Longrightarrow> \<forall>b\<in>set bs. 128 \<le> unat b \<Longrightarrow>
   p + 7 * length bs < 64 \<Longrightarrow>
   varint_loop p r s = Fail (i_error (consume (length bs) s) ''end-of-stream'')"
proof (induction bs arbitrary: p r s)
  case Nil
  then show ?case by (simp add: varint_loop.simps [of p] pb_readbyte_empty)
next
  case (Cons b bs)
  have r: "pb_readbyte s = Ok (b, consume 1 s)"
    using Cons.prems by (simp add: pb_readbyte_buffer)
  have t: "b AND 0x80 \<noteq> 0" using Cons.prems(3) by (simp add: and_128)
  have "varint_loop (p + 7) r' (consume 1 s) =
      Fail (i_error (consume (length bs) (consume 1 s)) ''end-of-stream'')" for r'
    using Cons.prems by (intro Cons.IH) auto
  with r t Cons.prems(4) show ?case
    by (simp add: varint_loop.simps [of p r s] Let_def One_nat_def)
qed

subsection \<open>Reading 32 bits\<close>

lemma varint32_loop_bytes:
  "buffered s \<Longrightarrow> input s = bs @ rest \<Longrightarrow> varint_bytes bs \<Longrightarrow> p + 7 * length bs \<le> 35 \<Longrightarrow>
   varint32_loop p r s =
     Ok ((last bs, p + 7 * length bs, r OR push_bit p (word_of_nat (varint_value bs))),
         consume (length bs) s)"
proof (induction bs arbitrary: p r s)
  case (Cons b bs)
  have p: "p < 32" using Cons.prems(4) by simp
  have r: "pb_readbyte s = Ok (b, consume 1 s)"
    using Cons.prems by (simp add: pb_readbyte_buffer)
  show ?case
  proof (cases "bs = []")
    case True
    with Cons.prems(3) have "b AND 0x80 = 0" "unat b mod 128 = unat b" by (simp_all add: and_128)
    with r p True ucast_and_127 [where ?'a = 32, of b] show ?thesis
      by (simp add: varint32_loop.simps [of p] Let_def One_nat_def)
  next
    case False
    with Cons.prems(3) have t: "b AND 0x80 \<noteq> 0" "varint_bytes bs"
      by (simp_all add: and_128 varint_bytes_Cons)
    have "varint32_loop (p + 7) (r OR push_bit p (word_of_nat (unat b mod 128))) (consume 1 s) =
      Ok ((last bs, p + 7 + 7 * length bs, (r OR push_bit p (word_of_nat (unat b mod 128))) OR
            push_bit (p + 7) (word_of_nat (varint_value bs))), consume (length bs) (consume 1 s))"
      using Cons.prems t by (intro Cons.IH) auto
    with r p t False show ?thesis
      unfolding varint32_loop.simps [of p r s]
      by (simp add: Let_def ucast_and_127 or_push_bit_varint One_nat_def del: of_nat_add)
  qed
qed simp

text \<open>A final byte that is all that has to fit: the value of a five-byte encoding is below
  \<open>2 ^ 32\<close> when its last byte is below 16.\<close>

lemma varint_value_5:
  "length bs = 5 \<Longrightarrow> varint_bytes bs \<Longrightarrow> varint_value bs < 2 ^ 32 \<longleftrightarrow> unat (last bs) < 16"
proof -
  assume l: "length bs = 5" and v: "varint_bytes bs"
  have e: "varint_value (xs @ ys) = varint_value xs + 128 ^ length xs * varint_value ys" for xs ys
    by (induction xs) (simp_all add: algebra_simps)
  have bs: "bs = butlast bs @ [last bs]" using l by (cases bs rule: rev_cases) auto
  have last: "unat (last bs) < 128" using v by (induction bs rule: varint_bytes.induct) auto
  have "varint_value bs = varint_value (butlast bs) + 128 ^ 4 * unat (last bs)"
    using e [of "butlast bs" "[last bs]"] l last by (simp add: bs [symmetric])
  moreover have "varint_value (butlast bs) < 128 ^ 4"
    using varint_value_less [of "butlast bs"] l by simp
  ultimately show ?thesis by auto
qed

lemma and_112: "b AND 0x70 = 0 \<longleftrightarrow> unat (b :: byte) < 16" if "unat b < 128"
proof -
  have "\<forall>n\<in>set [0..<128]. (word_of_nat n :: byte) AND 0x70 = 0 \<longleftrightarrow> n < 16"
    by code_simp
  from bspec [OF this, of "unat b"] that show ?thesis by simp
qed

lemma pb_decode_varint32_eof_bytes:
  assumes s: "buffered s" "input s = bs @ rest" and bs: "varint_bytes bs" "length bs \<le> 5"
  shows "pb_decode_varint32_eof s =
    (if varint_value bs < 2 ^ 32 then Ok (word_of_nat (varint_value bs), consume (length bs) s)
     else Fail (False, i_error (consume (length bs) s) ''varint overflow''))"
proof -
  obtain b tl where b: "bs = b # tl" using bs(1) by (cases bs) auto
  have r: "pb_readbyte s = Ok (b, consume 1 s)" using s b by (simp add: pb_readbyte_buffer)
  show ?thesis
  proof (cases "tl = []")
    case True
    with bs(1) b have u: "unat b < 128" by simp
    then have "b AND 0x80 = 0" "ucast b = (word_of_nat (unat b) :: 32 word)"
      by (simp_all add: and_128)
    with r b True u show ?thesis
      by (simp add: pb_decode_varint32_eof_def One_nat_def)
  next
    case False
    with bs(1) b have tl: "128 \<le> unat b" "varint_bytes tl" by (simp_all add: varint_bytes_Cons)
    have "varint32_loop 7 (word_of_nat (unat b mod 128)) (consume 1 s) =
      Ok ((last tl, 7 + 7 * length tl, word_of_nat (unat b mod 128) OR
             push_bit 7 (word_of_nat (varint_value tl))), consume (length tl) (consume 1 s))"
      using s bs(2) b tl by (intro varint32_loop_bytes [where rest = rest]) auto
    moreover have "word_of_nat (unat b mod 128) OR push_bit 7 (word_of_nat (varint_value tl)) =
        (word_of_nat (varint_value bs) :: 32 word)"
      using b by (simp add: word_of_nat_or del: of_nat_add)
    ultimately have l: "varint32_loop 7 (ucast (b AND 0x7F)) (consume 1 s) =
      Ok ((last bs, 7 * length bs, word_of_nat (varint_value bs)), consume (length bs) s)"
      using b False by (simp add: ucast_and_127)
    have last: "unat (last bs) < 128" using bs(1) by (induction bs rule: varint_bytes.induct) auto
    have ov: "7 * length bs = 35 \<and> last bs AND 0x70 \<noteq> 0 \<longleftrightarrow> \<not> varint_value bs < 2 ^ 32"
    proof (cases "length bs = 5")
      case True
      then show ?thesis using varint_value_5 [OF True bs(1)] and_112 [OF last] by simp
    next
      case False
      then have "length bs \<le> 4" using bs(2) by simp
      then have "(128::nat) ^ length bs \<le> 128 ^ 4" by (rule power_increasing) simp
      then have "varint_value bs < 2 ^ 32" using varint_value_less [of bs] by simp
      with False show ?thesis by simp
    qed
    show ?thesis using r tl(1) l ov by (auto simp: pb_decode_varint32_eof_def and_128)
  qed
qed

lemma pb_decode_varint32_bytes:
  "buffered s \<Longrightarrow> input s = bs @ rest \<Longrightarrow> varint_bytes bs \<Longrightarrow> length bs \<le> 5 \<Longrightarrow>
   pb_decode_varint32 s =
    (if varint_value bs < 2 ^ 32 then Ok (word_of_nat (varint_value bs), consume (length bs) s)
     else Fail (i_error (consume (length bs) s) ''varint overflow''))"
  by (simp add: pb_decode_varint32_def pb_decode_varint32_eof_bytes)

lemma pb_decode_varint32_varint:
  "buffered s \<Longrightarrow> input s = varint v @ rest \<Longrightarrow> v < 2 ^ 32 \<Longrightarrow>
   pb_decode_varint32 s = Ok (word_of_nat v, consume (length (varint v)) s)"
  using pb_decode_varint32_bytes [of s "varint v" rest] length_varint32 [of v]
  by (simp add: varint_bytes_varint varint_value_varint)

lemma pb_decode_tag_varint:
  assumes "buffered s" "input s = varint v @ rest" "v < 2 ^ 32" "v \<noteq> 0"
  shows "pb_decode_tag s = Ok ((v mod 8, word_of_nat (v div 8)), consume (length (varint v)) s)"
proof -
  have u: "unat (word_of_nat v :: uint32) = v" using assms(3) by (simp add: unat_of_nat)
  then have "(word_of_nat v :: uint32) \<noteq> 0" using assms(4) by (metis unat_0)
  moreover have "unat ((word_of_nat v :: uint32) AND 7) = v mod 8"
  proof -
    have "(word_of_nat v :: uint32) AND 7 = take_bit 3 (word_of_nat v)"
      by (simp add: take_bit_eq_mask mask_eq_exp_minus_1)
    then show ?thesis using u by (simp add: take_bit_eq_mod unat_mod)
  qed
  moreover have "drop_bit 3 (word_of_nat v :: uint32) = word_of_nat (v div 8)"
  proof -
    have "v div 8 < 2 ^ 32" using assms(3) by simp
    then have "unat (word_of_nat (v div 8) :: uint32) = v div 8" by (simp add: unat_of_nat)
    moreover have "unat (drop_bit 3 (word_of_nat v :: uint32)) = v div 8"
      using u by (simp add: drop_bit_eq_div unat_div)
    ultimately show ?thesis by (simp add: word_unat_eq_iff)
  qed
  ultimately show ?thesis
    using pb_decode_varint32_eof_bytes [OF assms(1,2) varint_bytes_varint length_varint32 [OF assms(3)]]
      assms(3) by (simp add: pb_decode_tag_def varint_value_varint)
qed

section \<open>Zigzag integers\<close>

definition zigzag :: "int \<Rightarrow> nat" where
  "zigzag k = (if k < 0 then nat (- 2 * k - 1) else nat (2 * k))"

definition zigzag64 :: "uint64 \<Rightarrow> uint64" where
  "zigzag64 value = (if value <s 0 then NOT (push_bit 1 value) else push_bit 1 value)"

lemma pb_encode_svarint_eq: "pb_encode_svarint s v = pb_encode_varint s (zigzag64 v)"
  by (simp add: pb_encode_svarint_def zigzag64_def)

lemma sless_0_bit: "(v :: uint64) <s 0 \<longleftrightarrow> bit v 63"
  using bit_last_iff [of v] by (simp add: word_sless_alt)

lemma unzigzag64:
  "(if zigzag64 v AND 1 \<noteq> 0 then NOT (drop_bit 1 (zigzag64 v)) else drop_bit 1 (zigzag64 v)) = v"
proof (cases "v <s 0")
  case True
  have o: "NOT (push_bit 1 v) AND 1 \<noteq> 0"
  proof -
    have "bit (NOT (push_bit 1 v)) 0" by (simp only: bit_not_iff bit_push_bit_iff) simp
    then show ?thesis using and_exp_eq_0_iff_not_bit [of "NOT (push_bit 1 v)" 0]
      by (simp only: power_0) blast
  qed
  have e: "bit (NOT (drop_bit k (NOT (push_bit k v)))) n \<longleftrightarrow> 64 \<le> k + n \<or> bit v n"
    if "n < 64" for k n
    using that by (auto simp: bit_simps)
  have "NOT (drop_bit k (NOT (push_bit k v))) = v" if "k = 1" for k
  proof (rule bit_word_eqI)
    fix n
    assume "n < LENGTH(64)"
    then have "n < 64" "n = 63 \<or> n < 63" by auto
    then show "bit (NOT (drop_bit k (NOT (push_bit k v)))) n \<longleftrightarrow> bit v n"
      using True [unfolded sless_0_bit] that by (auto simp only: e)
  qed
  then have "NOT (drop_bit 1 (NOT (push_bit 1 v))) = v" by blast
  with o True show ?thesis by (simp add: zigzag64_def)
next
  case False
  have o: "push_bit 1 v AND 1 = 0"
  proof -
    have "\<not> bit (push_bit 1 v) 0" by (simp only: bit_push_bit_iff) simp
    then show ?thesis using and_exp_eq_0_iff_not_bit [of "push_bit 1 v" 0]
      by (simp only: power_0 simp_thms)
  qed
  have e: "bit (drop_bit k (push_bit k v)) n \<longleftrightarrow> k + n < 64 \<and> bit v n" for k n
    by (auto simp: bit_simps)
  have "drop_bit k (push_bit k v) = v" if "k = 1" for k
  proof (rule bit_word_eqI)
    fix n
    assume "n < LENGTH(64)"
    then have "n = 63 \<or> n < 63" by auto
    then show "bit (drop_bit k (push_bit k v)) n \<longleftrightarrow> bit v n"
      using False [unfolded sless_0_bit] that by (auto simp only: e)
  qed
  then have "drop_bit 1 (push_bit 1 v) = v" by blast
  with o False show ?thesis by (simp add: zigzag64_def)
qed

lemma unat_zigzag64: "unat (zigzag64 v) = zigzag (sint v)"
proof -
  have r: "- (2 ^ 63) \<le> sint v" "sint v < 2 ^ 63"
    using sint_greater_eq [of v] sint_less [of v] by simp_all
  have p: "push_bit 1 v = word_of_int (2 * sint v)"
    by (simp add: push_bit_eq_mult)
  show ?thesis
  proof (cases "sint v < 0")
    case True
    have "zigzag64 v = word_of_int (- 2 * sint v - 1)"
      using True by (simp add: zigzag64_def word_sless_alt p not_eq_complement)
    then show ?thesis using True r
      by (simp only: unat_eq_nat_uint uint_word_of_int zigzag_def) simp
  next
    case False
    then have "zigzag64 v = word_of_int (2 * sint v)"
      by (simp add: zigzag64_def word_sless_alt p)
    then show ?thesis using False r
      by (simp only: unat_eq_nat_uint uint_word_of_int zigzag_def) simp
  qed
qed

lemma pb_decode_svarint_zigzag:
  "buffered s \<Longrightarrow> input s = varint (zigzag (sint v)) @ rest \<Longrightarrow>
   pb_decode_svarint s = Ok (v, consume (length (varint (zigzag (sint v)))) s)"
  using pb_decode_varint_varint [of s "zigzag64 v" rest] unzigzag64 [of v]
  by (simp add: pb_decode_svarint_def unat_zigzag64)

section \<open>Fixed-width integers\<close>

lemma pb_decode_fixed32_le:
  assumes "buffered s" "4 \<le> length (input s)"
  shows "pb_decode_fixed32 s = Ok (word_of_nat (nat_of_le (take 4 (input s))), consume 4 s)"
proof -
  let ?bs = "take 4 (input s)"
  have "?bs = [?bs ! 0, ?bs ! 1, ?bs ! 2, ?bs ! 3]" using assms(2) by (intro list_4) simp
  then have e: "nat_of_le ?bs = nat_of_le [?bs ! 0, ?bs ! 1, ?bs ! 2, ?bs ! 3]" by (rule arg_cong)
  show ?thesis
    using assms length_input [OF assms(1)]
    unfolding pb_decode_fixed32_def e by (simp only: pb_read_buffer andThen.simps case_prod_conv word_of_le32)
qed

lemma pb_decode_fixed64_le:
  assumes "buffered s" "8 \<le> length (input s)"
  shows "pb_decode_fixed64 s = Ok (word_of_nat (nat_of_le (take 8 (input s))), consume 8 s)"
proof -
  let ?bs = "take 8 (input s)"
  have "?bs = [?bs ! 0, ?bs ! 1, ?bs ! 2, ?bs ! 3, ?bs ! 4, ?bs ! 5, ?bs ! 6, ?bs ! 7]"
    using assms(2) by (intro list_8) simp
  then have e: "nat_of_le ?bs =
      nat_of_le [?bs ! 0, ?bs ! 1, ?bs ! 2, ?bs ! 3, ?bs ! 4, ?bs ! 5, ?bs ! 6, ?bs ! 7]"
    by (rule arg_cong)
  show ?thesis
    using assms length_input [OF assms(1)]
    unfolding pb_decode_fixed64_def e by (simp only: pb_read_buffer andThen.simps case_prod_conv word_of_le64)
qed

section \<open>Codecs\<close>

text \<open>
  The interface between a writer and the reader of the same kind of value: the writer emits the
  bytes of the value, the reader takes exactly these from the front of its input and returns the
  value.  The round trip through a buffer follows once and for all.
\<close>

locale wire_codec =
  fixes bytes :: "'a \<Rightarrow> byte list"
    and valid :: "'a \<Rightarrow> bool"
    and enc :: "'a \<Rightarrow> 'u pb_ostream \<Rightarrow> 'u enc"
    and dec :: "'v pb_istream \<Rightarrow> ('a \<times> 'v pb_istream, 'e) res"
  assumes enc_emits: "valid a \<Longrightarrow> emits (bytes a) (enc a)"
    and dec_parses: "valid a \<Longrightarrow> buffered s \<Longrightarrow> input s = bytes a @ rest \<Longrightarrow>
      dec s = Ok (a, consume (length (bytes a)) s)"
begin

lemma roundtrip:
  assumes "valid a" "length (bytes a) \<le> n" "n < 2 ^ 63"
  shows "\<exists>out. enc a (pb_ostream_from_buffer n n) = Ok out
    \<and> bytes_written out = length (written (o_state out))
    \<and> (\<forall>s rest. buffered s \<longrightarrow> input s = written (o_state out) @ rest \<longrightarrow>
         dec s = Ok (a, consume (bytes_written out) s))"
proof -
  let ?s = "pb_ostream_from_buffer n n :: 'u pb_ostream"
  have ok: "ostream_ok ?s" using assms(3) by (simp add: ostream_ok_def pb_ostream_from_buffer_def)
  have "enc a ?s = Ok (put (bytes a) ?s)"
    using assms(2) by (intro emits_fits [OF enc_emits [OF assms(1)] ok])
      (simp add: pb_ostream_from_buffer_def)
  moreover have "written (o_state (put (bytes a) ?s)) = bytes a"
    "bytes_written (put (bytes a) ?s) = length (bytes a)"
    by (simp_all add: pb_ostream_from_buffer_def)
  ultimately show ?thesis using dec_parses [OF assms(1)]
    by (intro exI [of _ "put (bytes a) ?s"]) simp
qed

lemma sizing: "valid a \<Longrightarrow> length (bytes a) < 2 ^ 64 \<Longrightarrow>
    enc a PB_OSTREAM_SIZING = Ok (PB_OSTREAM_SIZING\<lparr>bytes_written := length (bytes a)\<rparr>)"
  using emits_sizing [OF enc_emits, of a PB_OSTREAM_SIZING]
  by (simp add: PB_OSTREAM_SIZING_def size_add_def)

end

lemma pb_encode_varint_emits: "emits (varint (unat v)) (\<lambda>s. pb_encode_varint s v)"
  using length_varint64 [of v] by (simp add: pb_encode_varint_eq emits_local)

interpretation varint64: wire_codec "\<lambda>v. varint (unat v)" "\<lambda>v. True"
    "\<lambda>v s. pb_encode_varint s v" pb_decode_varint
  by unfold_locales (auto intro: pb_encode_varint_emits pb_decode_varint_varint)

interpretation svarint64: wire_codec "\<lambda>v. varint (zigzag (sint v))" "\<lambda>v. True"
    "\<lambda>v s. pb_encode_svarint s v" pb_decode_svarint
  using pb_encode_varint_emits [of "zigzag64 v" for v]
  by unfold_locales (auto simp: pb_encode_svarint_eq unat_zigzag64 intro: pb_decode_svarint_zigzag)

lemma pb_encode_fixed32_eq:
  "pb_encode_fixed32 s v = pb_write s (local_array (le_of_nat 4 (unat v))) 4"
  by (simp only: pb_encode_fixed32_def fixed32_bytes)

lemma pb_encode_fixed64_eq:
  "pb_encode_fixed64 s v = pb_write s (local_array (le_of_nat 8 (unat v))) 8"
  by (simp only: pb_encode_fixed64_def fixed64_bytes)

lemma pb_encode_fixed32_emits: "emits (le_of_nat 4 (unat v)) (\<lambda>s. pb_encode_fixed32 s v)"
  using emits_local [of "le_of_nat 4 (unat v)"] by (simp add: pb_encode_fixed32_eq)

lemma pb_encode_fixed64_emits: "emits (le_of_nat 8 (unat v)) (\<lambda>s. pb_encode_fixed64 s v)"
  using emits_local [of "le_of_nat 8 (unat v)"] by (simp add: pb_encode_fixed64_eq)

interpretation fixed32: wire_codec "\<lambda>v. le_of_nat 4 (unat v)" "\<lambda>v. True"
    "\<lambda>v s. pb_encode_fixed32 s v" pb_decode_fixed32
proof
  show "emits (le_of_nat 4 (unat v)) (\<lambda>s. pb_encode_fixed32 s v)" for v :: uint32
    by (rule pb_encode_fixed32_emits)
next
  fix v :: uint32 and s :: "'b pb_istream" and rest
  assume s: "buffered s" "input s = le_of_nat 4 (unat v) @ rest"
  then have "pb_decode_fixed32 s = Ok (word_of_nat (nat_of_le (le_of_nat 4 (unat v))), consume 4 s)"
    by (simp add: pb_decode_fixed32_le)
  then show "pb_decode_fixed32 s = Ok (v, consume (length (le_of_nat 4 (unat v))) s)"
    using unsigned_less [where ?'a = nat, of v] by (simp add: nat_of_le_of_nat)
qed

interpretation fixed64: wire_codec "\<lambda>v. le_of_nat 8 (unat v)" "\<lambda>v. True"
    "\<lambda>v s. pb_encode_fixed64 s v" pb_decode_fixed64
proof
  show "emits (le_of_nat 8 (unat v)) (\<lambda>s. pb_encode_fixed64 s v)" for v :: uint64
    by (rule pb_encode_fixed64_emits)
next
  fix v :: uint64 and s :: "'b pb_istream" and rest
  assume s: "buffered s" "input s = le_of_nat 8 (unat v) @ rest"
  then have "pb_decode_fixed64 s = Ok (word_of_nat (nat_of_le (le_of_nat 8 (unat v))), consume 8 s)"
    by (simp add: pb_decode_fixed64_le)
  then show "pb_decode_fixed64 s = Ok (v, consume (length (le_of_nat 8 (unat v))) s)"
    using unsigned_less [where ?'a = nat, of v] by (simp add: nat_of_le_of_nat)
qed

subsection \<open>Tags\<close>

text \<open>The key of a field on the wire; field number and wire type are not both zero, since a zero
  key ends a message.\<close>

definition tag_key :: "pb_wire_type \<times> uint32 \<Rightarrow> nat" where
  "tag_key = (\<lambda>(wt, t). 8 * unat t + wt)"

definition tag_valid :: "pb_wire_type \<times> uint32 \<Rightarrow> bool" where
  "tag_valid = (\<lambda>(wt, t). wt < 8 \<and> unat t < 2 ^ 29 \<and> 8 * unat t + wt \<noteq> 0)"

lemma pb_encode_tag_eq:
  "wt < 8 \<Longrightarrow> pb_encode_tag s wt t = pb_encode_varint s (word_of_nat (tag_key (wt, t)))"
proof -
  assume wt: "wt < 8"
  have "word_of_nat (wt + 2 ^ 3 * unat t) = (word_of_nat wt OR push_bit 3 (word_of_nat (unat t)) :: uint64)"
    using wt by (intro word_of_nat_or_exp) simp
  moreover have "word_of_nat (unat t) = (ucast t :: uint64)" by simp
  ultimately show ?thesis by (simp add: pb_encode_tag_def tag_key_def or.commute add.commute)
qed

lemma tag_key_less: "wt < 8 \<Longrightarrow> tag_key (wt, t) < 2 ^ 64"
  using unsigned_less [where ?'a = nat, of t] by (simp add: tag_key_def)

lemma pb_encode_tag_emits:
  assumes "wt < 8" shows "emits (varint (tag_key (wt, t))) (\<lambda>s. pb_encode_tag s wt t)"
proof -
  have "unat (word_of_nat (tag_key (wt, t)) :: uint64) = tag_key (wt, t)"
    using tag_key_less [OF assms, of t] by (simp add: unat_of_nat)
  with pb_encode_varint_emits [of "word_of_nat (tag_key (wt, t))"] show ?thesis
    by (simp only: pb_encode_tag_eq [OF assms])
qed

interpretation tag: wire_codec "\<lambda>a. varint (tag_key a)" tag_valid
    "\<lambda>(wt, t) s. pb_encode_tag s wt t" pb_decode_tag
proof
  show "tag_valid a \<Longrightarrow> emits (varint (tag_key a)) (case a of (wt, t) \<Rightarrow> \<lambda>s. pb_encode_tag s wt t)" for a
    by (cases a) (auto simp: tag_valid_def intro: pb_encode_tag_emits)
next
  fix a :: "pb_wire_type \<times> uint32" and s :: "'b pb_istream" and rest
  assume a: "tag_valid a" and s: "buffered s" "input s = varint (tag_key a) @ rest"
  obtain wt t where wt: "a = (wt, t)" by (cases a)
  have k: "tag_key a < 2 ^ 32" "tag_key a \<noteq> 0" "tag_key a mod 8 = wt" "tag_key a div 8 = unat t"
    using a by (auto simp: wt tag_valid_def tag_key_def)
  show "pb_decode_tag s = Ok (a, consume (length (varint (tag_key a))) s)"
    using pb_decode_tag_varint [OF s k(1,2)] k(3,4) by (simp add: wt)
qed

section \<open>Skipping\<close>

lemma pb_skip_varint_bytes:
  "buffered s \<Longrightarrow> input s = bs @ rest \<Longrightarrow> varint_bytes bs \<Longrightarrow>
   pb_skip_varint s = Ok ((), consume (length bs) s)"
proof (induction bs arbitrary: s)
  case (Cons b bs)
  have r: "pb_read False s 1 = Ok ([b], consume 1 s)"
    using Cons.prems length_input [of s] by (simp add: pb_read_buffer)
  show ?case
  proof (cases "bs = []")
    case True
    with Cons.prems(3) r show ?thesis
      by (simp add: pb_skip_varint.simps [of s] and_128 One_nat_def)
  next
    case False
    with Cons.prems(3) have t: "b AND 0x80 \<noteq> 0" "varint_bytes bs"
      by (simp_all add: and_128 varint_bytes_Cons)
    have "pb_skip_varint (consume 1 s) = Ok ((), consume (length bs) (consume 1 s))"
      using Cons.prems t by (intro Cons.IH) auto
    with r t show ?thesis by (simp add: pb_skip_varint.simps [of s] One_nat_def)
  qed
qed simp

text \<open>The payload of a field: what follows the key, by wire type.\<close>

definition payload :: "pb_wire_type \<Rightarrow> byte list \<Rightarrow> bool" where
  "payload wt p \<longleftrightarrow>
     (if wt = PB_WT_VARINT then varint_bytes p
      else if wt = PB_WT_64BIT then length p = 8
      else if wt = PB_WT_STRING then \<exists>bs. length bs < 2 ^ 32 \<and> p = varint (length bs) @ bs
      else if wt = PB_WT_32BIT then length p = 4 else False)"

lemma pb_skip_string_bytes:
  assumes "buffered s" "input s = varint (length bs) @ bs @ rest" "length bs < 2 ^ 32"
  shows "pb_skip_string s = Ok ((), consume (length (varint (length bs)) + length bs) s)"
proof -
  let ?k = "length (varint (length bs))"
  have u: "unat (word_of_nat (length bs) :: uint32) = length bs"
    using assms(3) by (simp add: unat_of_nat)
  have "length bs \<le> length (input (consume ?k s))" using assms(2) by simp
  then have "length bs \<le> bytes_left (consume ?k s)"
    using length_input [of "consume ?k s"] assms(1) by simp
  then have "pb_read True (consume ?k s) (length bs) =
      Ok (take (length bs) (input (consume ?k s)), consume (length bs) (consume ?k s))"
    using assms(1) by (intro pb_read_buffer) simp_all
  with pb_decode_varint32_varint [OF assms(1,2,3)] u show ?thesis by (simp add: pb_skip_string_def)
qed

lemma pb_skip_field_payload:
  assumes "buffered s" "input s = p @ rest" "payload wt p"
  shows "pb_skip_field s wt = Ok ((), consume (length p) s)"
  using assms length_input [OF assms(1)] pb_skip_varint_bytes [OF assms(1,2)]
  by (auto simp: payload_def pb_skip_field_def pb_read_buffer pb_skip_string_bytes split: if_splits)

end
