(* ===== verification/Pb_Encode_Spec.thy ===== *)
theory Pb_Encode_Spec
  imports Pb_Encode Pb_Wire
begin

text \<open>
  The encoding of a message as a function from the memory of its structure to bytes, written
  without streams, sizing passes or buffers: \<open>message_bytes\<close> concatenates \<open>field_bytes\<close> over the
  fields, in order, and is \<open>None\<close> where the encoder reports an error or reads outside every object.
  The lemmas show that \<open>pb_encode\<close> emits exactly these bytes, on a sizing stream and on a buffer.
  \<open>cbs\<close> gives the bytes that the callback at an address writes.
\<close>

section \<open>The reference encoding\<close>

definition key_bytes :: "pb_wire_type \<Rightarrow> pb_field \<Rightarrow> byte list" where
  "key_bytes wt f = varint (tag_key (wt, fld_tag f))"

definition field_key :: "pb_field \<Rightarrow> byte list option" where
  "field_key f = map_option (\<lambda>wt. key_bytes wt f) (wire_type_of (PB_LTYPE (fld_type f)))"

definition delimited :: "byte list \<Rightarrow> byte list" where
  "delimited bs = varint (length bs) @ bs"

definition bytes_field :: "heap \<Rightarrow> pb_field \<Rightarrow> addr \<Rightarrow> byte list option" where
  "bytes_field h f src =
     (if src = 0 then Some (delimited [])
      else case load_u32 h (bytes_array_size src) of None \<Rightarrow> None
        | Some sz \<Rightarrow>
            if PB_ATYPE (fld_type f) = PB_ATYPE_STATIC \<and> unat (data_size f) < unat sz + 4 then None
            else map_option delimited (load_bytes h (bytes_array_bytes src) (unat sz)))"

definition string_field :: "heap \<Rightarrow> pb_field \<Rightarrow> addr \<Rightarrow> byte list option" where
  "string_field h f src =
     (if src = 0 then Some (delimited [])
      else case strnlen_loop h src 0
             (if PB_ATYPE (fld_type f) = PB_ATYPE_POINTER then size_max else unat (data_size f)) of
          None \<Rightarrow> None
        | Some sz \<Rightarrow> map_option delimited (load_bytes h src sz))"

text \<open>The value of a field, without its key.\<close>

definition value_bytes :: "(pb_field list \<Rightarrow> addr \<Rightarrow> byte list option) \<Rightarrow>
    heap \<Rightarrow> pb_field \<Rightarrow> addr \<Rightarrow> byte list option" where
  "value_bytes msg h f src =
     (let ltype = PB_LTYPE (fld_type f); sz = data_size f in
      if ltype = PB_LTYPE_BOOL
      then map_option (\<lambda>b. varint (if b then 1 else 0)) (safe_read_bool h src)
      else if ltype = PB_LTYPE_VARINT
      then if integer_size sz then map_option (\<lambda>v. varint (unat v)) (read_signed h sz src) else None
      else if ltype = PB_LTYPE_UVARINT
      then if integer_size sz then map_option (\<lambda>v. varint (unat v)) (read_unsigned h sz src) else None
      else if ltype = PB_LTYPE_SVARINT
      then if integer_size sz then map_option (\<lambda>v. varint (zigzag (sint v))) (read_signed h sz src)
           else None
      else if ltype = PB_LTYPE_FIXED32 then load_bytes h src 4
      else if ltype = PB_LTYPE_FIXED64 then load_bytes h src 8
      else if ltype = PB_LTYPE_BYTES then bytes_field h f src
      else if ltype = PB_LTYPE_STRING then string_field h f src
      else if ltype = PB_LTYPE_SUBMESSAGE
      then (case fld_ptr f of PtrFields fs \<Rightarrow> map_option delimited (msg fs src) | _ \<Rightarrow> None)
      else if ltype = PB_LTYPE_FIXED_LENGTH_BYTES
      then map_option delimited (load_bytes h src (unat sz))
      else None)"

definition join :: "byte list option \<Rightarrow> byte list option \<Rightarrow> byte list option" where
  "join x y = (case (x, y) of (Some a, Some b) \<Rightarrow> Some (a @ b) | _ \<Rightarrow> None)"

primrec items_bytes :: "(addr \<Rightarrow> byte list option) \<Rightarrow> nat \<Rightarrow> nat \<Rightarrow> addr \<Rightarrow> byte list option" where
  "items_bytes item step 0 p = Some []"
| "items_bytes item step (Suc n) p = join (item p) (items_bytes item step n (p + int step))"

definition array_bytes :: "(pb_field list \<Rightarrow> addr \<Rightarrow> byte list option) \<Rightarrow>
    heap \<Rightarrow> pb_field \<Rightarrow> addr \<Rightarrow> nat \<Rightarrow> byte list option" where
  "array_bytes msg h f pd count =
     (let type = fld_type f; step = unat (data_size f) in
      if count = 0 then Some []
      else if PB_ATYPE type \<noteq> PB_ATYPE_POINTER \<and> unat (array_size f) < count then None
      else if PB_LTYPE type \<le> PB_LTYPE_LAST_PACKABLE
      then map_option (\<lambda>items. key_bytes PB_WT_STRING f @ delimited items)
             (items_bytes (value_bytes msg h f) step count pd)
      else items_bytes (\<lambda>p. join (field_key f)
             (if PB_ATYPE type = PB_ATYPE_POINTER
                 \<and> (PB_LTYPE type = PB_LTYPE_STRING \<or> PB_LTYPE type = PB_LTYPE_BYTES)
              then Option.bind (load_ptr h p) (value_bytes msg h f) else value_bytes msg h f p))
             step count pd)"

text \<open>Whether a field without a presence flag in the structure is written, or \<open>None\<close>.\<close>

definition implicitly_present :: "nat \<Rightarrow> heap \<Rightarrow> pb_field \<Rightarrow> addr \<Rightarrow> bool option" where
  "implicitly_present n h f pd =
     (case (implicit_has n h f pd :: (bool, unit) res) of Ok b \<Rightarrow> Some b | _ \<Rightarrow> None)"

definition basic_field_bytes :: "nat \<Rightarrow> (pb_field list \<Rightarrow> addr \<Rightarrow> byte list option) \<Rightarrow>
    heap \<Rightarrow> pb_field \<Rightarrow> addr \<Rightarrow> byte list option" where
  "basic_field_bytes n msg h f pd =
     (let type = fld_type f; psize = pd + sint (size_offset f); in_struct = (size_offset f \<noteq> 0);
          tagged = (\<lambda>p. join (field_key f) (value_bytes msg h f p)) in
      Option.bind (implicitly_present n h f pd) (\<lambda>has.
      Option.bind (if PB_ATYPE type = PB_ATYPE_POINTER
                   then map_option (\<lambda>p. (p, p \<noteq> 0)) (load_ptr h pd) else Some (pd, has))
      (\<lambda>(p, has).
        if PB_HTYPE type = PB_HTYPE_REQUIRED then if p = 0 then None else tagged p
        else if PB_HTYPE type = PB_HTYPE_OPTIONAL
        then Option.bind (if in_struct then safe_read_bool h psize else Some has)
               (\<lambda>has. if has then tagged p else Some [])
        else if PB_HTYPE type = PB_HTYPE_REPEATED
        then Option.bind (if in_struct then load_u32 h psize else Some (array_size f))
               (\<lambda>count. array_bytes msg h f p (unat count))
        else if PB_HTYPE type = PB_HTYPE_ONEOF
        then Option.bind (if in_struct then load_u32 h psize else None)
               (\<lambda>which. if which = fld_tag f then tagged p else Some [])
        else None)))"

definition callback_field_bytes :: "(addr \<Rightarrow> pb_field \<Rightarrow> addr \<Rightarrow> byte list option) \<Rightarrow>
    heap \<Rightarrow> pb_field \<Rightarrow> addr \<Rightarrow> byte list option" where
  "callback_field_bytes cbs h f pd =
     Option.bind (load_ptr h (callback_funcs pd)) (\<lambda>fn.
       if fn = 0 then Some [] else cbs fn f (callback_arg pd))"

definition field_bytes :: "(addr \<Rightarrow> pb_field \<Rightarrow> addr \<Rightarrow> byte list option) \<Rightarrow> nat \<Rightarrow>
    (pb_field list \<Rightarrow> addr \<Rightarrow> byte list option) \<Rightarrow> heap \<Rightarrow> pb_field \<Rightarrow> addr \<Rightarrow> byte list option" where
  "field_bytes cbs n msg h f pd =
     (let atype = PB_ATYPE (fld_type f) in
      if PB_LTYPE (fld_type f) = PB_LTYPE_EXTENSION then None
      else if atype = PB_ATYPE_STATIC \<or> atype = PB_ATYPE_POINTER then basic_field_bytes n msg h f pd
      else if atype = PB_ATYPE_CALLBACK then callback_field_bytes cbs h f pd
      else None)"

text \<open>The fields from number \<open>i\<close> on, \<open>k\<close> of them.\<close>

primrec fields_bytes :: "(pb_field \<Rightarrow> addr \<Rightarrow> byte list option) \<Rightarrow> pb_field list \<Rightarrow> addr \<Rightarrow>
    nat \<Rightarrow> nat \<Rightarrow> byte list option" where
  "fields_bytes fb fs src i 0 = Some []"
| "fields_bytes fb fs src i (Suc k) =
     join (fb (field_at fs i) (pData (iter_at fs src i))) (fields_bytes fb fs src (Suc i) k)"

text \<open>The encoding of a message; extension fields are outside the reference.  The fuel bounds the
  nesting of messages.\<close>

primrec message_bytes :: "(addr \<Rightarrow> pb_field \<Rightarrow> addr \<Rightarrow> byte list option) \<Rightarrow> nat \<Rightarrow> heap \<Rightarrow>
    pb_field list \<Rightarrow> addr \<Rightarrow> byte list option" where
  "message_bytes cbs 0 h = (\<lambda>fs src. None)"
| "message_bytes cbs (Suc n) h = (\<lambda>fs src.
     fields_bytes (field_bytes cbs (Suc n) (message_bytes cbs n h) h) fs src 0 (nfields fs))"

section \<open>The encoder implements the reference\<close>

lemma emits_varint_nat: "n < 2 ^ 64 \<Longrightarrow> emits (varint n) (\<lambda>s. pb_encode_varint s (word_of_nat n))"
  using pb_encode_varint_emits [of "word_of_nat n"] by (simp add: unat_of_nat)

lemma emits_string:
  assumes "buf (length bs) = Some bs" "length bs < 2 ^ 63"
  shows "emits (delimited bs) (\<lambda>s. pb_encode_string s buf (length bs))"
  unfolding delimited_def pb_encode_string_def
  using assms by (intro emits_andThen emits_varint_nat emits_pb_write) simp_all

lemma emits_tag_for_field:
  "field_key f = Some k \<Longrightarrow> emits k (\<lambda>s. pb_encode_tag_for_field s f)"
proof -
  assume "field_key f = Some k"
  then obtain wt where wt: "wire_type_of (PB_LTYPE (fld_type f)) = Some wt" "k = key_bytes wt f"
    by (auto simp: field_key_def)
  then have "wt < 8" by (auto simp: wire_type_of_def split: if_splits)
  with wt show ?thesis
    by (simp add: pb_encode_tag_for_field_def key_bytes_def pb_encode_tag_emits)
qed

text \<open>A nested message: counted on a stream of its own, then its length and its bytes.\<close>

lemma sizing_ok: "emits m e \<Longrightarrow> length m < 2 ^ 63 \<Longrightarrow>
    e PB_OSTREAM_SIZING = Ok (PB_OSTREAM_SIZING\<lparr>bytes_written := length m\<rparr>)"
proof -
  assume e: "emits m e" and m: "length m < 2 ^ 63"
  then have "size_add 0 (length m) = length m" by (simp add: size_add_def)
  with emits_sizing [OF e, of PB_OSTREAM_SIZING] show ?thesis by (simp add: PB_OSTREAM_SIZING_def)
qed

lemma submessage_sizing:
  assumes e: "emits m (\<lambda>s. enc s h fs src)" and m: "length m < 2 ^ 63"
    and s: "o_callback s = None" "bytes_written s < 2 ^ 64"
  shows "pb_encode_submessage enc s h fs src =
    Ok (s\<lparr>bytes_written := size_add (bytes_written s) (length (delimited m))\<rparr>)"
  using s m emits_sizing [OF emits_varint_nat, of "length m" s]
  by (simp add: pb_encode_submessage_def sizing_ok [OF e m] pb_write_def delimited_def
      size_add_assoc Let_def)

lemma submessage_written:
  assumes e: "emits m (\<lambda>s. enc s h fs src)" and m: "length m < 2 ^ 63" and s: "ostream_ok s"
    and v: "bytes_written s + length (varint (length m)) \<le> max_size s"
  shows "pb_encode_submessage enc s h fs src =
    (if bytes_written s + length (delimited m) \<le> max_size s then Ok (put (delimited m) s)
     else Fail (full (varint (length m)) s))"
proof -
  let ?s = "put (varint (length m)) s"
  have ok: "ostream_ok ?s" by (rule put_ok [OF s v])
  have ev: "pb_encode_varint s (word_of_nat (length m)) = Ok ?s"
    using m s v by (intro emits_fits [OF emits_varint_nat]) simp_all
  have na: "size_add (bytes_written ?s) (length m) = bytes_written ?s + length m"
    using ok m by (simp add: size_add_def ostream_ok_def)
  show ?thesis
  proof (cases "bytes_written s + length (delimited m) \<le> max_size s")
    case True
    then have fits: "bytes_written ?s + length m \<le> max_size ?s" by (simp add: delimited_def)
    let ?sub = "PB_OSTREAM_SIZING\<lparr>bytes_written := length m, o_callback := o_callback ?s,
       o_state := o_state ?s, max_size := length m, bytes_written := 0, o_errmsg := None\<rparr>"
    have "ostream_ok ?sub" using ok fits m by (auto simp: ostream_ok_def)
    then have "enc ?sub h fs src = Ok (put m ?sub)" by (intro emits_fits [OF e]) simp_all
    moreover have "?s\<lparr>bytes_written := bytes_written ?s + length m, o_state := o_state (put m ?sub),
        o_errmsg := None\<rparr> = put (delimited m) s"
      using s by (simp add: put_def delimited_def ostream_ok_def)
    ultimately show ?thesis using True s fits na
      by (simp add: pb_encode_submessage_def sizing_ok [OF e m] ev ostream_ok_def Let_def)
  next
    case False
    then have "max_size s < size_add (bytes_written ?s) (length m)"
      using na by (simp add: delimited_def)
    with False s show ?thesis
      by (simp add: pb_encode_submessage_def sizing_ok [OF e m] ev ostream_ok_def full_def
          o_error_def Let_def)
  qed
qed

lemma emits_submessage:
  assumes e: "emits m (\<lambda>s. enc s h fs src)" and m: "length m < 2 ^ 63"
  shows "emits (delimited m) (\<lambda>s. pb_encode_submessage enc s h fs src)"
  unfolding emits_def
proof (intro conjI allI impI)
  fix s :: "'a pb_ostream"
  assume "o_callback s = None" "bytes_written s < 2 ^ 64"
  then show "pb_encode_submessage enc s h fs src =
      Ok (s\<lparr>bytes_written := size_add (bytes_written s) (length (delimited m))\<rparr>)"
    by (rule submessage_sizing [where enc = enc and h = h and fs = fs and src = src, OF e m])
next
  fix s :: "'a pb_ostream"
  assume s: "ostream_ok s" "bytes_written s + length (delimited m) \<le> max_size s"
  then show "pb_encode_submessage enc s h fs src = Ok (put (delimited m) s)"
    using submessage_written [where enc = enc and h = h and fs = fs and src = src, OF e m s(1)] by (simp add: delimited_def)
next
  fix s :: "'a pb_ostream"
  assume s: "ostream_ok s" "max_size s < bytes_written s + length (delimited m)"
  show "\<exists>ext. prefix ext (delimited m) \<and> bytes_written s + length ext \<le> max_size s
      \<and> pb_encode_submessage enc s h fs src = Fail (full ext s)"
  proof (cases "bytes_written s + length (varint (length m)) \<le> max_size s")
    case True
    with submessage_written [where enc = enc and h = h and fs = fs and src = src, OF e m s(1)] s(2) show ?thesis
      by (intro exI [of _ "varint (length m)"]) (simp add: delimited_def)
  next
    case False
    have "\<exists>ext. prefix ext (varint (length m)) \<and> bytes_written s + length ext \<le> max_size s
      \<and> pb_encode_varint s (word_of_nat (length m)) = Fail (full ext s)"
      using False m s(1) by (intro emits_full [OF emits_varint_nat]) simp_all
    then obtain ext where "prefix ext (varint (length m))"
      "bytes_written s + length ext \<le> max_size s"
      "pb_encode_varint s (word_of_nat (length m)) = Fail (full ext s)" by blast
    then show ?thesis
      by (intro exI [of _ ext])
        (simp add: pb_encode_submessage_def sizing_ok [OF e m] delimited_def prefix_prefix)
  qed
qed

text \<open>What the encoder of messages must do for the fields of the enclosing one.\<close>

definition msg_emits :: "(pb_field list \<Rightarrow> addr \<Rightarrow> byte list option) \<Rightarrow> 'u msg_encoder \<Rightarrow> heap \<Rightarrow> bool"
  where "msg_emits msg enc h \<longleftrightarrow>
     (\<forall>fs src bs. msg fs src = Some bs \<longrightarrow> length bs < 2 ^ 63 \<longrightarrow> emits bs (\<lambda>s. enc s h fs src))"

lemma length_delimited: "length (delimited m) < 2 ^ 63 \<Longrightarrow> length m < 2 ^ 63"
  by (simp add: delimited_def)

lemma emits_bytes:
  assumes b: "bytes_field h f src = Some bs" and l: "length bs < 2 ^ 63"
  shows "emits bs (\<lambda>s. pb_enc_bytes s h f src)"
proof (cases "src = 0")
  case True
  with b have bs: "bs = delimited []" by (simp add: bytes_field_def)
  have "emits (delimited []) (\<lambda>s. pb_encode_string s null_reader 0)"
    using emits_string [of null_reader "[]"] by (simp add: null_reader_def)
  then show ?thesis using True bs by (simp add: pb_enc_bytes_def)
next
  case False
  with b obtain sz m where sz: "load_u32 h (bytes_array_size src) = Some sz"
    and st: "\<not> (PB_ATYPE (fld_type f) = PB_ATYPE_STATIC \<and> unat (data_size f) < unat sz + 4)"
    and m: "load_bytes h (bytes_array_bytes src) (unat sz) = Some m" "bs = delimited m"
    by (auto simp: bytes_field_def split: option.splits if_splits)
  have len: "length m = unat sz" using m(1) by (rule load_bytes_length)
  have "unat sz < 2 ^ 32" using unsigned_less [where ?'a = nat, of sz] by simp
  then have al: "PB_BYTES_ARRAY_T_ALLOCSIZE (unat sz) = unat sz + 4"
    by (simp add: PB_BYTES_ARRAY_T_ALLOCSIZE_def size_add_def)
  have "emits (delimited m) (\<lambda>s. pb_encode_string s (load_bytes h (bytes_array_bytes src)) (length m))"
    using m l len length_delimited [of m] by (intro emits_string) simp_all
  moreover have "pb_enc_bytes s h f src =
      pb_encode_string s (load_bytes h (bytes_array_bytes src)) (unat sz)" for s :: "'a pb_ostream"
    using False sz st by (auto simp: pb_enc_bytes_def al)
  ultimately show ?thesis using m len by simp
qed

lemma emits_string_field:
  assumes b: "string_field h f src = Some bs" and l: "length bs < 2 ^ 63"
  shows "emits bs (\<lambda>s. pb_enc_string s h f src)"
proof (cases "src = 0")
  case True
  with b have bs: "bs = delimited []" by (simp add: string_field_def)
  have "emits (delimited []) (\<lambda>s. pb_encode_string s null_reader 0)"
    using emits_string [of null_reader "[]"] by (simp add: null_reader_def)
  then show ?thesis using True bs by (simp add: pb_enc_string_def)
next
  case False
  with b obtain sz m where sz: "strnlen_loop h src 0
      (if PB_ATYPE (fld_type f) = PB_ATYPE_POINTER then size_max else unat (data_size f)) = Some sz"
    and m: "load_bytes h src sz = Some m" "bs = delimited m"
    by (auto simp: string_field_def split: option.splits)
  have len: "length m = sz" using m(1) by (rule load_bytes_length)
  have "emits (delimited m) (\<lambda>s. pb_encode_string s (load_bytes h src) (length m))"
    using m l len length_delimited [of m] by (intro emits_string) simp_all
  then show ?thesis using False sz m len by (simp add: pb_enc_string_def)
qed

lemma le_of_load: "load_bytes h a n = Some bs \<Longrightarrow> le_of_nat n (nat_of_le bs) = bs"
  using le_of_nat_of_le [of bs] load_bytes_length [of h a n bs] by simp

lemma emits_fixed32:
  assumes "load_bytes h src 4 = Some bs"
  shows "emits bs (\<lambda>s. pb_enc_fixed32 s h f src)"
proof -
  have n: "nat_of_le bs < 2 ^ 32"
    using nat_of_le_less [of bs] load_bytes_length [OF assms] by simp
  have "emits (le_of_nat 4 (nat_of_le bs)) (\<lambda>s. pb_encode_fixed32 s (word_of_nat (nat_of_le bs)))"
    using pb_encode_fixed32_emits [of "word_of_nat (nat_of_le bs)"] n by (simp add: unat_of_nat)
  then show ?thesis using assms
    by (simp add: pb_enc_fixed32_def load_u32_def load_nat_def le_of_load)
qed

lemma emits_fixed64:
  assumes "load_bytes h src 8 = Some bs"
  shows "emits bs (\<lambda>s. pb_enc_fixed64 s h f src)"
proof -
  have n: "nat_of_le bs < 2 ^ 64"
    using nat_of_le_less [of bs] load_bytes_length [OF assms] by simp
  have "emits (le_of_nat 8 (nat_of_le bs)) (\<lambda>s. pb_encode_fixed64 s (word_of_nat (nat_of_le bs)))"
    using pb_encode_fixed64_emits [of "word_of_nat (nat_of_le bs)"] n by (simp add: unat_of_nat)
  then show ?thesis using assms
    by (simp add: pb_enc_fixed64_def load_nat_def le_of_load)
qed

lemma emits_svarint: "emits (varint (zigzag (sint v))) (\<lambda>s. pb_encode_svarint s v)"
  by (rule svarint64.enc_emits) simp

lemma varint_01 [simp]: "varint 0 = [0]" "varint (Suc 0) = [1]" "varint 1 = [1]"
  by (simp_all add: varint.simps)

lemma emits_bool:
  "emits [0] (\<lambda>s. pb_encode_varint s 0)" "emits [1] (\<lambda>s. pb_encode_varint s 1)"
  using pb_encode_varint_emits [of 0] pb_encode_varint_emits [of 1] by (simp_all add: One_nat_def)

lemma emits_value:
  assumes msg: "msg_emits msg enc h" and v: "value_bytes msg h f src = Some bs"
    and l: "length bs < 2 ^ 63"
  shows "emits bs (\<lambda>s. PB_ENCODERS enc (PB_LTYPE (fld_type f)) s h f src)"
proof -
  have sub: "emits (delimited m) (\<lambda>s. pb_encode_submessage enc s h fs src)"
    if "msg fs src = Some m" "length (delimited m) < 2 ^ 63" for fs m
    using that msg length_delimited [of m]
    by (intro emits_submessage [where enc = enc and h = h and fs = fs and src = src])
      (auto simp: msg_emits_def)
  have flb: "emits (delimited m) (\<lambda>s. pb_encode_string s (load_bytes h src) (unat (data_size f)))"
    if "load_bytes h src (unat (data_size f)) = Some m" "length (delimited m) < 2 ^ 63" for m
    using emits_string [of "load_bytes h src" m] load_bytes_length [OF that(1)] that
      length_delimited [of m] by simp
  show ?thesis using v l
    unfolding value_bytes_def Let_def PB_ENCODERS_def
    by (auto simp: pb_enc_bool_def pb_enc_varint_def pb_enc_uvarint_def pb_enc_svarint_def
        pb_enc_submessage_def pb_enc_fixed_length_bytes_def sub flb emits_fixed32 emits_fixed64
        emits_bytes emits_string_field emits_svarint emits_bool pb_encode_varint_emits
        split: if_splits pb_ptr.splits)
qed

lemma join_Some: "join x y = Some bs \<longleftrightarrow> (\<exists>a b. x = Some a \<and> y = Some b \<and> bs = a @ b)"
  by (auto simp: join_def split: option.splits)

lemma emits_items:
  assumes "\<And>p a. item' p = Some a \<Longrightarrow> length a < 2 ^ 63 \<Longrightarrow> emits a (\<lambda>s. item s p)"
    and "items_bytes item' step n p = Some bs" "length bs < 2 ^ 63"
  shows "emits bs (encode_items item step n p)"
  using assms(2,3)
proof (induction n arbitrary: p bs)
  case 0
  have "encode_items item step 0 p = Ok" by (rule ext) simp
  with 0 show ?case by (simp add: emits_Nil)
next
  case (Suc n)
  then obtain a b where "item' p = Some a" "items_bytes item' step n (p + int step) = Some b"
    "bs = a @ b" by (auto simp: join_Some)
  moreover from this Suc.prems have "length a < 2 ^ 63" "length b < 2 ^ 63" by simp_all
  moreover have "encode_items item step (Suc n) p =
      (\<lambda>s. andThen (item s p) (encode_items item step n (p + int step)))"
    by (rule ext) simp
  ultimately show ?case using assms(1) Suc.IH by (simp add: emits_andThen)
qed

text \<open>The precomputed size of a packed array is the size of its items.\<close>

lemma length_items:
  assumes "\<And>p a. item p = Some a \<Longrightarrow> length a = k" and "items_bytes item step n p = Some bs"
  shows "length bs = k * n"
  using assms(2) by (induction n arbitrary: p bs) (auto simp: join_Some assms(1))

lemma packed_size_items:
  assumes msg: "msg_emits msg enc h"
    and b: "items_bytes (value_bytes msg h f) (unat (data_size f)) n pd = Some bs" "length bs < 2 ^ 63"
  shows "packed_size (PB_ENCODERS enc (PB_LTYPE (fld_type f))) s h f pd n = Ok (length bs)"
proof -
  let ?func = "PB_ENCODERS enc (PB_LTYPE (fld_type f))"
  have k: "PB_LTYPE (fld_type f) = PB_LTYPE_FIXED32 \<Longrightarrow> length bs = 4 * n"
    using b(1) by (rule length_items [rotated]) (auto simp: value_bytes_def dest: load_bytes_length)
  have k': "PB_LTYPE (fld_type f) = PB_LTYPE_FIXED64 \<Longrightarrow> length bs = 8 * n"
    using b(1) by (rule length_items [rotated]) (auto simp: value_bytes_def dest: load_bytes_length)
  have "emits bs (encode_items (\<lambda>s p. ?func s h f p) (unat (data_size f)) n pd)"
    using emits_value [OF msg] b by (intro emits_items [where item' = "value_bytes msg h f"]) auto
  then have "encode_items (\<lambda>s p. ?func s h f p) (unat (data_size f)) n pd PB_OSTREAM_SIZING =
      Ok (PB_OSTREAM_SIZING\<lparr>bytes_written := length bs\<rparr>)"
    using b(2) by (rule sizing_ok)
  with k k' b(2) show ?thesis by (auto simp: packed_size_def)
qed

lemma emits_packed:
  assumes e: "emits bs k" and l: "length bs < 2 ^ 63"
  shows "emits bs (\<lambda>s. if o_callback s = None then pb_write s null_reader (length bs) else k s)"
  using e l unfolding emits_def by (auto simp: pb_write_def ostream_ok_def)

lemma emits_key: "emits (key_bytes PB_WT_STRING f) (\<lambda>s. pb_encode_tag s PB_WT_STRING (fld_tag f))"
  by (simp add: key_bytes_def pb_encode_tag_emits)

lemma emits_array:
  assumes msg: "msg_emits msg enc h"
    and b: "array_bytes msg h f pd n = Some bs" "length bs < 2 ^ 63"
  shows "emits bs (\<lambda>s. encode_array s h f pd n (PB_ENCODERS enc (PB_LTYPE (fld_type f))))"
proof (cases "n = 0")
  case True
  with b have "bs = []" by (simp add: array_bytes_def)
  then show ?thesis using True emits_Nil by (simp add: encode_array_def)
next
  case n: False
  let ?func = "PB_ENCODERS enc (PB_LTYPE (fld_type f))" and ?type = "fld_type f"
  have over: "\<not> (PB_ATYPE ?type \<noteq> PB_ATYPE_POINTER \<and> unat (array_size f) < n)"
    using b n by (auto simp: array_bytes_def split: if_splits)
  show ?thesis
  proof (cases "PB_LTYPE ?type \<le> PB_LTYPE_LAST_PACKABLE")
    case True
    with b n over obtain items where
      items: "items_bytes (value_bytes msg h f) (unat (data_size f)) n pd = Some items"
      and bs: "bs = key_bytes PB_WT_STRING f @ varint (length items) @ items"
      by (auto simp: array_bytes_def delimited_def split: if_splits)
    have li: "length items < 2 ^ 63" using b(2) bs by simp
    have "emits items (encode_items (\<lambda>s p. ?func s h f p) (unat (data_size f)) n pd)"
      using emits_value [OF msg] items li
      by (intro emits_items [where item' = "value_bytes msg h f"]) auto
    note e = emits_andThen [OF emits_key emits_andThen [OF emits_varint_nat emits_packed [OF this li]]]
    have "emits bs (\<lambda>s. andThen (pb_encode_tag s PB_WT_STRING (fld_tag f)) (\<lambda>s.
        andThen (pb_encode_varint s (word_of_nat (length items))) (\<lambda>s.
          if o_callback s = None then pb_write s null_reader (length items)
          else encode_items (\<lambda>s p. ?func s h f p) (unat (data_size f)) n pd s)))"
      unfolding bs using li by (intro e) simp
    moreover have "encode_array s h f pd n ?func =
        andThen (pb_encode_tag s PB_WT_STRING (fld_tag f)) (\<lambda>s.
        andThen (pb_encode_varint s (word_of_nat (length items))) (\<lambda>s.
          if o_callback s = None then pb_write s null_reader (length items)
          else encode_items (\<lambda>s p. ?func s h f p) (unat (data_size f)) n pd s))" for s
      using n over True packed_size_items [OF msg items li] by (auto simp: encode_array_def Let_def)
    ultimately show ?thesis by simp
  next
    case False
    let ?ptr = "PB_ATYPE ?type = PB_ATYPE_POINTER
      \<and> (PB_LTYPE ?type = PB_LTYPE_STRING \<or> PB_LTYPE ?type = PB_LTYPE_BYTES)"
    let ?item = "\<lambda>s p. andThen (pb_encode_tag_for_field s f) (\<lambda>s.
          if ?ptr then access (load_ptr h p) (\<lambda>item. ?func s h f item) else ?func s h f p)"
    let ?item' = "\<lambda>p. join (field_key f)
        (if ?ptr then Option.bind (load_ptr h p) (value_bytes msg h f) else value_bytes msg h f p)"
    have bs: "items_bytes ?item' (unat (data_size f)) n pd = Some bs"
      using b(1) n over False by (auto simp: array_bytes_def Let_def split: if_splits)
    have "emits a (\<lambda>s. ?item s p)" if "?item' p = Some a" "length a < 2 ^ 63" for p a
    proof -
      from that(1) obtain k v where kv: "field_key f = Some k" "a = k @ v"
        "(if ?ptr then Option.bind (load_ptr h p) (value_bytes msg h f) else value_bytes msg h f p) = Some v"
        unfolding join_Some by blast
      have lv: "length v < 2 ^ 63" using that(2) kv(2) by simp
      have "emits v (\<lambda>s. if ?ptr then access (load_ptr h p) (\<lambda>item. ?func s h f item) else ?func s h f p)"
      proof (cases ?ptr)
        case True
        then obtain q where "load_ptr h p = Some q" "value_bytes msg h f q = Some v"
          using kv(3) by (cases "load_ptr h p") auto
        with True emits_value [OF msg _ lv] show ?thesis by simp
      next
        case False
        with kv(3) emits_value [OF msg _ lv] show ?thesis by auto
      qed
      then show ?thesis unfolding kv(2) by (intro emits_andThen emits_tag_for_field kv(1))
    qed
    then have "emits bs (encode_items ?item (unat (data_size f)) n pd)"
      using bs b(2) by (rule emits_items)
    moreover have "encode_array s h f pd n ?func = encode_items ?item (unat (data_size f)) n pd s" for s
      using n over False by (auto simp: encode_array_def Let_def)
    ultimately show ?thesis by simp
  qed
qed

text \<open>The check for default values cannot fail, so it does not depend on the type of failures.\<close>

lemma all_fields_Ok:
  assumes "\<And>it b. (check it :: (bool, 'f) res) = Ok b \<Longrightarrow> (check' it :: (bool, 'g) res) = Ok b"
    and "all_fields k check it = Ok b"
  shows "all_fields k check' it = Ok b"
  using assms(2)
proof (induction k arbitrary: it)
  case (Suc k)
  then obtain c where c: "check it = Ok c" by (auto simp: andThen_Ok_iff)
  with Suc assms(1) [OF c] show ?case by (auto split: prod.splits if_splits)
qed simp

lemma proto3_singular_Ok:
  assumes "\<And>f pd b. (check f pd :: (bool, 'f) res) = Ok b \<Longrightarrow> (check' f pd :: (bool, 'g) res) = Ok b"
    and "proto3_singular_default check h f pd = Ok b"
  shows "proto3_singular_default check' h f pd = Ok b"
  using assms(2) all_fields_Ok [of "\<lambda>it. check (it_field it) (pData it)"
      "\<lambda>it. check' (it_field it) (pData it)", OF assms(1)]
  unfolding proto3_singular_default_def Let_def
  by (auto simp: access_iffs simp del: all_fields.simps split: if_splits pb_ptr.splits prod.splits)

lemma pb_check_proto3_Ok:
  "(pb_check_proto3_default_value n h f pd :: (bool, 'f) res) = Ok b \<Longrightarrow>
   (pb_check_proto3_default_value n h f pd :: (bool, 'g) res) = Ok b"
proof (induction n arbitrary: f pd b)
  case (Suc n)
  note 1 = proto3_singular_Ok [of "pb_check_proto3_default_value n h", OF Suc.IH]
  from Suc.prems 1 show ?case
    by (auto simp: Let_def access_iffs split: if_splits)
qed simp

lemma implicit_has_Ok:
  "implicitly_present n h f pd = Some b \<Longrightarrow> (implicit_has n h f pd :: (bool, 'g) res) = Ok b"
  using pb_check_proto3_Ok [where ?'f = unit and ?'g = 'g, of n h f pd]
  by (auto simp: implicitly_present_def implicit_has_def split: res.splits if_splits
      simp: andThen_Ok_iff)

lemma emits_tagged:
  assumes msg: "msg_emits msg enc h"
    and b: "join (field_key f) (value_bytes msg h f p) = Some bs" "length bs < 2 ^ 63"
  shows "emits bs (\<lambda>s. andThen (pb_encode_tag_for_field s f)
    (\<lambda>s. PB_ENCODERS enc (PB_LTYPE (fld_type f)) s h f p))"
proof -
  from b(1) obtain k v where "field_key f = Some k" "value_bytes msg h f p = Some v" "bs = k @ v"
    unfolding join_Some by blast
  with b(2) emits_value [OF msg, of f p v] show ?thesis
    by (auto intro: emits_andThen emits_tag_for_field)
qed

lemma emits_nothing: "bs = [] \<Longrightarrow> emits bs (\<lambda>s. Ok s)"
  using emits_Nil by simp

lemma emits_basic_field:
  assumes msg: "msg_emits msg enc h"
    and b: "basic_field_bytes n msg h f pd = Some bs" "length bs < 2 ^ 63"
  shows "emits bs (\<lambda>s. encode_basic_field n enc s h f pd)"
proof -
  let ?type = "fld_type f"
  from b(1) obtain has p has' where has: "implicitly_present n h f pd = Some has"
    and p: "(if PB_ATYPE ?type = PB_ATYPE_POINTER
             then map_option (\<lambda>p. (p, p \<noteq> 0)) (load_ptr h pd) else Some (pd, has)) = Some (p, has')"
    by (auto simp: basic_field_bytes_def Let_def bind_eq_Some_conv)
  note i = implicit_has_Ok [OF has]
  show ?thesis
    using b emits_tagged [OF msg, of f p bs] emits_array [OF msg, of f p _ bs]
    unfolding basic_field_bytes_def encode_basic_field_def Let_def has p i
    by (auto simp: bind_eq_Some_conv p intro: emits_nothing split: if_splits)
qed

text \<open>The callbacks write what \<open>cbs\<close> says.\<close>

definition callbacks_emit ::
  "(addr \<Rightarrow> pb_field \<Rightarrow> addr \<Rightarrow> byte list option) \<Rightarrow> 'u enc_env \<Rightarrow> heap \<Rightarrow> bool" where
  "callbacks_emit cbs env h \<longleftrightarrow>
     (\<forall>fn f arg bs. cbs fn f arg = Some bs \<longrightarrow> emits bs (\<lambda>s. encode_cb env fn s h f arg))"

lemma mapFail_full:
  assumes "emits bs e"
  shows "emits bs (\<lambda>s. mapFail (\<lambda>s. o_error s msg) (e s))"
  unfolding emits_def
proof (intro conjI allI impI)
  fix s :: "'a pb_ostream"
  assume "ostream_ok s" "max_size s < bytes_written s + length bs"
  from emits_full [OF assms this] obtain ext where ext: "prefix ext bs"
    "bytes_written s + length ext \<le> max_size s" "e s = Fail (full ext s)" by blast
  have "o_error (full ext s) msg = full ext s"
    by (simp add: o_error_def full_def)
  with ext show "\<exists>ext. prefix ext bs \<and> bytes_written s + length ext \<le> max_size s
      \<and> mapFail (\<lambda>s. o_error s msg) (e s) = Fail (full ext s)" by auto
qed (use assms in \<open>simp_all add: emits_sizing emits_fits\<close>)

lemma emits_callback_field:
  assumes "callbacks_emit cbs env h" "callback_field_bytes cbs h f pd = Some bs"
  shows "emits bs (\<lambda>s. encode_callback_field env s h f pd)"
proof -
  from assms(2) obtain fn where fn: "load_ptr h (callback_funcs pd) = Some fn"
    and bs: "(if fn = 0 then Some [] else cbs fn f (callback_arg pd)) = Some bs"
    by (auto simp: callback_field_bytes_def bind_eq_Some_conv)
  have "fn \<noteq> 0 \<Longrightarrow> emits bs (\<lambda>s. encode_cb env fn s h f (callback_arg pd))"
    using assms(1) bs by (simp add: callbacks_emit_def)
  from mapFail_full [OF this] fn bs show ?thesis
    by (cases "fn = 0") (simp_all add: encode_callback_field_def emits_nothing)
qed

lemma emits_any:
  assumes "msg_emits msg enc h" "callbacks_emit cbs env h"
    and "field_bytes cbs n msg h (it_field it) (pData it) = Some bs" "length bs < 2 ^ 63"
  shows "emits bs (encode_any env n enc h it)"
proof -
  have "encode_any env n enc h it = (\<lambda>s. encode_any env n enc h it s)" by simp
  then show ?thesis
    using assms emits_basic_field [OF assms(1), of n "it_field it" "pData it" bs]
      emits_callback_field [OF assms(2), of "it_field it" "pData it" bs]
    unfolding field_bytes_def encode_any_def encode_field_def Let_def
    by (auto split: if_splits)
qed

lemma emits_each:
  assumes body: "\<And>it b. fb (it_field it) (pData it) = Some b \<Longrightarrow> length b < 2 ^ 63 \<Longrightarrow> emits b (body it)"
    and k: "i < nfields fs" "nfields fs - i \<le> k"
    and b: "fields_bytes fb fs src i (nfields fs - i) = Some bs" "length bs < 2 ^ 63"
  shows "emits bs (encode_each k body (iter_at fs src i))"
  using k b
proof (induction k arbitrary: i bs)
  case 0
  then show ?case by simp
next
  case (Suc k)
  define m where "m = nfields fs - Suc i"
  have m: "nfields fs - i = Suc m" using Suc.prems(1) by (simp add: m_def)
  from Suc.prems(3) obtain a c where a: "fb (field_at fs i) (pData (iter_at fs src i)) = Some a"
    and c: "fields_bytes fb fs src (Suc i) (nfields fs - Suc i) = Some c" and bs: "bs = a @ c"
    by (auto simp: m join_Some m_def)
  have e: "emits a (body (iter_at fs src i))"
    using a Suc.prems bs by (intro body) (simp_all add: it_field_at)
  have step: "encode_each (Suc k) body (iter_at fs src i) =
    (\<lambda>s. andThen (body (iter_at fs src i) s) (\<lambda>s.
       if Suc i < nfields fs then encode_each k body (iter_at fs src (Suc i)) s else Ok s))"
    using iter_next_at [OF Suc.prems(1), of src] by (intro ext) (simp del: iter_at.simps)
  show ?case
  proof (cases "Suc i < nfields fs")
    case True
    have "emits c (encode_each k body (iter_at fs src (Suc i)))"
      using True Suc.prems c bs by (intro Suc.IH) simp_all
    with True show ?thesis unfolding step bs by (simp add: emits_andThen [OF e] del: iter_at.simps)
  next
    case False
    with c have "c = []" by simp
    with False emits_andThen [OF e emits_Nil] show ?thesis unfolding step bs by simp
  qed
qed

lemma pb_encode_emits:
  assumes cb: "callbacks_emit cbs env h"
  shows "message_bytes cbs n h fs src = Some bs \<Longrightarrow> length bs < 2 ^ 63 \<Longrightarrow>
    emits bs (\<lambda>s. pb_encode env n s h fs src)"
proof (induction n arbitrary: fs src bs)
  case 0
  then show ?case by simp
next
  case (Suc n)
  have msg: "msg_emits (message_bytes cbs n h) (pb_encode env n) h"
    using Suc.IH by (simp add: msg_emits_def)
  show ?case
  proof (cases "nfields fs = 0")
    case True
    then have "bs = []" "\<not> fst (pb_field_iter_begin fs src)"
      using Suc.prems(1) begin_nonempty [of fs src] by simp_all
    then show ?thesis by (simp add: case_prod_unfold emits_nothing)
  next
    case False
    then have "pb_encode env (Suc n) s h fs src = encode_each (Suc (length fs))
        (encode_any env (Suc n) (pb_encode env n) h) (iter_at fs src 0) s" for s
      using begin_nonempty [of fs src] by (simp add: case_prod_unfold Let_def del: encode_each.simps)
    moreover have "emits bs (encode_each (Suc (length fs))
        (encode_any env (Suc n) (pb_encode env n) h) (iter_at fs src 0))"
      using False Suc.prems nfields_le [of fs] emits_any [OF msg cb]
      by (intro emits_each [where
          fb = "field_bytes cbs (Suc n) (message_bytes cbs n h) h"]) auto
    ultimately show ?thesis by (simp only:)
  qed
qed

end
