(* ===== verification/Pb_Lifecycle.thy ===== *)
theory Pb_Lifecycle
  imports Pb_Common
begin

text \<open>
  The parts of \<open>nanopb/pb_decode.c\<close> that prepare a message structure and that free what decoding
  allocated: \<open>iter_from_extension\<close>, \<open>pb_field_set_to_default\<close>, \<open>pb_message_set_to_defaults\<close>,
  \<open>allocate_field\<close>, \<open>initialize_pointer_field\<close>, \<open>pb_release_single_field\<close>, \<open>pb_release\<close> and
  \<open>pb_release_union_field\<close>.  They work on the heap alone and cannot fail, so they return it or
  reach undefined behaviour.  The fuel \<open>n\<close> bounds the nesting of messages and the length of
  extension lists; \<open>D\<close> gives the descriptors stored at the address \<open>extension->type->arg\<close>.
  Functions that call each other recursively take the callee as an argument, and the knot is tied
  by the functions \<open>pb_message_set_to_defaults\<close> and \<open>pb_release\<close> on the fuel.
\<close>

type_synonym 'f heap_res = "(heap, 'f) res"

section \<open>Loops over fields and over extensions\<close>

text \<open>\<open>do { body } while (pb_field_iter_next(&iter))\<close>\<close>

fun each_field :: "nat \<Rightarrow> (pb_field_iter \<Rightarrow> heap \<Rightarrow> 'f heap_res) \<Rightarrow> pb_field_iter \<Rightarrow> heap \<Rightarrow> 'f heap_res"
where
  "each_field 0 body it h = Timeout"
| "each_field (Suc k) body it h =
     andThen (body it h) (\<lambda>h.
       let (more, it') = pb_field_iter_next it in
       if more then each_field k body it' h else Ok h)"

text \<open>\<open>while (ext != NULL) { body; ext = ext->next; }\<close>\<close>

fun each_extension :: "nat \<Rightarrow> (addr \<Rightarrow> heap \<Rightarrow> 'f heap_res) \<Rightarrow> addr \<Rightarrow> heap \<Rightarrow> 'f heap_res" where
  "each_extension 0 body ext h = (if ext = 0 then Ok h else Timeout)"
| "each_extension (Suc k) body ext h =
     (if ext = 0 then Ok h
      else andThen (body ext h) (\<lambda>h.
        access (load_ptr h (extension_next ext)) (\<lambda>next.
          each_extension k body next h)))"

definition iter_from_extension :: "(addr \<Rightarrow> pb_field list) \<Rightarrow> heap \<Rightarrow> addr \<Rightarrow> pb_field_iter option" where
  "iter_from_extension D h extension =
     (case load_ptr h (extension_type extension) of None \<Rightarrow> None
      | Some type \<Rightarrow>
     (case load_ptr h (ext_type_arg type) of None \<Rightarrow> None
      | Some arg \<Rightarrow>
     (case load_ptr h (extension_dest extension) of None \<Rightarrow> None
      | Some dest \<Rightarrow>
         let iter = snd (pb_field_iter_begin (D arg) dest);
             iter = iter\<lparr>pData := dest, pSize := extension_found extension\<rparr>
         in Some (if PB_ATYPE (fld_type (field_at (D arg) 0)) = PB_ATYPE_POINTER
                  then iter\<lparr>pData := extension_dest extension\<rparr> else iter))))"

section \<open>Default values\<close>

primrec pb_field_set_to_default ::
  "(addr \<Rightarrow> pb_field list) \<Rightarrow> (pb_field list \<Rightarrow> addr \<Rightarrow> heap \<Rightarrow> 'f heap_res) \<Rightarrow> nat \<Rightarrow>
   pb_field_iter \<Rightarrow> heap \<Rightarrow> 'f heap_res" where
  "pb_field_set_to_default D msg_defaults 0 = (\<lambda>iter h. Timeout)"
| "pb_field_set_to_default D msg_defaults (Suc n) = (\<lambda>iter h.
     let f = it_field iter; type = fld_type f in
     if PB_LTYPE type = PB_LTYPE_EXTENSION
     then access (load_ptr h (pData iter)) (\<lambda>ext.
       each_extension n (\<lambda>ext h.
         access (store_bool h (extension_found ext) False) (\<lambda>h.
         access (iter_from_extension D h ext) (\<lambda>ext_iter.
           pb_field_set_to_default D msg_defaults n ext_iter h))) ext h)
     else if PB_ATYPE type = PB_ATYPE_STATIC
     then andThen
       (if PB_HTYPE type = PB_HTYPE_OPTIONAL \<and> pSize iter \<noteq> pData iter
        then access (store_bool h (pSize iter) False) (\<lambda>h. Ok (True, h))
        else if PB_HTYPE type = PB_HTYPE_REPEATED \<or> PB_HTYPE type = PB_HTYPE_ONEOF
        then access (store_u32 h (pSize iter) 0) (\<lambda>h. Ok (False, h))
        else Ok (True, h))
       (\<lambda>(init_data, h).
         if \<not> init_data then Ok h
         else if PB_LTYPE type = PB_LTYPE_SUBMESSAGE
         then (case fld_ptr f of PtrFields fs \<Rightarrow> msg_defaults fs (pData iter) h | _ \<Rightarrow> Undef)
         else (case fld_ptr f of
             PtrNull \<Rightarrow> access (fill_zero h (pData iter) (unat (data_size f))) Ok
           | PtrDefault bs \<Rightarrow> access (store_prefix h (pData iter) bs (unat (data_size f))) Ok
           | PtrFields fs \<Rightarrow> Undef))
     else if PB_ATYPE type = PB_ATYPE_POINTER
     then access (store_ptr h (pData iter) 0) (\<lambda>h.
       if PB_HTYPE type = PB_HTYPE_REPEATED \<or> PB_HTYPE type = PB_HTYPE_ONEOF
       then access (store_u32 h (pSize iter) 0) Ok
       else Ok h)
     else Ok h)"

primrec pb_message_set_to_defaults ::
  "(addr \<Rightarrow> pb_field list) \<Rightarrow> nat \<Rightarrow> pb_field list \<Rightarrow> addr \<Rightarrow> heap \<Rightarrow> 'f heap_res" where
  "pb_message_set_to_defaults D 0 = (\<lambda>fs dest h. Timeout)"
| "pb_message_set_to_defaults D (Suc n) = (\<lambda>fs dest h.
     let (nonempty, iter) = pb_field_iter_begin fs dest in
     if \<not> nonempty then Ok h
     else each_field (Suc (length fs))
            (pb_field_set_to_default D (pb_message_set_to_defaults D n) (Suc n)) iter h)"

section \<open>Allocation\<close>

text \<open>\<open>allocate_field\<close>: the message of the error it reports, or the heap with the pointer at
  \<open>pd\<close> set to the storage.\<close>

definition allocate_field :: "heap \<Rightarrow> addr \<Rightarrow> size_t \<Rightarrow> size_t \<Rightarrow> (heap, string) res" where
  "allocate_field h pd elem_size elem_count =
     access (load_ptr h pd) (\<lambda>ptr.
       if elem_size = 0 \<or> elem_count = 0 then Fail ''invalid size''
       else
         let check_limit = 2 ^ 32 in
         if (check_limit \<le> elem_size \<or> check_limit \<le> elem_count)
            \<and> size_max div elem_count < elem_size
         then Fail ''size too large''
         else access (pb_realloc h ptr (elem_count * elem_size mod 2 ^ 64)) (\<lambda>(ptr, h).
           if ptr = 0 then Fail ''realloc failed''
           else access (store_ptr h pd ptr) Ok))"

definition initialize_pointer_field ::
  "(pb_field list \<Rightarrow> addr \<Rightarrow> heap \<Rightarrow> 'f heap_res) \<Rightarrow> addr \<Rightarrow> pb_field \<Rightarrow> heap \<Rightarrow> 'f heap_res" where
  "initialize_pointer_field msg_defaults pItem f h =
     (if PB_LTYPE (fld_type f) = PB_LTYPE_STRING \<or> PB_LTYPE (fld_type f) = PB_LTYPE_BYTES
      then access (store_ptr h pItem 0) Ok
      else if PB_LTYPE (fld_type f) = PB_LTYPE_SUBMESSAGE
      then access (fill_zero h pItem (unat (data_size f))) (\<lambda>h.
        case fld_ptr f of PtrFields fs \<Rightarrow> msg_defaults fs pItem h | _ \<Rightarrow> Undef)
      else Ok h)"

section \<open>Release\<close>

text \<open>\<open>while (count--) { pb_release(fields, pItem); pItem += data_size; }\<close>\<close>

fun release_items :: "(addr \<Rightarrow> heap \<Rightarrow> 'f heap_res) \<Rightarrow> nat \<Rightarrow> addr \<Rightarrow> nat \<Rightarrow> heap \<Rightarrow> 'f heap_res" where
  "release_items rel 0 pItem step h = Ok h"
| "release_items rel (Suc count) pItem step h =
     andThen (rel pItem h) (\<lambda>h. release_items rel count (pItem + int step) step h)"

text \<open>\<open>while (count--) { pb_free(*pItem); *pItem++ = NULL; }\<close>\<close>

fun free_entries :: "nat \<Rightarrow> addr \<Rightarrow> heap \<Rightarrow> 'f heap_res" where
  "free_entries 0 pItem h = Ok h"
| "free_entries (Suc count) pItem h =
     access (load_ptr h pItem) (\<lambda>p.
     access (pb_free h p) (\<lambda>h.
     access (store_ptr h pItem 0) (\<lambda>h. free_entries count (pItem + 8) h)))"

text \<open>How many items \<open>pb_release_single_field\<close> finds in a submessage field.\<close>

definition release_count :: "pb_field_iter \<Rightarrow> heap \<Rightarrow> pb_size_t option" where
  "release_count iter h =
     (let f = it_field iter; type = fld_type f in
      if PB_HTYPE type \<noteq> PB_HTYPE_REPEATED then Some 1
      else
        (case (if PB_ATYPE type = PB_ATYPE_STATIC \<and> pSize iter = pData iter
               then Some (array_size f) else load_u32 h (pSize iter)) of
           None \<Rightarrow> None
         | Some count \<Rightarrow>
             if PB_ATYPE type = PB_ATYPE_STATIC \<and> array_size f < count
             then Some (array_size f) else Some count))"

text \<open>The last part of \<open>pb_release_single_field\<close>: a pointer field and its entries are freed.\<close>

definition release_pointer :: "pb_field_iter \<Rightarrow> heap \<Rightarrow> 'f heap_res" where
  "release_pointer iter h =
     (let type = fld_type (it_field iter) in
      if PB_ATYPE type \<noteq> PB_ATYPE_POINTER then Ok h
      else
        andThen
          (if PB_HTYPE type = PB_HTYPE_REPEATED
              \<and> (PB_LTYPE type = PB_LTYPE_STRING \<or> PB_LTYPE type = PB_LTYPE_BYTES)
           then access (load_ptr h (pData iter)) (\<lambda>pItem.
             access (load_u32 h (pSize iter)) (\<lambda>count. free_entries (unat count) pItem h))
           else Ok h)
          (\<lambda>h. andThen
            (if PB_HTYPE type = PB_HTYPE_REPEATED
             then access (store_u32 h (pSize iter) 0) Ok else Ok h)
            (\<lambda>h. access (load_ptr h (pData iter)) (\<lambda>p.
                 access (pb_free h p) (\<lambda>h. access (store_ptr h (pData iter) 0) Ok)))))"

primrec pb_release_single_field ::
  "(addr \<Rightarrow> pb_field list) \<Rightarrow> (pb_field list \<Rightarrow> addr \<Rightarrow> heap \<Rightarrow> 'f heap_res) \<Rightarrow> nat \<Rightarrow>
   pb_field_iter \<Rightarrow> heap \<Rightarrow> 'f heap_res" where
  "pb_release_single_field D release 0 = (\<lambda>iter h. Timeout)"
| "pb_release_single_field D release (Suc n) = (\<lambda>iter h.
     let f = it_field iter; type = fld_type f in
     access (if PB_HTYPE type = PB_HTYPE_ONEOF
             then map_option (\<lambda>which. which \<noteq> fld_tag f) (load_u32 h (pSize iter))
             else Some False)
     (\<lambda>other_field.
       if other_field then Ok h
       else andThen
         (if PB_LTYPE type = PB_LTYPE_EXTENSION
          then access (load_ptr h (pData iter)) (\<lambda>ext.
            each_extension n (\<lambda>ext h.
              access (iter_from_extension D h ext) (\<lambda>ext_iter.
                pb_release_single_field D release n ext_iter h)) ext h)
          else if PB_LTYPE type = PB_LTYPE_SUBMESSAGE \<and> PB_ATYPE type \<noteq> PB_ATYPE_CALLBACK
          then access (if PB_ATYPE type = PB_ATYPE_POINTER then load_ptr h (pData iter)
                       else Some (pData iter)) (\<lambda>pItem.
            access (release_count iter h) (\<lambda>count.
              if pItem = 0 then Ok h
              else case fld_ptr f of
                  PtrFields fs \<Rightarrow> release_items (release fs) (unat count) pItem (unat (data_size f)) h
                | _ \<Rightarrow> if count = 0 then Ok h else Undef))
          else Ok h)
         (release_pointer iter)))"

primrec pb_release ::
  "(addr \<Rightarrow> pb_field list) \<Rightarrow> nat \<Rightarrow> pb_field list \<Rightarrow> addr \<Rightarrow> heap \<Rightarrow> 'f heap_res" where
  "pb_release D 0 = (\<lambda>fs dest h. Timeout)"
| "pb_release D (Suc n) = (\<lambda>fs dest h.
     if dest = 0 then Ok h
     else
       let (nonempty, iter) = pb_field_iter_begin fs dest in
       if \<not> nonempty then Ok h
       else each_field (Suc (length fs))
              (pb_release_single_field D (pb_release D n) (Suc n)) iter h)"

text \<open>\<open>pb_release_union_field\<close> moves the iterator; a failure is its error message.\<close>

definition pb_release_union_field ::
  "(addr \<Rightarrow> pb_field list) \<Rightarrow> nat \<Rightarrow> pb_field_iter \<Rightarrow> heap \<Rightarrow> (pb_field_iter \<times> heap, string) res" where
  "pb_release_union_field D n iter h =
     access (load_u32 h (pSize iter)) (\<lambda>old_tag.
       let new_tag = fld_tag (it_field iter) in
       if old_tag = 0 then Ok (iter, h)
       else if old_tag = new_tag then Ok (iter, h)
       else
         let (found, iter) = pb_field_iter_find iter old_tag in
         if \<not> found then Fail ''invalid union tag''
         else andThen (pb_release_single_field D (pb_release D n) (Suc n) iter h) (\<lambda>h.
           let (found, iter) = pb_field_iter_find iter new_tag in
           if \<not> found then Fail ''iterator error'' else Ok (iter, h)))"

end
