(* ===== verification/Pb_Decode.thy ===== *)
theory Pb_Decode
  imports Pb_Istream Pb_Lifecycle
begin

text \<open>
  \<open>nanopb/pb_decode.c\<close>: decoding of fields and of messages.  A decoding function works on a
  stream and on the heap and leaves both, whether it returns true (\<open>Ok\<close>) or false (\<open>Fail\<close>).  The
  functions behind the pointers \<open>funcs.decode\<close> and \<open>extension->type->decode\<close> are not part of the
  library: they are the components of a \<open>dec_env\<close>, indexed by the value of the pointer.  Inside
  \<open>pb_decode_noinit\<close> with fuel \<open>Suc n\<close> every nested message is decoded with fuel \<open>n\<close>, through the
  argument \<open>noinit\<close> of the functions below.
\<close>

type_synonym 'u dec = "('u pb_istream \<times> heap, 'u pb_istream \<times> heap) res"

type_synonym 'u decoder = "'u pb_istream \<Rightarrow> heap \<Rightarrow> pb_field \<Rightarrow> addr \<Rightarrow> 'u dec"

type_synonym 'u msg_decoder = "'u pb_istream \<Rightarrow> heap \<Rightarrow> pb_field list \<Rightarrow> addr \<Rightarrow> 'u dec"

record 'u dec_env =
  field_array :: "addr \<Rightarrow> pb_field list"
  decode_cb :: "addr \<Rightarrow> 'u pb_istream \<Rightarrow> heap \<Rightarrow> pb_field \<Rightarrow> addr \<Rightarrow> 'u dec"
  ext_decode :: "addr \<Rightarrow> 'u pb_istream \<Rightarrow> heap \<Rightarrow> addr \<Rightarrow> uint32 \<Rightarrow> pb_wire_type \<Rightarrow> 'u dec"

section \<open>Helpers\<close>

text \<open>\<open>pb_read(stream, dest, n)\<close> into memory.\<close>

definition read_into :: "'u pb_istream \<Rightarrow> heap \<Rightarrow> addr \<Rightarrow> size_t \<Rightarrow> 'u dec" where
  "read_into s h dest n =
     andThen (onStream (pb_read False s n) h) (\<lambda>(bytes, s, h).
       access (store_bytes h dest bytes) (\<lambda>h. Ok (s, h)))"

text \<open>\<open>if (!pb_close_string_substream(stream, &substream)) return false; return status;\<close>\<close>

definition close_with :: "bool \<Rightarrow> 'u pb_istream \<Rightarrow> 'u pb_istream \<Rightarrow> heap \<Rightarrow> 'u dec" where
  "close_with status s sub h =
     andThen (onStream (pb_close_string_substream s sub) h) (\<lambda>(_, s, h).
       if status then Ok (s, h) else Fail (s, h))"

definition status_of :: "'a + 'a \<Rightarrow> bool \<times> 'a" where
  "status_of r = (case r of Inl a \<Rightarrow> (True, a) | Inr a \<Rightarrow> (False, a))"

definition skip_field :: "'u pb_istream \<Rightarrow> heap \<Rightarrow> pb_wire_type \<Rightarrow> 'u dec" where
  "skip_field s h wire_type =
     andThen (onStream (pb_skip_field s wire_type) h) (\<lambda>(_, s, h). Ok (s, h))"

section \<open>Field decoders\<close>

definition pb_dec_bool :: "'u decoder" where
  "pb_dec_bool s h f dest =
     andThen (onStream (pb_decode_varint32 s) h) (\<lambda>(value, s, h).
       access (store_bool h dest (value \<noteq> 0)) (\<lambda>h. Ok (s, h)))"

definition pb_decode_bool :: "'u pb_istream \<Rightarrow> heap \<Rightarrow> addr \<Rightarrow> 'u dec" where
  "pb_decode_bool s h dest = pb_dec_bool s h PB_LAST_FIELD dest"

text \<open>The value a field of the given size can hold, as the 64-bit integer the code compares; no
  size but 8, 4, 2 and 1 is accepted.\<close>

definition clamp_signed :: "pb_size_t \<Rightarrow> uint64 \<Rightarrow> uint64 option" where
  "clamp_signed sz v =
     (if sz = 8 then Some v
      else if sz = 4 then Some (scast (ucast v :: 32 word))
      else if sz = 2 then Some (scast (ucast v :: 16 word))
      else if sz = 1 then Some (scast (ucast v :: 8 word))
      else None)"

definition clamp_unsigned :: "pb_size_t \<Rightarrow> uint64 \<Rightarrow> uint64 option" where
  "clamp_unsigned sz v =
     (if sz = 8 then Some v
      else if sz = 4 then Some (ucast (ucast v :: 32 word))
      else if sz = 2 then Some (ucast (ucast v :: 16 word))
      else if sz = 1 then Some (ucast (ucast v :: 8 word))
      else None)"

text \<open>\<open>clamped = *(T*)dest = (T)value; if (clamped != value) ...\<close>\<close>

definition store_clamped :: "uint64 option \<Rightarrow> uint64 \<Rightarrow> 'u decoder" where
  "store_clamped clamped v s h f dest =
     (case clamped of
        None \<Rightarrow> Fail (i_error s ''invalid data_size'', h)
      | Some c \<Rightarrow> access (store_nat h (unat (data_size f)) dest (unat c)) (\<lambda>h.
          if c \<noteq> v then Fail (i_error s ''integer too large'', h) else Ok (s, h)))"

definition pb_dec_varint :: "'u decoder" where
  "pb_dec_varint s h f dest =
     andThen (onStream (pb_decode_varint s) h) (\<lambda>(value, s, h).
       let svalue = (if data_size f = 8 then value else scast (ucast value :: 32 word))
       in store_clamped (clamp_signed (data_size f) svalue) svalue s h f dest)"

definition pb_dec_uvarint :: "'u decoder" where
  "pb_dec_uvarint s h f dest =
     andThen (onStream (pb_decode_varint s) h) (\<lambda>(value, s, h).
       store_clamped (clamp_unsigned (data_size f) value) value s h f dest)"

definition pb_dec_svarint :: "'u decoder" where
  "pb_dec_svarint s h f dest =
     andThen (onStream (pb_decode_svarint s) h) (\<lambda>(value, s, h).
       store_clamped (clamp_signed (data_size f) value) value s h f dest)"

definition pb_dec_fixed32 :: "'u decoder" where
  "pb_dec_fixed32 s h f dest =
     andThen (onStream (pb_decode_fixed32 s) h) (\<lambda>(value, s, h).
       access (store_u32 h dest value) (\<lambda>h. Ok (s, h)))"

definition pb_dec_fixed64 :: "'u decoder" where
  "pb_dec_fixed64 s h f dest =
     andThen (onStream (pb_decode_fixed64 s) h) (\<lambda>(value, s, h).
       access (store_nat h 8 dest (unat value)) (\<lambda>h. Ok (s, h)))"

definition pb_dec_bytes :: "'u decoder" where
  "pb_dec_bytes s h f dest =
     andThen (onStream (pb_decode_varint32 s) h) (\<lambda>(size, s, h).
       if PB_SIZE_MAX < size then Fail (i_error s ''bytes overflow'', h)
       else
         let alloc_size = PB_BYTES_ARRAY_T_ALLOCSIZE (unat size) in
         if alloc_size < unat size then Fail (i_error s ''size too large'', h)
         else andThen
           (if PB_ATYPE (fld_type f) = PB_ATYPE_POINTER
            then andThen (mapFail (\<lambda>msg. (i_error s msg, h)) (allocate_field h dest alloc_size 1))
                   (\<lambda>h. access (load_ptr h dest) (\<lambda>bdest. Ok (bdest, h)))
            else if unat (data_size f) < alloc_size then Fail (i_error s ''bytes overflow'', h)
            else Ok (dest, h))
           (\<lambda>(bdest, h).
             access (store_u32 h (bytes_array_size bdest) size) (\<lambda>h.
               read_into s h (bytes_array_bytes bdest) (unat size))))"

definition pb_dec_string :: "'u decoder" where
  "pb_dec_string s h f dest =
     andThen (onStream (pb_decode_varint32 s) h) (\<lambda>(size, s, h).
       let alloc_size = unat (size + 1) in
       if alloc_size < unat size then Fail (i_error s ''size too large'', h)
       else andThen
         (if PB_ATYPE (fld_type f) = PB_ATYPE_POINTER
          then andThen (mapFail (\<lambda>msg. (i_error s msg, h)) (allocate_field h dest alloc_size 1))
                 (\<lambda>h. access (load_ptr h dest) (\<lambda>dest. Ok (dest, h)))
          else if unat (data_size f) < alloc_size then Fail (i_error s ''string overflow'', h)
          else Ok (dest, h))
         (\<lambda>(dest, h).
           withStatus (read_into s h dest (unat size)) (\<lambda>r.
             let (status, s, h) = status_of r in
             access (store_bytes h (dest + uint size) [0]) (\<lambda>h.
               if status then Ok (s, h) else Fail (s, h)))))"

definition pb_dec_fixed_length_bytes :: "'u decoder" where
  "pb_dec_fixed_length_bytes s h f dest =
     andThen (onStream (pb_decode_varint32 s) h) (\<lambda>(size, s, h).
       if PB_SIZE_MAX < size then Fail (i_error s ''bytes overflow'', h)
       else if size = 0
       then access (fill_zero h dest (unat (data_size f))) (\<lambda>h. Ok (s, h))
       else if size \<noteq> data_size f
       then Fail (i_error s ''incorrect fixed length bytes size'', h)
       else read_into s h dest (unat (data_size f)))"

text \<open>\<open>pb_decode\<close>, over the function that decodes a message without initialising it.\<close>

definition pb_decode_with :: "'u dec_env \<Rightarrow> nat \<Rightarrow> 'u msg_decoder \<Rightarrow> 'u msg_decoder" where
  "pb_decode_with env n noinit s h fs dest =
     andThen (pb_message_set_to_defaults (field_array env) n fs dest h) (\<lambda>h.
       withStatus (noinit s h fs dest) (\<lambda>r.
         let (status, s, h) = status_of r in
         if status then Ok (s, h)
         else andThen (pb_release (field_array env) n fs dest h) (\<lambda>h. Fail (s, h))))"

definition pb_dec_submessage :: "'u dec_env \<Rightarrow> nat \<Rightarrow> 'u msg_decoder \<Rightarrow> 'u decoder" where
  "pb_dec_submessage env n noinit s h f dest =
     andThen (onStream (pb_make_string_substream s) h) (\<lambda>(sub, s, h).
       case fld_ptr f of
         PtrNull \<Rightarrow> Fail (i_error s ''invalid field descriptor'', h)
       | PtrDefault bs \<Rightarrow> Undef
       | PtrFields submsg_fields \<Rightarrow>
           withStatus
             (if PB_HTYPE (fld_type f) = PB_HTYPE_REPEATED
              then pb_decode_with env n noinit sub h submsg_fields dest
              else noinit sub h submsg_fields dest)
             (\<lambda>r. let (status, sub, h) = status_of r in close_with status s sub h))"

text \<open>The table of decoders; calling a null entry, or one past the end, is undefined.\<close>

definition PB_DECODERS :: "'u dec_env \<Rightarrow> nat \<Rightarrow> 'u msg_decoder \<Rightarrow> pb_type_t \<Rightarrow> 'u decoder" where
  "PB_DECODERS env n noinit ltype =
     (if ltype = PB_LTYPE_BOOL then pb_dec_bool
      else if ltype = PB_LTYPE_VARINT then pb_dec_varint
      else if ltype = PB_LTYPE_UVARINT then pb_dec_uvarint
      else if ltype = PB_LTYPE_SVARINT then pb_dec_svarint
      else if ltype = PB_LTYPE_FIXED32 then pb_dec_fixed32
      else if ltype = PB_LTYPE_FIXED64 then pb_dec_fixed64
      else if ltype = PB_LTYPE_BYTES then pb_dec_bytes
      else if ltype = PB_LTYPE_STRING then pb_dec_string
      else if ltype = PB_LTYPE_SUBMESSAGE then pb_dec_submessage env n noinit
      else if ltype = PB_LTYPE_FIXED_LENGTH_BYTES then pb_dec_fixed_length_bytes
      else (\<lambda>s h f dest. Undef))"

section \<open>A single field\<close>

text \<open>The loops over packed arrays.  Their result is the status, the substream and the heap; the
  bound is one more than the bytes of the substream.\<close>

fun static_packed :: "nat \<Rightarrow> 'u decoder \<Rightarrow> pb_field_iter \<Rightarrow> 'u pb_istream \<Rightarrow> heap \<Rightarrow>
    (bool \<times> 'u pb_istream \<times> heap, 'f) res" where
  "static_packed 0 func iter sub h = Timeout"
| "static_packed (Suc k) func iter sub h =
     (let f = it_field iter in
      if bytes_left sub = 0 then Ok (True, sub, h)
      else access (load_u32 h (pSize iter)) (\<lambda>size.
        if size < array_size f
        then withStatus (func sub h f (pData iter + uint (data_size f * size))) (\<lambda>r.
          let (status, sub, h) = status_of r in
          if \<not> status then Ok (False, sub, h)
          else access (load_u32 h (pSize iter)) (\<lambda>size.
            access (store_u32 h (pSize iter) (size + 1)) (\<lambda>h.
              static_packed k func iter sub h)))
        else Ok (True, sub, h)))"

definition decode_static_field :: "'u dec_env \<Rightarrow> nat \<Rightarrow> 'u msg_decoder \<Rightarrow>
    'u pb_istream \<Rightarrow> heap \<Rightarrow> pb_wire_type \<Rightarrow> pb_field_iter \<Rightarrow> 'u dec" where
  "decode_static_field env n noinit s h wire_type iter =
     (let f = it_field iter; type = fld_type f; func = PB_DECODERS env n noinit (PB_LTYPE type) in
      if PB_HTYPE type = PB_HTYPE_REQUIRED then func s h f (pData iter)
      else if PB_HTYPE type = PB_HTYPE_OPTIONAL
      then access (if pSize iter \<noteq> pData iter then store_bool h (pSize iter) True else Some h)
             (\<lambda>h. func s h f (pData iter))
      else if PB_HTYPE type = PB_HTYPE_REPEATED
      then
        if wire_type = PB_WT_STRING \<and> PB_LTYPE type \<le> PB_LTYPE_LAST_PACKABLE
        then andThen (onStream (pb_make_string_substream s) h) (\<lambda>(sub, s, h).
          andThen (static_packed (Suc (bytes_left sub)) func iter sub h) (\<lambda>(status, sub, h).
            if bytes_left sub \<noteq> 0 then Fail (i_error s ''array overflow'', h)
            else close_with status s sub h))
        else access (load_u32 h (pSize iter)) (\<lambda>size.
          let pItem = pData iter + uint (data_size f * size) in
          access (store_u32 h (pSize iter) (size + 1)) (\<lambda>h.
            if array_size f \<le> size then Fail (i_error s ''array overflow'', h)
            else func s h f pItem))
      else if PB_HTYPE type = PB_HTYPE_ONEOF
      then access (if PB_LTYPE type = PB_LTYPE_SUBMESSAGE
                   then map_option (\<lambda>which. which \<noteq> fld_tag f) (load_u32 h (pSize iter))
                   else Some False) (\<lambda>init.
        andThen
          (if init
           then access (fill_zero h (pData iter) (unat (data_size f))) (\<lambda>h.
             case fld_ptr f of
               PtrFields fs \<Rightarrow> pb_message_set_to_defaults (field_array env) n fs (pData iter) h
             | _ \<Rightarrow> Undef)
           else Ok h)
          (\<lambda>h. access (store_u32 h (pSize iter) (fld_tag f)) (\<lambda>h. func s h f (pData iter))))
      else Fail (i_error s ''invalid field type'', h))"

text \<open>How the loop over a packed array behind a pointer ends: all entries read, an entry that
  failed, or the counter at its maximum.\<close>

datatype packed_end = Packed_done | Packed_failed | Packed_too_many

fun pointer_packed :: "nat \<Rightarrow> 'u decoder \<Rightarrow> (addr \<Rightarrow> pb_field \<Rightarrow> heap \<Rightarrow> (heap, 'f) res) \<Rightarrow>
    pb_field_iter \<Rightarrow> size_t \<Rightarrow> 'u pb_istream \<Rightarrow> heap \<Rightarrow> (packed_end \<times> 'u pb_istream \<times> heap, 'f) res" where
  "pointer_packed 0 func init iter allocated_size sub h = Timeout"
| "pointer_packed (Suc k) func init iter allocated_size sub h =
     (let f = it_field iter in
      if bytes_left sub = 0 then Ok (Packed_done, sub, h)
      else access (load_u32 h (pSize iter)) (\<lambda>size.
        if size = PB_SIZE_MAX then Ok (Packed_too_many, sub, h)
        else if allocated_size < unat size + 1 \<and> data_size f = 0 then Undef
        else
          let remain = (bytes_left sub - 1) div unat (data_size f) + 1;
              grow = allocated_size < unat size + 1;
              allocated_size =
                (if \<not> grow then allocated_size
                 else if remain < unat PB_SIZE_MAX - allocated_size
                 then allocated_size + remain else allocated_size + 1)
          in withStatus
              (if grow
               then mapFail (\<lambda>msg. (i_error sub msg, h))
                      (allocate_field h (pData iter) (unat (data_size f)) allocated_size)
               else Ok h)
              (\<lambda>r. case r of
                 Inr (sub, h) \<Rightarrow> Ok (Packed_failed, sub, h)
               | Inl h \<Rightarrow>
                   access (load_ptr h (pData iter)) (\<lambda>items.
                   access (load_u32 h (pSize iter)) (\<lambda>size.
                     let pItem = items + uint (data_size f * size) in
                     andThen (init pItem f h) (\<lambda>h.
                       withStatus (func sub h f pItem) (\<lambda>r.
                         let (status, sub, h) = status_of r in
                         if \<not> status then Ok (Packed_failed, sub, h)
                         else access (load_u32 h (pSize iter)) (\<lambda>size.
                           access (store_u32 h (pSize iter) (size + 1)) (\<lambda>h.
                             pointer_packed k func init iter allocated_size sub h)))))))))"

definition decode_pointer_field :: "'u dec_env \<Rightarrow> nat \<Rightarrow> 'u msg_decoder \<Rightarrow>
    'u pb_istream \<Rightarrow> heap \<Rightarrow> pb_wire_type \<Rightarrow> pb_field_iter \<Rightarrow> 'u dec" where
  "decode_pointer_field env n noinit s h wire_type iter =
     (let f = it_field iter; type = fld_type f; func = PB_DECODERS env n noinit (PB_LTYPE type);
          init = initialize_pointer_field (pb_message_set_to_defaults (field_array env) n) in
      if PB_HTYPE type = PB_HTYPE_REQUIRED \<or> PB_HTYPE type = PB_HTYPE_OPTIONAL
         \<or> PB_HTYPE type = PB_HTYPE_ONEOF
      then
        access (if PB_LTYPE type = PB_LTYPE_SUBMESSAGE
                then map_option (\<lambda>p. p \<noteq> 0) (load_ptr h (pData iter)) else Some False) (\<lambda>duplicate.
        andThen (if duplicate
                 then pb_release_single_field (field_array env) (pb_release (field_array env) n)
                        (Suc n) iter h
                 else Ok h) (\<lambda>h.
        access (if PB_HTYPE type = PB_HTYPE_ONEOF then store_u32 h (pSize iter) (fld_tag f)
                else Some h) (\<lambda>h.
          if PB_LTYPE type = PB_LTYPE_STRING \<or> PB_LTYPE type = PB_LTYPE_BYTES
          then func s h f (pData iter)
          else
            andThen (mapFail (\<lambda>msg. (i_error s msg, h))
                       (allocate_field h (pData iter) (unat (data_size f)) 1)) (\<lambda>h.
            access (load_ptr h (pData iter)) (\<lambda>pItem.
            andThen (init pItem f h) (\<lambda>h. func s h f pItem))))))
      else if PB_HTYPE type = PB_HTYPE_REPEATED
      then
        if wire_type = PB_WT_STRING \<and> PB_LTYPE type \<le> PB_LTYPE_LAST_PACKABLE
        then access (load_u32 h (pSize iter)) (\<lambda>size.
          andThen (onStream (pb_make_string_substream s) h) (\<lambda>(sub, s, h).
            andThen (pointer_packed (Suc (bytes_left sub)) func init iter (unat size) sub h)
              (\<lambda>(pend, sub, h).
                close_with (pend = Packed_done)
                  (if pend = Packed_too_many then s\<lparr>i_errmsg := Some ''too many array entries''\<rparr>
                   else s) sub h)))
        else access (load_u32 h (pSize iter)) (\<lambda>size.
          if size = PB_SIZE_MAX then Fail (i_error s ''too many array entries'', h)
          else
            andThen (mapFail (\<lambda>msg. (i_error s msg, h))
                       (allocate_field h (pData iter) (unat (data_size f)) (unat (size + 1)))) (\<lambda>h.
            access (load_ptr h (pData iter)) (\<lambda>items.
            access (load_u32 h (pSize iter)) (\<lambda>size.
              let pItem = items + uint (data_size f * size) in
              access (store_u32 h (pSize iter) (size + 1)) (\<lambda>h.
              andThen (init pItem f h) (\<lambda>h. func s h f pItem))))))
      else Fail (i_error s ''invalid field type'', h))"

text \<open>The loop over the callback of a length-delimited field; a callback that never consumes its
  input would be called for ever.\<close>

fun callback_loop :: "nat \<Rightarrow> 'u dec_env \<Rightarrow> pb_field_iter \<Rightarrow> 'u pb_istream \<Rightarrow> heap \<Rightarrow>
    ('u pb_istream \<times> heap, heap) res" where
  "callback_loop 0 env iter sub h = Timeout"
| "callback_loop (Suc k) env iter sub h =
     access (load_ptr h (callback_funcs (pData iter))) (\<lambda>fn.
       if fn = 0 then Undef
       else andThen (mapFail snd (decode_cb env fn sub h (it_field iter) (callback_arg (pData iter))))
         (\<lambda>(sub, h). if bytes_left sub \<noteq> 0 then callback_loop k env iter sub h else Ok (sub, h)))"

definition decode_callback_field :: "'u dec_env \<Rightarrow> nat \<Rightarrow>
    'u pb_istream \<Rightarrow> heap \<Rightarrow> pb_wire_type \<Rightarrow> pb_field_iter \<Rightarrow> 'u dec" where
  "decode_callback_field env n s h wire_type iter =
     (if pData iter = 0 then skip_field s h wire_type
      else access (load_ptr h (callback_funcs (pData iter))) (\<lambda>fn.
        if fn = 0 then skip_field s h wire_type
        else if wire_type = PB_WT_STRING
        then andThen (onStream (pb_make_string_substream s) h) (\<lambda>(sub, s, h).
          andThen (mapFail (\<lambda>h. (i_error s ''callback failed'', h))
                     (callback_loop (n + Suc (bytes_left sub)) env iter sub h))
            (\<lambda>(sub, h). close_with True s sub h))
        else andThen (onStream (read_raw_value s wire_type 10) h) (\<lambda>(buffer, s, h).
          withStatus (decode_cb env fn (pb_istream_from_buffer buffer (length buffer)) h
                        (it_field iter) (callback_arg (pData iter))) (\<lambda>r.
            let (status, sub, h) = status_of r in if status then Ok (s, h) else Fail (s, h)))))"

text \<open>\<open>decode_field\<close> may move the iterator, so it returns it.\<close>

definition decode_field :: "'u dec_env \<Rightarrow> nat \<Rightarrow> 'u msg_decoder \<Rightarrow>
    'u pb_istream \<Rightarrow> heap \<Rightarrow> pb_wire_type \<Rightarrow> pb_field_iter \<Rightarrow>
    (pb_field_iter \<times> 'u pb_istream \<times> heap, 'u pb_istream \<times> heap) res" where
  "decode_field env n noinit s h wire_type iter =
     andThen
       (if PB_HTYPE (fld_type (it_field iter)) = PB_HTYPE_ONEOF
        then mapFail (\<lambda>msg. (i_error s msg, h)) (pb_release_union_field (field_array env) n iter h)
        else Ok (iter, h))
       (\<lambda>(iter, h).
         let atype = PB_ATYPE (fld_type (it_field iter)) in
         andThen
           (if atype = PB_ATYPE_STATIC then decode_static_field env n noinit s h wire_type iter
            else if atype = PB_ATYPE_POINTER then decode_pointer_field env n noinit s h wire_type iter
            else if atype = PB_ATYPE_CALLBACK then decode_callback_field env n s h wire_type iter
            else Fail (i_error s ''invalid field type'', h))
           (\<lambda>(s, h). Ok (iter, s, h)))"

section \<open>Extensions\<close>

definition default_extension_decoder :: "'u dec_env \<Rightarrow> nat \<Rightarrow> 'u msg_decoder \<Rightarrow>
    'u pb_istream \<Rightarrow> heap \<Rightarrow> addr \<Rightarrow> uint32 \<Rightarrow> pb_wire_type \<Rightarrow> 'u dec" where
  "default_extension_decoder env n noinit s h extension tag wire_type =
     access (load_ptr h (extension_type extension)) (\<lambda>type.
     access (load_ptr h (ext_type_arg type)) (\<lambda>arg.
       if fld_tag (field_at (field_array env arg) 0) \<noteq> tag then Ok (s, h)
       else access (iter_from_extension (field_array env) h extension) (\<lambda>iter.
         access (store_bool h (extension_found extension) True) (\<lambda>h.
           andThen (decode_field env n noinit s h wire_type iter) (\<lambda>(_, s, h). Ok (s, h))))))"

fun extension_loop :: "nat \<Rightarrow> 'u dec_env \<Rightarrow> nat \<Rightarrow> 'u msg_decoder \<Rightarrow> size_t \<Rightarrow>
    'u pb_istream \<Rightarrow> heap \<Rightarrow> addr \<Rightarrow> uint32 \<Rightarrow> pb_wire_type \<Rightarrow> 'u dec" where
  "extension_loop 0 env n noinit pos s h extension tag wire_type =
     (if extension \<noteq> 0 \<and> pos = bytes_left s then Timeout else Ok (s, h))"
| "extension_loop (Suc k) env n noinit pos s h extension tag wire_type =
     (if \<not> (extension \<noteq> 0 \<and> pos = bytes_left s) then Ok (s, h)
      else
        access (load_ptr h (extension_type extension)) (\<lambda>type.
        access (load_ptr h (ext_type_decode type)) (\<lambda>decode.
        andThen
          (if decode \<noteq> 0 then ext_decode env decode s h extension tag wire_type
           else default_extension_decoder env n noinit s h extension tag wire_type)
          (\<lambda>(s, h). access (load_ptr h (extension_next extension)) (\<lambda>next.
             extension_loop k env n noinit pos s h next tag wire_type)))))"

definition decode_extension :: "'u dec_env \<Rightarrow> nat \<Rightarrow> 'u msg_decoder \<Rightarrow>
    'u pb_istream \<Rightarrow> heap \<Rightarrow> uint32 \<Rightarrow> pb_wire_type \<Rightarrow> pb_field_iter \<Rightarrow> 'u dec" where
  "decode_extension env n noinit s h tag wire_type iter =
     access (load_ptr h (pData iter)) (\<lambda>extension.
       extension_loop n env n noinit (bytes_left s) s h extension tag wire_type)"

fun find_extension_loop :: "nat \<Rightarrow> nat \<Rightarrow> pb_field_iter \<Rightarrow> bool \<times> pb_field_iter" where
  "find_extension_loop 0 start iter = (False, iter)"
| "find_extension_loop (Suc k) start iter =
     (if PB_LTYPE (fld_type (it_field iter)) = PB_LTYPE_EXTENSION then (True, iter)
      else let iter = snd (pb_field_iter_next iter) in
           if it_pos iter \<noteq> start then find_extension_loop k start iter else (False, iter))"

definition find_extension_field :: "pb_field_iter \<Rightarrow> bool \<times> pb_field_iter" where
  "find_extension_field iter = find_extension_loop (Suc (length (it_start iter))) (it_pos iter) iter"

section \<open>Messages\<close>

text \<open>The variables of \<open>pb_decode_noinit\<close>.  The one that other functions write through a pointer,
  \<open>fixed_count_size\<close>, lives in memory at \<open>fixed_size_at\<close>; \<open>fixed_count_field\<close> is the index of the
  descriptor.\<close>

record dec_vars =
  fields_seen :: "uint32 list"
  extension_range_start :: uint32
  dec_iter :: pb_field_iter
  fixed_count_field :: "nat option"
  fixed_size_at :: addr

text \<open>The branch for a tag that matches no descriptor.\<close>

definition decode_unknown :: "'u dec_env \<Rightarrow> nat \<Rightarrow> 'u msg_decoder \<Rightarrow> dec_vars \<Rightarrow>
    'u pb_istream \<Rightarrow> heap \<Rightarrow> uint32 \<Rightarrow> pb_wire_type \<Rightarrow>
    (dec_vars \<times> 'u pb_istream \<times> heap, 'u pb_istream \<times> heap) res" where
  "decode_unknown env n noinit v s h tag wire_type =
     (let search = extension_range_start v \<le> tag;
          (found, iter) = (if search then find_extension_field (dec_iter v) else (False, dec_iter v));
          range_start = (if \<not> search then extension_range_start v
                         else if found then fld_tag (it_field iter) else - 1);
          v = v\<lparr>dec_iter := iter, extension_range_start := range_start\<rparr>
      in andThen
           (if search \<and> range_start \<le> tag
            then andThen (decode_extension env n noinit s h tag wire_type iter)
                   (\<lambda>(s', h). Ok (bytes_left s \<noteq> bytes_left s', s', h))
            else Ok (False, s, h))
           (\<lambda>(handled, s, h).
             if handled then Ok (v, s, h)
             else andThen (skip_field s h wire_type) (\<lambda>(s, h). Ok (v, s, h))))"

text \<open>\<open>fixed_count_field != NULL && fixed_count_size != fixed_count_field->array_size\<close>\<close>

definition fixed_count_wrong :: "dec_vars \<Rightarrow> heap \<Rightarrow> bool option" where
  "fixed_count_wrong v h =
     (case fixed_count_field v of
        None \<Rightarrow> Some False
      | Some i \<Rightarrow> map_option (\<lambda>sz. sz \<noteq> array_size (field_at (it_start (dec_iter v)) i))
                   (load_u32 h (fixed_size_at v)))"

text \<open>A repeated field without a counter in the structure counts in \<open>fixed_count_size\<close>.\<close>

definition select_fixed_count :: "dec_vars \<Rightarrow> heap \<Rightarrow> (dec_vars \<times> heap, string) res" where
  "select_fixed_count v h =
     (let iter = dec_iter v; v' = v\<lparr>dec_iter := iter\<lparr>pSize := fixed_size_at v\<rparr>\<rparr> in
      if \<not> (PB_HTYPE (fld_type (it_field iter)) = PB_HTYPE_REPEATED \<and> pSize iter = pData iter)
      then Ok (v, h)
      else if fixed_count_field v = Some (it_pos iter) then Ok (v', h)
      else access (fixed_count_wrong v h) (\<lambda>wrong.
        if wrong then Fail ''wrong size for fixed count field''
        else access (store_u32 h (fixed_size_at v) 0) (\<lambda>h.
          Ok (v'\<lparr>fixed_count_field := Some (it_pos iter)\<rparr>, h))))"

definition mark_seen :: "dec_vars \<Rightarrow> dec_vars" where
  "mark_seen v =
     (let iter = dec_iter v; i = required_field_index iter in
      if PB_HTYPE (fld_type (it_field iter)) = PB_HTYPE_REQUIRED \<and> i < PB_MAX_REQUIRED_FIELDS
      then v\<lparr>fields_seen := (fields_seen v)
             [i div 32 := (fields_seen v ! (i div 32)) OR push_bit (i mod 32) 1]\<rparr>
      else v)"

text \<open>The \<open>while (stream->bytes_left)\<close> loop; the bound is more than the bytes of the stream.\<close>

fun decode_loop :: "nat \<Rightarrow> 'u dec_env \<Rightarrow> nat \<Rightarrow> 'u msg_decoder \<Rightarrow> dec_vars \<Rightarrow>
    'u pb_istream \<Rightarrow> heap \<Rightarrow> (dec_vars \<times> 'u pb_istream \<times> heap, 'u pb_istream \<times> heap) res" where
  "decode_loop 0 env n noinit v s h = Timeout"
| "decode_loop (Suc k) env n noinit v s h =
     (if bytes_left s = 0 then Ok (v, s, h)
      else withStatus (pb_decode_tag s) (\<lambda>r. case r of
        Inr (eof, s) \<Rightarrow> if eof then Ok (v, s, h) else Fail (s, h)
      | Inl ((wire_type, tag), s) \<Rightarrow>
          let (found, iter) = pb_field_iter_find (dec_iter v) tag; v = v\<lparr>dec_iter := iter\<rparr> in
          andThen
            (if \<not> found then decode_unknown env n noinit v s h tag wire_type
             else
               andThen (mapFail (\<lambda>msg. (i_error s msg, h)) (select_fixed_count v h)) (\<lambda>(v, h).
                 let v = mark_seen v in
                 andThen (decode_field env n noinit s h wire_type (dec_iter v)) (\<lambda>(iter, s, h).
                   Ok (v\<lparr>dec_iter := iter\<rparr>, s, h))))
            (\<lambda>(v, s, h). decode_loop k env n noinit v s h)))"

text \<open>\<open>do { req_field_count = ...; last_type = ...; } while (pb_field_iter_next(&iter))\<close>\<close>

fun seek_last :: "nat \<Rightarrow> pb_field_iter \<Rightarrow> nat \<times> pb_type_t \<times> pb_field_iter" where
  "seek_last 0 iter = (required_field_index iter, fld_type (it_field iter), iter)"
| "seek_last (Suc k) iter =
     (let (more, iter') = pb_field_iter_next iter in
      if more then seek_last k iter'
      else (required_field_index iter, fld_type (it_field iter), iter'))"

definition req_field_count :: "pb_field_iter \<Rightarrow> nat" where
  "req_field_count iter =
     (let (count, last_type, iter') = seek_last (length (it_start iter)) iter;
          count = (if PB_HTYPE last_type = PB_HTYPE_REQUIRED \<and> fld_tag (it_field iter') \<noteq> 0
                   then count + 1 else count)
      in min count PB_MAX_REQUIRED_FIELDS)"

definition all_required_seen :: "uint32 list \<Rightarrow> nat \<Rightarrow> bool" where
  "all_required_seen seen count =
     (let allbits = NOT 0 :: uint32 in
      (\<forall>i\<in>set [0..<count div 32]. seen ! i = allbits)
      \<and> (count mod 32 \<noteq> 0 \<longrightarrow>
           seen ! (count div 32) = drop_bit (32 - count mod 32) allbits))"

text \<open>The body of \<open>pb_decode_noinit\<close>, with \<open>fixed_count_size\<close> at the address \<open>a\<close>.\<close>

definition decode_fields :: "'u dec_env \<Rightarrow> nat \<Rightarrow> 'u msg_decoder \<Rightarrow> addr \<Rightarrow> 'u msg_decoder" where
  "decode_fields env n noinit a s h fs dest =
     (let v = \<lparr>fields_seen = [0, 0], extension_range_start = 0,
               dec_iter = snd (pb_field_iter_begin fs dest), fixed_count_field = None,
               fixed_size_at = a\<rparr>
      in andThen (decode_loop (n + Suc (bytes_left s)) env n noinit v s h) (\<lambda>(v, s, h).
           access (fixed_count_wrong v h) (\<lambda>wrong.
             if wrong then Fail (i_error s ''wrong size for fixed count field'', h)
             else if \<not> all_required_seen (fields_seen v) (req_field_count (dec_iter v))
             then Fail (i_error s ''missing required field'', h)
             else Ok (s, h))))"

fun leave_scope :: "addr \<Rightarrow> 'u dec \<Rightarrow> 'u dec" where
  "leave_scope a (Ok (s, h)) = Ok (s, leave_local h a 4)"
| "leave_scope a (Fail (s, h)) = Fail (s, leave_local h a 4)"
| "leave_scope a r = r"

primrec pb_decode_noinit :: "'u dec_env \<Rightarrow> nat \<Rightarrow> 'u msg_decoder" where
  "pb_decode_noinit env 0 = (\<lambda>s h fs dest. Timeout)"
| "pb_decode_noinit env (Suc n) = (\<lambda>s h fs dest.
     let (a, h) = enter_local h [0, 0, 0, 0]
     in leave_scope a (decode_fields env n (pb_decode_noinit env n) a s h fs dest))"

definition pb_decode :: "'u dec_env \<Rightarrow> nat \<Rightarrow> 'u msg_decoder" where
  "pb_decode env n = pb_decode_with env n (pb_decode_noinit env n)"

definition pb_decode_delimited_noinit :: "'u dec_env \<Rightarrow> nat \<Rightarrow> 'u msg_decoder" where
  "pb_decode_delimited_noinit env n s h fs dest =
     andThen (onStream (pb_make_string_substream s) h) (\<lambda>(sub, s, h).
       withStatus (pb_decode_noinit env n sub h fs dest) (\<lambda>r.
         let (status, sub, h) = status_of r in close_with status s sub h))"

definition pb_decode_delimited :: "'u dec_env \<Rightarrow> nat \<Rightarrow> 'u msg_decoder" where
  "pb_decode_delimited env n s h fs dest =
     andThen (onStream (pb_make_string_substream s) h) (\<lambda>(sub, s, h).
       withStatus (pb_decode env n sub h fs dest) (\<lambda>r.
         let (status, sub, h) = status_of r in close_with status s sub h))"

definition pb_decode_nullterminated :: "'u dec_env \<Rightarrow> nat \<Rightarrow> 'u msg_decoder" where
  "pb_decode_nullterminated env n = pb_decode env n"

end
