(* ===== verification/Pb_Lifecycle_Props.thy ===== *)
theory Pb_Lifecycle_Props
  imports Pb_Lifecycle
begin

text \<open>
  Termination of initialisation and release: for messages that nest no deeper than the fuel and
  have no extension fields, \<open>pb_message_set_to_defaults\<close> and \<open>pb_release\<close> always return (they
  either end normally or, on memory that does not hold such a message, read outside it), and they
  never report an error.
\<close>

section \<open>The nesting of message types\<close>

primrec fits :: "nat \<Rightarrow> pb_field list \<Rightarrow> bool" where
  "fits 0 fs \<longleftrightarrow> False"
| "fits (Suc n) fs \<longleftrightarrow> list_all (\<lambda>f. PB_LTYPE (fld_type f) \<noteq> PB_LTYPE_EXTENSION
     \<and> (case fld_ptr f of PtrFields sub \<Rightarrow> fits n sub | _ \<Rightarrow> True)) fs"

definition field_fits :: "nat \<Rightarrow> pb_field \<Rightarrow> bool" where
  "field_fits n f \<longleftrightarrow> PB_LTYPE (fld_type f) \<noteq> PB_LTYPE_EXTENSION
     \<and> (case fld_ptr f of PtrFields sub \<Rightarrow> fits n sub | _ \<Rightarrow> True)"

lemma fits_field_at: "fits (Suc n) fs \<Longrightarrow> field_fits n (field_at fs i)"
  by (auto simp: field_at_def field_fits_def PB_LAST_FIELD_def PB_LTYPE_def list_all_length)

lemma fits_it_field: "fits (Suc n) (it_start it) \<Longrightarrow> field_fits n (it_field it)"
  by (simp add: it_field_def fits_field_at)

lemma field_fits_sub: "field_fits n f \<Longrightarrow> fld_ptr f = PtrFields sub \<Longrightarrow> fits n sub"
  by (simp add: field_fits_def)

lemma find_loop_start: "it_start (snd (iter_find_loop k p tag it)) = it_start it"
  by (induction k arbitrary: it) (simp_all add: Let_def next_frame)

lemma find_start [simp]: "it_start (snd (pb_field_iter_find it tag)) = it_start it"
  using find_loop_start by (simp only: pb_field_iter_find_def)

section \<open>Results that are neither errors nor unfinished\<close>

definition heap_done :: "'f heap_res \<Rightarrow> bool" where
  "heap_done r \<longleftrightarrow> r = Undef \<or> (\<exists>h. r = Ok h)"

lemma heap_done_simps [simp]:
  "heap_done Undef" "heap_done (Ok h)" "\<not> heap_done Timeout" "\<not> heap_done (Fail f)"
  by (simp_all add: heap_done_def)

lemma heap_done_andThen:
  "heap_done r \<Longrightarrow> (\<And>h. r = Ok h \<Longrightarrow> heap_done (k h)) \<Longrightarrow> heap_done (andThen r k)"
  by (auto simp: heap_done_def)

lemma heap_done_access: "(\<And>a. x = Some a \<Longrightarrow> heap_done (k a)) \<Longrightarrow> heap_done (access x k)"
  by (cases x) auto

lemma heap_done_if:
  "(b \<Longrightarrow> heap_done x) \<Longrightarrow> (\<not> b \<Longrightarrow> heap_done y) \<Longrightarrow> heap_done (if b then x else y)"
  by simp

lemmas heap_done_intros = heap_done_andThen heap_done_access heap_done_if

lemma each_field_done:
  assumes body: "\<And>it h. it_start it = fs \<Longrightarrow> heap_done (body it h)"
    and i: "i < nfields fs" "nfields fs - i \<le> k"
  shows "heap_done (each_field k body (iter_at fs d i) h)"
  using i
proof (induction k arbitrary: i h)
  case (Suc k)
  have rest: "heap_done (let (more, it') = pb_field_iter_next (iter_at fs d i) in
       if more then each_field k body it' h' else Ok h')" for h'
    using Suc.IH [of "Suc i" h'] Suc.prems iter_next_at [OF Suc.prems(1), of d]
    by (cases "Suc i < nfields fs") (simp_all del: iter_at.simps)
  show ?case
    unfolding each_field.simps by (intro heap_done_andThen body rest) simp
qed simp

section \<open>Initialisation\<close>

lemma set_to_default_done:
  assumes f: "field_fits n (it_field it)" and msg: "\<And>sub d h. fits n sub \<Longrightarrow> heap_done (rec sub d h)"
  shows "heap_done (pb_field_set_to_default D rec (Suc k) it h)"
proof -
  have ext: "PB_LTYPE (fld_type (it_field it)) \<noteq> PB_LTYPE_EXTENSION"
    using f by (simp add: field_fits_def)
  have sub: "heap_done (rec fs d h)" if "fld_ptr (it_field it) = PtrFields fs" for fs d h
    using msg field_fits_sub [OF f that] by blast
  show ?thesis
    using ext by (auto simp: Let_def sub access_def split: option.splits pb_ptr.splits)
qed

lemma set_to_defaults_done: "fits n fs \<Longrightarrow> heap_done (pb_message_set_to_defaults D n fs d h :: 'f heap_res)"
proof (induction n arbitrary: fs d h)
  case (Suc n)
  show ?case
  proof (cases "nfields fs = 0")
    case True
    then show ?thesis using begin_nonempty [of fs d] by (simp add: case_prod_unfold)
  next
    case False
    have "heap_done (each_field (Suc (length fs))
      (pb_field_set_to_default D (pb_message_set_to_defaults D n) (Suc n)) (iter_at fs d 0) h :: 'f heap_res)"
      using False nfields_le [of fs] Suc
      by (intro each_field_done set_to_default_done [where n = n]) (auto intro: fits_it_field)
    then show ?thesis using False begin_nonempty [of fs d]
      by (simp add: case_prod_unfold Let_def del: each_field.simps pb_field_set_to_default.simps)
  qed
qed simp

lemma initialize_done:
  assumes "field_fits n f" "\<And>sub d h. fits n sub \<Longrightarrow> heap_done (rec sub d h)"
  shows "heap_done (initialize_pointer_field rec p f h)"
  using assms field_fits_sub [OF assms(1)]
  by (auto simp: initialize_pointer_field_def access_def split: option.splits pb_ptr.splits)

section \<open>Release\<close>

lemma release_items_done:
  "(\<And>p h. heap_done (rel p h)) \<Longrightarrow> heap_done (release_items rel count p step h)"
  by (induction count arbitrary: p h) (auto intro: heap_done_intros)

lemma free_entries_done: "heap_done (free_entries count p h)"
  by (induction count arbitrary: p h) (auto intro!: heap_done_intros)

lemma release_pointer_done: "heap_done (release_pointer it h)"
  unfolding release_pointer_def Let_def
  by (intro heap_done_intros free_entries_done heap_done_simps)

lemma release_single_done:
  assumes f: "field_fits n (it_field it)" and msg: "\<And>sub d h. fits n sub \<Longrightarrow> heap_done (rel sub d h)"
  shows "heap_done (pb_release_single_field D rel (Suc k) it h)"
proof -
  have ext: "PB_LTYPE (fld_type (it_field it)) \<noteq> PB_LTYPE_EXTENSION"
    using f by (simp add: field_fits_def)
  have sub: "heap_done (release_items (rel fs) count p step h)"
    if "fld_ptr (it_field it) = PtrFields fs" for fs count p step h
    using msg field_fits_sub [OF f that] by (intro release_items_done) blast
  have items: "heap_done (case fld_ptr (it_field it) of
      PtrFields fs \<Rightarrow> release_items (rel fs) (unat count) p step h
    | _ \<Rightarrow> if count = 0 then Ok h else Undef)" for count :: pb_size_t and p step h
    using sub by (auto split: pb_ptr.split)
  show ?thesis
    unfolding pb_release_single_field.simps Let_def if_not_P [OF ext]
    by (intro heap_done_intros release_pointer_done items heap_done_simps)
qed

lemma release_done: "fits n fs \<Longrightarrow> heap_done (pb_release D n fs d h :: 'f heap_res)"
proof (induction n arbitrary: fs d h)
  case (Suc n)
  show ?case
  proof (cases "nfields fs = 0")
    case True
    then show ?thesis using begin_nonempty [of fs d] by (simp add: case_prod_unfold)
  next
    case False
    have "heap_done (each_field (Suc (length fs))
      (pb_release_single_field D (pb_release D n) (Suc n)) (iter_at fs d 0) h :: 'f heap_res)"
      using False nfields_le [of fs] Suc
      by (intro each_field_done release_single_done [where n = n]) (auto intro: fits_it_field)
    then show ?thesis using False begin_nonempty [of fs d]
      by (simp add: case_prod_unfold Let_def del: each_field.simps pb_release_single_field.simps)
  qed
qed simp

lemma release_union_done:
  assumes "fits (Suc n) (it_start it)"
  shows "pb_release_union_field D n it h \<noteq> Timeout"
    and "pb_release_union_field D n it h = Ok (it', h') \<Longrightarrow> it_start it' = it_start it"
proof -
  have rel: "heap_done (pb_release_single_field D (pb_release D n) (Suc n) it2 h2)"
    if "it_start it2 = it_start it" for it2 and h2 :: heap
    using assms that by (intro release_single_done [where n = n])
      (auto intro: fits_it_field release_done)
  have rel': "pb_release_single_field D (pb_release D n) (Suc n) it2 h2 \<noteq> (Timeout :: (heap, string) res)"
    if "it_start it2 = it_start it" for it2 h2
    using rel [OF that, of h2] by (metis heap_done_simps(3))
  have st: "it_start (snd (pb_field_iter_find (snd (pb_field_iter_find it t)) t')) = it_start it" for t t'
    by simp
  show "pb_release_union_field D n it h \<noteq> Timeout"
    using rel' unfolding pb_release_union_field_def Let_def case_prod_unfold
    by (auto simp: access_def andThen_Timeout_iff simp del: pb_release_single_field.simps
        split: option.splits if_splits)
  show "it_start it' = it_start it" if "pb_release_union_field D n it h = Ok (it', h')"
    using that st unfolding pb_release_union_field_def Let_def case_prod_unfold
    by (auto simp: access_iffs andThen_Ok_iff simp del: pb_release_single_field.simps
        split: if_splits)
qed

end
