(* ===== verification/Pb_Decode_Flow.thy ===== *)
theory Pb_Decode_Flow
  imports Pb_Decode Pb_Lifecycle_Props
begin

text \<open>
  How decoding moves through its input, for every memory, every input and every stream.
  \<open>progress m s st r\<close> is the contract of the decoding functions: the result is not \<open>Timeout\<close>, so
  the call returns; when it succeeds at least \<open>m\<close> bytes were taken from the stream \<open>s\<close>, and when
  it fails the stream is left within its bounds.  It holds for messages that nest no deeper than
  the fuel and have no extension fields, provided that the callbacks consume their input.
\<close>

declare static_packed.simps [simp del]
  and pointer_packed.simps [simp del]
  and callback_loop.simps [simp del]
  and decode_loop.simps [simp del]
  and extension_loop.simps [simp del]
  and find_extension_loop.simps [simp del]

section \<open>The contract\<close>

definition progress :: "nat \<Rightarrow> 'u pb_istream \<Rightarrow> ('a \<Rightarrow> 'u pb_istream) \<Rightarrow>
    ('a, 'u pb_istream \<times> heap) res \<Rightarrow> bool" where
  "progress m s st r \<longleftrightarrow> (case r of Undef \<Rightarrow> True | Timeout \<Rightarrow> False
     | Fail (s', h') \<Rightarrow> shrunk s s' | Ok a \<Rightarrow> \<exists>k\<ge>m. advanced s k (st a))"

text \<open>A step that does not touch the stream.\<close>

definition neutral :: "'u pb_istream \<Rightarrow> ('a, 'u pb_istream \<times> heap) res \<Rightarrow> bool" where
  "neutral s r \<longleftrightarrow> (case r of Timeout \<Rightarrow> False | Fail (s', h') \<Rightarrow> shrunk s s' | _ \<Rightarrow> True)"

lemma progress_Ok: "st a = s \<Longrightarrow> m = 0 \<Longrightarrow> progress m s st (Ok a)"
  using advanced_0 [of s] by (auto simp: progress_def intro!: exI [of _ 0] simp del: advanced_0)

lemma progress_advanced: "advanced s l (st a) \<Longrightarrow> m \<le> l \<Longrightarrow> progress m s st (Ok a)"
  by (auto simp: progress_def)

lemma progress_prod:
  "(\<And>x y. p = (x, y) \<Longrightarrow> progress n s st (f x y)) \<Longrightarrow> progress n s st (case p of (x, y) \<Rightarrow> f x y)"
  by (cases p) auto

lemma progress_Fail: "shrunk s s' \<Longrightarrow> progress m s st (Fail (s', h))"
  by (simp add: progress_def)

lemma progress_Undef [simp]: "progress m s st Undef"
  by (simp add: progress_def)

lemma progress_weaken: "progress i s st r \<Longrightarrow> n \<le> i \<Longrightarrow> progress n s st r"
  by (auto simp: progress_def split: res.splits) (meson order_trans)

lemma progress_bind:
  assumes "progress i s st r" and "\<And>a. r = Ok a \<Longrightarrow> progress j (st a) st' (k a)" and "n \<le> i + j"
  shows "progress n s st' (andThen r k)"
proof (cases r)
  case (Ok a)
  with assms(1) obtain l where l: "i \<le> l" "advanced s l (st a)" by (auto simp: progress_def)
  show ?thesis
  proof (cases "k a")
    case (Ok b)
    with assms(2) [OF \<open>r = Ok a\<close>] obtain q where "j \<le> q" "advanced (st a) q (st' b)"
      by (auto simp: progress_def)
    with l assms(3) Ok \<open>r = Ok a\<close> show ?thesis
      using advanced_trans by (fastforce simp: progress_def intro!: exI [of _ "l + q"])
  next
    case (Fail f)
    with assms(2) [OF \<open>r = Ok a\<close>] l \<open>r = Ok a\<close> show ?thesis
      by (cases f) (auto simp: progress_def intro: shrunk_trans advanced_shrunk)
  qed (use assms(2) [OF \<open>r = Ok a\<close>] \<open>r = Ok a\<close> in \<open>auto simp: progress_def\<close>)
qed (use assms(1) in \<open>auto simp: progress_def\<close>)

lemma progress_neutral:
  "neutral s r \<Longrightarrow> (\<And>a. r = Ok a \<Longrightarrow> progress n s st (k a)) \<Longrightarrow> progress n s st (andThen r k)"
  by (cases r) (auto simp: neutral_def progress_def)

lemma progress_access:
  "(\<And>a. x = Some a \<Longrightarrow> progress n s st (k a)) \<Longrightarrow> progress n s st (access x k)"
  by (cases x) auto

lemma progress_if:
  "(b \<Longrightarrow> progress n s st x) \<Longrightarrow> (\<not> b \<Longrightarrow> progress n s st y) \<Longrightarrow>
   progress n s st (if b then x else y)"
  by simp

lemma neutral_heap_done: "heap_done r \<Longrightarrow> neutral s r"
  by (auto simp: heap_done_def neutral_def)

lemma neutral_if: "(b \<Longrightarrow> neutral s x) \<Longrightarrow> (\<not> b \<Longrightarrow> neutral s y) \<Longrightarrow> neutral s (if b then x else y)"
  by simp

lemma neutral_Ok [simp]: "neutral s (Ok a)" and neutral_Undef [simp]: "neutral s Undef"
  by (simp_all add: neutral_def)

lemma neutral_Fail [simp]: "neutral s (Fail (s', h)) \<longleftrightarrow> shrunk s s'"
  by (simp add: neutral_def)

lemma neutral_access: "(\<And>a. x = Some a \<Longrightarrow> neutral s (k a)) \<Longrightarrow> neutral s (access x k)"
  by (cases x) auto

lemma neutral_andThen: "neutral s r \<Longrightarrow> (\<And>a. r = Ok a \<Longrightarrow> neutral s (k a)) \<Longrightarrow> neutral s (andThen r k)"
  by (cases r) (auto simp: neutral_def)

lemma allocate_field_returns: "allocate_field h pd a b \<noteq> Timeout"
  by (auto simp: allocate_field_def access_def Let_def split: option.splits)

lemma neutral_allocate: "neutral s (mapFail (\<lambda>msg. (i_error s msg, h)) (allocate_field h pd a b))"
  using allocate_field_returns [of h pd a b]
  by (cases "allocate_field h pd a b") (auto simp: neutral_def)

lemma progress_stream: "reads m s r \<Longrightarrow> progress m s (\<lambda>(a, s, h). s) (onStream r h)"
  by (cases r) (auto simp: progress_def reads_def)

lemma progress_read:
  "reads i s r \<Longrightarrow> (\<And>a s'. r = Ok (a, s') \<Longrightarrow> progress j s' st (k a s' h)) \<Longrightarrow> n \<le> i + j \<Longrightarrow>
   progress n s st (andThen (onStream r h) (\<lambda>(a, s, h). k a s h))"
  by (rule progress_bind [OF progress_stream]) (auto simp: onStream_iffs)

lemma progress_case_ptr:
  "(p = PtrNull \<Longrightarrow> progress n s st a) \<Longrightarrow> (\<And>fs. p = PtrFields fs \<Longrightarrow> progress n s st (b fs)) \<Longrightarrow>
   (\<And>bs. p = PtrDefault bs \<Longrightarrow> progress n s st (c bs)) \<Longrightarrow>
   progress n s st (case p of PtrNull \<Rightarrow> a | PtrFields fs \<Rightarrow> b fs | PtrDefault bs \<Rightarrow> c bs)"
  by (cases p) auto

lemmas progress_intros = progress_access progress_if progress_case_ptr progress_prod

section \<open>Scalars, bytes and strings\<close>

lemma read_into_progress: "progress n s fst (read_into s h dest n)"
  unfolding read_into_def
  by (rule progress_read [OF pb_read_reads, where j = 0]) (auto intro!: progress_access progress_Ok)

lemma skip_field_progress: "progress 1 s fst (skip_field s h w)"
  unfolding skip_field_def
  by (rule progress_read [OF pb_skip_field_reads, where j = 0]) (auto intro: progress_Ok)

lemma store_clamped_progress: "progress 0 s fst (store_clamped c v s h f dest)"
  by (auto simp: store_clamped_def split: option.split intro!: progress_intros
      intro: progress_Ok progress_Fail)

lemma bool_progress: "progress 1 s fst (pb_dec_bool s h f dest)"
  unfolding pb_dec_bool_def Let_def
  by (rule progress_read [OF pb_decode_varint32_reads, where j = 0])
    (auto intro!: progress_access progress_Ok store_clamped_progress)

lemma varint_progress: "progress 1 s fst (pb_dec_varint s h f dest)"
  unfolding pb_dec_varint_def Let_def
  by (rule progress_read [OF pb_decode_varint_reads, where j = 0])
    (auto intro!: progress_access progress_Ok store_clamped_progress)

lemma uvarint_progress: "progress 1 s fst (pb_dec_uvarint s h f dest)"
  unfolding pb_dec_uvarint_def Let_def
  by (rule progress_read [OF pb_decode_varint_reads, where j = 0])
    (auto intro!: progress_access progress_Ok store_clamped_progress)

lemma svarint_progress: "progress 1 s fst (pb_dec_svarint s h f dest)"
  unfolding pb_dec_svarint_def Let_def
  by (rule progress_read [OF pb_decode_svarint_reads, where j = 0])
    (auto intro!: progress_access progress_Ok store_clamped_progress)

lemma fixed32_progress: "progress 1 s fst (pb_dec_fixed32 s h f dest)"
  unfolding pb_dec_fixed32_def Let_def
  by (rule progress_read [OF pb_decode_fixed32_reads, where j = 0])
    (auto intro!: progress_access progress_Ok store_clamped_progress)

lemma fixed64_progress: "progress 1 s fst (pb_dec_fixed64 s h f dest)"
  unfolding pb_dec_fixed64_def Let_def
  by (rule progress_read [OF pb_decode_fixed64_reads, where j = 0])
    (auto intro!: progress_access progress_Ok store_clamped_progress)

lemma fixed_length_progress: "progress 1 s fst (pb_dec_fixed_length_bytes s h f dest)"
  unfolding pb_dec_fixed_length_bytes_def
  by (rule progress_read [OF pb_decode_varint32_reads, where j = 0])
    (auto intro!: progress_intros intro: progress_Ok progress_Fail progress_weaken [OF read_into_progress])

lemma target_neutral:
  "neutral s (if b then andThen (mapFail (\<lambda>msg. (i_error s msg, h)) (allocate_field h dest n 1))
       (\<lambda>h. access (load_ptr h dest) (\<lambda>p. Ok (p, h)))
     else if c then Fail (i_error s msg, h) else Ok (dest, h))"
  by (intro neutral_if neutral_andThen neutral_access neutral_allocate) simp_all

lemma bytes_progress: "progress 1 s fst (pb_dec_bytes s h f dest)"
  unfolding pb_dec_bytes_def Let_def
  by (rule progress_read [OF pb_decode_varint32_reads, where j = 0],
      intro progress_if progress_neutral [OF target_neutral] progress_access progress_prod
      progress_Fail progress_weaken [OF read_into_progress]) simp_all

text \<open>\<open>status = f(...)\<close>, where the code goes on in both cases.\<close>

lemma progress_status:
  assumes r: "progress m s fst (r :: 'u dec)"
    and k: "\<And>s' h' l. m \<le> l \<Longrightarrow> advanced s l s' \<Longrightarrow> r = Ok (s', h') \<Longrightarrow> progress n s0 st (k (True, s', h'))"
    and k': "\<And>s' h'. shrunk s s' \<Longrightarrow> r = Fail (s', h') \<Longrightarrow> progress n s0 st (k (False, s', h'))"
  shows "progress n s0 st (withStatus r (\<lambda>r. k (status_of r)))"
  using assms by (cases r) (auto simp: progress_def [of _ _ fst] status_of_def)

lemma string_progress: "progress 1 s fst (pb_dec_string s h f dest)"
  unfolding pb_dec_string_def Let_def
proof (rule progress_read [OF pb_decode_varint32_reads, where j = 0])
  fix a :: uint32 and s' :: "'a pb_istream"
  have tail: "progress 0 s' fst (withStatus (read_into s' h2 d n) (\<lambda>r. case status_of r of
     (status, s, h) \<Rightarrow> access (store_bytes h (d + uint a) [0])
       (\<lambda>h. if status then Ok (s, h) else Fail (s, h))))" for h2 d n
  proof (rule progress_status [OF read_into_progress, where k = "\<lambda>x. case x of
     (status, s, h) \<Rightarrow> access (store_bytes h (d + uint a) [0])
       (\<lambda>h. if status then Ok (s, h) else Fail (s, h))"])
    fix s2 h3 l
    assume "advanced s' l s2"
    then show "progress 0 s' fst (case (True, s2, h3) of
     (status, s, h) \<Rightarrow> access (store_bytes h (d + uint a) [0])
       (\<lambda>h. if status then Ok (s, h) else Fail (s, h)))"
      by (simp only: case_prod_conv if_True) (intro progress_access progress_advanced; simp)
  next
    fix s2 h3
    assume "shrunk s' s2"
    then show "progress 0 s' fst (case (False, s2, h3) of
     (status, s, h) \<Rightarrow> access (store_bytes h (d + uint a) [0])
       (\<lambda>h. if status then Ok (s, h) else Fail (s, h)))"
      by (simp only: case_prod_conv) (intro progress_access progress_if progress_Fail; simp)
  qed
  show "progress 0 s' fst
        (if unat (a + 1) < unat a then Fail (i_error s' ''size too large'', h)
         else andThen
               (if PB_ATYPE (fld_type f) = PB_ATYPE_POINTER
                then andThen (mapFail (\<lambda>msg. (i_error s' msg, h)) (allocate_field h dest (unat (a + 1)) 1))
                      (\<lambda>h. access (load_ptr h dest) (\<lambda>dest. Ok (dest, h)))
                else if unat (data_size f) < unat (a + 1) then Fail (i_error s' ''string overflow'', h)
                     else Ok (dest, h))
               (\<lambda>(dest, h). withStatus (read_into s' h dest (unat a))
                 (\<lambda>r. case status_of r of (status, s, h) \<Rightarrow>
                    access (store_bytes h (dest + uint a) [0])
                      (\<lambda>h. if status then Ok (s, h) else Fail (s, h)))))"
    by (intro progress_if progress_neutral [OF target_neutral] progress_prod tail progress_Fail) simp
qed simp

section \<open>Submessages\<close>

text \<open>What is assumed of the decoder of nested messages, for the message types that fit.\<close>

definition msg_progress :: "nat \<Rightarrow> 'u msg_decoder \<Rightarrow> bool" where
  "msg_progress n noinit \<longleftrightarrow> (\<forall>s h fs dest. fits n fs \<longrightarrow> progress 0 s fst (noinit s h fs dest))"

lemma close_progress:
  assumes "pb_make_string_substream s = Ok (sub, s1)" "advanced sub k sub'"
  shows "progress 1 s fst (close_with True s1 sub' h)"
  using substream_closed [OF assms] pb_close_string_substream_other(2,3) [of s1 sub']
    substream_shrunk(1) [OF assms(1)]
  by (cases "pb_close_string_substream s1 sub'")
    (fastforce simp: close_with_def progress_def)+

lemma close_shrunk:
  assumes "pb_make_string_substream s = Ok (sub, s1)" "shrunk sub sub'"
  shows "progress 1 s fst (close_with False (s1\<lparr>i_errmsg := e\<rparr>) sub' h)"
proof (cases "pb_close_string_substream (s1\<lparr>i_errmsg := e\<rparr>) sub'")
  case (Ok a)
  then show ?thesis using substream_closed_shrunk [OF assms, of e]
    by (cases a) (auto simp: close_with_def progress_def)
next
  case (Fail s')
  then show ?thesis
    using pb_close_string_substream_other(3) [of "s1\<lparr>i_errmsg := e\<rparr>" sub' s']
      substream_shrunk(1) [OF assms(1)]
    by (auto simp: close_with_def progress_def shrunk_def split: istate.splits)
qed (use pb_close_string_substream_other(2) in \<open>auto simp: close_with_def\<close>)

lemma close_failed:
  "pb_make_string_substream s = Ok (sub, s1) \<Longrightarrow> shrunk sub sub' \<Longrightarrow>
   progress 1 s fst (close_with False s1 sub' h)"
  using close_shrunk [where e = "i_errmsg s1"] by fastforce

text \<open>Work on a substream, which is closed whether the work succeeds or fails.\<close>

lemma substream_progress:
  assumes m: "pb_make_string_substream s = Ok (sub, s1)" and r: "progress 0 sub fst r"
  shows "progress 1 s fst
    (withStatus r (\<lambda>r. case status_of r of (status, sub, h) \<Rightarrow> close_with status s1 sub h))"
proof (rule progress_status [OF r, where k = "\<lambda>x. case x of
     (status, sub, h) \<Rightarrow> close_with status s1 sub h"])
  show "advanced sub l s' \<Longrightarrow>
    progress 1 s fst (case (True, s', h') of (status, sub, h) \<Rightarrow> close_with status s1 sub h)" for s' h' l
    using close_progress [OF m] by simp
  show "shrunk sub s' \<Longrightarrow>
    progress 1 s fst (case (False, s', h') of (status, sub, h) \<Rightarrow> close_with status s1 sub h)" for s' h'
    using close_failed [OF m] by simp
qed

text \<open>What follows the creation of a substream is judged against the stream it came from.\<close>

lemma progress_substream:
  assumes "\<And>sub s1. pb_make_string_substream s = Ok (sub, s1) \<Longrightarrow> progress n s st (k sub s1 h)"
  shows "progress n s st (andThen (onStream (pb_make_string_substream s) h) (\<lambda>(sub, s, h). k sub s h))"
  using assms pb_make_string_substream_other(2,3) [of s]
  by (cases "pb_make_string_substream s") (auto simp: progress_def)

lemma decode_with_progress:
  assumes "msg_progress n noinit" "fits n fs"
  shows "progress 0 s fst (pb_decode_with env n noinit s h fs dest)"
  unfolding pb_decode_with_def Let_def
proof (rule progress_neutral [OF neutral_heap_done [OF set_to_defaults_done [OF assms(2)]]])
  fix h1 :: heap
  have "progress 0 s fst (noinit s h1 fs dest)" using assms by (simp add: msg_progress_def)
  then show "progress 0 s fst (withStatus (noinit s h1 fs dest) (\<lambda>r. case status_of r of
      (status, s, h) \<Rightarrow> if status then Ok (s, h)
        else andThen (pb_release (field_array env) n fs dest h) (\<lambda>h. Fail (s, h))))"
  proof (rule progress_status [where k = "\<lambda>x. case x of (status, s, h) \<Rightarrow> if status then Ok (s, h)
        else andThen (pb_release (field_array env) n fs dest h) (\<lambda>h. Fail (s, h))"])
    fix s' h' l
    assume "advanced s l s'"
    then show "progress 0 s fst (case (True, s', h') of (status, s, h) \<Rightarrow> if status then Ok (s, h)
        else andThen (pb_release (field_array env) n fs dest h) (\<lambda>h. Fail (s, h)))"
      by (simp add: progress_advanced)
  next
    fix s' h'
    assume "shrunk s s'"
    then show "progress 0 s fst (case (False, s', h') of (status, s, h) \<Rightarrow> if status then Ok (s, h)
        else andThen (pb_release (field_array env) n fs dest h) (\<lambda>h. Fail (s, h)))"
      by (simp add: progress_neutral [OF neutral_heap_done [OF release_done [OF assms(2)]]] progress_Fail)
  qed
qed

lemma submessage_progress:
  assumes "msg_progress n noinit" "field_fits n f"
  shows "progress 1 s fst (pb_dec_submessage env n noinit s h f dest)"
  unfolding pb_dec_submessage_def
proof (rule progress_substream)
  fix sub s1
  assume m: "pb_make_string_substream s = Ok (sub, s1)"
  have r: "progress 0 sub fst (if PB_HTYPE (fld_type f) = PB_HTYPE_REPEATED
      then pb_decode_with env n noinit sub h fs dest else noinit sub h fs dest)"
    if "fld_ptr f = PtrFields fs" for fs
    using decode_with_progress [OF assms(1) field_fits_sub [OF assms(2) that]] assms(1)
      field_fits_sub [OF assms(2) that] by (simp add: msg_progress_def)
  show "progress 1 s fst (case fld_ptr f of
      PtrNull \<Rightarrow> Fail (i_error s1 ''invalid field descriptor'', h)
    | PtrFields submsg_fields \<Rightarrow> withStatus
        (if PB_HTYPE (fld_type f) = PB_HTYPE_REPEATED
         then pb_decode_with env n noinit sub h submsg_fields dest
         else noinit sub h submsg_fields dest)
        (\<lambda>r. let (status, sub, h) = status_of r in close_with status s1 sub h)
    | PtrDefault bs \<Rightarrow> Undef)"
    unfolding Let_def using substream_progress [OF m r] substream_shrunk(1) [OF m]
    by (intro progress_case_ptr progress_Fail) simp_all
qed

lemma decoder_progress:
  assumes "msg_progress n noinit" "field_fits n f"
  shows "progress 1 s fst (PB_DECODERS env n noinit (PB_LTYPE (fld_type f)) s h f dest)"
  using submessage_progress [OF assms]
  by (simp add: PB_DECODERS_def bool_progress varint_progress uvarint_progress svarint_progress
      fixed32_progress fixed64_progress bytes_progress string_progress fixed_length_progress)

section \<open>Fields\<close>

text \<open>How a loop over a packed array leaves the substream.\<close>

definition loop_ends :: "'u pb_istream \<Rightarrow> ('a \<times> 'u pb_istream \<times> heap, 'f) res \<Rightarrow> ('a \<Rightarrow> bool) \<Rightarrow> bool"
  where "loop_ends sub r good \<longleftrightarrow> (case r of Undef \<Rightarrow> True
     | Ok (e, sub', h') \<Rightarrow> if good e then \<exists>l. advanced sub l sub' else shrunk sub sub'
     | _ \<Rightarrow> False)"

lemma loop_ends_step:
  "advanced sub l sub1 \<Longrightarrow> loop_ends sub1 r good \<Longrightarrow> loop_ends sub r good"
  using advanced_trans [of sub l sub1] shrunk_trans [OF advanced_shrunk [of sub l sub1]]
  by (auto simp: loop_ends_def split: res.splits) metis+

lemma loop_ends_Ok:
  "good e \<Longrightarrow> loop_ends sub (Ok (e, sub, h)) good" "\<not> good e \<Longrightarrow> shrunk sub sub' \<Longrightarrow> loop_ends sub (Ok (e, sub', h)) good"
  using advanced_0 [of sub] by (auto simp: loop_ends_def simp del: advanced_0)

lemma loop_ends_access: "(\<And>a. x = Some a \<Longrightarrow> loop_ends sub (k a) good) \<Longrightarrow> loop_ends sub (access x k) good"
  by (cases x) (auto simp: loop_ends_def)

lemma loop_ends_heap:
  "heap_done r \<Longrightarrow> (\<And>h. loop_ends sub (k h) good) \<Longrightarrow> loop_ends sub (andThen r k) good"
  by (cases r) (auto simp: loop_ends_def)

lemma loop_ends_status:
  assumes r: "progress m sub fst (r :: 'u dec)"
    and k: "\<And>s' h' l. m \<le> l \<Longrightarrow> advanced sub l s' \<Longrightarrow> loop_ends sub (k (True, s', h')) good"
    and k': "\<And>s' h'. shrunk sub s' \<Longrightarrow> loop_ends sub (k (False, s', h')) good"
  shows "loop_ends sub (withStatus r (\<lambda>r. k (status_of r))) good"
  using assms by (cases r) (auto simp: progress_def status_of_def loop_ends_def [of _ Undef])

lemma static_packed_ends:
  fixes func :: "'u decoder"
  assumes f: "\<And>s h p. progress 1 s fst (func s h (it_field iter) p)"
  shows "bytes_left sub < k \<Longrightarrow> loop_ends sub (static_packed k func iter sub h :: (bool \<times> 'u pb_istream \<times> heap, 'f) res) (\<lambda>b. b)"
proof (induction k arbitrary: sub h)
  case (Suc k)
  let ?k = "\<lambda>x. case x of (status, sub, h) \<Rightarrow>
     if \<not> status then Ok (False, sub, h)
     else access (load_u32 h (pSize iter)) (\<lambda>size.
       access (store_u32 h (pSize iter) (size + 1)) (\<lambda>h.
         static_packed k func iter sub h :: (bool \<times> 'u pb_istream \<times> heap, 'f) res))"
  have step: "loop_ends sub (withStatus (func sub h (it_field iter) p) (\<lambda>r. ?k (status_of r))) (\<lambda>b. b)"
    for p
  proof (rule loop_ends_status [OF f])
    fix s' h' l
    assume l: "1 \<le> l" "advanced sub l s'"
    then have "bytes_left s' < k" using Suc.prems advanced_left [OF l(2)] by simp
    then show "loop_ends sub (?k (True, s', h')) (\<lambda>b. b)"
      using loop_ends_step [OF l(2) Suc.IH] by (auto intro!: loop_ends_access)
  next
    fix s' h'
    assume "shrunk sub s'"
    then show "loop_ends sub (?k (False, s', h')) (\<lambda>b. b)" by (simp add: loop_ends_Ok)
  qed
  show ?case
    using step by (auto simp: static_packed.simps Let_def intro!: loop_ends_access loop_ends_Ok)
qed simp

lemma static_progress:
  assumes m: "msg_progress n noinit" and f: "field_fits n (it_field iter)"
  shows "progress 1 s fst (decode_static_field env n noinit s h w iter)"
proof -
  let ?f = "it_field iter"
  let ?func = "PB_DECODERS env n noinit (PB_LTYPE (fld_type ?f))"
  have func: "progress 1 s fst (?func s h ?f p)" for s h p by (rule decoder_progress [OF m f])
  have ends: "loop_ends sub (static_packed (Suc (bytes_left sub)) ?func iter sub h2
      :: (bool \<times> 'a pb_istream \<times> heap, 'a pb_istream \<times> heap) res) (\<lambda>b. b)" for sub h2
    using static_packed_ends [where func = ?func and iter = iter and k = "Suc (bytes_left sub)"] func
    by blast
  have packed: "progress 1 s fst
      (andThen (static_packed (Suc (bytes_left sub)) ?func iter sub h2) (\<lambda>(status, sub, h).
         if bytes_left sub \<noteq> 0 then Fail (i_error s1 ''array overflow'', h)
         else close_with status s1 sub h))"
    if "pb_make_string_substream s = Ok (sub, s1)" for sub s1 h2
  proof (cases "static_packed (Suc (bytes_left sub)) ?func iter sub h2 :: (bool \<times> 'a pb_istream \<times> heap, 'a pb_istream \<times> heap) res")
    case (Ok a)
    with ends [of sub h2] close_progress [OF that] close_failed [OF that] substream_shrunk(1) [OF that]
    show ?thesis
      by (cases a; cases "fst a") (auto simp: loop_ends_def intro: progress_Fail)
  qed (use ends [of sub h2] in \<open>auto simp: loop_ends_def\<close>)
  have sub: "heap_done (pb_message_set_to_defaults (field_array env) n fs d h)"
    if "fld_ptr ?f = PtrFields fs" for fs d h
    by (rule set_to_defaults_done [OF field_fits_sub [OF f that]])
  have oneof: "neutral s (if init
      then access (fill_zero h (pData iter) (unat (data_size ?f))) (\<lambda>h. case fld_ptr ?f of
          PtrFields fs \<Rightarrow> pb_message_set_to_defaults (field_array env) n fs (pData iter) h | _ \<Rightarrow> Undef)
      else Ok h)" for init h
    using sub by (intro neutral_if neutral_access neutral_heap_done) (auto split: pb_ptr.split)
  show ?thesis
    unfolding decode_static_field_def Let_def
    by (intro progress_if func progress_access progress_substream packed progress_Fail
        progress_neutral [OF oneof]) simp_all
qed

lemma loop_ends_alloc:
  assumes "neutral sub r" "\<And>h. loop_ends sub (k (Inl h)) good"
    and "\<And>s' h. shrunk sub s' \<Longrightarrow> loop_ends sub (k (Inr (s', h))) good"
  shows "loop_ends sub (withStatus r k) good"
  using assms by (cases r) (auto simp: neutral_def loop_ends_def [of _ Undef])

lemma pointer_packed_ends:
  fixes func :: "'u decoder" and init :: "addr \<Rightarrow> pb_field \<Rightarrow> heap \<Rightarrow> (heap, 'f) res"
  assumes f: "\<And>s h p. progress 1 s fst (func s h (it_field iter) p)"
    and i: "\<And>p h. heap_done (init p (it_field iter) h)"
  shows "bytes_left sub < k \<Longrightarrow>
    loop_ends sub (pointer_packed k func init iter alloc sub h) (\<lambda>e. e = Packed_done)"
proof (induction k arbitrary: alloc sub h)
  case (Suc k)
  let ?f = "it_field iter"
  let ?k = "\<lambda>alloc x. case x of (status, sub, h) \<Rightarrow>
     if \<not> status then Ok (Packed_failed, sub, h)
     else access (load_u32 h (pSize iter)) (\<lambda>size.
       access (store_u32 h (pSize iter) (size + 1)) (\<lambda>h. pointer_packed k func init iter alloc sub h))"
  have step: "loop_ends sub (withStatus (func sub h ?f p) (\<lambda>r. ?k alloc (status_of r))) (\<lambda>e. e = Packed_done)"
    for alloc h p
  proof (rule loop_ends_status [OF f])
    fix s' h' l
    assume l: "1 \<le> l" "advanced sub l s'"
    then have "bytes_left s' < k" using Suc.prems advanced_left [OF l(2)] by simp
    then show "loop_ends sub (?k alloc (True, s', h')) (\<lambda>e. e = Packed_done)"
      using loop_ends_step [OF l(2) Suc.IH] by (auto intro!: loop_ends_access)
  next
    fix s' h'
    assume "shrunk sub s'"
    then show "loop_ends sub (?k alloc (False, s', h')) (\<lambda>e. e = Packed_done)"
      by (simp add: loop_ends_Ok)
  qed
  have alloc: "neutral sub (if g then mapFail (\<lambda>msg. (i_error sub msg, h)) (allocate_field h pd a b)
      else Ok h)" for g h pd a b
    by (intro neutral_if neutral_allocate neutral_Ok)
  have item: "loop_ends sub (access (load_ptr h (pData iter)) (\<lambda>items.
      access (load_u32 h (pSize iter)) (\<lambda>size.
        andThen (init (items + uint (data_size ?f * size)) ?f h) (\<lambda>h.
          withStatus (func sub h ?f (items + uint (data_size ?f * size)))
            (\<lambda>r. ?k alloc (status_of r)))))) (\<lambda>e. e = Packed_done)" for alloc h
    by (intro loop_ends_access loop_ends_heap i step)
  have ite: "loop_ends sub x good \<Longrightarrow> loop_ends sub y good \<Longrightarrow> loop_ends sub (if b then x else y) good"
    for b good and x y :: "(packed_end \<times> 'u pb_istream \<times> heap, 'f) res" by simp
  have und: "loop_ends sub Undef good" for good :: "packed_end \<Rightarrow> bool" by (simp add: loop_ends_def)
  show ?case
    unfolding pointer_packed.simps Let_def
    by (intro ite und loop_ends_access loop_ends_alloc [OF alloc] loop_ends_Ok)
      (auto simp: item [unfolded Let_def] loop_ends_Ok)
qed simp

lemma pointer_progress:
  assumes m: "msg_progress n noinit" and f: "field_fits n (it_field iter)"
  shows "progress 1 s fst (decode_pointer_field env n noinit s h w iter)"
proof -
  let ?f = "it_field iter" and ?D = "field_array env"
  let ?func = "PB_DECODERS env n noinit (PB_LTYPE (fld_type ?f))"
  have func: "progress 1 s fst (?func s h ?f p)" for s h p by (rule decoder_progress [OF m f])
  have init: "heap_done (initialize_pointer_field (pb_message_set_to_defaults ?D n) p ?f h)" for p h
    by (rule initialize_done [OF f set_to_defaults_done])
  have rel: "heap_done (pb_release_single_field ?D (pb_release ?D n) (Suc n) iter h)" for h
    by (rule release_single_done [OF f release_done])
  have dup: "neutral s (if dup then pb_release_single_field ?D (pb_release ?D n) (Suc n) iter h
      else Ok h)" for dup h
    by (intro neutral_if neutral_heap_done rel neutral_Ok)
  have ends: "loop_ends sub (pointer_packed (Suc (bytes_left sub)) ?func
      (initialize_pointer_field (pb_message_set_to_defaults ?D n)) iter alloc sub h2
      :: (packed_end \<times> 'a pb_istream \<times> heap, 'a pb_istream \<times> heap) res) (\<lambda>e. e = Packed_done)"
    for sub alloc h2
    using pointer_packed_ends [where func = ?func and iter = iter and k = "Suc (bytes_left sub)"
        and init = "initialize_pointer_field (pb_message_set_to_defaults ?D n)"] func init by blast
  have packed: "progress 1 s fst
      (andThen (pointer_packed (Suc (bytes_left sub)) ?func
          (initialize_pointer_field (pb_message_set_to_defaults ?D n)) iter alloc sub h2)
        (\<lambda>(pend, sub, h). close_with (pend = Packed_done)
           (if pend = Packed_too_many then s1\<lparr>i_errmsg := Some ''too many array entries''\<rparr> else s1) sub h))"
    if "pb_make_string_substream s = Ok (sub, s1)" for sub s1 alloc h2
  proof (cases "pointer_packed (Suc (bytes_left sub)) ?func
          (initialize_pointer_field (pb_message_set_to_defaults ?D n)) iter alloc sub h2
      :: (packed_end \<times> 'a pb_istream \<times> heap, 'a pb_istream \<times> heap) res")
    case (Ok a)
    with ends [of sub alloc h2] close_progress [OF that] close_failed [OF that] close_shrunk [OF that]
    show ?thesis by (cases a; cases "fst a") (auto simp: loop_ends_def)
  qed (use ends [of sub alloc h2] in \<open>auto simp: loop_ends_def\<close>)
  show ?thesis
    unfolding decode_pointer_field_def Let_def
    by (intro progress_if func progress_access progress_substream packed progress_Fail
        progress_neutral [OF dup] progress_neutral [OF neutral_allocate]
        progress_neutral [OF neutral_heap_done [OF init]]) simp_all
qed

text \<open>The contract of the application's decoders, as \<open>pb.h\<close> and \<open>pb_decode.h\<close> describe it: they
  return, and when they succeed they have read from the stream they were given, all the time it was
  not empty.\<close>

definition callbacks_consume :: "'u dec_env \<Rightarrow> bool" where
  "callbacks_consume env \<longleftrightarrow> (\<forall>fn s h f arg. case decode_cb env fn s h f arg of
       Undef \<Rightarrow> True | Timeout \<Rightarrow> False | Fail e \<Rightarrow> True
     | Ok (s', h') \<Rightarrow> \<exists>k. advanced s k s' \<and> (bytes_left s \<noteq> 0 \<longrightarrow> 0 < k))"

lemma callback_returns:
  assumes "callbacks_consume env"
  shows "decode_cb env fn s h f arg \<noteq> Timeout"
    and "decode_cb env fn s h f arg = Ok (s', h') \<Longrightarrow>
      \<exists>k. advanced s k s' \<and> (bytes_left s \<noteq> 0 \<longrightarrow> 0 < k)"
proof -
  from assms have "case decode_cb env fn s h f arg of
       Undef \<Rightarrow> True | Timeout \<Rightarrow> False | Fail e \<Rightarrow> True
     | Ok (s', h') \<Rightarrow> \<exists>k. advanced s k s' \<and> (bytes_left s \<noteq> 0 \<longrightarrow> 0 < k)"
    unfolding callbacks_consume_def by blast
  then show "decode_cb env fn s h f arg \<noteq> Timeout"
    and "decode_cb env fn s h f arg = Ok (s', h') \<Longrightarrow>
      \<exists>k. advanced s k s' \<and> (bytes_left s \<noteq> 0 \<longrightarrow> 0 < k)"
    by auto
qed

lemma callback_loop_ends:
  assumes cb: "callbacks_consume env"
  shows "bytes_left sub < k \<Longrightarrow> callback_loop k env iter sub h \<noteq> Timeout
    \<and> (\<forall>sub' h'. callback_loop k env iter sub h = Ok (sub', h') \<longrightarrow> (\<exists>l. advanced sub l sub'))"
proof (induction k arbitrary: sub h)
  case (Suc k)
  have step: "andThen (mapFail snd r) (\<lambda>(sub, h).
        if bytes_left sub \<noteq> 0 then callback_loop k env iter sub h else Ok (sub, h)) \<noteq> Timeout
    \<and> (\<forall>sub' h'. andThen (mapFail snd r) (\<lambda>(sub, h).
        if bytes_left sub \<noteq> 0 then callback_loop k env iter sub h else Ok (sub, h)) = Ok (sub', h')
        \<longrightarrow> (\<exists>l. advanced sub l sub'))"
    if r: "r = decode_cb env fn sub h (it_field iter) (callback_arg (pData iter))" for r fn
  proof (cases r)
    case (Ok a)
    obtain s1 h1 where a: "a = (s1, h1)" by (cases a)
    from callback_returns(2) [OF cb] Ok r a obtain l where
      l: "advanced sub l s1" "bytes_left sub \<noteq> 0 \<longrightarrow> 0 < l" by metis
    show ?thesis
    proof (cases "bytes_left s1 = 0")
      case True
      with Ok a l(1) show ?thesis by auto
    next
      case False
      with Suc.prems l advanced_left [OF l(1)] have "bytes_left s1 < k" by auto
      from Suc.IH [OF this, of h1] False Ok a show ?thesis
        using advanced_trans [OF l(1)] by auto blast
    qed
  qed (use callback_returns(1) [OF cb] r in auto)
  show ?case
    using step by (simp add: callback_loop.simps access_def split: option.split)
qed simp

lemma callback_progress:
  assumes cb: "callbacks_consume env"
  shows "progress 1 s fst (decode_callback_field env n s h w iter)"
proof -
  have delimited: "progress 1 s fst (andThen (mapFail (\<lambda>h. (i_error s1 ''callback failed'', h))
        (callback_loop (n + Suc (bytes_left sub)) env iter sub h))
      (\<lambda>(sub, h). close_with True s1 sub h))"
    if m: "pb_make_string_substream s = Ok (sub, s1)" for sub s1
  proof (cases "callback_loop (n + Suc (bytes_left sub)) env iter sub h")
    case (Ok a)
    with callback_loop_ends [OF cb, of sub "n + Suc (bytes_left sub)" iter h] close_progress [OF m]
    show ?thesis by (cases a) auto
  next
    case (Fail h')
    then show ?thesis using substream_shrunk(1) [OF m] by (simp add: progress_def)
  qed (use callback_loop_ends [OF cb, of sub "n + Suc (bytes_left sub)" iter h] in simp_all)
  have scalar: "progress 1 s fst (andThen (onStream (read_raw_value s w 10) h) (\<lambda>(buffer, s, h).
      withStatus (decode_cb env fn (pb_istream_from_buffer buffer (length buffer)) h
          (it_field iter) (callback_arg (pData iter))) (\<lambda>r.
        case status_of r of (status, sub, h) \<Rightarrow> if status then Ok (s, h) else Fail (s, h))))" for fn
  proof (rule progress_read [OF read_raw_value_reads, where j = 0])
    fix buffer s'
    let ?r = "decode_cb env fn (pb_istream_from_buffer buffer (length buffer)) h
          (it_field iter) (callback_arg (pData iter))"
    show "progress 0 s' fst (withStatus ?r (\<lambda>r. case status_of r of
        (status, sub, h) \<Rightarrow> if status then Ok (s', h) else Fail (s', h)))"
      using callback_returns(1) [OF cb]
      by (cases ?r) (auto simp: status_of_def intro: progress_Ok progress_Fail)
  qed simp
  show ?thesis
    unfolding decode_callback_field_def Let_def
    by (intro progress_if skip_field_progress progress_access progress_substream delimited scalar)
qed

lemma decode_field_progress:
  assumes m: "msg_progress n noinit" and cb: "callbacks_consume env"
    and f: "fits (Suc n) (it_start iter)"
  shows "progress 1 s (\<lambda>(it, s, h). s) (decode_field env n noinit s h w iter)"
    and "decode_field env n noinit s h w iter = Ok (iter', s', h') \<Longrightarrow> it_start iter' = it_start iter"
proof -
  let ?u = "pb_release_union_field (field_array env) n iter h"
  let ?r = "if PB_HTYPE (fld_type (it_field iter)) = PB_HTYPE_ONEOF
      then mapFail (\<lambda>msg. (i_error s msg, h)) ?u else Ok (iter, h)"
  have u: "neutral s ?r"
    using release_union_done(1) [OF f, of "field_array env" h]
    by (cases ?u) (auto simp: neutral_def)
  have st: "it_start it2 = it_start iter" if "?r = Ok (it2, h2)" for it2 h2
    using that release_union_done(2) [OF f] by (auto simp: mapFail_iffs split: if_splits)
  have field: "progress 1 s fst
     (if PB_ATYPE (fld_type (it_field it2)) = PB_ATYPE_STATIC
      then decode_static_field env n noinit s h2 w it2
      else if PB_ATYPE (fld_type (it_field it2)) = PB_ATYPE_POINTER
      then decode_pointer_field env n noinit s h2 w it2
      else if PB_ATYPE (fld_type (it_field it2)) = PB_ATYPE_CALLBACK
      then decode_callback_field env n s h2 w it2
      else Fail (i_error s ''invalid field type'', h2))" if "it_start it2 = it_start iter" for it2 h2
    using fits_it_field [of n it2] f that
    by (intro progress_if static_progress pointer_progress callback_progress m cb progress_Fail) simp_all
  show "progress 1 s (\<lambda>(it, s, h). s) (decode_field env n noinit s h w iter)"
    unfolding decode_field_def Let_def
  proof (rule progress_neutral [OF u], rule progress_prod)
    fix a it2 h2
    assume "?r = Ok a" "a = (it2, h2)"
    then have "it_start it2 = it_start iter" by (intro st) simp
    from field [OF this, of h2] show "progress 1 s (\<lambda>(it, s, h). s) (andThen
     (if PB_ATYPE (fld_type (it_field it2)) = PB_ATYPE_STATIC
      then decode_static_field env n noinit s h2 w it2
      else if PB_ATYPE (fld_type (it_field it2)) = PB_ATYPE_POINTER
      then decode_pointer_field env n noinit s h2 w it2
      else if PB_ATYPE (fld_type (it_field it2)) = PB_ATYPE_CALLBACK
      then decode_callback_field env n s h2 w it2
      else Fail (i_error s ''invalid field type'', h2)) (\<lambda>(s, h). Ok (it2, s, h)))"
      by (rule progress_bind [where j = 0]) (auto intro: progress_Ok)
  qed
  show "it_start iter' = it_start iter" if "decode_field env n noinit s h w iter = Ok (iter', s', h')"
  proof -
    from that obtain a where r: "?r = Ok a" and k: "(case a of (it2, h2) \<Rightarrow>
        let atype = PB_ATYPE (fld_type (it_field it2)) in
        andThen (if atype = PB_ATYPE_STATIC then decode_static_field env n noinit s h2 w it2
            else if atype = PB_ATYPE_POINTER then decode_pointer_field env n noinit s h2 w it2
            else if atype = PB_ATYPE_CALLBACK then decode_callback_field env n s h2 w it2
            else Fail (i_error s ''invalid field type'', h2))
          (\<lambda>(s, h). Ok (it2, s, h))) = Ok (iter', s', h')"
      unfolding decode_field_def andThen_Ok_iff by blast
    obtain it2 h2 where a: "a = (it2, h2)" by (cases a)
    from k have "iter' = it2" unfolding a Let_def case_prod_conv andThen_Ok_iff by auto
    with st r a show ?thesis by blast
  qed
qed

section \<open>Messages\<close>

lemma tag_eof_advanced: "pb_decode_tag s = Fail (True, s') \<Longrightarrow> \<exists>k. advanced s k s'"
proof -
  assume "pb_decode_tag s = Fail (True, s')"
  then consider "pb_decode_varint32_eof s = Fail (True, s')" | x where "pb_decode_varint32_eof s = Ok (x, s')"
    by (auto simp: pb_decode_tag_def andThen_Fail_iff split: if_splits)
  then show ?thesis
  proof cases
    case 1
    then have "pb_readbyte s = Fail s'"
      by (auto simp: pb_decode_varint32_eof_def andThen_Fail_iff mapFail_iffs split: if_splits)
    then have "read_checked s 1 = Fail s'" by (auto simp: pb_readbyte_read andThen_Fail_iff)
    then show ?thesis using read_checked_Fail by blast
  next
    case 2
    with pb_decode_varint32_eof_reads [of s] show ?thesis by (auto simp: reads_def)
  qed
qed

lemma tag_less: "pb_decode_tag s = Ok ((w, tag), s') \<Longrightarrow> unat tag < 2 ^ 29"
proof -
  assume "pb_decode_tag s = Ok ((w, tag), s')"
  then obtain t :: uint32 where "tag = drop_bit 3 t"
    by (auto simp: pb_decode_tag_def andThen_Ok_iff split: if_splits)
  then have "unat tag = unat t div 8" by (simp add: drop_bit_eq_div unat_div)
  then show ?thesis using unsigned_less [where ?'a = nat, of t] by simp
qed

lemma find_extension_none:
  assumes "fits (Suc n) (it_start iter)"
  shows "\<not> fst (find_extension_loop k p iter)
    \<and> it_start (snd (find_extension_loop k p iter)) = it_start iter"
  using assms
proof (induction k arbitrary: iter)
  case (Suc k)
  have "PB_LTYPE (fld_type (it_field iter)) \<noteq> PB_LTYPE_EXTENSION"
    using fits_it_field [OF Suc.prems] by (simp add: field_fits_def)
  with Suc.IH [of "snd (pb_field_iter_next iter)"] Suc.prems show ?case
    by (simp add: find_extension_loop.simps Let_def next_frame)
qed (simp add: find_extension_loop.simps)

lemma unknown_progress:
  assumes f: "fits (Suc n) (it_start (dec_iter v))" and t: "unat tag < 2 ^ 29"
  shows "progress 1 s (\<lambda>(v, s, h). s) (decode_unknown env n noinit v s h tag w)"
    and "decode_unknown env n noinit v s h tag w = Ok (v', s', h') \<Longrightarrow>
      it_start (dec_iter v') = it_start (dec_iter v)"
proof -
  have max: "\<not> (- 1 :: uint32) \<le> tag" using t
    by (simp add: word_le_nat_alt unsigned_minus_1_eq_mask mask_eq_exp_minus_1)
  have nf: "\<not> fst (find_extension_field (dec_iter v))"
    "it_start (snd (find_extension_field (dec_iter v))) = it_start (dec_iter v)"
    using find_extension_none [OF f] by (simp_all add: find_extension_field_def)
  obtain it where fe: "find_extension_field (dec_iter v) = (False, it)" "it_start it = it_start (dec_iter v)"
    using nf by (cases "find_extension_field (dec_iter v)") auto
  obtain v2 where v2: "decode_unknown env n noinit v s h tag w =
      andThen (skip_field s h w) (\<lambda>(s, h). Ok (v2, s, h))"
    "it_start (dec_iter v2) = it_start (dec_iter v)"
    using fe max by (cases "extension_range_start v \<le> tag") (auto simp: decode_unknown_def Let_def)
  show "progress 1 s (\<lambda>(v, s, h). s) (decode_unknown env n noinit v s h tag w)"
    unfolding v2(1) by (rule progress_bind [OF skip_field_progress, where j = 0]) (auto intro: progress_Ok)
  show "it_start (dec_iter v') = it_start (dec_iter v)"
    if "decode_unknown env n noinit v s h tag w = Ok (v', s', h')"
    using that v2 by (auto simp: andThen_Ok_iff)
qed

lemma select_fixed_neutral:
  "neutral s (mapFail (\<lambda>msg. (i_error s msg, h)) (select_fixed_count v h))"
  "select_fixed_count v h = Ok (v', h') \<Longrightarrow> it_start (dec_iter v') = it_start (dec_iter v)"
  by (auto simp: select_fixed_count_def Let_def neutral_def access_def split: option.splits if_splits)

lemma mark_seen_iter [simp]: "dec_iter (mark_seen v) = dec_iter v"
  by (simp add: mark_seen_def Let_def)

lemma decode_loop_progress:
  assumes m: "msg_progress n noinit" and cb: "callbacks_consume env"
  shows "bytes_left s < k \<Longrightarrow> fits (Suc n) (it_start (dec_iter v)) \<Longrightarrow>
    progress 0 s (\<lambda>(v, s, h). s) (decode_loop k env n noinit v s h)"
proof (induction k arbitrary: v s h)
  case (Suc k)
  show ?case
  proof (cases "bytes_left s = 0")
    case True
    then show ?thesis by (simp add: decode_loop.simps progress_Ok)
  next
    case False
    show ?thesis
    proof (cases "pb_decode_tag s")
      case (Ok a)
      obtain w tag s1 where a: "a = ((w, tag), s1)" by (metis prod.collapse)
      have r: "pb_decode_tag s = Ok ((w, tag), s1)" using Ok a by simp
      from pb_decode_tag_reads [of s] r obtain l where l: "1 \<le> l" "advanced s l s1"
        by (auto simp: reads_def)
      define v1 where "v1 = v\<lparr>dec_iter := snd (pb_field_iter_find (dec_iter v) tag)\<rparr>"
      have f1: "fits (Suc n) (it_start (dec_iter v1))" using Suc.prems by (simp add: v1_def)
      let ?known = "andThen (mapFail (\<lambda>msg. (i_error s1 msg, h)) (select_fixed_count v1 h))
         (\<lambda>(v, h). andThen (decode_field env n noinit s1 h w (dec_iter (mark_seen v)))
            (\<lambda>(iter, s, h). Ok ((mark_seen v)\<lparr>dec_iter := iter\<rparr>, s, h)))"
      have kp: "progress 1 s1 (\<lambda>(v, s, h). s) ?known"
      proof (rule progress_neutral [OF select_fixed_neutral(1)], rule progress_prod)
        fix a v2 h2
        assume "mapFail (\<lambda>msg. (i_error s1 msg, h)) (select_fixed_count v1 h) = Ok a" "a = (v2, h2)"
        then have "fits (Suc n) (it_start (dec_iter (mark_seen v2)))"
          using select_fixed_neutral(2) [of v1 h v2 h2] f1 by (simp add: mapFail_iffs)
        from decode_field_progress(1) [OF m cb this]
        show "progress 1 s1 (\<lambda>(v, s, h). s) (andThen (decode_field env n noinit s1 h2 w (dec_iter (mark_seen v2)))
            (\<lambda>(iter, s, h). Ok ((mark_seen v2)\<lparr>dec_iter := iter\<rparr>, s, h)))"
          by (rule progress_bind [where j = 0]) (auto intro: progress_Ok)
      qed
      have ks: "it_start (dec_iter v3) = it_start (dec_iter v1)" if "?known = Ok (v3, s3, h3)" for v3 s3 h3
      proof -
        from that obtain v2 h2 it where sel: "select_fixed_count v1 h = Ok (v2, h2)"
          and df: "decode_field env n noinit s1 h2 w (dec_iter (mark_seen v2)) = Ok (it, s3, h3)"
          and v3: "v3 = (mark_seen v2)\<lparr>dec_iter := it\<rparr>"
          by (auto simp: andThen_Ok_iff mapFail_iffs simp del: mark_seen_iter)
        have e: "it_start (dec_iter (mark_seen v2)) = it_start (dec_iter v1)"
          using select_fixed_neutral(2) [OF sel] by simp
        then have "fits (Suc n) (it_start (dec_iter (mark_seen v2)))" using f1 by simp
        from decode_field_progress(2) [OF m cb this df] e v3 show ?thesis by simp
      qed
      let ?r = "if \<not> fst (pb_field_iter_find (dec_iter v) tag)
          then decode_unknown env n noinit v1 s1 h tag w else ?known"
      have rp: "progress 1 s1 (\<lambda>(v, s, h). s) ?r"
        using kp unknown_progress(1) [OF f1 tag_less [OF r]] by (auto intro: progress_if)
      have rs: "it_start (dec_iter v3) = it_start (dec_iter v1)" if "?r = Ok (v3, s3, h3)" for v3 s3 h3
        using that ks unknown_progress(2) [OF f1 tag_less [OF r]] by (auto split: if_splits)
      have "progress 0 s1 (\<lambda>(v, s, h). s)
        (andThen ?r (\<lambda>(v, s, h). decode_loop k env n noinit v s h))"
      proof (rule progress_bind [OF rp, where j = 0])
        fix a
        assume ra: "?r = Ok a"
        obtain v3 s3 h3 where a: "a = (v3, s3, h3)" by (metis prod.collapse)
        from rp ra a obtain q where q: "1 \<le> q" "advanced s1 q s3" by (auto simp: progress_def)
        have "bytes_left s3 < k"
          using Suc.prems(1) advanced_left [OF l(2)] advanced_left [OF q(2)] l(1) q(1) by simp
        moreover have "fits (Suc n) (it_start (dec_iter v3))" using rs ra a f1 by simp
        ultimately have "progress 0 s3 (\<lambda>(v, s, h). s) (decode_loop k env n noinit v3 s3 h3)"
          by (rule Suc.IH)
        then show "progress 0 (case a of (v, s, h) \<Rightarrow> s) (\<lambda>(v, s, h). s)
          (case a of (v, s, h) \<Rightarrow> decode_loop k env n noinit v s h)" by (simp add: a)
      qed simp
      moreover have "decode_loop (Suc k) env n noinit v s h =
        andThen ?r (\<lambda>(v, s, h). decode_loop k env n noinit v s h)"
        using False r by (simp add: decode_loop.simps Let_def case_prod_unfold v1_def)
      ultimately show ?thesis
        using progress_bind [of 0 s "\<lambda>a. s1" "Ok ()" 0 "\<lambda>(v, s, h). s"
            "\<lambda>_. andThen ?r (\<lambda>(v, s, h). decode_loop k env n noinit v s h)" 0] l
        by (simp add: progress_advanced [where st = "\<lambda>a. s1"])
    next
      case (Fail e)
      then show ?thesis
        using False pb_decode_tag_reads [of s] tag_eof_advanced [of s "snd e"]
        by (cases e) (auto simp: decode_loop.simps reads_def progress_def)
    qed (use pb_decode_tag_reads [of s] False in \<open>auto simp: decode_loop.simps reads_def\<close>)
  qed
qed simp

lemma decode_fields_progress:
  assumes m: "msg_progress n noinit" and cb: "callbacks_consume env" and f: "fits (Suc n) fs"
  shows "progress 0 s fst (decode_fields env n noinit a s h fs dest)"
  unfolding decode_fields_def Let_def
  by (rule progress_bind [OF decode_loop_progress [OF m cb], where j = 0])
    (auto simp: f simp del: fits.simps intro!: progress_access progress_if progress_Fail progress_Ok)

lemma leave_scope_progress: "progress m s fst r \<Longrightarrow> progress m s fst (leave_scope a r)"
  by (cases r) (auto simp: progress_def)

lemma noinit_progress:
  assumes cb: "callbacks_consume env"
  shows "msg_progress n (pb_decode_noinit env n)"
proof (induction n)
  case 0
  then show ?case by (simp add: msg_progress_def)
next
  case (Suc n)
  show ?case
    unfolding msg_progress_def pb_decode_noinit.simps
    by (auto simp: enter_local_def Let_def simp del: fits.simps
        intro!: leave_scope_progress decode_fields_progress Suc cb)
qed

lemma pb_decode_progress:
  "callbacks_consume env \<Longrightarrow> fits n fs \<Longrightarrow> progress 0 s fst (pb_decode env n s h fs dest)"
  unfolding pb_decode_def by (rule decode_with_progress [OF noinit_progress])

end
