(* ===== verification/Pb_Memory_Safe.thy ===== *)
theory Pb_Memory_Safe
  imports Pb_Decode_Flow
begin

text \<open>
  Memory safety of decoding.  \<open>laid_out only_static n N fs\<close> says that the descriptors \<open>fs\<close> describe a structure of
  \<open>N\<close> bytes with messages nested less than \<open>n\<close> deep: every object that a descriptor leads to is inside the structure
  and large enough for its type.  \<open>stays R h h'\<close> says that memory changed in the addresses \<open>R\<close> only and that nothing was
  allocated, freed or left mapped.  For such structures initialisation settles in the structure, and for those whose
  fields are all static decoding any input does: it never reaches undefined behaviour.
\<close>

declare static_packed.simps [simp del]
  and decode_loop.simps [simp del]
  and find_extension_loop.simps [simp del]

section \<open>Changes in a region\<close>

definition stays :: "addr set \<Rightarrow> heap \<Rightarrow> heap \<Rightarrow> bool" where
  "stays R h h' \<longleftrightarrow> dom (mem h') = dom (mem h) \<and> live h' = live h \<and> brk h \<le> brk h' \<and> (\<forall>x. x \<notin> R \<longrightarrow> mem h' x = mem h x)"

text \<open>The region is mapped, and nothing is mapped where the next object will be.\<close>

definition heap_over :: "addr set \<Rightarrow> heap \<Rightarrow> bool" where
  "heap_over R h \<longleftrightarrow> R \<subseteq> dom (mem h) \<and> (\<forall>x\<ge>brk h. mem h x = None)"

lemma stays_refl [simp]: "stays R h h"
  by (simp add: stays_def)

lemma stays_trans: "stays R h h1 \<Longrightarrow> stays R h1 h2 \<Longrightarrow> stays R h h2"
  by (auto simp: stays_def)

lemma heap_over_stays: "heap_over R h \<Longrightarrow> stays R' h h' \<Longrightarrow> heap_over R h'"
  unfolding heap_over_def stays_def by (metis domIff order_trans)

definition stores :: "addr set \<Rightarrow> heap \<Rightarrow> heap option \<Rightarrow> bool" where
  "stores R h x \<longleftrightarrow> (\<exists>h'. x = Some h' \<and> stays R h h')"

lemma store_bytes_stores:
  assumes "region a (length bs) \<subseteq> R" and "heap_over R h"
  shows "stores R h (store_bytes h a bs)"
proof -
  have "mapped h a (length bs)" using assms by (auto simp: mapped_def heap_over_def)
  then obtain h' where h': "store_bytes h a bs = Some h'" using store_bytes_iff by blast
  show ?thesis using h' store_bytes_frame [OF h'] assms(1) by (auto simp: stores_def stays_def)
qed

lemma typed_stores:
  assumes "heap_over R h"
  shows "region a n \<subseteq> R \<Longrightarrow> stores R h (store_nat h n a v)"
    and "region a 4 \<subseteq> R \<Longrightarrow> stores R h (store_u32 h a w)"
    and "region a 1 \<subseteq> R \<Longrightarrow> stores R h (store_bool h a b)"
    and "region a 8 \<subseteq> R \<Longrightarrow> stores R h (store_ptr h a p)"
    and "region a n \<subseteq> R \<Longrightarrow> stores R h (fill_zero h a n)"
    and "region a n \<subseteq> R \<Longrightarrow> n \<le> length bs \<Longrightarrow> stores R h (store_prefix h a bs n)"
  using assms by (simp_all add: store_nat_def store_u32_def store_bool_def store_ptr_def fill_zero_def store_prefix_def
      store_bytes_stores One_nat_def del: store_bytes.simps)

lemma load_u32_over: "heap_over R h \<Longrightarrow> region a 4 \<subseteq> R \<Longrightarrow> \<exists>w. load_u32 h a = Some w"
  using load_bytes_mapped [of h a 4] by (auto simp: load_u32_def load_nat_def heap_over_def mapped_def)

section \<open>Functions that settle\<close>

text \<open>A function on the heap alone returns normally.\<close>

definition settles :: "addr set \<Rightarrow> heap \<Rightarrow> 'f heap_res \<Rightarrow> bool" where
  "settles R h r \<longleftrightarrow> (\<exists>h'. r = Ok h' \<and> stays R h h')"

lemma settles_Ok [simp]: "settles R h (Ok h)"
  by (simp add: settles_def)

lemma settles_access: "stores R h x \<Longrightarrow> settles R h (access x Ok)"
  by (auto simp: stores_def settles_def)

lemma settles_store:
  "stores R h x \<Longrightarrow> (\<And>h'. x = Some h' \<Longrightarrow> stays R h h' \<Longrightarrow> settles R h' (k h')) \<Longrightarrow> settles R h (access x k)"
  unfolding stores_def settles_def by (elim exE conjE) (metis access_simps(2) stays_trans)

lemma settles_load: "\<exists>v. x = Some v \<Longrightarrow> (\<And>v. x = Some v \<Longrightarrow> settles R h (k v)) \<Longrightarrow> settles R h (access x k)"
  by auto

lemma settles_andThen:
  "settles R h r \<Longrightarrow> (\<And>h'. r = Ok h' \<Longrightarrow> stays R h h' \<Longrightarrow> settles R h' (k h')) \<Longrightarrow> settles R h (andThen r k)"
  unfolding settles_def by (elim exE conjE) (metis andThen.simps(4) stays_trans)

lemma andThen_access_Ok: "andThen (access x (\<lambda>a. Ok (g a))) k = access x (\<lambda>a. k (g a))"
  by (cases x) auto

section \<open>Structures\<close>

lemma static_not_pointer: "PB_ATYPE t = PB_ATYPE_STATIC \<Longrightarrow> PB_ATYPE t \<noteq> PB_ATYPE_POINTER"
  by (simp add: One_nat_def)

text \<open>A value of a field in \<open>data_size\<close> bytes; \<open>lay\<close> tells of submessages whether they fit.\<close>

definition value_fits :: "(nat \<Rightarrow> pb_field list \<Rightarrow> bool) \<Rightarrow> pb_field \<Rightarrow> bool" where
  "value_fits lay f \<longleftrightarrow> (let l = PB_LTYPE (fld_type f); n = unat (data_size f) in
     if l = PB_LTYPE_SUBMESSAGE then (case fld_ptr f of PtrFields fs \<Rightarrow> lay n fs | _ \<Rightarrow> False)
     else l \<in> {PB_LTYPE_BOOL, PB_LTYPE_VARINT, PB_LTYPE_UVARINT, PB_LTYPE_SVARINT, PB_LTYPE_FIXED32, PB_LTYPE_FIXED64,
          PB_LTYPE_BYTES, PB_LTYPE_STRING, PB_LTYPE_FIXED_LENGTH_BYTES}
       \<and> (case fld_ptr f of PtrNull \<Rightarrow> True | PtrDefault bs \<Rightarrow> n \<le> length bs | PtrFields fs \<Rightarrow> False)
       \<and> (if l = PB_LTYPE_BOOL then 1 \<le> n else if l = PB_LTYPE_FIXED32 then 4 \<le> n else if l = PB_LTYPE_FIXED64 then 8 \<le> n else True))"

definition extent :: "pb_field \<Rightarrow> nat" where
  "extent f = unat (data_size f) * (if PB_HTYPE (fld_type f) = PB_HTYPE_REPEATED then unat (array_size f) else 1)"

text \<open>The objects that an iterator leads to; \<open>inside a n\<close> says that \<open>n\<close> bytes at \<open>a\<close> are.\<close>

definition slot_in :: "bool \<Rightarrow> (nat \<Rightarrow> pb_field list \<Rightarrow> bool) \<Rightarrow> (addr \<Rightarrow> nat \<Rightarrow> bool) \<Rightarrow> pb_field_iter \<Rightarrow> bool" where
  "slot_in only_static lay inside it \<longleftrightarrow> (let f = it_field it; a = PB_ATYPE (fld_type f); t = PB_HTYPE (fld_type f);
        count = (if t = PB_HTYPE_REPEATED \<or> t = PB_HTYPE_ONEOF then inside (pSize it) 4 else True) in
     if a = PB_ATYPE_STATIC
     then inside (pData it) (extent f) \<and> extent f < 2 ^ 32 \<and> value_fits lay f \<and> count
       \<and> (if t = PB_HTYPE_OPTIONAL \<and> pSize it \<noteq> pData it then inside (pSize it) 1 else True)
     else \<not> only_static \<and> (if a = PB_ATYPE_POINTER then inside (pData it) 8 \<and> count else True))"

primrec laid_out :: "bool \<Rightarrow> nat \<Rightarrow> nat \<Rightarrow> pb_field list \<Rightarrow> bool" where
  "laid_out only_static 0 N fs \<longleftrightarrow> False"
| "laid_out only_static (Suc n) N fs \<longleftrightarrow> 0 < nfields fs \<and> fits (Suc n) fs
     \<and> list_all (\<lambda>i. slot_in only_static (laid_out only_static n) (\<lambda>a k. 0 \<le> a \<and> a + int k \<le> int N) (iter_at fs 0 i)) [0..<nfields fs]"

text \<open>The places relative to the structure do not depend on where it is.\<close>

lemma iter_at_shift:
  "i < nfields fs \<Longrightarrow> pData (iter_at fs d i) = d + pData (iter_at fs 0 i) \<and> pSize (iter_at fs d i) = d + pSize (iter_at fs 0 i)"
proof (induction i)
  case 0
  then show ?case by (simp add: pb_field_iter_begin_def Let_def)
next
  case (Suc i)
  then have IH: "pData (iter_at fs d i) = d + pData (iter_at fs 0 i)" "pSize (iter_at fs d i) = d + pSize (iter_at fs 0 i)" by simp_all
  have f: "it_field (iter_at fs c i) = field_at fs i" "it_pos (iter_at fs c i) = i" for c
    using Suc.prems it_field_at [of i fs c] iter_at_pos [of i fs c] by simp_all
  have "fld_tag (field_at fs i) \<noteq> 0" "fld_tag (field_at fs (Suc i)) \<noteq> 0" using tag_before_end Suc.prems by simp_all
  then show ?case using IH f [of d] f [of 0]
    by (auto simp: pb_field_iter_next_def Let_def it_field_def)
qed

lemma slot_at:
  assumes "laid_out st (Suc n) N fs" and "i < nfields fs" and "region d N \<subseteq> R"
  shows "slot_in st (laid_out st n) (\<lambda>a k. region a k \<subseteq> R) (iter_at fs d i)"
proof -
  have s: "slot_in st (laid_out st n) (\<lambda>a k. 0 \<le> a \<and> a + int k \<le> int N) (iter_at fs 0 i)"
    using assms(1,2) by (simp add: list_all_iff)
  have f: "it_field (iter_at fs d i) = it_field (iter_at fs 0 i)" using assms(2) it_field_at [of i fs] by simp
  have sub: "region (d + a) k \<subseteq> R" if "0 \<le> a" "a + int k \<le> int N" for a k
    using that assms(3) by (force simp: region_def)
  show ?thesis using s sub unfolding slot_in_def f iter_at_shift [OF assms(2), of d, THEN conjunct1]
      iter_at_shift [OF assms(2), of d, THEN conjunct2] Let_def
    by (auto split: if_splits)
qed

section \<open>Initialisation settles\<close>

lemma each_field_settles:
  assumes body: "\<And>i h. i < nfields fs \<Longrightarrow> heap_over R h \<Longrightarrow> settles R h (body (iter_at fs d i) h)"
    and i: "i < nfields fs" "nfields fs - i \<le> k" and h: "heap_over R h"
  shows "settles R h (each_field k body (iter_at fs d i) h)"
  using i h
proof (induction k arbitrary: i h)
  case (Suc k)
  show ?case
    unfolding each_field.simps
  proof (rule settles_andThen [OF body [OF Suc.prems(1,3)]])
    fix h'
    assume "stays R h h'"
    then have h': "heap_over R h'" using Suc.prems(3) by (rule heap_over_stays [rotated])
    show "settles R h' (let (more, it') = pb_field_iter_next (iter_at fs d i) in
        if more then each_field k body it' h' else Ok h')"
      using Suc.IH [of "Suc i" h'] Suc.prems h' iter_next_at [OF Suc.prems(1), of d]
      by (cases "Suc i < nfields fs") (simp_all del: iter_at.simps)
  qed
qed simp

lemma settles_if: "(b \<Longrightarrow> settles R h x) \<Longrightarrow> (\<not> b \<Longrightarrow> settles R h y) \<Longrightarrow> settles R h (if b then x else y)"
  by simp

text \<open>The statement of a whole message, as the induction over the nesting uses it.\<close>

definition message_settles :: "(nat \<Rightarrow> pb_field list \<Rightarrow> bool) \<Rightarrow> addr set \<Rightarrow> (pb_field list \<Rightarrow> addr \<Rightarrow> heap \<Rightarrow> 'f heap_res) \<Rightarrow> bool" where
  "message_settles lay R rec \<longleftrightarrow> (\<forall>N sub d h. lay N sub \<longrightarrow> region d N \<subseteq> R \<longrightarrow> heap_over R h \<longrightarrow> settles R h (rec sub d h))"

lemma message_settlesD:
  "message_settles lay R rec \<Longrightarrow> lay N sub \<Longrightarrow> region d N \<subseteq> R \<Longrightarrow> heap_over R h \<Longrightarrow> settles R h (rec sub d h)"
  by (simp add: message_settles_def)

abbreviation within :: "addr set \<Rightarrow> addr \<Rightarrow> nat \<Rightarrow> bool" where
  "within R a k \<equiv> region a k \<subseteq> R"

lemma value_settles:
  assumes v: "value_fits lay f" and R: "within R p (unat (data_size f))" and h: "heap_over R h"
    and rec: "message_settles lay R rec"
  shows "settles R h (if PB_LTYPE (fld_type f) = PB_LTYPE_SUBMESSAGE
         then (case fld_ptr f of PtrFields fs \<Rightarrow> rec fs p h | _ \<Rightarrow> Undef)
         else (case fld_ptr f of
             PtrNull \<Rightarrow> access (fill_zero h p (unat (data_size f))) Ok
           | PtrDefault bs \<Rightarrow> access (store_prefix h p bs (unat (data_size f))) Ok
           | PtrFields fs \<Rightarrow> Undef))"
proof (cases "fld_ptr f")
  case (PtrFields fs)
  then show ?thesis using v R h message_settlesD [OF rec] by (auto simp: value_fits_def Let_def split: if_splits)
qed (use v R h in \<open>auto simp: value_fits_def Let_def intro!: settles_access typed_stores split: if_splits\<close>)

lemma within_extent:
  "within R p (extent f) \<Longrightarrow> PB_HTYPE (fld_type f) \<noteq> PB_HTYPE_REPEATED \<Longrightarrow> within R p (unat (data_size f))"
  by (simp add: extent_def)

lemma set_to_default_settles:
  assumes s: "slot_in st lay (within R) it" and ext: "PB_LTYPE (fld_type (it_field it)) \<noteq> PB_LTYPE_EXTENSION"
    and h: "heap_over R h" and rec: "message_settles lay R rec"
  shows "settles R h (pb_field_set_to_default D rec (Suc k) it h)"
proof -
  let ?f = "it_field it"
  show ?thesis
  proof (cases "PB_ATYPE (fld_type ?f) = PB_ATYPE_STATIC")
    case True
    then have v: "value_fits lay ?f" "within R (pData it) (extent ?f)" using s by (simp_all add: slot_in_def Let_def)
    define init where "init h' = (if PB_LTYPE (fld_type ?f) = PB_LTYPE_SUBMESSAGE
         then (case fld_ptr ?f of PtrFields fs \<Rightarrow> rec fs (pData it) h' | _ \<Rightarrow> Undef)
         else (case fld_ptr ?f of
             PtrNull \<Rightarrow> access (fill_zero h' (pData it) (unat (data_size ?f))) Ok
           | PtrDefault bs \<Rightarrow> access (store_prefix h' (pData it) bs (unat (data_size ?f))) Ok
           | PtrFields fs \<Rightarrow> Undef))" for h'
    have data: "settles R h' (init h')"
      if "PB_HTYPE (fld_type ?f) \<noteq> PB_HTYPE_REPEATED" "heap_over R h'" for h'
      unfolding init_def using v that rec by (intro value_settles within_extent)
    have count: "settles R h (access (store_u32 h (pSize it) 0) Ok)"
      if "PB_HTYPE (fld_type ?f) = PB_HTYPE_REPEATED \<or> PB_HTYPE (fld_type ?f) = PB_HTYPE_ONEOF"
      using s True that h by (auto simp: slot_in_def Let_def intro!: settles_access typed_stores)
    have has: "settles R h (access (store_bool h (pSize it) False) init)"
      if "PB_HTYPE (fld_type ?f) = PB_HTYPE_OPTIONAL" "pSize it \<noteq> pData it"
      using s True that h
      by (intro settles_store typed_stores data) (auto simp: slot_in_def Let_def pb_defs dest: heap_over_stays)
    have e: "pb_field_set_to_default D rec (Suc k) it h =
      (if PB_HTYPE (fld_type ?f) = PB_HTYPE_OPTIONAL \<and> pSize it \<noteq> pData it
       then access (store_bool h (pSize it) False) init
       else if PB_HTYPE (fld_type ?f) = PB_HTYPE_REPEATED \<or> PB_HTYPE (fld_type ?f) = PB_HTYPE_ONEOF
       then access (store_u32 h (pSize it) 0) Ok
       else init h)"
      using ext True by (auto simp: Let_def init_def [abs_def] andThen_access_Ok)
    show ?thesis unfolding e using has count data h by auto
  next
    case False
    then show ?thesis
      using s ext h
      by (auto simp: slot_in_def Let_def intro!: settles_store settles_access typed_stores dest: heap_over_stays split: if_splits)
  qed
qed

lemma set_to_defaults_settles:
  assumes "laid_out st n N fs" and "within R d N" and "heap_over R h"
  shows "settles R h (pb_message_set_to_defaults D n fs d h :: 'f heap_res)"
  using assms
proof (induction n arbitrary: N fs d h)
  case (Suc n)
  have rec: "message_settles (laid_out st n) R (pb_message_set_to_defaults D n :: pb_field list \<Rightarrow> addr \<Rightarrow> heap \<Rightarrow> 'f heap_res)"
    using Suc.IH by (auto simp: message_settles_def)
  have ne: "0 < nfields fs" and f: "fits (Suc n) fs" using Suc.prems(1) by simp_all
  have "settles R h (each_field (Suc (length fs))
      (pb_field_set_to_default D (pb_message_set_to_defaults D n) (Suc n)) (iter_at fs d 0) h :: 'f heap_res)"
  proof (rule each_field_settles [OF _ ne _ Suc.prems(3)])
    fix i h'
    assume i: "i < nfields fs" and h': "heap_over R h'"
    have "PB_LTYPE (fld_type (it_field (iter_at fs d i))) \<noteq> PB_LTYPE_EXTENSION"
      using fits_it_field [of n "iter_at fs d i"] f by (simp add: field_fits_def del: fits.simps)
    with slot_at [OF Suc.prems(1) i Suc.prems(2)] h' rec
    show "settles R h' (pb_field_set_to_default D (pb_message_set_to_defaults D n) (Suc n) (iter_at fs d i) h' :: 'f heap_res)"
      by (intro set_to_default_settles)
  qed (use nfields_le [of fs] in simp)
  then show ?case using ne begin_nonempty [of fs d]
    by (simp add: case_prod_unfold Let_def del: each_field.simps pb_field_set_to_default.simps)
qed simp

section \<open>A message without pointers has nothing to release\<close>

lemma release_items_none:
  "(\<And>i. i < count \<Longrightarrow> rel (p + int (i * step)) h = Ok h) \<Longrightarrow> release_items rel count p step h = Ok h"
proof (induction count arbitrary: p)
  case (Suc c)
  have "rel (p + int step + int (i * step)) h = Ok h" if "i < c" for i
    using Suc.prems [of "Suc i"] that by (simp add: algebra_simps)
  then show ?case using Suc.IH [of "p + int step"] Suc.prems [of 0] by simp
qed simp

lemma each_field_none:
  "(\<And>i. i < nfields fs \<Longrightarrow> body (iter_at fs d i) h = Ok h) \<Longrightarrow> i < nfields fs \<Longrightarrow> nfields fs - i \<le> k \<Longrightarrow>
   each_field k body (iter_at fs d i) h = Ok h"
proof (induction k arbitrary: i)
  case (Suc k)
  show ?case using Suc.IH [of "Suc i"] Suc.prems iter_next_at [OF Suc.prems(2), of d]
    by (cases "Suc i < nfields fs") (simp_all del: iter_at.simps)
qed simp

lemma region_sub: "a \<le> b \<Longrightarrow> b + int m \<le> a + int n \<Longrightarrow> region b m \<subseteq> region a n"
  by (auto simp: region_def)

text \<open>The items of an array are inside it.\<close>

lemma item_within:
  assumes "within R p (extent f)" and "i < unat (array_size f)" and "PB_HTYPE (fld_type f) = PB_HTYPE_REPEATED"
  shows "within R (p + int (i * unat (data_size f))) (unat (data_size f))"
proof -
  have "i * unat (data_size f) + unat (data_size f) = Suc i * unat (data_size f)" by simp
  also have "\<dots> \<le> unat (array_size f) * unat (data_size f)" using assms(2) by (intro mult_le_mono1) simp
  finally have "i * unat (data_size f) + unat (data_size f) \<le> extent f"
    using assms(3) by (simp add: extent_def mult.commute)
  then have "int (i * unat (data_size f)) + int (unat (data_size f)) \<le> int (extent f)"
    by (simp only: of_nat_add [symmetric] of_nat_le_iff)
  then have "region (p + int (i * unat (data_size f))) (unat (data_size f)) \<subseteq> region p (extent f)"
    by (intro region_sub) simp_all
  with assms(1) show ?thesis by blast
qed

lemma release_count_bound:
  assumes "slot_in st lay (within R) it" "heap_over R h" "PB_ATYPE (fld_type (it_field it)) = PB_ATYPE_STATIC"
  obtains count where "release_count it h = Some count"
    "PB_HTYPE (fld_type (it_field it)) = PB_HTYPE_REPEATED \<Longrightarrow> count \<le> array_size (it_field it)"
    "PB_HTYPE (fld_type (it_field it)) \<noteq> PB_HTYPE_REPEATED \<Longrightarrow> count = 1"
proof -
  let ?f = "it_field it"
  have "\<exists>w. load_u32 h (pSize it) = Some w" if "PB_HTYPE (fld_type ?f) = PB_HTYPE_REPEATED"
    using assms that by (intro load_u32_over) (auto simp: slot_in_def Let_def)
  then obtain w where w: "PB_HTYPE (fld_type ?f) = PB_HTYPE_REPEATED \<Longrightarrow> load_u32 h (pSize it) = Some w" by blast
  show ?thesis
  proof (cases "PB_HTYPE (fld_type ?f) = PB_HTYPE_REPEATED")
    case True
    show ?thesis
      by (rule that [of "if pSize it = pData it \<or> array_size ?f < w then array_size ?f else w"])
        (use True w assms(3) in \<open>auto simp: release_count_def Let_def\<close>)
  qed (use that [of 1] in \<open>simp add: release_count_def Let_def\<close>)
qed

lemma release_single_none:
  assumes s: "slot_in True lay (within R) it" and ext: "PB_LTYPE (fld_type (it_field it)) \<noteq> PB_LTYPE_EXTENSION"
    and h: "heap_over R h" and rec: "\<And>N sub d. lay N sub \<Longrightarrow> within R d N \<Longrightarrow> rel sub d h = Ok h"
  shows "pb_release_single_field D rel (Suc k) it h = Ok h"
proof -
  let ?f = "it_field it"
  have a: "PB_ATYPE (fld_type ?f) = PB_ATYPE_STATIC" and v: "value_fits lay ?f" and e: "within R (pData it) (extent ?f)"
    using s by (simp_all add: slot_in_def Let_def split: if_splits)
  have np: "PB_ATYPE (fld_type ?f) \<noteq> PB_ATYPE_POINTER" using a by (rule static_not_pointer)
  then have p: "release_pointer it h = Ok h" by (simp add: release_pointer_def Let_def)
  obtain count where c: "release_count it h = Some count"
    "PB_HTYPE (fld_type ?f) = PB_HTYPE_REPEATED \<Longrightarrow> count \<le> array_size ?f"
    "PB_HTYPE (fld_type ?f) \<noteq> PB_HTYPE_REPEATED \<Longrightarrow> count = 1"
    using release_count_bound [OF s h a] by blast
  have item: "within R (pData it + int (i * unat (data_size ?f))) (unat (data_size ?f))" if "i < unat count" for i
  proof (cases "PB_HTYPE (fld_type ?f) = PB_HTYPE_REPEATED")
    case True
    then show ?thesis using item_within [OF e _ True] c(2) that by (simp add: word_le_nat_alt)
  next
    case False
    then show ?thesis using within_extent [OF e False] c(3) that by simp
  qed
  have items: "(case fld_ptr ?f of PtrFields fs \<Rightarrow> release_items (rel fs) (unat count) (pData it) (unat (data_size ?f)) h
      | _ \<Rightarrow> if count = 0 then Ok h else Undef) = Ok h" if "PB_LTYPE (fld_type ?f) = PB_LTYPE_SUBMESSAGE"
    using v that rec item by (auto simp: value_fits_def Let_def intro!: release_items_none split: pb_ptr.splits)
  have "\<exists>w. load_u32 h (pSize it) = Some w" if "PB_HTYPE (fld_type ?f) = PB_HTYPE_ONEOF"
    using s h that a by (intro load_u32_over) (auto simp: slot_in_def Let_def)
  then show ?thesis using ext np p c(1) items by (auto simp: Let_def)
qed

lemma release_none:
  assumes "laid_out True n N fs" and "within R d N" and "heap_over R h"
  shows "pb_release D n fs d h = (Ok h :: 'f heap_res)"
  using assms
proof (induction n arbitrary: N fs d)
  case (Suc n)
  have ne: "0 < nfields fs" and f: "fits (Suc n) fs" using Suc.prems(1) by simp_all
  have "each_field (Suc (length fs)) (pb_release_single_field D (pb_release D n) (Suc n)) (iter_at fs d 0) h
      = (Ok h :: 'f heap_res)"
  proof (rule each_field_none [OF _ ne])
    fix i
    assume i: "i < nfields fs"
    have "PB_LTYPE (fld_type (it_field (iter_at fs d i))) \<noteq> PB_LTYPE_EXTENSION"
      using fits_it_field [of n "iter_at fs d i"] f by (simp add: field_fits_def del: fits.simps)
    with slot_at [OF Suc.prems(1) i Suc.prems(2)] Suc.prems(3) Suc.IH
    show "pb_release_single_field D (pb_release D n) (Suc n) (iter_at fs d i) h = (Ok h :: 'f heap_res)"
      by (intro release_single_none [where lay = "laid_out True n"]) simp_all
  qed (use nfields_le [of fs] in simp)
  then show ?case using ne begin_nonempty [of fs d]
    by (simp add: case_prod_unfold Let_def del: each_field.simps pb_release_single_field.simps)
qed simp

section \<open>The contract of a decoding function\<close>

text \<open>The call does not reach undefined behaviour and changes memory in \<open>R\<close> only.  That it returns is \<open>progress\<close>.\<close>

definition safe :: "addr set \<Rightarrow> heap \<Rightarrow> ('a \<Rightarrow> heap) \<Rightarrow> ('a, 'u pb_istream \<times> heap) res \<Rightarrow> bool" where
  "safe R h hp r \<longleftrightarrow> (case r of Undef \<Rightarrow> False | Timeout \<Rightarrow> True
     | Fail (s', h') \<Rightarrow> stays R h h' | Ok a \<Rightarrow> stays R h (hp a))"

lemma safe_simps [simp]:
  "safe R h hp Timeout" "\<not> safe R h hp Undef"
  "safe R h hp (Fail (s', h')) \<longleftrightarrow> stays R h h'" "safe R h hp (Ok a) \<longleftrightarrow> stays R h (hp a)"
  by (simp_all add: safe_def)

lemma safe_after: "stays R h h1 \<Longrightarrow> safe R h1 hp r \<Longrightarrow> safe R h hp r"
  by (auto simp: safe_def intro: stays_trans split: res.splits)

lemma safe_bind:
  "safe R h hp r \<Longrightarrow> (\<And>a. r = Ok a \<Longrightarrow> stays R h (hp a) \<Longrightarrow> safe R (hp a) hp' (k a)) \<Longrightarrow> safe R h hp' (andThen r k)"
  by (cases r) (auto intro: safe_after)

lemma safe_read:
  assumes "reads m s r" and "istream_ok s"
    and "\<And>a s'. r = Ok (a, s') \<Longrightarrow> istream_ok s' \<Longrightarrow> safe R h hp (k a s' h)"
  shows "safe R h hp (andThen (onStream r h) (\<lambda>(a, s, h). k a s h))"
proof (cases r)
  case (Ok as)
  obtain a s' where as: "as = (a, s')" by (cases as)
  with assms(1,2) Ok have "istream_ok s'" by (auto simp: reads_def intro: advanced_ok)
  with assms(3) Ok as show ?thesis by simp
qed (use assms(1,2) in \<open>auto simp: reads_def\<close>)

lemma safe_load: "\<exists>v. x = Some v \<Longrightarrow> (\<And>v. x = Some v \<Longrightarrow> safe R h hp (k v)) \<Longrightarrow> safe R h hp (access x k)"
  by auto

lemma safe_store:
  "stores R h x \<Longrightarrow> (\<And>h'. stays R h h' \<Longrightarrow> safe R h' hp (k h')) \<Longrightarrow> safe R h hp (access x k)"
  by (auto simp: stores_def intro: safe_after)

lemma safe_if: "(b \<Longrightarrow> safe R h hp x) \<Longrightarrow> (\<not> b \<Longrightarrow> safe R h hp y) \<Longrightarrow> safe R h hp (if b then x else y)"
  by simp

lemma status_of_simps [simp]: "status_of (Inl a) = (True, a)" "status_of (Inr a) = (False, a)"
  by (simp_all add: status_of_def)

lemma safe_status:
  assumes "safe R h snd r"
    and "\<And>s' h'. r = Ok (s', h') \<Longrightarrow> stays R h h' \<Longrightarrow> safe R h' hp (k (Inl (s', h')))"
    and "\<And>s' h'. r = Fail (s', h') \<Longrightarrow> stays R h h' \<Longrightarrow> safe R h' hp (k (Inr (s', h')))"
  shows "safe R h hp (withStatus r k)"
  using assms by (cases r) (auto intro: safe_after)

lemma safe_settles:
  assumes "settles R h r" and "\<And>h'. stays R h h' \<Longrightarrow> safe R h' hp (k h')"
  shows "safe R h hp (andThen r k)"
proof -
  from assms(1) obtain h' where "r = Ok h'" "stays R h h'" unfolding settles_def by blast
  with assms(2) show ?thesis by (auto intro: safe_after)
qed

text \<open>The stream stays well formed.\<close>

lemma progress_istream:
  assumes "progress m s st r" and "istream_ok s"
  shows "r = Ok a \<Longrightarrow> istream_ok (st a)" and "r = Fail (s', h') \<Longrightarrow> istream_ok s'"
  using assms by (auto simp: progress_def intro: advanced_ok shrunk_ok)

section \<open>Values\<close>

lemma store_then:
  "stores R h x \<Longrightarrow> safe R h snd (access x (\<lambda>h. Ok (s, h)))"
  by (auto simp: stores_def)

lemma pb_read_length: "pb_read False s n = Ok (bs, s') \<Longrightarrow> length bs = n"
  using read_checked_Ok [of s n bs s'] by (auto simp: pb_read_def split: if_splits)

lemma read_into_safe:
  assumes "within R p n" and "heap_over R h" and "istream_ok s"
  shows "safe R h snd (read_into s h p n)"
  unfolding read_into_def
proof (rule safe_read [OF pb_read_reads assms(3)])
  fix bytes s'
  assume "pb_read False s n = Ok (bytes, s')"
  with assms(1) pb_read_length have "within R p (length bytes)" by metis
  then show "safe R h snd (access (store_bytes h p bytes) (\<lambda>h. Ok (s', h)))"
    using assms(2) by (intro store_then store_bytes_stores)
qed

lemma skip_field_safe: "istream_ok s \<Longrightarrow> safe R h snd (skip_field s h w)"
  unfolding skip_field_def by (rule safe_read [OF pb_skip_field_reads]) simp_all

lemma close_with_safe:
  assumes "istream_ok sub"
  shows "safe R h snd (close_with status s sub h)"
proof -
  have "defined (pb_close_string_substream s sub)" using assms by (rule pb_close_string_substream_other(1))
  then show ?thesis
    by (cases "pb_close_string_substream s sub") (auto simp: close_with_def)
qed

lemma store_clamped_safe:
  "within R p (unat (data_size f)) \<Longrightarrow> heap_over R h \<Longrightarrow> safe R h snd (store_clamped c v s h f p)"
  using typed_stores(1) [of R h p "unat (data_size f)"]
  by (auto simp: store_clamped_def intro!: safe_store split: option.split)

text \<open>A decoder with its argument in the structure.\<close>

definition decodes_in :: "addr set \<Rightarrow> ('u pb_istream \<Rightarrow> heap \<Rightarrow> 'u dec) \<Rightarrow> bool" where
  "decodes_in R dec \<longleftrightarrow> (\<forall>s h. istream_ok s \<longrightarrow> heap_over R h \<longrightarrow> safe R h snd (dec s h))"

lemma decodes_inD: "decodes_in R dec \<Longrightarrow> istream_ok s \<Longrightarrow> heap_over R h \<Longrightarrow> safe R h snd (dec s h)"
  by (simp add: decodes_in_def)

lemma within_at: "within R p n \<Longrightarrow> p \<le> q \<Longrightarrow> q + int m \<le> p + int n \<Longrightarrow> within R q m"
  using region_sub [of p q m n] by auto

lemma within_less: "within R p n \<Longrightarrow> m \<le> n \<Longrightarrow> within R p m"
  by (erule within_at) simp_all

lemma varints_safe:
  assumes "within R p (unat (data_size f))"
  shows "decodes_in R (\<lambda>s h. pb_dec_varint s h f p)" "decodes_in R (\<lambda>s h. pb_dec_uvarint s h f p)"
    "decodes_in R (\<lambda>s h. pb_dec_svarint s h f p)"
  using assms
  unfolding decodes_in_def pb_dec_varint_def pb_dec_uvarint_def pb_dec_svarint_def Let_def
  by (auto intro!: safe_read [OF pb_decode_varint_reads] safe_read [OF pb_decode_svarint_reads] store_clamped_safe)

lemma fixed_safe:
  assumes "within R p n"
  shows "1 \<le> n \<Longrightarrow> decodes_in R (\<lambda>s h. pb_dec_bool s h f p)" "4 \<le> n \<Longrightarrow> decodes_in R (\<lambda>s h. pb_dec_fixed32 s h f p)"
    "8 \<le> n \<Longrightarrow> decodes_in R (\<lambda>s h. pb_dec_fixed64 s h f p)"
  using assms
  unfolding decodes_in_def pb_dec_bool_def pb_dec_fixed32_def pb_dec_fixed64_def
  by (auto intro!: safe_read [OF pb_decode_varint32_reads] safe_read [OF pb_decode_fixed32_reads]
      safe_read [OF pb_decode_fixed64_reads] store_then typed_stores simp: within_less [OF assms] del: subsetI)

lemma fixed_length_safe:
  assumes "within R p (unat (data_size f))"
  shows "decodes_in R (\<lambda>s h. pb_dec_fixed_length_bytes s h f p)"
  using assms unfolding decodes_in_def pb_dec_fixed_length_bytes_def
  by (auto intro!: safe_read [OF pb_decode_varint32_reads] safe_if store_then typed_stores read_into_safe)

lemma uint_sum_le: "unat (w :: uint32) + k \<le> unat (v :: uint32) \<Longrightarrow> uint w + int k \<le> uint v"
proof -
  assume "unat w + k \<le> unat v"
  then have "int (unat w + k) \<le> int (unat v)" by (simp only: of_nat_le_iff)
  then show ?thesis by simp
qed

lemma bytes_safe:
  assumes R: "within R p (unat (data_size f))" and st: "PB_ATYPE (fld_type f) = PB_ATYPE_STATIC"
  shows "decodes_in R (\<lambda>s h. pb_dec_bytes s h f p)"
  unfolding decodes_in_def
proof (intro allI impI)
  fix s :: "'a pb_istream" and h
  assume s: "istream_ok s" and h: "heap_over R h"
  show "safe R h snd (pb_dec_bytes s h f p)"
    unfolding pb_dec_bytes_def Let_def if_not_P [OF static_not_pointer [OF st]]
  proof (rule safe_read [OF pb_decode_varint32_reads s])
    fix sz :: uint32 and s'
    assume s': "istream_ok s'"
    let ?n = "PB_BYTES_ARRAY_T_ALLOCSIZE (unat sz)"
    have n: "?n = unat sz + 4"
      using unsigned_less [where ?'a = nat, of sz] by (simp add: PB_BYTES_ARRAY_T_ALLOCSIZE_def size_add_def)
    have fill: "safe R h snd (access (store_u32 h (bytes_array_size p) sz)
        (\<lambda>h. read_into s' h (bytes_array_bytes p) (unat sz)))" if "?n \<le> unat (data_size f)"
    proof (rule safe_store [OF typed_stores(2) [OF h]])
      show "within R (bytes_array_size p) 4" using that n by (simp add: bytes_array_size_def within_less [OF R])
      fix h'
      assume "stays R h h'"
      moreover have "within R (bytes_array_bytes p) (unat sz)"
        using uint_sum_le [of sz 4 "data_size f"] that n by (intro within_at [OF R]) (simp_all add: bytes_array_bytes_def)
      ultimately show "safe R h' snd (read_into s' h' (bytes_array_bytes p) (unat sz))"
        using h s' by (intro read_into_safe) (auto intro: heap_over_stays)
    qed
    then show "safe R h snd (if PB_SIZE_MAX < sz then Fail (i_error s' ''bytes overflow'', h)
       else if ?n < unat sz then Fail (i_error s' ''size too large'', h)
       else andThen (if unat (data_size f) < ?n then Fail (i_error s' ''bytes overflow'', h) else Ok (p, h))
           (\<lambda>(bdest, h). access (store_u32 h (bytes_array_size bdest) sz)
              (\<lambda>h. read_into s' h (bytes_array_bytes bdest) (unat sz))))"
      by simp
  qed
qed

lemma string_safe:
  assumes R: "within R p (unat (data_size f))" and st: "PB_ATYPE (fld_type f) = PB_ATYPE_STATIC"
  shows "decodes_in R (\<lambda>s h. pb_dec_string s h f p)"
  unfolding decodes_in_def
proof (intro allI impI)
  fix s :: "'a pb_istream" and h
  assume s: "istream_ok s" and h: "heap_over R h"
  show "safe R h snd (pb_dec_string s h f p)"
    unfolding pb_dec_string_def Let_def if_not_P [OF static_not_pointer [OF st]]
  proof (rule safe_read [OF pb_decode_varint32_reads s])
    fix sz :: uint32 and s'
    assume s': "istream_ok s'"
    have fill: "safe R h snd (withStatus (read_into s' h p (unat sz)) (\<lambda>r. case status_of r of (status, s, h) \<Rightarrow>
        access (store_bytes h (p + uint sz) [0]) (\<lambda>h. if status then Ok (s, h) else Fail (s, h))))"
      if le: "unat (sz + 1) \<le> unat (data_size f)" "unat sz \<le> unat (sz + 1)"
    proof -
      have n: "unat (sz + 1) = unat sz + 1" using le(2) no_olen_add_nat [of sz 1] unat_plus_simple [of sz 1]
        by (simp add: word_le_nat_alt)
      have body: "within R p (unat sz)" and nul: "within R (p + uint sz) 1"
        using uint_sum_le [of sz 1 "data_size f"] le(1) n by (auto intro!: within_at [OF R] del: subsetI)
      have terminate: "stores R h' (store_bytes h' (p + uint sz) [0])" if "stays R h h'" for h'
        using nul heap_over_stays [OF h that] by (intro store_bytes_stores) (simp_all add: One_nat_def)
      show ?thesis
        by (rule safe_status [OF read_into_safe [OF body h s']]) (auto intro!: safe_store terminate simp del: store_bytes.simps)
    qed
    then show "safe R h snd (if unat (sz + 1) < unat sz then Fail (i_error s' ''size too large'', h)
       else andThen (if unat (data_size f) < unat (sz + 1) then Fail (i_error s' ''string overflow'', h) else Ok (p, h))
           (\<lambda>(dest, h). withStatus (read_into s' h dest (unat sz)) (\<lambda>r. case status_of r of (status, s, h) \<Rightarrow>
              access (store_bytes h (dest + uint sz) [0]) (\<lambda>h. if status then Ok (s, h) else Fail (s, h)))))"
      by simp
  qed
qed

section \<open>Submessages\<close>

definition messages_safe :: "(nat \<Rightarrow> pb_field list \<Rightarrow> bool) \<Rightarrow> 'u msg_decoder \<Rightarrow> bool" where
  "messages_safe lay noinit \<longleftrightarrow> (\<forall>R N sub d. lay N sub \<longrightarrow> within R d N \<longrightarrow> decodes_in R (\<lambda>s h. noinit s h sub d))"

lemma messages_safeD:
  "messages_safe lay noinit \<Longrightarrow> lay N sub \<Longrightarrow> within R d N \<Longrightarrow> istream_ok s \<Longrightarrow> heap_over R h \<Longrightarrow> safe R h snd (noinit s h sub d)"
  unfolding messages_safe_def decodes_in_def by blast

lemma safe_substream:
  assumes "istream_ok s"
    and "\<And>sub s1. pb_make_string_substream s = Ok (sub, s1) \<Longrightarrow> istream_ok sub \<Longrightarrow> istream_ok s1 \<Longrightarrow> safe R h hp (k sub s1 h)"
  shows "safe R h hp (andThen (onStream (pb_make_string_substream s) h) (\<lambda>(sub, s, h). k sub s h))"
proof (cases "pb_make_string_substream s")
  case (Ok a)
  obtain sub s1 where a: "a = (sub, s1)" by (cases a)
  show ?thesis using Ok a assms(2) [of sub s1] substream_ok [of s sub s1] assms(1) by simp
qed (use pb_make_string_substream_other(1) [OF assms(1)] in simp_all)

lemma decode_with_safe:
  fixes env :: "'u dec_env"
  assumes lay: "laid_out True n N fs" and R: "within R d N" and msgs: "messages_safe (laid_out True n) noinit"
  shows "decodes_in R (\<lambda>s h. pb_decode_with env n noinit s h fs d)"
  unfolding decodes_in_def
proof (intro allI impI)
  fix s :: "'u pb_istream" and h
  assume s: "istream_ok s" and h: "heap_over R h"
  show "safe R h snd (pb_decode_with env n noinit s h fs d)"
    unfolding pb_decode_with_def Let_def
  proof (rule safe_settles [OF set_to_defaults_settles [OF lay R h]])
    fix h1
    assume "stays R h h1"
    then have h1: "heap_over R h1" by (rule heap_over_stays [OF h])
    show "safe R h1 snd (withStatus (noinit s h1 fs d) (\<lambda>r. case status_of r of (status, s, h) \<Rightarrow>
        if status then Ok (s, h) else andThen (pb_release (field_array env) n fs d h) (\<lambda>h. Fail (s, h))))"
      by (rule safe_status [OF messages_safeD [OF msgs lay R s h1]])
        (simp_all add: release_none [OF lay R heap_over_stays [OF h1]])
  qed
qed

lemma laid_out_fits: "laid_out st n N fs \<Longrightarrow> fits n fs"
  by (cases n) simp_all

lemma submessage_safe:
  fixes env :: "'u dec_env"
  assumes v: "value_fits (laid_out True n) f" "PB_LTYPE (fld_type f) = PB_LTYPE_SUBMESSAGE"
    and R: "within R p (unat (data_size f))"
    and msgs: "messages_safe (laid_out True n) noinit" and prog: "msg_progress n noinit"
  shows "decodes_in R (\<lambda>s h. pb_dec_submessage env n noinit s h f p)"
  unfolding decodes_in_def
proof (intro allI impI)
  fix s :: "'u pb_istream" and h
  assume s: "istream_ok s" and h: "heap_over R h"
  obtain fs where fs: "fld_ptr f = PtrFields fs" "laid_out True n (unat (data_size f)) fs"
    using v by (auto simp: value_fits_def Let_def split: pb_ptr.splits)
  show "safe R h snd (pb_dec_submessage env n noinit s h f p)"
    unfolding pb_dec_submessage_def fs(1) Let_def
  proof (rule safe_substream [OF s])
    fix sub s1 :: "'u pb_istream"
    assume sub: "istream_ok sub"
    let ?r = "if PB_HTYPE (fld_type f) = PB_HTYPE_REPEATED then pb_decode_with env n noinit sub h fs p else noinit sub h fs p"
    have r: "safe R h snd ?r"
      using messages_safeD [OF msgs fs(2) R sub h] decodes_inD [OF decode_with_safe [OF fs(2) R msgs] sub h] by simp
    have p: "progress 0 sub fst ?r"
      using decode_with_progress [OF prog laid_out_fits [OF fs(2)], of sub env h p] prog laid_out_fits [OF fs(2)]
      by (simp add: msg_progress_def)
    have "safe R h snd (withStatus ?r (\<lambda>r. case status_of r of (status, sub, h) \<Rightarrow> close_with status s1 sub h))"
      by (rule safe_status [OF r])
        (use progress_istream [OF p sub] in \<open>auto intro!: close_with_safe simp del: if_split\<close>)
    then show "safe R h snd (case PtrFields fs of PtrNull \<Rightarrow> Fail (i_error s1 ''invalid field descriptor'', h)
       | PtrFields submsg_fields \<Rightarrow> withStatus (if PB_HTYPE (fld_type f) = PB_HTYPE_REPEATED
            then pb_decode_with env n noinit sub h submsg_fields p else noinit sub h submsg_fields p)
           (\<lambda>r. case status_of r of (status, sub, h) \<Rightarrow> close_with status s1 sub h)
       | PtrDefault bs \<Rightarrow> Undef)" by simp
  qed
qed

lemma decoder_safe:
  assumes v: "value_fits (laid_out True n) f" and st: "PB_ATYPE (fld_type f) = PB_ATYPE_STATIC"
    and R: "within R p (unat (data_size f))"
    and msgs: "messages_safe (laid_out True n) noinit" and prog: "msg_progress n noinit"
  shows "decodes_in R (\<lambda>s h. PB_DECODERS env n noinit (PB_LTYPE (fld_type f)) s h f p)"
proof (cases "PB_LTYPE (fld_type f) = PB_LTYPE_SUBMESSAGE")
  case True
  then show ?thesis using submessage_safe [OF v True R msgs prog, of env] by (simp add: PB_DECODERS_def)
next
  case False
  then have "PB_LTYPE (fld_type f) \<in> {PB_LTYPE_BOOL, PB_LTYPE_VARINT, PB_LTYPE_UVARINT, PB_LTYPE_SVARINT, PB_LTYPE_FIXED32,
      PB_LTYPE_FIXED64, PB_LTYPE_BYTES, PB_LTYPE_STRING, PB_LTYPE_FIXED_LENGTH_BYTES}"
    and "PB_LTYPE (fld_type f) = PB_LTYPE_BOOL \<Longrightarrow> 1 \<le> unat (data_size f)"
    and "PB_LTYPE (fld_type f) = PB_LTYPE_FIXED32 \<Longrightarrow> 4 \<le> unat (data_size f)"
    and "PB_LTYPE (fld_type f) = PB_LTYPE_FIXED64 \<Longrightarrow> 8 \<le> unat (data_size f)"
    using v by (auto simp: value_fits_def Let_def)
  then show ?thesis
    using fixed_safe [OF R, of f] varints_safe [OF R] bytes_safe [OF R st] string_safe [OF R st] fixed_length_safe [OF R]
    by (auto simp: PB_DECODERS_def)
qed

section \<open>Fields\<close>

text \<open>The address of an item of an array does not wrap.\<close>

lemma item_address:
  assumes R: "within R p (extent f)" "extent f < 2 ^ 32" and rep: "PB_HTYPE (fld_type f) = PB_HTYPE_REPEATED"
    and i: "sz < array_size f"
  shows "within R (p + uint (data_size f * sz)) (unat (data_size f))"
proof -
  have lt: "unat sz < unat (array_size f)" using i by (simp add: word_less_nat_alt)
  have "unat (data_size f) * unat sz \<le> unat (data_size f) * unat (array_size f)" using lt by (intro mult_le_mono2) simp
  also have "\<dots> < 2 ^ 32" using R(2) rep by (simp add: extent_def)
  finally have "unat (data_size f) * unat sz < 2 ^ 32" .
  then have "unat (data_size f * sz) = unat (data_size f) * unat sz" by (simp add: unat_mult_lem [THEN iffD1])
  then have "int (unat sz * unat (data_size f)) = uint (data_size f * sz)" by (metis mult.commute uint_nat)
  then show ?thesis using item_within [OF R(1) lt rep] by simp
qed

text \<open>What the iterator leads to in a message that is decoded.\<close>

abbreviation slot_safe :: "nat \<Rightarrow> addr set \<Rightarrow> pb_field_iter \<Rightarrow> bool" where
  "slot_safe n R it \<equiv> slot_in True (laid_out True n) (within R) it"

lemma slot_safe_static:
  assumes "slot_safe n R it"
  shows "PB_ATYPE (fld_type (it_field it)) = PB_ATYPE_STATIC" "value_fits (laid_out True n) (it_field it)"
    "within R (pData it) (extent (it_field it))" "extent (it_field it) < 2 ^ 32"
    "PB_HTYPE (fld_type (it_field it)) = PB_HTYPE_REPEATED \<or> PB_HTYPE (fld_type (it_field it)) = PB_HTYPE_ONEOF \<Longrightarrow> within R (pSize it) 4"
    "PB_HTYPE (fld_type (it_field it)) = PB_HTYPE_OPTIONAL \<Longrightarrow> pSize it \<noteq> pData it \<Longrightarrow> within R (pSize it) 1"
  using assms by (auto simp: slot_in_def Let_def split: if_splits)

lemma static_packed_safe:
  fixes func :: "'u decoder"
  assumes it: "slot_safe n R it" and rep: "PB_HTYPE (fld_type (it_field it)) = PB_HTYPE_REPEATED"
    and func: "\<And>p. within R p (unat (data_size (it_field it))) \<Longrightarrow> decodes_in R (\<lambda>s h. func s h (it_field it) p)"
    and prog: "\<And>s h p. progress 1 s fst (func s h (it_field it) p)"
  shows "istream_ok sub \<Longrightarrow> heap_over R h \<Longrightarrow>
    safe R h (\<lambda>(b, s, h). h) (static_packed k func it sub h :: (bool \<times> 'u pb_istream \<times> heap, 'u pb_istream \<times> heap) res)"
proof (induction k arbitrary: sub h)
  case (Suc k)
  let ?f = "it_field it"
  note slot = slot_safe_static [OF it]
  have count: "within R (pSize it) 4" using slot(5) rep by blast
  have item: "safe R h (\<lambda>(b, s, h). h) (withStatus (func sub h ?f (pData it + uint (data_size ?f * sz))) (\<lambda>r.
      case status_of r of (status, sub, h) \<Rightarrow> if \<not> status then Ok (False, sub, h)
        else access (load_u32 h (pSize it)) (\<lambda>sz. access (store_u32 h (pSize it) (sz + 1)) (\<lambda>h.
        static_packed k func it sub h :: (bool \<times> 'u pb_istream \<times> heap, 'u pb_istream \<times> heap) res))))"
    if "sz < array_size ?f" for sz
  proof (rule safe_status [OF decodes_inD [OF func [OF item_address [OF slot(3,4) rep that]] Suc.prems]])
    fix s' h'
    assume r: "func sub h ?f (pData it + uint (data_size ?f * sz)) = Ok (s', h')" and st: "stays R h h'"
    have s': "istream_ok s'" using progress_istream(1) [OF prog Suc.prems(1) r] by simp
    have h': "heap_over R h'" by (rule heap_over_stays [OF Suc.prems(2) st])
    have IH: "safe R h2 (\<lambda>(b, s, h). h) (static_packed k func it s' h2 :: (bool \<times> 'u pb_istream \<times> heap, 'u pb_istream \<times> heap) res)"
      if "stays R h' h2" for h2 by (rule Suc.IH [OF s' heap_over_stays [OF h' that]])
    show "safe R h' (\<lambda>(b, s, h). h) (case status_of (Inl (s', h')) of (status, sub, h) \<Rightarrow> if \<not> status then Ok (False, sub, h)
        else access (load_u32 h (pSize it)) (\<lambda>sz. access (store_u32 h (pSize it) (sz + 1)) (\<lambda>h.
        static_packed k func it sub h :: (bool \<times> 'u pb_istream \<times> heap, 'u pb_istream \<times> heap) res)))"
      using count h' by (auto intro!: safe_load load_u32_over safe_store typed_stores IH del: subsetI)
  qed simp
  show ?case
    unfolding static_packed.simps Let_def
    by (intro safe_if safe_load load_u32_over [OF Suc.prems(2) count] item) (simp_all)
qed (simp add: static_packed.simps)

lemma static_field_safe:
  fixes env :: "'u dec_env"
  assumes it: "slot_safe n R it" and fits: "field_fits n (it_field it)"
    and msgs: "messages_safe (laid_out True n) noinit" and prog: "msg_progress n noinit"
  shows "decodes_in R (\<lambda>s h. decode_static_field env n noinit s h w it)"
  unfolding decodes_in_def
proof (intro allI impI)
  fix s :: "'u pb_istream" and h
  assume s: "istream_ok s" and h: "heap_over R h"
  let ?f = "it_field it"
  let ?func = "PB_DECODERS env n noinit (PB_LTYPE (fld_type ?f))"
  note slot = slot_safe_static [OF it]
  have func: "decodes_in R (\<lambda>s h. ?func s h ?f p)" if "within R p (unat (data_size ?f))" for p
    by (rule decoder_safe [OF slot(2,1) that msgs prog])
  have fprog: "progress 1 s fst (?func s h ?f p)" for s h p by (rule decoder_progress [OF prog fits])
  have data: "safe R h' snd (?func s h' ?f (pData it))"
    if "PB_HTYPE (fld_type ?f) \<noteq> PB_HTYPE_REPEATED" "stays R h h'" for h'
    by (rule decodes_inD [OF func [OF within_extent [OF slot(3) that(1)]] s heap_over_stays [OF h that(2)]])
  have has: "stores R h (if pSize it \<noteq> pData it then store_bool h (pSize it) True else Some h)"
    if "PB_HTYPE (fld_type ?f) = PB_HTYPE_OPTIONAL"
    using slot(6) [OF that] typed_stores(3) [OF h] by (auto simp: stores_def)
  have item: "safe R h' snd (?func s h' ?f (pData it + uint (data_size ?f * sz)))"
    if "PB_HTYPE (fld_type ?f) = PB_HTYPE_REPEATED" "sz < array_size ?f" "stays R h h'" for sz h'
    by (rule decodes_inD [OF func [OF item_address [OF slot(3,4) that(1,2)]] s heap_over_stays [OF h that(3)]])
  have packed: "safe R h snd (andThen (static_packed (Suc (bytes_left sub)) ?func it sub h) (\<lambda>(status, sub, h).
      if bytes_left sub \<noteq> 0 then Fail (i_error s1 ''array overflow'', h) else close_with status s1 sub h))"
    if "istream_ok sub" "PB_HTYPE (fld_type ?f) = PB_HTYPE_REPEATED" for sub s1
  proof (rule safe_bind [OF static_packed_safe [where func = ?func, OF it that(2) func fprog that(1) h]])
    fix a
    assume r: "(static_packed (Suc (bytes_left sub)) ?func it sub h
      :: (bool \<times> 'u pb_istream \<times> heap, 'u pb_istream \<times> heap) res) = Ok a"
    obtain b sub' h' where a: "a = (b, sub', h')" by (metis prod.collapse)
    from static_packed_ends [of ?func it sub "Suc (bytes_left sub)" h, where ?'f = "'u pb_istream \<times> heap"] fprog r a
    have "shrunk sub sub'" by (auto simp: loop_ends_def intro: advanced_shrunk split: if_splits)
    with that(1) have "istream_ok sub'" by (rule shrunk_ok [rotated])
    then show "safe R (case a of (b, s, h) \<Rightarrow> h) snd (case a of (status, sub, h) \<Rightarrow>
      if bytes_left sub \<noteq> 0 then Fail (i_error s1 ''array overflow'', h) else close_with status s1 sub h)"
      by (simp add: a close_with_safe)
  qed
  have init: "settles R h (if b then access (fill_zero h (pData it) (unat (data_size ?f))) (\<lambda>h. case fld_ptr ?f of
        PtrFields fs \<Rightarrow> pb_message_set_to_defaults (field_array env) n fs (pData it) h | _ \<Rightarrow> Undef) else Ok h)"
    if ht: "PB_HTYPE (fld_type ?f) = PB_HTYPE_ONEOF" and b: "b \<Longrightarrow> PB_LTYPE (fld_type ?f) = PB_LTYPE_SUBMESSAGE" for b
  proof (rule settles_if)
    assume b
    have R: "within R (pData it) (unat (data_size ?f))" by (rule within_extent [OF slot(3)]) (simp add: ht)
    obtain fs where fs: "fld_ptr ?f = PtrFields fs" "laid_out True n (unat (data_size ?f)) fs"
      using slot(2) b [OF \<open>b\<close>] by (auto simp: value_fits_def Let_def split: pb_ptr.splits)
    show "settles R h (access (fill_zero h (pData it) (unat (data_size ?f))) (\<lambda>h. case fld_ptr ?f of
        PtrFields fs \<Rightarrow> pb_message_set_to_defaults (field_array env) n fs (pData it) h | _ \<Rightarrow> Undef))"
      unfolding fs(1) pb_ptr.case
      by (rule settles_store [OF typed_stores(5) [OF h R] set_to_defaults_settles [OF fs(2) R heap_over_stays [OF h]]])
  qed simp
  show "safe R h snd (decode_static_field env n noinit s h w it)"
  proof -
    consider "PB_HTYPE (fld_type ?f) = PB_HTYPE_REQUIRED" | "PB_HTYPE (fld_type ?f) = PB_HTYPE_OPTIONAL"
      | "PB_HTYPE (fld_type ?f) = PB_HTYPE_REPEATED" | "PB_HTYPE (fld_type ?f) = PB_HTYPE_ONEOF"
      | "PB_HTYPE (fld_type ?f) \<notin> {PB_HTYPE_REQUIRED, PB_HTYPE_OPTIONAL, PB_HTYPE_REPEATED, PB_HTYPE_ONEOF}" by blast
    then show ?thesis
    proof cases
      case 1
      then show ?thesis using data [of h] by (simp add: decode_static_field_def Let_def)
    next
      case 2
      have "safe R h snd (access (if pSize it \<noteq> pData it then store_bool h (pSize it) True else Some h) (\<lambda>h. ?func s h ?f (pData it)))"
        using 2 by (intro safe_store has data) simp_all
      with 2 show ?thesis by (simp add: decode_static_field_def Let_def)
    next
      case 3
      have count: "within R (pSize it) 4" using slot(5) 3 by blast
      have "safe R h snd (andThen (onStream (pb_make_string_substream s) h) (\<lambda>(sub, s, h).
          andThen (static_packed (Suc (bytes_left sub)) ?func it sub h) (\<lambda>(status, sub, h).
            if bytes_left sub \<noteq> 0 then Fail (i_error s ''array overflow'', h)
            else close_with status s sub h)))"
        using 3 by (intro safe_substream [OF s] packed)
      moreover have "safe R h snd (access (load_u32 h (pSize it)) (\<lambda>sz.
          access (store_u32 h (pSize it) (sz + 1)) (\<lambda>h.
            if array_size ?f \<le> sz then Fail (i_error s ''array overflow'', h)
            else ?func s h ?f (pData it + uint (data_size ?f * sz)))))"
        using 3 by (intro safe_load load_u32_over [OF h count] safe_store typed_stores(2) [OF h count] safe_if item) simp_all
      ultimately show ?thesis using 3 by (simp add: decode_static_field_def Let_def)
    next
      case 4
      have count: "within R (pSize it) 4" using slot(5) 4 by blast
      have "safe R h snd (access (if PB_LTYPE (fld_type ?f) = PB_LTYPE_SUBMESSAGE
                   then map_option (\<lambda>which. which \<noteq> fld_tag ?f) (load_u32 h (pSize it))
                   else Some False) (\<lambda>b. andThen
          (if b then access (fill_zero h (pData it) (unat (data_size ?f))) (\<lambda>h. case fld_ptr ?f of
             PtrFields fs \<Rightarrow> pb_message_set_to_defaults (field_array env) n fs (pData it) h | _ \<Rightarrow> Undef) else Ok h)
          (\<lambda>h. access (store_u32 h (pSize it) (fld_tag ?f)) (\<lambda>h. ?func s h ?f (pData it)))))"
      proof (rule safe_load)
        show "\<exists>v. (if PB_LTYPE (fld_type ?f) = PB_LTYPE_SUBMESSAGE
                   then map_option (\<lambda>which. which \<noteq> fld_tag ?f) (load_u32 h (pSize it)) else Some False) = Some v"
          using load_u32_over [OF h count] by auto
        fix b
        assume b: "(if PB_LTYPE (fld_type ?f) = PB_LTYPE_SUBMESSAGE
                   then map_option (\<lambda>which. which \<noteq> fld_tag ?f) (load_u32 h (pSize it)) else Some False) = Some b"
        show "safe R h snd (andThen
          (if b then access (fill_zero h (pData it) (unat (data_size ?f))) (\<lambda>h. case fld_ptr ?f of
             PtrFields fs \<Rightarrow> pb_message_set_to_defaults (field_array env) n fs (pData it) h | _ \<Rightarrow> Undef) else Ok h)
          (\<lambda>h. access (store_u32 h (pSize it) (fld_tag ?f)) (\<lambda>h. ?func s h ?f (pData it))))"
        proof (rule safe_settles [OF init [OF 4]])
          show "b \<Longrightarrow> PB_LTYPE (fld_type ?f) = PB_LTYPE_SUBMESSAGE" using b by (auto split: if_splits)
          fix h'
          assume h': "stays R h h'"
          show "safe R h' snd (access (store_u32 h' (pSize it) (fld_tag ?f)) (\<lambda>h. ?func s h ?f (pData it)))"
            using 4 h' by (intro safe_store typed_stores(2) [OF heap_over_stays [OF h h'] count] data) (auto intro: stays_trans)
        qed
      qed
      with 4 show ?thesis by (simp add: decode_static_field_def Let_def cong: if_cong)
    next
      case 5
      then show ?thesis by (simp add: decode_static_field_def Let_def)
    qed
  qed
qed

section \<open>The iterator of the decoding loop\<close>

text \<open>It stands on a field of the message; for a repeated field without a counter its \<open>pSize\<close> may be the address \<open>a\<close>
  of \<open>fixed_count_size\<close>.\<close>

definition on_field :: "addr \<Rightarrow> pb_field list \<Rightarrow> addr \<Rightarrow> pb_field_iter \<Rightarrow> bool" where
  "on_field a fs d it \<longleftrightarrow> (\<exists>p<nfields fs. it = iter_at fs d p
     \<or> PB_HTYPE (fld_type (field_at fs p)) = PB_HTYPE_REPEATED \<and> it = (iter_at fs d p)\<lparr>pSize := a\<rparr>)"

lemma on_field_at: "p < nfields fs \<Longrightarrow> on_field a fs d (iter_at fs d p)"
  by (auto simp: on_field_def)

lemma on_field_start: "on_field a fs d it \<Longrightarrow> it_start it = fs"
  by (auto simp: on_field_def)

lemma next_pSize:
  assumes "PB_HTYPE (fld_type (it_field it)) = PB_HTYPE_REPEATED" and "fld_tag (it_field it) \<noteq> 0"
  shows "pb_field_iter_next (it\<lparr>pSize := a\<rparr>) = pb_field_iter_next it"
  using assms by (simp add: pb_field_iter_next_def it_field_def Let_def)

lemma on_field_next: "on_field a fs d it \<Longrightarrow> \<exists>q<nfields fs. snd (pb_field_iter_next it) = iter_at fs d q"
proof -
  assume "on_field a fs d it"
  then obtain p where p: "p < nfields fs" "it = iter_at fs d p
     \<or> PB_HTYPE (fld_type (field_at fs p)) = PB_HTYPE_REPEATED \<and> it = (iter_at fs d p)\<lparr>pSize := a\<rparr>"
    by (auto simp: on_field_def)
  have "it_field (iter_at fs d p) = field_at fs p" using it_field_at p(1) by blast
  then have "pb_field_iter_next it = pb_field_iter_next (iter_at fs d p)"
    using p next_pSize [of "iter_at fs d p" a] tag_before_end [OF p(1)] by auto
  then show ?thesis using iter_next_at [OF p(1), of d] p(1)
    by (intro exI [of _ "if Suc p < nfields fs then Suc p else 0"]) (simp del: iter_at.simps)
qed

lemma on_field_find_loop: "on_field a fs d it \<Longrightarrow> on_field a fs d (snd (iter_find_loop k p tag it))"
proof (induction k arbitrary: it)
  case (Suc k)
  obtain q where q: "q < nfields fs" "snd (pb_field_iter_next it) = iter_at fs d q"
    using on_field_next [OF Suc.prems] by blast
  then show ?case using Suc.IH [OF on_field_at [OF q(1)]] Suc.prems on_field_at [OF q(1)] by (simp add: Let_def)
qed simp

lemma on_field_find: "on_field a fs d it \<Longrightarrow> on_field a fs d (snd (pb_field_iter_find it tag))"
  unfolding pb_field_iter_find_def by (rule on_field_find_loop)

lemma on_field_extension_loop: "on_field a fs d it \<Longrightarrow> on_field a fs d (snd (find_extension_loop k p it))"
proof (induction k arbitrary: it)
  case (Suc k)
  obtain q where q: "q < nfields fs" "snd (pb_field_iter_next it) = iter_at fs d q"
    using on_field_next [OF Suc.prems] by blast
  then show ?case using Suc.IH [OF on_field_at [OF q(1)]] Suc.prems on_field_at [OF q(1)]
    by (simp add: Let_def find_extension_loop.simps)
qed (simp add: find_extension_loop.simps)

lemma on_field_safe:
  assumes lay: "laid_out True (Suc n) N fs" and R: "within R d N" "within R a 4" and it: "on_field a fs d it"
  shows "slot_safe n R it"
proof -
  from it obtain p where p: "p < nfields fs" and i: "it = iter_at fs d p
     \<or> PB_HTYPE (fld_type (field_at fs p)) = PB_HTYPE_REPEATED \<and> it = (iter_at fs d p)\<lparr>pSize := a\<rparr>"
    by (auto simp: on_field_def)
  have s: "slot_safe n R (iter_at fs d p)" by (rule slot_at [OF lay p R(1)])
  have f: "it_field ((iter_at fs d p)\<lparr>pSize := a\<rparr>) = it_field (iter_at fs d p)" by (simp add: it_field_def)
  from i show ?thesis
  proof
    assume rep: "PB_HTYPE (fld_type (field_at fs p)) = PB_HTYPE_REPEATED \<and> it = (iter_at fs d p)\<lparr>pSize := a\<rparr>"
    have "PB_HTYPE (fld_type (it_field (iter_at fs d p))) = PB_HTYPE_REPEATED" using it_field_at [of p fs d] p rep by simp
    then show ?thesis using rep s R(2) unfolding slot_in_def Let_def by (auto simp: f del: subsetI split: if_splits)
  qed (use s in simp)
qed

lemma on_field_fits: "fits (Suc n) fs \<Longrightarrow> on_field a fs d it \<Longrightarrow> field_fits n (it_field it)"
  using on_field_start fits_it_field by metis

lemma on_field_oneof:
  assumes "on_field a fs d it" and "PB_HTYPE (fld_type (it_field it)) \<noteq> PB_HTYPE_REPEATED"
  shows "\<exists>p<nfields fs. it = iter_at fs d p"
proof -
  from assms(1) obtain p where p: "p < nfields fs" and i: "it = iter_at fs d p
     \<or> PB_HTYPE (fld_type (field_at fs p)) = PB_HTYPE_REPEATED \<and> it = (iter_at fs d p)\<lparr>pSize := a\<rparr>"
    by (auto simp: on_field_def)
  have "it_field ((iter_at fs d p)\<lparr>pSize := a\<rparr>) = field_at fs p"
    using it_field_at [of p fs d] p by (simp add: it_field_def)
  with p i assms(2) show ?thesis by auto
qed

text \<open>Changing the member of a union releases nothing.\<close>

lemma release_union_none:
  assumes lay: "laid_out True (Suc n) N fs" and R: "within R d N" "within R a 4" and h: "heap_over R h"
    and it: "on_field a fs d it" and ht: "PB_HTYPE (fld_type (it_field it)) = PB_HTYPE_ONEOF"
  shows "(\<exists>it'. pb_release_union_field D n it h = Ok (it', h) \<and> on_field a fs d it')
    \<or> (\<exists>msg. pb_release_union_field D n it h = Fail msg)"
proof -
  have "within R (pSize it) 4" using slot_safe_static(5) [OF on_field_safe [OF lay R it]] ht by blast
  then obtain old where old: "load_u32 h (pSize it) = Some old" using load_u32_over [OF h] by blast
  obtain b1 it1 where f1: "pb_field_iter_find it old = (b1, it1)" by (cases "pb_field_iter_find it old")
  have on1: "on_field a fs d it1" using on_field_find [OF it, of old] f1 by simp
  obtain b2 it2 where f2: "pb_field_iter_find it1 (fld_tag (it_field it)) = (b2, it2)"
    by (cases "pb_field_iter_find it1 (fld_tag (it_field it))")
  have on2: "on_field a fs d it2" using on_field_find [OF on1, of "fld_tag (it_field it)"] f2 by simp
  have f: "fits (Suc n) fs" using lay by simp
  have rel: "pb_release_single_field D (pb_release D n) (Suc n) it1 h = (Ok h :: (heap, string) res)"
    using on_field_safe [OF lay R on1] on_field_fits [OF f on1] h release_none
    by (intro release_single_none [where lay = "laid_out True n"]) (auto simp: field_fits_def del: subsetI)
  show ?thesis unfolding pb_release_union_field_def using old f1 f2 rel it on2
    by (auto simp: Let_def simp del: pb_release_single_field.simps)
qed

lemma decode_field_safe:
  fixes env :: "'u dec_env"
  assumes lay: "laid_out True (Suc n) N fs" and R: "within R d N" "within R a 4"
    and msgs: "messages_safe (laid_out True n) noinit" and prog: "msg_progress n noinit"
    and it: "on_field a fs d it" and s: "istream_ok s" and h: "heap_over R h"
  shows "safe R h (\<lambda>(it, s, h). h) (decode_field env n noinit s h w it)"
    and "decode_field env n noinit s h w it = Ok (it', s', h') \<Longrightarrow> on_field a fs d it'"
proof -
  have f: "fits (Suc n) fs" using lay by simp
  let ?u = "if PB_HTYPE (fld_type (it_field it)) = PB_HTYPE_ONEOF
      then mapFail (\<lambda>msg. (i_error s msg, h)) (pb_release_union_field (field_array env) n it h) else Ok (it, h)"
  have u: "(\<exists>it2. ?u = Ok (it2, h) \<and> on_field a fs d it2) \<or> (\<exists>s2. ?u = Fail (s2, h))"
    using release_union_none [OF lay R h it, of "field_array env"] it by auto
  have static: "safe R h snd (decode_static_field env n noinit s h w it2)" if "on_field a fs d it2" for it2
    by (rule decodes_inD [OF static_field_safe [OF on_field_safe [OF lay R that] on_field_fits [OF f that] msgs prog] s h])
  have st: "PB_ATYPE (fld_type (it_field it2)) = PB_ATYPE_STATIC" if "on_field a fs d it2" for it2
    by (rule slot_safe_static(1) [OF on_field_safe [OF lay R that]])
  from u show "safe R h (\<lambda>(it, s, h). h) (decode_field env n noinit s h w it)"
  proof
    assume "\<exists>it2. ?u = Ok (it2, h) \<and> on_field a fs d it2"
    then obtain it2 where it2: "?u = Ok (it2, h)" "on_field a fs d it2" by blast
    have "safe R h (\<lambda>(it, s, h). h) (andThen (decode_static_field env n noinit s h w it2) (\<lambda>(s, h). Ok (it2, s, h)))"
      by (rule safe_bind [OF static [OF it2(2)]]) auto
    then show ?thesis unfolding decode_field_def it2(1) by (simp add: Let_def st [OF it2(2)])
  qed (auto simp: decode_field_def simp del: if_split)
  show "on_field a fs d it'" if "decode_field env n noinit s h w it = Ok (it', s', h')"
    using that u by (auto simp: decode_field_def Let_def andThen_Ok_iff simp del: if_split)
qed

text \<open>A turn of the loop: what holds of its variables and of the stream afterwards.\<close>

definition vars_ok :: "addr \<Rightarrow> pb_field list \<Rightarrow> addr \<Rightarrow> dec_vars \<Rightarrow> bool" where
  "vars_ok a fs d v \<longleftrightarrow> fixed_size_at v = a \<and> on_field a fs d (dec_iter v)"

definition turn_safe :: "addr set \<Rightarrow> addr \<Rightarrow> pb_field list \<Rightarrow> addr \<Rightarrow> heap \<Rightarrow>
    (dec_vars \<times> 'u pb_istream \<times> heap, 'u pb_istream \<times> heap) res \<Rightarrow> bool" where
  "turn_safe R a fs d h r \<longleftrightarrow> safe R h (\<lambda>(v, s, h). h) r
     \<and> (\<forall>v s' h'. r = Ok (v, s', h') \<longrightarrow> vars_ok a fs d v \<and> istream_ok s')"

lemma turn_bind:
  assumes "turn_safe R a fs d h r"
    and "\<And>v s' h'. vars_ok a fs d v \<Longrightarrow> istream_ok s' \<Longrightarrow> stays R h h' \<Longrightarrow> turn_safe R a fs d h' (k v s' h')"
  shows "turn_safe R a fs d h (andThen r (\<lambda>(v, s, h). k v s h))"
proof (cases r)
  case (Ok b)
  obtain v s' h' where b: "b = (v, s', h')" by (metis prod.collapse)
  have 1: "vars_ok a fs d v" "istream_ok s'" "stays R h h'" using assms(1) Ok b by (simp_all add: turn_safe_def)
  have "turn_safe R a fs d h' (k v s' h')" by (rule assms(2) [OF 1])
  then show ?thesis using Ok b by (simp add: turn_safe_def safe_after [OF 1(3)])
qed (use assms(1) in \<open>simp_all add: turn_safe_def\<close>)

lemma fixed_count_wrong_over:
  "heap_over R h \<Longrightarrow> within R (fixed_size_at v) 4 \<Longrightarrow> \<exists>b. fixed_count_wrong v h = Some b"
  using load_u32_over [of R h "fixed_size_at v"] by (auto simp: fixed_count_wrong_def split: option.split)

lemma select_fixed_count_safe:
  assumes v: "vars_ok a fs d v" and R: "within R a 4" and h: "heap_over R h"
  shows "(\<exists>v' h'. select_fixed_count v h = Ok (v', h') \<and> vars_ok a fs d v' \<and> stays R h h')
    \<or> (\<exists>msg. select_fixed_count v h = Fail msg)"
proof -
  obtain b where b: "fixed_count_wrong v h = Some b" using fixed_count_wrong_over [OF h, of v] v R by (auto simp: vars_ok_def)
  obtain h' where h': "store_u32 h (fixed_size_at v) 0 = Some h'" "stays R h h'"
    using typed_stores(2) [OF h, of "fixed_size_at v" 0] v R by (auto simp: vars_ok_def stores_def)
  have on: "on_field a fs d ((dec_iter v)\<lparr>pSize := a\<rparr>)" if "PB_HTYPE (fld_type (it_field (dec_iter v))) = PB_HTYPE_REPEATED"
  proof -
    from v obtain p where p: "p < nfields fs" "dec_iter v = iter_at fs d p \<or> dec_iter v = (iter_at fs d p)\<lparr>pSize := a\<rparr>"
      by (auto simp: vars_ok_def on_field_def)
    moreover have "it_field (dec_iter v) = field_at fs p" using p it_field_at [of p fs d] by (auto simp: it_field_def)
    ultimately show ?thesis using that by (auto simp: on_field_def)
  qed
  show ?thesis using v b h' on by (auto simp: select_fixed_count_def Let_def vars_ok_def)
qed

lemma known_field_safe:
  fixes env :: "'u dec_env"
  assumes lay: "laid_out True (Suc n) N fs" and R: "within R d N" "within R a 4"
    and msgs: "messages_safe (laid_out True n) noinit" and prog: "msg_progress n noinit" and cb: "callbacks_consume env"
    and v: "vars_ok a fs d v" and s: "istream_ok s" and h: "heap_over R h"
  shows "turn_safe R a fs d h (andThen (mapFail (\<lambda>msg. (i_error s msg, h)) (select_fixed_count v h)) (\<lambda>(v, h).
      let v = mark_seen v in andThen (decode_field env n noinit s h w (dec_iter v)) (\<lambda>(iter, s, h). Ok (v\<lparr>dec_iter := iter\<rparr>, s, h))))"
  using select_fixed_count_safe [OF v R(2) h]
proof
  assume "\<exists>v' h'. select_fixed_count v h = Ok (v', h') \<and> vars_ok a fs d v' \<and> stays R h h'"
  then obtain v' h' where v': "select_fixed_count v h = Ok (v', h')" "vars_ok a fs d v'" "stays R h h'" by blast
  let ?v = "mark_seen v'"
  have ok: "on_field a fs d (dec_iter ?v)" "fixed_size_at ?v = a"
    using v'(2) by (simp_all add: vars_ok_def mark_seen_def Let_def)
  have h': "heap_over R h'" by (rule heap_over_stays [OF h v'(3)])
  have f: "fits (Suc n) (it_start (dec_iter ?v))" using on_field_start [OF ok(1)] lay by simp
  note field = decode_field_safe [where env = env and w = w, OF lay R msgs prog ok(1) s h']
  note p = progress_istream(1) [OF decode_field_progress(1) [where w = w, OF prog cb f] s]
  have "turn_safe R a fs d h' (andThen (decode_field env n noinit s h' w (dec_iter ?v)) (\<lambda>(iter, s, h). Ok (?v\<lparr>dec_iter := iter\<rparr>, s, h)))"
    unfolding turn_safe_def
  proof (intro conjI allI impI)
    show "safe R h' (\<lambda>(v, s, h). h) (andThen (decode_field env n noinit s h' w (dec_iter ?v)) (\<lambda>(iter, s, h). Ok (?v\<lparr>dec_iter := iter\<rparr>, s, h)))"
      by (rule safe_bind [OF field(1)]) auto
    fix v2 s2 h2
    assume "andThen (decode_field env n noinit s h' w (dec_iter ?v)) (\<lambda>(iter, s, h). Ok (?v\<lparr>dec_iter := iter\<rparr>, s, h)) = Ok (v2, s2, h2)"
    then obtain it2 where it2: "decode_field env n noinit s h' w (dec_iter ?v) = Ok (it2, s2, h2)" "v2 = ?v\<lparr>dec_iter := it2\<rparr>"
      by (auto simp: andThen_Ok_iff simp del: mark_seen_iter)
    show "vars_ok a fs d v2" using field(2) [OF it2(1)] ok(2) by (simp add: vars_ok_def it2(2))
    show "istream_ok s2" using p [OF it2(1)] by simp
  qed
  then show ?thesis using v' by (auto simp: turn_safe_def Let_def simp del: mark_seen_iter intro: safe_after)
qed (auto simp: turn_safe_def)

text \<open>A field that the message does not have is skipped.\<close>

lemma unknown_skips:
  assumes f: "fits (Suc n) (it_start (dec_iter v))" and t: "unat tag < 2 ^ 29"
  obtains it r where "decode_unknown env n noinit v s h tag w =
      andThen (skip_field s h w) (\<lambda>(s, h). Ok (v\<lparr>dec_iter := it, extension_range_start := r\<rparr>, s, h))"
    and "it = dec_iter v \<or> it = snd (find_extension_field (dec_iter v))"
proof -
  have max: "\<not> (- 1 :: uint32) \<le> tag" using t
    by (simp add: word_le_nat_alt unsigned_minus_1_eq_mask mask_eq_exp_minus_1)
  have nf: "\<not> fst (find_extension_field (dec_iter v))"
    using find_extension_none [OF f] by (simp add: find_extension_field_def)
  obtain it where fe: "find_extension_field (dec_iter v) = (False, it)"
    using nf by (cases "find_extension_field (dec_iter v)") auto
  show ?thesis
  proof (cases "extension_range_start v \<le> tag")
    case True
    then show ?thesis using fe max by (intro that [of "- 1" it]) (simp_all add: decode_unknown_def Let_def)
  next
    case False
    then show ?thesis by (intro that [of "extension_range_start v" "dec_iter v"]) (simp_all add: decode_unknown_def Let_def)
  qed
qed

lemma unknown_field_safe:
  assumes f: "fits (Suc n) fs" and t: "unat tag < 2 ^ 29" and v: "vars_ok a fs d v" and s: "istream_ok s"
  shows "turn_safe R a fs d h (decode_unknown env n noinit v s h tag w)"
proof -
  have on: "on_field a fs d (dec_iter v)" and start: "it_start (dec_iter v) = fs"
    using v on_field_start by (auto simp: vars_ok_def)
  from f start have "fits (Suc n) (it_start (dec_iter v))" by simp
  from unknown_skips [OF this t, of env noinit s h w] obtain it r where
    e: "decode_unknown env n noinit v s h tag w =
      andThen (skip_field s h w) (\<lambda>(s, h). Ok (v\<lparr>dec_iter := it, extension_range_start := r\<rparr>, s, h))"
    and it: "it = dec_iter v \<or> it = snd (find_extension_field (dec_iter v))" by blast
  have "on_field a fs d it" using it on on_field_extension_loop [OF on] by (auto simp: find_extension_field_def)
  then have v2: "vars_ok a fs d (v\<lparr>dec_iter := it, extension_range_start := r\<rparr>)" using v by (simp add: vars_ok_def)
  show ?thesis
    unfolding e turn_safe_def
  proof (intro conjI allI impI)
    show "safe R h (\<lambda>(v, s, h). h)
        (andThen (skip_field s h w) (\<lambda>(s, h). Ok (v\<lparr>dec_iter := it, extension_range_start := r\<rparr>, s, h)))"
      by (rule safe_bind [OF skip_field_safe [OF s]]) auto
    fix v' s' h'
    assume "andThen (skip_field s h w) (\<lambda>(s, h). Ok (v\<lparr>dec_iter := it, extension_range_start := r\<rparr>, s, h)) = Ok (v', s', h')"
    then obtain h2 where r: "skip_field s h w = Ok (s', h2)" and v': "v' = v\<lparr>dec_iter := it, extension_range_start := r\<rparr>"
      by (auto simp: andThen_Ok_iff)
    show "vars_ok a fs d v'" using v2 by (simp only: v')
    show "istream_ok s'" using progress_istream(1) [OF skip_field_progress s r] by simp
  qed
qed

section \<open>Messages\<close>

lemma turn_if: "(b \<Longrightarrow> turn_safe R a fs d h x) \<Longrightarrow> (\<not> b \<Longrightarrow> turn_safe R a fs d h y) \<Longrightarrow> turn_safe R a fs d h (if b then x else y)"
  by simp

lemma decode_loop_safe:
  fixes env :: "'u dec_env"
  assumes lay: "laid_out True (Suc n) N fs" and R: "within R d N" "within R a 4"
    and msgs: "messages_safe (laid_out True n) noinit" and prog: "msg_progress n noinit" and cb: "callbacks_consume env"
  shows "vars_ok a fs d v \<Longrightarrow> istream_ok s \<Longrightarrow> heap_over R h \<Longrightarrow> turn_safe R a fs d h (decode_loop k env n noinit v s h)"
proof (induction k arbitrary: v s h)
  case (Suc k)
  show ?case
  proof (cases "bytes_left s = 0")
    case True
    then show ?thesis using Suc.prems by (simp add: decode_loop.simps turn_safe_def)
  next
    case False
    show ?thesis
    proof (cases "pb_decode_tag s")
      case (Ok r)
      obtain w tag s1 where r: "pb_decode_tag s = Ok ((w, tag), s1)" using Ok by (metis prod.collapse)
      have s1: "istream_ok s1" using pb_decode_tag_reads [of s] r Suc.prems(2) by (auto simp: reads_def intro: advanced_ok)
      define v1 where "v1 = v\<lparr>dec_iter := snd (pb_field_iter_find (dec_iter v) tag)\<rparr>"
      have v1: "vars_ok a fs d v1" using Suc.prems(1) on_field_find by (simp add: vars_ok_def v1_def)
      have f: "fits (Suc n) fs" using lay by simp
      let ?turn = "if \<not> fst (pb_field_iter_find (dec_iter v) tag) then decode_unknown env n noinit v1 s1 h tag w
         else andThen (mapFail (\<lambda>msg. (i_error s1 msg, h)) (select_fixed_count v1 h)) (\<lambda>(v, h).
           let v = mark_seen v in andThen (decode_field env n noinit s1 h w (dec_iter v)) (\<lambda>(iter, s, h). Ok (v\<lparr>dec_iter := iter\<rparr>, s, h)))"
      have "turn_safe R a fs d h ?turn"
        by (intro turn_if unknown_field_safe [OF f tag_less [OF r] v1 s1] known_field_safe [OF lay R msgs prog cb v1 s1 Suc.prems(3)])
      then have "turn_safe R a fs d h (andThen ?turn (\<lambda>(v, s, h). decode_loop k env n noinit v s h))"
        by (rule turn_bind) (rule Suc.IH, auto intro: heap_over_stays [OF Suc.prems(3)])
      moreover have "decode_loop (Suc k) env n noinit v s h = andThen ?turn (\<lambda>(v, s, h). decode_loop k env n noinit v s h)"
        using False r by (simp add: decode_loop.simps case_prod_unfold v1_def Let_def)
      ultimately show ?thesis by simp
    next
      case (Fail e)
      then show ?thesis using False pb_decode_tag_reads [of s] tag_eof_advanced [of s "snd e"] Suc.prems(1,2)
        by (cases e) (auto simp: decode_loop.simps turn_safe_def reads_def intro: advanced_ok)
    qed (use pb_decode_tag_reads [of s] False Suc.prems(2) in \<open>auto simp: decode_loop.simps reads_def turn_safe_def\<close>)
  qed
qed (simp add: decode_loop.simps turn_safe_def)

lemma decode_fields_safe:
  fixes env :: "'u dec_env"
  assumes lay: "laid_out True (Suc n) N fs" and R: "within R d N" "within R a 4"
    and msgs: "messages_safe (laid_out True n) noinit" and prog: "msg_progress n noinit" and cb: "callbacks_consume env"
    and s: "istream_ok s" and h: "heap_over R h"
  shows "safe R h snd (decode_fields env n noinit a s h fs d)"
  unfolding decode_fields_def Let_def
proof (rule safe_bind)
  let ?v = "\<lparr>fields_seen = [0, 0], extension_range_start = 0, dec_iter = snd (pb_field_iter_begin fs d),
      fixed_count_field = None, fixed_size_at = a\<rparr>"
  have "on_field a fs d (iter_at fs d 0)" using lay by (intro on_field_at) simp
  then have "vars_ok a fs d ?v" by (simp add: vars_ok_def)
  then have t: "turn_safe R a fs d h (decode_loop (n + Suc (bytes_left s)) env n noinit ?v s h)"
    by (rule decode_loop_safe [OF lay R msgs prog cb _ s h])
  then show "safe R h (\<lambda>(v, s, h). h) (decode_loop (n + Suc (bytes_left s)) env n noinit ?v s h)"
    by (simp add: turn_safe_def)
  fix r
  assume r: "decode_loop (n + Suc (bytes_left s)) env n noinit ?v s h = Ok r" "stays R h (case r of (v, s, h) \<Rightarrow> h)"
  obtain v' s' h' where r': "r = (v', s', h')" by (metis prod.collapse)
  have "fixed_size_at v' = a" using t r r' by (simp add: turn_safe_def vars_ok_def)
  then have "\<exists>b. fixed_count_wrong v' h' = Some b"
    using R(2) heap_over_stays [OF h r(2)] r' by (intro fixed_count_wrong_over) simp_all
  then show "safe R (case r of (v, s, h) \<Rightarrow> h) snd (case r of (v, s, h) \<Rightarrow> access (fixed_count_wrong v h) (\<lambda>wrong.
      if wrong then Fail (i_error s ''wrong size for fixed count field'', h)
      else if \<not> all_required_seen (fields_seen v) (req_field_count (dec_iter v))
      then Fail (i_error s ''missing required field'', h) else Ok (s, h)))"
    by (auto simp: r')
qed

text \<open>The automatic variable of the call is gone when it returns.\<close>

lemma local_safe:
  assumes h: "heap_over R h" and e: "enter_local h [0, 0, 0, 0] = (a, h1)" and r: "safe (R \<union> region a 4) h1 snd r"
  shows "heap_over (R \<union> region a 4) h1" and "safe R h snd (leave_scope a r)"
proof -
  have a: "a = brk h" "live h1 = live h" "brk h1 = brk h + 4"
    and m: "mem h1 x = (if x \<in> region a 4 then Some ([0, 0, 0, 0] ! nat (x - brk h)) else mem h x)" for x
    using e by (auto simp: enter_local_def region_def)
  have free: "mem h x = None" if "x \<in> region a 4" for x
    using that h by (auto simp: heap_over_def region_def a(1))
  show "heap_over (R \<union> region a 4) h1"
    using h unfolding heap_over_def by (auto simp: m a(3) region_def a(1) split: if_splits)
  have out: "stays R h (leave_local h2 a 4)" if "stays (R \<union> region a 4) h1 h2" for h2
  proof -
    have "x \<in> dom (mem h2) \<longleftrightarrow> x \<in> region a 4 \<or> x \<in> dom (mem h)" for x
      using that unfolding stays_def by (auto simp: m dom_def)
    then have "x \<in> dom (mem (leave_local h2 a 4)) \<longleftrightarrow> x \<in> dom (mem h)" for x
      using free [of x] by (cases "x \<in> region a 4") (simp_all add: leave_local_def domIff)
    then have "dom (mem (leave_local h2 a 4)) = dom (mem h)" by blast
    then show ?thesis using that free a m by (auto simp: stays_def leave_local_def)
  qed
  show "safe R h snd (leave_scope a r)" using r out by (cases r) auto
qed

lemma noinit_safe:
  fixes env :: "'u dec_env"
  assumes cb: "callbacks_consume env"
  shows "messages_safe (laid_out True n) (pb_decode_noinit env n)"
proof (induction n)
  case 0
  then show ?case by (simp add: messages_safe_def)
next
  case (Suc n)
  show ?case
    unfolding messages_safe_def decodes_in_def
  proof (intro allI impI)
    fix R N fs d and s :: "'u pb_istream" and h
    assume lay: "laid_out True (Suc n) N fs" and R: "within R d N" and s: "istream_ok s" and h: "heap_over R h"
    obtain a h1 where e: "enter_local h [0, 0, 0, 0] = (a, h1)" by (cases "enter_local h [0, 0, 0, 0]")
    have "safe (R \<union> region a 4) h1 snd (decode_fields env n (pb_decode_noinit env n) a s h1 fs d)"
      using R local_safe(1) [OF h e, of Timeout]
      by (intro decode_fields_safe [OF lay _ _ Suc noinit_progress [OF cb] cb s]) auto
    then show "safe R h snd (pb_decode_noinit env (Suc n) s h fs d)"
      using local_safe(2) [OF h e] e by simp
  qed
qed

lemma pb_decode_safe:
  assumes "laid_out True n N fs" and "callbacks_consume env" and "istream_ok s" and "within R d N" and "heap_over R h"
  shows "safe R h snd (pb_decode env n s h fs d)"
  unfolding pb_decode_def
  by (rule decodes_inD [OF decode_with_safe [OF assms(1,4) noinit_safe [OF assms(2)]] assms(3,5)])

lemma heap_ok_over: "heap_ok h \<Longrightarrow> mapped h d N \<Longrightarrow> heap_over (region d N) h"
  by (auto simp: heap_ok_def heap_over_def mapped_def)

section \<open>What realloc gives\<close>

lemma realloc_block:
  assumes r: "pb_realloc h q n = Some (p, h1)" and p: "p \<noteq> 0" and h: "heap_ok h"
  shows "live h1 = (live h)(q := None, p := Some n)" and "p = brk h" and "p + int n \<le> heap_limit h" and "mapped h1 p n"
proof -
  obtain old where old: "(if q = 0 then Some 0 else live h q) = Some old" and lim: "brk h + int n \<le> heap_limit h"
    and h1: "p = brk h" "h1 = h\<lparr>mem := (\<lambda>x. if q \<noteq> 0 \<and> x \<in> region q old then None else block_copy h q (min old n) p n x),
       brk := p + int n, live := (live h)(q := None, p := Some n)\<rparr>"
    using r p by (auto simp: pb_realloc_def Let_def split: option.splits if_splits)
  show "live h1 = (live h)(q := None, p := Some n)" "p = brk h" "p + int n \<le> heap_limit h" using h1 lim by simp_all
  have "x \<notin> region q old" if "x \<in> region p n" "q \<noteq> 0" for x
  proof -
    have "q + int old \<le> brk h" using h old that(2) unfolding heap_ok_def by (metis if_not_P)
    then show ?thesis using that(1) h1(1) by (simp add: region_def)
  qed
  then show "mapped h1 p n" by (auto simp: mapped_def h1(2) block_copy_def split: option.splits if_splits)
qed

end
