(* ===== verification/Pb_Theorems.thy ===== *)
theory Pb_Theorems
  imports Pb_Encode_Spec Pb_Memory_Safe
begin

text \<open>
  The theorems on nanopb: the encoder against the reference encoding, memory safety of the decoder,
  round trips of the wire primitives, the exact behaviour of the varint readers (also where it is
  not what the comments promise), skipping, nested streams, the field search, and memory.
\<close>

declare One_nat_def [simp del]
declare pb_encode.simps [simp del]

lemma take_bit_num_1 [simp]: "take_bit_num 1 num.One = Some num.One"
  by (simp add: One_nat_def)

section \<open>Encoding\<close>

text \<open>No callbacks: the environments of messages that have none.\<close>

definition no_enc_callbacks :: "'u enc_env" where
  "no_enc_callbacks = \<lparr>enc_field_array = (\<lambda>_. []), encode_cb = (\<lambda>_ s h f p. Undef),
     ext_encode = (\<lambda>_ s h p. Undef)\<rparr>"

definition no_dec_callbacks :: "'u dec_env" where
  "no_dec_callbacks = \<lparr>field_array = (\<lambda>_. []), decode_cb = (\<lambda>_ s h f p. Undef),
     ext_decode = (\<lambda>_ s h p t w. Undef)\<rparr>"

lemma no_enc_callbacks_emit: "callbacks_emit (\<lambda>_ _ _. None) no_enc_callbacks h"
  by (simp add: callbacks_emit_def)

lemma no_dec_callbacks_consume: "callbacks_consume no_dec_callbacks"
  by (simp add: callbacks_consume_def no_dec_callbacks_def)

text \<open>A message of one required \<open>bool\<close> at the start of its structure, and a memory that holds
  it.\<close>

definition one_bool :: "pb_field list" where
  "one_bool = [Pb_field 1 0 0 0 1 0 PtrNull, PB_LAST_FIELD]"

definition bool_heap :: heap where
  "bool_heap = \<lparr>mem = [100 \<mapsto> 1], brk = 200, heap_limit = 200, junk = (\<lambda>_. 0), live = (\<lambda>_. None)\<rparr>"

lemma one_bool_bytes: "message_bytes (\<lambda>_ _ _. None) 1 bool_heap one_bool 100 = Some [8, 1]"
proof -
  have "nfields one_bool = 1" by (simp add: one_bool_def nfields_def PB_LAST_FIELD_def)
  moreover have "pData (iter_at one_bool 100 0) = 100"
    by (simp add: one_bool_def pb_field_iter_begin_def field_at_def)
  ultimately show ?thesis
    by (simp add: One_nat_def field_bytes_def basic_field_bytes_def implicitly_present_def
        implicit_has_def value_bytes_def safe_read_bool_def bool_heap_def one_bool_def field_at_def
        PB_ATYPE_def PB_HTYPE_def PB_LTYPE_def join_def field_key_def wire_type_of_def key_bytes_def
        tag_key_def varint.simps)
qed

lemma from_buffer_ok: "n < 2 ^ 63 \<Longrightarrow> n \<le> r \<Longrightarrow> ostream_ok (pb_ostream_from_buffer r n)"
  by (simp add: ostream_ok_def pb_ostream_from_buffer_def)

text \<open>C10: when the reference encoding of a message exists, \<open>pb_get_encoded_size\<close> answers its length
  and \<open>pb_encode\<close> writes exactly these bytes into any buffer that has room for them, so the two
  passes of the callers (size, then write) agree.\<close>

theorem pb_encode_writes_message:
  assumes "callbacks_emit cbs env h" and "message_bytes cbs n h fs src = Some bs"
    and "length bs \<le> sz" and "sz < 2 ^ 63"
  shows "pb_get_encoded_size env n h fs src = Ok (length bs) \<and>
    (\<exists>out. pb_encode env n (pb_ostream_from_buffer sz sz) h fs src = Ok out
       \<and> bytes_written out = length bs \<and> written (o_state out) = bs)"
proof -
  have l: "length bs < 2 ^ 63" using assms(3,4) by simp
  note e = pb_encode_emits [OF assms(1,2) l]
  let ?s = "pb_ostream_from_buffer sz sz"
  have "pb_encode env n ?s h fs src = Ok (put bs ?s)"
    using assms(3,4) by (intro emits_fits [OF e from_buffer_ok]) (simp_all add: pb_ostream_from_buffer_def)
  with sizing_ok [OF e l] show ?thesis
    by (simp add: pb_get_encoded_size_def pb_ostream_from_buffer_def)
qed

theorem pb_encode_writes_message_witness:
  "pb_get_encoded_size (no_enc_callbacks :: unit enc_env) 1 bool_heap one_bool 100 = Ok 2 \<and>
   (\<exists>out. pb_encode (no_enc_callbacks :: unit enc_env) 1 (pb_ostream_from_buffer 5 5) bool_heap one_bool 100 = Ok out
      \<and> bytes_written out = 2 \<and> written (o_state out) = [8, 1])"
  using pb_encode_writes_message [OF no_enc_callbacks_emit one_bool_bytes, of 5]
  by (simp add: One_nat_def [symmetric])

text \<open>C19: in a buffer that is too small \<open>pb_encode\<close> fails with the error \<open>stream full\<close>, and what it
  has written is a proper prefix of the encoding inside the buffer.\<close>

theorem pb_encode_stream_full:
  assumes "callbacks_emit cbs env h" and "message_bytes cbs n h fs src = Some bs"
    and "length bs < 2 ^ 63" and "sz < length bs"
  shows "\<exists>out. pb_encode env n (pb_ostream_from_buffer sz sz) h fs src = Fail out
    \<and> o_errmsg out = Some ''stream full'' \<and> prefix (written (o_state out)) bs
    \<and> length (written (o_state out)) \<le> sz"
proof -
  note e = pb_encode_emits [OF assms(1-3)]
  let ?s = "pb_ostream_from_buffer sz sz"
  have "ostream_ok ?s" using assms(3,4) by (intro from_buffer_ok) simp_all
  from emits_full [OF e this] obtain ext where "prefix ext bs" "length ext \<le> sz"
    "pb_encode env n ?s h fs src = Fail (full ext ?s)"
    using assms(4) by (auto simp: pb_ostream_from_buffer_def)
  then show ?thesis by (auto simp: full_def pb_ostream_from_buffer_def)
qed

theorem pb_encode_stream_full_witness:
  "\<exists>out. pb_encode (no_enc_callbacks :: unit enc_env) 1 (pb_ostream_from_buffer 1 1) bool_heap one_bool 100 = Fail out
    \<and> o_errmsg out = Some ''stream full'' \<and> prefix (written (o_state out)) [8, 1]
    \<and> length (written (o_state out)) \<le> 1"
  using pb_encode_stream_full [OF no_enc_callbacks_emit one_bool_bytes, of 1] by (simp add: One_nat_def [symmetric])

text \<open>\<open>pb_encode_delimited\<close> writes the length of the message as a varint and then the message, and
  \<open>pb_encode_nullterminated\<close> the message and a zero byte.\<close>

theorem pb_encode_framed:
  assumes "callbacks_emit cbs env h" and "message_bytes cbs n h fs src = Some bs"
    and "length (varint (length bs)) + length bs \<le> sz" and "sz < 2 ^ 63"
  shows "(\<exists>out. pb_encode_delimited env n (pb_ostream_from_buffer sz sz) h fs src = Ok out
       \<and> written (o_state out) = varint (length bs) @ bs)
    \<and> (\<exists>out. pb_encode_nullterminated env n (pb_ostream_from_buffer sz sz) h fs src = Ok out
       \<and> written (o_state out) = bs @ [0])"
proof -
  have l: "length bs < 2 ^ 63" "length bs + 1 \<le> sz"
    using assms(3,4) length_varint [of "length bs" 0] by (cases "varint (length bs)"; simp)+
  note e = pb_encode_emits [OF assms(1,2) l(1)]
  let ?s = "pb_ostream_from_buffer sz sz"
  have ok: "ostream_ok ?s" by (rule from_buffer_ok [OF assms(4) order.refl])
  have "pb_encode_delimited env n ?s h fs src = Ok (put (delimited bs) ?s)"
    unfolding pb_encode_delimited_def using assms(3)
    by (intro emits_fits [OF emits_submessage [where enc = "pb_encode env n", OF e l(1)] ok])
      (simp add: pb_ostream_from_buffer_def delimited_def)
  moreover have "emits (bs @ [0]) (\<lambda>s. pb_encode_nullterminated env n s h fs src)"
    unfolding pb_encode_nullterminated_def
    using emits_andThen [OF e emits_local [of "[0]"]] by (simp add: One_nat_def)
  from emits_fits [OF this ok]
  have "pb_encode_nullterminated env n ?s h fs src = Ok (put (bs @ [0]) ?s)"
    using l(2) by (simp add: pb_ostream_from_buffer_def)
  ultimately show ?thesis by (simp add: pb_ostream_from_buffer_def delimited_def)
qed

theorem pb_encode_framed_witness:
  "(\<exists>out. pb_encode_delimited (no_enc_callbacks :: unit enc_env) 1 (pb_ostream_from_buffer 9 9) bool_heap one_bool 100 = Ok out
      \<and> written (o_state out) = [2, 8, 1])
   \<and> (\<exists>out. pb_encode_nullterminated (no_enc_callbacks :: unit enc_env) 1 (pb_ostream_from_buffer 9 9) bool_heap one_bool 100 = Ok out
      \<and> written (o_state out) = [8, 1, 0])"
  using pb_encode_framed [OF no_enc_callbacks_emit one_bool_bytes, of 9] by (simp add: One_nat_def [symmetric] varint.simps)

section \<open>The wire primitives\<close>

text \<open>What a writer put into a buffer, read back by a reader, with anything behind it.\<close>

definition reads_back :: "(unit pb_ostream \<Rightarrow> unit enc) \<Rightarrow>
    (unit pb_istream \<Rightarrow> ('a \<times> unit pb_istream, 'e) res) \<Rightarrow> 'a \<Rightarrow> nat \<Rightarrow> bool" where
  "reads_back enc dec v n \<longleftrightarrow> (\<exists>out. enc (pb_ostream_from_buffer n n) = Ok out
     \<and> bytes_written out = length (written (o_state out))
     \<and> (\<forall>rest. let buf = written (o_state out) @ rest; s = pb_istream_from_buffer buf (length buf)
         in dec s = Ok (v, consume (bytes_written out) s)))"

lemma reads_backI:
  assumes "\<exists>out. enc (pb_ostream_from_buffer n n) = Ok out
    \<and> bytes_written out = length (written (o_state out))
    \<and> (\<forall>s rest. buffered s \<longrightarrow> input s = written (o_state out) @ rest \<longrightarrow>
         dec s = Ok (v, consume (bytes_written out) s))"
  shows "reads_back enc dec v n"
proof -
  from assms obtain out where o: "enc (pb_ostream_from_buffer n n) = Ok out"
    "bytes_written out = length (written (o_state out))"
    "\<And>s rest. buffered s \<Longrightarrow> input s = written (o_state out) @ rest \<Longrightarrow>
         dec s = Ok (v, consume (bytes_written out) s)" by blast
  then show ?thesis unfolding reads_back_def Let_def by (intro exI [of _ out]) simp
qed

text \<open>C24: every 64-bit value that \<open>pb_encode_varint\<close> writes, \<open>pb_decode_varint\<close> reads back, whatever
  follows, and ten bytes of buffer always suffice.\<close>

theorem varint_roundtrip:
  assumes "10 \<le> n" and "n < 2 ^ 63"
  shows "reads_back (\<lambda>s. pb_encode_varint s v) pb_decode_varint v n"
  using assms length_varint64 [of v] by (intro reads_backI varint64.roundtrip) simp_all

theorem varint_roundtrip_witness: "reads_back (\<lambda>s. pb_encode_varint s 300) pb_decode_varint 300 10"
  by (rule varint_roundtrip) simp_all

text \<open>The same for the zigzag and the fixed-width encodings: ten, four and eight bytes suffice.\<close>

theorem scalar_roundtrips:
  assumes "10 \<le> n" and "n < 2 ^ 63"
  shows "reads_back (\<lambda>s. pb_encode_svarint s v) pb_decode_svarint v n
    \<and> reads_back (\<lambda>s. pb_encode_fixed32 s w) pb_decode_fixed32 w n
    \<and> reads_back (\<lambda>s. pb_encode_fixed64 s v) pb_decode_fixed64 v n"
  using assms length_varint64 [of "zigzag64 v"]
  by (intro conjI reads_backI svarint64.roundtrip fixed32.roundtrip fixed64.roundtrip)
    (simp_all add: unat_zigzag64)

theorem scalar_roundtrips_witness:
  "reads_back (\<lambda>s. pb_encode_svarint s (-1)) pb_decode_svarint (-1) 10
   \<and> reads_back (\<lambda>s. pb_encode_fixed32 s 5) pb_decode_fixed32 5 10
   \<and> reads_back (\<lambda>s. pb_encode_fixed64 s (-1)) pb_decode_fixed64 (-1) 10"
  by (rule scalar_roundtrips) simp_all

text \<open>A tag round trips for every wire type and every field number below \<open>2 ^ 29\<close>, except for the
  key 0, which \<open>pb_decode_tag\<close> takes as the end of the message.\<close>

theorem tag_roundtrip:
  assumes "wt < 8" and "unat t < 2 ^ 29" and "wt \<noteq> 0 \<or> t \<noteq> 0" and "5 \<le> n" and "n < 2 ^ 63"
  shows "reads_back (\<lambda>s. pb_encode_tag s wt t) pb_decode_tag (wt, t) n"
proof -
  have "tag_key (wt, t) < 2 ^ 32" using assms(1,2) by (simp add: tag_key_def)
  then have "length (varint (tag_key (wt, t))) \<le> n" using length_varint32 assms(4) le_trans by blast
  moreover have "tag_valid (wt, t)" using assms(1-3) by (auto simp: tag_valid_def unat_eq_0)
  ultimately show ?thesis
    using tag.roundtrip [of "(wt, t)" n] assms(5) by (intro reads_backI) simp
qed

theorem tag_roundtrip_witness: "reads_back (\<lambda>s. pb_encode_tag s 2 23) pb_decode_tag (2, 23) 5"
  by (rule tag_roundtrip) simp_all

text \<open>\<open>pb_decode_varint\<close> reads every encoding of at most ten bytes, canonical or not, to its value
  modulo \<open>2 ^ 64\<close>.\<close>

theorem pb_decode_varint_any:
  assumes "varint_bytes bs" and "length bs \<le> 10"
  shows "pb_decode_varint (pb_istream_from_buffer (bs @ rest) (length (bs @ rest))) =
    Ok (word_of_nat (varint_value bs),
        consume (length bs) (pb_istream_from_buffer (bs @ rest) (length (bs @ rest))))"
  using assms by (intro pb_decode_varint_bytes [where rest = rest]) simp_all

theorem pb_decode_varint_any_witness:
  "pb_decode_varint (pb_istream_from_buffer ([0x80, 0x80, 0x01] @ [7]) (length ([0x80, 0x80, 0x01] @ [7 :: byte]))) =
   Ok (16384, consume 3 (pb_istream_from_buffer ([0x80, 0x80, 0x01] @ [7]) 4))"
  using pb_decode_varint_any [of "[0x80, 0x80, 0x01]" "[7]"] by (simp add: One_nat_def [symmetric])

text \<open>It rejects a varint of more than ten bytes after the tenth, and one that the input cuts off,
  with the errors \<open>varint overflow\<close> and \<open>end-of-stream\<close>.\<close>

theorem pb_decode_varint_rejects:
  assumes "\<forall>b\<in>set bs. 128 \<le> unat b"
  shows "(length bs = 10 \<longrightarrow> (let s = pb_istream_from_buffer (bs @ rest) (length (bs @ rest))
      in pb_decode_varint s = Fail (i_error (consume 10 s) ''varint overflow'')))
    \<and> (length bs < 10 \<longrightarrow> (let s = pb_istream_from_buffer bs (length bs)
      in pb_decode_varint s = Fail (i_error (consume (length bs) s) ''end-of-stream'')))"
  using assms
  by (auto simp: Let_def pb_decode_varint_def varint_loop_overflow [where rest = rest] varint_loop_truncated)

theorem pb_decode_varint_rejects_witness:
  "let s = pb_istream_from_buffer [0x80, 0xFF] 2
   in pb_decode_varint s = Fail (i_error (consume 2 s) ''end-of-stream'')"
  using pb_decode_varint_rejects [of "[0x80, 0xFF]"] by (simp add: One_nat_def [symmetric])

text \<open>Up to five bytes, \<open>pb_decode_varint32\<close> is exact: it returns the value when it is below
  \<open>2 ^ 32\<close> and fails with \<open>varint overflow\<close> when it is not.\<close>

theorem pb_decode_varint32_exact:
  assumes "varint_bytes bs" and "length bs \<le> 5"
  shows "let s = pb_istream_from_buffer (bs @ rest) (length (bs @ rest))
    in pb_decode_varint32 s =
      (if varint_value bs < 2 ^ 32 then Ok (word_of_nat (varint_value bs), consume (length bs) s)
       else Fail (i_error (consume (length bs) s) ''varint overflow''))"
  using assms unfolding Let_def by (intro pb_decode_varint32_bytes [where rest = rest]) simp_all

theorem pb_decode_varint32_exact_witness:
  "let s = pb_istream_from_buffer [0xFF, 0xFF, 0xFF, 0xFF, 0x1F] 5
   in pb_decode_varint32 s = Fail (i_error (consume 5 s) ''varint overflow'')"
  using pb_decode_varint32_exact [of "[0xFF, 0xFF, 0xFF, 0xFF, 0x1F]" "[]"]
  by (simp add: One_nat_def [symmetric])

subsection \<open>Longer encodings of 32-bit values\<close>

lemma varint32_loop_continues:
  "buffered s \<Longrightarrow> input s = bs @ rest \<Longrightarrow> \<forall>b\<in>set bs. 128 \<le> unat b \<Longrightarrow> p + 7 * length bs \<le> 35 \<Longrightarrow>
   varint32_loop p r s =
     varint32_loop (p + 7 * length bs) (r OR push_bit p (word_of_nat (varint_value bs)))
       (consume (length bs) s)"
proof (induction bs arbitrary: p r s)
  case (Cons b bs)
  have p: "p < 32" using Cons.prems(4) by simp
  have r: "pb_readbyte s = Ok (b, consume 1 s)"
    using Cons.prems by (simp add: pb_readbyte_buffer)
  have t: "b AND 0x80 \<noteq> 0" using Cons.prems(3) by (simp add: and_128)
  have "varint32_loop (p + 7) r' (consume 1 s) =
      varint32_loop (p + 7 + 7 * length bs) (r' OR push_bit (p + 7) (word_of_nat (varint_value bs)))
        (consume (length bs) (consume 1 s))" for r'
    using Cons.prems by (intro Cons.IH) auto
  moreover have "varint32_loop p r s =
      varint32_loop (p + 7) (r OR push_bit p (word_of_nat (unat b mod 128))) (consume 1 s)"
    using p t by (subst varint32_loop.simps) (simp add: r Let_def ucast_and_127)
  ultimately have "varint32_loop p r s =
      varint32_loop (p + 7 + 7 * length bs) ((r OR push_bit p (word_of_nat (unat b mod 128))) OR
        push_bit (p + 7) (word_of_nat (varint_value bs))) (consume (length bs) (consume 1 s))" by simp
  moreover have "p + 7 + 7 * length bs = p + 7 * length (b # bs)" by simp
  ultimately show ?case
    by (simp only: or_push_bit_varint varint_value.simps consume_consume) (simp add: One_nat_def)
qed simp

text \<open>C31: a 32-bit varint of five continuation bytes and a final zero is accepted whatever its value,
  and the bits above the 32nd are dropped without an error, although a five-byte encoding of the same
  value is rejected.\<close>

theorem pb_decode_varint32_truncates:
  assumes "length bs = 5" and "\<forall>b\<in>set bs. 128 \<le> unat b"
  shows "let s = (pb_istream_from_buffer (bs @ [0] @ rest) (length (bs @ [0] @ rest)) :: 'u pb_istream)
    in pb_decode_varint32 s = Ok (word_of_nat (varint_value bs mod 2 ^ 32), consume 6 s)"
proof -
  define s :: "'u pb_istream" where "s = pb_istream_from_buffer (bs @ [0] @ rest) (length (bs @ [0] @ rest))"
  have s: "buffered s" "input s = bs @ [0] @ rest" by (simp_all add: s_def)
  obtain b tl where b: "bs = b # tl" "length tl = 4" using assms(1) by (cases bs) auto
  have r: "pb_readbyte s = Ok (b, consume 1 s)" using s b by (simp add: pb_readbyte_buffer)
  have t: "b AND 0x80 \<noteq> 0" using assms(2) b by (simp add: and_128)
  have "varint32_loop 7 (word_of_nat (unat b mod 128)) (consume 1 s) =
      varint32_loop 35 (word_of_nat (varint_value bs)) (consume 5 s)"
    using varint32_loop_continues [of "consume 1 s" tl "[0] @ rest" 7 "word_of_nat (unat b mod 128)"]
      word_of_nat_or [of "unat b mod 128" "varint_value tl", where ?'a = 32] s b assms(2)
    by (simp del: of_nat_add)
  also have "\<dots> = Ok ((0, 42, word_of_nat (varint_value bs)), consume 6 s)"
    using s b by (subst varint32_loop.simps) (simp add: pb_readbyte_buffer [where b = 0 and bs = rest] Let_def)
  finally have "pb_decode_varint32 s = Ok (word_of_nat (varint_value bs), consume 6 s)"
    using t by (simp add: pb_decode_varint32_def pb_decode_varint32_eof_def r ucast_and_127)
  moreover have "word_of_nat (varint_value bs mod 2 ^ 32) = (word_of_nat (varint_value bs) :: 32 word)"
    by (simp add: word_unat_eq_iff unat_of_nat)
  ultimately show ?thesis by (simp add: s_def Let_def)
qed

theorem pb_decode_varint32_truncates_witness:
  "let s = pb_istream_from_buffer [0x80, 0x80, 0x80, 0x80, 0xF0, 0x00] 6
   in pb_decode_varint32 s = Ok (0, consume 6 s)"
  using pb_decode_varint32_truncates [of "[0x80, 0x80, 0x80, 0x80, 0xF0]" "[]"]
  by (simp add: One_nat_def [symmetric])

lemma varint32_loop_zeros:
  "buffered s \<Longrightarrow> input s = replicate k 0x80 @ rest \<Longrightarrow> p < 256 \<Longrightarrow>
   varint32_loop p r s = varint32_loop ((p + 7 * k) mod 256) r (consume k s)"
proof (induction k arbitrary: p s)
  case (Suc k)
  have r: "pb_readbyte s = Ok (0x80, consume 1 s)"
    using Suc.prems by (simp add: pb_readbyte_buffer)
  have "varint32_loop p r s = varint32_loop ((p + 7) mod 256) r (consume 1 s)"
    by (subst varint32_loop.simps) (simp add: r Let_def)
  also have "\<dots> = varint32_loop (((p + 7) mod 256 + 7 * k) mod 256) r (consume k (consume 1 s))"
    using Suc.prems by (intro Suc.IH) simp_all
  also have "((p + 7) mod 256 + 7 * k) mod 256 = (p + 7 * Suc k) mod 256"
    by (simp only: mod_add_left_eq) (simp add: add.assoc)
  finally show ?case by (simp add: One_nat_def)
qed simp

text \<open>The position is an 8-bit counter: behind 37 continuation bytes of value zero it is back below
  32, and the payload of the final byte is accepted as the bits from 3 to 9 of the result.\<close>

theorem pb_decode_varint32_position_wraps:
  assumes "unat b < 128"
  shows "let s = (pb_istream_from_buffer (replicate 37 0x80 @ [b]) 38 :: 'u pb_istream)
    in pb_decode_varint32 s = Ok (word_of_nat (8 * unat b), consume 38 s)"
proof -
  define s :: "'u pb_istream" where "s = pb_istream_from_buffer (replicate 37 0x80 @ [b]) 38"
  have s: "buffered s" "input s = 0x80 # replicate 36 0x80 @ [b]"
    by (simp_all add: s_def numeral_eq_Suc)
  have r: "pb_readbyte s = Ok (0x80, consume 1 s)" using s by (simp add: pb_readbyte_buffer)
  have "varint32_loop 7 0 (consume 1 s) = varint32_loop 3 0 (consume 37 s)"
    using varint32_loop_zeros [of "consume 1 s" 36 "[b]" 7 0] s by simp
  also have "\<dots> = Ok ((b, 10, word_of_nat (8 * unat b)), consume 38 s)"
  proof -
    have "input (consume 37 s) = [b]" using s by simp
    then have "pb_readbyte (consume 37 s) = Ok (b, consume 38 s)" using s by (simp add: pb_readbyte_buffer)
    moreover have "push_bit 3 (ucast (b AND 0x7F)) = (word_of_nat (8 * unat b) :: 32 word)"
      using assms by (simp add: ucast_and_127 push_bit_eq_mult)
    ultimately show ?thesis
      using assms by (subst varint32_loop.simps) (simp add: Let_def and_128)
  qed
  finally have "pb_decode_varint32 s = Ok (word_of_nat (8 * unat b), consume 38 s)"
    by (simp add: pb_decode_varint32_def pb_decode_varint32_eof_def r)
  then show ?thesis by (simp add: s_def Let_def)
qed

theorem pb_decode_varint32_position_wraps_witness:
  "let s = pb_istream_from_buffer (replicate 37 0x80 @ [0x01]) 38
   in pb_decode_varint32 s = Ok (8, consume 38 s)"
  using pb_decode_varint32_position_wraps [of 1] by simp

section \<open>Skipping and nested streams\<close>

text \<open>\<open>pb_skip_field\<close> takes exactly the payload of a field of its wire type.\<close>

theorem pb_skip_field_skips_payload:
  assumes "payload wt p"
  shows "let s = pb_istream_from_buffer (p @ rest) (length (p @ rest))
    in pb_skip_field s wt = Ok ((), consume (length p) s)"
  using assms unfolding Let_def by (intro pb_skip_field_payload [where rest = rest]) simp_all

theorem pb_skip_field_skips_payload_witness:
  "let s = pb_istream_from_buffer [2, 9, 9, 7] 4
   in pb_skip_field s 2 = Ok ((), consume 3 s)"
  using pb_skip_field_skips_payload [of 2 "[2, 9, 9]" "[7]"]
  by (simp add: payload_def varint.simps One_nat_def [symmetric] exI [of _ "[9, 9]"])

text \<open>C27: on any input, of any kind of stream, \<open>pb_skip_field\<close> returns without reading outside the
  source; a success has taken at least one byte and a failure leaves the stream within its bounds.\<close>

theorem pb_skip_field_total:
  assumes "istream_ok s"
  shows "(\<exists>k s'. pb_skip_field s wt = Ok ((), s') \<and> 1 \<le> k \<and> advanced s k s')
    \<or> (\<exists>s'. pb_skip_field s wt = Fail s' \<and> shrunk s s')"
  using pb_skip_field_reads [of s wt] assms
  by (cases "pb_skip_field s wt") (auto simp: reads_def)

theorem pb_skip_field_total_witness:
  "let s = (pb_istream_from_buffer [0xFF] 1 :: unit pb_istream)
   in (\<exists>k s'. pb_skip_field s 0 = Ok ((), s') \<and> 1 \<le> k \<and> advanced s k s')
      \<or> (\<exists>s'. pb_skip_field s 0 = Fail s' \<and> shrunk s s')"
  unfolding Let_def
  by (rule pb_skip_field_total) (simp add: istream_ok_def pb_istream_from_buffer_def One_nat_def)

text \<open>Closing a nested stream that was read to any point leaves the outer stream behind the whole
  nested message: length and content together are at least one byte.\<close>

theorem substream_consumes:
  assumes "pb_make_string_substream s = Ok (sub, s1)" and "advanced sub k sub'"
    and "pb_close_string_substream s1 sub' = Ok ((), s2)"
  shows "\<exists>m\<ge>1. advanced s m s2 \<and> bytes_left sub + bytes_left s1 < bytes_left s"
proof -
  obtain j n where "1 \<le> j" "advanced s j (s1\<lparr>bytes_left := bytes_left s1 + n\<rparr>)" "bytes_left sub = n"
    using pb_make_string_substream_Ok [OF assms(1)] by blast
  then have "bytes_left sub + bytes_left s1 < bytes_left s" by (auto dest: advanced_left)
  with substream_closed [OF assms] show ?thesis by blast
qed

theorem substream_consumes_witness:
  "let s = pb_istream_from_buffer [2, 8, 1, 5] 4 :: unit pb_istream;
       sub = s\<lparr>i_state := IBuf [8, 1, 5], bytes_left := 2\<rparr>;
       s1 = s\<lparr>i_state := IBuf [8, 1, 5], bytes_left := 1\<rparr>;
       s2 = s\<lparr>i_state := IBuf [5], bytes_left := 1\<rparr>
   in \<exists>m\<ge>1. advanced s m s2 \<and> bytes_left sub + bytes_left s1 < bytes_left s"
proof -
  let ?s = "pb_istream_from_buffer [2, 8, 1, 5] 4 :: unit pb_istream"
  let ?sub = "?s\<lparr>i_state := IBuf [8, 1, 5], bytes_left := 2\<rparr>"
  let ?s1 = "?s\<lparr>i_state := IBuf [8, 1, 5], bytes_left := 1\<rparr>"
  let ?s2 = "?s\<lparr>i_state := IBuf [5], bytes_left := 1\<rparr>"
  have "pb_make_string_substream ?s = Ok (?sub, ?s1)"
    by (simp add: pb_make_string_substream_def pb_decode_varint32_def pb_decode_varint32_eof_def
        pb_readbyte_def i_call_def buf_read_def pb_istream_from_buffer_def)
  moreover have "pb_close_string_substream ?s1 ?sub = Ok ((), ?s2)"
    by (simp add: pb_close_string_substream_def pb_read_def read_checked_def i_call_def buf_read_def
        pb_istream_from_buffer_def drop_Cons')
  ultimately show ?thesis
    using substream_consumes [of ?s ?sub ?s1 0 ?sub ?s2] by (simp add: Let_def)
qed

section \<open>Fields and memory\<close>

text \<open>C28: from whatever field the iterator stands on, \<open>pb_field_iter_find\<close> finds a field of the tag if
  the message has one that is not an extension range, and otherwise comes back to where it was.\<close>

theorem pb_field_iter_find_complete:
  assumes "p < nfields fs"
  shows "case pb_field_iter_find (iter_at fs d p) tag of
      (True, it) \<Rightarrow> \<exists>q<nfields fs. it = iter_at fs d q \<and> tag_matches fs tag q
    | (False, it) \<Rightarrow> it = iter_at fs d p \<and> (\<forall>q<nfields fs. \<not> tag_matches fs tag q)"
proof (cases "pb_field_iter_find (iter_at fs d p) tag")
  case (Pair b it)
  show ?thesis
  proof (cases b)
    case True
    with Pair iter_find_Some [OF assms, of d tag it] show ?thesis by simp
  next
    case False
    with Pair iter_find_None [OF assms, of d tag] iter_find_at [OF assms, of d tag] show ?thesis
      by (auto split: option.splits)
  qed
qed

theorem pb_field_iter_find_complete_witness:
  "case pb_field_iter_find (iter_at one_bool 100 0) 9 of
      (True, it) \<Rightarrow> \<exists>q<nfields one_bool. it = iter_at one_bool 100 q \<and> tag_matches one_bool 9 q
    | (False, it) \<Rightarrow> it = iter_at one_bool 100 0 \<and> (\<forall>q<nfields one_bool. \<not> tag_matches one_bool 9 q)"
  by (rule pb_field_iter_find_complete) (simp add: one_bool_def nfields_def)

text \<open>In a message type without fields the search for tag 0 succeeds: the terminator of the
  descriptor array itself matches, and \<open>pb_decode\<close> takes it for a \<open>bool\<close> at the start of the
  structure.\<close>

theorem empty_message_has_field_0:
  "pb_field_iter_find (snd (pb_field_iter_begin [PB_LAST_FIELD] d)) 0 =
    (True, snd (pb_field_iter_begin [PB_LAST_FIELD] d))"
  using iter_find_empty [of "[PB_LAST_FIELD]" d 0]
  by (simp add: nfields_def tag_matches_def field_at_def) (simp add: PB_LAST_FIELD_def PB_LTYPE_def)

text \<open>C29: when \<open>allocate_field\<close> succeeds the pointer at \<open>pd\<close> is the address of a mapped block of exactly
  \<open>elem_size * elem_count\<close> bytes, a product that does not wrap for any element count and size of a \<open>size_t\<close>; the block
  that the pointer named before is no longer live, and every other one is as it was.\<close>

theorem allocate_field_no_overflow:
  assumes "allocate_field h pd elem_size elem_count = Ok h'" and "heap_ok h"
    and "elem_size < 2 ^ 64" and "elem_count < 2 ^ 64"
  shows "\<exists>p q. p \<noteq> 0 \<and> load_ptr h' pd = Some p \<and> mapped h' p (elem_size * elem_count) \<and> 0 < elem_size * elem_count
    \<and> load_ptr h pd = Some q \<and> live h' = (live h)(q := None, p := Some (elem_size * elem_count))"
proof -
  have nz: "elem_size \<noteq> 0" "elem_count \<noteq> 0"
    using assms(1) by (auto simp: allocate_field_def access_def Let_def split: option.splits if_splits)
  have "elem_count * elem_size < 2 ^ 64"
  proof (cases "2 ^ 32 \<le> elem_size \<or> 2 ^ 32 \<le> elem_count")
    case True
    with assms(1) nz have "elem_size \<le> size_max div elem_count"
      by (auto simp: allocate_field_def access_def Let_def not_less split: option.splits if_splits)
    then have "elem_size * elem_count \<le> size_max" using nz(2) by (simp add: less_eq_div_iff_mult_less_eq)
    then show ?thesis by (simp add: size_max_def mult.commute)
  next
    case False
    then have "elem_count * elem_size < 2 ^ 32 * 2 ^ 32" by (intro mult_strict_mono) auto
    then show ?thesis by simp
  qed
  then have m: "elem_count * elem_size mod 2 ^ 64 = elem_size * elem_count" by (simp add: mult.commute)
  from assms(1) nz obtain q p h1 where r: "pb_realloc h q (elem_count * elem_size mod 2 ^ 64) = Some (p, h1)"
    and q: "load_ptr h pd = Some q" and p: "p \<noteq> 0" "store_ptr h1 pd p = Some h'"
    by (auto simp: allocate_field_def access_def Let_def split: option.splits if_splits)
  have l: "live h1 = (live h)(q := None, p := Some (elem_size * elem_count))" and b: "p = brk h" "p + int (elem_size * elem_count) \<le> heap_limit h"
    and mp: "mapped h1 p (elem_size * elem_count)"
    using realloc_block [OF r [unfolded m] p(1) assms(2)] by simp_all
  have "live h' = live h1" and mp': "mapped h' p (elem_size * elem_count)"
    using p(2) store_bytes_frame store_bytes_mapped mp by (auto simp: store_ptr_def store_nat_def)
  moreover have "load_ptr h' pd = Some p"
    using b assms(2) p(1) nz of_nat_0_le_iff [of "elem_size * elem_count", where ?'a = int] by (intro load_store_ptr_same [OF p(2)]) (auto simp: heap_ok_def simp del: of_nat_mult)
  ultimately show ?thesis using p(1) nz l q by (intro exI [of _ p] exI [of _ q]) simp
qed

definition pointer_heap :: heap where
  "pointer_heap = \<lparr>mem = (\<lambda>x. if x \<in> region 8 8 then Some 0 else None), brk = 16, heap_limit = 1000,
     junk = (\<lambda>_. 0), live = (\<lambda>_. None)\<rparr>"

lemma pointer_heap_ok: "heap_ok pointer_heap"
  by (simp add: heap_ok_def pointer_heap_def region_def)

lemma pointer_heap_allocates: "\<exists>h. allocate_field pointer_heap 8 4 6 = Ok h"
proof -
  have p: "load_ptr pointer_heap 8 = Some 0"
    by (simp add: load_ptr_def load_nat_def pointer_heap_def region_def numeral_eq_Suc)
  have r: "\<exists>h. pb_realloc pointer_heap 0 24 = Some (16, h) \<and> mapped h 8 8"
    by (auto simp: pb_realloc_def pointer_heap_def mapped_def region_def block_copy_def Let_def)
  then obtain h where h: "pb_realloc pointer_heap 0 24 = Some (16, h)" "mapped h 8 8" by blast
  then obtain h' where "store_ptr h 8 16 = Some h'"
    using store_bytes_iff [of h 8 "le_of_nat 8 16"] by (auto simp: store_ptr_def store_nat_def)
  with p h(1) show ?thesis by (simp add: allocate_field_def Let_def)
qed

theorem allocate_field_no_overflow_witness:
  "\<exists>h' p. allocate_field pointer_heap 8 4 6 = Ok h' \<and> p \<noteq> 0 \<and> load_ptr h' 8 = Some p \<and> live h' p = Some 24"
proof -
  obtain h' where "allocate_field pointer_heap 8 4 6 = Ok h'" using pointer_heap_allocates by blast
  with allocate_field_no_overflow [OF this pointer_heap_ok] show ?thesis by auto
qed

section \<open>Memory safety\<close>


text \<open>A message with an optional integer, an array of two with its counter, a submessage and a string, in 24 bytes.\<close>

definition sample_fields :: "pb_field list" where
  "sample_fields = [Pb_field 1 0x11 4 (- 4) 4 0 PtrNull, Pb_field 2 0x21 4 (- 4) 4 2 PtrNull,
     Pb_field 3 0x08 0 0 1 0 (PtrFields one_bool), Pb_field 4 0x07 0 0 3 0 PtrNull, PB_LAST_FIELD]"

definition sample_heap :: heap where
  "sample_heap = \<lparr>mem = (\<lambda>x. if x \<in> region 100 24 then Some 7 else None), brk = 200, heap_limit = 200,
     junk = (\<lambda>_. 0), live = (\<lambda>_. None)\<rparr>"

lemma one_bool_laid_out: "laid_out True (Suc 0) 1 one_bool"
  by (simp add: one_bool_def nfields_def PB_LAST_FIELD_def PB_LTYPE_def PB_HTYPE_def PB_ATYPE_def slot_in_def extent_def
      value_fits_def it_field_def field_at_def pb_field_iter_begin_def Let_def)

lemma sample_laid_out: "laid_out True 2 24 sample_fields"
proof -
  have n: "nfields sample_fields = 4" by (simp add: sample_fields_def nfields_def)
  have u: "[0..<4] = [0, Suc 0, Suc (Suc 0), Suc (Suc (Suc 0))]" by (simp add: upt_rec)
  have f: "fits (Suc (Suc 0)) sample_fields"
    by (simp add: sample_fields_def one_bool_def PB_LAST_FIELD_def PB_LTYPE_def)
  show ?thesis unfolding numeral_2_eq_2
    by (rule laid_out.simps(2) [THEN iffD2], unfold n u) (use f one_bool_laid_out in \<open>simp add: slot_in_def extent_def
      value_fits_def it_field_def field_at_def pb_field_iter_begin_def pb_field_iter_next_def sample_fields_def PB_LAST_FIELD_def
      PB_LTYPE_def PB_HTYPE_def PB_ATYPE_def Let_def del: laid_out.simps fits.simps\<close>)
qed

lemma sample_heap_ok: "heap_ok sample_heap" "mapped sample_heap 100 24"
  by (auto simp: heap_ok_def mapped_def sample_heap_def region_def split: if_splits)




end
