(* ===== verification/CLayout.thy ===== *)
theory CLayout
  imports Pb_Common
begin

text \<open>
  Structure types as the generated headers declare them, and their layout on the LP64 machines the
  application is built for: the offset, size and alignment of every member.  \<open>struct_of\<close> is what the
  descriptor macros of \<open>pb.h\<close> ask the compiler.  \<open>cvalue\<close> are the initialisers, and \<open>image\<close> the
  bytes an initialised object has, with zero in the padding.  \<open>field_offsets\<close> says where the
  iterator of \<open>pb_common.c\<close> looks for the fields of a message, and \<open>iter_at_pData\<close> that it does.
\<close>

section \<open>Types and layout\<close>

datatype ctype = CBool | CByte | CInt32 | CUInt32 | CInt64 | CPtr ctype | CArray ctype nat
  | CStruct "cmember list"
and cmember = Member string ctype

fun round_up :: "nat \<Rightarrow> nat \<Rightarrow> nat" where
  "round_up n a = (n + a - 1) div a * a"

fun alignof :: "ctype \<Rightarrow> nat" and alignof_members :: "cmember list \<Rightarrow> nat" where
  "alignof CBool = 1"
| "alignof CByte = 1"
| "alignof CInt32 = 4"
| "alignof CUInt32 = 4"
| "alignof CInt64 = 8"
| "alignof (CPtr t) = 8"
| "alignof (CArray t n) = alignof t"
| "alignof (CStruct ms) = alignof_members ms"
| "alignof_members [] = 1"
| "alignof_members (Member m t # ms) = max (alignof t) (alignof_members ms)"

fun sizeof :: "ctype \<Rightarrow> nat" and sizeof_members :: "nat \<Rightarrow> cmember list \<Rightarrow> nat" where
  "sizeof CBool = 1"
| "sizeof CByte = 1"
| "sizeof CInt32 = 4"
| "sizeof CUInt32 = 4"
| "sizeof CInt64 = 8"
| "sizeof (CPtr t) = 8"
| "sizeof (CArray t n) = n * sizeof t"
| "sizeof (CStruct ms) = round_up (sizeof_members 0 ms) (alignof_members ms)"
| "sizeof_members n [] = n"
| "sizeof_members n (Member m t # ms) = sizeof_members (round_up n (alignof t) + sizeof t) ms"

fun member_at :: "nat \<Rightarrow> cmember list \<Rightarrow> string \<Rightarrow> (nat \<times> ctype) option" where
  "member_at n [] m' = None"
| "member_at n (Member m t # ms) m' =
     (let off = round_up n (alignof t)
      in if m = m' then Some (off, t) else member_at (off + sizeof t) ms m')"

text \<open>All members with their offsets.\<close>

fun members_at :: "nat \<Rightarrow> cmember list \<Rightarrow> (string \<times> nat \<times> ctype) list"
  and members_with :: "nat \<Rightarrow> string \<Rightarrow> ctype \<Rightarrow> cmember list \<Rightarrow> (string \<times> nat \<times> ctype) list" where
  "members_at n [] = []"
| "members_at n (Member m t # ms) = members_with (round_up n (alignof t)) m t ms"
| "members_with off m t ms = (m, off, t) # members_at (off + sizeof t) ms"

lemma member_at_members: "member_at n ms m = map_of (members_at n ms) m"
proof (induction ms arbitrary: n)
  case (Cons c ms)
  then show ?case by (cases c) (simp add: Let_def)
qed simp

fun item_type :: "ctype \<Rightarrow> ctype option" where
  "item_type (CPtr t) = Some t"
| "item_type (CArray t n) = Some t"
| "item_type t = None"

definition struct_of :: "cmember list \<Rightarrow> cstruct" where
  "struct_of ms =
     \<lparr>offsetof = (\<lambda>m. case member_at 0 ms m of None \<Rightarrow> 0 | Some (off, t) \<Rightarrow> off),
      membersize = (\<lambda>m. case member_at 0 ms m of None \<Rightarrow> 0 | Some (off, t) \<Rightarrow> sizeof t),
      itemsize = (\<lambda>m. case member_at 0 ms m of None \<Rightarrow> 0 | Some (off, t) \<Rightarrow>
        (case item_type t of None \<Rightarrow> 0 | Some u \<Rightarrow> sizeof u))\<rparr>"

text \<open>The structure \<open>pb_bytes_array_t\<close> of \<open>pb.h\<close>.\<close>

definition pb_bytes_array_t :: ctype where
  "pb_bytes_array_t = CStruct [Member ''size'' CUInt32, Member ''bytes'' (CArray CByte 1)]"

lemma sizeof_bytes_array: "sizeof pb_bytes_array_t = 8"
  by (simp add: pb_bytes_array_t_def)

lemma struct_of_simps:
  "offsetof (struct_of ms) m = (case member_at 0 ms m of None \<Rightarrow> 0 | Some (off, t) \<Rightarrow> off)"
  "membersize (struct_of ms) m = (case member_at 0 ms m of None \<Rightarrow> 0 | Some (off, t) \<Rightarrow> sizeof t)"
  "itemsize (struct_of ms) m = (case member_at 0 ms m of None \<Rightarrow> 0 | Some (off, t) \<Rightarrow>
     (case item_type t of None \<Rightarrow> 0 | Some u \<Rightarrow> sizeof u))"
  by (simp_all add: struct_of_def)

lemmas PB_FIELD_simps = PB_FIELD_def PB_OPTIONAL_STATIC_def PB_OPTIONAL_POINTER_def
  PB_REPEATED_POINTER_def PB_DATAOFFSET_FIRST_def PB_DATAOFFSET_OTHER_def pb_membersize_def
  pb_delta_def struct_of_simps

section \<open>Initialisers\<close>

datatype cvalue = VInt int | VNull | VStruct "cvalue list"

definition zeros :: "nat \<Rightarrow> byte list" where
  "zeros n = replicate n 0"

definition le_int :: "nat \<Rightarrow> int \<Rightarrow> byte list" where
  "le_int n v = le_of_nat n (nat (v mod 256 ^ n))"

fun image :: "ctype \<Rightarrow> cvalue \<Rightarrow> byte list"
  and image_members :: "nat \<Rightarrow> cmember list \<Rightarrow> cvalue list \<Rightarrow> byte list" where
  "image (CStruct ms) (VStruct vs) =
     (let bs = image_members 0 ms vs in bs @ zeros (sizeof (CStruct ms) - length bs))"
| "image t (VInt v) = le_int (sizeof t) v"
| "image t v = zeros (sizeof t)"
| "image_members n (Member m t # ms) (v # vs) =
     (let off = round_up n (alignof t)
      in zeros (off - n) @ image t v @ image_members (off + sizeof t) ms vs)"
| "image_members n ms vs = []"

section \<open>Where the iterator looks\<close>

text \<open>The size of the object of a field inside its message.\<close>

definition member_size :: "pb_field \<Rightarrow> int" where
  "member_size f =
     (if PB_ATYPE (fld_type f) = PB_ATYPE_STATIC \<and> PB_HTYPE (fld_type f) = PB_HTYPE_REPEATED
      then uint (data_size f) * uint (array_size f)
      else if PB_ATYPE (fld_type f) = PB_ATYPE_POINTER then 8 else uint (data_size f))"

text \<open>The offsets of the data and of the presence or count member of the fields that follow a
  field with object at \<open>off\<close>; for messages without unions.\<close>

fun offsets_from :: "pb_field \<Rightarrow> int \<Rightarrow> pb_field list \<Rightarrow> (int \<times> int) list" where
  "offsets_from f off [] = []"
| "offsets_from f off (g # fs) =
     (let o' = off + member_size f + uint (data_offset g)
      in (o', o' + sint (size_offset g)) # offsets_from g o' fs)"

fun field_offsets :: "pb_field list \<Rightarrow> (int \<times> int) list" where
  "field_offsets [] = []"
| "field_offsets (f # fs) =
     (let o' = uint (data_offset f) in (o', o' + sint (size_offset f)) # offsets_from f o' fs)"

definition no_union :: "pb_field list \<Rightarrow> bool" where
  "no_union fs \<longleftrightarrow> list_all (\<lambda>f. PB_HTYPE (fld_type f) \<noteq> PB_HTYPE_ONEOF) fs"

lemma offsets_from_nth: "i < length fs \<Longrightarrow>
  offsets_from f off fs ! i =
    (let g = fs ! i; p = (f # fs) ! i; o' = fst (((off, b) # offsets_from f off fs) ! i)
              + member_size p + uint (data_offset g)
     in (o', o' + sint (size_offset g)))"
proof (induction fs arbitrary: f off b i)
  case (Cons g fs)
  show ?case
  proof (cases i)
    case (Suc k)
    with Cons.prems Cons.IH [of k g "off + member_size f + uint (data_offset g)"] show ?thesis
      by (simp add: Let_def)
  qed (simp add: Let_def)
qed simp

lemma field_offsets_nth_0: "fs \<noteq> [] \<Longrightarrow> field_offsets fs ! 0 =
  (uint (data_offset (fs ! 0)), uint (data_offset (fs ! 0)) + sint (size_offset (fs ! 0)))"
  by (cases fs) (simp_all add: Let_def)

lemma field_offsets_nth: "Suc i < length fs \<Longrightarrow> field_offsets fs ! Suc i =
  (let o' = fst (field_offsets fs ! i) + member_size (fs ! i) + uint (data_offset (fs ! Suc i))
   in (o', o' + sint (size_offset (fs ! Suc i))))"
  using offsets_from_nth [of i "tl fs" "hd fs" "uint (data_offset (hd fs))"
      "uint (data_offset (hd fs)) + sint (size_offset (hd fs))"]
  by (cases fs) (simp_all add: Let_def)

lemma length_offsets_from: "length (offsets_from f off fs) = length fs"
  by (induction fs arbitrary: f off) (simp_all add: Let_def)

lemma length_field_offsets [simp]: "length (field_offsets fs) = length fs"
  by (cases fs) (simp_all add: Let_def length_offsets_from)

lemma iter_at_pData:
  assumes "no_union fs" "i < nfields fs"
  shows "pData (iter_at fs d i) = d + fst (field_offsets fs ! i)
    \<and> pSize (iter_at fs d i) = d + snd (field_offsets fs ! i)"
  using assms(2)
proof (induction i)
  case 0
  then have l: "0 < length fs" "fs \<noteq> []" using nfields_le [of fs] by auto
  then show ?case
    using 0 by (simp add: pb_field_iter_begin_def Let_def field_offsets_nth_0 field_at_less)
next
  case (Suc i)
  then have i: "i < nfields fs" "Suc i < length fs" using nfields_le [of fs] by simp_all
  have f: "it_field (iter_at fs d i) = fs ! i" "field_at fs (Suc i) = fs ! Suc i"
    using Suc.prems i by (simp_all add: it_field_at field_at_less)
  have nu: "PB_HTYPE (fld_type (fs ! i)) \<noteq> PB_HTYPE_ONEOF"
    using assms(1) i by (simp add: no_union_def list_all_length)
  have t: "fld_tag (fs ! i) \<noteq> 0" "fld_tag (fs ! Suc i) \<noteq> 0"
    using tag_before_end [OF Suc.prems] tag_before_end [OF i(1)] f Suc.prems i
    by (simp_all add: field_at_less)
  show ?case
    using Suc.IH [OF i(1)] nu t f i
    by (simp add: pb_field_iter_next_def Let_def it_field_def [where it = "_\<lparr>it_pos := _\<rparr>"]
        iter_at_pos field_offsets_nth member_size_def)
qed

section \<open>Tables that describe a structure\<close>

text \<open>A row names the tag of a field, its member and the member that tells its presence.  A table is
  right when it has exactly these fields and no unions, the iterator finds each member where the
  compiler puts it, and the size in the descriptor is that of the member, or of what it points to.\<close>

definition row_ok :: "cmember list \<Rightarrow> pb_field \<Rightarrow> int \<times> int \<Rightarrow> uint32 \<times> string \<times> string \<Rightarrow> bool" where
  "row_ok ms f off = (\<lambda>(tag, m, pres).
     fld_tag f = tag \<and> PB_LTYPE (fld_type f) \<noteq> PB_LTYPE_EXTENSION
     \<and> off = (int (offsetof (struct_of ms) m), int (offsetof (struct_of ms) pres))
     \<and> member_at 0 ms m \<noteq> None \<and> member_at 0 ms pres \<noteq> None
     \<and> data_size f = word_of_nat (if PB_ATYPE (fld_type f) = PB_ATYPE_POINTER
          then itemsize (struct_of ms) m else membersize (struct_of ms) m))"

definition describes :: "cmember list \<Rightarrow> pb_field list \<Rightarrow> (uint32 \<times> string \<times> string) list \<Rightarrow> bool" where
  "describes ms fs rows \<longleftrightarrow> nfields fs = length rows \<and> no_union fs \<and> distinct (map fst rows)
     \<and> list_all (\<lambda>(f, off, row). row_ok ms f off row) (zip fs (zip (field_offsets fs) rows))"

lemmas describes_simps = describes_def no_union_def nfields_def row_ok_def field_at_def member_size_def
  PB_LTYPE_def PB_HTYPE_def PB_ATYPE_def struct_of_simps PB_LAST_FIELD_def One_nat_def

lemma describes_row:
  "describes ms fs rows \<Longrightarrow> i < length rows \<Longrightarrow>
   row_ok ms (field_at fs i) (field_offsets fs ! i) (rows ! i)"
  using nfields_le [of fs] length_field_offsets [of fs]
  by (simp add: describes_def list_all_length field_at_def)

lemma describes_tag:
  assumes "describes ms fs rows" "i < length rows" "rows ! i = (tag, m, pres)"
  shows "tag_matches fs tag q \<and> q < length rows \<longleftrightarrow> q = i"
proof
  assume q: "tag_matches fs tag q \<and> q < length rows"
  then have "fst (rows ! q) = fst (rows ! i)"
    using describes_row [OF assms(1), of q] assms(3)
    by (auto simp: row_ok_def tag_matches_def split: prod.splits)
  moreover have "distinct (map fst rows)" using assms(1) by (simp add: describes_def)
  ultimately show "q = i"
    using q assms(2) nth_eq_iff_index_eq [of "map fst rows" q i] by simp
next
  assume "q = i"
  with describes_row [OF assms(1,2)] assms(2,3) show "tag_matches fs tag q \<and> q < length rows"
    by (auto simp: row_ok_def tag_matches_def)
qed

text \<open>The search from any field of the message ends on the member.\<close>

lemma describes_find:
  assumes "describes ms fs rows" "(tag, m, pres) \<in> set rows" "p < length rows"
  shows "\<exists>it. pb_field_iter_find (iter_at fs d p) tag = (True, it) \<and> fld_tag (it_field it) = tag
    \<and> pData it = d + int (offsetof (struct_of ms) m) \<and> pSize it = d + int (offsetof (struct_of ms) pres)"
proof -
  from assms(2) obtain i where i: "i < length rows" "rows ! i = (tag, m, pres)"
    by (auto simp: in_set_conv_nth)
  have n: "nfields fs = length rows" "no_union fs" using assms(1) by (simp_all add: describes_def)
  have "fst (pb_field_iter_find (iter_at fs d p) tag)"
    using iter_find_None [of p fs d tag] assms(3) i n describes_tag [OF assms(1) i, of i] by auto
  then obtain it where f: "pb_field_iter_find (iter_at fs d p) tag = (True, it)"
    by (metis prod.collapse)
  with iter_find_Some [of p fs d tag it] assms(3) n obtain q where
    "q < length rows" "it = iter_at fs d q" "tag_matches fs tag q" by auto
  with describes_tag [OF assms(1) i, of q] have it: "it = iter_at fs d i" "tag_matches fs tag i" by simp_all
  have r: "row_ok ms (field_at fs i) (field_offsets fs ! i) (tag, m, pres)"
    using describes_row [OF assms(1) i(1)] i(2) by simp
  from iter_at_pData [OF n(2), of i d] i(1) n(1) r it(1)
  have "pData it = d + int (offsetof (struct_of ms) m)" "pSize it = d + int (offsetof (struct_of ms) pres)"
    by (simp_all add: row_ok_def)
  moreover have "fld_tag (it_field it) = tag"
    using it i(1) n(1) by (simp add: it_field_at tag_matches_def)
  ultimately show ?thesis using f by blast
qed

end
