(* ===== verification/Cct_Proto.thy ===== *)
theory Cct_Proto
  imports CLayout Pb_Lifecycle_Props
begin

text \<open>
  \<open>cct.nanopb.c\<close> and \<open>cct.nanopb.h\<close>: the messages of the Clearcut log transport, that is the
  enumerations, the structures, the initialisers, the tags and the descriptor tables that nanopb works from, in
  the terms of the macros of \<open>pb.h\<close>.  The theorems compare the tables with the structures.
\<close>

section \<open>Enumerations\<close>

datatype gdt_cct_NetworkConnectionInfo_NetworkType =
    gdt_cct_NetworkConnectionInfo_NetworkType_NONE
  | gdt_cct_NetworkConnectionInfo_NetworkType_MOBILE
  | gdt_cct_NetworkConnectionInfo_NetworkType_WIFI
  | gdt_cct_NetworkConnectionInfo_NetworkType_MOBILE_MMS
  | gdt_cct_NetworkConnectionInfo_NetworkType_MOBILE_SUPL
  | gdt_cct_NetworkConnectionInfo_NetworkType_MOBILE_DUN
  | gdt_cct_NetworkConnectionInfo_NetworkType_MOBILE_HIPRI
  | gdt_cct_NetworkConnectionInfo_NetworkType_WIMAX
  | gdt_cct_NetworkConnectionInfo_NetworkType_BLUETOOTH
  | gdt_cct_NetworkConnectionInfo_NetworkType_DUMMY
  | gdt_cct_NetworkConnectionInfo_NetworkType_ETHERNET
  | gdt_cct_NetworkConnectionInfo_NetworkType_MOBILE_FOTA
  | gdt_cct_NetworkConnectionInfo_NetworkType_MOBILE_IMS
  | gdt_cct_NetworkConnectionInfo_NetworkType_MOBILE_CBS
  | gdt_cct_NetworkConnectionInfo_NetworkType_WIFI_P2P
  | gdt_cct_NetworkConnectionInfo_NetworkType_MOBILE_IA
  | gdt_cct_NetworkConnectionInfo_NetworkType_MOBILE_EMERGENCY
  | gdt_cct_NetworkConnectionInfo_NetworkType_PROXY
  | gdt_cct_NetworkConnectionInfo_NetworkType_VPN

fun gdt_cct_NetworkConnectionInfo_NetworkType_value :: "gdt_cct_NetworkConnectionInfo_NetworkType \<Rightarrow> int" where
  "gdt_cct_NetworkConnectionInfo_NetworkType_value gdt_cct_NetworkConnectionInfo_NetworkType_NONE = -1"
| "gdt_cct_NetworkConnectionInfo_NetworkType_value gdt_cct_NetworkConnectionInfo_NetworkType_MOBILE = 0"
| "gdt_cct_NetworkConnectionInfo_NetworkType_value gdt_cct_NetworkConnectionInfo_NetworkType_WIFI = 1"
| "gdt_cct_NetworkConnectionInfo_NetworkType_value gdt_cct_NetworkConnectionInfo_NetworkType_MOBILE_MMS = 2"
| "gdt_cct_NetworkConnectionInfo_NetworkType_value gdt_cct_NetworkConnectionInfo_NetworkType_MOBILE_SUPL = 3"
| "gdt_cct_NetworkConnectionInfo_NetworkType_value gdt_cct_NetworkConnectionInfo_NetworkType_MOBILE_DUN = 4"
| "gdt_cct_NetworkConnectionInfo_NetworkType_value gdt_cct_NetworkConnectionInfo_NetworkType_MOBILE_HIPRI = 5"
| "gdt_cct_NetworkConnectionInfo_NetworkType_value gdt_cct_NetworkConnectionInfo_NetworkType_WIMAX = 6"
| "gdt_cct_NetworkConnectionInfo_NetworkType_value gdt_cct_NetworkConnectionInfo_NetworkType_BLUETOOTH = 7"
| "gdt_cct_NetworkConnectionInfo_NetworkType_value gdt_cct_NetworkConnectionInfo_NetworkType_DUMMY = 8"
| "gdt_cct_NetworkConnectionInfo_NetworkType_value gdt_cct_NetworkConnectionInfo_NetworkType_ETHERNET = 9"
| "gdt_cct_NetworkConnectionInfo_NetworkType_value gdt_cct_NetworkConnectionInfo_NetworkType_MOBILE_FOTA = 10"
| "gdt_cct_NetworkConnectionInfo_NetworkType_value gdt_cct_NetworkConnectionInfo_NetworkType_MOBILE_IMS = 11"
| "gdt_cct_NetworkConnectionInfo_NetworkType_value gdt_cct_NetworkConnectionInfo_NetworkType_MOBILE_CBS = 12"
| "gdt_cct_NetworkConnectionInfo_NetworkType_value gdt_cct_NetworkConnectionInfo_NetworkType_WIFI_P2P = 13"
| "gdt_cct_NetworkConnectionInfo_NetworkType_value gdt_cct_NetworkConnectionInfo_NetworkType_MOBILE_IA = 14"
| "gdt_cct_NetworkConnectionInfo_NetworkType_value gdt_cct_NetworkConnectionInfo_NetworkType_MOBILE_EMERGENCY = 15"
| "gdt_cct_NetworkConnectionInfo_NetworkType_value gdt_cct_NetworkConnectionInfo_NetworkType_PROXY = 16"
| "gdt_cct_NetworkConnectionInfo_NetworkType_value gdt_cct_NetworkConnectionInfo_NetworkType_VPN = 17"

definition gdt_cct_NetworkConnectionInfo_NetworkType_MIN :: int where
  "gdt_cct_NetworkConnectionInfo_NetworkType_MIN = gdt_cct_NetworkConnectionInfo_NetworkType_value gdt_cct_NetworkConnectionInfo_NetworkType_NONE"

definition gdt_cct_NetworkConnectionInfo_NetworkType_MAX :: int where
  "gdt_cct_NetworkConnectionInfo_NetworkType_MAX = gdt_cct_NetworkConnectionInfo_NetworkType_value gdt_cct_NetworkConnectionInfo_NetworkType_VPN"

definition gdt_cct_NetworkConnectionInfo_NetworkType_ARRAYSIZE :: int where
  "gdt_cct_NetworkConnectionInfo_NetworkType_ARRAYSIZE = gdt_cct_NetworkConnectionInfo_NetworkType_value gdt_cct_NetworkConnectionInfo_NetworkType_VPN + 1"

datatype gdt_cct_NetworkConnectionInfo_MobileSubtype =
    gdt_cct_NetworkConnectionInfo_MobileSubtype_UNKNOWN_MOBILE_SUBTYPE
  | gdt_cct_NetworkConnectionInfo_MobileSubtype_GPRS
  | gdt_cct_NetworkConnectionInfo_MobileSubtype_EDGE
  | gdt_cct_NetworkConnectionInfo_MobileSubtype_UMTS
  | gdt_cct_NetworkConnectionInfo_MobileSubtype_CDMA
  | gdt_cct_NetworkConnectionInfo_MobileSubtype_EVDO_0
  | gdt_cct_NetworkConnectionInfo_MobileSubtype_EVDO_A
  | gdt_cct_NetworkConnectionInfo_MobileSubtype_RTT
  | gdt_cct_NetworkConnectionInfo_MobileSubtype_HSDPA
  | gdt_cct_NetworkConnectionInfo_MobileSubtype_HSUPA
  | gdt_cct_NetworkConnectionInfo_MobileSubtype_HSPA
  | gdt_cct_NetworkConnectionInfo_MobileSubtype_IDEN
  | gdt_cct_NetworkConnectionInfo_MobileSubtype_EVDO_B
  | gdt_cct_NetworkConnectionInfo_MobileSubtype_LTE
  | gdt_cct_NetworkConnectionInfo_MobileSubtype_EHRPD
  | gdt_cct_NetworkConnectionInfo_MobileSubtype_HSPAP
  | gdt_cct_NetworkConnectionInfo_MobileSubtype_GSM
  | gdt_cct_NetworkConnectionInfo_MobileSubtype_TD_SCDMA
  | gdt_cct_NetworkConnectionInfo_MobileSubtype_IWLAN
  | gdt_cct_NetworkConnectionInfo_MobileSubtype_LTE_CA
  | gdt_cct_NetworkConnectionInfo_MobileSubtype_COMBINED

fun gdt_cct_NetworkConnectionInfo_MobileSubtype_value :: "gdt_cct_NetworkConnectionInfo_MobileSubtype \<Rightarrow> int" where
  "gdt_cct_NetworkConnectionInfo_MobileSubtype_value gdt_cct_NetworkConnectionInfo_MobileSubtype_UNKNOWN_MOBILE_SUBTYPE = 0"
| "gdt_cct_NetworkConnectionInfo_MobileSubtype_value gdt_cct_NetworkConnectionInfo_MobileSubtype_GPRS = 1"
| "gdt_cct_NetworkConnectionInfo_MobileSubtype_value gdt_cct_NetworkConnectionInfo_MobileSubtype_EDGE = 2"
| "gdt_cct_NetworkConnectionInfo_MobileSubtype_value gdt_cct_NetworkConnectionInfo_MobileSubtype_UMTS = 3"
| "gdt_cct_NetworkConnectionInfo_MobileSubtype_value gdt_cct_NetworkConnectionInfo_MobileSubtype_CDMA = 4"
| "gdt_cct_NetworkConnectionInfo_MobileSubtype_value gdt_cct_NetworkConnectionInfo_MobileSubtype_EVDO_0 = 5"
| "gdt_cct_NetworkConnectionInfo_MobileSubtype_value gdt_cct_NetworkConnectionInfo_MobileSubtype_EVDO_A = 6"
| "gdt_cct_NetworkConnectionInfo_MobileSubtype_value gdt_cct_NetworkConnectionInfo_MobileSubtype_RTT = 7"
| "gdt_cct_NetworkConnectionInfo_MobileSubtype_value gdt_cct_NetworkConnectionInfo_MobileSubtype_HSDPA = 8"
| "gdt_cct_NetworkConnectionInfo_MobileSubtype_value gdt_cct_NetworkConnectionInfo_MobileSubtype_HSUPA = 9"
| "gdt_cct_NetworkConnectionInfo_MobileSubtype_value gdt_cct_NetworkConnectionInfo_MobileSubtype_HSPA = 10"
| "gdt_cct_NetworkConnectionInfo_MobileSubtype_value gdt_cct_NetworkConnectionInfo_MobileSubtype_IDEN = 11"
| "gdt_cct_NetworkConnectionInfo_MobileSubtype_value gdt_cct_NetworkConnectionInfo_MobileSubtype_EVDO_B = 12"
| "gdt_cct_NetworkConnectionInfo_MobileSubtype_value gdt_cct_NetworkConnectionInfo_MobileSubtype_LTE = 13"
| "gdt_cct_NetworkConnectionInfo_MobileSubtype_value gdt_cct_NetworkConnectionInfo_MobileSubtype_EHRPD = 14"
| "gdt_cct_NetworkConnectionInfo_MobileSubtype_value gdt_cct_NetworkConnectionInfo_MobileSubtype_HSPAP = 15"
| "gdt_cct_NetworkConnectionInfo_MobileSubtype_value gdt_cct_NetworkConnectionInfo_MobileSubtype_GSM = 16"
| "gdt_cct_NetworkConnectionInfo_MobileSubtype_value gdt_cct_NetworkConnectionInfo_MobileSubtype_TD_SCDMA = 17"
| "gdt_cct_NetworkConnectionInfo_MobileSubtype_value gdt_cct_NetworkConnectionInfo_MobileSubtype_IWLAN = 18"
| "gdt_cct_NetworkConnectionInfo_MobileSubtype_value gdt_cct_NetworkConnectionInfo_MobileSubtype_LTE_CA = 19"
| "gdt_cct_NetworkConnectionInfo_MobileSubtype_value gdt_cct_NetworkConnectionInfo_MobileSubtype_COMBINED = 100"

definition gdt_cct_NetworkConnectionInfo_MobileSubtype_MIN :: int where
  "gdt_cct_NetworkConnectionInfo_MobileSubtype_MIN = gdt_cct_NetworkConnectionInfo_MobileSubtype_value gdt_cct_NetworkConnectionInfo_MobileSubtype_UNKNOWN_MOBILE_SUBTYPE"

definition gdt_cct_NetworkConnectionInfo_MobileSubtype_MAX :: int where
  "gdt_cct_NetworkConnectionInfo_MobileSubtype_MAX = gdt_cct_NetworkConnectionInfo_MobileSubtype_value gdt_cct_NetworkConnectionInfo_MobileSubtype_COMBINED"

definition gdt_cct_NetworkConnectionInfo_MobileSubtype_ARRAYSIZE :: int where
  "gdt_cct_NetworkConnectionInfo_MobileSubtype_ARRAYSIZE = gdt_cct_NetworkConnectionInfo_MobileSubtype_value gdt_cct_NetworkConnectionInfo_MobileSubtype_COMBINED + 1"

datatype gdt_cct_ClientInfo_ClientType =
    gdt_cct_ClientInfo_ClientType_CLIENT_UNKNOWN
  | gdt_cct_ClientInfo_ClientType_IOS_FIREBASE

fun gdt_cct_ClientInfo_ClientType_value :: "gdt_cct_ClientInfo_ClientType \<Rightarrow> int" where
  "gdt_cct_ClientInfo_ClientType_value gdt_cct_ClientInfo_ClientType_CLIENT_UNKNOWN = 0"
| "gdt_cct_ClientInfo_ClientType_value gdt_cct_ClientInfo_ClientType_IOS_FIREBASE = 15"

definition gdt_cct_ClientInfo_ClientType_MIN :: int where
  "gdt_cct_ClientInfo_ClientType_MIN = gdt_cct_ClientInfo_ClientType_value gdt_cct_ClientInfo_ClientType_CLIENT_UNKNOWN"

definition gdt_cct_ClientInfo_ClientType_MAX :: int where
  "gdt_cct_ClientInfo_ClientType_MAX = gdt_cct_ClientInfo_ClientType_value gdt_cct_ClientInfo_ClientType_IOS_FIREBASE"

definition gdt_cct_ClientInfo_ClientType_ARRAYSIZE :: int where
  "gdt_cct_ClientInfo_ClientType_ARRAYSIZE = gdt_cct_ClientInfo_ClientType_value gdt_cct_ClientInfo_ClientType_IOS_FIREBASE + 1"

datatype gdt_cct_QosTierConfiguration_QosTier =
    gdt_cct_QosTierConfiguration_QosTier_DEFAULT
  | gdt_cct_QosTierConfiguration_QosTier_UNMETERED_ONLY
  | gdt_cct_QosTierConfiguration_QosTier_UNMETERED_OR_DAILY
  | gdt_cct_QosTierConfiguration_QosTier_FAST_IF_RADIO_AWAKE
  | gdt_cct_QosTierConfiguration_QosTier_NEVER

fun gdt_cct_QosTierConfiguration_QosTier_value :: "gdt_cct_QosTierConfiguration_QosTier \<Rightarrow> int" where
  "gdt_cct_QosTierConfiguration_QosTier_value gdt_cct_QosTierConfiguration_QosTier_DEFAULT = 0"
| "gdt_cct_QosTierConfiguration_QosTier_value gdt_cct_QosTierConfiguration_QosTier_UNMETERED_ONLY = 1"
| "gdt_cct_QosTierConfiguration_QosTier_value gdt_cct_QosTierConfiguration_QosTier_UNMETERED_OR_DAILY = 2"
| "gdt_cct_QosTierConfiguration_QosTier_value gdt_cct_QosTierConfiguration_QosTier_FAST_IF_RADIO_AWAKE = 3"
| "gdt_cct_QosTierConfiguration_QosTier_value gdt_cct_QosTierConfiguration_QosTier_NEVER = 4"

definition gdt_cct_QosTierConfiguration_QosTier_MIN :: int where
  "gdt_cct_QosTierConfiguration_QosTier_MIN = gdt_cct_QosTierConfiguration_QosTier_value gdt_cct_QosTierConfiguration_QosTier_DEFAULT"

definition gdt_cct_QosTierConfiguration_QosTier_MAX :: int where
  "gdt_cct_QosTierConfiguration_QosTier_MAX = gdt_cct_QosTierConfiguration_QosTier_value gdt_cct_QosTierConfiguration_QosTier_NEVER"

definition gdt_cct_QosTierConfiguration_QosTier_ARRAYSIZE :: int where
  "gdt_cct_QosTierConfiguration_QosTier_ARRAYSIZE = gdt_cct_QosTierConfiguration_QosTier_value gdt_cct_QosTierConfiguration_QosTier_NEVER + 1"

section \<open>Structures\<close>

text \<open>An enumeration is an \<open>int\<close> when it has a negative member and an \<open>unsigned int\<close> otherwise.\<close>

definition gdt_cct_IosClientInfo :: "cmember list" where
  "gdt_cct_IosClientInfo =
     [Member ''os_major_version'' (CPtr pb_bytes_array_t),
      Member ''os_full_version'' (CPtr pb_bytes_array_t),
      Member ''application_build'' (CPtr pb_bytes_array_t),
      Member ''country'' (CPtr pb_bytes_array_t),
      Member ''model'' (CPtr pb_bytes_array_t),
      Member ''language_code'' (CPtr pb_bytes_array_t),
      Member ''application_bundle_id'' (CPtr pb_bytes_array_t)]"

definition gdt_cct_ClientInfo :: "cmember list" where
  "gdt_cct_ClientInfo =
     [Member ''has_client_type'' CBool,
      Member ''client_type'' CUInt32,
      Member ''has_ios_client_info'' CBool,
      Member ''ios_client_info'' (CStruct gdt_cct_IosClientInfo)]"

definition gdt_cct_NetworkConnectionInfo :: "cmember list" where
  "gdt_cct_NetworkConnectionInfo =
     [Member ''has_network_type'' CBool,
      Member ''network_type'' CInt32,
      Member ''has_mobile_subtype'' CBool,
      Member ''mobile_subtype'' CUInt32]"

definition gdt_cct_LogEvent :: "cmember list" where
  "gdt_cct_LogEvent =
     [Member ''has_event_time_ms'' CBool,
      Member ''event_time_ms'' CInt64,
      Member ''source_extension'' (CPtr pb_bytes_array_t),
      Member ''has_event_code'' CBool,
      Member ''event_code'' CInt32,
      Member ''has_timezone_offset_seconds'' CBool,
      Member ''timezone_offset_seconds'' CInt64,
      Member ''has_event_uptime_ms'' CBool,
      Member ''event_uptime_ms'' CInt64,
      Member ''has_network_connection_info'' CBool,
      Member ''network_connection_info'' (CStruct gdt_cct_NetworkConnectionInfo)]"

definition gdt_cct_LogRequest :: "cmember list" where
  "gdt_cct_LogRequest =
     [Member ''has_client_info'' CBool,
      Member ''client_info'' (CStruct gdt_cct_ClientInfo),
      Member ''has_log_source'' CBool,
      Member ''log_source'' CInt32,
      Member ''log_event_count'' CUInt32,
      Member ''log_event'' (CPtr (CStruct gdt_cct_LogEvent)),
      Member ''has_request_time_ms'' CBool,
      Member ''request_time_ms'' CInt64,
      Member ''has_request_uptime_ms'' CBool,
      Member ''request_uptime_ms'' CInt64,
      Member ''has_qos_tier'' CBool,
      Member ''qos_tier'' CUInt32]"

definition gdt_cct_BatchedLogRequest :: "cmember list" where
  "gdt_cct_BatchedLogRequest =
     [Member ''log_request_count'' CUInt32,
      Member ''log_request'' (CPtr (CStruct gdt_cct_LogRequest))]"

definition gdt_cct_QosTierConfiguration :: "cmember list" where
  "gdt_cct_QosTierConfiguration =
     [Member ''has_qos_tier'' CBool,
      Member ''qos_tier'' CUInt32,
      Member ''has_log_source'' CBool,
      Member ''log_source'' CInt32]"

definition gdt_cct_QosTiersOverride :: "cmember list" where
  "gdt_cct_QosTiersOverride =
     [Member ''qos_tier_configuration_count'' CUInt32,
      Member ''qos_tier_configuration'' (CPtr (CStruct gdt_cct_QosTierConfiguration)),
      Member ''has_qos_tier_fingerprint'' CBool,
      Member ''qos_tier_fingerprint'' CInt64]"

definition gdt_cct_LogResponse :: "cmember list" where
  "gdt_cct_LogResponse =
     [Member ''has_next_request_wait_millis'' CBool,
      Member ''next_request_wait_millis'' CInt64,
      Member ''has_qos_tier'' CBool,
      Member ''qos_tier'' (CStruct gdt_cct_QosTiersOverride)]"

section \<open>Default values\<close>

definition gdt_cct_NetworkConnectionInfo_network_type_default :: "byte list" where
  "gdt_cct_NetworkConnectionInfo_network_type_default = le_int 4 (gdt_cct_NetworkConnectionInfo_NetworkType_value gdt_cct_NetworkConnectionInfo_NetworkType_NONE)"

definition gdt_cct_NetworkConnectionInfo_mobile_subtype_default :: "byte list" where
  "gdt_cct_NetworkConnectionInfo_mobile_subtype_default = le_int 4 (gdt_cct_NetworkConnectionInfo_MobileSubtype_value gdt_cct_NetworkConnectionInfo_MobileSubtype_UNKNOWN_MOBILE_SUBTYPE)"

definition gdt_cct_LogRequest_qos_tier_default :: "byte list" where
  "gdt_cct_LogRequest_qos_tier_default = le_int 4 (gdt_cct_QosTierConfiguration_QosTier_value gdt_cct_QosTierConfiguration_QosTier_DEFAULT)"

definition gdt_cct_QosTierConfiguration_log_source_default :: "byte list" where
  "gdt_cct_QosTierConfiguration_log_source_default = le_int 4 0"

section \<open>Initialisers\<close>

definition gdt_cct_NetworkConnectionInfo_init_default :: cvalue where
  "gdt_cct_NetworkConnectionInfo_init_default =
     VStruct [VInt 0, VInt (gdt_cct_NetworkConnectionInfo_NetworkType_value gdt_cct_NetworkConnectionInfo_NetworkType_NONE), VInt 0, VInt (gdt_cct_NetworkConnectionInfo_MobileSubtype_value gdt_cct_NetworkConnectionInfo_MobileSubtype_UNKNOWN_MOBILE_SUBTYPE)]"

definition gdt_cct_LogEvent_init_default :: cvalue where
  "gdt_cct_LogEvent_init_default =
     VStruct [VInt 0, VInt 0, VNull, VInt 0, VInt 0, VInt 0, VInt 0, VInt 0, VInt 0, VInt 0, gdt_cct_NetworkConnectionInfo_init_default]"

definition gdt_cct_IosClientInfo_init_default :: cvalue where
  "gdt_cct_IosClientInfo_init_default =
     VStruct [VNull, VNull, VNull, VNull, VNull, VNull, VNull]"

definition gdt_cct_ClientInfo_init_default :: cvalue where
  "gdt_cct_ClientInfo_init_default =
     VStruct [VInt 0, VInt gdt_cct_ClientInfo_ClientType_MIN, VInt 0, gdt_cct_IosClientInfo_init_default]"

definition gdt_cct_BatchedLogRequest_init_default :: cvalue where
  "gdt_cct_BatchedLogRequest_init_default =
     VStruct [VInt 0, VNull]"

definition gdt_cct_LogRequest_init_default :: cvalue where
  "gdt_cct_LogRequest_init_default =
     VStruct [VInt 0, gdt_cct_ClientInfo_init_default, VInt 0, VInt 0, VInt 0, VNull, VInt 0, VInt 0, VInt 0, VInt 0, VInt 0, VInt (gdt_cct_QosTierConfiguration_QosTier_value gdt_cct_QosTierConfiguration_QosTier_DEFAULT)]"

definition gdt_cct_QosTierConfiguration_init_default :: cvalue where
  "gdt_cct_QosTierConfiguration_init_default =
     VStruct [VInt 0, VInt gdt_cct_QosTierConfiguration_QosTier_MIN, VInt 0, VInt 0]"

definition gdt_cct_QosTiersOverride_init_default :: cvalue where
  "gdt_cct_QosTiersOverride_init_default =
     VStruct [VInt 0, VNull, VInt 0, VInt 0]"

definition gdt_cct_LogResponse_init_default :: cvalue where
  "gdt_cct_LogResponse_init_default =
     VStruct [VInt 0, VInt 0, VInt 0, gdt_cct_QosTiersOverride_init_default]"

definition gdt_cct_NetworkConnectionInfo_init_zero :: cvalue where
  "gdt_cct_NetworkConnectionInfo_init_zero =
     VStruct [VInt 0, VInt gdt_cct_NetworkConnectionInfo_NetworkType_MIN, VInt 0, VInt gdt_cct_NetworkConnectionInfo_MobileSubtype_MIN]"

definition gdt_cct_LogEvent_init_zero :: cvalue where
  "gdt_cct_LogEvent_init_zero =
     VStruct [VInt 0, VInt 0, VNull, VInt 0, VInt 0, VInt 0, VInt 0, VInt 0, VInt 0, VInt 0, gdt_cct_NetworkConnectionInfo_init_zero]"

definition gdt_cct_IosClientInfo_init_zero :: cvalue where
  "gdt_cct_IosClientInfo_init_zero =
     VStruct [VNull, VNull, VNull, VNull, VNull, VNull, VNull]"

definition gdt_cct_ClientInfo_init_zero :: cvalue where
  "gdt_cct_ClientInfo_init_zero =
     VStruct [VInt 0, VInt gdt_cct_ClientInfo_ClientType_MIN, VInt 0, gdt_cct_IosClientInfo_init_zero]"

definition gdt_cct_BatchedLogRequest_init_zero :: cvalue where
  "gdt_cct_BatchedLogRequest_init_zero =
     VStruct [VInt 0, VNull]"

definition gdt_cct_LogRequest_init_zero :: cvalue where
  "gdt_cct_LogRequest_init_zero =
     VStruct [VInt 0, gdt_cct_ClientInfo_init_zero, VInt 0, VInt 0, VInt 0, VNull, VInt 0, VInt 0, VInt 0, VInt 0, VInt 0, VInt gdt_cct_QosTierConfiguration_QosTier_MIN]"

definition gdt_cct_QosTierConfiguration_init_zero :: cvalue where
  "gdt_cct_QosTierConfiguration_init_zero =
     VStruct [VInt 0, VInt gdt_cct_QosTierConfiguration_QosTier_MIN, VInt 0, VInt 0]"

definition gdt_cct_QosTiersOverride_init_zero :: cvalue where
  "gdt_cct_QosTiersOverride_init_zero =
     VStruct [VInt 0, VNull, VInt 0, VInt 0]"

definition gdt_cct_LogResponse_init_zero :: cvalue where
  "gdt_cct_LogResponse_init_zero =
     VStruct [VInt 0, VInt 0, VInt 0, gdt_cct_QosTiersOverride_init_zero]"

section \<open>Field tags\<close>

definition gdt_cct_BatchedLogRequest_log_request_tag :: uint32 where
  "gdt_cct_BatchedLogRequest_log_request_tag = 1"

definition gdt_cct_IosClientInfo_os_major_version_tag :: uint32 where
  "gdt_cct_IosClientInfo_os_major_version_tag = 3"

definition gdt_cct_IosClientInfo_os_full_version_tag :: uint32 where
  "gdt_cct_IosClientInfo_os_full_version_tag = 4"

definition gdt_cct_IosClientInfo_application_build_tag :: uint32 where
  "gdt_cct_IosClientInfo_application_build_tag = 5"

definition gdt_cct_IosClientInfo_country_tag :: uint32 where
  "gdt_cct_IosClientInfo_country_tag = 6"

definition gdt_cct_IosClientInfo_model_tag :: uint32 where
  "gdt_cct_IosClientInfo_model_tag = 7"

definition gdt_cct_IosClientInfo_language_code_tag :: uint32 where
  "gdt_cct_IosClientInfo_language_code_tag = 8"

definition gdt_cct_IosClientInfo_application_bundle_id_tag :: uint32 where
  "gdt_cct_IosClientInfo_application_bundle_id_tag = 11"

definition gdt_cct_ClientInfo_client_type_tag :: uint32 where
  "gdt_cct_ClientInfo_client_type_tag = 1"

definition gdt_cct_ClientInfo_ios_client_info_tag :: uint32 where
  "gdt_cct_ClientInfo_ios_client_info_tag = 4"

definition gdt_cct_NetworkConnectionInfo_network_type_tag :: uint32 where
  "gdt_cct_NetworkConnectionInfo_network_type_tag = 1"

definition gdt_cct_NetworkConnectionInfo_mobile_subtype_tag :: uint32 where
  "gdt_cct_NetworkConnectionInfo_mobile_subtype_tag = 2"

definition gdt_cct_QosTierConfiguration_qos_tier_tag :: uint32 where
  "gdt_cct_QosTierConfiguration_qos_tier_tag = 2"

definition gdt_cct_QosTierConfiguration_log_source_tag :: uint32 where
  "gdt_cct_QosTierConfiguration_log_source_tag = 3"

definition gdt_cct_QosTiersOverride_qos_tier_configuration_tag :: uint32 where
  "gdt_cct_QosTiersOverride_qos_tier_configuration_tag = 1"

definition gdt_cct_QosTiersOverride_qos_tier_fingerprint_tag :: uint32 where
  "gdt_cct_QosTiersOverride_qos_tier_fingerprint_tag = 2"

definition gdt_cct_LogEvent_event_time_ms_tag :: uint32 where
  "gdt_cct_LogEvent_event_time_ms_tag = 1"

definition gdt_cct_LogEvent_event_code_tag :: uint32 where
  "gdt_cct_LogEvent_event_code_tag = 11"

definition gdt_cct_LogEvent_event_uptime_ms_tag :: uint32 where
  "gdt_cct_LogEvent_event_uptime_ms_tag = 17"

definition gdt_cct_LogEvent_source_extension_tag :: uint32 where
  "gdt_cct_LogEvent_source_extension_tag = 6"

definition gdt_cct_LogEvent_timezone_offset_seconds_tag :: uint32 where
  "gdt_cct_LogEvent_timezone_offset_seconds_tag = 15"

definition gdt_cct_LogEvent_network_connection_info_tag :: uint32 where
  "gdt_cct_LogEvent_network_connection_info_tag = 23"

definition gdt_cct_LogRequest_request_time_ms_tag :: uint32 where
  "gdt_cct_LogRequest_request_time_ms_tag = 4"

definition gdt_cct_LogRequest_request_uptime_ms_tag :: uint32 where
  "gdt_cct_LogRequest_request_uptime_ms_tag = 8"

definition gdt_cct_LogRequest_client_info_tag :: uint32 where
  "gdt_cct_LogRequest_client_info_tag = 1"

definition gdt_cct_LogRequest_log_source_tag :: uint32 where
  "gdt_cct_LogRequest_log_source_tag = 2"

definition gdt_cct_LogRequest_log_event_tag :: uint32 where
  "gdt_cct_LogRequest_log_event_tag = 3"

definition gdt_cct_LogRequest_qos_tier_tag :: uint32 where
  "gdt_cct_LogRequest_qos_tier_tag = 9"

definition gdt_cct_LogResponse_next_request_wait_millis_tag :: uint32 where
  "gdt_cct_LogResponse_next_request_wait_millis_tag = 1"

definition gdt_cct_LogResponse_qos_tier_tag :: uint32 where
  "gdt_cct_LogResponse_qos_tier_tag = 3"

definition gdt_cct_NetworkConnectionInfo_size :: nat where
  "gdt_cct_NetworkConnectionInfo_size = 13"

definition gdt_cct_QosTierConfiguration_size :: nat where
  "gdt_cct_QosTierConfiguration_size = 13"

section \<open>Descriptor tables\<close>

definition gdt_cct_NetworkConnectionInfo_fields :: "pb_field list" where
  "gdt_cct_NetworkConnectionInfo_fields =
     [PB_FIELD 1 ENUM OPTIONAL STATIC FIRST (struct_of gdt_cct_NetworkConnectionInfo) ''network_type'' ''network_type'' (PtrDefault gdt_cct_NetworkConnectionInfo_network_type_default),
      PB_FIELD 2 UENUM OPTIONAL STATIC OTHER (struct_of gdt_cct_NetworkConnectionInfo) ''mobile_subtype'' ''network_type'' (PtrDefault gdt_cct_NetworkConnectionInfo_mobile_subtype_default),
      PB_LAST_FIELD]"

definition gdt_cct_LogEvent_fields :: "pb_field list" where
  "gdt_cct_LogEvent_fields =
     [PB_FIELD 1 INT64 OPTIONAL STATIC FIRST (struct_of gdt_cct_LogEvent) ''event_time_ms'' ''event_time_ms'' PtrNull,
      PB_FIELD 6 BYTES OPTIONAL POINTER OTHER (struct_of gdt_cct_LogEvent) ''source_extension'' ''event_time_ms'' PtrNull,
      PB_FIELD 11 INT32 OPTIONAL STATIC OTHER (struct_of gdt_cct_LogEvent) ''event_code'' ''source_extension'' PtrNull,
      PB_FIELD 15 SINT64 OPTIONAL STATIC OTHER (struct_of gdt_cct_LogEvent) ''timezone_offset_seconds'' ''event_code'' PtrNull,
      PB_FIELD 17 INT64 OPTIONAL STATIC OTHER (struct_of gdt_cct_LogEvent) ''event_uptime_ms'' ''timezone_offset_seconds'' PtrNull,
      PB_FIELD 23 MESSAGE OPTIONAL STATIC OTHER (struct_of gdt_cct_LogEvent) ''network_connection_info'' ''event_uptime_ms'' (PtrFields gdt_cct_NetworkConnectionInfo_fields),
      PB_LAST_FIELD]"

definition gdt_cct_IosClientInfo_fields :: "pb_field list" where
  "gdt_cct_IosClientInfo_fields =
     [PB_FIELD 3 BYTES OPTIONAL POINTER FIRST (struct_of gdt_cct_IosClientInfo) ''os_major_version'' ''os_major_version'' PtrNull,
      PB_FIELD 4 BYTES OPTIONAL POINTER OTHER (struct_of gdt_cct_IosClientInfo) ''os_full_version'' ''os_major_version'' PtrNull,
      PB_FIELD 5 BYTES OPTIONAL POINTER OTHER (struct_of gdt_cct_IosClientInfo) ''application_build'' ''os_full_version'' PtrNull,
      PB_FIELD 6 BYTES OPTIONAL POINTER OTHER (struct_of gdt_cct_IosClientInfo) ''country'' ''application_build'' PtrNull,
      PB_FIELD 7 BYTES OPTIONAL POINTER OTHER (struct_of gdt_cct_IosClientInfo) ''model'' ''country'' PtrNull,
      PB_FIELD 8 BYTES OPTIONAL POINTER OTHER (struct_of gdt_cct_IosClientInfo) ''language_code'' ''model'' PtrNull,
      PB_FIELD 11 BYTES OPTIONAL POINTER OTHER (struct_of gdt_cct_IosClientInfo) ''application_bundle_id'' ''language_code'' PtrNull,
      PB_LAST_FIELD]"

definition gdt_cct_ClientInfo_fields :: "pb_field list" where
  "gdt_cct_ClientInfo_fields =
     [PB_FIELD 1 UENUM OPTIONAL STATIC FIRST (struct_of gdt_cct_ClientInfo) ''client_type'' ''client_type'' PtrNull,
      PB_FIELD 4 MESSAGE OPTIONAL STATIC OTHER (struct_of gdt_cct_ClientInfo) ''ios_client_info'' ''client_type'' (PtrFields gdt_cct_IosClientInfo_fields),
      PB_LAST_FIELD]"

definition gdt_cct_LogRequest_fields :: "pb_field list" where
  "gdt_cct_LogRequest_fields =
     [PB_FIELD 1 MESSAGE OPTIONAL STATIC FIRST (struct_of gdt_cct_LogRequest) ''client_info'' ''client_info'' (PtrFields gdt_cct_ClientInfo_fields),
      PB_FIELD 2 INT32 OPTIONAL STATIC OTHER (struct_of gdt_cct_LogRequest) ''log_source'' ''client_info'' PtrNull,
      PB_FIELD 3 MESSAGE REPEATED POINTER OTHER (struct_of gdt_cct_LogRequest) ''log_event'' ''log_source'' (PtrFields gdt_cct_LogEvent_fields),
      PB_FIELD 4 INT64 OPTIONAL STATIC OTHER (struct_of gdt_cct_LogRequest) ''request_time_ms'' ''log_event'' PtrNull,
      PB_FIELD 8 INT64 OPTIONAL STATIC OTHER (struct_of gdt_cct_LogRequest) ''request_uptime_ms'' ''request_time_ms'' PtrNull,
      PB_FIELD 9 UENUM OPTIONAL STATIC OTHER (struct_of gdt_cct_LogRequest) ''qos_tier'' ''request_uptime_ms'' (PtrDefault gdt_cct_LogRequest_qos_tier_default),
      PB_LAST_FIELD]"

definition gdt_cct_BatchedLogRequest_fields :: "pb_field list" where
  "gdt_cct_BatchedLogRequest_fields =
     [PB_FIELD 1 MESSAGE REPEATED POINTER FIRST (struct_of gdt_cct_BatchedLogRequest) ''log_request'' ''log_request'' (PtrFields gdt_cct_LogRequest_fields),
      PB_LAST_FIELD]"

definition gdt_cct_QosTierConfiguration_fields :: "pb_field list" where
  "gdt_cct_QosTierConfiguration_fields =
     [PB_FIELD 2 UENUM OPTIONAL STATIC FIRST (struct_of gdt_cct_QosTierConfiguration) ''qos_tier'' ''qos_tier'' PtrNull,
      PB_FIELD 3 INT32 OPTIONAL STATIC OTHER (struct_of gdt_cct_QosTierConfiguration) ''log_source'' ''qos_tier'' (PtrDefault gdt_cct_QosTierConfiguration_log_source_default),
      PB_LAST_FIELD]"

definition gdt_cct_QosTiersOverride_fields :: "pb_field list" where
  "gdt_cct_QosTiersOverride_fields =
     [PB_FIELD 1 MESSAGE REPEATED POINTER FIRST (struct_of gdt_cct_QosTiersOverride) ''qos_tier_configuration'' ''qos_tier_configuration'' (PtrFields gdt_cct_QosTierConfiguration_fields),
      PB_FIELD 2 INT64 OPTIONAL STATIC OTHER (struct_of gdt_cct_QosTiersOverride) ''qos_tier_fingerprint'' ''qos_tier_configuration'' PtrNull,
      PB_LAST_FIELD]"

definition gdt_cct_LogResponse_fields :: "pb_field list" where
  "gdt_cct_LogResponse_fields =
     [PB_FIELD 1 INT64 OPTIONAL STATIC FIRST (struct_of gdt_cct_LogResponse) ''next_request_wait_millis'' ''next_request_wait_millis'' PtrNull,
      PB_FIELD 3 MESSAGE OPTIONAL STATIC OTHER (struct_of gdt_cct_LogResponse) ''qos_tier'' ''next_request_wait_millis'' (PtrFields gdt_cct_QosTiersOverride_fields),
      PB_LAST_FIELD]"

section \<open>What the tables should say\<close>

text \<open>For every message: its structure, its table, and for every member the tag, the member itself and
  the member that tells whether or how often it is present (the member itself for a single pointer).\<close>

definition cct_messages :: "(cmember list \<times> pb_field list \<times> (uint32 \<times> string \<times> string) list) list" where
  "cct_messages =
     [(gdt_cct_NetworkConnectionInfo, gdt_cct_NetworkConnectionInfo_fields,
       [(gdt_cct_NetworkConnectionInfo_network_type_tag, ''network_type'', ''has_network_type''),
        (gdt_cct_NetworkConnectionInfo_mobile_subtype_tag, ''mobile_subtype'', ''has_mobile_subtype'')]),
      (gdt_cct_LogEvent, gdt_cct_LogEvent_fields,
       [(gdt_cct_LogEvent_event_time_ms_tag, ''event_time_ms'', ''has_event_time_ms''),
        (gdt_cct_LogEvent_source_extension_tag, ''source_extension'', ''source_extension''),
        (gdt_cct_LogEvent_event_code_tag, ''event_code'', ''has_event_code''),
        (gdt_cct_LogEvent_timezone_offset_seconds_tag, ''timezone_offset_seconds'', ''has_timezone_offset_seconds''),
        (gdt_cct_LogEvent_event_uptime_ms_tag, ''event_uptime_ms'', ''has_event_uptime_ms''),
        (gdt_cct_LogEvent_network_connection_info_tag, ''network_connection_info'', ''has_network_connection_info'')]),
      (gdt_cct_IosClientInfo, gdt_cct_IosClientInfo_fields,
       [(gdt_cct_IosClientInfo_os_major_version_tag, ''os_major_version'', ''os_major_version''),
        (gdt_cct_IosClientInfo_os_full_version_tag, ''os_full_version'', ''os_full_version''),
        (gdt_cct_IosClientInfo_application_build_tag, ''application_build'', ''application_build''),
        (gdt_cct_IosClientInfo_country_tag, ''country'', ''country''),
        (gdt_cct_IosClientInfo_model_tag, ''model'', ''model''),
        (gdt_cct_IosClientInfo_language_code_tag, ''language_code'', ''language_code''),
        (gdt_cct_IosClientInfo_application_bundle_id_tag, ''application_bundle_id'', ''application_bundle_id'')]),
      (gdt_cct_ClientInfo, gdt_cct_ClientInfo_fields,
       [(gdt_cct_ClientInfo_client_type_tag, ''client_type'', ''has_client_type''),
        (gdt_cct_ClientInfo_ios_client_info_tag, ''ios_client_info'', ''has_ios_client_info'')]),
      (gdt_cct_LogRequest, gdt_cct_LogRequest_fields,
       [(gdt_cct_LogRequest_client_info_tag, ''client_info'', ''has_client_info''),
        (gdt_cct_LogRequest_log_source_tag, ''log_source'', ''has_log_source''),
        (gdt_cct_LogRequest_log_event_tag, ''log_event'', ''log_event_count''),
        (gdt_cct_LogRequest_request_time_ms_tag, ''request_time_ms'', ''has_request_time_ms''),
        (gdt_cct_LogRequest_request_uptime_ms_tag, ''request_uptime_ms'', ''has_request_uptime_ms''),
        (gdt_cct_LogRequest_qos_tier_tag, ''qos_tier'', ''has_qos_tier'')]),
      (gdt_cct_BatchedLogRequest, gdt_cct_BatchedLogRequest_fields,
       [(gdt_cct_BatchedLogRequest_log_request_tag, ''log_request'', ''log_request_count'')]),
      (gdt_cct_QosTierConfiguration, gdt_cct_QosTierConfiguration_fields,
       [(gdt_cct_QosTierConfiguration_qos_tier_tag, ''qos_tier'', ''has_qos_tier''),
        (gdt_cct_QosTierConfiguration_log_source_tag, ''log_source'', ''has_log_source'')]),
      (gdt_cct_QosTiersOverride, gdt_cct_QosTiersOverride_fields,
       [(gdt_cct_QosTiersOverride_qos_tier_configuration_tag, ''qos_tier_configuration'', ''qos_tier_configuration_count''),
        (gdt_cct_QosTiersOverride_qos_tier_fingerprint_tag, ''qos_tier_fingerprint'', ''has_qos_tier_fingerprint'')]),
      (gdt_cct_LogResponse, gdt_cct_LogResponse_fields,
       [(gdt_cct_LogResponse_next_request_wait_millis_tag, ''next_request_wait_millis'', ''has_next_request_wait_millis''),
        (gdt_cct_LogResponse_qos_tier_tag, ''qos_tier'', ''has_qos_tier'')])]"

section \<open>Layouts and tables, evaluated\<close>

lemma gdt_cct_IosClientInfo_offsets_of: "members_at 0 [Member m1 (CPtr pb_bytes_array_t), Member m2 (CPtr pb_bytes_array_t), Member m3 (CPtr pb_bytes_array_t), Member m4 (CPtr pb_bytes_array_t), Member m5 (CPtr pb_bytes_array_t), Member m6 (CPtr pb_bytes_array_t), Member m7 (CPtr pb_bytes_array_t)] =
     [(m1, 0, (CPtr pb_bytes_array_t)), (m2, 8, (CPtr pb_bytes_array_t)), (m3, 16, (CPtr pb_bytes_array_t)), (m4, 24, (CPtr pb_bytes_array_t)), (m5, 32, (CPtr pb_bytes_array_t)), (m6, 40, (CPtr pb_bytes_array_t)), (m7, 48, (CPtr pb_bytes_array_t))]"
  by (simp add: sizeof_bytes_array)

lemma gdt_cct_IosClientInfo_sizes: "sizeof_members 0 [Member m1 (CPtr pb_bytes_array_t), Member m2 (CPtr pb_bytes_array_t), Member m3 (CPtr pb_bytes_array_t), Member m4 (CPtr pb_bytes_array_t), Member m5 (CPtr pb_bytes_array_t), Member m6 (CPtr pb_bytes_array_t), Member m7 (CPtr pb_bytes_array_t)] = 56"
  "alignof_members [Member m1 (CPtr pb_bytes_array_t), Member m2 (CPtr pb_bytes_array_t), Member m3 (CPtr pb_bytes_array_t), Member m4 (CPtr pb_bytes_array_t), Member m5 (CPtr pb_bytes_array_t), Member m6 (CPtr pb_bytes_array_t), Member m7 (CPtr pb_bytes_array_t)] = 8"
  by (simp_all add: sizeof_bytes_array)

lemma gdt_cct_IosClientInfo_members_1:
  "member_at 0 gdt_cct_IosClientInfo ''os_major_version'' = Some (0, (CPtr pb_bytes_array_t))"
  "member_at 0 gdt_cct_IosClientInfo ''os_full_version'' = Some (8, (CPtr pb_bytes_array_t))"
  "member_at 0 gdt_cct_IosClientInfo ''application_build'' = Some (16, (CPtr pb_bytes_array_t))"
  "member_at 0 gdt_cct_IosClientInfo ''country'' = Some (24, (CPtr pb_bytes_array_t))"
  "member_at 0 gdt_cct_IosClientInfo ''model'' = Some (32, (CPtr pb_bytes_array_t))"
  "member_at 0 gdt_cct_IosClientInfo ''language_code'' = Some (40, (CPtr pb_bytes_array_t))"
  "member_at 0 gdt_cct_IosClientInfo ''application_bundle_id'' = Some (48, (CPtr pb_bytes_array_t))"
  unfolding gdt_cct_IosClientInfo_def member_at_members gdt_cct_IosClientInfo_offsets_of by simp_all

lemma gdt_cct_IosClientInfo_layout: "sizeof_members 0 gdt_cct_IosClientInfo = 56" "alignof_members gdt_cct_IosClientInfo = 8"
  unfolding gdt_cct_IosClientInfo_def by (rule gdt_cct_IosClientInfo_sizes)+

lemmas gdt_cct_IosClientInfo_simps = gdt_cct_IosClientInfo_layout gdt_cct_IosClientInfo_members_1

lemma gdt_cct_ClientInfo_offsets_of: "members_at 0 [Member m1 CBool, Member m2 CUInt32, Member m3 CBool, Member m4 (CStruct gdt_cct_IosClientInfo)] =
     [(m1, 0, CBool), (m2, 4, CUInt32), (m3, 8, CBool), (m4, 16, (CStruct gdt_cct_IosClientInfo))]"
  by (simp add: sizeof_bytes_array gdt_cct_IosClientInfo_layout)

lemma gdt_cct_ClientInfo_sizes: "sizeof_members 0 [Member m1 CBool, Member m2 CUInt32, Member m3 CBool, Member m4 (CStruct gdt_cct_IosClientInfo)] = 72"
  "alignof_members [Member m1 CBool, Member m2 CUInt32, Member m3 CBool, Member m4 (CStruct gdt_cct_IosClientInfo)] = 8"
  by (simp_all add: sizeof_bytes_array gdt_cct_IosClientInfo_layout)

lemma gdt_cct_ClientInfo_members_1:
  "member_at 0 gdt_cct_ClientInfo ''has_client_type'' = Some (0, CBool)"
  "member_at 0 gdt_cct_ClientInfo ''client_type'' = Some (4, CUInt32)"
  "member_at 0 gdt_cct_ClientInfo ''has_ios_client_info'' = Some (8, CBool)"
  "member_at 0 gdt_cct_ClientInfo ''ios_client_info'' = Some (16, (CStruct gdt_cct_IosClientInfo))"
  unfolding gdt_cct_ClientInfo_def member_at_members gdt_cct_ClientInfo_offsets_of by simp_all

lemma gdt_cct_ClientInfo_layout: "sizeof_members 0 gdt_cct_ClientInfo = 72" "alignof_members gdt_cct_ClientInfo = 8"
  unfolding gdt_cct_ClientInfo_def by (rule gdt_cct_ClientInfo_sizes)+

lemmas gdt_cct_ClientInfo_simps = gdt_cct_ClientInfo_layout gdt_cct_ClientInfo_members_1

lemma gdt_cct_NetworkConnectionInfo_offsets_of: "members_at 0 [Member m1 CBool, Member m2 CInt32, Member m3 CBool, Member m4 CUInt32] =
     [(m1, 0, CBool), (m2, 4, CInt32), (m3, 8, CBool), (m4, 12, CUInt32)]"
  by (simp add: sizeof_bytes_array)

lemma gdt_cct_NetworkConnectionInfo_sizes: "sizeof_members 0 [Member m1 CBool, Member m2 CInt32, Member m3 CBool, Member m4 CUInt32] = 16"
  "alignof_members [Member m1 CBool, Member m2 CInt32, Member m3 CBool, Member m4 CUInt32] = 4"
  by (simp_all add: sizeof_bytes_array)

lemma gdt_cct_NetworkConnectionInfo_members_1:
  "member_at 0 gdt_cct_NetworkConnectionInfo ''has_network_type'' = Some (0, CBool)"
  "member_at 0 gdt_cct_NetworkConnectionInfo ''network_type'' = Some (4, CInt32)"
  "member_at 0 gdt_cct_NetworkConnectionInfo ''has_mobile_subtype'' = Some (8, CBool)"
  "member_at 0 gdt_cct_NetworkConnectionInfo ''mobile_subtype'' = Some (12, CUInt32)"
  unfolding gdt_cct_NetworkConnectionInfo_def member_at_members gdt_cct_NetworkConnectionInfo_offsets_of by simp_all

lemma gdt_cct_NetworkConnectionInfo_layout: "sizeof_members 0 gdt_cct_NetworkConnectionInfo = 16" "alignof_members gdt_cct_NetworkConnectionInfo = 4"
  unfolding gdt_cct_NetworkConnectionInfo_def by (rule gdt_cct_NetworkConnectionInfo_sizes)+

lemmas gdt_cct_NetworkConnectionInfo_simps = gdt_cct_NetworkConnectionInfo_layout gdt_cct_NetworkConnectionInfo_members_1

lemma gdt_cct_LogEvent_offsets_of: "members_at 0 [Member m1 CBool, Member m2 CInt64, Member m3 (CPtr pb_bytes_array_t), Member m4 CBool, Member m5 CInt32, Member m6 CBool, Member m7 CInt64, Member m8 CBool, Member m9 CInt64, Member m10 CBool, Member m11 (CStruct gdt_cct_NetworkConnectionInfo)] =
     [(m1, 0, CBool), (m2, 8, CInt64), (m3, 16, (CPtr pb_bytes_array_t)), (m4, 24, CBool), (m5, 28, CInt32), (m6, 32, CBool), (m7, 40, CInt64), (m8, 48, CBool), (m9, 56, CInt64), (m10, 64, CBool), (m11, 68, (CStruct gdt_cct_NetworkConnectionInfo))]"
  by (simp add: sizeof_bytes_array gdt_cct_NetworkConnectionInfo_layout)

lemma gdt_cct_LogEvent_sizes: "sizeof_members 0 [Member m1 CBool, Member m2 CInt64, Member m3 (CPtr pb_bytes_array_t), Member m4 CBool, Member m5 CInt32, Member m6 CBool, Member m7 CInt64, Member m8 CBool, Member m9 CInt64, Member m10 CBool, Member m11 (CStruct gdt_cct_NetworkConnectionInfo)] = 84"
  "alignof_members [Member m1 CBool, Member m2 CInt64, Member m3 (CPtr pb_bytes_array_t), Member m4 CBool, Member m5 CInt32, Member m6 CBool, Member m7 CInt64, Member m8 CBool, Member m9 CInt64, Member m10 CBool, Member m11 (CStruct gdt_cct_NetworkConnectionInfo)] = 8"
  by (simp_all add: sizeof_bytes_array gdt_cct_NetworkConnectionInfo_layout)

lemma gdt_cct_LogEvent_members_1:
  "member_at 0 gdt_cct_LogEvent ''has_event_time_ms'' = Some (0, CBool)"
  "member_at 0 gdt_cct_LogEvent ''event_time_ms'' = Some (8, CInt64)"
  "member_at 0 gdt_cct_LogEvent ''source_extension'' = Some (16, (CPtr pb_bytes_array_t))"
  "member_at 0 gdt_cct_LogEvent ''has_event_code'' = Some (24, CBool)"
  "member_at 0 gdt_cct_LogEvent ''event_code'' = Some (28, CInt32)"
  "member_at 0 gdt_cct_LogEvent ''has_timezone_offset_seconds'' = Some (32, CBool)"
  "member_at 0 gdt_cct_LogEvent ''timezone_offset_seconds'' = Some (40, CInt64)"
  "member_at 0 gdt_cct_LogEvent ''has_event_uptime_ms'' = Some (48, CBool)"
  unfolding gdt_cct_LogEvent_def member_at_members gdt_cct_LogEvent_offsets_of by simp_all

lemma gdt_cct_LogEvent_members_2:
  "member_at 0 gdt_cct_LogEvent ''event_uptime_ms'' = Some (56, CInt64)"
  "member_at 0 gdt_cct_LogEvent ''has_network_connection_info'' = Some (64, CBool)"
  "member_at 0 gdt_cct_LogEvent ''network_connection_info'' = Some (68, (CStruct gdt_cct_NetworkConnectionInfo))"
  unfolding gdt_cct_LogEvent_def member_at_members gdt_cct_LogEvent_offsets_of by simp_all

lemma gdt_cct_LogEvent_layout: "sizeof_members 0 gdt_cct_LogEvent = 84" "alignof_members gdt_cct_LogEvent = 8"
  unfolding gdt_cct_LogEvent_def by (rule gdt_cct_LogEvent_sizes)+

lemmas gdt_cct_LogEvent_simps = gdt_cct_LogEvent_layout gdt_cct_LogEvent_members_1 gdt_cct_LogEvent_members_2

lemma gdt_cct_LogRequest_offsets_of: "members_at 0 [Member m1 CBool, Member m2 (CStruct gdt_cct_ClientInfo), Member m3 CBool, Member m4 CInt32, Member m5 CUInt32, Member m6 (CPtr (CStruct gdt_cct_LogEvent)), Member m7 CBool, Member m8 CInt64, Member m9 CBool, Member m10 CInt64, Member m11 CBool, Member m12 CUInt32] =
     [(m1, 0, CBool), (m2, 8, (CStruct gdt_cct_ClientInfo)), (m3, 80, CBool), (m4, 84, CInt32), (m5, 88, CUInt32), (m6, 96, (CPtr (CStruct gdt_cct_LogEvent))), (m7, 104, CBool), (m8, 112, CInt64), (m9, 120, CBool), (m10, 128, CInt64), (m11, 136, CBool), (m12, 140, CUInt32)]"
  by (simp add: sizeof_bytes_array gdt_cct_ClientInfo_layout gdt_cct_LogEvent_layout)

lemma gdt_cct_LogRequest_sizes: "sizeof_members 0 [Member m1 CBool, Member m2 (CStruct gdt_cct_ClientInfo), Member m3 CBool, Member m4 CInt32, Member m5 CUInt32, Member m6 (CPtr (CStruct gdt_cct_LogEvent)), Member m7 CBool, Member m8 CInt64, Member m9 CBool, Member m10 CInt64, Member m11 CBool, Member m12 CUInt32] = 144"
  "alignof_members [Member m1 CBool, Member m2 (CStruct gdt_cct_ClientInfo), Member m3 CBool, Member m4 CInt32, Member m5 CUInt32, Member m6 (CPtr (CStruct gdt_cct_LogEvent)), Member m7 CBool, Member m8 CInt64, Member m9 CBool, Member m10 CInt64, Member m11 CBool, Member m12 CUInt32] = 8"
  by (simp_all add: sizeof_bytes_array gdt_cct_ClientInfo_layout gdt_cct_LogEvent_layout)

lemma gdt_cct_LogRequest_members_1:
  "member_at 0 gdt_cct_LogRequest ''has_client_info'' = Some (0, CBool)"
  "member_at 0 gdt_cct_LogRequest ''client_info'' = Some (8, (CStruct gdt_cct_ClientInfo))"
  "member_at 0 gdt_cct_LogRequest ''has_log_source'' = Some (80, CBool)"
  "member_at 0 gdt_cct_LogRequest ''log_source'' = Some (84, CInt32)"
  "member_at 0 gdt_cct_LogRequest ''log_event_count'' = Some (88, CUInt32)"
  "member_at 0 gdt_cct_LogRequest ''log_event'' = Some (96, (CPtr (CStruct gdt_cct_LogEvent)))"
  "member_at 0 gdt_cct_LogRequest ''has_request_time_ms'' = Some (104, CBool)"
  "member_at 0 gdt_cct_LogRequest ''request_time_ms'' = Some (112, CInt64)"
  unfolding gdt_cct_LogRequest_def member_at_members gdt_cct_LogRequest_offsets_of by simp_all

lemma gdt_cct_LogRequest_members_2:
  "member_at 0 gdt_cct_LogRequest ''has_request_uptime_ms'' = Some (120, CBool)"
  "member_at 0 gdt_cct_LogRequest ''request_uptime_ms'' = Some (128, CInt64)"
  "member_at 0 gdt_cct_LogRequest ''has_qos_tier'' = Some (136, CBool)"
  "member_at 0 gdt_cct_LogRequest ''qos_tier'' = Some (140, CUInt32)"
  unfolding gdt_cct_LogRequest_def member_at_members gdt_cct_LogRequest_offsets_of by simp_all

lemma gdt_cct_LogRequest_layout: "sizeof_members 0 gdt_cct_LogRequest = 144" "alignof_members gdt_cct_LogRequest = 8"
  unfolding gdt_cct_LogRequest_def by (rule gdt_cct_LogRequest_sizes)+

lemmas gdt_cct_LogRequest_simps = gdt_cct_LogRequest_layout gdt_cct_LogRequest_members_1 gdt_cct_LogRequest_members_2

lemma gdt_cct_BatchedLogRequest_offsets_of: "members_at 0 [Member m1 CUInt32, Member m2 (CPtr (CStruct gdt_cct_LogRequest))] =
     [(m1, 0, CUInt32), (m2, 8, (CPtr (CStruct gdt_cct_LogRequest)))]"
  by (simp add: sizeof_bytes_array gdt_cct_LogRequest_layout)

lemma gdt_cct_BatchedLogRequest_sizes: "sizeof_members 0 [Member m1 CUInt32, Member m2 (CPtr (CStruct gdt_cct_LogRequest))] = 16"
  "alignof_members [Member m1 CUInt32, Member m2 (CPtr (CStruct gdt_cct_LogRequest))] = 8"
  by (simp_all add: sizeof_bytes_array gdt_cct_LogRequest_layout)

lemma gdt_cct_BatchedLogRequest_members_1:
  "member_at 0 gdt_cct_BatchedLogRequest ''log_request_count'' = Some (0, CUInt32)"
  "member_at 0 gdt_cct_BatchedLogRequest ''log_request'' = Some (8, (CPtr (CStruct gdt_cct_LogRequest)))"
  unfolding gdt_cct_BatchedLogRequest_def member_at_members gdt_cct_BatchedLogRequest_offsets_of by simp_all

lemma gdt_cct_BatchedLogRequest_layout: "sizeof_members 0 gdt_cct_BatchedLogRequest = 16" "alignof_members gdt_cct_BatchedLogRequest = 8"
  unfolding gdt_cct_BatchedLogRequest_def by (rule gdt_cct_BatchedLogRequest_sizes)+

lemmas gdt_cct_BatchedLogRequest_simps = gdt_cct_BatchedLogRequest_layout gdt_cct_BatchedLogRequest_members_1

lemma gdt_cct_QosTierConfiguration_offsets_of: "members_at 0 [Member m1 CBool, Member m2 CUInt32, Member m3 CBool, Member m4 CInt32] =
     [(m1, 0, CBool), (m2, 4, CUInt32), (m3, 8, CBool), (m4, 12, CInt32)]"
  by (simp add: sizeof_bytes_array)

lemma gdt_cct_QosTierConfiguration_sizes: "sizeof_members 0 [Member m1 CBool, Member m2 CUInt32, Member m3 CBool, Member m4 CInt32] = 16"
  "alignof_members [Member m1 CBool, Member m2 CUInt32, Member m3 CBool, Member m4 CInt32] = 4"
  by (simp_all add: sizeof_bytes_array)

lemma gdt_cct_QosTierConfiguration_members_1:
  "member_at 0 gdt_cct_QosTierConfiguration ''has_qos_tier'' = Some (0, CBool)"
  "member_at 0 gdt_cct_QosTierConfiguration ''qos_tier'' = Some (4, CUInt32)"
  "member_at 0 gdt_cct_QosTierConfiguration ''has_log_source'' = Some (8, CBool)"
  "member_at 0 gdt_cct_QosTierConfiguration ''log_source'' = Some (12, CInt32)"
  unfolding gdt_cct_QosTierConfiguration_def member_at_members gdt_cct_QosTierConfiguration_offsets_of by simp_all

lemma gdt_cct_QosTierConfiguration_layout: "sizeof_members 0 gdt_cct_QosTierConfiguration = 16" "alignof_members gdt_cct_QosTierConfiguration = 4"
  unfolding gdt_cct_QosTierConfiguration_def by (rule gdt_cct_QosTierConfiguration_sizes)+

lemmas gdt_cct_QosTierConfiguration_simps = gdt_cct_QosTierConfiguration_layout gdt_cct_QosTierConfiguration_members_1

lemma gdt_cct_QosTiersOverride_offsets_of: "members_at 0 [Member m1 CUInt32, Member m2 (CPtr (CStruct gdt_cct_QosTierConfiguration)), Member m3 CBool, Member m4 CInt64] =
     [(m1, 0, CUInt32), (m2, 8, (CPtr (CStruct gdt_cct_QosTierConfiguration))), (m3, 16, CBool), (m4, 24, CInt64)]"
  by (simp add: sizeof_bytes_array gdt_cct_QosTierConfiguration_layout)

lemma gdt_cct_QosTiersOverride_sizes: "sizeof_members 0 [Member m1 CUInt32, Member m2 (CPtr (CStruct gdt_cct_QosTierConfiguration)), Member m3 CBool, Member m4 CInt64] = 32"
  "alignof_members [Member m1 CUInt32, Member m2 (CPtr (CStruct gdt_cct_QosTierConfiguration)), Member m3 CBool, Member m4 CInt64] = 8"
  by (simp_all add: sizeof_bytes_array gdt_cct_QosTierConfiguration_layout)

lemma gdt_cct_QosTiersOverride_members_1:
  "member_at 0 gdt_cct_QosTiersOverride ''qos_tier_configuration_count'' = Some (0, CUInt32)"
  "member_at 0 gdt_cct_QosTiersOverride ''qos_tier_configuration'' = Some (8, (CPtr (CStruct gdt_cct_QosTierConfiguration)))"
  "member_at 0 gdt_cct_QosTiersOverride ''has_qos_tier_fingerprint'' = Some (16, CBool)"
  "member_at 0 gdt_cct_QosTiersOverride ''qos_tier_fingerprint'' = Some (24, CInt64)"
  unfolding gdt_cct_QosTiersOverride_def member_at_members gdt_cct_QosTiersOverride_offsets_of by simp_all

lemma gdt_cct_QosTiersOverride_layout: "sizeof_members 0 gdt_cct_QosTiersOverride = 32" "alignof_members gdt_cct_QosTiersOverride = 8"
  unfolding gdt_cct_QosTiersOverride_def by (rule gdt_cct_QosTiersOverride_sizes)+

lemmas gdt_cct_QosTiersOverride_simps = gdt_cct_QosTiersOverride_layout gdt_cct_QosTiersOverride_members_1

lemma gdt_cct_LogResponse_offsets_of: "members_at 0 [Member m1 CBool, Member m2 CInt64, Member m3 CBool, Member m4 (CStruct gdt_cct_QosTiersOverride)] =
     [(m1, 0, CBool), (m2, 8, CInt64), (m3, 16, CBool), (m4, 24, (CStruct gdt_cct_QosTiersOverride))]"
  by (simp add: sizeof_bytes_array gdt_cct_QosTiersOverride_layout)

lemma gdt_cct_LogResponse_sizes: "sizeof_members 0 [Member m1 CBool, Member m2 CInt64, Member m3 CBool, Member m4 (CStruct gdt_cct_QosTiersOverride)] = 56"
  "alignof_members [Member m1 CBool, Member m2 CInt64, Member m3 CBool, Member m4 (CStruct gdt_cct_QosTiersOverride)] = 8"
  by (simp_all add: sizeof_bytes_array gdt_cct_QosTiersOverride_layout)

lemma gdt_cct_LogResponse_members_1:
  "member_at 0 gdt_cct_LogResponse ''has_next_request_wait_millis'' = Some (0, CBool)"
  "member_at 0 gdt_cct_LogResponse ''next_request_wait_millis'' = Some (8, CInt64)"
  "member_at 0 gdt_cct_LogResponse ''has_qos_tier'' = Some (16, CBool)"
  "member_at 0 gdt_cct_LogResponse ''qos_tier'' = Some (24, (CStruct gdt_cct_QosTiersOverride))"
  unfolding gdt_cct_LogResponse_def member_at_members gdt_cct_LogResponse_offsets_of by simp_all

lemma gdt_cct_LogResponse_layout: "sizeof_members 0 gdt_cct_LogResponse = 56" "alignof_members gdt_cct_LogResponse = 8"
  unfolding gdt_cct_LogResponse_def by (rule gdt_cct_LogResponse_sizes)+

lemmas gdt_cct_LogResponse_simps = gdt_cct_LogResponse_layout gdt_cct_LogResponse_members_1

lemma gdt_cct_NetworkConnectionInfo_fields_eq: "gdt_cct_NetworkConnectionInfo_fields =
     [Pb_field 1 0x11 4 (- 4) 4 0 (PtrDefault gdt_cct_NetworkConnectionInfo_network_type_default),
      Pb_field 2 0x12 4 (- 4) 4 0 (PtrDefault gdt_cct_NetworkConnectionInfo_mobile_subtype_default),
      PB_LAST_FIELD]"
  by (simp add: gdt_cct_NetworkConnectionInfo_fields_def PB_FIELD_simps sizeof_bytes_array gdt_cct_NetworkConnectionInfo_simps)

lemma gdt_cct_NetworkConnectionInfo_offsets: "field_offsets gdt_cct_NetworkConnectionInfo_fields =
     [(4, 0), (12, 8), (16, 16)]"
  unfolding gdt_cct_NetworkConnectionInfo_fields_eq by (simp add: member_size_def PB_ATYPE_def PB_HTYPE_def PB_LAST_FIELD_def One_nat_def)

lemma gdt_cct_NetworkConnectionInfo_describes: "describes gdt_cct_NetworkConnectionInfo gdt_cct_NetworkConnectionInfo_fields
    [(gdt_cct_NetworkConnectionInfo_network_type_tag, ''network_type'', ''has_network_type''),
     (gdt_cct_NetworkConnectionInfo_mobile_subtype_tag, ''mobile_subtype'', ''has_mobile_subtype'')]"
  by (simp add: describes_simps gdt_cct_NetworkConnectionInfo_offsets gdt_cct_NetworkConnectionInfo_fields_eq sizeof_bytes_array gdt_cct_NetworkConnectionInfo_simps
      gdt_cct_NetworkConnectionInfo_network_type_tag_def gdt_cct_NetworkConnectionInfo_mobile_subtype_tag_def)

lemma gdt_cct_LogEvent_fields_eq: "gdt_cct_LogEvent_fields =
     [Pb_field 1 0x11 8 (- 8) 8 0 PtrNull,
      Pb_field 6 0x96 0 0 8 0 PtrNull,
      Pb_field 11 0x11 4 (- 4) 4 0 PtrNull,
      Pb_field 15 0x13 8 (- 8) 8 0 PtrNull,
      Pb_field 17 0x11 8 (- 8) 8 0 PtrNull,
      Pb_field 23 0x18 4 (- 4) 16 0 (PtrFields gdt_cct_NetworkConnectionInfo_fields),
      PB_LAST_FIELD]"
  by (simp add: gdt_cct_LogEvent_fields_def PB_FIELD_simps sizeof_bytes_array gdt_cct_LogEvent_simps gdt_cct_NetworkConnectionInfo_simps)

lemma gdt_cct_LogEvent_offsets: "field_offsets gdt_cct_LogEvent_fields =
     [(8, 0), (16, 16), (28, 24), (40, 32), (56, 48), (68, 64), (84, 84)]"
  unfolding gdt_cct_LogEvent_fields_eq by (simp add: member_size_def PB_ATYPE_def PB_HTYPE_def PB_LAST_FIELD_def One_nat_def)

lemma gdt_cct_LogEvent_describes: "describes gdt_cct_LogEvent gdt_cct_LogEvent_fields
    [(gdt_cct_LogEvent_event_time_ms_tag, ''event_time_ms'', ''has_event_time_ms''),
     (gdt_cct_LogEvent_source_extension_tag, ''source_extension'', ''source_extension''),
     (gdt_cct_LogEvent_event_code_tag, ''event_code'', ''has_event_code''),
     (gdt_cct_LogEvent_timezone_offset_seconds_tag, ''timezone_offset_seconds'', ''has_timezone_offset_seconds''),
     (gdt_cct_LogEvent_event_uptime_ms_tag, ''event_uptime_ms'', ''has_event_uptime_ms''),
     (gdt_cct_LogEvent_network_connection_info_tag, ''network_connection_info'', ''has_network_connection_info'')]"
  by (simp add: describes_simps gdt_cct_LogEvent_offsets gdt_cct_LogEvent_fields_eq sizeof_bytes_array gdt_cct_LogEvent_simps gdt_cct_NetworkConnectionInfo_simps
      gdt_cct_LogEvent_event_time_ms_tag_def gdt_cct_LogEvent_source_extension_tag_def gdt_cct_LogEvent_event_code_tag_def gdt_cct_LogEvent_timezone_offset_seconds_tag_def gdt_cct_LogEvent_event_uptime_ms_tag_def gdt_cct_LogEvent_network_connection_info_tag_def)

lemma gdt_cct_IosClientInfo_fields_eq: "gdt_cct_IosClientInfo_fields =
     [Pb_field 3 0x96 0 0 8 0 PtrNull,
      Pb_field 4 0x96 0 0 8 0 PtrNull,
      Pb_field 5 0x96 0 0 8 0 PtrNull,
      Pb_field 6 0x96 0 0 8 0 PtrNull,
      Pb_field 7 0x96 0 0 8 0 PtrNull,
      Pb_field 8 0x96 0 0 8 0 PtrNull,
      Pb_field 11 0x96 0 0 8 0 PtrNull,
      PB_LAST_FIELD]"
  by (simp add: gdt_cct_IosClientInfo_fields_def PB_FIELD_simps sizeof_bytes_array gdt_cct_IosClientInfo_simps)

lemma gdt_cct_IosClientInfo_offsets: "field_offsets gdt_cct_IosClientInfo_fields =
     [(0, 0), (8, 8), (16, 16), (24, 24), (32, 32), (40, 40), (48, 48), (56, 56)]"
  unfolding gdt_cct_IosClientInfo_fields_eq by (simp add: member_size_def PB_ATYPE_def PB_HTYPE_def PB_LAST_FIELD_def One_nat_def)

lemma gdt_cct_IosClientInfo_describes: "describes gdt_cct_IosClientInfo gdt_cct_IosClientInfo_fields
    [(gdt_cct_IosClientInfo_os_major_version_tag, ''os_major_version'', ''os_major_version''),
     (gdt_cct_IosClientInfo_os_full_version_tag, ''os_full_version'', ''os_full_version''),
     (gdt_cct_IosClientInfo_application_build_tag, ''application_build'', ''application_build''),
     (gdt_cct_IosClientInfo_country_tag, ''country'', ''country''),
     (gdt_cct_IosClientInfo_model_tag, ''model'', ''model''),
     (gdt_cct_IosClientInfo_language_code_tag, ''language_code'', ''language_code''),
     (gdt_cct_IosClientInfo_application_bundle_id_tag, ''application_bundle_id'', ''application_bundle_id'')]"
  by (simp add: describes_simps gdt_cct_IosClientInfo_offsets gdt_cct_IosClientInfo_fields_eq sizeof_bytes_array gdt_cct_IosClientInfo_simps
      gdt_cct_IosClientInfo_os_major_version_tag_def gdt_cct_IosClientInfo_os_full_version_tag_def gdt_cct_IosClientInfo_application_build_tag_def gdt_cct_IosClientInfo_country_tag_def gdt_cct_IosClientInfo_model_tag_def gdt_cct_IosClientInfo_language_code_tag_def gdt_cct_IosClientInfo_application_bundle_id_tag_def)

lemma gdt_cct_ClientInfo_fields_eq: "gdt_cct_ClientInfo_fields =
     [Pb_field 1 0x12 4 (- 4) 4 0 PtrNull,
      Pb_field 4 0x18 8 (- 8) 56 0 (PtrFields gdt_cct_IosClientInfo_fields),
      PB_LAST_FIELD]"
  by (simp add: gdt_cct_ClientInfo_fields_def PB_FIELD_simps sizeof_bytes_array gdt_cct_ClientInfo_simps gdt_cct_IosClientInfo_simps)

lemma gdt_cct_ClientInfo_offsets: "field_offsets gdt_cct_ClientInfo_fields =
     [(4, 0), (16, 8), (72, 72)]"
  unfolding gdt_cct_ClientInfo_fields_eq by (simp add: member_size_def PB_ATYPE_def PB_HTYPE_def PB_LAST_FIELD_def One_nat_def)

lemma gdt_cct_ClientInfo_describes: "describes gdt_cct_ClientInfo gdt_cct_ClientInfo_fields
    [(gdt_cct_ClientInfo_client_type_tag, ''client_type'', ''has_client_type''),
     (gdt_cct_ClientInfo_ios_client_info_tag, ''ios_client_info'', ''has_ios_client_info'')]"
  by (simp add: describes_simps gdt_cct_ClientInfo_offsets gdt_cct_ClientInfo_fields_eq sizeof_bytes_array gdt_cct_ClientInfo_simps gdt_cct_IosClientInfo_simps
      gdt_cct_ClientInfo_client_type_tag_def gdt_cct_ClientInfo_ios_client_info_tag_def)

lemma gdt_cct_LogRequest_fields_eq: "gdt_cct_LogRequest_fields =
     [Pb_field 1 0x18 8 (- 8) 72 0 (PtrFields gdt_cct_ClientInfo_fields),
      Pb_field 2 0x11 4 (- 4) 4 0 PtrNull,
      Pb_field 3 0xA8 8 (- 8) 88 0 (PtrFields gdt_cct_LogEvent_fields),
      Pb_field 4 0x11 8 (- 8) 8 0 PtrNull,
      Pb_field 8 0x11 8 (- 8) 8 0 PtrNull,
      Pb_field 9 0x12 4 (- 4) 4 0 (PtrDefault gdt_cct_LogRequest_qos_tier_default),
      PB_LAST_FIELD]"
  by (simp add: gdt_cct_LogRequest_fields_def PB_FIELD_simps sizeof_bytes_array gdt_cct_LogRequest_simps gdt_cct_ClientInfo_simps gdt_cct_LogEvent_simps)

lemma gdt_cct_LogRequest_offsets: "field_offsets gdt_cct_LogRequest_fields =
     [(8, 0), (84, 80), (96, 88), (112, 104), (128, 120), (140, 136), (144, 144)]"
  unfolding gdt_cct_LogRequest_fields_eq by (simp add: member_size_def PB_ATYPE_def PB_HTYPE_def PB_LAST_FIELD_def One_nat_def)

lemma gdt_cct_LogRequest_describes: "describes gdt_cct_LogRequest gdt_cct_LogRequest_fields
    [(gdt_cct_LogRequest_client_info_tag, ''client_info'', ''has_client_info''),
     (gdt_cct_LogRequest_log_source_tag, ''log_source'', ''has_log_source''),
     (gdt_cct_LogRequest_log_event_tag, ''log_event'', ''log_event_count''),
     (gdt_cct_LogRequest_request_time_ms_tag, ''request_time_ms'', ''has_request_time_ms''),
     (gdt_cct_LogRequest_request_uptime_ms_tag, ''request_uptime_ms'', ''has_request_uptime_ms''),
     (gdt_cct_LogRequest_qos_tier_tag, ''qos_tier'', ''has_qos_tier'')]"
  by (simp add: describes_simps gdt_cct_LogRequest_offsets gdt_cct_LogRequest_fields_eq sizeof_bytes_array gdt_cct_LogRequest_simps gdt_cct_ClientInfo_simps gdt_cct_LogEvent_simps
      gdt_cct_LogRequest_client_info_tag_def gdt_cct_LogRequest_log_source_tag_def gdt_cct_LogRequest_log_event_tag_def gdt_cct_LogRequest_request_time_ms_tag_def gdt_cct_LogRequest_request_uptime_ms_tag_def gdt_cct_LogRequest_qos_tier_tag_def)

lemma gdt_cct_BatchedLogRequest_fields_eq: "gdt_cct_BatchedLogRequest_fields =
     [Pb_field 1 0xA8 8 (- 8) 144 0 (PtrFields gdt_cct_LogRequest_fields),
      PB_LAST_FIELD]"
  by (simp add: gdt_cct_BatchedLogRequest_fields_def PB_FIELD_simps sizeof_bytes_array gdt_cct_BatchedLogRequest_simps gdt_cct_LogRequest_simps)

lemma gdt_cct_BatchedLogRequest_offsets: "field_offsets gdt_cct_BatchedLogRequest_fields =
     [(8, 0), (16, 16)]"
  unfolding gdt_cct_BatchedLogRequest_fields_eq by (simp add: member_size_def PB_ATYPE_def PB_HTYPE_def PB_LAST_FIELD_def One_nat_def)

lemma gdt_cct_BatchedLogRequest_describes: "describes gdt_cct_BatchedLogRequest gdt_cct_BatchedLogRequest_fields
    [(gdt_cct_BatchedLogRequest_log_request_tag, ''log_request'', ''log_request_count'')]"
  by (simp add: describes_simps gdt_cct_BatchedLogRequest_offsets gdt_cct_BatchedLogRequest_fields_eq sizeof_bytes_array gdt_cct_BatchedLogRequest_simps gdt_cct_LogRequest_simps
      gdt_cct_BatchedLogRequest_log_request_tag_def)

lemma gdt_cct_QosTierConfiguration_fields_eq: "gdt_cct_QosTierConfiguration_fields =
     [Pb_field 2 0x12 4 (- 4) 4 0 PtrNull,
      Pb_field 3 0x11 4 (- 4) 4 0 (PtrDefault gdt_cct_QosTierConfiguration_log_source_default),
      PB_LAST_FIELD]"
  by (simp add: gdt_cct_QosTierConfiguration_fields_def PB_FIELD_simps sizeof_bytes_array gdt_cct_QosTierConfiguration_simps)

lemma gdt_cct_QosTierConfiguration_offsets: "field_offsets gdt_cct_QosTierConfiguration_fields =
     [(4, 0), (12, 8), (16, 16)]"
  unfolding gdt_cct_QosTierConfiguration_fields_eq by (simp add: member_size_def PB_ATYPE_def PB_HTYPE_def PB_LAST_FIELD_def One_nat_def)

lemma gdt_cct_QosTierConfiguration_describes: "describes gdt_cct_QosTierConfiguration gdt_cct_QosTierConfiguration_fields
    [(gdt_cct_QosTierConfiguration_qos_tier_tag, ''qos_tier'', ''has_qos_tier''),
     (gdt_cct_QosTierConfiguration_log_source_tag, ''log_source'', ''has_log_source'')]"
  by (simp add: describes_simps gdt_cct_QosTierConfiguration_offsets gdt_cct_QosTierConfiguration_fields_eq sizeof_bytes_array gdt_cct_QosTierConfiguration_simps
      gdt_cct_QosTierConfiguration_qos_tier_tag_def gdt_cct_QosTierConfiguration_log_source_tag_def)

lemma gdt_cct_QosTiersOverride_fields_eq: "gdt_cct_QosTiersOverride_fields =
     [Pb_field 1 0xA8 8 (- 8) 16 0 (PtrFields gdt_cct_QosTierConfiguration_fields),
      Pb_field 2 0x11 8 (- 8) 8 0 PtrNull,
      PB_LAST_FIELD]"
  by (simp add: gdt_cct_QosTiersOverride_fields_def PB_FIELD_simps sizeof_bytes_array gdt_cct_QosTiersOverride_simps gdt_cct_QosTierConfiguration_simps)

lemma gdt_cct_QosTiersOverride_offsets: "field_offsets gdt_cct_QosTiersOverride_fields =
     [(8, 0), (24, 16), (32, 32)]"
  unfolding gdt_cct_QosTiersOverride_fields_eq by (simp add: member_size_def PB_ATYPE_def PB_HTYPE_def PB_LAST_FIELD_def One_nat_def)

lemma gdt_cct_QosTiersOverride_describes: "describes gdt_cct_QosTiersOverride gdt_cct_QosTiersOverride_fields
    [(gdt_cct_QosTiersOverride_qos_tier_configuration_tag, ''qos_tier_configuration'', ''qos_tier_configuration_count''),
     (gdt_cct_QosTiersOverride_qos_tier_fingerprint_tag, ''qos_tier_fingerprint'', ''has_qos_tier_fingerprint'')]"
  by (simp add: describes_simps gdt_cct_QosTiersOverride_offsets gdt_cct_QosTiersOverride_fields_eq sizeof_bytes_array gdt_cct_QosTiersOverride_simps gdt_cct_QosTierConfiguration_simps
      gdt_cct_QosTiersOverride_qos_tier_configuration_tag_def gdt_cct_QosTiersOverride_qos_tier_fingerprint_tag_def)

lemma gdt_cct_LogResponse_fields_eq: "gdt_cct_LogResponse_fields =
     [Pb_field 1 0x11 8 (- 8) 8 0 PtrNull,
      Pb_field 3 0x18 8 (- 8) 32 0 (PtrFields gdt_cct_QosTiersOverride_fields),
      PB_LAST_FIELD]"
  by (simp add: gdt_cct_LogResponse_fields_def PB_FIELD_simps sizeof_bytes_array gdt_cct_LogResponse_simps gdt_cct_QosTiersOverride_simps)

lemma gdt_cct_LogResponse_offsets: "field_offsets gdt_cct_LogResponse_fields =
     [(8, 0), (24, 16), (56, 56)]"
  unfolding gdt_cct_LogResponse_fields_eq by (simp add: member_size_def PB_ATYPE_def PB_HTYPE_def PB_LAST_FIELD_def One_nat_def)

lemma gdt_cct_LogResponse_describes: "describes gdt_cct_LogResponse gdt_cct_LogResponse_fields
    [(gdt_cct_LogResponse_next_request_wait_millis_tag, ''next_request_wait_millis'', ''has_next_request_wait_millis''),
     (gdt_cct_LogResponse_qos_tier_tag, ''qos_tier'', ''has_qos_tier'')]"
  by (simp add: describes_simps gdt_cct_LogResponse_offsets gdt_cct_LogResponse_fields_eq sizeof_bytes_array gdt_cct_LogResponse_simps gdt_cct_QosTiersOverride_simps
      gdt_cct_LogResponse_next_request_wait_millis_tag_def gdt_cct_LogResponse_qos_tier_tag_def)

section \<open>Theorems\<close>

lemma cct_describes: "(ms, fs, rows) \<in> set cct_messages \<Longrightarrow> describes ms fs rows"
  by (auto simp: cct_messages_def gdt_cct_NetworkConnectionInfo_describes gdt_cct_LogEvent_describes
      gdt_cct_IosClientInfo_describes gdt_cct_ClientInfo_describes gdt_cct_LogRequest_describes
      gdt_cct_BatchedLogRequest_describes gdt_cct_QosTierConfiguration_describes
      gdt_cct_QosTiersOverride_describes gdt_cct_LogResponse_describes)

lemma describes_nonempty: "describes ms fs rows \<Longrightarrow> x \<in> set rows \<Longrightarrow> 0 < length rows"
  by (cases rows) auto

text \<open>How deep the messages nest: 1 for a message without submessages.\<close>

lemma fits_Cons: "fits (Suc n) (f # fs) \<longleftrightarrow> list_all (field_fits n) (f # fs)"
  by (simp add: field_fits_def [abs_def])

lemma cct_fits_1:
  "fits (Suc n) gdt_cct_NetworkConnectionInfo_fields" "fits (Suc n) gdt_cct_IosClientInfo_fields"
  "fits (Suc n) gdt_cct_QosTierConfiguration_fields"
  unfolding gdt_cct_NetworkConnectionInfo_fields_eq gdt_cct_IosClientInfo_fields_eq
    gdt_cct_QosTierConfiguration_fields_eq fits_Cons
  by (simp_all add: field_fits_def PB_LTYPE_def PB_LAST_FIELD_def One_nat_def)

lemma cct_fits_2:
  "fits (Suc (Suc n)) gdt_cct_LogEvent_fields" "fits (Suc (Suc n)) gdt_cct_ClientInfo_fields"
  "fits (Suc (Suc n)) gdt_cct_QosTiersOverride_fields"
  unfolding gdt_cct_LogEvent_fields_eq gdt_cct_ClientInfo_fields_eq gdt_cct_QosTiersOverride_fields_eq
    fits_Cons
  by (simp_all add: cct_fits_1 field_fits_def PB_LTYPE_def PB_LAST_FIELD_def One_nat_def
      del: fits.simps)

lemma cct_fits_3:
  "fits (Suc (Suc (Suc n))) gdt_cct_LogRequest_fields" "fits (Suc (Suc (Suc n))) gdt_cct_LogResponse_fields"
  unfolding gdt_cct_LogRequest_fields_eq gdt_cct_LogResponse_fields_eq fits_Cons
  by (simp_all add: cct_fits_2 field_fits_def PB_LTYPE_def PB_LAST_FIELD_def One_nat_def
      del: fits.simps)

lemma cct_fits_4: "fits (Suc (Suc (Suc (Suc n)))) gdt_cct_BatchedLogRequest_fields"
  unfolding gdt_cct_BatchedLogRequest_fields_eq fits_Cons
  by (simp_all add: cct_fits_3 field_fits_def PB_LTYPE_def PB_LAST_FIELD_def One_nat_def
      del: fits.simps)

text \<open>In every message of the log transport the iterator finds each field by its tag macro, and
  its data and presence pointers are the addresses of the structure's members.\<close>

theorem cct_fields_found:
  assumes "(ms, fs, rows) \<in> set cct_messages" and "(tag, m, pres) \<in> set rows"
  shows "\<exists>it. pb_field_iter_find (snd (pb_field_iter_begin fs d)) tag = (True, it)
    \<and> fld_tag (it_field it) = tag \<and> pData it = d + int (offsetof (struct_of ms) m)
    \<and> pSize it = d + int (offsetof (struct_of ms) pres)"
  using describes_find [OF cct_describes [OF assms(1)] assms(2), of 0 d]
    describes_nonempty [OF cct_describes [OF assms(1)] assms(2)] by simp

theorem cct_fields_found_witness:
  "\<exists>it. pb_field_iter_find (snd (pb_field_iter_begin gdt_cct_LogResponse_fields 1000))
      gdt_cct_LogResponse_qos_tier_tag = (True, it)
    \<and> fld_tag (it_field it) = 3 \<and> pData it = 1024 \<and> pSize it = 1016"
  using cct_fields_found [of gdt_cct_LogResponse gdt_cct_LogResponse_fields
      "[(gdt_cct_LogResponse_next_request_wait_millis_tag, ''next_request_wait_millis'',
         ''has_next_request_wait_millis''), (gdt_cct_LogResponse_qos_tier_tag, ''qos_tier'', ''has_qos_tier'')]"
      gdt_cct_LogResponse_qos_tier_tag "''qos_tier''" "''has_qos_tier''" 1000]
  by (simp add: cct_messages_def struct_of_simps gdt_cct_LogResponse_simps gdt_cct_LogResponse_qos_tier_tag_def)

end
