(* ===== verification/Firebasecore_Proto.thy ===== *)
theory Firebasecore_Proto
  imports CLayout Pb_Lifecycle_Props
begin

text \<open>
  \<open>firebasecore.nanopb.c\<close> and \<open>firebasecore.nanopb.h\<close>: the message \<open>ICoreConfiguration\<close> of the
  Firebase core diagnostics: enumerations, structure, initialisers, tags and descriptor table.
\<close>

section \<open>Enumerations\<close>

datatype logs_proto_mobilesdk_ios_ICoreConfiguration_ConfigurationType =
    logs_proto_mobilesdk_ios_ICoreConfiguration_ConfigurationType_UNKNOWN_CONFIGURATION_TYPE
  | logs_proto_mobilesdk_ios_ICoreConfiguration_ConfigurationType_CORE
  | logs_proto_mobilesdk_ios_ICoreConfiguration_ConfigurationType_SDK

fun logs_proto_mobilesdk_ios_ICoreConfiguration_ConfigurationType_value :: "logs_proto_mobilesdk_ios_ICoreConfiguration_ConfigurationType \<Rightarrow> int" where
  "logs_proto_mobilesdk_ios_ICoreConfiguration_ConfigurationType_value logs_proto_mobilesdk_ios_ICoreConfiguration_ConfigurationType_UNKNOWN_CONFIGURATION_TYPE = 0"
| "logs_proto_mobilesdk_ios_ICoreConfiguration_ConfigurationType_value logs_proto_mobilesdk_ios_ICoreConfiguration_ConfigurationType_CORE = 1"
| "logs_proto_mobilesdk_ios_ICoreConfiguration_ConfigurationType_value logs_proto_mobilesdk_ios_ICoreConfiguration_ConfigurationType_SDK = 2"

definition logs_proto_mobilesdk_ios_ICoreConfiguration_ConfigurationType_MIN :: int where
  "logs_proto_mobilesdk_ios_ICoreConfiguration_ConfigurationType_MIN = logs_proto_mobilesdk_ios_ICoreConfiguration_ConfigurationType_value logs_proto_mobilesdk_ios_ICoreConfiguration_ConfigurationType_UNKNOWN_CONFIGURATION_TYPE"

definition logs_proto_mobilesdk_ios_ICoreConfiguration_ConfigurationType_MAX :: int where
  "logs_proto_mobilesdk_ios_ICoreConfiguration_ConfigurationType_MAX = logs_proto_mobilesdk_ios_ICoreConfiguration_ConfigurationType_value logs_proto_mobilesdk_ios_ICoreConfiguration_ConfigurationType_SDK"

definition logs_proto_mobilesdk_ios_ICoreConfiguration_ConfigurationType_ARRAYSIZE :: int where
  "logs_proto_mobilesdk_ios_ICoreConfiguration_ConfigurationType_ARRAYSIZE = logs_proto_mobilesdk_ios_ICoreConfiguration_ConfigurationType_value logs_proto_mobilesdk_ios_ICoreConfiguration_ConfigurationType_SDK + 1"

datatype logs_proto_mobilesdk_ios_ICoreConfiguration_BuildType =
    logs_proto_mobilesdk_ios_ICoreConfiguration_BuildType_UNKNOWN_BUILD_TYPE
  | logs_proto_mobilesdk_ios_ICoreConfiguration_BuildType_INTERNAL
  | logs_proto_mobilesdk_ios_ICoreConfiguration_BuildType_EAP
  | logs_proto_mobilesdk_ios_ICoreConfiguration_BuildType_PROD

fun logs_proto_mobilesdk_ios_ICoreConfiguration_BuildType_value :: "logs_proto_mobilesdk_ios_ICoreConfiguration_BuildType \<Rightarrow> int" where
  "logs_proto_mobilesdk_ios_ICoreConfiguration_BuildType_value logs_proto_mobilesdk_ios_ICoreConfiguration_BuildType_UNKNOWN_BUILD_TYPE = 0"
| "logs_proto_mobilesdk_ios_ICoreConfiguration_BuildType_value logs_proto_mobilesdk_ios_ICoreConfiguration_BuildType_INTERNAL = 1"
| "logs_proto_mobilesdk_ios_ICoreConfiguration_BuildType_value logs_proto_mobilesdk_ios_ICoreConfiguration_BuildType_EAP = 2"
| "logs_proto_mobilesdk_ios_ICoreConfiguration_BuildType_value logs_proto_mobilesdk_ios_ICoreConfiguration_BuildType_PROD = 3"

definition logs_proto_mobilesdk_ios_ICoreConfiguration_BuildType_MIN :: int where
  "logs_proto_mobilesdk_ios_ICoreConfiguration_BuildType_MIN = logs_proto_mobilesdk_ios_ICoreConfiguration_BuildType_value logs_proto_mobilesdk_ios_ICoreConfiguration_BuildType_UNKNOWN_BUILD_TYPE"

definition logs_proto_mobilesdk_ios_ICoreConfiguration_BuildType_MAX :: int where
  "logs_proto_mobilesdk_ios_ICoreConfiguration_BuildType_MAX = logs_proto_mobilesdk_ios_ICoreConfiguration_BuildType_value logs_proto_mobilesdk_ios_ICoreConfiguration_BuildType_PROD"

definition logs_proto_mobilesdk_ios_ICoreConfiguration_BuildType_ARRAYSIZE :: int where
  "logs_proto_mobilesdk_ios_ICoreConfiguration_BuildType_ARRAYSIZE = logs_proto_mobilesdk_ios_ICoreConfiguration_BuildType_value logs_proto_mobilesdk_ios_ICoreConfiguration_BuildType_PROD + 1"

datatype logs_proto_mobilesdk_ios_ICoreConfiguration_ServiceType =
    logs_proto_mobilesdk_ios_ICoreConfiguration_ServiceType_UNKNOWN_SDK_SERVICE
  | logs_proto_mobilesdk_ios_ICoreConfiguration_ServiceType_ICORE
  | logs_proto_mobilesdk_ios_ICoreConfiguration_ServiceType_ADMOB
  | logs_proto_mobilesdk_ios_ICoreConfiguration_ServiceType_APP_INVITE
  | logs_proto_mobilesdk_ios_ICoreConfiguration_ServiceType_SIGN_IN
  | logs_proto_mobilesdk_ios_ICoreConfiguration_ServiceType_GCM
  | logs_proto_mobilesdk_ios_ICoreConfiguration_ServiceType_MAPS
  | logs_proto_mobilesdk_ios_ICoreConfiguration_ServiceType_SCION
  | logs_proto_mobilesdk_ios_ICoreConfiguration_ServiceType_ANALYTICS
  | logs_proto_mobilesdk_ios_ICoreConfiguration_ServiceType_APP_INDEXING
  | logs_proto_mobilesdk_ios_ICoreConfiguration_ServiceType_CONFIG
  | logs_proto_mobilesdk_ios_ICoreConfiguration_ServiceType_DURABLE_DEEP_LINKS
  | logs_proto_mobilesdk_ios_ICoreConfiguration_ServiceType_CRASH
  | logs_proto_mobilesdk_ios_ICoreConfiguration_ServiceType_AUTH
  | logs_proto_mobilesdk_ios_ICoreConfiguration_ServiceType_DATABASE
  | logs_proto_mobilesdk_ios_ICoreConfiguration_ServiceType_STORAGE
  | logs_proto_mobilesdk_ios_ICoreConfiguration_ServiceType_MESSAGING
  | logs_proto_mobilesdk_ios_ICoreConfiguration_ServiceType_MEASUREMENT
  | logs_proto_mobilesdk_ios_ICoreConfiguration_ServiceType_REMOTE_CONFIG
  | logs_proto_mobilesdk_ios_ICoreConfiguration_ServiceType_DYNAMIC_LINKS
  | logs_proto_mobilesdk_ios_ICoreConfiguration_ServiceType_INVITES
  | logs_proto_mobilesdk_ios_ICoreConfiguration_ServiceType_AUTH_UI
  | logs_proto_mobilesdk_ios_ICoreConfiguration_ServiceType_FIRESTORE
  | logs_proto_mobilesdk_ios_ICoreConfiguration_ServiceType_PERFORMANCE
  | logs_proto_mobilesdk_ios_ICoreConfiguration_ServiceType_ML_VISION_ON_DEVICE_FACE
  | logs_proto_mobilesdk_ios_ICoreConfiguration_ServiceType_ML_VISION_ON_DEVICE_BARCODE
  | logs_proto_mobilesdk_ios_ICoreConfiguration_ServiceType_ML_VISION_ON_DEVICE_TEXT
  | logs_proto_mobilesdk_ios_ICoreConfiguration_ServiceType_ML_VISION_ON_DEVICE_LABEL
  | logs_proto_mobilesdk_ios_ICoreConfiguration_ServiceType_ML_MODEL_INTERPRETER
  | logs_proto_mobilesdk_ios_ICoreConfiguration_ServiceType_IN_APP_MESSAGING
  | logs_proto_mobilesdk_ios_ICoreConfiguration_ServiceType_FUNCTIONS
  | logs_proto_mobilesdk_ios_ICoreConfiguration_ServiceType_ML_NATURAL_LANGUAGE
  | logs_proto_mobilesdk_ios_ICoreConfiguration_ServiceType_ML_VISION_ON_DEVICE_AUTOML
  | logs_proto_mobilesdk_ios_ICoreConfiguration_ServiceType_ML_VISION_ON_DEVICE_OBJECT_DETECTION

fun logs_proto_mobilesdk_ios_ICoreConfiguration_ServiceType_value :: "logs_proto_mobilesdk_ios_ICoreConfiguration_ServiceType \<Rightarrow> int" where
  "logs_proto_mobilesdk_ios_ICoreConfiguration_ServiceType_value logs_proto_mobilesdk_ios_ICoreConfiguration_ServiceType_UNKNOWN_SDK_SERVICE = 0"
| "logs_proto_mobilesdk_ios_ICoreConfiguration_ServiceType_value logs_proto_mobilesdk_ios_ICoreConfiguration_ServiceType_ICORE = 1"
| "logs_proto_mobilesdk_ios_ICoreConfiguration_ServiceType_value logs_proto_mobilesdk_ios_ICoreConfiguration_ServiceType_ADMOB = 2"
| "logs_proto_mobilesdk_ios_ICoreConfiguration_ServiceType_value logs_proto_mobilesdk_ios_ICoreConfiguration_ServiceType_APP_INVITE = 3"
| "logs_proto_mobilesdk_ios_ICoreConfiguration_ServiceType_value logs_proto_mobilesdk_ios_ICoreConfiguration_ServiceType_SIGN_IN = 5"
| "logs_proto_mobilesdk_ios_ICoreConfiguration_ServiceType_value logs_proto_mobilesdk_ios_ICoreConfiguration_ServiceType_GCM = 6"
| "logs_proto_mobilesdk_ios_ICoreConfiguration_ServiceType_value logs_proto_mobilesdk_ios_ICoreConfiguration_ServiceType_MAPS = 7"
| "logs_proto_mobilesdk_ios_ICoreConfiguration_ServiceType_value logs_proto_mobilesdk_ios_ICoreConfiguration_ServiceType_SCION = 8"
| "logs_proto_mobilesdk_ios_ICoreConfiguration_ServiceType_value logs_proto_mobilesdk_ios_ICoreConfiguration_ServiceType_ANALYTICS = 9"
| "logs_proto_mobilesdk_ios_ICoreConfiguration_ServiceType_value logs_proto_mobilesdk_ios_ICoreConfiguration_ServiceType_APP_INDEXING = 10"
| "logs_proto_mobilesdk_ios_ICoreConfiguration_ServiceType_value logs_proto_mobilesdk_ios_ICoreConfiguration_ServiceType_CONFIG = 11"
| "logs_proto_mobilesdk_ios_ICoreConfiguration_ServiceType_value logs_proto_mobilesdk_ios_ICoreConfiguration_ServiceType_DURABLE_DEEP_LINKS = 12"
| "logs_proto_mobilesdk_ios_ICoreConfiguration_ServiceType_value logs_proto_mobilesdk_ios_ICoreConfiguration_ServiceType_CRASH = 13"
| "logs_proto_mobilesdk_ios_ICoreConfiguration_ServiceType_value logs_proto_mobilesdk_ios_ICoreConfiguration_ServiceType_AUTH = 14"
| "logs_proto_mobilesdk_ios_ICoreConfiguration_ServiceType_value logs_proto_mobilesdk_ios_ICoreConfiguration_ServiceType_DATABASE = 15"
| "logs_proto_mobilesdk_ios_ICoreConfiguration_ServiceType_value logs_proto_mobilesdk_ios_ICoreConfiguration_ServiceType_STORAGE = 16"
| "logs_proto_mobilesdk_ios_ICoreConfiguration_ServiceType_value logs_proto_mobilesdk_ios_ICoreConfiguration_ServiceType_MESSAGING = 17"
| "logs_proto_mobilesdk_ios_ICoreConfiguration_ServiceType_value logs_proto_mobilesdk_ios_ICoreConfiguration_ServiceType_MEASUREMENT = 18"
| "logs_proto_mobilesdk_ios_ICoreConfiguration_ServiceType_value logs_proto_mobilesdk_ios_ICoreConfiguration_ServiceType_REMOTE_CONFIG = 19"
| "logs_proto_mobilesdk_ios_ICoreConfiguration_ServiceType_value logs_proto_mobilesdk_ios_ICoreConfiguration_ServiceType_DYNAMIC_LINKS = 20"
| "logs_proto_mobilesdk_ios_ICoreConfiguration_ServiceType_value logs_proto_mobilesdk_ios_ICoreConfiguration_ServiceType_INVITES = 21"
| "logs_proto_mobilesdk_ios_ICoreConfiguration_ServiceType_value logs_proto_mobilesdk_ios_ICoreConfiguration_ServiceType_AUTH_UI = 22"
| "logs_proto_mobilesdk_ios_ICoreConfiguration_ServiceType_value logs_proto_mobilesdk_ios_ICoreConfiguration_ServiceType_FIRESTORE = 23"
| "logs_proto_mobilesdk_ios_ICoreConfiguration_ServiceType_value logs_proto_mobilesdk_ios_ICoreConfiguration_ServiceType_PERFORMANCE = 24"
| "logs_proto_mobilesdk_ios_ICoreConfiguration_ServiceType_value logs_proto_mobilesdk_ios_ICoreConfiguration_ServiceType_ML_VISION_ON_DEVICE_FACE = 26"
| "logs_proto_mobilesdk_ios_ICoreConfiguration_ServiceType_value logs_proto_mobilesdk_ios_ICoreConfiguration_ServiceType_ML_VISION_ON_DEVICE_BARCODE = 27"
| "logs_proto_mobilesdk_ios_ICoreConfiguration_ServiceType_value logs_proto_mobilesdk_ios_ICoreConfiguration_ServiceType_ML_VISION_ON_DEVICE_TEXT = 28"
| "logs_proto_mobilesdk_ios_ICoreConfiguration_ServiceType_value logs_proto_mobilesdk_ios_ICoreConfiguration_ServiceType_ML_VISION_ON_DEVICE_LABEL = 29"
| "logs_proto_mobilesdk_ios_ICoreConfiguration_ServiceType_value logs_proto_mobilesdk_ios_ICoreConfiguration_ServiceType_ML_MODEL_INTERPRETER = 30"
| "logs_proto_mobilesdk_ios_ICoreConfiguration_ServiceType_value logs_proto_mobilesdk_ios_ICoreConfiguration_ServiceType_IN_APP_MESSAGING = 31"
| "logs_proto_mobilesdk_ios_ICoreConfiguration_ServiceType_value logs_proto_mobilesdk_ios_ICoreConfiguration_ServiceType_FUNCTIONS = 32"
| "logs_proto_mobilesdk_ios_ICoreConfiguration_ServiceType_value logs_proto_mobilesdk_ios_ICoreConfiguration_ServiceType_ML_NATURAL_LANGUAGE = 33"
| "logs_proto_mobilesdk_ios_ICoreConfiguration_ServiceType_value logs_proto_mobilesdk_ios_ICoreConfiguration_ServiceType_ML_VISION_ON_DEVICE_AUTOML = 34"
| "logs_proto_mobilesdk_ios_ICoreConfiguration_ServiceType_value logs_proto_mobilesdk_ios_ICoreConfiguration_ServiceType_ML_VISION_ON_DEVICE_OBJECT_DETECTION = 35"

definition logs_proto_mobilesdk_ios_ICoreConfiguration_ServiceType_MIN :: int where
  "logs_proto_mobilesdk_ios_ICoreConfiguration_ServiceType_MIN = logs_proto_mobilesdk_ios_ICoreConfiguration_ServiceType_value logs_proto_mobilesdk_ios_ICoreConfiguration_ServiceType_UNKNOWN_SDK_SERVICE"

definition logs_proto_mobilesdk_ios_ICoreConfiguration_ServiceType_MAX :: int where
  "logs_proto_mobilesdk_ios_ICoreConfiguration_ServiceType_MAX = logs_proto_mobilesdk_ios_ICoreConfiguration_ServiceType_value logs_proto_mobilesdk_ios_ICoreConfiguration_ServiceType_ML_VISION_ON_DEVICE_OBJECT_DETECTION"

definition logs_proto_mobilesdk_ios_ICoreConfiguration_ServiceType_ARRAYSIZE :: int where
  "logs_proto_mobilesdk_ios_ICoreConfiguration_ServiceType_ARRAYSIZE = logs_proto_mobilesdk_ios_ICoreConfiguration_ServiceType_value logs_proto_mobilesdk_ios_ICoreConfiguration_ServiceType_ML_VISION_ON_DEVICE_OBJECT_DETECTION + 1"

datatype logs_proto_mobilesdk_ios_ICoreConfiguration_PodName =
    logs_proto_mobilesdk_ios_ICoreConfiguration_PodName_UNKNOWN_POD_NAME
  | logs_proto_mobilesdk_ios_ICoreConfiguration_PodName_GOOGLE
  | logs_proto_mobilesdk_ios_ICoreConfiguration_PodName_FIREBASE

fun logs_proto_mobilesdk_ios_ICoreConfiguration_PodName_value :: "logs_proto_mobilesdk_ios_ICoreConfiguration_PodName \<Rightarrow> int" where
  "logs_proto_mobilesdk_ios_ICoreConfiguration_PodName_value logs_proto_mobilesdk_ios_ICoreConfiguration_PodName_UNKNOWN_POD_NAME = 0"
| "logs_proto_mobilesdk_ios_ICoreConfiguration_PodName_value logs_proto_mobilesdk_ios_ICoreConfiguration_PodName_GOOGLE = 1"
| "logs_proto_mobilesdk_ios_ICoreConfiguration_PodName_value logs_proto_mobilesdk_ios_ICoreConfiguration_PodName_FIREBASE = 2"

definition logs_proto_mobilesdk_ios_ICoreConfiguration_PodName_MIN :: int where
  "logs_proto_mobilesdk_ios_ICoreConfiguration_PodName_MIN = logs_proto_mobilesdk_ios_ICoreConfiguration_PodName_value logs_proto_mobilesdk_ios_ICoreConfiguration_PodName_UNKNOWN_POD_NAME"

definition logs_proto_mobilesdk_ios_ICoreConfiguration_PodName_MAX :: int where
  "logs_proto_mobilesdk_ios_ICoreConfiguration_PodName_MAX = logs_proto_mobilesdk_ios_ICoreConfiguration_PodName_value logs_proto_mobilesdk_ios_ICoreConfiguration_PodName_FIREBASE"

definition logs_proto_mobilesdk_ios_ICoreConfiguration_PodName_ARRAYSIZE :: int where
  "logs_proto_mobilesdk_ios_ICoreConfiguration_PodName_ARRAYSIZE = logs_proto_mobilesdk_ios_ICoreConfiguration_PodName_value logs_proto_mobilesdk_ios_ICoreConfiguration_PodName_FIREBASE + 1"

datatype logs_proto_mobilesdk_ios_ICoreConfiguration_DeploymentType =
    logs_proto_mobilesdk_ios_ICoreConfiguration_DeploymentType_UNKNOWN
  | logs_proto_mobilesdk_ios_ICoreConfiguration_DeploymentType_COCOAPODS
  | logs_proto_mobilesdk_ios_ICoreConfiguration_DeploymentType_ZIP_FILE
  | logs_proto_mobilesdk_ios_ICoreConfiguration_DeploymentType_CARTHAGE
  | logs_proto_mobilesdk_ios_ICoreConfiguration_DeploymentType_SPM

fun logs_proto_mobilesdk_ios_ICoreConfiguration_DeploymentType_value :: "logs_proto_mobilesdk_ios_ICoreConfiguration_DeploymentType \<Rightarrow> int" where
  "logs_proto_mobilesdk_ios_ICoreConfiguration_DeploymentType_value logs_proto_mobilesdk_ios_ICoreConfiguration_DeploymentType_UNKNOWN = 0"
| "logs_proto_mobilesdk_ios_ICoreConfiguration_DeploymentType_value logs_proto_mobilesdk_ios_ICoreConfiguration_DeploymentType_COCOAPODS = 1"
| "logs_proto_mobilesdk_ios_ICoreConfiguration_DeploymentType_value logs_proto_mobilesdk_ios_ICoreConfiguration_DeploymentType_ZIP_FILE = 2"
| "logs_proto_mobilesdk_ios_ICoreConfiguration_DeploymentType_value logs_proto_mobilesdk_ios_ICoreConfiguration_DeploymentType_CARTHAGE = 3"
| "logs_proto_mobilesdk_ios_ICoreConfiguration_DeploymentType_value logs_proto_mobilesdk_ios_ICoreConfiguration_DeploymentType_SPM = 4"

definition logs_proto_mobilesdk_ios_ICoreConfiguration_DeploymentType_MIN :: int where
  "logs_proto_mobilesdk_ios_ICoreConfiguration_DeploymentType_MIN = logs_proto_mobilesdk_ios_ICoreConfiguration_DeploymentType_value logs_proto_mobilesdk_ios_ICoreConfiguration_DeploymentType_UNKNOWN"

definition logs_proto_mobilesdk_ios_ICoreConfiguration_DeploymentType_MAX :: int where
  "logs_proto_mobilesdk_ios_ICoreConfiguration_DeploymentType_MAX = logs_proto_mobilesdk_ios_ICoreConfiguration_DeploymentType_value logs_proto_mobilesdk_ios_ICoreConfiguration_DeploymentType_SPM"

definition logs_proto_mobilesdk_ios_ICoreConfiguration_DeploymentType_ARRAYSIZE :: int where
  "logs_proto_mobilesdk_ios_ICoreConfiguration_DeploymentType_ARRAYSIZE = logs_proto_mobilesdk_ios_ICoreConfiguration_DeploymentType_value logs_proto_mobilesdk_ios_ICoreConfiguration_DeploymentType_SPM + 1"

section \<open>Structures\<close>

text \<open>An enumeration is an \<open>int\<close> when it has a negative member and an \<open>unsigned int\<close> otherwise.\<close>

definition logs_proto_mobilesdk_ios_ICoreConfiguration :: "cmember list" where
  "logs_proto_mobilesdk_ios_ICoreConfiguration =
     [Member ''has_configuration_type'' CBool,
      Member ''configuration_type'' CUInt32,
      Member ''sdk_service_installed_count'' CUInt32,
      Member ''sdk_service_installed'' (CPtr CUInt32),
      Member ''device_model'' (CPtr pb_bytes_array_t),
      Member ''app_id'' (CPtr pb_bytes_array_t),
      Member ''bundle_id'' (CPtr pb_bytes_array_t),
      Member ''has_pod_name'' CBool,
      Member ''pod_name'' CUInt32,
      Member ''icore_version'' (CPtr pb_bytes_array_t),
      Member ''sdk_version'' (CPtr pb_bytes_array_t),
      Member ''has_sdk_name'' CBool,
      Member ''sdk_name'' CUInt32,
      Member ''has_app_count'' CBool,
      Member ''app_count'' CInt32,
      Member ''os_version'' (CPtr pb_bytes_array_t),
      Member ''min_supported_ios_version'' (CPtr pb_bytes_array_t),
      Member ''has_use_default_app'' CBool,
      Member ''use_default_app'' CBool,
      Member ''has_deployed_in_app_store'' CBool,
      Member ''deployed_in_app_store'' CBool,
      Member ''has_dynamic_framework_count'' CBool,
      Member ''dynamic_framework_count'' CInt32,
      Member ''apple_framework_version'' (CPtr pb_bytes_array_t),
      Member ''has_using_zip_file'' CBool,
      Member ''using_zip_file'' CBool,
      Member ''has_deployment_type'' CBool,
      Member ''deployment_type'' CUInt32,
      Member ''platform_info'' (CPtr pb_bytes_array_t),
      Member ''has_swizzling_enabled'' CBool,
      Member ''swizzling_enabled'' CBool,
      Member ''has_using_gdt'' CBool,
      Member ''using_gdt'' CBool]"

section \<open>Initialisers\<close>

definition logs_proto_mobilesdk_ios_ICoreConfiguration_init_default :: cvalue where
  "logs_proto_mobilesdk_ios_ICoreConfiguration_init_default =
     VStruct [VInt 0, VInt logs_proto_mobilesdk_ios_ICoreConfiguration_ConfigurationType_MIN, VInt 0, VNull, VNull, VNull, VNull, VInt 0, VInt logs_proto_mobilesdk_ios_ICoreConfiguration_PodName_MIN, VNull, VNull, VInt 0, VInt logs_proto_mobilesdk_ios_ICoreConfiguration_ServiceType_MIN, VInt 0, VInt 0, VNull, VNull, VInt 0, VInt 0, VInt 0, VInt 0, VInt 0, VInt 0, VNull, VInt 0, VInt 0, VInt 0, VInt logs_proto_mobilesdk_ios_ICoreConfiguration_DeploymentType_MIN, VNull, VInt 0, VInt 0, VInt 0, VInt 0]"

definition logs_proto_mobilesdk_ios_ICoreConfiguration_init_zero :: cvalue where
  "logs_proto_mobilesdk_ios_ICoreConfiguration_init_zero =
     VStruct [VInt 0, VInt logs_proto_mobilesdk_ios_ICoreConfiguration_ConfigurationType_MIN, VInt 0, VNull, VNull, VNull, VNull, VInt 0, VInt logs_proto_mobilesdk_ios_ICoreConfiguration_PodName_MIN, VNull, VNull, VInt 0, VInt logs_proto_mobilesdk_ios_ICoreConfiguration_ServiceType_MIN, VInt 0, VInt 0, VNull, VNull, VInt 0, VInt 0, VInt 0, VInt 0, VInt 0, VInt 0, VNull, VInt 0, VInt 0, VInt 0, VInt logs_proto_mobilesdk_ios_ICoreConfiguration_DeploymentType_MIN, VNull, VInt 0, VInt 0, VInt 0, VInt 0]"

section \<open>Field tags\<close>

definition logs_proto_mobilesdk_ios_ICoreConfiguration_pod_name_tag :: uint32 where
  "logs_proto_mobilesdk_ios_ICoreConfiguration_pod_name_tag = 16"

definition logs_proto_mobilesdk_ios_ICoreConfiguration_configuration_type_tag :: uint32 where
  "logs_proto_mobilesdk_ios_ICoreConfiguration_configuration_type_tag = 1"

definition logs_proto_mobilesdk_ios_ICoreConfiguration_icore_version_tag :: uint32 where
  "logs_proto_mobilesdk_ios_ICoreConfiguration_icore_version_tag = 18"

definition logs_proto_mobilesdk_ios_ICoreConfiguration_sdk_version_tag :: uint32 where
  "logs_proto_mobilesdk_ios_ICoreConfiguration_sdk_version_tag = 19"

definition logs_proto_mobilesdk_ios_ICoreConfiguration_sdk_service_installed_tag :: uint32 where
  "logs_proto_mobilesdk_ios_ICoreConfiguration_sdk_service_installed_tag = 7"

definition logs_proto_mobilesdk_ios_ICoreConfiguration_sdk_name_tag :: uint32 where
  "logs_proto_mobilesdk_ios_ICoreConfiguration_sdk_name_tag = 20"

definition logs_proto_mobilesdk_ios_ICoreConfiguration_device_model_tag :: uint32 where
  "logs_proto_mobilesdk_ios_ICoreConfiguration_device_model_tag = 9"

definition logs_proto_mobilesdk_ios_ICoreConfiguration_os_version_tag :: uint32 where
  "logs_proto_mobilesdk_ios_ICoreConfiguration_os_version_tag = 22"

definition logs_proto_mobilesdk_ios_ICoreConfiguration_app_id_tag :: uint32 where
  "logs_proto_mobilesdk_ios_ICoreConfiguration_app_id_tag = 10"

definition logs_proto_mobilesdk_ios_ICoreConfiguration_bundle_id_tag :: uint32 where
  "logs_proto_mobilesdk_ios_ICoreConfiguration_bundle_id_tag = 12"

definition logs_proto_mobilesdk_ios_ICoreConfiguration_min_supported_ios_version_tag :: uint32 where
  "logs_proto_mobilesdk_ios_ICoreConfiguration_min_supported_ios_version_tag = 24"

definition logs_proto_mobilesdk_ios_ICoreConfiguration_use_default_app_tag :: uint32 where
  "logs_proto_mobilesdk_ios_ICoreConfiguration_use_default_app_tag = 25"

definition logs_proto_mobilesdk_ios_ICoreConfiguration_app_count_tag :: uint32 where
  "logs_proto_mobilesdk_ios_ICoreConfiguration_app_count_tag = 21"

definition logs_proto_mobilesdk_ios_ICoreConfiguration_deployed_in_app_store_tag :: uint32 where
  "logs_proto_mobilesdk_ios_ICoreConfiguration_deployed_in_app_store_tag = 26"

definition logs_proto_mobilesdk_ios_ICoreConfiguration_dynamic_framework_count_tag :: uint32 where
  "logs_proto_mobilesdk_ios_ICoreConfiguration_dynamic_framework_count_tag = 27"

definition logs_proto_mobilesdk_ios_ICoreConfiguration_apple_framework_version_tag :: uint32 where
  "logs_proto_mobilesdk_ios_ICoreConfiguration_apple_framework_version_tag = 28"

definition logs_proto_mobilesdk_ios_ICoreConfiguration_using_zip_file_tag :: uint32 where
  "logs_proto_mobilesdk_ios_ICoreConfiguration_using_zip_file_tag = 29"

definition logs_proto_mobilesdk_ios_ICoreConfiguration_deployment_type_tag :: uint32 where
  "logs_proto_mobilesdk_ios_ICoreConfiguration_deployment_type_tag = 30"

definition logs_proto_mobilesdk_ios_ICoreConfiguration_platform_info_tag :: uint32 where
  "logs_proto_mobilesdk_ios_ICoreConfiguration_platform_info_tag = 31"

definition logs_proto_mobilesdk_ios_ICoreConfiguration_swizzling_enabled_tag :: uint32 where
  "logs_proto_mobilesdk_ios_ICoreConfiguration_swizzling_enabled_tag = 33"

definition logs_proto_mobilesdk_ios_ICoreConfiguration_using_gdt_tag :: uint32 where
  "logs_proto_mobilesdk_ios_ICoreConfiguration_using_gdt_tag = 36"

section \<open>Descriptor tables\<close>

definition logs_proto_mobilesdk_ios_ICoreConfiguration_fields :: "pb_field list" where
  "logs_proto_mobilesdk_ios_ICoreConfiguration_fields =
     [PB_FIELD 1 UENUM OPTIONAL STATIC FIRST (struct_of logs_proto_mobilesdk_ios_ICoreConfiguration) ''configuration_type'' ''configuration_type'' PtrNull,
      PB_FIELD 7 UENUM REPEATED POINTER OTHER (struct_of logs_proto_mobilesdk_ios_ICoreConfiguration) ''sdk_service_installed'' ''configuration_type'' PtrNull,
      PB_FIELD 9 BYTES OPTIONAL POINTER OTHER (struct_of logs_proto_mobilesdk_ios_ICoreConfiguration) ''device_model'' ''sdk_service_installed'' PtrNull,
      PB_FIELD 10 BYTES OPTIONAL POINTER OTHER (struct_of logs_proto_mobilesdk_ios_ICoreConfiguration) ''app_id'' ''device_model'' PtrNull,
      PB_FIELD 12 BYTES OPTIONAL POINTER OTHER (struct_of logs_proto_mobilesdk_ios_ICoreConfiguration) ''bundle_id'' ''app_id'' PtrNull,
      PB_FIELD 16 UENUM OPTIONAL STATIC OTHER (struct_of logs_proto_mobilesdk_ios_ICoreConfiguration) ''pod_name'' ''bundle_id'' PtrNull,
      PB_FIELD 18 BYTES OPTIONAL POINTER OTHER (struct_of logs_proto_mobilesdk_ios_ICoreConfiguration) ''icore_version'' ''pod_name'' PtrNull,
      PB_FIELD 19 BYTES OPTIONAL POINTER OTHER (struct_of logs_proto_mobilesdk_ios_ICoreConfiguration) ''sdk_version'' ''icore_version'' PtrNull,
      PB_FIELD 20 UENUM OPTIONAL STATIC OTHER (struct_of logs_proto_mobilesdk_ios_ICoreConfiguration) ''sdk_name'' ''sdk_version'' PtrNull,
      PB_FIELD 21 INT32 OPTIONAL STATIC OTHER (struct_of logs_proto_mobilesdk_ios_ICoreConfiguration) ''app_count'' ''sdk_name'' PtrNull,
      PB_FIELD 22 BYTES OPTIONAL POINTER OTHER (struct_of logs_proto_mobilesdk_ios_ICoreConfiguration) ''os_version'' ''app_count'' PtrNull,
      PB_FIELD 24 BYTES OPTIONAL POINTER OTHER (struct_of logs_proto_mobilesdk_ios_ICoreConfiguration) ''min_supported_ios_version'' ''os_version'' PtrNull,
      PB_FIELD 25 BOOL OPTIONAL STATIC OTHER (struct_of logs_proto_mobilesdk_ios_ICoreConfiguration) ''use_default_app'' ''min_supported_ios_version'' PtrNull,
      PB_FIELD 26 BOOL OPTIONAL STATIC OTHER (struct_of logs_proto_mobilesdk_ios_ICoreConfiguration) ''deployed_in_app_store'' ''use_default_app'' PtrNull,
      PB_FIELD 27 INT32 OPTIONAL STATIC OTHER (struct_of logs_proto_mobilesdk_ios_ICoreConfiguration) ''dynamic_framework_count'' ''deployed_in_app_store'' PtrNull,
      PB_FIELD 28 BYTES OPTIONAL POINTER OTHER (struct_of logs_proto_mobilesdk_ios_ICoreConfiguration) ''apple_framework_version'' ''dynamic_framework_count'' PtrNull,
      PB_FIELD 29 BOOL OPTIONAL STATIC OTHER (struct_of logs_proto_mobilesdk_ios_ICoreConfiguration) ''using_zip_file'' ''apple_framework_version'' PtrNull,
      PB_FIELD 30 UENUM OPTIONAL STATIC OTHER (struct_of logs_proto_mobilesdk_ios_ICoreConfiguration) ''deployment_type'' ''using_zip_file'' PtrNull,
      PB_FIELD 31 BYTES OPTIONAL POINTER OTHER (struct_of logs_proto_mobilesdk_ios_ICoreConfiguration) ''platform_info'' ''deployment_type'' PtrNull,
      PB_FIELD 33 BOOL OPTIONAL STATIC OTHER (struct_of logs_proto_mobilesdk_ios_ICoreConfiguration) ''swizzling_enabled'' ''platform_info'' PtrNull,
      PB_FIELD 36 BOOL OPTIONAL STATIC OTHER (struct_of logs_proto_mobilesdk_ios_ICoreConfiguration) ''using_gdt'' ''swizzling_enabled'' PtrNull,
      PB_LAST_FIELD]"

section \<open>What the tables should say\<close>

text \<open>For every message: its structure, its table, and for every member the tag, the member itself and
  the member that tells whether or how often it is present (the member itself for a single pointer).\<close>

definition core_messages :: "(cmember list \<times> pb_field list \<times> (uint32 \<times> string \<times> string) list) list" where
  "core_messages =
     [(logs_proto_mobilesdk_ios_ICoreConfiguration, logs_proto_mobilesdk_ios_ICoreConfiguration_fields,
       [(logs_proto_mobilesdk_ios_ICoreConfiguration_configuration_type_tag, ''configuration_type'', ''has_configuration_type''),
        (logs_proto_mobilesdk_ios_ICoreConfiguration_sdk_service_installed_tag, ''sdk_service_installed'', ''sdk_service_installed_count''),
        (logs_proto_mobilesdk_ios_ICoreConfiguration_device_model_tag, ''device_model'', ''device_model''),
        (logs_proto_mobilesdk_ios_ICoreConfiguration_app_id_tag, ''app_id'', ''app_id''),
        (logs_proto_mobilesdk_ios_ICoreConfiguration_bundle_id_tag, ''bundle_id'', ''bundle_id''),
        (logs_proto_mobilesdk_ios_ICoreConfiguration_pod_name_tag, ''pod_name'', ''has_pod_name''),
        (logs_proto_mobilesdk_ios_ICoreConfiguration_icore_version_tag, ''icore_version'', ''icore_version''),
        (logs_proto_mobilesdk_ios_ICoreConfiguration_sdk_version_tag, ''sdk_version'', ''sdk_version''),
        (logs_proto_mobilesdk_ios_ICoreConfiguration_sdk_name_tag, ''sdk_name'', ''has_sdk_name''),
        (logs_proto_mobilesdk_ios_ICoreConfiguration_app_count_tag, ''app_count'', ''has_app_count''),
        (logs_proto_mobilesdk_ios_ICoreConfiguration_os_version_tag, ''os_version'', ''os_version''),
        (logs_proto_mobilesdk_ios_ICoreConfiguration_min_supported_ios_version_tag, ''min_supported_ios_version'', ''min_supported_ios_version''),
        (logs_proto_mobilesdk_ios_ICoreConfiguration_use_default_app_tag, ''use_default_app'', ''has_use_default_app''),
        (logs_proto_mobilesdk_ios_ICoreConfiguration_deployed_in_app_store_tag, ''deployed_in_app_store'', ''has_deployed_in_app_store''),
        (logs_proto_mobilesdk_ios_ICoreConfiguration_dynamic_framework_count_tag, ''dynamic_framework_count'', ''has_dynamic_framework_count''),
        (logs_proto_mobilesdk_ios_ICoreConfiguration_apple_framework_version_tag, ''apple_framework_version'', ''apple_framework_version''),
        (logs_proto_mobilesdk_ios_ICoreConfiguration_using_zip_file_tag, ''using_zip_file'', ''has_using_zip_file''),
        (logs_proto_mobilesdk_ios_ICoreConfiguration_deployment_type_tag, ''deployment_type'', ''has_deployment_type''),
        (logs_proto_mobilesdk_ios_ICoreConfiguration_platform_info_tag, ''platform_info'', ''platform_info''),
        (logs_proto_mobilesdk_ios_ICoreConfiguration_swizzling_enabled_tag, ''swizzling_enabled'', ''has_swizzling_enabled''),
        (logs_proto_mobilesdk_ios_ICoreConfiguration_using_gdt_tag, ''using_gdt'', ''has_using_gdt'')])]"

section \<open>Layouts and tables, evaluated\<close>

lemma logs_proto_mobilesdk_ios_ICoreConfiguration_offsets_of: "members_at 0 [Member m1 CBool, Member m2 CUInt32, Member m3 CUInt32, Member m4 (CPtr CUInt32), Member m5 (CPtr pb_bytes_array_t), Member m6 (CPtr pb_bytes_array_t), Member m7 (CPtr pb_bytes_array_t), Member m8 CBool, Member m9 CUInt32, Member m10 (CPtr pb_bytes_array_t), Member m11 (CPtr pb_bytes_array_t), Member m12 CBool, Member m13 CUInt32, Member m14 CBool, Member m15 CInt32, Member m16 (CPtr pb_bytes_array_t), Member m17 (CPtr pb_bytes_array_t), Member m18 CBool, Member m19 CBool, Member m20 CBool, Member m21 CBool, Member m22 CBool, Member m23 CInt32, Member m24 (CPtr pb_bytes_array_t), Member m25 CBool, Member m26 CBool, Member m27 CBool, Member m28 CUInt32, Member m29 (CPtr pb_bytes_array_t), Member m30 CBool, Member m31 CBool, Member m32 CBool, Member m33 CBool] =
     [(m1, 0, CBool), (m2, 4, CUInt32), (m3, 8, CUInt32), (m4, 16, (CPtr CUInt32)), (m5, 24, (CPtr pb_bytes_array_t)), (m6, 32, (CPtr pb_bytes_array_t)), (m7, 40, (CPtr pb_bytes_array_t)), (m8, 48, CBool), (m9, 52, CUInt32), (m10, 56, (CPtr pb_bytes_array_t)), (m11, 64, (CPtr pb_bytes_array_t)), (m12, 72, CBool), (m13, 76, CUInt32), (m14, 80, CBool), (m15, 84, CInt32), (m16, 88, (CPtr pb_bytes_array_t)), (m17, 96, (CPtr pb_bytes_array_t)), (m18, 104, CBool), (m19, 105, CBool), (m20, 106, CBool), (m21, 107, CBool), (m22, 108, CBool), (m23, 112, CInt32), (m24, 120, (CPtr pb_bytes_array_t)), (m25, 128, CBool), (m26, 129, CBool), (m27, 130, CBool), (m28, 132, CUInt32), (m29, 136, (CPtr pb_bytes_array_t)), (m30, 144, CBool), (m31, 145, CBool), (m32, 146, CBool), (m33, 147, CBool)]"
  by (simp add: sizeof_bytes_array)

lemma logs_proto_mobilesdk_ios_ICoreConfiguration_sizes: "sizeof_members 0 [Member m1 CBool, Member m2 CUInt32, Member m3 CUInt32, Member m4 (CPtr CUInt32), Member m5 (CPtr pb_bytes_array_t), Member m6 (CPtr pb_bytes_array_t), Member m7 (CPtr pb_bytes_array_t), Member m8 CBool, Member m9 CUInt32, Member m10 (CPtr pb_bytes_array_t), Member m11 (CPtr pb_bytes_array_t), Member m12 CBool, Member m13 CUInt32, Member m14 CBool, Member m15 CInt32, Member m16 (CPtr pb_bytes_array_t), Member m17 (CPtr pb_bytes_array_t), Member m18 CBool, Member m19 CBool, Member m20 CBool, Member m21 CBool, Member m22 CBool, Member m23 CInt32, Member m24 (CPtr pb_bytes_array_t), Member m25 CBool, Member m26 CBool, Member m27 CBool, Member m28 CUInt32, Member m29 (CPtr pb_bytes_array_t), Member m30 CBool, Member m31 CBool, Member m32 CBool, Member m33 CBool] = 148"
  "alignof_members [Member m1 CBool, Member m2 CUInt32, Member m3 CUInt32, Member m4 (CPtr CUInt32), Member m5 (CPtr pb_bytes_array_t), Member m6 (CPtr pb_bytes_array_t), Member m7 (CPtr pb_bytes_array_t), Member m8 CBool, Member m9 CUInt32, Member m10 (CPtr pb_bytes_array_t), Member m11 (CPtr pb_bytes_array_t), Member m12 CBool, Member m13 CUInt32, Member m14 CBool, Member m15 CInt32, Member m16 (CPtr pb_bytes_array_t), Member m17 (CPtr pb_bytes_array_t), Member m18 CBool, Member m19 CBool, Member m20 CBool, Member m21 CBool, Member m22 CBool, Member m23 CInt32, Member m24 (CPtr pb_bytes_array_t), Member m25 CBool, Member m26 CBool, Member m27 CBool, Member m28 CUInt32, Member m29 (CPtr pb_bytes_array_t), Member m30 CBool, Member m31 CBool, Member m32 CBool, Member m33 CBool] = 8"
  by (simp_all add: sizeof_bytes_array)

lemma logs_proto_mobilesdk_ios_ICoreConfiguration_members_1:
  "member_at 0 logs_proto_mobilesdk_ios_ICoreConfiguration ''has_configuration_type'' = Some (0, CBool)"
  "member_at 0 logs_proto_mobilesdk_ios_ICoreConfiguration ''configuration_type'' = Some (4, CUInt32)"
  "member_at 0 logs_proto_mobilesdk_ios_ICoreConfiguration ''sdk_service_installed_count'' = Some (8, CUInt32)"
  "member_at 0 logs_proto_mobilesdk_ios_ICoreConfiguration ''sdk_service_installed'' = Some (16, (CPtr CUInt32))"
  "member_at 0 logs_proto_mobilesdk_ios_ICoreConfiguration ''device_model'' = Some (24, (CPtr pb_bytes_array_t))"
  "member_at 0 logs_proto_mobilesdk_ios_ICoreConfiguration ''app_id'' = Some (32, (CPtr pb_bytes_array_t))"
  "member_at 0 logs_proto_mobilesdk_ios_ICoreConfiguration ''bundle_id'' = Some (40, (CPtr pb_bytes_array_t))"
  "member_at 0 logs_proto_mobilesdk_ios_ICoreConfiguration ''has_pod_name'' = Some (48, CBool)"
  unfolding logs_proto_mobilesdk_ios_ICoreConfiguration_def member_at_members logs_proto_mobilesdk_ios_ICoreConfiguration_offsets_of by simp_all

lemma logs_proto_mobilesdk_ios_ICoreConfiguration_members_2:
  "member_at 0 logs_proto_mobilesdk_ios_ICoreConfiguration ''pod_name'' = Some (52, CUInt32)"
  "member_at 0 logs_proto_mobilesdk_ios_ICoreConfiguration ''icore_version'' = Some (56, (CPtr pb_bytes_array_t))"
  "member_at 0 logs_proto_mobilesdk_ios_ICoreConfiguration ''sdk_version'' = Some (64, (CPtr pb_bytes_array_t))"
  "member_at 0 logs_proto_mobilesdk_ios_ICoreConfiguration ''has_sdk_name'' = Some (72, CBool)"
  "member_at 0 logs_proto_mobilesdk_ios_ICoreConfiguration ''sdk_name'' = Some (76, CUInt32)"
  "member_at 0 logs_proto_mobilesdk_ios_ICoreConfiguration ''has_app_count'' = Some (80, CBool)"
  "member_at 0 logs_proto_mobilesdk_ios_ICoreConfiguration ''app_count'' = Some (84, CInt32)"
  "member_at 0 logs_proto_mobilesdk_ios_ICoreConfiguration ''os_version'' = Some (88, (CPtr pb_bytes_array_t))"
  unfolding logs_proto_mobilesdk_ios_ICoreConfiguration_def member_at_members logs_proto_mobilesdk_ios_ICoreConfiguration_offsets_of by simp_all

lemma logs_proto_mobilesdk_ios_ICoreConfiguration_members_3:
  "member_at 0 logs_proto_mobilesdk_ios_ICoreConfiguration ''min_supported_ios_version'' = Some (96, (CPtr pb_bytes_array_t))"
  "member_at 0 logs_proto_mobilesdk_ios_ICoreConfiguration ''has_use_default_app'' = Some (104, CBool)"
  "member_at 0 logs_proto_mobilesdk_ios_ICoreConfiguration ''use_default_app'' = Some (105, CBool)"
  "member_at 0 logs_proto_mobilesdk_ios_ICoreConfiguration ''has_deployed_in_app_store'' = Some (106, CBool)"
  "member_at 0 logs_proto_mobilesdk_ios_ICoreConfiguration ''deployed_in_app_store'' = Some (107, CBool)"
  "member_at 0 logs_proto_mobilesdk_ios_ICoreConfiguration ''has_dynamic_framework_count'' = Some (108, CBool)"
  "member_at 0 logs_proto_mobilesdk_ios_ICoreConfiguration ''dynamic_framework_count'' = Some (112, CInt32)"
  "member_at 0 logs_proto_mobilesdk_ios_ICoreConfiguration ''apple_framework_version'' = Some (120, (CPtr pb_bytes_array_t))"
  unfolding logs_proto_mobilesdk_ios_ICoreConfiguration_def member_at_members logs_proto_mobilesdk_ios_ICoreConfiguration_offsets_of by simp_all

lemma logs_proto_mobilesdk_ios_ICoreConfiguration_members_4:
  "member_at 0 logs_proto_mobilesdk_ios_ICoreConfiguration ''has_using_zip_file'' = Some (128, CBool)"
  "member_at 0 logs_proto_mobilesdk_ios_ICoreConfiguration ''using_zip_file'' = Some (129, CBool)"
  "member_at 0 logs_proto_mobilesdk_ios_ICoreConfiguration ''has_deployment_type'' = Some (130, CBool)"
  "member_at 0 logs_proto_mobilesdk_ios_ICoreConfiguration ''deployment_type'' = Some (132, CUInt32)"
  "member_at 0 logs_proto_mobilesdk_ios_ICoreConfiguration ''platform_info'' = Some (136, (CPtr pb_bytes_array_t))"
  "member_at 0 logs_proto_mobilesdk_ios_ICoreConfiguration ''has_swizzling_enabled'' = Some (144, CBool)"
  "member_at 0 logs_proto_mobilesdk_ios_ICoreConfiguration ''swizzling_enabled'' = Some (145, CBool)"
  "member_at 0 logs_proto_mobilesdk_ios_ICoreConfiguration ''has_using_gdt'' = Some (146, CBool)"
  unfolding logs_proto_mobilesdk_ios_ICoreConfiguration_def member_at_members logs_proto_mobilesdk_ios_ICoreConfiguration_offsets_of by simp_all

lemma logs_proto_mobilesdk_ios_ICoreConfiguration_members_5:
  "member_at 0 logs_proto_mobilesdk_ios_ICoreConfiguration ''using_gdt'' = Some (147, CBool)"
  unfolding logs_proto_mobilesdk_ios_ICoreConfiguration_def member_at_members logs_proto_mobilesdk_ios_ICoreConfiguration_offsets_of by simp_all

lemma logs_proto_mobilesdk_ios_ICoreConfiguration_layout: "sizeof_members 0 logs_proto_mobilesdk_ios_ICoreConfiguration = 148" "alignof_members logs_proto_mobilesdk_ios_ICoreConfiguration = 8"
  unfolding logs_proto_mobilesdk_ios_ICoreConfiguration_def by (rule logs_proto_mobilesdk_ios_ICoreConfiguration_sizes)+

lemmas logs_proto_mobilesdk_ios_ICoreConfiguration_simps = logs_proto_mobilesdk_ios_ICoreConfiguration_layout logs_proto_mobilesdk_ios_ICoreConfiguration_members_1 logs_proto_mobilesdk_ios_ICoreConfiguration_members_2 logs_proto_mobilesdk_ios_ICoreConfiguration_members_3 logs_proto_mobilesdk_ios_ICoreConfiguration_members_4 logs_proto_mobilesdk_ios_ICoreConfiguration_members_5

lemma logs_proto_mobilesdk_ios_ICoreConfiguration_fields_eq: "logs_proto_mobilesdk_ios_ICoreConfiguration_fields =
     [Pb_field 1 0x12 4 (- 4) 4 0 PtrNull,
      Pb_field 7 0xA2 8 (- 8) 4 0 PtrNull,
      Pb_field 9 0x96 0 0 8 0 PtrNull,
      Pb_field 10 0x96 0 0 8 0 PtrNull,
      Pb_field 12 0x96 0 0 8 0 PtrNull,
      Pb_field 16 0x12 4 (- 4) 4 0 PtrNull,
      Pb_field 18 0x96 0 0 8 0 PtrNull,
      Pb_field 19 0x96 0 0 8 0 PtrNull,
      Pb_field 20 0x12 4 (- 4) 4 0 PtrNull,
      Pb_field 21 0x11 4 (- 4) 4 0 PtrNull,
      Pb_field 22 0x96 0 0 8 0 PtrNull,
      Pb_field 24 0x96 0 0 8 0 PtrNull,
      Pb_field 25 0x10 1 (- 1) 1 0 PtrNull,
      Pb_field 26 0x10 1 (- 1) 1 0 PtrNull,
      Pb_field 27 0x11 4 (- 4) 4 0 PtrNull,
      Pb_field 28 0x96 4 0 8 0 PtrNull,
      Pb_field 29 0x10 1 (- 1) 1 0 PtrNull,
      Pb_field 30 0x12 2 (- 2) 4 0 PtrNull,
      Pb_field 31 0x96 0 0 8 0 PtrNull,
      Pb_field 33 0x10 1 (- 1) 1 0 PtrNull,
      Pb_field 36 0x10 1 (- 1) 1 0 PtrNull,
      PB_LAST_FIELD]"
  by (simp add: logs_proto_mobilesdk_ios_ICoreConfiguration_fields_def PB_FIELD_simps sizeof_bytes_array logs_proto_mobilesdk_ios_ICoreConfiguration_simps)

lemma logs_proto_mobilesdk_ios_ICoreConfiguration_offsets: "field_offsets logs_proto_mobilesdk_ios_ICoreConfiguration_fields =
     [(4, 0), (16, 8), (24, 24), (32, 32), (40, 40), (52, 48), (56, 56), (64, 64), (76, 72), (84, 80), (88, 88), (96, 96), (105, 104), (107, 106), (112, 108), (120, 120), (129, 128), (132, 130), (136, 136), (145, 144), (147, 146), (148, 148)]"
  unfolding logs_proto_mobilesdk_ios_ICoreConfiguration_fields_eq by (simp add: member_size_def PB_ATYPE_def PB_HTYPE_def PB_LAST_FIELD_def One_nat_def)

lemma logs_proto_mobilesdk_ios_ICoreConfiguration_describes: "describes logs_proto_mobilesdk_ios_ICoreConfiguration logs_proto_mobilesdk_ios_ICoreConfiguration_fields
    [(logs_proto_mobilesdk_ios_ICoreConfiguration_configuration_type_tag, ''configuration_type'', ''has_configuration_type''),
     (logs_proto_mobilesdk_ios_ICoreConfiguration_sdk_service_installed_tag, ''sdk_service_installed'', ''sdk_service_installed_count''),
     (logs_proto_mobilesdk_ios_ICoreConfiguration_device_model_tag, ''device_model'', ''device_model''),
     (logs_proto_mobilesdk_ios_ICoreConfiguration_app_id_tag, ''app_id'', ''app_id''),
     (logs_proto_mobilesdk_ios_ICoreConfiguration_bundle_id_tag, ''bundle_id'', ''bundle_id''),
     (logs_proto_mobilesdk_ios_ICoreConfiguration_pod_name_tag, ''pod_name'', ''has_pod_name''),
     (logs_proto_mobilesdk_ios_ICoreConfiguration_icore_version_tag, ''icore_version'', ''icore_version''),
     (logs_proto_mobilesdk_ios_ICoreConfiguration_sdk_version_tag, ''sdk_version'', ''sdk_version''),
     (logs_proto_mobilesdk_ios_ICoreConfiguration_sdk_name_tag, ''sdk_name'', ''has_sdk_name''),
     (logs_proto_mobilesdk_ios_ICoreConfiguration_app_count_tag, ''app_count'', ''has_app_count''),
     (logs_proto_mobilesdk_ios_ICoreConfiguration_os_version_tag, ''os_version'', ''os_version''),
     (logs_proto_mobilesdk_ios_ICoreConfiguration_min_supported_ios_version_tag, ''min_supported_ios_version'', ''min_supported_ios_version''),
     (logs_proto_mobilesdk_ios_ICoreConfiguration_use_default_app_tag, ''use_default_app'', ''has_use_default_app''),
     (logs_proto_mobilesdk_ios_ICoreConfiguration_deployed_in_app_store_tag, ''deployed_in_app_store'', ''has_deployed_in_app_store''),
     (logs_proto_mobilesdk_ios_ICoreConfiguration_dynamic_framework_count_tag, ''dynamic_framework_count'', ''has_dynamic_framework_count''),
     (logs_proto_mobilesdk_ios_ICoreConfiguration_apple_framework_version_tag, ''apple_framework_version'', ''apple_framework_version''),
     (logs_proto_mobilesdk_ios_ICoreConfiguration_using_zip_file_tag, ''using_zip_file'', ''has_using_zip_file''),
     (logs_proto_mobilesdk_ios_ICoreConfiguration_deployment_type_tag, ''deployment_type'', ''has_deployment_type''),
     (logs_proto_mobilesdk_ios_ICoreConfiguration_platform_info_tag, ''platform_info'', ''platform_info''),
     (logs_proto_mobilesdk_ios_ICoreConfiguration_swizzling_enabled_tag, ''swizzling_enabled'', ''has_swizzling_enabled''),
     (logs_proto_mobilesdk_ios_ICoreConfiguration_using_gdt_tag, ''using_gdt'', ''has_using_gdt'')]"
  by (simp add: describes_simps logs_proto_mobilesdk_ios_ICoreConfiguration_offsets logs_proto_mobilesdk_ios_ICoreConfiguration_fields_eq sizeof_bytes_array logs_proto_mobilesdk_ios_ICoreConfiguration_simps
      logs_proto_mobilesdk_ios_ICoreConfiguration_configuration_type_tag_def logs_proto_mobilesdk_ios_ICoreConfiguration_sdk_service_installed_tag_def logs_proto_mobilesdk_ios_ICoreConfiguration_device_model_tag_def logs_proto_mobilesdk_ios_ICoreConfiguration_app_id_tag_def logs_proto_mobilesdk_ios_ICoreConfiguration_bundle_id_tag_def logs_proto_mobilesdk_ios_ICoreConfiguration_pod_name_tag_def logs_proto_mobilesdk_ios_ICoreConfiguration_icore_version_tag_def logs_proto_mobilesdk_ios_ICoreConfiguration_sdk_version_tag_def logs_proto_mobilesdk_ios_ICoreConfiguration_sdk_name_tag_def logs_proto_mobilesdk_ios_ICoreConfiguration_app_count_tag_def logs_proto_mobilesdk_ios_ICoreConfiguration_os_version_tag_def logs_proto_mobilesdk_ios_ICoreConfiguration_min_supported_ios_version_tag_def logs_proto_mobilesdk_ios_ICoreConfiguration_use_default_app_tag_def logs_proto_mobilesdk_ios_ICoreConfiguration_deployed_in_app_store_tag_def logs_proto_mobilesdk_ios_ICoreConfiguration_dynamic_framework_count_tag_def logs_proto_mobilesdk_ios_ICoreConfiguration_apple_framework_version_tag_def logs_proto_mobilesdk_ios_ICoreConfiguration_using_zip_file_tag_def logs_proto_mobilesdk_ios_ICoreConfiguration_deployment_type_tag_def logs_proto_mobilesdk_ios_ICoreConfiguration_platform_info_tag_def logs_proto_mobilesdk_ios_ICoreConfiguration_swizzling_enabled_tag_def logs_proto_mobilesdk_ios_ICoreConfiguration_using_gdt_tag_def)

section \<open>Theorems\<close>

lemma core_fits: "fits (Suc n) logs_proto_mobilesdk_ios_ICoreConfiguration_fields"
  by (simp add: logs_proto_mobilesdk_ios_ICoreConfiguration_fields_eq PB_LTYPE_def PB_LAST_FIELD_def One_nat_def)

text \<open>The same for the core diagnostics message: every one of its 21 fields is found under its
  tag macro, at the member the structure declares.\<close>

theorem core_fields_found:
  assumes "(ms, fs, rows) \<in> set core_messages" and "(tag, m, pres) \<in> set rows"
  shows "\<exists>it. pb_field_iter_find (snd (pb_field_iter_begin fs d)) tag = (True, it)
    \<and> fld_tag (it_field it) = tag \<and> pData it = d + int (offsetof (struct_of ms) m)
    \<and> pSize it = d + int (offsetof (struct_of ms) pres)"
proof -
  have "describes ms fs rows"
    using assms(1) logs_proto_mobilesdk_ios_ICoreConfiguration_describes by (simp add: core_messages_def)
  moreover have "0 < length rows" using assms(2) by (cases rows) auto
  ultimately show ?thesis using describes_find [of ms fs rows tag m pres 0 d] assms(2) by simp
qed

theorem core_fields_found_witness:
  "\<exists>it. pb_field_iter_find (snd (pb_field_iter_begin logs_proto_mobilesdk_ios_ICoreConfiguration_fields 0))
      logs_proto_mobilesdk_ios_ICoreConfiguration_sdk_service_installed_tag = (True, it)
    \<and> fld_tag (it_field it) = 7 \<and> pData it = 16 \<and> pSize it = 8"
  using core_fields_found [OF _ list.set_intros(2) [OF list.set_intros(1)], where d = 0]
  by (simp add: core_messages_def struct_of_simps logs_proto_mobilesdk_ios_ICoreConfiguration_simps
      logs_proto_mobilesdk_ios_ICoreConfiguration_sdk_service_installed_tag_def)

end
