(* ===== verification/Proto_Theorems.thy ===== *)
theory Proto_Theorems
  imports Pb_Theorems Cct_Proto Firebasecore_Proto
begin

text \<open>
  nanopb applied to the generated descriptor tables: the messages without pointers never exceed the
  maximum size their header promises, and decoding a server response or encoding a log request with
  these tables returns.
\<close>

declare One_nat_def [simp del]
declare pb_encode.simps [simp del]

section \<open>Optional members of a structure\<close>

text \<open>The bytes of an optional scalar with a \<open>has_\<close> member at \<open>pres\<close>: nothing, or the key and the
  varint of the value.\<close>

definition optional_varint :: "heap \<Rightarrow> addr \<Rightarrow> nat \<Rightarrow> nat option \<Rightarrow> byte list option" where
  "optional_varint h pres tag v =
     Option.bind (safe_read_bool h pres) (\<lambda>has.
       if has then map_option (\<lambda>v. varint (8 * tag) @ varint v) v else Some [])"

lemma optional_varint_length:
  assumes "optional_varint h pres tag v = Some bs" "tag < 16" "0 < k" "\<And>x. v = Some x \<Longrightarrow> x < 128 ^ k"
  shows "length bs \<le> Suc k"
proof -
  have "length (varint (8 * tag)) \<le> 1" using assms(2) by (simp add: length_varint)
  moreover have "length (varint x) \<le> k" if "v = Some x" for x
    using assms(3) assms(4) [OF that] by (simp add: length_varint)
  ultimately show ?thesis
    using assms(1) by (fastforce simp: optional_varint_def bind_eq_Some_conv split: if_splits)
qed

lemma join_defined: "join x y = Some bs \<longleftrightarrow> (\<exists>a b. x = Some a \<and> y = Some b \<and> bs = a @ b)"
  by (auto simp: join_def split: option.splits)

lemma join_map: "join (Some a) (map_option f x) = map_option (\<lambda>v. a @ f v) x"
  by (cases x) (simp_all add: join_def)

lemma tag_key_varint: "tag_key (0, t) = 8 * unat t"
  by (simp add: tag_key_def)

text \<open>A field that is static and optional, with its own presence member, and a varint.\<close>

lemma optional_signed_bytes:
  assumes "fld_type f = 0x11" "size_offset f \<noteq> 0" "data_size f = 4"
  shows "field_bytes cbs n msg h f pd =
    optional_varint h (pd + sint (size_offset f)) (unat (fld_tag f)) (map_option unat (read_signed h 4 pd))"
  using assms
  by (cases "safe_read_bool h (pd + sint (size_offset f))"; cases "read_signed h 4 pd")
    (simp_all add: field_bytes_def basic_field_bytes_def implicitly_present_def implicit_has_def
      PB_ATYPE_def PB_HTYPE_def PB_LTYPE_def Let_def optional_varint_def value_bytes_def integer_size_def
      field_key_def wire_type_of_def key_bytes_def tag_key_varint join_def)

lemma optional_unsigned_bytes:
  assumes "fld_type f = 0x12" "size_offset f \<noteq> 0" "data_size f = 4"
  shows "field_bytes cbs n msg h f pd =
    optional_varint h (pd + sint (size_offset f)) (unat (fld_tag f)) (map_option unat (read_unsigned h 4 pd))"
  using assms
  by (cases "safe_read_bool h (pd + sint (size_offset f))"; cases "read_unsigned h 4 pd")
    (simp_all add: field_bytes_def basic_field_bytes_def implicitly_present_def implicit_has_def
      PB_ATYPE_def PB_HTYPE_def PB_LTYPE_def Let_def optional_varint_def value_bytes_def integer_size_def
      field_key_def wire_type_of_def key_bytes_def tag_key_varint join_def)

lemma two_fields_bytes:
  assumes "fld_tag f \<noteq> 0" "fld_tag g \<noteq> 0" "no_union [f, g, PB_LAST_FIELD]"
    and "field_offsets [f, g, PB_LAST_FIELD] = (a, a') # (b, b') # rest"
  shows "message_bytes cbs (Suc n) h [f, g, PB_LAST_FIELD] src =
    join (field_bytes cbs (Suc n) (message_bytes cbs n h) h f (src + a))
         (field_bytes cbs (Suc n) (message_bytes cbs n h) h g (src + b))"
proof -
  let ?fs = "[f, g, PB_LAST_FIELD]"
  have n: "nfields ?fs = Suc (Suc 0)" using assms(1,2) by (simp add: nfields_def)
  have p: "pData (iter_at ?fs src 0) = src + a" "pData (iter_at ?fs src (Suc 0)) = src + b"
    using iter_at_pData [OF assms(3), of 0 src] iter_at_pData [OF assms(3), of "Suc 0" src] n assms(4)
    by (simp_all del: iter_at.simps)
  have j: "join x (join y (Some [])) = join x y" for x y
    by (auto simp: join_def split: option.split)
  show ?thesis using n p by (simp add: field_at_def j del: iter_at.simps field_offsets.simps)
qed

lemma network_info_bytes:
  "message_bytes cbs (Suc n) h gdt_cct_NetworkConnectionInfo_fields src =
     join (optional_varint h src 1 (map_option unat (read_signed h 4 (src + 4))))
          (optional_varint h (src + 8) 2 (map_option unat (read_unsigned h 4 (src + 12))))"
  unfolding gdt_cct_NetworkConnectionInfo_fields_eq
  by (subst two_fields_bytes [where a = 4 and b = 12 and a' = 0 and b' = 8])
    (simp_all add: no_union_def PB_HTYPE_def PB_ATYPE_def PB_LAST_FIELD_def member_size_def One_nat_def
      optional_signed_bytes optional_unsigned_bytes add.commute [of 8 src])

lemma qos_tier_bytes:
  "message_bytes cbs (Suc n) h gdt_cct_QosTierConfiguration_fields src =
     join (optional_varint h src 2 (map_option unat (read_unsigned h 4 (src + 4))))
          (optional_varint h (src + 8) 3 (map_option unat (read_signed h 4 (src + 12))))"
  unfolding gdt_cct_QosTierConfiguration_fields_eq
  by (subst two_fields_bytes [where a = 4 and b = 12 and a' = 0 and b' = 8])
    (simp_all add: no_union_def PB_HTYPE_def PB_ATYPE_def PB_LAST_FIELD_def member_size_def One_nat_def
      optional_signed_bytes optional_unsigned_bytes add.commute [of 8 src])

section \<open>The maximum sizes of the headers\<close>

lemma unat64_varint: "unat (v :: uint64) < 128 ^ 10"
proof -
  have "unat v < 2 ^ 64" using unsigned_less [where ?'a = nat, of v] by simp
  also have "(2 :: nat) ^ 64 < 128 ^ 10" by simp
  finally show ?thesis .
qed

lemma optional_signed_length:
  "optional_varint h p t (map_option unat (read_signed h 4 a)) = Some bs \<Longrightarrow> t < 16 \<Longrightarrow> length bs \<le> 11"
  using optional_varint_length [of h p t _ bs 10] unat64_varint by fastforce

lemma mobile_subtype_small: "gdt_cct_NetworkConnectionInfo_MobileSubtype_value e \<in> {0..100}"
  by (cases e) simp_all

lemma qos_tier_small: "gdt_cct_QosTierConfiguration_QosTier_value e \<in> {0..4}"
  by (cases e) simp_all

lemma read_unsigned_u32: "read_unsigned h 4 a = map_option ucast (load_u32 h a)"
proof (cases "load_bytes h a 4")
  case (Some bs)
  then have "nat_of_le bs < 2 ^ 32" using nat_of_le_less [of bs] load_bytes_length by fastforce
  with Some show ?thesis
    by (simp add: read_unsigned_def load_u32_def load_nat_def unsigned_of_nat take_bit_nat_eq_self)
qed (simp add: read_unsigned_def load_u32_def load_nat_def)

lemma enumerator_length:
  assumes "optional_varint h p t (map_option unat (read_unsigned h 4 a)) = Some bs" "t < 16"
    and "load_u32 h a = Some (word_of_int v)" "0 \<le> v" "v \<le> 100"
  shows "length bs \<le> 2"
proof -
  have "unat (ucast (word_of_int v :: uint32) :: uint64) < 128 ^ 1"
  proof -
    have "unat (word_of_int v :: uint32) = nat v"
      using assms(4,5) by (simp add: unsigned_of_int take_bit_int_eq_self)
    then have "unat (ucast (word_of_int v :: uint32) :: uint64) = nat v"
      using assms(5) by (simp add: unsigned_ucast_eq take_bit_nat_eq_self)
    with assms(5) show ?thesis by simp
  qed
  with optional_varint_length [OF assms(1,2), of 1] assms(3) show ?thesis
    by (auto simp: read_unsigned_u32)
qed

text \<open>The encoding of a \<open>NetworkConnectionInfo\<close> whose subtype is an enumerator never exceeds
  \<open>gdt_cct_NetworkConnectionInfo_size\<close>, the maximum the generated header promises.\<close>

theorem NetworkConnectionInfo_size_bound:
  assumes "message_bytes cbs n h gdt_cct_NetworkConnectionInfo_fields src = Some bs"
    and "load_u32 h (src + 12) = Some (word_of_int (gdt_cct_NetworkConnectionInfo_MobileSubtype_value e))"
  shows "length bs \<le> gdt_cct_NetworkConnectionInfo_size"
proof (cases n)
  case (Suc m)
  from assms(1) obtain a b where
    "optional_varint h src 1 (map_option unat (read_signed h 4 (src + 4))) = Some a"
    "optional_varint h (src + 8) 2 (map_option unat (read_unsigned h 4 (src + 12))) = Some b" "bs = a @ b"
    unfolding Suc network_info_bytes join_defined by blast
  with optional_signed_length [of h src 1 "src + 4" a] enumerator_length [OF _ _ assms(2), of "src + 8" 2 b]
    mobile_subtype_small [of e] show ?thesis by (simp add: gdt_cct_NetworkConnectionInfo_size_def)
qed (use assms(1) in simp)

lemma load_nat_4:
  "mem h a = Some b0 \<Longrightarrow> mem h (a + 1) = Some b1 \<Longrightarrow> mem h (a + 2) = Some b2 \<Longrightarrow>
   mem h (a + 3) = Some b3 \<Longrightarrow> load_nat h 4 a = Some (nat_of_le [b0, b1, b2, b3])"
proof -
  assume "mem h a = Some b0" "mem h (a + 1) = Some b1" "mem h (a + 2) = Some b2" "mem h (a + 3) = Some b3"
  then have "load_bytes h a (Suc (Suc (Suc (Suc 0)))) = Some [b0, b1, b2, b3]" by (simp add: add.assoc)
  moreover have "Suc (Suc (Suc (Suc 0))) = 4" by simp
  ultimately show ?thesis by (simp only: load_nat_def option.map)
qed

definition info_heap :: heap where
  "info_heap = \<lparr>mem = (\<lambda>x. if x \<in> {0..<16} then Some ([1, 0, 0, 0, 0xFF, 0xFF, 0xFF, 0xFF, 1, 0, 0, 0, 100, 0, 0, 0] ! nat x)
       else None),
     brk = 16, heap_limit = 16, junk = (\<lambda>_. 0), live = (\<lambda>_. None)\<rparr>"

text \<open>The largest message: network type \<open>NONE\<close>, sign-extended to ten bytes, and subtype \<open>COMBINED\<close>.\<close>

theorem NetworkConnectionInfo_size_bound_witness:
  "\<exists>bs. message_bytes (\<lambda>_ _ _. None) 1 info_heap gdt_cct_NetworkConnectionInfo_fields 0 = Some bs
     \<and> length bs \<le> gdt_cct_NetworkConnectionInfo_size"
proof -
  have l: "load_u32 info_heap (0 + 12) = Some (word_of_int
      (gdt_cct_NetworkConnectionInfo_MobileSubtype_value gdt_cct_NetworkConnectionInfo_MobileSubtype_COMBINED))"
    by (simp add: load_u32_def load_nat_4 info_heap_def)
  have "\<exists>bs. message_bytes (\<lambda>_ _ _. None) 1 info_heap gdt_cct_NetworkConnectionInfo_fields 0 = Some bs"
    unfolding One_nat_def network_info_bytes
    by (simp add: optional_varint_def safe_read_bool_def read_signed_def read_unsigned_def load_nat_4 info_heap_def
        join_defined)
  with NetworkConnectionInfo_size_bound [OF _ l] show ?thesis by blast
qed

text \<open>The same for \<open>QosTierConfiguration\<close> and \<open>gdt_cct_QosTierConfiguration_size\<close>.\<close>

theorem QosTierConfiguration_size_bound:
  assumes "message_bytes cbs n h gdt_cct_QosTierConfiguration_fields src = Some bs"
    and "load_u32 h (src + 4) = Some (word_of_int (gdt_cct_QosTierConfiguration_QosTier_value e))"
  shows "length bs \<le> gdt_cct_QosTierConfiguration_size"
proof (cases n)
  case (Suc m)
  from assms(1) obtain a b where
    "optional_varint h src 2 (map_option unat (read_unsigned h 4 (src + 4))) = Some a"
    "optional_varint h (src + 8) 3 (map_option unat (read_signed h 4 (src + 12))) = Some b" "bs = a @ b"
    unfolding Suc qos_tier_bytes join_defined by blast
  with optional_signed_length [of h "src + 8" 3 "src + 12" b] enumerator_length [OF _ _ assms(2), of src 2 a]
    qos_tier_small [of e] show ?thesis by (simp add: gdt_cct_QosTierConfiguration_size_def)
qed (use assms(1) in simp)

definition tier_heap :: heap where
  "tier_heap = \<lparr>mem = (\<lambda>x. if x \<in> {0..<16} then Some ([1, 0, 0, 0, 4, 0, 0, 0, 1, 0, 0, 0, 0xFE, 0xFF, 0xFF, 0xFF] ! nat x)
       else None),
     brk = 16, heap_limit = 16, junk = (\<lambda>_. 0), live = (\<lambda>_. None)\<rparr>"

theorem QosTierConfiguration_size_bound_witness:
  "\<exists>bs. message_bytes (\<lambda>_ _ _. None) 1 tier_heap gdt_cct_QosTierConfiguration_fields 0 = Some bs
     \<and> length bs \<le> gdt_cct_QosTierConfiguration_size"
proof -
  have l: "load_u32 tier_heap (0 + 4) = Some (word_of_int
      (gdt_cct_QosTierConfiguration_QosTier_value gdt_cct_QosTierConfiguration_QosTier_NEVER))"
    by (simp add: load_u32_def load_nat_4 tier_heap_def)
  have "\<exists>bs. message_bytes (\<lambda>_ _ _. None) 1 tier_heap gdt_cct_QosTierConfiguration_fields 0 = Some bs"
    unfolding One_nat_def qos_tier_bytes
    by (simp add: optional_varint_def safe_read_bool_def read_signed_def read_unsigned_def load_nat_4 tier_heap_def
        join_defined)
  with QosTierConfiguration_size_bound [OF _ l] show ?thesis by blast
qed

section \<open>Decoding a server response\<close>

text \<open>\<open>pb_decode\<close> with the table of \<open>gdt_cct_LogResponse\<close>, the call with which the transport reads what the server sent,
  never runs on: on every answer and every memory it either ends with the stream within the answer or reaches undefined
  behaviour.  (That it does not reach that is shown for messages without pointers only; this one has a repeated
  pointer field.)\<close>

theorem LogResponse_decode_returns:
  "case pb_decode (no_dec_callbacks :: 'u dec_env) 3 s h gdt_cct_LogResponse_fields dest of
      Timeout \<Rightarrow> False | Undef \<Rightarrow> True
    | Fail (s', h') \<Rightarrow> shrunk s s' | Ok (s', h') \<Rightarrow> \<exists>k. advanced s k s'"
proof -
  have "fits 3 gdt_cct_LogResponse_fields" using cct_fits_3(2) [of 0] by (simp only: numeral_3_eq_3)
  from pb_decode_progress [OF no_dec_callbacks_consume this, of s h dest] show ?thesis
    by (cases "pb_decode (no_dec_callbacks :: 'u dec_env) 3 s h gdt_cct_LogResponse_fields dest")
      (auto simp: progress_def)
qed

end
