(* ===== verification/B64.thy ===== *)
theory B64
  imports Prelude "HOL-Library.Char_ord"
begin

text \<open>
  \<open>FirebaseDatabase/Sources/third_party/SocketRocket/fbase64.c\<close>: base64 encoding (\<open>f_b64_ntop\<close>)
  and decoding (\<open>f_b64_pton\<close>), and the caller \<open>base64EncodedStringFromData\<close> that sizes the output
  buffer.  Memory objects are byte lists, and an access beyond the end of an object is \<open>Undef\<close>; a
  string is a list that holds its terminating zero.  Inside the loops \<open>Fail\<close> stands for
  \<open>return (-1)\<close>.
\<close>

unbundle bit_operations_syntax

declare One_nat_def [simp del]

section \<open>The code\<close>

definition Base64 :: "byte list" where
  "Base64 = map of_char ''ABCDEFGHIJKLMNOPQRSTUVWXYZabcdefghijklmnopqrstuvwxyz0123456789+/''"

definition Pad64 :: byte where
  "Pad64 = of_char (CHR ''='')"

definition store_at :: "byte list \<Rightarrow> nat \<Rightarrow> byte \<Rightarrow> byte list option" where
  "store_at t i b = (if i < length t then Some (t[i := b]) else None)"

definition load_at :: "byte list \<Rightarrow> nat \<Rightarrow> byte option" where
  "load_at t i = (if i < length t then Some (t ! i) else None)"

text \<open>Four stores \<open>target[datalength++] = c\<close>.\<close>

definition store4 :: "byte list \<Rightarrow> nat \<Rightarrow> byte \<Rightarrow> byte \<Rightarrow> byte \<Rightarrow> byte \<Rightarrow> byte list option" where
  "store4 t i c0 c1 c2 c3 =
     Option.bind (store_at t i c0) (\<lambda>t. Option.bind (store_at t (i + 1) c1) (\<lambda>t.
     Option.bind (store_at t (i + 2) c2) (\<lambda>t. store_at t (i + 3) c3)))"

definition output0 :: "byte \<Rightarrow> byte" where "output0 i0 = drop_bit 2 i0"

definition output1 :: "byte \<Rightarrow> byte \<Rightarrow> byte" where
  "output1 i0 i1 = push_bit 4 (i0 AND 0x03) + drop_bit 4 i1"

definition output2 :: "byte \<Rightarrow> byte \<Rightarrow> byte" where
  "output2 i1 i2 = push_bit 2 (i1 AND 0x0f) + drop_bit 6 i2"

definition output3 :: "byte \<Rightarrow> byte" where "output3 i2 = i2 AND 0x3f"

definition digit_of :: "byte \<Rightarrow> byte" where "digit_of v = Base64 ! unat v"

text \<open>The loop over full groups: the rest of the source and of \<open>srclength\<close>, \<open>datalength\<close> and the
  target, or \<open>return (-1)\<close>.\<close>

fun ntop_loop :: "byte list \<Rightarrow> nat \<Rightarrow> nat \<Rightarrow> byte list \<Rightarrow> nat \<Rightarrow>
    (byte list \<times> nat \<times> nat \<times> byte list, byte list) res" where
  "ntop_loop (a # b # c # src) srclength datalength target targsize =
     (if 2 < srclength
      then if targsize < datalength + 4 then Fail target
           else access (store4 target datalength (digit_of (output0 a)) (digit_of (output1 a b))
                          (digit_of (output2 b c)) (digit_of (output3 c))) (\<lambda>target.
             ntop_loop src (srclength - 3) (datalength + 4) target targsize)
      else Ok (a # b # c # src, srclength, datalength, target))"
| "ntop_loop src srclength datalength target targsize =
     (if 2 < srclength then Undef else Ok (src, srclength, datalength, target))"

text \<open>The padded last group; \<open>srclength\<close> is 1 or 2.\<close>

definition ntop_pad :: "byte list \<Rightarrow> nat \<Rightarrow> nat \<Rightarrow> byte list \<Rightarrow> nat \<Rightarrow> (nat \<times> byte list, byte list) res"
where
  "ntop_pad src srclength datalength target targsize =
     access (load_at src 0) (\<lambda>i0.
     access (if srclength = 1 then Some 0 else load_at src 1) (\<lambda>i1.
       if targsize < datalength + 4 then Fail target
       else access (store4 target datalength (digit_of (output0 i0)) (digit_of (output1 i0 i1))
                      (if srclength = 1 then Pad64 else digit_of (output2 i1 0)) Pad64)
              (\<lambda>target. Ok (datalength + 4, target))))"

text \<open>The C result: \<open>-1\<close>, or the length converted to \<open>int\<close>.\<close>

definition to_int :: "nat \<Rightarrow> int" where
  "to_int n = sint (word_of_nat n :: 32 word)"

definition ntop_finish :: "nat \<Rightarrow> byte list \<times> nat \<times> nat \<times> byte list \<Rightarrow> (nat \<times> byte list, byte list) res"
where
  "ntop_finish targsize = (\<lambda>(src, srclength, datalength, target).
     andThen (if srclength \<noteq> 0 then ntop_pad src srclength datalength target targsize
              else Ok (datalength, target)) (\<lambda>(datalength, target).
       if targsize \<le> datalength then Fail target
       else access (store_at target datalength 0) (\<lambda>target. Ok (datalength, target))))"

definition f_b64_ntop :: "byte list \<Rightarrow> nat \<Rightarrow> byte list \<Rightarrow> nat \<Rightarrow> (int \<times> byte list, unit) res" where
  "f_b64_ntop src srclength target targsize =
     withStatus (andThen (ntop_loop src srclength 0 target targsize) (ntop_finish targsize))
       (\<lambda>r. case r of Inl (datalength, target) \<Rightarrow> Ok (to_int datalength, target)
                    | Inr target \<Rightarrow> Ok (-1, target))"

text \<open>\<open>isspace\<close> in the C locale; \<open>char\<close> is signed, and for the negative values of the upper half it
  answers false.\<close>

definition isspace :: "byte \<Rightarrow> bool" where
  "isspace ch \<longleftrightarrow> ch = 32 \<or> 9 \<le> ch \<and> ch \<le> 13"

text \<open>\<open>strchr(Base64, ch)\<close> as an index, for a character that is not zero.\<close>

fun strchr_index :: "byte list \<Rightarrow> byte \<Rightarrow> nat option" where
  "strchr_index [] ch = None"
| "strchr_index (c # cs) ch = (if c = ch then Some 0 else map_option Suc (strchr_index cs ch))"

definition strchr_Base64 :: "byte \<Rightarrow> nat option" where
  "strchr_Base64 ch = strchr_index Base64 ch"

text \<open>\<open>target[i] |= v\<close>\<close>

definition or_at :: "byte list \<Rightarrow> nat \<Rightarrow> byte \<Rightarrow> byte list option" where
  "or_at t i v = Option.bind (load_at t i) (\<lambda>b. store_at t i (b OR v))"

text \<open>One character in one of the four states; \<open>tarindex\<close> is a 32-bit counter and \<open>target\<close> may be
  NULL.\<close>

definition next_index :: "nat \<Rightarrow> nat" where
  "next_index i = (i + 1) mod 2 ^ 32"

definition pton_step :: "nat \<Rightarrow> nat \<Rightarrow> byte list option \<Rightarrow> nat \<Rightarrow> byte \<Rightarrow>
    (nat \<times> nat \<times> byte list option, byte list option) res" where
  "pton_step state tarindex target targsize v =
     (case target of
        None \<Rightarrow> Ok (if state = 0 then (1, tarindex, None)
                    else ((state + 1) mod 4, next_index tarindex, None))
      | Some t \<Rightarrow>
          if state = 0
          then if targsize \<le> tarindex then Fail target
               else access (store_at t tarindex (push_bit 2 v)) (\<lambda>t. Ok (1, tarindex, Some t))
          else if state = 1
          then if targsize \<le> next_index tarindex then Fail target
               else access (or_at t tarindex (drop_bit 4 v)) (\<lambda>t.
                    access (store_at t (next_index tarindex) (push_bit 4 (v AND 0x0f))) (\<lambda>t.
                      Ok (2, next_index tarindex, Some t)))
          else if state = 2
          then if targsize \<le> next_index tarindex then Fail target
               else access (or_at t tarindex (drop_bit 2 v)) (\<lambda>t.
                    access (store_at t (next_index tarindex) (push_bit 6 (v AND 0x03))) (\<lambda>t.
                      Ok (3, next_index tarindex, Some t)))
          else if targsize \<le> tarindex then Fail target
               else access (or_at t tarindex v) (\<lambda>t. Ok (0, next_index tarindex, Some t)))"

text \<open>The main loop; it stops with the character that ended it and the source behind that.\<close>

fun pton_loop :: "byte list \<Rightarrow> nat \<Rightarrow> nat \<Rightarrow> byte list option \<Rightarrow> nat \<Rightarrow>
    (byte \<times> byte list \<times> nat \<times> nat \<times> byte list option, byte list option) res" where
  "pton_loop [] state tarindex target targsize = Undef"
| "pton_loop (ch # src) state tarindex target targsize =
     (if ch = 0 then Ok (ch, src, state, tarindex, target)
      else if isspace ch then pton_loop src state tarindex target targsize
      else if ch = Pad64 then Ok (ch, src, state, tarindex, target)
      else case strchr_Base64 ch of
          None \<Rightarrow> Fail target
        | Some pos \<Rightarrow> andThen (pton_step state tarindex target targsize (word_of_nat pos))
            (\<lambda>(state, tarindex, target). pton_loop src state tarindex target targsize))"

text \<open>\<open>for (; ch != '\0'; ch = *src++) if (!isspace(ch)) break;\<close> on the source that starts with
  \<open>ch\<close>: the character it stops at and what is behind it.\<close>

fun skip_space :: "byte list \<Rightarrow> (byte \<times> byte list) option" where
  "skip_space [] = None"
| "skip_space (ch # src) = (if ch \<noteq> 0 \<and> isspace ch then skip_space src else Some (ch, src))"

text \<open>The checks behind a pad character, with \<open>src\<close> the source behind it.\<close>

definition pton_pad :: "byte list \<Rightarrow> nat \<Rightarrow> nat \<Rightarrow> byte list option \<Rightarrow> (nat, byte list option) res" where
  "pton_pad src state tarindex target =
     (if state = 0 \<or> state = 1 then Fail target
      else andThen
        (if state = 2
         then access (skip_space src) (\<lambda>(ch, src). if ch \<noteq> Pad64 then Fail target else Ok src)
         else Ok src)
        (\<lambda>src. access (skip_space src) (\<lambda>(ch, src).
           if ch \<noteq> 0 then Fail target
           else case target of None \<Rightarrow> Ok tarindex
             | Some t \<Rightarrow> access (load_at t tarindex) (\<lambda>b. if b \<noteq> 0 then Fail target else Ok tarindex))))"

definition pton_finish ::
  "byte \<times> byte list \<times> nat \<times> nat \<times> byte list option \<Rightarrow> (nat \<times> byte list option, byte list option) res"
where
  "pton_finish = (\<lambda>(ch, src, state, tarindex, target).
     andThen (if ch = Pad64
              then access (load_at src 0) (\<lambda>_. pton_pad src state tarindex target)
              else if state \<noteq> 0 then Fail target else Ok tarindex)
       (\<lambda>tarindex. Ok (tarindex, target)))"

definition f_b64_pton :: "byte list \<Rightarrow> byte list option \<Rightarrow> nat \<Rightarrow> (int \<times> byte list option, unit) res"
where
  "f_b64_pton src target targsize =
     withStatus (andThen (pton_loop src 0 0 target targsize) pton_finish)
       (\<lambda>r. case r of Inl (tarindex, target) \<Rightarrow> Ok (to_int tarindex, target)
                    | Inr target \<Rightarrow> Ok (-1, target))"

section \<open>The encoding of RFC 4648\<close>

text \<open>Three bytes are a number of 24 bits, and this number is written as four digits to the base
  64; a last group of one or two bytes is padded.\<close>

definition group24 :: "byte \<Rightarrow> byte \<Rightarrow> byte \<Rightarrow> nat" where
  "group24 a b c = unat a * 2 ^ 16 + unat b * 2 ^ 8 + unat c"

definition sextet :: "nat \<Rightarrow> nat \<Rightarrow> byte" where
  "sextet i n = Base64 ! (n div 2 ^ (6 * (3 - i)) mod 64)"

fun b64 :: "byte list \<Rightarrow> byte list" where
  "b64 [] = []"
| "b64 [a] = (let n = group24 a 0 0 in [sextet 0 n, sextet 1 n, Pad64, Pad64])"
| "b64 [a, b] = (let n = group24 a b 0 in [sextet 0 n, sextet 1 n, sextet 2 n, Pad64])"
| "b64 (a # b # c # src) =
     (let n = group24 a b c in sextet 0 n # sextet 1 n # sextet 2 n # sextet 3 n # b64 src)"

lemma length_b64: "length (b64 src) = 4 * ((length src + 2) div 3)"
proof (induction src rule: b64.induct)
  case (4 a b c src)
  have "(length (a # b # c # src) + 2) div 3 = (length src + 2) div 3 + 1" by simp
  with 4 show ?case by (simp add: Let_def)
qed (simp_all add: Let_def)

lemma byte_lt: "unat (b :: byte) < 256"
  using unsigned_less [where ?'a = nat, of b] by simp

lemma unat_and_mask: "unat ((b :: byte) AND mask k) = unat b mod 2 ^ k"
  by (simp only: take_bit_eq_mask [symmetric] unsigned_take_bit_eq) (simp add: take_bit_eq_mod)

lemma unat_and_3: "unat ((b :: byte) AND 3) = unat b mod 4"
  using unat_and_mask [of b 2] by (simp add: mask_eq_exp_minus_1)

lemma unat_and_15: "unat ((b :: byte) AND 15) = unat b mod 16"
  using unat_and_mask [of b 4] by (simp add: mask_eq_exp_minus_1)

lemma unat_and_63: "unat ((b :: byte) AND 63) = unat b mod 64"
  using unat_and_mask [of b 6] by (simp add: mask_eq_exp_minus_1)

lemma unat_shift: "unat (push_bit k (b :: byte)) = unat b * 2 ^ k mod 256"
  by (simp only: unsigned_push_bit_eq) (simp add: push_bit_eq_mult take_bit_eq_mod)

lemma unat_shiftr: "unat (drop_bit k (b :: byte)) = unat b div 2 ^ k"
  by (simp only: unsigned_drop_bit_eq) (simp add: drop_bit_eq_div take_bit_nat_eq_self byte_lt)

lemma sextet_arith:
  fixes x y z :: nat
  assumes "x < 256" "y < 256" "z < 256"
  shows "(x * 65536 + y * 256 + z) div 4096 mod 64 = x mod 4 * 16 + y div 16"
    and "(x * 65536 + y * 256 + z) div 64 mod 64 = y mod 16 * 4 + z div 64"
    and "(x * 65536 + y * 256 + z) mod 64 = z mod 64"
proof -
  obtain p r where x: "x = 4 * p + r" "r < 4" "x mod 4 = r" by (metis mod_less_divisor mult_div_mod_eq zero_less_numeral)
  obtain q t where y: "y = 16 * q + t" "t < 16" "y mod 16 = t" "y div 16 = q"
    by (metis mod_less_divisor mult_div_mod_eq zero_less_numeral)
  obtain u v where z: "z = 64 * u + v" "v < 64" "z mod 64 = v" "z div 64 = u"
    by (metis mod_less_divisor mult_div_mod_eq zero_less_numeral)
  have qu: "q < 16" "u < 4" using assms y z by simp_all
  have "x * 65536 + y * 256 + z = (256 * t + z) + 4096 * (64 * p + (16 * r + q))"
    using x(1) y(1) by simp
  moreover have "256 * t + z < 4096" using y(2) assms(3) by simp
  ultimately have "(x * 65536 + y * 256 + z) div 4096 = 64 * p + (16 * r + q)" by simp
  moreover have "16 * r + q < 64" using x(2) qu by simp
  ultimately show "(x * 65536 + y * 256 + z) div 4096 mod 64 = x mod 4 * 16 + y div 16"
    using x y by simp
  have "x * 65536 + y * 256 + z = v + 64 * (64 * (16 * x + q) + (4 * t + u))"
    using y(1) z(1) by simp
  then have "(x * 65536 + y * 256 + z) div 64 = 64 * (16 * x + q) + (4 * t + u)" using z(2) by simp
  moreover have "(64 * (16 * x + q) + (4 * t + u)) mod 64 = 4 * t + u"
    using y(2) qu by (simp only: mod_mult_self4) simp
  ultimately show "(x * 65536 + y * 256 + z) div 64 mod 64 = y mod 16 * 4 + z div 64"
    using y(3) z(4) by (simp only: mult.commute)
  show "(x * 65536 + y * 256 + z) mod 64 = z mod 64"
  proof -
    have "x * 65536 + y * 256 + z = z + 64 * (1024 * x + 4 * y)" by simp
    then show ?thesis by (simp only: mod_mult_self2)
  qed
qed

lemma output0_sextet: "digit_of (output0 a) = sextet 0 (group24 a b c)"
proof -
  have "unat (output0 a) = group24 a b c div 2 ^ 18 mod 64"
    using byte_lt [of a] byte_lt [of b] byte_lt [of c]
    by (simp add: output0_def unat_shiftr group24_def)
  then show ?thesis by (simp add: digit_of_def sextet_def)
qed

lemma output1_sextet: "digit_of (output1 a b) = sextet 1 (group24 a b c)"
proof -
  have "unat (output1 a b) = (unat (push_bit 4 (a AND 3)) + unat (drop_bit 4 b)) mod 256"
    unfolding output1_def by (subst unat_word_ariths(1)) simp
  also have "unat (push_bit 4 (a AND 3)) = unat a mod 4 * 16"
    by (simp only: unat_shift unat_and_3) simp
  also have "unat (drop_bit 4 b) = unat b div 16" by (simp only: unat_shiftr) simp
  also have "(unat a mod 4 * 16 + unat b div 16) mod 256 = group24 a b c div 2 ^ 12 mod 64"
    using sextet_arith(1) [OF byte_lt byte_lt byte_lt, of a b c]
    by (simp add: group24_def)
  finally show ?thesis by (simp add: digit_of_def sextet_def)
qed

lemma output2_sextet: "digit_of (output2 b c) = sextet 2 (group24 a b c)"
proof -
  have "unat (output2 b c) = (unat (push_bit 2 (b AND 15)) + unat (drop_bit 6 c)) mod 256"
    unfolding output2_def by (subst unat_word_ariths(1)) simp
  also have "unat (push_bit 2 (b AND 15)) = unat b mod 16 * 4"
    by (simp only: unat_shift unat_and_15) simp
  also have "unat (drop_bit 6 c) = unat c div 64" by (simp only: unat_shiftr) simp
  also have "(unat b mod 16 * 4 + unat c div 64) mod 256 = group24 a b c div 2 ^ 6 mod 64"
    using sextet_arith(2) [OF byte_lt byte_lt byte_lt, of a b c] byte_lt [of c]
    by (simp add: group24_def)
  finally show ?thesis by (simp add: digit_of_def sextet_def)
qed

lemma output3_sextet: "digit_of (output3 c) = sextet 3 (group24 a b c)"
proof -
  have "unat (output3 c) = group24 a b c mod 64"
    using sextet_arith(3) [OF byte_lt byte_lt byte_lt, of a b c] unat_and_63 [of c]
    by (simp add: output3_def group24_def)
  then show ?thesis by (simp add: digit_of_def sextet_def)
qed

section \<open>Encoding is correct\<close>

lemma store_at_append: "i = length xs \<Longrightarrow> store_at (xs @ y # ys) i b = Some (xs @ b # ys)"
  by (simp add: store_at_def)

lemma store4_append:
  "i = length xs \<Longrightarrow> store4 (xs @ r0 # r1 # r2 # r3 # ys) i a b c d = Some (xs @ a # b # c # d # ys)"
  using store_at_append [of i xs r0 "r1 # r2 # r3 # ys" a]
    store_at_append [of "i + 1" "xs @ [a]" r1 "r2 # r3 # ys" b]
    store_at_append [of "i + 2" "xs @ [a, b]" r2 "r3 # ys" c]
    store_at_append [of "i + 3" "xs @ [a, b, c]" r3 ys d]
  by (simp add: store4_def)

lemma Suc4: "Suc (Suc (Suc (Suc n))) = n + 4"
  by simp

lemma four_left: "4 \<le> length xs \<Longrightarrow> \<exists>r0 r1 r2 r3 ys. xs = r0 # r1 # r2 # r3 # ys"
  by (auto simp: numeral_eq_Suc Suc_le_length_iff)

text \<open>What the rest of the encoder does when \<open>datalength\<close> characters are written: all of \<open>code\<close> and
  the final zero, or a failure that leaves everything from \<open>targsize\<close> on alone.\<close>

definition encodes :: "byte list \<Rightarrow> byte list \<Rightarrow> nat \<Rightarrow> byte list \<Rightarrow> (nat \<times> byte list, byte list) res \<Rightarrow> bool"
where
  "encodes pre rest targsize code r \<longleftrightarrow>
     (if length pre + length code < targsize
      then r = Ok (length pre + length code, pre @ code @ 0 # drop (length code + 1) rest)
      else \<exists>rest'. r = Fail (pre @ rest') \<and> length rest' = length rest
             \<and> drop (targsize - length pre) rest' = drop (targsize - length pre) rest)"

lemma encodes_full:
  "targsize < length pre + 4 \<Longrightarrow> 4 \<le> length code \<Longrightarrow> encodes pre rest targsize code (Fail (pre @ rest))"
  by (auto simp: encodes_def)

lemma encodes_group:
  assumes "encodes (pre @ g) ys targsize code r" "length pre + length g \<le> targsize" "length gs = length g"
  shows "encodes pre (gs @ ys) targsize (g @ code) r"
proof (cases "length pre + length (g @ code) < targsize")
  case True
  with assms show ?thesis by (simp add: encodes_def add.commute)
next
  case False
  with assms(1) obtain rest' where r: "r = Fail ((pre @ g) @ rest')" "length rest' = length ys"
    "drop (targsize - length (pre @ g)) rest' = drop (targsize - length (pre @ g)) ys"
    by (auto simp: encodes_def)
  have e: "targsize - length pre = length g + (targsize - length (pre @ g))" using assms(2) by simp
  have "drop (targsize - length pre) (g @ rest') = drop (targsize - length pre) (gs @ ys)"
    unfolding e using r(3) assms(3) by simp
  with r False assms(3) show ?thesis
    by (auto simp: encodes_def intro!: exI [of _ "g @ rest'"])
qed

lemma finish_end:
  "targsize \<le> length pre + length rest \<Longrightarrow>
   encodes pre rest targsize [] (if targsize \<le> length pre then Fail (pre @ rest)
     else access (store_at (pre @ rest) (length pre) 0) (\<lambda>target. Ok (length pre, target)))"
  by (cases rest) (auto simp: encodes_def store_at_append)

lemma encodes_pad:
  assumes t: "targsize \<le> length pre + length rest" and g: "length g = 4" "g = [c0, c1, c2, c3]"
  shows "encodes pre rest targsize g
    (andThen (if targsize < length pre + 4 then Fail (pre @ rest)
       else access (store4 (pre @ rest) (length pre) c0 c1 c2 c3) (\<lambda>target. Ok (length pre + 4, target)))
     (\<lambda>(datalength, target). if targsize \<le> datalength then Fail target
       else access (store_at target datalength 0) (\<lambda>target. Ok (datalength, target))))"
proof (cases "targsize < length pre + 4")
  case True
  then show ?thesis using g by (simp add: encodes_full)
next
  case False
  then have "4 \<le> length rest" using t by simp
  then obtain r0 r1 r2 r3 ys where r: "rest = [r0, r1, r2, r3] @ ys" using four_left by fastforce
  have e: "length (pre @ g) = length pre + 4" using g(1) by simp
  have "targsize \<le> length (pre @ g) + length ys" using t r g(1) by simp
  from encodes_group [OF finish_end [OF this, unfolded e], of "[r0, r1, r2, r3]"]
  have "encodes pre ([r0, r1, r2, r3] @ ys) targsize (g @ [])
    (if targsize \<le> length pre + 4 then Fail ((pre @ g) @ ys)
     else access (store_at ((pre @ g) @ ys) (length pre + 4) 0) (\<lambda>target. Ok (length pre + 4, target)))"
    using False g(1) by (simp only: not_less list.size)
  with False g(2) show ?thesis
    unfolding r by (simp add: store4_append cong: if_cong split del: if_split)
qed

lemma ntop_encodes:
  "targsize \<le> length pre + length rest \<Longrightarrow>
   encodes pre rest targsize (b64 src)
     (andThen (ntop_loop src (length src) (length pre) (pre @ rest) targsize) (ntop_finish targsize))"
proof (induction src arbitrary: pre rest rule: b64.induct)
  case 1
  then show ?case using finish_end by (simp add: ntop_finish_def)
next
  case (2 a)
  show ?case
    using encodes_pad [OF 2, of "b64 [a]"]
    by (simp add: ntop_finish_def ntop_pad_def load_at_def Let_def output0_sextet [of a 0 0]
        output1_sextet [of a 0 0] One_nat_def cong: if_cong split del: if_split)
next
  case (3 a b)
  show ?case
    using encodes_pad [OF 3, of "b64 [a, b]"]
    by (simp add: ntop_finish_def ntop_pad_def load_at_def Let_def output0_sextet [of a b 0]
        output1_sextet [of a b 0] output2_sextet [of b 0 a] One_nat_def
        cong: if_cong split del: if_split)
next
  case (4 a b c src)
  let ?n = "group24 a b c"
  let ?g = "[sextet 0 ?n, sextet 1 ?n, sextet 2 ?n, sextet 3 ?n]"
  show ?case
  proof (cases "targsize < length pre + 4")
    case True
    then show ?thesis by (simp add: encodes_full Let_def)
  next
    case False
    then have "4 \<le> length rest" using 4(2) by simp
    then obtain r0 r1 r2 r3 ys where r: "rest = [r0, r1, r2, r3] @ ys" using four_left by fastforce
    have "encodes (pre @ ?g) ys targsize (b64 src)
      (andThen (ntop_loop src (length src) (length (pre @ ?g)) ((pre @ ?g) @ ys) targsize)
        (ntop_finish targsize))"
      using "4.prems" r by (intro "4.IH") simp_all
    from encodes_group [OF this, of "[r0, r1, r2, r3]"] False show ?thesis
      unfolding r by (simp add: store4_append Let_def output0_sextet [of a b c]
          output1_sextet [of a b c] output2_sextet [of b c a] output3_sextet [of c a b] Suc4)
  qed
qed

section \<open>Decoding\<close>

lemma Base64_eq: "Base64 =
  [65, 66, 67, 68, 69, 70, 71, 72, 73, 74, 75, 76, 77, 78, 79, 80, 81, 82, 83, 84, 85, 86, 87, 88,
   89, 90, 97, 98, 99, 100, 101, 102, 103, 104, 105, 106, 107, 108, 109, 110, 111, 112, 113, 114,
   115, 116, 117, 118, 119, 120, 121, 122, 48, 49, 50, 51, 52, 53, 54, 55, 56, 57, 43, 47]"
  by (simp add: Base64_def)

lemma length_Base64: "length Base64 = 64"
  by (simp add: Base64_eq)

lemma distinct_Base64: "distinct Base64"
proof -
  have "distinct (map unat Base64)" by (simp add: Base64_eq)
  then show ?thesis by (simp add: distinct_map)
qed

lemma Base64_chars: "c \<in> set Base64 \<Longrightarrow> c \<noteq> 0 \<and> \<not> isspace c \<and> c \<noteq> Pad64"
proof -
  have "list_all (\<lambda>c. c \<noteq> 0 \<and> \<not> isspace c \<and> c \<noteq> Pad64) Base64"
    by (simp add: Base64_eq isspace_def Pad64_def)
  then show "c \<in> set Base64 \<Longrightarrow> ?thesis" by (simp add: list_all_iff)
qed

lemma strchr_index_Some: "strchr_index cs ch = Some n \<Longrightarrow> n < length cs \<and> cs ! n = ch"
  by (induction cs arbitrary: n) (auto split: if_splits)

lemma strchr_index_nth: "distinct cs \<Longrightarrow> n < length cs \<Longrightarrow> strchr_index cs (cs ! n) = Some n"
  by (induction cs arbitrary: n) (auto simp: nth_Cons split: nat.splits)

lemma strchr_Some: "strchr_Base64 ch = Some n \<Longrightarrow> n < 64 \<and> Base64 ! n = ch"
  using strchr_index_Some [of Base64 ch n] by (simp add: strchr_Base64_def length_Base64)

lemma digit_facts: "n < 64 \<Longrightarrow> strchr_Base64 (Base64 ! n) = Some n \<and> Base64 ! n \<noteq> 0
    \<and> \<not> isspace (Base64 ! n) \<and> Base64 ! n \<noteq> Pad64"
  using strchr_index_nth [OF distinct_Base64, of n] Base64_chars [of "Base64 ! n"]
  by (simp add: strchr_Base64_def length_Base64)

lemma pad_facts: "Pad64 \<noteq> 0" "\<not> isspace Pad64"
  by code_simp+

lemma pton_loop_digit: "n < 64 \<Longrightarrow> pton_loop (Base64 ! n # src) state i t ts =
   andThen (pton_step state i t ts (word_of_nat n)) (\<lambda>(state, i, t). pton_loop src state i t ts)"
  using digit_facts by simp

subsection \<open>One character\<close>

lemma load_at_append: "i = length xs \<Longrightarrow> load_at (xs @ y # ys) i = Some y"
  by (simp add: load_at_def)

lemma or_at_append: "i = length xs \<Longrightarrow> or_at (xs @ y # ys) i v = Some (xs @ (y OR v) # ys)"
  by (simp add: or_at_def load_at_append store_at_append)

lemma next_index_less: "i + 1 < 2 ^ 32 \<Longrightarrow> next_index i = i + 1"
  by (simp add: next_index_def)

lemma word_div: "n < 64 \<Longrightarrow> drop_bit k (word_of_nat n :: byte) = word_of_nat (n div 2 ^ k)"
proof -
  assume "n < 64"
  moreover have "n div 2 ^ k \<le> n" by simp
  ultimately have "n mod 256 = n" "n div 2 ^ k mod 256 = n div 2 ^ k" 
    by (intro mod_less; linarith)+
  then have "unat (drop_bit k (word_of_nat n :: byte)) = unat (word_of_nat (n div 2 ^ k) :: byte)"
    by (simp only: unat_shiftr unat_byte_of_nat)
  then show ?thesis by (simp only: word_unat_eq_iff)
qed

lemma word_or_parts:
  "x < 2 ^ k \<Longrightarrow> (word_of_nat (2 ^ k * y) :: byte) OR word_of_nat x = word_of_nat (2 ^ k * y + x)"
  using word_of_nat_or_exp [where ?'a = 8, of x k y]
  by (simp add: or.commute add.commute push_bit_eq_mult mult.commute)

lemma step_0:
  "i = length pre \<Longrightarrow> i < ts \<Longrightarrow> pton_step 0 i (Some (pre @ x # post)) ts (word_of_nat n) =
     Ok (1, i, Some (pre @ word_of_nat (4 * n) # post))"
  by (simp add: pton_step_def store_at_append push_bit_eq_mult mult.commute)

lemma step_1:
  assumes "i = length pre" "i + 1 < ts" "ts \<le> 2 ^ 32" "n < 64"
  shows "pton_step 1 i (Some (pre @ word_of_nat (4 * m) # x # post)) ts (word_of_nat n) =
     Ok (2, i + 1, Some (pre @ word_of_nat (4 * m + n div 16) # word_of_nat (16 * (n mod 16)) # post))"
proof -
  have "word_of_nat (4 * m) OR drop_bit 4 (word_of_nat n :: byte) = word_of_nat (4 * m + n div 16)"
    using word_or_parts [of "n div 16" 2 m] assms(4) by (simp only: word_div) simp
  moreover have "push_bit 4 ((word_of_nat n :: byte) AND 15) = word_of_nat (16 * (n mod 16))"
    using assms(4) by (simp only: word_unat_eq_iff unat_shift unat_and_15 unat_byte_of_nat) simp
  moreover have "store_at (pre @ y # x # post) (length pre + 1) z = Some (pre @ y # z # post)" for y z
    using store_at_append [of "length pre + 1" "pre @ [y]" x post z] by simp
  ultimately show ?thesis
    using assms(1,2,3) by (simp add: pton_step_def or_at_append next_index_less)
qed

lemma step_2:
  assumes "i = length pre" "i + 1 < ts" "ts \<le> 2 ^ 32" "n < 64"
  shows "pton_step 2 i (Some (pre @ word_of_nat (16 * m) # x # post)) ts (word_of_nat n) =
     Ok (3, i + 1, Some (pre @ word_of_nat (16 * m + n div 4) # word_of_nat (64 * (n mod 4)) # post))"
proof -
  have "word_of_nat (16 * m) OR drop_bit 2 (word_of_nat n :: byte) = word_of_nat (16 * m + n div 4)"
    using word_or_parts [of "n div 4" 4 m] assms(4) by (simp only: word_div) simp
  moreover have "push_bit 6 ((word_of_nat n :: byte) AND 3) = word_of_nat (64 * (n mod 4))"
    using assms(4) by (simp only: word_unat_eq_iff unat_shift unat_and_3 unat_byte_of_nat) simp
  moreover have "store_at (pre @ y # x # post) (length pre + 1) z = Some (pre @ y # z # post)" for y z
    using store_at_append [of "length pre + 1" "pre @ [y]" x post z] by simp
  ultimately show ?thesis
    using assms(1,2,3) by (simp add: pton_step_def or_at_append next_index_less)
qed

lemma step_3:
  assumes "i = length pre" "i < ts" "ts < 2 ^ 32" "n < 64"
  shows "pton_step 3 i (Some (pre @ word_of_nat (64 * m) # post)) ts (word_of_nat n) =
     Ok (0, i + 1, Some (pre @ word_of_nat (64 * m + n) # post))"
  using word_or_parts [of n 6 m] assms
  by (simp add: pton_step_def or_at_append next_index_less)

text \<open>The first two, the first three and all four digits of a group.\<close>

lemma pton_two:
  assumes "i = length pre" "i + 1 < ts" "ts < 2 ^ 32" "n0 < 64" "n1 < 64"
  shows "pton_loop (Base64 ! n0 # Base64 ! n1 # rest) 0 i (Some (pre @ x # y # post)) ts =
    pton_loop rest 2 (i + 1)
      (Some (pre @ word_of_nat (4 * n0 + n1 div 16) # word_of_nat (16 * (n1 mod 16)) # post)) ts"
proof -
  have "i < ts" "ts \<le> 2 ^ 32" using assms by simp_all
  note s0 = step_0 [OF assms(1) this(1)] and s1 = step_1 [OF assms(1,2) this(2) assms(5)]
  show ?thesis
    by (simp only: pton_loop_digit [OF assms(4)] pton_loop_digit [OF assms(5)] s0 s1
        andThen.simps prod.case)
qed

lemma pton_three:
  assumes "i = length pre" "i + 2 < ts" "ts < 2 ^ 32" "n0 < 64" "n1 < 64" "n2 < 64"
  shows "pton_loop (Base64 ! n0 # Base64 ! n1 # Base64 ! n2 # rest) 0 i
      (Some (pre @ x # y # z # post)) ts =
    pton_loop rest 3 (i + 2)
      (Some (pre @ word_of_nat (4 * n0 + n1 div 16) # word_of_nat (16 * (n1 mod 16) + n2 div 4) #
         word_of_nat (64 * (n2 mod 4)) # post)) ts"
proof -
  have "pton_step 2 (i + 1) (Some (pre @ w # word_of_nat (16 * m) # z # post)) ts (word_of_nat n2) =
     Ok (3, i + 2, Some (pre @ w # word_of_nat (16 * m + n2 div 4) # word_of_nat (64 * (n2 mod 4)) # post))"
    for w m
    using step_2 [of "i + 1" "pre @ [w]" ts n2 m z post] assms
    by (simp del: of_nat_add of_nat_mult)
  moreover have "i + 1 < ts" using assms(2) by simp
  ultimately show ?thesis
    by (simp only: pton_two [OF assms(1) _ assms(3,4,5)] pton_loop_digit [OF assms(6)]
        andThen.simps prod.case)
qed

lemma pton_four:
  assumes "i = length pre" "i + 2 < ts" "ts < 2 ^ 32" "n0 < 64" "n1 < 64" "n2 < 64" "n3 < 64"
  shows "pton_loop (Base64 ! n0 # Base64 ! n1 # Base64 ! n2 # Base64 ! n3 # rest) 0 i
      (Some (pre @ x # y # z # post)) ts =
    pton_loop rest 0 (i + 3)
      (Some (pre @ word_of_nat (4 * n0 + n1 div 16) # word_of_nat (16 * (n1 mod 16) + n2 div 4) #
         word_of_nat (64 * (n2 mod 4) + n3) # post)) ts"
proof -
  have "pton_step 3 (i + 2) (Some (pre @ w # v # word_of_nat (64 * m) # post)) ts (word_of_nat n3) =
     Ok (0, i + 3, Some (pre @ w # v # word_of_nat (64 * m + n3) # post))" for w v m
    using step_3 [of "i + 2" "pre @ [w, v]" ts n3 m post] assms
    by (simp del: of_nat_add of_nat_mult)
  then show ?thesis
    by (simp only: pton_three [OF assms(1-6)] pton_loop_digit [OF assms(7)] andThen.simps prod.case)
qed

subsection \<open>The digits of a group give its bytes back\<close>

lemma group_lt: "group24 a b c < 64 * 64 * 64 * 64"
  using byte_lt [of a] byte_lt [of b] byte_lt [of c] by (simp add: group24_def)

definition dig :: "nat \<Rightarrow> nat \<Rightarrow> nat" where
  "dig i n = n div 2 ^ (6 * (3 - i)) mod 64"

lemma dig_lt [simp]: "dig i n < 64"
  by (simp add: dig_def)

lemma sextet_dig: "sextet i n = Base64 ! dig i n"
  by (simp add: sextet_def dig_def)

lemma dig_unat:
  "dig 0 (group24 a b c) = unat a div 4"
  "dig 1 (group24 a b c) = unat a mod 4 * 16 + unat b div 16"
  "dig 2 (group24 a b c) = unat b mod 16 * 4 + unat c div 64"
  "dig 3 (group24 a b c) = unat c mod 64"
proof -
  have "group24 a b c div 2 ^ 18 = unat a div 4" "unat a div 4 < 64"
    using byte_lt [of a] byte_lt [of b] byte_lt [of c] by (simp_all add: group24_def)
  then show "dig 0 (group24 a b c) = unat a div 4" by (simp add: dig_def)
qed (use sextet_arith [OF byte_lt byte_lt byte_lt, of a b c] in \<open>simp_all add: dig_def group24_def\<close>)

lemma nat_split_4: "(4 * (x div 4) + x mod 4 :: nat) = x"
  by simp

lemma join_digits:
  fixes x y z :: nat
  assumes "y < 256" "z < 256"
  shows "4 * (x div 4) + (x mod 4 * 16 + y div 16) div 16 = x"
    and "16 * ((x mod 4 * 16 + y div 16) mod 16) + (y mod 16 * 4 + z div 64) div 4 = y"
    and "64 * ((y mod 16 * 4 + z div 64) mod 4) + z mod 64 = z"
proof -
  have d: "y div 16 < 16" "z div 64 < 4" using assms by simp_all
  then show "4 * (x div 4) + (x mod 4 * 16 + y div 16) div 16 = x" by simp
  have "(x mod 4 * 16 + y div 16) mod 16 = y div 16"
    using d(1) by (simp only: mod_mult_self3) simp
  moreover have "(y mod 16 * 4 + z div 64) div 4 = y mod 16" using d(2) by simp
  ultimately show "16 * ((x mod 4 * 16 + y div 16) mod 16) + (y mod 16 * 4 + z div 64) div 4 = y"
    by simp
  have "(y mod 16 * 4 + z div 64) mod 4 = z div 64"
    using d(2) by (simp only: mod_mult_self3) simp
  then show "64 * ((y mod 16 * 4 + z div 64) mod 4) + z mod 64 = z" by simp
qed

lemma join_bytes:
  fixes a b c :: byte
  defines "n \<equiv> group24 a b c"
  shows "word_of_nat (4 * dig 0 n + dig 1 n div 16) = a"
    and "word_of_nat (16 * (dig 1 n mod 16) + dig 2 n div 4) = b"
    and "word_of_nat (64 * (dig 2 n mod 4) + dig 3 n) = c"
  unfolding n_def dig_unat join_digits [OF byte_lt byte_lt] by simp_all

lemma spill_bytes:
  "dig 1 (group24 a 0 0) mod 16 = 0" "dig 2 (group24 a b 0) mod 4 = 0"
  by (simp_all add: dig_unat)

subsection \<open>Decoding inverts encoding\<close>

text \<open>The bytes of the target behind the decoded data: a padded group leaves a zero there.\<close>

definition behind :: "nat \<Rightarrow> byte list \<Rightarrow> byte list" where
  "behind n rest = (if 3 dvd n then drop n rest else 0 # drop (n + 1) rest)"

definition roomy :: "nat \<Rightarrow> nat \<Rightarrow> bool" where
  "roomy n targsize \<longleftrightarrow> (if 3 dvd n then n \<le> targsize else n < targsize)"

lemma two_left: "2 \<le> length xs \<Longrightarrow> \<exists>x y ys. xs = x # y # ys"
  by (auto simp: numeral_eq_Suc Suc_le_length_iff)

lemma three_left: "3 \<le> length xs \<Longrightarrow> \<exists>x y z ys. xs = x # y # z # ys"
  by (auto simp: numeral_eq_Suc Suc_le_length_iff)

lemma finish_two_pads:
  "i = length pre \<Longrightarrow> andThen (pton_loop [Pad64, Pad64, 0] 2 (i + 1) (Some (pre @ a # 0 # post)) ts) pton_finish
     = Ok (i + 1, Some (pre @ a # 0 # post))"
  using pad_facts load_at_append [of "i + 1" "pre @ [a]" 0 post]
  by (simp add: pton_finish_def pton_pad_def load_at_def)

lemma finish_one_pad:
  "i = length pre \<Longrightarrow> andThen (pton_loop [Pad64, 0] 3 (i + 2) (Some (pre @ a # b # 0 # post)) ts) pton_finish
     = Ok (i + 2, Some (pre @ a # b # 0 # post))"
  using pad_facts load_at_append [of "i + 2" "pre @ [a, b]" 0 post]
  by (simp add: pton_finish_def pton_pad_def load_at_def)

lemma pton_b64:
  assumes "ts \<le> length pre + length rest" "length pre \<le> ts" "roomy (length src) (ts - length pre)"
    "ts < 2 ^ 32"
  shows "andThen (pton_loop (b64 src @ [0]) 0 (length pre) (Some (pre @ rest)) ts) pton_finish =
    Ok (length pre + length src, Some (pre @ src @ behind (length src) rest))"
  using assms
proof (induction src arbitrary: pre rest rule: b64.induct)
  case 1
  then show ?case by (simp add: pton_finish_def behind_def pad_facts(1) [symmetric])
next
  case (2 a)
  then have "length pre + 1 < ts" by (simp add: roomy_def less_diff_conv)
  moreover from this 2 have "2 \<le> length rest" by simp
  then obtain x y post where "rest = x # y # post" using two_left by blast
  ultimately show ?case
    using 2 finish_two_pads [of "length pre" pre a post ts]
    by (simp add: Let_def sextet_dig pton_two join_bytes spill_bytes behind_def numeral_2_eq_2
        del: pton_loop.simps of_nat_add of_nat_mult)
next
  case (3 a b)
  have len: "length [a, b] = 2" by simp
  from 3(3) have "roomy 2 (ts - length pre)" unfolding len .
  then have "length pre + 2 < ts" by (simp add: roomy_def less_diff_conv)
  moreover from this 3 have "3 \<le> length rest" by simp
  then obtain x y z post where r: "rest = x # y # z # post" using three_left by blast
  moreover have "behind 2 rest = 0 # post" unfolding r by (simp add: behind_def)
  ultimately show ?case
    using 3(4) finish_one_pad [of "length pre" pre a b post ts] unfolding len
    by (simp add: Let_def sextet_dig pton_three join_bytes spill_bytes
        del: pton_loop.simps of_nat_add of_nat_mult)
next
  case (4 a b c src)
  have d: "length (a # b # c # src) = length src + 3" by simp
  have l: "length pre + 2 < ts" "roomy (length src) (ts - (length pre + 3))" "length pre + 3 \<le> ts"
    using 4(2-4) unfolding d by (auto simp: roomy_def split: if_splits)
  with 4 have "3 \<le> length rest" by simp
  then obtain x y z post where r: "rest = x # y # z # post" using three_left by blast
  have e: "length (pre @ [a, b, c]) = length pre + 3" by simp
  have "andThen (pton_loop (b64 src @ [0]) 0 (length pre + 3) (Some ((pre @ [a, b, c]) @ post)) ts)
      pton_finish = Ok (length pre + 3 + length src, Some ((pre @ [a, b, c]) @ src @ behind (length src) post))"
    using "4.IH" [OF refl, of "pre @ [a, b, c]" post] l 4 r unfolding e by simp
  moreover have "drop (k + 3) (x # y # z # post) = drop k post" for k
    by (simp add: numeral_3_eq_3)
  then have "behind (length (a # b # c # src)) rest = behind (length src) post"
    unfolding d behind_def r dvd_add_triv_right_iff
    by (simp only: add.commute [of "length src" 3] add.assoc)
       (simp only: add.commute [of 3])
  ultimately show ?case
    using l(1) 4(5) r
    by (simp add: Let_def sextet_dig pton_four join_bytes del: pton_loop.simps of_nat_add of_nat_mult)
qed

section \<open>Decoding any string\<close>

text \<open>What holds of the decoder's variables between two characters: outside the first state the byte
  that is being put together lies inside the target.\<close>

definition pton_inv :: "nat \<Rightarrow> nat \<Rightarrow> byte list option \<Rightarrow> nat \<Rightarrow> bool" where
  "pton_inv state i target targsize \<longleftrightarrow> state < 4 \<and>
     (case target of None \<Rightarrow> True
      | Some t \<Rightarrow> targsize \<le> length t \<and> (if state = 0 then i \<le> targsize else i < targsize))"

text \<open>The target as it was from \<open>targsize\<close> on.\<close>

fun same_target :: "nat \<Rightarrow> byte list option \<Rightarrow> byte list option \<Rightarrow> bool" where
  "same_target targsize None t' = (t' = None)"
| "same_target targsize (Some t) t' =
     (\<exists>u. t' = Some u \<and> length u = length t \<and> drop targsize u = drop targsize t)"

lemma same_target_refl: "same_target n t t"
  by (cases t) auto

lemma same_target_trans: "same_target n t u \<Longrightarrow> same_target n u v \<Longrightarrow> same_target n t v"
  by (cases t; cases u) auto

lemma store_at_same: "i < n \<Longrightarrow> n \<le> length t \<Longrightarrow>
    \<exists>u. store_at t i b = Some u \<and> length u = length t \<and> drop n u = drop n t"
  by (simp add: store_at_def)

lemma or_at_same: "i < n \<Longrightarrow> n \<le> length t \<Longrightarrow>
    \<exists>u. or_at t i b = Some u \<and> length u = length t \<and> drop n u = drop n t"
  by (simp add: or_at_def load_at_def store_at_def)

lemma pton_step_safe:
  assumes "pton_inv state i target ts" "ts < 2 ^ 32"
  shows "pton_step state i target ts v = Fail target \<or>
    (\<exists>state' i' target'. pton_step state i target ts v = Ok (state', i', target')
       \<and> pton_inv state' i' target' ts \<and> same_target ts target target')"
proof (cases target)
  case None
  with assms(1) show ?thesis by (auto simp: pton_step_def pton_inv_def)
next
  case (Some t)
  have l: "ts \<le> length t" using assms(1) Some by (simp add: pton_inv_def)
  consider "state = 0" "i \<le> ts" | "state \<in> {1, 2}" "i < ts" | "state = 3" "i < ts"
    using assms(1) Some by (auto simp: pton_inv_def less_Suc_eq numeral_eq_Suc One_nat_def split: if_splits)
  then show ?thesis
  proof cases
    case 1
    with Some l show ?thesis
      by (auto simp: pton_step_def pton_inv_def store_at_def)
  next
    case 2
    then have n: "next_index i = i + 1" using assms(2) by (simp add: next_index_def)
    show ?thesis
      using 2 l by (auto simp: pton_step_def pton_inv_def n Some store_at_def or_at_def load_at_def)
  next
    case 3
    then have n: "next_index i = i + 1" using assms(2) by (simp add: next_index_def)
    show ?thesis
      using 3 l by (auto simp: pton_step_def pton_inv_def n Some store_at_def or_at_def load_at_def)
  qed
qed

lemma pton_loop_safe:
  assumes "0 \<in> set src" "pton_inv state i target ts" "ts < 2 ^ 32"
  shows "(\<exists>target'. pton_loop src state i target ts = Fail target' \<and> same_target ts target target') \<or>
    (\<exists>ch src' state' i' target'. pton_loop src state i target ts = Ok (ch, src', state', i', target')
       \<and> (ch = 0 \<or> ch = Pad64 \<and> 0 \<in> set src')
       \<and> pton_inv state' i' target' ts \<and> same_target ts target target')"
  using assms(1,2)
proof (induction src arbitrary: state i target)
  case Nil
  then show ?case by simp
next
  case (Cons ch src)
  show ?case
  proof (cases "ch = 0 \<or> isspace ch \<or> ch = Pad64 \<or> strchr_Base64 ch = None")
    case True
    with Cons show ?thesis
      by (cases "ch = 0"; cases "isspace ch"; cases "ch = Pad64")
        (auto simp: pad_facts same_target_refl)
  next
    case False
    then obtain pos where pos: "strchr_Base64 ch = Some pos" by auto
    with False have e: "pton_loop (ch # src) state i target ts =
        andThen (pton_step state i target ts (word_of_nat pos))
          (\<lambda>(state, i, t). pton_loop src state i t ts)" by simp
    show ?thesis
      using pton_step_safe [OF Cons.prems(2) assms(3), of "word_of_nat pos"]
    proof (elim disjE exE conjE)
      assume "pton_step state i target ts (word_of_nat pos) = Fail target"
      then show ?thesis unfolding e by (simp add: same_target_refl)
    next
      fix state' i' target'
      assume s: "pton_step state i target ts (word_of_nat pos) = Ok (state', i', target')"
        "pton_inv state' i' target' ts" "same_target ts target target'"
      have "0 \<in> set src" using Cons.prems(1) False by auto
      from Cons.IH [OF this s(2)] show ?thesis
        unfolding e s(1) by (auto intro: same_target_trans [OF s(3)])
    qed
  qed
qed

lemma skip_space_safe:
  "0 \<in> set src \<Longrightarrow> \<exists>ch src'. skip_space src = Some (ch, src') \<and> (ch = 0 \<or> 0 \<in> set src')"
  by (induction src) auto

lemma pton_finish_safe:
  assumes "ch = 0 \<or> ch = Pad64 \<and> 0 \<in> set src" "pton_inv state i target ts"
  shows "pton_finish (ch, src, state, i, target) = Fail target \<or>
    pton_finish (ch, src, state, i, target) = Ok (i, target)"
proof -
  obtain c1 s1 where s1: "0 \<in> set src \<Longrightarrow> skip_space src = Some (c1, s1) \<and> (c1 = 0 \<or> 0 \<in> set s1)"
    using skip_space_safe by blast
  obtain c2 s2 where s2: "0 \<in> set s1 \<Longrightarrow> skip_space s1 = Some (c2, s2)"
    using skip_space_safe by blast
  have "0 \<in> set src \<Longrightarrow> src \<noteq> []" by auto
  moreover have "state \<noteq> 0 \<Longrightarrow> target = Some t \<Longrightarrow> i < length t" for t
    using assms(2) by (auto simp: pton_inv_def)
  ultimately show ?thesis
    using assms(1) s1 s2 pad_facts(1) unfolding pton_finish_def pton_pad_def load_at_def
    by (cases "state = 0"; cases "state = 1"; cases "ch = 0"; cases target)
      (auto simp: split: if_splits)
qed

text \<open>The decoder on any zero-terminated string: it returns, it stays inside the target, and a
  positive answer is at most \<open>targsize\<close>.\<close>

lemma pton_safe:
  assumes "0 \<in> set src" "targsize \<le> length t" "targsize < 2 ^ 31"
  shows "\<exists>n u. f_b64_pton src (Some t) targsize = Ok (n, Some u) \<and> length u = length t
    \<and> drop targsize u = drop targsize t \<and> - 1 \<le> n \<and> n \<le> int targsize"
proof -
  have inv: "pton_inv 0 0 (Some t) targsize" using assms by (simp add: pton_inv_def)
  have "targsize < 2 ^ 32" using assms(3) by simp
  from pton_loop_safe [OF assms(1) inv this] consider
    (fails) target' where "pton_loop src 0 0 (Some t) targsize = Fail target'"
      "same_target targsize (Some t) target'"
  | (ends) ch src' state i target'
    where "pton_loop src 0 0 (Some t) targsize = Ok (ch, src', state, i, target')"
      "ch = 0 \<or> ch = Pad64 \<and> 0 \<in> set src'" "pton_inv state i target' targsize"
      "same_target targsize (Some t) target'"
    by blast
  then show ?thesis
  proof cases
    case fails
    then show ?thesis by (auto simp: f_b64_pton_def)
  next
    case ends
    from ends(4) obtain u where u: "target' = Some u" "length u = length t"
      "drop targsize u = drop targsize t"
      by auto
    have "i \<le> targsize" using ends(3) u by (auto simp: pton_inv_def split: if_splits)
    moreover from this assms(3) have "to_int i = int i"
      by (simp add: to_int_def sint_word_ariths signed_of_nat signed_take_bit_int_eq_self)
    ultimately show ?thesis
      using pton_finish_safe [OF ends(2,3)] u ends(1) by (auto simp: f_b64_pton_def)
  qed
qed

section \<open>White space in the input\<close>

abbreviation squeeze :: "byte list \<Rightarrow> byte list" where
  "squeeze s \<equiv> filter (\<lambda>c. \<not> isspace c) s"

lemma isspace_0 [simp]: "\<not> isspace 0"
  by code_simp

lemma pton_loop_squeeze:
  "pton_loop (squeeze s) state i t ts =
   andThen (pton_loop s state i t ts) (\<lambda>(ch, src, v). Ok (ch, squeeze src, v))"
proof (induction s arbitrary: state i t)
  case (Cons c s)
  have "andThen m (\<lambda>(state, i, t). pton_loop (squeeze s) state i t ts) =
    andThen (andThen m (\<lambda>(state, i, t). pton_loop s state i t ts)) (\<lambda>(ch, src, v). Ok (ch, squeeze src, v))"
    for m
    using Cons by (cases m) auto
  then show ?case using Cons pad_facts by (auto split: option.splits)
qed simp

lemma skip_space_squeeze:
  "skip_space (squeeze s) = map_option (\<lambda>(c, s). (c, squeeze s)) (skip_space s)"
  by (induction s) auto

lemma load_at_squeeze: "0 \<in> set s \<Longrightarrow> (load_at (squeeze s) 0 = None) = (load_at s 0 = None)"
  by (cases "squeeze s") (auto simp: load_at_def filter_empty_conv)

lemma access_map_option: "access (map_option f x) k = access x (\<lambda>a. k (f a))"
  by (cases x) auto

lemma pton_pad_squeeze: "pton_pad (squeeze s) state i t = pton_pad s state i t"
proof -
  let ?fin = "\<lambda>src. access (skip_space src) (\<lambda>(ch, src). if ch \<noteq> 0 then Fail t
     else case t of None \<Rightarrow> Ok i
       | Some u \<Rightarrow> access (load_at u i) (\<lambda>b. if b \<noteq> 0 then Fail t else Ok i)) :: (nat, byte list option) res"
  have e: "?fin (squeeze s) = ?fin s" for s
    by (simp add: skip_space_squeeze access_map_option case_prod_unfold)
  have "andThen (access (skip_space (squeeze s)) (\<lambda>(ch, src). if ch \<noteq> Pad64 then Fail t else Ok src)) ?fin =
    andThen (access (skip_space s) (\<lambda>(ch, src). if ch \<noteq> Pad64 then Fail t else Ok src)) ?fin"
    unfolding skip_space_squeeze access_map_option
    by (cases "skip_space s") (auto simp only: access_simps option.case prod.case e andThen.simps split: if_split)
  with e [of s] show ?thesis
    unfolding pton_pad_def by (simp only: andThen.simps split: if_split) simp
qed

lemma pton_squeeze:
  assumes "0 \<in> set s" "pton_inv 0 0 t ts" "ts < 2 ^ 32"
  shows "f_b64_pton (squeeze s) t ts = f_b64_pton s t ts"
proof -
  consider (fails) t' where "pton_loop s 0 0 t ts = Fail t'"
  | (ends) ch src state i t' where "pton_loop s 0 0 t ts = Ok (ch, src, state, i, t')"
      "ch = 0 \<or> ch = Pad64 \<and> 0 \<in> set src"
    using pton_loop_safe [OF assms] by blast
  then have "andThen (pton_loop (squeeze s) 0 0 t ts) pton_finish = andThen (pton_loop s 0 0 t ts) pton_finish"
  proof cases
    case fails
    then show ?thesis by (simp add: pton_loop_squeeze)
  next
    case ends
    from ends(2) show ?thesis
    proof
      assume "ch = 0"
      then show ?thesis by (simp add: pton_loop_squeeze ends pton_finish_def pad_facts(1) [symmetric])
    next
      assume "ch = Pad64 \<and> 0 \<in> set src"
      with load_at_squeeze [of src] show ?thesis
        by (cases "load_at src 0"; cases "load_at (squeeze src) 0")
          (auto simp: pton_loop_squeeze ends pton_finish_def pton_pad_squeeze)
    qed
  qed
  then show ?thesis by (simp add: f_b64_pton_def)
qed

section \<open>The caller\<close>

text \<open>\<open>base64EncodedStringFromData\<close>: the buffer that \<open>malloc\<close> returns, the encoder, and the string
  of the first \<open>len\<close> characters, or nil.\<close>

definition buffer_size :: "nat \<Rightarrow> nat" where
  "buffer_size n = (n * 3 + 2) div 2"

definition base64EncodedStringFromData ::
  "(nat \<Rightarrow> byte list) \<Rightarrow> byte list \<Rightarrow> (byte list option, unit) res" where
  "base64EncodedStringFromData malloc data =
     andThen (f_b64_ntop data (length data) (malloc (buffer_size (length data))) (buffer_size (length data)))
       (\<lambda>(len, buffer). Ok (if len = -1 then None else Some (take (nat len) buffer)))"

lemma to_int_less: "n < 2 ^ 31 \<Longrightarrow> to_int n = int n"
  by (simp add: to_int_def signed_of_nat signed_take_bit_int_eq_self)

lemma f_b64_ntop_fits:
  assumes "targsize \<le> length t" "length (b64 src) < targsize" "length (b64 src) < 2 ^ 31"
  shows "f_b64_ntop src (length src) t targsize =
    Ok (int (length (b64 src)), b64 src @ 0 # drop (length (b64 src) + 1) t)"
  using ntop_encodes [of targsize "[]" t src] assms
  by (simp add: f_b64_ntop_def encodes_def to_int_less)

lemma f_b64_ntop_full:
  assumes "targsize \<le> length t" "targsize \<le> length (b64 src)"
  shows "\<exists>u. f_b64_ntop src (length src) t targsize = Ok (-1, u)
    \<and> length u = length t \<and> drop targsize u = drop targsize t"
  using ntop_encodes [of targsize "[]" t src] assms
  by (auto simp: f_b64_ntop_def encodes_def)

lemma buffer_room: "4 * ((n + 2) div 3) < buffer_size n \<longleftrightarrow> n \<notin> {1, 2, 4, 5, 7, 10, 13}"
proof (cases "n < 14")
  case True
  have "list_all (\<lambda>n. 4 * ((n + 2) div 3) < buffer_size n \<longleftrightarrow> n \<notin> {1, 2, 4, 5, 7, 10, 13}) [0..<14]"
    by code_simp
  with True show ?thesis by (simp add: list_all_iff)
next
  case False
  then have "n \<notin> {1, 2, 4, 5, 7, 10, 13}" by auto
  moreover have "4 * ((n + 2) div 3) < (n * 3 + 2) div 2" using False by linarith
  ultimately show ?thesis by (simp add: buffer_size_def)
qed

lemma replicate_1: "replicate 1 x = [x]"
  by (simp add: One_nat_def)

section \<open>Theorems\<close>

text \<open>C16: \<open>f_b64_ntop\<close> writes the RFC 4648 encoding and a terminating zero and answers its length,
  and touches nothing behind the zero, whenever the target has room for both.\<close>

theorem f_b64_ntop_encodes:
  assumes "targsize \<le> length target" and "4 * ((length src + 2) div 3) < targsize"
    and "targsize \<le> 2 ^ 31"
  shows "f_b64_ntop src (length src) target targsize =
    Ok (int (4 * ((length src + 2) div 3)), b64 src @ 0 # drop (4 * ((length src + 2) div 3) + 1) target)"
  using f_b64_ntop_fits [OF assms(1), of src] assms(2,3) unfolding length_b64 by simp

theorem f_b64_ntop_encodes_witness:
  "f_b64_ntop [77, 97, 110, 33] 4 (replicate 10 7) 9 = Ok (8, b64 [77, 97, 110, 33] @ [0, 7])
   \<and> b64 [77, 97, 110, 33] = map of_char ''TWFuIQ==''"
  using f_b64_ntop_encodes [of 9 "replicate 10 7" "[77, 97, 110, 33]"]
  by (simp add: Base64_eq sextet_def group24_def Pad64_def One_nat_def [symmetric]
      replicate_1)

text \<open>With a target that is too small \<open>f_b64_ntop\<close> answers \<open>-1\<close> and has not written at or
  behind the size it was given.\<close>

theorem f_b64_ntop_refuses:
  assumes "targsize \<le> length target" and "targsize \<le> 4 * ((length src + 2) div 3)"
  shows "\<exists>t. f_b64_ntop src (length src) target targsize = Ok (-1, t)
    \<and> length t = length target \<and> drop targsize t = drop targsize target"
  using f_b64_ntop_full [OF assms(1), of src] assms(2) unfolding length_b64 .

theorem f_b64_ntop_refuses_witness:
  "\<exists>t. f_b64_ntop [1, 2, 3] 3 [9, 9, 9, 9, 9] 4 = Ok (-1, t) \<and> length t = 5 \<and> drop 4 t = [9]"
  using f_b64_ntop_refuses [of 4 "[9, 9, 9, 9, 9]" "[1, 2, 3]"]
  by (simp add: One_nat_def [symmetric])

text \<open>C17: \<open>f_b64_pton\<close> gives back the data of any encoding that \<open>f_b64_ntop\<close> produces, in a target
  that holds the data and, for a padded encoding, one byte more.\<close>

theorem f_b64_pton_decodes:
  assumes "targsize \<le> length target" and "targsize < 2 ^ 31"
    and "if 3 dvd length src then length src \<le> targsize else length src < targsize"
  shows "\<exists>rest. f_b64_pton (b64 src @ [0]) (Some target) targsize =
    Ok (int (length src), Some (src @ rest))"
proof -
  have "length src < 2 ^ 31" using assms(2,3) by (auto split: if_splits)
  then show ?thesis
    using pton_b64 [of targsize "[]" target src] assms
    by (simp add: f_b64_pton_def roomy_def to_int_less)
qed

theorem f_b64_pton_decodes_witness:
  "\<exists>rest. f_b64_pton (b64 [200, 7] @ [0]) (Some [1, 1, 1, 1]) 3 = Ok (2, Some ([200, 7] @ rest))"
  using f_b64_pton_decodes [of 3 "[1, 1, 1, 1]" "[200, 7]"] by (simp add: One_nat_def [symmetric] del: b64.simps)

text \<open>C25: on any zero-terminated string \<open>f_b64_pton\<close> returns, never writes at or behind
  \<open>targsize\<close>, never reads or writes outside its objects, and answers \<open>-1\<close> or at most
  \<open>targsize\<close>.\<close>

theorem f_b64_pton_in_bounds:
  assumes "0 \<in> set src" and "targsize \<le> length target" and "targsize < 2 ^ 31"
  shows "\<exists>n t. f_b64_pton src (Some target) targsize = Ok (n, Some t) \<and> length t = length target
    \<and> drop targsize t = drop targsize target \<and> - 1 \<le> n \<and> n \<le> int targsize"
  by (rule pton_safe [OF assms])

theorem f_b64_pton_in_bounds_witness:
  "\<exists>n t. f_b64_pton [81, 0] (Some [5, 5]) 1 = Ok (n, Some t) \<and> length t = 2 \<and> drop 1 t = [5]
    \<and> - 1 \<le> n \<and> n \<le> 1"
  using f_b64_pton_in_bounds [of "[81, 0]" 1 "[5, 5]"] by (simp add: One_nat_def [symmetric])

text \<open>White space anywhere in the input changes nothing.\<close>

theorem f_b64_pton_white_space:
  assumes "0 \<in> set src" and "targsize \<le> length target" and "targsize < 2 ^ 32"
  shows "f_b64_pton src (Some target) targsize =
    f_b64_pton (filter (\<lambda>c. \<not> isspace c) src) (Some target) targsize"
  using pton_squeeze [OF assms(1) _ assms(3), of "Some target"] assms(2) by (simp add: pton_inv_def)

theorem f_b64_pton_white_space_witness:
  "f_b64_pton [84, 32, 87, 70, 10, 117, 0] (Some [1, 1, 1]) 3 = f_b64_pton [84, 87, 70, 117, 0] (Some [1, 1, 1]) 3"
  using f_b64_pton_white_space [of "[84, 32, 87, 70, 10, 117, 0]" 3 "[1, 1, 1]"]
  by (simp add: isspace_def)

text \<open>C26: the buffer that \<open>base64EncodedStringFromData\<close> takes is too small for data of 1, 2, 4, 5, 7,
  10 and 13 bytes, where the answer is nil; for every other length it is the encoding.\<close>

theorem base64EncodedStringFromData_nil:
  assumes "\<And>n. length (malloc n) = n" and "length data \<le> 2 ^ 30"
  shows "base64EncodedStringFromData malloc data =
    Ok (if length data \<in> {1, 2, 4, 5, 7, 10, 13} then None else Some (b64 data))"
proof -
  let ?n = "length data"
  note room = buffer_room [of ?n]
  have small: "buffer_size ?n \<le> 2 ^ 31" using assms(2) by (simp add: buffer_size_def)
  show ?thesis
  proof (cases "4 * ((?n + 2) div 3) < buffer_size ?n")
    case True
    then have l: "length (b64 data) < buffer_size ?n" unfolding length_b64 .
    with small have "length (b64 data) < 2 ^ 31" by linarith
    with f_b64_ntop_fits [of "buffer_size ?n" "malloc (buffer_size ?n)" data] l True room assms(1)
    show ?thesis by (simp add: base64EncodedStringFromData_def)
  next
    case False
    with f_b64_ntop_full [of "buffer_size ?n" "malloc (buffer_size ?n)" data] room assms(1)
    show ?thesis unfolding length_b64 by (auto simp: base64EncodedStringFromData_def)
  qed
qed

theorem base64EncodedStringFromData_nil_witness:
  "base64EncodedStringFromData (\<lambda>n. replicate n 0) [104] = Ok None
   \<and> base64EncodedStringFromData (\<lambda>n. replicate n 0) [104, 105, 33] = Ok (Some (b64 [104, 105, 33]))"
  using base64EncodedStringFromData_nil [of "\<lambda>n. replicate n 0" "[104]"]
    base64EncodedStringFromData_nil [of "\<lambda>n. replicate n 0" "[104, 105, 33]"]
  by (simp add: One_nat_def [symmetric])

end
