(* ===== verification/Ldb_Coding.thy ===== *)
theory Ldb_Coding
  imports Byte_Format
begin

text \<open>
  The integer and string encodings of leveldb (\<open>util/coding.h\<close>, \<open>util/coding.cc\<close>).  A pointer into a
  buffer with its \<open>limit\<close>, and a \<open>Slice\<close>, are the bytes from the pointer on; a writer that fills a
  buffer gives the bytes it stores, and \<open>None\<close> is the null pointer or \<open>false\<close>.  The locale
  \<open>slice_codec\<close> is the contract between a \<open>Put\<close> and a \<open>Get\<close> function.
\<close>

declare One_nat_def [simp del]

section \<open>The code\<close>

text \<open>\<open>port::kLittleEndian\<close> on the machines the program is built for; \<open>memcpy\<close> of an integer is then
  its little-endian bytes.\<close>

definition kLittleEndian :: bool where "kLittleEndian = True"

definition DecodeFixed32 :: "byte list \<Rightarrow> uint32" where
  "DecodeFixed32 ptr =
     (if kLittleEndian then word_of_nat (nat_of_le (take 4 ptr))
      else ucast (ptr ! 0) OR push_bit 8 (ucast (ptr ! 1)) OR push_bit 16 (ucast (ptr ! 2))
           OR push_bit 24 (ucast (ptr ! 3)))"

definition DecodeFixed64 :: "byte list \<Rightarrow> uint64" where
  "DecodeFixed64 ptr =
     (if kLittleEndian then word_of_nat (nat_of_le (take 8 ptr))
      else push_bit 32 (ucast (DecodeFixed32 (drop 4 ptr))) OR ucast (DecodeFixed32 ptr))"

definition EncodeFixed32 :: "uint32 \<Rightarrow> byte list" where
  "EncodeFixed32 value =
     (if kLittleEndian then le_of_nat 4 (unat value)
      else [ucast (value AND 0xff), ucast (drop_bit 8 value AND 0xff),
            ucast (drop_bit 16 value AND 0xff), ucast (drop_bit 24 value AND 0xff)])"

definition EncodeFixed64 :: "uint64 \<Rightarrow> byte list" where
  "EncodeFixed64 value =
     (if kLittleEndian then le_of_nat 8 (unat value)
      else [ucast (value AND 0xff), ucast (drop_bit 8 value AND 0xff),
            ucast (drop_bit 16 value AND 0xff), ucast (drop_bit 24 value AND 0xff),
            ucast (drop_bit 32 value AND 0xff), ucast (drop_bit 40 value AND 0xff),
            ucast (drop_bit 48 value AND 0xff), ucast (drop_bit 56 value AND 0xff)])"

definition PutFixed32 :: "byte list \<Rightarrow> uint32 \<Rightarrow> byte list" where
  "PutFixed32 dst value = dst @ EncodeFixed32 value"

definition PutFixed64 :: "byte list \<Rightarrow> uint64 \<Rightarrow> byte list" where
  "PutFixed64 dst value = dst @ EncodeFixed64 value"

definition EncodeVarint32 :: "uint32 \<Rightarrow> byte list" where
  "EncodeVarint32 v =
     (if v < push_bit 7 1 then [ucast v]
      else if v < push_bit 14 1 then [ucast (v OR 128), ucast (drop_bit 7 v)]
      else if v < push_bit 21 1
      then [ucast (v OR 128), ucast (drop_bit 7 v OR 128), ucast (drop_bit 14 v)]
      else if v < push_bit 28 1
      then [ucast (v OR 128), ucast (drop_bit 7 v OR 128), ucast (drop_bit 14 v OR 128),
            ucast (drop_bit 21 v)]
      else [ucast (v OR 128), ucast (drop_bit 7 v OR 128), ucast (drop_bit 14 v OR 128),
            ucast (drop_bit 21 v OR 128), ucast (drop_bit 28 v)])"

definition PutVarint32 :: "byte list \<Rightarrow> uint32 \<Rightarrow> byte list" where
  "PutVarint32 dst v = dst @ EncodeVarint32 v"

lemma drop_bit_7_decreases: "128 \<le> v \<Longrightarrow> unat (drop_bit 7 v) < unat (v :: uint64)"
proof -
  assume "128 \<le> v"
  then have "v \<noteq> 0" by auto
  then have "0 < unat v" by (simp add: unat_gt_0)
  then show ?thesis by (simp add: drop_bit_eq_div unat_div div_less_dividend)
qed

function EncodeVarint64 :: "uint64 \<Rightarrow> byte list" where
  "EncodeVarint64 v =
     (if 128 \<le> v then ucast (v OR 128) # EncodeVarint64 (drop_bit 7 v) else [ucast v])"
  by auto
termination by (relation "measure unat") (simp_all add: drop_bit_7_decreases)

definition PutVarint64 :: "byte list \<Rightarrow> uint64 \<Rightarrow> byte list" where
  "PutVarint64 dst v = dst @ EncodeVarint64 v"

definition PutLengthPrefixedSlice :: "byte list \<Rightarrow> byte list \<Rightarrow> byte list" where
  "PutLengthPrefixedSlice dst value = PutVarint32 dst (word_of_nat (length value)) @ value"

function VarintLength_loop :: "uint64 \<Rightarrow> nat \<Rightarrow> nat" where
  "VarintLength_loop v len = (if 128 \<le> v then VarintLength_loop (drop_bit 7 v) (len + 1) else len)"
  by auto
termination by (relation "measure (unat \<circ> fst)") (simp_all add: drop_bit_7_decreases)

definition VarintLength :: "uint64 \<Rightarrow> nat" where
  "VarintLength v = VarintLength_loop v 1"

function varint32_shift_loop :: "nat \<Rightarrow> uint32 \<Rightarrow> byte list \<Rightarrow> (uint32 \<times> byte list) option" where
  "varint32_shift_loop shift result p =
     (if shift \<le> 28 \<and> p \<noteq> []
      then let byte = ucast (hd p); p = tl p in
           if byte AND 128 \<noteq> 0
           then varint32_shift_loop (shift + 7) (result OR push_bit shift (byte AND 127)) p
           else Some (result OR push_bit shift byte, p)
      else None)"
  by auto
termination by (relation "measure (\<lambda>(shift, _). 35 - shift)") auto

definition GetVarint32PtrFallback :: "byte list \<Rightarrow> (uint32 \<times> byte list) option" where
  "GetVarint32PtrFallback p = varint32_shift_loop 0 0 p"

definition GetVarint32Ptr :: "byte list \<Rightarrow> (uint32 \<times> byte list) option" where
  "GetVarint32Ptr p =
     (if p \<noteq> [] \<and> (ucast (hd p) :: uint32) AND 128 = 0 then Some (ucast (hd p), tl p)
      else GetVarint32PtrFallback p)"

definition GetVarint32 :: "byte list \<Rightarrow> (uint32 \<times> byte list) option" where
  "GetVarint32 input = (case GetVarint32Ptr input of None \<Rightarrow> None | Some (v, q) \<Rightarrow> Some (v, q))"

function varint64_shift_loop :: "nat \<Rightarrow> uint64 \<Rightarrow> byte list \<Rightarrow> (uint64 \<times> byte list) option" where
  "varint64_shift_loop shift result p =
     (if shift \<le> 63 \<and> p \<noteq> []
      then let byte = ucast (hd p); p = tl p in
           if byte AND 128 \<noteq> 0
           then varint64_shift_loop (shift + 7) (result OR push_bit shift (byte AND 127)) p
           else Some (result OR push_bit shift byte, p)
      else None)"
  by auto
termination by (relation "measure (\<lambda>(shift, _). 70 - shift)") auto

definition GetVarint64Ptr :: "byte list \<Rightarrow> (uint64 \<times> byte list) option" where
  "GetVarint64Ptr p = varint64_shift_loop 0 0 p"

definition GetVarint64 :: "byte list \<Rightarrow> (uint64 \<times> byte list) option" where
  "GetVarint64 input = (case GetVarint64Ptr input of None \<Rightarrow> None | Some (v, q) \<Rightarrow> Some (v, q))"

text \<open>The two overloads: on a pointer and its limit, and on a slice that is advanced.\<close>

definition GetLengthPrefixedSlicePtr :: "byte list \<Rightarrow> (byte list \<times> byte list) option" where
  "GetLengthPrefixedSlicePtr p =
     (case GetVarint32Ptr p of None \<Rightarrow> None
      | Some (len, p) \<Rightarrow> if length p < unat len then None
                         else Some (take (unat len) p, drop (unat len) p))"

definition GetLengthPrefixedSlice :: "byte list \<Rightarrow> (byte list \<times> byte list) option" where
  "GetLengthPrefixedSlice input =
     (case GetVarint32 input of None \<Rightarrow> None
      | Some (len, input) \<Rightarrow> if unat len \<le> length input
                             then Some (take (unat len) input, drop (unat len) input) else None)"

declare EncodeVarint64.simps [simp del] VarintLength_loop.simps [simp del]
  varint32_shift_loop.simps [simp del] varint64_shift_loop.simps [simp del]

section \<open>Writers\<close>

lemma fixed_bytes [simp]:
  "EncodeFixed32 v = le_of_nat 4 (unat v)" "EncodeFixed64 w = le_of_nat 8 (unat w)"
  by (simp_all add: EncodeFixed32_def EncodeFixed64_def kLittleEndian_def)

lemma ucast_or_128:
  fixes v :: "'a::len word"
  assumes "8 \<le> LENGTH('a)"
  shows "(ucast (v OR 128) :: byte) = word_of_nat (unat v mod 128 + 128)"
proof -
  have e: "(128 :: 'a word) = 2 ^ 7" "(128 :: byte) = 2 ^ 7" by simp_all
  have b: "bit (ucast (v OR 2 ^ 7) :: byte) n \<longleftrightarrow> bit (ucast v OR 2 ^ 7 :: byte) n" if "n < 8" for n
    using assms that by (auto simp only: bit_or_iff bit_unsigned_iff bit_exp_iff len_num1 len_bit0 possible_bit_word)
  have "(ucast (v OR 128) :: byte) = ucast v OR 128"
    unfolding e by (rule bit_word_eqI) (use b in simp)
  also have "\<dots> = (ucast v AND 0x7F) OR 0x80"
    by (rule bit_word_eqI) (auto simp only: bit_or_iff bit_and_iff and_127 bit_take_bit_iff e(2) bit_exp_iff; simp)
  also have "\<dots> = (ucast v AND 0x7F) + 0x80" by (rule or_128)
  also have "(ucast v AND 0x7F :: byte) = word_of_nat (unat v mod 128)"
    by (simp add: word_unat_eq_iff unat_and_127 unsigned_ucast_eq take_bit_eq_mod mod_mod_cancel)
  finally show ?thesis by simp
qed

lemma unat_drop_bit: "unat (drop_bit k (v :: 'a::len word)) = unat v div 2 ^ k"
  by (simp add: unsigned_drop_bit_eq drop_bit_eq_div [symmetric] take_bit_nat_eq_self unsigned_less)

lemma EncodeVarint64_varint: "EncodeVarint64 v = varint (unat v)"
proof (induction v rule: EncodeVarint64.induct)
  case (1 v)
  have u: "128 \<le> v \<longleftrightarrow> 128 \<le> unat v" by (simp add: word_le_nat_alt)
  show ?case
  proof (cases "128 \<le> v")
    case True
    with 1 u show ?thesis
      by (simp add: EncodeVarint64.simps [of v] varint.simps [of "unat v"] ucast_or_128 unat_drop_bit)
  next
    case False
    with u show ?thesis
      by (simp add: EncodeVarint64.simps [of v] varint.simps [of "unat v"])
  qed
qed

lemma less_push_bit_1:
  "v < push_bit 7 1 \<longleftrightarrow> unat v < 128" "v < push_bit 14 1 \<longleftrightarrow> unat v < 16384"
  "v < push_bit 21 1 \<longleftrightarrow> unat v < 2097152" "v < push_bit 28 1 \<longleftrightarrow> unat v < 268435456" for v :: uint32
  by (simp_all add: word_less_nat_alt)

lemma EncodeVarint32_varint: "EncodeVarint32 v = varint (unat v)"
proof -
  let ?u = "unat v"
  have w: "ucast v = (word_of_nat ?u :: byte)" "ucast (drop_bit k v) = (word_of_nat (?u div 2 ^ k) :: byte)" for k
    by (simp_all flip: unat_drop_bit)
  have c: "ucast (v OR 128) = (word_of_nat (?u mod 128 + 128) :: byte)"
    "ucast (drop_bit k v OR 128) = (word_of_nat (?u div 2 ^ k mod 128 + 128) :: byte)" for k
    by (simp_all add: ucast_or_128 unat_drop_bit)
  have d: "?u div 128 div 128 = ?u div 16384" "?u div 16384 div 128 = ?u div 2097152"
    "?u div 2097152 div 128 = ?u div 268435456"
    by (simp_all add: div_mult2_eq [symmetric])
  have le: "?u div 128 < 128 \<longleftrightarrow> ?u < 16384" "?u div 16384 < 128 \<longleftrightarrow> ?u < 2097152"
    "?u div 2097152 < 128 \<longleftrightarrow> ?u < 268435456" "?u div 268435456 < 128"
    using unsigned_less [where ?'a = nat, of v] by (simp_all add: div_less_iff_less_mult)
  show ?thesis
    by (simp only: EncodeVarint32_def less_push_bit_1 w c varint.simps [of ?u] varint.simps [of "?u div 128"]
        varint.simps [of "?u div 16384"] varint.simps [of "?u div 2097152"]
        varint.simps [of "?u div 268435456"] d le) (simp add: le)
qed

lemma VarintLength_loop_varint: "VarintLength_loop v n = n + length (varint (unat v)) - 1"
proof (induction v n rule: VarintLength_loop.induct)
  case (1 v n)
  have u: "128 \<le> v \<longleftrightarrow> 128 \<le> unat v" by (simp add: word_le_nat_alt)
  show ?case
  proof (cases "128 \<le> v")
    case True
    with 1 u show ?thesis
      by (simp add: VarintLength_loop.simps [of v] varint.simps [of "unat v"] unat_drop_bit)
  next
    case False
    with u show ?thesis by (simp add: VarintLength_loop.simps [of v] varint.simps [of "unat v"])
  qed
qed

lemma VarintLength_varint: "VarintLength v = length (varint (unat v))"
  by (simp add: VarintLength_def VarintLength_loop_varint)

section \<open>Readers\<close>

lemma and_128_ucast: "8 \<le> LENGTH('a) \<Longrightarrow> (ucast b :: 'a::len word) AND 128 = 0 \<longleftrightarrow> unat (b :: byte) < 128"
proof -
  assume l: "8 \<le> LENGTH('a)"
  have "(ucast b :: 'a word) AND 2 ^ 7 = 0 \<longleftrightarrow> \<not> bit (ucast b :: 'a word) 7"
    by (rule and_exp_eq_0_iff_not_bit)
  also have "bit (ucast b :: 'a word) 7 \<longleftrightarrow> bit b 7" using l by (simp add: bit_unsigned_iff)
  also have "\<not> bit b 7 \<longleftrightarrow> b AND 0x80 = 0" using and_exp_eq_0_iff_not_bit [of b 7] by simp
  finally show ?thesis by (simp add: and_128)
qed

lemma ucast_byte_127: "8 \<le> LENGTH('a) \<Longrightarrow> (ucast b :: 'a::len word) AND 127 = word_of_nat (unat (b :: byte) mod 128)"
proof -
  assume "8 \<le> LENGTH('a)"
  then have "(ucast b :: 'a word) AND 0x7F = ucast (b AND 0x7F)"
    by (intro bit_word_eqI) (auto simp: and_127 bit_simps)
  then show ?thesis by (simp only: ucast_and_127)
qed

lemma shift_loop_bytes:
  "varint_bytes bs \<Longrightarrow> p + 7 * length bs \<le> 70 \<Longrightarrow>
   varint64_shift_loop p r (bs @ rest) = Some (r OR push_bit p (word_of_nat (varint_value bs)), rest)"
  "varint_bytes bs \<Longrightarrow> p + 7 * length bs \<le> 35 \<Longrightarrow>
   varint32_shift_loop p r' (bs @ rest) = Some (r' OR push_bit p (word_of_nat (varint_value bs)), rest)"
proof (induction bs arbitrary: p r r')
  case (Cons b bs)
  case 1
  show ?case
  proof (cases "bs = []")
    case True
    with 1 show ?thesis by (simp add: varint64_shift_loop.simps [of p] Let_def and_128_ucast)
  next
    case False
    with 1 have t: "128 \<le> unat b" "varint_bytes bs" by (simp_all add: varint_bytes_Cons)
    with 1 Cons.IH(1) [of "p + 7"] show ?thesis
      by (simp add: varint64_shift_loop.simps [of p] Let_def and_128_ucast ucast_byte_127
          or_push_bit_varint del: of_nat_add)
  qed
next
  case (Cons b bs)
  case 2
  show ?case
  proof (cases "bs = []")
    case True
    with 2 show ?thesis by (simp add: varint32_shift_loop.simps [of p] Let_def and_128_ucast)
  next
    case False
    with 2 have t: "128 \<le> unat b" "varint_bytes bs" by (simp_all add: varint_bytes_Cons)
    with 2 Cons.IH(2) [of "p + 7"] show ?thesis
      by (simp add: varint32_shift_loop.simps [of p] Let_def and_128_ucast ucast_byte_127
          or_push_bit_varint del: of_nat_add)
  qed
qed simp_all

lemma shift_loop_SomeD:
  "varint64_shift_loop p r q = Some (v, rest) \<Longrightarrow>
     \<exists>bs. q = bs @ rest \<and> varint_bytes bs \<and> p + 7 * length bs \<le> 70"
  "varint32_shift_loop p r' q = Some (v', rest) \<Longrightarrow>
     \<exists>bs. q = bs @ rest \<and> varint_bytes bs \<and> p + 7 * length bs \<le> 35"
proof (induction q arbitrary: p r r')
  case (Cons b q)
  case 1
  show ?case
  proof (cases "unat b < 128")
    case True
    with 1 have "q = rest" "p \<le> 63"
      by (auto simp: varint64_shift_loop.simps [of p] Let_def and_128_ucast split: if_splits)
    with True show ?thesis by (intro exI [of _ "[b]"]) simp
  next
    case False
    with 1 have "\<exists>r. varint64_shift_loop (p + 7) r q = Some (v, rest)" "p \<le> 63"
      by (auto simp: varint64_shift_loop.simps [of p] Let_def and_128_ucast split: if_splits)
    with Cons.IH(1) obtain bs where "q = bs @ rest" "varint_bytes bs" "p + 7 + 7 * length bs \<le> 70"
      by blast
    with False show ?thesis by (intro exI [of _ "b # bs"]) (auto simp: varint_bytes_Cons)
  qed
next
  case (Cons b q)
  case 2
  show ?case
  proof (cases "unat b < 128")
    case True
    with 2 have "q = rest" "p \<le> 28"
      by (auto simp: varint32_shift_loop.simps [of p] Let_def and_128_ucast split: if_splits)
    with True show ?thesis by (intro exI [of _ "[b]"]) simp
  next
    case False
    with 2 have "\<exists>r. varint32_shift_loop (p + 7) r q = Some (v', rest)" "p \<le> 28"
      by (auto simp: varint32_shift_loop.simps [of p] Let_def and_128_ucast split: if_splits)
    with Cons.IH(2) obtain bs where "q = bs @ rest" "varint_bytes bs" "p + 7 + 7 * length bs \<le> 35"
      by blast
    with False show ?thesis by (intro exI [of _ "b # bs"]) (auto simp: varint_bytes_Cons)
  qed
qed (simp_all add: varint64_shift_loop.simps [of _ _ "[]"] varint32_shift_loop.simps [of _ _ "[]"])

lemma GetVarint32_fallback: "GetVarint32 q = varint32_shift_loop 0 0 q"
  by (cases q) (auto simp: GetVarint32_def GetVarint32Ptr_def GetVarint32PtrFallback_def Let_def
      varint32_shift_loop.simps [of 0] split: option.split)

lemma GetVarint32_eq: "GetVarint32 = GetVarint32Ptr"
  by (rule ext) (auto simp: GetVarint32_def split: option.split)

lemma GetVarint64_eq: "GetVarint64 = GetVarint64Ptr"
  by (rule ext) (auto simp: GetVarint64_def split: option.split)

lemma GetVarint32_iff:
  "GetVarint32 q = Some (v, rest) \<longleftrightarrow>
     (\<exists>bs. q = bs @ rest \<and> varint_bytes bs \<and> length bs \<le> 5 \<and> v = word_of_nat (varint_value bs))"
  unfolding GetVarint32_fallback
  using shift_loop_SomeD(2) [of 0 0 q v rest] shift_loop_bytes(2) [of _ 0 0 rest] by fastforce

lemma GetVarint64_iff:
  "GetVarint64 q = Some (v, rest) \<longleftrightarrow>
     (\<exists>bs. q = bs @ rest \<and> varint_bytes bs \<and> length bs \<le> 10 \<and> v = word_of_nat (varint_value bs))"
  unfolding GetVarint64_eq GetVarint64Ptr_def
  using shift_loop_SomeD(1) [of 0 0 q v rest] shift_loop_bytes(1) [of _ 0 0 rest] by fastforce

lemma GetLengthPrefixedSlice_overloads: "GetLengthPrefixedSlicePtr = GetLengthPrefixedSlice"
  by (rule ext) (auto simp: GetLengthPrefixedSlicePtr_def GetLengthPrefixedSlice_def GetVarint32_eq
      split: option.split)

section \<open>Codecs\<close>

text \<open>What a reader promises of a writer: behind whatever was written the input goes on unread.\<close>

locale slice_codec =
  fixes enc :: "'a \<Rightarrow> byte list" and dec :: "byte list \<Rightarrow> ('a \<times> byte list) option"
    and valid :: "'a \<Rightarrow> bool"
  assumes dec_enc: "valid a \<Longrightarrow> dec (enc a @ rest) = Some (a, rest)"
begin

lemma enc_inject: "valid a \<Longrightarrow> valid b \<Longrightarrow> enc a @ xs = enc b @ ys \<Longrightarrow> a = b \<and> xs = ys"
  by (metis dec_enc option.inject prod.inject)

lemma concat_inject:
  "list_all valid as \<Longrightarrow> list_all valid bs \<Longrightarrow> length as = length bs \<Longrightarrow>
   concat (map enc as) @ xs = concat (map enc bs) @ ys \<Longrightarrow> as = bs \<and> xs = ys"
proof (induction as arbitrary: bs)
  case (Cons a as)
  then obtain b bs' where bs: "bs = b # bs'" by (cases bs) auto
  with Cons.prems have "enc a @ concat (map enc as) @ xs = enc b @ concat (map enc bs') @ ys" by simp
  from enc_inject [OF _ _ this] Cons.prems(1,2) bs
  have "a = b" "concat (map enc as) @ xs = concat (map enc bs') @ ys" by simp_all
  with Cons.IH [of bs'] Cons.prems bs show ?case by simp
qed simp

end

lemma GetVarint32_varint: "GetVarint32 (varint (unat v) @ rest) = Some (v, rest)"
  unfolding GetVarint32_iff using length_varint32 [of "unat v"] unsigned_less [where ?'a = nat, of v]
  by (intro exI [of _ "varint (unat v)"]) (simp add: varint_bytes_varint varint_value_varint)

lemma GetVarint64_varint: "GetVarint64 (varint (unat v) @ rest) = Some (v, rest)"
  unfolding GetVarint64_iff using length_varint64 [of v]
  by (intro exI [of _ "varint (unat v)"]) (simp add: varint_bytes_varint varint_value_varint)

lemma DecodeFixed32_le: "DecodeFixed32 (le_of_nat 4 (unat v) @ rest) = v"
  using unsigned_less [where ?'a = nat, of v]
  by (simp add: DecodeFixed32_def kLittleEndian_def nat_of_le_of_nat)

lemma DecodeFixed64_le: "DecodeFixed64 (le_of_nat 8 (unat v) @ rest) = v"
  using unsigned_less [where ?'a = nat, of v]
  by (simp add: DecodeFixed64_def kLittleEndian_def nat_of_le_of_nat)

interpretation fixed32_slice: slice_codec EncodeFixed32 "\<lambda>q. Some (DecodeFixed32 q, drop 4 q)" "\<lambda>v. True"
  by unfold_locales (simp add: DecodeFixed32_le)

interpretation fixed64_slice: slice_codec EncodeFixed64 "\<lambda>q. Some (DecodeFixed64 q, drop 8 q)" "\<lambda>v. True"
  by unfold_locales (simp add: DecodeFixed64_le)

interpretation varint32_slice: slice_codec EncodeVarint32 GetVarint32 "\<lambda>v. True"
  by unfold_locales (simp add: EncodeVarint32_varint GetVarint32_varint)

interpretation varint64_slice: slice_codec EncodeVarint64 GetVarint64 "\<lambda>v. True"
  by unfold_locales (simp add: EncodeVarint64_varint GetVarint64_varint)

lemma GetLengthPrefixedSlice_varint:
  "length a < 2 ^ 32 \<Longrightarrow> GetLengthPrefixedSlice (varint (length a) @ a @ rest) = Some (a, rest)"
  using GetVarint32_varint [of "word_of_nat (length a)" "a @ rest"]
  by (simp add: GetLengthPrefixedSlice_def unat_of_nat)

interpretation prefixed_slice: slice_codec "PutLengthPrefixedSlice []" GetLengthPrefixedSlice
  "\<lambda>s. length s < 2 ^ 32"
  by unfold_locales (simp add: PutLengthPrefixedSlice_def PutVarint32_def EncodeVarint32_varint
      GetLengthPrefixedSlice_varint unat_of_nat)

section \<open>The properties\<close>

text \<open>What the \<open>Put\<close> functions append, the \<open>Get\<close> functions read back in front of anything;
  \<open>VarintLength\<close> is the length of the encoding, and the local buffers of 5 and 10 bytes hold it.\<close>

theorem coding_roundtrips:
  "GetVarint32 (PutVarint32 [] v @ rest) = Some (v, rest)
   \<and> GetVarint64 (PutVarint64 [] w @ rest) = Some (w, rest)
   \<and> DecodeFixed32 (PutFixed32 [] v @ rest) = v \<and> DecodeFixed64 (PutFixed64 [] w @ rest) = w
   \<and> VarintLength w = length (EncodeVarint64 w)
   \<and> length (EncodeVarint32 v) \<le> 5 \<and> length (EncodeVarint64 w) \<le> 10"
  using varint32_slice.dec_enc [of v rest] varint64_slice.dec_enc [of w rest] length_varint64 [of w]
    length_varint32 [of "unat v"] unsigned_less [where ?'a = nat, of v]
  by (simp add: PutVarint32_def PutVarint64_def PutFixed32_def PutFixed64_def DecodeFixed32_le DecodeFixed64_le
      VarintLength_varint EncodeVarint64_varint EncodeVarint32_varint)

text \<open>\<open>GetVarint32\<close> and \<open>GetVarint64\<close> accept exactly the inputs that start with a varint of at most
  five and ten bytes, canonical or not, and the value is taken modulo \<open>2 ^ 32\<close> and \<open>2 ^ 64\<close>: bits that
  do not fit are dropped, not reported.\<close>

theorem varint_acceptance:
  "(GetVarint32 q = Some (v, rest) \<longleftrightarrow>
      (\<exists>bs. q = bs @ rest \<and> varint_bytes bs \<and> length bs \<le> 5 \<and> v = word_of_nat (varint_value bs)))
   \<and> (GetVarint64 q = Some (w, rest) \<longleftrightarrow>
      (\<exists>bs. q = bs @ rest \<and> varint_bytes bs \<and> length bs \<le> 10 \<and> w = word_of_nat (varint_value bs)))"
  by (simp add: GetVarint32_iff GetVarint64_iff)

text \<open>A sequence of strings, each prefixed by its length, is read back one by one, in both forms of
  the reader, and two sequences with the same bytes are the same.\<close>

theorem length_prefixed_slices:
  assumes "list_all (\<lambda>s. length s < 2 ^ 32) (s # ss)" and "list_all (\<lambda>s. length s < 2 ^ 32) ts"
    and "length (s # ss) = length ts"
  shows "GetLengthPrefixedSlice (concat (map (PutLengthPrefixedSlice []) (s # ss)) @ rest) =
      Some (s, concat (map (PutLengthPrefixedSlice []) ss) @ rest)
    \<and> GetLengthPrefixedSlicePtr (concat (map (PutLengthPrefixedSlice []) (s # ss)) @ rest) =
      Some (s, concat (map (PutLengthPrefixedSlice []) ss) @ rest)
    \<and> (concat (map (PutLengthPrefixedSlice []) (s # ss)) @ rest =
         concat (map (PutLengthPrefixedSlice []) ts) @ rest') = (s # ss = ts \<and> rest = rest')"
proof -
  have "concat (map (PutLengthPrefixedSlice []) (s # ss)) @ rest =
      concat (map (PutLengthPrefixedSlice []) ts) @ rest' \<longleftrightarrow> s # ss = ts \<and> rest = rest'"
    using prefixed_slice.concat_inject [OF assms] by blast
  then show ?thesis
    using prefixed_slice.dec_enc [of s "concat (map (PutLengthPrefixedSlice []) ss) @ rest"] assms(1)
    by (simp add: GetLengthPrefixedSlice_overloads)
qed

theorem length_prefixed_slices_witness:
  "GetLengthPrefixedSlice (concat (map (PutLengthPrefixedSlice []) [[1, 2], []]) @ [9]) =
      Some ([1, 2], concat (map (PutLengthPrefixedSlice []) [[]]) @ [9])
    \<and> GetLengthPrefixedSlicePtr (concat (map (PutLengthPrefixedSlice []) [[1, 2], []]) @ [9]) =
      Some ([1, 2], concat (map (PutLengthPrefixedSlice []) [[]]) @ [9])
    \<and> (concat (map (PutLengthPrefixedSlice []) [[1, 2], []]) @ [9] =
         concat (map (PutLengthPrefixedSlice []) [[3], [4]]) @ [])
      = ([[1, 2], []] = [[3], [4 :: byte]] \<and> [9 :: byte] = [])"
  by (rule length_prefixed_slices) simp_all

end
