(* ===== verification/Ldb_Logging.thy ===== *)
theory Ldb_Logging
  imports Ldb_Coding
begin

text \<open>
  Printing and parsing of numbers and escaped strings (\<open>util/logging.cc\<close>).  The parser of decimal
  numbers checks for overflow digit by digit; \<open>ConsumeDecimalNumber_digits\<close> says exactly which inputs
  it accepts.
\<close>

declare One_nat_def [simp del]

definition str :: "string \<Rightarrow> byte list" where
  "str s = map of_char s"

section \<open>The code\<close>

text \<open>What \<open>snprintf\<close> prints for \<open>%llu\<close>, \<open>%d\<close> of a character and \<open>%02x\<close> of a byte.\<close>

fun decimal :: "nat \<Rightarrow> byte list" where
  "decimal n = (if n < 10 then [48 + word_of_nat n] else decimal (n div 10) @ [48 + word_of_nat (n mod 10)])"

declare decimal.simps [simp del]

definition signed_decimal :: "byte \<Rightarrow> byte list" where
  "signed_decimal b = (if 128 \<le> unat b then str ''-'' @ decimal (256 - unat b) else decimal (unat b))"

definition hex_digit :: "nat \<Rightarrow> byte" where
  "hex_digit d = (if d < 10 then 48 + word_of_nat d else 87 + word_of_nat d)"

definition AppendNumberTo :: "byte list \<Rightarrow> uint64 \<Rightarrow> byte list" where
  "AppendNumberTo s num = s @ decimal (unat num)"

text \<open>\<open>char\<close> is signed: a byte from 128 on is below the blank.\<close>

definition escape_char :: "byte \<Rightarrow> byte list" where
  "escape_char c =
     (if 32 \<le> sint c \<and> sint c \<le> 126 then [c]
      else [92, 120] @ [hex_digit (unat c div 16), hex_digit (unat c mod 16)])"

definition AppendEscapedStringTo :: "byte list \<Rightarrow> byte list \<Rightarrow> byte list" where
  "AppendEscapedStringTo s value = fold (\<lambda>c s. s @ escape_char c) value s"

definition NumberToString :: "uint64 \<Rightarrow> byte list" where
  "NumberToString num = AppendNumberTo [] num"

definition EscapeString :: "byte list \<Rightarrow> byte list" where
  "EscapeString value = AppendEscapedStringTo [] value"

definition kMaxUint64 :: uint64 where "kMaxUint64 = - 1"

definition kLastDigitOfMaxUint64 :: byte where
  "kLastDigitOfMaxUint64 = 48 + ucast (kMaxUint64 mod 10)"

text \<open>The loop: \<open>None\<close> is the overflow, otherwise the value and where the digits end.\<close>

fun decimal_loop :: "uint64 \<Rightarrow> byte list \<Rightarrow> (uint64 \<times> byte list) option" where
  "decimal_loop value [] = Some (value, [])"
| "decimal_loop value (ch # cs) =
     (if ch < 48 \<or> 57 < ch then Some (value, ch # cs)
      else if kMaxUint64 div 10 < value \<or> value = kMaxUint64 div 10 \<and> kLastDigitOfMaxUint64 < ch
      then None
      else decimal_loop (value * 10 + ucast (ch - 48)) cs)"

text \<open>The result with \<open>*val\<close> and \<open>*in\<close> after the call; they are not written when a number overflows.\<close>

definition ConsumeDecimalNumber :: "byte list \<Rightarrow> uint64 \<Rightarrow> bool \<times> uint64 \<times> byte list" where
  "ConsumeDecimalNumber input val =
     (case decimal_loop 0 input of
        None \<Rightarrow> (False, val, input)
      | Some (value, rest) \<Rightarrow> (length input - length rest \<noteq> 0, value, rest))"

section \<open>Digits\<close>

definition is_digit :: "byte \<Rightarrow> bool" where
  "is_digit ch \<longleftrightarrow> 48 \<le> unat ch \<and> unat ch \<le> 57"

definition digits_value :: "nat \<Rightarrow> byte list \<Rightarrow> nat" where
  "digits_value n ds = foldl (\<lambda>v ch. 10 * v + (unat ch - 48)) n ds"

lemma length_str [simp]: "length (str s) = length s"
  by (simp add: str_def)

lemma digits_value_simps [simp]:
  "digits_value n [] = n" "digits_value n (d # ds) = digits_value (10 * n + (unat d - 48)) ds"
  "digits_value n (ds @ [d]) = 10 * digits_value n ds + (unat d - 48)"
  by (simp_all add: digits_value_def)

lemma digits_value_ge: "n \<le> digits_value n ds"
proof (induction ds arbitrary: n)
  case (Cons d ds)
  then have "10 * n + (unat d - 48) \<le> digits_value n (d # ds)" by simp
  then show ?case by linarith
qed simp

lemma unat_digit: "d < 10 \<Longrightarrow> unat (48 + word_of_nat d :: byte) = 48 + d"
proof -
  assume d: "d < 10"
  have "48 + word_of_nat d = (word_of_nat (48 + d) :: byte)" by simp
  then show ?thesis using d by (simp only: unat_byte_of_nat) simp
qed

lemma decimal_digits: "list_all is_digit (decimal n) \<and> decimal n \<noteq> [] \<and> digits_value 0 (decimal n) = n"
proof (induction n rule: decimal.induct)
  case (1 n)
  show ?case
  proof (cases "n < 10")
    case True
    then show ?thesis by (simp add: decimal.simps [of n] unat_digit is_digit_def)
  next
    case False
    with 1 show ?thesis by (simp add: decimal.simps [of n] unat_digit is_digit_def)
  qed
qed

lemma last_limits: "kMaxUint64 div 10 = 1844674407370955161" "kLastDigitOfMaxUint64 = 53"
  by code_simp+

lemma decimal_loop_digits:
  "list_all is_digit ds \<Longrightarrow> (rest = [] \<or> \<not> is_digit (hd rest)) \<Longrightarrow>
   decimal_loop v (ds @ rest) =
     (if digits_value (unat v) ds < 2 ^ 64 then Some (word_of_nat (digits_value (unat v) ds), rest) else None)"
proof (induction ds arbitrary: v)
  case Nil
  then show ?case using unsigned_less [where ?'a = nat, of v]
    by (cases rest) (auto simp: is_digit_def word_less_nat_alt)
next
  case (Cons d ds)
  have d: "is_digit d" "\<not> (d < 48 \<or> 57 < d)" using Cons.prems(1) by (auto simp: is_digit_def word_less_nat_alt)
  let ?n = "10 * unat v + (unat d - 48)"
  have over: "(kMaxUint64 div 10 < v \<or> v = kMaxUint64 div 10 \<and> kLastDigitOfMaxUint64 < d) \<longleftrightarrow> 2 ^ 64 \<le> ?n"
    using d(1) unfolding last_limits is_digit_def by (simp add: word_less_nat_alt word_unat_eq_iff) linarith
  show ?case
  proof (cases "?n < 2 ^ 64")
    case True
    have "unat (d - 48) = unat d - 48" using d(1) by (simp add: is_digit_def unat_sub word_le_nat_alt)
    moreover have "ucast (d - 48) = (word_of_nat (unat (d - 48)) :: uint64)" by simp
    ultimately have "ucast (d - 48) = (word_of_nat (unat d - 48) :: uint64)" by (simp only:)
    then have "v * 10 + ucast (d - 48) = word_of_nat ?n" by simp
    then have "unat (v * 10 + ucast (d - 48)) = ?n" using True by (simp only: unat_of_nat) simp
    moreover have "decimal_loop v ((d # ds) @ rest) = decimal_loop (v * 10 + ucast (d - 48)) (ds @ rest)"
      using True over d(2) by (simp only: decimal_loop.simps append_Cons if_False) auto
    ultimately show ?thesis using Cons.IH [of "v * 10 + ucast (d - 48)"] Cons.prems
      by (simp only: digits_value_simps list.pred_inject)
  next
    case False
    then have "\<not> digits_value ?n ds < 2 ^ 64" using digits_value_ge [of ?n ds] by linarith
    with False over d show ?thesis by simp
  qed
qed

lemma ConsumeDecimalNumber_digits:
  "ConsumeDecimalNumber input val =
     (let ds = takeWhile is_digit input; v = digits_value 0 ds
      in if v < 2 ^ 64 then (ds \<noteq> [], word_of_nat v, dropWhile is_digit input) else (False, val, input))"
proof -
  let ?ds = "takeWhile is_digit input" and ?r = "dropWhile is_digit input"
  have a: "list_all is_digit ?ds" by (auto simp: list_all_iff dest: set_takeWhileD)
  have r: "?r = [] \<or> \<not> is_digit (hd ?r)" using hd_dropWhile [of is_digit input] by blast
  have l: "length input = length ?ds + length ?r"
    by (metis length_append takeWhile_dropWhile_id)
  show ?thesis
    using decimal_loop_digits [OF a r, of 0] l by (simp add: ConsumeDecimalNumber_def Let_def)
qed

lemma takeWhile_digits:
  "list_all is_digit ds \<Longrightarrow> rest = [] \<or> \<not> is_digit (hd rest) \<Longrightarrow>
   takeWhile is_digit (ds @ rest) = ds \<and> dropWhile is_digit (ds @ rest) = rest"
  by (cases rest) (auto simp: list_all_iff)

lemma ConsumeDecimalNumber_NumberToString:
  assumes "rest = [] \<or> \<not> is_digit (hd rest)"
  shows "ConsumeDecimalNumber (NumberToString n @ rest) val = (True, n, rest)"
  using takeWhile_digits [OF _ assms, of "decimal (unat n)"] decimal_digits [of "unat n"]
    unsigned_less [where ?'a = nat, of n]
  by (simp add: ConsumeDecimalNumber_digits NumberToString_def AppendNumberTo_def Let_def)

section \<open>The properties\<close>

text \<open>\<open>ConsumeDecimalNumber\<close> accepts exactly a non-empty run of digits whose value fits in 64 bits,
  and takes all of the run; it reads back what \<open>NumberToString\<close> prints.\<close>

theorem decimal_numbers:
  "ConsumeDecimalNumber input val =
     (let ds = takeWhile is_digit input; v = digits_value 0 ds
      in if v < 2 ^ 64 then (ds \<noteq> [], word_of_nat v, dropWhile is_digit input) else (False, val, input))
   \<and> ConsumeDecimalNumber (NumberToString n) val = (True, n, [])"
  using ConsumeDecimalNumber_digits [of input val] ConsumeDecimalNumber_NumberToString [of "[]" n val] by simp

end
