(* ===== verification/Ldb_Status.thy ===== *)
theory Ldb_Status
  imports Ldb_Logging
begin

text \<open>
  Results of leveldb operations: \<open>include/leveldb/status.h\<close> and \<open>util/status.cc\<close>.  A \<open>Status\<close> is its \<open>state_\<close>: the null pointer, or an array of the message's
  length in four bytes, the code, and the message.
\<close>

declare One_nat_def [simp del]

section \<open>The code\<close>

datatype Code = kOk | kNotFound | kCorruption | kNotSupported | kInvalidArgument | kIOError
  | is_Code_other: Code_other byte

definition code_byte :: "Code \<Rightarrow> byte" where
  "code_byte c = (case c of kOk \<Rightarrow> 0 | kNotFound \<Rightarrow> 1 | kCorruption \<Rightarrow> 2 | kNotSupported \<Rightarrow> 3
     | kInvalidArgument \<Rightarrow> 4 | kIOError \<Rightarrow> 5 | Code_other b \<Rightarrow> b)"

definition code_of_byte :: "byte \<Rightarrow> Code" where
  "code_of_byte b = (if b = 0 then kOk else if b = 1 then kNotFound else if b = 2 then kCorruption
     else if b = 3 then kNotSupported else if b = 4 then kInvalidArgument else if b = 5 then kIOError
     else Code_other b)"

type_synonym Status = "byte list option"

abbreviation (input) OK :: Status where "OK \<equiv> None"

text \<open>The constructor; the lengths are converted to \<open>uint32_t\<close> and added there.\<close>

definition Status_new :: "Code \<Rightarrow> byte list \<Rightarrow> byte list \<Rightarrow> Status" where
  "Status_new code msg msg2 =
     (let len1 = word_of_nat (length msg) :: uint32; len2 = word_of_nat (length msg2) :: uint32;
          size = len1 + (if len2 \<noteq> 0 then 2 + len2 else 0)
      in Some (le_of_nat 4 (unat size) @ [code_byte code] @ take (unat len1) msg
               @ (if len2 \<noteq> 0 then str '': '' @ take (unat len2) msg2 else [])))"

definition NotFound :: "byte list \<Rightarrow> byte list \<Rightarrow> Status" where "NotFound = Status_new kNotFound"
definition Corruption :: "byte list \<Rightarrow> byte list \<Rightarrow> Status" where "Corruption = Status_new kCorruption"
definition NotSupported :: "byte list \<Rightarrow> byte list \<Rightarrow> Status" where
  "NotSupported = Status_new kNotSupported"
definition InvalidArgument :: "byte list \<Rightarrow> byte list \<Rightarrow> Status" where
  "InvalidArgument = Status_new kInvalidArgument"
definition IOError :: "byte list \<Rightarrow> byte list \<Rightarrow> Status" where "IOError = Status_new kIOError"

definition ok :: "Status \<Rightarrow> bool" where
  "ok s \<longleftrightarrow> s = None"

definition status_code :: "Status \<Rightarrow> Code" where
  "status_code s = (case s of None \<Rightarrow> kOk | Some st \<Rightarrow> code_of_byte (st ! 4))"

definition IsNotFound :: "Status \<Rightarrow> bool" where "IsNotFound s \<longleftrightarrow> status_code s = kNotFound"
definition IsCorruption :: "Status \<Rightarrow> bool" where "IsCorruption s \<longleftrightarrow> status_code s = kCorruption"
definition IsIOError :: "Status \<Rightarrow> bool" where "IsIOError s \<longleftrightarrow> status_code s = kIOError"
definition IsNotSupportedError :: "Status \<Rightarrow> bool" where
  "IsNotSupportedError s \<longleftrightarrow> status_code s = kNotSupported"
definition IsInvalidArgument :: "Status \<Rightarrow> bool" where
  "IsInvalidArgument s \<longleftrightarrow> status_code s = kInvalidArgument"

definition CopyState :: "byte list \<Rightarrow> byte list" where
  "CopyState state = take (nat_of_le (take 4 state) + 5) state"

definition Status_copy :: "Status \<Rightarrow> Status" where
  "Status_copy rhs = map_option CopyState rhs"

definition code_prefix :: "Code \<Rightarrow> byte list" where
  "code_prefix c = (case c of kOk \<Rightarrow> str ''OK'' | kNotFound \<Rightarrow> str ''NotFound: ''
     | kCorruption \<Rightarrow> str ''Corruption: '' | kNotSupported \<Rightarrow> str ''Not implemented: ''
     | kInvalidArgument \<Rightarrow> str ''Invalid argument: '' | kIOError \<Rightarrow> str ''IO error: ''
     | Code_other b \<Rightarrow> str ''Unknown code('' @ signed_decimal b @ str ''): '')"

definition ToString :: "Status \<Rightarrow> byte list" where
  "ToString s = (case s of None \<Rightarrow> str ''OK''
     | Some st \<Rightarrow> code_prefix (code_of_byte (st ! 4))
                  @ take (nat_of_le (take 4 st)) (drop 5 st))"

section \<open>Lemmas\<close>

lemma ok_OK [simp]: "ok None" "\<not> ok (Some st)"
  by (simp_all add: ok_def)

lemma ok_iff: "ok s \<longleftrightarrow> s = OK"
  by (simp add: ok_def)

lemma errors_not_ok [simp]:
  "\<not> ok (NotFound m m')" "\<not> ok (Corruption m m')" "\<not> ok (NotSupported m m')"
  "\<not> ok (InvalidArgument m m')" "\<not> ok (IOError m m')"
  by (simp_all add: NotFound_def Corruption_def NotSupported_def InvalidArgument_def IOError_def
      Status_new_def Let_def)

lemma Status_new_state:
  assumes "length msg + length msg2 + 2 < 2 ^ 32"
  shows "Status_new c msg msg2 =
    (let m = msg @ (if msg2 = [] then [] else str '': '' @ msg2)
     in Some (le_of_nat 4 (length m) @ code_byte c # m))"
proof (cases "msg2 = []")
  case True
  then show ?thesis using assms by (simp add: Status_new_def Let_def unat_of_nat)
next
  case False
  have l: "unat (word_of_nat (length msg) :: uint32) = length msg"
    "unat (word_of_nat (length msg2) :: uint32) = length msg2"
    using assms by (simp_all add: unat_of_nat)
  have "(word_of_nat (length msg2) :: uint32) \<noteq> 0"
    using False l(2) by (metis length_0_conv unsigned_0)
  moreover have "unat (word_of_nat (length msg) + (2 + word_of_nat (length msg2)) :: uint32) =
      length msg + (2 + length msg2)"
  proof -
    have "word_of_nat (length msg) + (2 + word_of_nat (length msg2)) =
        (word_of_nat (length msg + (2 + length msg2)) :: uint32)" by simp
    then show ?thesis using assms by (simp only: unat_of_nat) simp
  qed
  ultimately show ?thesis using False l by (simp add: Status_new_def Let_def)
qed

lemma le_of_nat_nth4 [simp]: "(le_of_nat 4 n @ b # m) ! 4 = b"
  using nth_append_length [of "le_of_nat 4 n" b m] by simp

lemma code_of_byte_byte: "\<not> is_Code_other c \<Longrightarrow> code_of_byte (code_byte c) = c"
  by (cases c) (simp_all add: code_byte_def code_of_byte_def)

lemma ToString_new:
  assumes "length msg + length msg2 + 2 < 2 ^ 32" and "\<not> is_Code_other c"
  shows "ToString (Status_new c msg msg2) =
      code_prefix c @ msg @ (if msg2 = [] then [] else str '': '' @ msg2)
    \<and> status_code (Status_new c msg msg2) = c
    \<and> Status_copy (Status_new c msg msg2) = Status_new c msg msg2"
  using assms code_of_byte_byte [of c]
  by (auto simp: Status_new_state Let_def ToString_def status_code_def Status_copy_def CopyState_def
      nat_of_le_of_nat)

section \<open>The properties\<close>

text \<open>An error status keeps its code, is never OK, survives copying, and \<open>ToString\<close> prints the
  kind, the message and, when there is one, the second message behind a colon.\<close>

theorem status_roundtrip:
  assumes "length msg + length msg2 + 2 < 2 ^ 32" and "\<not> is_Code_other c"
  shows "let s = Status_new c msg msg2 in status_code s = c \<and> \<not> ok s \<and> Status_copy s = s
    \<and> ToString s = code_prefix c @ msg @ (if msg2 = [] then [] else str '': '' @ msg2)"
  using ToString_new [OF assms] by (simp add: Status_new_def Let_def)

theorem status_roundtrip_witness:
  "let s = Status_new kNotFound [1] [2] in status_code s = kNotFound \<and> \<not> ok s \<and> Status_copy s = s
    \<and> ToString s = code_prefix kNotFound @ [1] @ (if [2] = ([] :: byte list) then [] else str '': '' @ [2])"
  by (rule status_roundtrip) simp_all

end
