(* ===== verification/Ldb_Env.thy ===== *)
theory Ldb_Env
  imports Ldb_Status
begin

text \<open>
  The files of the POSIX environment (\<open>util/env_posix.cc\<close>).  The kernel is a parameter: a record of
  system calls over a state \<open>'k\<close>, each answering a result or an \<open>errno\<close>.  What the code relies on is
  \<open>os_writes\<close> and \<open>os_reads\<close>: a call that is interrupted can be repeated and is not interrupted for
  ever, \<open>write\<close> may write a part, \<open>read\<close> of a regular file gives all that is asked for or left.
  A loop that retries for ever is \<open>None\<close>.  The locales \<open>writable_file\<close> and \<open>sequential_file\<close> are the
  contracts of \<open>WritableFile\<close> and \<open>SequentialFile\<close> (\<open>include/leveldb/env.h\<close>) for a file without errors.
\<close>

declare One_nat_def [simp del]

section \<open>The code\<close>

record 'k os =
  sys_write :: "'k \<Rightarrow> byte list \<Rightarrow> (nat + int) \<times> 'k"
  sys_read :: "'k \<Rightarrow> nat \<Rightarrow> (byte list + int) \<times> 'k"
  sys_lseek :: "'k \<Rightarrow> nat \<Rightarrow> int option \<times> 'k"
  sys_pread :: "'k \<Rightarrow> int \<Rightarrow> nat \<Rightarrow> uint64 \<Rightarrow> (byte list + int) \<times> 'k"
  sys_open :: "'k \<Rightarrow> byte list \<Rightarrow> (int + int) \<times> 'k"
  sys_close :: "'k \<Rightarrow> int \<Rightarrow> int option \<times> 'k"
  sys_fullfsync :: "'k \<Rightarrow> int \<Rightarrow> int option \<times> 'k"
  sys_fsync :: "'k \<Rightarrow> int \<Rightarrow> int option \<times> 'k"
  strerror :: "int \<Rightarrow> byte list"

definition ENOENT :: int where "ENOENT = 2"
definition EINTR :: int where "EINTR = 4"
definition EINVAL :: int where "EINVAL = 22"

definition kWritableFileBufferSize :: nat where "kWritableFileBufferSize = 65536"

definition PosixError :: "'k os \<Rightarrow> byte list \<Rightarrow> int \<Rightarrow> Status" where
  "PosixError os context error_number =
     (if error_number = ENOENT then NotFound context (strerror os error_number)
      else IOError context (strerror os error_number))"

subsection \<open>\<open>Limiter\<close>\<close>

definition Acquire :: "int \<Rightarrow> bool \<times> int" where
  "Acquire acquires_allowed =
     (let old = acquires_allowed; acquires_allowed = acquires_allowed - 1 in
      if 0 < old then (True, acquires_allowed) else (False, acquires_allowed + 1))"

definition Release :: "int \<Rightarrow> int" where
  "Release acquires_allowed = acquires_allowed + 1"

subsection \<open>\<open>PosixSequentialFile\<close>\<close>

record 'k PosixSequentialFile =
  sf_kernel :: 'k
  sf_filename :: "byte list"

partial_function (option) read_retry :: "'k os \<Rightarrow> 'k \<Rightarrow> nat \<Rightarrow> ((byte list + int) \<times> 'k) option" where
  "read_retry os k n =
     (case sys_read os k n of
        (Inr e, k') \<Rightarrow> if e = EINTR then read_retry os k' n else Some (Inr e, k')
      | (Inl bs, k') \<Rightarrow> Some (Inl bs, k'))"

text \<open>The status, the slice when it was assigned, and the file.\<close>

definition SequentialFile_Read :: "'k os \<Rightarrow> 'k PosixSequentialFile \<Rightarrow> nat \<Rightarrow>
    (Status \<times> byte list option \<times> 'k PosixSequentialFile) option" where
  "SequentialFile_Read os f n =
     (case read_retry os (sf_kernel f) n of
        None \<Rightarrow> None
      | Some (Inr e, k) \<Rightarrow> Some (PosixError os (sf_filename f) e, None, f\<lparr>sf_kernel := k\<rparr>)
      | Some (Inl bs, k) \<Rightarrow> Some (OK, Some bs, f\<lparr>sf_kernel := k\<rparr>))"

definition SequentialFile_Skip :: "'k os \<Rightarrow> 'k PosixSequentialFile \<Rightarrow> nat \<Rightarrow>
    Status \<times> 'k PosixSequentialFile" where
  "SequentialFile_Skip os f n =
     (case sys_lseek os (sf_kernel f) n of
        (Some e, k) \<Rightarrow> (PosixError os (sf_filename f) e, f\<lparr>sf_kernel := k\<rparr>)
      | (None, k) \<Rightarrow> (OK, f\<lparr>sf_kernel := k\<rparr>))"

subsection \<open>\<open>PosixRandomAccessFile\<close> and \<open>PosixMmapReadableFile\<close>\<close>

record PosixRandomAccessFile =
  has_permanent_fd :: bool
  ra_fd :: int
  ra_filename :: "byte list"

text \<open>The constructor, with the limiter's counter and the kernel after it.\<close>

definition PosixRandomAccessFile_new :: "'k os \<Rightarrow> 'k \<Rightarrow> int \<Rightarrow> byte list \<Rightarrow> int \<Rightarrow>
    PosixRandomAccessFile \<times> int \<times> 'k" where
  "PosixRandomAccessFile_new os k limiter filename fd =
     (let (permanent, limiter) = Acquire limiter;
          k = (if permanent then k else snd (sys_close os k fd))
      in (\<lparr>has_permanent_fd = permanent, ra_fd = (if permanent then fd else - 1), ra_filename = filename\<rparr>,
          limiter, k))"

definition RandomAccessFile_Read :: "'k os \<Rightarrow> 'k \<Rightarrow> PosixRandomAccessFile \<Rightarrow> uint64 \<Rightarrow> nat \<Rightarrow>
    Status \<times> byte list option \<times> 'k" where
  "RandomAccessFile_Read os k f offset n =
     (case (if has_permanent_fd f then (Inl (ra_fd f), k) else sys_open os k (ra_filename f)) of
        (Inr e, k) \<Rightarrow> (PosixError os (ra_filename f) e, None, k)
      | (Inl fd, k) \<Rightarrow>
          let (r, k) = sys_pread os k fd n offset;
              result = (case r of Inl bs \<Rightarrow> bs | Inr e \<Rightarrow> []);
              status = (case r of Inl bs \<Rightarrow> OK | Inr e \<Rightarrow> PosixError os (ra_filename f) e);
              k = (if has_permanent_fd f then k else snd (sys_close os k fd))
          in (status, Some result, k))"

text \<open>A slice of the mapped region is its offset from \<open>mmap_base_\<close> and its size; \<open>offset + n\<close> is an
  unsigned 64-bit addition.\<close>

definition MmapReadableFile_Read :: "'k os \<Rightarrow> byte list \<Rightarrow> uint64 \<Rightarrow> uint64 \<Rightarrow> uint64 \<Rightarrow>
    Status \<times> uint64 \<times> uint64" where
  "MmapReadableFile_Read os filename len offset n =
     (if len < offset + n then (PosixError os filename EINVAL, 0, 0) else (OK, offset, n))"

subsection \<open>\<open>PosixWritableFile\<close>\<close>

text \<open>\<open>wf_buf\<close> holds the first \<open>pos_\<close> bytes of the array.\<close>

record 'k PosixWritableFile =
  wf_kernel :: 'k
  wf_buf :: "byte list"
  wf_fd :: int
  wf_is_manifest :: bool
  wf_filename :: "byte list"
  wf_dirname :: "byte list"

definition slash :: byte where "slash = 47"

text \<open>\<open>filename.rfind('/')\<close> splits the name into what is before and behind the last slash.\<close>

definition Basename :: "byte list \<Rightarrow> byte list" where
  "Basename filename = rev (takeWhile (\<lambda>c. c \<noteq> slash) (rev filename))"

definition Dirname :: "byte list \<Rightarrow> byte list" where
  "Dirname filename =
     (if slash \<notin> set filename then str ''.''
      else rev (tl (dropWhile (\<lambda>c. c \<noteq> slash) (rev filename))))"

definition starts_with :: "byte list \<Rightarrow> byte list \<Rightarrow> bool" where
  "starts_with s x \<longleftrightarrow> length x \<le> length s \<and> take (length x) s = x"

definition IsManifest :: "byte list \<Rightarrow> bool" where
  "IsManifest filename \<longleftrightarrow> starts_with (Basename filename) (str ''MANIFEST'')"

definition PosixWritableFile_new :: "'k \<Rightarrow> byte list \<Rightarrow> int \<Rightarrow> 'k PosixWritableFile" where
  "PosixWritableFile_new k filename fd =
     \<lparr>wf_kernel = k, wf_buf = [], wf_fd = fd, wf_is_manifest = IsManifest filename, wf_filename = filename,
      wf_dirname = Dirname filename\<rparr>"

partial_function (option) write_loop :: "'k os \<Rightarrow> byte list \<Rightarrow> 'k \<Rightarrow> byte list \<Rightarrow> (Status \<times> 'k) option"
where
  "write_loop os filename k data =
     (if data = [] then Some (OK, k)
      else case sys_write os k data of
          (Inr e, k') \<Rightarrow> if e = EINTR then write_loop os filename k' data
                         else Some (PosixError os filename e, k')
        | (Inl n, k') \<Rightarrow> write_loop os filename k' (drop n data))"

definition WriteUnbuffered :: "'k os \<Rightarrow> 'k PosixWritableFile \<Rightarrow> byte list \<Rightarrow>
    (Status \<times> 'k PosixWritableFile) option" where
  "WriteUnbuffered os f data =
     map_option (\<lambda>(s, k). (s, f\<lparr>wf_kernel := k\<rparr>)) (write_loop os (wf_filename f) (wf_kernel f) data)"

definition FlushBuffer :: "'k os \<Rightarrow> 'k PosixWritableFile \<Rightarrow> (Status \<times> 'k PosixWritableFile) option" where
  "FlushBuffer os f = map_option (\<lambda>(s, f). (s, f\<lparr>wf_buf := []\<rparr>)) (WriteUnbuffered os f (wf_buf f))"

definition WritableFile_Append :: "'k os \<Rightarrow> 'k PosixWritableFile \<Rightarrow> byte list \<Rightarrow>
    (Status \<times> 'k PosixWritableFile) option" where
  "WritableFile_Append os f data =
     (let copy_size = min (length data) (kWritableFileBufferSize - length (wf_buf f));
          f = f\<lparr>wf_buf := wf_buf f @ take copy_size data\<rparr>;
          write_data = drop copy_size data
      in if write_data = [] then Some (OK, f)
         else case FlushBuffer os f of
             None \<Rightarrow> None
           | Some (status, f) \<Rightarrow>
               if \<not> ok status then Some (status, f)
               else if length write_data < kWritableFileBufferSize then Some (OK, f\<lparr>wf_buf := write_data\<rparr>)
               else WriteUnbuffered os f write_data)"

definition WritableFile_Flush :: "'k os \<Rightarrow> 'k PosixWritableFile \<Rightarrow> (Status \<times> 'k PosixWritableFile) option"
where
  "WritableFile_Flush os f = FlushBuffer os f"

definition WritableFile_Close :: "'k os \<Rightarrow> 'k PosixWritableFile \<Rightarrow> (Status \<times> 'k PosixWritableFile) option"
where
  "WritableFile_Close os f =
     (case FlushBuffer os f of
        None \<Rightarrow> None
      | Some (status, f) \<Rightarrow>
          (case sys_close os (wf_kernel f) (wf_fd f) of (r, k) \<Rightarrow>
             Some (case r of Some e \<Rightarrow> (if ok status then PosixError os (wf_filename f) e else status)
                           | None \<Rightarrow> status,
                   f\<lparr>wf_kernel := k, wf_fd := - 1\<rparr>)))"

text \<open>\<open>fcntl(F_FULLFSYNC)\<close> where there is one, and \<open>fsync\<close> where it fails.\<close>

definition SyncFd :: "'k os \<Rightarrow> 'k \<Rightarrow> int \<Rightarrow> byte list \<Rightarrow> Status \<times> 'k" where
  "SyncFd os k fd fd_path =
     (case sys_fullfsync os k fd of
        (None, k) \<Rightarrow> (OK, k)
      | (Some _, k) \<Rightarrow> (case sys_fsync os k fd of
            (None, k) \<Rightarrow> (OK, k) | (Some e, k) \<Rightarrow> (PosixError os fd_path e, k)))"

definition SyncDirIfManifest :: "'k os \<Rightarrow> 'k PosixWritableFile \<Rightarrow> Status \<times> 'k PosixWritableFile" where
  "SyncDirIfManifest os f =
     (if \<not> wf_is_manifest f then (OK, f)
      else case sys_open os (wf_kernel f) (wf_dirname f) of
          (Inr e, k) \<Rightarrow> (PosixError os (wf_dirname f) e, f\<lparr>wf_kernel := k\<rparr>)
        | (Inl fd, k) \<Rightarrow> (case SyncFd os k fd (wf_dirname f) of
              (status, k) \<Rightarrow> (status, f\<lparr>wf_kernel := snd (sys_close os k fd)\<rparr>)))"

definition WritableFile_Sync :: "'k os \<Rightarrow> 'k PosixWritableFile \<Rightarrow> (Status \<times> 'k PosixWritableFile) option"
where
  "WritableFile_Sync os f =
     (case SyncDirIfManifest os f of (status, f) \<Rightarrow>
        if \<not> ok status then Some (status, f)
        else case FlushBuffer os f of
            None \<Rightarrow> None
          | Some (status, f) \<Rightarrow>
              if \<not> ok status then Some (status, f)
              else (case SyncFd os (wf_kernel f) (wf_fd f) (wf_filename f) of
                  (status, k) \<Rightarrow> Some (status, f\<lparr>wf_kernel := k\<rparr>)))"


section \<open>What the code relies on\<close>

text \<open>\<open>disk k\<close> is what has been written through the descriptor, \<open>patience k\<close> bounds how often the kernel
  interrupts from \<open>k\<close> on, and \<open>sound k\<close> are the states in which no call fails.\<close>

definition os_writes :: "'k os \<Rightarrow> ('k \<Rightarrow> bool) \<Rightarrow> ('k \<Rightarrow> byte list) \<Rightarrow> ('k \<Rightarrow> nat) \<Rightarrow> bool" where
  "os_writes os sound disk patience \<longleftrightarrow> (\<forall>k data. sound k \<and> data \<noteq> [] \<longrightarrow>
     (case sys_write os k data of
        (Inl n, k') \<Rightarrow> 0 < n \<and> n \<le> length data \<and> sound k' \<and> disk k' = disk k @ take n data
      | (Inr e, k') \<Rightarrow> e = EINTR \<and> sound k' \<and> disk k' = disk k \<and> patience k' < patience k))"

definition os_reads :: "'k os \<Rightarrow> ('k \<Rightarrow> bool) \<Rightarrow> ('k \<Rightarrow> byte list) \<Rightarrow> ('k \<Rightarrow> nat) \<Rightarrow> bool" where
  "os_reads os sound left patience \<longleftrightarrow> (\<forall>k n. sound k \<longrightarrow>
     (case sys_read os k n of
        (Inl bs, k') \<Rightarrow> bs = take n (left k) \<and> sound k' \<and> left k' = drop n (left k)
      | (Inr e, k') \<Rightarrow> e = EINTR \<and> sound k' \<and> left k' = left k \<and> patience k' < patience k)
     \<and> (case sys_lseek os k n of
          (None, k') \<Rightarrow> sound k' \<and> left k' = drop n (left k) | (Some e, k') \<Rightarrow> False))"

section \<open>Interfaces\<close>

locale writable_file =
  fixes append :: "'f \<Rightarrow> byte list \<Rightarrow> (Status \<times> 'f) option" and flush :: "'f \<Rightarrow> (Status \<times> 'f) option"
    and healthy :: "'f \<Rightarrow> bool" and accepted :: "'f \<Rightarrow> byte list" and stored :: "'f \<Rightarrow> byte list"
  assumes append_ok: "healthy f \<Longrightarrow> \<exists>f'. append f data = Some (OK, f') \<and> healthy f'
      \<and> accepted f' = accepted f @ data"
    and flush_ok: "healthy f \<Longrightarrow> \<exists>f'. flush f = Some (OK, f') \<and> healthy f'
      \<and> accepted f' = accepted f \<and> stored f' = accepted f"

locale sequential_file =
  fixes read :: "'f \<Rightarrow> nat \<Rightarrow> (Status \<times> byte list option \<times> 'f) option" and skip :: "'f \<Rightarrow> nat \<Rightarrow> Status \<times> 'f"
    and healthy :: "'f \<Rightarrow> bool" and ahead :: "'f \<Rightarrow> byte list"
  assumes read_ok: "healthy f \<Longrightarrow> \<exists>f'. read f n = Some (OK, Some (take n (ahead f)), f') \<and> healthy f'
      \<and> ahead f' = drop n (ahead f)"
    and skip_ok: "healthy f \<Longrightarrow> \<exists>f'. skip f n = (OK, f') \<and> healthy f' \<and> ahead f' = drop n (ahead f)"

section \<open>The files meet them\<close>

lemmas lex_nat_induct = wf_induct_rule [OF wf_lex_prod [OF wf_less_than wf_less_than], case_names less]

lemma write_loop_ok:
  assumes "os_writes os sound disk patience"
  shows "sound k \<Longrightarrow> \<exists>k'. write_loop os fn k data = Some (OK, k') \<and> sound k' \<and> disk k' = disk k @ data"
proof (induction "(length data, patience k)" arbitrary: k data rule: lex_nat_induct)
  case less
  show ?case
  proof (cases "data = []")
    case False
    obtain r k1 where w: "sys_write os k data = (r, k1)" by fastforce
    note c = assms [unfolded os_writes_def, rule_format, of k data, unfolded w]
    show ?thesis
    proof (cases r)
      case (Inl n)
      with c less.prems False
      have n: "0 < n" "n \<le> length data" "sound k1" "disk k1 = disk k @ take n data" by auto
      then have "((length (drop n data), patience k1), length data, patience k) \<in> less_than <*lex*> less_than"
        by auto
      from less.hyps [OF this n(3)] show ?thesis
        using False w Inl n(4) by (simp add: write_loop.simps [of os fn k data])
    next
      case (Inr e)
      with c less.prems False have e: "e = EINTR" "sound k1" "disk k1 = disk k" "patience k1 < patience k"
        by auto
      then have "((length data, patience k1), length data, patience k) \<in> less_than <*lex*> less_than"
        by simp
      from less.hyps [OF this e(2)] show ?thesis
        using False w Inr e by (simp add: write_loop.simps [of os fn k data])
    qed
  next
    case True
    then show ?thesis using less.prems by (simp add: write_loop.simps)
  qed
qed

lemma read_retry_ok:
  assumes "os_reads os sound left patience"
  shows "sound k \<Longrightarrow> \<exists>k'. read_retry os k n = Some (Inl (take n (left k)), k') \<and> sound k'
    \<and> left k' = drop n (left k)"
proof (induction "patience k" arbitrary: k rule: less_induct)
  case less
  obtain r k1 where w: "sys_read os k n = (r, k1)" by fastforce
  note c = assms [unfolded os_reads_def, rule_format, of k n, THEN conjunct1, OF less.prems, unfolded w]
  show ?case
  proof (cases r)
    case (Inl bs)
    with c w show ?thesis by (simp add: read_retry.simps [of os k n])
  next
    case (Inr e)
    with c have e: "e = EINTR" "sound k1" "left k1 = left k" "patience k1 < patience k" by auto
    with less.hyps [OF e(4,2)] w Inr show ?thesis by (simp add: read_retry.simps [of os k n])
  qed
qed

definition wf_accepted :: "('k \<Rightarrow> byte list) \<Rightarrow> 'k PosixWritableFile \<Rightarrow> byte list" where
  "wf_accepted disk f = disk (wf_kernel f) @ wf_buf f"

lemma FlushBuffer_ok:
  assumes "os_writes os sound disk patience" "sound (wf_kernel f)"
  shows "\<exists>f'. FlushBuffer os f = Some (OK, f') \<and> sound (wf_kernel f') \<and> wf_buf f' = []
    \<and> disk (wf_kernel f') = wf_accepted disk f"
  using write_loop_ok [OF assms, of "wf_filename f" "wf_buf f"]
  by (auto simp: FlushBuffer_def WriteUnbuffered_def wf_accepted_def)

theorem posix_writable_file:
  assumes "os_writes os sound disk patience"
  shows "writable_file (WritableFile_Append os) (WritableFile_Flush os) (\<lambda>f. sound (wf_kernel f))
    (wf_accepted disk) (\<lambda>f. disk (wf_kernel f))"
proof
  fix f :: "'a PosixWritableFile" and data :: "byte list"
  assume s: "sound (wf_kernel f)"
  define m where "m = min (length data) (kWritableFileBufferSize - length (wf_buf f))"
  define g where "g = f\<lparr>wf_buf := wf_buf f @ take m data\<rparr>"
  obtain g' where g': "FlushBuffer os g = Some (OK, g')" "sound (wf_kernel g')" "wf_buf g' = []"
    "disk (wf_kernel g') = wf_accepted disk f @ take m data"
    using FlushBuffer_ok [OF assms, of g] s by (auto simp: g_def wf_accepted_def)
  obtain k' where k': "write_loop os (wf_filename g') (wf_kernel g') (drop m data) = Some (OK, k')"
    "sound k'" "disk k' = disk (wf_kernel g') @ drop m data"
    using write_loop_ok [OF assms g'(2)] by blast
  show "\<exists>f'. WritableFile_Append os f data = Some (OK, f') \<and> sound (wf_kernel f')
      \<and> wf_accepted disk f' = wf_accepted disk f @ data"
    using g' k' s
    by (auto simp: WritableFile_Append_def Let_def m_def [symmetric] g_def [symmetric]
        WriteUnbuffered_def wf_accepted_def)
  show "\<exists>f'. WritableFile_Flush os f = Some (OK, f') \<and> sound (wf_kernel f')
      \<and> wf_accepted disk f' = wf_accepted disk f \<and> disk (wf_kernel f') = wf_accepted disk f"
    using FlushBuffer_ok [OF assms s] by (auto simp: WritableFile_Flush_def wf_accepted_def)
qed

theorem posix_sequential_file:
  assumes "os_reads os sound left patience"
  shows "sequential_file (SequentialFile_Read os) (SequentialFile_Skip os) (\<lambda>f. sound (sf_kernel f))
    (\<lambda>f. left (sf_kernel f))"
proof
  fix f :: "'a PosixSequentialFile" and n
  assume s: "sound (sf_kernel f)"
  show "\<exists>f'. SequentialFile_Read os f n = Some (OK, Some (take n (left (sf_kernel f))), f')
      \<and> sound (sf_kernel f') \<and> left (sf_kernel f') = drop n (left (sf_kernel f))"
    using read_retry_ok [OF assms s, of n] by (auto simp: SequentialFile_Read_def)
  show "\<exists>f'. SequentialFile_Skip os f n = (OK, f') \<and> sound (sf_kernel f')
      \<and> left (sf_kernel f') = drop n (left (sf_kernel f))"
    using assms [unfolded os_reads_def, rule_format, of "sf_kernel f" n, THEN conjunct2] s
    by (auto simp: SequentialFile_Skip_def split: prod.splits option.splits)
qed

section \<open>A kernel\<close>

text \<open>A kernel that keeps one regular file and is interrupted as a script says: 0 is \<open>EINTR\<close>, another
  number the most that one \<open>write\<close> takes.\<close>

record script_kernel =
  script :: "nat list"
  on_disk :: "byte list"
  unread :: "byte list"

definition script_os :: "script_kernel os" where
  "script_os =
     \<lparr>sys_write = (\<lambda>k data. case script k of
          [] \<Rightarrow> (Inl (length data), k\<lparr>on_disk := on_disk k @ data\<rparr>)
        | i # is \<Rightarrow> if i = 0 then (Inr EINTR, k\<lparr>script := is\<rparr>)
            else (Inl (min i (length data)), k\<lparr>script := is, on_disk := on_disk k @ take i data\<rparr>)),
      sys_read = (\<lambda>k n. case script k of
          [] \<Rightarrow> (Inl (take n (unread k)), k\<lparr>unread := drop n (unread k)\<rparr>)
        | i # is \<Rightarrow> (Inr EINTR, k\<lparr>script := is\<rparr>)),
      sys_lseek = (\<lambda>k n. (None, k\<lparr>unread := drop n (unread k)\<rparr>)),
      sys_pread = (\<lambda>k fd n offset. (Inl (take n (drop (unat offset) (on_disk k))), k)),
      sys_open = (\<lambda>k name. (Inl 3, k)),
      sys_close = (\<lambda>k fd. (None, k)),
      sys_fullfsync = (\<lambda>k fd. (None, k)),
      sys_fsync = (\<lambda>k fd. (None, k)),
      strerror = (\<lambda>e. str ''error'')\<rparr>"

lemma script_os_writes: "os_writes script_os (\<lambda>k. True) on_disk (\<lambda>k. length (script k))"
  by (auto simp: os_writes_def script_os_def EINTR_def min_def split: list.splits)

lemma script_os_reads: "os_reads script_os (\<lambda>k. True) unread (\<lambda>k. length (script k))"
  by (auto simp: os_reads_def script_os_def split: list.splits)

interpretation script_out: writable_file "WritableFile_Append script_os" "WritableFile_Flush script_os"
  "\<lambda>f. True" "wf_accepted on_disk" "\<lambda>f. on_disk (wf_kernel f)"
  by (rule posix_writable_file [OF script_os_writes])

interpretation script_in: sequential_file "SequentialFile_Read script_os" "SequentialFile_Skip script_os"
  "\<lambda>f. True" "\<lambda>f. unread (sf_kernel f)"
  by (rule posix_sequential_file [OF script_os_reads])

end
