(* ===== verification/Ldb_Crc32c.thy ===== *)
theory Ldb_Crc32c
  imports Ldb_Crc32c_Tables Ldb_Coding
begin

text \<open>
  The checksum of leveldb (\<open>util/crc32c.h\<close>, \<open>util/crc32c.cc\<close>): the loop that reaches an aligned
  address byte by byte, the four interleaved strides of four bytes, the single words and the last
  bytes.  \<open>crc32c_spec\<close> is the definition of CRC-32C, one bit at a time with the reflected polynomial
  \<open>0x82F63B78\<close>; \<open>Extend_spec\<close> proves that the code computes it at every alignment.
\<close>

declare One_nat_def [simp del]

section \<open>The code\<close>

definition kCRC32Xor :: uint32 where "kCRC32Xor = 0xffffffff"

definition kMaskDelta :: uint32 where "kMaskDelta = 0xa282ead8"

definition Mask :: "uint32 \<Rightarrow> uint32" where
  "Mask crc = (drop_bit 15 crc OR push_bit 17 crc) + kMaskDelta"

definition Unmask :: "uint32 \<Rightarrow> uint32" where
  "Unmask masked_crc =
     (let rot = masked_crc - kMaskDelta in drop_bit 17 rot OR push_bit 15 rot)"

definition ReadUint32LE :: "byte list \<Rightarrow> uint32" where
  "ReadUint32LE buffer = DecodeFixed32 buffer"

text \<open>Addresses are numbers below \<open>2 ^ 64\<close>; the rounding itself is done on 64-bit words.\<close>

definition RoundUp :: "nat \<Rightarrow> nat \<Rightarrow> nat" where
  "RoundUp n pointer =
     unat ((word_of_nat pointer + (word_of_nat n - 1)) AND NOT (word_of_nat n - 1) :: uint64)"

text \<open>\<open>port::AcceleratedCRC32C\<close> without \<open>HAVE_CRC32C\<close>, which the build does not define.\<close>

definition AcceleratedCRC32C :: "uint32 \<Rightarrow> byte list \<Rightarrow> uint32" where
  "AcceleratedCRC32C crc buf = 0"

definition CanAccelerateCRC32C :: bool where
  "CanAccelerateCRC32C \<longleftrightarrow> AcceleratedCRC32C 0 (map of_char ''TestCRCBuffer'') = 0xdcbc59fa"

definition table_at :: "uint32 list \<Rightarrow> uint32 \<Rightarrow> uint32" where
  "table_at t i = t ! unat i"

definition STEP1 :: "uint32 \<Rightarrow> byte \<Rightarrow> uint32" where
  "STEP1 l b = table_at kByteExtensionTable ((l AND 0xff) XOR ucast b) XOR drop_bit 8 l"

definition STEP4 :: "byte list \<Rightarrow> uint32 \<Rightarrow> uint32" where
  "STEP4 p crc =
     ReadUint32LE p XOR table_at kStrideExtensionTable3 (crc AND 0xff) XOR
     table_at kStrideExtensionTable2 (drop_bit 8 crc AND 0xff) XOR
     table_at kStrideExtensionTable1 (drop_bit 16 crc AND 0xff) XOR
     table_at kStrideExtensionTable0 (drop_bit 24 crc)"

type_synonym strides = "uint32 \<times> uint32 \<times> uint32 \<times> uint32"

definition STEP16 :: "byte list \<Rightarrow> strides \<Rightarrow> strides" where
  "STEP16 p = (\<lambda>(crc0, crc1, crc2, crc3).
     (STEP4 p crc0, STEP4 (drop 4 p) crc1, STEP4 (drop 8 p) crc2, STEP4 (drop 12 p) crc3))"

fun STEP4W_loop :: "nat \<Rightarrow> uint32 \<Rightarrow> uint32" where
  "STEP4W_loop 0 w = w"
| "STEP4W_loop (Suc i) w = STEP4W_loop i (drop_bit 8 w XOR table_at kByteExtensionTable (w AND 0xff))"

definition STEP4W :: "uint32 \<Rightarrow> uint32 \<Rightarrow> uint32" where
  "STEP4W w l = STEP4W_loop 4 (w XOR l)"

text \<open>\<open>while (p != x) STEP1;\<close> with \<open>None\<close> for a read behind the end of the data.\<close>

fun step1_until :: "nat \<Rightarrow> nat \<Rightarrow> uint32 \<Rightarrow> byte list \<Rightarrow> (uint32 \<times> byte list) option" where
  "step1_until p x l [] = (if p = x then Some (l, []) else None)"
| "step1_until p x l (b # bs) =
     (if p = x then Some (l, b # bs) else step1_until (p + 1) x (STEP1 l b) bs)"

function swath_loop :: "strides \<Rightarrow> byte list \<Rightarrow> strides \<times> byte list" where
  "swath_loop c p = (if 16 \<le> length p then swath_loop (STEP16 p c) (drop 16 p) else (c, p))"
  by auto
termination by (relation "measure (\<lambda>(c, p). length p)") auto

function word_loop :: "strides \<Rightarrow> byte list \<Rightarrow> strides \<times> byte list" where
  "word_loop c p =
     (if 4 \<le> length p
      then case c of (crc0, crc1, crc2, crc3) \<Rightarrow> word_loop (crc1, crc2, crc3, STEP4 p crc0) (drop 4 p)
      else (c, p))"
  by auto
termination by (relation "measure (\<lambda>(c, p). length p)") auto

definition combine :: "strides \<Rightarrow> uint32" where
  "combine = (\<lambda>(crc0, crc1, crc2, crc3). STEP4W crc3 (STEP4W crc2 (STEP4W crc1 (STEP4W crc0 0))))"

text \<open>The part behind the alignment: at least 16 bytes go through the strides.\<close>

definition extend_swaths :: "uint32 \<Rightarrow> byte list \<Rightarrow> uint32 \<times> byte list" where
  "extend_swaths l p =
     (if 16 \<le> length p
      then let (c, p') = swath_loop (ReadUint32LE p XOR l, ReadUint32LE (drop 4 p),
                           ReadUint32LE (drop 8 p), ReadUint32LE (drop 12 p)) (drop 16 p);
               (c, p') = word_loop c p'
           in (combine c, p')
      else (l, p))"

text \<open>\<open>Extend(crc, data, n)\<close> where \<open>data\<close> points to the bytes \<open>bs\<close> at the address \<open>a\<close>.\<close>

definition Extend :: "nat \<Rightarrow> uint32 \<Rightarrow> byte list \<Rightarrow> uint32 option" where
  "Extend a crc bs =
     (if CanAccelerateCRC32C then Some (AcceleratedCRC32C crc bs)
      else let e = a + length bs; l = crc XOR kCRC32Xor; x = RoundUp 4 a in
        case (if x \<le> e then step1_until a x l bs else Some (l, bs)) of
          None \<Rightarrow> None
        | Some (l, p) \<Rightarrow> (case extend_swaths l p of (l, p) \<Rightarrow>
            Some (fold (\<lambda>b l. STEP1 l b) p l XOR kCRC32Xor)))"

definition Value :: "nat \<Rightarrow> byte list \<Rightarrow> uint32 option" where
  "Value a bs = Extend a 0 bs"

declare swath_loop.simps [simp del] word_loop.simps [simp del]

section \<open>The definition of CRC-32C\<close>

definition crc_bit :: "uint32 \<Rightarrow> uint32" where
  "crc_bit c = (if bit c 0 then drop_bit 1 c XOR 0x82F63B78 else drop_bit 1 c)"

definition crc_byte :: "uint32 \<Rightarrow> byte \<Rightarrow> uint32" where
  "crc_byte l b = (crc_bit ^^ 8) (l XOR ucast b)"

definition crc32c_spec :: "uint32 \<Rightarrow> byte list \<Rightarrow> uint32" where
  "crc32c_spec crc bs = fold (\<lambda>b l. crc_byte l b) bs (crc XOR 0xffffffff) XOR 0xffffffff"

lemma crc32c_spec_append: "crc32c_spec crc (xs @ ys) = crc32c_spec (crc32c_spec crc xs) ys"
  by (simp add: crc32c_spec_def xor.assoc)

section \<open>Linearity\<close>

definition linear :: "(uint32 \<Rightarrow> uint32) \<Rightarrow> bool" where
  "linear f \<longleftrightarrow> (\<forall>x y. f (x XOR y) = f x XOR f y)"

lemma linear_xor: "linear f \<Longrightarrow> f (x XOR y) = f x XOR f y"
  by (simp add: linear_def)

lemma linear_0: "linear f \<Longrightarrow> f 0 = 0"
  using linear_xor [of f 0 0] by simp

lemma linear_funpow: "linear f \<Longrightarrow> linear (f ^^ n)"
  by (induction n) (simp_all add: linear_def)

lemma crc_bit_linear: "linear crc_bit"
  unfolding linear_def crc_bit_def
  by (auto simp: drop_bit_xor bit_xor_iff xor.assoc xor.left_commute xor.commute)

lemma span_xor_linear:
  "linear f \<Longrightarrow> span_xor (map f ts) = map f (span_xor ts)"
  by (induction ts) (simp_all add: linear_0 linear_xor)

lemma span_xor_nth:
  "i < 256 \<Longrightarrow> span_xor [128, 64, 32, 16, 8, 4, 2, 1] ! i = word_of_nat i"
proof -
  have "span_xor [128, 64, 32, 16, 8, 4, 2, 1] = map word_of_nat [0..<256]"
    by code_simp
  then show "i < 256 \<Longrightarrow> ?thesis" by simp
qed

section \<open>The tables\<close>

fun crc_bits :: "nat \<Rightarrow> uint32 \<Rightarrow> uint32" where
  "crc_bits 0 c = c"
| "crc_bits (Suc n) c = crc_bits n (crc_bit c)"

lemma crc_bits_funpow: "crc_bits n c = (crc_bit ^^ n) c"
  by (induction n arbitrary: c) (simp_all add: funpow_swap1)

text \<open>Code equations without a function under a \<open>\<lambda>\<close>, for evaluation.\<close>

lemma crc_byte_bits [code]: "crc_byte l b = crc_bits 8 (l XOR ucast b)"
  by (simp add: crc_byte_def crc_bits_funpow)

lemma crc32c_spec_foldl [code]:
  "crc32c_spec crc bs = foldl crc_byte (crc XOR 0xffffffff) bs XOR 0xffffffff"
  by (simp add: crc32c_spec_def foldl_conv_fold)

lemma byte_basis:
  "map (crc_bits 8) [128, 64, 32, 16, 8, 4, 2, 1] =
     [0x82f63b78, 0x417b1dbc, 0x20bd8ede, 0x105ec76f,
      0x8ad958cf, 0xc79a971f, 0xe13b70f7, 0xf26b8303]"
  by code_simp


text \<open>The entries of the stride tables at the powers of two are 32 consecutive states of the bitwise
  machine: 16 bytes of zeros take \<open>2 ^ k\<close> to what 128 - \<open>k\<close> bits take 1 to.\<close>

lemma stride_first: "crc_bits 97 1 = 0x18b8ea18"
  by code_simp

lemma stride_states:
  "map crc_bit
     [0x18b8ea18, 0x0c5c750c, 0x062e3a86, 0x03171d43, 0x837db5d9, 0xc348e194,
      0x61a470ca, 0x30d23865, 0x9a9f274a, 0x4d4f93a5, 0xa451f2aa, 0x5228f955,
      0xabe247d2, 0x55f123e9, 0xa80eaa8c, 0x54075546, 0x2a03aaa3, 0x97f7ee29,
      0xc90dcc6c, 0x6486e636, 0x3243731b, 0x9bd782f5, 0xcf1dfa02, 0x678efd01,
      0xb13145f8, 0x5898a2fc, 0x2c4c517e, 0x162628bf, 0x89e52f27, 0xc604aceb,
      0xe1f46d0d] =
     [0x0c5c750c, 0x062e3a86, 0x03171d43, 0x837db5d9, 0xc348e194, 0x61a470ca,
      0x30d23865, 0x9a9f274a, 0x4d4f93a5, 0xa451f2aa, 0x5228f955, 0xabe247d2,
      0x55f123e9, 0xa80eaa8c, 0x54075546, 0x2a03aaa3, 0x97f7ee29, 0xc90dcc6c,
      0x6486e636, 0x3243731b, 0x9bd782f5, 0xcf1dfa02, 0x678efd01, 0xb13145f8,
      0x5898a2fc, 0x2c4c517e, 0x162628bf, 0x89e52f27, 0xc604aceb, 0xe1f46d0d,
      0xf20c0dfe]"
  by code_simp

lemma iterates_nth:
  "map f (butlast xs) = tl xs \<Longrightarrow> i < length xs \<Longrightarrow> xs ! i = (f ^^ i) (hd xs)"
proof (induction i)
  case 0
  then show ?case by (simp add: hd_conv_nth)
next
  case (Suc i)
  have "xs ! Suc i = tl xs ! i" using Suc.prems(2) by (simp add: nth_tl)
  also have "\<dots> = f (xs ! i)"
    using Suc.prems(2) by (simp add: nth_butlast flip: Suc.prems(1))
  finally show ?case using Suc by simp
qed

lemma crc_bit_power: "k < 31 \<Longrightarrow> crc_bit (2 ^ Suc k) = 2 ^ k"
proof -
  assume k: "k < 31"
  have "drop_bit 1 (2 ^ Suc k :: uint32) = 2 ^ k"
    using k by (intro bit_word_eqI) (auto simp: bit_drop_bit_eq bit_exp_iff simp del: power_Suc)
  moreover have "\<not> bit (2 ^ Suc k :: uint32) 0" by (simp only: bit_exp_iff) simp
  ultimately show ?thesis unfolding crc_bit_def by (simp only: if_False)
qed

lemma crc_power_one: "k < 32 \<Longrightarrow> (crc_bit ^^ k) (2 ^ k) = 1"
proof (induction k)
  case (Suc k)
  have "(crc_bit ^^ Suc k) (2 ^ Suc k) = (crc_bit ^^ k) (crc_bit (2 ^ Suc k))"
    by (simp only: funpow_Suc_right o_apply)
  with Suc show ?case by (simp only: crc_bit_power)
qed simp

lemma stride_power: "k < 32 \<Longrightarrow> (crc_bit ^^ 128) (2 ^ k) = (crc_bit ^^ (128 - k)) 1"
  using funpow_add [of "128 - k" k crc_bit] by (simp add: crc_power_one)

lemma stride_nth:
  "i < 32 \<Longrightarrow>
    [0x18b8ea18, 0x0c5c750c, 0x062e3a86, 0x03171d43, 0x837db5d9, 0xc348e194,
     0x61a470ca, 0x30d23865, 0x9a9f274a, 0x4d4f93a5, 0xa451f2aa, 0x5228f955,
     0xabe247d2, 0x55f123e9, 0xa80eaa8c, 0x54075546, 0x2a03aaa3, 0x97f7ee29,
     0xc90dcc6c, 0x6486e636, 0x3243731b, 0x9bd782f5, 0xcf1dfa02, 0x678efd01,
     0xb13145f8, 0x5898a2fc, 0x2c4c517e, 0x162628bf, 0x89e52f27, 0xc604aceb,
     0xe1f46d0d, 0xf20c0dfe] ! i
    = (crc_bit ^^ 128) (2 ^ (31 - i))"
  (is "_ \<Longrightarrow> ?xs ! i = _")
proof -
  assume i: "i < 32"
  have "map crc_bit (butlast ?xs) = tl ?xs" using stride_states by simp
  moreover have "i < length ?xs" using i by simp
  ultimately have "?xs ! i = (crc_bit ^^ i) (hd ?xs)" by (rule iterates_nth)
  also have "hd ?xs = (crc_bit ^^ 97) 1" using stride_first by (simp add: crc_bits_funpow)
  also have "(crc_bit ^^ i) ((crc_bit ^^ 97) 1) = (crc_bit ^^ (128 - (31 - i))) 1"
  proof -
    have "128 - (31 - i) = i + 97" using i by simp
    then show ?thesis by (simp only: funpow_add o_apply)
  qed
  finally show ?thesis using i by (simp add: stride_power)
qed

lemma span_table:
  assumes "linear f" and "t = span_xor (map f [128, 64, 32, 16, 8, 4, 2, 1])" and "unat i < 256"
  shows "table_at t i = f i"
proof -
  have "length (span_xor [128, 64, 32, 16, 8, 4, 2, 1]) = 256" by simp
  then show ?thesis
    using assms(3) span_xor_nth [OF assms(3)]
    by (simp add: table_at_def assms(2) span_xor_linear [OF assms(1)] del: list.map span_xor.simps)
qed


lemma stride_table_0: "unat i < 256 \<Longrightarrow> table_at kStrideExtensionTable3 i = (crc_bit ^^ 128) (push_bit 0 i)"
proof (rule span_table)
  show "linear (\<lambda>x. (crc_bit ^^ 128) (push_bit 0 x))"
    using linear_funpow [OF crc_bit_linear, of 128] by (simp add: linear_def push_bit_xor)
  show "kStrideExtensionTable3 = span_xor (map (\<lambda>x. (crc_bit ^^ 128) (push_bit 0 x)) [128, 64, 32, 16, 8, 4, 2, 1])"
    using stride_nth [of 24] stride_nth [of 25] stride_nth [of 26] stride_nth [of 27] 
    stride_nth [of 28] stride_nth [of 29] stride_nth [of 30] stride_nth [of 31]
    by (simp add: kStrideExtensionTable3_span push_bit_eq_mult del: span_xor.simps)
qed

lemma stride_table_1: "unat i < 256 \<Longrightarrow> table_at kStrideExtensionTable2 i = (crc_bit ^^ 128) (push_bit 8 i)"
proof (rule span_table)
  show "linear (\<lambda>x. (crc_bit ^^ 128) (push_bit 8 x))"
    using linear_funpow [OF crc_bit_linear, of 128] by (simp add: linear_def push_bit_xor)
  show "kStrideExtensionTable2 = span_xor (map (\<lambda>x. (crc_bit ^^ 128) (push_bit 8 x)) [128, 64, 32, 16, 8, 4, 2, 1])"
    using stride_nth [of 16] stride_nth [of 17] stride_nth [of 18] stride_nth [of 19] 
    stride_nth [of 20] stride_nth [of 21] stride_nth [of 22] stride_nth [of 23]
    by (simp add: kStrideExtensionTable2_span push_bit_eq_mult del: span_xor.simps)
qed

lemma stride_table_2: "unat i < 256 \<Longrightarrow> table_at kStrideExtensionTable1 i = (crc_bit ^^ 128) (push_bit 16 i)"
proof (rule span_table)
  show "linear (\<lambda>x. (crc_bit ^^ 128) (push_bit 16 x))"
    using linear_funpow [OF crc_bit_linear, of 128] by (simp add: linear_def push_bit_xor)
  show "kStrideExtensionTable1 = span_xor (map (\<lambda>x. (crc_bit ^^ 128) (push_bit 16 x)) [128, 64, 32, 16, 8, 4, 2, 1])"
    using stride_nth [of 8] stride_nth [of 9] stride_nth [of 10] stride_nth [of 11] 
    stride_nth [of 12] stride_nth [of 13] stride_nth [of 14] stride_nth [of 15]
    by (simp add: kStrideExtensionTable1_span push_bit_eq_mult del: span_xor.simps)
qed

lemma stride_table_3: "unat i < 256 \<Longrightarrow> table_at kStrideExtensionTable0 i = (crc_bit ^^ 128) (push_bit 24 i)"
proof (rule span_table)
  show "linear (\<lambda>x. (crc_bit ^^ 128) (push_bit 24 x))"
    using linear_funpow [OF crc_bit_linear, of 128] by (simp add: linear_def push_bit_xor)
  show "kStrideExtensionTable0 = span_xor (map (\<lambda>x. (crc_bit ^^ 128) (push_bit 24 x)) [128, 64, 32, 16, 8, 4, 2, 1])"
    using stride_nth [of 0] stride_nth [of 1] stride_nth [of 2] stride_nth [of 3] 
    stride_nth [of 4] stride_nth [of 5] stride_nth [of 6] stride_nth [of 7]
    by (simp add: kStrideExtensionTable0_span push_bit_eq_mult del: span_xor.simps)
qed

lemma byte_table: "unat i < 256 \<Longrightarrow> table_at kByteExtensionTable i = (crc_bit ^^ 8) i"
proof (rule span_table)
  show "linear (crc_bit ^^ 8)" by (rule linear_funpow [OF crc_bit_linear])
  show "kByteExtensionTable = span_xor (map (crc_bit ^^ 8) [128, 64, 32, 16, 8, 4, 2, 1])"
    using byte_basis by (simp add: kByteExtensionTable_span crc_bits_funpow del: span_xor.simps)
qed

section \<open>The steps of the code\<close>

lemma crc_bit_push: "Suc n \<le> m \<Longrightarrow> m \<le> 32 \<Longrightarrow> crc_bit (push_bit (Suc n) (drop_bit m x)) = push_bit n (drop_bit m x)"
proof -
  assume a: "Suc n \<le> m" "m \<le> 32"
  have "drop_bit 1 (push_bit (Suc n) (drop_bit m x)) = push_bit n (drop_bit m x)"
  proof (rule bit_word_eqI)
    fix k assume "k < LENGTH(32)"
    have "bit x (m + (k - n)) \<Longrightarrow> m + (k - n) < 32" using bit_imp_le_length [of x] by auto
    then show "bit (drop_bit 1 (push_bit (Suc n) (drop_bit m x))) k = bit (push_bit n (drop_bit m x)) k"
      using a by (auto simp: bit_drop_bit_eq bit_push_bit_iff simp del: push_bit_Suc)
  qed
  moreover have "\<not> bit (push_bit (Suc n) (drop_bit m x)) 0" by (simp add: bit_push_bit_iff del: push_bit_Suc)
  ultimately show ?thesis by (simp add: crc_bit_def)
qed

lemma crc_bits_push: "n \<le> m \<Longrightarrow> m \<le> 32 \<Longrightarrow> (crc_bit ^^ n) (push_bit n (drop_bit m x)) = drop_bit m x"
proof (induction n)
  case (Suc n)
  then show ?case by (simp only: funpow_Suc_right o_apply crc_bit_push)
qed simp

lemma low_byte: "unat (x AND 0xff :: uint32) < 256"
proof -
  have "unat (take_bit 8 x) = take_bit 8 (unat x)" by (rule unsigned_take_bit_eq)
  also have "\<dots> < 256" by (simp add: take_bit_eq_mod)
  finally show ?thesis by (simp only: and_255)
qed

lemma word_split: "x = (x AND 0xff) XOR push_bit 8 (drop_bit 8 (x :: uint32))"
  by (rule bit_word_eqI) (auto simp: and_255 bit_simps)

lemma crc_bits_8: "(crc_bit ^^ 8) x = table_at kByteExtensionTable (x AND 0xff) XOR drop_bit 8 x"
  by (subst word_split) (simp add: linear_xor [OF linear_funpow [OF crc_bit_linear]] crc_bits_push
      byte_table low_byte)

lemma STEP1_crc_byte: "STEP1 l b = crc_byte l b"
proof -
  have "(l XOR ucast b) AND 0xff = (l AND 0xff) XOR ucast b"
    by (rule bit_word_eqI) (auto simp: and_255 bit_simps dest: bit_imp_le_length [of b])
  moreover have "drop_bit 8 (l XOR ucast b) = drop_bit 8 l"
    by (rule bit_word_eqI) (auto simp: bit_simps dest: bit_imp_le_length [of b])
  ultimately show ?thesis by (simp add: STEP1_def crc_byte_def crc_bits_8)
qed

lemma STEP4W_loop_crc: "STEP4W_loop i w = (crc_bit ^^ (8 * i)) w"
proof (induction i arbitrary: w)
  case (Suc i)
  have "8 * Suc i = 8 * i + 8" by simp
  then show ?case using Suc by (simp only: funpow_add o_apply STEP4W_loop.simps crc_bits_8 xor.commute)
qed simp

lemma word_split_4:
  "x = (x AND 0xff) XOR push_bit 8 (drop_bit 8 x AND 0xff) XOR push_bit 16 (drop_bit 16 x AND 0xff)
     XOR push_bit 24 (drop_bit 24 (x :: uint32))"
  by (rule bit_word_eqI) (auto simp: and_255 bit_simps)

lemma STEP4_crc: "STEP4 p crc = ReadUint32LE p XOR (crc_bit ^^ 128) crc"
proof -
  have u: "unat (drop_bit 24 crc) < 256"
    using unsigned_less [where ?'a = nat, of crc] by (simp add: unat_drop_bit)
  let ?f = "crc_bit ^^ 128"
  have "?f crc = ?f (crc AND 0xff) XOR ?f (push_bit 8 (drop_bit 8 crc AND 0xff))
    XOR ?f (push_bit 16 (drop_bit 16 crc AND 0xff)) XOR ?f (push_bit 24 (drop_bit 24 crc))"
    by (subst word_split_4) (simp only: linear_xor [OF linear_funpow [OF crc_bit_linear]])
  then show ?thesis using u low_byte
    by (simp add: STEP4_def stride_table_0 stride_table_1 stride_table_2 stride_table_3 xor.assoc)
qed


lemma STEP4W_crc: "STEP4W w l = (crc_bit ^^ 32) (w XOR l)"
  by (simp add: STEP4W_def STEP4W_loop_crc)

lemma nat_of_le_word:
  "word_of_nat (nat_of_le (b # bs)) = (ucast b XOR push_bit 8 (word_of_nat (nat_of_le bs)) :: uint32)"
proof -
  have "(ucast b AND push_bit 8 y :: uint32) = 0" for y
    by (rule bit_word_eqI) (auto simp: bit_simps dest: bit_imp_le_length [of b])
  then have "ucast b OR push_bit 8 y = (ucast b XOR push_bit 8 y :: uint32)" for y
    by (simp add: disjunctive_xor_eq_or)
  then show ?thesis by (simp only: nat_of_le.simps or_of_byte [symmetric])
qed

text \<open>Up to four bytes can be put into the state at once.\<close>

lemma crc_word: "length bs \<le> 4 \<Longrightarrow>
  fold (\<lambda>b l. crc_byte l b) bs l = (crc_bit ^^ (8 * length bs)) (l XOR word_of_nat (nat_of_le bs))"
proof (induction bs arbitrary: l)
  case (Cons b bs)
  let ?w = "word_of_nat (nat_of_le bs) :: uint32"
  have "nat_of_le bs < 256 ^ 3"
    using nat_of_le_less [of bs] Cons.prems power_increasing [of "length bs" 3 "256 :: nat"] by simp
  then have w: "?w = drop_bit 8 (push_bit 8 ?w)"
    by (simp add: word_unat_eq_iff unat_drop_bit push_bit_eq_mult unat_mult_lem [THEN iffD1] unat_of_nat)
  have "(crc_bit ^^ 8) (push_bit 8 ?w) = ?w"
    using crc_bits_push [of 8 8 "push_bit 8 ?w"] w by simp
  then have "crc_byte l b XOR ?w = (crc_bit ^^ 8) (l XOR ucast b XOR push_bit 8 ?w)"
    by (simp add: crc_byte_def linear_xor [OF linear_funpow [OF crc_bit_linear]] xor.assoc)
  moreover have "8 * length (b # bs) = 8 * length bs + 8" by simp
  ultimately show ?case using Cons
    by (simp only: fold.simps o_apply nat_of_le_word funpow_add xor.assoc)
qed simp

lemma crc_word_LE:
  assumes "4 \<le> length p"
  shows "fold (\<lambda>b l. crc_byte l b) (take 4 p) l = (crc_bit ^^ 32) (l XOR ReadUint32LE p)"
  using crc_word [of "take 4 p" l] assms
  by (simp add: ReadUint32LE_def DecodeFixed32_def kLittleEndian_def)

section \<open>The strides\<close>

text \<open>The state that four partial results stand for, when nothing is behind them.\<close>

definition stride_state :: "strides \<Rightarrow> uint32" where
  "stride_state = (\<lambda>(c0, c1, c2, c3).
     (crc_bit ^^ 32) c3 XOR (crc_bit ^^ 64) c2 XOR (crc_bit ^^ 96) c1 XOR (crc_bit ^^ 128) c0)"

lemma funpow_funpow: "(f ^^ m) ((f ^^ n) x) = (f ^^ (m + n)) x"
  by (simp add: funpow_add)

lemmas crc_linear = linear_xor [OF linear_funpow [OF crc_bit_linear]]

lemma combine_state: "combine c = stride_state c"
  by (cases c) (simp add: combine_def stride_state_def STEP4W_crc crc_linear funpow_funpow)

lemma stride_step:
  assumes "4 \<le> length p"
  shows "stride_state (c1, c2, c3, STEP4 p c0) =
    fold (\<lambda>b l. crc_byte l b) (take 4 p) (stride_state (c0, c1, c2, c3))"
  unfolding crc_word_LE [OF assms]
  by (simp add: stride_state_def STEP4_crc crc_linear funpow_funpow ac_simps)

lemma word_loop_state:
  "word_loop c p = (c', p') \<Longrightarrow> \<exists>q. p = q @ p' \<and>
     stride_state c' = fold (\<lambda>b l. crc_byte l b) q (stride_state c)"
proof (induction c p rule: word_loop.induct)
  case (1 c p)
  obtain c0 c1 c2 c3 where c: "c = (c0, c1, c2, c3)" by (cases c) auto
  show ?case
  proof (cases "4 \<le> length p")
    case True
    with 1(2) c have "word_loop (c1, c2, c3, STEP4 p c0) (drop 4 p) = (c', p')"
      by (simp add: word_loop.simps [of "(c0, c1, c2, c3)" p])
    with "1.IH" [OF True, of c0 "(c1, c2, c3)" c1 "(c2, c3)" c2 c3] c obtain q where q: "drop 4 p = q @ p'"
      "stride_state c' = fold (\<lambda>b l. crc_byte l b) q (stride_state (c1, c2, c3, STEP4 p c0))" by auto
    then have "p = (take 4 p @ q) @ p'" by (metis append_assoc append_take_drop_id)
    with q(2) stride_step [OF True] c show ?thesis by (intro exI [of _ "take 4 p @ q"]) simp
  next
    case False
    with 1(2) show ?thesis by (intro exI [of _ "[]"]) (simp add: word_loop.simps [of c p])
  qed
qed

lemma STEP16_state:
  assumes "16 \<le> length p"
  shows "stride_state (STEP16 p c) = fold (\<lambda>b l. crc_byte l b) (take 16 p) (stride_state c)"
proof -
  obtain c0 c1 c2 c3 where c: "c = (c0, c1, c2, c3)" by (cases c) auto
  have t: "take 16 p = take 4 p @ take 4 (drop 4 p) @ take 4 (drop 8 p) @ take 4 (drop 12 p)"
    by (simp add: take_add [of 4 12, simplified] take_add [of 4 8, simplified] take_add [of 4 4, simplified])
  have l: "4 \<le> length p" "4 \<le> length (drop 4 p)" "4 \<le> length (drop 8 p)" "4 \<le> length (drop 12 p)"
    using assms by simp_all
  show ?thesis unfolding t c STEP16_def fold_append o_apply case_prod_conv
    by (simp only: stride_step [OF l(1), symmetric] stride_step [OF l(2), symmetric]
        stride_step [OF l(3), symmetric] stride_step [OF l(4), symmetric])
qed

lemma swath_loop_state:
  "swath_loop c p = (c', p') \<Longrightarrow> \<exists>q. p = q @ p' \<and>
     stride_state c' = fold (\<lambda>b l. crc_byte l b) q (stride_state c)"
proof (induction c p rule: swath_loop.induct)
  case (1 c p)
  show ?case
  proof (cases "16 \<le> length p")
    case True
    with 1(2) have "swath_loop (STEP16 p c) (drop 16 p) = (c', p')" by (simp add: swath_loop.simps [of c p])
    from "1.IH" [OF True this] obtain q where q: "drop 16 p = q @ p'"
      "stride_state c' = fold (\<lambda>b l. crc_byte l b) q (stride_state (STEP16 p c))" by blast
    then have "p = (take 16 p @ q) @ p'" by (metis append_assoc append_take_drop_id)
    with q(2) STEP16_state [OF True] show ?thesis by (intro exI [of _ "take 16 p @ q"]) simp
  next
    case False
    with 1(2) show ?thesis by (intro exI [of _ "[]"]) (simp add: swath_loop.simps [of c p])
  qed
qed

lemma extend_swaths_state:
  "extend_swaths l p = (l', p') \<Longrightarrow>
     fold (\<lambda>b l. crc_byte l b) p l = fold (\<lambda>b l. crc_byte l b) p' l'"
proof -
  assume e: "extend_swaths l p = (l', p')"
  show ?thesis
  proof (cases "16 \<le> length p")
    case True
    let ?c = "(ReadUint32LE p XOR l, ReadUint32LE (drop 4 p), ReadUint32LE (drop 8 p), ReadUint32LE (drop 12 p))"
    obtain c1 p1 where s: "swath_loop ?c (drop 16 p) = (c1, p1)" by fastforce
    obtain c2 where w: "word_loop c1 p1 = (c2, p')" and l: "l' = combine c2"
      using e True s by (auto simp: extend_swaths_def split: prod.splits)
    have first: "stride_state ?c = fold (\<lambda>b l. crc_byte l b) (take 16 p) l"
    proof -
      have t: "take 16 p = take 4 p @ take 4 (drop 4 p) @ take 4 (drop 8 p) @ take 4 (drop 12 p)"
        by (simp add: take_add [of 4 12, simplified] take_add [of 4 8, simplified] take_add [of 4 4, simplified])
      have l: "4 \<le> length p" "4 \<le> length (drop 4 p)" "4 \<le> length (drop 8 p)" "4 \<le> length (drop 12 p)"
        using True by simp_all
      show ?thesis unfolding t fold_append o_apply crc_word_LE [OF l(1)] crc_word_LE [OF l(2)]
          crc_word_LE [OF l(3)] crc_word_LE [OF l(4)]
        by (simp add: stride_state_def crc_linear funpow_funpow ac_simps)
    qed
    obtain q1 where q1: "drop 16 p = q1 @ p1"
      "stride_state c1 = fold (\<lambda>b l. crc_byte l b) q1 (stride_state ?c)"
      using swath_loop_state [OF s] by blast
    obtain q2 where q2: "p1 = q2 @ p'" "stride_state c2 = fold (\<lambda>b l. crc_byte l b) q2 (stride_state c1)"
      using word_loop_state [OF w] by blast
    have "p = take 16 p @ q1 @ q2 @ p'" using q1(1) q2(1) by (metis append_take_drop_id)
    then show ?thesis
      using q1(2) q2(2) first by (metis combine_state fold_append l o_apply)
  next
    case False
    with e show ?thesis by (simp add: extend_swaths_def)
  qed
qed

lemma step1_until_state:
  "a \<le> x \<Longrightarrow> x \<le> a + length bs \<Longrightarrow> \<exists>l' p. step1_until a x l bs = Some (l', p) \<and>
     fold (\<lambda>b l. crc_byte l b) bs l = fold (\<lambda>b l. crc_byte l b) p l'"
proof (induction bs arbitrary: a l)
  case (Cons b bs)
  then show ?case using Cons.IH [of "a + 1" "STEP1 l b"] by (auto simp: STEP1_crc_byte)
qed simp

lemma RoundUp_ge: "a + 3 < 2 ^ 64 \<Longrightarrow> a \<le> RoundUp 4 a"
proof -
  assume a: "a + 3 < 2 ^ 64"
  let ?w = "word_of_nat (a + 3) :: uint64"
  have "?w = (?w AND NOT 3) + (?w AND 3)"
  proof -
    have "(?w AND NOT 3) AND (?w AND 3) = 0" by (rule bit_word_eqI) (auto simp: bit_simps)
    then have "(?w AND NOT 3) + (?w AND 3) = (?w AND NOT 3) OR (?w AND 3)"
      by (rule disjunctive_add_eq_or)
    also have "\<dots> = ?w" by (rule bit_word_eqI) (auto simp: bit_simps)
    finally show ?thesis by simp
  qed
  then have "unat ?w \<le> unat (?w AND NOT 3) + unat (?w AND 3)"
    by (metis unat_plus_if' order.refl nat_le_linear diff_le_self)
  moreover have "unat (?w AND 3) \<le> 3"
    using word_and_le1 [of ?w 3] by (simp add: word_le_nat_alt)
  moreover have "unat ?w = a + 3" using a by (simp add: unat_of_nat del: of_nat_add)
  ultimately have "a \<le> unat (?w AND NOT 3)" by linarith
  then show ?thesis by (simp add: RoundUp_def)
qed

lemma CanAccelerate_False [simp]: "\<not> CanAccelerateCRC32C"
  by (simp add: CanAccelerateCRC32C_def AcceleratedCRC32C_def)

lemma Extend_spec:
  assumes "a + length bs + 3 < 2 ^ 64"
  shows "Extend a crc bs = Some (crc32c_spec crc bs)"
proof -
  let ?l = "crc XOR kCRC32Xor" and ?x = "RoundUp 4 a"
  obtain l p where lp: "(if ?x \<le> a + length bs then step1_until a ?x ?l bs else Some (?l, bs)) = Some (l, p)"
    "fold (\<lambda>b l. crc_byte l b) bs ?l = fold (\<lambda>b l. crc_byte l b) p l"
    using step1_until_state [of a ?x bs ?l] RoundUp_ge [of a] assms by (cases "?x \<le> a + length bs") auto
  obtain l' p' where s: "extend_swaths l p = (l', p')" by fastforce
  show ?thesis
    unfolding Extend_def Let_def lp(1) using lp(2) s extend_swaths_state [OF s]
    by (simp add: crc32c_spec_def STEP1_crc_byte kCRC32Xor_def)
qed

lemma Unmask_Mask: "Unmask (Mask crc) = crc"
proof -
  have "drop_bit 17 (drop_bit 15 crc OR push_bit 17 crc) OR push_bit 15 (drop_bit 15 crc OR push_bit 17 crc) = crc"
  proof (rule bit_word_eqI)
    fix n assume "n < LENGTH(32)"
    then show "bit (drop_bit 17 (drop_bit 15 crc OR push_bit 17 crc) OR
        push_bit 15 (drop_bit 15 crc OR push_bit 17 crc)) n = bit crc n"
      by (cases "n < 15") (auto simp: bit_simps)
  qed
  then show ?thesis by (simp add: Unmask_def Mask_def)
qed

section \<open>The properties\<close>

text \<open>C14: the table-driven checksum, at whatever address its data begins, is CRC-32C as the bitwise
  definition with the reflected polynomial computes it.\<close>

theorem Extend_is_crc32c:
  assumes "a + length bs + 3 < 2 ^ 64"
  shows "Extend a crc bs = Some (crc32c_spec crc bs)"
  by (rule Extend_spec [OF assms])

theorem Extend_is_crc32c_witness:
  "Extend 5 0 [0x31, 0x32, 0x33, 0x34, 0x35, 0x36, 0x37, 0x38, 0x39] = Some 0xE3069283"
proof -
  have "crc32c_spec 0 [0x31, 0x32, 0x33, 0x34, 0x35, 0x36, 0x37, 0x38, 0x39] = 0xE3069283"
    by code_simp
  then show ?thesis
    by (subst Extend_is_crc32c) simp_all
qed

text \<open>A checksum may be taken in parts: extending the checksum of the first part by the second gives
  the checksum of both, wherever the parts are in memory.  Masking loses nothing.\<close>

theorem crc32c_in_parts:
  assumes "a + length xs + 3 < 2 ^ 64" and "b + length ys + 3 < 2 ^ 64"
    and "c + length (xs @ ys) + 3 < 2 ^ 64"
  shows "Option.bind (Value a xs) (\<lambda>crc. Extend b crc ys) = Value c (xs @ ys)
    \<and> Unmask (Mask crc) = crc"
  using Extend_spec [OF assms(1), of 0] Extend_spec [OF assms(2)] Extend_spec [OF assms(3), of 0]
  by (simp add: Value_def crc32c_spec_append Unmask_Mask)

theorem crc32c_in_parts_witness:
  "Option.bind (Value 1 [1, 2]) (\<lambda>crc. Extend 7 crc [3]) = Value 4 ([1, 2] @ [3]) \<and> Unmask (Mask 9) = 9"
  by (rule crc32c_in_parts) simp_all

end
