(* ===== verification/Ldb_Log_Writer.thy ===== *)
theory Ldb_Log_Writer
  imports Ldb_Env Ldb_Crc32c
begin

text \<open>
  The format of the write-ahead log and its writer (\<open>db/log_format.h\<close>, \<open>db/log_writer.h\<close>,
  \<open>db/log_writer.cc\<close>).  The file is a pair of operations, \<open>app\<close> for \<open>Append\<close> and \<open>fl\<close> for \<open>Flush\<close>; a
  call of theirs that does not return is \<open>Timeout\<close>, an assertion that fails \<open>Undef\<close>.  A call of
  \<open>crc32c::Extend\<close> is \<open>crc32c_spec\<close>, which it computes at every address (\<open>Ldb_Crc32c.Extend_spec\<close>).
  \<open>record_bytes\<close> is the abstract format: what a record becomes at an offset in its block.
\<close>

declare One_nat_def [simp del]

section \<open>The code\<close>

datatype RecordType = kZeroType | kFullType | kFirstType | kMiddleType | kLastType

fun type_number :: "RecordType \<Rightarrow> nat" where
  "type_number kZeroType = 0"
| "type_number kFullType = 1"
| "type_number kFirstType = 2"
| "type_number kMiddleType = 3"
| "type_number kLastType = 4"

definition kMaxRecordType :: nat where "kMaxRecordType = type_number kLastType"

definition kBlockSize :: nat where "kBlockSize = 32768"

definition kHeaderSize :: nat where "kHeaderSize = 4 + 2 + 1"

record 'f Writer =
  dest :: 'f
  block_offset :: int
  type_crc :: "uint32 list"

definition InitTypeCrc :: "uint32 list" where
  "InitTypeCrc = map (\<lambda>i. crc32c_spec 0 [word_of_nat i]) [0..<kMaxRecordType + 1]"

definition Writer_new :: "'f \<Rightarrow> 'f Writer" where
  "Writer_new d = \<lparr>dest = d, block_offset = 0, type_crc = InitTypeCrc\<rparr>"

definition Writer_new_at :: "'f \<Rightarrow> nat \<Rightarrow> 'f Writer" where
  "Writer_new_at d dest_length =
     \<lparr>dest = d, block_offset = int (dest_length mod kBlockSize), type_crc = InitTypeCrc\<rparr>"

type_synonym 'f appender = "'f \<Rightarrow> byte list \<Rightarrow> (Status \<times> 'f) option"
type_synonym 'f flusher = "'f \<Rightarrow> (Status \<times> 'f) option"

text \<open>\<open>assert\<close> and a call of the file.\<close>

definition asserting :: "bool \<Rightarrow> ('a, 'e) res \<Rightarrow> ('a, 'e) res" where
  "asserting b r = (if b then r else Undef)"

definition file_call :: "(Status \<times> 'f) option \<Rightarrow> (Status \<times> 'f \<Rightarrow> ('a, 'e) res) \<Rightarrow> ('a, 'e) res" where
  "file_call x k = (case x of None \<Rightarrow> Timeout | Some r \<Rightarrow> k r)"

definition physical_header :: "uint32 \<Rightarrow> nat \<Rightarrow> RecordType \<Rightarrow> byte list" where
  "physical_header crc len t =
     EncodeFixed32 crc @ [word_of_nat (len mod 256), word_of_nat (len div 256), word_of_nat (type_number t)]"

definition EmitPhysicalRecord :: "'f appender \<Rightarrow> 'f flusher \<Rightarrow> 'f Writer \<Rightarrow> RecordType \<Rightarrow> byte list \<Rightarrow>
    (Status \<times> 'f Writer, unit) res" where
  "EmitPhysicalRecord app fl w t ptr =
     (let len = length ptr in
      asserting (len \<le> 0xffff) (asserting (block_offset w + int kHeaderSize + int len \<le> int kBlockSize) (
        let crc = Mask (crc32c_spec (type_crc w ! type_number t) ptr) in
        file_call (app (dest w) (physical_header crc len t)) (\<lambda>(s, d).
          andThen (if ok s
                   then file_call (app d ptr) (\<lambda>(s, d).
                     if ok s then file_call (fl d) (\<lambda>(s, d). Ok (s, d)) else Ok (s, d))
                   else Ok (s, d))
            (\<lambda>(s, d). Ok (s, w\<lparr>dest := d, block_offset := block_offset w + int kHeaderSize + int len\<rparr>))))))"

text \<open>The start of the loop: a block with less than a header's room is filled up.  The status of this
  append is not looked at.\<close>

definition switch_block :: "'f appender \<Rightarrow> 'f Writer \<Rightarrow> ('f Writer, unit) res" where
  "switch_block app w =
     (let leftover = int kBlockSize - block_offset w in
      asserting (0 \<le> leftover)
        (if leftover < int kHeaderSize
         then andThen (if 0 < leftover
                       then file_call (app (dest w) (take (nat leftover) [0, 0, 0, 0, 0, 0]))
                              (\<lambda>(s, d). Ok (w\<lparr>dest := d\<rparr>))
                       else Ok w)
                (\<lambda>w. Ok (w\<lparr>block_offset := 0\<rparr>))
         else Ok w))"

definition fragment_type :: "bool \<Rightarrow> bool \<Rightarrow> RecordType" where
  "fragment_type is_begin is_end =
     (if is_begin \<and> is_end then kFullType else if is_begin then kFirstType else if is_end then kLastType
      else kMiddleType)"

text \<open>One round of the loop: the status, the writer and what is left of the record.\<close>

definition add_fragment :: "'f appender \<Rightarrow> 'f flusher \<Rightarrow> 'f Writer \<Rightarrow> bool \<Rightarrow> byte list \<Rightarrow>
    (Status \<times> 'f Writer \<times> byte list, unit) res" where
  "add_fragment app fl w is_begin ptr =
     andThen (switch_block app w) (\<lambda>w.
       asserting (0 \<le> int kBlockSize - block_offset w - int kHeaderSize) (
         let avail = nat (int kBlockSize - block_offset w - int kHeaderSize);
             left = length ptr;
             fragment_length = (if left < avail then left else avail);
             t = fragment_type is_begin (left = fragment_length)
         in andThen (EmitPhysicalRecord app fl w t (take fragment_length ptr)) (\<lambda>(s, w).
              Ok (s, w, drop fragment_length ptr))))"

fun AddRecord_loop :: "nat \<Rightarrow> 'f appender \<Rightarrow> 'f flusher \<Rightarrow> 'f Writer \<Rightarrow> bool \<Rightarrow> byte list \<Rightarrow>
    (Status \<times> 'f Writer, unit) res" where
  "AddRecord_loop 0 app fl w is_begin ptr = Timeout"
| "AddRecord_loop (Suc n) app fl w is_begin ptr =
     andThen (add_fragment app fl w is_begin ptr) (\<lambda>(s, w, ptr).
       if ok s \<and> ptr \<noteq> [] then AddRecord_loop n app fl w False ptr else Ok (s, w))"

text \<open>Two rounds for every byte and one more are enough: \<open>AddRecord_record_bytes\<close> below.\<close>

definition AddRecord :: "'f appender \<Rightarrow> 'f flusher \<Rightarrow> 'f Writer \<Rightarrow> byte list \<Rightarrow>
    (Status \<times> 'f Writer, unit) res" where
  "AddRecord app fl w s = AddRecord_loop (2 * length s + 2) app fl w True s"

section \<open>The format\<close>

text \<open>A physical record, and a record that starts at the offset \<open>off\<close> of a block: filling, fragments.\<close>

definition physical :: "RecordType \<Rightarrow> byte list \<Rightarrow> byte list" where
  "physical t bs = physical_header (Mask (crc32c_spec 0 (word_of_nat (type_number t) # bs))) (length bs) t @ bs"

definition filling :: "nat \<Rightarrow> byte list" where
  "filling off = (if kBlockSize - off < kHeaderSize then replicate (kBlockSize - off) 0 else [])"

definition start_of :: "nat \<Rightarrow> nat" where
  "start_of off = (if kBlockSize - off < kHeaderSize then 0 else off)"

definition room_at :: "nat \<Rightarrow> nat" where
  "room_at off = kBlockSize - start_of off - kHeaderSize"

lemma start_of_le: "start_of off + kHeaderSize \<le> kBlockSize"
  by (auto simp: start_of_def kBlockSize_def kHeaderSize_def)

lemma room_at_next: "room_at off = 0 \<Longrightarrow> 0 < room_at (start_of off + kHeaderSize)"
  by (auto simp: room_at_def start_of_def kBlockSize_def kHeaderSize_def split: if_splits)

function record_bytes :: "nat \<Rightarrow> bool \<Rightarrow> byte list \<Rightarrow> byte list" where
  "record_bytes off is_begin bs =
     (let n = min (length bs) (room_at off) in
      filling off @ physical (fragment_type is_begin (length bs = n)) (take n bs)
      @ (if length bs = n then []
         else record_bytes (start_of off + kHeaderSize + n) False (drop n bs)))"
  by auto
termination
proof (relation "measure (\<lambda>(off, _, bs). 2 * length bs + (if room_at off = 0 then 1 else 0))")
  fix off :: nat and is_begin :: bool and bs :: "byte list" and n
  assume n: "n = min (length bs) (room_at off)" and more: "length bs \<noteq> n"
  show "((start_of off + kHeaderSize + n, False, drop n bs), off, is_begin, bs) \<in>
      measure (\<lambda>(off, _, bs). 2 * length bs + (if room_at off = 0 then 1 else 0))"
    using n more room_at_next [of off] by (cases "room_at off = 0") (auto simp: min_def split: if_splits)
qed simp

declare record_bytes.simps [simp del]

text \<open>Where a record ends in its block.\<close>

function record_end :: "nat \<Rightarrow> nat \<Rightarrow> nat" where
  "record_end off len =
     (let n = min len (room_at off); off' = start_of off + kHeaderSize + n in
      if len = n then off' else record_end off' (len - n))"
  by auto
termination
proof (relation "measure (\<lambda>(off, len). 2 * len + (if room_at off = 0 then 1 else 0))")
  fix off len n off' :: nat
  assume n: "n = min len (room_at off)" and o: "off' = start_of off + kHeaderSize + n" and more: "len \<noteq> n"
  show "((off', len - n), off, len) \<in> measure (\<lambda>(off, len). 2 * len + (if room_at off = 0 then 1 else 0))"
    using n more o room_at_next [of off] by (cases "room_at off = 0") (auto simp: min_def split: if_splits)
qed simp

declare record_end.simps [simp del]

lemma record_end_le: "record_end off len \<le> kBlockSize"
proof (induction off len rule: record_end.induct)
  case (1 off len)
  have "start_of off + kHeaderSize + room_at off = kBlockSize"
    using start_of_le [of off] by (simp add: room_at_def)
  then have "start_of off + kHeaderSize + min len (room_at off) \<le> kBlockSize" by linarith
  with 1 show ?case by (simp add: record_end.simps [of off] Let_def)
qed

section \<open>The writer produces the format\<close>

lemma type_crc_nth: "InitTypeCrc ! type_number t = crc32c_spec 0 [word_of_nat (type_number t)]"
proof -
  have "type_number t < kMaxRecordType + 1" by (cases t) (simp_all add: kMaxRecordType_def)
  then show ?thesis by (simp add: InitTypeCrc_def del: upt_Suc)
qed

context writable_file
begin

lemma switch_block_ok:
  assumes "healthy (dest w)" "block_offset w = int off" "off \<le> kBlockSize"
  shows "\<exists>w'. switch_block append w = Ok w' \<and> healthy (dest w')
    \<and> accepted (dest w') = accepted (dest w) @ filling off \<and> block_offset w' = int (start_of off)
    \<and> type_crc w' = type_crc w"
proof -
  let ?z = "take (nat (int kBlockSize - int off)) [0, 0, 0, 0, 0, 0 :: byte]"
  obtain d where d: "append (dest w) ?z = Some (OK, d)" "healthy d" "accepted d = accepted (dest w) @ ?z"
    using append_ok [OF assms(1)] by blast
  have z: "?z = replicate (kBlockSize - off) 0" if "kBlockSize - off < kHeaderSize"
  proof -
    have "[0, 0, 0, 0, 0, 0 :: byte] = replicate 6 0" by (simp add: numeral_eq_Suc)
    moreover have "nat (int kBlockSize - int off) = kBlockSize - off" using assms(3) by simp
    ultimately show ?thesis using that by (simp add: kHeaderSize_def)
  qed
  have cond: "int kBlockSize - int off < int kHeaderSize \<longleftrightarrow> kBlockSize - off < kHeaderSize"
    "0 < int kBlockSize - int off \<longleftrightarrow> kBlockSize - off \<noteq> 0" "0 \<le> int kBlockSize - int off"
    using assms(3) by linarith+
  show ?thesis
    using d assms z
    by (auto simp: switch_block_def Let_def asserting_def cond file_call_def filling_def start_of_def
        cong: if_cong)
qed

lemma Emit_ok:
  assumes "healthy (dest w)" "block_offset w = int off" "off + kHeaderSize + length ptr \<le> kBlockSize"
    and "type_crc w = InitTypeCrc"
  shows "\<exists>w'. EmitPhysicalRecord append flush w t ptr = Ok (OK, w') \<and> healthy (dest w')
    \<and> accepted (dest w') = accepted (dest w) @ physical t ptr \<and> stored (dest w') = accepted (dest w')
    \<and> block_offset w' = int (off + kHeaderSize + length ptr) \<and> type_crc w' = InitTypeCrc"
proof -
  let ?h = "physical_header (Mask (crc32c_spec 0 (word_of_nat (type_number t) # ptr))) (length ptr) t"
  obtain d1 where d1: "append (dest w) ?h = Some (OK, d1)" "healthy d1" "accepted d1 = accepted (dest w) @ ?h"
    using append_ok [OF assms(1)] by blast
  obtain d2 where d2: "append d1 ptr = Some (OK, d2)" "healthy d2" "accepted d2 = accepted d1 @ ptr"
    using append_ok [OF d1(2)] by blast
  obtain d3 where d3: "flush d2 = Some (OK, d3)" "healthy d3" "accepted d3 = accepted d2"
    "stored d3 = accepted d2"
    using flush_ok [OF d2(2)] by blast
  have crc: "crc32c_spec (InitTypeCrc ! type_number t) ptr = crc32c_spec 0 (word_of_nat (type_number t) # ptr)"
    using crc32c_spec_append [of 0 "[word_of_nat (type_number t)]" ptr] by (simp add: type_crc_nth)
  have "length ptr \<le> 0xffff" using assms(3) by (simp add: kBlockSize_def)
  then show ?thesis
    using d1 d2 d3 assms(2-4)
    by (simp add: EmitPhysicalRecord_def Let_def asserting_def crc file_call_def physical_def)
qed

lemma add_fragment_ok:
  fixes ptr :: "byte list" and off :: nat
  assumes "healthy (dest w)" "block_offset w = int off" "off \<le> kBlockSize" "type_crc w = InitTypeCrc"
  defines "n \<equiv> min (length ptr) (room_at off)"
  shows "\<exists>w'. add_fragment append flush w is_first ptr = Ok (OK, w', drop n ptr) \<and> healthy (dest w')
    \<and> accepted (dest w') = accepted (dest w) @ filling off
        @ physical (fragment_type is_first (length ptr = n)) (take n ptr)
    \<and> stored (dest w') = accepted (dest w')
    \<and> block_offset w' = int (start_of off + kHeaderSize + n) \<and> type_crc w' = InitTypeCrc"
proof -
  obtain w1 where w1: "switch_block append w = Ok w1" "healthy (dest w1)"
    "accepted (dest w1) = accepted (dest w) @ filling off" "block_offset w1 = int (start_of off)"
    "type_crc w1 = InitTypeCrc"
    using switch_block_ok [OF assms(1-3)] assms(4) by auto
  have r: "nat (int kBlockSize - int (start_of off) - int kHeaderSize) = room_at off"
    "0 \<le> int kBlockSize - int (start_of off) - int kHeaderSize"
    using start_of_le [of off] by (simp_all add: room_at_def)
  have n: "(if length ptr < room_at off then length ptr else room_at off) = n" by (simp add: n_def)
  have l: "length (take n ptr) = n" by (simp add: n_def)
  have fit: "start_of off + kHeaderSize + length (take n ptr) \<le> kBlockSize"
    using start_of_le [of off] unfolding l by (simp add: n_def room_at_def)
  obtain w2 where "EmitPhysicalRecord append flush w1 (fragment_type is_first (length ptr = n)) (take n ptr)
      = Ok (OK, w2)" "healthy (dest w2)"
    "accepted (dest w2) = accepted (dest w1) @ physical (fragment_type is_first (length ptr = n)) (take n ptr)"
    "stored (dest w2) = accepted (dest w2)"
    "block_offset w2 = int (start_of off + kHeaderSize + n)" "type_crc w2 = InitTypeCrc"
    using Emit_ok [OF w1(2,4) fit w1(5)] unfolding l by blast
  moreover have "add_fragment append flush w is_first ptr =
      andThen (EmitPhysicalRecord append flush w1 (fragment_type is_first (length ptr = n)) (take n ptr))
        (\<lambda>(s, w). Ok (s, w, drop n ptr))"
    unfolding add_fragment_def w1(1) andThen.simps w1(4) r(1) Let_def n asserting_def
    by (simp only: r(2) if_True)
  ultimately show ?thesis using w1(3) by simp
qed

lemma AddRecord_loop_ok:
  "healthy (dest w) \<Longrightarrow> block_offset w = int off \<Longrightarrow> off \<le> kBlockSize \<Longrightarrow> type_crc w = InitTypeCrc \<Longrightarrow>
   2 * length ptr + (if room_at off = 0 then 1 else 0) < n \<Longrightarrow>
   \<exists>w'. AddRecord_loop n append flush w is_first ptr = Ok (OK, w') \<and> healthy (dest w')
    \<and> accepted (dest w') = accepted (dest w) @ record_bytes off is_first ptr
    \<and> stored (dest w') = accepted (dest w')
    \<and> block_offset w' = int (record_end off (length ptr)) \<and> type_crc w' = InitTypeCrc"
proof (induction n arbitrary: w off is_first ptr)
  case (Suc n)
  define m where "m = min (length ptr) (room_at off)"
  let ?off = "start_of off + kHeaderSize + m"
  obtain w1 where w1: "add_fragment append flush w is_first ptr = Ok (OK, w1, drop m ptr)" "healthy (dest w1)"
    "accepted (dest w1) = accepted (dest w) @ filling off
        @ physical (fragment_type is_first (length ptr = m)) (take m ptr)"
    "stored (dest w1) = accepted (dest w1)"
    "block_offset w1 = int ?off" "type_crc w1 = InitTypeCrc"
    using add_fragment_ok [OF Suc.prems(1-4), of is_first ptr] unfolding m_def by blast
  have rb: "record_bytes off is_first ptr = filling off @
      physical (fragment_type is_first (length ptr = m)) (take m ptr) @
      (if length ptr = m then [] else record_bytes ?off False (drop m ptr))"
    "record_end off (length ptr) = (if length ptr = m then ?off else record_end ?off (length ptr - m))"
    by (simp_all only: record_bytes.simps [of off] record_end.simps [of off] m_def Let_def)
  show ?case
  proof (cases "length ptr = m")
    case True
    with w1 rb(2) show ?thesis by (simp add: rb(1))
  next
    case False
    have "?off \<le> kBlockSize" using start_of_le [of off] by (simp add: m_def room_at_def)
    moreover have "2 * length (drop m ptr) + (if room_at ?off = 0 then 1 else 0) < n"
      using Suc.prems(5) False room_at_next [of off]
      by (cases "room_at off = 0") (auto simp: m_def min_def split: if_splits)
    ultimately obtain w2 where "AddRecord_loop n append flush w1 False (drop m ptr) = Ok (OK, w2)"
      "healthy (dest w2)" "accepted (dest w2) = accepted (dest w1) @ record_bytes ?off False (drop m ptr)"
      "stored (dest w2) = accepted (dest w2)"
      "block_offset w2 = int (record_end ?off (length (drop m ptr)))" "type_crc w2 = InitTypeCrc"
      using Suc.IH [OF w1(2,5) _ w1(6)] by blast
    moreover have "drop m ptr \<noteq> []" using False by (simp add: m_def)
    ultimately show ?thesis using False w1 by (simp add: rb)
  qed
qed simp

theorem AddRecord_ok:
  assumes "healthy (dest w)" "block_offset w = int off" "off \<le> kBlockSize" "type_crc w = InitTypeCrc"
  shows "\<exists>w'. AddRecord append flush w s = Ok (OK, w') \<and> healthy (dest w')
    \<and> accepted (dest w') = accepted (dest w) @ record_bytes off True s
    \<and> stored (dest w') = accepted (dest w')
    \<and> block_offset w' = int (record_end off (length s)) \<and> type_crc w' = InitTypeCrc"
  unfolding AddRecord_def using assms by (intro AddRecord_loop_ok) auto

end

end
