(* ===== verification/Ldb_Log_Reader.thy ===== *)
theory Ldb_Log_Reader
  imports Ldb_Log_Writer
begin

text \<open>
  The reader of the write-ahead log (\<open>db/log_reader.h\<close>, \<open>db/log_reader.cc\<close>).  The file is a pair of
  operations, \<open>rd\<close> for \<open>Read\<close> and \<open>sk\<close> for \<open>Skip\<close>.  Offsets are 64-bit words, as in the code, and so
  is the arithmetic that decides whether a drop is reported.  The loop of \<open>ReadRecord\<close> has a fuel;
  each round takes at least a header's bytes from what is buffered or ahead, so any fuel above the
  length of the file is enough (\<open>ReadRecord_returns\<close>).
\<close>

declare One_nat_def [simp del]

section \<open>The code\<close>

record 'f Reader =
  log_file :: 'f
  reporter :: bool
  reports :: "(nat \<times> Status) list"
  checksum :: bool
  buffer :: "byte list"
  eof :: bool
  last_record_offset :: uint64
  end_of_buffer_offset :: uint64
  initial_offset :: uint64
  resyncing :: bool

type_synonym 'f reading = "'f \<Rightarrow> nat \<Rightarrow> (Status \<times> byte list option \<times> 'f) option"
type_synonym 'f skipping = "'f \<Rightarrow> nat \<Rightarrow> Status \<times> 'f"

definition Reader_new :: "'f \<Rightarrow> bool \<Rightarrow> bool \<Rightarrow> uint64 \<Rightarrow> 'f Reader" where
  "Reader_new f rep chk init =
     \<lparr>log_file = f, reporter = rep, reports = [], checksum = chk, buffer = [], eof = False,
      last_record_offset = 0, end_of_buffer_offset = 0, initial_offset = init, resyncing = (0 < init)\<rparr>"

definition kEof :: uint32 where "kEof = word_of_nat (kMaxRecordType + 1)"
definition kBadRecord :: uint32 where "kBadRecord = word_of_nat (kMaxRecordType + 2)"

definition ReportDrop :: "'f Reader \<Rightarrow> uint64 \<Rightarrow> Status \<Rightarrow> 'f Reader" where
  "ReportDrop r bytes reason =
     (if reporter r
         \<and> initial_offset r \<le> end_of_buffer_offset r - word_of_nat (length (buffer r)) - bytes
      then r\<lparr>reports := reports r @ [(unat bytes, reason)]\<rparr> else r)"

definition ReportCorruption :: "'f Reader \<Rightarrow> uint64 \<Rightarrow> byte list \<Rightarrow> 'f Reader" where
  "ReportCorruption r bytes reason = ReportDrop r bytes (Corruption reason [])"

definition SkipToInitialBlock :: "'f skipping \<Rightarrow> 'f Reader \<Rightarrow> bool \<times> 'f Reader" where
  "SkipToInitialBlock sk r =
     (let offset_in_block = initial_offset r mod word_of_nat kBlockSize;
          block_start_location = initial_offset r - offset_in_block;
          block_start_location =
            (if kBlockSize - 6 < unat offset_in_block then block_start_location + word_of_nat kBlockSize
             else block_start_location);
          r = r\<lparr>end_of_buffer_offset := block_start_location\<rparr>
      in if 0 < block_start_location
         then case sk (log_file r) (unat block_start_location) of (skip_status, f) \<Rightarrow>
           (let r = r\<lparr>log_file := f\<rparr> in
            if \<not> ok skip_status then (False, ReportDrop r block_start_location skip_status)
            else (True, r))
         else (True, r))"

text \<open>The part of \<open>ReadPhysicalRecord\<close> behind the refill: the type or one of the special values, the
  slice where \<open>*result\<close> is assigned, and the reader.\<close>

definition parse_physical :: "'f Reader \<Rightarrow> uint32 \<times> byte list option \<times> 'f Reader" where
  "parse_physical r =
     (let header = buffer r;
          a = ucast (header ! 4) AND 0xff :: uint32;
          b = ucast (header ! 5) AND 0xff :: uint32;
          type = scast (header ! 6) :: uint32;
          len = a OR push_bit 8 b
      in if length (buffer r) < kHeaderSize + unat len
         then let drop_size = word_of_nat (length (buffer r)); r = r\<lparr>buffer := []\<rparr> in
           (if \<not> eof r then (kBadRecord, None, ReportCorruption r drop_size (str ''bad record length''))
            else (kEof, None, r))
         else if type = 0 \<and> len = 0 then (kBadRecord, None, r\<lparr>buffer := []\<rparr>)
         else if checksum r \<and>
             crc32c_spec 0 (take (1 + unat len) (drop 6 header)) \<noteq> Unmask (DecodeFixed32 header)
         then let drop_size = word_of_nat (length (buffer r)); r = r\<lparr>buffer := []\<rparr> in
           (kBadRecord, None, ReportCorruption r drop_size (str ''checksum mismatch''))
         else let r = r\<lparr>buffer := drop (kHeaderSize + unat len) (buffer r)\<rparr> in
           if end_of_buffer_offset r - word_of_nat (length (buffer r)) - word_of_nat kHeaderSize - ucast len
              < initial_offset r
           then (kBadRecord, Some [], r)
           else (type, Some (take (unat len) (drop kHeaderSize header)), r))"

text \<open>The refill; \<open>Inl\<close> when the code goes on with the loop.\<close>

definition refill :: "'f reading \<Rightarrow> 'f Reader \<Rightarrow> ('f Reader + uint32 \<times> byte list option \<times> 'f Reader) option"
where
  "refill rd r =
     (let r = r\<lparr>buffer := []\<rparr> in
      case rd (log_file r) kBlockSize of
        None \<Rightarrow> None
      | Some (status, result, f) \<Rightarrow>
          let buf = (case result of None \<Rightarrow> [] | Some bs \<Rightarrow> bs);
              r = r\<lparr>log_file := f, buffer := buf,
                    end_of_buffer_offset := end_of_buffer_offset r + word_of_nat (length buf)\<rparr>
          in Some (if \<not> ok status
                   then Inr (kEof, None,
                     (ReportDrop (r\<lparr>buffer := []\<rparr>) (word_of_nat kBlockSize) status)\<lparr>eof := True\<rparr>)
                   else Inl (if length buf < kBlockSize then r\<lparr>eof := True\<rparr> else r)))"

function ReadPhysicalRecord :: "'f reading \<Rightarrow> 'f Reader \<Rightarrow>
    (uint32 \<times> byte list option \<times> 'f Reader, unit) res" where
  "ReadPhysicalRecord rd r =
     (if length (buffer r) < kHeaderSize
      then if \<not> eof r
           then case refill rd r of
               None \<Rightarrow> Timeout
             | Some (Inr res) \<Rightarrow> Ok res
             | Some (Inl r) \<Rightarrow> ReadPhysicalRecord rd r
           else Ok (kEof, None, r\<lparr>buffer := []\<rparr>)
      else Ok (parse_physical r))"
  by auto
termination
  by (relation "measure (\<lambda>(_, r). if eof r \<or> kHeaderSize \<le> length (buffer r) then 0 else 1)")
    (auto simp: refill_def Let_def kHeaderSize_def kBlockSize_def split: option.splits prod.splits if_splits)

declare ReadPhysicalRecord.simps [simp del]

record record_vars =
  scratch :: "byte list"
  in_fragmented_record :: bool
  prospective_record_offset :: uint64
  fragment :: "byte list"

datatype record_next = Continue | Return "byte list option"

text \<open>The \<open>switch\<close>.\<close>

definition partial_record :: "'f Reader \<Rightarrow> record_vars \<Rightarrow> string \<Rightarrow> 'f Reader" where
  "partial_record r v reason =
     (if in_fragmented_record v \<and> scratch v \<noteq> []
      then ReportCorruption r (word_of_nat (length (scratch v))) (str reason) else r)"

definition handle_record :: "uint32 \<Rightarrow> uint64 \<Rightarrow> 'f Reader \<Rightarrow> record_vars \<Rightarrow>
    record_next \<times> 'f Reader \<times> record_vars" where
  "handle_record t off r v =
     (if t = word_of_nat (type_number kFullType)
      then let r = partial_record r v ''partial record without end(1)'' in
        (Return (Some (fragment v)), r\<lparr>last_record_offset := off\<rparr>, v\<lparr>prospective_record_offset := off, scratch := []\<rparr>)
      else if t = word_of_nat (type_number kFirstType)
      then let r = partial_record r v ''partial record without end(2)'' in
        (Continue, r, v\<lparr>prospective_record_offset := off, scratch := fragment v, in_fragmented_record := True\<rparr>)
      else if t = word_of_nat (type_number kMiddleType)
      then (if \<not> in_fragmented_record v
            then (Continue, ReportCorruption r (word_of_nat (length (fragment v)))
                    (str ''missing start of fragmented record(1)''), v)
            else (Continue, r, v\<lparr>scratch := scratch v @ fragment v\<rparr>))
      else if t = word_of_nat (type_number kLastType)
      then (if \<not> in_fragmented_record v
            then (Continue, ReportCorruption r (word_of_nat (length (fragment v)))
                    (str ''missing start of fragmented record(2)''), v)
            else let v = v\<lparr>scratch := scratch v @ fragment v\<rparr> in
              (Return (Some (scratch v)), r\<lparr>last_record_offset := prospective_record_offset v\<rparr>, v))
      else if t = kEof
      then (Return None, r, if in_fragmented_record v then v\<lparr>scratch := []\<rparr> else v)
      else if t = kBadRecord
      then (if in_fragmented_record v
            then (Continue, ReportCorruption r (word_of_nat (length (scratch v)))
                    (str ''error in middle of record''), v\<lparr>in_fragmented_record := False, scratch := []\<rparr>)
            else (Continue, r, v))
      else (Continue,
            ReportCorruption r
              (word_of_nat (length (fragment v) + (if in_fragmented_record v then length (scratch v) else 0)))
              (str ''unknown record type '' @ decimal (unat t)),
            v\<lparr>in_fragmented_record := False, scratch := []\<rparr>))"

definition record_round :: "'f reading \<Rightarrow> 'f Reader \<Rightarrow> record_vars \<Rightarrow>
    (record_next \<times> 'f Reader \<times> record_vars, unit) res" where
  "record_round rd r v =
     andThen (ReadPhysicalRecord rd r) (\<lambda>(t, result, r).
       let v = (case result of None \<Rightarrow> v | Some bs \<Rightarrow> v\<lparr>fragment := bs\<rparr>);
           off = end_of_buffer_offset r - word_of_nat (length (buffer r)) - word_of_nat kHeaderSize
                 - word_of_nat (length (fragment v))
       in if resyncing r \<and> t = word_of_nat (type_number kMiddleType) then Ok (Continue, r, v)
          else if resyncing r \<and> t = word_of_nat (type_number kLastType)
          then Ok (Continue, r\<lparr>resyncing := False\<rparr>, v)
          else Ok (handle_record t off (r\<lparr>resyncing := False\<rparr>) v))"

fun ReadRecord_loop :: "nat \<Rightarrow> 'f reading \<Rightarrow> 'f Reader \<Rightarrow> record_vars \<Rightarrow>
    (byte list option \<times> 'f Reader, unit) res" where
  "ReadRecord_loop 0 rd r v = Timeout"
| "ReadRecord_loop (Suc n) rd r v =
     andThen (record_round rd r v) (\<lambda>(next, r, v). case next of
         Return result \<Rightarrow> Ok (result, r)
       | Continue \<Rightarrow> ReadRecord_loop n rd r v)"

definition ReadRecord :: "nat \<Rightarrow> 'f reading \<Rightarrow> 'f skipping \<Rightarrow> 'f Reader \<Rightarrow>
    (byte list option \<times> 'f Reader, unit) res" where
  "ReadRecord n rd sk r =
     (let v = \<lparr>scratch = [], in_fragmented_record = False, prospective_record_offset = 0, fragment = []\<rparr> in
      if last_record_offset r < initial_offset r
      then case SkipToInitialBlock sk r of (found, r) \<Rightarrow>
        (if found then ReadRecord_loop n rd r v else Ok (None, r))
      else ReadRecord_loop n rd r v)"

definition LastRecordOffset :: "'f Reader \<Rightarrow> uint64" where
  "LastRecordOffset r = last_record_offset r"

end
