(* ===== verification/Ldb_Log.thy ===== *)
theory Ldb_Log
  imports Ldb_Log_Reader
begin

text \<open>
  The log reader against the format: on a healthy file it returns the records of the log in order, and
  on a log that was cut off at any byte, as a crash of the writer leaves it, the records that are
  complete, without a report of corruption.  \<open>reader_at\<close> says where in the file a reader stands: at
  the offset \<open>off\<close> of a block, with \<open>data\<close> from there to the end of the file.
\<close>

declare One_nat_def [simp del]

definition reader_at :: "('f \<Rightarrow> bool) \<Rightarrow> ('f \<Rightarrow> byte list) \<Rightarrow> 'f Reader \<Rightarrow> nat \<Rightarrow> byte list \<Rightarrow> bool"
where
  "reader_at healthy ahead r off data \<longleftrightarrow>
     healthy (log_file r) \<and> initial_offset r = 0 \<and> \<not> resyncing r \<and> off \<le> kBlockSize
     \<and> buffer r = take (kBlockSize - off) data \<and> ahead (log_file r) = drop (kBlockSize - off) data
     \<and> (eof r \<longleftrightarrow> length data < kBlockSize - off)"

section \<open>Physical records\<close>

lemma length_physical_header [simp]: "length (physical_header crc n t) = kHeaderSize"
  by (simp add: physical_header_def kHeaderSize_def)

lemma length_physical [simp]: "length (physical t bs) = kHeaderSize + length bs"
  by (simp add: physical_def)

lemma header_nth:
  "(physical_header crc n t @ bs) ! 4 = word_of_nat (n mod 256)"
  "(physical_header crc n t @ bs) ! 5 = word_of_nat (n div 256)"
  "(physical_header crc n t @ bs) ! 6 = word_of_nat (type_number t)"
  by (simp_all add: physical_header_def nth_append)

lemma type_signed: "scast (word_of_nat (type_number t) :: byte) = (word_of_nat (type_number t) :: uint32)"
  by (cases t) simp_all

lemma length_field:
  "n \<le> 0xffff \<Longrightarrow> unat ((ucast (word_of_nat (n mod 256) :: byte) AND 0xff) OR
     push_bit 8 (ucast (word_of_nat (n div 256) :: byte) AND 0xff) :: uint32) = n"
proof -
  assume n: "n \<le> 0xffff"
  have a: "ucast b AND 0xff = (ucast b :: uint32)" for b :: byte
    by (rule bit_word_eqI) (auto simp: and_255 bit_simps dest: bit_imp_le_length)
  have g: "ucast b = (word_of_nat (unat b) :: uint32)" for b :: byte by simp
  have "n div 256 mod 256 = n div 256" using n by simp
  then have d: "(ucast (word_of_nat (n div 256) :: byte) :: uint32) = word_of_nat (n div 256)"
    by (simp only: g unat_byte_of_nat)
  show ?thesis
    using or_of_byte [of "word_of_nat (n mod 256)" "n div 256", where ?'a = 32] n
    unfolding a unfolding d unat_byte_of_nat by (simp add: unat_of_nat)
qed

text \<open>A physical record with any type byte but 0.\<close>

definition raw_physical :: "byte \<Rightarrow> byte list \<Rightarrow> byte list" where
  "raw_physical ty bs = EncodeFixed32 (Mask (crc32c_spec 0 (ty # bs)))
     @ [word_of_nat (length bs mod 256), word_of_nat (length bs div 256), ty] @ bs"

lemma physical_raw: "physical t bs = raw_physical (word_of_nat (type_number t)) bs"
  by (simp add: physical_def physical_header_def raw_physical_def)

lemma parse_physical_raw:
  assumes "buffer r = raw_physical ty bs @ rest" "length bs \<le> 0xffff" "ty \<noteq> 0" "initial_offset r = 0"
  shows "parse_physical r = (scast ty, Some bs, r\<lparr>buffer := rest\<rparr>)"
proof -
  let ?le = "le_of_nat 4 (unat (Mask (crc32c_spec 0 (ty # bs))))"
  let ?lo = "word_of_nat (length bs mod 256) :: byte" and ?hi = "word_of_nat (length bs div 256) :: byte"
  have h: "buffer r = ?le @ ?lo # ?hi # ty # bs @ rest" using assms(1) by (simp add: raw_physical_def)
  have n: "buffer r ! 4 = ?lo" "buffer r ! 5 = ?hi" "buffer r ! 6 = ty"
    by (simp_all add: h nth_append)
  have "drop 6 (buffer r) = ty # bs @ rest" by (simp add: h)
  then have c: "take (1 + length bs) (drop 6 (buffer r)) = ty # bs" by (simp add: One_nat_def)
  have u: "Unmask (DecodeFixed32 (buffer r)) = crc32c_spec 0 (ty # bs)"
    by (simp add: h DecodeFixed32_le Unmask_Mask)
  have d: "drop kHeaderSize (buffer r) = bs @ rest" "length (buffer r) = kHeaderSize + length bs + length rest"
    by (simp_all add: h kHeaderSize_def)
  then have "drop (kHeaderSize + length bs) (buffer r) = rest"
    by (metis add.commute append_eq_conv_conj drop_drop)
  moreover have "(scast ty :: uint32) \<noteq> 0"
  proof
    assume "(scast ty :: uint32) = 0"
    moreover have "ucast (scast ty :: uint32) = ty" by (rule bit_word_eqI) (auto simp: bit_simps)
    ultimately show False using assms(3) by simp
  qed
  ultimately show ?thesis
    using length_field [OF assms(2)] c u d assms(4)
    by (simp add: parse_physical_def Let_def n)
qed

lemma parse_physical_complete:
  assumes "buffer r = physical t bs @ rest" "length bs \<le> 0xffff" "t \<noteq> kZeroType" "initial_offset r = 0"
  shows "parse_physical r = (word_of_nat (type_number t), Some bs, r\<lparr>buffer := rest\<rparr>)"
proof -
  have "(word_of_nat (type_number t) :: byte) \<noteq> 0" using assms(3) by (cases t) simp_all
  then show ?thesis
    using parse_physical_raw [of r "word_of_nat (type_number t)" bs rest] assms
    by (simp add: physical_raw type_signed)
qed

lemma parse_physical_short:
  assumes "buffer r = take k (physical t bs)" "length bs \<le> 0xffff" "kHeaderSize \<le> k"
    "k < kHeaderSize + length bs" "eof r"
  shows "parse_physical r = (kEof, None, r\<lparr>buffer := []\<rparr>)"
proof -
  let ?crc = "Mask (crc32c_spec 0 (word_of_nat (type_number t) # bs))"
  have h: "buffer r = physical_header ?crc (length bs) t @ take (k - kHeaderSize) bs"
    using assms(1,3) by (simp add: physical_def)
  show ?thesis
    using length_field [OF assms(2)] assms(3-5)
    by (simp add: parse_physical_def Let_def h header_nth)
qed

context sequential_file
begin

lemma read_record_end_of_file:
  assumes "reader_at healthy ahead r off data" "length data < kHeaderSize" "length data < kBlockSize - off"
  shows "ReadPhysicalRecord read r = Ok (kEof, None, r\<lparr>buffer := []\<rparr>)"
  using assms by (simp add: reader_at_def ReadPhysicalRecord.simps [of read r])

lemma refill_ok:
  assumes "reader_at healthy ahead r off data" "\<not> eof r"
  shows "\<exists>r'. refill read r = Some (Inl r') \<and> reader_at healthy ahead r' 0 (drop (kBlockSize - off) data)
    \<and> reports r' = reports r"
proof -
  obtain f where f: "read (log_file r) kBlockSize = Some (OK, Some (take kBlockSize (ahead (log_file r))), f)"
    "healthy f" "ahead f = drop kBlockSize (ahead (log_file r))"
    using read_ok assms(1) unfolding reader_at_def by blast
  then show ?thesis using assms by (auto simp: refill_def Let_def reader_at_def min_def)
qed

text \<open>Behind less than a header's room the next block is read first.\<close>

lemma next_block:
  assumes "reader_at healthy ahead r off data" "kBlockSize - off < kHeaderSize" "kBlockSize - off \<le> length data"
  shows "\<exists>r'. ReadPhysicalRecord read r = ReadPhysicalRecord read r'
    \<and> reader_at healthy ahead r' 0 (drop (kBlockSize - off) data) \<and> reports r' = reports r"
proof -
  have e: "\<not> eof r" "length (buffer r) < kHeaderSize" using assms by (auto simp: reader_at_def)
  obtain r' where "refill read r = Some (Inl r')" "reader_at healthy ahead r' 0 (drop (kBlockSize - off) data)"
    "reports r' = reports r"
    using refill_ok [OF assms(1) e(1)] by blast
  with e show ?thesis
    by (intro exI [of _ r']) (simp add: ReadPhysicalRecord.simps [of read r])
qed

lemma read_complete:
  assumes "reader_at healthy ahead r off (physical t bs @ data)" "off + kHeaderSize + length bs \<le> kBlockSize"
    "t \<noteq> kZeroType"
  shows "\<exists>r'. ReadPhysicalRecord read r = Ok (word_of_nat (type_number t), Some bs, r')
    \<and> reader_at healthy ahead r' (off + kHeaderSize + length bs) data \<and> reports r' = reports r"
proof -
  let ?n = "kHeaderSize + length bs"
  have b: "buffer r = physical t bs @ take (kBlockSize - off - ?n) data"
    using assms(1,2) by (simp add: reader_at_def)
  have l: "length bs \<le> 0xffff" using assms(2) by (simp add: kBlockSize_def)
  have i: "initial_offset r = 0" using assms(1) by (simp add: reader_at_def)
  have "ReadPhysicalRecord read r =
      Ok (word_of_nat (type_number t), Some bs, r\<lparr>buffer := take (kBlockSize - off - ?n) data\<rparr>)"
    using parse_physical_complete [OF b l assms(3) i] by (simp add: ReadPhysicalRecord.simps [of read r] b)
  moreover have "reader_at healthy ahead (r\<lparr>buffer := take (kBlockSize - off - ?n) data\<rparr>) (off + ?n) data"
    using assms(1,2) by (auto simp: reader_at_def)
  ultimately show ?thesis by (auto simp: add.assoc)
qed

lemma read_cut_off:
  assumes "reader_at healthy ahead r off (take k (physical t bs))" "off + kHeaderSize + length bs \<le> kBlockSize"
    "k < kHeaderSize + length bs"
  shows "ReadPhysicalRecord read r = Ok (kEof, None, r\<lparr>buffer := []\<rparr>)"
proof (cases "k < kHeaderSize")
  case True
  then show ?thesis using read_record_end_of_file [OF assms(1)] assms(2) by simp
next
  case False
  have "buffer r = take k (physical t bs)" "eof r"
    using assms by (auto simp: reader_at_def)
  moreover have "length bs \<le> 0xffff" using assms(2) by (simp add: kBlockSize_def)
  ultimately show ?thesis using parse_physical_short [of r k t bs] False assms(3)
    by (simp add: ReadPhysicalRecord.simps [of read r])
qed

end

section \<open>Rounds of \<open>ReadRecord\<close>\<close>

definition expects :: "record_vars \<Rightarrow> bool \<Rightarrow> bool" where
  "expects v is_first \<longleftrightarrow>
     (if is_first then \<not> in_fragmented_record v \<and> scratch v = [] else in_fragmented_record v)"

lemma handle_fragment:
  assumes "expects v is_first"
  shows "\<exists>v'. handle_record (word_of_nat (type_number (fragment_type is_first is_end))) off r v =
      (if is_end then Return (Some (scratch v @ fragment v)) else Continue,
       if is_end then r\<lparr>last_record_offset := if is_first then off else prospective_record_offset v\<rparr> else r,
       v')
    \<and> (\<not> is_end \<longrightarrow> expects v' False \<and> scratch v' = scratch v @ fragment v)"
  using assms
  by (cases is_first; cases is_end) (simp_all add: handle_record_def fragment_type_def partial_record_def
      expects_def Let_def)

lemma round_fragment:
  assumes "ReadPhysicalRecord rd r = Ok (word_of_nat (type_number (fragment_type is_first is_end)), Some bs, r1)"
    and "\<not> resyncing r1" and "expects v is_first"
  shows "\<exists>off v'. record_round rd r v =
      Ok (if is_end then Return (Some (scratch v @ bs)) else Continue,
          r1\<lparr>resyncing := False, last_record_offset := off\<rparr>, v')
    \<and> (\<not> is_end \<longrightarrow> expects v' False \<and> scratch v' = scratch v @ bs)"
proof -
  let ?v = "v\<lparr>fragment := bs\<rparr>" and ?r = "r1\<lparr>resyncing := False\<rparr>"
  let ?off = "end_of_buffer_offset r1 - word_of_nat (length (buffer r1)) - word_of_nat kHeaderSize
    - word_of_nat (length bs)"
  have e: "expects ?v is_first" using assms(3) by (simp add: expects_def)
  have round: "record_round rd r v =
      Ok (handle_record (word_of_nat (type_number (fragment_type is_first is_end))) ?off ?r ?v)"
    using assms(1,2) by (simp add: record_round_def Let_def)
  obtain v' where v': "handle_record (word_of_nat (type_number (fragment_type is_first is_end))) ?off ?r ?v =
      (if is_end then Return (Some (scratch ?v @ fragment ?v)) else Continue,
       if is_end then ?r\<lparr>last_record_offset := if is_first then ?off else prospective_record_offset ?v\<rparr> else ?r,
       v')" "\<not> is_end \<longrightarrow> expects v' False \<and> scratch v' = scratch ?v @ fragment ?v"
    using handle_fragment [OF e] by blast
  show ?thesis
  proof (cases is_end)
    case True
    with v' show ?thesis unfolding round
      by (intro exI [of _ "if is_first then ?off else prospective_record_offset ?v"] exI [of _ v']) simp
  next
    case False
    with v' show ?thesis unfolding round
      by (intro exI [of _ "last_record_offset r1"] exI [of _ v']) simp
  qed
qed

lemma round_end_of_file:
  assumes "ReadPhysicalRecord rd r = Ok (kEof, None, r1)" and "\<not> resyncing r1"
  shows "\<exists>v'. record_round rd r v = Ok (Return None, r1\<lparr>resyncing := False\<rparr>, v')"
  using assms by (simp add: record_round_def Let_def handle_record_def kEof_def kMaxRecordType_def)

context sequential_file
begin

lemma reader_at_update [simp]:
  "reader_at healthy ahead r off data \<Longrightarrow>
   reader_at healthy ahead (r\<lparr>resyncing := False, last_record_offset := p\<rparr>) off data"
  by (simp add: reader_at_def)

lemma loop_end_of_file:
  assumes "ReadPhysicalRecord read r = Ok (kEof, None, r0\<lparr>buffer := []\<rparr>)"
    and "reader_at healthy ahead r0 off data" and "0 < n"
  shows "\<exists>r'. ReadRecord_loop n read r v = Ok (None, r') \<and> reports r' = reports r0"
proof -
  obtain m where n: "n = Suc m" using assms(3) by (cases n) auto
  have "\<not> resyncing (r0\<lparr>buffer := []\<rparr>)" using assms(2) by (simp add: reader_at_def)
  from round_end_of_file [OF assms(1) this, of v] obtain v' where
    "record_round read r v = Ok (Return None, r0\<lparr>buffer := [], resyncing := False\<rparr>, v')" by auto
  then show ?thesis by (simp add: n)
qed

text \<open>Past the filling of a block: the reader stands where the physical record begins.\<close>

lemma past_filling:
  assumes "reader_at healthy ahead r off (take k (filling off @ data))" "length (filling off) \<le> k"
  shows "\<exists>r'. ReadPhysicalRecord read r = ReadPhysicalRecord read r'
    \<and> reader_at healthy ahead r' (start_of off) (take (k - length (filling off)) data) \<and> reports r' = reports r"
proof (cases "kBlockSize - off < kHeaderSize")
  case True
  then have f: "length (filling off) = kBlockSize - off" "start_of off = 0"
    by (simp_all add: filling_def start_of_def)
  have "kBlockSize - off \<le> length (take k (filling off @ data))" using assms(2) f(1) by simp
  from next_block [OF assms(1) True this] f assms(2) show ?thesis by (simp add: drop_take)
next
  case False
  then have "filling off = []" "start_of off = off" by (simp_all add: filling_def start_of_def)
  with assms show ?thesis by auto
qed

lemma filling_cut_off:
  assumes "reader_at healthy ahead r off (take k (filling off @ data))" "k < length (filling off)"
  shows "ReadPhysicalRecord read r = Ok (kEof, None, r\<lparr>buffer := []\<rparr>)"
  using assms(2) by (intro read_record_end_of_file [OF assms(1)]) (auto simp: filling_def split: if_splits)

lemma read_fragments:
  "reader_at healthy ahead r off (take k (record_bytes off is_first bs @ tail)) \<Longrightarrow> expects v is_first \<Longrightarrow>
   length (take k (record_bytes off is_first bs @ tail)) < n \<Longrightarrow>
   (if length (record_bytes off is_first bs) \<le> k
    then \<exists>r'. ReadRecord_loop n read r v = Ok (Some (scratch v @ bs), r')
      \<and> reader_at healthy ahead r' (record_end off (length bs))
          (take (k - length (record_bytes off is_first bs)) tail) \<and> reports r' = reports r
    else \<exists>r'. ReadRecord_loop n read r v = Ok (None, r') \<and> reports r' = reports r)"
proof (induction off is_first bs arbitrary: r v k n rule: record_bytes.induct)
  case (1 off is_first bs)
  define m where "m = min (length bs) (room_at off)"
  define F where "F = filling off"
  define P where "P = physical (fragment_type is_first (length bs = m)) (take m bs)"
  let ?off = "start_of off + kHeaderSize + m"
  define R where "R = (if length bs = m then [] else record_bytes ?off False (drop m bs))"
  have rb: "record_bytes off is_first bs = F @ P @ R"
    "record_end off (length bs) = (if length bs = m then ?off else record_end ?off (length bs - m))"
    by (simp_all only: record_bytes.simps [of off] record_end.simps [of off] m_def Let_def F_def P_def R_def)
  obtain n' where n: "n = Suc n'" using "1.prems"(3) by (cases n) auto
  have at: "reader_at healthy ahead r off (take k (filling off @ P @ R @ tail))"
    using "1.prems"(1) by (simp add: rb F_def)
  have lP: "length P = kHeaderSize + m" by (simp add: P_def m_def)
  have fit: "start_of off + kHeaderSize + length (take m bs) \<le> kBlockSize"
    using start_of_le [of off] by (simp add: m_def room_at_def)
  show ?case
  proof (cases "length F \<le> k")
    case False
    then have "ReadPhysicalRecord read r = Ok (kEof, None, r\<lparr>buffer := []\<rparr>)"
      using filling_cut_off [OF at] by (simp add: F_def)
    from loop_end_of_file [OF this at, of n v] False show ?thesis by (simp add: rb n)
  next
    case True
    obtain r0 where r0: "ReadPhysicalRecord read r = ReadPhysicalRecord read r0" "reports r0 = reports r"
      and at0: "reader_at healthy ahead r0 (start_of off) (take (k - length F) (P @ R @ tail))"
      using past_filling [OF at] True unfolding F_def by blast
    define k0 where "k0 = k - length F"
    show ?thesis
    proof (cases "length P \<le> k0")
      case False
      then have "reader_at healthy ahead r0 (start_of off)
          (take k0 (physical (fragment_type is_first (length bs = m)) (take m bs)))"
        using at0 by (simp add: k0_def P_def)
      from read_cut_off [OF this fit] False have
        "ReadPhysicalRecord read r = Ok (kEof, None, r0\<lparr>buffer := []\<rparr>)"
        by (simp add: r0 P_def)
      from loop_end_of_file [OF this at0, of n v] False show ?thesis
        using True by (auto simp: rb n r0 k0_def)
    next
      case complete: True
      then have at1: "reader_at healthy ahead r0 (start_of off)
          (physical (fragment_type is_first (length bs = m)) (take m bs) @ take (k0 - length P) (R @ tail))"
        using at0 by (simp add: k0_def [symmetric]) (simp add: P_def)
      have tl: "length (take m bs) = m" by (simp add: m_def)
      have nz: "fragment_type is_first (length bs = m) \<noteq> kZeroType" by (simp add: fragment_type_def)
      obtain r1 where r1: "ReadPhysicalRecord read r =
          Ok (word_of_nat (type_number (fragment_type is_first (length bs = m))), Some (take m bs), r1)"
        "reader_at healthy ahead r1 ?off (take (k0 - length P) (R @ tail))" "reports r1 = reports r"
        using read_complete [OF at1 fit nz] unfolding tl r0 by (auto simp: r0)
      have nr: "\<not> resyncing r1" using r1(2) by (simp add: reader_at_def)
      obtain p v' where v': "record_round read r v =
          Ok (if length bs = m then Return (Some (scratch v @ take m bs)) else Continue,
              r1\<lparr>resyncing := False, last_record_offset := p\<rparr>, v')"
        "length bs \<noteq> m \<longrightarrow> expects v' False \<and> scratch v' = scratch v @ take m bs"
        using round_fragment [OF r1(1) nr "1.prems"(2)] by blast
      let ?r2 = "r1\<lparr>resyncing := False, last_record_offset := p\<rparr>"
      note at2 = reader_at_update [OF r1(2), of p]
      have len: "length (record_bytes off is_first bs) \<le> k \<longleftrightarrow> length R \<le> k0 - length P"
        "k - length (record_bytes off is_first bs) = k0 - length P - length R"
        using True complete by (auto simp: rb(1) k0_def)
      show ?thesis
      proof (cases "length bs = m")
        case last: True
        then have "R = []" by (simp add: R_def)
        with v' last at2 r1(3) len rb(2) show ?thesis by (simp add: n)
      next
        case False
        then have Rr: "R = record_bytes ?off False (drop m bs)" by (simp add: R_def)
        have e: "expects v' False" using v'(2) False by simp
        have l: "length (take (k0 - length P) (R @ tail)) < n'"
          using "1.prems"(3) True complete lP
          by (simp add: rb(1) n k0_def min_def kHeaderSize_def split: if_splits)
        from "1.IH" [OF m_def False at2 [unfolded Rr] e l [unfolded Rr], folded Rr]
        have "if length R \<le> k0 - length P
          then \<exists>r'. ReadRecord_loop n' read ?r2 v' = Ok (Some (scratch v' @ drop m bs), r')
            \<and> reader_at healthy ahead r' (record_end ?off (length (drop m bs)))
                (take (k0 - length P - length R) tail) \<and> reports r' = reports ?r2
          else \<exists>r'. ReadRecord_loop n' read ?r2 v' = Ok (None, r') \<and> reports r' = reports ?r2" .
        moreover have "ReadRecord_loop n read r v = ReadRecord_loop n' read ?r2 v'"
          using v'(1) False by (simp add: n)
        ultimately show ?thesis
          using v'(2) False r1(3) rb(2) by (cases "length R \<le> k0 - length P") (simp_all add: len)
      qed
    qed
  qed
qed

end

section \<open>Whole logs\<close>

text \<open>The bytes of a log, the writer's client that stops at the first error, and the reader's client
  that takes records until there are no more.\<close>

fun log_bytes :: "nat \<Rightarrow> byte list list \<Rightarrow> byte list" where
  "log_bytes off [] = []"
| "log_bytes off (s # ss) = record_bytes off True s @ log_bytes (record_end off (length s)) ss"

fun AddRecords :: "'f appender \<Rightarrow> 'f flusher \<Rightarrow> 'f Writer \<Rightarrow> byte list list \<Rightarrow> (Status \<times> 'f Writer, unit) res"
where
  "AddRecords app fl w [] = Ok (OK, w)"
| "AddRecords app fl w (s # ss) =
     andThen (AddRecord app fl w s) (\<lambda>(st, w). if ok st then AddRecords app fl w ss else Ok (st, w))"

fun ReadRecords :: "nat \<Rightarrow> nat \<Rightarrow> 'f reading \<Rightarrow> 'f skipping \<Rightarrow> 'f Reader \<Rightarrow>
    (byte list list \<times> 'f Reader, unit) res" where
  "ReadRecords n 0 rd sk r = Timeout"
| "ReadRecords n (Suc m) rd sk r =
     andThen (ReadRecord n rd sk r) (\<lambda>(result, r). case result of
         None \<Rightarrow> Ok ([], r)
       | Some s \<Rightarrow> andThen (ReadRecords n m rd sk r) (\<lambda>(ss, r). Ok (s # ss, r)))"

lemma record_bytes_start:
  "record_bytes kBlockSize b s = record_bytes 0 b s" "record_end kBlockSize n = record_end 0 n"
proof -
  have e: "filling kBlockSize = filling 0" "start_of kBlockSize = start_of 0" "room_at kBlockSize = room_at 0"
    by (simp_all add: filling_def start_of_def room_at_def kBlockSize_def kHeaderSize_def)
  show "record_bytes kBlockSize b s = record_bytes 0 b s" "record_end kBlockSize n = record_end 0 n"
    by (simp_all only: record_bytes.simps [of kBlockSize] record_bytes.simps [of 0]
        record_end.simps [of kBlockSize] record_end.simps [of 0] e)
qed

lemma log_bytes_start: "log_bytes kBlockSize ss = log_bytes 0 ss"
  by (cases ss) (simp_all add: record_bytes_start)

lemma record_bytes_long: "kHeaderSize \<le> length (record_bytes off b s)"
  by (simp add: record_bytes.simps [of off] Let_def)

context writable_file
begin

lemma AddRecords_ok:
  "healthy (dest w) \<Longrightarrow> block_offset w = int off \<Longrightarrow> off \<le> kBlockSize \<Longrightarrow> type_crc w = InitTypeCrc \<Longrightarrow>
   stored (dest w) = accepted (dest w) \<Longrightarrow>
   \<exists>w'. AddRecords append flush w ss = Ok (OK, w') \<and> healthy (dest w')
    \<and> accepted (dest w') = accepted (dest w) @ log_bytes off ss \<and> stored (dest w') = accepted (dest w')"
proof (induction ss arbitrary: w off)
  case (Cons s ss)
  obtain w1 where w1: "AddRecord append flush w s = Ok (OK, w1)" "healthy (dest w1)"
    "accepted (dest w1) = accepted (dest w) @ record_bytes off True s" "stored (dest w1) = accepted (dest w1)"
    "block_offset w1 = int (record_end off (length s))" "type_crc w1 = InitTypeCrc"
    using AddRecord_ok [OF Cons.prems(1-4)] by blast
  from Cons.IH [OF w1(2,5) record_end_le w1(6,4)] w1 show ?case by simp
qed simp

end

context sequential_file
begin

lemma ReadRecord_start:
  "reader_at healthy ahead r off data \<Longrightarrow> ReadRecord n read skip r =
     ReadRecord_loop n read r \<lparr>scratch = [], in_fragmented_record = False, prospective_record_offset = 0, fragment = []\<rparr>"
  by (simp add: ReadRecord_def reader_at_def)

lemma end_of_log:
  assumes "reader_at healthy ahead r off []" "0 < n"
  shows "\<exists>r'. ReadRecord n read skip r = Ok (None, r') \<and> reports r' = reports r"
proof -
  have h: "0 < kHeaderSize" "0 < kBlockSize" by (simp_all add: kHeaderSize_def kBlockSize_def)
  show ?thesis
  proof (cases "kBlockSize - off = 0")
    case True
    then obtain r1 where r1: "ReadPhysicalRecord read r = ReadPhysicalRecord read r1"
      "reader_at healthy ahead r1 0 []" "reports r1 = reports r"
      using next_block [OF assms(1)] h by auto
    have "ReadPhysicalRecord read r = Ok (kEof, None, r1\<lparr>buffer := []\<rparr>)"
      using read_record_end_of_file [OF r1(2)] h by (simp add: r1(1))
    from loop_end_of_file [OF this r1(2) assms(2)] show ?thesis
      by (simp add: ReadRecord_start [OF assms(1)] r1(3))
  next
    case False
    then have "ReadPhysicalRecord read r = Ok (kEof, None, r\<lparr>buffer := []\<rparr>)"
      using read_record_end_of_file [OF assms(1)] h by simp
    from loop_end_of_file [OF this assms] show ?thesis by (simp add: ReadRecord_start [OF assms(1)])
  qed
qed

lemma ReadRecords_prefix:
  "reader_at healthy ahead r off (take k (log_bytes off ss)) \<Longrightarrow>
   length (take k (log_bytes off ss)) < n \<Longrightarrow> length (take k (log_bytes off ss)) < m \<Longrightarrow>
   \<exists>j r'. ReadRecords n m read skip r = Ok (take j ss, r') \<and> reports r' = reports r \<and> j \<le> length ss
    \<and> length (log_bytes off (take j ss)) \<le> k
    \<and> (j < length ss \<longrightarrow> k < length (log_bytes off (take (Suc j) ss)))"
proof (induction ss arbitrary: r off k m)
  case Nil
  then obtain m' where "m = Suc m'" by (cases m) auto
  with end_of_log [of r off n] Nil show ?case by (auto intro!: exI [of _ 0])
next
  case (Cons s ss)
  let ?v = "\<lparr>scratch = [], in_fragmented_record = False, prospective_record_offset = 0, fragment = []\<rparr>"
  let ?rb = "record_bytes off True s" and ?off = "record_end off (length s)"
  obtain m' where m: "m = Suc m'" using Cons.prems(3) by (cases m) auto
  have at: "reader_at healthy ahead r off (take k (?rb @ log_bytes ?off ss))" using Cons.prems(1) by simp
  have e: "expects ?v True" by (simp add: expects_def)
  have l: "length (take k (?rb @ log_bytes ?off ss)) < n" using Cons.prems(2) by simp
  note rf = read_fragments [OF at e l] and st = ReadRecord_start [OF at, of n]
  show ?case
  proof (cases "length ?rb \<le> k")
    case True
    with rf obtain r1 where r1: "ReadRecord n read skip r = Ok (Some s, r1)"
      "reader_at healthy ahead r1 ?off (take (k - length ?rb) (log_bytes ?off ss))" "reports r1 = reports r"
      by (auto simp: st)
    have "length (take (k - length ?rb) (log_bytes ?off ss)) < n"
      "length (take (k - length ?rb) (log_bytes ?off ss)) < m'"
      using Cons.prems(2,3) True record_bytes_long [of off True s] by (auto simp: m kHeaderSize_def min_def split: if_splits)
    from Cons.IH [OF r1(2) this] obtain j r' where j: "ReadRecords n m' read skip r1 = Ok (take j ss, r')"
      "reports r' = reports r1" "j \<le> length ss" "length (log_bytes ?off (take j ss)) \<le> k - length ?rb"
      "j < length ss \<longrightarrow> k - length ?rb < length (log_bytes ?off (take (Suc j) ss))" by blast
    then show ?thesis using r1 True by (intro exI [of _ "Suc j"] exI [of _ r']) (auto simp: m)
  next
    case False
    with rf obtain r1 where "ReadRecord n read skip r = Ok (None, r1)" "reports r1 = reports r"
      by (auto simp: st)
    with False show ?thesis by (intro exI [of _ 0] exI [of _ r1]) (auto simp: m)
  qed
qed

lemma log_bytes_take: "length (log_bytes off (take j ss)) \<le> length (log_bytes off ss)"
proof (induction ss arbitrary: j off)
  case (Cons s ss)
  then show ?case by (cases j) auto
qed simp

lemma ReadRecords_all:
  assumes "reader_at healthy ahead r off (log_bytes off ss)" "length (log_bytes off ss) < n"
  shows "\<exists>r'. ReadRecords n n read skip r = Ok (ss, r') \<and> reports r' = reports r"
proof -
  let ?k = "length (log_bytes off ss)"
  obtain j r' where j: "ReadRecords n n read skip r = Ok (take j ss, r')" "reports r' = reports r" "j \<le> length ss"
    "j < length ss \<longrightarrow> ?k < length (log_bytes off (take (Suc j) ss))"
    using ReadRecords_prefix [of r off ?k ss n n] assms by auto
  have "\<not> j < length ss" using j(4) log_bytes_take [of off "Suc j" ss] by linarith
  with j show ?thesis by auto
qed

end

text \<open>Records, and what is behind them.\<close>

lemma andThen_Ok: "andThen x Ok = x"
  by (cases x) auto

fun log_end :: "nat \<Rightarrow> byte list list \<Rightarrow> nat" where
  "log_end off [] = off"
| "log_end off (s # ss) = log_end (record_end off (length s)) ss"

lemma log_end_start: "ss \<noteq> [] \<Longrightarrow> log_end kBlockSize ss = log_end 0 ss"
  by (cases ss) (simp_all add: record_bytes_start)

context sequential_file
begin

lemma ReadRecords_then:
  "reader_at healthy ahead r off (log_bytes off ss @ tail) \<Longrightarrow>
   length (log_bytes off ss @ tail) < n \<Longrightarrow> length (log_bytes off ss @ tail) < m \<Longrightarrow>
   \<exists>r' m'. reader_at healthy ahead r' (log_end off ss) tail \<and> reports r' = reports r \<and> length tail < m'
    \<and> ReadRecords n m read skip r = andThen (ReadRecords n m' read skip r') (\<lambda>(zs, r). Ok (ss @ zs, r))"
proof (induction ss arbitrary: r off m)
  case Nil
  then show ?case by (intro exI [of _ r] exI [of _ m]) (simp add: andThen_Ok)
next
  case (Cons s ss)
  let ?v = "\<lparr>scratch = [], in_fragmented_record = False, prospective_record_offset = 0, fragment = []\<rparr>"
  let ?rb = "record_bytes off True s" and ?off = "record_end off (length s)"
  let ?rest = "log_bytes ?off ss @ tail" and ?k = "length (log_bytes off (s # ss) @ tail)"
  obtain m' where m: "m = Suc m'" using Cons.prems(3) by (cases m) auto
  have at: "reader_at healthy ahead r off (take ?k (?rb @ ?rest))" using Cons.prems(1) by simp
  have e: "expects ?v True" by (simp add: expects_def)
  have l: "length (take ?k (?rb @ ?rest)) < n" using Cons.prems(2) by simp
  obtain r1 where r1: "ReadRecord n read skip r = Ok (Some s, r1)"
    "reader_at healthy ahead r1 ?off ?rest" "reports r1 = reports r"
    using read_fragments [OF at e l] by (auto simp: ReadRecord_start [OF at, of n])
  have "length ?rest < n" "length ?rest < m'"
    using Cons.prems(2,3) record_bytes_long [of off True s] by (auto simp: m kHeaderSize_def)
  from Cons.IH [OF r1(2) this] obtain r' m2 where ih: "reader_at healthy ahead r' (log_end ?off ss) tail"
    "reports r' = reports r1" "length tail < m2"
    "ReadRecords n m' read skip r1 = andThen (ReadRecords n m2 read skip r') (\<lambda>(zs, r). Ok (ss @ zs, r))" by blast
  have "ReadRecords n m read skip r = andThen (ReadRecords n m2 read skip r') (\<lambda>(zs, r). Ok ((s # ss) @ zs, r))"
    using r1(1) ih(4) by (simp add: m andThen_assoc case_prod_unfold)
  with ih r1(3) show ?case by auto
qed

text \<open>Bytes that begin where the filling of a block should be, and end before there is room for a header in the next one.\<close>

lemma misplaced_record_lost:
  assumes at: "reader_at healthy ahead r off (log_bytes off rs @ tail)"
    and room: "kBlockSize < log_end off rs + kHeaderSize" "log_end off rs < kBlockSize"
    and tail: "kBlockSize - log_end off rs \<le> length tail" "length tail < kBlockSize - log_end off rs + kHeaderSize"
    and n: "length (log_bytes off rs @ tail) < n"
  shows "\<exists>r'. ReadRecords n n read skip r = Ok (rs, r') \<and> reports r' = reports r"
proof -
  obtain r1 m' where r1: "reader_at healthy ahead r1 (log_end off rs) tail" "reports r1 = reports r" "length tail < m'"
    "ReadRecords n n read skip r = andThen (ReadRecords n m' read skip r1) (\<lambda>(zs, r). Ok (rs @ zs, r))"
    using ReadRecords_then [OF at n n] by blast
  obtain m2 where m2: "m' = Suc m2" using r1(3) by (cases m') auto
  have "kBlockSize - log_end off rs < kHeaderSize" using room by linarith
  from next_block [OF r1(1) this tail(1)] obtain r2 where r2: "ReadPhysicalRecord read r1 = ReadPhysicalRecord read r2"
    "reader_at healthy ahead r2 0 (drop (kBlockSize - log_end off rs) tail)" "reports r2 = reports r1" by blast
  have "length (drop (kBlockSize - log_end off rs) tail) < kHeaderSize" using tail by simp
  moreover have "kHeaderSize < kBlockSize - 0" by (simp add: kHeaderSize_def kBlockSize_def)
  ultimately have "ReadPhysicalRecord read r1 = Ok (kEof, None, r2\<lparr>buffer := []\<rparr>)"
    using read_record_end_of_file [OF r2(2)] by (simp add: r2(1))
  moreover have "0 < n" using n by simp
  ultimately obtain r3 where "ReadRecord n read skip r1 = Ok (None, r3)" "reports r3 = reports r2"
    unfolding ReadRecord_start [OF r1(1)] using loop_end_of_file [OF _ r2(2)] by blast
  then show ?thesis using r1(2,4) r2(3) by (simp add: m2)
qed

end

context writable_file
begin

text \<open>A filling that is not written leaves the record to stand where the filling should begin.\<close>

lemma AddRecord_without_filling:
  assumes "kBlockSize < off + kHeaderSize" "off < kBlockSize"
    and "append f (replicate (kBlockSize - off) 0) = Some (st, f')" "healthy f'"
  shows "\<exists>w'. AddRecord append flush \<lparr>dest = f, block_offset = int off, type_crc = InitTypeCrc\<rparr> s = Ok (OK, w')
    \<and> stored (dest w') = accepted f' @ record_bytes 0 True s"
proof -
  let ?w = "\<lparr>dest = f, block_offset = int off, type_crc = InitTypeCrc\<rparr>" and ?v = "\<lparr>dest = f', block_offset = 0, type_crc = InitTypeCrc\<rparr>"
  have "[0, 0, 0, 0, 0, 0 :: byte] = replicate 6 0" by (simp add: numeral_eq_Suc)
  moreover have n: "nat (int kBlockSize - int off) = kBlockSize - off" "int kBlockSize - int off < int kHeaderSize"
    "0 < int kBlockSize - int off" using assms(1,2) by simp_all
  ultimately have z: "take (nat (int kBlockSize - int off)) [0, 0, 0, 0, 0, 0] = replicate (kBlockSize - off) (0 :: byte)"
    using assms(1,2) by (simp add: kHeaderSize_def)
  have "switch_block append ?w = Ok ?v"
    using n(2,3) assms(3) by (simp add: switch_block_def asserting_def Let_def z [simplified n(1)] n(1) file_call_def)
  moreover have "switch_block append ?v = Ok ?v"
    by (simp add: switch_block_def asserting_def kBlockSize_def kHeaderSize_def)
  ultimately have sw: "switch_block append ?w = Ok ?v" "switch_block append ?v = Ok ?v" by blast+
  then have "add_fragment append flush ?w b ptr = add_fragment append flush ?v b ptr" for b ptr
    unfolding add_fragment_def by simp
  then have "AddRecord append flush ?w s = AddRecord append flush ?v s" by (simp add: AddRecord_def)
  with AddRecord_ok [of ?v 0 s] assms(4) show ?thesis by auto
qed

end

section \<open>Any file\<close>

lemma report_fields [simp]:
  "buffer (ReportDrop r b s) = buffer r" "log_file (ReportDrop r b s) = log_file r"
  "eof (ReportDrop r b s) = eof r"
  "buffer (ReportCorruption r b m) = buffer r" "log_file (ReportCorruption r b m) = log_file r"
  by (simp_all add: ReportDrop_def ReportCorruption_def)

lemma parse_physical_progress:
  assumes "kHeaderSize \<le> length (buffer r)"
  shows "\<exists>t res r'. parse_physical r = (t, res, r') \<and> log_file r' = log_file r
    \<and> length (buffer r') < length (buffer r)"
proof -
  have "0 < kHeaderSize" by (simp add: kHeaderSize_def)
  then have "buffer r \<noteq> []" "0 < length (buffer r)" using assms by auto
  then show ?thesis using assms \<open>0 < kHeaderSize\<close>
    by (simp add: parse_physical_def Let_def)
qed

lemma handle_record_fields:
  "handle_record t off r v = (next', r', v') \<Longrightarrow>
     log_file r' = log_file r \<and> buffer r' = buffer r \<and> (t = kEof \<longrightarrow> next' = Return None)"
  by (auto simp: handle_record_def partial_record_def Let_def kEof_def kMaxRecordType_def split: if_splits)

lemma record_round_defined:
  "ReadPhysicalRecord rd r = Ok (t, res, r1) \<Longrightarrow> \<exists>y. record_round rd r v = Ok y"
  unfolding record_round_def Let_def by (simp only: andThen.simps case_prod_conv split: if_split) blast

lemma record_round_fields:
  assumes "record_round rd r v = Ok (next', r2, v2)" "ReadPhysicalRecord rd r = Ok (t, res, r1)"
  shows "log_file r2 = log_file r1 \<and> buffer r2 = buffer r1 \<and> (t = kEof \<longrightarrow> next' = Return None)"
proof (cases "resyncing r1 \<and> (t = word_of_nat (type_number kMiddleType) \<or> t = word_of_nat (type_number kLastType))")
  case True
  then have "t \<noteq> kEof" by (auto simp: kEof_def kMaxRecordType_def)
  with True assms show ?thesis by (auto simp: record_round_def Let_def split: if_splits)
next
  case False
  with assms obtain off v' where "handle_record t off (r1\<lparr>resyncing := False\<rparr>) v' = (next', r2, v2)"
    by (auto simp: record_round_def Let_def split: if_splits)
  from handle_record_fields [OF this] show ?thesis by simp
qed

context sequential_file
begin

lemma ReadPhysicalRecord_progress:
  "healthy (log_file r) \<Longrightarrow> \<exists>t res r'. ReadPhysicalRecord read r = Ok (t, res, r') \<and> healthy (log_file r')
    \<and> (t = kEof \<or> length (buffer r') + length (ahead (log_file r')) < length (buffer r) + length (ahead (log_file r)))"
proof -
  assume h: "healthy (log_file r)"
  show ?thesis
  proof (cases "kHeaderSize \<le> length (buffer r)")
    case True
    with parse_physical_progress [OF True] h show ?thesis
      by (auto simp: ReadPhysicalRecord.simps [of read r])
  next
    case short: False
    show ?thesis
    proof (cases "eof r")
      case True
      with short h show ?thesis by (simp add: ReadPhysicalRecord.simps [of read r])
    next
      case False
      let ?d = "ahead (log_file r)"
      obtain f where f: "read (log_file r) kBlockSize = Some (OK, Some (take kBlockSize ?d), f)"
        "healthy f" "ahead f = drop kBlockSize ?d" using read_ok [OF h] by blast
      then have "\<exists>r1. refill read r = Some (Inl r1) \<and> log_file r1 = f \<and> buffer r1 = take kBlockSize ?d
        \<and> eof r1 = (length (take kBlockSize ?d) < kBlockSize)"
        using False by (auto simp: refill_def Let_def)
      then obtain r1 where r1: "refill read r = Some (Inl r1)" "log_file r1 = f" "buffer r1 = take kBlockSize ?d"
        "eof r1 = (length (take kBlockSize ?d) < kBlockSize)" by blast
      have rp: "ReadPhysicalRecord read r = ReadPhysicalRecord read r1"
        using short False r1(1) by (simp add: ReadPhysicalRecord.simps [of read r])
      show ?thesis
      proof (cases "kHeaderSize \<le> length (buffer r1)")
        case True
        from parse_physical_progress [OF True] obtain t res r' where p: "parse_physical r1 = (t, res, r')"
          "log_file r' = f" "length (buffer r') < length (buffer r1)" by (auto simp: r1(2))
        moreover have "length (buffer r1) + length (ahead f) = length ?d" by (simp add: r1(3) f(3))
        ultimately show ?thesis using True f(2) by (simp add: rp ReadPhysicalRecord.simps [of read r1])
      next
        case False
        then have "eof r1" by (auto simp: r1(3,4) kHeaderSize_def kBlockSize_def)
        with False f(2) show ?thesis by (simp add: rp r1(2) ReadPhysicalRecord.simps [of read r1])
      qed
    qed
  qed
qed

lemma ReadRecord_loop_returns:
  "healthy (log_file r) \<Longrightarrow> length (buffer r) + length (ahead (log_file r)) < n \<Longrightarrow>
   \<exists>res r'. ReadRecord_loop n read r v = Ok (res, r')"
proof (induction n arbitrary: r v)
  case (Suc n)
  obtain t res r1 where p: "ReadPhysicalRecord read r = Ok (t, res, r1)" "healthy (log_file r1)"
    "t = kEof \<or> length (buffer r1) + length (ahead (log_file r1)) < length (buffer r) + length (ahead (log_file r))"
    using ReadPhysicalRecord_progress [OF Suc.prems(1)] by blast
  obtain next' r2 v2 where s: "record_round read r v = Ok (next', r2, v2)"
    using record_round_defined [OF p(1), of v] by auto
  note f = record_round_fields [OF s p(1)]
  show ?case
  proof (cases next')
    case Continue
    then have "length (buffer r2) + length (ahead (log_file r2)) < n"
      using f p(3) Suc.prems(2) by auto
    from Suc.IH [OF _ this, of v2] s f p(2) Continue show ?thesis by simp
  qed (use s in simp)
qed simp

theorem ReadRecord_returns:
  assumes "healthy (log_file r)" "length (buffer r) + length (ahead (log_file r)) < n"
  shows "\<exists>res r'. ReadRecord n read skip r = Ok (res, r')"
proof -
  obtain found r1 where s: "SkipToInitialBlock skip r = (found, r1)" by fastforce
  have "healthy (log_file r1) \<and> buffer r1 = buffer r \<and> length (ahead (log_file r1)) \<le> length (ahead (log_file r))"
    using s assms(1) skip_ok [OF assms(1)]
    by (auto simp: SkipToInitialBlock_def Let_def split: if_splits prod.splits) (metis (no_types, lifting) Pair_inject diff_le_self length_drop)+
  with ReadRecord_loop_returns [of r1 n] ReadRecord_loop_returns [OF assms] s assms(2)
  show ?thesis by (auto simp: ReadRecord_def Let_def)
qed

end

section \<open>The properties\<close>

text \<open>C22: through a file that is buffered, interrupted and written in parts, but not failing, the
  writer puts the records into the file in the log's format, and each of them is handed to the kernel
  when \<open>AddRecord\<close> returns.\<close>

theorem log_writer_writes:
  assumes "os_writes os sound disk patience" and "sound k" and "disk k = []"
  shows "\<exists>w. AddRecords (WritableFile_Append os) (WritableFile_Flush os)
        (Writer_new (PosixWritableFile_new k name fd)) rs = Ok (OK, w)
    \<and> disk (wf_kernel (dest w)) = log_bytes 0 rs"
proof -
  let ?w = "Writer_new (PosixWritableFile_new k name fd)"
  have "disk (wf_kernel (dest ?w)) = wf_accepted disk (dest ?w)" "wf_accepted disk (dest ?w) = []"
    using assms(3) by (simp_all add: Writer_new_def PosixWritableFile_new_def wf_accepted_def)
  with writable_file.AddRecords_ok [OF posix_writable_file [OF assms(1)], of ?w 0 rs] assms(2)
  show ?thesis by (auto simp: Writer_new_def PosixWritableFile_new_def)
qed

theorem log_writer_writes_witness:
  "\<exists>w. AddRecords (WritableFile_Append script_os) (WritableFile_Flush script_os)
        (Writer_new (PosixWritableFile_new \<lparr>script = [0, 3, 0], on_disk = [], unread = []\<rparr> [] 3)) [[1, 2], []]
        = Ok (OK, w)
    \<and> on_disk (wf_kernel (dest w)) = log_bytes 0 [[1, 2], []]"
  by (rule log_writer_writes [OF script_os_writes]) simp_all

lemma reader_starts:
  "healthy f \<Longrightarrow> reader_at healthy ahead (Reader_new f rep chk 0) kBlockSize (ahead f)"
  by (simp add: reader_at_def Reader_new_def)

text \<open>C9: a log that was cut off behind any of its bytes is read up to its last complete record, and
  nothing is reported: the reader tells a crash of the writer from a corruption.\<close>

theorem log_survives_crash:
  assumes "os_reads os sound left patience" and "sound k" and "left k = take c (log_bytes 0 rs)"
    and "c < n"
  shows "\<exists>j r. ReadRecords n n (SequentialFile_Read os) (SequentialFile_Skip os)
        (Reader_new \<lparr>sf_kernel = k, sf_filename = name\<rparr> rep chk 0) = Ok (take j rs, r)
    \<and> reports r = [] \<and> j \<le> length rs \<and> length (log_bytes 0 (take j rs)) \<le> c
    \<and> (j = length rs \<or> c < length (log_bytes 0 (take (Suc j) rs)))"
proof -
  let ?f = "\<lparr>sf_kernel = k, sf_filename = name\<rparr>"
  let ?r = "Reader_new ?f rep chk 0"
  have "reader_at (\<lambda>f. sound (sf_kernel f)) (\<lambda>f. left (sf_kernel f)) ?r kBlockSize
      (take c (log_bytes kBlockSize rs))"
    using reader_starts [of "\<lambda>f. sound (sf_kernel f)" ?f "\<lambda>f. left (sf_kernel f)"] assms(2,3)
    by (simp add: log_bytes_start)
  moreover have "length (take c (log_bytes kBlockSize rs)) < n" using assms(4) by simp
  moreover have "reports ?r = []" by (simp add: Reader_new_def)
  ultimately show ?thesis
    using sequential_file.ReadRecords_prefix [OF posix_sequential_file [OF assms(1)]]
    by (fastforce simp: log_bytes_start)
qed

theorem log_survives_crash_witness:
  "\<exists>j r. ReadRecords 100 100 (SequentialFile_Read script_os) (SequentialFile_Skip script_os)
      (Reader_new \<lparr>sf_kernel = \<lparr>script = [0], on_disk = [],
         unread = take 12 (log_bytes 0 [[1, 2, 3], [4]])\<rparr>, sf_filename = []\<rparr> True True 0)
      = Ok (take j [[1, 2, 3], [4]], r)
    \<and> reports r = [] \<and> j \<le> length [[1, 2, 3], [4 :: byte]] \<and> length (log_bytes 0 (take j [[1, 2, 3], [4]])) \<le> 12
    \<and> (j = length [[1, 2, 3], [4 :: byte]] \<or> 12 < length (log_bytes 0 (take (Suc j) [[1, 2, 3], [4]])))"
  by (rule log_survives_crash [OF script_os_reads]) simp_all

text \<open>C8: reading a whole log gives back the records that were written, in their order.\<close>

theorem log_roundtrip:
  assumes "os_writes os sound disk patience" and "sound k" and "disk k = []"
    and "os_reads os' sound' left patience'"
  shows "\<exists>w. AddRecords (WritableFile_Append os) (WritableFile_Flush os)
      (Writer_new (PosixWritableFile_new k name fd)) rs = Ok (OK, w)
    \<and> (\<forall>k' n. sound' k' \<and> left k' = disk (wf_kernel (dest w)) \<and> length (left k') < n \<longrightarrow>
        (\<exists>r. ReadRecords n n (SequentialFile_Read os') (SequentialFile_Skip os')
          (Reader_new \<lparr>sf_kernel = k', sf_filename = name\<rparr> rep chk 0) = Ok (rs, r) \<and> reports r = []))"
proof -
  obtain w where w: "AddRecords (WritableFile_Append os) (WritableFile_Flush os)
      (Writer_new (PosixWritableFile_new k name fd)) rs = Ok (OK, w)" "disk (wf_kernel (dest w)) = log_bytes 0 rs"
    using writable_file.AddRecords_ok [OF posix_writable_file [OF assms(1)],
        of "Writer_new (PosixWritableFile_new k name fd)" 0 rs] assms(2,3)
    by (auto simp: Writer_new_def PosixWritableFile_new_def wf_accepted_def)
  have "\<exists>r. ReadRecords n n (SequentialFile_Read os') (SequentialFile_Skip os')
      (Reader_new \<lparr>sf_kernel = k', sf_filename = name\<rparr> rep chk 0) = Ok (rs, r) \<and> reports r = []"
    if k': "sound' k'" "left k' = log_bytes 0 rs" "length (left k') < n" for k' n
    using sequential_file.ReadRecords_all [OF posix_sequential_file [OF assms(4)], of
        "Reader_new \<lparr>sf_kernel = k', sf_filename = name\<rparr> rep chk 0" kBlockSize rs n]
      reader_starts [of "\<lambda>f. sound' (sf_kernel f)" "\<lparr>sf_kernel = k', sf_filename = name\<rparr>"
        "\<lambda>f. left (sf_kernel f)"] k'
    by (simp add: log_bytes_start Reader_new_def)
  with w show ?thesis by auto
qed

theorem log_roundtrip_witness:
  "\<exists>w r. AddRecords (WritableFile_Append script_os) (WritableFile_Flush script_os)
      (Writer_new (PosixWritableFile_new \<lparr>script = [2], on_disk = [], unread = []\<rparr> [] 3)) [[7], [8, 9]] = Ok (OK, w)
    \<and> ReadRecords (Suc (length (on_disk (wf_kernel (dest w))))) (Suc (length (on_disk (wf_kernel (dest w)))))
        (SequentialFile_Read script_os) (SequentialFile_Skip script_os)
        (Reader_new \<lparr>sf_kernel = \<lparr>script = [0, 1], on_disk = [], unread = on_disk (wf_kernel (dest w))\<rparr>, sf_filename = []\<rparr>
          True True 0) = Ok ([[7], [8, 9]], r) \<and> reports r = []"
proof -
  obtain w where w: "AddRecords (WritableFile_Append script_os) (WritableFile_Flush script_os)
      (Writer_new (PosixWritableFile_new \<lparr>script = [2], on_disk = [], unread = []\<rparr> [] 3)) [[7], [8, 9]] = Ok (OK, w)"
    and read: "\<And>k' n. unread k' = on_disk (wf_kernel (dest w)) \<Longrightarrow> length (unread k') < n \<Longrightarrow>
        \<exists>r. ReadRecords n n (SequentialFile_Read script_os) (SequentialFile_Skip script_os)
          (Reader_new \<lparr>sf_kernel = k', sf_filename = []\<rparr> True True 0) = Ok ([[7], [8, 9]], r) \<and> reports r = []"
    using log_roundtrip [OF script_os_writes _ _ script_os_reads,
        of "\<lparr>script = [2], on_disk = [], unread = []\<rparr>" "[]" 3 "[[7], [8, 9]]" True True] by auto
  with read [of "\<lparr>script = [0, 1], on_disk = [], unread = on_disk (wf_kernel (dest w))\<rparr>"
      "Suc (length (on_disk (wf_kernel (dest w))))"] show ?thesis by auto
qed

text \<open>C32: on any file at all, damaged or not, \<open>ReadRecord\<close> returns.\<close>

theorem log_reader_returns:
  assumes "os_reads os sound left patience" and "sound (sf_kernel (log_file r))"
    and "length (buffer r) + length (left (sf_kernel (log_file r))) < n"
  shows "\<exists>res r'. ReadRecord n (SequentialFile_Read os) (SequentialFile_Skip os) r = Ok (res, r')"
  by (rule sequential_file.ReadRecord_returns [OF posix_sequential_file [OF assms(1)] assms(2,3)])

theorem log_reader_returns_witness:
  "\<exists>res r'. ReadRecord 20 (SequentialFile_Read script_os) (SequentialFile_Skip script_os)
     (Reader_new \<lparr>sf_kernel = \<lparr>script = [0], on_disk = [], unread = [1, 2, 3, 4, 5, 6, 7, 8, 9]\<rparr>, sf_filename = []\<rparr>
        True True 5) = Ok (res, r')"
  by (rule log_reader_returns [OF script_os_reads]) (simp_all add: Reader_new_def)

text \<open>C33: a physical record of the type 5 whose checksum is right is not reported as an unknown type:
  the type is taken for the reader's own \<open>kEof\<close>, \<open>ReadRecord\<close> says that the log is at its end and
  everything behind it is left out silently.\<close>

theorem log_reader_type_5_is_eof:
  assumes "buffer r = raw_physical 5 bs @ rest" and "length bs \<le> 0xffff"
    and "initial_offset r = 0" and "\<not> resyncing r"
  shows "\<exists>r'. ReadRecord (Suc n) rd sk r = Ok (None, r') \<and> reports r' = reports r \<and> buffer r' = rest"
proof -
  have l: "kHeaderSize \<le> length (buffer r)" by (simp add: assms(1) raw_physical_def kHeaderSize_def)
  have "parse_physical r = (kEof, Some bs, r\<lparr>buffer := rest\<rparr>)"
    using parse_physical_raw [OF assms(1,2) _ assms(3)] by (simp add: kEof_def kMaxRecordType_def)
  then have "ReadPhysicalRecord rd r = Ok (kEof, Some bs, r\<lparr>buffer := rest\<rparr>)"
    using l by (simp add: ReadPhysicalRecord.simps [of rd r])
  then show ?thesis using assms(3,4)
    by (simp add: ReadRecord_def Let_def record_round_def handle_record_def kEof_def kMaxRecordType_def)
qed

theorem log_reader_type_5_is_eof_witness:
  "\<exists>r'. ReadRecord (Suc 0) (SequentialFile_Read script_os) (SequentialFile_Skip script_os)
      ((Reader_new \<lparr>sf_kernel = \<lparr>script = [], on_disk = [], unread = []\<rparr>, sf_filename = []\<rparr> True True 0)
        \<lparr>buffer := raw_physical 5 [1] @ physical kFullType [2]\<rparr>) = Ok (None, r')
    \<and> reports r' = reports ((Reader_new \<lparr>sf_kernel = \<lparr>script = [], on_disk = [], unread = []\<rparr>, sf_filename = []\<rparr> True True 0)
        \<lparr>buffer := raw_physical 5 [1] @ physical kFullType [2]\<rparr>)
    \<and> buffer r' = physical kFullType [2]"
  by (rule log_reader_type_5_is_eof [of _ "[1]"]) (simp_all add: Reader_new_def)

text \<open>C34: the writer does not look at the status of the append that fills up a block.  Take a log of the records \<open>rs\<close> that ends
  with less than a header's room in its block, and any file on which the append of the filling fails without writing and which
  works from then on.  \<open>AddRecord\<close> answers OK and the file holds the record directly behind the others.  The reader looks for it at the
  start of the next block: when the record ends before that leaves room for a header, it reads \<open>rs\<close> and then the end of the log,
  without a report.\<close>

theorem AddRecord_ignores_filling_error:
  assumes "writable_file app fl healthy accepted stored" and "sequential_file rd sk whole ahead"
    and "kBlockSize < log_end 0 rs + kHeaderSize" and "log_end 0 rs + length s < kBlockSize"
    and "app f (replicate (kBlockSize - log_end 0 rs) 0) = Some (IOError m m', f')" and "healthy f'" and "accepted f' = log_bytes 0 rs"
    and "whole g" and "ahead g = log_bytes 0 rs @ record_bytes 0 True s" and "length (ahead g) < n"
  shows "\<exists>w' r. AddRecord app fl \<lparr>dest = f, block_offset = int (log_end 0 rs), type_crc = InitTypeCrc\<rparr> s = Ok (OK, w')
    \<and> stored (dest w') = ahead g
    \<and> ReadRecords n n rd sk (Reader_new g rep chk 0) = Ok (rs, r) \<and> reports r = []"
proof -
  obtain w' where w': "AddRecord app fl \<lparr>dest = f, block_offset = int (log_end 0 rs), type_crc = InitTypeCrc\<rparr> s = Ok (OK, w')"
    "stored (dest w') = log_bytes 0 rs @ record_bytes 0 True s"
    using writable_file.AddRecord_without_filling [OF assms(1,3) _ assms(5,6), of s] assms(4,7) by auto
  have ne: "rs \<noteq> []" using assms(3) by (auto simp: kBlockSize_def kHeaderSize_def)
  have len: "length (record_bytes 0 True s) = kHeaderSize + length s"
    using assms(3,4) by (simp add: record_bytes.simps [of 0] Let_def filling_def start_of_def room_at_def kBlockSize_def kHeaderSize_def)
  have at: "reader_at whole ahead (Reader_new g rep chk 0) kBlockSize (log_bytes kBlockSize rs @ record_bytes 0 True s)"
    using reader_starts [of whole g ahead rep chk] assms(8,9) by (simp add: log_bytes_start)
  have "\<exists>r. ReadRecords n n rd sk (Reader_new g rep chk 0) = Ok (rs, r) \<and> reports r = reports (Reader_new g rep chk 0)"
    using assms(3,4,9,10) ne len
    by (intro sequential_file.misplaced_record_lost [OF assms(2) at]) (auto simp: log_bytes_start log_end_start)
  with w' assms(9) show ?thesis by (auto simp: Reader_new_def)
qed

text \<open>A file that fails once, on a log whose one record ends two bytes before the block does.\<close>

definition fails_once :: "bool \<times> byte list \<Rightarrow> byte list \<Rightarrow> (Status \<times> bool \<times> byte list) option" where
  "fails_once f d = (if fst f then Some (IOError [] [], False, snd f) else Some (OK, False, snd f @ d))"

lemma fails_once_file: "writable_file fails_once (\<lambda>f. Some (OK, f)) (\<lambda>f. \<not> fst f) snd snd"
  by unfold_locales (auto simp: fails_once_def)

lemma bytes_file: "sequential_file (\<lambda>f n. Some (OK, Some (take n f), drop n f)) (\<lambda>f n. (OK, drop n f)) (\<lambda>_. True) (\<lambda>f. f)"
  by unfold_locales auto

theorem AddRecord_ignores_filling_error_witness:
  "\<exists>w' r. AddRecord fails_once (\<lambda>f. Some (OK, f))
      \<lparr>dest = (True, log_bytes 0 [replicate 32759 1]), block_offset = 32766, type_crc = InitTypeCrc\<rparr> [5] = Ok (OK, w')
    \<and> ReadRecords 40000 40000 (\<lambda>f n. Some (OK, Some (take n f), drop n f)) (\<lambda>f n. (OK, drop n f))
        (Reader_new (snd (dest w')) True True 0) = Ok ([replicate 32759 1], r) \<and> reports r = []"
proof -
  have e: "log_end 0 [replicate 32759 1] = 32766"
    by (simp add: record_end.simps [of 0] Let_def room_at_def start_of_def kBlockSize_def kHeaderSize_def)
  have l: "length (log_bytes 0 [replicate 32759 1] @ record_bytes 0 True [5]) < 40000"
    by (simp add: record_bytes.simps [of 0] Let_def filling_def room_at_def start_of_def kBlockSize_def kHeaderSize_def)
  have "\<exists>w' r. AddRecord fails_once (\<lambda>f. Some (OK, f))
      \<lparr>dest = (True, log_bytes 0 [replicate 32759 1]), block_offset = int (log_end 0 [replicate 32759 1]), type_crc = InitTypeCrc\<rparr> [5] = Ok (OK, w')
    \<and> snd (dest w') = log_bytes 0 [replicate 32759 1] @ record_bytes 0 True [5]
    \<and> ReadRecords 40000 40000 (\<lambda>f n. Some (OK, Some (take n f), drop n f)) (\<lambda>f n. (OK, drop n f))
        (Reader_new (log_bytes 0 [replicate 32759 1] @ record_bytes 0 True [5]) True True 0) = Ok ([replicate 32759 1], r) \<and> reports r = []"
    by (rule AddRecord_ignores_filling_error [OF fails_once_file bytes_file, where f' = "(False, log_bytes 0 [replicate 32759 1])"])
      (use e l in \<open>simp_all add: fails_once_def kBlockSize_def kHeaderSize_def del: log_bytes.simps\<close>)
  then show ?thesis unfolding e by auto
qed

end
