(* ===== verification/Ldb_Comparator.thy ===== *)
theory Ldb_Comparator
  imports Ldb_Coding
begin

text \<open>
  The order of keys: \<open>Slice::compare\<close> (\<open>include/leveldb/slice.h\<close>) and the built-in bytewise comparator
  (\<open>util/comparator.cc\<close>).  A three-way comparison answers an integer whose sign counts, as in the
  code.  The locale \<open>key_order\<close> is what every \<open>Comparator\<close> promises (\<open>include/leveldb/comparator.h\<close>):
  a total order on the keys that are well formed; \<open>key_shortener\<close> adds the two functions that
  make index keys short.
\<close>

declare One_nat_def [simp del]

section \<open>The code\<close>

text \<open>\<open>memcmp\<close> looks at the first bytes that differ, as unsigned numbers.\<close>

fun memcmp :: "byte list \<Rightarrow> byte list \<Rightarrow> int" where
  "memcmp (a # as) (b # bs) = (if a < b then - 1 else if b < a then 1 else memcmp as bs)"
| "memcmp _ _ = 0"

definition slice_compare :: "byte list \<Rightarrow> byte list \<Rightarrow> int" where
  "slice_compare a b =
     (let min_len = (if length a < length b then length a else length b);
          r = memcmp (take min_len a) (take min_len b)
      in if r = 0 then (if length a < length b then - 1 else if length b < length a then 1 else r) else r)"

definition BytewiseCompare :: "byte list \<Rightarrow> byte list \<Rightarrow> int" where
  "BytewiseCompare a b = slice_compare a b"

text \<open>The loop that finds the common prefix; both strings have the byte at \<open>diff_index\<close> as long as it
  is below \<open>min_length\<close>.\<close>

function diff_loop :: "byte list \<Rightarrow> byte list \<Rightarrow> nat \<Rightarrow> nat \<Rightarrow> nat" where
  "diff_loop a b min_length diff_index =
     (if diff_index < min_length \<and> a ! diff_index = b ! diff_index
      then diff_loop a b min_length (diff_index + 1) else diff_index)"
  by auto
termination by (relation "measure (\<lambda>(_, _, m, d). m - d)") auto

declare diff_loop.simps [simp del]

definition BytewiseFindShortestSeparator :: "byte list \<Rightarrow> byte list \<Rightarrow> byte list" where
  "BytewiseFindShortestSeparator start limit =
     (let min_length = min (length start) (length limit);
          diff_index = diff_loop start limit min_length 0
      in if min_length \<le> diff_index then start
         else let diff_byte = start ! diff_index in
           if diff_byte < 0xff \<and> uint diff_byte + 1 < uint (limit ! diff_index)
           then take (diff_index + 1) (start[diff_index := start ! diff_index + 1])
           else start)"

function successor_loop :: "byte list \<Rightarrow> nat \<Rightarrow> byte list" where
  "successor_loop key i =
     (if i < length key
      then let byte = key ! i in
        if byte \<noteq> 0xff then take (i + 1) (key[i := byte + 1]) else successor_loop key (i + 1)
      else key)"
  by auto
termination by (relation "measure (\<lambda>(key, i). length key - i)") auto

declare successor_loop.simps [simp del]

definition BytewiseFindShortSuccessor :: "byte list \<Rightarrow> byte list" where
  "BytewiseFindShortSuccessor key = successor_loop key 0"

section \<open>Interfaces\<close>

locale key_order =
  fixes valid :: "'k \<Rightarrow> bool" and cmp :: "'k \<Rightarrow> 'k \<Rightarrow> int"
  assumes cmp_flip: "valid a \<Longrightarrow> valid b \<Longrightarrow> cmp a b < 0 \<longleftrightarrow> 0 < cmp b a"
    and cmp_trans: "valid a \<Longrightarrow> valid b \<Longrightarrow> valid c \<Longrightarrow> cmp a b \<le> 0 \<Longrightarrow> cmp b c \<le> 0 \<Longrightarrow> cmp a c \<le> 0"
begin

lemma cmp_refl: "valid a \<Longrightarrow> cmp a a = 0"
  using cmp_flip [of a a] by linarith

lemma cmp_0_sym: "valid a \<Longrightarrow> valid b \<Longrightarrow> cmp a b = 0 \<longleftrightarrow> cmp b a = 0"
  using cmp_flip [of a b] cmp_flip [of b a] by auto

lemma cmp_less_trans:
  assumes "valid a" "valid b" "valid c" "cmp a b < 0" "cmp b c \<le> 0"
  shows "cmp a c < 0"
proof -
  have "\<not> 0 \<le> cmp a c"
  proof
    assume "0 \<le> cmp a c"
    then have "cmp c a \<le> 0" using cmp_flip [of a c] cmp_flip [of c a] assms(1,3) by linarith
    with assms(5) have "cmp b a \<le> 0" using cmp_trans [of b c a] assms by blast
    with assms(4) cmp_flip [of a b] assms(1,2) show False by linarith
  qed
  then show ?thesis by simp
qed

lemma cmp_less_trans2:
  assumes "valid a" "valid b" "valid c" "cmp a b \<le> 0" "cmp b c < 0"
  shows "cmp a c < 0"
proof -
  have "0 < cmp c b" using cmp_flip [of b c] assms by simp
  have "\<not> 0 \<le> cmp a c"
  proof
    assume "0 \<le> cmp a c"
    then have "cmp c a \<le> 0" using cmp_flip [of a c] cmp_flip [of c a] assms(1,3) by linarith
    with assms(4) have "cmp c b \<le> 0" using cmp_trans [of c a b] assms by blast
    with \<open>0 < cmp c b\<close> show False by simp
  qed
  then show ?thesis by simp
qed

lemma cmp_0_cong:
  assumes "valid a" "valid b" "valid c" "cmp a b = 0"
  shows "cmp a c < 0 \<longleftrightarrow> cmp b c < 0" and "cmp a c = 0 \<longleftrightarrow> cmp b c = 0"
proof -
  have ba: "cmp b a = 0" using assms cmp_0_sym by blast
  show 1: "cmp a c < 0 \<longleftrightarrow> cmp b c < 0"
    using cmp_less_trans2 [of a b c] cmp_less_trans2 [of b a c] assms ba by auto
  have "cmp c a < 0 \<longleftrightarrow> cmp c b < 0"
    using cmp_less_trans [of c a b] cmp_less_trans [of c b a] assms ba by auto
  then show "cmp a c = 0 \<longleftrightarrow> cmp b c = 0"
    using 1 cmp_flip [of c a] cmp_flip [of c b] assms by linarith
qed

end

locale key_shortener = key_order +
  fixes separator :: "'k \<Rightarrow> 'k \<Rightarrow> 'k" and successor :: "'k \<Rightarrow> 'k"
  assumes separator_ok: "valid a \<Longrightarrow> valid b \<Longrightarrow> cmp a b < 0 \<Longrightarrow>
      valid (separator a b) \<and> cmp a (separator a b) \<le> 0 \<and> cmp (separator a b) b < 0"
    and successor_ok: "valid a \<Longrightarrow> valid (successor a) \<and> cmp a (successor a) \<le> 0"

section \<open>The bytewise order\<close>

lemma memcmp_flip: "memcmp a b = - memcmp b a"
  by (induction a b rule: memcmp.induct) auto

lemma memcmp_append: "length a = length b \<Longrightarrow>
    memcmp (a @ c) (b @ d) = (if memcmp a b = 0 then memcmp c d else memcmp a b)"
  by (induction a b rule: list_induct2) auto

lemma memcmp_0: "length a = length b \<Longrightarrow> memcmp a b = 0 \<longleftrightarrow> a = b"
  by (induction a b rule: list_induct2) auto

lemma memcmp_take: "memcmp (take (min (length a) (length b)) a) (take (min (length a) (length b)) b) = memcmp a b"
  by (induction a b rule: memcmp.induct) auto

text \<open>The comparison is the lexicographic order of the library.\<close>

fun lex_compare :: "byte list \<Rightarrow> byte list \<Rightarrow> int" where
  "lex_compare [] [] = 0"
| "lex_compare [] (b # bs) = - 1"
| "lex_compare (a # as) [] = 1"
| "lex_compare (a # as) (b # bs) = (if a < b then - 1 else if b < a then 1 else lex_compare as bs)"

lemma slice_compare_lex: "slice_compare a b = lex_compare a b"
proof -
  have min_len: "(if length a < length b then length a else length b) = min (length a) (length b)" by simp
  have "(if memcmp a b = 0 then if length a < length b then - 1 else if length b < length a then 1 else 0
      else memcmp a b) = lex_compare a b"
    by (induction a b rule: lex_compare.induct) auto
  then show ?thesis unfolding slice_compare_def Let_def min_len memcmp_take by (simp split: if_splits)
qed

lemma lex_compare_flip: "lex_compare a b = - lex_compare b a"
  by (induction a b rule: lex_compare.induct) auto

lemma lex_compare_0: "lex_compare a b = 0 \<longleftrightarrow> a = b"
  by (induction a b rule: lex_compare.induct) auto

lemma lex_compare_refl [simp]: "lex_compare a a = 0"
  by (simp add: lex_compare_0)

lemma lex_compare_trans: "lex_compare a b \<le> 0 \<Longrightarrow> lex_compare b c \<le> 0 \<Longrightarrow> lex_compare a c \<le> 0"
proof (induction a b arbitrary: c rule: lex_compare.induct)
  case (4 a as b bs)
  then show ?case by (cases c) (auto split: if_splits)
next
  case (2 b bs)
  then show ?case by (cases c) auto
qed auto

lemma BytewiseCompare_lex: "BytewiseCompare a b = lex_compare a b"
  by (simp add: BytewiseCompare_def slice_compare_lex)

lemma BytewiseCompare_0: "BytewiseCompare a b = 0 \<longleftrightarrow> a = b"
  by (simp add: BytewiseCompare_lex lex_compare_0)

lemma bytewise_order: "key_order (\<lambda>_. True) BytewiseCompare"
proof
  fix a b c
  show "BytewiseCompare a b < 0 \<longleftrightarrow> 0 < BytewiseCompare b a"
    using lex_compare_flip [of a b] by (simp add: BytewiseCompare_lex)
  show "BytewiseCompare a b \<le> 0 \<Longrightarrow> BytewiseCompare b c \<le> 0 \<Longrightarrow> BytewiseCompare a c \<le> 0"
    using lex_compare_trans [of a b c] by (simp add: BytewiseCompare_lex)
qed

section \<open>Short keys\<close>

text \<open>Two strings that differ at a position below both lengths.\<close>

lemma lex_compare_prefix: "lex_compare (p @ a) (p @ b) = lex_compare a b"
  by (induction p) auto

lemma take_plus_1: "i < length xs \<Longrightarrow> take (i + 1) xs = take i xs @ [xs ! i]"
  using take_Suc_conv_app_nth [of i xs] by (simp add: Suc_eq_plus1 [symmetric])

lemma diff_loop_prefix:
  assumes "m \<le> length a" and "m \<le> length b" and "d \<le> m" and "take d a = take d b"
  shows "take (diff_loop a b m d) a = take (diff_loop a b m d) b \<and> d \<le> diff_loop a b m d \<and> diff_loop a b m d \<le> m
    \<and> (diff_loop a b m d < m \<longrightarrow> a ! diff_loop a b m d \<noteq> b ! diff_loop a b m d)"
  using assms
proof (induction a b m d rule: diff_loop.induct)
  case (1 a b m d)
  show ?case
  proof (cases "d < m \<and> a ! d = b ! d")
    case True
    then have "take (d + 1) a = take (d + 1) b" using 1(2-) by (simp add: take_plus_1)
    with True 1 show ?thesis by (simp add: diff_loop.simps [of a b m d])
  next
    case False
    then show ?thesis using 1(2-) by (auto simp: diff_loop.simps [of a b m d])
  qed
qed

lemma uint_byte_inc: "(x :: byte) \<noteq> 0xff \<Longrightarrow> uint (x + 1) = uint x + 1"
proof -
  assume "x \<noteq> 0xff"
  then have "uint x \<noteq> 255" by (metis word_of_int_uint word_of_int_numeral)
  then have "uint x + 1 < 256" using uint_lt2p [of x] by simp
  then show ?thesis by (simp add: uint_word_ariths)
qed

lemma byte_inc: "(x :: byte) \<noteq> 0xff \<Longrightarrow> x < x + 1"
  using uint_byte_inc [of x] by (simp add: word_less_def)

lemma incremented_prefix:
  assumes "i < length a" and "a ! i \<noteq> 0xff"
  shows "lex_compare a (take (i + 1) (a[i := a ! i + 1])) < 0"
proof -
  have "a = take i a @ a ! i # drop (Suc i) a" using assms(1) by (rule id_take_nth_drop)
  moreover have "take (i + 1) (a[i := a ! i + 1]) = take i a @ [a ! i + 1]"
    using assms(1) by (simp add: take_plus_1)
  ultimately show ?thesis using lex_compare_prefix [of "take i a" "a ! i # drop (Suc i) a" "[a ! i + 1]"]
      byte_inc [OF assms(2)] by simp
qed

lemma FindShortestSeparator_between:
  assumes "lex_compare a b < 0"
  shows "lex_compare a (BytewiseFindShortestSeparator a b) \<le> 0
    \<and> lex_compare (BytewiseFindShortestSeparator a b) b < 0"
proof -
  define m where "m = min (length a) (length b)"
  define d where "d = diff_loop a b m 0"
  have d: "take d a = take d b" "d \<le> m"
    using diff_loop_prefix [of m a b 0] by (auto simp: d_def m_def)
  show ?thesis
  proof (cases "d < m \<and> a ! d < 0xff \<and> uint (a ! d) + 1 < uint (b ! d)")
    case False
    then have "BytewiseFindShortestSeparator a b = a"
      by (auto simp: BytewiseFindShortestSeparator_def Let_def d_def m_def)
    with assms show ?thesis by (simp add: lex_compare_0)
  next
    case True
    then have s: "BytewiseFindShortestSeparator a b = take (d + 1) (a[d := a ! d + 1])"
      by (auto simp: BytewiseFindShortestSeparator_def Let_def d_def m_def)
    have len: "d < length a" "d < length b" using True by (auto simp: m_def)
    have "a ! d \<noteq> 0xff" using True by auto
    then have "uint (a ! d + 1) < uint (b ! d)" using True uint_byte_inc [of "a ! d"] by simp
    then have "a ! d + 1 < b ! d" by (simp add: word_less_def)
    moreover have "take (d + 1) (a[d := a ! d + 1]) = take d b @ [a ! d + 1]"
      using len d(1) by (simp add: take_plus_1)
    moreover have "b = take d b @ b ! d # drop (Suc d) b" using len(2) by (rule id_take_nth_drop)
    ultimately have "lex_compare (take (d + 1) (a[d := a ! d + 1])) b < 0"
      using lex_compare_prefix [of "take d b" "[a ! d + 1]" "b ! d # drop (Suc d) b"] by simp
    with s incremented_prefix [OF len(1) \<open>a ! d \<noteq> 0xff\<close>] show ?thesis by simp
  qed
qed

lemma successor_loop_ge: "lex_compare key (successor_loop key i) \<le> 0"
proof (induction key i rule: successor_loop.induct)
  case (1 key i)
  then show ?case using incremented_prefix [of i key]
    by (auto simp: successor_loop.simps [of key i] Let_def lex_compare_0)
qed

lemma bytewise_shortener:
  "key_shortener (\<lambda>_. True) BytewiseCompare BytewiseFindShortestSeparator BytewiseFindShortSuccessor"
  using bytewise_order FindShortestSeparator_between successor_loop_ge
  by (auto simp: key_shortener_def key_shortener_axioms_def BytewiseCompare_lex BytewiseFindShortSuccessor_def)

interpretation bytewise: key_shortener "\<lambda>_. True" BytewiseCompare BytewiseFindShortestSeparator
    BytewiseFindShortSuccessor
  by (rule bytewise_shortener)

lemma separator_length: "length (BytewiseFindShortestSeparator a b) \<le> length a"
  by (auto simp: BytewiseFindShortestSeparator_def Let_def)

lemma successor_length: "length (BytewiseFindShortSuccessor a) \<le> length a"
proof -
  have "length (successor_loop a i) \<le> length a" for i
    by (induction a i rule: successor_loop.induct) (auto simp: successor_loop.simps Let_def)
  then show ?thesis by (simp add: BytewiseFindShortSuccessor_def)
qed

end
