(* ===== verification/Ldb_Dbformat.thy ===== *)
theory Ldb_Dbformat
  imports Ldb_Comparator Ldb_Logging
begin

text \<open>
  Internal keys (\<open>db/dbformat.h\<close>, \<open>db/dbformat.cc\<close>): a user key followed by a sequence number and a
  value type packed into eight bytes.  \<open>InternalKeyComparator\<close> orders them by the user's comparator and
  then by decreasing sequence number; the user's comparator is a parameter, with its contract
  \<open>key_shortener\<close>.  \<open>internal_key k\<close> is the assertion of \<open>ExtractUserKey\<close>.  An assertion that
  fails in the other functions is \<open>None\<close>.
\<close>

declare One_nat_def [simp del]

section \<open>The code\<close>

datatype ValueType = kTypeDeletion | kTypeValue

definition value_type_code :: "ValueType \<Rightarrow> uint64" where
  "value_type_code t = (case t of kTypeDeletion \<Rightarrow> 0 | kTypeValue \<Rightarrow> 1)"

definition kValueTypeForSeek :: ValueType where "kValueTypeForSeek = kTypeValue"

type_synonym SequenceNumber = uint64

definition kMaxSequenceNumber :: SequenceNumber where "kMaxSequenceNumber = push_bit 56 1 - 1"

record ParsedInternalKey =
  pik_user_key :: "byte list"
  pik_sequence :: SequenceNumber
  pik_type :: ValueType

definition InternalKeyEncodingLength :: "ParsedInternalKey \<Rightarrow> nat" where
  "InternalKeyEncodingLength key = length (pik_user_key key) + 8"

definition PackSequenceAndType :: "SequenceNumber \<Rightarrow> ValueType \<Rightarrow> uint64 option" where
  "PackSequenceAndType seq t =
     (if seq \<le> kMaxSequenceNumber \<and> value_type_code t \<le> value_type_code kValueTypeForSeek
      then Some (push_bit 8 seq OR value_type_code t) else None)"

definition AppendInternalKey :: "byte list \<Rightarrow> ParsedInternalKey \<Rightarrow> byte list option" where
  "AppendInternalKey result key =
     map_option (PutFixed64 (result @ pik_user_key key)) (PackSequenceAndType (pik_sequence key) (pik_type key))"

definition ParsedInternalKey_DebugString :: "ParsedInternalKey \<Rightarrow> byte list" where
  "ParsedInternalKey_DebugString key =
     str [CHR 0x27] @ EscapeString (pik_user_key key)
     @ str (CHR 0x27 # '' @ '') @ decimal (unat (pik_sequence key)) @ str '' : ''
     @ decimal (unat (value_type_code (pik_type key)))"

definition internal_key :: "byte list \<Rightarrow> bool" where
  "internal_key k \<longleftrightarrow> 8 \<le> length k"

definition ExtractUserKey :: "byte list \<Rightarrow> byte list" where
  "ExtractUserKey k = take (length k - 8) k"

definition key_num :: "byte list \<Rightarrow> uint64" where
  "key_num k = DecodeFixed64 (drop (length k - 8) k)"

definition ParseInternalKey :: "byte list \<Rightarrow> ParsedInternalKey option" where
  "ParseInternalKey k =
     (let n = length k in
      if n < 8 then None
      else let num = DecodeFixed64 (drop (n - 8) k);
               c = ucast (num AND 0xff) :: byte
           in if unat c \<le> unat (value_type_code kTypeValue)
              then Some \<lparr>pik_user_key = take (n - 8) k, pik_sequence = drop_bit 8 num,
                         pik_type = (if c = 0 then kTypeDeletion else kTypeValue)\<rparr>
              else None)"

text \<open>The class \<open>InternalKey\<close> holds the encoded key; it is empty until it is set.\<close>

type_synonym InternalKey = "byte list"

definition InternalKey_new :: "byte list \<Rightarrow> SequenceNumber \<Rightarrow> ValueType \<Rightarrow> InternalKey option" where
  "InternalKey_new user_key s t =
     AppendInternalKey [] \<lparr>pik_user_key = user_key, pik_sequence = s, pik_type = t\<rparr>"

definition InternalKey_DecodeFrom :: "byte list \<Rightarrow> InternalKey" where
  "InternalKey_DecodeFrom s = s"

definition InternalKey_Encode :: "InternalKey \<Rightarrow> byte list option" where
  "InternalKey_Encode rep = (if rep \<noteq> [] then Some rep else None)"

definition InternalKey_SetFrom :: "ParsedInternalKey \<Rightarrow> InternalKey option" where
  "InternalKey_SetFrom p = AppendInternalKey [] p"

definition InternalKey_DebugString :: "InternalKey \<Rightarrow> byte list" where
  "InternalKey_DebugString rep =
     (case ParseInternalKey rep of
        Some parsed \<Rightarrow> ParsedInternalKey_DebugString parsed
      | None \<Rightarrow> str ''(bad)'' @ EscapeString rep)"

type_synonym comparing = "byte list \<Rightarrow> byte list \<Rightarrow> int"

definition InternalKeyCompare :: "comparing \<Rightarrow> byte list \<Rightarrow> byte list \<Rightarrow> int" where
  "InternalKeyCompare user_compare akey bkey =
     (let r = user_compare (ExtractUserKey akey) (ExtractUserKey bkey) in
      if r = 0
      then let anum = key_num akey; bnum = key_num bkey in
        (if bnum < anum then - 1 else if anum < bnum then 1 else r)
      else r)"

definition InternalFindShortestSeparator ::
    "comparing \<Rightarrow> (byte list \<Rightarrow> byte list \<Rightarrow> byte list) \<Rightarrow> byte list \<Rightarrow> byte list \<Rightarrow> byte list option"
where
  "InternalFindShortestSeparator user_compare user_separator start limit =
     (let user_start = ExtractUserKey start; user_limit = ExtractUserKey limit;
          tmp = user_separator user_start user_limit
      in if length tmp < length user_start \<and> user_compare user_start tmp < 0
         then (case PackSequenceAndType kMaxSequenceNumber kValueTypeForSeek of
             None \<Rightarrow> None
           | Some tag \<Rightarrow>
               let tmp = PutFixed64 tmp tag in
               if InternalKeyCompare user_compare start tmp < 0 \<and> InternalKeyCompare user_compare tmp limit < 0
               then Some tmp else None)
         else Some start)"

definition InternalFindShortSuccessor ::
    "comparing \<Rightarrow> (byte list \<Rightarrow> byte list) \<Rightarrow> byte list \<Rightarrow> byte list option" where
  "InternalFindShortSuccessor user_compare user_successor key =
     (let user_key = ExtractUserKey key; tmp = user_successor user_key in
      if length tmp < length user_key \<and> user_compare user_key tmp < 0
      then (case PackSequenceAndType kMaxSequenceNumber kValueTypeForSeek of
          None \<Rightarrow> None
        | Some tag \<Rightarrow>
            let tmp = PutFixed64 tmp tag in
            if InternalKeyCompare user_compare key tmp < 0 then Some tmp else None)
      else Some key)"

text \<open>\<open>InternalFilterPolicy\<close>: the user's policy is a pair of functions.\<close>

definition InternalCreateFilter :: "(byte list list \<Rightarrow> byte list \<Rightarrow> 'r) \<Rightarrow> byte list list \<Rightarrow> byte list \<Rightarrow> 'r" where
  "InternalCreateFilter user_create keys dst = user_create (map ExtractUserKey keys) dst"

definition InternalKeyMayMatch :: "(byte list \<Rightarrow> byte list \<Rightarrow> 'r) \<Rightarrow> byte list \<Rightarrow> byte list \<Rightarrow> 'r" where
  "InternalKeyMayMatch user_match key f = user_match (ExtractUserKey key) f"

text \<open>\<open>LookupKey\<close>: the array from \<open>start_\<close> to \<open>end_\<close>, the place of \<open>kstart_\<close> in it, and how many bytes
  the array has room for.  A write behind the room is \<open>None\<close>.\<close>

record LookupKey =
  lk_bytes :: "byte list"
  lk_kstart :: nat
  lk_room :: nat

definition LookupKey_new :: "byte list \<Rightarrow> SequenceNumber \<Rightarrow> LookupKey option" where
  "LookupKey_new user_key s =
     (let usize = length user_key;
          needed = usize + 13;
          dst_room = (if needed \<le> 200 then 200 else needed);
          head = EncodeVarint32 (word_of_nat (usize + 8))
      in case PackSequenceAndType s kValueTypeForSeek of
           None \<Rightarrow> None
         | Some tag \<Rightarrow>
             let bytes = head @ user_key @ EncodeFixed64 tag in
             if length bytes \<le> dst_room
             then Some \<lparr>lk_bytes = bytes, lk_kstart = length head, lk_room = dst_room\<rparr> else None)"

definition memtable_key :: "LookupKey \<Rightarrow> byte list" where
  "memtable_key k = lk_bytes k"

definition lookup_internal_key :: "LookupKey \<Rightarrow> byte list" where
  "lookup_internal_key k = drop (lk_kstart k) (lk_bytes k)"

definition lookup_user_key :: "LookupKey \<Rightarrow> byte list" where
  "lookup_user_key k = take (length (lk_bytes k) - lk_kstart k - 8) (drop (lk_kstart k) (lk_bytes k))"

section \<open>The layout of internal keys\<close>

definition tag_of :: "SequenceNumber \<Rightarrow> ValueType \<Rightarrow> uint64" where
  "tag_of s t = push_bit 8 s OR value_type_code t"

definition internal_bytes :: "byte list \<Rightarrow> uint64 \<Rightarrow> byte list" where
  "internal_bytes u tag = u @ EncodeFixed64 tag"

lemma kMaxSequenceNumber_unat: "s \<le> kMaxSequenceNumber \<longleftrightarrow> unat s < 2 ^ 56"
  by (simp add: kMaxSequenceNumber_def word_le_nat_alt push_bit_eq_mult) linarith

lemma unat_tag_of: "unat s < 2 ^ 56 \<Longrightarrow> unat (tag_of s t) = 256 * unat s + unat (value_type_code t)"
proof -
  assume s: "unat s < 2 ^ 56"
  have "tag_of s t = word_of_nat (unat (value_type_code t) + 2 ^ 8 * unat s)"
    unfolding tag_of_def
    by (subst word_of_nat_or_exp) (simp_all add: value_type_code_def or.commute split: ValueType.split)
  then have "unat (tag_of s t) = (unat (value_type_code t) + 2 ^ 8 * unat s) mod 2 ^ 64"
    by (simp only: unat_of_nat) simp
  moreover have "unat (value_type_code t) \<le> 1" by (simp add: value_type_code_def split: ValueType.split)
  ultimately show ?thesis using s by simp
qed

lemma internal_bytes_parts [simp]:
  "internal_key (internal_bytes u tag)" "ExtractUserKey (internal_bytes u tag) = u"
  "key_num (internal_bytes u tag) = tag" "length (internal_bytes u tag) = length u + 8"
  using DecodeFixed64_le [of tag "[]"]
  by (simp_all add: internal_bytes_def internal_key_def ExtractUserKey_def key_num_def)

lemma internal_key_cases:
  assumes "internal_key k"
  obtains u tag where "k = internal_bytes u tag"
proof
  have "nat_of_le (drop (length k - 8) k) < 2 ^ 64"
    using nat_of_le_less [of "drop (length k - 8) k"] assms by (simp add: internal_key_def)
  then have "le_of_nat 8 (unat (DecodeFixed64 (drop (length k - 8) k))) = drop (length k - 8) k"
    using assms le_of_nat_of_le [of "drop (length k - 8) k"]
    by (simp add: DecodeFixed64_def kLittleEndian_def internal_key_def unat_of_nat)
  then show "k = internal_bytes (ExtractUserKey k) (key_num k)"
    by (simp add: internal_bytes_def ExtractUserKey_def key_num_def)
qed

lemma PackSequenceAndType_Some:
  "unat s < 2 ^ 56 \<Longrightarrow> PackSequenceAndType s t = Some (tag_of s t)"
  by (simp add: PackSequenceAndType_def kMaxSequenceNumber_unat tag_of_def value_type_code_def
      kValueTypeForSeek_def split: ValueType.split)

lemma InternalKey_new_bytes:
  "unat s < 2 ^ 56 \<Longrightarrow> InternalKey_new u s t = Some (internal_bytes u (tag_of s t))"
  by (simp add: InternalKey_new_def AppendInternalKey_def PackSequenceAndType_Some PutFixed64_def internal_bytes_def)

lemma InternalKeyCompare_bytes: "InternalKeyCompare cmp (internal_bytes u a) (internal_bytes v b) =
    (if cmp u v = 0 then if b < a then - 1 else if a < b then 1 else 0 else cmp u v)"
  by (simp add: InternalKeyCompare_def)

lemma InternalKeyCompare_0: "internal_key a \<Longrightarrow> internal_key b \<Longrightarrow> InternalKeyCompare cmp a b = 0 \<longleftrightarrow>
    cmp (ExtractUserKey a) (ExtractUserKey b) = 0 \<and> key_num a = key_num b"
  by (auto simp: InternalKeyCompare_def Let_def)

section \<open>The order of internal keys\<close>

definition internal_valid :: "(byte list \<Rightarrow> bool) \<Rightarrow> byte list \<Rightarrow> bool" where
  "internal_valid valid k \<longleftrightarrow> internal_key k \<and> valid (ExtractUserKey k)"

lemma internal_valid_bytes [simp]: "internal_valid valid (internal_bytes u tag) = valid u"
  by (simp add: internal_valid_def)

lemma internal_valid_cases:
  assumes "internal_valid valid k"
  obtains u tag where "k = internal_bytes u tag" and "valid u"
  using assms internal_key_cases by (metis internal_valid_def internal_bytes_parts(2))

lemma internal_order:
  assumes "key_order valid cmp"
  shows "key_order (internal_valid valid) (InternalKeyCompare cmp)"
proof
  fix a b assume "internal_valid valid a" "internal_valid valid b"
  then obtain u x v y where k: "a = internal_bytes u x" "b = internal_bytes v y" "valid u" "valid v"
    by (auto elim!: internal_valid_cases)
  show "InternalKeyCompare cmp a b < 0 \<longleftrightarrow> 0 < InternalKeyCompare cmp b a"
    using key_order.cmp_flip [OF assms k(3,4)] key_order.cmp_flip [OF assms k(4,3)]
    by (auto simp: k(1,2) InternalKeyCompare_bytes)
  fix c assume "internal_valid valid c"
  then obtain w z where c: "c = internal_bytes w z" "valid w" by (auto elim!: internal_valid_cases)
  assume le: "InternalKeyCompare cmp a b \<le> 0" "InternalKeyCompare cmp b c \<le> 0"
  then have uvw: "cmp u v \<le> 0" "cmp v w \<le> 0"
    by (simp_all add: k(1,2) c(1) InternalKeyCompare_bytes split: if_splits)
  show "InternalKeyCompare cmp a c \<le> 0"
  proof (cases "cmp u v = 0 \<and> cmp v w = 0")
    case True
    then have "cmp u w = 0" using key_order.cmp_0_cong(2) [OF assms k(3,4) c(2)] by simp
    with True le show ?thesis by (auto simp: k(1,2) c(1) InternalKeyCompare_bytes split: if_splits)
  next
    case False
    then have "cmp u w < 0"
      using key_order.cmp_less_trans [OF assms k(3,4) c(2)] key_order.cmp_less_trans2 [OF assms k(3,4) c(2)] uvw
      by linarith
    then show ?thesis by (simp add: k(1) c(1) InternalKeyCompare_bytes)
  qed
qed

text \<open>Shortening an internal key never fails an assertion, whatever the user's comparator, as long as
  that one leaves keys alone that are not in order.\<close>

lemma seek_tag: "PackSequenceAndType kMaxSequenceNumber kValueTypeForSeek = Some (tag_of kMaxSequenceNumber kTypeValue)"
  by code_simp

lemma InternalFindShortestSeparator_ok:
  assumes sh: "key_shortener valid cmp sep suc" and k: "internal_valid valid a" "internal_valid valid b"
    and less: "InternalKeyCompare cmp a b < 0"
    and same: "cmp (ExtractUserKey a) (ExtractUserKey b) = 0 \<Longrightarrow>
      sep (ExtractUserKey a) (ExtractUserKey b) = ExtractUserKey a"
  shows "\<exists>k. InternalFindShortestSeparator cmp sep a b = Some k \<and> internal_valid valid k
    \<and> InternalKeyCompare cmp a k \<le> 0 \<and> InternalKeyCompare cmp k b < 0 \<and> length k \<le> length a"
proof -
  have ord: "key_order valid cmp" using sh by (simp add: key_shortener_def)
  have refl: "InternalKeyCompare cmp a a = 0"
    using key_order.cmp_refl [OF internal_order [OF ord] k(1)] .
  obtain u x v y where ab: "a = internal_bytes u x" "b = internal_bytes v y" "valid u" "valid v"
    using k by (auto elim!: internal_valid_cases)
  let ?t = "sep u v"
  show ?thesis
  proof (cases "length ?t < length u \<and> cmp u ?t < 0")
    case False
    then show ?thesis using k less refl by (auto simp: InternalFindShortestSeparator_def Let_def ab(1,2))
  next
    case True
    then have "cmp u v \<noteq> 0" using same ab by auto
    with less have "cmp u v < 0" by (simp add: ab(1,2) InternalKeyCompare_bytes)
    then have t: "valid ?t" "cmp ?t v < 0"
      using key_shortener.separator_ok [OF sh ab(3,4)] by auto
    let ?k = "internal_bytes ?t (tag_of kMaxSequenceNumber kTypeValue)"
    have "PutFixed64 ?t (tag_of kMaxSequenceNumber kTypeValue) = ?k"
      by (simp add: PutFixed64_def internal_bytes_def)
    with True t show ?thesis
      by (simp add: InternalFindShortestSeparator_def Let_def ab(1,2) seek_tag InternalKeyCompare_bytes)
  qed
qed

lemma InternalFindShortSuccessor_ok:
  assumes sh: "key_shortener valid cmp sep suc" and k: "internal_valid valid a"
  shows "\<exists>k. InternalFindShortSuccessor cmp suc a = Some k \<and> internal_valid valid k
    \<and> InternalKeyCompare cmp a k \<le> 0 \<and> length k \<le> length a"
proof -
  have ord: "key_order valid cmp" using sh by (simp add: key_shortener_def)
  have refl: "InternalKeyCompare cmp a a = 0"
    using key_order.cmp_refl [OF internal_order [OF ord] k] .
  obtain u x where a: "a = internal_bytes u x" "valid u" using k by (auto elim!: internal_valid_cases)
  have t: "valid (suc u)" using key_shortener.successor_ok [OF sh a(2)] by simp
  have "PutFixed64 (suc u) (tag_of kMaxSequenceNumber kTypeValue) =
      internal_bytes (suc u) (tag_of kMaxSequenceNumber kTypeValue)"
    by (simp add: PutFixed64_def internal_bytes_def)
  with t k refl show ?thesis
    by (simp add: InternalFindShortSuccessor_def Let_def a(1) seek_tag InternalKeyCompare_bytes)
qed

text \<open>With the built-in comparator.\<close>

lemma separator_same: "BytewiseFindShortestSeparator u u = u"
  using bytewise.separator_ok [of u u] FindShortestSeparator_between [of u u] separator_length [of u u]
  by (simp add: BytewiseFindShortestSeparator_def Let_def)

interpretation internal: key_shortener "internal_valid (\<lambda>_. True)" "InternalKeyCompare BytewiseCompare"
    "\<lambda>a b. the (InternalFindShortestSeparator BytewiseCompare BytewiseFindShortestSeparator a b)"
    "\<lambda>a. the (InternalFindShortSuccessor BytewiseCompare BytewiseFindShortSuccessor a)"
proof -
  have "key_order (internal_valid (\<lambda>_. True)) (InternalKeyCompare BytewiseCompare)"
    by (rule internal_order [OF bytewise_order])
  then show "key_shortener (internal_valid (\<lambda>_. True)) (InternalKeyCompare BytewiseCompare)
     (\<lambda>a b. the (InternalFindShortestSeparator BytewiseCompare BytewiseFindShortestSeparator a b))
     (\<lambda>a. the (InternalFindShortSuccessor BytewiseCompare BytewiseFindShortSuccessor a))"
    using InternalFindShortestSeparator_ok [OF bytewise_shortener] InternalFindShortSuccessor_ok [OF bytewise_shortener]
    by (fastforce simp: key_shortener_def key_shortener_axioms_def BytewiseCompare_0 separator_same)
qed

section \<open>Parsing\<close>

lemma unat_tag_type: "unat s < 2 ^ 56 \<Longrightarrow> drop_bit 8 (tag_of s t) = s \<and>
    (ucast (tag_of s t AND 0xff) :: byte) = ucast (value_type_code t)"
proof -
  assume s: "unat s < 2 ^ 56"
  have c: "unat (value_type_code t) < 256" by (simp add: value_type_code_def split: ValueType.split)
  have "unat (drop_bit 8 (tag_of s t)) = unat s"
    using s c by (simp add: unat_drop_bit unat_tag_of)
  moreover have "unat (ucast (tag_of s t AND 0xff) :: byte) = unat (ucast (value_type_code t) :: byte)"
    using s c by (simp add: and_255 unsigned_ucast_eq unsigned_take_bit_eq unat_tag_of take_bit_eq_mod unat_mod)
  ultimately show ?thesis by (simp add: word_unat_eq_iff)
qed

lemma ParseInternalKey_bytes: "unat s < 2 ^ 56 \<Longrightarrow>
    ParseInternalKey (internal_bytes u (tag_of s t)) = Some \<lparr>pik_user_key = u, pik_sequence = s, pik_type = t\<rparr>"
  using unat_tag_type [of s t] DecodeFixed64_le [of "tag_of s t" "[]"]
  by (simp add: ParseInternalKey_def Let_def internal_bytes_def value_type_code_def split: ValueType.splits)

lemma ParseInternalKey_SomeD:
  assumes "ParseInternalKey k = Some p"
  shows "unat (pik_sequence p) < 2 ^ 56
    \<and> k = internal_bytes (pik_user_key p) (tag_of (pik_sequence p) (pik_type p))"
proof -
  have k: "internal_key k" using assms by (simp add: ParseInternalKey_def internal_key_def Let_def split: if_splits)
  then obtain u num where b: "k = internal_bytes u num" by (rule internal_key_cases)
  let ?c = "ucast (num AND 0xff) :: byte"
  have num: "num = push_bit 8 (drop_bit 8 num) OR ucast ?c"
    by (rule bit_word_eqI) (auto simp: bit_or_iff bit_and_iff bit_push_bit_iff bit_drop_bit_eq and_255 bit_take_bit_iff bit_ucast_iff)
  have p: "p = \<lparr>pik_user_key = u, pik_sequence = drop_bit 8 num,
      pik_type = if ?c = 0 then kTypeDeletion else kTypeValue\<rparr>" "unat ?c \<le> 1"
    using assms DecodeFixed64_le [of num "[]"]
    by (auto simp: b ParseInternalKey_def Let_def internal_bytes_def value_type_code_def split: if_splits)
  have "unat (drop_bit 8 num) < 2 ^ 56"
    using unsigned_less [where ?'a = nat, of num] by (simp add: unat_drop_bit)
  moreover have "?c = 0 \<or> ?c = 1"
    using p(2) unfolding word_unat_eq_iff by (simp only: unsigned_0 unsigned_1) linarith
  ultimately show ?thesis using num
    by (auto simp: p(1) b tag_of_def value_type_code_def)
qed

section \<open>Lookup keys\<close>

definition lookup_bytes :: "byte list \<Rightarrow> SequenceNumber \<Rightarrow> byte list" where
  "lookup_bytes u s = varint (length u + 8) @ internal_bytes u (tag_of s kTypeValue)"

lemma LookupKey_new_bytes:
  assumes "unat s < 2 ^ 56" and "length u + 8 < 2 ^ 32"
  shows "\<exists>k. LookupKey_new u s = Some k \<and> memtable_key k = lookup_bytes u s
    \<and> lookup_internal_key k = internal_bytes u (tag_of s kTypeValue) \<and> lookup_user_key k = u
    \<and> length (lk_bytes k) \<le> lk_room k"
proof -
  have "unat (word_of_nat (length u + 8) :: uint32) = length u + 8"
    using assms(2) by (simp only: unat_of_nat) simp
  then have "EncodeVarint32 (word_of_nat (length u + 8)) = varint (length u + 8)"
    by (simp only: EncodeVarint32_varint)
  moreover have "length (varint (length u + 8)) \<le> 5" using assms(2) by (rule length_varint32)
  ultimately show ?thesis using assms(1)
    by (simp add: LookupKey_new_def Let_def PackSequenceAndType_Some kValueTypeForSeek_def memtable_key_def
        lookup_bytes_def internal_bytes_def lookup_internal_key_def lookup_user_key_def)
qed

section \<open>The properties\<close>

text \<open>C35: an internal key carries its three parts, the parser accepts exactly the strings that are internal
  keys of a value type and a 56-bit sequence number, and such a string is the only encoding of what
  is parsed from it.  \<open>LookupKey\<close> never writes behind its array.\<close>

theorem internal_key_roundtrip:
  assumes "s \<le> kMaxSequenceNumber" and "length u + 8 < 2 ^ 32"
  shows "\<exists>k lk. InternalKey_new u s t = Some k \<and> length k = InternalKeyEncodingLength \<lparr>pik_user_key = u, pik_sequence = s, pik_type = t\<rparr>
    \<and> ExtractUserKey k = u
    \<and> (ParseInternalKey k' = Some \<lparr>pik_user_key = u, pik_sequence = s, pik_type = t\<rparr>) = (k' = k)
    \<and> LookupKey_new u s = Some lk \<and> length (lk_bytes lk) \<le> lk_room lk \<and> lookup_user_key lk = u
    \<and> Some (lookup_internal_key lk) = InternalKey_new u s kValueTypeForSeek"
proof -
  have s: "unat s < 2 ^ 56" using assms(1) by (simp add: kMaxSequenceNumber_unat)
  obtain lk where "LookupKey_new u s = Some lk" "lookup_user_key lk = u" "length (lk_bytes lk) \<le> lk_room lk"
    "lookup_internal_key lk = internal_bytes u (tag_of s kTypeValue)"
    using LookupKey_new_bytes [OF s assms(2)] by blast
  moreover have "(ParseInternalKey k' = Some \<lparr>pik_user_key = u, pik_sequence = s, pik_type = t\<rparr>)
      = (k' = internal_bytes u (tag_of s t))"
    using ParseInternalKey_bytes [OF s, of u t] ParseInternalKey_SomeD [of k'] by fastforce
  ultimately show ?thesis using s
    by (simp add: InternalKey_new_bytes InternalKeyEncodingLength_def kValueTypeForSeek_def)
qed

theorem internal_key_roundtrip_witness:
  "\<exists>k lk. InternalKey_new [7, 8] 3 kTypeDeletion = Some k
    \<and> length k = InternalKeyEncodingLength \<lparr>pik_user_key = [7, 8], pik_sequence = 3, pik_type = kTypeDeletion\<rparr>
    \<and> ExtractUserKey k = [7, 8]
    \<and> (ParseInternalKey [7, 8, 0, 3, 0, 0, 0, 0, 0, 0] =
         Some \<lparr>pik_user_key = [7, 8], pik_sequence = 3, pik_type = kTypeDeletion\<rparr>) = ([7, 8, 0, 3, 0, 0, 0, 0, 0, 0] = k)
    \<and> LookupKey_new [7, 8] 3 = Some lk \<and> length (lk_bytes lk) \<le> lk_room lk \<and> lookup_user_key lk = [7, 8]
    \<and> Some (lookup_internal_key lk) = InternalKey_new [7, 8] 3 kValueTypeForSeek"
  by (rule internal_key_roundtrip) (simp_all add: kMaxSequenceNumber_unat)

text \<open>C18: internal keys are ordered by user key, then newest first; shortening an index key between two
  keys of a table never fails an assertion, and gives a key that is not longer, not before the first
  and before the second.\<close>

theorem short_index_keys:
  assumes "internal_key a" and "internal_key b" and "InternalKeyCompare BytewiseCompare a b < 0"
  shows "\<exists>k s. InternalFindShortestSeparator BytewiseCompare BytewiseFindShortestSeparator a b = Some k
    \<and> internal_key k \<and> length k \<le> length a
    \<and> InternalKeyCompare BytewiseCompare a k \<le> 0 \<and> InternalKeyCompare BytewiseCompare k b < 0
    \<and> InternalFindShortSuccessor BytewiseCompare BytewiseFindShortSuccessor b = Some s
    \<and> length s \<le> length b \<and> InternalKeyCompare BytewiseCompare b s \<le> 0
    \<and> (BytewiseCompare (ExtractUserKey a) (ExtractUserKey b) < 0
       \<or> ExtractUserKey a = ExtractUserKey b \<and> key_num b < key_num a)"
proof -
  obtain k where "InternalFindShortestSeparator BytewiseCompare BytewiseFindShortestSeparator a b = Some k"
    "internal_valid (\<lambda>_. True) k" "length k \<le> length a" "InternalKeyCompare BytewiseCompare a k \<le> 0"
    "InternalKeyCompare BytewiseCompare k b < 0"
    using InternalFindShortestSeparator_ok [OF bytewise_shortener, of a b] assms
    by (auto simp: internal_valid_def BytewiseCompare_0 separator_same)
  moreover obtain s where "InternalFindShortSuccessor BytewiseCompare BytewiseFindShortSuccessor b = Some s"
    "length s \<le> length b" "InternalKeyCompare BytewiseCompare b s \<le> 0"
    using InternalFindShortSuccessor_ok [OF bytewise_shortener, of b] assms by (auto simp: internal_valid_def)
  ultimately show ?thesis using assms(3)
    by (auto simp: internal_valid_def InternalKeyCompare_def Let_def BytewiseCompare_0 split: if_splits)
qed

theorem short_index_keys_witness:
  "\<exists>k s. InternalFindShortestSeparator BytewiseCompare BytewiseFindShortestSeparator
        [97, 98, 99, 1, 2, 3, 4, 5, 6, 7, 8] [97, 100, 1, 2, 3, 4, 5, 6, 7, 8] = Some k
    \<and> internal_key k \<and> length k \<le> length [97, 98, 99, 1, 2, 3, 4, 5, 6, 7, 8 :: byte]
    \<and> InternalKeyCompare BytewiseCompare [97, 98, 99, 1, 2, 3, 4, 5, 6, 7, 8] k \<le> 0
    \<and> InternalKeyCompare BytewiseCompare k [97, 100, 1, 2, 3, 4, 5, 6, 7, 8] < 0
    \<and> InternalFindShortSuccessor BytewiseCompare BytewiseFindShortSuccessor [97, 100, 1, 2, 3, 4, 5, 6, 7, 8] = Some s
    \<and> length s \<le> length [97, 100, 1, 2, 3, 4, 5, 6, 7, 8 :: byte]
    \<and> InternalKeyCompare BytewiseCompare [97, 100, 1, 2, 3, 4, 5, 6, 7, 8] s \<le> 0
    \<and> (BytewiseCompare (ExtractUserKey [97, 98, 99, 1, 2, 3, 4, 5, 6, 7, 8]) (ExtractUserKey [97, 100, 1, 2, 3, 4, 5, 6, 7, 8]) < 0
       \<or> ExtractUserKey [97, 98, 99, 1, 2, 3, 4, 5, 6, 7, 8] = ExtractUserKey [97, 100, 1, 2, 3, 4, 5, 6, 7, 8 :: byte]
         \<and> key_num [97, 100, 1, 2, 3, 4, 5, 6, 7, 8] < key_num [97, 98, 99, 1, 2, 3, 4, 5, 6, 7, 8])"
  by (rule short_index_keys)
    (simp_all add: internal_key_def InternalKeyCompare_def Let_def BytewiseCompare_lex ExtractUserKey_def)

end
