(* ===== verification/Ldb_Random.thy ===== *)
theory Ldb_Random
  imports Prelude
begin

text \<open>
  The random numbers of the skip list (\<open>util/random.h\<close>): a multiplicative generator modulo the prime
  \<open>2 ^ 31 - 1\<close> in 64-bit arithmetic.  The state of a \<open>Random\<close> is its seed, and what \<open>Next\<close> returns is
  the seed it leaves.
\<close>

declare One_nat_def [simp del]

section \<open>The code\<close>

definition Random_M :: uint32 where "Random_M = 2147483647"
definition Random_A :: uint64 where "Random_A = 16807"

definition Random_new :: "uint32 \<Rightarrow> uint32" where
  "Random_new s =
     (let seed = s AND 0x7fffffff in if seed = 0 \<or> seed = 2147483647 then 1 else seed)"

definition Random_Next :: "uint32 \<Rightarrow> uint32" where
  "Random_Next seed =
     (let product = ucast seed * Random_A;
          seed = ucast (drop_bit 31 product + (product AND ucast Random_M))
      in if Random_M < seed then seed - Random_M else seed)"

definition Random_Uniform :: "uint32 \<Rightarrow> uint32 \<Rightarrow> uint32 \<times> uint32" where
  "Random_Uniform seed n = (let seed = Random_Next seed in (seed mod n, seed))"

definition Random_OneIn :: "uint32 \<Rightarrow> uint32 \<Rightarrow> bool \<times> uint32" where
  "Random_OneIn seed n = (let seed = Random_Next seed in (seed mod n = 0, seed))"

definition Random_Skewed :: "uint32 \<Rightarrow> nat \<Rightarrow> uint32 \<times> uint32" where
  "Random_Skewed seed max_log =
     (let (base, seed) = Random_Uniform seed (word_of_nat (max_log + 1))
      in Random_Uniform seed (push_bit (unat base) 1))"

section \<open>The generator\<close>

text \<open>A seed that is in use is in \<open>[1, M - 1]\<close>.\<close>

definition seed_ok :: "uint32 \<Rightarrow> bool" where
  "seed_ok seed \<longleftrightarrow> 0 < unat seed \<and> unat seed < 2147483647"

lemma Random_new_ok: "seed_ok (Random_new s)"
proof -
  have "s AND 0x7fffffff = take_bit 31 s" by (simp add: take_bit_eq_mask mask_eq_exp_minus_1)
  then have "unat (s AND 0x7fffffff) < 2 ^ 31" by (simp add: take_bit_eq_mod unat_mod)
  moreover have "s AND 0x7fffffff \<noteq> 2147483647 \<Longrightarrow> unat (s AND 0x7fffffff) \<noteq> 2147483647"
    by (simp add: word_unat_eq_iff)
  ultimately show ?thesis by (auto simp: Random_new_def Let_def seed_ok_def unat_gt_0)
qed

lemma multiple_of_M:
  assumes "(2147483647 :: nat) dvd u * 16807" and "0 < u"
  shows "2147483647 \<le> u"
proof -
  have "2147483647 dvd u * 16807 * 1407677000" using assms(1) by (rule dvd_mult2)
  then have "2147483647 dvd 2147483647 * (11017 * u) + u" by (simp add: ac_simps)
  then have "2147483647 dvd u" by (rule iffD1 [OF dvd_add_right_iff, rotated]) (rule dvd_triv_left)
  then show ?thesis using assms(2) by (auto dest: dvd_imp_le)
qed

lemma Random_Next_mod:
  assumes "seed_ok seed"
  shows "unat (Random_Next seed) = unat seed * 16807 mod 2147483647" and "seed_ok (Random_Next seed)"
proof -
  define u p q r where "u = unat seed" and "p = u * 16807" and "q = p div 2 ^ 31" and "r = p mod 2 ^ 31"
  have u: "0 < u" "u < 2147483647" using assms by (simp_all add: seed_ok_def u_def)
  have p: "p < 2 ^ 46" using u by (simp add: p_def)
  have q: "q < 2 ^ 15" "r < 2 ^ 31" using p by (simp_all add: q_def r_def less_mult_imp_div_less)
  have eq: "p = q * 2147483647 + (q + r)" by (simp add: q_def r_def)
  have "q + r \<noteq> 2147483647"
  proof
    assume "q + r = 2147483647"
    then have "p = (q + 1) * 2147483647" using eq by simp
    then have "2147483647 dvd u * 16807" by (simp add: p_def)
    with multiple_of_M u show False by fastforce
  qed
  moreover have "0 < q + r" using eq u by (auto simp: p_def)
  moreover have sum: "unat (ucast (drop_bit 31 (ucast seed * Random_A) + (ucast seed * Random_A AND ucast Random_M)) :: uint32) = q + r"
  proof -
    let ?p = "ucast seed * Random_A"
    have P: "unat ?p = p"
      using p u by (simp add: Random_A_def unat_word_ariths p_def u_def unsigned_ucast_eq take_bit_eq_mod)
    have "unat (drop_bit 31 ?p) = q" by (simp add: drop_bit_eq_div unat_div P q_def)
    moreover have "?p AND ucast Random_M = take_bit 31 ?p"
      by (simp add: Random_M_def take_bit_eq_mask mask_eq_exp_minus_1)
    then have "unat (?p AND ucast Random_M) = r" by (simp add: take_bit_eq_mod unat_mod P r_def)
    ultimately have "unat (drop_bit 31 ?p + (?p AND ucast Random_M)) = q + r"
      using q by (simp add: unat_word_ariths)
    then show ?thesis using q by (simp add: unsigned_ucast_eq take_bit_eq_mod)
  qed
  ultimately have "unat (Random_Next seed) = (q + r) mod 2147483647 \<and> 0 < (q + r) mod 2147483647"
  proof (cases "2147483647 < q + r")
    case True
    then have "Random_Next seed = ucast (drop_bit 31 (ucast seed * Random_A) + (ucast seed * Random_A AND ucast Random_M)) - Random_M"
      using sum by (simp add: Random_Next_def Let_def word_less_nat_alt Random_M_def)
    then have "unat (Random_Next seed) = q + r - 2147483647"
      using sum True by (simp add: unat_sub_if' Random_M_def)
    moreover have "(q + r) mod 2147483647 = q + r - 2147483647"
      using True q by (simp add: le_mod_geq)
    ultimately show ?thesis using True by simp
  next
    case False
    assume ne: "q + r \<noteq> 2147483647" "0 < q + r"
    then have "unat (Random_Next seed) = q + r"
      using sum False by (simp add: Random_Next_def Let_def word_less_nat_alt Random_M_def)
    then show ?thesis using ne False by simp
  qed
  moreover have "p mod 2147483647 = (q + r) mod 2147483647" using eq by (metis mod_mult_self3)
  ultimately show "unat (Random_Next seed) = unat seed * 16807 mod 2147483647" and "seed_ok (Random_Next seed)"
    by (simp_all add: p_def u_def seed_ok_def)
qed

section \<open>The property\<close>

text \<open>From every seed the constructor leaves, \<open>Next\<close> multiplies by 16807 modulo the prime
  \<open>2 ^ 31 - 1\<close>: the two shifts and the one subtraction are a full reduction, the seed stays between 1
  and \<open>2 ^ 31 - 2\<close>, and so it never gets stuck at 0 or at the modulus.\<close>

theorem Random_Next_is_modular:
  "unat (Random_Next ((Random_Next ^^ n) (Random_new s))) =
     unat ((Random_Next ^^ n) (Random_new s)) * 16807 mod 2147483647
   \<and> 0 < unat ((Random_Next ^^ n) (Random_new s)) \<and> unat ((Random_Next ^^ n) (Random_new s)) < 2147483647"
proof -
  have "seed_ok ((Random_Next ^^ n) (Random_new s))"
    by (induction n) (simp_all add: Random_new_ok Random_Next_mod)
  then show ?thesis using Random_Next_mod(1) by (simp add: seed_ok_def)
qed

end
