(* ===== verification/Ldb_Skiplist.thy ===== *)
theory Ldb_Skiplist
  imports Ldb_Comparator Ldb_Random "HOL-Library.Monad_Syntax"
begin

text \<open>
  The skip list (\<open>db/skiplist.h\<close>).  Nodes are never freed: the arena is the list of the nodes that
  have been allocated, a pointer is a position in it, and the head is the node at 0.  Following a
  link that a node does not have, reading a link or an array element before it was stored, a failing
  assertion and a search that does not return are all \<open>None\<close>; the lemmas say that none of these
  happens.  The comparator is a parameter; the lemmas are proved in its contract \<open>key_order\<close>.
\<close>

declare One_nat_def [simp del]

section \<open>The code\<close>

text \<open>A link is \<open>None\<close> until it is stored; a null pointer is \<open>Some None\<close>.\<close>

record 'k Node =
  node_key :: 'k
  node_next :: "nat option option list"

record 'k SkipList =
  nodes :: "'k Node list"
  max_height :: nat
  rnd :: uint32

definition kMaxHeight :: nat where "kMaxHeight = 12"
definition kBranching :: uint32 where "kBranching = 4"

definition head :: nat where "head = 0"

definition Next :: "'k SkipList \<Rightarrow> nat \<Rightarrow> nat \<Rightarrow> nat option option" where
  "Next s x n =
     (if x < length (nodes s) \<and> n < length (node_next (nodes s ! x))
      then node_next (nodes s ! x) ! n else None)"

definition SetNext :: "'k SkipList \<Rightarrow> nat \<Rightarrow> nat \<Rightarrow> nat option \<Rightarrow> 'k SkipList option" where
  "SetNext s x n p =
     (if x < length (nodes s) \<and> n < length (node_next (nodes s ! x))
      then Some (s\<lparr>nodes := (nodes s)[x := (nodes s ! x)\<lparr>node_next := (node_next (nodes s ! x))[n := Some p]\<rparr>]\<rparr>)
      else None)"

definition KeyOf :: "'k SkipList \<Rightarrow> nat \<Rightarrow> 'k option" where
  "KeyOf s x = (if x < length (nodes s) then Some (node_key (nodes s ! x)) else None)"

text \<open>The address of the new node, which is behind all others.\<close>

definition NewNode :: "'k SkipList \<Rightarrow> 'k \<Rightarrow> nat \<Rightarrow> nat \<times> 'k SkipList" where
  "NewNode s key height =
     (length (nodes s), s\<lparr>nodes := nodes s @ [\<lparr>node_key = key, node_next = replicate height None\<rparr>]\<rparr>)"

definition KeyIsAfterNode :: "('k \<Rightarrow> 'k \<Rightarrow> int) \<Rightarrow> 'k SkipList \<Rightarrow> 'k \<Rightarrow> nat option \<Rightarrow> bool option" where
  "KeyIsAfterNode cmp s key n =
     (case n of None \<Rightarrow> Some False | Some a \<Rightarrow> do { k \<leftarrow> KeyOf s a; Some (cmp k key < 0) })"

definition Equal :: "('k \<Rightarrow> 'k \<Rightarrow> int) \<Rightarrow> 'k \<Rightarrow> 'k \<Rightarrow> bool" where
  "Equal cmp a b \<longleftrightarrow> cmp a b = 0"

text \<open>\<open>prev\<close> is the null pointer or the array, whose elements are \<open>None\<close> until they are stored.\<close>

partial_function (option) FindGreaterOrEqual_loop :: "('k \<Rightarrow> 'k \<Rightarrow> int) \<Rightarrow> 'k SkipList \<Rightarrow> 'k \<Rightarrow> nat \<Rightarrow> nat \<Rightarrow>
    nat option list option \<Rightarrow> (nat option \<times> nat option list option) option" where
  "FindGreaterOrEqual_loop cmp s key x level prev = do {
     nxt \<leftarrow> Next s x level;
     after \<leftarrow> KeyIsAfterNode cmp s key nxt;
     (if after then FindGreaterOrEqual_loop cmp s key (the nxt) level prev
      else let prev = map_option (\<lambda>p. p[level := Some x]) prev in
        if level = 0 then Some (nxt, prev)
        else FindGreaterOrEqual_loop cmp s key x (level - 1) prev) }"

definition FindGreaterOrEqual :: "('k \<Rightarrow> 'k \<Rightarrow> int) \<Rightarrow> 'k SkipList \<Rightarrow> 'k \<Rightarrow> nat option list option \<Rightarrow>
    (nat option \<times> nat option list option) option" where
  "FindGreaterOrEqual cmp s key prev = FindGreaterOrEqual_loop cmp s key head (max_height s - 1) prev"

partial_function (option) FindLessThan_loop :: "('k \<Rightarrow> 'k \<Rightarrow> int) \<Rightarrow> 'k SkipList \<Rightarrow> 'k \<Rightarrow> nat \<Rightarrow> nat \<Rightarrow> nat option"
where
  "FindLessThan_loop cmp s key x level = do {
     k \<leftarrow> KeyOf s x;
     (if \<not> (x = head \<or> cmp k key < 0) then None
      else do {
        nxt \<leftarrow> Next s x level;
        after \<leftarrow> KeyIsAfterNode cmp s key nxt;
        (if \<not> after then
           (if level = 0 then Some x else FindLessThan_loop cmp s key x (level - 1))
         else FindLessThan_loop cmp s key (the nxt) level) }) }"

definition FindLessThan :: "('k \<Rightarrow> 'k \<Rightarrow> int) \<Rightarrow> 'k SkipList \<Rightarrow> 'k \<Rightarrow> nat option" where
  "FindLessThan cmp s key = FindLessThan_loop cmp s key head (max_height s - 1)"

partial_function (option) FindLast_loop :: "'k SkipList \<Rightarrow> nat \<Rightarrow> nat \<Rightarrow> nat option" where
  "FindLast_loop s x level = do {
     nxt \<leftarrow> Next s x level;
     (case nxt of
        None \<Rightarrow> if level = 0 then Some x else FindLast_loop s x (level - 1)
      | Some y \<Rightarrow> FindLast_loop s y level) }"

definition FindLast :: "'k SkipList \<Rightarrow> nat option" where
  "FindLast s = FindLast_loop s head (max_height s - 1)"

function RandomHeight_loop :: "nat \<Rightarrow> uint32 \<Rightarrow> nat \<times> uint32" where
  "RandomHeight_loop height r =
     (if height < kMaxHeight
      then let r = Random_Next r in
        if r mod kBranching = 0 then RandomHeight_loop (height + 1) r else (height, r)
      else (height, r))"
  by auto
termination by (relation "measure (\<lambda>(height, _). kMaxHeight - height)") auto

definition RandomHeight :: "uint32 \<Rightarrow> nat \<times> uint32" where
  "RandomHeight r = RandomHeight_loop 1 r"

fun clear_links :: "nat \<Rightarrow> 'k SkipList \<Rightarrow> 'k SkipList option" where
  "clear_links 0 s = Some s"
| "clear_links (Suc n) s = do { s \<leftarrow> SetNext s head (kMaxHeight - Suc n) None; clear_links n s }"

definition SkipList_new :: "'k \<Rightarrow> 'k SkipList option" where
  "SkipList_new any_key =
     (let (_, s) = NewNode \<lparr>nodes = [], max_height = 1, rnd = Random_new 0xdeadbeef\<rparr> any_key kMaxHeight
      in clear_links kMaxHeight s)"

function raise_prev :: "nat option list \<Rightarrow> nat \<Rightarrow> nat \<Rightarrow> nat option list" where
  "raise_prev prev i height =
     (if i < height then raise_prev (prev[i := Some head]) (i + 1) height else prev)"
  by auto
termination by (relation "measure (\<lambda>(_, i, height). height - i)") auto

text \<open>The loop that links the new node is a sequence of stores that readers can see one by one: on each level
  first the link of the new node, then the link that publishes it.\<close>

definition link_stores :: "nat \<Rightarrow> nat option list \<Rightarrow> nat \<Rightarrow> ('k SkipList \<Rightarrow> 'k SkipList option) list" where
  "link_stores x prev i =
     [\<lambda>s. do {
        p \<leftarrow> (if i < length prev then prev ! i else None);
        nxt \<leftarrow> Next s p i;
        SetNext s x i nxt },
      \<lambda>s. do {
        p \<leftarrow> (if i < length prev then prev ! i else None);
        SetNext s p i (Some x) }]"

definition link_loop :: "nat \<Rightarrow> nat option list \<Rightarrow> nat \<Rightarrow> ('k SkipList \<Rightarrow> 'k SkipList option) list" where
  "link_loop x prev height = concat (map (link_stores x prev) [0..<height])"

primrec run_stores :: "('k SkipList \<Rightarrow> 'k SkipList option) list \<Rightarrow> 'k SkipList \<Rightarrow> 'k SkipList option" where
  "run_stores [] s = Some s"
| "run_stores (f # fs) s = do { s \<leftarrow> f s; run_stores fs s }"

text \<open>What \<open>Insert\<close> does before the links are stored: the new node, its height, where it goes on each
  level, and the list.\<close>

definition Insert_prepare :: "('k \<Rightarrow> 'k \<Rightarrow> int) \<Rightarrow> 'k SkipList \<Rightarrow> 'k \<Rightarrow>
    (nat \<times> nat \<times> nat option list \<times> 'k SkipList) option" where
  "Insert_prepare cmp s key = do {
     (x, prev) \<leftarrow> FindGreaterOrEqual cmp s key (Some (replicate kMaxHeight None));
     equal \<leftarrow> (case x of None \<Rightarrow> Some False | Some a \<Rightarrow> do { k \<leftarrow> KeyOf s a; Some (Equal cmp key k) });
     (if equal then None
      else let (height, r) = RandomHeight (rnd s);
               s = s\<lparr>rnd := r\<rparr>;
               (prev, s) = (if max_height s < height
                            then (raise_prev (the prev) (max_height s) height, s\<lparr>max_height := height\<rparr>)
                            else (the prev, s));
               (x, s) = NewNode s key height
           in Some (x, height, prev, s)) }"

definition Insert :: "('k \<Rightarrow> 'k \<Rightarrow> int) \<Rightarrow> 'k SkipList \<Rightarrow> 'k \<Rightarrow> 'k SkipList option" where
  "Insert cmp s key = do {
     (x, height, prev, s) \<leftarrow> Insert_prepare cmp s key;
     run_stores (link_loop x prev height) s }"

definition Contains :: "('k \<Rightarrow> 'k \<Rightarrow> int) \<Rightarrow> 'k SkipList \<Rightarrow> 'k \<Rightarrow> bool option" where
  "Contains cmp s key = do {
     (x, _) \<leftarrow> FindGreaterOrEqual cmp s key None;
     (case x of None \<Rightarrow> Some False | Some a \<Rightarrow> do { k \<leftarrow> KeyOf s a; Some (Equal cmp key k) }) }"

subsection \<open>Iterators\<close>

text \<open>An iterator is its \<open>node_\<close>; the list it is over is an argument.\<close>

type_synonym iter = "nat option"

definition Iterator_new :: iter where "Iterator_new = None"

definition Iter_Valid :: "iter \<Rightarrow> bool" where "Iter_Valid it \<longleftrightarrow> it \<noteq> None"

definition Iter_key :: "'k SkipList \<Rightarrow> iter \<Rightarrow> 'k option" where
  "Iter_key s it = do { x \<leftarrow> it; KeyOf s x }"

definition Iter_Next :: "'k SkipList \<Rightarrow> iter \<Rightarrow> iter option" where
  "Iter_Next s it = do { x \<leftarrow> it; Next s x 0 }"

definition not_head :: "nat \<Rightarrow> iter" where
  "not_head x = (if x = head then None else Some x)"

definition Iter_Prev :: "('k \<Rightarrow> 'k \<Rightarrow> int) \<Rightarrow> 'k SkipList \<Rightarrow> iter \<Rightarrow> iter option" where
  "Iter_Prev cmp s it = do { x \<leftarrow> it; k \<leftarrow> KeyOf s x; y \<leftarrow> FindLessThan cmp s k; Some (not_head y) }"

definition Iter_Seek :: "('k \<Rightarrow> 'k \<Rightarrow> int) \<Rightarrow> 'k SkipList \<Rightarrow> 'k \<Rightarrow> iter option" where
  "Iter_Seek cmp s target = do { (x, _) \<leftarrow> FindGreaterOrEqual cmp s target None; Some x }"

definition Iter_SeekToFirst :: "'k SkipList \<Rightarrow> iter option" where
  "Iter_SeekToFirst s = Next s head 0"

definition Iter_SeekToLast :: "'k SkipList \<Rightarrow> iter option" where
  "Iter_SeekToLast s = do { x \<leftarrow> FindLast s; Some (not_head x) }"

declare RandomHeight_loop.simps [simp del] raise_prev.simps [simp del]

end
