(* ===== verification/Ldb_Skiplist_Props.thy ===== *)
theory Ldb_Skiplist_Props
  imports Ldb_Skiplist
begin

text \<open>
  The skip list holds a sorted list of keys.  The invariant \<open>skip_links\<close> describes the list by the
  addresses of its nodes in order and by a height for each of them: the links of a level go through the
  nodes that are higher than the level.  The height may be below the number of links the node has, and
  that is the state between two stores of an \<open>Insert\<close>: the new node is linked up to some level.  The
  searches are followed once, by the induction principle \<open>search_induct\<close>.
\<close>

declare One_nat_def [simp del]

section \<open>The store\<close>

abbreviation key_at :: "'k SkipList \<Rightarrow> nat \<Rightarrow> 'k" where
  "key_at s a \<equiv> node_key (nodes s ! a)"

abbreviation links_at :: "'k SkipList \<Rightarrow> nat \<Rightarrow> nat" where
  "links_at s a \<equiv> length (node_next (nodes s ! a))"

lemma Next_SomeD: "Next s x n = Some p \<Longrightarrow> x < length (nodes s) \<and> n < links_at s x"
  by (simp add: Next_def split: if_splits)

lemma SetNext_facts:
  assumes "SetNext s x n p = Some s'"
  shows "Next s' y m = (if y = x \<and> m = n then Some p else Next s y m)"
    and "length (nodes s') = length (nodes s)" and "key_at s' y = key_at s y" and "links_at s' y = links_at s y"
    and "max_height s' = max_height s"
  using assms by (auto simp: SetNext_def Next_def nth_list_update split: if_splits)

lemma SetNext_defined:
  "x < length (nodes s) \<Longrightarrow> n < links_at s x \<Longrightarrow> \<exists>s'. SetNext s x n p = Some s'"
  by (simp add: SetNext_def)

section \<open>Chains\<close>

definition first :: "nat list \<Rightarrow> nat option" where
  "first xs = (case xs of [] \<Rightarrow> None | a # _ \<Rightarrow> Some a)"

lemma first_simps [simp]: "first [] = None" "first (a # xs) = Some a"
  by (simp_all add: first_def)

fun linked :: "'k SkipList \<Rightarrow> nat \<Rightarrow> nat \<Rightarrow> nat list \<Rightarrow> bool" where
  "linked s i x [] \<longleftrightarrow> Next s x i = Some None"
| "linked s i x (y # ys) \<longleftrightarrow> Next s x i = Some (Some y) \<and> linked s i y ys"

lemma linked_first: "linked s i x ys \<Longrightarrow> Next s x i = Some (first ys)"
  by (cases ys) simp_all


lemma linked_after: "linked s i x (xs @ y # ys) \<Longrightarrow> linked s i y ys"
  by (induction xs arbitrary: x) auto

lemma linked_frame: "(\<And>a. a \<in> set (x # ys) \<Longrightarrow> Next s' a i = Next s a i) \<Longrightarrow> linked s' i x ys = linked s i x ys"
  by (induction ys arbitrary: x) auto

text \<open>Linking a node \<open>n\<close> behind the node \<open>p\<close>.\<close>

lemma linked_insert:
  assumes "linked s i x (xs @ ys)" and "distinct (x # xs @ ys)" and "n \<notin> set (x # xs @ ys)"
    and "Next s' (last (x # xs)) i = Some (Some n)" and "Next s' n i = Some (first ys)"
    and "\<And>a. a \<noteq> n \<Longrightarrow> a \<noteq> last (x # xs) \<Longrightarrow> Next s' a i = Next s a i"
  shows "linked s' i x (xs @ n # ys)"
  using assms
proof (induction xs arbitrary: x)
  case Nil
  then have "linked s' i n ys"
  proof (cases ys)
    case (Cons y zs)
    with Nil have "linked s i y zs" by simp
    moreover have "Next s' a i = Next s a i" if "a \<in> set (y # zs)" for a
      by (rule Nil(6)) (use Nil(2,3) Cons that in auto)
    ultimately have "linked s' i y zs" using linked_frame by blast
    with Nil Cons show ?thesis by simp
  qed simp
  with Nil show ?case by simp
next
  case (Cons z xs)
  then have "linked s' i z (xs @ n # ys)" by (intro Cons.IH) auto
  moreover have "x \<noteq> last (z # xs)" using Cons.prems(2) by (metis distinct.simps(2) in_set_conv_decomp last_in_set list.distinct(1) append_Cons Un_iff set_append)
  then have "Next s' x i = Some (Some z)" using Cons.prems by auto
  ultimately show ?case by simp
qed

section \<open>The invariant\<close>

definition skip_links :: "'k SkipList \<Rightarrow> (nat \<Rightarrow> nat) \<Rightarrow> nat list \<Rightarrow> bool" where
  "skip_links s h L \<longleftrightarrow>
     nodes s \<noteq> [] \<and> links_at s head = kMaxHeight \<and> 1 \<le> max_height s \<and> max_height s \<le> kMaxHeight
     \<and> (\<forall>a\<in>set L. head < a \<and> a < length (nodes s) \<and> h a \<le> links_at s a \<and> h a \<le> max_height s)
     \<and> distinct L \<and> (\<forall>i<kMaxHeight. linked s i head (filter (\<lambda>a. i < h a) L))"

definition skip_keys :: "('k \<Rightarrow> bool) \<Rightarrow> ('k \<Rightarrow> 'k \<Rightarrow> int) \<Rightarrow> 'k SkipList \<Rightarrow> nat list \<Rightarrow> bool" where
  "skip_keys valid cmp s L \<longleftrightarrow>
     (\<forall>a\<in>set L. valid (key_at s a)) \<and> sorted_wrt (\<lambda>a b. cmp (key_at s a) (key_at s b) < 0) L"

lemma skip_keys_map: "skip_keys valid cmp s L \<longleftrightarrow>
    (\<forall>x\<in>set (map (key_at s) L). valid x) \<and> sorted_wrt (\<lambda>x y. cmp x y < 0) (map (key_at s) L)"
  by (simp add: skip_keys_def sorted_wrt_map)

text \<open>The abstraction: the list holds the keys \<open>ks\<close>, in this order.\<close>

definition holds :: "('k \<Rightarrow> bool) \<Rightarrow> ('k \<Rightarrow> 'k \<Rightarrow> int) \<Rightarrow> 'k SkipList \<Rightarrow> 'k list \<Rightarrow> bool" where
  "holds valid cmp s ks \<longleftrightarrow>
     (\<exists>h L. skip_links s h L \<and> (\<forall>a\<in>set L. 1 \<le> h a) \<and> skip_keys valid cmp s L \<and> ks = map (key_at s) L)"

section \<open>Searching\<close>

text \<open>Where a search may be: on a node of \<open>pre\<close> that is higher than the level, or at the head.\<close>

definition may_be :: "(nat \<Rightarrow> nat) \<Rightarrow> nat list \<Rightarrow> nat \<Rightarrow> nat \<Rightarrow> bool" where
  "may_be h pre i x \<longleftrightarrow> x = head \<or> x \<in> set pre \<and> i < h x"

definition before :: "(nat \<Rightarrow> nat) \<Rightarrow> nat list \<Rightarrow> nat \<Rightarrow> nat" where
  "before h pre i = last (head # filter (\<lambda>a. i < h a) pre)"

lemma head_not_in: "skip_links s h L \<Longrightarrow> head \<notin> set L"
  by (auto simp: skip_links_def)

lemma may_be_split:
  assumes "skip_links s h (pre @ post)" and "may_be h pre i x" and "i < kMaxHeight"
  obtains p1 p2 where "head # pre = p1 @ x # p2" and "linked s i x (filter (\<lambda>a. i < h a) (p2 @ post))"
proof (cases "x = head")
  case True
  with assms that [of "[]" pre] show ?thesis by (auto simp: skip_links_def)
next
  case False
  with assms(2) obtain q p2 where pre: "pre = q @ x # p2" and h: "i < h x"
    by (auto simp: may_be_def dest: split_list)
  have "linked s i head (filter (\<lambda>a. i < h a) (pre @ post))"
    using assms(1,3) by (simp add: skip_links_def)
  then have "linked s i head (filter (\<lambda>a. i < h a) q @ x # filter (\<lambda>a. i < h a) (p2 @ post))"
    using pre h by simp
  then have "linked s i x (filter (\<lambda>a. i < h a) (p2 @ post))" by (rule linked_after)
  with pre that [of "head # q" p2] show ?thesis by simp
qed

lemma before_last:
  assumes "head # pre = p1 @ x # p2" and "filter (\<lambda>a. i < h a) p2 = []" and "x = head \<or> i < h x"
    and "head \<notin> set pre"
  shows "x = before h pre i"
proof (cases "x = head")
  case True
  then have "p1 = []" using assms(1,4) by (cases p1) auto
  then show ?thesis using assms(1,2) True by (simp add: before_def)
next
  case False
  then obtain q where "p1 = head # q" using assms(1) by (cases p1) auto
  then show ?thesis using assms False by (simp add: before_def)
qed

lemma level_induct:
  assumes links: "skip_links s h (pre @ post)" and i: "i < kMaxHeight"
    and step: "\<And>x y. may_be h pre i x \<Longrightarrow> Next s x i = Some (Some y) \<Longrightarrow> y \<in> set pre \<Longrightarrow> may_be h pre i y \<Longrightarrow>
        Q y \<Longrightarrow> Q x"
    and stop: "\<And>x. may_be h pre i x \<Longrightarrow> x = before h pre i \<Longrightarrow>
        Next s x i = Some (first (filter (\<lambda>a. i < h a) post)) \<Longrightarrow> Q x"
    and x: "may_be h pre i x"
  shows "Q x"
proof -
  have "Q x" if "head # pre = p1 @ x # p2" "linked s i x (filter (\<lambda>a. i < h a) (p2 @ post))" "may_be h pre i x"
    for p1 p2 x
    using that
  proof (induction "length p2" arbitrary: p1 x p2 rule: less_induct)
    case less
    show ?case
    proof (cases "filter (\<lambda>a. i < h a) p2")
      case Nil
      have "x = before h pre i"
        by (rule before_last [OF less(2) Nil])
          (use less(4) links in \<open>auto simp: may_be_def skip_links_def\<close>)
      moreover have "Next s x i = Some (first (filter (\<lambda>a. i < h a) post))"
        using linked_first [OF less(3)] Nil by simp
      ultimately show ?thesis using stop less(4) by blast
    next
      case (Cons y r)
      then obtain us vs where p2: "p2 = us @ y # vs" and y: "i < h y" "r = filter (\<lambda>a. i < h a) vs"
        by (auto simp: filter_eq_Cons_iff)
      have nxt: "Next s x i = Some (Some y)" "linked s i y (filter (\<lambda>a. i < h a) (vs @ post))"
        using less(3) Cons y by simp_all
      have "y \<in> set pre" using less(2) p2 by (cases p1) auto
      then have yin: "y \<in> set pre" "may_be h pre i y" using y by (simp_all add: may_be_def)
      have "head # pre = (p1 @ x # us) @ y # vs" using less(2) p2 by simp
      then have "Q y" using less(1) [of vs "p1 @ x # us" y] nxt(2) yin(2) p2 by simp
      with step less(4) nxt(1) yin show ?thesis by blast
    qed
  qed
  with may_be_split [OF links x i] x show ?thesis by metis
qed

lemma search_induct [consumes 3, case_names step stop down]:
  assumes links: "skip_links s h (pre @ post)" and place: "may_be h pre i x" "i < kMaxHeight"
    and step: "\<And>i x y. may_be h pre i x \<Longrightarrow> Next s x i = Some (Some y) \<Longrightarrow> y \<in> set pre \<Longrightarrow> P i y \<Longrightarrow> P i x"
    and stop: "\<And>x. x = before h pre 0 \<Longrightarrow> may_be h pre 0 x \<Longrightarrow>
        Next s x 0 = Some (first (filter (\<lambda>a. 0 < h a) post)) \<Longrightarrow> P 0 x"
    and down: "\<And>i x. x = before h pre (Suc i) \<Longrightarrow> may_be h pre (Suc i) x \<Longrightarrow>
        Next s x (Suc i) = Some (first (filter (\<lambda>a. Suc i < h a) post)) \<Longrightarrow> P i x \<Longrightarrow> P (Suc i) x"
  shows "P i x"
  using place
proof (induction i arbitrary: x)
  case 0
  show ?case
    by (rule level_induct [OF links 0(2) _ _ 0(1)]) (blast intro: step stop)+
next
  case (Suc i)
  show ?case
  proof (rule level_induct [OF links Suc(3) _ _ Suc(2)])
    fix x assume x: "may_be h pre (Suc i) x" "x = before h pre (Suc i)"
      "Next s x (Suc i) = Some (first (filter (\<lambda>a. Suc i < h a) post))"
    have "may_be h pre i x" using x(1) by (auto simp: may_be_def)
    with Suc have "P i x" by simp
    with x show "P (Suc i) x" using down by blast
  qed (blast intro: step)
qed

text \<open>Where the three searches start and what they meet.\<close>

lemma search_start: "skip_links s h (pre @ post) \<Longrightarrow> max_height s - 1 < kMaxHeight \<and> may_be h pre i head"
  by (auto simp: skip_links_def may_be_def)

lemma first_filter_in: "first (filter P xs) = Some a \<Longrightarrow> a \<in> set xs \<and> P a"
  by (cases "filter P xs") (auto dest: filter_eq_ConsD)

lemma KeyOf_in: "skip_links s h L \<Longrightarrow> a \<in> set L \<Longrightarrow> KeyOf s a = Some (key_at s a)"
  by (auto simp: skip_links_def KeyOf_def)

lemma KeyIsAfterNode_first:
  assumes "skip_links s h (pre @ post)" and "\<forall>a\<in>set post. \<not> cmp (key_at s a) k < 0"
  shows "KeyIsAfterNode cmp s k (first (filter P post)) = Some False"
proof (cases "first (filter P post)")
  case (Some a)
  then have a: "a \<in> set post" using first_filter_in by blast
  then have "KeyOf s a = Some (key_at s a)" using KeyOf_in [OF assms(1)] by simp
  with Some a assms(2) show ?thesis by (simp add: KeyIsAfterNode_def)
qed (simp add: KeyIsAfterNode_def)

text \<open>What a search stores into \<open>prev\<close> on its way down.\<close>

fun set_prev :: "(nat \<Rightarrow> nat) \<Rightarrow> nat list \<Rightarrow> nat \<Rightarrow> nat option list \<Rightarrow> nat option list" where
  "set_prev h pre 0 p = p[0 := Some (before h pre 0)]"
| "set_prev h pre (Suc i) p = set_prev h pre i (p[Suc i := Some (before h pre (Suc i))])"

lemma length_set_prev [simp]: "length (set_prev h pre i p) = length p"
  by (induction i arbitrary: p) simp_all

lemma set_prev_nth: "j < length p \<Longrightarrow> set_prev h pre i p ! j = (if j \<le> i then Some (before h pre j) else p ! j)"
  by (induction i arbitrary: p) (auto simp: nth_list_update le_Suc_eq)

lemma FindGreaterOrEqual_loop_ok:
  assumes links: "skip_links s h (pre @ post)" and pre: "\<forall>a\<in>set pre. cmp (key_at s a) k < 0"
    and post: "\<forall>a\<in>set post. \<not> cmp (key_at s a) k < 0"
    and place: "may_be h pre i x" "i < kMaxHeight"
  shows "FindGreaterOrEqual_loop cmp s k x i prev =
    Some (first (filter (\<lambda>a. 0 < h a) post), map_option (set_prev h pre i) prev)"
  using links place
proof (induction i x arbitrary: prev rule: search_induct)
  case (step i x y)
  then show ?case using pre KeyOf_in [OF links, of y]
    by (subst FindGreaterOrEqual_loop.simps) (simp add: KeyIsAfterNode_def)
next
  case (stop x)
  then show ?case using KeyIsAfterNode_first [where cmp = cmp and k = k, OF links post]
    by (subst FindGreaterOrEqual_loop.simps) (cases prev; simp)
next
  case (down i x)
  then show ?case using KeyIsAfterNode_first [where cmp = cmp and k = k, OF links post]
    by (subst FindGreaterOrEqual_loop.simps) (cases prev; simp)
qed

lemma FindLessThan_loop_ok:
  assumes links: "skip_links s h (pre @ post)" and pre: "\<forall>a\<in>set pre. cmp (key_at s a) k < 0"
    and post: "\<forall>a\<in>set post. \<not> cmp (key_at s a) k < 0"
    and place: "may_be h pre i x" "i < kMaxHeight"
  shows "FindLessThan_loop cmp s k x i = Some (before h pre 0)"
proof -
  have here: "KeyOf s x = Some (key_at s x)" "x = head \<or> cmp (key_at s x) k < 0" if "may_be h pre i x" for x i
    using that pre KeyOf_in [OF links, of x] links
    by (auto simp: may_be_def skip_links_def KeyOf_def head_def)
  show ?thesis
    using links place
  proof (induction i x rule: search_induct)
    case (step i x y)
    then show ?case using pre KeyOf_in [OF links, of y] here [of i x]
      by (subst FindLessThan_loop.simps) (simp add: KeyIsAfterNode_def)
  next
    case (stop x)
    then show ?case using KeyIsAfterNode_first [where cmp = cmp and k = k, OF links post] here [of 0 x]
      by (subst FindLessThan_loop.simps) simp
  next
    case (down i x)
    then show ?case using KeyIsAfterNode_first [where cmp = cmp and k = k, OF links post] here [of "Suc i" x]
      by (subst FindLessThan_loop.simps) simp
  qed
qed

lemma FindLast_loop_ok:
  assumes links: "skip_links s h L" and place: "may_be h L i x" "i < kMaxHeight"
  shows "FindLast_loop s x i = Some (before h L 0)"
proof -
  have "skip_links s h (L @ [])" using links by simp
  then show ?thesis using place
    by (induction i x rule: search_induct) (subst FindLast_loop.simps, simp)+
qed


section \<open>Inserting\<close>

lemma RandomHeight_range: "1 \<le> fst (RandomHeight r) \<and> fst (RandomHeight r) \<le> kMaxHeight"
proof -
  have "n \<le> kMaxHeight \<Longrightarrow> n \<le> fst (RandomHeight_loop n r) \<and> fst (RandomHeight_loop n r) \<le> kMaxHeight" for n
  proof (induction n r rule: RandomHeight_loop.induct)
    case (1 n r)
    show ?case
    proof (cases "n < kMaxHeight \<and> Random_Next r mod kBranching = 0")
      case True
      then have "RandomHeight_loop n r = RandomHeight_loop (n + 1) (Random_Next r)"
        by (simp only: RandomHeight_loop.simps [of n r] Let_def if_True simp_thms)
      moreover have "n + 1 \<le> kMaxHeight" using True by simp
      ultimately show ?thesis using 1(1) [OF conjunct1 [OF True] refl conjunct2 [OF True]] by auto
    next
      case False
      then consider "\<not> n < kMaxHeight" | "n < kMaxHeight" "Random_Next r mod kBranching \<noteq> 0" by metis
      then have "fst (RandomHeight_loop n r) = n"
        by cases (simp_all only: RandomHeight_loop.simps [of n r] Let_def if_True if_False fst_conv)
      then show ?thesis using 1(2) by simp
    qed
  qed
  from this [of 1] show ?thesis by (simp add: RandomHeight_def kMaxHeight_def)
qed

lemma length_raise_prev [simp]: "length (raise_prev p i n) = length p"
proof (induction p i n rule: raise_prev.induct)
  case (1 p i n)
  then show ?case by (simp add: raise_prev.simps [of p i n])
qed

lemma raise_prev_nth: "j < length p \<Longrightarrow>
    raise_prev p i n ! j = (if i \<le> j \<and> j < n then Some head else p ! j)"
proof (induction p i n rule: raise_prev.induct)
  case (1 p i n)
  then show ?case by (auto simp: raise_prev.simps [of p i n] nth_list_update)
qed

text \<open>Storing the links of one level extends the height of the new node by one.\<close>

lemma filter_fresh:
  "n \<notin> set xs \<Longrightarrow> filter (\<lambda>a. i < (if a = n then j else h a)) xs = filter (\<lambda>a. i < h a) xs"
  by (rule filter_cong) auto

lemma link_level_ok:
  assumes links: "skip_links s (h(n := i)) (pre @ n # post)" and i: "i < links_at s n" "i < max_height s"
    and prev: "i < length prev" "prev ! i = Some (before h pre i)"
  shows "\<exists>s'. run_stores (take 1 (link_stores n prev i)) s = Some s' \<and> skip_links s' (h(n := i)) (pre @ n # post)
      \<and> (\<forall>a. key_at s' a = key_at s a \<and> links_at s' a = links_at s a) \<and> max_height s' = max_height s"
    and "\<exists>s'. run_stores (link_stores n prev i) s = Some s' \<and> skip_links s' (h(n := Suc i)) (pre @ n # post)
      \<and> (\<forall>a. key_at s' a = key_at s a \<and> links_at s' a = links_at s a) \<and> max_height s' = max_height s"
proof -
  let ?h = "h(n := i)" and ?h' = "h(n := Suc i)" and ?p = "before h pre i"
  let ?xs = "filter (\<lambda>a. i < h a) pre" and ?ys = "filter (\<lambda>a. i < h a) post"
  have n: "n \<notin> set pre" "n \<notin> set post" "n \<noteq> head" and dist: "distinct (head # pre @ post)"
    and i12: "i < kMaxHeight" and len: "head < length (nodes s)" "n < length (nodes s)"
    using links i by (auto simp: skip_links_def head_def)
  have chain: "linked s j head (filter (\<lambda>a. j < ?h a) (pre @ n # post))" if "j < kMaxHeight" for j
    using links that by (simp add: skip_links_def)
  have "linked s i head (?xs @ ?ys)" using chain [OF i12] n by (simp add: filter_fresh)
  moreover have Nextp: "Next s ?p i = Some (first ?ys)"
  proof (cases "?xs" rule: rev_cases)
    case Nil
    then show ?thesis using linked_first [OF calculation] by (simp add: before_def)
  next
    case (snoc zs z)
    then show ?thesis using linked_first [OF linked_after [of s i head zs z ?ys]] calculation
      by (simp add: before_def)
  qed
  moreover obtain s1 where s1: "SetNext s n i (first ?ys) = Some s1"
    using SetNext_defined len(2) i(1) by blast
  moreover have "?p < length (nodes s) \<and> i < links_at s ?p"
    using Next_SomeD calculation(2) by blast
  then obtain s2 where s2: "SetNext s1 ?p i (Some n) = Some s2"
    using SetNext_defined [of ?p s1 i] SetNext_facts(2,4) [OF s1] by metis
  ultimately have "run_stores (link_stores n prev i) s = Some s2" using prev by (simp add: link_stores_def)
  have pn: "?p \<noteq> n"
    using n by (auto simp: before_def dest!: last_in_set [where as = "filter _ _"])
  have Next2: "Next s2 a j = (if a = ?p \<and> j = i then Some (Some n) else if a = n \<and> j = i then Some (first ?ys)
      else Next s a j)" for a j
    using SetNext_facts(1) [OF s1] SetNext_facts(1) [OF s2] by simp
  have "linked s2 j head (filter (\<lambda>a. j < ?h' a) (pre @ n # post))" if j: "j < kMaxHeight" for j
  proof (cases "j = i")
    case True
    have "linked s2 i head (?xs @ n # ?ys)"
      by (rule linked_insert [OF \<open>linked s i head (?xs @ ?ys)\<close>])
        (use dist n Next2 pn in \<open>auto simp: before_def\<close>)
    then show ?thesis using True n by (simp add: filter_fresh)
  next
    case False
    then have "filter (\<lambda>a. j < ?h' a) (pre @ n # post) = filter (\<lambda>a. j < ?h a) (pre @ n # post)"
      using n by (auto simp: filter_fresh)
    moreover have "linked s2 j head ys = linked s j head ys" for ys
      by (rule linked_frame) (simp add: Next2 False)
    ultimately show ?thesis using chain [OF j] by simp
  qed
  moreover have same: "key_at s2 a = key_at s a" "links_at s2 a = links_at s a" "max_height s2 = max_height s"
      "length (nodes s2) = length (nodes s)" for a
    using SetNext_facts [OF s1] SetNext_facts [OF s2] by simp_all
  moreover have range: "head < a \<and> a < length (nodes s) \<and> ?h' a \<le> links_at s a \<and> ?h' a \<le> max_height s"
    if "a \<in> set (pre @ n # post)" for a
  proof -
    have "\<forall>a\<in>set (pre @ n # post). head < a \<and> a < length (nodes s) \<and> ?h a \<le> links_at s a \<and> ?h a \<le> max_height s"
      using links unfolding skip_links_def by blast
    then have "head < a \<and> a < length (nodes s) \<and> ?h a \<le> links_at s a \<and> ?h a \<le> max_height s"
      using that by (rule bspec)
    then show ?thesis using i by (simp split: if_splits)
  qed
  moreover have "nodes s2 \<noteq> []" using same(4) len by auto
  ultimately have "skip_links s2 ?h' (pre @ n # post)"
    using links unfolding skip_links_def by simp
  with \<open>run_stores (link_stores n prev i) s = Some s2\<close> same
  show "\<exists>s'. run_stores (link_stores n prev i) s = Some s' \<and> skip_links s' ?h' (pre @ n # post)
      \<and> (\<forall>a. key_at s' a = key_at s a \<and> links_at s' a = links_at s a) \<and> max_height s' = max_height s" by blast
  have "linked s1 j head (filter (\<lambda>a. j < ?h a) (pre @ n # post))" if j: "j < kMaxHeight" for j
  proof -
    have "n \<noteq> a \<or> j \<noteq> i" if "a \<in> set (head # filter (\<lambda>a. j < ?h a) (pre @ n # post))" for a using that n by auto
    then have "linked s1 j head (filter (\<lambda>a. j < ?h a) (pre @ n # post)) = linked s j head (filter (\<lambda>a. j < ?h a) (pre @ n # post))"
      by (intro linked_frame) (auto simp: SetNext_facts(1) [OF s1])
    then show ?thesis using chain [OF j] by simp
  qed
  moreover have same1: "key_at s1 a = key_at s a" "links_at s1 a = links_at s a" "max_height s1 = max_height s"
      "length (nodes s1) = length (nodes s)" for a
    using SetNext_facts [OF s1] by simp_all
  moreover have "nodes s1 \<noteq> []" using same1(4) len by auto
  ultimately have "skip_links s1 ?h (pre @ n # post)" using links unfolding skip_links_def by simp
  moreover have "run_stores (take 1 (link_stores n prev i)) s = Some s1"
    using prev Nextp s1 by (simp add: link_stores_def One_nat_def)
  ultimately show "\<exists>s'. run_stores (take 1 (link_stores n prev i)) s = Some s' \<and> skip_links s' ?h (pre @ n # post)
      \<and> (\<forall>a. key_at s' a = key_at s a \<and> links_at s' a = links_at s a) \<and> max_height s' = max_height s"
    using same1 by blast
qed

text \<open>The state behind the first stores: some levels, and perhaps the first store of the next.\<close>

lemma run_stores_append: "run_stores (fs @ gs) s = Option.bind (run_stores fs s) (run_stores gs)"
  by (induction fs arbitrary: s) (simp_all add: Option.bind_assoc)

lemma link_loop_Suc: "link_loop x prev (Suc j) = link_loop x prev j @ link_stores x prev j"
  by (simp add: link_loop_def)

lemma length_link_loop: "length (link_loop x prev height) = 2 * height"
  by (induction height) (simp_all add: link_loop_Suc, simp_all add: link_loop_def link_stores_def)

lemma take_link_loop:
  "m \<le> 2 * height \<Longrightarrow> take m (link_loop x prev height) =
    link_loop x prev (m div 2) @ (if even m then [] else take 1 (link_stores x prev (m div 2)))"
proof (induction height)
  case 0
  then show ?case by (simp add: link_loop_def)
next
  case (Suc height)
  have "m \<le> 2 * height \<or> m = Suc (2 * height) \<or> m = Suc (Suc (2 * height))" using Suc.prems by auto
  then consider "m \<le> 2 * height" | "m = Suc (2 * height)" | "m = Suc (Suc (2 * height))" by blast
  then show ?case
  proof cases
    case 1
    then show ?thesis using Suc.IH by (simp add: link_loop_Suc length_link_loop)
  next
    case 2
    then show ?thesis by (simp add: link_loop_Suc length_link_loop One_nat_def)
  next
    case 3
    then show ?thesis by (simp add: link_loop_Suc length_link_loop) (simp add: link_stores_def)
  qed
qed

lemma published_ok:
  assumes "skip_links s (h(n := 0)) (pre @ n # post)" and "height \<le> links_at s n" "height \<le> max_height s"
    and "height \<le> length prev" "\<forall>i<height. prev ! i = Some (before h pre i)" and "j \<le> height"
  shows "\<exists>s'. run_stores (link_loop n prev j) s = Some s' \<and> skip_links s' (h(n := j)) (pre @ n # post)
    \<and> (\<forall>a. key_at s' a = key_at s a \<and> links_at s' a = links_at s a) \<and> max_height s' = max_height s"
  using assms(6)
proof (induction j)
  case 0
  show ?case by (intro exI [of _ s]) (use assms(1) in \<open>simp add: link_loop_def del: fun_upd_apply\<close>)
next
  case (Suc j)
  then obtain s' where s': "run_stores (link_loop n prev j) s = Some s'" "skip_links s' (h(n := j)) (pre @ n # post)"
    "\<forall>a. key_at s' a = key_at s a \<and> links_at s' a = links_at s a" "max_height s' = max_height s"
    using Suc_leD by blast
  have "j < links_at s' n" "j < max_height s'" "j < length prev" "prev ! j = Some (before h pre j)"
    using Suc.prems s'(3,4) assms(2-5) by auto
  from link_level_ok(2) [OF s'(2) this] s' show ?case by (auto simp: link_loop_Suc run_stores_append simp del: fun_upd_apply)
qed

lemma stores_ok:
  assumes "skip_links s (h(n := 0)) (pre @ n # post)" and "height \<le> links_at s n" "height \<le> max_height s"
    and "height \<le> length prev" "\<forall>i<height. prev ! i = Some (before h pre i)" and m: "m \<le> 2 * height"
  shows "\<exists>s'. run_stores (take m (link_loop n prev height)) s = Some s' \<and> skip_links s' (h(n := m div 2)) (pre @ n # post)
    \<and> (\<forall>a. key_at s' a = key_at s a \<and> links_at s' a = links_at s a)"
proof -
  let ?j = "m div 2"
  have "?j \<le> height" using m by simp
  from published_ok [OF assms(1-5) this] obtain s' where s': "run_stores (link_loop n prev ?j) s = Some s'"
    "skip_links s' (h(n := ?j)) (pre @ n # post)" "\<forall>a. key_at s' a = key_at s a \<and> links_at s' a = links_at s a"
    "max_height s' = max_height s" by blast
  show ?thesis
  proof (cases "even m")
    case True
    then show ?thesis using s' by (simp add: take_link_loop [OF m] del: fun_upd_apply)
  next
    case False
    then have j: "?j < height" using m by (elim oddE) simp
    have "?j < links_at s' n" "?j < max_height s'" "?j < length prev" "prev ! ?j = Some (before h pre ?j)"
      using j s'(3,4) assms(2-5) by auto
    from link_level_ok(1) [OF s'(2) this] s' False show ?thesis
      by (auto simp: take_link_loop [OF m] run_stores_append simp del: fun_upd_apply)
  qed
qed

lemma NewNode_links:
  assumes "skip_links s h (pre @ post)" and "NewNode s k height = (n, s')"
  shows "n = length (nodes s)" and "skip_links s' (h(n := 0)) (pre @ n # post)" and "links_at s' n = height"
    and "key_at s' n = k" and "\<And>a. a < length (nodes s) \<Longrightarrow> key_at s' a = key_at s a"
    and "max_height s' = max_height s"
proof -
  have n: "n = length (nodes s)" and s': "s' = s\<lparr>nodes := nodes s @ [\<lparr>node_key = k, node_next = replicate height None\<rparr>]\<rparr>"
    using assms(2) by (simp_all add: NewNode_def)
  have old: "nodes s' ! a = nodes s ! a" if "a < length (nodes s)" for a
    using that by (simp add: s' nth_append)
  have len: "head < length (nodes s)" using assms(1) by (auto simp: skip_links_def head_def)
  have el: "\<forall>a\<in>set (pre @ post). head < a \<and> a < length (nodes s) \<and> h a \<le> links_at s a \<and> h a \<le> max_height s"
    using assms(1) unfolding skip_links_def by blast
  then have fresh: "n \<notin> set pre" "n \<notin> set post" using n by auto
  have "Next s' a i = Next s a i" if "a < length (nodes s)" for a i
    using that old [OF that] by (simp add: Next_def s')
  then have "linked s' i head (filter (\<lambda>a. i < h a) (pre @ post)) = linked s i head (filter (\<lambda>a. i < h a) (pre @ post))"
    for i using el len by (intro linked_frame) auto
  then have "linked s' i head (filter (\<lambda>a. i < (h(n := 0)) a) (pre @ n # post))" if "i < kMaxHeight" for i
    using assms(1) that fresh by (simp add: skip_links_def filter_fresh)
  moreover have "\<forall>a\<in>set (pre @ n # post). head < a \<and> a < length (nodes s')
      \<and> (h(n := 0)) a \<le> links_at s' a \<and> (h(n := 0)) a \<le> max_height s'"
    using el len n by (auto simp: s' nth_append less_Suc_eq)
  moreover have "distinct (pre @ n # post)" using assms(1) fresh by (auto simp: skip_links_def)
  ultimately show "skip_links s' (h(n := 0)) (pre @ n # post)"
    using assms(1) old [OF len] unfolding skip_links_def by (simp add: s')
  show "n = length (nodes s)" by (rule n)
  show "links_at s' n = height" "key_at s' n = k" "max_height s' = max_height s" by (simp_all add: s' n)
  show "\<And>a. a < length (nodes s) \<Longrightarrow> key_at s' a = key_at s a" using old by simp
qed

lemma skip_links_raise:
  "skip_links s h L \<Longrightarrow> max_height s \<le> m \<Longrightarrow> m \<le> kMaxHeight \<Longrightarrow> skip_links (s\<lparr>max_height := m, rnd := r\<rparr>) h L"
proof -
  assume a: "skip_links s h L" "max_height s \<le> m" "m \<le> kMaxHeight"
  have "Next (s\<lparr>max_height := m, rnd := r\<rparr>) x i = Next s x i" for x i by (simp add: Next_def)
  then have "linked (s\<lparr>max_height := m, rnd := r\<rparr>) i x ys = linked s i x ys" for i x ys
    by (intro linked_frame)
  with a show ?thesis by (auto simp: skip_links_def)
qed

lemma Insert_prepare_ok:
  assumes links: "skip_links s h (pre @ post)" and pre: "\<forall>a\<in>set pre. cmp (key_at s a) k < 0"
    and post: "\<forall>a\<in>set post. \<not> cmp (key_at s a) k < 0" and one: "\<forall>a\<in>set post. 1 \<le> h a"
    and new: "\<forall>a\<in>set post. cmp k (key_at s a) \<noteq> 0"
  shows "\<exists>height prev s'. Insert_prepare cmp s k = Some (length (nodes s), height, prev, s')
    \<and> skip_links s' (h(length (nodes s) := 0)) (pre @ length (nodes s) # post)
    \<and> 1 \<le> height \<and> height \<le> max_height s' \<and> height = links_at s' (length (nodes s)) \<and> height \<le> length prev
    \<and> (\<forall>i<height. prev ! i = Some (before h pre i))
    \<and> key_at s' (length (nodes s)) = k \<and> (\<forall>a<length (nodes s). key_at s' a = key_at s a)"
proof -
  obtain height r where hr: "RandomHeight (rnd s) = (height, r)" by fastforce
  have height: "1 \<le> height" "height \<le> kMaxHeight" using RandomHeight_range [of "rnd s"] hr by simp_all
  define p where "p = set_prev h pre (max_height s - 1) (replicate kMaxHeight None)"
  define s1 where "s1 = s\<lparr>max_height := max (max_height s) height, rnd := r\<rparr>"
  define prev where "prev = (if max_height s < height then raise_prev p (max_height s) height else p)"
  have max: "1 \<le> max_height s" "max_height s \<le> kMaxHeight" using links by (simp_all add: skip_links_def)
  have f: "filter (\<lambda>a. 0 < h a) post = post"
    using one by (auto simp: filter_id_conv)
  have find: "FindGreaterOrEqual cmp s k (Some (replicate kMaxHeight None)) = Some (first post, Some p)"
    using FindGreaterOrEqual_loop_ok [where cmp = cmp and k = k, OF links pre post] search_start [OF links]
    by (simp add: FindGreaterOrEqual_def f p_def)
  obtain n s2 where new2: "NewNode s1 k height = (n, s2)" by fastforce
  have links1: "skip_links s1 h (pre @ post)"
    unfolding s1_def using skip_links_raise [OF links] height max by simp
  have eq: "max_height s < height \<Longrightarrow> s\<lparr>rnd := r, max_height := height\<rparr> = s1"
    "\<not> max_height s < height \<Longrightarrow> s\<lparr>rnd := r\<rparr> = s1"
    by (simp_all add: s1_def max_def)
  have "(case first post of None \<Rightarrow> Some False | Some a \<Rightarrow> Option.bind (KeyOf s a) (\<lambda>k'. Some (Equal cmp k k'))) = Some False"
    using new KeyOf_in [OF links] by (cases post) (auto simp: Equal_def)
  then have "Insert_prepare cmp s k = Some (n, height, prev, s2)"
    using new2 eq by (cases "max_height s < height") (simp_all add: Insert_prepare_def find hr prev_def)
  moreover have "n = length (nodes s)" using NewNode_links(1) [OF links1 new2] by (simp add: s1_def)
  moreover have "length prev = kMaxHeight" by (simp add: prev_def p_def)
  moreover have "prev ! i = Some (before h pre i)" if i: "i < height" for i
  proof (cases "i < max_height s")
    case True
    then show ?thesis using i height by (auto simp: prev_def p_def raise_prev_nth set_prev_nth)
  next
    case False
    have "\<forall>a\<in>set (pre @ post). h a \<le> max_height s" using links unfolding skip_links_def by blast
    then have "h a \<le> max_height s" if "a \<in> set pre" for a using that by simp
    then have "h a \<le> i" if "a \<in> set pre" for a using False that by (meson le_trans not_less)
    then have "filter (\<lambda>a. i < h a) pre = []" by (simp add: filter_empty_conv not_less)
    then show ?thesis using i height False by (auto simp: prev_def p_def raise_prev_nth before_def)
  qed
  moreover have "height \<le> max_height s2" using NewNode_links(6) [OF links1 new2] by (simp add: s1_def)
  ultimately show ?thesis
    using NewNode_links [OF links1 new2] height by (auto simp: s1_def)
qed

section \<open>The sorted list\<close>

text \<open>What the operations do to the keys.\<close>

definition less_than :: "('k \<Rightarrow> 'k \<Rightarrow> int) \<Rightarrow> 'k \<Rightarrow> 'k list \<Rightarrow> 'k list" where
  "less_than cmp k ks = takeWhile (\<lambda>x. cmp x k < 0) ks"

definition from_on :: "('k \<Rightarrow> 'k \<Rightarrow> int) \<Rightarrow> 'k \<Rightarrow> 'k list \<Rightarrow> 'k list" where
  "from_on cmp k ks = dropWhile (\<lambda>x. cmp x k < 0) ks"

definition sorted_insert :: "('k \<Rightarrow> 'k \<Rightarrow> int) \<Rightarrow> 'k \<Rightarrow> 'k list \<Rightarrow> 'k list" where
  "sorted_insert cmp k ks = less_than cmp k ks @ k # from_on cmp k ks"

lemma set_sorted_insert: "set (sorted_insert cmp k ks) = insert k (set ks)"
  using set_append [of "less_than cmp k ks" "from_on cmp k ks"]
  by (auto simp: sorted_insert_def less_than_def from_on_def)

text \<open>An iterator that stands on the key number \<open>j\<close>, or behind the last one.\<close>

definition stands :: "('k \<Rightarrow> bool) \<Rightarrow> ('k \<Rightarrow> 'k \<Rightarrow> int) \<Rightarrow> 'k SkipList \<Rightarrow> 'k list \<Rightarrow> iter \<Rightarrow> nat \<Rightarrow> bool" where
  "stands valid cmp s ks it j \<longleftrightarrow> j \<le> length ks
     \<and> (\<exists>h L. skip_links s h L \<and> (\<forall>a\<in>set L. 1 \<le> h a) \<and> skip_keys valid cmp s L \<and> ks = map (key_at s) L
        \<and> it = first (drop j L))"

lemma first_drop: "first (drop j L) = (if j < length L then Some (L ! j) else None)"
  by (simp add: Cons_nth_drop_Suc [symmetric])

lemma before_0: "\<forall>a\<in>set pre. 1 \<le> h a \<Longrightarrow> before h pre 0 = last (head # pre)"
  by (subst before_def, subst filter_True) auto

lemma all_high: "\<forall>a\<in>set L. 1 \<le> (h a :: nat) \<Longrightarrow> set xs \<subseteq> set L \<Longrightarrow> filter (\<lambda>a. 0 < h a) xs = xs"
proof (rule filter_True, rule ballI)
  fix x assume "\<forall>a\<in>set L. 1 \<le> h a" "set xs \<subseteq> set L" "x \<in> set xs"
  then have "1 \<le> h x" by blast
  then show "0 < h x" by (rule less_le_trans [OF zero_less_one])
qed

lemma less_from: "less_than cmp k ks @ from_on cmp k ks = ks"
  by (simp add: less_than_def from_on_def)

lemma skip_links_unlinked:
  assumes "skip_links s (h(n := 0)) (pre @ n # post)"
  shows "skip_links s h (pre @ post)"
proof -
  have n: "n \<notin> set pre" "n \<notin> set post" using assms by (auto simp: skip_links_def)
  have "\<forall>a\<in>set (pre @ n # post). head < a \<and> a < length (nodes s)
      \<and> (h(n := 0)) a \<le> links_at s a \<and> (h(n := 0)) a \<le> max_height s"
    using assms unfolding skip_links_def by blast
  moreover have "(h(n := 0)) a = h a" "a \<in> set (pre @ n # post)" if "a \<in> set (pre @ post)" for a
    using n that by auto
  ultimately have "\<forall>a\<in>set (pre @ post). head < a \<and> a < length (nodes s) \<and> h a \<le> links_at s a \<and> h a \<le> max_height s"
    by metis
  moreover have "\<forall>i<kMaxHeight. linked s i head (filter (\<lambda>a. i < h a) (pre @ post))"
    using assms n by (simp add: skip_links_def filter_fresh)
  ultimately show ?thesis using assms unfolding skip_links_def by simp
qed

context key_order
begin

lemma split_sorted:
  assumes "sorted_wrt (\<lambda>x y. cmp x y < 0) ks" and "\<forall>x\<in>set ks. valid x" and "valid k"
  shows "\<forall>x\<in>set (less_than cmp k ks). cmp x k < 0" and "\<forall>x\<in>set (from_on cmp k ks). \<not> cmp x k < 0"
proof -
  show "\<forall>x\<in>set (less_than cmp k ks). cmp x k < 0" by (auto simp: less_than_def dest: set_takeWhileD)
  show "\<forall>x\<in>set (from_on cmp k ks). \<not> cmp x k < 0"
  proof (cases "from_on cmp k ks")
    case (Cons y ys)
    then have y: "\<not> cmp y k < 0" using hd_dropWhile [of "\<lambda>x. cmp x k < 0" ks] by (simp add: from_on_def)
    have ks: "ks = less_than cmp k ks @ y # ys"
      using less_from [of cmp k ks] Cons by simp
    then have "valid y" "\<forall>z\<in>set ys. valid z \<and> cmp y z < 0"
      using assms(1,2) by (metis in_set_conv_decomp, metis sorted_wrt_append sorted_wrt.simps(2) Un_iff list.set_intros(2) set_append)
    moreover have "\<not> cmp z k < 0" if "z \<in> set ys" for z
      using cmp_less_trans [of y z k] calculation that y assms(3) by force
    ultimately show ?thesis using Cons y by simp
  qed simp
qed

lemma sorted_insert_sorted:
  assumes "sorted_wrt (\<lambda>x y. cmp x y < 0) ks" and "\<forall>x\<in>set ks. valid x" and "valid k"
    and "\<forall>x\<in>set ks. cmp k x \<noteq> 0"
  shows "sorted_wrt (\<lambda>x y. cmp x y < 0) (sorted_insert cmp k ks)"
proof -
  let ?pre = "less_than cmp k ks" and ?post = "from_on cmp k ks"
  have ks: "ks = ?pre @ ?post" by (simp add: less_from)
  have "cmp k y < 0" if "y \<in> set ?post" for y
  proof -
    have "valid y" "cmp k y \<noteq> 0" "\<not> cmp y k < 0" using that ks assms split_sorted(2) [OF assms(1-3)]
      by (metis Un_iff set_append)+
    then show ?thesis using cmp_flip [of k y] cmp_flip [of y k] assms(3) by linarith
  qed
  moreover have "sorted_wrt (\<lambda>x y. cmp x y < 0) (?pre @ ?post)" using assms(1) ks by simp
  moreover have "valid x" if "x \<in> set ?pre \<union> set ?post" for x using that ks assms(2) by (metis set_append)
  ultimately show ?thesis using split_sorted(1) [OF assms(1-3)] assms(3)
    unfolding sorted_insert_def sorted_wrt_append
    by (auto intro: cmp_less_trans [of _ k] less_imp_le)
qed

text \<open>The addresses of a list that holds \<open>ks\<close>, split at a key.\<close>

lemma split_addresses:
  assumes "skip_keys valid cmp s L" and "valid k"
  obtains pre post where "L = pre @ post" and "\<forall>a\<in>set pre. cmp (key_at s a) k < 0"
    and "\<forall>a\<in>set post. \<not> cmp (key_at s a) k < 0"
    and "less_than cmp k (map (key_at s) L) = map (key_at s) pre"
    and "from_on cmp k (map (key_at s) L) = map (key_at s) post"
proof
  let ?P = "\<lambda>a. cmp (key_at s a) k < 0"
  show "L = takeWhile ?P L @ dropWhile ?P L" by simp
  show lt: "less_than cmp k (map (key_at s) L) = map (key_at s) (takeWhile ?P L)"
    by (simp add: less_than_def takeWhile_map o_def)
  show fo: "from_on cmp k (map (key_at s) L) = map (key_at s) (dropWhile ?P L)"
    by (simp add: from_on_def dropWhile_map o_def)
  have "sorted_wrt (\<lambda>x y. cmp x y < 0) (map (key_at s) L)" "\<forall>x\<in>set (map (key_at s) L). valid x"
    using assms(1) unfolding skip_keys_map by simp_all
  note split = split_sorted [OF this assms(2)]
  show "\<forall>a\<in>set (takeWhile ?P L). ?P a" by (blast dest: set_takeWhileD)
  show "\<forall>a\<in>set (dropWhile ?P L). \<not> ?P a"
  proof
    fix a assume "a \<in> set (dropWhile ?P L)"
    then have "key_at s a \<in> set (from_on cmp k (map (key_at s) L))" unfolding fo by simp
    with split(2) show "\<not> ?P a" by (rule bspec)
  qed
qed

lemma Find_ok:
  assumes "skip_links s h (pre @ post)" and "\<forall>a\<in>set (pre @ post). 1 \<le> h a"
    and "\<forall>a\<in>set pre. cmp (key_at s a) k < 0" and "\<forall>a\<in>set post. \<not> cmp (key_at s a) k < 0"
  shows "FindGreaterOrEqual cmp s k None = Some (first post, None)"
    and "FindLessThan cmp s k = Some (last (head # pre))"
proof -
  have high: "filter (\<lambda>a. 0 < h a) post = post" by (rule all_high [OF assms(2)]) simp
  have last: "before h pre 0 = last (head # pre)" by (rule before_0) (use assms(2) in simp)
  note place = search_start [OF assms(1), THEN conjunct2] search_start [OF assms(1), THEN conjunct1]
  show "FindGreaterOrEqual cmp s k None = Some (first post, None)"
    using FindGreaterOrEqual_loop_ok [where cmp = cmp and k = k, OF assms(1,3,4) place]
    by (simp only: FindGreaterOrEqual_def high option.map)
  show "FindLessThan cmp s k = Some (last (head # pre))"
    using FindLessThan_loop_ok [where cmp = cmp and k = k, OF assms(1,3,4) place]
    by (simp only: FindLessThan_def last)
qed

lemma Contains_holds:
  assumes "holds valid cmp s ks" and "valid k"
  shows "Contains cmp s k = Some (\<exists>x\<in>set ks. cmp x k = 0)"
proof -
  obtain h L where L: "skip_links s h L" "\<forall>a\<in>set L. 1 \<le> h a" "skip_keys valid cmp s L" "ks = map (key_at s) L"
    using assms(1) by (auto simp: holds_def)
  obtain pre post where split: "L = pre @ post" "\<forall>a\<in>set pre. cmp (key_at s a) k < 0"
      "\<forall>a\<in>set post. \<not> cmp (key_at s a) k < 0" using split_addresses [OF L(3) assms(2)] by metis
  have find: "FindGreaterOrEqual cmp s k None = Some (first post, None)"
    using Find_ok(1) L(1,2) split by simp
  have "\<exists>x\<in>set ks. cmp x k = 0 \<Longrightarrow> post \<noteq> []" using split L(4) by force
  moreover have "(\<exists>x\<in>set ks. cmp x k = 0) \<longleftrightarrow> cmp k (key_at s a) = 0" if "post = a # r" for a r
  proof
    have valid: "valid (key_at s x)" if "x \<in> set L" for x using L(3) that by (simp add: skip_keys_def)
    have a: "a \<in> set L" using that split(1) by simp
    show "cmp k (key_at s a) = 0" if ex: "\<exists>x\<in>set ks. cmp x k = 0"
    proof -
      obtain b where b: "b \<in> set L" "cmp (key_at s b) k = 0" using ex L(4) by auto
      then have "b \<in> set post" using split by force
      moreover have "b \<notin> set r"
      proof
        assume "b \<in> set r"
        then have "cmp (key_at s a) (key_at s b) < 0"
          using L(3) split(1) \<open>post = a # r\<close> by (simp add: skip_keys_def sorted_wrt_append)
        then have "cmp (key_at s a) k < 0"
          using cmp_less_trans [of "key_at s a" "key_at s b" k] valid a b assms(2) by simp
        then show False using split(3) \<open>post = a # r\<close> by simp
      qed
      ultimately have "b = a" using \<open>post = a # r\<close> by simp
      then show ?thesis using b valid [OF a] assms(2) cmp_0_sym by blast
    qed
    show "\<exists>x\<in>set ks. cmp x k = 0" if "cmp k (key_at s a) = 0"
      using that a L(4) valid [OF a] assms(2) cmp_0_sym by auto
  qed
  ultimately show ?thesis using KeyOf_in [OF L(1)] split(1)
    by (cases post) (auto simp: Contains_def find Equal_def)
qed

text \<open>Inserting, and what is there between any two stores.\<close>

lemma Insert_published:
  assumes "holds valid cmp s ks" and "valid k" and "\<forall>x\<in>set ks. cmp k x \<noteq> 0"
  shows "\<exists>x height prev s1. Insert_prepare cmp s k = Some (x, height, prev, s1) \<and> 1 \<le> height
    \<and> (\<forall>m\<le>2 * height. \<exists>s'. run_stores (take m (link_loop x prev height)) s1 = Some s'
         \<and> holds valid cmp s' (if m < 2 then ks else sorted_insert cmp k ks))"
proof -
  obtain h L where L: "skip_links s h L" "\<forall>a\<in>set L. 1 \<le> h a" "skip_keys valid cmp s L" "ks = map (key_at s) L"
    using assms(1) by (auto simp: holds_def)
  obtain pre post where split: "L = pre @ post" "\<forall>a\<in>set pre. cmp (key_at s a) k < 0"
      "\<forall>a\<in>set post. \<not> cmp (key_at s a) k < 0" "less_than cmp k ks = map (key_at s) pre"
      "from_on cmp k ks = map (key_at s) post" using split_addresses [OF L(3) assms(2)] L(4) by metis
  let ?n = "length (nodes s)"
  obtain height prev s1 where p: "Insert_prepare cmp s k = Some (?n, height, prev, s1)"
      "skip_links s1 (h(?n := 0)) (pre @ ?n # post)" "1 \<le> height" "height \<le> max_height s1"
      "height = links_at s1 ?n" "height \<le> length prev" "\<forall>i<height. prev ! i = Some (before h pre i)"
      "key_at s1 ?n = k" "\<forall>a<?n. key_at s1 a = key_at s a"
    using Insert_prepare_ok [where cmp = cmp and k = k, of s h pre post] L split assms(3) by auto
  have old: "\<forall>a\<in>set (pre @ post). a < ?n" using L(1) split(1) by (auto simp: skip_links_def)
  have sorted: "sorted_wrt (\<lambda>x y. cmp x y < 0) ks" "\<forall>x\<in>set ks. valid x"
    using L(3,4) unfolding skip_keys_map by simp_all
  have "\<exists>s'. run_stores (take m (link_loop ?n prev height)) s1 = Some s' \<and> holds valid cmp s' (if m < 2 then ks else sorted_insert cmp k ks)"
    if m: "m \<le> 2 * height" for m
  proof -
    define j where "j = m div 2"
    have j: "m < 2 \<longleftrightarrow> j = 0" by (auto simp: j_def)
    obtain s' where s': "run_stores (take m (link_loop ?n prev height)) s1 = Some s'" "skip_links s' (h(?n := j)) (pre @ ?n # post)"
        "\<forall>a. key_at s' a = key_at s1 a \<and> links_at s' a = links_at s1 a"
      using stores_ok [OF p(2) _ p(4) p(6,7) m] p(5) by (auto simp: j_def simp del: fun_upd_apply)
    have keys: "map (key_at s') pre = map (key_at s) pre" "map (key_at s') post = map (key_at s) post"
      "key_at s' ?n = k" using s'(3) p(8,9) old by auto
    show ?thesis
    proof (cases "j = 0")
      case True
      have fresh: "?n \<notin> set pre" "?n \<notin> set post" using old by auto
      have "skip_links s' h L" using skip_links_unlinked s'(2) True split(1) by simp
      moreover have "map (key_at s') L = ks" using keys L(4) split(1) by simp
      moreover then have "skip_keys valid cmp s' L"
        using sorted unfolding skip_keys_map by simp
      ultimately show ?thesis using True j s'(1) L(2) by (auto simp: holds_def)
    next
      case False
      have keys_new: "map (key_at s') (pre @ ?n # post) = sorted_insert cmp k ks"
        using keys split(4,5) by (simp add: sorted_insert_def)
      moreover have "sorted_wrt (\<lambda>x y. cmp x y < 0) (sorted_insert cmp k ks)" "\<forall>x\<in>set (sorted_insert cmp k ks). valid x"
        using sorted_insert_sorted [OF sorted assms(2,3)] sorted(2) assms(2) by (auto simp: set_sorted_insert)
      ultimately have "skip_keys valid cmp s' (pre @ ?n # post)"
        unfolding skip_keys_map by simp
      moreover have "\<forall>a\<in>set (pre @ ?n # post). 1 \<le> (h(?n := j)) a" using False L(2) split(1) by auto
      ultimately show ?thesis using False j s'(1,2) keys_new unfolding holds_def by (metis (no_types, lifting))
    qed
  qed
  with p(1,3) show ?thesis by blast
qed

lemma Insert_holds:
  assumes "holds valid cmp s ks" and "valid k" and "\<forall>x\<in>set ks. cmp k x \<noteq> 0"
  shows "\<exists>s'. Insert cmp s k = Some s' \<and> holds valid cmp s' (sorted_insert cmp k ks)"
proof -
  obtain x height prev s1 where p: "Insert_prepare cmp s k = Some (x, height, prev, s1)" "1 \<le> height"
    "\<And>m. m \<le> 2 * height \<Longrightarrow> \<exists>s'. run_stores (take m (link_loop x prev height)) s1 = Some s'
       \<and> holds valid cmp s' (if m < 2 then ks else sorted_insert cmp k ks)"
    using Insert_published [OF assms] by blast
  have all: "take (2 * height) (link_loop x prev height) = link_loop x prev height" by (simp add: length_link_loop)
  have "\<not> 2 * height < 2" using p(2) by simp
  then show ?thesis using p(1) p(3) [of "2 * height", unfolded all] by (simp add: Insert_def)
qed

lemma holds_valid: "holds valid cmp s ks \<Longrightarrow> (\<forall>x\<in>set ks. valid x) \<and> sorted_wrt (\<lambda>x y. cmp x y < 0) ks"
  by (auto simp: holds_def skip_keys_def sorted_wrt_map)

text \<open>The assertion of \<open>Insert\<close> finds a key that is there already.\<close>

lemma Insert_duplicate:
  assumes "holds valid cmp s ks" and "valid k" and "\<exists>x\<in>set ks. cmp k x = 0"
  shows "Insert cmp s k = None"
proof -
  obtain h L where L: "skip_links s h L" "\<forall>a\<in>set L. 1 \<le> h a" "skip_keys valid cmp s L" "ks = map (key_at s) L"
    using assms(1) by (auto simp: holds_def)
  obtain pre post where split: "L = pre @ post" "\<forall>a\<in>set pre. cmp (key_at s a) k < 0"
      "\<forall>a\<in>set post. \<not> cmp (key_at s a) k < 0" using split_addresses [OF L(3) assms(2)] by metis
  have "\<forall>x\<in>set ks. valid x" using holds_valid [OF assms(1)] by simp
  then have "\<exists>x\<in>set ks. cmp x k = 0" using assms(2,3) cmp_0_sym by blast
  then have "Contains cmp s k = Some True" using Contains_holds [OF assms(1,2)] by simp
  moreover have "FindGreaterOrEqual cmp s k None = Some (first post, None)"
    using Find_ok(1) L(1,2) split by simp
  moreover have "FindGreaterOrEqual cmp s k (Some p) = Some (first post, Some (set_prev h pre (max_height s - 1) p))" for p
    using FindGreaterOrEqual_loop_ok [where cmp = cmp and k = k, of s h pre post "max_height s - 1" head "Some p"]
      L(1) split search_start [of s h pre post] all_high [OF L(2), of post]
    by (simp add: FindGreaterOrEqual_def)
  ultimately show ?thesis
    by (auto simp: Insert_def Insert_prepare_def Contains_def split: Option.bind_splits)
qed

text \<open>Iterators.\<close>

lemma standsE:
  assumes "stands valid cmp s ks it j"
  obtains h L where "skip_links s h L" and "\<forall>a\<in>set L. 1 \<le> h a" and "skip_keys valid cmp s L"
    and "ks = map (key_at s) L" and "it = first (drop j L)" and "j \<le> length L"
  using assms by (auto simp: stands_def)

lemma standsI:
  "skip_links s h L \<Longrightarrow> \<forall>a\<in>set L. 1 \<le> h a \<Longrightarrow> skip_keys valid cmp s L \<Longrightarrow> j \<le> length L \<Longrightarrow>
   it = first (drop j L) \<Longrightarrow> stands valid cmp s (map (key_at s) L) it j"
  by (auto simp: stands_def)

lemma level_0:
  assumes "skip_links s h L" and "\<forall>a\<in>set L. 1 \<le> h a"
  shows "linked s 0 head L"
proof -
  have "linked s 0 head (filter (\<lambda>a. 0 < h a) L)" using assms(1) by (simp add: skip_links_def kMaxHeight_def)
  then show ?thesis by (simp add: all_high [OF assms(2)])
qed

lemma iter_here:
  assumes "stands valid cmp s ks it j"
  shows "Iter_Valid it \<longleftrightarrow> j < length ks" and "j < length ks \<Longrightarrow> Iter_key s it = Some (ks ! j)"
proof -
  obtain h L where L: "skip_links s h L" "ks = map (key_at s) L" "it = first (drop j L)"
    using assms by (rule standsE)
  show "Iter_Valid it \<longleftrightarrow> j < length ks" by (simp add: Iter_Valid_def L(2,3) first_drop)
  show "j < length ks \<Longrightarrow> Iter_key s it = Some (ks ! j)"
    using KeyOf_in [OF L(1), of "L ! j"] by (simp add: Iter_key_def L(2,3) first_drop)
qed

lemma iter_next:
  assumes "stands valid cmp s ks it j" and "j < length ks"
  shows "\<exists>it'. Iter_Next s it = Some it' \<and> stands valid cmp s ks it' (Suc j)"
proof -
  obtain h L where L: "skip_links s h L" "\<forall>a\<in>set L. 1 \<le> h a" "skip_keys valid cmp s L" "ks = map (key_at s) L"
      "it = first (drop j L)" using assms(1) by (rule standsE)
  have j: "j < length L" using assms(2) L(4) by simp
  have "linked s 0 head (take j L @ L ! j # drop (Suc j) L)" using level_0 [OF L(1,2)] id_take_nth_drop [OF j] by simp
  then have "Next s (L ! j) 0 = Some (first (drop (Suc j) L))" using linked_first [OF linked_after] by blast
  then have "Iter_Next s it = Some (first (drop (Suc j) L))" using j by (simp add: Iter_Next_def L(5) first_drop [of j])
  then show ?thesis using standsI [OF L(1-3), of "Suc j"] j L(4) by auto
qed

lemma iter_seek:
  assumes "holds valid cmp s ks" and "valid k"
  shows "\<exists>it. Iter_Seek cmp s k = Some it \<and> stands valid cmp s ks it (length (less_than cmp k ks))"
proof -
  obtain h L where L: "skip_links s h L" "\<forall>a\<in>set L. 1 \<le> h a" "skip_keys valid cmp s L" "ks = map (key_at s) L"
    using assms(1) by (auto simp: holds_def)
  obtain pre post where split: "L = pre @ post" "\<forall>a\<in>set pre. cmp (key_at s a) k < 0"
      "\<forall>a\<in>set post. \<not> cmp (key_at s a) k < 0" "less_than cmp k ks = map (key_at s) pre"
    using split_addresses [OF L(3) assms(2)] L(4) by metis
  have "Iter_Seek cmp s k = Some (first post)"
    using Find_ok(1) L(1,2) split by (simp add: Iter_Seek_def)
  then show ?thesis using standsI [OF L(1-3), of "length pre"] split(1,4) L(4) by auto
qed

text \<open>What \<open>Seek\<close> finds: the least key that is not before the target, or that there is none.\<close>

lemma seek_least:
  assumes "holds valid cmp s ks" and "valid k"
  shows "\<exists>it. Iter_Seek cmp s k = Some it \<and>
    (if Iter_Valid it
     then \<exists>y\<in>set ks. Iter_key s it = Some y \<and> \<not> cmp y k < 0 \<and> (\<forall>x\<in>set ks. \<not> cmp x k < 0 \<longrightarrow> cmp y x \<le> 0)
     else \<forall>x\<in>set ks. cmp x k < 0)"
proof -
  let ?j = "length (less_than cmp k ks)"
  obtain it where it: "Iter_Seek cmp s k = Some it" "stands valid cmp s ks it ?j"
    using iter_seek [OF assms] by blast
  have ks: "sorted_wrt (\<lambda>x y. cmp x y < 0) ks" "\<forall>x\<in>set ks. valid x" using holds_valid [OF assms(1)] by simp_all
  note split = split_sorted [OF ks assms(2)]
  show ?thesis
  proof (cases "from_on cmp k ks")
    case Nil
    then have "less_than cmp k ks = ks" using less_from [of cmp k ks] by simp
    then show ?thesis using it iter_here(1) [OF it(2)] split(1) by simp
  next
    case (Cons y ys)
    then have eq: "ks = less_than cmp k ks @ y # ys" using less_from [of cmp k ks] by simp
    then have j: "?j < length ks" "ks ! ?j = y"
      by (metis length_append length_Cons less_add_Suc1 add_Suc_right, metis nth_append_length)
    have y: "y \<in> set ks" using eq by (metis in_set_conv_decomp)
    have "cmp y x \<le> 0" if x: "x \<in> set ks" "\<not> cmp x k < 0" for x
    proof -
      have "x \<in> set (y # ys)" using x eq split(1) by (metis Un_iff set_append)
      then show ?thesis using cmp_refl [of y] y ks(2) ks(1) eq
        by (metis order_refl less_imp_le set_ConsD sorted_wrt.simps(2) sorted_wrt_append)
    qed
    moreover have "\<not> cmp y k < 0" using split(2) Cons by simp
    ultimately show ?thesis using it(1) iter_here [OF it(2)] j y by auto
  qed
qed

lemma iter_ends:
  assumes "holds valid cmp s ks"
  shows "\<exists>it. Iter_SeekToFirst s = Some it \<and> stands valid cmp s ks it 0"
    and "\<exists>it. Iter_SeekToLast s = Some it \<and> stands valid cmp s ks it (length ks - 1)"
proof -
  obtain h L where L: "skip_links s h L" "\<forall>a\<in>set L. 1 \<le> h a" "skip_keys valid cmp s L" "ks = map (key_at s) L"
    using assms(1) by (auto simp: holds_def)
  show "\<exists>it. Iter_SeekToFirst s = Some it \<and> stands valid cmp s ks it 0"
    using linked_first [OF level_0 [OF L(1,2)]] standsI [OF L(1-3), of 0] L(4) by (auto simp: Iter_SeekToFirst_def)
  have "FindLast s = Some (last (head # L))"
    using FindLast_loop_ok [OF L(1), of _ head] search_start [of s h "[]" L] L(1) before_0 [OF L(2)]
    by (simp add: FindLast_def may_be_def)
  moreover have "not_head (last (head # L)) = first (drop (length L - 1) L)"
  proof (cases "L = []")
    case False
    then have "last L \<noteq> head" using head_not_in [OF L(1)] by (metis last_in_set)
    with False show ?thesis by (simp add: not_head_def first_drop last_conv_nth)
  qed (simp add: not_head_def)
  ultimately show "\<exists>it. Iter_SeekToLast s = Some it \<and> stands valid cmp s ks it (length ks - 1)"
    using standsI [OF L(1-3), of "length L - 1"] L(4) by (auto simp: Iter_SeekToLast_def)
qed

lemma iter_prev:
  assumes "stands valid cmp s ks it j" and "j < length ks"
  shows "\<exists>it'. Iter_Prev cmp s it = Some it' \<and> stands valid cmp s ks it' (if j = 0 then length ks else j - 1)"
proof -
  obtain h L where L: "skip_links s h L" "\<forall>a\<in>set L. 1 \<le> h a" "skip_keys valid cmp s L" "ks = map (key_at s) L"
      "it = first (drop j L)" using assms(1) by (rule standsE)
  have j: "j < length L" using assms(2) L(4) by simp
  let ?k = "key_at s (L ! j)"
  have v: "\<forall>a\<in>set L. valid (key_at s a)" using L(3) by (simp add: skip_keys_def)
  have L': "take j L @ drop j L = L" "drop j L = L ! j # drop (Suc j) L" using j by (simp_all add: Cons_nth_drop_Suc)
  have sw: "sorted_wrt (\<lambda>a b. cmp (key_at s a) (key_at s b) < 0) (take j L @ L ! j # drop (Suc j) L)"
    using L(3) L' by (simp add: skip_keys_def)
  then have pre: "\<forall>a\<in>set (take j L). cmp (key_at s a) ?k < 0" by (simp add: sorted_wrt_append)
  have "\<forall>a\<in>set (drop (Suc j) L). cmp ?k (key_at s a) < 0" using sw by (simp add: sorted_wrt_append)
  then have "\<forall>a\<in>set (drop (Suc j) L). \<not> cmp (key_at s a) ?k < 0"
    using v j cmp_flip by (meson in_set_dropD less_asym nth_mem)
  then have post: "\<forall>a\<in>set (drop j L). \<not> cmp (key_at s a) ?k < 0"
    using L'(2) cmp_refl v j by simp
  have "FindLessThan cmp s ?k = Some (last (head # take j L))"
    using Find_ok(2) [of s h "take j L" "drop j L"] L(1,2) pre post by simp
  moreover have "KeyOf s (L ! j) = Some ?k" using KeyOf_in [OF L(1)] j by simp
  moreover have "not_head (last (head # take j L)) = first (drop (if j = 0 then length L else j - 1) L)"
  proof (cases j)
    case (Suc i)
    then have "last (take j L) = L ! i" using j by (simp add: take_Suc_conv_app_nth)
    moreover have "L ! i \<noteq> head" using head_not_in [OF L(1)] Suc j by (metis Suc_lessD nth_mem)
    ultimately show ?thesis using Suc j by (auto simp: not_head_def first_drop)
  qed (simp add: not_head_def)
  ultimately have "Iter_Prev cmp s it = Some (first (drop (if j = 0 then length L else j - 1) L))"
    using j by (simp add: Iter_Prev_def L(5) first_drop [of j])
  then show ?thesis using standsI [OF L(1-3), of "if j = 0 then length L else j - 1"] j L(4) by auto
qed

end

section \<open>The empty list\<close>

lemma clear_links_stored:
  assumes "length xs = kMaxHeight"
  shows "n \<le> kMaxHeight \<Longrightarrow> clear_links n (s\<lparr>nodes := [\<lparr>node_key = k, node_next = xs\<rparr>]\<rparr>) =
    Some (s\<lparr>nodes := [\<lparr>node_key = k, node_next = take (kMaxHeight - n) xs @ replicate n (Some None)\<rparr>]\<rparr>)"
  using assms
proof (induction n arbitrary: xs)
  case (Suc n)
  let ?i = "kMaxHeight - Suc n"
  have "take (kMaxHeight - n) (xs[?i := Some None]) = take ?i xs @ [Some None]"
  proof -
    have "kMaxHeight - n = Suc ?i" "?i < length xs" using Suc.prems by simp_all
    then show ?thesis by (simp add: take_Suc_conv_app_nth)
  qed
  then show ?case using Suc.IH [of "xs[?i := Some None]"] Suc.prems
    by (simp add: SetNext_def head_def)
qed simp

lemma SkipList_new_holds: "\<exists>s. SkipList_new k = Some s \<and> holds valid cmp s []"
proof -
  let ?s = "\<lparr>nodes = [\<lparr>node_key = k, node_next = replicate kMaxHeight (Some None)\<rparr>], max_height = 1,
      rnd = Random_new 0xdeadbeef\<rparr>"
  have "SkipList_new k = Some ?s"
    using clear_links_stored [of "replicate kMaxHeight None" kMaxHeight k "?s"] by (simp add: SkipList_new_def NewNode_def)
  moreover have "skip_links ?s (\<lambda>_. 0) []"
    by (simp add: skip_links_def head_def Next_def kMaxHeight_def)
  ultimately show ?thesis by (auto simp: holds_def skip_keys_def)
qed

section \<open>The properties\<close>

text \<open>C11: the skip list is a sorted list.  Whatever heights its random numbers choose, a new list is
  empty, an insertion puts the key at its place in the order, the assertion against a key that is
  there already fails exactly when there is one, and a search finds exactly the keys that are there;
  no operation follows a link that does not exist.\<close>

theorem skiplist_is_a_sorted_list:
  assumes "key_order valid cmp" and "holds valid cmp s ks" and "valid k"
  shows "sorted_wrt (\<lambda>x y. cmp x y < 0) ks
    \<and> Contains cmp s k = Some (\<exists>x\<in>set ks. cmp x k = 0)
    \<and> (if \<exists>x\<in>set ks. cmp k x = 0 then Insert cmp s k = None
       else \<exists>s'. Insert cmp s k = Some s' \<and> holds valid cmp s' (sorted_insert cmp k ks))
    \<and> (\<exists>s0. SkipList_new k0 = Some s0 \<and> holds valid cmp s0 [])"
  using key_order.Contains_holds [OF assms] key_order.Insert_holds [OF assms] key_order.Insert_duplicate [OF assms]
    key_order.holds_valid [OF assms(1,2)] SkipList_new_holds [of k0 valid cmp]
  by auto

text \<open>A list to apply the properties to.\<close>

definition example_list :: "byte list SkipList" where
  "example_list = the (Option.bind (SkipList_new []) (\<lambda>s. Insert BytewiseCompare s [5]))"

lemma example_holds:
  "holds (\<lambda>_. True) BytewiseCompare example_list [[5]]"
proof -
  obtain s where s: "SkipList_new ([] :: byte list) = Some s" "holds (\<lambda>_. True) BytewiseCompare s []"
    using SkipList_new_holds [of "[]" "\<lambda>_. True" BytewiseCompare] by blast
  have "sorted_insert BytewiseCompare [5] [] = [[5]]" by (simp add: sorted_insert_def less_than_def from_on_def)
  with bytewise.Insert_holds [OF s(2), of "[5]"] s(1) show ?thesis by (auto simp: example_list_def)
qed

theorem skiplist_is_a_sorted_list_witness:
  "Contains BytewiseCompare example_list [5] = Some True
   \<and> (\<exists>s'. Insert BytewiseCompare example_list [3] = Some s'
        \<and> holds (\<lambda>_. True) BytewiseCompare s' [[3], [5]])"
  using skiplist_is_a_sorted_list [OF bytewise_order example_holds, of "[5]"]
    skiplist_is_a_sorted_list [OF bytewise_order example_holds, of "[3]"]
  by (simp add: BytewiseCompare_lex sorted_insert_def less_than_def from_on_def)

text \<open>C23: an iterator walks the keys in their order: \<open>SeekToFirst\<close>, \<open>SeekToLast\<close> and \<open>Seek\<close> stand on the
  first key, on the last and on the first that is not before the target, \<open>Next\<close> and \<open>Prev\<close> move by
  one, and the iterator is valid as long as it is on a key.\<close>

theorem skiplist_iterates:
  assumes "key_order valid cmp" and "holds valid cmp s ks" and "valid k"
    and "stands valid cmp s ks it j" and "j < length ks"
  shows "(\<exists>it. Iter_SeekToFirst s = Some it \<and> stands valid cmp s ks it 0)
    \<and> (\<exists>it. Iter_SeekToLast s = Some it \<and> stands valid cmp s ks it (length ks - 1))
    \<and> (\<exists>it. Iter_Seek cmp s k = Some it \<and> stands valid cmp s ks it (length (less_than cmp k ks)))
    \<and> Iter_Valid it \<and> Iter_key s it = Some (ks ! j)
    \<and> (\<exists>it'. Iter_Next s it = Some it' \<and> stands valid cmp s ks it' (Suc j) \<and> Iter_Valid it' = (Suc j < length ks))
    \<and> (\<exists>it'. Iter_Prev cmp s it = Some it' \<and> stands valid cmp s ks it' (if j = 0 then length ks else j - 1)
         \<and> Iter_Valid it' = (0 < j))"
proof -
  obtain n where n: "Iter_Next s it = Some n" "stands valid cmp s ks n (Suc j)"
    using key_order.iter_next [OF assms(1,4,5)] by blast
  obtain p where p: "Iter_Prev cmp s it = Some p" "stands valid cmp s ks p (if j = 0 then length ks else j - 1)"
    using key_order.iter_prev [OF assms(1,4,5)] by blast
  have "Iter_Valid p = (0 < j)"
    using key_order.iter_here(1) [OF assms(1) p(2)] assms(5) by (cases "j = 0") simp_all
  with n p key_order.iter_here(1) [OF assms(1) n(2)] key_order.iter_here [OF assms(1,4)]
    key_order.iter_ends [OF assms(1,2)] key_order.iter_seek [OF assms(1-3)] assms(5)
  show ?thesis by auto
qed

theorem skiplist_iterates_witness:
  "\<exists>it. Iter_SeekToFirst example_list = Some it
    \<and> Iter_key example_list it = Some [5]
    \<and> (\<exists>it'. Iter_Next example_list it = Some it'
         \<and> Iter_Valid it' = False)"
  using bytewise.iter_ends(1) [OF example_holds]
    skiplist_iterates [OF bytewise_order example_holds TrueI, of _ 0 "[]"] by fastforce

text \<open>C21: a node is made ready before it is published.  The loop of \<open>Insert\<close> is a sequence of stores, on each level first
  the link of the new node and then the link that leads to it, which become visible in this order because the
  second one is a release store.  A reader without a lock whose lookup falls between any two of the stores sees the
  list as it was up to the first store that publishes, and the list with the new key from then on; it never
  follows a link that was not stored.\<close>

theorem readers_see_one_insertion:
  assumes "key_order valid cmp" and "holds valid cmp s ks" and "valid k" and "\<forall>x\<in>set ks. cmp k x \<noteq> 0" and "valid q"
  shows "\<exists>x height prev s1. Insert_prepare cmp s k = Some (x, height, prev, s1)
    \<and> Insert cmp s k = run_stores (link_loop x prev height) s1 \<and> 1 \<le> height \<and> length (link_loop x prev height) = 2 * height
    \<and> list_all (\<lambda>m. \<exists>s'. run_stores (take m (link_loop x prev height)) s1 = Some s'
         \<and> holds valid cmp s' (if m < 2 then ks else sorted_insert cmp k ks)
         \<and> Contains cmp s' q = Some (\<exists>y\<in>set (if m < 2 then ks else k # ks). cmp y q = 0)) [0..<Suc (2 * height)]"
proof -
  obtain x height prev s1 where p: "Insert_prepare cmp s k = Some (x, height, prev, s1)" "1 \<le> height"
    "\<And>m. m \<le> 2 * height \<Longrightarrow> \<exists>s'. run_stores (take m (link_loop x prev height)) s1 = Some s'
       \<and> holds valid cmp s' (if m < 2 then ks else sorted_insert cmp k ks)"
    using key_order.Insert_published [OF assms(1-4)] by blast
  have "\<exists>s'. run_stores (take m (link_loop x prev height)) s1 = Some s'
      \<and> holds valid cmp s' (if m < 2 then ks else sorted_insert cmp k ks)
      \<and> Contains cmp s' q = Some (\<exists>y\<in>set (if m < 2 then ks else k # ks). cmp y q = 0)" if "m \<le> 2 * height" for m
    using p(3) [OF that] key_order.Contains_holds [OF assms(1) _ assms(5)] by (fastforce simp: set_sorted_insert)
  then have "list_all (\<lambda>m. \<exists>s'. run_stores (take m (link_loop x prev height)) s1 = Some s'
      \<and> holds valid cmp s' (if m < 2 then ks else sorted_insert cmp k ks)
      \<and> Contains cmp s' q = Some (\<exists>y\<in>set (if m < 2 then ks else k # ks). cmp y q = 0)) [0..<Suc (2 * height)]"
    unfolding list_all_iff set_upt by (intro ballI) (simp only: atLeastLessThan_iff less_Suc_eq_le)
  moreover have "Insert cmp s k = run_stores (link_loop x prev height) s1" using p(1) by (simp add: Insert_def)
  ultimately show ?thesis
    by (intro exI [of _ x] exI [of _ height] exI [of _ prev] exI [of _ s1] conjI p(1,2) length_link_loop)
qed

theorem readers_see_one_insertion_witness:
  "\<exists>x height prev s1. Insert_prepare BytewiseCompare
        example_list [3] = Some (x, height, prev, s1)
    \<and> list_all (\<lambda>m. \<exists>s'. run_stores (take m (link_loop x prev height)) s1 = Some s'
         \<and> Contains BytewiseCompare s' [3] = Some (2 \<le> m)) [0..<Suc (2 * height)]"
proof -
  have new: "\<forall>x\<in>set [[5 :: byte]]. BytewiseCompare [3] x \<noteq> 0" by (simp add: BytewiseCompare_lex)
  have sees: "(\<exists>y\<in>set (if m < 2 then [[5 :: byte]] else [3] # [[5]]). BytewiseCompare y [3] = 0) = (2 \<le> m)" for m :: nat
    by (auto simp: BytewiseCompare_lex)
  show ?thesis
    using readers_see_one_insertion [OF bytewise_order example_holds TrueI new TrueI, of "[3]", unfolded sees]
    unfolding list_all_iff by blast
qed

end
