(* ===== verification/Ldb_Memtable.thy ===== *)
theory Ldb_Memtable
  imports Ldb_Dbformat Ldb_Skiplist_Props Ldb_Status
begin

text \<open>
  The memtable (\<open>db/memtable.h\<close>, \<open>db/memtable.cc\<close>): a skip list of pointers to entries in the arena.  A
  pointer is the bytes of the entry from it on.  \<open>None\<close> is a read outside an entry or a failing
  assertion.  The user's comparator is a parameter.  The abstract memtable is the list of what has
  been added; \<open>MemTable.Get\<close> answers the newest of them that is visible at the sequence number.
\<close>

declare One_nat_def [simp del]

section \<open>The code\<close>

text \<open>\<open>GetVarint32Ptr (p, p + 5, &len)\<close>: the length and where the pointer is after it.\<close>

definition entry_length :: "byte list \<Rightarrow> (nat \<times> byte list) option" where
  "entry_length p =
     (case GetVarint32Ptr (take 5 p) of
        None \<Rightarrow> None
      | Some (len, rest) \<Rightarrow> Some (unat len, drop (length (take 5 p) - length rest) p))"

text \<open>The slice, and what is behind it.\<close>

definition EntrySlice :: "byte list \<Rightarrow> (byte list \<times> byte list) option" where
  "EntrySlice data = do {
     (len, p) \<leftarrow> entry_length data;
     (if len \<le> length p then Some (take len p, drop len p) else None) }"

definition entry_key :: "byte list \<Rightarrow> byte list" where
  "entry_key data = fst (the (EntrySlice data))"

definition KeyComparator :: "comparing \<Rightarrow> byte list \<Rightarrow> byte list \<Rightarrow> int" where
  "KeyComparator user aptr bptr = InternalKeyCompare user (entry_key aptr) (entry_key bptr)"

definition EncodeKey :: "byte list \<Rightarrow> byte list" where
  "EncodeKey target = PutVarint32 [] (word_of_nat (length target)) @ target"

record MemTable =
  mem_table :: "byte list SkipList"
  mem_refs :: int

text \<open>The key of the head node is the null pointer.\<close>

definition MemTable_new :: "MemTable option" where
  "MemTable_new = map_option (\<lambda>t. \<lparr>mem_table = t, mem_refs = 0\<rparr>) (SkipList_new [])"

definition MemTable_Ref :: "MemTable \<Rightarrow> MemTable" where
  "MemTable_Ref m = m\<lparr>mem_refs := mem_refs m + 1\<rparr>"

text \<open>\<open>Unref\<close> gives no table when it has deleted it.\<close>

definition MemTable_Unref :: "MemTable \<Rightarrow> MemTable option option" where
  "MemTable_Unref m =
     (let m = m\<lparr>mem_refs := mem_refs m - 1\<rparr> in
      if \<not> 0 \<le> mem_refs m then None else if mem_refs m \<le> 0 then Some None else Some (Some m))"

definition MemTable_Add :: "comparing \<Rightarrow> MemTable \<Rightarrow> SequenceNumber \<Rightarrow> ValueType \<Rightarrow> byte list \<Rightarrow> byte list \<Rightarrow>
    MemTable option" where
  "MemTable_Add user m s type key value =
     (let key_size = length key;
          val_size = length value;
          internal_key_size = key_size + 8;
          encoded_len = VarintLength (word_of_nat internal_key_size) + internal_key_size
                        + VarintLength (word_of_nat val_size) + val_size;
          buf = EncodeVarint32 (word_of_nat internal_key_size) @ key
                @ EncodeFixed64 (push_bit 8 s OR value_type_code type)
                @ EncodeVarint32 (word_of_nat val_size) @ value
      in if length buf = encoded_len
         then map_option (\<lambda>t. m\<lparr>mem_table := t\<rparr>) (Insert (KeyComparator user) (mem_table m) buf)
         else None)"

text \<open>The answer of \<open>Get\<close>: not here, a value, or a status.\<close>

datatype lookup = Absent | Found "byte list" | Status_is Status

definition MemTable_Get :: "comparing \<Rightarrow> MemTable \<Rightarrow> LookupKey \<Rightarrow> lookup option" where
  "MemTable_Get user m key = do {
     it \<leftarrow> Iter_Seek (KeyComparator user) (mem_table m) (memtable_key key);
     (if Iter_Valid it
      then do {
        entry \<leftarrow> Iter_key (mem_table m) it;
        (key_length, key_ptr) \<leftarrow> entry_length entry;
        (if 8 \<le> key_length \<and> key_length \<le> length key_ptr
         then if user (take (key_length - 8) key_ptr) (lookup_user_key key) = 0
              then let t = DecodeFixed64 (drop (key_length - 8) key_ptr) AND 0xff in
                if t = value_type_code kTypeValue
                then do { (v, _) \<leftarrow> EntrySlice (drop key_length key_ptr); Some (Found v) }
                else if t = value_type_code kTypeDeletion then Some (Status_is (NotFound [] []))
                else Some Absent
              else Some Absent
         else None) }
      else Some Absent) }"

text \<open>The iterator of a memtable is one of its skip list.\<close>

definition MemIter_Seek :: "comparing \<Rightarrow> MemTable \<Rightarrow> byte list \<Rightarrow> iter option" where
  "MemIter_Seek user m k = Iter_Seek (KeyComparator user) (mem_table m) (EncodeKey k)"

definition MemIter_SeekToFirst :: "MemTable \<Rightarrow> iter option" where
  "MemIter_SeekToFirst m = Iter_SeekToFirst (mem_table m)"

definition MemIter_SeekToLast :: "MemTable \<Rightarrow> iter option" where
  "MemIter_SeekToLast m = Iter_SeekToLast (mem_table m)"

definition MemIter_Next :: "MemTable \<Rightarrow> iter \<Rightarrow> iter option" where
  "MemIter_Next m it = Iter_Next (mem_table m) it"

definition MemIter_Prev :: "comparing \<Rightarrow> MemTable \<Rightarrow> iter \<Rightarrow> iter option" where
  "MemIter_Prev user m it = Iter_Prev (KeyComparator user) (mem_table m) it"

definition MemIter_key :: "MemTable \<Rightarrow> iter \<Rightarrow> byte list option" where
  "MemIter_key m it = do { e \<leftarrow> Iter_key (mem_table m) it; (k, _) \<leftarrow> EntrySlice e; Some k }"

definition MemIter_value :: "MemTable \<Rightarrow> iter \<Rightarrow> byte list option" where
  "MemIter_value m it = do {
     e \<leftarrow> Iter_key (mem_table m) it; (_, p) \<leftarrow> EntrySlice e; (v, _) \<leftarrow> EntrySlice p; Some v }"

section \<open>Entries\<close>

definition entry_bytes :: "byte list \<Rightarrow> uint64 \<Rightarrow> byte list \<Rightarrow> byte list" where
  "entry_bytes u tag rest = varint (length u + 8) @ internal_bytes u tag @ rest"

definition slice_bytes :: "byte list \<Rightarrow> byte list" where
  "slice_bytes v = varint (length v) @ v"

lemma entry_length_varint:
  assumes "n < 2 ^ 32"
  shows "entry_length (varint n @ rest) = Some (n, rest)"
proof -
  have l: "length (varint n) \<le> 5" using assms by (rule length_varint32)
  have n: "unat (word_of_nat n :: uint32) = n" using assms by (simp add: unat_of_nat)
  have "take 5 (varint n @ rest) = varint n @ take (5 - length (varint n)) rest" using l by simp
  moreover have "GetVarint32Ptr (varint n @ take (5 - length (varint n)) rest)
      = Some (word_of_nat n, take (5 - length (varint n)) rest)"
    using GetVarint32_varint [of "word_of_nat n"] n by (simp add: GetVarint32_eq [symmetric])
  ultimately show ?thesis using n by (simp add: entry_length_def)
qed

lemma EntrySlice_bytes:
  "length a < 2 ^ 32 \<Longrightarrow> EntrySlice (varint (length a) @ a @ rest) = Some (a, rest)"
  by (simp add: EntrySlice_def entry_length_varint)

lemma entry_bytes_slice:
  assumes "length u + 8 < 2 ^ 32"
  shows "EntrySlice (entry_bytes u tag rest) = Some (internal_bytes u tag, rest)"
    and "entry_key (entry_bytes u tag rest) = internal_bytes u tag"
  using assms EntrySlice_bytes [of "internal_bytes u tag" rest] by (simp_all add: entry_bytes_def entry_key_def)

definition entry_ok :: "(byte list \<Rightarrow> bool) \<Rightarrow> byte list \<Rightarrow> bool" where
  "entry_ok valid e \<longleftrightarrow> (\<exists>u tag rest. e = entry_bytes u tag rest \<and> length u + 8 < 2 ^ 32 \<and> valid u)"

lemma KeyComparator_bytes:
  "length u + 8 < 2 ^ 32 \<Longrightarrow> length v + 8 < 2 ^ 32 \<Longrightarrow>
   KeyComparator cmp (entry_bytes u a r) (entry_bytes v b r') = InternalKeyCompare cmp (internal_bytes u a) (internal_bytes v b)"
  by (simp add: KeyComparator_def entry_bytes_slice)

lemma key_order_image:
  assumes "key_order V c" and "\<And>e. W e \<Longrightarrow> V (f e)"
  shows "key_order W (\<lambda>a b. c (f a) (f b))"
  using assms key_order.cmp_flip [OF assms(1)] key_order.cmp_trans [OF assms(1)]
  by unfold_locales blast+

lemma entry_order: "key_order valid cmp \<Longrightarrow> key_order (entry_ok valid) (KeyComparator cmp)"
  unfolding KeyComparator_def
  by (rule key_order_image [OF internal_order]) (auto simp: entry_ok_def entry_bytes_slice)

section \<open>Versions\<close>

text \<open>What has been added: the user key, the sequence number, the type and the value.\<close>

type_synonym version = "byte list \<times> SequenceNumber \<times> ValueType \<times> byte list"

abbreviation version_key :: "version \<Rightarrow> byte list" where "version_key \<equiv> fst"
abbreviation version_seq :: "version \<Rightarrow> SequenceNumber" where "version_seq \<equiv> fst \<circ> snd"

fun version_bytes :: "version \<Rightarrow> byte list" where
  "version_bytes (u, s, t, v) = entry_bytes u (tag_of s t) (slice_bytes v)"

fun version_ok :: "(byte list \<Rightarrow> bool) \<Rightarrow> version \<Rightarrow> bool" where
  "version_ok valid (u, s, t, v) \<longleftrightarrow> length u + 8 < 2 ^ 32 \<and> length v < 2 ^ 32 \<and> s \<le> kMaxSequenceNumber \<and> valid u"

definition mem_holds :: "(byte list \<Rightarrow> bool) \<Rightarrow> comparing \<Rightarrow> MemTable \<Rightarrow> version list \<Rightarrow> bool" where
  "mem_holds valid cmp m es \<longleftrightarrow>
     (\<exists>ks. holds (entry_ok valid) (KeyComparator cmp) (mem_table m) ks \<and> set ks = version_bytes ` set es)
     \<and> list_all (version_ok valid) es \<and> sorted_wrt (\<lambda>e f. version_seq e < version_seq f) es"

text \<open>The abstract lookup: the newest version of the key that is visible.\<close>

definition visible :: "comparing \<Rightarrow> byte list \<Rightarrow> SequenceNumber \<Rightarrow> version \<Rightarrow> bool" where
  "visible cmp u s e \<longleftrightarrow> cmp (version_key e) u = 0 \<and> version_seq e \<le> s"

fun answer :: "version option \<Rightarrow> lookup" where
  "answer None = Absent"
| "answer (Some (u, s, t, v)) =
     (case t of kTypeValue \<Rightarrow> Found v | kTypeDeletion \<Rightarrow> Status_is (NotFound [] []))"

definition newest :: "comparing \<Rightarrow> version list \<Rightarrow> byte list \<Rightarrow> SequenceNumber \<Rightarrow> version option" where
  "newest cmp es u s = find (visible cmp u s) (rev es)"

lemma newest_SomeD:
  assumes "newest cmp es u s = Some e" and "sorted_wrt (\<lambda>e f. version_seq e < version_seq f) es"
  shows "e \<in> set es \<and> visible cmp u s e
    \<and> (\<forall>f\<in>set es. visible cmp u s f \<longrightarrow> f = e \<or> version_seq f < version_seq e)"
proof -
  obtain i where i: "i < length es" "visible cmp u s (rev es ! i)" "e = rev es ! i"
    "\<forall>j<i. \<not> visible cmp u s (rev es ! j)"
    using assms(1) by (auto simp: newest_def find_Some_iff)
  have down: "sorted_wrt (\<lambda>e f. version_seq f < version_seq e) (rev es)"
    using assms(2) by (simp add: sorted_wrt_rev)
  have "f = e \<or> version_seq f < version_seq e" if "f \<in> set es" "visible cmp u s f" for f
  proof -
    have "f \<in> set (rev es)" using that(1) by simp
    then obtain j where j: "j < length (rev es)" "f = rev es ! j" unfolding in_set_conv_nth by blast
    have "i \<le> j" using i(4) that(2) j(2) by (meson not_less)
    show ?thesis
    proof (cases "i = j")
      case True
      then show ?thesis using j(2) i(3) by simp
    next
      case False
      then have "i < j" using \<open>i \<le> j\<close> by simp
      from sorted_wrt_nth_less [OF down this j(1)] show ?thesis using j(2) i(3) by simp
    qed
  qed
  moreover have "e \<in> set es" using i(1,3) by (metis length_rev nth_mem set_rev)
  moreover have "visible cmp u s e" using i(2,3) by simp
  ultimately show ?thesis by blast
qed

lemma newest_None: "newest cmp es u s = None \<longleftrightarrow> (\<forall>f\<in>set es. \<not> visible cmp u s f)"
  by (auto simp: newest_def find_None_iff)

lemma version_entry_ok: "version_ok valid e \<Longrightarrow> entry_ok valid (version_bytes e)"
  by (cases e) (auto simp: entry_ok_def)

lemma tag_less_iff:
  assumes "s \<le> kMaxSequenceNumber" "q \<le> kMaxSequenceNumber"
  shows "tag_of s kTypeValue < tag_of q t \<longleftrightarrow> s < q" and "q < s \<Longrightarrow> tag_of q t < tag_of s t'"
proof -
  have u: "unat s < 2 ^ 56" "unat q < 2 ^ 56" using assms by (simp_all add: kMaxSequenceNumber_unat)
  note n = unat_tag_of [OF u(1)] unat_tag_of [OF u(2)]
  have c: "unat (value_type_code t) \<le> 1" for t by (simp add: value_type_code_def split: ValueType.split)
  have v: "unat (value_type_code kTypeValue) = 1" by (simp add: value_type_code_def)
  show "tag_of s kTypeValue < tag_of q t \<longleftrightarrow> s < q"
    unfolding word_less_nat_alt n v using c [of t] by linarith
  show "q < s \<Longrightarrow> tag_of q t < tag_of s t'"
    unfolding word_less_nat_alt n using c [of t] by linarith
qed

text \<open>A version against the target of a lookup, and two versions of the same key.\<close>

lemma version_before_target:
  assumes "version_ok valid e" and "length u + 8 < 2 ^ 32" and "s \<le> kMaxSequenceNumber"
  shows "KeyComparator cmp (version_bytes e) (lookup_bytes u s) < 0 \<longleftrightarrow>
    cmp (version_key e) u < 0 \<or> cmp (version_key e) u = 0 \<and> s < version_seq e"
proof -
  obtain k q t v where e: "e = (k, q, t, v)" by (cases e) auto
  have "lookup_bytes u s = entry_bytes u (tag_of s kTypeValue) []" by (simp add: lookup_bytes_def entry_bytes_def)
  then have "KeyComparator cmp (version_bytes e) (lookup_bytes u s) =
      InternalKeyCompare cmp (internal_bytes k (tag_of q t)) (internal_bytes u (tag_of s kTypeValue))"
    using assms e by (simp add: KeyComparator_bytes)
  then show ?thesis using tag_less_iff(1) [of s q t] assms e by (auto simp: InternalKeyCompare_bytes)
qed

lemma version_compare:
  assumes "version_ok valid (k, q, t, v)" and "version_ok valid (k', q', t', v')"
  shows "KeyComparator cmp (version_bytes (k, q, t, v)) (version_bytes (k', q', t', v')) =
    (if cmp k k' = 0 then if tag_of q' t' < tag_of q t then - 1 else if tag_of q t < tag_of q' t' then 1 else 0
     else cmp k k')"
  using assms by (simp add: KeyComparator_bytes InternalKeyCompare_bytes)

lemma tag_and_255: "s \<le> kMaxSequenceNumber \<Longrightarrow> tag_of s t AND 0xff = value_type_code t"
proof -
  assume "s \<le> kMaxSequenceNumber"
  then have u: "unat s < 2 ^ 56" by (simp add: kMaxSequenceNumber_unat)
  have "unat (value_type_code t) < 256" by (simp add: value_type_code_def split: ValueType.split)
  then have "unat (tag_of s t AND 0xff) = unat (value_type_code t)"
    by (simp add: and_255 take_bit_eq_mod unat_mod unat_tag_of [OF u])
  then show ?thesis by (simp add: word_unat_eq_iff)
qed

lemma answer_of_entry:
  assumes "version_ok valid (k, q, t, v)"
  shows "entry_length (version_bytes (k, q, t, v)) = Some (length k + 8, internal_bytes k (tag_of q t) @ slice_bytes v)"
    and "EntrySlice (slice_bytes v) = Some (v, [])"
    and "take (length k) (internal_bytes k (tag_of q t) @ slice_bytes v) = k"
    and "DecodeFixed64 (drop (length k) (internal_bytes k (tag_of q t) @ slice_bytes v)) = tag_of q t"
    and "drop (length k + 8) (internal_bytes k (tag_of q t) @ slice_bytes v) = slice_bytes v"
  using assms entry_length_varint [of "length k + 8"] EntrySlice_bytes [of v "[]"]
    DecodeFixed64_le [of "tag_of q t"]
  by (simp_all add: entry_bytes_def slice_bytes_def internal_bytes_def)

section \<open>The operations\<close>

lemma MemTable_new_holds: "\<exists>m. MemTable_new = Some m \<and> mem_holds valid cmp m []"
  using SkipList_new_holds [of "[]" "entry_ok valid" "KeyComparator cmp"]
  by (auto simp: MemTable_new_def mem_holds_def)

lemma MemTable_Add_holds:
  assumes ord: "key_order valid cmp" and m: "mem_holds valid cmp m es" and ok: "version_ok valid (u, s, t, v)"
    and newer: "\<forall>e\<in>set es. version_seq e < s"
  shows "\<exists>m'. MemTable_Add cmp m s t u v = Some m' \<and> mem_holds valid cmp m' (es @ [(u, s, t, v)])"
proof -
  obtain ks where ks: "holds (entry_ok valid) (KeyComparator cmp) (mem_table m) ks" "set ks = version_bytes ` set es"
    and es: "list_all (version_ok valid) es" "sorted_wrt (\<lambda>e f. version_seq e < version_seq f) es"
    using m by (auto simp: mem_holds_def)
  let ?e = "(u, s, t, v)"
  have len: "unat (word_of_nat (length u + 8) :: uint32) = length u + 8"
      "unat (word_of_nat (length v) :: uint32) = length v"
      "unat (word_of_nat (length u + 8) :: uint64) = length u + 8"
      "unat (word_of_nat (length v) :: uint64) = length v"
    using ok by (simp_all only: version_ok.simps unat_of_nat) simp_all
  let ?buf = "EncodeVarint32 (word_of_nat (length u + 8)) @ u
      @ EncodeFixed64 (push_bit 8 s OR value_type_code t) @ EncodeVarint32 (word_of_nat (length v)) @ v"
  have buf: "?buf = version_bytes ?e"
    unfolding EncodeVarint32_varint len by (simp add: entry_bytes_def slice_bytes_def internal_bytes_def tag_of_def)
  have enc: "VarintLength (word_of_nat (length u + 8)) + (length u + 8) + VarintLength (word_of_nat (length v)) + length v
      = length (version_bytes ?e)"
    unfolding VarintLength_varint len by (simp add: entry_bytes_def slice_bytes_def)
  have "\<forall>x\<in>set ks. KeyComparator cmp (version_bytes ?e) x \<noteq> 0"
  proof
    fix x assume "x \<in> set ks"
    then obtain f where f: "f \<in> set es" "x = version_bytes f" using ks(2) by auto
    obtain k q t' v' where f': "f = (k, q, t', v')" by (cases f) auto
    have okf: "version_ok valid (k, q, t', v')" using es(1) f(1) unfolding f' list_all_iff by (rule bspec)
    have "q < s" using newer f(1) f' by auto
    then have "tag_of q t' < tag_of s t" using tag_less_iff(2) [of s q t' t] ok okf by simp
    then have "KeyComparator cmp (version_bytes ?e) x \<noteq> 0"
      unfolding f(2) f' version_compare [OF ok okf] by simp
    then show "KeyComparator cmp (version_bytes ?e) x \<noteq> 0" .
  qed
  with key_order.Insert_holds [OF entry_order [OF ord] ks(1) version_entry_ok [OF ok]]
  obtain tb where tb: "Insert (KeyComparator cmp) (mem_table m) (version_bytes ?e) = Some tb"
    "holds (entry_ok valid) (KeyComparator cmp) tb (sorted_insert (KeyComparator cmp) (version_bytes ?e) ks)" by blast
  have "MemTable_Add cmp m s t u v = Some (m\<lparr>mem_table := tb\<rparr>)"
    unfolding MemTable_Add_def Let_def buf enc using tb(1) by simp
  moreover have "mem_holds valid cmp (m\<lparr>mem_table := tb\<rparr>) (es @ [?e])"
    using es ok newer unfolding mem_holds_def
    by (intro conjI exI [of _ "sorted_insert (KeyComparator cmp) (version_bytes ?e) ks"])
      (use tb(2) ks(2) in \<open>simp_all add: set_sorted_insert sorted_wrt_append\<close>)
  ultimately show ?thesis by blast
qed

lemma MemTable_Get_newest:
  assumes ord: "key_order valid cmp" and m: "mem_holds valid cmp m es" and u: "valid u" "length u + 8 < 2 ^ 32"
    and s: "s \<le> kMaxSequenceNumber" and lk: "LookupKey_new u s = Some lk"
  shows "MemTable_Get cmp m lk = Some (answer (newest cmp es u s))"
proof -
  obtain ks where ks: "holds (entry_ok valid) (KeyComparator cmp) (mem_table m) ks" "set ks = version_bytes ` set es"
    and es: "\<And>e. e \<in> set es \<Longrightarrow> version_ok valid e" "sorted_wrt (\<lambda>e f. version_seq e < version_seq f) es"
    using m by (auto simp: mem_holds_def list_all_iff)
  let ?target = "lookup_bytes u s"
  have lk': "memtable_key lk = ?target" "lookup_user_key lk = u"
    using LookupKey_new_bytes [of s u] s u(2) lk by (auto simp: kMaxSequenceNumber_unat)
  have "entry_ok valid ?target"
    unfolding entry_ok_def using u by (intro exI [of _ u] exI [of _ "tag_of s kTypeValue"] exI [of _ "[]"])
      (simp add: lookup_bytes_def entry_bytes_def)
  from key_order.seek_least [OF entry_order [OF ord] ks(1) this]
  obtain it where it: "Iter_Seek (KeyComparator cmp) (mem_table m) ?target = Some it"
    "if Iter_Valid it
     then \<exists>y\<in>set ks. Iter_key (mem_table m) it = Some y \<and> \<not> KeyComparator cmp y ?target < 0
       \<and> (\<forall>x\<in>set ks. \<not> KeyComparator cmp x ?target < 0 \<longrightarrow> KeyComparator cmp y x \<le> 0)
     else \<forall>x\<in>set ks. KeyComparator cmp x ?target < 0" by blast
  have before: "KeyComparator cmp (version_bytes e) ?target < 0 \<longleftrightarrow>
      cmp (version_key e) u < 0 \<or> cmp (version_key e) u = 0 \<and> s < version_seq e" if "e \<in> set es" for e
    using version_before_target [OF es(1) [OF that] u(2) s] .
  show ?thesis
  proof (cases "Iter_Valid it")
    case False
    then have "\<forall>e\<in>set es. \<not> visible cmp u s e"
      using it(2) ks(2) before by (auto simp: visible_def)
    then have "newest cmp es u s = None" by (simp add: newest_None)
    then show ?thesis using it(1) False lk' by (simp add: MemTable_Get_def)
  next
    case True
    then obtain y where y: "y \<in> set ks" "Iter_key (mem_table m) it = Some y" "\<not> KeyComparator cmp y ?target < 0"
      "\<And>x. x \<in> set ks \<Longrightarrow> \<not> KeyComparator cmp x ?target < 0 \<Longrightarrow> KeyComparator cmp y x \<le> 0"
      using it(2) by auto
    obtain f where f: "f \<in> set es" "y = version_bytes f" using y(1) ks(2) by auto
    obtain k q t v where f': "f = (k, q, t, v)" by (cases f) auto
    have okf: "version_ok valid (k, q, t, v)" using es(1) [OF f(1)] f' by simp
    have get: "MemTable_Get cmp m lk = Some (if cmp k u = 0 then answer (Some f) else Absent)"
      using it(1) True lk' y(2) f(2) f' okf answer_of_entry [OF okf] tag_and_255 [of q t]
      by (auto simp: MemTable_Get_def Let_def value_type_code_def simp del: version_bytes.simps split: ValueType.split)
    show ?thesis
    proof (cases "newest cmp es u s")
      case None
      then have "\<not> visible cmp u s f" using f(1) by (simp add: newest_None)
      then have "cmp k u \<noteq> 0" using y(3) before [OF f(1)] f(2) f' by (auto simp: visible_def)
      then show ?thesis using get None by simp
    next
      case (Some e)
      then have e: "e \<in> set es" "visible cmp u s e"
        "\<And>g. g \<in> set es \<Longrightarrow> visible cmp u s g \<Longrightarrow> g = e \<or> version_seq g < version_seq e"
        using newest_SomeD [OF _ es(2)] by blast+
      obtain k' q' t' v' where e': "e = (k', q', t', v')" by (cases e) auto
      have oke: "version_ok valid (k', q', t', v')" using es(1) [OF e(1)] e' by simp
      have "\<not> KeyComparator cmp (version_bytes e) ?target < 0"
        using before [OF e(1)] e(2) by (auto simp: visible_def)
      then have le: "KeyComparator cmp (version_bytes f) (version_bytes e) \<le> 0"
        using y(4) [of "version_bytes e"] ks(2) e(1) f(2) by simp
      have k': "cmp k' u = 0" using e(2) e' by (simp add: visible_def)
      have v: "valid k" "valid k'" using okf oke by simp_all
      have ku: "cmp k u = 0"
      proof (rule ccontr)
        assume "cmp k u \<noteq> 0"
        then have "0 < cmp k u" using y(3) before [OF f(1)] f(2) f' by auto
        then have "cmp u k < 0" using key_order.cmp_flip [OF ord u(1) v(1)] by simp
        then have "cmp k' k < 0" using key_order.cmp_0_cong(1) [OF ord v(2) u(1) v(1) k'] by simp
        then have "0 < cmp k k'" using key_order.cmp_flip [OF ord v(2) v(1)] by simp
        with le show False unfolding f' e' version_compare [OF okf oke] by (simp split: if_splits)
      qed
      then have "visible cmp u s f" using y(3) before [OF f(1)] f(2) f' by (auto simp: visible_def)
      then have fe: "f = e \<or> q < q'" using e(3) [OF f(1)] f' e' by auto
      have "cmp k k' = 0"
        using key_order.cmp_0_cong(2) [OF ord v(1) u(1) v(2) ku] key_order.cmp_0_sym [OF ord v(2) u(1)] k' by simp
      with le have "\<not> tag_of q t < tag_of q' t'"
        unfolding f' e' version_compare [OF okf oke] by (auto split: if_splits)
      moreover have "q < q' \<Longrightarrow> tag_of q t < tag_of q' t'"
        using tag_less_iff(2) [of q' q t t'] okf oke by simp
      ultimately have "f = e" using fe by blast
      then show ?thesis using get ku Some by simp
    qed
  qed
qed

section \<open>A memtable is a versioned map\<close>

fun MemTable_Adds :: "comparing \<Rightarrow> version list \<Rightarrow> MemTable \<Rightarrow> MemTable option" where
  "MemTable_Adds cmp [] m = Some m"
| "MemTable_Adds cmp ((u, s, t, v) # es) m = Option.bind (MemTable_Add cmp m s t u v) (MemTable_Adds cmp es)"

lemma MemTable_Adds_holds:
  assumes "key_order valid cmp" and "mem_holds valid cmp m es" and "list_all (version_ok valid) fs"
    and "sorted_wrt (\<lambda>e f. version_seq e < version_seq f) (es @ fs)"
  shows "\<exists>m'. MemTable_Adds cmp fs m = Some m' \<and> mem_holds valid cmp m' (es @ fs)"
  using assms(2-4)
proof (induction fs arbitrary: m es)
  case Nil
  then show ?case by simp
next
  case (Cons f fs)
  obtain u s t v where f: "f = (u, s, t, v)" by (cases f) auto
  have newer: "\<forall>e\<in>set es. version_seq e < s" using Cons.prems(3) f by (auto simp: sorted_wrt_append)
  have okf: "version_ok valid (u, s, t, v)" using Cons.prems(2) f by simp
  obtain m' where m': "MemTable_Add cmp m s t u v = Some m'" "mem_holds valid cmp m' (es @ [f])"
    using MemTable_Add_holds [OF assms(1) Cons.prems(1) okf newer] f by auto
  have "sorted_wrt (\<lambda>e f. version_seq e < version_seq f) ((es @ [f]) @ fs)"
    using Cons.prems(3) by simp
  from Cons.IH [OF m'(2) _ this] Cons.prems(2) show ?case using m'(1) f by simp
qed

text \<open>C12: a memtable refines a versioned map.  Whatever versions are added in the order of their sequence
  numbers, no step fails, and \<open>Get\<close> at any sequence number answers with the newest version of
  the key that is not newer than it: its value, \<open>NotFound\<close> for a deletion, nothing when there is none.\<close>

theorem memtable_answers_newest:
  assumes "key_order valid cmp" and "list_all (version_ok valid) es"
    and "sorted_wrt (\<lambda>e f. version_seq e < version_seq f) es"
    and "valid u" and "length u + 8 < 2 ^ 32" and "s \<le> kMaxSequenceNumber"
  shows "\<exists>m lk. Option.bind MemTable_new (MemTable_Adds cmp es) = Some m \<and> LookupKey_new u s = Some lk
    \<and> MemTable_Get cmp m lk = Some (answer (newest cmp es u s))"
proof -
  obtain m0 where m0: "MemTable_new = Some m0" "mem_holds valid cmp m0 []"
    using MemTable_new_holds by blast
  obtain m where m: "MemTable_Adds cmp es m0 = Some m" "mem_holds valid cmp m es"
    using MemTable_Adds_holds [OF assms(1) m0(2) assms(2)] assms(3) by auto
  have "unat s < 2 ^ 56" using assms(6) by (simp add: kMaxSequenceNumber_unat)
  then obtain lk where lk: "LookupKey_new u s = Some lk"
    using LookupKey_new_bytes assms(5) by blast
  have "Option.bind MemTable_new (MemTable_Adds cmp es) = Some m" unfolding m0(1) bind.simps by (rule m(1))
  with lk MemTable_Get_newest [OF assms(1) m(2) assms(4,5,6) lk] show ?thesis by blast
qed

theorem memtable_answers_newest_witness:
  "\<exists>m lk. Option.bind MemTable_new (MemTable_Adds BytewiseCompare
        [([7], 1, kTypeValue, [10]), ([7], 2, kTypeDeletion, []), ([7], 3, kTypeValue, [30])]) = Some m
     \<and> LookupKey_new [7] 2 = Some lk \<and> MemTable_Get BytewiseCompare m lk = Some (Status_is (NotFound [] []))"
  using memtable_answers_newest [OF bytewise_order, of
      "[([7], 1, kTypeValue, [10]), ([7], 2, kTypeDeletion, []), ([7], 3, kTypeValue, [30])]" "[7]" 2]
  by (simp add: kMaxSequenceNumber_def newest_def visible_def BytewiseCompare_0)

end
