(* ===== verification/Ldb_Write_Batch.thy ===== *)
theory Ldb_Write_Batch
  imports Ldb_Memtable
begin

text \<open>
  Write batches (\<open>db/write_batch.cc\<close>).  A \<open>WriteBatch\<close> is its \<open>rep_\<close>: a sequence number in eight
  bytes, a count in four, and the records.  \<open>None\<close> is an access outside \<open>rep_\<close>, a failing
  assertion, a signed overflow, or a handler that failed.  A handler is its two methods over a state.
  The theorems: \<open>Iterate\<close> calls the handler with what was put into the batch, and what \<open>InsertInto\<close>
  puts into a memtable is what \<open>Get\<close> finds there.
\<close>

declare One_nat_def [simp del]

section \<open>The code\<close>

definition kHeader :: nat where "kHeader = 12"

type_synonym WriteBatch = "byte list"

text \<open>Arithmetic on \<open>int\<close>: a result that does not fit is undefined.\<close>

definition int_add :: "int \<Rightarrow> int \<Rightarrow> int option" where
  "int_add a b = (if - (2 ^ 31) \<le> a + b \<and> a + b < 2 ^ 31 then Some (a + b) else None)"

definition batch_Clear :: "WriteBatch \<Rightarrow> WriteBatch" where
  "batch_Clear rep = replicate kHeader 0"

definition WriteBatch_new :: WriteBatch where
  "WriteBatch_new = batch_Clear []"

definition ApproximateSize :: "WriteBatch \<Rightarrow> nat" where
  "ApproximateSize rep = length rep"

definition batch_Count :: "WriteBatch \<Rightarrow> int option" where
  "batch_Count rep = (if 12 \<le> length rep then Some (sint (DecodeFixed32 (drop 8 rep))) else None)"

definition SetCount :: "WriteBatch \<Rightarrow> int \<Rightarrow> WriteBatch option" where
  "SetCount rep n =
     (if 12 \<le> length rep then Some (take 8 rep @ EncodeFixed32 (word_of_int n) @ drop 12 rep) else None)"

definition batch_Sequence :: "WriteBatch \<Rightarrow> SequenceNumber option" where
  "batch_Sequence rep = (if 8 \<le> length rep then Some (DecodeFixed64 rep) else None)"

definition SetSequence :: "WriteBatch \<Rightarrow> SequenceNumber \<Rightarrow> WriteBatch option" where
  "SetSequence rep seq =
     (if 8 \<le> length rep then Some (EncodeFixed64 seq @ drop 8 rep) else None)"

definition add_to_count :: "WriteBatch \<Rightarrow> int \<Rightarrow> WriteBatch option" where
  "add_to_count rep k = do { n \<leftarrow> batch_Count rep; n \<leftarrow> int_add n k; SetCount rep n }"

definition batch_Put :: "WriteBatch \<Rightarrow> byte list \<Rightarrow> byte list \<Rightarrow> WriteBatch option" where
  "batch_Put rep key value = do {
     rep \<leftarrow> add_to_count rep 1;
     Some (PutLengthPrefixedSlice (PutLengthPrefixedSlice
       (rep @ [ucast (value_type_code kTypeValue)]) key) value) }"

definition batch_Delete :: "WriteBatch \<Rightarrow> byte list \<Rightarrow> WriteBatch option" where
  "batch_Delete rep key = do {
     rep \<leftarrow> add_to_count rep 1;
     Some (PutLengthPrefixedSlice (rep @ [ucast (value_type_code kTypeDeletion)]) key) }"

definition batch_Contents :: "WriteBatch \<Rightarrow> byte list" where
  "batch_Contents rep = rep"

definition batch_ByteSize :: "WriteBatch \<Rightarrow> nat" where
  "batch_ByteSize rep = length rep"

definition SetContents :: "WriteBatch \<Rightarrow> byte list \<Rightarrow> WriteBatch option" where
  "SetContents rep contents = (if kHeader \<le> length contents then Some contents else None)"

definition batch_Append :: "WriteBatch \<Rightarrow> WriteBatch \<Rightarrow> WriteBatch option" where
  "batch_Append dst src = do {
     n \<leftarrow> batch_Count src;
     dst \<leftarrow> add_to_count dst n;
     (if kHeader \<le> length src then Some (dst @ drop kHeader src) else None) }"

record 'h Handler =
  handler_Put :: "byte list \<Rightarrow> byte list \<Rightarrow> 'h \<Rightarrow> 'h option"
  handler_Delete :: "byte list \<Rightarrow> 'h \<Rightarrow> 'h option"

text \<open>One round of the loop: the call of the handler it makes and what is left of the input, or the
  message of the error.\<close>

definition next_record :: "'h Handler \<Rightarrow> byte list \<Rightarrow> byte list + ('h \<Rightarrow> 'h option) \<times> byte list" where
  "next_record h input =
     (let tag = hd input; input = tl input in
      if tag = ucast (value_type_code kTypeValue)
      then (case GetLengthPrefixedSlice input of
              None \<Rightarrow> Inl (str ''bad WriteBatch Put'')
            | Some (key, input) \<Rightarrow>
                (case GetLengthPrefixedSlice input of
                   None \<Rightarrow> Inl (str ''bad WriteBatch Put'')
                 | Some (value, input) \<Rightarrow> Inr (handler_Put h key value, input)))
      else if tag = ucast (value_type_code kTypeDeletion)
      then (case GetLengthPrefixedSlice input of
              None \<Rightarrow> Inl (str ''bad WriteBatch Delete'')
            | Some (key, input) \<Rightarrow> Inr (handler_Delete h key, input))
      else Inl (str ''unknown WriteBatch tag''))"

lemma varint_bytes_nonempty: "varint_bytes bs \<Longrightarrow> bs \<noteq> []"
  by auto

lemma GetLengthPrefixedSlice_shorter:
  "GetLengthPrefixedSlice q = Some (a, rest) \<Longrightarrow> length rest < length q"
  using varint_bytes_nonempty
  by (fastforce simp: GetLengthPrefixedSlice_def GetVarint32_iff split: option.splits if_splits
      intro: le_less_trans [OF diff_le_self])

lemma next_record_shorter:
  "next_record h q = Inr (call, rest) \<Longrightarrow> q \<noteq> [] \<Longrightarrow> length rest < length q"
  by (cases q) (auto simp: next_record_def Let_def dest!: GetLengthPrefixedSlice_shorter
      split: option.splits if_splits)

text \<open>The loop gives the number of records, or the status it returned early with.\<close>

function Iterate_loop :: "'h Handler \<Rightarrow> byte list \<Rightarrow> int \<Rightarrow> 'h \<Rightarrow> ('h \<times> (Status + int)) option" where
  "Iterate_loop h input found s =
     (if input = [] then Some (s, Inr found)
      else Option.bind (int_add found 1) (\<lambda>found.
        case next_record h input of
          Inl msg \<Rightarrow> Some (s, Inl (Corruption msg []))
        | Inr (call, input) \<Rightarrow> Option.bind (call s) (Iterate_loop h input found)))"
  by pat_completeness auto
termination by (relation "measure (\<lambda>(h, input, found, s). length input)") (auto dest: next_record_shorter [OF sym [OF sym]])

declare Iterate_loop.simps [simp del]

definition Iterate :: "'h Handler \<Rightarrow> WriteBatch \<Rightarrow> 'h \<Rightarrow> ('h \<times> Status) option" where
  "Iterate h rep s =
     (if length rep < kHeader then Some (s, Corruption (str ''malformed WriteBatch (too small)'') [])
      else do {
        (s, r) \<leftarrow> Iterate_loop h (drop kHeader rep) 0 s;
        (case r of
           Inl status \<Rightarrow> Some (s, status)
         | Inr found \<Rightarrow> do {
             n \<leftarrow> batch_Count rep;
             Some (s, if found \<noteq> n then Corruption (str ''WriteBatch has wrong count'') [] else OK) }) })"

record MemTableInserter =
  ins_sequence :: SequenceNumber
  ins_mem :: MemTable

definition inserter_add :: "comparing \<Rightarrow> ValueType \<Rightarrow> byte list \<Rightarrow> byte list \<Rightarrow> MemTableInserter \<Rightarrow>
    MemTableInserter option" where
  "inserter_add cmp t key value ins = do {
     m \<leftarrow> MemTable_Add cmp (ins_mem ins) (ins_sequence ins) t key value;
     Some (ins\<lparr>ins_mem := m, ins_sequence := ins_sequence ins + 1\<rparr>) }"

definition inserter_handler :: "comparing \<Rightarrow> MemTableInserter Handler" where
  "inserter_handler cmp = \<lparr>handler_Put = (\<lambda>key value. inserter_add cmp kTypeValue key value),
     handler_Delete = (\<lambda>key. inserter_add cmp kTypeDeletion key [])\<rparr>"

definition InsertInto :: "comparing \<Rightarrow> WriteBatch \<Rightarrow> MemTable \<Rightarrow> (MemTable \<times> Status) option" where
  "InsertInto cmp rep m = do {
     seq \<leftarrow> batch_Sequence rep;
     (ins, status) \<leftarrow> Iterate (inserter_handler cmp) rep \<lparr>ins_sequence = seq, ins_mem = m\<rparr>;
     Some (ins_mem ins, status) }"

section \<open>What a batch stands for\<close>

datatype batch_op = Put_op "byte list" "byte list" | Delete_op "byte list"

fun op_ok :: "batch_op \<Rightarrow> bool" where
  "op_ok (Put_op k v) \<longleftrightarrow> length k < 2 ^ 32 \<and> length v < 2 ^ 32"
| "op_ok (Delete_op k) \<longleftrightarrow> length k < 2 ^ 32"

fun add_op :: "batch_op \<Rightarrow> WriteBatch \<Rightarrow> WriteBatch option" where
  "add_op (Put_op k v) rep = batch_Put rep k v"
| "add_op (Delete_op k) rep = batch_Delete rep k"

fun add_ops :: "batch_op list \<Rightarrow> WriteBatch \<Rightarrow> WriteBatch option" where
  "add_ops [] rep = Some rep"
| "add_ops (x # xs) rep = Option.bind (add_op x rep) (add_ops xs)"

fun call_op :: "'h Handler \<Rightarrow> batch_op \<Rightarrow> 'h \<Rightarrow> 'h option" where
  "call_op h (Put_op k v) = handler_Put h k v"
| "call_op h (Delete_op k) = handler_Delete h k"

fun call_ops :: "'h Handler \<Rightarrow> batch_op list \<Rightarrow> 'h \<Rightarrow> 'h option" where
  "call_ops h [] s = Some s"
| "call_ops h (x # xs) s = Option.bind (call_op h x s) (call_ops h xs)"

fun op_bytes :: "batch_op \<Rightarrow> byte list" where
  "op_bytes (Put_op k v) = 1 # slice_bytes k @ slice_bytes v"
| "op_bytes (Delete_op k) = 0 # slice_bytes k"

definition batch_bytes :: "SequenceNumber \<Rightarrow> nat \<Rightarrow> batch_op list \<Rightarrow> WriteBatch" where
  "batch_bytes q n xs = le_of_nat 8 (unat q) @ le_of_nat 4 n @ concat (map op_bytes xs)"

lemma WriteBatch_new_bytes: "WriteBatch_new = batch_bytes 0 0 []"
proof -
  have "le_of_nat n 0 = replicate n 0" for n by (induction n) simp_all
  moreover have "replicate kHeader 0 = replicate 8 0 @ replicate 4 (0 :: byte)"
    by (simp add: kHeader_def replicate_add [symmetric])
  ultimately show ?thesis by (simp add: WriteBatch_new_def batch_Clear_def batch_bytes_def)
qed

lemma header_length: "length (le_of_nat 8 a @ le_of_nat 4 b) = kHeader"
  by (simp add: kHeader_def)

lemma drop_kHeader [simp]: "drop kHeader (batch_bytes q n xs) = concat (map op_bytes xs)"
  by (simp add: batch_bytes_def kHeader_def)

lemma length_batch_bytes [simp]: "length (batch_bytes q n xs) = 12 + length (concat (map op_bytes xs))"
  by (simp add: batch_bytes_def)

lemma batch_Count_bytes [simp]: "n < 2 ^ 31 \<Longrightarrow> batch_Count (batch_bytes q n xs) = Some (int n)"
proof -
  assume n: "n < 2 ^ 31"
  then have u: "unat (word_of_nat n :: uint32) = n" by (simp add: unat_of_nat)
  have "DecodeFixed32 (drop 8 (batch_bytes q n xs)) = word_of_nat n"
    using DecodeFixed32_le [of "word_of_nat n" "concat (map op_bytes xs)"] u by (simp add: batch_bytes_def)
  moreover have "sint (word_of_nat n :: uint32) = int n"
    using n by (simp add: sint_word_ariths(1) word_of_nat_eq_iff signed_of_nat signed_take_bit_int_eq_self)
  ultimately show ?thesis by (simp add: batch_Count_def)
qed

lemma batch_Sequence_bytes [simp]: "batch_Sequence (batch_bytes q n xs) = Some q"
  using DecodeFixed64_le [of q "le_of_nat 4 n @ concat (map op_bytes xs)"]
  by (simp add: batch_Sequence_def batch_bytes_def)

lemma SetSequence_bytes [simp]: "SetSequence (batch_bytes q n xs) q' = Some (batch_bytes q' n xs)"
  by (simp add: SetSequence_def batch_bytes_def)

lemma add_to_count_bytes:
  "n + k < 2 ^ 31 \<Longrightarrow> add_to_count (batch_bytes q n xs) (int k) = Some (batch_bytes q (n + k) xs)"
proof -
  assume n: "n + k < 2 ^ 31"
  then have "int n + int k < 2 ^ 31" by simp
  moreover have "- (2 ^ 31) \<le> int n + int k" by simp
  ultimately have "int_add (int n) (int k) = Some (int (n + k))" by (simp add: int_add_def)
  moreover have "unat (word_of_int (int (n + k)) :: uint32) = n + k"
    using n by (simp only: of_int_of_nat_eq unat_of_nat) simp
  ultimately show ?thesis using n by (simp add: add_to_count_def SetCount_def) (simp add: batch_bytes_def)
qed

lemma PutLengthPrefixedSlice_bytes: "length v < 2 ^ 32 \<Longrightarrow> PutLengthPrefixedSlice dst v = dst @ slice_bytes v"
proof -
  assume "length v < 2 ^ 32"
  then have "unat (word_of_nat (length v) :: uint32) = length v" by (simp only: unat_of_nat) simp
  then show ?thesis by (simp add: PutLengthPrefixedSlice_def PutVarint32_def EncodeVarint32_varint slice_bytes_def)
qed

lemma add_op_bytes:
  "op_ok x \<Longrightarrow> n + 1 < 2 ^ 31 \<Longrightarrow> add_op x (batch_bytes q n xs) = Some (batch_bytes q (n + 1) (xs @ [x]))"
  using add_to_count_bytes [of n 1 q xs]
  by (cases x) (simp_all add: batch_Put_def batch_Delete_def PutLengthPrefixedSlice_bytes value_type_code_def
      batch_bytes_def)

lemma add_ops_bytes:
  "list_all op_ok xs \<Longrightarrow> n + length xs < 2 ^ 31 \<Longrightarrow>
   add_ops xs (batch_bytes q n ys) = Some (batch_bytes q (n + length xs) (ys @ xs))"
  by (induction xs arbitrary: n ys) (simp_all add: add_op_bytes plus_1_eq_Suc Suc_eq_plus1 [symmetric] del: Suc_eq_plus1)

lemma next_record_bytes:
  "op_ok x \<Longrightarrow> next_record h (op_bytes x @ rest) = Inr (call_op h x, rest)"
  by (cases x) (simp_all add: next_record_def value_type_code_def slice_bytes_def
      GetLengthPrefixedSlice_varint)

lemma Iterate_loop_bytes:
  "list_all op_ok xs \<Longrightarrow> 0 \<le> n \<Longrightarrow> n + int (length xs) < 2 ^ 31 \<Longrightarrow>
   Iterate_loop h (concat (map op_bytes xs)) n s = map_option (\<lambda>s. (s, Inr (n + int (length xs)))) (call_ops h xs s)"
proof (induction xs arbitrary: n s)
  case Nil
  then show ?case by (simp add: Iterate_loop.simps [of h "[]"])
next
  case (Cons x xs)
  have "op_bytes x \<noteq> []" by (cases x) auto
  moreover have "int_add n 1 = Some (n + 1)" using Cons.prems by (simp add: int_add_def)
  ultimately have "Iterate_loop h (concat (map op_bytes (x # xs))) n s
      = Option.bind (call_op h x s) (Iterate_loop h (concat (map op_bytes xs)) (n + 1))"
    using Cons.prems(1) Iterate_loop.simps [of h "op_bytes x @ concat (map op_bytes xs)" n s]
    by (simp add: next_record_bytes)
  also have "\<dots> = Option.bind (call_op h x s) (\<lambda>s. map_option (\<lambda>s. (s, Inr (n + int (length (x # xs))))) (call_ops h xs s))"
    by (rule bind_option_cong [OF refl]) (use Cons.prems Cons.IH [of "n + 1"] in \<open>simp add: ac_simps\<close>)
  also have "\<dots> = map_option (\<lambda>s. (s, Inr (n + int (length (x # xs))))) (call_ops h (x # xs) s)"
    by (cases "call_op h x s") simp_all
  finally show ?case .
qed

lemma Iterate_bytes:
  "list_all op_ok xs \<Longrightarrow> length xs < 2 ^ 31 \<Longrightarrow>
   Iterate h (batch_bytes q (length xs) xs) s = map_option (\<lambda>s. (s, OK)) (call_ops h xs s)"
  by (cases "call_ops h xs s") (simp_all add: Iterate_def Iterate_loop_bytes, simp_all add: kHeader_def)

lemma batch_Append_bytes:
  "length xs + length ys < 2 ^ 31 \<Longrightarrow>
   batch_Append (batch_bytes q (length xs) xs) (batch_bytes q' (length ys) ys)
     = Some (batch_bytes q (length (xs @ ys)) (xs @ ys))"
  by (simp add: batch_Append_def add_to_count_bytes) (simp add: kHeader_def batch_bytes_def)

text \<open>C36: a batch gives back what was put into it.  Two batches are filled by \<open>Put\<close> and \<open>Delete\<close> and one is
  appended to the other; then \<open>Iterate\<close> makes exactly these calls, in this order, of whatever
  handler it is given, and ends with an OK status.\<close>

theorem batch_roundtrip:
  assumes "list_all op_ok xs" and "list_all op_ok ys" and "length xs + length ys < 2 ^ 31"
  shows "\<exists>a b rep. add_ops xs WriteBatch_new = Some a \<and> add_ops ys WriteBatch_new = Some b
    \<and> batch_Append a b = Some rep \<and> batch_Count rep = Some (int (length xs + length ys))
    \<and> Iterate h rep s = map_option (\<lambda>s. (s, OK)) (call_ops h (xs @ ys) s)"
proof -
  let ?rep = "batch_bytes 0 (length (xs @ ys)) (xs @ ys)"
  have "add_ops zs WriteBatch_new = Some (batch_bytes 0 (length zs) zs)"
    if "list_all op_ok zs" "length zs < 2 ^ 31" for zs
    using add_ops_bytes [of zs 0 0 "[]"] that by (simp add: WriteBatch_new_bytes)
  then have "add_ops xs WriteBatch_new = Some (batch_bytes 0 (length xs) xs)"
    "add_ops ys WriteBatch_new = Some (batch_bytes 0 (length ys) ys)"
    using assms by simp_all
  moreover have "batch_Append (batch_bytes 0 (length xs) xs) (batch_bytes 0 (length ys) ys) = Some ?rep"
    using assms(3) by (rule batch_Append_bytes)
  moreover have "batch_Count ?rep = Some (int (length xs + length ys))"
    using assms(3) batch_Count_bytes [of "length (xs @ ys)" 0 "xs @ ys"] by simp
  moreover have "Iterate h ?rep s = map_option (\<lambda>s. (s, OK)) (call_ops h (xs @ ys) s)"
    by (rule Iterate_bytes) (use assms in simp_all)
  ultimately show ?thesis by blast
qed

definition collector :: "batch_op list Handler" where
  "collector = \<lparr>handler_Put = (\<lambda>k v s. Some (s @ [Put_op k v])), handler_Delete = (\<lambda>k s. Some (s @ [Delete_op k]))\<rparr>"

theorem batch_roundtrip_witness:
  "\<exists>a b rep. add_ops [Put_op [1] [2]] WriteBatch_new = Some a \<and> add_ops [Delete_op [1]] WriteBatch_new = Some b
    \<and> batch_Append a b = Some rep \<and> batch_Count rep = Some 2
    \<and> Iterate collector rep [] = Some ([Put_op [1] [2], Delete_op [1]], OK)"
  using batch_roundtrip [of "[Put_op [1] [2]]" "[Delete_op [1]]" collector "[]"]
  by (simp add: collector_def)

section \<open>A batch in a memtable\<close>

fun op_version :: "SequenceNumber \<Rightarrow> batch_op \<Rightarrow> version" where
  "op_version q (Put_op k v) = (k, q, kTypeValue, v)"
| "op_version q (Delete_op k) = (k, q, kTypeDeletion, [])"

fun op_versions :: "SequenceNumber \<Rightarrow> batch_op list \<Rightarrow> version list" where
  "op_versions q [] = []"
| "op_versions q (x # xs) = op_version q x # op_versions (q + 1) xs"

lemma call_inserter:
  "call_op (inserter_handler cmp) x ins =
     (case op_version (ins_sequence ins) x of (k, q, t, v) \<Rightarrow> inserter_add cmp t k v ins)"
  by (cases x) (simp_all add: inserter_handler_def)

lemma call_inserters:
  "map_option ins_mem (call_ops (inserter_handler cmp) xs \<lparr>ins_sequence = q, ins_mem = m\<rparr>)
     = MemTable_Adds cmp (op_versions q xs) m"
proof (induction xs arbitrary: q m)
  case (Cons x xs)
  obtain k t v where x: "op_version q x = (k, q, t, v)" by (cases x) auto
  show ?case
    by (cases "MemTable_Add cmp m q t k v") (simp_all add: x call_inserter inserter_add_def Cons.IH)
qed simp

lemma InsertInto_bytes:
  assumes "list_all op_ok xs" and "length xs < 2 ^ 31"
  shows "InsertInto cmp (batch_bytes q (length xs) xs) m
    = map_option (\<lambda>m. (m, OK)) (MemTable_Adds cmp (op_versions q xs) m)"
  unfolding call_inserters [symmetric]
  by (simp add: InsertInto_def Iterate_bytes [OF assms])
    (cases "call_ops (inserter_handler cmp) xs \<lparr>ins_sequence = q, ins_mem = m\<rparr>"; simp)

fun op_key :: "batch_op \<Rightarrow> byte list" where
  "op_key (Put_op k v) = k"
| "op_key (Delete_op k) = k"

lemma next_sequence: "unat q < 2 ^ 56 \<Longrightarrow> unat (q + 1) = unat q + 1" for q :: SequenceNumber
  by (subst unat_add_lem [THEN iffD1]) simp_all

lemma op_versions_ok:
  "list_all op_ok xs \<Longrightarrow> list_all (\<lambda>x. length (op_key x) + 8 < 2 ^ 32 \<and> valid (op_key x)) xs \<Longrightarrow>
   unat q + length xs < 2 ^ 56 \<Longrightarrow> list_all (version_ok valid) (op_versions q xs)"
proof (induction xs arbitrary: q)
  case (Cons x xs)
  have u: "unat (q + 1) = unat q + 1" by (rule next_sequence) (use Cons.prems(3) in simp)
  have "q \<le> kMaxSequenceNumber" using Cons.prems(3) by (simp add: kMaxSequenceNumber_unat)
  then show ?case using Cons.prems Cons.IH [of "q + 1"] u by (cases x) simp_all
qed simp

lemma op_versions_sorted:
  "unat q + length xs < 2 ^ 56 \<Longrightarrow>
   sorted_wrt (\<lambda>e f. version_seq e < version_seq f) (op_versions q xs)
   \<and> (\<forall>e\<in>set (op_versions q xs). q \<le> version_seq e)"
proof (induction xs arbitrary: q)
  case (Cons x xs)
  have u: "unat (q + 1) = unat q + 1" by (rule next_sequence) (use Cons.prems in simp)
  then have q: "q < q + 1" by (simp add: word_less_nat_alt)
  have "version_seq (op_version q x) = q" by (cases x) simp_all
  with q Cons.prems Cons.IH [of "q + 1"] u show ?case by auto
qed simp

text \<open>C3: from the batch to the reader.  A memtable holds older versions; a batch is filled, given a
  sequence number and inserted.  No step fails, the status is OK, and a lookup at any sequence
  number answers with the newest visible of the old versions and the operations of the batch,
  which got consecutive numbers in the order of the calls: in particular a lookup at an older
  number sees none of them, and one at or behind the last number sees the last operation on its key.\<close>

theorem batch_reaches_reader:
  assumes "key_order valid cmp" and "list_all (version_ok valid) es"
    and "sorted_wrt (\<lambda>e f. version_seq e < version_seq f) es" and "\<forall>e\<in>set es. version_seq e < q"
    and "list_all op_ok xs" and "list_all (\<lambda>x. length (op_key x) + 8 < 2 ^ 32 \<and> valid (op_key x)) xs"
    and "length xs < 2 ^ 31" and "unat q + length xs < 2 ^ 56"
    and "valid u" and "length u + 8 < 2 ^ 32" and "s \<le> kMaxSequenceNumber"
  shows "\<exists>m rep m' lk. Option.bind MemTable_new (MemTable_Adds cmp es) = Some m
    \<and> Option.bind (add_ops xs WriteBatch_new) (\<lambda>rep. SetSequence rep q) = Some rep
    \<and> InsertInto cmp rep m = Some (m', OK) \<and> LookupKey_new u s = Some lk
    \<and> MemTable_Get cmp m' lk = Some (answer (newest cmp (es @ op_versions q xs) u s))"
proof -
  obtain m0 where m0: "MemTable_new = Some m0" "mem_holds valid cmp m0 []"
    using MemTable_new_holds by blast
  obtain m where m: "MemTable_Adds cmp es m0 = Some m" "mem_holds valid cmp m es"
    using MemTable_Adds_holds [OF assms(1) m0(2) assms(2)] assms(3) by auto
  have "sorted_wrt (\<lambda>e f. version_seq e < version_seq f) (es @ op_versions q xs)"
    using assms(3,4) op_versions_sorted [OF assms(8)] by (fastforce simp: sorted_wrt_append)
  from MemTable_Adds_holds [OF assms(1) m(2) op_versions_ok [OF assms(5,6,8)] this]
  obtain m' where m': "MemTable_Adds cmp (op_versions q xs) m = Some m'"
    "mem_holds valid cmp m' (es @ op_versions q xs)" by blast
  have "unat s < 2 ^ 56" using assms(11) by (simp add: kMaxSequenceNumber_unat)
  then obtain lk where lk: "LookupKey_new u s = Some lk" using LookupKey_new_bytes assms(10) by blast
  have 1: "Option.bind MemTable_new (MemTable_Adds cmp es) = Some m" unfolding m0(1) bind.simps by (rule m(1))
  have 2: "Option.bind (add_ops xs WriteBatch_new) (\<lambda>rep. SetSequence rep q) = Some (batch_bytes q (length xs) xs)"
    using add_ops_bytes [OF assms(5), of 0 0 "[]"] assms(7) by (simp add: WriteBatch_new_bytes)
  have 3: "InsertInto cmp (batch_bytes q (length xs) xs) m = Some (m', OK)"
    using InsertInto_bytes [OF assms(5,7), of cmp q m] m'(1) by simp
  show ?thesis using 1 2 3 lk MemTable_Get_newest [OF assms(1) m'(2) assms(9,10,11) lk] by blast
qed

theorem batch_reaches_reader_witness:
  "\<exists>m rep m' lk. Option.bind MemTable_new (MemTable_Adds BytewiseCompare [([7], 1, kTypeValue, [10])]) = Some m
    \<and> Option.bind (add_ops [Put_op [7] [11], Put_op [8] [12], Delete_op [7]] WriteBatch_new) (\<lambda>rep. SetSequence rep 5) = Some rep
    \<and> InsertInto BytewiseCompare rep m = Some (m', OK) \<and> LookupKey_new [7] 6 = Some lk
    \<and> MemTable_Get BytewiseCompare m' lk = Some (Found [11])"
  using batch_reaches_reader [OF bytewise_order, of "[([7], 1, kTypeValue, [10])]" 5
      "[Put_op [7] [11], Put_op [8] [12], Delete_op [7]]" "[7]" 6]
  by (simp add: kMaxSequenceNumber_def newest_def visible_def BytewiseCompare_0)

end
