(* ===== verification/Ldb_Fixed_Arrays.thy ===== *)
theory Ldb_Fixed_Arrays
  imports Ldb_Coding "HOL-Library.Monad_Syntax"
begin

text \<open>
  Arrays of four-byte numbers inside a string, as the filter block and the data block have them at
  their end, and reading one of them with a check that it is inside the string.
\<close>

declare One_nat_def [simp del]

definition fixed32_at :: "byte list \<Rightarrow> nat \<Rightarrow> uint32 option" where
  "fixed32_at data p = (if p + 4 \<le> length data then Some (DecodeFixed32 (drop p data)) else None)"

definition put_array :: "byte list \<Rightarrow> uint32 list \<Rightarrow> byte list" where
  "put_array dst xs = foldl PutFixed32 dst xs"

abbreviation array_bytes32 :: "uint32 list \<Rightarrow> byte list" where
  "array_bytes32 xs \<equiv> concat (map (\<lambda>x. le_of_nat 4 (unat x)) xs)"

lemma put_array_bytes: "put_array dst xs = dst @ array_bytes32 xs"
  by (induction xs arbitrary: dst) (simp_all add: put_array_def PutFixed32_def)

lemma length_array_bytes32 [simp]: "length (array_bytes32 xs) = 4 * length xs"
  by (induction xs) simp_all

lemma drop_array_bytes32: "drop (4 * i) (array_bytes32 xs) = array_bytes32 (drop i xs)"
proof (induction xs arbitrary: i)
  case (Cons x xs)
  show ?case
  proof (cases i)
    case (Suc j)
    have "drop (4 * Suc j) (le_of_nat 4 (unat x) @ array_bytes32 xs) = drop (4 * j) (array_bytes32 xs)" by simp
    then show ?thesis using Cons.IH Suc by simp
  qed simp
qed simp

lemma fixed32_at_array:
  assumes "i < length xs" and "p = length pre + 4 * i"
  shows "fixed32_at (pre @ array_bytes32 xs @ post) p = Some (xs ! i)"
proof -
  have "drop p (pre @ array_bytes32 xs @ post) = array_bytes32 (drop i xs) @ post"
    using assms by (simp add: drop_array_bytes32)
  also have "\<dots> = le_of_nat 4 (unat (xs ! i)) @ array_bytes32 (drop (Suc i) xs) @ post"
    using assms(1) by (simp add: Cons_nth_drop_Suc [symmetric])
  finally have "DecodeFixed32 (drop p (pre @ array_bytes32 xs @ post)) = xs ! i"
    by (simp only: DecodeFixed32_le)
  then show ?thesis using assms by (simp add: fixed32_at_def)
qed

end
