(* ===== verification/Ldb_Block.thy ===== *)
theory Ldb_Block
  imports Ldb_Comparator Ldb_Fixed_Arrays Ldb_Status
begin

text \<open>
  Data and index blocks: the builder (\<open>table/block_builder.cc\<close>) and the reader with its iterator
  (\<open>table/block.cc\<close>).  Pointers into a block are offsets; a slice of it is an offset and a length.
  \<open>None\<close> is a failing assertion, a read outside the block or a difference of unrelated pointers;
  in the binary search it is also a loop that does not end.  The comparator is a parameter.
\<close>

declare One_nat_def [simp del]

section \<open>The builder\<close>

record BlockBuilder =
  bb_interval :: int
  bb_buffer :: "byte list"
  bb_restarts :: "uint32 list"
  bb_counter :: int
  bb_finished :: bool
  bb_last_key :: "byte list"

definition BlockBuilder_new :: "int \<Rightarrow> BlockBuilder option" where
  "BlockBuilder_new interval =
     (if 1 \<le> interval
      then Some \<lparr>bb_interval = interval, bb_buffer = [], bb_restarts = [0], bb_counter = 0, bb_finished = False,
                 bb_last_key = []\<rparr>
      else None)"

definition BlockBuilder_Reset :: "BlockBuilder \<Rightarrow> BlockBuilder" where
  "BlockBuilder_Reset b =
     b\<lparr>bb_buffer := [], bb_restarts := [0], bb_counter := 0, bb_finished := False, bb_last_key := []\<rparr>"

definition CurrentSizeEstimate :: "BlockBuilder \<Rightarrow> nat" where
  "CurrentSizeEstimate b = length (bb_buffer b) + length (bb_restarts b) * 4 + 4"

definition BlockBuilder_empty :: "BlockBuilder \<Rightarrow> bool" where
  "BlockBuilder_empty b \<longleftrightarrow> bb_buffer b = []"

definition BlockBuilder_Finish :: "BlockBuilder \<Rightarrow> BlockBuilder" where
  "BlockBuilder_Finish b =
     b\<lparr>bb_buffer := PutFixed32 (put_array (bb_buffer b) (bb_restarts b)) (word_of_nat (length (bb_restarts b))),
       bb_finished := True\<rparr>"

function shared_loop :: "byte list \<Rightarrow> byte list \<Rightarrow> nat \<Rightarrow> nat \<Rightarrow> nat" where
  "shared_loop last_piece key min_length shared =
     (if shared < min_length \<and> last_piece ! shared = key ! shared
      then shared_loop last_piece key min_length (shared + 1) else shared)"
  by auto
termination by (relation "measure (\<lambda>(_, _, m, d). m - d)") auto

declare shared_loop.simps [simp del]

text \<open>How much is shared with the last key, and the builder after the restart when there is one.\<close>

definition share_or_restart :: "BlockBuilder \<Rightarrow> byte list \<Rightarrow> nat \<times> BlockBuilder" where
  "share_or_restart b key =
     (if bb_counter b < bb_interval b
      then (shared_loop (bb_last_key b) key (min (length (bb_last_key b)) (length key)) 0, b)
      else (0, b\<lparr>bb_restarts := bb_restarts b @ [word_of_nat (length (bb_buffer b))], bb_counter := 0\<rparr>))"

definition BlockBuilder_Add :: "(byte list \<Rightarrow> byte list \<Rightarrow> int) \<Rightarrow> byte list \<Rightarrow> byte list \<Rightarrow> BlockBuilder \<Rightarrow>
    BlockBuilder option" where
  "BlockBuilder_Add cmp key value b =
     (if bb_finished b \<or> \<not> bb_counter b \<le> bb_interval b
         \<or> \<not> (bb_buffer b = [] \<or> 0 < cmp key (bb_last_key b)) then None
      else let (shared, b) = share_or_restart b key;
               non_shared = length key - shared;
               buffer = PutVarint32 (bb_buffer b) (word_of_nat shared);
               buffer = PutVarint32 buffer (word_of_nat non_shared);
               buffer = PutVarint32 buffer (word_of_nat (length value));
               buffer = buffer @ drop shared key;
               buffer = buffer @ value;
               last_key = take shared (bb_last_key b) @ drop shared key
           in if last_key \<noteq> key then None
              else Some (b\<lparr>bb_buffer := buffer, bb_last_key := last_key, bb_counter := bb_counter b + 1\<rparr>))"

section \<open>The block\<close>

record Block =
  bl_data :: "byte list"
  bl_size :: nat
  bl_restart_offset :: uint32

definition NumRestarts :: "Block \<Rightarrow> uint32 option" where
  "NumRestarts b = (if 4 \<le> bl_size b then fixed32_at (bl_data b) (bl_size b - 4) else None)"

definition Block_new :: "byte list \<Rightarrow> Block option" where
  "Block_new contents =
     (let b = \<lparr>bl_data = contents, bl_size = length contents, bl_restart_offset = 0\<rparr> in
      if bl_size b < 4 then Some (b\<lparr>bl_size := 0\<rparr>)
      else let max_restarts_allowed = (bl_size b - 4) div 4 in do {
        n \<leftarrow> NumRestarts b;
        Some (if max_restarts_allowed < unat n then b\<lparr>bl_size := 0\<rparr>
              else b\<lparr>bl_restart_offset := word_of_nat (bl_size b - unat (1 + n) * 4)\<rparr>) })"

text \<open>\<open>DecodeEntry\<close>: the three lengths of the entry that starts the bytes, and what is behind them; then
  with the position behind them, unless it returns the null pointer.\<close>

definition entry_lengths :: "byte list \<Rightarrow> (uint32 \<times> uint32 \<times> uint32 \<times> byte list) option" where
  "entry_lengths q =
     (if length q < 3 then None
      else let shared = ucast (q ! 0) :: uint32;
               non_shared = ucast (q ! 1) :: uint32;
               value_length = ucast (q ! 2) :: uint32
           in if (shared OR non_shared OR value_length) < 128
              then Some (shared, non_shared, value_length, drop 3 q)
              else do {
                (shared, q) \<leftarrow> GetVarint32Ptr q;
                (non_shared, q) \<leftarrow> GetVarint32Ptr q;
                (value_length, q) \<leftarrow> GetVarint32Ptr q;
                Some (shared, non_shared, value_length, q) })"

definition DecodeEntry :: "byte list \<Rightarrow> nat \<Rightarrow> nat \<Rightarrow> (uint32 \<times> uint32 \<times> uint32 \<times> nat) option" where
  "DecodeEntry data p limit = do {
     (shared, non_shared, value_length, q) \<leftarrow> entry_lengths (drop p (take limit data));
     (if word_of_nat (length q) < non_shared + value_length then None
      else Some (shared, non_shared, value_length, limit - length q)) }"

section \<open>The iterator\<close>

text \<open>\<open>value_\<close> is an offset and a length, or \<open>None\<close> when it points to the empty literal.\<close>

record block_iter =
  bi_data :: "byte list"
  bi_restarts :: uint32
  bi_num_restarts :: uint32
  bi_current :: nat
  bi_restart_index :: nat
  bi_key :: "byte list"
  bi_value :: "(nat \<times> nat) option"
  bi_status :: Status

definition NextEntryOffset :: "block_iter \<Rightarrow> nat option" where
  "NextEntryOffset it = map_option (\<lambda>(p, n). (p + n) mod 2 ^ 32) (bi_value it)"

definition GetRestartPoint :: "block_iter \<Rightarrow> nat \<Rightarrow> nat option" where
  "GetRestartPoint it index =
     (if index < unat (bi_num_restarts it)
      then map_option unat (fixed32_at (bi_data it) (unat (bi_restarts it) + index * 4)) else None)"

definition SeekToRestartPoint :: "nat \<Rightarrow> block_iter \<Rightarrow> block_iter option" where
  "SeekToRestartPoint index it = do {
     offset \<leftarrow> GetRestartPoint it index;
     Some (it\<lparr>bi_key := [], bi_restart_index := index, bi_value := Some (offset, 0)\<rparr>) }"

definition block_iter_new :: "byte list \<Rightarrow> uint32 \<Rightarrow> uint32 \<Rightarrow> block_iter option" where
  "block_iter_new data restarts num_restarts =
     (if 0 < num_restarts
      then Some \<lparr>bi_data = data, bi_restarts = restarts, bi_num_restarts = num_restarts, bi_current = unat restarts,
                 bi_restart_index = unat num_restarts, bi_key = [], bi_value = None, bi_status = OK\<rparr>
      else None)"

definition block_Valid :: "block_iter \<Rightarrow> bool" where
  "block_Valid it \<longleftrightarrow> bi_current it < unat (bi_restarts it)"

definition block_status :: "block_iter \<Rightarrow> Status" where
  "block_status it = bi_status it"

definition block_key :: "block_iter \<Rightarrow> byte list option" where
  "block_key it = (if block_Valid it then Some (bi_key it) else None)"

text \<open>The bytes of the slice \<open>value ()\<close>, when they are all in the block.\<close>

definition block_value :: "block_iter \<Rightarrow> byte list option" where
  "block_value it =
     (if block_Valid it
      then do { (p, n) \<leftarrow> bi_value it; (if p + n \<le> length (bi_data it) then Some (take n (drop p (bi_data it))) else None) }
      else None)"

definition CorruptionError :: "block_iter \<Rightarrow> block_iter" where
  "CorruptionError it =
     it\<lparr>bi_current := unat (bi_restarts it), bi_restart_index := unat (bi_num_restarts it),
        bi_status := Corruption (str ''bad entry in block'') [], bi_key := [], bi_value := None\<rparr>"

function advance_restart :: "block_iter \<Rightarrow> nat \<Rightarrow> nat option" where
  "advance_restart it index =
     (if index + 1 < unat (bi_num_restarts it)
      then Option.bind (GetRestartPoint it (index + 1))
        (\<lambda>p. if p < bi_current it then advance_restart it (index + 1) else Some index)
      else Some index)"
  by auto
termination by (relation "measure (\<lambda>(it, i). unat (bi_num_restarts it) - i)") auto

declare advance_restart.simps [simp del]

definition ParseNextKey :: "block_iter \<Rightarrow> (bool \<times> block_iter) option" where
  "ParseNextKey it = do {
     current \<leftarrow> NextEntryOffset it;
     (let it = it\<lparr>bi_current := current\<rparr> in
      if unat (bi_restarts it) \<le> current
      then Some (False, it\<lparr>bi_current := unat (bi_restarts it), bi_restart_index := unat (bi_num_restarts it)\<rparr>)
      else case DecodeEntry (bi_data it) current (unat (bi_restarts it)) of
          None \<Rightarrow> Some (False, CorruptionError it)
        | Some (shared, non_shared, value_length, p) \<Rightarrow>
            if length (bi_key it) < unat shared then Some (False, CorruptionError it)
            else if \<not> p + unat non_shared \<le> length (bi_data it) then None
            else let it = it\<lparr>bi_key := take (unat shared) (bi_key it) @ take (unat non_shared) (drop p (bi_data it)),
                             bi_value := Some (p + unat non_shared, unat value_length)\<rparr> in do {
              index \<leftarrow> advance_restart it (bi_restart_index it);
              Some (True, it\<lparr>bi_restart_index := index\<rparr>) }) }"

definition block_Next :: "block_iter \<Rightarrow> block_iter option" where
  "block_Next it = (if block_Valid it then map_option snd (ParseNextKey it) else None)"

definition block_SeekToFirst :: "block_iter \<Rightarrow> block_iter option" where
  "block_SeekToFirst it = do { it \<leftarrow> SeekToRestartPoint 0 it; map_option snd (ParseNextKey it) }"

text \<open>Parsing makes progress, whatever the block holds.\<close>

lemma varint_ptr_shorter: "GetVarint32Ptr q = Some (v, rest) \<Longrightarrow> length rest < length q"
  using varint_bytes.simps(1) by (fastforce simp: GetVarint32_eq [symmetric] GetVarint32_iff)

lemma entry_lengths_shorter: "entry_lengths q = Some (s, n, v, rest) \<Longrightarrow> length rest < length q"
  by (auto simp: entry_lengths_def Let_def bind_eq_Some_conv split: if_splits dest!: varint_ptr_shorter)

lemma DecodeEntry_progress:
  assumes "DecodeEntry data p limit = Some (shared, non_shared, value_length, r)" and "limit < 2 ^ 32"
  shows "p < r \<and> r + unat (non_shared + value_length) \<le> limit"
proof -
  obtain q where q: "entry_lengths (drop p (take limit data)) = Some (shared, non_shared, value_length, q)"
    "\<not> word_of_nat (length q) < non_shared + value_length" "r = limit - length q"
    using assms(1) by (auto simp: DecodeEntry_def bind_eq_Some_conv split: if_splits)
  have l: "length q < limit - p" using entry_lengths_shorter [OF q(1)] by simp
  then have "unat (word_of_nat (length q) :: uint32) = length q"
    using assms(2) by (simp only: unat_of_nat) simp
  then have "unat (non_shared + value_length) \<le> length q" using q(2) by (simp only: word_less_nat_alt not_less)
  with l q(3) show ?thesis by linarith
qed

lemma ParseNextKey_progress:
  assumes "ParseNextKey it = Some (True, it')"
  shows "bi_restarts it' = bi_restarts it"
    and "\<exists>n n'. NextEntryOffset it = Some n \<and> NextEntryOffset it' = Some n' \<and> n < n' \<and> n' \<le> unat (bi_restarts it)"
proof -
  obtain n where n: "NextEntryOffset it = Some n" using assms by (cases "NextEntryOffset it") (simp_all add: ParseNextKey_def)
  obtain s ns v p where d: "DecodeEntry (bi_data it) n (unat (bi_restarts it)) = Some (s, ns, v, p)"
    using assms n by (cases "DecodeEntry (bi_data it) n (unat (bi_restarts it))")
      (auto simp: ParseNextKey_def Let_def split: if_splits)
  have it': "bi_restarts it' = bi_restarts it" "bi_value it' = Some (p + unat ns, unat v)"
    using assms n d by (auto simp: ParseNextKey_def Let_def bind_eq_Some_conv split: if_splits)
  have r: "unat (bi_restarts it) < 2 ^ 32" using unsigned_less [where ?'a = nat, of "bi_restarts it"] by simp
  have p: "n < p" "p + unat (ns + v) \<le> unat (bi_restarts it)" using DecodeEntry_progress [OF d r] by simp_all
  have "(p + unat ns + unat v) mod 2 ^ 32 = p + unat (ns + v)"
  proof -
    have "(p + unat ns + unat v) mod 2 ^ 32 = (p + (unat ns + unat v) mod 2 ^ 32) mod 2 ^ 32"
      by (simp add: mod_simps ac_simps)
    also have "(unat ns + unat v) mod 2 ^ 32 = unat (ns + v)" by (simp add: unat_word_ariths)
    also have "(p + unat (ns + v)) mod 2 ^ 32 = p + unat (ns + v)" using p(2) r by (intro mod_less) linarith
    finally show ?thesis .
  qed
  then have "NextEntryOffset it' = Some (p + unat (ns + v))" using it'(2) by (simp add: NextEntryOffset_def)
  with n p it' show "bi_restarts it' = bi_restarts it"
    "\<exists>n n'. NextEntryOffset it = Some n \<and> NextEntryOffset it' = Some n' \<and> n < n' \<and> n' \<le> unat (bi_restarts it)"
    by auto
qed

definition parse_left :: "block_iter \<Rightarrow> nat" where
  "parse_left it = (case NextEntryOffset it of None \<Rightarrow> 0 | Some n \<Rightarrow> unat (bi_restarts it) - n)"

lemma ParseNextKey_left: "ParseNextKey it = Some (True, it') \<Longrightarrow> parse_left it' < parse_left it"
  using ParseNextKey_progress [of it it'] by (auto simp: parse_left_def)

text \<open>The two loops that parse on: until the end of an entry reaches a bound, and until a key is not before
  the target.\<close>

function parse_until :: "nat \<Rightarrow> block_iter \<Rightarrow> block_iter option" where
  "parse_until bound it =
     (case ParseNextKey it of
        None \<Rightarrow> None
      | Some (False, it) \<Rightarrow> Some it
      | Some (True, it) \<Rightarrow> (case NextEntryOffset it of
            None \<Rightarrow> None
          | Some n \<Rightarrow> if n < bound then parse_until bound it else Some it))"
  by pat_completeness auto
termination by (relation "measure (parse_left \<circ> snd)") (simp_all add: ParseNextKey_left)

function seek_linear :: "(byte list \<Rightarrow> byte list \<Rightarrow> int) \<Rightarrow> byte list \<Rightarrow> block_iter \<Rightarrow> block_iter option" where
  "seek_linear cmp target it =
     (case ParseNextKey it of
        None \<Rightarrow> None
      | Some (False, it) \<Rightarrow> Some it
      | Some (True, it) \<Rightarrow> if 0 \<le> cmp (bi_key it) target then Some it else seek_linear cmp target it)"
  by pat_completeness auto
termination by (relation "measure (parse_left \<circ> snd \<circ> snd)") (simp_all add: ParseNextKey_left)

declare parse_until.simps [simp del] seek_linear.simps [simp del]

definition block_SeekToLast :: "block_iter \<Rightarrow> block_iter option" where
  "block_SeekToLast it = do {
     it \<leftarrow> SeekToRestartPoint (unat (bi_num_restarts it - 1)) it;
     parse_until (unat (bi_restarts it)) it }"

text \<open>The scan back to a restart point: \<open>Some None\<close> when there are no more entries.\<close>

fun prev_scan :: "block_iter \<Rightarrow> nat \<Rightarrow> nat \<Rightarrow> nat option option" where
  "prev_scan it original 0 = do {
     p \<leftarrow> GetRestartPoint it 0;
     Some (if original \<le> p then None else Some 0) }"
| "prev_scan it original (Suc index) = do {
     p \<leftarrow> GetRestartPoint it (Suc index);
     (if original \<le> p then prev_scan it original index else Some (Some (Suc index))) }"

definition block_Prev :: "block_iter \<Rightarrow> block_iter option" where
  "block_Prev it =
     (if block_Valid it
      then let original = bi_current it in do {
        r \<leftarrow> prev_scan it original (bi_restart_index it);
        (case r of
           None \<Rightarrow> Some (it\<lparr>bi_current := unat (bi_restarts it), bi_restart_index := unat (bi_num_restarts it)\<rparr>)
         | Some index \<Rightarrow> do {
             it \<leftarrow> SeekToRestartPoint index it;
             parse_until original it }) }
      else None)"

text \<open>The binary search over the restart points: \<open>Some None\<close> when an entry there is bad.\<close>

definition restart_mid :: "nat \<Rightarrow> nat \<Rightarrow> nat" where
  "restart_mid left right = (left + right + 1) mod 2 ^ 32 div 2"

definition restart_below :: "nat \<Rightarrow> nat" where
  "restart_below mid = (mid + (2 ^ 32 - 1)) mod 2 ^ 32"

definition restart_probe :: "(byte list \<Rightarrow> byte list \<Rightarrow> int) \<Rightarrow> byte list \<Rightarrow> block_iter \<Rightarrow> nat \<Rightarrow> int option option" where
  "restart_probe cmp target it mid = do {
     region_offset \<leftarrow> GetRestartPoint it mid;
     (case DecodeEntry (bi_data it) region_offset (unat (bi_restarts it)) of
        None \<Rightarrow> Some None
      | Some (shared, non_shared, value_length, key_ptr) \<Rightarrow>
          if shared \<noteq> 0 then Some None
          else if \<not> key_ptr + unat non_shared \<le> length (bi_data it) then None
          else Some (Some (cmp (take (unat non_shared) (drop key_ptr (bi_data it))) target))) }"

partial_function (option) restart_search :: "(byte list \<Rightarrow> byte list \<Rightarrow> int) \<Rightarrow> byte list \<Rightarrow> block_iter \<Rightarrow> nat \<Rightarrow> nat \<Rightarrow>
    nat option option" where
  "restart_search cmp target it left right =
     (if left < right
      then Option.bind (restart_probe cmp target it (restart_mid left right)) (\<lambda>r.
        case r of
          None \<Rightarrow> Some None
        | Some c \<Rightarrow>
            if c < 0 then restart_search cmp target it (restart_mid left right) right
            else restart_search cmp target it left (restart_below (restart_mid left right)))
      else Some (Some left))"

definition block_Seek :: "(byte list \<Rightarrow> byte list \<Rightarrow> int) \<Rightarrow> byte list \<Rightarrow> block_iter \<Rightarrow> block_iter option" where
  "block_Seek cmp target it = do {
     r \<leftarrow> restart_search cmp target it 0 (unat (bi_num_restarts it - 1));
     (case r of
        None \<Rightarrow> Some (CorruptionError it)
      | Some left \<Rightarrow> do {
          it \<leftarrow> SeekToRestartPoint left it;
          seek_linear cmp target it }) }"

datatype any_iter = Error_iter Status | Empty_iter | Block_iter block_iter

definition Block_NewIterator :: "Block \<Rightarrow> any_iter option" where
  "Block_NewIterator b =
     (if bl_size b < 4 then Some (Error_iter (Corruption (str ''bad block contents'') []))
      else do {
        num_restarts \<leftarrow> NumRestarts b;
        (if num_restarts = 0 then Some Empty_iter
         else map_option Block_iter (block_iter_new (bl_data b) (bl_restart_offset b) num_restarts)) })"

end
