(* ===== verification/Ldb_Block_Props.thy ===== *)
theory Ldb_Block_Props
  imports Ldb_Block
begin

text \<open>
  The layout of a block: where its entries and restart points are and what decoding them gives; then
  what every operation of the iterator does on a block that is laid out like that.
\<close>

declare One_nat_def [simp del]

type_synonym entry = "byte list \<times> byte list"

section \<open>The layout\<close>

text \<open>Entry \<open>j\<close> shares its first \<open>s\<close> bytes with the key before it.\<close>

definition shares :: "entry list \<Rightarrow> nat list \<Rightarrow> nat \<Rightarrow> nat \<Rightarrow> bool" where
  "shares es idx j s \<longleftrightarrow> s \<le> length (fst (es ! j)) \<and> (j \<in> set idx \<longrightarrow> s = 0)
     \<and> (if j = 0 then s = 0 else s \<le> length (fst (es ! (j - 1))) \<and> take s (fst (es ! (j - 1))) = take s (fst (es ! j)))"

definition entry_at :: "byte list \<Rightarrow> nat \<Rightarrow> (nat \<Rightarrow> nat) \<Rightarrow> entry list \<Rightarrow> nat list \<Rightarrow> nat \<Rightarrow> bool" where
  "entry_at data R off es idx j \<longleftrightarrow>
     (\<exists>s ns v p. DecodeEntry data (off j) R = Some (s, ns, v, p) \<and> p + unat ns + unat v = off (Suc j)
        \<and> take (unat ns) (drop p data) = drop (unat s) (fst (es ! j)) \<and> take (unat v) (drop (p + unat ns) data) = snd (es ! j)
        \<and> shares es idx j (unat s))"

definition laid_out :: "byte list \<Rightarrow> nat \<Rightarrow> nat \<Rightarrow> entry list \<Rightarrow> (nat \<Rightarrow> nat) \<Rightarrow> nat list \<Rightarrow> bool" where
  "laid_out data R num es off idx \<longleftrightarrow>
     R \<le> length data \<and> length data < 2 ^ 32 \<and> off 0 = 0 \<and> off (length es) = R
     \<and> (\<forall>j<length es. off j < off (Suc j) \<and> entry_at data R off es idx j)
     \<and> length idx = num \<and> 0 < num \<and> idx ! 0 = 0 \<and> sorted_wrt (<) idx \<and> (\<forall>i\<in>set idx. i < max 1 (length es))
     \<and> (\<forall>r<num. fixed32_at data (R + r * 4) = Some (word_of_nat (off (idx ! r))))"

lemma laid_outD:
  assumes "laid_out data R num es off idx"
  shows "R \<le> length data" "length data < 2 ^ 32" "off 0 = 0" "off (length es) = R"
    "\<And>j. j < length es \<Longrightarrow> off j < off (Suc j)" "\<And>j. j < length es \<Longrightarrow> entry_at data R off es idx j"
    "length idx = num" "0 < num" "idx ! 0 = 0" "sorted_wrt (<) idx"
    "\<And>r. r < num \<Longrightarrow> idx ! r < max 1 (length es)"
    "\<And>r. r < num \<Longrightarrow> fixed32_at data (R + r * 4) = Some (word_of_nat (off (idx ! r)))"
  using assms by (auto simp: laid_out_def)

lemma off_less:
  assumes lay: "laid_out data R num es off idx" and "i < j" and "j \<le> length es"
  shows "off i < off j"
  using assms(2,3)
proof (induction j)
  case (Suc j)
  have "off j < off (Suc j)" using laid_outD(5) [OF lay] Suc.prems by simp
  moreover have "off i \<le> off j" using Suc by (cases "i = j") auto
  ultimately show ?case by simp
qed simp

lemma off_less_iff:
  "laid_out data R num es off idx \<Longrightarrow> i \<le> length es \<Longrightarrow> j \<le> length es \<Longrightarrow> off i < off j \<longleftrightarrow> i < j"
  using off_less [of data R num es off idx i j] off_less [of data R num es off idx j i]
  by (cases i j rule: linorder_cases) auto

lemma off_le_R: "laid_out data R num es off idx \<Longrightarrow> j \<le> length es \<Longrightarrow> off j \<le> R"
  using off_less [of data R num es off idx j "length es"] laid_outD(4) [of data R num es off idx]
  by (cases "j = length es") auto

lemma R_small: "laid_out data R num es off idx \<Longrightarrow> R < 2 ^ 32"
  using laid_outD(1,2) [of data R num es off idx] by simp

lemma num_small: "laid_out data R num es off idx \<Longrightarrow> num < 2 ^ 30"
proof -
  assume lay: "laid_out data R num es off idx"
  have "num - 1 < num" using laid_outD(8) [OF lay] by simp
  from laid_outD(12) [OF lay this] have "R + (num - 1) * 4 + 4 \<le> length data"
    by (simp add: fixed32_at_def split: if_splits)
  then show ?thesis using laid_outD(2,8) [OF lay] by simp
qed

lemma idx_le: "laid_out data R num es off idx \<Longrightarrow> r < num \<Longrightarrow> idx ! r \<le> length es"
  using laid_outD(11) [of data R num es off idx r] laid_outD(9) [of data R num es off idx]
  by (cases "es = []") (auto simp: max_def split: if_splits)

section \<open>The iterator on a block that is laid out\<close>

definition over :: "byte list \<Rightarrow> nat \<Rightarrow> nat \<Rightarrow> Status \<Rightarrow> block_iter \<Rightarrow> bool" where
  "over data R num st it \<longleftrightarrow>
     bi_data it = data \<and> unat (bi_restarts it) = R \<and> unat (bi_num_restarts it) = num \<and> bi_status it = st"

text \<open>At entry \<open>j\<close>; about to parse entry \<open>j\<close>; behind the last entry.\<close>

definition at :: "byte list \<Rightarrow> nat \<Rightarrow> nat \<Rightarrow> Status \<Rightarrow> entry list \<Rightarrow> (nat \<Rightarrow> nat) \<Rightarrow> nat list \<Rightarrow> nat \<Rightarrow> block_iter \<Rightarrow> bool" where
  "at data R num st es off idx j it \<longleftrightarrow>
     over data R num st it \<and> j < length es \<and> bi_current it = off j \<and> bi_key it = fst (es ! j)
     \<and> (\<exists>p v. bi_value it = Some (p, v) \<and> p + v = off (Suc j) \<and> take v (drop p data) = snd (es ! j))
     \<and> bi_restart_index it < num \<and> idx ! bi_restart_index it \<le> j"

definition about :: "byte list \<Rightarrow> nat \<Rightarrow> nat \<Rightarrow> Status \<Rightarrow> entry list \<Rightarrow> (nat \<Rightarrow> nat) \<Rightarrow> nat list \<Rightarrow> nat \<Rightarrow> block_iter \<Rightarrow> bool" where
  "about data R num st es off idx j it \<longleftrightarrow>
     over data R num st it \<and> j \<le> length es \<and> NextEntryOffset it = Some (off j)
     \<and> (j \<in> set idx \<or> 0 < j \<and> bi_key it = fst (es ! (j - 1)))
     \<and> bi_restart_index it < num \<and> idx ! bi_restart_index it \<le> j"

definition done_with :: "byte list \<Rightarrow> nat \<Rightarrow> nat \<Rightarrow> Status \<Rightarrow> block_iter \<Rightarrow> bool" where
  "done_with data R num st it \<longleftrightarrow> over data R num st it \<and> bi_current it = R"

lemma GetRestartPoint_laid:
  assumes lay: "laid_out data R num es off idx" and "over data R num st it" and "r < num"
  shows "GetRestartPoint it r = Some (off (idx ! r))"
proof -
  have "off (idx ! r) < 2 ^ 32"
    using off_le_R [OF lay idx_le [OF lay assms(3)]] R_small [OF lay] by simp
  then have "unat (word_of_nat (off (idx ! r)) :: uint32) = off (idx ! r)" by (simp only: unat_of_nat) simp
  then show ?thesis using laid_outD(12) [OF lay assms(3)] assms(2,3)
    by (simp add: GetRestartPoint_def over_def)
qed

lemma SeekToRestartPoint_laid:
  assumes lay: "laid_out data R num es off idx" and it: "over data R num st it" and r: "r < num"
  shows "\<exists>it'. SeekToRestartPoint r it = Some it' \<and> about data R num st es off idx (idx ! r) it'"
proof -
  have "off (idx ! r) < 2 ^ 32"
    using off_le_R [OF lay idx_le [OF lay r]] R_small [OF lay] by simp
  then show ?thesis
    using GetRestartPoint_laid [OF lay it r] it r idx_le [OF lay r] laid_outD(7) [OF lay]
    by (auto simp: SeekToRestartPoint_def about_def over_def NextEntryOffset_def)
qed

lemma advance_restart_laid:
  assumes lay: "laid_out data R num es off idx" and it: "over data R num st it" and j: "bi_current it = off j" "j < length es"
  shows "r < num \<Longrightarrow> idx ! r \<le> j \<Longrightarrow> \<exists>r'. advance_restart it r = Some r' \<and> r' < num \<and> idx ! r' \<le> j"
proof (induction "num - r" arbitrary: r)
  case (Suc n)
  have num: "unat (bi_num_restarts it) = num" using it by (simp add: over_def)
  show ?case
  proof (cases "r + 1 < num")
    case True
    then have g: "GetRestartPoint it (r + 1) = Some (off (idx ! (r + 1)))" by (rule GetRestartPoint_laid [OF lay it])
    show ?thesis
    proof (cases "off (idx ! (r + 1)) < off j")
      case less: True
      then have "idx ! (r + 1) < j" using off_less_iff [OF lay idx_le [OF lay True], of j] j(2) by simp
      then have "\<exists>r'. advance_restart it (r + 1) = Some r' \<and> r' < num \<and> idx ! r' \<le> j"
        using Suc.hyps True by simp
      then show ?thesis using True g less num j(1) by (simp add: advance_restart.simps [of it r])
    next
      case False
      then show ?thesis using True g num j(1) Suc.prems by (simp add: advance_restart.simps [of it r])
    qed
  next
    case False
    then show ?thesis using num Suc.prems by (simp add: advance_restart.simps [of it r])
  qed
qed simp

lemma ParseNextKey_laid:
  assumes lay: "laid_out data R num es off idx" and it: "about data R num st es off idx j it"
  shows "if j < length es then \<exists>it'. ParseNextKey it = Some (True, it') \<and> at data R num st es off idx j it'
    else \<exists>it'. ParseNextKey it = Some (False, it') \<and> done_with data R num st it'"
proof (cases "j < length es")
  case False
  then have "off j = R" using it laid_outD(4) [OF lay] by (auto simp: about_def)
  then show ?thesis using False it
    by (auto simp: about_def over_def ParseNextKey_def Let_def done_with_def)
next
  case True
  have ov: "over data R num st it" and off: "NextEntryOffset it = Some (off j)" and ri: "bi_restart_index it < num"
      "idx ! bi_restart_index it \<le> j" and key: "j \<in> set idx \<or> 0 < j \<and> bi_key it = fst (es ! (j - 1))"
    using it by (auto simp: about_def)
  obtain s ns v p where d: "DecodeEntry data (off j) R = Some (s, ns, v, p)" "p + unat ns + unat v = off (Suc j)"
    "take (unat ns) (drop p data) = drop (unat s) (fst (es ! j))" "take (unat v) (drop (p + unat ns) data) = snd (es ! j)"
    "shares es idx j (unat s)" using laid_outD(6) [OF lay True] by (auto simp: entry_at_def)
  have offR: "off j < R" using off_less [OF lay True] laid_outD(4) [OF lay] by simp
  have sR: "off (Suc j) \<le> R" using off_le_R [OF lay] True by simp
  have pfx: "unat s \<le> length (bi_key it) \<and> take (unat s) (bi_key it) @ drop (unat s) (fst (es ! j)) = fst (es ! j)"
    using key d(5) by (cases "j = 0") (auto simp: shares_def)
  let ?it = "it\<lparr>bi_current := off j, bi_key := fst (es ! j), bi_value := Some (p + unat ns, unat v)\<rparr>"
  have "over data R num st ?it" "bi_current ?it = off j" using ov by (simp_all add: over_def)
  from advance_restart_laid [OF lay this True ri]
  obtain r where r: "advance_restart ?it (bi_restart_index it) = Some r" "r < num" "idx ! r \<le> j" by blast
  have "p + unat ns \<le> length data" using d(2) sR laid_outD(1) [OF lay] by simp
  then have "ParseNextKey it = Some (True, ?it\<lparr>bi_restart_index := r\<rparr>)"
    using ov off offR d(1,3) pfx r(1) by (simp add: ParseNextKey_def Let_def over_def)
  moreover have "at data R num st es off idx j (?it\<lparr>bi_restart_index := r\<rparr>)"
    using ov True d(2,4) r by (simp add: at_def over_def)
  ultimately show ?thesis using True by auto
qed

lemma at_about:
  assumes lay: "laid_out data R num es off idx" and "at data R num st es off idx j it"
  shows "about data R num st es off idx (Suc j) it" and "NextEntryOffset it = Some (off (Suc j))" and "block_Valid it"
    and "over data R num st it"
proof -
  have j: "j < length es" using assms(2) by (simp add: at_def)
  have "off (Suc j) < 2 ^ 32" using off_le_R [OF lay, of "Suc j"] j R_small [OF lay] by simp
  then show n: "NextEntryOffset it = Some (off (Suc j))" using assms(2) by (auto simp: at_def NextEntryOffset_def)
  show "about data R num st es off idx (Suc j) it" using assms(2) n by (auto simp: at_def about_def)
  show "block_Valid it" "over data R num st it"
    using assms(2) off_less [OF lay j] laid_outD(4) [OF lay] by (simp_all add: at_def over_def block_Valid_def)
qed

lemma block_Next_laid:
  assumes lay: "laid_out data R num es off idx" and it: "at data R num st es off idx j it"
  shows "if Suc j < length es then \<exists>it'. block_Next it = Some it' \<and> at data R num st es off idx (Suc j) it'
    else \<exists>it'. block_Next it = Some it' \<and> done_with data R num st it'"
  using ParseNextKey_laid [OF lay at_about(1) [OF lay it]] at_about(3) [OF lay it]
  by (auto simp: block_Next_def ex_bool_eq)

lemma block_SeekToFirst_laid:
  assumes lay: "laid_out data R num es off idx" and it: "over data R num st it"
  shows "if es \<noteq> [] then \<exists>it'. block_SeekToFirst it = Some it' \<and> at data R num st es off idx 0 it'
    else \<exists>it'. block_SeekToFirst it = Some it' \<and> done_with data R num st it'"
proof -
  obtain it1 where "SeekToRestartPoint 0 it = Some it1" "about data R num st es off idx 0 it1"
    using SeekToRestartPoint_laid [OF lay it laid_outD(8) [OF lay]] laid_outD(9) [OF lay] by auto
  then show ?thesis using ParseNextKey_laid [OF lay, of st 0 it1] by (auto simp: block_SeekToFirst_def ex_bool_eq)
qed

lemma parse_until_laid:
  assumes lay: "laid_out data R num es off idx"
  shows "about data R num st es off idx j it \<Longrightarrow> j < k \<Longrightarrow> k \<le> length es \<Longrightarrow>
    \<exists>it'. parse_until (off k) it = Some it' \<and> at data R num st es off idx (k - 1) it'"
proof (induction "k - j" arbitrary: j it)
  case (Suc n)
  obtain it1 where it1: "ParseNextKey it = Some (True, it1)" "at data R num st es off idx j it1"
    using ParseNextKey_laid [OF lay Suc.prems(1)] Suc.prems(2,3) by auto
  note next1 = at_about(2) [OF lay it1(2)]
  show ?case
  proof (cases "Suc j < k")
    case True
    then have "off (Suc j) < off k" using off_less [OF lay] Suc.prems(3) by simp
    moreover have "n = k - Suc j" using Suc.hyps(2) by simp
    ultimately show ?thesis
      using Suc.hyps(1) [OF _ at_about(1) [OF lay it1(2)] True Suc.prems(3)] it1(1) next1
      by (simp add: parse_until.simps [of "off k" it])
  next
    case False
    then have "Suc j = k" "k - 1 = j" using Suc.prems(2) by simp_all
    then show ?thesis using it1 next1 by (simp add: parse_until.simps [of "off k" it])
  qed
qed simp

lemma block_SeekToLast_laid:
  assumes lay: "laid_out data R num es off idx" and it: "over data R num st it"
  shows "if es \<noteq> [] then \<exists>it'. block_SeekToLast it = Some it' \<and> at data R num st es off idx (length es - 1) it'
    else \<exists>it'. block_SeekToLast it = Some it' \<and> done_with data R num st it'"
proof -
  have num: "0 < num" "unat (bi_num_restarts it) = num" using laid_outD(8) [OF lay] it by (simp_all add: over_def)
  then have "unat (bi_num_restarts it - 1) = num - 1"
    by (metis unat_minus_one unat_0 less_irrefl)
  moreover obtain it1 where it1: "SeekToRestartPoint (num - 1) it = Some it1"
    "about data R num st es off idx (idx ! (num - 1)) it1"
    using SeekToRestartPoint_laid [OF lay it, of "num - 1"] num(1) by auto
  moreover have "unat (bi_restarts it) = off (length es)" using it laid_outD(4) [OF lay] by (simp add: over_def)
  moreover have "unat (bi_restarts it1) = off (length es)"
    using it1(2) laid_outD(4) [OF lay] by (simp add: over_def about_def)
  ultimately have last: "block_SeekToLast it = parse_until (off (length es)) it1"
    by (simp add: block_SeekToLast_def)
  show ?thesis
  proof (cases "es = []")
    case False
    then have "idx ! (num - 1) < length es" using laid_outD(11) [OF lay, of "num - 1"] num(1) by (simp add: max_def split: if_splits)
    from parse_until_laid [OF lay it1(2) this order_refl] False last show ?thesis by simp
  next
    case True
    then have "idx ! (num - 1) = 0" using idx_le [OF lay, of "num - 1"] num(1) by simp
    then show ?thesis using ParseNextKey_laid [OF lay it1(2)] True last
      by (auto simp: parse_until.simps [of _ it1])
  qed
qed

lemma prev_scan_laid:
  assumes lay: "laid_out data R num es off idx" and it: "over data R num st it" and j: "j < length es"
  shows "r < num \<Longrightarrow> if j = 0 then prev_scan it (off j) r = Some None
    else \<exists>r'. prev_scan it (off j) r = Some (Some r') \<and> r' < num \<and> idx ! r' < j"
proof (induction r)
  case 0
  have "off j \<le> off (idx ! 0) \<longleftrightarrow> j = 0"
    using off_less_iff [OF lay, of 0 j] j laid_outD(9) [OF lay] by (simp add: not_less [symmetric])
  then show ?case using GetRestartPoint_laid [OF lay it 0] 0 laid_outD(9) [OF lay] by auto
next
  case (Suc r)
  have "off j \<le> off (idx ! Suc r) \<longleftrightarrow> j \<le> idx ! Suc r"
    using off_less_iff [OF lay idx_le [OF lay Suc.prems], of j] j by (simp add: not_less [symmetric])
  then show ?case using GetRestartPoint_laid [OF lay it Suc.prems] Suc by (cases "j = 0") auto
qed

lemma block_Prev_laid:
  assumes lay: "laid_out data R num es off idx" and it: "at data R num st es off idx j it"
  shows "if j = 0 then \<exists>it'. block_Prev it = Some it' \<and> done_with data R num st it'
    else \<exists>it'. block_Prev it = Some it' \<and> at data R num st es off idx (j - 1) it'"
proof -
  have j: "j < length es" "bi_current it = off j" "bi_restart_index it < num" using it by (simp_all add: at_def)
  note ov = at_about(4) [OF lay it] and valid = at_about(3) [OF lay it]
  note scan = prev_scan_laid [OF lay ov j(1) j(3)]
  show ?thesis
  proof (cases "j = 0")
    case True
    then show ?thesis using scan valid ov j(2) by (simp add: block_Prev_def over_def done_with_def)
  next
    case False
    then obtain r where r: "prev_scan it (off j) (bi_restart_index it) = Some (Some r)" "r < num" "idx ! r < j"
      using scan by auto
    obtain it1 where it1: "SeekToRestartPoint r it = Some it1" "about data R num st es off idx (idx ! r) it1"
      using SeekToRestartPoint_laid [OF lay ov r(2)] by blast
    from parse_until_laid [OF lay it1(2) r(3)] j(1) show ?thesis
      using False r(1) it1(1) valid j(2) by (simp add: block_Prev_def)
  qed
qed

section \<open>Seeking\<close>

definition ascending :: "(byte list \<Rightarrow> byte list \<Rightarrow> int) \<Rightarrow> entry list \<Rightarrow> bool" where
  "ascending cmp es \<longleftrightarrow> sorted_wrt (\<lambda>a b. cmp (fst a) (fst b) < 0) es"

lemma restart_probe_laid:
  assumes lay: "laid_out data R num es off idx" and it: "over data R num st it" and r: "r < num" and "es \<noteq> []"
  shows "restart_probe cmp target it r = Some (Some (cmp (fst (es ! (idx ! r))) target))"
proof -
  have i: "idx ! r < length es" using laid_outD(11) [OF lay r] assms(4) by (simp add: max_def split: if_splits)
  obtain s ns v p where d: "DecodeEntry data (off (idx ! r)) R = Some (s, ns, v, p)" "p + unat ns + unat v = off (Suc (idx ! r))"
    "take (unat ns) (drop p data) = drop (unat s) (fst (es ! (idx ! r)))" "shares es idx (idx ! r) (unat s)"
    using laid_outD(6) [OF lay i] by (auto simp: entry_at_def)
  have "unat s = 0" using d(4) r laid_outD(7) [OF lay] by (auto simp: shares_def)
  then have "s = 0" by (simp add: unat_eq_0)
  moreover have "p + unat ns \<le> length data"
    using d(2) off_le_R [OF lay, of "Suc (idx ! r)"] i laid_outD(1) [OF lay] by simp
  ultimately show ?thesis using GetRestartPoint_laid [OF lay it r] it d(1,3)
    by (simp add: restart_probe_def over_def)
qed

lemma restart_below_minus: "0 < m \<Longrightarrow> m - 1 < 2 ^ 32 \<Longrightarrow> restart_below m = m - 1"
proof -
  assume m: "0 < m" "m - 1 < 2 ^ 32"
  then have "m + (2 ^ 32 - 1) = (m - 1) + 2 ^ 32" by simp
  then show ?thesis using m(2) unfolding restart_below_def by (simp only: mod_add_self2 mod_less)
qed

lemma restart_search_laid:
  assumes lay: "laid_out data R num es off idx" and it: "over data R num st it"
  shows "left \<le> right \<Longrightarrow> right < num \<Longrightarrow> left = 0 \<or> cmp (fst (es ! (idx ! left))) target < 0 \<Longrightarrow>
    \<exists>l. restart_search cmp target it left right = Some (Some l) \<and> l < num
      \<and> (l = 0 \<or> cmp (fst (es ! (idx ! l))) target < 0)"
proof (induction "right - left" arbitrary: left right rule: less_induct)
  case less
  show ?case
  proof (cases "left < right")
    case True
    let ?m = "(left + right + 1) div 2"
    have m: "left < ?m" "?m \<le> right" "?m < num" using True less.prems(2) by linarith+
    have small: "left + right + 1 < 2 ^ 32" using less.prems(1,2) num_small [OF lay] by simp
    then have mid: "restart_mid left right = ?m" by (simp add: restart_mid_def)
    have "?m - 1 < 2 ^ 32" using small by linarith
    then have below: "restart_below ?m = ?m - 1" using m(1) by (intro restart_below_minus) simp_all
    have "idx ! 0 < idx ! ?m"
      using sorted_wrt_nth_less [OF laid_outD(10) [OF lay], of 0 ?m] m laid_outD(7) [OF lay] by simp
    then have "es \<noteq> []" using idx_le [OF lay m(3)] by auto
    note probe = restart_probe_laid [OF lay it m(3) this]
    show ?thesis
    proof (cases "cmp (fst (es ! (idx ! ?m))) target < 0")
      case neg: True
      have "right - ?m < right - left" using m by linarith
      from less.hyps [OF this m(2) less.prems(2)] neg show ?thesis
        using True probe by (simp add: restart_search.simps [of cmp target it left right] mid)
    next
      case False
      have "(?m - 1) - left < right - left" "left \<le> ?m - 1" "?m - 1 < num" using m by linarith+
      from less.hyps [OF this less.prems(3)] False show ?thesis
        using True probe by (simp add: restart_search.simps [of cmp target it left right] mid below)
    qed
  next
    case False
    then show ?thesis using less.prems by (simp add: restart_search.simps [of cmp target it right right])
  qed
qed

lemma seek_linear_laid:
  assumes lay: "laid_out data R num es off idx"
  shows "about data R num st es off idx j it \<Longrightarrow> j \<le> k \<Longrightarrow> k \<le> length es \<Longrightarrow>
    (\<And>i. j \<le> i \<Longrightarrow> i < k \<Longrightarrow> cmp (fst (es ! i)) target < 0) \<Longrightarrow> (k < length es \<Longrightarrow> \<not> cmp (fst (es ! k)) target < 0) \<Longrightarrow>
    if k < length es then \<exists>it'. seek_linear cmp target it = Some it' \<and> at data R num st es off idx k it'
    else \<exists>it'. seek_linear cmp target it = Some it' \<and> done_with data R num st it'"
proof (induction "k - j" arbitrary: j it)
  case 0
  then have "j = k" by simp
  note parse = ParseNextKey_laid [OF lay 0(2) [unfolded this]]
  show ?case
  proof (cases "k < length es")
    case True
    then obtain it1 where it1: "ParseNextKey it = Some (True, it1)" "at data R num st es off idx k it1"
      using parse by auto
    have "bi_key it1 = fst (es ! k)" using it1(2) by (simp add: at_def)
    then show ?thesis using it1 True 0(6) by (simp add: seek_linear.simps [of cmp target it])
  next
    case False
    then show ?thesis using parse by (auto simp: seek_linear.simps [of cmp target it])
  qed
next
  case (Suc n)
  have jk: "j < k" using Suc.hyps(2) by simp
  obtain it1 where it1: "ParseNextKey it = Some (True, it1)" "at data R num st es off idx j it1"
    using ParseNextKey_laid [OF lay Suc.prems(1)] Suc.prems(3) jk by auto
  have "cmp (bi_key it1) target < 0" using it1(2) Suc.prems(4) [of j] jk by (simp add: at_def)
  then have step: "seek_linear cmp target it = seek_linear cmp target it1"
    using it1(1) by (simp add: seek_linear.simps [of cmp target it])
  have n: "n = k - Suc j" "Suc j \<le> k" using Suc.hyps(2) by simp_all
  show ?case unfolding step
    by (rule Suc.hyps(1) [OF n(1) at_about(1) [OF lay it1(2)] n(2) Suc.prems(3)])
      (use Suc.prems(4,5) in auto)
qed

lemma block_Seek_laid:
  assumes ord: "key_order valid cmp" and lay: "laid_out data R num es off idx" and it: "over data R num st it"
    and asc: "ascending cmp es" and v: "list_all (valid \<circ> fst) es" "valid target"
  defines "k \<equiv> length (takeWhile (\<lambda>e. cmp (fst e) target < 0) es)"
  shows "if k < length es then \<exists>it'. block_Seek cmp target it = Some it' \<and> at data R num st es off idx k it'
    else \<exists>it'. block_Seek cmp target it = Some it' \<and> done_with data R num st it'"
proof -
  have num: "0 < num" "unat (bi_num_restarts it) = num" using laid_outD(8) [OF lay] it by (simp_all add: over_def)
  then have n1: "unat (bi_num_restarts it - 1) = num - 1"
    by (metis unat_minus_one unat_0 less_irrefl)
  obtain l where l: "restart_search cmp target it 0 (num - 1) = Some (Some l)" "l < num"
    "l = 0 \<or> cmp (fst (es ! (idx ! l))) target < 0"
    using restart_search_laid [OF lay it, of 0 "num - 1" cmp target] num(1) by auto
  obtain it1 where it1: "SeekToRestartPoint l it = Some it1" "about data R num st es off idx (idx ! l) it1"
    using SeekToRestartPoint_laid [OF lay it l(2)] by blast
  have kn: "k \<le> length es" unfolding k_def by (rule length_takeWhile_le)
  have before: "cmp (fst (es ! i)) target < 0" if "i < k" for i
    using that unfolding k_def by (metis nth_mem set_takeWhileD takeWhile_nth)
  have at_k: "\<not> cmp (fst (es ! k)) target < 0" if "k < length es"
    using that unfolding k_def by (rule nth_length_takeWhile)
  have "idx ! l \<le> k"
  proof (rule ccontr)
    assume "\<not> idx ! l \<le> k"
    then have less: "k < idx ! l" by simp
    then have "l \<noteq> 0" using laid_outD(9) [OF lay] by (cases l) simp_all
    then have neg: "cmp (fst (es ! (idx ! l))) target < 0" using l(3) by simp
    have "idx ! l < length es" using laid_outD(11) [OF lay l(2)] less kn by (auto simp: max_def split: if_splits)
    then have vs: "valid (fst (es ! k))" "valid (fst (es ! (idx ! l)))" "k < length es"
      and "cmp (fst (es ! k)) (fst (es ! (idx ! l))) < 0"
      using v(1) less asc sorted_wrt_nth_less by (auto simp: list_all_iff ascending_def) blast
    then have "cmp (fst (es ! k)) target < 0"
      using key_order.cmp_less_trans [OF ord vs(1,2) v(2)] neg by simp
    then show False using at_k [OF vs(3)] by simp
  qed
  from seek_linear_laid [OF lay it1(2) this kn, of cmp target] before at_k
  show ?thesis using l(1) it1(1) n1 by (simp add: block_Seek_def)
qed

end
