(* ===== verification/Ldb_Block_Build.thy ===== *)
theory Ldb_Block_Build
  imports Ldb_Block_Props
begin

text \<open>
  The builder lays a block out, and a block that was built is a sorted map: the iterator runs through
  its entries in both directions and seeks in them.  What a damaged block can do to the reader is at
  the end.
\<close>

declare One_nat_def [simp del]

section \<open>Encoded entries\<close>

definition entry_enc :: "nat \<Rightarrow> entry \<Rightarrow> byte list" where
  "entry_enc s e = varint s @ varint (length (fst e) - s) @ varint (length (snd e)) @ drop s (fst e) @ snd e"

lemma varint_nonempty: "0 < length (varint v)"
  using varint_bytes_varint [of v] by (cases "varint v") auto

lemma varint_small: "v < 128 \<Longrightarrow> varint v = [word_of_nat v]"
  by (simp add: varint.simps [of v])

lemma varint_hd_large: "128 \<le> v \<Longrightarrow> 128 \<le> unat (varint v ! 0)"
proof -
  assume v: "128 \<le> v"
  have "unat (word_of_nat (v mod 128 + 128) :: byte) = v mod 128 + 128"
  proof -
    have "v mod 128 + 128 < 256" by simp
    then show ?thesis by (simp only: unat_of_nat) simp
  qed
  then show ?thesis using v by (simp add: varint.simps [of v])
qed

lemma or3_less_128: "(a OR b OR c :: uint32) < 128 \<longleftrightarrow> a < 128 \<and> b < 128 \<and> c < 128"
proof -
  have d: "drop_bit 7 n = 0 \<longleftrightarrow> n < 128" for n :: nat
    by (simp add: drop_bit_eq_div div_eq_0_iff)
  have "x < 128 \<longleftrightarrow> drop_bit 7 (unat x) = 0" for x :: uint32
    by (simp add: d word_less_nat_alt)
  then show ?thesis by (simp add: unsigned_or_eq or_eq_0_iff drop_bit_or)
qed

lemma entry_lengths_enc:
  assumes "s < 2 ^ 32" and "n < 2 ^ 32" and "v < 2 ^ 32"
  shows "entry_lengths (varint s @ varint n @ varint v @ rest) = Some (word_of_nat s, word_of_nat n, word_of_nat v, rest)"
proof -
  let ?q = "varint s @ varint n @ varint v @ rest"
  have u: "unat (word_of_nat s :: uint32) = s" "unat (word_of_nat n :: uint32) = n" "unat (word_of_nat v :: uint32) = v"
    using assms by (simp_all only: unat_of_nat) simp_all
  have g: "GetVarint32Ptr ?q = Some (word_of_nat s, varint n @ varint v @ rest)"
    "GetVarint32Ptr (varint n @ varint v @ rest) = Some (word_of_nat n, varint v @ rest)"
    "GetVarint32Ptr (varint v @ rest) = Some (word_of_nat v, rest)"
    using GetVarint32_varint [of "word_of_nat s"] GetVarint32_varint [of "word_of_nat n"]
      GetVarint32_varint [of "word_of_nat v"] by (simp_all only: u GetVarint32_eq)
  have l: "\<not> length ?q < 3" using varint_nonempty [of s] varint_nonempty [of n] varint_nonempty [of v]
    unfolding length_append by linarith
  have lt: "(ucast b :: uint32) < 128 \<longleftrightarrow> unat b < 128" for b :: byte
    using unsigned_less [where ?'a = nat, of b]
    by (simp add: word_less_nat_alt unsigned_ucast_eq take_bit_nat_eq_self)
  show ?thesis
  proof (cases "s < 128 \<and> n < 128 \<and> v < 128")
    case True
    then have q: "?q = word_of_nat s # word_of_nat n # word_of_nat v # rest" by (simp add: varint_small)
    have "(ucast (word_of_nat x :: byte) :: uint32) = word_of_nat x" if "x < 128" for x
    proof -
      have u: "unat (word_of_nat x :: byte) = x" using that by (simp only: unat_of_nat) simp
      have "ucast (word_of_nat x :: byte) = (word_of_nat (unat (word_of_nat x :: byte)) :: uint32)"
        by (rule of_nat_unat [symmetric])
      then show ?thesis unfolding u .
    qed
    moreover have "(word_of_nat x :: uint32) < 128" if "x < 128" for x
    proof -
      have "unat (word_of_nat x :: uint32) = x" using that by (simp only: unat_of_nat) simp
      then show ?thesis using that by (simp add: word_less_nat_alt)
    qed
    ultimately show ?thesis unfolding q using True
      by (simp add: entry_lengths_def Let_def or3_less_128 numeral_2_eq_2 numeral_3_eq_3)
  next
    case False
    have "\<not> (ucast (?q ! 0) OR ucast (?q ! 1) OR ucast (?q ! 2) :: uint32) < 128"
    proof (cases "128 \<le> s")
      case True
      then show ?thesis using varint_hd_large [OF True] varint_nonempty [of s] by (simp add: or3_less_128 lt nth_append)
    next
      case s: False
      then have vs: "varint s = [word_of_nat s]" by (simp add: varint_small)
      show ?thesis
      proof (cases "128 \<le> n")
        case True
        then show ?thesis using varint_hd_large [OF True] varint_nonempty [of n] vs
          by (simp add: or3_less_128 lt nth_append)
      next
        case n: False
        then have "128 \<le> v" "varint n = [word_of_nat n]" using s False by (simp_all add: varint_small)
        then show ?thesis using varint_hd_large [of v] varint_nonempty [of v] vs
          by (simp add: or3_less_128 lt nth_append)
      qed
    qed
    then show ?thesis using l g by (simp add: entry_lengths_def Let_def)
  qed
qed

lemma DecodeEntry_enc:
  assumes data: "data = pre @ entry_enc s e @ mid @ post" and R: "R = length pre + length (entry_enc s e) + length mid"
    and s: "s \<le> length (fst e)" and small: "R < 2 ^ 32" "length (fst e) < 2 ^ 32"
  shows "\<exists>p. DecodeEntry data (length pre) R
      = Some (word_of_nat s, word_of_nat (length (fst e) - s), word_of_nat (length (snd e)), p)
    \<and> p + (length (fst e) - s) + length (snd e) = length pre + length (entry_enc s e)
    \<and> take (length (fst e) - s) (drop p data) = drop s (fst e)
    \<and> take (length (snd e)) (drop (p + (length (fst e) - s)) data) = snd e"
proof -
  let ?h = "varint s @ varint (length (fst e) - s) @ varint (length (snd e))"
  let ?q = "drop s (fst e) @ snd e @ mid"
  have e: "entry_enc s e = ?h @ drop s (fst e) @ snd e" by (simp add: entry_enc_def)
  have len: "length (entry_enc s e) = length ?h + (length (fst e) - s) + length (snd e)" by (simp add: e)
  have b: "s < 2 ^ 32" "length (fst e) - s < 2 ^ 32" "length (snd e) < 2 ^ 32" using small s R len by linarith+
  have q: "drop (length pre) (take R data) = ?h @ ?q" unfolding data R e by simp
  have len_q: "length ?q = length (fst e) - s + length (snd e) + length mid" by simp
  have w: "\<not> word_of_nat (length ?q) < (word_of_nat (length (fst e) - s) + word_of_nat (length (snd e)) :: uint32)"
  proof -
    have "unat (word_of_nat (length ?q) :: uint32) = length ?q"
      using small R len len_q by (simp only: unat_of_nat) simp
    moreover have "unat (word_of_nat (length (fst e) - s + length (snd e)) :: uint32) = length (fst e) - s + length (snd e)"
      using small R len by (simp only: unat_of_nat) simp
    ultimately show ?thesis unfolding of_nat_add [symmetric] word_less_nat_alt using len_q by simp
  qed
  have "DecodeEntry data (length pre) R
      = Some (word_of_nat s, word_of_nat (length (fst e) - s), word_of_nat (length (snd e)), R - length ?q)"
    unfolding DecodeEntry_def q using entry_lengths_enc [OF b, of ?q] w by simp
  moreover have p: "R - length ?q = length pre + length ?h" using R len len_q by simp
  moreover have "drop (length pre + length ?h) data = drop s (fst e) @ snd e @ mid @ post"
    unfolding data e by simp
  ultimately show ?thesis using len
    by (intro exI [of _ "length pre + length ?h"]) (simp add: drop_drop [symmetric] add.commute del: drop_drop)
qed

section \<open>The builder\<close>

lemma shared_loop_diff: "shared_loop a b m d = diff_loop a b m d"
  by (induction a b m d rule: shared_loop.induct) (simp add: shared_loop.simps [of _ _ _ d for d] diff_loop.simps [of _ _ _ d for d])

lemma shared_loop_prefix:
  "take (shared_loop a b (min (length a) (length b)) 0) a = take (shared_loop a b (min (length a) (length b)) 0) b"
  "shared_loop a b (min (length a) (length b)) 0 \<le> length a" "shared_loop a b (min (length a) (length b)) 0 \<le> length b"
  using diff_loop_prefix [of "min (length a) (length b)" a b 0] by (simp_all add: shared_loop_diff)

definition last_key_of :: "entry list \<Rightarrow> byte list" where
  "last_key_of es = (if es = [] then [] else fst (last es))"

definition built :: "int \<Rightarrow> BlockBuilder \<Rightarrow> entry list \<Rightarrow> byte list list \<Rightarrow> nat list \<Rightarrow> bool" where
  "built interval b es encs idx \<longleftrightarrow>
     1 \<le> interval \<and> bb_interval b = interval \<and> bb_buffer b = concat encs \<and> \<not> bb_finished b
     \<and> bb_restarts b = map (\<lambda>i. word_of_nat (length (concat (take i encs)))) idx
     \<and> bb_last_key b = last_key_of es \<and> 0 \<le> bb_counter b \<and> bb_counter b \<le> interval \<and> (es = [] \<longrightarrow> bb_counter b = 0)
     \<and> length encs = length es \<and> (\<forall>j<length es. \<exists>s. encs ! j = entry_enc s (es ! j) \<and> shares es idx j s)
     \<and> idx \<noteq> [] \<and> idx ! 0 = 0 \<and> sorted_wrt (<) idx \<and> (\<forall>i\<in>set idx. i < max 1 (length es))"

lemma BlockBuilder_new_built: "1 \<le> interval \<Longrightarrow> \<exists>b. BlockBuilder_new interval = Some b \<and> built interval b [] [] [0]"
  by (simp add: BlockBuilder_new_def built_def last_key_of_def)

lemma entry_enc_length: "0 < length (entry_enc s e)"
  using varint_nonempty [of s] unfolding entry_enc_def length_append by linarith

lemma PutVarint32_bytes: "s < 2 ^ 32 \<Longrightarrow> PutVarint32 dst (word_of_nat s) = dst @ varint s"
proof -
  assume "s < 2 ^ 32"
  then have "unat (word_of_nat s :: uint32) = s" by (simp only: unat_of_nat) simp
  then show ?thesis by (simp add: PutVarint32_def EncodeVarint32_varint)
qed

lemma shares_snoc_old:
  "j < length es \<Longrightarrow> idx' = idx \<or> idx' = idx @ [length es] \<Longrightarrow> shares (es @ [e]) idx' j s = shares es idx j s"
  by (auto simp: shares_def nth_append)

lemma shares_snoc_new:
  assumes "s \<le> length (fst e)" and "s \<le> length (last_key_of es)" and "take s (last_key_of es) = take s (fst e)"
    and "length es \<in> set idx' \<Longrightarrow> s = 0"
  shows "shares (es @ [e]) idx' (length es) s"
proof (cases "es = []")
  case True
  then show ?thesis using assms by (simp add: shares_def last_key_of_def)
next
  case False
  then have "(es @ [e]) ! (length es - 1) = last es" by (simp add: nth_append last_conv_nth)
  then show ?thesis using assms False by (simp add: shares_def last_key_of_def)
qed

lemma BlockBuilder_Add_built:
  assumes b: "built interval b es encs idx" and k: "length k < 2 ^ 32" "length v < 2 ^ 32"
    and asc: "es \<noteq> [] \<Longrightarrow> 0 < cmp k (last_key_of es)"
  shows "\<exists>b' e idx'. BlockBuilder_Add cmp k v b = Some b' \<and> built interval b' (es @ [(k, v)]) (encs @ [e]) idx'"
proof -
  have B: "1 \<le> interval" "bb_interval b = interval" "bb_buffer b = concat encs" "\<not> bb_finished b"
    "bb_restarts b = map (\<lambda>i. word_of_nat (length (concat (take i encs)))) idx"
    "bb_last_key b = last_key_of es" "0 \<le> bb_counter b" "bb_counter b \<le> interval" "es = [] \<Longrightarrow> bb_counter b = 0"
    "length encs = length es" "\<forall>j<length es. \<exists>s. encs ! j = entry_enc s (es ! j) \<and> shares es idx j s"
    "idx \<noteq> []" "idx ! 0 = 0" "sorted_wrt (<) idx" "\<forall>i\<in>set idx. i < max 1 (length es)"
    using b by (auto simp: built_def)
  have order: "bb_buffer b = [] \<or> 0 < cmp k (bb_last_key b)"
    using asc B(3,6,10) by (cases "es = []") auto
  obtain s b1 where sb: "share_or_restart b k = (s, b1)" by fastforce
  let ?idx = "if bb_counter b < interval then idx else idx @ [length es]"
  have s: "s \<le> length k" "s \<le> length (last_key_of es)" "take s (last_key_of es) = take s k"
    "\<not> bb_counter b < interval \<Longrightarrow> s = 0" "es = [] \<Longrightarrow> s = 0"
    using sb shared_loop_prefix [of "last_key_of es" k] B(2,6)
    by (auto simp: share_or_restart_def last_key_of_def split: if_splits)
  have b1: "b1 = b\<lparr>bb_restarts := map (\<lambda>i. word_of_nat (length (concat (take i (encs @ [entry_enc s (k, v)]))))) ?idx,
      bb_counter := (if bb_counter b < interval then bb_counter b else 0)\<rparr>"
  proof -
    have "take i (encs @ [x]) = take i encs" if "i \<in> set idx" for i x
    proof -
      have "i \<le> length encs" using B(10,15) that by (cases "es = []") (force simp: max_def split: if_splits)+
      then show ?thesis by simp
    qed
    then have old: "map (\<lambda>i. word_of_nat (length (concat (take i (encs @ [entry_enc s (k, v)]))))) idx = bb_restarts b"
      unfolding B(5) by (intro map_cong) simp_all
    show ?thesis using sb old B(2,3,10) by (auto simp: share_or_restart_def)
  qed
  have s32: "s < 2 ^ 32" "length k - s < 2 ^ 32" using s(1) k(1) by linarith+
  have key: "take s (bb_last_key b) @ drop s k = k" using s(3) B(6) by simp
  let ?b = "b1\<lparr>bb_buffer := concat (encs @ [entry_enc s (k, v)]), bb_last_key := k, bb_counter := bb_counter b1 + 1\<rparr>"
  have "BlockBuilder_Add cmp k v b = Some ?b"
    using order B(2,3,4,6,8) sb b1 key s32 k(2)
    by (simp add: BlockBuilder_Add_def PutVarint32_bytes entry_enc_def)
  moreover have "built interval ?b (es @ [(k, v)]) (encs @ [entry_enc s (k, v)]) ?idx"
    unfolding built_def
  proof (intro conjI allI impI ballI)
    fix j assume "j < length (es @ [(k, v)])"
    then consider "j < length es" | "j = length es" by fastforce
    then show "\<exists>t. (encs @ [entry_enc s (k, v)]) ! j = entry_enc t ((es @ [(k, v)]) ! j) \<and> shares (es @ [(k, v)]) ?idx j t"
    proof cases
      case 1
      then show ?thesis using B(10,11) shares_snoc_old [OF 1, of ?idx idx] by (simp add: nth_append)
    next
      case 2
      have "length es \<in> set idx \<Longrightarrow> es = []" using B(15) by (fastforce simp: max_def split: if_splits)
      then have "shares (es @ [(k, v)]) ?idx (length es) s"
        using s by (intro shares_snoc_new) (auto split: if_splits)
      moreover have "(encs @ [entry_enc s (k, v)]) ! length es = entry_enc s ((es @ [(k, v)]) ! length es)"
        using B(10) by (metis nth_append_length)
      ultimately show ?thesis unfolding 2 by blast
    qed
  next
    fix i assume i: "i \<in> set ?idx"
    show "i < max 1 (length (es @ [(k, v)]))"
    proof (cases "i = length es")
      case False
      then have "i \<in> set idx" using i by (auto split: if_splits)
      then have "i < max 1 (length es)" using B(15) by blast
      then show ?thesis by simp
    qed simp
  next
    show "sorted_wrt (<) ?idx"
    proof (cases "bb_counter b < interval")
      case False
      then have "es \<noteq> []" using B(1,9) by auto
      then have "1 \<le> length es" by (cases es) auto
      then show ?thesis using B(14,15) False by (auto simp: sorted_wrt_append)
    qed (use B(14) in simp)
  qed (use B b1 in \<open>auto simp: last_key_of_def nth_append\<close>)
  ultimately show ?thesis by blast
qed

fun add_entries :: "(byte list \<Rightarrow> byte list \<Rightarrow> int) \<Rightarrow> entry list \<Rightarrow> BlockBuilder \<Rightarrow> BlockBuilder option" where
  "add_entries cmp [] b = Some b"
| "add_entries cmp ((k, v) # es) b = Option.bind (BlockBuilder_Add cmp k v b) (add_entries cmp es)"

definition entries_ok :: "(byte list \<Rightarrow> bool) \<Rightarrow> entry list \<Rightarrow> bool" where
  "entries_ok valid es \<longleftrightarrow> list_all (\<lambda>(k, v). valid k \<and> length k < 2 ^ 32 \<and> length v < 2 ^ 32) es"

lemma entries_okD: "entries_ok valid es \<Longrightarrow> e \<in> set es \<Longrightarrow> valid (fst e) \<and> length (fst e) < 2 ^ 32 \<and> length (snd e) < 2 ^ 32"
  by (cases e) (auto simp: entries_ok_def list_all_iff)

lemma add_entries_built:
  assumes ord: "key_order valid cmp"
  shows "built interval b es encs idx \<Longrightarrow> entries_ok valid (es @ new) \<Longrightarrow> ascending cmp (es @ new) \<Longrightarrow>
    \<exists>b' encs' idx'. add_entries cmp new b = Some b' \<and> built interval b' (es @ new) encs' idx'"
proof (induction new arbitrary: b es encs idx)
  case Nil
  then show ?case by auto
next
  case (Cons e new)
  obtain k v where e: "e = (k, v)" by fastforce
  have ok: "length k < 2 ^ 32" "length v < 2 ^ 32" "valid k" using Cons.prems(2) e by (simp_all add: entries_ok_def)
  have "0 < cmp k (last_key_of es)" if "es \<noteq> []"
  proof -
    have "last es \<in> set es" using that by simp
    then have "cmp (fst (last es)) k < 0"
      using Cons.prems(3) e by (simp add: ascending_def sorted_wrt_append)
    moreover have "valid (fst (last es))"
      using entries_okD [OF Cons.prems(2), of "last es"] \<open>last es \<in> set es\<close> by simp
    ultimately show ?thesis using key_order.cmp_flip [OF ord, of "fst (last es)" k] ok(3) that by (simp add: last_key_of_def)
  qed
  from BlockBuilder_Add_built [where cmp = cmp and k = k, OF Cons.prems(1) ok(1,2) this]
  obtain b' x idx' where b': "BlockBuilder_Add cmp k v b = Some b'" "built interval b' (es @ [e]) (encs @ [x]) idx'"
    unfolding e by blast
  from Cons.IH [OF b'(2)] Cons.prems(2,3) show ?case using b'(1) e by simp
qed

section \<open>What the builder makes is laid out\<close>

lemma concat_split: "j < length xs \<Longrightarrow> concat xs = concat (take j xs) @ xs ! j @ concat (drop (Suc j) xs)"
  by (metis append_take_drop_id concat.simps(2) concat_append Cons_nth_drop_Suc)

lemma concat_take_Suc: "j < length xs \<Longrightarrow> concat (take (Suc j) xs) = concat (take j xs) @ xs ! j"
  by (simp add: take_Suc_conv_app_nth)

lemma finished_laid_out:
  assumes b: "built interval b es encs idx" and ok: "entries_ok valid es"
    and small: "length (bb_buffer (BlockBuilder_Finish b)) < 2 ^ 32"
  shows "laid_out (bb_buffer (BlockBuilder_Finish b)) (length (concat encs)) (length idx) es
      (\<lambda>j. length (concat (take j encs))) idx"
    and "bb_buffer (BlockBuilder_Finish b) = concat encs @ array_bytes32 (bb_restarts b) @ le_of_nat 4 (length idx)"
    and "length idx < 2 ^ 30"
proof -
  have B: "bb_buffer b = concat encs" "bb_restarts b = map (\<lambda>i. word_of_nat (length (concat (take i encs)))) idx"
    "length encs = length es" "\<forall>j<length es. \<exists>s. encs ! j = entry_enc s (es ! j) \<and> shares es idx j s"
    "idx \<noteq> []" "idx ! 0 = 0" "sorted_wrt (<) idx" "\<forall>i\<in>set idx. i < max 1 (length es)"
    using b by (auto simp: built_def)
  let ?data = "bb_buffer (BlockBuilder_Finish b)"
  let ?w = "unat (word_of_nat (length idx) :: uint32)"
  have rl: "length (bb_restarts b) = length idx" using B(2) by simp
  have data: "?data = concat encs @ array_bytes32 (bb_restarts b) @ le_of_nat 4 ?w"
    using B(1) rl by (simp add: BlockBuilder_Finish_def put_array_bytes PutFixed32_def)
  then have len: "length ?data = length (concat encs) + 4 * length idx + 4" using rl by (simp del: length_concat)
  then show n30: "length idx < 2 ^ 30" using small by simp
  then have "?w = length idx" by (simp only: unat_of_nat) simp
  with data show data': "?data = concat encs @ array_bytes32 (bb_restarts b) @ le_of_nat 4 (length idx)" by simp
  let ?off = "\<lambda>j. length (concat (take j encs))"
  have step: "?off (Suc j) = ?off j + length (encs ! j)" if "j < length es" for j
    using concat_take_Suc [of j encs] that B(3) by (simp del: length_concat)
  have entry: "?off j < ?off (Suc j) \<and> entry_at ?data (length (concat encs)) ?off es idx j" if j: "j < length es" for j
  proof -
    obtain s where s: "encs ! j = entry_enc s (es ! j)" "shares es idx j s" using B(4) j by blast
    let ?k = "fst (es ! j)" and ?v = "snd (es ! j)"
    have key: "s \<le> length ?k" "length ?k < 2 ^ 32" "length ?v < 2 ^ 32"
      using s(2) entries_okD [OF ok nth_mem [OF j]] by (simp_all add: shares_def)
    have "?data = concat (take j encs) @ entry_enc s (es ! j) @ concat (drop (Suc j) encs)
        @ array_bytes32 (bb_restarts b) @ le_of_nat 4 (length idx)"
      unfolding data' using concat_split [of j encs] j B(3) s(1) by simp
    moreover have "length (concat encs) = length (concat (take j encs)) + length (entry_enc s (es ! j)) + length (concat (drop (Suc j) encs))"
      using concat_split [of j encs] j B(3) s(1) by (metis add.assoc length_append)
    ultimately obtain p where p: "DecodeEntry ?data (?off j) (length (concat encs))
        = Some (word_of_nat s, word_of_nat (length ?k - s), word_of_nat (length ?v), p)"
      "p + (length ?k - s) + length ?v = ?off j + length (entry_enc s (es ! j))"
      "take (length ?k - s) (drop p ?data) = drop s ?k" "take (length ?v) (drop (p + (length ?k - s)) ?data) = ?v"
      using DecodeEntry_enc [of ?data "concat (take j encs)" s "es ! j" "concat (drop (Suc j) encs)"
          "array_bytes32 (bb_restarts b) @ le_of_nat 4 (length idx)"] key small len by auto
    have u: "unat (word_of_nat s :: uint32) = s" "unat (word_of_nat (length ?k - s) :: uint32) = length ?k - s"
      "unat (word_of_nat (length ?v) :: uint32) = length ?v"
      using key by (simp_all only: unat_of_nat) simp_all
    have "p + unat (word_of_nat (length ?k - s) :: uint32) + unat (word_of_nat (length ?v) :: uint32) = ?off (Suc j)"
      "take (unat (word_of_nat (length ?k - s) :: uint32)) (drop p ?data) = drop (unat (word_of_nat s :: uint32)) ?k"
      "take (unat (word_of_nat (length ?v) :: uint32)) (drop (p + unat (word_of_nat (length ?k - s) :: uint32)) ?data) = ?v"
      "shares es idx j (unat (word_of_nat s :: uint32))"
      using p s step [OF j] by (simp_all only: u)
    with p(1) have "entry_at ?data (length (concat encs)) ?off es idx j"
      unfolding entry_at_def by blast
    then show ?thesis using step [OF j] entry_enc_length [of s "es ! j"] s(1) by (simp del: length_concat)
  qed
  have restart: "fixed32_at ?data (length (concat encs) + r * 4) = Some (word_of_nat (?off (idx ! r)))"
    if r: "r < length idx" for r
  proof -
    have "fixed32_at ?data (length (concat encs) + r * 4) = Some (bb_restarts b ! r)"
      unfolding data' by (rule fixed32_at_array) (use r rl in simp_all)
    then show ?thesis using r B(2) by simp
  qed
  show "laid_out ?data (length (concat encs)) (length idx) es ?off idx"
    unfolding laid_out_def using len small entry restart B(3,5-8) by (simp del: length_concat)
qed

lemma Block_of_layout:
  assumes lay: "laid_out data R num es off idx" and data: "length data = R + 4 * num + 4"
    "drop (R + 4 * num) data = le_of_nat 4 num"
  shows "\<exists>blk it. Block_new data = Some blk \<and> Block_NewIterator blk = Some (Block_iter it) \<and> over data R num OK it"
proof -
  have num: "0 < num" "num < 2 ^ 30" using laid_outD(8) [OF lay] num_small [OF lay] by simp_all
  then have u: "unat (word_of_nat num :: uint32) = num" by (simp only: unat_of_nat) simp
  have "DecodeFixed32 (le_of_nat 4 (unat (word_of_nat num :: uint32)) @ []) = word_of_nat num" by (rule DecodeFixed32_le)
  then have last: "fixed32_at data (length data - 4) = Some (word_of_nat num)"
    using data by (simp add: fixed32_at_def u)
  have u1: "unat (1 + word_of_nat num :: uint32) = 1 + num"
  proof -
    have "unat (word_of_nat (1 + num) :: uint32) = 1 + num" using num(2) by (simp only: unat_of_nat) simp
    then show ?thesis by simp
  qed
  have uR: "unat (word_of_nat R :: uint32) = R" using R_small [OF lay] by (simp only: unat_of_nat) simp
  have n0: "0 < (word_of_nat num :: uint32)" using num(1) u by (simp add: word_less_nat_alt)
  let ?blk = "\<lparr>bl_data = data, bl_size = length data, bl_restart_offset = word_of_nat R\<rparr>"
  have "Block_new data = Some ?blk"
    using data(1) last u u1 by (simp add: Block_new_def Let_def NumRestarts_def)
  moreover have "\<exists>it. Block_NewIterator ?blk = Some (Block_iter it) \<and> over data R num OK it"
    using data(1) last n0 u uR by (auto simp: Block_NewIterator_def NumRestarts_def block_iter_new_def over_def)
  ultimately show ?thesis by blast
qed

lemma built_block:
  assumes "built interval b es encs idx" and "entries_ok valid es"
    and "length (bb_buffer (BlockBuilder_Finish b)) < 2 ^ 32"
  shows "\<exists>R num off idx blk it. laid_out (bb_buffer (BlockBuilder_Finish b)) R num es off idx
    \<and> Block_new (bb_buffer (BlockBuilder_Finish b)) = Some blk \<and> Block_NewIterator blk = Some (Block_iter it)
    \<and> over (bb_buffer (BlockBuilder_Finish b)) R num OK it"
proof -
  note lay = finished_laid_out [OF assms]
  have "length (bb_restarts b) = length idx" using assms(1) by (simp add: built_def)
  with Block_of_layout [OF lay(1)] lay show ?thesis by (simp del: length_concat) blast
qed

section \<open>A block is a sorted map\<close>

text \<open>What an iterator shows from where it stands, one entry after the other; more than \<open>n\<close> entries are
  \<open>None\<close>.\<close>

fun collect :: "(block_iter \<Rightarrow> block_iter option) \<Rightarrow> nat \<Rightarrow> block_iter \<Rightarrow> entry list option" where
  "collect step n it =
     (if \<not> block_Valid it then Some []
      else case n of
          0 \<Rightarrow> None
        | Suc n \<Rightarrow> do {
            k \<leftarrow> block_key it;
            v \<leftarrow> block_value it;
            it \<leftarrow> step it;
            es \<leftarrow> collect step n it;
            Some ((k, v) # es) })"

declare collect.simps [simp del]

lemma at_shows:
  assumes lay: "laid_out data R num es off idx" and it: "at data R num st es off idx j it"
  shows "block_key it = Some (fst (es ! j))" and "block_value it = Some (snd (es ! j))"
proof -
  have j: "j < length es" using it by (simp add: at_def)
  have "off (Suc j) \<le> length data" using off_le_R [OF lay, of "Suc j"] j laid_outD(1) [OF lay] by simp
  then show "block_key it = Some (fst (es ! j))" "block_value it = Some (snd (es ! j))"
    using it at_about(3) [OF lay it] by (auto simp: block_key_def block_value_def at_def over_def)
qed

lemma collect_done: "done_with data R num st it \<Longrightarrow> collect step n it = Some []"
  by (auto simp: collect.simps [of step n it] done_with_def over_def block_Valid_def)

lemma collect_Next:
  assumes lay: "laid_out data R num es off idx"
  shows "at data R num st es off idx j it \<Longrightarrow> length es \<le> j + n \<Longrightarrow> collect block_Next n it = Some (drop j es)"
proof (induction n arbitrary: j it)
  case (Suc n)
  have j: "j < length es" using Suc.prems(1) by (simp add: at_def)
  have es: "drop j es = es ! j # drop (Suc j) es" using j by (simp add: Cons_nth_drop_Suc)
  note here = at_shows [OF lay Suc.prems(1)] at_about(3) [OF lay Suc.prems(1)]
  show ?case
  proof (cases "Suc j < length es")
    case True
    then obtain it1 where it1: "block_Next it = Some it1" "at data R num st es off idx (Suc j) it1"
      using block_Next_laid [OF lay Suc.prems(1)] by auto
    from Suc.IH [OF it1(2)] Suc.prems(2) show ?thesis
      using here it1(1) es by (simp add: collect.simps [of _ "Suc n" it])
  next
    case False
    then obtain it1 where it1: "block_Next it = Some it1" "done_with data R num st it1"
      using block_Next_laid [OF lay Suc.prems(1)] by auto
    then show ?thesis using here es False collect_done [OF it1(2)] by (simp add: collect.simps [of _ "Suc n" it])
  qed
qed (simp add: at_def)

lemma collect_Prev:
  assumes lay: "laid_out data R num es off idx"
  shows "at data R num st es off idx j it \<Longrightarrow> j < n \<Longrightarrow> collect block_Prev n it = Some (rev (take (Suc j) es))"
proof (induction n arbitrary: j it)
  case (Suc n)
  have j: "j < length es" using Suc.prems(1) by (simp add: at_def)
  then have es: "rev (take (Suc j) es) = es ! j # rev (take j es)" by (simp add: take_Suc_conv_app_nth)
  note here = at_shows [OF lay Suc.prems(1)] at_about(3) [OF lay Suc.prems(1)]
  show ?case
  proof (cases j)
    case 0
    then obtain it1 where it1: "block_Prev it = Some it1" "done_with data R num st it1"
      using block_Prev_laid [OF lay Suc.prems(1)] by auto
    then show ?thesis using here es 0 collect_done [OF it1(2)] by (simp add: collect.simps [of _ "Suc n" it])
  next
    case (Suc i)
    then obtain it1 where it1: "block_Prev it = Some it1" "at data R num st es off idx i it1"
      using block_Prev_laid [OF lay Suc.prems(1)] by auto
    from Suc.IH [OF it1(2)] Suc.prems(2) Suc show ?thesis
      using here it1(1) es by (simp add: collect.simps [of _ "Suc n" it])
  qed
qed simp

lemma collect_from:
  assumes lay: "laid_out data R num es off idx"
    and r: "if j < length es then \<exists>it'. r = Some it' \<and> at data R num st es off idx j it'
      else \<exists>it'. r = Some it' \<and> done_with data R num st it'"
  shows "Option.bind r (collect block_Next (length es)) = Some (drop j es)"
  using r collect_Next [OF lay, of st j _ "length es"] by (auto simp: collect_done split: if_splits)

text \<open>C4: a block is a sorted map.  Entries are added in the order of their keys with any restart interval and
  the block is finished: no assertion fails.  Unless it has outgrown its 32-bit offsets the reader
  accepts it, and its iterator shows from \<open>SeekToFirst\<close> on with \<open>Next\<close> exactly
  the entries, from \<open>SeekToLast\<close> on with \<open>Prev\<close> the same in reverse, and from \<open>Seek\<close> on exactly those that
  are not before the target.\<close>

theorem block_is_a_sorted_map:
  assumes "key_order valid cmp" and "1 \<le> interval" and "entries_ok valid es" and "ascending cmp es" and "valid target"
  shows "\<exists>b. Option.bind (BlockBuilder_new interval) (add_entries cmp es) = Some b
    \<and> (2 ^ 32 \<le> length (bb_buffer (BlockBuilder_Finish b))
       \<or> (\<exists>blk it. Block_new (bb_buffer (BlockBuilder_Finish b)) = Some blk \<and> Block_NewIterator blk = Some (Block_iter it)
            \<and> Option.bind (block_SeekToFirst it) (collect block_Next (length es)) = Some es
            \<and> Option.bind (block_SeekToLast it) (collect block_Prev (length es)) = Some (rev es)
            \<and> Option.bind (block_Seek cmp target it) (collect block_Next (length es))
                = Some (dropWhile (\<lambda>e. cmp (fst e) target < 0) es)))"
proof -
  obtain b0 where b0: "BlockBuilder_new interval = Some b0" "built interval b0 [] [] [0]"
    using BlockBuilder_new_built [OF assms(2)] by blast
  obtain b encs idx where b: "add_entries cmp es b0 = Some b" "built interval b es encs idx"
    using add_entries_built [OF assms(1) b0(2), of es] assms(3,4) by auto
  have ok: "list_all (valid \<circ> fst) es" using entries_okD [OF assms(3)] by (auto simp: list_all_iff)
  have "\<exists>blk it. Block_new (bb_buffer (BlockBuilder_Finish b)) = Some blk \<and> Block_NewIterator blk = Some (Block_iter it)
      \<and> Option.bind (block_SeekToFirst it) (collect block_Next (length es)) = Some es
      \<and> Option.bind (block_SeekToLast it) (collect block_Prev (length es)) = Some (rev es)
      \<and> Option.bind (block_Seek cmp target it) (collect block_Next (length es))
          = Some (dropWhile (\<lambda>e. cmp (fst e) target < 0) es)"
    if small: "length (bb_buffer (BlockBuilder_Finish b)) < 2 ^ 32"
  proof -
    obtain R num off idx blk it where it: "laid_out (bb_buffer (BlockBuilder_Finish b)) R num es off idx"
      "Block_new (bb_buffer (BlockBuilder_Finish b)) = Some blk" "Block_NewIterator blk = Some (Block_iter it)"
      "over (bb_buffer (BlockBuilder_Finish b)) R num OK it"
      using built_block [OF b(2) assms(3) small] by blast
    note lay = it(1)
    have "Option.bind (block_SeekToFirst it) (collect block_Next (length es)) = Some (drop 0 es)"
      by (rule collect_from [OF lay]) (use block_SeekToFirst_laid [OF lay it(4)] in auto)
    moreover have "Option.bind (block_SeekToLast it) (collect block_Prev (length es)) = Some (rev es)"
    proof (cases "es = []")
      case True
      then show ?thesis using block_SeekToLast_laid [OF lay it(4)] by (auto simp: collect_done)
    next
      case False
      then obtain it1 where it1: "block_SeekToLast it = Some it1"
        "at (bb_buffer (BlockBuilder_Finish b)) R num OK es off idx (length es - 1) it1"
        using block_SeekToLast_laid [OF lay it(4)] by auto
      from collect_Prev [OF lay it1(2), of "length es"] show ?thesis using it1(1) False by simp
    qed
    moreover have "Option.bind (block_Seek cmp target it) (collect block_Next (length es))
        = Some (dropWhile (\<lambda>e. cmp (fst e) target < 0) es)"
      unfolding dropWhile_eq_drop
      by (rule collect_from [OF lay block_Seek_laid [OF assms(1) lay it(4) assms(4) ok assms(5)]])
    ultimately show ?thesis
      using it(2,3) by auto
  qed
  moreover have "Option.bind (BlockBuilder_new interval) (add_entries cmp es) = Some b"
    unfolding b0(1) bind.simps by (rule b(1))
  ultimately show ?thesis by (metis not_le)
qed

theorem block_is_a_sorted_map_witness:
  "\<exists>b. Option.bind (BlockBuilder_new 2) (add_entries BytewiseCompare [([1], [10]), ([1, 2], [20]), ([3], [30])]) = Some b
    \<and> (2 ^ 32 \<le> length (bb_buffer (BlockBuilder_Finish b))
       \<or> (\<exists>blk it. Block_new (bb_buffer (BlockBuilder_Finish b)) = Some blk \<and> Block_NewIterator blk = Some (Block_iter it)
            \<and> Option.bind (block_SeekToLast it) (collect block_Prev 3) = Some [([3], [30]), ([1, 2], [20]), ([1], [10])]))"
  using block_is_a_sorted_map [OF bytewise_order, of 2 "[([1], [10]), ([1, 2], [20]), ([3], [30])]" "[]"]
  by (auto simp: entries_ok_def ascending_def BytewiseCompare_lex numeral_3_eq_3)

section \<open>Lengths that wrap around\<close>

text \<open>The sum of two lengths is taken modulo \<open>2 ^ 32\<close>.\<close>

definition wrapping_block :: "byte list" where
  "wrapping_block = [0, 1, 0xff, 0xff, 0xff, 0xff, 0x0f, 7] @ [0, 0, 0, 0] @ [1, 0, 0, 0]"

lemma varint_ptr_suffix: "GetVarint32Ptr q = Some (v, rest) \<Longrightarrow> \<exists>used. q = used @ rest"
  by (auto simp: GetVarint32_eq [symmetric] GetVarint32_iff)

lemma entry_lengths_suffix: "entry_lengths q = Some (s, n, v, rest) \<Longrightarrow> \<exists>used. q = used @ rest"
proof -
  assume "entry_lengths q = Some (s, n, v, rest)"
  then consider "rest = drop 3 q" | q1 q2 where "GetVarint32Ptr q = Some (s, q1)" "GetVarint32Ptr q1 = Some (n, q2)"
      "GetVarint32Ptr q2 = Some (v, rest)"
    by (auto simp: entry_lengths_def Let_def bind_eq_Some_conv split: if_splits)
  then show ?thesis
  proof cases
    case 1
    then show ?thesis by (metis append_take_drop_id)
  next
    case 2
    then show ?thesis by (metis varint_ptr_suffix append_assoc)
  qed
qed

lemma advance_restart_some:
  "unat (bi_restarts it) + 4 * unat (bi_num_restarts it) \<le> length (bi_data it) \<Longrightarrow> \<exists>j. advance_restart it i = Some j"
proof (induction it i rule: advance_restart.induct)
  case (1 it i)
  show ?case
  proof (cases "i + 1 < unat (bi_num_restarts it)")
    case True
    then have "unat (bi_restarts it) + (i + 1) * 4 + 4 \<le> length (bi_data it)" using "1.prems" by (simp add: algebra_simps)
    then obtain p where "GetRestartPoint it (i + 1) = Some p" using True by (auto simp: GetRestartPoint_def fixed32_at_def)
    then show ?thesis using "1.IH" [OF True _ _ "1.prems"] True by (simp add: advance_restart.simps [of it i])
  qed (simp add: advance_restart.simps [of it i])
qed

text \<open>C37: what the length check of \<open>DecodeEntry\<close> lets through, for every block and every position.  An entry whose key and value are
  in the block is read as it is.  Lengths that are not give a corruption, but only when their sum modulo \<open>2 ^ 32\<close> is more than
  what is left of the block.  When it is not, the entry is accepted: \<open>ParseNextKey\<close> reads the key from behind the block, or the iterator
  becomes valid, without a change of its status, at a value that runs out of the block.\<close>

theorem block_lengths_wrap:
  assumes "unat (bi_restarts it) + 4 * unat (bi_num_restarts it) \<le> length (bi_data it)" and "length (bi_data it) < 2 ^ 32"
    and "NextEntryOffset it = Some cur" and "cur < unat (bi_restarts it)"
    and "entry_lengths (drop cur (take (unat (bi_restarts it)) (bi_data it))) = Some (shared, non_shared, value_length, rest)"
    and "unat shared \<le> length (bi_key it)"
  shows "if unat non_shared + unat value_length \<le> length rest
    then (\<exists>it1. ParseNextKey it = Some (True, it1) \<and> block_Valid it1 \<and> block_status it1 = block_status it
      \<and> block_key it1 = Some (take (unat shared) (bi_key it) @ take (unat non_shared) rest)
      \<and> block_value it1 = Some (take (unat value_length) (drop (unat non_shared) rest)))
    else if length rest < (unat non_shared + unat value_length) mod 2 ^ 32
    then (\<exists>it1. ParseNextKey it = Some (False, it1) \<and> \<not> block_Valid it1
      \<and> block_status it1 = Corruption (str ''bad entry in block'') [])
    else if length (bi_data it) < unat (bi_restarts it) - length rest + unat non_shared then ParseNextKey it = None
    else (\<exists>it1. ParseNextKey it = Some (True, it1) \<and> block_Valid it1 \<and> block_status it1 = block_status it
      \<and> block_value it1 = None)"
proof -
  let ?R = "unat (bi_restarts it)" and ?p = "unat (bi_restarts it) - length rest"
  obtain used where used: "drop cur (take ?R (bi_data it)) = used @ rest" using entry_lengths_suffix [OF assms(5)] by blast
  have R: "?R \<le> length (bi_data it)" using assms(1) by simp
  have lr: "length rest \<le> ?R - cur" using arg_cong [OF used, of length] R by simp
  have "?p = cur + length used" using arg_cong [OF used, of length] R assms(4) by simp
  then have "drop ?p (take ?R (bi_data it)) = drop (length used) (drop cur (take ?R (bi_data it)))"
    by (simp add: algebra_simps)
  then have rest: "drop ?p (take ?R (bi_data it)) = rest" by (simp add: used)
  have at_rest: "take k (drop ?p (bi_data it)) = take k rest" if "k \<le> length rest" for k
  proof -
    have "take k rest = take k (drop ?p (take ?R (bi_data it)))" by (simp only: rest)
    also have "\<dots> = take k (drop ?p (bi_data it))" using that R lr assms(4) by (simp add: drop_take min_absorb1)
    finally show ?thesis ..
  qed
  have w: "unat (word_of_nat (length rest) :: uint32) = length rest" using lr R assms(2) by (simp add: unat_of_nat)
  have check: "word_of_nat (length rest) < non_shared + value_length \<longleftrightarrow> length rest < (unat non_shared + unat value_length) mod 2 ^ 32"
    unfolding word_less_nat_alt w unat_word_ariths by simp
  let ?it = "it\<lparr>bi_current := cur\<rparr>"
  let ?it1 = "\<lambda>j. it\<lparr>bi_current := cur, bi_key := take (unat shared) (bi_key it) @ take (unat non_shared) (drop ?p (bi_data it)),
     bi_value := Some (?p + unat non_shared, unat value_length), bi_restart_index := j\<rparr>"
  have corrupt: "ParseNextKey it = Some (False, CorruptionError ?it)"
    if "length rest < (unat non_shared + unat value_length) mod 2 ^ 32"
    using assms(3-5) that check by (simp add: ParseNextKey_def DecodeEntry_def Let_def)
  have accept: "ParseNextKey it = (if length (bi_data it) < ?p + unat non_shared then None else Some (True, ?it1 j))"
    if "\<not> length rest < (unat non_shared + unat value_length) mod 2 ^ 32"
      "advance_restart (?it1 (bi_restart_index it)) (bi_restart_index it) = Some j" for j
    using assms(3-6) that check by (simp add: ParseNextKey_def DecodeEntry_def Let_def not_less)
  obtain j where j: "advance_restart (?it1 (bi_restart_index it)) (bi_restart_index it) = Some j"
    using advance_restart_some [of "?it1 (bi_restart_index it)"] assms(1) by auto
  have v: "block_Valid (?it1 j)" "block_status (?it1 j) = block_status it" using assms(4) by (simp_all add: block_Valid_def block_status_def)
  consider "unat non_shared + unat value_length \<le> length rest"
    | "length rest < unat non_shared + unat value_length" "length rest < (unat non_shared + unat value_length) mod 2 ^ 32"
    | "length rest < unat non_shared + unat value_length" "\<not> length rest < (unat non_shared + unat value_length) mod 2 ^ 32"
    by linarith
  then show ?thesis
  proof cases
    case 1
    then have n: "\<not> length rest < (unat non_shared + unat value_length) mod 2 ^ 32"
      by (meson le_trans mod_less_eq_dividend not_less)
    have "take (unat value_length) (drop (unat non_shared) (take (unat non_shared + unat value_length) (drop ?p (bi_data it))))
        = take (unat value_length) (drop (unat non_shared) rest)"
      unfolding at_rest [OF 1] using 1 by (simp add: drop_take)
    then have "take (unat value_length) (drop (?p + unat non_shared) (bi_data it)) = take (unat value_length) (drop (unat non_shared) rest)"
      by (simp add: drop_take add.commute)
    moreover have "?p + unat non_shared + unat value_length \<le> length (bi_data it)" using 1 R lr by linarith
    ultimately show ?thesis using 1 accept [OF n j] v at_rest [of "unat non_shared"]
      by (simp add: block_key_def block_value_def)
  next
    case 2
    then show ?thesis using corrupt by (auto simp: block_Valid_def block_status_def CorruptionError_def)
  next
    case 3
    have "2 ^ 32 \<le> unat non_shared + unat value_length"
    proof (rule ccontr)
      assume "\<not> 2 ^ 32 \<le> unat non_shared + unat value_length"
      then have "(unat non_shared + unat value_length) mod 2 ^ 32 = unat non_shared + unat value_length" by (intro mod_less) simp
      with 3 show False by simp
    qed
    then have "block_value (?it1 j) = None" using assms(2) v by (simp add: block_value_def)
    then show ?thesis using 3 accept [OF 3(2) j] v by auto
  qed
qed

text \<open>The last case: a damaged block of 16 bytes, on which the first entry is a value of \<open>2 ^ 32 - 1\<close> bytes.\<close>

theorem block_lengths_wrap_witness:
  "\<exists>blk it it0 it1. Block_new wrapping_block = Some blk \<and> Block_NewIterator blk = Some (Block_iter it)
    \<and> SeekToRestartPoint 0 it = Some it0 \<and> ParseNextKey it0 = Some (True, it1) \<and> block_Valid it1
    \<and> block_status it1 = OK \<and> block_value it1 = None"
proof -
  have n: "fixed32_at wrapping_block 12 = Some 1" "fixed32_at wrapping_block 8 = Some 0"
    by (simp_all add: fixed32_at_def wrapping_block_def DecodeFixed32_def kLittleEndian_def)
  have d: "entry_lengths (drop 0 (take 8 wrapping_block)) = Some (0, 1, - 1, [7])" unfolding wrapping_block_def by code_simp
  let ?blk = "\<lparr>bl_data = wrapping_block, bl_size = 16, bl_restart_offset = 8\<rparr>"
  let ?it = "\<lparr>bi_data = wrapping_block, bi_restarts = 8, bi_num_restarts = 1, bi_current = 8, bi_restart_index = 1,
    bi_key = [], bi_value = None, bi_status = OK\<rparr>"
  let ?start = "?it\<lparr>bi_restart_index := 0, bi_value := Some (0, 0)\<rparr>"
  have len: "length wrapping_block = 16" by (simp add: wrapping_block_def)
  have "Block_new wrapping_block = Some ?blk"
    using n len by (simp add: Block_new_def Let_def NumRestarts_def)
  moreover have "Block_NewIterator ?blk = Some (Block_iter ?it)"
    using n by (simp add: Block_NewIterator_def NumRestarts_def block_iter_new_def)
  moreover have "SeekToRestartPoint 0 ?it = Some ?start"
    using n len by (simp add: SeekToRestartPoint_def GetRestartPoint_def)
  moreover have "\<exists>it1. ParseNextKey ?start = Some (True, it1) \<and> block_Valid it1 \<and> block_status it1 = OK \<and> block_value it1 = None"
    using block_lengths_wrap [of ?start 0 0 1 "- 1" "[7]"] d len
    by (simp add: NextEntryOffset_def unsigned_minus_1_eq_mask mask_eq_exp_minus_1 block_status_def)
  ultimately show ?thesis by blast
qed

end
