(* ===== verification/Ldb_Iterator.thy ===== *)
theory Ldb_Iterator
  imports Ldb_Block_Build Ldb_Memtable
begin

text \<open>
  Iterators: the class \<open>Iterator\<close> (\<open>include/leveldb/iterator.h\<close>) as the record of its virtual methods
  over a state, the empty iterators of \<open>table/iterator.cc\<close>, and \<open>IteratorWrapper\<close>
  (\<open>table/iterator_wrapper.h\<close>), which caches \<open>Valid ()\<close> and \<open>key ()\<close>.  The contract of an iterator over a sorted
  sequence of entries is the locale \<open>iterator_over\<close>: the iterator of a block and the iterator of a memtable
  provide it, and the wrapper over any iterator that does.  A call that fails an assertion is \<open>None\<close>.
\<close>

declare One_nat_def [simp del]

section \<open>The code\<close>

record 'i Iterator =
  i_Valid :: "'i \<Rightarrow> bool"
  i_SeekToFirst :: "'i \<Rightarrow> 'i option"
  i_SeekToLast :: "'i \<Rightarrow> 'i option"
  i_Seek :: "byte list \<Rightarrow> 'i \<Rightarrow> 'i option"
  i_Next :: "'i \<Rightarrow> 'i option"
  i_Prev :: "'i \<Rightarrow> 'i option"
  i_key :: "'i \<Rightarrow> byte list option"
  i_value :: "'i \<Rightarrow> byte list option"
  i_status :: "'i \<Rightarrow> Status"

text \<open>The iterators that \<open>Block.NewIterator\<close> returns: an empty one with a status, or one over the block.\<close>

fun empty_status :: "any_iter \<Rightarrow> Status option" where
  "empty_status (Error_iter s) = Some s"
| "empty_status Empty_iter = Some OK"
| "empty_status (Block_iter it) = None"

definition on_block :: "(block_iter \<Rightarrow> 'a option) \<Rightarrow> 'a option \<Rightarrow> any_iter \<Rightarrow> 'a option" where
  "on_block f e it = (case it of Block_iter b \<Rightarrow> f b | _ \<Rightarrow> e)"

definition block_ops :: "(byte list \<Rightarrow> byte list \<Rightarrow> int) \<Rightarrow> any_iter Iterator" where
  "block_ops cmp = \<lparr>
     i_Valid = (\<lambda>it. case it of Block_iter b \<Rightarrow> block_Valid b | _ \<Rightarrow> False),
     i_SeekToFirst = (\<lambda>it. on_block (map_option Block_iter \<circ> block_SeekToFirst) (Some it) it),
     i_SeekToLast = (\<lambda>it. on_block (map_option Block_iter \<circ> block_SeekToLast) (Some it) it),
     i_Seek = (\<lambda>t it. on_block (map_option Block_iter \<circ> block_Seek cmp t) (Some it) it),
     i_Next = on_block (map_option Block_iter \<circ> block_Next) None,
     i_Prev = on_block (map_option Block_iter \<circ> block_Prev) None,
     i_key = on_block block_key None,
     i_value = on_block block_value None,
     i_status = (\<lambda>it. case it of Block_iter b \<Rightarrow> block_status b | _ \<Rightarrow> the (empty_status it))\<rparr>"

text \<open>The iterator of a memtable, which is a snapshot of the table and a place in it.\<close>

definition mem_ops :: "comparing \<Rightarrow> (MemTable \<times> iter) Iterator" where
  "mem_ops cmp = \<lparr>
     i_Valid = (\<lambda>(m, it). Iter_Valid it),
     i_SeekToFirst = (\<lambda>(m, it). map_option (Pair m) (MemIter_SeekToFirst m)),
     i_SeekToLast = (\<lambda>(m, it). map_option (Pair m) (MemIter_SeekToLast m)),
     i_Seek = (\<lambda>t (m, it). map_option (Pair m) (MemIter_Seek cmp m t)),
     i_Next = (\<lambda>(m, it). map_option (Pair m) (MemIter_Next m it)),
     i_Prev = (\<lambda>(m, it). map_option (Pair m) (MemIter_Prev cmp m it)),
     i_key = (\<lambda>(m, it). MemIter_key m it),
     i_value = (\<lambda>(m, it). MemIter_value m it),
     i_status = (\<lambda>_. OK)\<rparr>"

record 'i IteratorWrapper =
  w_iter :: "'i option"
  w_valid :: bool
  w_key :: "byte list"

definition wrapper_new :: "'i IteratorWrapper" where
  "wrapper_new = \<lparr>w_iter = None, w_valid = False, w_key = []\<rparr>"

definition wrapper_Update :: "'i Iterator \<Rightarrow> 'i IteratorWrapper \<Rightarrow> 'i IteratorWrapper option" where
  "wrapper_Update ops w = do {
     it \<leftarrow> w_iter w;
     (let w = w\<lparr>w_valid := i_Valid ops it\<rparr> in
      if w_valid w then do { k \<leftarrow> i_key ops it; Some (w\<lparr>w_key := k\<rparr>) } else Some w) }"

definition wrapper_Set :: "'i Iterator \<Rightarrow> 'i option \<Rightarrow> 'i IteratorWrapper \<Rightarrow> 'i IteratorWrapper option" where
  "wrapper_Set ops it w =
     (let w = w\<lparr>w_iter := it\<rparr> in if it = None then Some (w\<lparr>w_valid := False\<rparr>) else wrapper_Update ops w)"

definition wrapper_step :: "'i Iterator \<Rightarrow> ('i \<Rightarrow> 'i option) \<Rightarrow> 'i IteratorWrapper \<Rightarrow> 'i IteratorWrapper option" where
  "wrapper_step ops f w = do {
     it \<leftarrow> w_iter w;
     it \<leftarrow> f it;
     wrapper_Update ops (w\<lparr>w_iter := Some it\<rparr>) }"

definition wrapper_ops :: "'i Iterator \<Rightarrow> 'i IteratorWrapper Iterator" where
  "wrapper_ops ops = \<lparr>
     i_Valid = w_valid,
     i_SeekToFirst = wrapper_step ops (i_SeekToFirst ops),
     i_SeekToLast = wrapper_step ops (i_SeekToLast ops),
     i_Seek = (\<lambda>t. wrapper_step ops (i_Seek ops t)),
     i_Next = wrapper_step ops (i_Next ops),
     i_Prev = wrapper_step ops (i_Prev ops),
     i_key = (\<lambda>w. if w_valid w then Some (w_key w) else None),
     i_value = (\<lambda>w. if w_valid w then Option.bind (w_iter w) (i_value ops) else None),
     i_status = (\<lambda>w. i_status ops (the (w_iter w)))\<rparr>"

section \<open>The contract\<close>

text \<open>The place of the first entry that is not before the target, and the place before \<open>j\<close>; the place
  behind the last entry is where an iterator is not valid.\<close>

definition lower :: "(byte list \<Rightarrow> byte list \<Rightarrow> int) \<Rightarrow> entry list \<Rightarrow> byte list \<Rightarrow> nat" where
  "lower cmp es t = length (takeWhile (\<lambda>e. cmp (fst e) t < 0) es)"

definition before_place :: "entry list \<Rightarrow> nat \<Rightarrow> nat" where
  "before_place es j = (if j = 0 then length es else j - 1)"

locale iterator_over =
  fixes ops :: "'i Iterator" and cmp :: "byte list \<Rightarrow> byte list \<Rightarrow> int" and valid :: "byte list \<Rightarrow> bool"
    and stand :: "entry list \<Rightarrow> nat \<Rightarrow> 'i \<Rightarrow> bool"
  assumes place: "stand es j it \<Longrightarrow> j \<le> length es \<and> (i_Valid ops it \<longleftrightarrow> j < length es) \<and> i_status ops it = OK"
    and entries: "stand es j it \<Longrightarrow> ascending cmp es \<and> list_all (valid \<circ> fst) es"
    and here: "stand es j it \<Longrightarrow> j < length es \<Longrightarrow> i_key ops it = Some (fst (es ! j)) \<and> i_value ops it = Some (snd (es ! j))"
    and to_next: "stand es j it \<Longrightarrow> j < length es \<Longrightarrow> \<exists>it'. i_Next ops it = Some it' \<and> stand es (Suc j) it'"
    and to_prev: "stand es j it \<Longrightarrow> j < length es \<Longrightarrow> \<exists>it'. i_Prev ops it = Some it' \<and> stand es (before_place es j) it'"
    and to_first: "stand es j it \<Longrightarrow> \<exists>it'. i_SeekToFirst ops it = Some it' \<and> stand es 0 it'"
    and to_last: "stand es j it \<Longrightarrow> \<exists>it'. i_SeekToLast ops it = Some it' \<and> stand es (length es - 1) it'"
    and to_target: "stand es j it \<Longrightarrow> valid t \<Longrightarrow> \<exists>it'. i_Seek ops t it = Some it' \<and> stand es (lower cmp es t) it'"

text \<open>What an iterator shows from where it stands, moving by \<open>step\<close>; more than \<open>n\<close> entries are \<open>None\<close>.\<close>

fun shown :: "'i Iterator \<Rightarrow> ('i \<Rightarrow> 'i option) \<Rightarrow> nat \<Rightarrow> 'i \<Rightarrow> entry list option" where
  "shown ops step n it =
     (if \<not> i_Valid ops it then Some []
      else case n of
          0 \<Rightarrow> None
        | Suc n \<Rightarrow> do {
            k \<leftarrow> i_key ops it;
            v \<leftarrow> i_value ops it;
            it \<leftarrow> step it;
            es \<leftarrow> shown ops step n it;
            Some ((k, v) # es) })"

declare shown.simps [simp del]

context iterator_over
begin

lemma shown_Next: "stand es j it \<Longrightarrow> length es \<le> j + n \<Longrightarrow> shown ops (i_Next ops) n it = Some (drop j es)"
proof (induction n arbitrary: j it)
  case 0
  then show ?case using place [OF 0(1)] by (simp add: shown.simps [of ops _ 0 it])
next
  case (Suc n)
  show ?case
  proof (cases "j < length es")
    case True
    obtain it' where it': "i_Next ops it = Some it'" "stand es (Suc j) it'"
      using to_next [OF Suc.prems(1) True] by blast
    have "drop j es = es ! j # drop (Suc j) es" using True by (simp add: Cons_nth_drop_Suc)
    then show ?thesis
      using Suc.IH [OF it'(2)] Suc.prems(2) it'(1) here [OF Suc.prems(1) True] place [OF Suc.prems(1)] True
      by (simp add: shown.simps [of ops _ "Suc n" it])
  next
    case False
    then show ?thesis using place [OF Suc.prems(1)] by (simp add: shown.simps [of ops _ "Suc n" it])
  qed
qed

lemma shown_Prev: "stand es j it \<Longrightarrow> j < length es \<Longrightarrow> j < n \<Longrightarrow> shown ops (i_Prev ops) n it = Some (rev (take (Suc j) es))"
proof (induction n arbitrary: j it)
  case (Suc n)
  obtain it' where it': "i_Prev ops it = Some it'" "stand es (before_place es j) it'"
    using to_prev [OF Suc.prems(1,2)] by blast
  have es: "rev (take (Suc j) es) = es ! j # rev (take j es)" using Suc.prems(2) by (simp add: take_Suc_conv_app_nth)
  have "shown ops (i_Prev ops) n it' = Some (rev (take j es))"
  proof (cases j)
    case 0
    then have "\<not> i_Valid ops it'" using place [OF it'(2)] by (simp add: before_place_def)
    then show ?thesis using 0 by (simp add: shown.simps [of ops _ n it'])
  next
    case (Suc i)
    then have "stand es i it'" using it'(2) by (simp add: before_place_def)
    from Suc.IH [OF this] Suc.prems(2,3) Suc show ?thesis by simp
  qed
  then show ?case using it'(1) here [OF Suc.prems(1,2)] place [OF Suc.prems(1)] Suc.prems(2) es
    by (simp add: shown.simps [of ops _ "Suc n" it])
qed simp

text \<open>Forwards, backwards, and from a target.\<close>

lemma shown_all:
  assumes "stand es j it"
  shows "Option.bind (i_SeekToFirst ops it) (shown ops (i_Next ops) (length es)) = Some es"
    and "Option.bind (i_SeekToLast ops it) (shown ops (i_Prev ops) (length es)) = Some (rev es)"
    and "valid t \<Longrightarrow> Option.bind (i_Seek ops t it) (shown ops (i_Next ops) (length es))
      = Some (dropWhile (\<lambda>e. cmp (fst e) t < 0) es)"
proof -
  show "Option.bind (i_SeekToFirst ops it) (shown ops (i_Next ops) (length es)) = Some es"
    using to_first [OF assms] shown_Next [of es 0 _ "length es"] by auto
  obtain it' where it': "i_SeekToLast ops it = Some it'" "stand es (length es - 1) it'" using to_last [OF assms] by blast
  show "Option.bind (i_SeekToLast ops it) (shown ops (i_Prev ops) (length es)) = Some (rev es)"
  proof (cases "es = []")
    case True
    then show ?thesis using it' place [OF it'(2)] by (simp add: shown.simps [of ops _ 0 it'])
  next
    case False
    then show ?thesis using it' shown_Prev [OF it'(2)] by simp
  qed
  show "Option.bind (i_Seek ops t it) (shown ops (i_Next ops) (length es))
      = Some (dropWhile (\<lambda>e. cmp (fst e) t < 0) es)" if v: "valid t"
    unfolding dropWhile_eq_drop lower_def [symmetric]
    using to_target [OF assms v] shown_Next [of es "lower cmp es t" _ "length es"] by auto
qed

end

section \<open>The wrapper keeps the contract\<close>

definition wrapped :: "'i Iterator \<Rightarrow> (entry list \<Rightarrow> nat \<Rightarrow> 'i \<Rightarrow> bool) \<Rightarrow> entry list \<Rightarrow> nat \<Rightarrow> 'i IteratorWrapper \<Rightarrow> bool" where
  "wrapped ops stand es j w \<longleftrightarrow>
     (\<exists>it. w_iter w = Some it \<and> stand es j it \<and> w_valid w = i_Valid ops it \<and> (w_valid w \<longrightarrow> i_key ops it = Some (w_key w)))"

lemma wrapper_Update_ok:
  assumes c: "iterator_over ops cmp valid stand" and "w_iter w = Some it" and "stand es j it"
  shows "\<exists>w'. wrapper_Update ops w = Some w' \<and> wrapped ops stand es j w'"
  using iterator_over.place [OF c assms(3)] iterator_over.here [OF c assms(3)] assms(2,3)
  by (cases "j < length es") (auto simp: wrapper_Update_def wrapped_def Let_def)

lemma wrapper_step_ok:
  assumes c: "iterator_over ops cmp valid stand" and w: "w_iter w = Some it" and f: "\<exists>it'. f it = Some it' \<and> stand es j it'"
  shows "\<exists>w'. wrapper_step ops f w = Some w' \<and> wrapped ops stand es j w'"
  using wrapper_Update_ok [OF c, of "w\<lparr>w_iter := Some (the (f it))\<rparr>" _ es j] w f
  by (auto simp: wrapper_step_def)

lemma wrapper_over:
  assumes c: "iterator_over ops cmp valid stand"
  shows "iterator_over (wrapper_ops ops) cmp valid (wrapped ops stand)"
proof -
  note defs = wrapper_ops_def
  show ?thesis
  proof unfold_locales
    fix es j w
    assume w: "wrapped ops stand es j w"
    then obtain it where it: "w_iter w = Some it" "stand es j it" "w_valid w = i_Valid ops it"
      "w_valid w \<longrightarrow> i_key ops it = Some (w_key w)" by (auto simp: wrapped_def)
    note base = iterator_over.place [OF c it(2)] iterator_over.entries [OF c it(2)]
    show "j \<le> length es \<and> (i_Valid (wrapper_ops ops) w \<longleftrightarrow> j < length es) \<and> i_status (wrapper_ops ops) w = OK"
      "ascending cmp es \<and> list_all (valid \<circ> fst) es"
      using base it by (simp_all add: defs)
    show "j < length es \<Longrightarrow> i_key (wrapper_ops ops) w = Some (fst (es ! j)) \<and> i_value (wrapper_ops ops) w = Some (snd (es ! j))"
      using base it iterator_over.here [OF c it(2)] by (simp add: defs)
    show "j < length es \<Longrightarrow> \<exists>w'. i_Next (wrapper_ops ops) w = Some w' \<and> wrapped ops stand es (Suc j) w'"
      using wrapper_step_ok [where f = "i_Next ops", OF c it(1)] iterator_over.to_next [OF c it(2)] by (simp add: defs)
    show "j < length es \<Longrightarrow> \<exists>w'. i_Prev (wrapper_ops ops) w = Some w' \<and> wrapped ops stand es (before_place es j) w'"
      using wrapper_step_ok [where f = "i_Prev ops", OF c it(1)] iterator_over.to_prev [OF c it(2)] by (simp add: defs)
    show "\<exists>w'. i_SeekToFirst (wrapper_ops ops) w = Some w' \<and> wrapped ops stand es 0 w'"
      "\<exists>w'. i_SeekToLast (wrapper_ops ops) w = Some w' \<and> wrapped ops stand es (length es - 1) w'"
      using wrapper_step_ok [where f = "i_SeekToFirst ops", OF c it(1) iterator_over.to_first [OF c it(2)]]
        wrapper_step_ok [where f = "i_SeekToLast ops", OF c it(1) iterator_over.to_last [OF c it(2)]] by (simp_all add: defs)
    show "\<exists>w'. i_Seek (wrapper_ops ops) t w = Some w' \<and> wrapped ops stand es (lower cmp es t) w'" if "valid t" for t
      using wrapper_step_ok [where f = "i_Seek ops t", OF c it(1) iterator_over.to_target [OF c it(2) that]] by (simp add: defs)
  qed
qed

section \<open>Blocks provide it\<close>

definition on_entries :: "comparing \<Rightarrow> (byte list \<Rightarrow> bool) \<Rightarrow> entry list \<Rightarrow> nat \<Rightarrow> any_iter \<Rightarrow> bool" where
  "on_entries cmp valid es j it \<longleftrightarrow> ascending cmp es \<and> list_all (valid \<circ> fst) es \<and> j \<le> length es \<and>
     (\<exists>data R num off idx b. it = Block_iter b \<and> laid_out data R num es off idx
        \<and> (if j < length es then at data R num OK es off idx j b else done_with data R num OK b))"

lemma on_entriesI:
  assumes "laid_out data R num es off idx" and "ascending cmp es" and "list_all (valid \<circ> fst) es"
    and "if j < length es then \<exists>b'. r = Some b' \<and> at data R num OK es off idx j b'
      else \<exists>b'. r = Some b' \<and> done_with data R num OK b'" and "j \<le> length es"
  shows "\<exists>it'. map_option Block_iter r = Some it' \<and> on_entries cmp valid es j it'"
proof -
  obtain b' where b': "r = Some b'" "if j < length es then at data R num OK es off idx j b' else done_with data R num OK b'"
    using assms(4) by (cases "j < length es") auto
  then have "on_entries cmp valid es j (Block_iter b')"
    unfolding on_entries_def using assms(1-3,5) by blast
  then show ?thesis using b'(1) by simp
qed

lemma block_iterator_over:
  assumes ord: "key_order valid cmp"
  shows "iterator_over (block_ops cmp) cmp valid (on_entries cmp valid)"
proof unfold_locales
  fix es j it
  assume st: "on_entries cmp valid es j it"
  then obtain data R num off idx b where it: "it = Block_iter b" and lay: "laid_out data R num es off idx"
    and b: "if j < length es then at data R num OK es off idx j b else done_with data R num OK b"
    and e: "ascending cmp es" "list_all (valid \<circ> fst) es" "j \<le> length es"
    by (auto simp: on_entries_def)
  have ov: "over data R num OK b" using b at_about(4) [OF lay] by (auto simp: done_with_def split: if_splits)
  have valid: "block_Valid b \<longleftrightarrow> j < length es"
    using b at_about(3) [OF lay] by (auto simp: done_with_def over_def block_Valid_def split: if_splits)
  show "j \<le> length es \<and> (i_Valid (block_ops cmp) it \<longleftrightarrow> j < length es) \<and> i_status (block_ops cmp) it = OK"
    using valid e(3) ov it by (simp add: block_ops_def block_status_def over_def)
  show "ascending cmp es \<and> list_all (valid \<circ> fst) es" using e by simp
  note intro = on_entriesI [OF lay e(1,2)]
  show "\<exists>it'. i_SeekToFirst (block_ops cmp) it = Some it' \<and> on_entries cmp valid es 0 it'"
    using intro [of 0 "block_SeekToFirst b"] block_SeekToFirst_laid [OF lay ov] it
    by (simp add: block_ops_def on_block_def split: if_splits)
  show "\<exists>it'. i_SeekToLast (block_ops cmp) it = Some it' \<and> on_entries cmp valid es (length es - 1) it'"
    using intro [of "length es - 1" "block_SeekToLast b"] block_SeekToLast_laid [OF lay ov] it
    by (cases "es = []") (simp_all add: block_ops_def on_block_def)
  show "\<exists>it'. i_Seek (block_ops cmp) t it = Some it' \<and> on_entries cmp valid es (lower cmp es t) it'" if "valid t" for t
    using intro [OF block_Seek_laid [OF ord lay ov e(1,2) that, folded lower_def]] it
    by (simp add: block_ops_def on_block_def lower_def length_takeWhile_le)
  assume j: "j < length es"
  then have here: "at data R num OK es off idx j b" using b by simp
  show "i_key (block_ops cmp) it = Some (fst (es ! j)) \<and> i_value (block_ops cmp) it = Some (snd (es ! j))"
    using at_shows [OF lay here] it by (simp add: block_ops_def on_block_def)
  show "\<exists>it'. i_Next (block_ops cmp) it = Some it' \<and> on_entries cmp valid es (Suc j) it'"
    using intro [OF block_Next_laid [OF lay here]] j it by (simp add: block_ops_def on_block_def)
  show "\<exists>it'. i_Prev (block_ops cmp) it = Some it' \<and> on_entries cmp valid es (before_place es j) it'"
  proof (cases "j = 0")
    case True
    then show ?thesis using intro [of "length es" "block_Prev b"] block_Prev_laid [OF lay here] it
      by (simp add: block_ops_def on_block_def before_place_def)
  next
    case False
    then have "\<exists>b'. block_Prev b = Some b' \<and> at data R num OK es off idx (j - 1) b'" and i: "j - 1 < length es"
      using block_Prev_laid [OF lay here] j by simp_all
    then have "\<exists>it'. map_option Block_iter (block_Prev b) = Some it' \<and> on_entries cmp valid es (j - 1) it'"
      by (intro intro) simp_all
    then show ?thesis using False it by (simp add: block_ops_def on_block_def before_place_def)
  qed
qed

interpretation block_iterator: iterator_over "block_ops BytewiseCompare" BytewiseCompare "\<lambda>_. True"
    "on_entries BytewiseCompare (\<lambda>_. True)"
  by (rule block_iterator_over [OF bytewise_order])

section \<open>Memtables provide it\<close>

text \<open>The entries of a memtable: internal keys with their values.\<close>

definition mem_key :: "(byte list \<Rightarrow> bool) \<Rightarrow> byte list \<Rightarrow> bool" where
  "mem_key valid k \<longleftrightarrow> internal_valid valid k \<and> length k < 2 ^ 32"

fun version_entry :: "version \<Rightarrow> entry" where
  "version_entry (u, s, t, v) = (internal_bytes u (tag_of s t), v)"

definition on_memtable :: "comparing \<Rightarrow> (byte list \<Rightarrow> bool) \<Rightarrow> entry list \<Rightarrow> nat \<Rightarrow> MemTable \<times> iter \<Rightarrow> bool" where
  "on_memtable cmp valid es j x \<longleftrightarrow> (\<exists>vs. list_all (version_ok valid) vs \<and> es = map version_entry vs
     \<and> holds (entry_ok valid) (KeyComparator cmp) (mem_table (fst x)) (map version_bytes vs)
     \<and> stands (entry_ok valid) (KeyComparator cmp) (mem_table (fst x)) (map version_bytes vs) (snd x) j)"

lemma KeyComparator_versions:
  "version_ok valid e \<Longrightarrow> version_ok valid f \<Longrightarrow>
   KeyComparator cmp (version_bytes e) (version_bytes f) = InternalKeyCompare cmp (fst (version_entry e)) (fst (version_entry f))"
  by (cases e; cases f) (simp add: KeyComparator_bytes)

lemma EncodeKey_bytes: "length k < 2 ^ 32 \<Longrightarrow> EncodeKey k = slice_bytes k"
proof -
  assume "length k < 2 ^ 32"
  then have "unat (word_of_nat (length k) :: uint32) = length k" by (simp only: unat_of_nat) simp
  then show ?thesis by (simp add: EncodeKey_def PutVarint32_def EncodeVarint32_varint slice_bytes_def)
qed

lemma EncodeKey_entry:
  assumes "mem_key valid k"
  shows "entry_ok valid (EncodeKey k)" and "entry_key (EncodeKey k) = k"
proof -
  obtain u tag where k: "k = internal_bytes u tag" "valid u"
    using assms by (auto simp: mem_key_def elim: internal_valid_cases)
  have l: "length u + 8 < 2 ^ 32" using assms k(1) by (simp add: mem_key_def)
  have "EncodeKey k = entry_bytes u tag []" using assms k(1) by (simp add: mem_key_def EncodeKey_bytes slice_bytes_def entry_bytes_def)
  then show "entry_ok valid (EncodeKey k)" "entry_key (EncodeKey k) = k"
    using l k entry_bytes_slice(2) [OF l, of tag "[]"] by (auto simp: entry_ok_def)
qed

lemma ascending_versions:
  assumes "list_all (version_ok valid) vs" and "sorted_wrt (\<lambda>x y. KeyComparator cmp x y < 0) (map version_bytes vs)"
  shows "ascending (InternalKeyCompare cmp) (map version_entry vs)"
  using assms
proof (induction vs)
  case (Cons v vs)
  from Cons.prems(1) have "InternalKeyCompare cmp (fst (version_entry v)) (fst (version_entry w))
      = KeyComparator cmp (version_bytes v) (version_bytes w)" if "w \<in> set vs" for w
    using that by (intro KeyComparator_versions [symmetric, where valid = valid]) (simp_all add: list_all_iff)
  with Cons show ?case by (simp add: ascending_def)
qed (simp add: ascending_def)

lemma memtable_iterator_over:
  assumes ord: "key_order valid cmp"
  shows "iterator_over (mem_ops cmp) (InternalKeyCompare cmp) (mem_key valid) (on_memtable cmp valid)"
proof unfold_locales
  note eo = entry_order [OF ord]
  fix es j x
  assume st: "on_memtable cmp valid es j x"
  obtain m it where x: "x = (m, it)" by fastforce
  obtain vs where vs: "list_all (version_ok valid) vs" "es = map version_entry vs"
    "holds (entry_ok valid) (KeyComparator cmp) (mem_table m) (map version_bytes vs)"
    "stands (entry_ok valid) (KeyComparator cmp) (mem_table m) (map version_bytes vs) it j"
    using st x by (auto simp: on_memtable_def)
  have intro: "on_memtable cmp valid es i (m, it')"
    if "stands (entry_ok valid) (KeyComparator cmp) (mem_table m) (map version_bytes vs) it' i" for i it'
    using vs that by (auto simp: on_memtable_def)
  have len: "length es = length vs" using vs(2) by simp
  show "j \<le> length es \<and> (i_Valid (mem_ops cmp) x \<longleftrightarrow> j < length es) \<and> i_status (mem_ops cmp) x = OK"
    using key_order.iter_here(1) [OF eo vs(4)] vs(4) len x by (simp add: mem_ops_def stands_def)
  have "list_all (mem_key valid \<circ> fst) es"
    using vs(1) unfolding vs(2) by (fastforce simp: list_all_iff mem_key_def)
  then show "ascending (InternalKeyCompare cmp) es \<and> list_all (mem_key valid \<circ> fst) es"
    using ascending_versions [OF vs(1)] key_order.holds_valid [OF eo vs(3)] vs(2) by simp
  show "\<exists>x'. i_SeekToFirst (mem_ops cmp) x = Some x' \<and> on_memtable cmp valid es 0 x'"
    "\<exists>x'. i_SeekToLast (mem_ops cmp) x = Some x' \<and> on_memtable cmp valid es (length es - 1) x'"
    using key_order.iter_ends [OF eo vs(3)] intro x len
    by (auto simp: mem_ops_def MemIter_SeekToFirst_def MemIter_SeekToLast_def)
  show "\<exists>x'. i_Seek (mem_ops cmp) t x = Some x' \<and> on_memtable cmp valid es (lower (InternalKeyCompare cmp) es t) x'"
    if t: "mem_key valid t" for t
  proof -
    note e = EncodeKey_entry [OF t]
    have "length (less_than (KeyComparator cmp) (EncodeKey t) (map version_bytes vs)) = lower (InternalKeyCompare cmp) es t"
    proof -
      have "KeyComparator cmp (version_bytes f) (EncodeKey t) = InternalKeyCompare cmp (fst (version_entry f)) t"
        if "f \<in> set vs" for f
      proof -
        obtain k q ty v where f: "f = (k, q, ty, v)" by (cases f) auto
        then have "length k + 8 < 2 ^ 32" using vs(1) that by (fastforce simp: list_all_iff)
        then show ?thesis using e(2) f entry_bytes_slice(2) by (simp add: KeyComparator_def)
      qed
      then show ?thesis unfolding less_than_def lower_def vs(2) takeWhile_map length_map
        by (intro arg_cong [where f = length] takeWhile_cong) (simp_all add: comp_def)
    qed
    with key_order.iter_seek [OF eo vs(3) e(1)] show ?thesis
      using intro x by (auto simp: mem_ops_def MemIter_Seek_def)
  qed
  assume j: "j < length es"
  obtain k q ty v where f: "vs ! j = (k, q, ty, v)" by (cases "vs ! j") auto
  have jv: "j < length (map version_bytes vs)" using j len by simp
  have okf: "version_ok valid (k, q, ty, v)" using vs(1) j len f by (metis list_all_length)
  have "Iter_key (mem_table m) it = Some (version_bytes (k, q, ty, v))"
    using key_order.iter_here(2) [OF eo vs(4) jv] f jv by simp
  moreover have "es ! j = (internal_bytes k (tag_of q ty), v)" using vs(2) f j len by simp
  moreover have "EntrySlice (version_bytes (k, q, ty, v)) = Some (internal_bytes k (tag_of q ty), slice_bytes v)"
    using entry_bytes_slice(1) okf by simp
  ultimately show "i_key (mem_ops cmp) x = Some (fst (es ! j)) \<and> i_value (mem_ops cmp) x = Some (snd (es ! j))"
    using answer_of_entry(2) [OF okf] x by (simp add: mem_ops_def MemIter_key_def MemIter_value_def)
  show "\<exists>x'. i_Next (mem_ops cmp) x = Some x' \<and> on_memtable cmp valid es (Suc j) x'"
    using key_order.iter_next [OF eo vs(4) jv] intro x by (auto simp: mem_ops_def MemIter_Next_def)
  show "\<exists>x'. i_Prev (mem_ops cmp) x = Some x' \<and> on_memtable cmp valid es (before_place es j) x'"
    using key_order.iter_prev [OF eo vs(4) jv] intro x len
    by (auto simp: mem_ops_def MemIter_Prev_def before_place_def split: if_splits)
qed

interpretation memtable_iterator: iterator_over "mem_ops BytewiseCompare" "InternalKeyCompare BytewiseCompare"
    "mem_key (\<lambda>_. True)" "on_memtable BytewiseCompare (\<lambda>_. True)"
  by (rule memtable_iterator_over [OF bytewise_order])

end
