(* ===== verification/Ldb_Merger.thy ===== *)
theory Ldb_Merger
  imports Ldb_Iterator "HOL-Library.Multiset"
begin

text \<open>
  \<open>MergingIterator\<close> (\<open>table/merger.cc\<close>): one iterator over the entries of several children, which keeps all
  children at or behind the current entry when it moves forwards and at or before it when it moves backwards,
  and repositions them when the direction changes.  Over children that are iterators over disjoint ascending
  sequences it keeps the contract of an iterator over the merged sequence.
\<close>

declare One_nat_def [simp del]

section \<open>The code\<close>

datatype Direction = kForward | kReverse

record 'i MergingIterator =
  mg_children :: "'i IteratorWrapper list"
  mg_current :: "nat option"
  mg_direction :: Direction

text \<open>Both searches keep the best valid child so far; a later child replaces it when it is better.\<close>

primrec best_child :: "(byte list \<Rightarrow> byte list \<Rightarrow> bool) \<Rightarrow> 'i IteratorWrapper list \<Rightarrow> nat list \<Rightarrow> nat option \<Rightarrow> nat option" where
  "best_child better cs [] best = best"
| "best_child better cs (i # is) best = best_child better cs is
     (if w_valid (cs ! i)
      then case best of None \<Rightarrow> Some i | Some b \<Rightarrow> if better (w_key (cs ! i)) (w_key (cs ! b)) then Some i else best
      else best)"

definition FindSmallest :: "comparing \<Rightarrow> 'i MergingIterator \<Rightarrow> 'i MergingIterator" where
  "FindSmallest cmp m = m\<lparr>mg_current := best_child (\<lambda>k s. cmp k s < 0) (mg_children m) [0..<length (mg_children m)] None\<rparr>"

definition FindLargest :: "comparing \<Rightarrow> 'i MergingIterator \<Rightarrow> 'i MergingIterator" where
  "FindLargest cmp m = m\<lparr>mg_current := best_child (\<lambda>k l. 0 < cmp k l) (mg_children m) (rev [0..<length (mg_children m)]) None\<rparr>"

text \<open>A loop over the children that leaves out the child \<open>skip\<close>.\<close>

primrec each_child :: "('i IteratorWrapper \<Rightarrow> 'i IteratorWrapper option) \<Rightarrow> nat option \<Rightarrow> nat \<Rightarrow> 'i IteratorWrapper list
    \<Rightarrow> 'i IteratorWrapper list option" where
  "each_child f skip i [] = Some []"
| "each_child f skip i (w # ws) = do {
     w \<leftarrow> (if skip = Some i then Some w else f w);
     ws \<leftarrow> each_child f skip (Suc i) ws;
     Some (w # ws) }"

definition merging_seek :: "comparing \<Rightarrow> Direction \<Rightarrow> ('i IteratorWrapper \<Rightarrow> 'i IteratorWrapper option) \<Rightarrow> 'i MergingIterator
    \<Rightarrow> 'i MergingIterator option" where
  "merging_seek cmp d f m = do {
     cs \<leftarrow> each_child f None 0 (mg_children m);
     (let m = m\<lparr>mg_children := cs\<rparr>;
          m = (if d = kForward then FindSmallest cmp m else FindLargest cmp m) in
      Some (m\<lparr>mg_direction := d\<rparr>)) }"

definition seek_after :: "'i Iterator \<Rightarrow> comparing \<Rightarrow> byte list \<Rightarrow> 'i IteratorWrapper \<Rightarrow> 'i IteratorWrapper option" where
  "seek_after ops cmp k w = do {
     w \<leftarrow> i_Seek (wrapper_ops ops) k w;
     (if w_valid w \<and> cmp k (w_key w) = 0 then i_Next (wrapper_ops ops) w else Some w) }"

definition seek_before :: "'i Iterator \<Rightarrow> byte list \<Rightarrow> 'i IteratorWrapper \<Rightarrow> 'i IteratorWrapper option" where
  "seek_before ops k w = do {
     w \<leftarrow> i_Seek (wrapper_ops ops) k w;
     (if w_valid w then i_Prev (wrapper_ops ops) w else i_SeekToLast (wrapper_ops ops) w) }"

definition merging_key :: "'i Iterator \<Rightarrow> 'i MergingIterator \<Rightarrow> byte list option" where
  "merging_key ops m = do { c \<leftarrow> mg_current m; i_key (wrapper_ops ops) (mg_children m ! c) }"

definition turn :: "('i IteratorWrapper \<Rightarrow> 'i IteratorWrapper option) \<Rightarrow> Direction \<Rightarrow> 'i MergingIterator \<Rightarrow> 'i MergingIterator option" where
  "turn f d m =
     (if mg_direction m \<noteq> d then do {
        cs \<leftarrow> each_child f (mg_current m) 0 (mg_children m);
        Some (m\<lparr>mg_children := cs, mg_direction := d\<rparr>) }
      else Some m)"

definition step_current :: "('i IteratorWrapper \<Rightarrow> 'i IteratorWrapper option) \<Rightarrow> 'i MergingIterator \<Rightarrow> 'i MergingIterator option" where
  "step_current f m = do {
     c \<leftarrow> mg_current m;
     w \<leftarrow> f (mg_children m ! c);
     Some (m\<lparr>mg_children := (mg_children m)[c := w]\<rparr>) }"

definition merging_Next :: "'i Iterator \<Rightarrow> comparing \<Rightarrow> 'i MergingIterator \<Rightarrow> 'i MergingIterator option" where
  "merging_Next ops cmp m = do {
     k \<leftarrow> merging_key ops m;
     m \<leftarrow> turn (seek_after ops cmp k) kForward m;
     m \<leftarrow> step_current (i_Next (wrapper_ops ops)) m;
     Some (FindSmallest cmp m) }"

definition merging_Prev :: "'i Iterator \<Rightarrow> comparing \<Rightarrow> 'i MergingIterator \<Rightarrow> 'i MergingIterator option" where
  "merging_Prev ops cmp m = do {
     k \<leftarrow> merging_key ops m;
     m \<leftarrow> turn (seek_before ops k) kReverse m;
     m \<leftarrow> step_current (i_Prev (wrapper_ops ops)) m;
     Some (FindLargest cmp m) }"

primrec first_error :: "'i Iterator \<Rightarrow> 'i IteratorWrapper list \<Rightarrow> Status \<Rightarrow> Status" where
  "first_error ops [] s = s"
| "first_error ops (w # ws) s =
     (let s = i_status (wrapper_ops ops) w in if \<not> ok s then s else first_error ops ws s)"

definition merging_ops :: "'i Iterator \<Rightarrow> comparing \<Rightarrow> 'i MergingIterator Iterator" where
  "merging_ops ops cmp = \<lparr>
     i_Valid = (\<lambda>m. mg_current m \<noteq> None),
     i_SeekToFirst = merging_seek cmp kForward (i_SeekToFirst (wrapper_ops ops)),
     i_SeekToLast = merging_seek cmp kReverse (i_SeekToLast (wrapper_ops ops)),
     i_Seek = (\<lambda>t. merging_seek cmp kForward (i_Seek (wrapper_ops ops) t)),
     i_Next = merging_Next ops cmp,
     i_Prev = merging_Prev ops cmp,
     i_key = merging_key ops,
     i_value = (\<lambda>m. do { c \<leftarrow> mg_current m; i_value (wrapper_ops ops) (mg_children m ! c) }),
     i_status = (\<lambda>m. first_error ops (mg_children m) OK)\<rparr>"

text \<open>The iterator over no children is the empty one, the iterator over one child is that child.\<close>

datatype 'i Merged = No_children | Only_child 'i | Many_children "'i MergingIterator"

primrec set_children :: "'i Iterator \<Rightarrow> 'i list \<Rightarrow> 'i IteratorWrapper list option" where
  "set_children ops [] = Some []"
| "set_children ops (it # its) = do {
     w \<leftarrow> wrapper_Set ops (Some it) wrapper_new;
     ws \<leftarrow> set_children ops its;
     Some (w # ws) }"

definition NewMergingIterator :: "'i Iterator \<Rightarrow> 'i list \<Rightarrow> 'i Merged option" where
  "NewMergingIterator ops children =
     (if children = [] then Some No_children
      else if length children = 1 then Some (Only_child (hd children))
      else do {
        cs \<leftarrow> set_children ops children;
        Some (Many_children \<lparr>mg_children = cs, mg_current = None, mg_direction = kForward\<rparr>) })"

definition on_merged :: "('i \<Rightarrow> 'a) \<Rightarrow> ('i MergingIterator \<Rightarrow> 'a) \<Rightarrow> 'a \<Rightarrow> 'i Merged \<Rightarrow> 'a" where
  "on_merged f g e m = (case m of No_children \<Rightarrow> e | Only_child it \<Rightarrow> f it | Many_children m \<Rightarrow> g m)"

definition merged_ops :: "'i Iterator \<Rightarrow> comparing \<Rightarrow> 'i Merged Iterator" where
  "merged_ops ops cmp = (let only = (\<lambda>f. map_option Only_child \<circ> f); many = (\<lambda>f. map_option Many_children \<circ> f); mops = merging_ops ops cmp in \<lparr>
     i_Valid = on_merged (i_Valid ops) (i_Valid mops) False,
     i_SeekToFirst = on_merged (only (i_SeekToFirst ops)) (many (i_SeekToFirst mops)) (Some No_children),
     i_SeekToLast = on_merged (only (i_SeekToLast ops)) (many (i_SeekToLast mops)) (Some No_children),
     i_Seek = (\<lambda>t. on_merged (only (i_Seek ops t)) (many (i_Seek mops t)) (Some No_children)),
     i_Next = on_merged (only (i_Next ops)) (many (i_Next mops)) None,
     i_Prev = on_merged (only (i_Prev ops)) (many (i_Prev mops)) None,
     i_key = on_merged (i_key ops) (i_key mops) None,
     i_value = on_merged (i_value ops) (i_value mops) None,
     i_status = on_merged (i_status ops) (i_status mops) OK\<rparr>)"

section \<open>Merged sequences\<close>

text \<open>A merged sequence tags every entry with the child it comes from.\<close>

type_synonym tagged = "(nat \<times> entry) list"

definition entries_of :: "nat \<Rightarrow> tagged \<Rightarrow> entry list" where
  "entries_of i T = map snd (filter (\<lambda>x. fst x = i) T)"

definition rank :: "nat \<Rightarrow> tagged \<Rightarrow> nat \<Rightarrow> nat" where
  "rank i T j = length (entries_of i (take j T))"

lemma entries_of_append: "entries_of i (T @ U) = entries_of i T @ entries_of i U"
  by (simp add: entries_of_def)

lemma rank_Suc: "j < length T \<Longrightarrow> rank i T (Suc j) = (if fst (T ! j) = i then Suc (rank i T j) else rank i T j)"
  by (simp add: rank_def entries_of_def take_Suc_conv_app_nth)

lemma rank_0 [simp]: "rank i T 0 = 0"
  by (simp add: rank_def entries_of_def)

lemma rank_all [simp]: "rank i T (length T) = length (entries_of i T)"
  by (simp add: rank_def)

lemma rank_le: "rank i T j \<le> length (entries_of i T)"
proof -
  have "entries_of i T = entries_of i (take j T) @ entries_of i (drop j T)" by (simp flip: entries_of_append)
  then show ?thesis by (simp add: rank_def)
qed

lemma entries_of_at_rank:
  assumes "j < length T"
  shows "rank (fst (T ! j)) T j < length (entries_of (fst (T ! j)) T)"
    and "entries_of (fst (T ! j)) T ! rank (fst (T ! j)) T j = snd (T ! j)"
proof -
  have T: "T = take j T @ T ! j # drop (Suc j) T" using assms by (rule id_take_nth_drop)
  have "entries_of (fst (T ! j)) T = entries_of (fst (T ! j)) (take j T) @ snd (T ! j) # entries_of (fst (T ! j)) (drop (Suc j) T)"
    by (subst T, simp add: entries_of_append) (simp add: entries_of_def)
  then show "rank (fst (T ! j)) T j < length (entries_of (fst (T ! j)) T)"
    "entries_of (fst (T ! j)) T ! rank (fst (T ! j)) T j = snd (T ! j)" by (simp_all add: rank_def nth_append)
qed

text \<open>Where the entry behind a rank, and the one before it, are in the merged sequence.\<close>

lemma entries_of_after_rank:
  assumes "rank i T j < length (entries_of i T)"
  obtains j' where "j \<le> j'" "j' < length T" "fst (T ! j') = i" "entries_of i T ! rank i T j = snd (T ! j')"
proof -
  have "entries_of i T = entries_of i (take j T) @ entries_of i (drop j T)" by (simp flip: entries_of_append)
  then have "entries_of i T ! rank i T j = hd (entries_of i (drop j T))" and "entries_of i (drop j T) \<noteq> []"
    using assms by (auto simp: rank_def nth_append hd_conv_nth)
  then have "entries_of i T ! rank i T j \<in> set (entries_of i (drop j T))" by simp
  then obtain x where x: "x \<in> set (drop j T)" "fst x = i" "entries_of i T ! rank i T j = snd x" by (auto simp: entries_of_def)
  then obtain n where "n < length T - j" "x = T ! (j + n)" by (auto simp: in_set_conv_nth)
  then show ?thesis using that [of "j + n"] x by simp
qed

lemma entries_of_before_rank:
  assumes "0 < rank i T j" and "j \<le> length T"
  obtains j' where "j' < j" "fst (T ! j') = i" "entries_of i T ! (rank i T j - 1) = snd (T ! j')"
proof -
  have "entries_of i T = entries_of i (take j T) @ entries_of i (drop j T)" by (simp flip: entries_of_append)
  then have "entries_of i T ! (rank i T j - 1) = entries_of i (take j T) ! (rank i T j - 1)"
    using assms(1) by (simp add: rank_def nth_append)
  also have "\<dots> \<in> set (entries_of i (take j T))" using assms(1) by (simp add: rank_def)
  finally obtain x where "x \<in> set (take j T)" "fst x = i" "snd x = entries_of i T ! (rank i T j - 1)" by (auto simp: entries_of_def)
  then show ?thesis using that assms(2) by (auto simp: in_set_conv_nth)
qed

section \<open>The loops\<close>

lemma each_child_all:
  assumes "\<And>i. i < length cs \<Longrightarrow> skip \<noteq> Some (k + i) \<Longrightarrow> \<exists>w. f (cs ! i) = Some w \<and> P (k + i) w"
  shows "\<exists>cs'. each_child f skip k cs = Some cs' \<and> length cs' = length cs
    \<and> (\<forall>i<length cs. if skip = Some (k + i) then cs' ! i = cs ! i else P (k + i) (cs' ! i))"
  using assms
proof (induction cs arbitrary: k)
  case (Cons c cs)
  have "\<exists>cs'. each_child f skip (Suc k) cs = Some cs' \<and> length cs' = length cs
      \<and> (\<forall>i<length cs. if skip = Some (Suc k + i) then cs' ! i = cs ! i else P (Suc k + i) (cs' ! i))"
    using Cons.prems [of "Suc _"] by (intro Cons.IH) auto
  then obtain cs' where cs': "each_child f skip (Suc k) cs = Some cs'" "length cs' = length cs"
    "\<forall>i<length cs. if skip = Some (Suc k + i) then cs' ! i = cs ! i else P (Suc k + i) (cs' ! i)" by blast
  obtain w where w: "(if skip = Some k then Some c else f c) = Some w" "if skip = Some k then w = c else P k w"
    using Cons.prems [of 0] by (cases "skip = Some k") auto
  then have "each_child f skip k (c # cs) = Some (w # cs')" using cs'(1) by simp
  moreover have "\<forall>i<length (c # cs). if skip = Some (k + i) then (w # cs') ! i = (c # cs) ! i else P (k + i) ((w # cs') ! i)"
    using w(2) cs'(3) by (auto simp: nth_Cons split: nat.splits)
  ultimately show ?case using cs'(2) by (intro exI [of _ "w # cs'"]) simp
qed simp

lemma best_child_none: "(\<And>i. i \<in> set is \<Longrightarrow> \<not> w_valid (cs ! i)) \<Longrightarrow> best_child better cs is best = best"
  by (induction "is") auto

lemma best_child_best:
  assumes "m \<in> set is" and "w_valid (cs ! m)" and "\<not> better (w_key (cs ! m)) (w_key (cs ! m))"
    and "\<And>i. i \<in> set is \<Longrightarrow> w_valid (cs ! i) \<Longrightarrow> i \<noteq> m \<Longrightarrow>
      better (w_key (cs ! m)) (w_key (cs ! i)) \<and> \<not> better (w_key (cs ! i)) (w_key (cs ! m))"
  shows "best_child better cs is None = Some m"
proof -
  have keep: "best_child better cs js (Some m) = Some m" if "set js \<subseteq> set is" for js
    using that assms(3,4) by (induction js) auto
  have "best_child better cs js best = Some m"
    if "set js \<subseteq> set is" "m \<in> set js" "case best of None \<Rightarrow> True | Some b \<Rightarrow> b \<in> set is \<and> w_valid (cs ! b) \<and> b \<noteq> m" for js best
    using that
  proof (induction js arbitrary: best)
    case (Cons i js)
    show ?case
    proof (cases "i = m")
      case True
      then show ?thesis using Cons.prems keep [of js] assms(2,4) by (auto split: option.splits)
    next
      case False
      then show ?thesis using Cons.prems by (auto split: option.splits intro!: Cons.IH)
    qed
  qed simp
  from this [of "is" None] assms(1) show ?thesis by simp
qed

section \<open>The contract\<close>

definition children_at :: "'i Iterator \<Rightarrow> (entry list \<Rightarrow> nat \<Rightarrow> 'i \<Rightarrow> bool) \<Rightarrow> tagged \<Rightarrow> (nat \<Rightarrow> nat) \<Rightarrow> 'i IteratorWrapper list \<Rightarrow> bool" where
  "children_at ops stand T p cs \<longleftrightarrow> (\<forall>i<length cs. wrapped ops stand (entries_of i T) (p i) (cs ! i))"

text \<open>All children at or behind the merged place \<open>j\<close>, or before it.\<close>

definition forwards :: "tagged \<Rightarrow> nat \<Rightarrow> nat \<Rightarrow> nat" where
  "forwards T j i = rank i T j"

definition backwards :: "tagged \<Rightarrow> nat \<Rightarrow> nat \<Rightarrow> nat" where
  "backwards T j i = before_place (entries_of i T) (rank i T j)"

definition stands_merged :: "'i Iterator \<Rightarrow> (entry list \<Rightarrow> nat \<Rightarrow> 'i \<Rightarrow> bool) \<Rightarrow> tagged \<Rightarrow> nat \<Rightarrow> 'i MergingIterator \<Rightarrow> bool" where
  "stands_merged ops stand T j m \<longleftrightarrow>
     (if j < length T then mg_current m = Some (fst (T ! j))
        \<and> (if mg_direction m = kForward then children_at ops stand T (forwards T j) (mg_children m)
           else children_at ops stand T (backwards T (Suc j)) (mg_children m))
      else j = length T \<and> mg_current m = None \<and> (\<exists>p. children_at ops stand T p (mg_children m)))"

definition merges :: "comparing \<Rightarrow> (byte list \<Rightarrow> bool) \<Rightarrow> nat \<Rightarrow> tagged \<Rightarrow> entry list \<Rightarrow> bool" where
  "merges cmp valid n T es \<longleftrightarrow> es = map snd T \<and> (\<forall>x\<in>set T. fst x < n) \<and> ascending cmp es \<and> list_all (valid \<circ> fst) es"

definition on_merging :: "'i Iterator \<Rightarrow> comparing \<Rightarrow> (byte list \<Rightarrow> bool) \<Rightarrow> (entry list \<Rightarrow> nat \<Rightarrow> 'i \<Rightarrow> bool) \<Rightarrow> entry list \<Rightarrow> nat
    \<Rightarrow> 'i MergingIterator \<Rightarrow> bool" where
  "on_merging ops cmp valid stand es j m \<longleftrightarrow>
     (\<exists>T. merges cmp valid (length (mg_children m)) T es \<and> stands_merged ops stand T j m)"

locale merging = iterator_over ops cmp valid stand + key_order valid cmp for ops :: "'i Iterator" and cmp valid stand
begin

lemmas over_wrapper = wrapper_over [OF iterator_over_axioms]

lemma child_valid:
  assumes "children_at ops stand T p cs" and "i < length cs"
  shows "w_valid (cs ! i) \<longleftrightarrow> p i < length (entries_of i T)"
    and "p i < length (entries_of i T) \<Longrightarrow> w_key (cs ! i) = fst (entries_of i T ! p i)"
    and "i_status (wrapper_ops ops) (cs ! i) = OK"
proof -
  have w: "wrapped ops stand (entries_of i T) (p i) (cs ! i)" using assms by (simp add: children_at_def)
  show v: "w_valid (cs ! i) \<longleftrightarrow> p i < length (entries_of i T)" and "i_status (wrapper_ops ops) (cs ! i) = OK"
    using iterator_over.place [OF over_wrapper w] by (simp_all add: wrapper_ops_def)
  assume "p i < length (entries_of i T)"
  with v iterator_over.here [OF over_wrapper w] show "w_key (cs ! i) = fst (entries_of i T ! p i)"
    by (simp add: wrapper_ops_def)
qed

lemma merges_less:
  assumes "merges cmp valid n T es" and "i < j" and "j < length T"
  shows "cmp (fst (snd (T ! i))) (fst (snd (T ! j))) < 0" and "\<not> cmp (fst (snd (T ! j))) (fst (snd (T ! i))) \<le> 0"
proof -
  show less: "cmp (fst (snd (T ! i))) (fst (snd (T ! j))) < 0"
    using assms by (auto simp: merges_def ascending_def sorted_wrt_iff_nth_less)
  have "valid (fst (snd (T ! i)))" "valid (fst (snd (T ! j)))" using assms by (auto simp: merges_def list_all_length)
  then show "\<not> cmp (fst (snd (T ! j))) (fst (snd (T ! i))) \<le> 0" using cmp_flip less by auto
qed

lemma merges_refl: "merges cmp valid n T es \<Longrightarrow> j < length T \<Longrightarrow> cmp (fst (snd (T ! j))) (fst (snd (T ! j))) = 0"
  by (rule cmp_refl) (auto simp: merges_def list_all_length)

lemma status_OK: "children_at ops stand T p cs \<Longrightarrow> first_error ops cs OK = OK"
proof -
  have "\<forall>w\<in>set ws. i_status (wrapper_ops ops) w = OK \<Longrightarrow> first_error ops ws OK = OK" for ws
    by (induction ws) (simp_all add: ok_def)
  moreover assume "children_at ops stand T p cs"
  ultimately show ?thesis using child_valid(3) by (metis in_set_conv_nth)
qed

text \<open>The searches find the child of the next entry, and of the one before.\<close>

lemma FindSmallest_ok:
  assumes M: "merges cmp valid (length (mg_children m)) T es" and at: "children_at ops stand T (forwards T j) (mg_children m)"
    and j: "j \<le> length T"
  shows "stands_merged ops stand T j ((FindSmallest cmp m)\<lparr>mg_direction := kForward\<rparr>)"
proof (cases "j < length T")
  case False
  with j have "best_child better (mg_children m) [0..<length (mg_children m)] None = None" for better
    by (intro best_child_none) (simp add: child_valid(1) [OF at] forwards_def)
  with False j at show ?thesis by (auto simp: stands_merged_def FindSmallest_def)
next
  case True
  let ?c = "fst (T ! j)" and ?cs = "mg_children m"
  have c: "?c < length ?cs" using M True by (simp add: merges_def)
  note here = entries_of_at_rank [OF True]
  have ck: "w_valid (?cs ! ?c)" "w_key (?cs ! ?c) = fst (snd (T ! j))"
    using child_valid(1,2) [OF at c] here by (simp_all add: forwards_def)
  have "best_child (\<lambda>k s. cmp k s < 0) ?cs [0..<length ?cs] None = Some ?c"
  proof (rule best_child_best)
    fix i assume i: "i \<in> set [0..<length ?cs]" "w_valid (?cs ! i)" "i \<noteq> ?c"
    then have "rank i T j < length (entries_of i T)" using child_valid(1) [OF at, of i] by (simp add: forwards_def)
    then obtain j' where j': "j \<le> j'" "j' < length T" "fst (T ! j') = i" "entries_of i T ! rank i T j = snd (T ! j')"
      by (rule entries_of_after_rank)
    then have "j < j'" using i(3) by (cases "j' = j") auto
    moreover have "w_key (?cs ! i) = fst (snd (T ! j'))"
      using child_valid(2) [OF at, of i] i j'(4) \<open>rank i T j < _\<close> by (simp add: forwards_def)
    ultimately show "cmp (w_key (?cs ! ?c)) (w_key (?cs ! i)) < 0 \<and> \<not> cmp (w_key (?cs ! i)) (w_key (?cs ! ?c)) < 0"
      using merges_less [OF M _ j'(2), of j] ck(2) by simp
  qed (use ck c merges_refl [OF M True] in auto)
  then show ?thesis using True at by (simp add: stands_merged_def FindSmallest_def)
qed

lemma FindLargest_ok:
  assumes M: "merges cmp valid (length (mg_children m)) T es" and at: "children_at ops stand T (backwards T j) (mg_children m)"
    and j: "j \<le> length T"
  shows "stands_merged ops stand T (before_place es j) ((FindLargest cmp m)\<lparr>mg_direction := kReverse\<rparr>)"
proof (cases j)
  case 0
  then have "best_child better (mg_children m) (rev [0..<length (mg_children m)]) None = None" for better
    by (intro best_child_none) (simp add: child_valid(1) [OF at] backwards_def before_place_def)
  with 0 M at show ?thesis by (auto simp: stands_merged_def FindLargest_def before_place_def merges_def)
next
  case (Suc l)
  let ?c = "fst (T ! l)" and ?cs = "mg_children m"
  have l: "l < length T" using j Suc by simp
  have c: "?c < length ?cs" using M l by (simp add: merges_def)
  note here = entries_of_at_rank [OF l]
  have ck: "w_valid (?cs ! ?c)" "w_key (?cs ! ?c) = fst (snd (T ! l))"
    using child_valid(1,2) [OF at c] here by (simp_all add: backwards_def before_place_def Suc rank_Suc [OF l])
  have "best_child (\<lambda>k s. 0 < cmp k s) ?cs (rev [0..<length ?cs]) None = Some ?c"
  proof (rule best_child_best)
    fix i assume i: "i \<in> set (rev [0..<length ?cs])" "w_valid (?cs ! i)" "i \<noteq> ?c"
    then have "backwards T j i < length (entries_of i T)" using child_valid(1) [OF at, of i] by simp
    then have pos: "0 < rank i T j" and b: "backwards T j i = rank i T j - 1"
      by (auto simp: backwards_def before_place_def split: if_splits)
    obtain j' where j': "j' < j" "fst (T ! j') = i" "entries_of i T ! (rank i T j - 1) = snd (T ! j')"
      using pos j by (rule entries_of_before_rank)
    then have "j' < l" using i(3) Suc by (cases "j' = l") auto
    moreover have "w_key (?cs ! i) = fst (snd (T ! j'))"
      using child_valid(2) [OF at, of i] i j'(3) b \<open>backwards T j i < _\<close> by simp
    ultimately show "0 < cmp (w_key (?cs ! ?c)) (w_key (?cs ! i)) \<and> \<not> 0 < cmp (w_key (?cs ! i)) (w_key (?cs ! ?c))"
      using merges_less [OF M _ l, of j'] ck(2) by simp
  qed (use ck c merges_refl [OF M l] in auto)
  then show ?thesis using l at Suc by (simp add: stands_merged_def FindLargest_def before_place_def)
qed

text \<open>A seek moves every child to its share of the merged place.\<close>

lemma lower_sorted:
  assumes M: "merges cmp valid n T es" and t: "valid t"
  shows "lower cmp (entries_of i T) t = rank i T (lower cmp es t)"
proof -
  let ?P = "\<lambda>e. cmp (fst e) t < 0" and ?k = "lower cmp es t"
  have es: "es = map snd T" and v: "\<And>x. x \<in> set T \<Longrightarrow> valid (fst (snd x))" using M by (auto simp: merges_def list_all_iff)
  have k: "?k \<le> length T" using length_takeWhile_le [of ?P es] by (simp add: lower_def es)
  have split: "entries_of i T = entries_of i (take ?k T) @ entries_of i (drop ?k T)" by (simp flip: entries_of_append)
  have "?P (snd x)" if "x \<in> set (take ?k T)" for x
  proof -
    have "take ?k es = takeWhile ?P es" by (simp add: lower_def flip: takeWhile_eq_take)
    moreover have "snd x \<in> set (take ?k es)" using that by (simp add: es take_map)
    ultimately show ?thesis using set_takeWhileD by metis
  qed
  then have before: "\<forall>e\<in>set (entries_of i (take ?k T)). ?P e" by (auto simp: entries_of_def)
  have after: "\<not> ?P (snd x)" if x: "x \<in> set (drop ?k T)" for x
  proof -
    obtain d where "d < length T - ?k" and x: "x = T ! (?k + d)" using x by (auto simp: in_set_conv_nth)
    then have d: "?k + d < length T" "x = T ! (?k + d)" by simp_all
    then have kl: "?k < length T" by simp
    then have first: "\<not> cmp (fst (snd (T ! ?k))) t < 0"
      using nth_length_takeWhile [of ?P es] by (simp add: lower_def es)
    show ?thesis
    proof (cases "d = 0")
      case True
      then show ?thesis using first d by simp
    next
      case False
      have vk: "valid (fst (snd (T ! ?k)))" "valid (fst (snd x))" using v kl d nth_mem by auto
      have "cmp t (fst (snd (T ! ?k))) \<le> 0" using first cmp_flip [OF vk(1) t] cmp_flip [OF t vk(1)] by linarith
      then have "cmp t (fst (snd x)) < 0"
        using cmp_less_trans2 [OF t vk] merges_less(1) [OF M _ d(1), of ?k] False d(2) by simp
      then show ?thesis using cmp_flip [OF t vk(2)] by linarith
    qed
  qed
  have "takeWhile ?P (entries_of i (drop ?k T)) = []"
  proof (cases "entries_of i (drop ?k T)")
    case (Cons e es')
    then have "e \<in> set (entries_of i (drop ?k T))" by simp
    then obtain x where "x \<in> set (drop ?k T)" "e = snd x" by (auto simp: entries_of_def)
    then show ?thesis using after Cons by simp
  qed simp
  then have "takeWhile ?P (entries_of i T) = entries_of i (take ?k T)"
    using before by (simp add: split)
  then show ?thesis unfolding lower_def rank_def by (simp add: lower_def)
qed

lemma lower_here:
  assumes M: "merges cmp valid n T es" and j: "j < length T"
  shows "lower cmp es (fst (snd (T ! j))) = j"
proof -
  have es: "es = map snd T" using M by (simp add: merges_def)
  have "takeWhile (\<lambda>e. cmp (fst e) (fst (snd (T ! j))) < 0) es = take j es"
  proof (rule takeWhile_eq_take_P_nth)
    show "cmp (fst (es ! i)) (fst (snd (T ! j))) < 0" if "i < j" "i < length es" for i
      using merges_less(1) [OF M that(1) j] that es by simp
    show "\<not> cmp (fst (es ! j)) (fst (snd (T ! j))) < 0" if "j < length es"
      using merges_refl [OF M j] j es by simp
  qed
  then show ?thesis using j es by (simp add: lower_def)
qed

lemma key_valid: "merges cmp valid n T es \<Longrightarrow> j < length T \<Longrightarrow> valid (fst (snd (T ! j)))"
  by (auto simp: merges_def list_all_length)

lemma all_children:
  assumes at: "children_at ops stand T p cs"
    and f: "\<And>i. i < length cs \<Longrightarrow> wrapped ops stand (entries_of i T) (p i) (cs ! i) \<Longrightarrow> skip \<noteq> Some i \<Longrightarrow>
      \<exists>w. f (cs ! i) = Some w \<and> wrapped ops stand (entries_of i T) (q i) w"
    and same: "\<And>i. i < length cs \<Longrightarrow> skip = Some i \<Longrightarrow> q i = p i"
  shows "\<exists>cs'. each_child f skip 0 cs = Some cs' \<and> length cs' = length cs \<and> children_at ops stand T q cs'"
proof -
  have "\<exists>w. f (cs ! i) = Some w \<and> wrapped ops stand (entries_of (0 + i) T) (q (0 + i)) w"
    if "i < length cs" "skip \<noteq> Some (0 + i)" for i
    using f [of i] at that by (simp add: children_at_def)
  from each_child_all [where P = "\<lambda>i. wrapped ops stand (entries_of i T) (q i)", where k = 0 and skip = skip, OF this, unfolded add_0]
  obtain cs' where cs': "each_child f skip 0 cs = Some cs'" "length cs' = length cs"
    "\<forall>i<length cs. if skip = Some i then cs' ! i = cs ! i else wrapped ops stand (entries_of i T) (q i) (cs' ! i)"
    by auto
  have "wrapped ops stand (entries_of i T) (q i) (cs' ! i)" if "i < length cs" for i
    using cs'(3) at that same [of i] by (cases "skip = Some i") (auto simp: children_at_def)
  with cs'(1,2) show ?thesis by (simp add: children_at_def)
qed

text \<open>A change of direction repositions the other children; then the current one moves.\<close>

lemma turned_forward:
  assumes M: "merges cmp valid (length (mg_children m)) T es" and st: "stands_merged ops stand T j m" and j: "j < length T"
  shows "\<exists>m'. turn (seek_after ops cmp (fst (snd (T ! j)))) kForward m = Some m' \<and> length (mg_children m') = length (mg_children m)
    \<and> mg_current m' = Some (fst (T ! j)) \<and> mg_direction m' = kForward \<and> children_at ops stand T (forwards T j) (mg_children m')"
proof (cases "mg_direction m = kForward")
  case True
  then show ?thesis using st j by (simp add: turn_def stands_merged_def)
next
  case False
  let ?k = "fst (snd (T ! j))"
  have c: "mg_current m = Some (fst (T ! j))" and at: "children_at ops stand T (backwards T (Suc j)) (mg_children m)"
    using st j False by (simp_all add: stands_merged_def)
  have "\<exists>cs'. each_child (seek_after ops cmp ?k) (mg_current m) 0 (mg_children m) = Some cs'
      \<and> length cs' = length (mg_children m) \<and> children_at ops stand T (forwards T j) cs'"
  proof (rule all_children [OF at])
    fix i assume i: "i < length (mg_children m)" "mg_current m \<noteq> Some i"
      and w: "wrapped ops stand (entries_of i T) (backwards T (Suc j) i) (mg_children m ! i)"
    obtain w' where w': "i_Seek (wrapper_ops ops) ?k (mg_children m ! i) = Some w'"
      "wrapped ops stand (entries_of i T) (forwards T j i) w'"
      using iterator_over.to_target [OF over_wrapper w key_valid [OF M j]]
      by (auto simp: lower_sorted [OF M key_valid [OF M j]] lower_here [OF M j] forwards_def)
    have "\<not> (w_valid w' \<and> cmp ?k (w_key w') = 0)"
    proof
      assume eq: "w_valid w' \<and> cmp ?k (w_key w') = 0"
      then have r: "rank i T j < length (entries_of i T)"
        using iterator_over.place [OF over_wrapper w'(2)] by (simp add: wrapper_ops_def forwards_def)
      then obtain j' where j': "j \<le> j'" "j' < length T" "fst (T ! j') = i" "entries_of i T ! rank i T j = snd (T ! j')"
        by (rule entries_of_after_rank)
      then have "j < j'" using i(2) c by (cases "j' = j") auto
      moreover have "w_key w' = fst (snd (T ! j'))"
        using iterator_over.here [OF over_wrapper w'(2)] r j'(4) eq by (simp add: wrapper_ops_def forwards_def)
      ultimately show False using merges_less(1) [OF M _ j'(2)] eq by force
    qed
    then show "\<exists>w. seek_after ops cmp ?k (mg_children m ! i) = Some w \<and> wrapped ops stand (entries_of i T) (forwards T j i) w"
      using w' by (auto simp: seek_after_def)
  next
    fix i assume "mg_current m = Some i"
    then show "forwards T j i = backwards T (Suc j) i"
      using c rank_Suc [OF j] by (simp add: forwards_def backwards_def before_place_def)
  qed
  then show ?thesis using False c by (auto simp: turn_def)
qed

lemma turned_backward:
  assumes M: "merges cmp valid (length (mg_children m)) T es" and st: "stands_merged ops stand T j m" and j: "j < length T"
  shows "\<exists>m'. turn (seek_before ops (fst (snd (T ! j)))) kReverse m = Some m' \<and> length (mg_children m') = length (mg_children m)
    \<and> mg_current m' = Some (fst (T ! j)) \<and> mg_direction m' = kReverse \<and> children_at ops stand T (backwards T (Suc j)) (mg_children m')"
proof (cases "mg_direction m = kReverse")
  case True
  then show ?thesis using st j by (simp add: turn_def stands_merged_def)
next
  case False
  let ?k = "fst (snd (T ! j))"
  have "mg_direction m = kForward" using False by (cases "mg_direction m") simp_all
  then have c: "mg_current m = Some (fst (T ! j))" and at: "children_at ops stand T (forwards T j) (mg_children m)"
    using st j by (simp_all add: stands_merged_def)
  have "\<exists>cs'. each_child (seek_before ops ?k) (mg_current m) 0 (mg_children m) = Some cs'
      \<and> length cs' = length (mg_children m) \<and> children_at ops stand T (backwards T (Suc j)) cs'"
  proof (rule all_children [OF at])
    fix i assume i: "i < length (mg_children m)" "mg_current m \<noteq> Some i"
      and w: "wrapped ops stand (entries_of i T) (forwards T j i) (mg_children m ! i)"
    obtain w' where w': "i_Seek (wrapper_ops ops) ?k (mg_children m ! i) = Some w'"
      "wrapped ops stand (entries_of i T) (rank i T j) w'"
      using iterator_over.to_target [OF over_wrapper w key_valid [OF M j]]
      by (auto simp: lower_sorted [OF M key_valid [OF M j]] lower_here [OF M j])
    have r: "rank i T (Suc j) = rank i T j" using i(2) c rank_Suc [OF j] by auto
    note place = iterator_over.place [OF over_wrapper w'(2)]
    have "\<exists>w. (if w_valid w' then i_Prev (wrapper_ops ops) w' else i_SeekToLast (wrapper_ops ops) w') = Some w
        \<and> wrapped ops stand (entries_of i T) (backwards T (Suc j) i) w"
    proof (cases "rank i T j < length (entries_of i T)")
      case True
      then show ?thesis using place iterator_over.to_prev [OF over_wrapper w'(2)] r
        by (simp add: wrapper_ops_def backwards_def)
    next
      case False
      then have "rank i T j = length (entries_of i T)" using rank_le [of i T j] by simp
      then show ?thesis using place iterator_over.to_last [OF over_wrapper w'(2)] r
        by (cases "entries_of i T = []") (simp_all add: wrapper_ops_def backwards_def before_place_def)
    qed
    then show "\<exists>w. seek_before ops ?k (mg_children m ! i) = Some w \<and> wrapped ops stand (entries_of i T) (backwards T (Suc j) i) w"
      using w'(1) by (simp add: seek_before_def)
  next
    fix i assume "mg_current m = Some i"
    then show "backwards T (Suc j) i = forwards T j i"
      using c rank_Suc [OF j] by (simp add: forwards_def backwards_def before_place_def)
  qed
  then show ?thesis using False c by (auto simp: turn_def)
qed

lemma step_current_ok:
  assumes at: "children_at ops stand T p (mg_children m)" and c: "mg_current m = Some c" "c < length (mg_children m)"
    and f: "\<And>w. wrapped ops stand (entries_of c T) (p c) w \<Longrightarrow> \<exists>w'. f w = Some w' \<and> wrapped ops stand (entries_of c T) (q c) w'"
    and same: "\<And>i. i \<noteq> c \<Longrightarrow> q i = p i"
  shows "\<exists>m'. step_current f m = Some m' \<and> length (mg_children m') = length (mg_children m)
    \<and> mg_direction m' = mg_direction m \<and> children_at ops stand T q (mg_children m')"
proof -
  obtain w' where "f (mg_children m ! c) = Some w'" "wrapped ops stand (entries_of c T) (q c) w'"
    using f at c(2) unfolding children_at_def by blast
  then show ?thesis using c same at by (auto simp: step_current_def children_at_def nth_list_update)
qed

lemma merging_over: "iterator_over (merging_ops ops cmp) cmp valid (on_merging ops cmp valid stand)"
proof unfold_locales
  fix es j m
  assume "on_merging ops cmp valid stand es j m"
  then obtain T where M: "merges cmp valid (length (mg_children m)) T es" and st: "stands_merged ops stand T j m"
    by (auto simp: on_merging_def)
  have es: "es = map snd T" using M by (simp add: merges_def)
  obtain p where at: "children_at ops stand T p (mg_children m)"
    using st by (auto simp: stands_merged_def split: if_splits)
  have intro: "on_merging ops cmp valid stand es j' m'"
    if "stands_merged ops stand T j' m'" "length (mg_children m') = length (mg_children m)" for j' m'
    using M that by (auto simp: on_merging_def)
  note defs = merging_ops_def
  show "j \<le> length es \<and> (i_Valid (merging_ops ops cmp) m \<longleftrightarrow> j < length es) \<and> i_status (merging_ops ops cmp) m = OK"
    using st status_OK [OF at] by (auto simp: defs stands_merged_def es split: if_splits)
  show "ascending cmp es \<and> list_all (valid \<circ> fst) es" using M unfolding merges_def by blast
  have smallest: "on_merging ops cmp valid stand es j' ((FindSmallest cmp m')\<lparr>mg_direction := kForward\<rparr>)"
    if "children_at ops stand T (forwards T j') (mg_children m')" "length (mg_children m') = length (mg_children m)" "j' \<le> length T" for m' j'
    using FindSmallest_ok [of m' T es j'] M that by (intro intro) (simp_all add: FindSmallest_def)
  have largest: "on_merging ops cmp valid stand es (before_place es j') ((FindLargest cmp m')\<lparr>mg_direction := kReverse\<rparr>)"
    if "children_at ops stand T (backwards T j') (mg_children m')" "length (mg_children m') = length (mg_children m)" "j' \<le> length T" for m' j'
    using FindLargest_ok [of m' T es j'] M that by (intro intro) (simp_all add: FindLargest_def)
  show "\<exists>m'. i_SeekToFirst (merging_ops ops cmp) m = Some m' \<and> on_merging ops cmp valid stand es 0 m'"
    using all_children [OF at, where skip = None and f = "i_SeekToFirst (wrapper_ops ops)" and q = "forwards T 0"]
      iterator_over.to_first [OF over_wrapper] smallest [where j' = 0]
    by (fastforce simp: defs merging_seek_def forwards_def Let_def)
  show "\<exists>m'. i_SeekToLast (merging_ops ops cmp) m = Some m' \<and> on_merging ops cmp valid stand es (length es - 1) m'"
  proof -
    have "backwards T (length T) i = length (entries_of i T) - 1" for i by (simp add: backwards_def before_place_def)
    moreover have "before_place es (length T) = length es - 1" by (simp add: before_place_def es)
    ultimately show ?thesis
      using all_children [OF at, where skip = None and f = "i_SeekToLast (wrapper_ops ops)" and q = "backwards T (length T)"]
        iterator_over.to_last [OF over_wrapper] largest [where j' = "length T"]
      by (fastforce simp: defs merging_seek_def Let_def)
  qed
  show "\<exists>m'. i_Seek (merging_ops ops cmp) t m = Some m' \<and> on_merging ops cmp valid stand es (lower cmp es t) m'" if "valid t" for t
  proof -
    have "lower cmp es t \<le> length T" using length_takeWhile_le [of _ es] by (simp add: lower_def es)
    moreover have "\<exists>w'. i_Seek (wrapper_ops ops) t w = Some w' \<and> wrapped ops stand (entries_of i T) (forwards T (lower cmp es t) i) w'"
      if "wrapped ops stand (entries_of i T) (p i) w" for i w
      using iterator_over.to_target [OF over_wrapper that \<open>valid t\<close>] by (simp add: lower_sorted [OF M \<open>valid t\<close>] forwards_def)
    ultimately show ?thesis
      using all_children [OF at, where skip = None and f = "i_Seek (wrapper_ops ops) t" and q = "forwards T (lower cmp es t)"]
        smallest [where j' = "lower cmp es t"]
      by (fastforce simp: defs merging_seek_def Let_def)
  qed
  assume "j < length es"
  then have j: "j < length T" by (simp add: es)
  let ?c = "fst (T ! j)"
  have c: "mg_current m = Some ?c" "?c < length (mg_children m)" using st j M by (simp_all add: stands_merged_def merges_def)
  have "wrapped ops stand (entries_of ?c T) (rank ?c T j) (mg_children m ! ?c)"
    using st j c(2) rank_Suc [OF j]
    by (auto simp: stands_merged_def children_at_def forwards_def backwards_def before_place_def split: if_splits)
  from iterator_over.here [OF over_wrapper this] entries_of_at_rank [OF j]
  have key: "merging_key ops m = Some (fst (snd (T ! j)))"
    and val: "i_value (wrapper_ops ops) (mg_children m ! ?c) = Some (snd (snd (T ! j)))"
    by (simp_all add: merging_key_def c)
  show "i_key (merging_ops ops cmp) m = Some (fst (es ! j)) \<and> i_value (merging_ops ops cmp) m = Some (snd (es ! j))"
    using key val c(1) j by (simp add: defs es)
  show "\<exists>m'. i_Next (merging_ops ops cmp) m = Some m' \<and> on_merging ops cmp valid stand es (Suc j) m'"
  proof -
    obtain m1 where m1: "turn (seek_after ops cmp (fst (snd (T ! j)))) kForward m = Some m1"
      "length (mg_children m1) = length (mg_children m)" "mg_current m1 = Some ?c" "mg_direction m1 = kForward"
      "children_at ops stand T (forwards T j) (mg_children m1)" using turned_forward [OF M st j] by blast
    obtain m2 where m2: "step_current (i_Next (wrapper_ops ops)) m1 = Some m2" "length (mg_children m2) = length (mg_children m)"
      "mg_direction m2 = kForward" "children_at ops stand T (forwards T (Suc j)) (mg_children m2)"
      using step_current_ok [OF m1(5,3), of "i_Next (wrapper_ops ops)" "forwards T (Suc j)"] m1(2,4) c(2) rank_Suc [OF j]
        iterator_over.to_next [OF over_wrapper, of "entries_of ?c T" "rank ?c T j"] entries_of_at_rank(1) [OF j]
      by (auto simp: forwards_def)
    have "FindSmallest cmp m2 = (FindSmallest cmp m2)\<lparr>mg_direction := kForward\<rparr>"
      using m2(3) by (simp add: FindSmallest_def)
    then show ?thesis using smallest [OF m2(4,2)] key m1(1) m2(1) j by (simp add: defs merging_Next_def)
  qed
  show "\<exists>m'. i_Prev (merging_ops ops cmp) m = Some m' \<and> on_merging ops cmp valid stand es (before_place es j) m'"
  proof -
    obtain m1 where m1: "turn (seek_before ops (fst (snd (T ! j)))) kReverse m = Some m1"
      "length (mg_children m1) = length (mg_children m)" "mg_current m1 = Some ?c" "mg_direction m1 = kReverse"
      "children_at ops stand T (backwards T (Suc j)) (mg_children m1)" using turned_backward [OF M st j] by blast
    have b: "backwards T (Suc j) ?c = rank ?c T j" using rank_Suc [OF j] by (simp add: backwards_def before_place_def)
    have same: "backwards T j i = backwards T (Suc j) i" if "i \<noteq> ?c" for i using that rank_Suc [OF j, of i] by (auto simp: backwards_def)
    obtain m2 where m2: "step_current (i_Prev (wrapper_ops ops)) m1 = Some m2" "length (mg_children m2) = length (mg_children m)"
      "mg_direction m2 = kReverse" "children_at ops stand T (backwards T j) (mg_children m2)"
      using step_current_ok [OF m1(5,3), of "i_Prev (wrapper_ops ops)" "backwards T j"] m1(2,4) c(2) b same
        iterator_over.to_prev [OF over_wrapper, of "entries_of ?c T" "rank ?c T j"] entries_of_at_rank(1) [OF j]
      by (auto simp: backwards_def [of T j])
    have "FindLargest cmp m2 = (FindLargest cmp m2)\<lparr>mg_direction := kReverse\<rparr>"
      using m2(3) by (simp add: FindLargest_def)
    then show ?thesis using largest [OF m2(4,2)] key m1(1) m2(1) j by (simp add: defs merging_Prev_def)
  qed
qed

lemma set_children_ok:
  assumes "list_all2 (\<lambda>it l. \<exists>j. stand l j it) its ls"
  shows "\<exists>cs. set_children ops its = Some cs \<and> length cs = length ls
    \<and> (\<forall>i<length ls. \<exists>j. wrapped ops stand (ls ! i) j (cs ! i))"
  using assms
proof (induction its ls rule: list_all2_induct)
  case (Cons it its l ls)
  then obtain cs where cs: "set_children ops its = Some cs" "length cs = length ls"
    "\<forall>i<length ls. \<exists>j. wrapped ops stand (ls ! i) j (cs ! i)" by blast
  obtain j where "stand l j it" using Cons.hyps by blast
  then obtain w where "wrapper_Set ops (Some it) wrapper_new = Some w" "wrapped ops stand l j w"
    using wrapper_Update_ok [OF iterator_over_axioms, of "wrapper_new\<lparr>w_iter := Some it\<rparr>" it l j]
    by (auto simp: wrapper_Set_def Let_def)
  then show ?case using cs by (auto simp: nth_Cons split: nat.splits)
qed simp

end

section \<open>Any number of children\<close>

definition on_merged_entries :: "'i Iterator \<Rightarrow> comparing \<Rightarrow> (byte list \<Rightarrow> bool) \<Rightarrow> (entry list \<Rightarrow> nat \<Rightarrow> 'i \<Rightarrow> bool) \<Rightarrow> entry list \<Rightarrow> nat
    \<Rightarrow> 'i Merged \<Rightarrow> bool" where
  "on_merged_entries ops cmp valid stand es j m \<longleftrightarrow>
     (case m of No_children \<Rightarrow> es = [] \<and> j = 0 | Only_child it \<Rightarrow> stand es j it | Many_children m \<Rightarrow> on_merging ops cmp valid stand es j m)"

lemma merged_over:
  assumes c: "iterator_over ops cmp valid stand" and ord: "key_order valid cmp"
  shows "iterator_over (merged_ops ops cmp) cmp valid (on_merged_entries ops cmp valid stand)"
proof -
  note many = merging.merging_over [OF merging.intro [OF c ord]]
  note defs = merged_ops_def Let_def on_merged_def on_merged_entries_def
  show ?thesis
  proof unfold_locales
    fix es j m
    assume st: "on_merged_entries ops cmp valid stand es j m"
    show "j \<le> length es \<and> (i_Valid (merged_ops ops cmp) m \<longleftrightarrow> j < length es) \<and> i_status (merged_ops ops cmp) m = OK"
      using st iterator_over.place [OF c] iterator_over.place [OF many] by (cases m) (auto simp: defs)
    show "ascending cmp es \<and> list_all (valid \<circ> fst) es"
      using st iterator_over.entries [OF c] iterator_over.entries [OF many] by (cases m) (auto simp: defs ascending_def)
    show "j < length es \<Longrightarrow> i_key (merged_ops ops cmp) m = Some (fst (es ! j)) \<and> i_value (merged_ops ops cmp) m = Some (snd (es ! j))"
      using st iterator_over.here [OF c] iterator_over.here [OF many] by (cases m) (auto simp: defs)
    show "j < length es \<Longrightarrow> \<exists>m'. i_Next (merged_ops ops cmp) m = Some m' \<and> on_merged_entries ops cmp valid stand es (Suc j) m'"
      using st iterator_over.to_next [OF c] iterator_over.to_next [OF many] by (cases m) (fastforce simp: defs)+
    show "j < length es \<Longrightarrow> \<exists>m'. i_Prev (merged_ops ops cmp) m = Some m' \<and> on_merged_entries ops cmp valid stand es (before_place es j) m'"
      using st iterator_over.to_prev [OF c] iterator_over.to_prev [OF many] by (cases m) (fastforce simp: defs)+
    show "\<exists>m'. i_SeekToFirst (merged_ops ops cmp) m = Some m' \<and> on_merged_entries ops cmp valid stand es 0 m'"
      using st iterator_over.to_first [OF c] iterator_over.to_first [OF many] by (cases m) (fastforce simp: defs)+
    show "\<exists>m'. i_SeekToLast (merged_ops ops cmp) m = Some m' \<and> on_merged_entries ops cmp valid stand es (length es - 1) m'"
      using st iterator_over.to_last [OF c] iterator_over.to_last [OF many] by (cases m) (fastforce simp: defs)+
    show "\<exists>m'. i_Seek (merged_ops ops cmp) t m = Some m' \<and> on_merged_entries ops cmp valid stand es (lower cmp es t) m'" if "valid t" for t
      using st iterator_over.to_target [OF c _ that] iterator_over.to_target [OF many _ that]
      by (cases m) (fastforce simp: defs lower_def)+
  qed
qed

text \<open>Ascending lists with the same entries are equal, so the entries of a merged sequence that belong to a
  child are the child's sequence.\<close>

lemma ascending_unique:
  assumes ord: "key_order valid cmp"
  shows "ascending cmp xs \<Longrightarrow> ascending cmp ys \<Longrightarrow> set xs = set ys \<Longrightarrow> list_all (valid \<circ> fst) xs \<Longrightarrow> xs = ys"
proof (induction xs arbitrary: ys)
  case (Cons x xs)
  then obtain y zs where ys: "ys = y # zs" by (cases ys) auto
  have v: "valid (fst z)" if "z \<in> set ys" for z using Cons.prems(3,4) that by (auto simp: list_all_iff)
  have irrefl: "\<not> cmp (fst z) (fst z) < 0" if "z \<in> set ys" for z using key_order.cmp_refl [OF ord v [OF that]] by simp
  have "x = y"
  proof (rule ccontr)
    assume "x \<noteq> y"
    then have "y \<in> set xs" "x \<in> set zs" using Cons.prems(3) ys by auto
    then have "cmp (fst x) (fst y) < 0" "cmp (fst y) (fst x) < 0" using Cons.prems(1,2) ys by (auto simp: ascending_def)
    then show False using key_order.cmp_flip [OF ord v [of x] v [of y]] Cons.prems(3) ys by auto
  qed
  moreover have "x \<notin> set xs" "y \<notin> set zs"
    using Cons.prems(1-3) ys irrefl [of x] irrefl [of y] by (auto simp: ascending_def)
  then have "set xs = set zs" using Cons.prems(3) ys \<open>x = y\<close> by auto
  then have "xs = zs" using Cons.prems ys by (intro Cons.IH) (simp_all add: ascending_def)
  ultimately show ?case by (simp add: ys)
qed simp

lemma concat_owner:
  "distinct (concat ls) \<Longrightarrow> i < length ls \<Longrightarrow> j < length ls \<Longrightarrow> x \<in> set (ls ! i) \<Longrightarrow> x \<in> set (ls ! j) \<Longrightarrow> i = j"
proof (induction ls arbitrary: i j)
  case (Cons l ls)
  have "x \<in> set (concat ls)" if "n < length ls" "x \<in> set (ls ! n)" for n using that by auto
  then show ?case using Cons by (cases i; cases j) auto
qed simp

lemma ascending_distinct:
  assumes "key_order valid cmp" and "ascending cmp es" and "list_all (valid \<circ> fst) es"
  shows "distinct es"
  using assms(2,3) key_order.cmp_refl [OF assms(1)] by (induction es) (fastforce simp: ascending_def)+

lemma interleaves:
  assumes ord: "key_order valid cmp" and es: "ascending cmp es" "list_all (valid \<circ> fst) es"
    and ls: "mset es = mset (concat ls)" "list_all (ascending cmp) ls"
  shows "\<exists>T. merges cmp valid (length ls) T es \<and> (\<forall>i<length ls. entries_of i T = ls ! i)"
proof -
  define owner where "owner x = (LEAST i. i < length ls \<and> x \<in> set (ls ! i))" for x
  define T where "T = map (\<lambda>x. (owner x, x)) es"
  have d: "distinct (concat ls)" using ascending_distinct [OF ord es] ls(1) mset_eq_imp_distinct_iff by blast
  have own: "owner x = i" if "i < length ls" "x \<in> set (ls ! i)" for x i
    unfolding owner_def
  proof (rule Least_equality)
    fix k assume "k < length ls \<and> x \<in> set (ls ! k)"
    then show "i \<le> k" using concat_owner [OF d, of i k x] that by simp
  qed (use that in simp)
  have sets: "set es = set (concat ls)" using ls(1) by (metis set_mset_mset)
  have ex: "\<exists>i<length ls. x \<in> set (ls ! i)" if "x \<in> set es" for x
    using that sets by (metis UN_E in_set_conv_nth set_concat)
  have "owner x < length ls" if x: "x \<in> set es" for x
  proof -
    obtain i where "i < length ls" "x \<in> set (ls ! i)" using ex [OF x] by blast
    then show ?thesis using own [of i x] by simp
  qed
  then have "merges cmp valid (length ls) T es" using es by (auto simp: merges_def T_def comp_def)
  moreover have "entries_of i T = ls ! i" if i: "i < length ls" for i
  proof -
    have "entries_of i T = filter (\<lambda>x. owner x = i) es" by (simp add: entries_of_def T_def filter_map comp_def)
    moreover have "filter (\<lambda>x. owner x = i) es = ls ! i"
    proof (rule ascending_unique [OF ord])
      show "ascending cmp (filter (\<lambda>x. owner x = i) es)" using es(1) by (simp add: ascending_def sorted_wrt_filter)
      show "ascending cmp (ls ! i)" using ls(2) i by (simp add: list_all_length)
      show "list_all (valid \<circ> fst) (filter (\<lambda>x. owner x = i) es)" using es(2) by (simp add: list_all_iff)
      show "set (filter (\<lambda>x. owner x = i) es) = set (ls ! i)"
      proof
        show "set (filter (\<lambda>x. owner x = i) es) \<subseteq> set (ls ! i)" using ex own by fastforce
        show "set (ls ! i) \<subseteq> set (filter (\<lambda>x. owner x = i) es)" using own i sets by fastforce
      qed
    qed
    ultimately show ?thesis by simp
  qed
  ultimately show ?thesis by blast
qed

text \<open>A new merging iterator over children that hold the entries of \<open>es\<close> between them.\<close>

lemma NewMergingIterator_ok:
  assumes c: "iterator_over ops cmp valid stand" and ord: "key_order valid cmp"
    and its: "list_all2 (\<lambda>it l. \<exists>j. stand l j it) its ls" and es: "ascending cmp es" "mset es = mset (concat ls)"
  shows "\<exists>m j. NewMergingIterator ops its = Some m \<and> on_merged_entries ops cmp valid stand es j m"
proof -
  have child: "ascending cmp l \<and> list_all (valid \<circ> fst) l" if "l \<in> set ls" for l
    using its that iterator_over.entries [OF c] by (induction its ls rule: list_all2_induct) auto
  have "set es = \<Union> (set ` set ls)" using es(2) by (metis set_concat set_mset_mset)
  then have v: "list_all (valid \<circ> fst) es" using child by (auto simp: list_all_iff)
  obtain T where T: "merges cmp valid (length ls) T es" "\<forall>i<length ls. entries_of i T = ls ! i"
    using interleaves [OF ord es(1) v es(2)] child by (auto simp: list_all_iff)
  have len: "length its = length ls" using its by (rule list_all2_lengthD)
  obtain cs where cs: "set_children ops its = Some cs" "length cs = length ls"
    "\<forall>i<length ls. \<exists>j. wrapped ops stand (ls ! i) j (cs ! i)"
    using merging.set_children_ok [OF merging.intro [OF c ord] its] by blast
  then obtain p where p: "\<forall>i<length ls. wrapped ops stand (ls ! i) (p i) (cs ! i)" by metis
  consider "its = []" | it where "its = [it]" | "its \<noteq> []" "length its \<noteq> 1" by (metis length_0_conv length_Suc_conv One_nat_def)
  then show ?thesis
  proof cases
    case 1
    then show ?thesis using its es(2) by (simp add: NewMergingIterator_def on_merged_entries_def)
  next
    case 2
    then obtain l j where "ls = [l]" "stand l j it" using its by (auto simp: list_all2_Cons1)
    moreover have "es = l" using \<open>ls = [l]\<close> T by (auto simp: merges_def entries_of_def)
    ultimately show ?thesis using 2 by (auto simp: NewMergingIterator_def on_merged_entries_def)
  next
    case 3
    let ?m = "\<lparr>mg_children = cs, mg_current = None, mg_direction = kForward\<rparr>"
    have "stands_merged ops stand T (length T) ?m"
      using p T(2) cs(2) by (auto simp: stands_merged_def children_at_def)
    then have "on_merging ops cmp valid stand es (length T) ?m"
      using T(1) cs(2) by (auto simp: on_merging_def)
    then show ?thesis using 3 cs(1) by (auto simp: NewMergingIterator_def on_merged_entries_def)
  qed
qed

section \<open>Children of two classes\<close>

definition on_either :: "('a \<Rightarrow> 'a option) \<Rightarrow> ('b \<Rightarrow> 'b option) \<Rightarrow> 'a + 'b \<Rightarrow> ('a + 'b) option" where
  "on_either f g = case_sum (map_option Inl \<circ> f) (map_option Inr \<circ> g)"

definition either_ops :: "'a Iterator \<Rightarrow> 'b Iterator \<Rightarrow> ('a + 'b) Iterator" where
  "either_ops a b = \<lparr>
     i_Valid = case_sum (i_Valid a) (i_Valid b),
     i_SeekToFirst = on_either (i_SeekToFirst a) (i_SeekToFirst b),
     i_SeekToLast = on_either (i_SeekToLast a) (i_SeekToLast b),
     i_Seek = (\<lambda>t. on_either (i_Seek a t) (i_Seek b t)),
     i_Next = on_either (i_Next a) (i_Next b),
     i_Prev = on_either (i_Prev a) (i_Prev b),
     i_key = case_sum (i_key a) (i_key b),
     i_value = case_sum (i_value a) (i_value b),
     i_status = case_sum (i_status a) (i_status b)\<rparr>"

definition either_stand :: "(entry list \<Rightarrow> nat \<Rightarrow> 'a \<Rightarrow> bool) \<Rightarrow> (entry list \<Rightarrow> nat \<Rightarrow> 'b \<Rightarrow> bool) \<Rightarrow> entry list \<Rightarrow> nat \<Rightarrow> 'a + 'b \<Rightarrow> bool" where
  "either_stand f g es j = case_sum (f es j) (g es j)"

lemma either_over:
  assumes a: "iterator_over a cmp valid f" and b: "iterator_over b cmp valid g"
  shows "iterator_over (either_ops a b) cmp valid (either_stand f g)"
proof unfold_locales
  note defs = either_ops_def either_stand_def on_either_def
  fix es j it
  assume st: "either_stand f g es j it"
  show "j \<le> length es \<and> (i_Valid (either_ops a b) it \<longleftrightarrow> j < length es) \<and> i_status (either_ops a b) it = OK"
    "ascending cmp es \<and> list_all (valid \<circ> fst) es"
    using st iterator_over.place [OF a] iterator_over.place [OF b] iterator_over.entries [OF a] iterator_over.entries [OF b]
    by (cases it; auto simp: defs)+
  show "j < length es \<Longrightarrow> i_key (either_ops a b) it = Some (fst (es ! j)) \<and> i_value (either_ops a b) it = Some (snd (es ! j))"
    using st iterator_over.here [OF a] iterator_over.here [OF b] by (cases it) (auto simp: defs)
  show "j < length es \<Longrightarrow> \<exists>it'. i_Next (either_ops a b) it = Some it' \<and> either_stand f g es (Suc j) it'"
    using st iterator_over.to_next [OF a] iterator_over.to_next [OF b] by (cases it) (fastforce simp: defs)+
  show "j < length es \<Longrightarrow> \<exists>it'. i_Prev (either_ops a b) it = Some it' \<and> either_stand f g es (before_place es j) it'"
    using st iterator_over.to_prev [OF a] iterator_over.to_prev [OF b] by (cases it) (fastforce simp: defs)+
  show "\<exists>it'. i_SeekToFirst (either_ops a b) it = Some it' \<and> either_stand f g es 0 it'"
    using st iterator_over.to_first [OF a] iterator_over.to_first [OF b] by (cases it) (fastforce simp: defs)+
  show "\<exists>it'. i_SeekToLast (either_ops a b) it = Some it' \<and> either_stand f g es (length es - 1) it'"
    using st iterator_over.to_last [OF a] iterator_over.to_last [OF b] by (cases it) (fastforce simp: defs)+
  show "\<exists>it'. i_Seek (either_ops a b) t it = Some it' \<and> either_stand f g es (lower cmp es t) it'" if "valid t" for t
    using st iterator_over.to_target [OF a _ that] iterator_over.to_target [OF b _ that] by (cases it) (fastforce simp: defs)+
qed

lemma mem_key_order: "key_order valid cmp \<Longrightarrow> key_order (mem_key valid) (InternalKeyCompare cmp)"
proof (rule key_order.intro)
  assume "key_order valid cmp"
  note ord = internal_order [OF this]
  fix a b c
  assume a: "mem_key valid a" and b: "mem_key valid b"
  then have v: "internal_valid valid a" "internal_valid valid b" by (simp_all add: mem_key_def)
  show "InternalKeyCompare cmp a b < 0 \<longleftrightarrow> 0 < InternalKeyCompare cmp b a" by (rule key_order.cmp_flip [OF ord v])
  assume "mem_key valid c"
  then have "internal_valid valid c" by (simp add: mem_key_def)
  then show "InternalKeyCompare cmp a b \<le> 0 \<Longrightarrow> InternalKeyCompare cmp b c \<le> 0 \<Longrightarrow> InternalKeyCompare cmp a c \<le> 0"
    by (rule key_order.cmp_trans [OF ord v])
qed

interpretation mem_merging: merging "mem_ops BytewiseCompare" "InternalKeyCompare BytewiseCompare"
    "mem_key (\<lambda>_. True)" "on_memtable BytewiseCompare (\<lambda>_. True)"
  by (intro merging.intro memtable_iterator.iterator_over_axioms mem_key_order bytewise_order)

end
