(* ===== verification/Ldb_Db_Iter.thy ===== *)
theory Ldb_Db_Iter
  imports Ldb_Merger
begin

text \<open>
  \<open>DBIter\<close> (\<open>db/db_iter.cc\<close>): the user's iterator over the internal entries, at a sequence number.  It
  shows, for every user key, the newest entry that is not newer than the sequence number, unless that is a
  deletion.  Forwards it stands at the entry it shows; backwards it has saved that entry and stands before all
  entries of the key.  The bytes it reads are sampled at random distances: the calls of
  \<open>DBImpl.RecordReadSample\<close> are collected in \<open>di_samples\<close>.  A loop that does not end, and a failed
  assertion, are \<open>None\<close>; the capacity of \<open>saved_value_\<close> is not modelled.
\<close>

declare One_nat_def [simp del]

section \<open>The code\<close>

record 'i DBIter =
  di_iter :: 'i
  di_sequence :: SequenceNumber
  di_status :: Status
  di_saved_key :: "byte list"
  di_saved_value :: "byte list"
  di_direction :: Direction
  di_valid :: bool
  di_rnd :: uint32
  di_bytes :: uint64
  di_samples :: "byte list list"

definition kReadBytesPeriod :: uint32 where "kReadBytesPeriod = 1048576"

definition RandomCompactionPeriod :: "uint32 \<Rightarrow> uint32 \<times> uint32" where
  "RandomCompactionPeriod seed = Random_Uniform seed (2 * kReadBytesPeriod)"

definition NewDBIterator :: "'i \<Rightarrow> SequenceNumber \<Rightarrow> uint32 \<Rightarrow> 'i DBIter" where
  "NewDBIterator it s seed =
     (let (period, seed) = RandomCompactionPeriod (Random_new seed) in
      \<lparr>di_iter = it, di_sequence = s, di_status = OK, di_saved_key = [], di_saved_value = [], di_direction = kForward,
       di_valid = False, di_rnd = seed, di_bytes = ucast period, di_samples = []\<rparr>)"

partial_function (option) sample_reads :: "byte list \<Rightarrow> uint64 \<Rightarrow> 'i DBIter \<Rightarrow> 'i DBIter option" where
  "sample_reads k bytes_read d =
     (if di_bytes d < bytes_read then
        let (period, seed) = RandomCompactionPeriod (di_rnd d) in
        sample_reads k bytes_read (d\<lparr>di_bytes := di_bytes d + ucast period, di_rnd := seed, di_samples := di_samples d @ [k]\<rparr>)
      else Some d)"

definition ParseKey :: "'i Iterator \<Rightarrow> 'i DBIter \<Rightarrow> (ParsedInternalKey option \<times> 'i DBIter) option" where
  "ParseKey ops d = do {
     k \<leftarrow> i_key ops (di_iter d);
     v \<leftarrow> i_value ops (di_iter d);
     (let bytes_read = word_of_nat (length k) + word_of_nat (length v) in do {
       d \<leftarrow> sample_reads k bytes_read d;
       (let d = d\<lparr>di_bytes := di_bytes d - bytes_read\<rparr> in
        case ParseInternalKey k of
          None \<Rightarrow> Some (None, d\<lparr>di_status := Corruption (str ''corrupted internal key in DBIter'') []\<rparr>)
        | Some ikey \<Rightarrow> Some (Some ikey, d)) }) }"

definition on_iter :: "('i \<Rightarrow> 'i option) \<Rightarrow> 'i DBIter \<Rightarrow> 'i DBIter option" where
  "on_iter f d = do { it \<leftarrow> f (di_iter d); Some (d\<lparr>di_iter := it\<rparr>) }"

definition iter_valid :: "'i Iterator \<Rightarrow> 'i DBIter \<Rightarrow> bool" where
  "iter_valid ops d = i_Valid ops (di_iter d)"

definition iter_user_key :: "'i Iterator \<Rightarrow> 'i DBIter \<Rightarrow> byte list option" where
  "iter_user_key ops d = map_option ExtractUserKey (i_key ops (di_iter d))"

text \<open>The string that \<open>skip\<close> points to is \<open>saved_key_\<close> in every call.\<close>

partial_function (option) FindNextUserEntry :: "'i Iterator \<Rightarrow> comparing \<Rightarrow> bool \<Rightarrow> 'i DBIter \<Rightarrow> 'i DBIter option" where
  "FindNextUserEntry ops cmp skipping d = do {
     (ikey, d) \<leftarrow> ParseKey ops d;
     (let visible = (case ikey of None \<Rightarrow> False | Some ikey \<Rightarrow> pik_sequence ikey \<le> di_sequence d);
          deleted = visible \<and> pik_type (the ikey) = kTypeDeletion;
          hidden = skipping \<and> cmp (pik_user_key (the ikey)) (di_saved_key d) \<le> 0 in
      if visible \<and> \<not> deleted \<and> \<not> hidden then Some (d\<lparr>di_valid := True, di_saved_key := []\<rparr>)
      else let d = (if deleted then d\<lparr>di_saved_key := pik_user_key (the ikey)\<rparr> else d) in do {
        d \<leftarrow> on_iter (i_Next ops) d;
        (if iter_valid ops d then FindNextUserEntry ops cmp (skipping \<or> deleted) d
         else Some (d\<lparr>di_saved_key := [], di_valid := False\<rparr>)) }) }"

definition db_Next :: "'i Iterator \<Rightarrow> comparing \<Rightarrow> 'i DBIter \<Rightarrow> 'i DBIter option" where
  "db_Next ops cmp d =
     (if \<not> di_valid d then None
      else if di_direction d = kReverse then do {
        d \<leftarrow> on_iter (if \<not> iter_valid ops d then i_SeekToFirst ops else i_Next ops) (d\<lparr>di_direction := kForward\<rparr>);
        (if \<not> iter_valid ops d then Some (d\<lparr>di_valid := False, di_saved_key := []\<rparr>)
         else FindNextUserEntry ops cmp True d) }
      else do {
        k \<leftarrow> iter_user_key ops d;
        FindNextUserEntry ops cmp True (d\<lparr>di_saved_key := k\<rparr>) })"

partial_function (option) find_prev_loop :: "'i Iterator \<Rightarrow> comparing \<Rightarrow> ValueType \<Rightarrow> 'i DBIter \<Rightarrow> (ValueType \<times> 'i DBIter) option" where
  "find_prev_loop ops cmp value_type d = do {
     (ikey, d) \<leftarrow> ParseKey ops d;
     (let visible = (case ikey of None \<Rightarrow> False | Some ikey \<Rightarrow> pik_sequence ikey \<le> di_sequence d) in
      if visible \<and> value_type \<noteq> kTypeDeletion \<and> cmp (pik_user_key (the ikey)) (di_saved_key d) < 0 then Some (value_type, d)
      else do {
        raw_value \<leftarrow> i_value ops (di_iter d);
        user_key \<leftarrow> iter_user_key ops d;
        (let value_type = (if visible then pik_type (the ikey) else value_type);
             d = (if \<not> visible then d
                  else if value_type = kTypeDeletion then d\<lparr>di_saved_key := [], di_saved_value := []\<rparr>
                  else d\<lparr>di_saved_key := user_key, di_saved_value := raw_value\<rparr>) in do {
          d \<leftarrow> on_iter (i_Prev ops) d;
          (if iter_valid ops d then find_prev_loop ops cmp value_type d else Some (value_type, d)) }) }) }"

definition FindPrevUserEntry :: "'i Iterator \<Rightarrow> comparing \<Rightarrow> 'i DBIter \<Rightarrow> 'i DBIter option" where
  "FindPrevUserEntry ops cmp d = do {
     (value_type, d) \<leftarrow> (if iter_valid ops d then find_prev_loop ops cmp kTypeDeletion d else Some (kTypeDeletion, d));
     (if value_type = kTypeDeletion
      then Some (d\<lparr>di_valid := False, di_saved_key := [], di_saved_value := [], di_direction := kForward\<rparr>)
      else Some (d\<lparr>di_valid := True\<rparr>)) }"

text \<open>The scan back to a smaller key; the flag says whether there is one.\<close>

partial_function (option) scan_back :: "'i Iterator \<Rightarrow> comparing \<Rightarrow> 'i DBIter \<Rightarrow> (bool \<times> 'i DBIter) option" where
  "scan_back ops cmp d = do {
     d \<leftarrow> on_iter (i_Prev ops) d;
     (if \<not> iter_valid ops d then Some (False, d\<lparr>di_valid := False, di_saved_key := [], di_saved_value := []\<rparr>)
      else do {
        k \<leftarrow> iter_user_key ops d;
        (if cmp k (di_saved_key d) < 0 then Some (True, d) else scan_back ops cmp d) }) }"

definition db_Prev :: "'i Iterator \<Rightarrow> comparing \<Rightarrow> 'i DBIter \<Rightarrow> 'i DBIter option" where
  "db_Prev ops cmp d =
     (if \<not> di_valid d then None
      else if di_direction d = kForward then do {
        k \<leftarrow> iter_user_key ops d;
        (more, d) \<leftarrow> scan_back ops cmp (d\<lparr>di_saved_key := k\<rparr>);
        (if more then FindPrevUserEntry ops cmp (d\<lparr>di_direction := kReverse\<rparr>) else Some d) }
      else FindPrevUserEntry ops cmp d)"

definition db_Seek :: "'i Iterator \<Rightarrow> comparing \<Rightarrow> byte list \<Rightarrow> 'i DBIter \<Rightarrow> 'i DBIter option" where
  "db_Seek ops cmp target d = do {
     k \<leftarrow> AppendInternalKey [] \<lparr>pik_user_key = target, pik_sequence = di_sequence d, pik_type = kValueTypeForSeek\<rparr>;
     d \<leftarrow> on_iter (i_Seek ops k) (d\<lparr>di_direction := kForward, di_saved_value := [], di_saved_key := k\<rparr>);
     (if iter_valid ops d then FindNextUserEntry ops cmp False d else Some (d\<lparr>di_valid := False\<rparr>)) }"

definition db_SeekToFirst :: "'i Iterator \<Rightarrow> comparing \<Rightarrow> 'i DBIter \<Rightarrow> 'i DBIter option" where
  "db_SeekToFirst ops cmp d = do {
     d \<leftarrow> on_iter (i_SeekToFirst ops) (d\<lparr>di_direction := kForward, di_saved_value := []\<rparr>);
     (if iter_valid ops d then FindNextUserEntry ops cmp False d else Some (d\<lparr>di_valid := False\<rparr>)) }"

definition db_SeekToLast :: "'i Iterator \<Rightarrow> comparing \<Rightarrow> 'i DBIter \<Rightarrow> 'i DBIter option" where
  "db_SeekToLast ops cmp d = do {
     d \<leftarrow> on_iter (i_SeekToLast ops) (d\<lparr>di_direction := kReverse, di_saved_value := []\<rparr>);
     FindPrevUserEntry ops cmp d }"

definition db_ops :: "'i Iterator \<Rightarrow> comparing \<Rightarrow> 'i DBIter Iterator" where
  "db_ops ops cmp = \<lparr>
     i_Valid = di_valid,
     i_SeekToFirst = db_SeekToFirst ops cmp,
     i_SeekToLast = db_SeekToLast ops cmp,
     i_Seek = db_Seek ops cmp,
     i_Next = db_Next ops cmp,
     i_Prev = db_Prev ops cmp,
     i_key = (\<lambda>d. if \<not> di_valid d then None
        else if di_direction d = kForward then iter_user_key ops d else Some (di_saved_key d)),
     i_value = (\<lambda>d. if \<not> di_valid d then None
        else if di_direction d = kForward then i_value ops (di_iter d) else Some (di_saved_value d)),
     i_status = (\<lambda>d. if ok (di_status d) then i_status ops (di_iter d) else di_status d)\<rparr>"

section \<open>The samples\<close>

definition sampled :: "'i DBIter \<Rightarrow> 'i DBIter \<Rightarrow> bool" where
  "sampled d d' \<longleftrightarrow> seed_ok (di_rnd d') \<and> (\<exists>b r l. d' = d\<lparr>di_bytes := b, di_rnd := r, di_samples := l\<rparr>)"

lemma sampled_bytes: "sampled d d' \<Longrightarrow> sampled d (d'\<lparr>di_bytes := b\<rparr>)"
proof -
  assume "sampled d d'"
  then obtain b' r l where d': "seed_ok (di_rnd d')" "d' = d\<lparr>di_bytes := b', di_rnd := r, di_samples := l\<rparr>" by (auto simp: sampled_def)
  then have "d'\<lparr>di_bytes := b\<rparr> = d\<lparr>di_bytes := b, di_rnd := r, di_samples := l\<rparr>" by simp
  moreover have "seed_ok (di_rnd (d'\<lparr>di_bytes := b\<rparr>))" using d'(1) by simp
  ultimately show ?thesis unfolding sampled_def by blast
qed

lemma period_unat:
  "RandomCompactionPeriod r = (Random_Next r mod 2097152, Random_Next r)"
  "unat (Random_Next r mod 2097152) = unat (Random_Next r) mod 2097152"
  by (simp_all add: RandomCompactionPeriod_def Random_Uniform_def kReadBytesPeriod_def Let_def unat_mod)

text \<open>A period can be 0, but never two of them in a row: so the sampling ends.\<close>

lemma no_two_zero_periods:
  assumes "seed_ok r" and "unat r mod 2097152 = 0"
  shows "unat (Random_Next r) mod 2097152 \<noteq> 0"
proof -
  obtain k where k: "unat r = 2097152 * k" using assms(2) by (auto simp: mod_eq_0_iff_dvd dvd_def)
  with assms(1) have b: "0 < k" "k < 1024" by (auto simp: seed_ok_def)
  define q t where "q = (k * 16807) div 1024" and "t = (k * 16807) mod 1024"
  have kt: "k * 16807 = q * 1024 + t" and t: "t < 1024" by (simp_all add: q_def t_def)
  have q: "0 < q" "q < 16807" using b by (simp_all add: q_def div_greater_zero_iff less_mult_imp_div_less)
  have "unat r * 16807 = q * 2147483647 + (q + t * 2097152)" using k kt by (simp add: algebra_simps)
  moreover have "q + t * 2097152 < 2147483647" using q t by simp
  ultimately have "unat (Random_Next r) = q + t * 2097152"
    using Random_Next_mod(1) [OF assms(1)] by (metis mod_less mod_mult_self3)
  then show ?thesis using q by simp
qed

lemma sample_reads_ok:
  fixes d :: "'i DBIter"
  assumes "seed_ok (di_rnd d)" and "unat bytes_read < 2 ^ 40"
  shows "\<exists>d'. sample_reads k bytes_read d = Some d' \<and> sampled d d'"
  using assms(1)
proof (induction "2 * (unat bytes_read - unat (di_bytes d)) + (if unat (di_rnd d) mod 2097152 = 0 then 0 else 1)"
    arbitrary: d rule: less_induct)
  case less
  show ?case
  proof (cases "di_bytes d < bytes_read")
    case False
    then have "sample_reads k bytes_read d = Some d" by (subst sample_reads.simps) simp
    moreover have "sampled d d" using less.prems by (simp add: sampled_def) (metis DBIter.surjective DBIter.update_convs(8-10))
    ultimately show ?thesis by blast
  next
    case True
    let ?r = "Random_Next (di_rnd d)"
    let ?p = "unat ?r mod 2097152"
    let ?d = "d\<lparr>di_bytes := di_bytes d + ucast (?r mod 2097152), di_rnd := ?r, di_samples := di_samples d @ [k]\<rparr>"
    have r: "seed_ok ?r" by (rule Random_Next_mod(2) [OF less.prems])
    have p: "unat (ucast (?r mod 2097152) :: uint64) = ?p"
      by (simp add: unsigned_ucast_eq take_bit_eq_mod period_unat(2))
    have lt: "unat (di_bytes d) < unat bytes_read" using True by (simp add: word_less_nat_alt)
    then have sum: "unat (di_bytes d + ucast (?r mod 2097152)) = unat (di_bytes d) + ?p"
      using assms(2) by (simp add: unat_word_ariths p)
    have "2 * (unat bytes_read - unat (di_bytes ?d)) + (if unat (di_rnd ?d) mod 2097152 = 0 then 0 else 1)
        < 2 * (unat bytes_read - unat (di_bytes d)) + (if unat (di_rnd d) mod 2097152 = 0 then 0 else 1)"
    proof (cases "?p = 0")
      case True
      then have "unat (di_rnd d) mod 2097152 \<noteq> 0" using no_two_zero_periods [OF less.prems] by auto
      then show ?thesis using True by (simp add: sum)
    next
      case False
      then show ?thesis using lt by (simp add: sum)
    qed
    from less.hyps [OF this] r obtain d' where d': "sample_reads k bytes_read ?d = Some d'" "sampled ?d d'" by auto
    have "sample_reads k bytes_read d = sample_reads k bytes_read ?d"
      using True by (subst sample_reads.simps) (simp add: period_unat(1))
    moreover have "sampled d d'" using d'(2) by (auto simp: sampled_def)
    ultimately show ?thesis using d'(1) by auto
  qed
qed

section \<open>What the user sees\<close>

abbreviation version_type :: "version \<Rightarrow> ValueType" where "version_type e \<equiv> fst (snd (snd e))"
abbreviation version_value :: "version \<Rightarrow> byte list" where "version_value e \<equiv> snd (snd (snd e))"

definition seen :: "SequenceNumber \<Rightarrow> version \<Rightarrow> bool" where
  "seen s e \<longleftrightarrow> version_seq e \<le> s"

text \<open>An internal entry is shown when it is visible, is a value, and no visible entry before it has its user key.\<close>

definition shown_at :: "comparing \<Rightarrow> SequenceNumber \<Rightarrow> version list \<Rightarrow> nat \<Rightarrow> bool" where
  "shown_at cmp s vs i \<longleftrightarrow> i < length vs \<and> seen s (vs ! i) \<and> version_type (vs ! i) = kTypeValue
     \<and> (\<forall>k<i. seen s (vs ! k) \<longrightarrow> cmp (version_key (vs ! k)) (version_key (vs ! i)) \<noteq> 0)"

definition user_view :: "comparing \<Rightarrow> SequenceNumber \<Rightarrow> version list \<Rightarrow> entry list" where
  "user_view cmp s vs = map (\<lambda>i. (version_key (vs ! i), version_value (vs ! i))) (filter (shown_at cmp s vs) [0..<length vs])"

text \<open>Places in a filtered sequence.\<close>

definition place_of :: "(nat \<Rightarrow> bool) \<Rightarrow> nat \<Rightarrow> nat" where
  "place_of P i = length (filter P [0..<i])"

lemma place_of_Suc: "place_of P (Suc i) = (if P i then Suc (place_of P i) else place_of P i)"
  by (simp add: place_of_def)

lemma place_of_gap: "i \<le> j \<Longrightarrow> (\<And>k. i \<le> k \<Longrightarrow> k < j \<Longrightarrow> \<not> P k) \<Longrightarrow> place_of P j = place_of P i"
proof (induction "j - i" arbitrary: j)
  case (Suc n)
  then obtain m where "j = Suc m" "i \<le> m" by (cases j) auto
  then show ?case using Suc.hyps(1) [of m] Suc.hyps(2) Suc.prems by (simp add: place_of_Suc)
qed simp

lemma place_of_nth:
  assumes "P i" and "i < n"
  shows "place_of P i < length (filter P [0..<n])" and "filter P [0..<n] ! place_of P i = i"
proof -
  have "[0..<n] = [0..<i] @ i # [Suc i..<n]" using assms(2) by (metis le_add_diff_inverse less_imp_le upt_add_eq_append upt_conv_Cons zero_le)
  then have "filter P [0..<n] = filter P [0..<i] @ i # filter P [Suc i..<n]" using assms(1) by simp
  then show "place_of P i < length (filter P [0..<n])" "filter P [0..<n] ! place_of P i = i"
    by (simp_all add: place_of_def nth_append)
qed

definition first_from :: "(nat \<Rightarrow> bool) \<Rightarrow> nat \<Rightarrow> nat \<Rightarrow> nat \<Rightarrow> bool" where
  "first_from Q n i j \<longleftrightarrow> i \<le> j \<and> j \<le> n \<and> (\<forall>k. i \<le> k \<and> k < j \<longrightarrow> \<not> Q k) \<and> (j < n \<longrightarrow> Q j)"

lemma first_from_Suc: "first_from Q' n (Suc i) j \<Longrightarrow> \<not> Q i \<Longrightarrow> (\<And>k. i < k \<Longrightarrow> k < n \<Longrightarrow> Q' k = Q k) \<Longrightarrow> first_from Q n i j"
proof -
  assume f: "first_from Q' n (Suc i) j" and "\<not> Q i" and same: "\<And>k. i < k \<Longrightarrow> k < n \<Longrightarrow> Q' k = Q k"
  have "\<not> Q k" if "i \<le> k" "k < j" for k
    using that f \<open>\<not> Q i\<close> same [of k] by (cases "k = i") (auto simp: first_from_def)
  then show ?thesis using f same [of j] by (auto simp: first_from_def)
qed

lemma first_from_cong: "first_from Q' n i j \<Longrightarrow> (\<And>k. i \<le> k \<Longrightarrow> k < n \<Longrightarrow> Q' k = Q k) \<Longrightarrow> first_from Q n i j"
  by (auto simp: first_from_def)

lemma place_of_first: "first_from P n i j \<Longrightarrow> place_of P j = place_of P i"
  by (rule place_of_gap) (auto simp: first_from_def)

section \<open>The loops\<close>

locale db_iterating = iterator_over ops "InternalKeyCompare cmp" ivalid stand + users: key_order valid cmp
  for ops :: "'i Iterator" and cmp ivalid stand valid +
  assumes user_ivalid: "valid u \<Longrightarrow> length u + 8 < 2 ^ 32 \<Longrightarrow> ivalid (internal_bytes u tag)"
begin

text \<open>The internal iterator stands at \<open>i\<close> of the versions \<open>vs\<close>.\<close>

definition at_version :: "version list \<Rightarrow> nat \<Rightarrow> 'i DBIter \<Rightarrow> bool" where
  "at_version vs i d \<longleftrightarrow> list_all (version_ok valid) vs \<and> stand (map version_entry vs) i (di_iter d)"

definition healthy :: "SequenceNumber \<Rightarrow> 'i DBIter \<Rightarrow> bool" where
  "healthy s d \<longleftrightarrow> di_sequence d = s \<and> di_status d = OK \<and> seed_ok (di_rnd d)"

lemma at_version_here:
  assumes "at_version vs i d" and "i < length vs"
  shows "iter_valid ops d" and "i_key ops (di_iter d) = Some (internal_bytes (version_key (vs ! i)) (tag_of (version_seq (vs ! i)) (version_type (vs ! i))))"
    and "i_value ops (di_iter d) = Some (version_value (vs ! i))" and "iter_user_key ops d = Some (version_key (vs ! i))"
proof -
  have st: "stand (map version_entry vs) i (di_iter d)" using assms(1) by (simp add: at_version_def)
  obtain u s t v where e: "vs ! i = (u, s, t, v)" by (cases "vs ! i") auto
  show "iter_valid ops d" using place [OF st] assms(2) by (simp add: iter_valid_def)
  show "i_key ops (di_iter d) = Some (internal_bytes (version_key (vs ! i)) (tag_of (version_seq (vs ! i)) (version_type (vs ! i))))"
    "i_value ops (di_iter d) = Some (version_value (vs ! i))" "iter_user_key ops d = Some (version_key (vs ! i))"
    using here [OF st] assms(2) e by (simp_all add: iter_user_key_def)
qed

lemma at_version_end: "at_version vs (length vs) d \<Longrightarrow> \<not> iter_valid ops d"
  using place [of "map version_entry vs" "length vs"] by (auto simp: at_version_def iter_valid_def)

lemma at_version_ok:
  assumes "at_version vs i d" and "j < length vs"
  shows "version_ok valid (vs ! j)" and "valid (version_key (vs ! j))"
proof -
  show "version_ok valid (vs ! j)" using assms by (simp add: at_version_def list_all_length)
  then show "valid (version_key (vs ! j))" by (cases "vs ! j") auto
qed

lemma at_version_less:
  assumes "at_version vs i d" and "j < k" and "k < length vs"
  shows "cmp (version_key (vs ! j)) (version_key (vs ! k)) \<le> 0"
proof -
  have "ascending (InternalKeyCompare cmp) (map version_entry vs)"
    using assms(1) entries by (auto simp: at_version_def)
  then have "InternalKeyCompare cmp (fst (version_entry (vs ! j))) (fst (version_entry (vs ! k))) < 0"
    using assms(2,3) by (simp add: ascending_def sorted_wrt_iff_nth_less)
  then show ?thesis
    by (cases "vs ! j"; cases "vs ! k") (simp add: InternalKeyCompare_bytes split: if_splits)
qed

lemma at_version_le:
  "at_version vs i d \<Longrightarrow> j \<le> k \<Longrightarrow> k < length vs \<Longrightarrow> cmp (version_key (vs ! j)) (version_key (vs ! k)) \<le> 0"
  using at_version_less [of vs i d j k] users.cmp_refl [OF at_version_ok(2), of vs i d j] by (cases "j = k") auto

lemma on_iter_to:
  assumes "at_version vs i d" and "\<And>it. stand (map version_entry vs) i it \<Longrightarrow> \<exists>it'. f it = Some it' \<and> stand (map version_entry vs) j it'"
  shows "\<exists>it'. on_iter f d = Some (d\<lparr>di_iter := it'\<rparr>) \<and> at_version vs j (d\<lparr>di_iter := it'\<rparr>)"
  using assms(2) [of "di_iter d"] assms(1) by (auto simp: on_iter_def at_version_def)

lemma on_iter_next:
  "at_version vs i d \<Longrightarrow> i < length vs \<Longrightarrow> \<exists>it'. on_iter (i_Next ops) d = Some (d\<lparr>di_iter := it'\<rparr>) \<and> at_version vs (Suc i) (d\<lparr>di_iter := it'\<rparr>)"
  by (rule on_iter_to) (auto intro: to_next)

lemma on_iter_prev:
  "at_version vs i d \<Longrightarrow> i < length vs \<Longrightarrow>
   \<exists>it'. on_iter (i_Prev ops) d = Some (d\<lparr>di_iter := it'\<rparr>) \<and> at_version vs (before_place (map version_entry vs) i) (d\<lparr>di_iter := it'\<rparr>)"
  by (rule on_iter_to) (auto intro: to_prev)

lemma ParseKey_ok:
  assumes at: "at_version vs i d" and i: "i < length vs" and h: "healthy s d"
  shows "\<exists>d'. ParseKey ops d = Some (Some \<lparr>pik_user_key = version_key (vs ! i), pik_sequence = version_seq (vs ! i),
      pik_type = version_type (vs ! i)\<rparr>, d') \<and> sampled d d'"
proof -
  obtain u q t v where e: "vs ! i = (u, q, t, v)" by (cases "vs ! i") auto
  have ok: "length u + 8 < 2 ^ 32" "length v < 2 ^ 32" "unat q < 2 ^ 56"
    using at_version_ok(1) [OF at i] e by (simp_all add: kMaxSequenceNumber_unat)
  define br :: uint64 where "br = word_of_nat (length u + 8) + word_of_nat (length v)"
  have "br = word_of_nat (length u + 8 + length v)" by (simp add: br_def)
  then have "unat br = (length u + 8 + length v) mod 2 ^ 64" by (simp only: unat_of_nat) simp
  moreover have "(length u + 8 + length v) mod 2 ^ 64 \<le> length u + 8 + length v" by (rule mod_less_eq_dividend)
  ultimately have br: "unat br < 2 ^ 40" using ok by simp
  have "seed_ok (di_rnd d)" using h by (simp add: healthy_def)
  from sample_reads_ok [OF this br] obtain d' where
    "sample_reads (internal_bytes u (tag_of q t)) br d = Some d'" "sampled d d'" by blast
  then show ?thesis
    using at_version_here [OF at i] ParseInternalKey_bytes [OF ok(3), of u t] e sampled_bytes [of d d']
    by (simp add: ParseKey_def br_def Let_def)
qed

lemma sampled_keeps:
  assumes "sampled d d'"
  shows "di_iter d' = di_iter d" "di_sequence d' = di_sequence d" "di_saved_key d' = di_saved_key d"
    "di_saved_value d' = di_saved_value d" "di_direction d' = di_direction d" "di_valid d' = di_valid d"
    "at_version vs i d \<longleftrightarrow> at_version vs i d'" "healthy s d \<Longrightarrow> healthy s d'"
  using assms by (auto simp: sampled_def at_version_def healthy_def)

definition next_shown :: "SequenceNumber \<Rightarrow> version list \<Rightarrow> nat \<Rightarrow> bool \<Rightarrow> byte list \<Rightarrow> nat \<Rightarrow> bool" where
  "next_shown s vs i skipping skip j \<longleftrightarrow> seen s (vs ! j) \<and> version_type (vs ! j) = kTypeValue
     \<and> \<not> (skipping \<and> cmp (version_key (vs ! j)) skip \<le> 0)
     \<and> (\<forall>k. i \<le> k \<and> k < j \<and> seen s (vs ! k) \<longrightarrow> cmp (version_key (vs ! k)) (version_key (vs ! j)) \<noteq> 0)"

lemma next_shown_Suc:
  "next_shown s vs i skipping skip j \<longleftrightarrow> next_shown s vs (Suc i) skipping skip j
     \<and> (i < j \<and> seen s (vs ! i) \<longrightarrow> cmp (version_key (vs ! i)) (version_key (vs ! j)) \<noteq> 0)"
proof -
  have all: "(\<forall>k. i \<le> k \<and> R k \<longrightarrow> Q k) \<longleftrightarrow> (R i \<longrightarrow> Q i) \<and> (\<forall>k. Suc i \<le> k \<and> R k \<longrightarrow> Q k)" for R Q
    by (metis Suc_leD le_antisym le_refl not_less_eq_eq)
  show ?thesis unfolding next_shown_def by (subst all) blast
qed

lemma FindNextUserEntry_ok:
  assumes "at_version vs i d" and "i < length vs" and "healthy s d" and "di_direction d = kForward"
    and "skipping \<Longrightarrow> valid (di_saved_key d)"
    and "\<And>j. skipping \<Longrightarrow> i \<le> j \<Longrightarrow> j < length vs \<Longrightarrow> seen s (vs ! j) \<Longrightarrow> cmp (di_saved_key d) (version_key (vs ! j)) \<le> 0"
  shows "\<exists>d' j. FindNextUserEntry ops cmp skipping d = Some d' \<and> healthy s d' \<and> di_direction d' = kForward
    \<and> first_from (next_shown s vs i skipping (di_saved_key d)) (length vs) i j \<and> at_version vs j d' \<and> di_valid d' = (j < length vs)"
  using assms
proof (induction "length vs - i" arbitrary: i skipping d rule: less_induct)
  case less
  note at = less.prems(1) and i = less.prems(2)
  let ?e = "vs ! i" and ?skip = "di_saved_key d"
  obtain d1 where d1: "ParseKey ops d = Some (Some \<lparr>pik_user_key = version_key ?e, pik_sequence = version_seq ?e,
      pik_type = version_type ?e\<rparr>, d1)" "sampled d d1"
    using ParseKey_ok [OF at i less.prems(3)] by blast
  note keep = sampled_keeps [OF d1(2)]
  have at1: "at_version vs i d1" and h1: "healthy s d1" using keep at less.prems(3) by blast+
  have seq: "di_sequence d1 = s" using h1 by (simp add: healthy_def)
  define visible where "visible \<longleftrightarrow> seen s ?e"
  define deleted where "deleted \<longleftrightarrow> visible \<and> version_type ?e = kTypeDeletion"
  define hidden where "hidden \<longleftrightarrow> skipping \<and> cmp (version_key ?e) ?skip \<le> 0"
  note defs = visible_def deleted_def hidden_def
  show ?case
  proof (cases "visible \<and> \<not> deleted \<and> \<not> hidden")
    case True
    let ?d = "d1\<lparr>di_valid := True, di_saved_key := []\<rparr>"
    have "FindNextUserEntry ops cmp skipping d = Some ?d"
      using True by (subst FindNextUserEntry.simps) (auto simp: d1(1) Let_def seq keep defs seen_def)
    moreover have "next_shown s vs i skipping ?skip i"
      using True by (cases "version_type ?e") (auto simp: next_shown_def defs)
    then have "first_from (next_shown s vs i skipping ?skip) (length vs) i i" using i by (auto simp: first_from_def)
    ultimately show ?thesis
      using at1 h1 keep(5) less.prems(4) i by (auto simp: at_version_def healthy_def)
  next
    case False
    let ?d = "if deleted then d1\<lparr>di_saved_key := version_key ?e\<rparr> else d1"
    have "at_version vs i ?d" using at1 by (simp add: at_version_def)
    from on_iter_next [OF this i] obtain it where it: "on_iter (i_Next ops) ?d = Some (?d\<lparr>di_iter := it\<rparr>)"
      "at_version vs (Suc i) (?d\<lparr>di_iter := it\<rparr>)" by blast
    let ?d2 = "?d\<lparr>di_iter := it\<rparr>" and ?sk = "skipping \<or> deleted"
    have eq: "FindNextUserEntry ops cmp skipping d = (if iter_valid ops ?d2 then FindNextUserEntry ops cmp ?sk ?d2
        else Some (?d2\<lparr>di_saved_key := [], di_valid := False\<rparr>))"
      using False it(1) by (subst FindNextUserEntry.simps) (auto simp: d1(1) Let_def seq keep defs seen_def)
    have h2: "healthy s ?d2" "di_direction ?d2 = kForward" using h1 keep(5) less.prems(4) by (simp_all add: healthy_def)
    have skip2: "di_saved_key ?d2 = (if deleted then version_key ?e else ?skip)" using keep(3) by simp
    have not_i: "\<not> next_shown s vs i skipping ?skip i" using False by (auto simp: next_shown_def defs)
    have vi: "valid (version_key ?e)" by (rule at_version_ok(2) [OF at i])
    have same: "next_shown s vs (Suc i) ?sk (di_saved_key ?d2) k = next_shown s vs i skipping ?skip k" if k: "i < k" "k < length vs" for k
    proof -
      have vk: "valid (version_key (vs ! k))" and le: "cmp (version_key ?e) (version_key (vs ! k)) \<le> 0"
        using at_version_ok(2) [OF at k(2)] at_version_less [OF at k] by simp_all
      have flip: "cmp (version_key (vs ! k)) (version_key ?e) \<le> 0 \<longleftrightarrow> cmp (version_key ?e) (version_key (vs ! k)) = 0"
        using users.cmp_flip [OF vi vk] users.cmp_flip [OF vk vi] le by linarith
      have "\<not> (skipping \<and> cmp (version_key (vs ! k)) ?skip \<le> 0)" if "visible" "cmp (version_key ?e) (version_key (vs ! k)) \<noteq> 0"
      proof
        assume sk: "skipping \<and> cmp (version_key (vs ! k)) ?skip \<le> 0"
        then have vs: "valid ?skip" "cmp ?skip (version_key ?e) \<le> 0"
          using less.prems(5,6) i \<open>visible\<close> by (auto simp: visible_def)
        then have "cmp (version_key (vs ! k)) (version_key ?e) \<le> 0"
          using users.cmp_trans [OF vk vs(1) vi] sk by blast
        then show False using flip \<open>cmp (version_key ?e) (version_key (vs ! k)) \<noteq> 0\<close> by simp
      qed
      moreover have "skipping \<and> cmp (version_key (vs ! k)) ?skip \<le> 0"
        if "visible" "hidden" "cmp (version_key ?e) (version_key (vs ! k)) = 0"
      proof -
        have "cmp (version_key (vs ! k)) (version_key ?e) \<le> 0" using flip that by simp
        moreover have "cmp (version_key ?e) ?skip \<le> 0" "valid ?skip" "skipping" using that less.prems(5) by (simp_all add: hidden_def)
        ultimately show ?thesis using users.cmp_trans [OF vk vi] by blast
      qed
      ultimately show ?thesis
        using False k(1) flip unfolding next_shown_Suc [of s vs i] skip2
        by (auto simp: next_shown_def defs)
    qed
    show ?thesis
    proof (cases "Suc i < length vs")
      case True
      have "\<exists>d' j. FindNextUserEntry ops cmp ?sk ?d2 = Some d' \<and> healthy s d' \<and> di_direction d' = kForward
          \<and> first_from (next_shown s vs (Suc i) ?sk (di_saved_key ?d2)) (length vs) (Suc i) j \<and> at_version vs j d' \<and> di_valid d' = (j < length vs)"
      proof (rule less.hyps [OF _ it(2) True h2])
        show "valid (di_saved_key ?d2)" if ?sk using that vi less.prems(5) keep(3) by auto
        fix j assume j: ?sk "Suc i \<le> j" "j < length vs" "seen s (vs ! j)"
        then show "cmp (di_saved_key ?d2) (version_key (vs ! j)) \<le> 0"
          using at_version_less [OF at, of i j] less.prems(6) [of j] skip2 by auto
      qed (use i in simp)
      then obtain d' j where d': "FindNextUserEntry ops cmp ?sk ?d2 = Some d'" "healthy s d'" "di_direction d' = kForward"
        "first_from (next_shown s vs (Suc i) ?sk (di_saved_key ?d2)) (length vs) (Suc i) j" "at_version vs j d'" "di_valid d' = (j < length vs)"
        by blast
      moreover have "first_from (next_shown s vs i skipping ?skip) (length vs) i j"
        by (rule first_from_Suc [where Q = "next_shown s vs i skipping ?skip", OF d'(4) not_i]) (rule same)
      ultimately show ?thesis using at_version_here(1) [OF it(2) True] eq by auto
    next
      case False
      then have last: "Suc i = length vs" using i by simp
      have "first_from (next_shown s vs i skipping ?skip) (length vs) i (length vs)"
        using not_i i last by (auto simp: first_from_def less_Suc_eq_le dest: le_antisym)
      moreover define d3 where "d3 = ?d2\<lparr>di_saved_key := [], di_valid := False\<rparr>"
      have "at_version vs (length vs) d3" "healthy s d3" "di_direction d3 = kForward" "\<not> di_valid d3"
        using it(2) last h2 by (simp_all add: d3_def at_version_def healthy_def)
      moreover have "FindNextUserEntry ops cmp skipping d = Some d3"
        using at_version_end [of vs ?d2] it(2) last eq by (simp add: d3_def)
      ultimately show ?thesis by (metis less_irrefl)
    qed
  qed
qed

text \<open>Backwards: the iterator stands before the place \<open>q\<close>, and what is saved is the entry \<open>c\<close>.\<close>

definition before_version :: "version list \<Rightarrow> nat \<Rightarrow> 'i DBIter \<Rightarrow> bool" where
  "before_version vs q d \<longleftrightarrow> at_version vs (before_place (map version_entry vs) q) d"

definition saved :: "SequenceNumber \<Rightarrow> version list \<Rightarrow> nat \<Rightarrow> nat \<Rightarrow> 'i DBIter \<Rightarrow> bool" where
  "saved s vs q c d \<longleftrightarrow> q \<le> c \<and> c < length vs \<and> seen s (vs ! c) \<and> version_type (vs ! c) = kTypeValue
     \<and> di_saved_key d = version_key (vs ! c) \<and> di_saved_value d = version_value (vs ! c)
     \<and> (\<forall>k. q \<le> k \<and> k < c \<longrightarrow> \<not> seen s (vs ! k))"

lemma find_prev_loop_ok:
  assumes "at_version vs i d" and "i < length vs" and "healthy s d" and "vt = kTypeValue \<Longrightarrow> saved s vs (Suc i) c d"
  shows "\<exists>vt' d' q. find_prev_loop ops cmp vt d = Some (vt', d') \<and> healthy s d' \<and> before_version vs q d' \<and> q \<le> length vs
    \<and> di_direction d' = di_direction d
    \<and> (if vt' = kTypeDeletion then \<forall>k. k \<le> i \<or> vt = kTypeValue \<and> k = c \<longrightarrow> \<not> shown_at cmp s vs k
       else \<exists>c'. saved s vs q c' d' \<and> shown_at cmp s vs c' \<and> (c' \<le> i \<or> vt = kTypeValue \<and> c' = c)
         \<and> (\<forall>k. (k \<le> i \<or> vt = kTypeValue \<and> k = c) \<and> c' < k \<longrightarrow> \<not> shown_at cmp s vs k))"
  using assms
proof (induction i arbitrary: vt c d rule: less_induct)
  case (less i)
  note at = less.prems(1) and i = less.prems(2)
  let ?e = "vs ! i"
  obtain d1 where d1: "ParseKey ops d = Some (Some \<lparr>pik_user_key = version_key ?e, pik_sequence = version_seq ?e,
      pik_type = version_type ?e\<rparr>, d1)" "sampled d d1"
    using ParseKey_ok [OF at i less.prems(3)] by blast
  note keep = sampled_keeps [OF d1(2)]
  have at1: "at_version vs i d1" and h1: "healthy s d1" using keep at less.prems(3) by blast+
  have seq: "di_sequence d1 = s" using h1 by (simp add: healthy_def)
  note here1 = at_version_here [OF at1 i]
  have vi: "valid (version_key ?e)" by (rule at_version_ok(2) [OF at i])
  have shown_first: "shown_at cmp s vs c'" if "saved s vs q c' d'" "\<And>k. k < q \<Longrightarrow> seen s (vs ! k) \<Longrightarrow> cmp (version_key (vs ! k)) (version_key (vs ! c')) < 0" for q c' d'
    unfolding shown_at_def
  proof (intro conjI allI impI)
    fix k assume "k < c'" "seen s (vs ! k)"
    then show "cmp (version_key (vs ! k)) (version_key (vs ! c')) \<noteq> 0"
      using that(1) that(2) [of k] by (cases "k < q") (auto simp: saved_def)
  qed (use that(1) in \<open>auto simp: saved_def\<close>)
  show ?case
  proof (cases "seen s ?e \<and> vt \<noteq> kTypeDeletion \<and> cmp (version_key ?e) (di_saved_key d) < 0")
    case True
    have vt: "vt = kTypeValue" using True by (cases vt) auto
    note sv = less.prems(4) [OF vt]
    have "find_prev_loop ops cmp vt d = Some (vt, d1)"
      using True by (subst find_prev_loop.simps) (simp add: d1(1) Let_def seq keep seen_def)
    moreover have "before_version vs (Suc i) d1" using at1 by (simp add: before_version_def before_place_def)
    moreover have sv1: "saved s vs (Suc i) c d1" using sv keep by (simp add: saved_def)
    moreover have "shown_at cmp s vs c"
    proof (rule shown_first [OF sv1])
      fix k assume "k < Suc i" "seen s (vs ! k)"
      then have "k < length vs" "cmp (version_key (vs ! k)) (version_key ?e) \<le> 0" using i at_version_le [OF at, of k i] by auto
      moreover have "cmp (version_key ?e) (version_key (vs ! c)) < 0" using True sv by (simp add: saved_def)
      moreover have "valid (version_key (vs ! c))" using sv at_version_ok(2) [OF at] by (simp add: saved_def)
      ultimately show "cmp (version_key (vs ! k)) (version_key (vs ! c)) < 0"
        using users.cmp_less_trans2 [OF _ vi] at_version_ok(2) [OF at] by blast
    qed
    moreover have "\<not> (k \<le> i \<and> c < k)" for k using sv by (auto simp: saved_def)
    ultimately show ?thesis using vt h1 i keep(5) by (intro exI [of _ vt] exI [of _ d1] exI [of _ "Suc i"]) auto
  next
    case False
    define vt2 where "vt2 = (if seen s ?e then version_type ?e else vt)"
    define d2 where "d2 = (if \<not> seen s ?e then d1 else if vt2 = kTypeDeletion then d1\<lparr>di_saved_key := [], di_saved_value := []\<rparr>
      else d1\<lparr>di_saved_key := version_key ?e, di_saved_value := version_value ?e\<rparr>)"
    define c2 where "c2 = (if seen s ?e then i else c)"
    have at2: "at_version vs i d2" and h2: "healthy s d2" and dir2: "di_direction d2 = di_direction d"
      using at1 h1 keep(5) by (simp_all add: d2_def at_version_def healthy_def)
    obtain it where it: "on_iter (i_Prev ops) d2 = Some (d2\<lparr>di_iter := it\<rparr>)"
      "at_version vs (before_place (map version_entry vs) i) (d2\<lparr>di_iter := it\<rparr>)" using on_iter_prev [OF at2 i] by blast
    let ?d = "d2\<lparr>di_iter := it\<rparr>"
    have eq: "find_prev_loop ops cmp vt d = (if iter_valid ops ?d then find_prev_loop ops cmp vt2 ?d else Some (vt2, ?d))"
      using False it(1) here1 by (subst find_prev_loop.simps) (auto simp: d1(1) Let_def seq keep seen_def vt2_def d2_def)
    have h3: "healthy s ?d" "di_direction ?d = di_direction d" using h2 dir2 by (simp_all add: healthy_def)
    have sv2: "saved s vs i c2 ?d" if "vt2 = kTypeValue"
    proof (cases "seen s ?e")
      case True
      then show ?thesis using that i by (auto simp: saved_def c2_def vt2_def d2_def)
    next
      case False
      then have "saved s vs (Suc i) c d" using that less.prems(4) by (simp add: vt2_def)
      then show ?thesis using False keep by (auto simp: saved_def c2_def d2_def le_eq_less_or_eq [of i] Suc_le_eq)
    qed
    text \<open>Neither \<open>i\<close> nor what was saved is shown, but for what is saved now.\<close>
    have drop: "\<not> shown_at cmp s vs k" if "k = i \<or> vt = kTypeValue \<and> k = c" "\<not> (vt2 = kTypeValue \<and> k = c2)" for k
    proof
      assume sh: "shown_at cmp s vs k"
      show False
      proof (cases "k = i")
        case True
        then show ?thesis using sh that(2) by (auto simp: shown_at_def vt2_def c2_def)
      next
        case False
        then have k: "vt = kTypeValue" "k = c" using that(1) by auto
        note sv = less.prems(4) [OF k(1)]
        have se: "seen s ?e" using that(2) k by (auto simp: vt2_def c2_def split: if_splits)
        then have "\<not> cmp (version_key ?e) (version_key (vs ! c)) < 0"
          using \<open>\<not> (seen s ?e \<and> _ \<and> _)\<close> k(1) sv by (auto simp: saved_def)
        moreover have "i < c" "c < length vs" using sv by (auto simp: saved_def)
        ultimately have "cmp (version_key ?e) (version_key (vs ! c)) = 0" using at_version_less [OF at, of i c] by simp
        then show ?thesis using sh se k \<open>i < c\<close> by (auto simp: shown_at_def)
      qed
    qed
    have c2: "c2 \<le> i \<or> vt = kTypeValue \<and> c2 = c" if "vt2 = kTypeValue" using that by (auto simp: c2_def vt2_def)
    show ?thesis
    proof (cases i)
      case 0
      then have "before_version vs 0 ?d" using it(2) by (simp add: before_version_def)
      moreover have "\<not> iter_valid ops ?d" using it(2) 0 at_version_end [of vs ?d] by (simp add: before_place_def)
      moreover have "shown_at cmp s vs c2" if "vt2 = kTypeValue" using shown_first [OF sv2 [OF that]] 0 by simp
      moreover have "vt2 = kTypeValue" if "vt2 \<noteq> kTypeDeletion" using that by (cases vt2) auto
      ultimately show ?thesis using eq h3 0 sv2 drop c2
        by (intro exI [of _ vt2] exI [of _ ?d] exI [of _ 0]) (auto intro!: exI [of _ c2])
    next
      case (Suc m)
      then have m: "at_version vs m ?d" "m < i" "m < length vs" using it(2) i by (simp_all add: before_place_def)
      have "vt2 = kTypeValue \<Longrightarrow> saved s vs (Suc m) c2 ?d" using sv2 Suc by simp
      from less.IH [OF m(2,1,3) h3(1) this] obtain vt' d' q where
        r: "find_prev_loop ops cmp vt2 ?d = Some (vt', d')" "healthy s d'" "before_version vs q d'" "q \<le> length vs" "di_direction d' = di_direction ?d"
        "if vt' = kTypeDeletion then \<forall>k. k \<le> m \<or> vt2 = kTypeValue \<and> k = c2 \<longrightarrow> \<not> shown_at cmp s vs k
         else \<exists>c'. saved s vs q c' d' \<and> shown_at cmp s vs c' \<and> (c' \<le> m \<or> vt2 = kTypeValue \<and> c' = c2)
           \<and> (\<forall>k. (k \<le> m \<or> vt2 = kTypeValue \<and> k = c2) \<and> c' < k \<longrightarrow> \<not> shown_at cmp s vs k)" by blast
      have split: "k \<le> i \<longleftrightarrow> k \<le> m \<or> k = i" for k using Suc by auto
      have "find_prev_loop ops cmp vt d = Some (vt', d')" using eq r(1) at_version_here(1) [OF m(1,3)] by simp
      moreover have "if vt' = kTypeDeletion then \<forall>k. k \<le> i \<or> vt = kTypeValue \<and> k = c \<longrightarrow> \<not> shown_at cmp s vs k
         else \<exists>c'. saved s vs q c' d' \<and> shown_at cmp s vs c' \<and> (c' \<le> i \<or> vt = kTypeValue \<and> c' = c)
           \<and> (\<forall>k. (k \<le> i \<or> vt = kTypeValue \<and> k = c) \<and> c' < k \<longrightarrow> \<not> shown_at cmp s vs k)"
      proof (cases "vt' = kTypeDeletion")
        case True
        then have none: "\<not> shown_at cmp s vs k" if "k \<le> m \<or> vt2 = kTypeValue \<and> k = c2" for k using r(6) that by auto
        show ?thesis using True none drop split by auto
      next
        case False
        then obtain c' where c': "saved s vs q c' d'" "shown_at cmp s vs c'" "c' \<le> m \<or> vt2 = kTypeValue \<and> c' = c2"
          and none: "\<And>k. k \<le> m \<or> vt2 = kTypeValue \<and> k = c2 \<Longrightarrow> c' < k \<Longrightarrow> \<not> shown_at cmp s vs k" using r(6) by auto
        have "c' \<le> i \<or> vt = kTypeValue \<and> c' = c" using c'(3) c2 m(2) by auto
        moreover have "\<not> shown_at cmp s vs k" if "k \<le> i \<or> vt = kTypeValue \<and> k = c" "c' < k" for k
          using that none [of k] drop [of k] split [of k] by blast
        ultimately show ?thesis using False c' by auto
      qed
      ultimately show ?thesis using r(2-5) h3(2) by metis
    qed
  qed
qed

lemma FindPrevUserEntry_ok:
  assumes "before_version vs q d" and "q \<le> length vs" and "healthy s d" and "di_direction d = kReverse"
  shows "\<exists>d'. FindPrevUserEntry ops cmp d = Some d' \<and> healthy s d' \<and> (\<exists>i. at_version vs i d')
    \<and> (if di_valid d' then \<exists>c q'. c < q \<and> shown_at cmp s vs c \<and> (\<forall>k. c < k \<and> k < q \<longrightarrow> \<not> shown_at cmp s vs k)
          \<and> saved s vs q' c d' \<and> before_version vs q' d' \<and> di_direction d' = kReverse
       else \<forall>k<q. \<not> shown_at cmp s vs k)"
proof (cases q)
  case 0
  then have "at_version vs (length vs) d" using assms(1) by (simp add: before_version_def before_place_def)
  with at_version_end [OF this] 0 assms(3) show ?thesis
    by (auto simp: FindPrevUserEntry_def healthy_def at_version_def)
next
  case (Suc i)
  then have at: "at_version vs i d" "i < length vs" using assms(1,2) by (simp_all add: before_version_def before_place_def)
  have le: "k \<le> i \<longleftrightarrow> k < q" for k using Suc by auto
  obtain vt' d' q' where r: "find_prev_loop ops cmp kTypeDeletion d = Some (vt', d')" "healthy s d'" "before_version vs q' d'"
    "di_direction d' = kReverse"
    "if vt' = kTypeDeletion then \<forall>k<q. \<not> shown_at cmp s vs k
     else \<exists>c'. saved s vs q' c' d' \<and> shown_at cmp s vs c' \<and> c' < q \<and> (\<forall>k. k < q \<and> c' < k \<longrightarrow> \<not> shown_at cmp s vs k)"
    using find_prev_loop_ok [OF at assms(3), of kTypeDeletion undefined] assms(4) by (simp add: le cong: if_cong) blast
  show ?thesis
  proof (cases "vt' = kTypeDeletion")
    case True
    then show ?thesis using r at_version_here(1) [OF at]
      by (auto simp: FindPrevUserEntry_def healthy_def before_version_def at_version_def)
  next
    case False
    then obtain c where c: "saved s vs q' c d'" "shown_at cmp s vs c" "c < q" "\<forall>k. k < q \<and> c < k \<longrightarrow> \<not> shown_at cmp s vs k"
      using r(5) by auto
    let ?d = "d'\<lparr>di_valid := True\<rparr>"
    have "FindPrevUserEntry ops cmp d = Some ?d" using r(1) at_version_here(1) [OF at] False by (simp add: FindPrevUserEntry_def)
    moreover have "healthy s ?d" "before_version vs q' ?d" "saved s vs q' c ?d" "di_direction ?d = kReverse" "di_valid ?d"
      using r c by (simp_all add: healthy_def before_version_def at_version_def saved_def)
    moreover have "\<exists>i. at_version vs i ?d" using \<open>before_version vs q' ?d\<close> by (auto simp: before_version_def)
    ultimately show ?thesis using c(2-4) by auto
  qed
qed

lemma scan_back_ok:
  assumes "at_version vs i d" and "i < length vs" and "healthy s d" and "shown_at cmp s vs c" and "di_saved_key d = version_key (vs ! c)"
    and "i \<le> c" and "\<And>k. i \<le> k \<Longrightarrow> k < c \<Longrightarrow> \<not> shown_at cmp s vs k"
  shows "\<exists>more d'. scan_back ops cmp d = Some (more, d') \<and> healthy s d' \<and> (\<exists>i. at_version vs i d')
    \<and> (if more then \<exists>q\<le>c. before_version vs q d' \<and> (\<forall>k. q \<le> k \<and> k < c \<longrightarrow> \<not> shown_at cmp s vs k)
       else \<not> di_valid d' \<and> (\<forall>k<c. \<not> shown_at cmp s vs k))"
  using assms
proof (induction i arbitrary: d)
  case 0
  from on_iter_prev [OF 0(1,2)] obtain it where it: "on_iter (i_Prev ops) d = Some (d\<lparr>di_iter := it\<rparr>)"
    "at_version vs (length vs) (d\<lparr>di_iter := it\<rparr>)" by (auto simp: before_place_def)
  then show ?case using at_version_end [OF it(2)] 0(3,7)
    by (subst scan_back.simps) (auto simp: healthy_def at_version_def)
next
  case (Suc i)
  from on_iter_prev [OF Suc.prems(1,2)] obtain it where it: "on_iter (i_Prev ops) d = Some (d\<lparr>di_iter := it\<rparr>)"
    "at_version vs i (d\<lparr>di_iter := it\<rparr>)" by (auto simp: before_place_def)
  let ?d = "d\<lparr>di_iter := it\<rparr>"
  have i: "i < length vs" "i < c" using Suc.prems(2,6) by simp_all
  note here = at_version_here [OF it(2) i(1)]
  have h: "healthy s ?d" using Suc.prems(3) by (simp add: healthy_def)
  show ?case
  proof (cases "cmp (version_key (vs ! i)) (version_key (vs ! c)) < 0")
    case True
    have "scan_back ops cmp d = Some (True, ?d)"
      using True it(1) here Suc.prems(5) by (subst scan_back.simps) simp
    moreover have "before_version vs (Suc i) ?d" using it(2) by (simp add: before_version_def before_place_def)
    ultimately show ?thesis using h Suc.prems(6,7) it(2)
      by (intro exI [of _ True] exI [of _ ?d] conjI) (simp, simp, blast, force)
  next
    case False
    have "c < length vs" using Suc.prems(4) by (simp add: shown_at_def)
    then have "cmp (version_key (vs ! i)) (version_key (vs ! c)) = 0" using False at_version_less [OF it(2) i(2)] by simp
    then have "\<not> seen s (vs ! i)" using Suc.prems(4) i(2) by (auto simp: shown_at_def)
    then have "\<not> shown_at cmp s vs i" by (simp add: shown_at_def)
    then have gap: "\<not> shown_at cmp s vs k" if "i \<le> k" "k < c" for k
      using Suc.prems(7) [of k] that by (cases "k = i") simp_all
    have "scan_back ops cmp d = scan_back ops cmp ?d"
      using False it(1) here Suc.prems(5) by (subst scan_back.simps) simp
    with Suc.IH [OF it(2) i(1) h Suc.prems(4) _ _ gap] Suc.prems(5) i(2) show ?thesis by simp
  qed
qed

end

section \<open>The contract\<close>

definition user_key_ok :: "(byte list \<Rightarrow> bool) \<Rightarrow> byte list \<Rightarrow> bool" where
  "user_key_ok valid u \<longleftrightarrow> valid u \<and> length u + 8 < 2 ^ 32"

text \<open>Where the iterator is among the entries the user sees.\<close>

definition on_user :: "'i Iterator \<Rightarrow> comparing \<Rightarrow> (byte list \<Rightarrow> bool) \<Rightarrow> (entry list \<Rightarrow> nat \<Rightarrow> 'i \<Rightarrow> bool) \<Rightarrow> SequenceNumber
    \<Rightarrow> entry list \<Rightarrow> nat \<Rightarrow> 'i DBIter \<Rightarrow> bool" where
  "on_user ops cmp valid stand s es j d \<longleftrightarrow>
     (\<exists>vs. es = user_view cmp s vs \<and> s \<le> kMaxSequenceNumber \<and> db_iterating.healthy s d
        \<and> (\<exists>i. db_iterating.at_version stand valid vs i d)
        \<and> (if di_valid d
           then \<exists>c. shown_at cmp s vs c \<and> j = place_of (shown_at cmp s vs) c
             \<and> (if di_direction d = kForward then db_iterating.at_version stand valid vs c d
                else \<exists>q. db_iterating.saved s vs q c d \<and> db_iterating.before_version stand valid vs q d)
           else j = length es))"

context db_iterating
begin

abbreviation place_in :: "SequenceNumber \<Rightarrow> version list \<Rightarrow> nat \<Rightarrow> nat" where
  "place_in s vs \<equiv> place_of (shown_at cmp s vs)"

lemma user_view_nth:
  assumes "shown_at cmp s vs c"
  shows "place_in s vs c < length (user_view cmp s vs)"
    and "user_view cmp s vs ! place_in s vs c = (version_key (vs ! c), version_value (vs ! c))"
proof -
  have c: "c < length vs" using assms by (simp add: shown_at_def)
  from place_of_nth [where P = "shown_at cmp s vs", OF assms c]
  show "place_in s vs c < length (user_view cmp s vs)"
    "user_view cmp s vs ! place_in s vs c = (version_key (vs ! c), version_value (vs ! c))" by (simp_all add: user_view_def)
qed

lemma place_in_all: "place_in s vs (length vs) = length (user_view cmp s vs)"
  by (simp add: place_of_def user_view_def)

lemma shown_less:
  assumes "at_version vs i d" and "shown_at cmp s vs a" and "shown_at cmp s vs b" and "a < b"
  shows "cmp (version_key (vs ! a)) (version_key (vs ! b)) < 0"
  using at_version_less [OF assms(1,4)] assms(2-4) by (auto simp: shown_at_def le_less)

lemma user_view_ascending:
  assumes "at_version vs i d"
  shows "ascending cmp (user_view cmp s vs)" and "list_all (user_key_ok valid \<circ> fst) (user_view cmp s vs)"
proof -
  have "sorted_wrt (\<lambda>a b. cmp (version_key (vs ! a)) (version_key (vs ! b)) < 0) (filter (shown_at cmp s vs) [0..<length vs])"
    by (rule sorted_wrt_mono_rel [of _ "(<)"]) (auto simp: sorted_wrt_filter intro: shown_less [OF assms])
  then show "ascending cmp (user_view cmp s vs)" by (simp add: ascending_def user_view_def sorted_wrt_map)
  have "user_key_ok valid (version_key (vs ! k))" if "k < length vs" for k
    using at_version_ok(1) [OF assms that] by (cases "vs ! k") (simp add: user_key_ok_def)
  then show "list_all (user_key_ok valid \<circ> fst) (user_view cmp s vs)" by (auto simp: user_view_def list_all_iff)
qed

text \<open>What the three ways to look for an entry forwards find is what is shown.\<close>

lemma next_shown_start: "k < length vs \<Longrightarrow> next_shown s vs 0 False u k = shown_at cmp s vs k"
  by (auto simp: next_shown_def shown_at_def)

lemma next_shown_after:
  assumes at: "at_version vs i d" and c: "shown_at cmp s vs c" and p: "p \<le> c" "\<And>k. p \<le> k \<Longrightarrow> k < c \<Longrightarrow> \<not> seen s (vs ! k)"
    and k: "p \<le> k" "k < length vs"
  shows "next_shown s vs p True (version_key (vs ! c)) k \<longleftrightarrow> c < k \<and> shown_at cmp s vs k"
proof (cases "k \<le> c")
  case True
  have cl: "c < length vs" "seen s (vs ! c)" using c by (simp_all add: shown_at_def)
  then have "cmp (version_key (vs ! k)) (version_key (vs ! c)) \<le> 0" using at_version_le [OF at True] by simp
  then show ?thesis using True by (simp add: next_shown_def)
next
  case False
  have cl: "c < length vs" "seen s (vs ! c)" using c by (simp_all add: shown_at_def)
  have v: "valid (version_key (vs ! c))" "valid (version_key (vs ! k))" using at_version_ok(2) [OF at] cl k by auto
  have le: "cmp (version_key (vs ! c)) (version_key (vs ! k)) \<le> 0" using at_version_less [OF at, of c k] False k by simp
  then have hide: "cmp (version_key (vs ! k)) (version_key (vs ! c)) \<le> 0 \<longleftrightarrow> cmp (version_key (vs ! c)) (version_key (vs ! k)) = 0"
    using users.cmp_flip [OF v] users.cmp_flip [OF v(2,1)] by linarith
  have earlier: "cmp (version_key (vs ! c)) (version_key (vs ! k)) = 0"
    if h: "h < c" "cmp (version_key (vs ! h)) (version_key (vs ! k)) = 0" for h
  proof -
    have vh: "valid (version_key (vs ! h))" using at_version_ok(2) [OF at, of h] h(1) cl by simp
    have "cmp (version_key (vs ! k)) (version_key (vs ! h)) \<le> 0" using h(2) users.cmp_0_sym [OF vh v(2)] by simp
    then have "cmp (version_key (vs ! k)) (version_key (vs ! c)) \<le> 0"
      using users.cmp_trans [OF v(2) vh v(1)] at_version_less [OF at h(1) cl(1)] by simp
    then show ?thesis using hide by simp
  qed
  show ?thesis
  proof
    assume n: "next_shown s vs p True (version_key (vs ! c)) k"
    have "cmp (version_key (vs ! h)) (version_key (vs ! k)) \<noteq> 0" if "h < k" "seen s (vs ! h)" for h
      using n that earlier [of h] hide p(1) by (cases "h < c") (auto simp: next_shown_def)
    then show "c < k \<and> shown_at cmp s vs k" using n False k(2) by (auto simp: next_shown_def shown_at_def)
  next
    assume "c < k \<and> shown_at cmp s vs k"
    then show "next_shown s vs p True (version_key (vs ! c)) k" using cl hide by (auto simp: next_shown_def shown_at_def)
  qed
qed

lemma on_userI:
  assumes "s \<le> kMaxSequenceNumber" and "healthy s d" and "at_version vs i d"
    and "if di_valid d then shown_at cmp s vs c \<and> j = place_in s vs c \<and> (if di_direction d = kForward then at_version vs c d
        else \<exists>q. saved s vs q c d \<and> before_version vs q d)
      else j = length (user_view cmp s vs)"
  shows "on_user ops cmp valid stand s (user_view cmp s vs) j d"
  unfolding on_user_def using assms by (intro exI [of _ vs]) auto

text \<open>A search forwards from the internal place \<open>i\<close> for what is shown from \<open>i\<close> on.\<close>

lemma search_forward:
  assumes "s \<le> kMaxSequenceNumber" and "at_version vs i d" and "i \<le> length vs" and "healthy s d" and "di_direction d = kForward"
    and "skipping \<Longrightarrow> valid (di_saved_key d)"
    and "\<And>j. skipping \<Longrightarrow> i \<le> j \<Longrightarrow> j < length vs \<Longrightarrow> seen s (vs ! j) \<Longrightarrow> cmp (di_saved_key d) (version_key (vs ! j)) \<le> 0"
    and Q: "\<And>k. i \<le> k \<Longrightarrow> k < length vs \<Longrightarrow> next_shown s vs i skipping (di_saved_key d) k \<longleftrightarrow> c \<le> k \<and> shown_at cmp s vs k"
    and c: "i \<le> c" "c \<le> length vs"
    and last: "\<And>d'. at_version vs (length vs) d' \<Longrightarrow> healthy s d' \<Longrightarrow> di_direction d' = kForward \<Longrightarrow>
      on_user ops cmp valid stand s (user_view cmp s vs) (length (user_view cmp s vs)) (f d')"
  shows "\<exists>d'. (if iter_valid ops d then FindNextUserEntry ops cmp skipping d else Some (f d)) = Some d'
    \<and> on_user ops cmp valid stand s (user_view cmp s vs) (place_in s vs c) d'"
proof (cases "i < length vs")
  case False
  then have "i = length vs" "c = length vs" using assms(3) c by simp_all
  then show ?thesis using last [of d] assms(2,4,5) at_version_end [of vs d] by (simp add: place_in_all)
next
  case True
  obtain d' j where d': "FindNextUserEntry ops cmp skipping d = Some d'" "healthy s d'" "di_direction d' = kForward"
    "first_from (next_shown s vs i skipping (di_saved_key d)) (length vs) i j" "at_version vs j d'" "di_valid d' = (j < length vs)"
    using FindNextUserEntry_ok [OF assms(2) True assms(4-7)] by blast
  have j: "i \<le> j" "j \<le> length vs" "\<And>k. i \<le> k \<Longrightarrow> k < j \<Longrightarrow> \<not> (c \<le> k \<and> shown_at cmp s vs k)" "j < length vs \<Longrightarrow> c \<le> j \<and> shown_at cmp s vs j"
    using d'(4) Q by (auto simp: first_from_def)
  then have "c \<le> j" using c(2) by (cases "j < length vs") auto
  then have "place_in s vs j = place_in s vs c" using j(3) c(1) by (intro place_of_gap) auto
  then have "on_user ops cmp valid stand s (user_view cmp s vs) (place_in s vs c) d'"
    using j(2,4) d'(3,5,6) place_in_all [of s vs]
    by (intro on_userI [OF assms(1) d'(2,5), of j]) (auto simp: not_less)
  then show ?thesis using d'(1) at_version_here(1) [OF assms(2) True] by simp
qed

lemma takeWhile_first_part: "\<forall>x\<in>set xs. P x \<Longrightarrow> takeWhile P ys = [] \<Longrightarrow> takeWhile P (xs @ ys) = xs"
  by (induction xs) simp_all

text \<open>The internal place of a user key at a sequence number.\<close>

lemma seek_place:
  assumes at: "at_version vs i0 d" and t: "valid t" and s: "s \<le> kMaxSequenceNumber"
  defines "i \<equiv> lower (InternalKeyCompare cmp) (map version_entry vs) (internal_bytes t (tag_of s kTypeValue))"
  shows "i \<le> length vs"
    and "h < i \<Longrightarrow> seen s (vs ! h) \<Longrightarrow> cmp (version_key (vs ! h)) t < 0"
    and "i \<le> h \<Longrightarrow> h < length vs \<Longrightarrow> \<not> cmp (version_key (vs ! h)) t < 0"
proof -
  let ?k = "internal_bytes t (tag_of s kTypeValue)" and ?es = "map version_entry vs"
  let ?P = "\<lambda>e. InternalKeyCompare cmp (fst e) ?k < 0"
  show i: "i \<le> length vs" using length_takeWhile_le [of ?P ?es] by (simp add: i_def lower_def)
  show "cmp (version_key (vs ! h)) t < 0" if h: "h < i" "seen s (vs ! h)"
  proof -
    obtain u q ty v where e: "vs ! h = (u, q, ty, v)" by (cases "vs ! h") auto
    have "?P (takeWhile ?P ?es ! h)" using h(1) set_takeWhileD [OF nth_mem, of h ?P ?es] by (simp add: i_def lower_def)
    moreover have "takeWhile ?P ?es ! h = version_entry (vs ! h)"
      using takeWhile_nth [of h ?P ?es] h(1) i by (simp add: i_def lower_def)
    moreover have "q \<le> kMaxSequenceNumber" using at_version_ok(1) [OF at, of h] h(1) i e by simp
    then have "\<not> tag_of s kTypeValue < tag_of q ty" using tag_less_iff(1) [OF s, of q ty] h(2) e by (simp add: seen_def)
    ultimately show ?thesis using e by (simp add: InternalKeyCompare_bytes split: if_splits)
  qed
  show "\<not> cmp (version_key (vs ! h)) t < 0" if h: "i \<le> h" "h < length vs"
  proof
    assume less: "cmp (version_key (vs ! h)) t < 0"
    have il: "i < length vs" using h by simp
    have "cmp (version_key (vs ! i)) (version_key (vs ! h)) \<le> 0" using at_version_le [OF at h] by simp
    then have "cmp (version_key (vs ! i)) t < 0"
      using users.cmp_less_trans2 [OF at_version_ok(2) [OF at il] at_version_ok(2) [OF at h(2)] t] less by blast
    moreover have "\<not> ?P (?es ! i)" using nth_length_takeWhile [of ?P ?es] il by (simp add: i_def lower_def)
    moreover have "fst (version_entry e) = internal_bytes (version_key e) (tag_of (version_seq e) (version_type e))" for e by (cases e) simp
    ultimately show False using il by (simp add: InternalKeyCompare_bytes)
  qed
qed

lemma seek_view:
  assumes at: "at_version vs i0 d" and t: "valid t" and s: "s \<le> kMaxSequenceNumber"
  defines "i \<equiv> lower (InternalKeyCompare cmp) (map version_entry vs) (internal_bytes t (tag_of s kTypeValue))"
  shows "place_in s vs i = lower cmp (user_view cmp s vs) t"
    and "i \<le> k \<Longrightarrow> k < length vs \<Longrightarrow> next_shown s vs i False u k = shown_at cmp s vs k"
proof -
  note sp = seek_place [OF at t s, folded i_def]
  let ?P = "\<lambda>e. cmp (fst e) t < 0" and ?g = "\<lambda>i. (version_key (vs ! i), version_value (vs ! i))"
  have "[0..<length vs] = [0..<i] @ [i..<length vs]" using sp(1) by (metis le_add_diff_inverse upt_add_eq_append zero_le)
  then have v: "user_view cmp s vs = map ?g (filter (shown_at cmp s vs) [0..<i]) @ map ?g (filter (shown_at cmp s vs) [i..<length vs])"
    by (simp add: user_view_def)
  have "\<forall>e\<in>set (map ?g (filter (shown_at cmp s vs) [0..<i])). ?P e" using sp(2) by (auto simp: shown_at_def)
  moreover have "takeWhile ?P (map ?g (filter (shown_at cmp s vs) [i..<length vs])) = []"
  proof -
    have "\<forall>e\<in>set (map ?g (filter (shown_at cmp s vs) [i..<length vs])). \<not> ?P e" using sp(3) by auto
    then show ?thesis by (cases "map ?g (filter (shown_at cmp s vs) [i..<length vs])") auto
  qed
  ultimately have "takeWhile ?P (user_view cmp s vs) = map ?g (filter (shown_at cmp s vs) [0..<i])"
    unfolding v by (rule takeWhile_first_part)
  then show "place_in s vs i = lower cmp (user_view cmp s vs) t" by (simp add: lower_def place_of_def)
  assume k: "i \<le> k" "k < length vs"
  have "cmp (version_key (vs ! h)) (version_key (vs ! k)) \<noteq> 0" if h: "h < i" "seen s (vs ! h)" for h
  proof -
    have vh: "valid (version_key (vs ! h))" and vk: "valid (version_key (vs ! k))"
      using at_version_ok(2) [OF at] h(1) sp(1) k(2) by auto
    have "cmp t (version_key (vs ! k)) \<le> 0" using sp(3) [OF k] users.cmp_flip [OF vk t] users.cmp_flip [OF t vk] by linarith
    then have "cmp (version_key (vs ! h)) (version_key (vs ! k)) < 0" using users.cmp_less_trans [OF vh t vk sp(2) [OF h]] by simp
    then show ?thesis by simp
  qed
  then show "next_shown s vs i False u k = shown_at cmp s vs k"
    using k by (auto simp: next_shown_def shown_at_def) (metis not_le)
qed

lemma prev_place:
  assumes "shown_at cmp s vs c'" and "c' < q" and "\<And>k. c' < k \<Longrightarrow> k < q \<Longrightarrow> \<not> shown_at cmp s vs k"
  shows "place_in s vs q = Suc (place_in s vs c')"
  using place_of_gap [of "Suc c'" q "shown_at cmp s vs"] assms by (simp add: place_of_Suc)

text \<open>A search backwards from before \<open>q\<close>.\<close>

lemma search_backward:
  assumes "s \<le> kMaxSequenceNumber" and "before_version vs q d" and "q \<le> length vs" and "healthy s d" and "di_direction d = kReverse"
  shows "\<exists>d'. FindPrevUserEntry ops cmp d = Some d'
    \<and> on_user ops cmp valid stand s (user_view cmp s vs) (before_place (user_view cmp s vs) (place_in s vs q)) d'"
proof -
  obtain d' i where d': "FindPrevUserEntry ops cmp d = Some d'" "healthy s d'" "at_version vs i d'"
    "if di_valid d' then \<exists>c q'. c < q \<and> shown_at cmp s vs c \<and> (\<forall>k. c < k \<and> k < q \<longrightarrow> \<not> shown_at cmp s vs k)
          \<and> saved s vs q' c d' \<and> before_version vs q' d' \<and> di_direction d' = kReverse
     else \<forall>k<q. \<not> shown_at cmp s vs k"
    using FindPrevUserEntry_ok [OF assms(2-5)] by blast
  have "on_user ops cmp valid stand s (user_view cmp s vs) (before_place (user_view cmp s vs) (place_in s vs q)) d'"
  proof (cases "di_valid d'")
    case True
    then obtain c q' where c: "c < q" "shown_at cmp s vs c" "\<forall>k. c < k \<and> k < q \<longrightarrow> \<not> shown_at cmp s vs k"
      "saved s vs q' c d'" "before_version vs q' d'" "di_direction d' = kReverse" using d'(4) by auto
    have "place_in s vs q = Suc (place_in s vs c)" using c(1-3) by (intro prev_place) auto
    then show ?thesis using True c by (intro on_userI [OF assms(1) d'(2,3), of c]) (auto simp: before_place_def)
  next
    case False
    then have "place_in s vs q = place_in s vs 0" using d'(4) by (intro place_of_gap) auto
    then show ?thesis using False by (intro on_userI [OF assms(1) d'(2,3)]) (auto simp: before_place_def place_of_def)
  qed
  then show ?thesis using d'(1) by blast
qed

lemma db_iterator_over: "iterator_over (db_ops ops cmp) cmp (user_key_ok valid) (on_user ops cmp valid stand s)"
proof unfold_locales
  fix es j d
  assume "on_user ops cmp valid stand s es j d"
  then obtain vs i where es: "es = user_view cmp s vs" and s: "s \<le> kMaxSequenceNumber" and h: "healthy s d" and at: "at_version vs i d"
    and st: "if di_valid d then \<exists>c. shown_at cmp s vs c \<and> j = place_in s vs c
      \<and> (if di_direction d = kForward then at_version vs c d else \<exists>q. saved s vs q c d \<and> before_version vs q d)
      else j = length es" by (auto simp: on_user_def)
  note defs = db_ops_def
  let ?on = "on_user ops cmp valid stand s"
  have stand: "stand (map version_entry vs) i (di_iter d)" and vok: "list_all (version_ok valid) vs"
    using at by (simp_all add: at_version_def)
  show "j \<le> length es \<and> (i_Valid (db_ops ops cmp) d \<longleftrightarrow> j < length es) \<and> i_status (db_ops ops cmp) d = OK"
    using st user_view_nth(1) [of s vs] user_view_nth(1) [of s vs, THEN less_imp_le] h place [OF stand]
    by (auto simp: defs es healthy_def ok_def split: if_splits)
  show "ascending cmp es \<and> list_all (user_key_ok valid \<circ> fst) es"
    using user_view_ascending [OF at] by (simp add: es)
  have at': "at_version vs k (e\<lparr>di_iter := it\<rparr>)" if "stand (map version_entry vs) k it" for k it and e :: "'i DBIter"
    using that vok by (simp add: at_version_def)
  have last: "?on es (length es) (f e)" if "at_version vs k e" "healthy s e"
    "\<And>e. \<not> di_valid (f e) \<and> (at_version vs k e \<longrightarrow> at_version vs k (f e)) \<and> (healthy s e \<longrightarrow> healthy s (f e))" for e f k
    unfolding es by (rule on_userI [OF s, of "f e" vs k]) (use that in auto)
  have stop: "?on es (length es) (e\<lparr>di_valid := False\<rparr>)" if "at_version vs k e" "healthy s e" for e k
    using last [OF that, of "\<lambda>e. e\<lparr>di_valid := False\<rparr>"] by (simp add: at_version_def healthy_def)
  show "\<exists>d'. i_SeekToFirst (db_ops ops cmp) d = Some d' \<and> ?on es 0 d'"
  proof -
    obtain it where it: "i_SeekToFirst ops (di_iter d) = Some it" "stand (map version_entry vs) 0 it" using to_first [OF stand] by blast
    let ?d = "d\<lparr>di_direction := kForward, di_saved_value := [], di_iter := it\<rparr>"
    have "\<exists>d'. (if iter_valid ops ?d then FindNextUserEntry ops cmp False ?d else Some (?d\<lparr>di_valid := False\<rparr>)) = Some d'
        \<and> ?on es (place_in s vs 0) d'"
      unfolding es using h stop [unfolded es] at' [OF it(2)] next_shown_start [of _ vs s]
      by (intro search_forward [OF s, where i = 0]) (auto simp: healthy_def)
    then show ?thesis using it(1) by (simp add: defs db_SeekToFirst_def on_iter_def place_of_def)
  qed
  show "\<exists>d'. i_SeekToLast (db_ops ops cmp) d = Some d' \<and> ?on es (length es - 1) d'"
  proof -
    obtain it where it: "i_SeekToLast ops (di_iter d) = Some it" "stand (map version_entry vs) (length vs - 1) it"
      using to_last [OF stand] by auto
    let ?d = "d\<lparr>di_direction := kReverse, di_saved_value := [], di_iter := it\<rparr>"
    have "before_version vs (length vs) ?d" using at' [OF it(2), of ?d] by (cases vs) (simp_all add: before_version_def before_place_def)
    from search_backward [OF s this] h have "\<exists>d'. FindPrevUserEntry ops cmp ?d = Some d' \<and> ?on es (before_place es (length es)) d'"
      by (simp add: healthy_def es place_in_all)
    then show ?thesis using it(1) by (cases "es = []") (simp_all add: defs db_SeekToLast_def on_iter_def before_place_def)
  qed
  show "\<exists>d'. i_Seek (db_ops ops cmp) t d = Some d' \<and> ?on es (lower cmp es t) d'" if t: "user_key_ok valid t" for t
  proof -
    let ?k = "internal_bytes t (tag_of s kTypeValue)"
    have v: "valid t" "ivalid ?k" using t user_ivalid by (simp_all add: user_key_ok_def)
    let ?i = "lower (InternalKeyCompare cmp) (map version_entry vs) ?k"
    obtain it where it: "i_Seek ops ?k (di_iter d) = Some it" "stand (map version_entry vs) ?i it" using to_target [OF stand v(2)] by blast
    let ?d = "d\<lparr>di_direction := kForward, di_saved_value := [], di_saved_key := ?k, di_iter := it\<rparr>"
    note sp = seek_place [OF at v(1) s] and sv = seek_view [OF at v(1) s]
    have "\<exists>d'. (if iter_valid ops ?d then FindNextUserEntry ops cmp False ?d else Some (?d\<lparr>di_valid := False\<rparr>)) = Some d'
        \<and> ?on es (place_in s vs ?i) d'"
      unfolding es using h stop [unfolded es] at' [OF it(2)] sp(1) sv(2)
      by (intro search_forward [OF s, where i = ?i]) (auto simp: healthy_def)
    moreover have "AppendInternalKey [] \<lparr>pik_user_key = t, pik_sequence = di_sequence d, pik_type = kValueTypeForSeek\<rparr> = Some ?k"
      using h s InternalKey_new_bytes [of s t kTypeValue]
      by (simp add: InternalKey_new_def healthy_def kValueTypeForSeek_def kMaxSequenceNumber_unat)
    ultimately show ?thesis using it(1) sv(1) by (simp add: defs db_Seek_def on_iter_def es)
  qed
  assume "j < length es"
  then have V: "di_valid d" using st by (cases "di_valid d") auto
  then obtain c where c: "shown_at cmp s vs c" "j = place_in s vs c"
    and dir: "if di_direction d = kForward then at_version vs c d else \<exists>q. saved s vs q c d \<and> before_version vs q d" using st by auto
  have cl: "c < length vs" "seen s (vs ! c)" using c(1) by (simp_all add: shown_at_def)
  have vc: "valid (version_key (vs ! c))" by (rule at_version_ok(2) [OF at cl(1)])
  note view = user_view_nth(2) [OF c(1), folded c(2)]
  have rev_dir: "di_direction d = kReverse" if "di_direction d \<noteq> kForward" using that by (cases "di_direction d") auto
  show "i_key (db_ops ops cmp) d = Some (fst (es ! j)) \<and> i_value (db_ops ops cmp) d = Some (snd (es ! j))"
    using V dir view at_version_here [of vs c d, OF _ cl(1)] by (auto simp: defs es saved_def)
  have place_next: "place_in s vs (Suc c) = Suc j" using c by (simp add: place_of_Suc)
  have forward: "\<exists>d'. (if iter_valid ops e then FindNextUserEntry ops cmp True e else Some (e\<lparr>di_valid := False, di_saved_key := []\<rparr>)) = Some d'
      \<and> ?on es (Suc j) d'"
    if e: "at_version vs q e" "healthy s e" "di_direction e = kForward" "di_saved_key e = version_key (vs ! c)"
      and q: "q \<le> c" "\<And>k. q \<le> k \<Longrightarrow> k < c \<Longrightarrow> \<not> seen s (vs ! k)" for e q
    unfolding es place_next [symmetric]
  proof (rule search_forward [OF s e(1) _ e(2,3)])
    show "cmp (di_saved_key e) (version_key (vs ! k)) \<le> 0" if "q \<le> k" "k < length vs" "seen s (vs ! k)" for k
      using at_version_le [OF at, of c k] that q(2) [of k] e(4) by (cases "k < c") auto
    show "next_shown s vs q True (di_saved_key e) k \<longleftrightarrow> Suc c \<le> k \<and> shown_at cmp s vs k" if "q \<le> k" "k < length vs" for k
      using next_shown_after [OF at c(1) q that] e(4) by (simp add: Suc_le_eq)
    show "?on (user_view cmp s vs) (length (user_view cmp s vs)) (e'\<lparr>di_valid := False, di_saved_key := []\<rparr>)"
      if "at_version vs (length vs) e'" "healthy s e'" for e'
      using last [OF that, of "\<lambda>e. e\<lparr>di_valid := False, di_saved_key := []\<rparr>"] es by (simp add: at_version_def healthy_def)
  qed (use q cl vc e in auto)
  show "\<exists>d'. i_Next (db_ops ops cmp) d = Some d' \<and> ?on es (Suc j) d'"
  proof (cases "di_direction d = kForward")
    case True
    then have ac: "at_version vs c d" using dir by simp
    let ?d = "d\<lparr>di_saved_key := version_key (vs ! c)\<rparr>"
    have "at_version vs c ?d" "healthy s ?d" using ac h by (simp_all add: at_version_def healthy_def)
    from forward [OF this] at_version_here(1) [OF this(1) cl(1)] True
    show ?thesis using V at_version_here(4) [OF ac cl(1)] by (simp add: defs db_Next_def)
  next
    case False
    then obtain q where q: "saved s vs q c d" "before_version vs q d" using dir by auto
    then have qc: "q \<le> c" "\<And>k. q \<le> k \<Longrightarrow> k < c \<Longrightarrow> \<not> seen s (vs ! k)" "di_saved_key d = version_key (vs ! c)"
      by (auto simp: saved_def)
    let ?d = "d\<lparr>di_direction := kForward\<rparr>"
    have bs: "stand (map version_entry vs) (before_place (map version_entry vs) q) (di_iter d)"
      using q(2) by (simp add: before_version_def at_version_def)
    have "\<exists>it. (if \<not> iter_valid ops d then i_SeekToFirst ops else i_Next ops) (di_iter d) = Some it \<and> stand (map version_entry vs) q it"
    proof (cases q)
      case 0
      then show ?thesis using place [OF bs] to_first [OF bs] by (simp add: iter_valid_def before_place_def)
    next
      case (Suc m)
      then show ?thesis using place [OF bs] to_next [OF bs] qc(1) cl(1) by (simp add: iter_valid_def before_place_def)
    qed
    then obtain it where it: "(if \<not> iter_valid ops d then i_SeekToFirst ops else i_Next ops) (di_iter d) = Some it"
      "stand (map version_entry vs) q it" by blast
    have "healthy s (?d\<lparr>di_iter := it\<rparr>)" using h by (simp add: healthy_def)
    from forward [OF at' [OF it(2)] this _ _ qc(1,2)] qc(3)
    have "\<exists>d'. (if iter_valid ops (?d\<lparr>di_iter := it\<rparr>) then FindNextUserEntry ops cmp True (?d\<lparr>di_iter := it\<rparr>)
        else Some ((?d\<lparr>di_iter := it\<rparr>)\<lparr>di_valid := False, di_saved_key := []\<rparr>)) = Some d' \<and> ?on es (Suc j) d'" by simp
    moreover have "on_iter (if \<not> iter_valid ops d then i_SeekToFirst ops else i_Next ops) ?d = Some (?d\<lparr>di_iter := it\<rparr>)"
      using it(1) by (simp add: on_iter_def)
    moreover have "i_Next (db_ops ops cmp) d = do {
        d \<leftarrow> on_iter (if \<not> iter_valid ops d then i_SeekToFirst ops else i_Next ops) ?d;
        (if \<not> iter_valid ops d then Some (d\<lparr>di_valid := False, di_saved_key := []\<rparr>) else FindNextUserEntry ops cmp True d) }"
      using V rev_dir [OF False] by (simp add: defs db_Next_def)
    ultimately show ?thesis by (simp only: bind_simps if_not_P split: if_split) (auto split: if_splits)
  qed
  show "\<exists>d'. i_Prev (db_ops ops cmp) d = Some d' \<and> ?on es (before_place es j) d'"
  proof (cases "di_direction d = kForward")
    case False
    then obtain q where q: "saved s vs q c d" "before_version vs q d" using dir by auto
    then have "q \<le> c" "place_in s vs c = place_in s vs q" by (auto simp: saved_def shown_at_def intro!: place_of_gap)
    then show ?thesis using search_backward [OF s q(2) _ h] rev_dir [OF False] V cl(1) c(2) by (simp add: defs db_Prev_def es)
  next
    case True
    then have ac: "at_version vs c d" using dir by simp
    let ?d = "d\<lparr>di_saved_key := version_key (vs ! c)\<rparr>"
    have d: "at_version vs c ?d" "healthy s ?d" using ac h by (simp_all add: at_version_def healthy_def)
    obtain more d' i' where d': "scan_back ops cmp ?d = Some (more, d')" "healthy s d'" "at_version vs i' d'"
      "if more then \<exists>q\<le>c. before_version vs q d' \<and> (\<forall>k. q \<le> k \<and> k < c \<longrightarrow> \<not> shown_at cmp s vs k)
       else \<not> di_valid d' \<and> (\<forall>k<c. \<not> shown_at cmp s vs k)"
      using scan_back_ok [OF d(1) cl(1) d(2) c(1)] by auto
    have eq: "i_Prev (db_ops ops cmp) d = (if more then FindPrevUserEntry ops cmp (d'\<lparr>di_direction := kReverse\<rparr>) else Some d')"
      using V True at_version_here(4) [OF ac cl(1)] d'(1) by (simp add: defs db_Prev_def)
    show ?thesis
    proof (cases more)
      case True
      then obtain q where q: "q \<le> c" "before_version vs q d'" "\<forall>k. q \<le> k \<and> k < c \<longrightarrow> \<not> shown_at cmp s vs k" using d'(4) by auto
      let ?e = "d'\<lparr>di_direction := kReverse\<rparr>"
      have "before_version vs q ?e" "healthy s ?e" using q(2) d'(2) by (simp_all add: before_version_def at_version_def healthy_def)
      from search_backward [OF s this(1) _ this(2)] q(1) cl(1)
      have "\<exists>e. FindPrevUserEntry ops cmp ?e = Some e \<and> ?on es (before_place es (place_in s vs q)) e" by (simp add: es)
      moreover have "place_in s vs c = place_in s vs q" using q by (intro place_of_gap) auto
      ultimately show ?thesis using True eq c(2) by simp
    next
      case False
      then have "place_in s vs c = place_in s vs 0" using d'(4) by (intro place_of_gap) auto
      then have "before_place es j = length es" using c(2) by (simp add: before_place_def place_of_def)
      moreover have "?on es (length es) d'" using False d'(4) unfolding es by (intro on_userI [OF s d'(2,3)]) auto
      ultimately show ?thesis using False eq by simp
    qed
  qed
qed

lemma NewDBIterator_ok:
  assumes "s \<le> kMaxSequenceNumber" and "list_all (version_ok valid) vs" and "stand (map version_entry vs) i it"
  shows "on_user ops cmp valid stand s (user_view cmp s vs) (length (user_view cmp s vs)) (NewDBIterator it s seed)"
proof -
  let ?d = "NewDBIterator it s seed"
  have "healthy s ?d" using Random_Next_mod(2) [OF Random_new_ok]
    by (simp add: healthy_def NewDBIterator_def period_unat(1))
  moreover have "at_version vs i ?d" "\<not> di_valid ?d"
    using assms(2,3) by (simp_all add: at_version_def NewDBIterator_def period_unat(1))
  ultimately show ?thesis by (intro on_userI [OF assms(1)]) auto
qed

end

interpretation mem_db: db_iterating "mem_ops BytewiseCompare" BytewiseCompare "mem_key (\<lambda>_. True)"
    "on_memtable BytewiseCompare (\<lambda>_. True)" "\<lambda>_. True"
proof (intro db_iterating.intro memtable_iterator.iterator_over_axioms bytewise_order)
  show "db_iterating_axioms (mem_key (\<lambda>_. True)) (\<lambda>_. True)"
    by unfold_locales (simp add: mem_key_def)
qed

end
