(* ===== verification/Ldb_Merge_Scan.thy ===== *)
theory Ldb_Merge_Scan
  imports Ldb_Merger
begin

text \<open>
  Scans of the merging iterator (\<open>table/merger.cc\<close>) over children that may share keys.  \<open>Ldb_Merger\<close> shows the contract
  of an iterator for children with disjoint keys, changes of direction included.  Here a key may be in any number of
  children; a scan in one direction then shows it once for each of them, the first child first.
\<close>

declare One_nat_def [simp del]

section \<open>The stable merge of lists\<close>

fun merge2 :: "('a \<Rightarrow> 'a \<Rightarrow> bool) \<Rightarrow> 'a list \<Rightarrow> 'a list \<Rightarrow> 'a list" where
  "merge2 le [] ys = ys"
| "merge2 le (x # xs) [] = x # xs"
| "merge2 le (x # xs) (y # ys) = (if le x y then x # merge2 le xs (y # ys) else y # merge2 le (x # xs) ys)"

definition merge_entries :: "comparing \<Rightarrow> entry list list \<Rightarrow> entry list" where
  "merge_entries cmp ls = foldr (merge2 (\<lambda>a b. cmp (fst a) (fst b) \<le> 0)) ls []"

text \<open>The same merge of entries that are tagged with their list, counted from \<open>k\<close>.\<close>

primrec tagged_merge :: "comparing \<Rightarrow> nat \<Rightarrow> entry list list \<Rightarrow> tagged" where
  "tagged_merge cmp k [] = []"
| "tagged_merge cmp k (l # ls) =
     merge2 (\<lambda>a b. cmp (fst (snd a)) (fst (snd b)) \<le> 0) (map (Pair k) l) (tagged_merge cmp (Suc k) ls)"

lemma merge2_Nil [simp]: "merge2 le xs [] = xs"
  by (cases xs) simp_all

lemma mset_merge2: "mset (merge2 le xs ys) = mset xs + mset ys"
  by (induction le xs ys rule: merge2.induct) auto

lemma set_merge2: "set (merge2 le xs ys) = set xs \<union> set ys"
  using mset_merge2 [of le xs ys] by (metis set_mset_mset set_mset_union)

lemma map_merge2: "map f (merge2 (\<lambda>a b. le (f a) (f b)) xs ys) = merge2 le (map f xs) (map f ys)"
proof (induction xs arbitrary: ys)
  case (Cons x xs)
  show ?case by (induction ys) (simp_all add: Cons)
qed simp

lemma map_tagged_merge: "map snd (tagged_merge cmp k ls) = merge_entries cmp ls"
  by (induction ls arbitrary: k) (simp_all add: merge_entries_def map_merge2 [of snd "\<lambda>a b. cmp (fst a) (fst b) \<le> 0"] comp_def)

lemma mset_merge_entries: "mset (merge_entries cmp ls) = mset (concat ls)"
  by (induction ls) (simp_all add: merge_entries_def mset_merge2)

lemma filter_merge2_left:
  "\<forall>x\<in>set xs. P x \<Longrightarrow> \<forall>y\<in>set ys. \<not> P y \<Longrightarrow> filter P (merge2 le xs ys) = xs"
  by (induction le xs ys rule: merge2.induct) (auto simp: filter_False)

lemma filter_merge2_right: "\<forall>x\<in>set xs. \<not> P x \<Longrightarrow> filter P (merge2 le xs ys) = filter P ys"
  by (induction le xs ys rule: merge2.induct) auto

lemma tags_from: "x \<in> set (tagged_merge cmp k ls) \<Longrightarrow> k \<le> fst x \<and> fst x < k + length ls"
proof (induction ls arbitrary: k)
  case (Cons l ls)
  then show ?case by (fastforce simp: set_merge2 dest: Cons.IH)
qed simp

lemma entries_of_tagged_merge:
  "entries_of i (tagged_merge cmp k ls) = (if k \<le> i \<and> i < k + length ls then ls ! (i - k) else [])"
proof (induction ls arbitrary: k)
  case (Cons l ls)
  let ?le = "\<lambda>a b. cmp (fst (snd a)) (fst (snd b)) \<le> 0"
  show ?case
  proof (cases "i = k")
    case True
    have "filter (\<lambda>x. fst x = i) (merge2 ?le (map (Pair k) l) (tagged_merge cmp (Suc k) ls)) = map (Pair k) l"
      by (rule filter_merge2_left) (use True in \<open>auto dest!: tags_from\<close>)
    then show ?thesis using True by (simp add: entries_of_def comp_def)
  next
    case False
    have "filter (\<lambda>x. fst x = i) (merge2 ?le (map (Pair k) l) (tagged_merge cmp (Suc k) ls))
        = filter (\<lambda>x. fst x = i) (tagged_merge cmp (Suc k) ls)"
      by (rule filter_merge2_right) (use False in auto)
    then have "entries_of i (tagged_merge cmp k (l # ls)) = entries_of i (tagged_merge cmp (Suc k) ls)"
      by (simp add: entries_of_def)
    then show ?thesis using False by (simp add: Cons nth_Cons' le_Suc_eq Suc_le_eq One_nat_def)
  qed
qed (auto simp: entries_of_def)

section \<open>The order of a stable merge\<close>

definition precedes :: "comparing \<Rightarrow> nat \<times> entry \<Rightarrow> nat \<times> entry \<Rightarrow> bool" where
  "precedes cmp a b \<longleftrightarrow> cmp (fst (snd a)) (fst (snd b)) < 0 \<or> cmp (fst (snd a)) (fst (snd b)) = 0 \<and> fst a < fst b"

definition merges_stably :: "comparing \<Rightarrow> (byte list \<Rightarrow> bool) \<Rightarrow> nat \<Rightarrow> tagged \<Rightarrow> bool" where
  "merges_stably cmp valid n T \<longleftrightarrow> sorted_wrt (precedes cmp) T \<and> (\<forall>x\<in>set T. fst x < n \<and> valid (fst (snd x)))"

lemma sorted_merge2:
  assumes "\<And>x y z. x \<in> V \<Longrightarrow> y \<in> V \<Longrightarrow> z \<in> V \<Longrightarrow> R x y \<Longrightarrow> R y z \<Longrightarrow> R x z"
  shows "set xs \<subseteq> V \<Longrightarrow> set ys \<subseteq> V \<Longrightarrow> sorted_wrt R xs \<Longrightarrow> sorted_wrt R ys \<Longrightarrow>
    \<forall>x\<in>set xs. \<forall>y\<in>set ys. if le x y then R x y else R y x \<Longrightarrow> sorted_wrt R (merge2 le xs ys)"
proof (induction le xs ys rule: merge2.induct)
  case (3 le x xs y ys)
  show ?case
  proof (cases "le x y")
    case True
    have "R x z" if z: "z \<in> set (merge2 le xs (y # ys))" for z
    proof -
      have xy: "R x y" using 3(7) True by auto
      consider "z \<in> set xs" | "z = y" | "z \<in> set ys" using z by (auto simp: set_merge2)
      then show ?thesis
      proof cases
        case 3
        then have "R y z" using \<open>sorted_wrt R (y # ys)\<close> by simp
        then show ?thesis using assms [of x y z] xy 3 \<open>set (x # xs) \<subseteq> V\<close> \<open>set (y # ys) \<subseteq> V\<close> by auto
      qed (use xy \<open>sorted_wrt R (x # xs)\<close> in auto)
    qed
    then show ?thesis using True 3 by simp
  next
    case False
    have "R y z" if z: "z \<in> set (merge2 le (x # xs) ys)" for z
    proof -
      have yx: "R y x" using 3(7) False by auto
      consider "z \<in> set ys" | "z = x" | "z \<in> set xs" using z by (auto simp: set_merge2)
      then show ?thesis
      proof cases
        case 3
        then have "R x z" using \<open>sorted_wrt R (x # xs)\<close> by simp
        then show ?thesis using assms [of y x z] yx 3 \<open>set (x # xs) \<subseteq> V\<close> \<open>set (y # ys) \<subseteq> V\<close> by auto
      qed (use yx \<open>sorted_wrt R (y # ys)\<close> in auto)
    qed
    then show ?thesis using False 3 by simp
  qed
qed simp_all

context merging
begin

lemma precedes_trans:
  assumes "valid (fst (snd a))" "valid (fst (snd b))" "valid (fst (snd c))" "precedes cmp a b" "precedes cmp b c"
  shows "precedes cmp a c"
  using cmp_less_trans [OF assms(1-3)] cmp_less_trans2 [OF assms(1-3)] cmp_0_cong(2) [OF assms(1-3)] assms(4,5)
  unfolding precedes_def by (elim disjE conjE) auto

lemma sorted_tagged_merge:
  assumes "\<forall>l\<in>set ls. ascending cmp l \<and> list_all (valid \<circ> fst) l"
  shows "merges_stably cmp valid (k + length ls) (tagged_merge cmp k ls)"
  using assms
proof (induction ls arbitrary: k)
  case Nil
  then show ?case by (simp add: merges_stably_def)
next
  case (Cons l ls)
  let ?V = "{x :: nat \<times> entry. valid (fst (snd x))}" and ?T = "tagged_merge cmp (Suc k) ls"
  have T: "sorted_wrt (precedes cmp) ?T" "\<forall>x\<in>set ?T. fst x < Suc k + length ls \<and> valid (fst (snd x))"
    using Cons.IH [of "Suc k"] Cons.prems by (simp_all add: merges_stably_def)
  have l: "ascending cmp l" "\<forall>e\<in>set l. valid (fst e)" using Cons.prems by (simp_all add: list_all_iff)
  have "sorted_wrt (precedes cmp) (tagged_merge cmp k (l # ls))"
    unfolding tagged_merge.simps
  proof (rule sorted_merge2 [of ?V])
    show "precedes cmp x z" if "x \<in> ?V" "y \<in> ?V" "z \<in> ?V" "precedes cmp x y" "precedes cmp y z" for x y z
      using precedes_trans [of x y z] that by simp
    show "sorted_wrt (precedes cmp) (map (Pair k) l)"
      using l(1) unfolding ascending_def sorted_wrt_map by (rule sorted_wrt_mono_rel [rotated]) (simp add: precedes_def)
    show "\<forall>x\<in>set (map (Pair k) l). \<forall>y\<in>set ?T.
        if cmp (fst (snd x)) (fst (snd y)) \<le> 0 then precedes cmp x y else precedes cmp y x"
    proof (intro ballI)
      fix x y assume x: "x \<in> set (map (Pair k) l)" and y: "y \<in> set ?T"
      have "valid (fst (snd x))" "valid (fst (snd y))" "fst x < fst y"
        using x y l(2) T(2) tags_from [OF y] by auto
      then show "if cmp (fst (snd x)) (fst (snd y)) \<le> 0 then precedes cmp x y else precedes cmp y x"
        using cmp_flip [of "fst (snd y)" "fst (snd x)"] by (auto simp: precedes_def)
    qed
  qed (use T l in auto)
  moreover have "\<forall>x\<in>set (tagged_merge cmp k (l # ls)). fst x < k + length (l # ls) \<and> valid (fst (snd x))"
    using T(2) l(2) by (auto simp: set_merge2)
  ultimately show ?case by (simp add: merges_stably_def)
qed

lemma stable_nth:
  assumes "merges_stably cmp valid n T" and "i < j" and "j < length T"
  shows "precedes cmp (T ! i) (T ! j)" and "\<not> cmp (fst (snd (T ! j))) (fst (snd (T ! i))) < 0"
proof -
  show p: "precedes cmp (T ! i) (T ! j)" using assms by (simp add: merges_stably_def sorted_wrt_iff_nth_less)
  have "valid (fst (snd (T ! i)))" "valid (fst (snd (T ! j)))" using assms by (simp_all add: merges_stably_def)
  then show "\<not> cmp (fst (snd (T ! j))) (fst (snd (T ! i))) < 0" using p cmp_flip [of "fst (snd (T ! j))" "fst (snd (T ! i))"] by (auto simp: precedes_def)
qed

lemma stable_valid: "merges_stably cmp valid n T \<Longrightarrow> j < length T \<Longrightarrow> fst (T ! j) < n \<and> valid (fst (snd (T ! j)))"
  by (simp add: merges_stably_def)

section \<open>The searches\<close>

text \<open>The best child beats every child before it and is not beaten by any behind it.\<close>

lemma best_child_between:
  assumes "\<And>i. i \<in> set pre \<Longrightarrow> w_valid (cs ! i) \<Longrightarrow> better (w_key (cs ! m)) (w_key (cs ! i))" and "w_valid (cs ! m)"
    and "\<And>i. i \<in> set post \<Longrightarrow> w_valid (cs ! i) \<Longrightarrow> \<not> better (w_key (cs ! i)) (w_key (cs ! m))"
  shows "best_child better cs (pre @ m # post) None = Some m"
proof -
  have keep: "best_child better cs js (Some m) = Some m" if "set js \<subseteq> set post" for js
    using that assms(3) by (induction js) auto
  have "best_child better cs (js @ m # post) best = Some m"
    if "set js \<subseteq> set pre" "case best of None \<Rightarrow> True | Some b \<Rightarrow> b \<in> set pre \<and> w_valid (cs ! b)" for js best
    using that
  proof (induction js arbitrary: best)
    case Nil
    then show ?case using assms(1,2) keep [of post] by (auto split: option.splits)
  next
    case (Cons j js)
    then show ?case by (auto split: option.splits intro!: Cons.IH)
  qed
  from this [of pre None] show ?thesis by simp
qed

lemma upt_around: "c < n \<Longrightarrow> [0..<n] = [0..<c] @ c # [Suc c..<n]"
  using upt_add_eq_append [of 0 c "n - c"] upt_conv_Cons [of c n] by simp

lemma child_after:
  assumes M: "merges_stably cmp valid (length cs) T" and at: "children_at ops stand T (forwards T j) cs"
    and j: "j < length T" and i: "i < length cs" "w_valid (cs ! i)" "i \<noteq> fst (T ! j)"
  obtains x where "precedes cmp (T ! j) x" "fst x = i" "w_key (cs ! i) = fst (snd x)" "valid (fst (snd x))"
proof -
  have r: "rank i T j < length (entries_of i T)" using child_valid(1) [OF at i(1)] i(2) by (simp add: forwards_def)
  then obtain j' where j': "j \<le> j'" "j' < length T" "fst (T ! j') = i" "entries_of i T ! rank i T j = snd (T ! j')"
    by (rule entries_of_after_rank)
  then have "j < j'" using i(3) by (cases "j' = j") auto
  then show ?thesis using that [of "T ! j'"] stable_nth(1) [OF M _ j'(2)] stable_valid [OF M j'(2)] j'(3,4)
    child_valid(2) [OF at i(1)] r by (simp add: forwards_def)
qed

lemma child_before:
  assumes M: "merges_stably cmp valid (length cs) T" and at: "children_at ops stand T (backwards T (Suc l)) cs"
    and l: "l < length T" and i: "i < length cs" "w_valid (cs ! i)" "i \<noteq> fst (T ! l)"
  obtains x where "precedes cmp x (T ! l)" "fst x = i" "w_key (cs ! i) = fst (snd x)" "valid (fst (snd x))"
proof -
  have b: "backwards T (Suc l) i < length (entries_of i T)" using child_valid(1) [OF at i(1)] i(2) by simp
  then have pos: "0 < rank i T (Suc l)" and r: "backwards T (Suc l) i = rank i T (Suc l) - 1"
    by (auto simp: backwards_def before_place_def split: if_splits)
  obtain j' where j': "j' < Suc l" "fst (T ! j') = i" "entries_of i T ! (rank i T (Suc l) - 1) = snd (T ! j')"
    using pos l by (elim entries_of_before_rank) auto
  then have "j' < l" using i(3) by (cases "j' = l") auto
  then show ?thesis using that [of "T ! j'"] stable_nth(1) [OF M _ l] stable_valid [OF M, of j'] j'(2,3) l
    child_valid(2) [OF at i(1) b] r by simp
qed

lemma FindSmallest_stable:
  assumes M: "merges_stably cmp valid (length (mg_children m)) T" and at: "children_at ops stand T (forwards T j) (mg_children m)"
    and j: "j \<le> length T"
  shows "stands_merged ops stand T j ((FindSmallest cmp m)\<lparr>mg_direction := kForward\<rparr>)"
proof (cases "j < length T")
  case False
  with j have "best_child better (mg_children m) [0..<length (mg_children m)] None = None" for better
    by (intro best_child_none) (simp add: child_valid(1) [OF at] forwards_def)
  with False j at show ?thesis by (auto simp: stands_merged_def FindSmallest_def)
next
  case True
  let ?c = "fst (T ! j)" and ?cs = "mg_children m"
  have c: "?c < length ?cs" "valid (fst (snd (T ! j)))" using stable_valid [OF M True] by simp_all
  have ck: "w_valid (?cs ! ?c)" "w_key (?cs ! ?c) = fst (snd (T ! j))"
    using child_valid(1,2) [OF at c(1)] entries_of_at_rank [OF True] by (simp_all add: forwards_def)
  have "best_child (\<lambda>k s. cmp k s < 0) ?cs [0..<length ?cs] None = Some ?c"
    unfolding upt_around [OF c(1)]
  proof (rule best_child_between)
    fix i assume i: "i \<in> set [0..<?c]" "w_valid (?cs ! i)"
    obtain x where "precedes cmp (T ! j) x" "fst x = i" "w_key (?cs ! i) = fst (snd x)"
      using child_after [OF M at True, of i] i c(1) by fastforce
    then show "cmp (w_key (?cs ! ?c)) (w_key (?cs ! i)) < 0" using i(1) ck(2) by (auto simp: precedes_def)
  next
    fix i assume i: "i \<in> set [Suc ?c..<length ?cs]" "w_valid (?cs ! i)"
    obtain x where "precedes cmp (T ! j) x" "w_key (?cs ! i) = fst (snd x)" "valid (fst (snd x))"
      using child_after [OF M at True, of i] i by fastforce
    then show "\<not> cmp (w_key (?cs ! i)) (w_key (?cs ! ?c)) < 0"
      using ck(2) cmp_flip [of "fst (snd x)" "fst (snd (T ! j))"] c(2) by (auto simp: precedes_def)
  qed (rule ck(1))
  then show ?thesis using True at by (simp add: stands_merged_def FindSmallest_def)
qed

lemma FindLargest_stable:
  assumes M: "merges_stably cmp valid (length (mg_children m)) T" and at: "children_at ops stand T (backwards T j) (mg_children m)"
    and j: "j \<le> length T"
  shows "stands_merged ops stand T (before_place (map snd T) j) ((FindLargest cmp m)\<lparr>mg_direction := kReverse\<rparr>)"
proof (cases j)
  case 0
  then have "best_child better (mg_children m) (rev [0..<length (mg_children m)]) None = None" for better
    by (intro best_child_none) (simp add: child_valid(1) [OF at] backwards_def before_place_def)
  with 0 at show ?thesis by (auto simp: stands_merged_def FindLargest_def before_place_def)
next
  case (Suc l)
  let ?c = "fst (T ! l)" and ?cs = "mg_children m"
  have l: "l < length T" using j Suc by simp
  have c: "?c < length ?cs" "valid (fst (snd (T ! l)))" using stable_valid [OF M l] by simp_all
  note at' = at [unfolded Suc]
  have ck: "w_valid (?cs ! ?c)" "w_key (?cs ! ?c) = fst (snd (T ! l))"
    using child_valid(1,2) [OF at' c(1)] entries_of_at_rank [OF l] by (simp_all add: backwards_def before_place_def rank_Suc [OF l])
  have "best_child (\<lambda>k s. 0 < cmp k s) ?cs (rev [Suc ?c..<length ?cs] @ ?c # rev [0..<?c]) None = Some ?c"
  proof (rule best_child_between)
    fix i assume i: "i \<in> set (rev [Suc ?c..<length ?cs])" "w_valid (?cs ! i)"
    obtain x where "precedes cmp x (T ! l)" "fst x = i" "w_key (?cs ! i) = fst (snd x)" "valid (fst (snd x))"
      using child_before [OF M at' l, of i] i by fastforce
    then show "0 < cmp (w_key (?cs ! ?c)) (w_key (?cs ! i))"
      using i(1) ck(2) c(2) cmp_flip [of "fst (snd x)" "fst (snd (T ! l))"] by (auto simp: precedes_def)
  next
    fix i assume i: "i \<in> set (rev [0..<?c])" "w_valid (?cs ! i)"
    obtain x where "precedes cmp x (T ! l)" "w_key (?cs ! i) = fst (snd x)"
      using child_before [OF M at' l, of i] i c(1) by fastforce
    then show "\<not> 0 < cmp (w_key (?cs ! i)) (w_key (?cs ! ?c))" using ck(2) by (auto simp: precedes_def)
  qed (rule ck(1))
  then have "best_child (\<lambda>k s. 0 < cmp k s) ?cs (rev [0..<length ?cs]) None = Some ?c"
    by (subst upt_around [OF c(1)]) simp
  then show ?thesis using l at Suc by (simp add: stands_merged_def FindLargest_def before_place_def)
qed

section \<open>Scans\<close>

lemma lower_stable:
  assumes M: "merges_stably cmp valid n T" and t: "valid t"
  shows "lower cmp (entries_of i T) t = rank i T (lower cmp (map snd T) t)"
proof -
  let ?P = "\<lambda>e. cmp (fst e) t < 0" and ?es = "map snd T"
  let ?k = "lower cmp ?es t"
  have k: "?k \<le> length T" using length_takeWhile_le [of ?P ?es] by (simp add: lower_def)
  have split: "entries_of i T = entries_of i (take ?k T) @ entries_of i (drop ?k T)" by (simp flip: entries_of_append)
  have tk: "map snd (take ?k T) = takeWhile ?P ?es" by (simp add: lower_def flip: take_map takeWhile_eq_take)
  have "?P (snd x)" if "x \<in> set (take ?k T)" for x
  proof -
    have "snd x \<in> set (takeWhile ?P ?es)" using that by (simp flip: tk)
    then show ?thesis by (rule set_takeWhileD [THEN conjunct2])
  qed
  then have before: "\<forall>e\<in>set (entries_of i (take ?k T)). ?P e" by (auto simp: entries_of_def)
  have after: "\<not> ?P (snd x)" if x: "x \<in> set (drop ?k T)" for x
  proof -
    obtain d where "d < length T - ?k" "x = T ! (?k + d)" using x by (auto simp: in_set_conv_nth)
    then have d: "?k + d < length T" "x = T ! (?k + d)" by simp_all
    then have kl: "?k < length T" by simp
    then have first: "\<not> ?P (snd (T ! ?k))" using nth_length_takeWhile [of ?P ?es] by (simp add: lower_def)
    have v: "valid (fst (snd (T ! ?k)))" "valid (fst (snd x))" using stable_valid [OF M] d kl by simp_all
    have le: "cmp (fst (snd (T ! ?k))) (fst (snd x)) \<le> 0"
      using stable_nth(1) [OF M _ d(1), of ?k] cmp_refl [OF v(2)] d(2) by (cases "d = 0") (auto simp: precedes_def)
    show ?thesis using first cmp_less_trans2 [OF v(1,2) t le] by auto
  qed
  have "takeWhile ?P (entries_of i (drop ?k T)) = []"
  proof (cases "entries_of i (drop ?k T)")
    case (Cons e es')
    then have "e \<in> set (entries_of i (drop ?k T))" by simp
    then obtain x where "x \<in> set (drop ?k T)" "e = snd x" by (auto simp: entries_of_def)
    then show ?thesis using after Cons by simp
  qed simp
  then have "takeWhile ?P (entries_of i T) = entries_of i (take ?k T)" using before by (simp add: split)
  then show ?thesis unfolding lower_def [of cmp "entries_of i T"] rank_def by simp
qed

lemma shows_here:
  assumes M: "merges_stably cmp valid (length (mg_children m)) T" and st: "stands_merged ops stand T j m" and j: "j < length T"
  shows "merging_key ops m = Some (fst (snd (T ! j)))" and "i_value (merging_ops ops cmp) m = Some (snd (snd (T ! j)))"
proof -
  let ?c = "fst (T ! j)"
  have c: "mg_current m = Some ?c" "?c < length (mg_children m)" using st j stable_valid [OF M j] by (simp_all add: stands_merged_def)
  have "wrapped ops stand (entries_of ?c T) (rank ?c T j) (mg_children m ! ?c)"
    using st j c(2) rank_Suc [OF j]
    by (auto simp: stands_merged_def children_at_def forwards_def backwards_def before_place_def split: if_splits)
  from iterator_over.here [OF over_wrapper this] entries_of_at_rank [OF j]
  show "merging_key ops m = Some (fst (snd (T ! j)))" "i_value (merging_ops ops cmp) m = Some (snd (snd (T ! j)))"
    by (simp_all add: merging_key_def merging_ops_def c)
qed

lemma Next_stable:
  assumes M: "merges_stably cmp valid (length (mg_children m)) T" and st: "stands_merged ops stand T j m"
    and d: "mg_direction m = kForward" and j: "j < length T"
  shows "\<exists>m'. merging_Next ops cmp m = Some m' \<and> stands_merged ops stand T (Suc j) m' \<and> mg_direction m' = kForward
    \<and> length (mg_children m') = length (mg_children m)"
proof -
  let ?c = "fst (T ! j)"
  have c: "mg_current m = Some ?c" "?c < length (mg_children m)" and at: "children_at ops stand T (forwards T j) (mg_children m)"
    using st j d stable_valid [OF M j] by (simp_all add: stands_merged_def)
  obtain m2 where m2: "step_current (i_Next (wrapper_ops ops)) m = Some m2" "length (mg_children m2) = length (mg_children m)"
    "mg_direction m2 = kForward" "children_at ops stand T (forwards T (Suc j)) (mg_children m2)"
    using step_current_ok [OF at c, of "i_Next (wrapper_ops ops)" "forwards T (Suc j)"] d rank_Suc [OF j]
      iterator_over.to_next [OF over_wrapper, of "entries_of ?c T" "rank ?c T j"] entries_of_at_rank(1) [OF j]
    by (auto simp: forwards_def)
  have same: "(FindSmallest cmp m2)\<lparr>mg_direction := kForward\<rparr> = FindSmallest cmp m2" using m2(3) by (simp add: FindSmallest_def)
  have "stands_merged ops stand T (Suc j) (FindSmallest cmp m2)"
    using FindSmallest_stable [OF _ m2(4)] M m2(2) j unfolding same by simp
  then show ?thesis using shows_here(1) [OF M st j] m2 d by (simp add: merging_Next_def turn_def FindSmallest_def)
qed

lemma Prev_stable:
  assumes M: "merges_stably cmp valid (length (mg_children m)) T" and st: "stands_merged ops stand T j m"
    and d: "mg_direction m = kReverse" and j: "j < length T"
  shows "\<exists>m'. merging_Prev ops cmp m = Some m' \<and> stands_merged ops stand T (before_place (map snd T) j) m' \<and> mg_direction m' = kReverse
    \<and> length (mg_children m') = length (mg_children m)"
proof -
  let ?c = "fst (T ! j)"
  have c: "mg_current m = Some ?c" "?c < length (mg_children m)" and at: "children_at ops stand T (backwards T (Suc j)) (mg_children m)"
    using st j d stable_valid [OF M j] by (simp_all add: stands_merged_def)
  have b: "backwards T (Suc j) ?c = rank ?c T j" using rank_Suc [OF j] by (simp add: backwards_def before_place_def)
  have same: "backwards T j i = backwards T (Suc j) i" if "i \<noteq> ?c" for i using that rank_Suc [OF j, of i] by (auto simp: backwards_def)
  obtain m2 where m2: "step_current (i_Prev (wrapper_ops ops)) m = Some m2" "length (mg_children m2) = length (mg_children m)"
    "mg_direction m2 = kReverse" "children_at ops stand T (backwards T j) (mg_children m2)"
    using step_current_ok [OF at c, of "i_Prev (wrapper_ops ops)" "backwards T j"] d b same
      iterator_over.to_prev [OF over_wrapper, of "entries_of ?c T" "rank ?c T j"] entries_of_at_rank(1) [OF j]
    by (auto simp: backwards_def [of T j])
  have eq: "(FindLargest cmp m2)\<lparr>mg_direction := kReverse\<rparr> = FindLargest cmp m2" using m2(3) by (simp add: FindLargest_def)
  have "stands_merged ops stand T (before_place (map snd T) j) (FindLargest cmp m2)"
    using FindLargest_stable [OF _ m2(4)] M m2(2) j unfolding eq by simp
  then show ?thesis using shows_here(1) [OF M st j] m2 d by (simp add: merging_Prev_def turn_def FindLargest_def)
qed

lemma shown_forward:
  "merges_stably cmp valid (length (mg_children m)) T \<Longrightarrow> stands_merged ops stand T j m \<Longrightarrow> mg_direction m = kForward \<Longrightarrow>
    length T \<le> j + n \<Longrightarrow> shown (merging_ops ops cmp) (merging_Next ops cmp) n m = Some (drop j (map snd T))"
proof (induction n arbitrary: j m)
  case 0
  then show ?case by (simp add: shown.simps [of _ _ 0] merging_ops_def stands_merged_def split: if_splits)
next
  case (Suc n)
  show ?case
  proof (cases "j < length T")
    case True
    obtain m' where m': "merging_Next ops cmp m = Some m'" "stands_merged ops stand T (Suc j) m'" "mg_direction m' = kForward"
      "length (mg_children m') = length (mg_children m)" using Next_stable [OF Suc.prems(1-3) True] by blast
    have "i_Valid (merging_ops ops cmp) m" using Suc.prems(2) True by (simp add: merging_ops_def stands_merged_def)
    moreover have "i_key (merging_ops ops cmp) m = merging_key ops m" by (simp add: merging_ops_def)
    moreover have "drop j (map snd T) = snd (T ! j) # drop (Suc j) (map snd T)" using True by (simp add: drop_map flip: Cons_nth_drop_Suc)
    ultimately show ?thesis
      using shows_here [OF Suc.prems(1,2) True] m'(1) Suc.IH [OF _ m'(2,3)] m'(4) Suc.prems(1,4)
      by (simp add: shown.simps [of _ _ "Suc n"])
  next
    case False
    then show ?thesis using Suc.prems(2) by (simp add: shown.simps [of _ _ "Suc n"] merging_ops_def stands_merged_def)
  qed
qed

lemma shown_backward:
  "merges_stably cmp valid (length (mg_children m)) T \<Longrightarrow> stands_merged ops stand T j m \<Longrightarrow> mg_direction m = kReverse \<Longrightarrow>
    j < length T \<Longrightarrow> j < n \<Longrightarrow> shown (merging_ops ops cmp) (merging_Prev ops cmp) n m = Some (rev (take (Suc j) (map snd T)))"
proof (induction n arbitrary: j m)
  case (Suc n)
  note j = Suc.prems(4)
  obtain m' where m': "merging_Prev ops cmp m = Some m'" "stands_merged ops stand T (before_place (map snd T) j) m'"
    "mg_direction m' = kReverse" "length (mg_children m') = length (mg_children m)" using Prev_stable [OF Suc.prems(1-4)] by blast
  have "shown (merging_ops ops cmp) (merging_Prev ops cmp) n m' = Some (rev (take j (map snd T)))"
  proof (cases j)
    case 0
    then show ?thesis using m'(2)
      by (simp add: shown.simps [of _ _ n] merging_ops_def stands_merged_def before_place_def split: if_splits)
  next
    case (Suc i)
    then have "stands_merged ops stand T i m'" using m'(2) by (simp add: before_place_def)
    from Suc.IH [OF _ this m'(3)] Suc.prems(1,4,5) m'(4) Suc show ?thesis by simp
  qed
  moreover have "i_Valid (merging_ops ops cmp) m" using Suc.prems(2) j by (simp add: merging_ops_def stands_merged_def)
  moreover have "i_key (merging_ops ops cmp) m = merging_key ops m" by (simp add: merging_ops_def)
  moreover have "rev (take (Suc j) (map snd T)) = snd (T ! j) # rev (take j (map snd T))"
    using j by (simp add: take_Suc_conv_app_nth)
  ultimately show ?case using shows_here [OF Suc.prems(1,2) j] m'(1) by (simp add: shown.simps [of _ _ "Suc n"])
qed simp

lemma merging_scans:
  assumes M: "merges_stably cmp valid (length (mg_children m)) T" and at: "children_at ops stand T p (mg_children m)"
  shows "Option.bind (i_SeekToFirst (merging_ops ops cmp) m) (shown (merging_ops ops cmp) (merging_Next ops cmp) (length T)) = Some (map snd T)"
    and "Option.bind (i_SeekToLast (merging_ops ops cmp) m) (shown (merging_ops ops cmp) (merging_Prev ops cmp) (length T)) = Some (rev (map snd T))"
    and "valid t \<Longrightarrow> Option.bind (i_Seek (merging_ops ops cmp) t m) (shown (merging_ops ops cmp) (merging_Next ops cmp) (length T))
      = Some (dropWhile (\<lambda>e. cmp (fst e) t < 0) (map snd T))"
proof -
  have forward: "Option.bind (merging_seek cmp kForward f m) (shown (merging_ops ops cmp) (merging_Next ops cmp) (length T)) = Some (drop j (map snd T))"
    if each: "\<And>i w. wrapped ops stand (entries_of i T) (p i) w \<Longrightarrow> \<exists>w'. f w = Some w' \<and> wrapped ops stand (entries_of i T) (forwards T j i) w'"
      and j: "j \<le> length T" for f j
  proof -
    obtain cs where cs: "each_child f None 0 (mg_children m) = Some cs" "length cs = length (mg_children m)" "children_at ops stand T (forwards T j) cs"
      using all_children [OF at, where skip = None and f = f and q = "forwards T j"] each by blast
    let ?m = "m\<lparr>mg_children := cs\<rparr>"
    have "stands_merged ops stand T j ((FindSmallest cmp ?m)\<lparr>mg_direction := kForward\<rparr>)"
      using FindSmallest_stable [of ?m T j] M cs(2,3) j by simp
    from shown_forward [OF _ this, of "length T"] show ?thesis
      using M cs(1,2) by (simp add: merging_seek_def Let_def FindSmallest_def)
  qed
  show "Option.bind (i_SeekToFirst (merging_ops ops cmp) m) (shown (merging_ops ops cmp) (merging_Next ops cmp) (length T)) = Some (map snd T)"
    using forward [of "i_SeekToFirst (wrapper_ops ops)" 0] iterator_over.to_first [OF over_wrapper]
    by (simp add: merging_ops_def forwards_def)
  show "Option.bind (i_Seek (merging_ops ops cmp) t m) (shown (merging_ops ops cmp) (merging_Next ops cmp) (length T))
      = Some (dropWhile (\<lambda>e. cmp (fst e) t < 0) (map snd T))" if t: "valid t"
  proof -
    have "lower cmp (map snd T) t \<le> length T" using length_takeWhile_le [of _ "map snd T"] by (simp add: lower_def)
    moreover have "\<exists>w'. i_Seek (wrapper_ops ops) t w = Some w' \<and> wrapped ops stand (entries_of i T) (forwards T (lower cmp (map snd T) t) i) w'"
      if "wrapped ops stand (entries_of i T) (p i) w" for i w
      using iterator_over.to_target [OF over_wrapper that t] by (simp add: lower_stable [OF M t] forwards_def)
    ultimately show ?thesis
      using forward [of "i_Seek (wrapper_ops ops) t" "lower cmp (map snd T) t"]
      unfolding dropWhile_eq_drop lower_def [symmetric] by (simp add: merging_ops_def)
  qed
  have "backwards T (length T) i = length (entries_of i T) - 1" for i by (simp add: backwards_def before_place_def)
  then have "\<exists>w'. i_SeekToLast (wrapper_ops ops) w = Some w' \<and> wrapped ops stand (entries_of i T) (backwards T (length T) i) w'"
    if "wrapped ops stand (entries_of i T) (p i) w" for i w
    using iterator_over.to_last [OF over_wrapper that] by simp
  note each = this
  obtain cs where cs: "each_child (i_SeekToLast (wrapper_ops ops)) None 0 (mg_children m) = Some cs" "length cs = length (mg_children m)"
    "children_at ops stand T (backwards T (length T)) cs"
    using all_children [OF at, where skip = None and f = "i_SeekToLast (wrapper_ops ops)" and q = "backwards T (length T)"] each by blast
  let ?m = "(FindLargest cmp (m\<lparr>mg_children := cs\<rparr>))\<lparr>mg_direction := kReverse\<rparr>"
  have st: "stands_merged ops stand T (length T - 1) ?m" and M': "merges_stably cmp valid (length (mg_children ?m)) T"
    using FindLargest_stable [of "m\<lparr>mg_children := cs\<rparr>" T "length T"] M cs(2,3) by (cases "T = []"; simp add: before_place_def FindLargest_def)+
  have "shown (merging_ops ops cmp) (merging_Prev ops cmp) (length T) ?m = Some (rev (map snd T))"
  proof (cases "T = []")
    case True
    then show ?thesis using st by (simp add: shown.simps [of _ _ 0] merging_ops_def stands_merged_def)
  next
    case False
    then show ?thesis using shown_backward [OF M' st] by simp
  qed
  then show "Option.bind (i_SeekToLast (merging_ops ops cmp) m) (shown (merging_ops ops cmp) (merging_Prev ops cmp) (length T)) = Some (rev (map snd T))"
    using cs(1) by (simp add: merging_ops_def merging_seek_def Let_def)
qed

end

section \<open>Any number of children\<close>

lemma shown_many:
  "shown (merged_ops ops cmp) (i_Next (merged_ops ops cmp)) n (Many_children m) = shown (merging_ops ops cmp) (merging_Next ops cmp) n m"
  "shown (merged_ops ops cmp) (i_Prev (merged_ops ops cmp)) n (Many_children m) = shown (merging_ops ops cmp) (merging_Prev ops cmp) n m"
proof -
  have fields: "i_Valid (merged_ops ops cmp) (Many_children m) = i_Valid (merging_ops ops cmp) m"
    "i_key (merged_ops ops cmp) (Many_children m) = i_key (merging_ops ops cmp) m"
    "i_value (merged_ops ops cmp) (Many_children m) = i_value (merging_ops ops cmp) m"
    "i_Next (merged_ops ops cmp) (Many_children m) = map_option Many_children (merging_Next ops cmp m)"
    "i_Prev (merged_ops ops cmp) (Many_children m) = map_option Many_children (merging_Prev ops cmp m)" for m
    by (simp_all add: merged_ops_def on_merged_def Let_def merging_ops_def)
  show "shown (merged_ops ops cmp) (i_Next (merged_ops ops cmp)) n (Many_children m) = shown (merging_ops ops cmp) (merging_Next ops cmp) n m"
    by (induction n arbitrary: m) (simp_all add: shown.simps [of _ _ 0] shown.simps [of _ _ "Suc _"] fields bind_map_option comp_def)
  show "shown (merged_ops ops cmp) (i_Prev (merged_ops ops cmp)) n (Many_children m) = shown (merging_ops ops cmp) (merging_Prev ops cmp) n m"
    by (induction n arbitrary: m) (simp_all add: shown.simps [of _ _ 0] shown.simps [of _ _ "Suc _"] fields bind_map_option comp_def)
qed

lemma NewMergingIterator_scans:
  assumes c: "iterator_over ops cmp valid stand" and ord: "key_order valid cmp"
    and its: "list_all2 (\<lambda>it l. \<exists>j. stand l j it) its ls" and t: "valid t"
  shows "\<exists>m. NewMergingIterator ops its = Some m
    \<and> Option.bind (i_SeekToFirst (merged_ops ops cmp) m) (shown (merged_ops ops cmp) (i_Next (merged_ops ops cmp)) (length (merge_entries cmp ls)))
      = Some (merge_entries cmp ls)
    \<and> Option.bind (i_SeekToLast (merged_ops ops cmp) m) (shown (merged_ops ops cmp) (i_Prev (merged_ops ops cmp)) (length (merge_entries cmp ls)))
      = Some (rev (merge_entries cmp ls))
    \<and> Option.bind (i_Seek (merged_ops ops cmp) t m) (shown (merged_ops ops cmp) (i_Next (merged_ops ops cmp)) (length (merge_entries cmp ls)))
      = Some (dropWhile (\<lambda>e. cmp (fst e) t < 0) (merge_entries cmp ls))"
proof -
  have child: "\<forall>l\<in>set ls. ascending cmp l \<and> list_all (valid \<circ> fst) l"
    using its iterator_over.entries [OF c] by (induction its ls rule: list_all2_induct) auto
  have len: "length its = length ls" using its by (rule list_all2_lengthD)
  show ?thesis
  proof (cases "length ls \<le> 1")
    case True
    then have e: "merge_entries cmp ls = concat ls" by (cases ls) (auto simp: merge_entries_def)
    have "ascending cmp (concat ls)" using True child by (cases ls) (auto simp: ascending_def)
    then obtain m j where m: "NewMergingIterator ops its = Some m" "on_merged_entries ops cmp valid stand (concat ls) j m"
      using NewMergingIterator_ok [OF c ord its] by blast
    note over = merged_over [OF c ord]
    show ?thesis unfolding e
      using m(1) iterator_over.shown_all(1,2) [OF over, OF m(2)] iterator_over.shown_all(3) [OF over, OF m(2) t] by blast
  next
    case False
    note M = merging.intro [OF c ord]
    obtain cs where cs: "set_children ops its = Some cs" "length cs = length ls" "\<forall>i<length ls. \<exists>j. wrapped ops stand (ls ! i) j (cs ! i)"
      using merging.set_children_ok [OF M its] by blast
    then obtain p where p: "\<forall>i<length ls. wrapped ops stand (ls ! i) (p i) (cs ! i)" by metis
    let ?m = "\<lparr>mg_children = cs, mg_current = None, mg_direction = kForward\<rparr>" and ?T = "tagged_merge cmp 0 ls"
    have new: "NewMergingIterator ops its = Some (Many_children ?m)"
      using False len cs(1) by (auto simp: NewMergingIterator_def)
    have stable: "merges_stably cmp valid (length (mg_children ?m)) ?T"
      using merging.sorted_tagged_merge [OF M child, of 0] cs(2) by simp
    have at: "children_at ops stand ?T p (mg_children ?m)"
      using p cs(2) by (simp add: children_at_def entries_of_tagged_merge)
    have T: "map snd ?T = merge_entries cmp ls" "length ?T = length (merge_entries cmp ls)"
      using map_tagged_merge [of cmp 0 ls] length_map [of snd ?T] by simp_all
    have many: "Option.bind (i_SeekToFirst (merged_ops ops cmp) (Many_children ?m)) f
        = Option.bind (i_SeekToFirst (merging_ops ops cmp) ?m) (f \<circ> Many_children)"
      "Option.bind (i_SeekToLast (merged_ops ops cmp) (Many_children ?m)) f
        = Option.bind (i_SeekToLast (merging_ops ops cmp) ?m) (f \<circ> Many_children)"
      "Option.bind (i_Seek (merged_ops ops cmp) t (Many_children ?m)) f
        = Option.bind (i_Seek (merging_ops ops cmp) t ?m) (f \<circ> Many_children)" for f :: "_ \<Rightarrow> entry list option"
      by (simp_all add: merged_ops_def on_merged_def Let_def comp_def bind_map_option)
    show ?thesis
      using merging.merging_scans(1,2) [OF M stable at] merging.merging_scans(3) [OF M stable at t]
      unfolding T by (intro exI [of _ "Many_children ?m"] conjI new) (simp_all only: many comp_def shown_many)
  qed
qed

lemma sorted_merge_entries:
  assumes c: "iterator_over ops cmp valid stand" and ord: "key_order valid cmp" and its: "list_all2 (\<lambda>it l. \<exists>j. stand l j it) its ls"
  shows "sorted_wrt (\<lambda>a b. cmp (fst a) (fst b) \<le> 0) (merge_entries cmp ls)"
proof -
  have "\<forall>l\<in>set ls. ascending cmp l \<and> list_all (valid \<circ> fst) l"
    using its iterator_over.entries [OF c] by (induction its ls rule: list_all2_induct) auto
  then have "sorted_wrt (precedes cmp) (tagged_merge cmp 0 ls)"
    using merging.sorted_tagged_merge [OF merging.intro [OF c ord], of ls 0] by (simp add: merges_stably_def)
  then have "sorted_wrt (\<lambda>a b. cmp (fst (snd a)) (fst (snd b)) \<le> 0) (tagged_merge cmp 0 ls)"
    by (rule sorted_wrt_mono_rel [rotated]) (auto simp: precedes_def)
  then show ?thesis by (simp add: sorted_wrt_map flip: map_tagged_merge [of cmp 0])
qed

end
