(* ===== verification/Ldb_Read_Path.thy ===== *)
theory Ldb_Read_Path
  imports Ldb_Db_Iter Ldb_Merge_Scan
begin

text \<open>
  The read path of the database over its memtables, as \<open>NewIterator\<close> of the database object puts it together
  (\<open>db/memtable.cc\<close>, \<open>table/merger.cc\<close>, \<open>db/db_iter.cc\<close>): memtables are filled, their iterators are merged, and the
  database iterator shows of every user key its newest visible version.  The theory holds the properties of the
  iterators that span the components.
\<close>

declare One_nat_def [simp del]

section \<open>Versions in the order of their internal keys\<close>

lemma version_less:
  "InternalKeyCompare cmp (fst (version_entry e)) (fst (version_entry f)) < 0 \<longleftrightarrow>
     cmp (version_key e) (version_key f) < 0 \<or> cmp (version_key e) (version_key f) = 0
       \<and> tag_of (version_seq f) (version_type f) < tag_of (version_seq e) (version_type e)"
  by (cases e; cases f) (auto simp: InternalKeyCompare_bytes)

lemma version_same:
  "InternalKeyCompare cmp (fst (version_entry e)) (fst (version_entry f)) = 0 \<longleftrightarrow>
     cmp (version_key e) (version_key f) = 0 \<and> tag_of (version_seq f) (version_type f) = tag_of (version_seq e) (version_type e)"
  by (cases e; cases f) (auto simp: InternalKeyCompare_bytes)

lemma version_tags:
  assumes "version_ok valid e" and "version_ok valid f" and "version_seq e < version_seq f"
  shows "tag_of (version_seq e) (version_type e) < tag_of (version_seq f) (version_type f)"
  using assms tag_less_iff(2) by (cases e; cases f) auto

text \<open>The versions of a database: every sequence number is used once.\<close>

definition history :: "version list \<Rightarrow> bool" where
  "history es \<longleftrightarrow> list_all (version_ok (\<lambda>_. True)) es \<and> sorted_wrt (\<lambda>e f. version_seq e < version_seq f) es"

lemma history_seq:
  assumes "history es" and "e \<in> set es" and "f \<in> set es" and "version_seq e = version_seq f"
  shows "e = f"
proof -
  obtain i j where ij: "i < length es" "es ! i = e" "j < length es" "es ! j = f" using assms(2,3) by (auto simp: in_set_conv_nth)
  then have "\<not> i < j" "\<not> j < i"
    using assms(1,4) sorted_wrt_nth_less [of _ es i j] sorted_wrt_nth_less [of _ es j i] unfolding history_def by fastforce+
  then show ?thesis using ij by (metis nat_neq_iff)
qed

lemma history_distinct:
  assumes "history es"
  shows "distinct es"
proof -
  have "sorted_wrt (<) (map (\<lambda>e. version_seq e) es)" using assms by (simp add: history_def sorted_wrt_map)
  then show ?thesis by (metis strict_sorted_iff distinct_map)
qed

lemma history_concat: "history (concat ess) \<Longrightarrow> es \<in> set ess \<Longrightarrow> history es"
  unfolding history_def by (induction ess) (auto simp: sorted_wrt_append)

lemma history_compare:
  assumes "history es" and "e \<in> set es" and "f \<in> set es"
    and "InternalKeyCompare cmp (fst (version_entry e)) (fst (version_entry f)) = 0"
  shows "e = f"
proof -
  have ok: "version_ok (\<lambda>_. True) e" "version_ok (\<lambda>_. True) f" using assms(1-3) by (auto simp: history_def list_all_iff)
  have "version_seq e = version_seq f"
    using assms(4) version_tags [OF ok] version_tags [OF ok(2,1)] unfolding version_same by (metis linorder_neqE order_less_irrefl)
  then show ?thesis by (rule history_seq [OF assms(1-3)])
qed

lemma sorted_wrt_distinct: "sorted_wrt P xs \<Longrightarrow> (\<And>x. x \<in> set xs \<Longrightarrow> \<not> P x x) \<Longrightarrow> distinct xs"
  by (induction xs) auto

text \<open>Entries with different keys can be put into order.\<close>

lemma ascending_middle:
  assumes "ascending cmp (map f as)" and "ascending cmp (map f bs)" and "\<forall>a\<in>set as. \<forall>b\<in>set bs. cmp (fst (f a)) (fst (f b)) < 0"
    and "\<forall>a\<in>set as. cmp (fst (f a)) (fst (f x)) < 0" and "\<forall>b\<in>set bs. cmp (fst (f x)) (fst (f b)) < 0"
  shows "ascending cmp (map f (as @ x # bs))"
  using assms by (auto simp: ascending_def sorted_wrt_append)

lemma ascending_permutation:
  assumes ord: "key_order valid cmp"
  shows "list_all (valid \<circ> fst \<circ> f) xs \<Longrightarrow> sorted_wrt (\<lambda>a b. cmp (fst (f a)) (fst (f b)) \<noteq> 0) xs \<Longrightarrow>
    \<exists>ys. mset ys = mset xs \<and> ascending cmp (map f ys)"
proof (induction xs)
  case Nil
  then show ?case by (simp add: ascending_def)
next
  case (Cons x xs)
  then obtain ys where ys: "mset ys = mset xs" "ascending cmp (map f ys)" by auto
  have set: "set ys = set xs" using ys(1) by (rule mset_eq_setD)
  let ?P = "\<lambda>y. cmp (fst (f y)) (fst (f x)) < 0"
  let ?zs = "takeWhile ?P ys @ x # dropWhile ?P ys"
  have v: "valid (fst (f y))" if "y \<in> insert x (set ys)" for y using Cons.prems(1) that set by (auto simp: list_all_iff)
  have parts: "ascending cmp (map f (takeWhile ?P ys))" "ascending cmp (map f (dropWhile ?P ys))"
    "\<forall>a\<in>set (takeWhile ?P ys). \<forall>b\<in>set (dropWhile ?P ys). cmp (fst (f a)) (fst (f b)) < 0"
  proof -
    have "ascending cmp (map f (takeWhile ?P ys @ dropWhile ?P ys))" using ys(2) by simp
    then show "ascending cmp (map f (takeWhile ?P ys))" "ascending cmp (map f (dropWhile ?P ys))"
      "\<forall>a\<in>set (takeWhile ?P ys). \<forall>b\<in>set (dropWhile ?P ys). cmp (fst (f a)) (fst (f b)) < 0"
      unfolding ascending_def map_append sorted_wrt_append by auto
  qed
  have after: "cmp (fst (f x)) (fst (f b)) < 0" if b: "b \<in> set (dropWhile ?P ys)" for b
  proof -
    define h where "h = hd (dropWhile ?P ys)"
    have ne: "dropWhile ?P ys \<noteq> []" using b by (metis empty_iff list.set(1))
    have hin: "h \<in> set (dropWhile ?P ys)" "h \<in> set ys" "b \<in> set ys"
      using ne b set_dropWhileD [of _ ?P ys] hd_in_set [OF ne] by (auto simp: h_def)
    have "\<not> cmp (fst (f h)) (fst (f x)) < 0" unfolding h_def by (rule hd_dropWhile [OF ne])
    moreover have "cmp (fst (f x)) (fst (f h)) \<noteq> 0" using Cons.prems(2) hin(2) set by simp
    ultimately have xh: "cmp (fst (f x)) (fst (f h)) < 0"
      using key_order.cmp_flip [OF ord v v, of h x] key_order.cmp_flip [OF ord v v, of x h] hin(2)
        key_order.cmp_0_sym [OF ord v v, of x h] by fastforce
    have "b = h \<or> cmp (fst (f h)) (fst (f b)) < 0"
      using parts(2) b ne unfolding h_def ascending_def by (cases "dropWhile ?P ys") auto
    then show ?thesis using xh key_order.cmp_less_trans [OF ord v v v xh, of b] hin by auto
  qed
  have "ascending cmp (map f ?zs)"
    by (rule ascending_middle [OF parts]) (use after set_takeWhileD [of _ ?P ys] in blast)+
  moreover have "mset ?zs = mset (x # xs)"
  proof -
    have "mset (takeWhile ?P ys) + mset (dropWhile ?P ys) = mset ys" by (metis mset_append takeWhile_dropWhile_id)
    then show ?thesis using ys(1) by simp
  qed
  ultimately show ?case by blast
qed

section \<open>The iterator of a memtable\<close>

lemma new_memtable_iterator:
  assumes m: "mem_holds (\<lambda>_. True) BytewiseCompare m es"
  shows "\<exists>vs. mset vs = mset es \<and> on_memtable BytewiseCompare (\<lambda>_. True) (map version_entry vs) (length vs) (m, Iterator_new)"
proof -
  obtain ks where ks: "holds (entry_ok (\<lambda>_. True)) (KeyComparator BytewiseCompare) (mem_table m) ks" "set ks = version_bytes ` set es"
    and h: "history es" using m by (auto simp: mem_holds_def history_def)
  have ok: "version_ok (\<lambda>_. True) e" if "e \<in> set es" for e using h that by (simp add: history_def list_all_iff)
  have eo: "key_order (entry_ok (\<lambda>_. True)) (KeyComparator BytewiseCompare)" by (rule entry_order [OF bytewise_order])
  have inj: "e = f" if "e \<in> set es" "f \<in> set es" "version_bytes e = version_bytes f" for e f
  proof -
    have "KeyComparator BytewiseCompare (version_bytes e) (version_bytes f) = 0"
      using key_order.cmp_refl [OF eo version_entry_ok [OF ok [OF that(1)]]] that(3) by simp
    then show ?thesis using history_compare [OF h that(1,2)] KeyComparator_versions [OF ok [OF that(1)] ok [OF that(2)]] by simp
  qed
  have "\<forall>k\<in>set ks. \<exists>e. e \<in> set es \<and> k = version_bytes e" using ks(2) by blast
  then obtain g where g: "\<forall>k\<in>set ks. g k \<in> set es \<and> k = version_bytes (g k)" by metis
  let ?vs = "map g ks"
  have bytes: "map version_bytes ?vs = ks" using g by (simp add: map_idI)
  have "distinct ks"
    by (rule sorted_wrt_distinct [where P = "\<lambda>x y. KeyComparator BytewiseCompare x y < 0"])
      (use key_order.holds_valid [OF eo ks(1)] key_order.cmp_refl [OF eo] in fastforce)+
  then have "distinct ?vs" using bytes by (metis distinct_map)
  moreover have "set ?vs = set es"
  proof
    show "set ?vs \<subseteq> set es" using g by auto
    show "set es \<subseteq> set ?vs"
    proof
      fix e assume e: "e \<in> set es"
      then have "version_bytes e \<in> set ks" using ks(2) by simp
      with g inj [OF e] show "e \<in> set ?vs" by (metis image_eqI image_set)
    qed
  qed
  ultimately have "mset ?vs = mset es" using history_distinct [OF h] set_eq_iff_mset_eq_distinct by blast
  moreover have "list_all (version_ok (\<lambda>_. True)) ?vs" using g ok by (auto simp: list_all_iff)
  moreover have "stands (entry_ok (\<lambda>_. True)) (KeyComparator BytewiseCompare) (mem_table m) ks Iterator_new (length ks)"
  proof -
    obtain h L where L: "skip_links (mem_table m) h L" "\<forall>a\<in>set L. 1 \<le> h a" "ks = map (key_at (mem_table m)) L"
      "skip_keys (entry_ok (\<lambda>_. True)) (KeyComparator BytewiseCompare) (mem_table m) L" using ks(1) unfolding holds_def by blast
    then have "Iterator_new = first (drop (length ks) L)" by (simp add: Iterator_new_def first_drop)
    then show ?thesis using L unfolding stands_def by blast
  qed
  ultimately show ?thesis using ks(1) bytes by (intro exI [of _ ?vs]) (auto simp: on_memtable_def)
qed

section \<open>What the database iterator shows\<close>

lemma newest_visible:
  assumes h: "history es" and e: "e \<in> set es" "visible cmp u s e" and top: "\<And>f. f \<in> set es \<Longrightarrow> visible cmp u s f \<Longrightarrow> version_seq f \<le> version_seq e"
  shows "newest cmp es u s = Some e"
proof (cases "newest cmp es u s")
  case None
  then have "\<not> (\<exists>x. x \<in> set (rev es) \<and> visible cmp u s x)" unfolding newest_def find_None_iff .
  then show ?thesis using e by (metis set_rev)
next
  case (Some f)
  note f = newest_SomeD [OF Some conjunct2 [OF h [unfolded history_def]]]
  have "version_seq f \<le> version_seq e" using top f by blast
  then have "e = f" using f e by (meson leD)
  then show ?thesis using Some by simp
qed

text \<open>The view of the user, in terms of the newest visible versions.\<close>

lemma user_view_newest:
  assumes h: "history es" and vs: "set vs = set es" "ascending (InternalKeyCompare BytewiseCompare) (map version_entry vs)"
  shows "set (user_view BytewiseCompare s vs) = {(u, v). \<exists>q. newest BytewiseCompare es u s = Some (u, q, kTypeValue, v)}"
proof -
  let ?cmp = BytewiseCompare
  have less: "InternalKeyCompare ?cmp (fst (version_entry (vs ! k))) (fst (version_entry (vs ! i))) < 0" if "k < i" "i < length vs" for k i
    using vs(2) that by (simp add: ascending_def sorted_wrt_iff_nth_less)
  have ok: "version_ok (\<lambda>_. True) e" if "e \<in> set vs" for e using h that vs(1) by (simp add: history_def list_all_iff)
  have newer: "version_seq (vs ! i) < version_seq (vs ! k)"
    if k: "k < i" "i < length vs" and same: "?cmp (version_key (vs ! k)) (version_key (vs ! i)) = 0" for k i
  proof -
    have "tag_of (version_seq (vs ! i)) (version_type (vs ! i)) < tag_of (version_seq (vs ! k)) (version_type (vs ! k))"
      using less [OF k] same unfolding version_less by simp
    moreover have "vs ! k \<noteq> vs ! i" using less [OF k] key_order.cmp_refl [OF bytewise_order] by (auto simp: version_less)
    then have "version_seq (vs ! k) \<noteq> version_seq (vs ! i)" using history_seq [OF h, of "vs ! k" "vs ! i"] k vs(1) by fastforce
    moreover have "vs ! k \<in> set vs" "vs ! i \<in> set vs" using k by simp_all
    ultimately show ?thesis using version_tags [OF ok ok, of "vs ! k" "vs ! i"] by (metis linorder_neqE order_less_asym)
  qed
  have shown: "shown_at ?cmp s vs i \<longleftrightarrow> version_type (vs ! i) = kTypeValue \<and> newest ?cmp es (version_key (vs ! i)) s = Some (vs ! i)"
    if i: "i < length vs" for i
  proof
    assume sh: "shown_at ?cmp s vs i"
    have "newest ?cmp es (version_key (vs ! i)) s = Some (vs ! i)"
    proof (rule newest_visible [OF h])
      show "vs ! i \<in> set es" "visible ?cmp (version_key (vs ! i)) s (vs ! i)"
        using sh i vs(1) nth_mem [OF i] by (simp_all add: shown_at_def seen_def visible_def BytewiseCompare_0)
      fix f assume f: "f \<in> set es" "visible ?cmp (version_key (vs ! i)) s f"
      then obtain k where k: "k < length vs" "vs ! k = f" using vs(1) by (metis in_set_conv_nth)
      have "\<not> k < i" using sh f(2) k(2) by (auto simp: shown_at_def visible_def seen_def)
      then consider "k = i" | "i < k" by linarith
      then show "version_seq f \<le> version_seq (vs ! i)"
      proof cases
        case 2
        have "?cmp (version_key (vs ! i)) (version_key (vs ! k)) = 0" using f(2) k(2) by (simp add: visible_def BytewiseCompare_0)
        from newer [OF 2 k(1) this] show ?thesis using k(2) by simp
      qed (use k(2) in simp)
    qed
    then show "version_type (vs ! i) = kTypeValue \<and> newest ?cmp es (version_key (vs ! i)) s = Some (vs ! i)"
      using sh by (simp add: shown_at_def)
  next
    assume n: "version_type (vs ! i) = kTypeValue \<and> newest ?cmp es (version_key (vs ! i)) s = Some (vs ! i)"
    note top = newest_SomeD [OF conjunct2 [OF n] conjunct2 [OF h [unfolded history_def]]]
    have "?cmp (version_key (vs ! k)) (version_key (vs ! i)) \<noteq> 0" if k: "k < i" "seen s (vs ! k)" for k
    proof
      assume same: "?cmp (version_key (vs ! k)) (version_key (vs ! i)) = 0"
      then have "visible ?cmp (version_key (vs ! i)) s (vs ! k)" using k(2) by (simp add: visible_def seen_def)
      moreover have "vs ! k \<in> set es" using k(1) i vs(1) nth_mem [of k vs] by simp
      ultimately have "vs ! k = vs ! i \<or> version_seq (vs ! k) < version_seq (vs ! i)" using top by blast
      then show False using newer [OF k(1) i same] by (metis order_less_asym)
    qed
    then show "shown_at ?cmp s vs i" using n top i by (simp add: shown_at_def visible_def seen_def)
  qed
  show ?thesis
  proof (intro equalityI subsetI)
    fix x assume "x \<in> set (user_view ?cmp s vs)"
    then obtain i where i: "i < length vs" "shown_at ?cmp s vs i" "x = (version_key (vs ! i), version_value (vs ! i))"
      by (auto simp: user_view_def)
    then show "x \<in> {(u, v). \<exists>q. newest ?cmp es u s = Some (u, q, kTypeValue, v)}"
      using shown [OF i(1)] by (cases "vs ! i") auto
  next
    fix x assume "x \<in> {(u, v). \<exists>q. newest ?cmp es u s = Some (u, q, kTypeValue, v)}"
    then obtain u q v where n: "x = (u, v)" "newest ?cmp es u s = Some (u, q, kTypeValue, v)" by auto
    then have "(u, q, kTypeValue, v) \<in> set vs" using newest_SomeD [OF n(2) conjunct2 [OF h [unfolded history_def]]] vs(1) by blast
    then obtain i where i: "i < length vs" "vs ! i = (u, q, kTypeValue, v)" by (auto simp: in_set_conv_nth)
    then have "shown_at ?cmp s vs i" using shown [OF i(1)] n(2) by simp
    then show "x \<in> set (user_view ?cmp s vs)" using i n(1) by (force simp: user_view_def)
  qed
qed

section \<open>Memtables, merged\<close>

abbreviation internal_order :: comparing where "internal_order \<equiv> InternalKeyCompare BytewiseCompare"

text \<open>The memtables of a database, filled with their versions, and an iterator on each.\<close>

fun fill_memtables :: "version list list \<Rightarrow> MemTable list option" where
  "fill_memtables [] = Some []"
| "fill_memtables (es # ess) = do {
     m \<leftarrow> MemTable_new;
     m \<leftarrow> MemTable_Adds BytewiseCompare es m;
     ms \<leftarrow> fill_memtables ess;
     Some (m # ms) }"

abbreviation read_iterator :: "MemTable list \<Rightarrow> (MemTable \<times> iter) Merged option" where
  "read_iterator ms \<equiv> NewMergingIterator (mem_ops BytewiseCompare) (map (\<lambda>m. (m, Iterator_new)) ms)"

abbreviation read_ops :: "(MemTable \<times> iter) Merged Iterator" where
  "read_ops \<equiv> merged_ops (mem_ops BytewiseCompare) internal_order"

abbreviation read_stand :: "entry list \<Rightarrow> nat \<Rightarrow> (MemTable \<times> iter) Merged \<Rightarrow> bool" where
  "read_stand \<equiv> on_merged_entries (mem_ops BytewiseCompare) internal_order (mem_key (\<lambda>_. True)) (on_memtable BytewiseCompare (\<lambda>_. True))"

interpretation read_db: db_iterating read_ops BytewiseCompare "mem_key (\<lambda>_. True)" read_stand "\<lambda>_. True"
proof (intro db_iterating.intro merged_over memtable_iterator.iterator_over_axioms mem_key_order bytewise_order)
  show "db_iterating_axioms (mem_key (\<lambda>_. True)) (\<lambda>_. True)" by unfold_locales (simp add: mem_key_def)
qed

interpretation read_user: iterator_over "db_ops read_ops BytewiseCompare" BytewiseCompare "user_key_ok (\<lambda>_. True)"
    "on_user read_ops BytewiseCompare (\<lambda>_. True) read_stand s" for s
  by (rule read_db.db_iterator_over)

lemma fill_memtables_ok:
  "list_all history ess \<Longrightarrow> \<exists>ms vss. fill_memtables ess = Some ms
    \<and> list_all2 (\<lambda>it l. \<exists>j. on_memtable BytewiseCompare (\<lambda>_. True) l j it) (map (\<lambda>m. (m, Iterator_new)) ms) (map (map version_entry) vss)
    \<and> mset (concat vss) = mset (concat ess) \<and> list_all2 (\<lambda>vs es. mset vs = mset es) vss ess"
proof (induction ess)
  case (Cons es ess)
  obtain m0 where m0: "MemTable_new = Some m0" "mem_holds (\<lambda>_. True) BytewiseCompare m0 []" using MemTable_new_holds by blast
  obtain m where m: "MemTable_Adds BytewiseCompare es m0 = Some m" "mem_holds (\<lambda>_. True) BytewiseCompare m es"
    using MemTable_Adds_holds [OF bytewise_order m0(2), of es] Cons.prems by (auto simp: history_def)
  obtain vs where vs: "mset vs = mset es" "on_memtable BytewiseCompare (\<lambda>_. True) (map version_entry vs) (length vs) (m, Iterator_new)"
    using new_memtable_iterator [OF m(2)] by blast
  obtain ms vss where r: "fill_memtables ess = Some ms"
    "list_all2 (\<lambda>it l. \<exists>j. on_memtable BytewiseCompare (\<lambda>_. True) l j it) (map (\<lambda>m. (m, Iterator_new)) ms) (map (map version_entry) vss)"
    "mset (concat vss) = mset (concat ess)" "list_all2 (\<lambda>vs es. mset vs = mset es) vss ess" using Cons by auto
  have "fill_memtables (es # ess) = Some (m # ms)" by (simp only: fill_memtables.simps m0(1) m(1) r(1) bind.simps)
  moreover have "list_all2 (\<lambda>it l. \<exists>j. on_memtable BytewiseCompare (\<lambda>_. True) l j it)
      (map (\<lambda>m. (m, Iterator_new)) (m # ms)) (map (map version_entry) (vs # vss))"
    using vs(2) r(2) by auto
  moreover have "mset (concat (vs # vss)) = mset (concat (es # ess))" using vs(1) r(3) by simp
  moreover have "list_all2 (\<lambda>vs es. mset vs = mset es) (vs # vss) (es # ess)" using vs(1) r(4) by simp
  ultimately show ?case by blast
qed simp

lemma read_iterator_ok:
  assumes h: "history (concat ess)"
  shows "\<exists>ms m vs j. fill_memtables ess = Some ms \<and> read_iterator ms = Some m \<and> mset vs = mset (concat ess)
    \<and> ascending internal_order (map version_entry vs) \<and> read_stand (map version_entry vs) j m"
proof -
  have "list_all history ess" using history_concat [OF h] by (simp add: list_all_iff)
  then obtain ms vss where m: "fill_memtables ess = Some ms"
    "list_all2 (\<lambda>it l. \<exists>j. on_memtable BytewiseCompare (\<lambda>_. True) l j it) (map (\<lambda>m. (m, Iterator_new)) ms) (map (map version_entry) vss)"
    "mset (concat vss) = mset (concat ess)" using fill_memtables_ok by blast
  have keys: "list_all (mem_key (\<lambda>_. True) \<circ> fst \<circ> version_entry) (concat ess)"
    using h by (fastforce simp: history_def list_all_iff mem_key_def)
  have "sorted_wrt (\<lambda>a b. internal_order (fst (version_entry a)) (fst (version_entry b)) \<noteq> 0) (concat ess)"
    unfolding sorted_wrt_iff_nth_less
  proof (intro allI impI notI)
    fix i j assume ij: "i < j" "j < length (concat ess)"
    assume "internal_order (fst (version_entry (concat ess ! i))) (fst (version_entry (concat ess ! j))) = 0"
    then have "concat ess ! i = concat ess ! j" by (rule history_compare [OF h nth_mem nth_mem, rotated 2]) (use ij in simp_all)
    then show False using nth_eq_iff_index_eq [OF history_distinct [OF h], of i j] ij by simp
  qed
  from ascending_permutation [where f = version_entry, OF mem_key_order [OF bytewise_order] keys this]
  obtain vs where vs: "mset vs = mset (concat ess)" "ascending internal_order (map version_entry vs)" by blast
  have "mset (map version_entry vs) = mset (concat (map (map version_entry) vss))"
    unfolding map_concat [symmetric] mset_map using vs(1) m(3) by simp
  from NewMergingIterator_ok [OF memtable_iterator.iterator_over_axioms mem_key_order [OF bytewise_order] m(2) vs(2) this]
  show ?thesis using m(1) vs by blast
qed

text \<open>C2: reading the database through its memtables.  Versions with rising sequence numbers are spread over any number of
  memtables; their iterators are merged, and an iterator of the database is put on the merged ones.  No call fails; at
  any sequence number the iterator shows, forwards, backwards and from any user key, a sorted sequence that has
  exactly the keys whose newest visible version is a value, with that value: deleted and overwritten versions never show.\<close>

theorem database_iterator_shows_newest:
  assumes "history (concat ess)" and "s \<le> kMaxSequenceNumber" and "length t + 8 < 2 ^ 32"
  shows "\<exists>ms m es. fill_memtables ess = Some ms \<and> read_iterator ms = Some m \<and> ascending BytewiseCompare es
    \<and> set es = {(u, v). \<exists>q. newest BytewiseCompare (concat ess) u s = Some (u, q, kTypeValue, v)}
    \<and> Option.bind (db_SeekToFirst read_ops BytewiseCompare (NewDBIterator m s seed))
        (shown (db_ops read_ops BytewiseCompare) (db_Next read_ops BytewiseCompare) (length es)) = Some es
    \<and> Option.bind (db_SeekToLast read_ops BytewiseCompare (NewDBIterator m s seed))
        (shown (db_ops read_ops BytewiseCompare) (db_Prev read_ops BytewiseCompare) (length es)) = Some (rev es)
    \<and> Option.bind (db_Seek read_ops BytewiseCompare t (NewDBIterator m s seed))
        (shown (db_ops read_ops BytewiseCompare) (db_Next read_ops BytewiseCompare) (length es))
      = Some (dropWhile (\<lambda>e. BytewiseCompare (fst e) t < 0) es)"
proof -
  obtain ms m vs j where m: "fill_memtables ess = Some ms" "read_iterator ms = Some m" "mset vs = mset (concat ess)"
    "ascending internal_order (map version_entry vs)" "read_stand (map version_entry vs) j m" using read_iterator_ok [OF assms(1)] by blast
  let ?es = "user_view BytewiseCompare s vs"
  have sets: "set vs = set (concat ess)" using m(3) by (rule mset_eq_setD)
  have "list_all (version_ok (\<lambda>_. True)) vs" using assms(1) sets by (auto simp: history_def list_all_iff)
  from read_db.NewDBIterator_ok [OF assms(2) this m(5), of seed]
  have st: "on_user read_ops BytewiseCompare (\<lambda>_. True) read_stand s ?es (length ?es) (NewDBIterator m s seed)" .
  have key: "user_key_ok (\<lambda>_. True) t" using assms(3) by (simp add: user_key_ok_def)
  note all = read_user.shown_all [OF st] read_user.shown_all(3) [OF st key]
  have "ascending BytewiseCompare ?es" using read_user.entries [OF st] by blast
  with m(1,2) user_view_newest [OF assms(1) sets m(4)] all show ?thesis
    by (intro exI [of _ ms] exI [of _ m] exI [of _ ?es]) (simp add: db_ops_def)
qed

lemma example_history: "history (concat [[([7], 1, kTypeValue, [10]), ([8], 2, kTypeValue, [20])], [([7], 3, kTypeDeletion, [])]])"
  by (simp add: history_def kMaxSequenceNumber_def)

theorem database_iterator_shows_newest_witness:
  "\<exists>ms m es. fill_memtables [[([7], 1, kTypeValue, [10]), ([8], 2, kTypeValue, [20])], [([7], 3, kTypeDeletion, [])]] = Some ms
    \<and> read_iterator ms = Some m \<and> set es = {([8], [20])}
    \<and> Option.bind (db_SeekToFirst read_ops BytewiseCompare (NewDBIterator m 3 301))
        (shown (db_ops read_ops BytewiseCompare) (db_Next read_ops BytewiseCompare) (length es)) = Some es"
proof -
  have "{(u, v). \<exists>q. newest BytewiseCompare (concat [[([7], 1, kTypeValue, [10]), ([8], 2, kTypeValue, [20])], [([7], 3, kTypeDeletion, [])]]) u 3
      = Some (u, q, kTypeValue, v)} = {([8], [20])}"
    by (auto simp: newest_def visible_def BytewiseCompare_0 cong: if_cong split: if_splits)
  then show ?thesis
    using database_iterator_shows_newest [OF example_history, of 3 "[8]" 301] by (simp add: kMaxSequenceNumber_def) blast
qed

section \<open>Merging alone\<close>

text \<open>C7: the merging iterator does no duplicate suppression.  Over any number of children that keep the contract of
  an iterator, whatever keys they share, a scan yields every entry of every child, in ascending order of the keys: a key
  that is in \<open>K\<close> children comes \<open>K\<close> times, the entry of the first child first.  Forwards from the first entry
  or from a target, and in the reverse order backwards from the last.\<close>

theorem merging_iterator_shows_union:
  assumes "iterator_over ops cmp valid stand" and "key_order valid cmp"
    and "list_all2 (\<lambda>it l. \<exists>j. stand l j it) its ls" and "valid t"
  shows "\<exists>m es. NewMergingIterator ops its = Some m
    \<and> es = merge_entries cmp ls \<and> mset es = mset (concat ls) \<and> sorted_wrt (\<lambda>a b. cmp (fst a) (fst b) \<le> 0) es
    \<and> Option.bind (i_SeekToFirst (merged_ops ops cmp) m) (shown (merged_ops ops cmp) (i_Next (merged_ops ops cmp)) (length es)) = Some es
    \<and> Option.bind (i_SeekToLast (merged_ops ops cmp) m) (shown (merged_ops ops cmp) (i_Prev (merged_ops ops cmp)) (length es)) = Some (rev es)
    \<and> Option.bind (i_Seek (merged_ops ops cmp) t m) (shown (merged_ops ops cmp) (i_Next (merged_ops ops cmp)) (length es))
      = Some (dropWhile (\<lambda>e. cmp (fst e) t < 0) es)"
  using NewMergingIterator_scans [OF assms] mset_merge_entries [of cmp ls] sorted_merge_entries [OF assms(1-3)] by blast

theorem merging_iterator_shows_union_witness:
  "\<exists>ms m. fill_memtables [[([7], 1, kTypeValue, [10])], [([7], 1, kTypeValue, [20])]] = Some ms \<and> read_iterator ms = Some m
    \<and> Option.bind (i_SeekToFirst read_ops m) (shown read_ops (i_Next read_ops) 2)
      = Some [(internal_bytes [7] (tag_of 1 kTypeValue), [10]), (internal_bytes [7] (tag_of 1 kTypeValue), [20])]"
proof -
  let ?ess = "[[([7], 1, kTypeValue, [10])], [([7], 1, kTypeValue, [20])]] :: version list list"
  have "list_all history ?ess" by (simp add: history_def kMaxSequenceNumber_def)
  then obtain ms vss where m: "fill_memtables ?ess = Some ms"
    "list_all2 (\<lambda>it l. \<exists>j. on_memtable BytewiseCompare (\<lambda>_. True) l j it) (map (\<lambda>m. (m, Iterator_new)) ms) (map (map version_entry) vss)"
    "list_all2 (\<lambda>vs es. mset vs = mset es) vss ?ess" using fill_memtables_ok by blast
  let ?e = "\<lambda>v. (internal_bytes [7] (tag_of 1 kTypeValue), v)"
  have "map (map version_entry) vss = [[?e [10]], [?e [20]]]" using m(3) by (auto simp: list_all2_Cons2)
  moreover have "internal_order (internal_bytes [7] (tag_of 1 kTypeValue)) (internal_bytes [7] (tag_of 1 kTypeValue)) = 0"
    by (simp add: InternalKeyCompare_bytes BytewiseCompare_0)
  ultimately have es: "merge_entries internal_order (map (map version_entry) vss) = [?e [10], ?e [20]]"
    by (simp add: merge_entries_def)
  have "mem_key (\<lambda>_. True) (internal_bytes [6] (tag_of 2 kTypeValue))" by (simp add: mem_key_def)
  from merging_iterator_shows_union [OF memtable_iterator.iterator_over_axioms mem_key_order [OF bytewise_order] m(2) this]
  show ?thesis using m(1) unfolding es by (auto simp: numeral_2_eq_2)
qed

section \<open>Sampling of reads\<close>

lemma sample_reads_enough:
  assumes "sample_reads k n d = Some d'"
  shows "n \<le> di_bytes d'"
  using assms by (rule sample_reads.raw_induct [where P = "\<lambda>k n d d'. n \<le> di_bytes d'", rotated])
    (fastforce simp: Let_def split: if_splits prod.splits)

text \<open>C40: the loop of \<open>ParseKey\<close> that schedules samples ends although a random period may be 0, because the generator
  never gives two such periods in a row; it leaves enough bytes for the entry, and a seed from which the next one ends.\<close>

theorem read_sampling_ends:
  fixes d :: "'i DBIter"
  assumes "seed_ok (di_rnd d)" and "unat n < 2 ^ 40"
  shows "\<exists>d'. sample_reads k n d = Some d' \<and> n \<le> di_bytes d' \<and> seed_ok (di_rnd d') \<and> di_iter d' = di_iter d"
proof -
  obtain d' where d': "sample_reads k n d = Some d'" "sampled d d'" using sample_reads_ok [OF assms] by blast
  then show ?thesis using sample_reads_enough [OF d'(1)] by (auto simp: sampled_def)
qed

theorem read_sampling_ends_witness:
  "\<exists>d'. sample_reads [1] 3000000 (NewDBIterator () 0 301) = Some d' \<and> 3000000 \<le> di_bytes d' \<and> seed_ok (di_rnd d') \<and> di_iter d' = ()"
proof -
  have "seed_ok (di_rnd (NewDBIterator () 0 301))" using Random_Next_mod(2) [OF Random_new_ok]
    by (simp add: NewDBIterator_def period_unat(1))
  then show ?thesis using read_sampling_ends [of "NewDBIterator () 0 301" 3000000 "[1]"] by simp
qed

end
