(* ===== verification/Ldb_Format.thy ===== *)
theory Ldb_Format
  imports Ldb_Block_Build Ldb_Env Ldb_Crc32c
begin

text \<open>
  The format of table files (\<open>table/format.h\<close>, \<open>table/format.cc\<close>): block handles, the footer, and \<open>ReadBlock\<close>,
  which reads a block with its trailer and checks it.  The file is the operation \<open>Read\<close> of \<open>RandomAccessFile\<close>,
  a function of the offset and the length, with the contract \<open>random_access_file\<close>; whether it hands out memory
  of its own is \<open>rf_own\<close>.  The configuration has no snappy: the functions of \<open>port/port_stdcxx.h\<close> report
  failure.  A failing assertion and an access outside the bytes that were read are \<open>None\<close>.  A call of
  \<open>crc32c::Value\<close> is \<open>crc32c_spec\<close>, which it computes at every address (\<open>Ldb_Crc32c.Extend_spec\<close>).
\<close>

declare One_nat_def [simp del]

section \<open>The code\<close>

record BlockHandle =
  bh_offset :: uint64
  bh_size :: uint64

definition BlockHandle_new :: BlockHandle where
  "BlockHandle_new = \<lparr>bh_offset = NOT 0, bh_size = NOT 0\<rparr>"

definition kMaxEncodedLength :: nat where "kMaxEncodedLength = 10 + 10"

definition BlockHandle_EncodeTo :: "BlockHandle \<Rightarrow> byte list \<Rightarrow> byte list option" where
  "BlockHandle_EncodeTo h dst =
     (if bh_offset h \<noteq> NOT 0 \<and> bh_size h \<noteq> NOT 0
      then Some (PutVarint64 (PutVarint64 dst (bh_offset h)) (bh_size h)) else None)"

text \<open>The status, the handle and what is left of the input.\<close>

definition BlockHandle_DecodeFrom :: "BlockHandle \<Rightarrow> byte list \<Rightarrow> Status \<times> BlockHandle \<times> byte list" where
  "BlockHandle_DecodeFrom h input =
     (case GetVarint64 input of
        None \<Rightarrow> (Corruption (str ''bad block handle'') [], h, input)
      | Some (offset, input) \<Rightarrow>
          (case GetVarint64 input of
             None \<Rightarrow> (Corruption (str ''bad block handle'') [], h\<lparr>bh_offset := offset\<rparr>, input)
           | Some (sz, input) \<Rightarrow> (OK, h\<lparr>bh_offset := offset, bh_size := sz\<rparr>, input)))"

record Footer =
  ft_metaindex :: BlockHandle
  ft_index :: BlockHandle

definition Footer_new :: Footer where
  "Footer_new = \<lparr>ft_metaindex = BlockHandle_new, ft_index = BlockHandle_new\<rparr>"

definition kEncodedLength :: nat where "kEncodedLength = 2 * kMaxEncodedLength + 8"
definition kTableMagicNumber :: uint64 where "kTableMagicNumber = 0xdb4775248b80fb57"
definition kBlockTrailerSize :: uint64 where "kBlockTrailerSize = 5"

definition string_resize :: "nat \<Rightarrow> byte list \<Rightarrow> byte list" where
  "string_resize n s = take n s @ replicate (n - length s) 0"

definition Footer_EncodeTo :: "Footer \<Rightarrow> byte list \<Rightarrow> byte list option" where
  "Footer_EncodeTo f dst = do {
     dst1 \<leftarrow> BlockHandle_EncodeTo (ft_metaindex f) dst;
     dst1 \<leftarrow> BlockHandle_EncodeTo (ft_index f) dst1;
     (let dst1 = string_resize (2 * kMaxEncodedLength) dst1;
          dst1 = PutFixed32 dst1 (ucast (kTableMagicNumber AND 0xffffffff));
          dst1 = PutFixed32 dst1 (ucast (drop_bit 32 kTableMagicNumber)) in
      if length dst1 = length dst + kEncodedLength then Some dst1 else None) }"

definition Footer_DecodeFrom :: "Footer \<Rightarrow> byte list \<Rightarrow> (Status \<times> Footer \<times> byte list) option" where
  "Footer_DecodeFrom f input =
     (if length input < kEncodedLength then None
      else let magic_lo = DecodeFixed32 (drop (kEncodedLength - 8) input);
               magic_hi = DecodeFixed32 (drop (kEncodedLength - 4) input);
               magic = push_bit 32 (ucast magic_hi) OR ucast magic_lo :: uint64 in
        if magic \<noteq> kTableMagicNumber then Some (Corruption (str ''not an sstable (bad magic number)'') [], f, input)
        else let (result, h, rest) = BlockHandle_DecodeFrom (ft_metaindex f) input; f = f\<lparr>ft_metaindex := h\<rparr> in
          if \<not> ok result then Some (result, f, rest)
          else let (result, h, rest) = BlockHandle_DecodeFrom (ft_index f) rest; f = f\<lparr>ft_index := h\<rparr> in
            Some (result, f, if ok result then drop kEncodedLength input else rest))"

text \<open>The compression of the port.\<close>

definition Snappy_Compress :: "byte list \<Rightarrow> byte list option" where "Snappy_Compress input = None"
definition Snappy_GetUncompressedLength :: "byte list \<Rightarrow> nat option" where "Snappy_GetUncompressedLength input = None"
definition Snappy_Uncompress :: "byte list \<Rightarrow> byte list option" where "Snappy_Uncompress input = None"

definition kNoCompression :: byte where "kNoCompression = 0"
definition kSnappyCompression :: byte where "kSnappyCompression = 1"

record RandomAccessFile =
  rf_Read :: "uint64 \<Rightarrow> uint64 \<Rightarrow> Status \<times> byte list"
  rf_own :: bool

record BlockContents =
  bc_data :: "byte list"
  bc_cachable :: bool
  bc_heap_allocated :: bool

definition BlockContents_new :: BlockContents where
  "BlockContents_new = \<lparr>bc_data = [], bc_cachable = False, bc_heap_allocated = False\<rparr>"

record ReadOptions =
  ro_verify_checksums :: bool
  ro_fill_cache :: bool

definition ReadOptions_new :: ReadOptions where
  "ReadOptions_new = \<lparr>ro_verify_checksums = False, ro_fill_cache = True\<rparr>"

text \<open>The checksum of the trailer: \<open>None\<close> when the bytes are not there.\<close>

definition checksum_matches :: "byte list \<Rightarrow> nat \<Rightarrow> bool option" where
  "checksum_matches data n = do {
     stored \<leftarrow> fixed32_at data (n + 1);
     Some (crc32c_spec 0 (take (n + 1) data) = Unmask stored) }"

definition block_of_type :: "RandomAccessFile \<Rightarrow> byte list \<Rightarrow> nat \<Rightarrow> Status \<times> BlockContents" where
  "block_of_type file data n =
     (if data ! n = kNoCompression
      then (OK, \<lparr>bc_data = take n data, bc_cachable = \<not> rf_own file, bc_heap_allocated = \<not> rf_own file\<rparr>)
      else if data ! n = kSnappyCompression
      then (case Snappy_GetUncompressedLength (take n data) of
              None \<Rightarrow> (Corruption (str ''corrupted compressed block contents'') [], BlockContents_new)
            | Some ulength \<Rightarrow>
                (case Snappy_Uncompress (take n data) of
                   None \<Rightarrow> (Corruption (str ''corrupted compressed block contents'') [], BlockContents_new)
                 | Some ubuf \<Rightarrow> (OK, \<lparr>bc_data = take ulength ubuf, bc_cachable = True, bc_heap_allocated = True\<rparr>)))
      else (Corruption (str ''bad block type'') [], BlockContents_new))"

definition ReadBlock :: "RandomAccessFile \<Rightarrow> ReadOptions \<Rightarrow> BlockHandle \<Rightarrow> (Status \<times> BlockContents) option" where
  "ReadBlock file options handle =
     (let n = bh_size handle;
          (s, contents) = rf_Read file (bh_offset handle) (n + kBlockTrailerSize) in
      if \<not> ok s then Some (s, BlockContents_new)
      else if length contents \<noteq> unat (n + kBlockTrailerSize)
      then Some (Corruption (str ''truncated block read'') [], BlockContents_new)
      else do {
        good \<leftarrow> (if ro_verify_checksums options then checksum_matches contents (unat n) else Some True);
        (if \<not> good then Some (Corruption (str ''block checksum mismatch'') [], BlockContents_new)
         else if unat n < length contents then Some (block_of_type file contents (unat n))
         else None) })"

section \<open>The contract of the file\<close>

locale random_access_file =
  fixes read :: "uint64 \<Rightarrow> uint64 \<Rightarrow> Status \<times> byte list" and contents :: "byte list"
  assumes read_ok: "length contents < 2 ^ 64 \<Longrightarrow> unat offset + unat n \<le> length contents \<Longrightarrow>
    read offset n = (OK, take (unat n) (drop (unat offset) contents))"

text \<open>A mapped file.\<close>

definition mmap_file :: "'k os \<Rightarrow> byte list \<Rightarrow> byte list \<Rightarrow> RandomAccessFile" where
  "mmap_file os filename region =
     \<lparr>rf_Read = (\<lambda>offset n. let (s, start, k) = MmapReadableFile_Read os filename (word_of_nat (length region)) offset n in
        (s, take (unat k) (drop (unat start) region))), rf_own = True\<rparr>"

interpretation mapped: random_access_file "rf_Read (mmap_file os filename region)" region for os filename region
proof unfold_locales
  fix offset n :: uint64
  assume small: "length region < 2 ^ 64" and le: "unat offset + unat n \<le> length region"
  then have "unat (offset + n) = unat offset + unat n" using small by (simp add: unat_word_ariths)
  moreover have "unat (word_of_nat (length region) :: uint64) = length region" using small by (simp only: unat_of_nat) simp
  ultimately have "\<not> word_of_nat (length region) < offset + n" using le by (simp add: word_less_nat_alt)
  then show "rf_Read (mmap_file os filename region) offset n = (OK, take (unat n) (drop (unat offset) region))"
    by (simp add: mmap_file_def MmapReadableFile_Read_def)
qed

section \<open>Handles\<close>

definition handle_bytes :: "BlockHandle \<Rightarrow> byte list" where
  "handle_bytes h = varint (unat (bh_offset h)) @ varint (unat (bh_size h))"

definition handle_set :: "BlockHandle \<Rightarrow> bool" where
  "handle_set h \<longleftrightarrow> bh_offset h \<noteq> NOT 0 \<and> bh_size h \<noteq> NOT 0"

lemma BlockHandle_EncodeTo_bytes: "handle_set h \<Longrightarrow> BlockHandle_EncodeTo h dst = Some (dst @ handle_bytes h)"
  by (simp add: BlockHandle_EncodeTo_def handle_set_def handle_bytes_def PutVarint64_def EncodeVarint64_varint)

lemma BlockHandle_DecodeFrom_bytes: "BlockHandle_DecodeFrom h0 (handle_bytes h @ rest) = (OK, h, rest)"
  by (simp add: BlockHandle_DecodeFrom_def handle_bytes_def GetVarint64_varint)

lemma handle_bytes_length: "length (handle_bytes h) \<le> 20"
  using length_varint64 [of "bh_offset h"] length_varint64 [of "bh_size h"] by (simp add: handle_bytes_def)

section \<open>The footer\<close>

definition magic_lo :: uint32 where "magic_lo = 0x8b80fb57"
definition magic_hi :: uint32 where "magic_hi = 0xdb477524"

definition magic_bytes :: "byte list" where
  "magic_bytes = le_of_nat 4 (unat magic_lo) @ le_of_nat 4 (unat magic_hi)"

definition footer_bytes :: "Footer \<Rightarrow> byte list" where
  "footer_bytes f = (let hs = handle_bytes (ft_metaindex f) @ handle_bytes (ft_index f) in hs @ replicate (40 - length hs) 0 @ magic_bytes)"

lemma length_magic [simp]: "length magic_bytes = 8"
  by (simp add: magic_bytes_def)

lemma length_footer [simp]: "length (footer_bytes f) = 48"
  using handle_bytes_length [of "ft_metaindex f"] handle_bytes_length [of "ft_index f"] by (simp add: footer_bytes_def Let_def)

lemma magic_parts:
  "ucast (kTableMagicNumber AND 0xffffffff) = magic_lo" "ucast (drop_bit 32 kTableMagicNumber) = magic_hi"
  "push_bit 32 (ucast magic_hi) OR ucast magic_lo = kTableMagicNumber"
  by code_simp+

lemma Footer_EncodeTo_bytes:
  assumes "handle_set (ft_metaindex f)" and "handle_set (ft_index f)"
  shows "Footer_EncodeTo f [] = Some (footer_bytes f)"
  using handle_bytes_length [of "ft_metaindex f"] handle_bytes_length [of "ft_index f"] assms
  by (simp add: Footer_EncodeTo_def BlockHandle_EncodeTo_bytes string_resize_def footer_bytes_def Let_def PutFixed32_def
      kMaxEncodedLength_def kEncodedLength_def magic_bytes_def magic_parts)

lemma drop_parts: "length p = n \<Longrightarrow> length a = m \<Longrightarrow> drop n (p @ a @ b) = a @ b \<and> drop (n + m) (p @ a @ b) = b"
  by simp

lemma Footer_DecodeFrom_bytes: "Footer_DecodeFrom f0 (footer_bytes f @ rest) = Some (OK, f, rest)"
proof -
  let ?hs = "handle_bytes (ft_metaindex f) @ handle_bytes (ft_index f)"
  have l: "length ?hs \<le> 40" using handle_bytes_length [of "ft_metaindex f"] handle_bytes_length [of "ft_index f"] by simp
  have b: "footer_bytes f @ rest = (?hs @ replicate (40 - length ?hs) 0) @ le_of_nat 4 (unat magic_lo) @ le_of_nat 4 (unat magic_hi) @ rest"
    by (simp add: footer_bytes_def Let_def magic_bytes_def)
  have p: "length (?hs @ replicate (40 - length ?hs) 0) = 40" using l by simp
  have "drop 40 (footer_bytes f @ rest) = le_of_nat 4 (unat magic_lo) @ le_of_nat 4 (unat magic_hi) @ rest"
    "drop 44 (footer_bytes f @ rest) = le_of_nat 4 (unat magic_hi) @ rest"
    unfolding b using drop_parts [OF p, of "le_of_nat 4 (unat magic_lo)" 4] by simp_all
  then have "DecodeFixed32 (drop 40 (footer_bytes f @ rest)) = magic_lo" "DecodeFixed32 (drop 44 (footer_bytes f @ rest)) = magic_hi"
    by (simp_all only: DecodeFixed32_le)
  moreover have "footer_bytes f @ rest = handle_bytes (ft_metaindex f) @ handle_bytes (ft_index f)
      @ replicate (40 - length ?hs) 0 @ magic_bytes @ rest" by (simp add: footer_bytes_def Let_def)
  then have "BlockHandle_DecodeFrom h (footer_bytes f @ rest) = (OK, ft_metaindex f, handle_bytes (ft_index f)
      @ replicate (40 - length ?hs) 0 @ magic_bytes @ rest)" for h
    by (simp only: BlockHandle_DecodeFrom_bytes)
  ultimately show ?thesis
    by (simp add: Footer_DecodeFrom_def kEncodedLength_def kMaxEncodedLength_def magic_parts Let_def
        BlockHandle_DecodeFrom_bytes ok_def)
qed

section \<open>Stored blocks\<close>

definition block_image :: "byte list \<Rightarrow> byte \<Rightarrow> byte list" where
  "block_image d t = d @ t # EncodeFixed32 (Mask (crc32c_spec 0 (d @ [t])))"

definition stored_at :: "byte list \<Rightarrow> BlockHandle \<Rightarrow> byte list \<Rightarrow> bool" where
  "stored_at contents h d \<longleftrightarrow> unat (bh_size h) = length d \<and> unat (bh_offset h) + length d + 5 \<le> length contents
     \<and> take (length d + 5) (drop (unat (bh_offset h)) contents) = block_image d kNoCompression"

lemma length_block_image [simp]: "length (block_image d t) = length d + 5"
  by (simp add: block_image_def)

lemma ReadBlock_stored:
  assumes f: "random_access_file (rf_Read file) contents" and small: "length contents < 2 ^ 64" and st: "stored_at contents h d"
  shows "ReadBlock file options h = Some (OK, \<lparr>bc_data = d, bc_cachable = \<not> rf_own file, bc_heap_allocated = \<not> rf_own file\<rparr>)"
proof -
  have n: "unat (bh_size h) = length d" and l: "unat (bh_offset h) + length d + 5 \<le> length contents"
    and img: "take (length d + 5) (drop (unat (bh_offset h)) contents) = block_image d kNoCompression"
    using st by (simp_all add: stored_at_def)
  have n5: "unat (bh_size h + kBlockTrailerSize) = length d + 5" using n l small by (simp add: kBlockTrailerSize_def unat_word_ariths)
  then have "rf_Read file (bh_offset h) (bh_size h + kBlockTrailerSize) = (OK, block_image d kNoCompression)"
    using random_access_file.read_ok [OF f small, of "bh_offset h" "bh_size h + kBlockTrailerSize"] l img by simp
  moreover have "checksum_matches (block_image d kNoCompression) (length d) = Some True"
  proof -
    have "fixed32_at (block_image d kNoCompression) (length d + 1) = Some (Mask (crc32c_spec 0 (d @ [kNoCompression])))"
      using DecodeFixed32_le [of "Mask (crc32c_spec 0 (d @ [kNoCompression]))" "[]"] by (simp add: fixed32_at_def block_image_def)
    moreover have "take (length d + 1) (block_image d kNoCompression) = d @ [kNoCompression]" by (simp add: block_image_def)
    ultimately show ?thesis by (simp add: checksum_matches_def Unmask_Mask)
  qed
  moreover have "block_image d kNoCompression ! length d = kNoCompression" "take (length d) (block_image d kNoCompression) = d"
    by (simp_all add: block_image_def)
  ultimately show ?thesis using n n5 by (simp add: ReadBlock_def Let_def ok_def block_of_type_def)
qed

text \<open>A handle whose size is within five of \<open>2 ^ 64\<close>: the length that is read wraps.\<close>

lemma ReadBlock_wraps:
  assumes "rf_Read file (bh_offset h) 0 = (OK, [])" and "bh_size h = - 5"
  shows "ReadBlock file options h = None"
proof -
  have "bh_size h + kBlockTrailerSize = 0" by (simp add: assms(2) kBlockTrailerSize_def)
  then show ?thesis
    using assms(1) by (simp add: ReadBlock_def Let_def ok_def checksum_matches_def fixed32_at_def)
qed

end
