(* ===== verification/Ldb_Bloom.thy ===== *)
theory Ldb_Bloom
  imports Ldb_Dbformat "HOL-Library.Monad_Syntax"
begin

text \<open>
  Hashing (\<open>util/hash.cc\<close>), the Bloom filter (\<open>util/bloom.cc\<close>), and the contract of a filter policy
  (\<open>include/leveldb/filter_policy.h\<close>) as the locale \<open>filter_policy\<close>.  The Bloom filter provides it,
  and the policy on internal keys provides it over any policy on user keys.  \<open>None\<close> is an access
  outside an array, a remainder by zero or a conversion that is undefined.
\<close>

declare One_nat_def [simp del]

section \<open>The code\<close>

definition hash_m :: uint32 where "hash_m = 0xc6a4a793"

text \<open>The loop over the four-byte words; it gives the hash and the bytes that remain.\<close>

function Hash_loop :: "byte list \<Rightarrow> uint32 \<Rightarrow> uint32 \<times> byte list" where
  "Hash_loop data h =
     (if 4 \<le> length data
      then let w = DecodeFixed32 data;
               h = h + w;
               h = h * hash_m;
               h = h XOR drop_bit 16 h
           in Hash_loop (drop 4 data) h
      else (h, data))"
  by auto
termination by (relation "measure (length \<circ> fst)") auto

declare Hash_loop.simps [simp del]

definition Hash_tail :: "byte list \<Rightarrow> uint32 \<Rightarrow> uint32" where
  "Hash_tail data h =
     (let n = length data;
          h = (if n = 3 then h + push_bit 16 (ucast (data ! 2)) else h);
          h = (if n = 3 \<or> n = 2 then h + push_bit 8 (ucast (data ! 1)) else h)
      in if n = 3 \<or> n = 2 \<or> n = 1
         then let h = h + ucast (data ! 0);
                  h = h * hash_m
              in h XOR drop_bit 24 h
         else h)"

definition Hash :: "byte list \<Rightarrow> uint32 \<Rightarrow> uint32" where
  "Hash data seed =
     (let h = ucast (ucast seed XOR (word_of_nat (length data) * ucast hash_m :: uint64));
          (h, data) = Hash_loop data h
      in Hash_tail data h)"

definition BloomHash :: "byte list \<Rightarrow> uint32" where
  "BloomHash key = Hash key 0xbc9f1d34"

record BloomFilterPolicy =
  bits_per_key :: nat
  bloom_k :: nat

text \<open>The product with \<open>0.69\<close> in double arithmetic: below 44 it is away from the integers by more than
  the rounding, and from 44 on the value is cut to 30.  A negative one cannot be converted to
  \<open>size_t\<close> when it is \<open>- 1\<close> or less.\<close>

definition BloomFilterPolicy_new :: "int \<Rightarrow> BloomFilterPolicy option" where
  "BloomFilterPolicy_new b =
     (if b * 69 \<le> - 100 then None
      else let k = (if b < 0 then 0 else nat (b * 69 div 100));
               k = (if k < 1 then 1 else k);
               k = (if 30 < k then 30 else k)
           in Some \<lparr>bits_per_key = nat (b mod 2 ^ 64), bloom_k = k\<rparr>)"

fun set_probes :: "nat \<Rightarrow> nat \<Rightarrow> uint32 \<Rightarrow> uint32 \<Rightarrow> byte list \<Rightarrow> byte list option" where
  "set_probes 0 bits h delta array = Some array"
| "set_probes (Suc j) bits h delta array =
     (let bitpos = unat h mod bits in
      if bits \<noteq> 0 \<and> bitpos div 8 < length array
      then set_probes j bits (h + delta) delta
             (array[bitpos div 8 := array ! (bitpos div 8) OR push_bit (bitpos mod 8) 1])
      else None)"

definition bloom_delta :: "uint32 \<Rightarrow> uint32" where
  "bloom_delta h = drop_bit 17 h OR push_bit 15 h"

fun bloom_add :: "nat \<Rightarrow> nat \<Rightarrow> byte list list \<Rightarrow> byte list \<Rightarrow> byte list option" where
  "bloom_add k bits [] array = Some array"
| "bloom_add k bits (key # keys) array =
     (let h = BloomHash key in
      Option.bind (set_probes k bits h (bloom_delta h) array) (bloom_add k bits keys))"

definition BloomCreateFilter :: "BloomFilterPolicy \<Rightarrow> byte list list \<Rightarrow> byte list \<Rightarrow> byte list option" where
  "BloomCreateFilter policy keys dst =
     (let bits = length keys * bits_per_key policy mod 2 ^ 64;
          bits = (if bits < 64 then 64 else bits);
          bytes = (bits + 7) mod 2 ^ 64 div 8;
          bits = bytes * 8;
          init_size = length dst;
          dst = dst @ replicate bytes 0;
          dst = dst @ [word_of_nat (bloom_k policy)]
      in map_option (\<lambda>array. take init_size dst @ array)
           (bloom_add (bloom_k policy) bits keys (drop init_size dst)))"

fun test_probes :: "nat \<Rightarrow> nat \<Rightarrow> uint32 \<Rightarrow> uint32 \<Rightarrow> byte list \<Rightarrow> bool option" where
  "test_probes 0 bits h delta array = Some True"
| "test_probes (Suc j) bits h delta array =
     (let bitpos = unat h mod bits in
      if bits \<noteq> 0 \<and> bitpos div 8 < length array
      then if array ! (bitpos div 8) AND push_bit (bitpos mod 8) 1 = 0 then Some False
           else test_probes j bits (h + delta) delta array
      else None)"

text \<open>\<open>array[len - 1]\<close> is a \<open>char\<close>, which is signed, converted to \<open>size_t\<close>.\<close>

definition BloomKeyMayMatch :: "byte list \<Rightarrow> byte list \<Rightarrow> bool option" where
  "BloomKeyMayMatch key bloom_filter =
     (let len = length bloom_filter in
      if len < 2 then Some False
      else let bits = (len - 1) * 8;
               k = unat (scast (bloom_filter ! (len - 1)) :: uint64)
           in if 30 < k then Some True
              else let h = BloomHash key in test_probes k bits h (bloom_delta h) bloom_filter)"

definition NewBloomFilterPolicy :: "int \<Rightarrow> BloomFilterPolicy option" where
  "NewBloomFilterPolicy b = BloomFilterPolicy_new b"

section \<open>The contract of a filter policy\<close>

text \<open>A filter is appended to what is there and matches every key it was made for; asking never
  leaves the filter.\<close>

locale filter_policy =
  fixes valid :: "byte list \<Rightarrow> bool"
    and create :: "byte list list \<Rightarrow> byte list \<Rightarrow> byte list option"
    and may_match :: "byte list \<Rightarrow> byte list \<Rightarrow> bool option"
  assumes create_ok: "length keys < 2 ^ 31 \<Longrightarrow> list_all valid keys \<Longrightarrow>
      \<exists>f. create keys dst = Some (dst @ f) \<and> list_all (\<lambda>key. may_match key f = Some True) keys"
    and match_total: "valid key \<Longrightarrow> may_match key f \<noteq> None"

lemma internal_filter_policy:
  assumes "filter_policy v create may_match"
  shows "filter_policy (\<lambda>k. internal_key k \<and> v (ExtractUserKey k)) (InternalCreateFilter create)
    (InternalKeyMayMatch may_match)"
proof
  fix keys dst assume "length keys < 2 ^ 31" "list_all (\<lambda>k. internal_key k \<and> v (ExtractUserKey k)) keys"
  then have "length (map ExtractUserKey keys) < 2 ^ 31" "list_all v (map ExtractUserKey keys)"
    by (auto simp: list_all_iff)
  from filter_policy.create_ok [OF assms this, of dst]
  show "\<exists>f. InternalCreateFilter create keys dst = Some (dst @ f)
      \<and> list_all (\<lambda>key. InternalKeyMayMatch may_match key f = Some True) keys"
    by (auto simp: InternalCreateFilter_def InternalKeyMayMatch_def list_all_iff)
next
  fix key f assume "internal_key key \<and> v (ExtractUserKey key)"
  then show "InternalKeyMayMatch may_match key f \<noteq> None"
    using filter_policy.match_total [OF assms] by (simp add: InternalKeyMayMatch_def)
qed

section \<open>The Bloom filter has no false negatives\<close>

definition bit_at :: "byte list \<Rightarrow> nat \<Rightarrow> bool" where
  "bit_at a p \<longleftrightarrow> bit (a ! (p div 8)) (p mod 8)"

lemma bit_at_test: "a ! (p div 8) AND 2 ^ (p mod 8) = 0 \<longleftrightarrow> \<not> bit_at a p"
  by (simp add: bit_at_def and_exp_eq_0_iff_not_bit)

lemma bit_at_set:
  assumes "p div 8 < length a"
  shows "bit_at (a[p div 8 := a ! (p div 8) OR 2 ^ (p mod 8)]) q \<longleftrightarrow> bit_at a q \<or> q = p"
proof (cases "q div 8 = p div 8")
  case True
  then have "q = p \<longleftrightarrow> q mod 8 = p mod 8" by (metis div_mult_mod_eq)
  moreover have "bit (2 ^ (p mod 8) :: byte) (q mod 8) \<longleftrightarrow> q mod 8 = p mod 8"
    by (auto simp: bit_exp_iff possible_bit_word)
  then have "bit (a ! (p div 8) OR 2 ^ (p mod 8)) (q mod 8) \<longleftrightarrow> bit (a ! (p div 8)) (q mod 8) \<or> q mod 8 = p mod 8"
    by (simp add: bit_or_iff)
  ultimately show ?thesis using True assms by (simp add: bit_at_def)
next
  case False
  then show ?thesis by (auto simp: bit_at_def)
qed

fun probes :: "nat \<Rightarrow> nat \<Rightarrow> uint32 \<Rightarrow> uint32 \<Rightarrow> nat list" where
  "probes 0 bits h delta = []"
| "probes (Suc j) bits h delta = unat h mod bits # probes j bits (h + delta) delta"

lemma set_probes_bits:
  "0 < bits \<Longrightarrow> bits \<le> 8 * length a \<Longrightarrow>
   \<exists>a'. set_probes j bits h delta a = Some a' \<and> length a' = length a
     \<and> (\<forall>q. bit_at a' q \<longleftrightarrow> bit_at a q \<or> q \<in> set (probes j bits h delta))
     \<and> (\<forall>i. bits \<le> 8 * i \<longrightarrow> a' ! i = a ! i)"
proof (induction j arbitrary: h a)
  case (Suc j)
  let ?p = "unat h mod bits"
  have p: "?p < bits" using Suc.prems(1) by simp
  then have l: "?p div 8 < length a" using Suc.prems(2) by (simp add: div_less_iff_less_mult)
  let ?a = "a[?p div 8 := a ! (?p div 8) OR 2 ^ (?p mod 8)]"
  obtain a' where a': "set_probes j bits (h + delta) delta ?a = Some a'" "length a' = length a"
    "\<And>q. bit_at a' q \<longleftrightarrow> bit_at ?a q \<or> q \<in> set (probes j bits (h + delta) delta)"
    "\<And>i. bits \<le> 8 * i \<Longrightarrow> a' ! i = ?a ! i"
    using Suc.IH [of ?a "h + delta"] Suc.prems by auto
  have keep: "a' ! i = a ! i" if "bits \<le> 8 * i" for i
  proof -
    have "?p div 8 < i" using p that by (simp add: div_less_iff_less_mult)
    then show ?thesis using a'(4) [OF that] by simp
  qed
  have "set_probes (Suc j) bits h delta a = Some a'" using a'(1) l Suc.prems(1) by (simp add: Let_def)
  moreover have "bit_at a' q \<longleftrightarrow> bit_at a q \<or> q \<in> set (probes (Suc j) bits h delta)" for q
    unfolding a'(3) bit_at_set [OF l] by auto
  ultimately show ?case using a'(2) keep by blast
qed simp

lemma test_probes_bits:
  "0 < bits \<Longrightarrow> bits \<le> 8 * length a \<Longrightarrow>
   test_probes j bits h delta a = Some (list_all (bit_at a) (probes j bits h delta))"
proof (induction j arbitrary: h)
  case (Suc j)
  have "unat h mod bits < bits" using Suc.prems(1) by simp
  then have "unat h mod bits div 8 < length a" using Suc.prems(2) by (simp add: div_less_iff_less_mult)
  then show ?case using Suc.IH [of "h + delta"] Suc.prems by (simp add: Let_def bit_at_test)
qed simp

lemma bloom_add_bits:
  "0 < bits \<Longrightarrow> bits \<le> 8 * length a \<Longrightarrow>
   \<exists>a'. bloom_add k bits keys a = Some a' \<and> length a' = length a
     \<and> (\<forall>q. bit_at a q \<longrightarrow> bit_at a' q) \<and> (\<forall>i. bits \<le> 8 * i \<longrightarrow> a' ! i = a ! i)
     \<and> (\<forall>key\<in>set keys. list_all (bit_at a') (probes k bits (BloomHash key) (bloom_delta (BloomHash key))))"
proof (induction keys arbitrary: a)
  case (Cons key keys)
  obtain b where b: "set_probes k bits (BloomHash key) (bloom_delta (BloomHash key)) a = Some b" "length b = length a"
    "\<And>q. bit_at b q \<longleftrightarrow> bit_at a q \<or> q \<in> set (probes k bits (BloomHash key) (bloom_delta (BloomHash key)))"
    "\<And>i. bits \<le> 8 * i \<Longrightarrow> b ! i = a ! i"
    using set_probes_bits [OF Cons.prems] by blast
  obtain a' where a': "bloom_add k bits keys b = Some a'" "length a' = length b"
    "\<And>q. bit_at b q \<Longrightarrow> bit_at a' q" "\<And>i. bits \<le> 8 * i \<Longrightarrow> a' ! i = b ! i"
    "\<forall>key\<in>set keys. list_all (bit_at a') (probes k bits (BloomHash key) (bloom_delta (BloomHash key)))"
    using Cons.IH [of b] Cons.prems b(2) by metis
  then show ?case using b by (auto simp: Let_def list_all_iff)
qed simp

definition bloom_ok :: "BloomFilterPolicy \<Rightarrow> bool" where
  "bloom_ok policy \<longleftrightarrow> bits_per_key policy < 2 ^ 31 \<and> 1 \<le> bloom_k policy \<and> bloom_k policy \<le> 30"

lemma BloomFilterPolicy_new_ok:
  assumes "0 \<le> b" and "b < 2 ^ 31"
  shows "\<exists>policy. NewBloomFilterPolicy b = Some policy \<and> bloom_ok policy \<and> bits_per_key policy = nat b"
proof -
  have "b mod 2 ^ 64 = b" using assms by (intro mod_pos_pos_trivial) simp_all
  moreover have "nat b < 2 ^ 31" using assms by (simp add: nat_less_iff)
  ultimately show ?thesis using assms
    by (auto simp: NewBloomFilterPolicy_def BloomFilterPolicy_new_def bloom_ok_def Let_def not_less)
qed

lemma bloom_size:
  fixes n b :: nat
  assumes "n < 2 ^ 31" and "b < 2 ^ 31"
  defines "bits \<equiv> (if n * b mod 2 ^ 64 < 64 then 64 else n * b mod 2 ^ 64)"
  shows "8 \<le> (bits + 7) mod 2 ^ 64 div 8"
proof -
  have "n * b \<le> 2 ^ 31 * 2 ^ 31" using assms(1,2) by (intro mult_le_mono) simp_all
  then have "bits + 7 < 2 ^ 64" by (simp add: bits_def)
  moreover have "64 \<le> bits" by (simp add: bits_def)
  then have "8 \<le> (bits + 7) div 8" by simp
  ultimately show ?thesis by (simp only: mod_less)
qed

lemma BloomKeyMayMatch_total: "BloomKeyMayMatch key f \<noteq> None"
proof (cases "length f < 2")
  case False
  then have "0 < (length f - 1) * 8" "(length f - 1) * 8 \<le> 8 * length f" by simp_all
  from test_probes_bits [OF this] show ?thesis using False by (simp add: BloomKeyMayMatch_def Let_def del: not_None_eq)
qed (simp add: BloomKeyMayMatch_def)

lemma bloom_probe_count: "k \<le> 30 \<Longrightarrow> unat (scast (word_of_nat k :: byte) :: uint64) = k"
proof -
  assume k: "k \<le> 30"
  then have "sint (word_of_nat k :: byte) = int k"
    by (simp add: signed_of_nat signed_take_bit_int_eq_self)
  then have "(scast (word_of_nat k :: byte) :: uint64) = word_of_nat k"
    by (metis of_int_of_nat_eq scast_eq)
  then show ?thesis using k by (simp only: unat_of_nat) simp
qed

lemma bloom_add_match:
  assumes "0 < n" and "k \<le> 30"
  shows "\<exists>f. bloom_add k (n * 8) keys (replicate n 0 @ [word_of_nat k]) = Some f
    \<and> (\<forall>key\<in>set keys. BloomKeyMayMatch key f = Some True)"
proof -
  let ?a = "replicate n 0 @ [word_of_nat k :: byte]"
  have "0 < n * 8" "n * 8 \<le> 8 * length ?a" using assms(1) by simp_all
  from bloom_add_bits [OF this, of k keys]
  obtain f where f: "bloom_add k (n * 8) keys ?a = Some f" "length f = length ?a"
    "\<forall>i. n * 8 \<le> 8 * i \<longrightarrow> f ! i = ?a ! i"
    "\<forall>key\<in>set keys. list_all (bit_at f) (probes k (n * 8) (BloomHash key) (bloom_delta (BloomHash key)))"
    by blast
  have len: "length f - 1 = n" "\<not> length f < 2" using f(2) assms(1) by simp_all
  have "f ! n = word_of_nat k" using f(3) by (simp add: nth_append)
  then have kf: "unat (scast (f ! (length f - 1)) :: uint64) = k"
    using bloom_probe_count [OF assms(2)] len(1) by simp
  have "BloomKeyMayMatch key f = Some True" if "key \<in> set keys" for key
  proof -
    have "test_probes k (n * 8) (BloomHash key) (bloom_delta (BloomHash key)) f
        = Some (list_all (bit_at f) (probes k (n * 8) (BloomHash key) (bloom_delta (BloomHash key))))"
      by (rule test_probes_bits) (use assms(1) f(2) in simp_all)
    then show ?thesis using len kf f(4) that assms(2) by (simp add: BloomKeyMayMatch_def Let_def)
  qed
  with f(1) show ?thesis by blast
qed

lemma BloomCreateFilter_ok:
  assumes ok: "bloom_ok policy" and n: "length keys < 2 ^ 31"
  shows "\<exists>f. BloomCreateFilter policy keys dst = Some (dst @ f) \<and> (\<forall>key\<in>set keys. BloomKeyMayMatch key f = Some True)"
proof -
  define bits where "bits = length keys * bits_per_key policy mod 2 ^ 64"
  define n where "n = ((if bits < 64 then 64 else bits) + 7) mod 2 ^ 64 div 8"
  have "bits_per_key policy < 2 ^ 31" using ok by (simp add: bloom_ok_def)
  from bloom_size [OF n this] have "8 \<le> n" unfolding n_def bits_def .
  then have "0 < n" by simp
  from bloom_add_match [OF this, of "bloom_k policy" keys] ok
  obtain f where f: "bloom_add (bloom_k policy) (n * 8) keys (replicate n 0 @ [word_of_nat (bloom_k policy)]) = Some f"
    "\<forall>key\<in>set keys. BloomKeyMayMatch key f = Some True" by (auto simp: bloom_ok_def)
  have "BloomCreateFilter policy keys dst = Some (dst @ f)"
    unfolding BloomCreateFilter_def Let_def bits_def [symmetric] n_def [symmetric] using f(1) by simp
  with f(2) show ?thesis by blast
qed

lemma bloom_filter_policy:
  "bloom_ok policy \<Longrightarrow> filter_policy (\<lambda>_. True) (BloomCreateFilter policy) BloomKeyMayMatch"
  by unfold_locales (use BloomCreateFilter_ok BloomKeyMayMatch_total in \<open>auto simp: list_all_iff\<close>)

definition bloom_10 :: BloomFilterPolicy where "bloom_10 = \<lparr>bits_per_key = 10, bloom_k = 6\<rparr>"

lemma bloom_10_new: "NewBloomFilterPolicy 10 = Some bloom_10"
  by (simp add: NewBloomFilterPolicy_def BloomFilterPolicy_new_def bloom_10_def)

interpretation bloom: filter_policy "\<lambda>_. True" "BloomCreateFilter bloom_10" BloomKeyMayMatch
  by (rule bloom_filter_policy) (simp add: bloom_ok_def bloom_10_def)

interpretation internal_bloom: filter_policy "\<lambda>k. internal_key k \<and> True"
    "InternalCreateFilter (BloomCreateFilter bloom_10)" "InternalKeyMayMatch BloomKeyMayMatch"
  by (rule internal_filter_policy [OF bloom.filter_policy_axioms])

text \<open>C20: the Bloom filter has no false negatives.  For every number of bits per key that the constructor
  is given, \<open>CreateFilter\<close> only appends, and the filter it appended matches each of the keys; the probes
  never leave the filter, whatever bytes are given as one.\<close>

theorem bloom_no_false_negatives:
  assumes "0 \<le> b" and "b < 2 ^ 31" and "length keys < 2 ^ 31"
  shows "\<exists>policy f. NewBloomFilterPolicy b = Some policy \<and> BloomCreateFilter policy keys dst = Some (dst @ f)
    \<and> list_all (\<lambda>key. BloomKeyMayMatch key f = Some True) keys \<and> BloomKeyMayMatch any_key any_filter \<noteq> None"
proof -
  obtain policy where "NewBloomFilterPolicy b = Some policy" "bloom_ok policy"
    using BloomFilterPolicy_new_ok [OF assms(1,2)] by blast
  moreover obtain f where "BloomCreateFilter policy keys dst = Some (dst @ f)"
    "\<forall>key\<in>set keys. BloomKeyMayMatch key f = Some True"
    using BloomCreateFilter_ok [OF calculation(2) assms(3)] by blast
  ultimately show ?thesis using BloomKeyMayMatch_total [of any_key any_filter] unfolding list_all_iff by blast
qed

theorem bloom_no_false_negatives_witness:
  "\<exists>policy f. NewBloomFilterPolicy 10 = Some policy \<and> BloomCreateFilter policy [[1], [2, 3]] [9] = Some ([9] @ f)
    \<and> BloomKeyMayMatch [1] f = Some True \<and> BloomKeyMayMatch [2, 3] f = Some True"
  using bloom_no_false_negatives [of 10 "[[1], [2, 3]]" "[9]" "[]" "[]"] by auto

end
