(* ===== verification/Ldb_Filter_Block.thy ===== *)
theory Ldb_Filter_Block
  imports Ldb_Bloom Ldb_Fixed_Arrays
begin

text \<open>
  The filter block of a table (\<open>table/filter_block.h\<close>, \<open>table/filter_block.cc\<close>): one filter for every two
  kilobytes of data, behind them their offsets.  The policy is a parameter, used through the locale
  \<open>filter_policy\<close>; the scratch array \<open>tmp_keys_\<close> is a local value.  \<open>None\<close> is a failing assertion, a
  failing policy, a read outside the block or a shift by 64 and more.
\<close>

declare One_nat_def [simp del]

section \<open>The code\<close>

definition kFilterBaseLg :: nat where "kFilterBaseLg = 11"
definition kFilterBase :: nat where "kFilterBase = push_bit kFilterBaseLg 1"

record FilterBlockBuilder =
  fb_keys :: "byte list"
  fb_start :: "nat list"
  fb_result :: "byte list"
  fb_offsets :: "uint32 list"

definition FilterBlockBuilder_new :: FilterBlockBuilder where
  "FilterBlockBuilder_new = \<lparr>fb_keys = [], fb_start = [], fb_result = [], fb_offsets = []\<rparr>"

type_synonym creating = "byte list list \<Rightarrow> byte list \<Rightarrow> byte list option"
type_synonym matching = "byte list \<Rightarrow> byte list \<Rightarrow> bool option"

definition flattened :: "byte list \<Rightarrow> nat list \<Rightarrow> nat \<Rightarrow> byte list" where
  "flattened keys start i = take (start ! (i + 1) - start ! i) (drop (start ! i) keys)"

definition GenerateFilter :: "creating \<Rightarrow> FilterBlockBuilder \<Rightarrow> FilterBlockBuilder option" where
  "GenerateFilter create b =
     (let num_keys = length (fb_start b) in
      if num_keys = 0
      then Some (b\<lparr>fb_offsets := fb_offsets b @ [word_of_nat (length (fb_result b))]\<rparr>)
      else let start = fb_start b @ [length (fb_keys b)];
               tmp_keys = map (flattened (fb_keys b) start) [0..<num_keys];
               b = b\<lparr>fb_offsets := fb_offsets b @ [word_of_nat (length (fb_result b))]\<rparr>
           in do {
             result \<leftarrow> create tmp_keys (fb_result b);
             Some (b\<lparr>fb_result := result, fb_keys := [], fb_start := []\<rparr>) })"

lemma GenerateFilter_offsets:
  "GenerateFilter create b = Some b' \<Longrightarrow> length (fb_offsets b') = Suc (length (fb_offsets b))"
  by (auto simp: GenerateFilter_def Let_def bind_eq_Some_conv split: if_splits)

function StartBlock_loop :: "creating \<Rightarrow> nat \<Rightarrow> FilterBlockBuilder \<Rightarrow> FilterBlockBuilder option" where
  "StartBlock_loop create filter_index b =
     (if length (fb_offsets b) < filter_index
      then Option.bind (GenerateFilter create b) (StartBlock_loop create filter_index)
      else Some b)"
  by auto
termination by (relation "measure (\<lambda>(_, n, b). n - length (fb_offsets b))") (auto dest: GenerateFilter_offsets)

declare StartBlock_loop.simps [simp del]

definition StartBlock :: "creating \<Rightarrow> uint64 \<Rightarrow> FilterBlockBuilder \<Rightarrow> FilterBlockBuilder option" where
  "StartBlock create block_offset b =
     (let filter_index = unat block_offset div kFilterBase in
      if length (fb_offsets b) \<le> filter_index then StartBlock_loop create filter_index b else None)"

definition AddKey :: "byte list \<Rightarrow> FilterBlockBuilder \<Rightarrow> FilterBlockBuilder" where
  "AddKey key b = b\<lparr>fb_start := fb_start b @ [length (fb_keys b)], fb_keys := fb_keys b @ key\<rparr>"

definition filter_Finish :: "creating \<Rightarrow> FilterBlockBuilder \<Rightarrow> FilterBlockBuilder option" where
  "filter_Finish create b = do {
     b \<leftarrow> (if fb_start b \<noteq> [] then GenerateFilter create b else Some b);
     (let array_offset = word_of_nat (length (fb_result b));
          result = put_array (fb_result b) (fb_offsets b);
          result = PutFixed32 result array_offset;
          result = result @ [word_of_nat kFilterBaseLg]
      in Some (b\<lparr>fb_result := result\<rparr>)) }"

text \<open>The reader: \<open>data_\<close> may be the null pointer; \<open>offset_\<close> is a position in it.\<close>

record FilterBlockReader =
  fr_data :: "byte list option"
  fr_offset :: nat
  fr_num :: nat
  fr_base_lg :: nat

definition FilterBlockReader_new :: "byte list \<Rightarrow> FilterBlockReader" where
  "FilterBlockReader_new contents =
     (let r = \<lparr>fr_data = None, fr_offset = 0, fr_num = 0, fr_base_lg = 0\<rparr>;
          n = length contents
      in if n < 5 then r
         else let r = r\<lparr>fr_base_lg := unat (scast (contents ! (n - 1)) :: uint64)\<rparr>;
                  last_word = unat (DecodeFixed32 (drop (n - 5) contents))
              in if n - 5 < last_word then r
                 else r\<lparr>fr_data := Some contents, fr_offset := last_word, fr_num := (n - 5 - last_word) div 4\<rparr>)"

definition filter_KeyMayMatch :: "matching \<Rightarrow> FilterBlockReader \<Rightarrow> uint64 \<Rightarrow> byte list \<Rightarrow> bool option" where
  "filter_KeyMayMatch may_match r block_offset key =
     (if 64 \<le> fr_base_lg r then None
      else let index = unat (drop_bit (fr_base_lg r) block_offset) in
        if index < fr_num r
        then do {
          data \<leftarrow> fr_data r;
          start \<leftarrow> fixed32_at data (fr_offset r + index * 4);
          limit \<leftarrow> fixed32_at data (fr_offset r + index * 4 + 4);
          (if start \<le> limit \<and> unat limit \<le> fr_offset r
           then may_match key (take (unat (limit - start)) (drop (unat start) data))
           else if start = limit then Some False else Some True) }
        else Some True)"

section \<open>What the builder holds\<close>

text \<open>Pending keys, and the offsets of the filters made so far.\<close>

definition starts :: "byte list list \<Rightarrow> nat list" where
  "starts ks = map (\<lambda>i. length (concat (take i ks))) [0..<length ks]"

lemma length_starts [simp]: "length (starts ks) = length ks"
  by (simp add: starts_def)

lemma starts_snoc: "starts (ks @ [k]) = starts ks @ [length (concat ks)]"
  by (auto simp: starts_def intro!: nth_equalityI)

definition offsets_of :: "byte list list \<Rightarrow> uint32 list" where
  "offsets_of fs = map word_of_nat (starts fs)"

lemma offsets_of_snoc: "offsets_of (fs @ [f]) = offsets_of fs @ [word_of_nat (length (concat fs))]"
  by (simp add: offsets_of_def starts_snoc)

lemma starts_nth: "i \<le> length ks \<Longrightarrow> (starts ks @ [length (concat ks)]) ! i = length (concat (take i ks))"
  by (auto simp: nth_append starts_def)

lemma part_of_concat:
  assumes "i < length ks"
  shows "take (length (concat (take (i + 1) ks)) - length (concat (take i ks)))
    (drop (length (concat (take i ks))) (concat ks)) = ks ! i"
proof -
  have "take (i + 1) ks = take i ks @ [ks ! i]" using assms by (metis Suc_eq_plus1 take_Suc_conv_app_nth)
  moreover have "concat ks = concat (take i ks) @ ks ! i @ concat (drop (Suc i) ks)"
    using assms by (metis append_take_drop_id concat.simps(2) concat_append Cons_nth_drop_Suc)
  ultimately show ?thesis by simp
qed

lemma flattened_keys: "map (flattened (concat ks) (starts ks @ [length (concat ks)])) [0..<length ks] = ks"
proof (rule nth_equalityI)
  fix i assume "i < length (map (flattened (concat ks) (starts ks @ [length (concat ks)])) [0..<length ks])"
  then have i: "i < length ks" by simp
  then show "map (flattened (concat ks) (starts ks @ [length (concat ks)])) [0..<length ks] ! i = ks ! i"
    using starts_nth [of i ks] starts_nth [of "i + 1" ks] part_of_concat [OF i] by (simp add: flattened_def)
qed simp

text \<open>The ghost state: the filters, the pending keys, and what has been added under which index.\<close>

definition builder_inv :: "matching \<Rightarrow> (byte list \<Rightarrow> bool) \<Rightarrow> FilterBlockBuilder \<Rightarrow> byte list list \<Rightarrow> byte list list \<Rightarrow>
    (nat \<times> byte list) list \<Rightarrow> bool" where
  "builder_inv may_match valid b fs ks added \<longleftrightarrow>
     fb_keys b = concat ks \<and> fb_start b = starts ks \<and> fb_result b = concat fs \<and> fb_offsets b = offsets_of fs
     \<and> list_all valid ks \<and> length ks \<le> length added
     \<and> list_all (\<lambda>(i, k). if i < length fs then may_match k (fs ! i) = Some True
         else i = length fs \<and> k \<in> set ks) added"

definition filter_block_bytes :: "byte list list \<Rightarrow> byte list" where
  "filter_block_bytes fs = concat fs @ array_bytes32 (offsets_of fs)
     @ le_of_nat 4 (unat (word_of_nat (length (concat fs)) :: uint32)) @ [11]"

context filter_policy
begin

lemma GenerateFilter_inv:
  assumes "builder_inv may_match valid b fs ks added" and "length added < 2 ^ 31"
  shows "\<exists>b' f. GenerateFilter create b = Some b' \<and> builder_inv may_match valid b' (fs @ [f]) [] added"
proof (cases "ks = []")
  case True
  then have "builder_inv may_match valid (b\<lparr>fb_offsets := fb_offsets b @ [word_of_nat (length (fb_result b))]\<rparr>)
      (fs @ [[]]) [] added"
    using assms(1) by (auto simp: builder_inv_def list_all_iff nth_append offsets_of_snoc split: if_splits)
  then show ?thesis using True assms(1) by (auto simp: GenerateFilter_def builder_inv_def starts_def)
next
  case False
  have b: "fb_keys b = concat ks" "fb_start b = starts ks" "fb_result b = concat fs" "fb_offsets b = offsets_of fs"
    "list_all valid ks" "length ks \<le> length added"
    "\<And>i k. (i, k) \<in> set added \<Longrightarrow> if i < length fs then may_match k (fs ! i) = Some True else i = length fs \<and> k \<in> set ks"
    using assms(1) by (auto simp: builder_inv_def list_all_iff)
  have "length ks < 2 ^ 31" using b(6) assms(2) by simp
  from create_ok [OF this b(5), of "concat fs"]
  obtain f where f: "create ks (concat fs) = Some (concat fs @ f)" "list_all (\<lambda>key. may_match key f = Some True) ks"
    by blast
  let ?b = "b\<lparr>fb_offsets := fb_offsets b @ [word_of_nat (length (fb_result b))], fb_result := concat fs @ f,
    fb_keys := [], fb_start := []\<rparr>"
  have "GenerateFilter create b = Some ?b"
    using False b(1-3) f(1) flattened_keys [of ks] by (simp add: GenerateFilter_def Let_def)
  moreover have "i < Suc (length fs) \<and> may_match k ((fs @ [f]) ! i) = Some True"
    if "(i, k) \<in> set added" for i k
    using b(7) [OF that] f(2) by (auto simp: list_all_iff nth_append split: if_splits)
  then have "builder_inv may_match valid ?b (fs @ [f]) [] added"
    using b(3,4) by (auto simp: builder_inv_def list_all_iff starts_def [of "[]"] offsets_of_snoc)
  ultimately show ?thesis by blast
qed

lemma builder_inv_length: "builder_inv may_match valid b fs ks added \<Longrightarrow> length (fb_offsets b) = length fs"
  by (simp add: builder_inv_def offsets_of_def)

lemma StartBlock_loop_inv:
  "builder_inv may_match valid b fs ks added \<Longrightarrow> length added < 2 ^ 31 \<Longrightarrow> length fs \<le> index \<Longrightarrow>
   \<exists>b' fs' ks'. StartBlock_loop create index b = Some b' \<and> builder_inv may_match valid b' fs' ks' added
     \<and> length fs' = index"
proof (induction "index - length fs" arbitrary: b fs ks)
  case 0
  then have "StartBlock_loop create index b = Some b" "length fs = index"
    using builder_inv_length [OF 0(2)] by (simp_all add: StartBlock_loop.simps [of create "length fs" b])
  with 0(2) show ?case by blast
next
  case (Suc n)
  obtain b' f where b': "GenerateFilter create b = Some b'" "builder_inv may_match valid b' (fs @ [f]) [] added"
    using GenerateFilter_inv [OF Suc.prems(1,2)] by blast
  have "n = index - length (fs @ [f])" "length (fs @ [f]) \<le> index" and less: "length fs < index"
    using Suc.hyps(2) by simp_all
  from Suc.hyps(1) [OF this(1) b'(2) Suc.prems(2) this(2)] show ?case
    using b'(1) builder_inv_length [OF Suc.prems(1)] less
    by (simp add: StartBlock_loop.simps [of create index b])
qed

lemma AddKey_inv:
  assumes "builder_inv may_match valid b fs ks added" and "valid k"
  shows "builder_inv may_match valid (AddKey k b) fs (ks @ [k]) (added @ [(length fs, k)])"
  using assms by (auto simp: builder_inv_def AddKey_def starts_snoc list_all_iff split: if_splits)

lemma AddKeys_inv:
  "builder_inv may_match valid b fs ks added \<Longrightarrow> list_all valid new \<Longrightarrow>
   builder_inv may_match valid (foldl (\<lambda>b k. AddKey k b) b new) fs (ks @ new) (added @ map (Pair (length fs)) new)"
proof (induction new arbitrary: b ks added)
  case (Cons k new)
  from Cons.IH [OF AddKey_inv [OF Cons.prems(1)]] Cons.prems(2) show ?case by simp
qed simp

lemma filter_Finish_inv:
  assumes "builder_inv may_match valid b fs ks added" and "length added < 2 ^ 31"
  shows "\<exists>b' fs'. filter_Finish create b = Some b' \<and> fb_result b' = filter_block_bytes fs'
    \<and> list_all (\<lambda>(i, k). i < length fs' \<and> may_match k (fs' ! i) = Some True) added"
proof -
  obtain b1 fs' where b1: "(if fb_start b \<noteq> [] then GenerateFilter create b else Some b) = Some b1"
    "builder_inv may_match valid b1 fs' [] added"
  proof (cases "ks = []")
    case True
    then show ?thesis using that [of b fs] assms(1) by (simp add: builder_inv_def starts_def)
  next
    case False
    then have "fb_start b \<noteq> []" using assms(1) by (auto simp: builder_inv_def starts_def)
    then show ?thesis using that GenerateFilter_inv [OF assms] by auto
  qed
  have "filter_Finish create b = Some (b1\<lparr>fb_result := filter_block_bytes fs'\<rparr>)"
    unfolding filter_Finish_def b1(1) using b1(2)
    by (simp add: builder_inv_def filter_block_bytes_def put_array_bytes PutFixed32_def kFilterBaseLg_def)
  moreover have "list_all (\<lambda>(i, k). i < length fs' \<and> may_match k (fs' ! i) = Some True) added"
    using b1(2) by (auto simp: builder_inv_def list_all_iff split: if_splits)
  ultimately show ?thesis by fastforce
qed

end

section \<open>Reading the block\<close>

lemma offsets_with_end:
  "array_bytes32 (offsets_of fs) @ le_of_nat 4 (unat (word_of_nat (length (concat fs)) :: uint32))
     = array_bytes32 (map word_of_nat (starts fs @ [length (concat fs)]))"
  by (simp add: offsets_of_def)

lemma reader_of_block:
  assumes "length (filter_block_bytes fs) < 2 ^ 32"
  shows "FilterBlockReader_new (filter_block_bytes fs) =
    \<lparr>fr_data = Some (filter_block_bytes fs), fr_offset = length (concat fs), fr_num = length fs, fr_base_lg = 11\<rparr>"
proof -
  let ?pre = "concat fs @ array_bytes32 (offsets_of fs)"
  have lo: "length (offsets_of fs) = length fs" by (simp add: offsets_of_def)
  have len: "length (filter_block_bytes fs) = length (concat fs) + 4 * length fs + 5"
    using lo by (simp add: filter_block_bytes_def del: length_concat)
  then have "drop (length (filter_block_bytes fs) - 5) (filter_block_bytes fs)
      = le_of_nat 4 (unat (word_of_nat (length (concat fs)) :: uint32)) @ [11]"
    using lo by (simp add: filter_block_bytes_def del: length_concat)
  then have "DecodeFixed32 (drop (length (filter_block_bytes fs) - 5) (filter_block_bytes fs))
      = word_of_nat (length (concat fs))" by (simp only: DecodeFixed32_le)
  moreover have "unat (word_of_nat (length (concat fs)) :: uint32) = length (concat fs)"
    using assms len by (simp only: unat_of_nat) simp
  moreover have "filter_block_bytes fs ! (length (filter_block_bytes fs) - 1) = 11"
    using lo len by (simp add: filter_block_bytes_def nth_append del: length_concat)
  ultimately show ?thesis using len
    by (simp add: FilterBlockReader_new_def Let_def del: length_concat)
qed

lemma filter_of_block:
  assumes len: "length (filter_block_bytes fs) < 2 ^ 32" and i: "unat off div 2048 < length fs"
  shows "filter_KeyMayMatch may_match (FilterBlockReader_new (filter_block_bytes fs)) off key
    = may_match key (fs ! (unat off div 2048))"
proof -
  let ?i = "unat off div 2048"
  let ?xs = "map word_of_nat (starts fs @ [length (concat fs)]) :: uint32 list"
  have b: "filter_block_bytes fs = concat fs @ array_bytes32 ?xs @ [11]"
    unfolding filter_block_bytes_def offsets_with_end [symmetric] by simp
  have idx: "unat (drop_bit 11 off) = ?i" by (simp add: unat_drop_bit)
  have le: "length (concat (take j fs)) \<le> length (concat fs)" for j
    by (metis append_take_drop_id concat_append length_append le_add1)
  have small: "length (concat fs) < 2 ^ 32" using len unfolding b by (simp del: length_concat)
  then have u: "unat (word_of_nat (length (concat (take j fs))) :: uint32) = length (concat (take j fs))" for j
    using le [of j] by (simp only: unat_of_nat) simp
  have 1: "fixed32_at (filter_block_bytes fs) (length (concat fs) + ?i * 4) = Some (word_of_nat (length (concat (take ?i fs))))"
    unfolding b using fixed32_at_array [of ?i ?xs] starts_nth [of ?i fs] i
    by (simp add: ac_simps nth_append del: length_concat)
  have 2: "fixed32_at (filter_block_bytes fs) (length (concat fs) + ?i * 4 + 4) = Some (word_of_nat (length (concat (take (?i + 1) fs))))"
  proof -
    have "?i + 1 < length ?xs" using i by simp
    then have "fixed32_at (concat fs @ array_bytes32 ?xs @ [11]) (length (concat fs) + 4 * (?i + 1)) = Some (?xs ! (?i + 1))"
      by (rule fixed32_at_array) simp
    moreover have "?xs ! (?i + 1) = word_of_nat ((starts fs @ [length (concat fs)]) ! (?i + 1))"
      using i by (intro nth_map) simp
    ultimately show ?thesis unfolding b using starts_nth [of "?i + 1" fs] i by (simp add: ac_simps del: length_concat)
  qed
  have mono: "length (concat (take ?i fs)) \<le> length (concat (take (?i + 1) fs))"
    using i by (simp add: take_Suc_conv_app_nth flip: Suc_eq_plus1 del: length_concat)
  let ?s = "word_of_nat (length (concat (take ?i fs))) :: uint32"
  let ?l = "word_of_nat (length (concat (take (?i + 1) fs))) :: uint32"
  have sl: "?s \<le> ?l" using mono by (simp only: word_le_nat_alt u)
  have "unat (?l - ?s) = length (concat (take (?i + 1) fs)) - length (concat (take ?i fs))"
    using sl by (simp only: unat_sub u)
  moreover have "take (length (concat (take (?i + 1) fs)) - length (concat (take ?i fs)))
      (drop (length (concat (take ?i fs))) (filter_block_bytes fs)) = fs ! ?i"
    unfolding b using part_of_concat [OF i] le [of ?i] le [of "?i + 1"] mono by (simp del: length_concat)
  ultimately show ?thesis
    unfolding reader_of_block [OF len] filter_KeyMayMatch_def Let_def
    using i idx 1 2 sl le [of "?i + 1"] by (simp add: u del: length_concat)
qed

section \<open>No false negatives\<close>

fun build_blocks :: "creating \<Rightarrow> (uint64 \<times> byte list list) list \<Rightarrow> FilterBlockBuilder \<Rightarrow> FilterBlockBuilder option" where
  "build_blocks create [] b = Some b"
| "build_blocks create ((off, keys) # blocks) b =
     Option.bind (StartBlock create off b) (\<lambda>b. build_blocks create blocks (foldl (\<lambda>b k. AddKey k b) b keys))"

fun tagged :: "(uint64 \<times> byte list list) list \<Rightarrow> (nat \<times> byte list) list" where
  "tagged [] = []"
| "tagged ((off, keys) # blocks) = map (Pair (unat off div 2048)) keys @ tagged blocks"

lemma kFilterBase_2048: "kFilterBase = 2048"
  by (simp add: kFilterBase_def kFilterBaseLg_def)

lemma build_blocks_inv:
  assumes pol: "filter_policy valid create may_match"
  shows "builder_inv may_match valid b fs ks added \<Longrightarrow> list_all (\<lambda>(off, keys). list_all valid keys) blocks \<Longrightarrow>
   sorted (map fst blocks) \<Longrightarrow> list_all (\<lambda>(off, keys). length fs \<le> unat off div 2048) blocks \<Longrightarrow>
   length (added @ tagged blocks) < 2 ^ 31 \<Longrightarrow>
   \<exists>b' fs' ks'. build_blocks create blocks b = Some b' \<and> builder_inv may_match valid b' fs' ks' (added @ tagged blocks)"
proof (induction blocks arbitrary: b fs ks added)
  case Nil
  then show ?case by auto
next
  case (Cons x blocks)
  obtain off keys where x: "x = (off, keys)" by (cases x)
  let ?i = "unat off div 2048"
  have small: "length added < 2 ^ 31" using Cons.prems(5) by simp
  have le: "length fs \<le> ?i" using Cons.prems(4) x by simp
  obtain b1 fs1 ks1 where b1: "StartBlock_loop create ?i b = Some b1" "builder_inv may_match valid b1 fs1 ks1 added"
    "length fs1 = ?i"
    using filter_policy.StartBlock_loop_inv [OF pol Cons.prems(1) small le] by blast
  have "StartBlock create off b = Some b1"
    using b1(1) le filter_policy.builder_inv_length [OF pol Cons.prems(1)]
    by (simp add: StartBlock_def Let_def kFilterBase_2048)
  moreover have "list_all valid keys" using Cons.prems(2) x by simp
  from filter_policy.AddKeys_inv [OF pol b1(2) this]
  have inv: "builder_inv may_match valid (foldl (\<lambda>b k. AddKey k b) b1 keys) fs1 (ks1 @ keys) (added @ map (Pair ?i) keys)"
    using b1(3) by simp
  have later: "list_all (\<lambda>(off, keys). length fs1 \<le> unat off div 2048) blocks"
    using Cons.prems(3) x b1(3) by (auto simp: list_all_iff word_le_nat_alt intro: div_le_mono)
  from Cons.IH [OF inv _ _ later] Cons.prems(2,3,5) x
  have "\<exists>b' fs' ks'. build_blocks create blocks (foldl (\<lambda>b k. AddKey k b) b1 keys) = Some b'
      \<and> builder_inv may_match valid b' fs' ks' (added @ map (Pair ?i) keys @ tagged blocks)" by simp
  ultimately show ?case using x by simp
qed

text \<open>C15: the filter block has no false negatives, over any policy that keeps its contract.  Blocks are
  started at non-decreasing offsets, keys are added to each, the builder is finished and its result
  is read back: no step fails, and unless the result has outgrown its 32-bit offsets the reader
  answers that every key may be in the block it was added to.\<close>

theorem filter_block_no_false_negatives:
  assumes "filter_policy valid create may_match" and "list_all (\<lambda>(off, keys). list_all valid keys) blocks"
    and "sorted (map fst blocks)" and "length (concat (map snd blocks)) < 2 ^ 31"
  shows "\<exists>b. Option.bind (build_blocks create blocks FilterBlockBuilder_new) (filter_Finish create) = Some b
    \<and> (2 ^ 32 \<le> length (fb_result b)
       \<or> list_all (\<lambda>(off, keys). list_all (\<lambda>k. filter_KeyMayMatch may_match (FilterBlockReader_new (fb_result b)) off k
             = Some True) keys) blocks)"
proof -
  have "length (tagged bs) = length (concat (map snd bs))" for bs
    by (induction bs rule: tagged.induct) simp_all
  then have n: "length ([] @ tagged blocks) < 2 ^ 31" using assms(4) by (simp del: length_concat)
  have "builder_inv may_match valid FilterBlockBuilder_new [] [] []"
    by (simp add: builder_inv_def FilterBlockBuilder_new_def starts_def offsets_of_def)
  from build_blocks_inv [OF assms(1) this assms(2,3) _ n]
  obtain b fs ks where b: "build_blocks create blocks FilterBlockBuilder_new = Some b"
    "builder_inv may_match valid b fs ks (tagged blocks)" by (auto simp: list_all_iff)
  from filter_policy.filter_Finish_inv [OF assms(1) b(2)] n
  obtain b' fs' where b': "filter_Finish create b = Some b'" "fb_result b' = filter_block_bytes fs'"
    "list_all (\<lambda>(i, k). i < length fs' \<and> may_match k (fs' ! i) = Some True) (tagged blocks)" by auto
  have tagged: "(unat off div 2048, k) \<in> set (tagged bs)" if "(off, keys) \<in> set bs" "k \<in> set keys" for off keys k bs
    using that by (induction bs rule: tagged.induct) auto
  have "filter_KeyMayMatch may_match (FilterBlockReader_new (fb_result b')) off k = Some True"
    if "length (fb_result b') < 2 ^ 32" "(off, keys) \<in> set blocks" "k \<in> set keys" for off keys k
    using filter_of_block [of fs' off may_match k] that b'(2,3) tagged [OF that(2,3)]
    by (auto simp: list_all_iff)
  then have "2 ^ 32 \<le> length (fb_result b') \<or> list_all (\<lambda>(off, keys). list_all
      (\<lambda>k. filter_KeyMayMatch may_match (FilterBlockReader_new (fb_result b')) off k = Some True) keys) blocks"
    by (cases "length (fb_result b') < 2 ^ 32") (auto simp: list_all_iff)
  then show ?thesis using b(1) b'(1) by simp
qed

theorem filter_block_no_false_negatives_witness:
  "\<exists>b. Option.bind (build_blocks (BloomCreateFilter bloom_10) [(0, [[1], [2]]), (5000, [[3]])] FilterBlockBuilder_new)
       (filter_Finish (BloomCreateFilter bloom_10)) = Some b
    \<and> (2 ^ 32 \<le> length (fb_result b)
       \<or> filter_KeyMayMatch BloomKeyMayMatch (FilterBlockReader_new (fb_result b)) 0 [1] = Some True
         \<and> filter_KeyMayMatch BloomKeyMayMatch (FilterBlockReader_new (fb_result b)) 0 [2] = Some True
         \<and> filter_KeyMayMatch BloomKeyMayMatch (FilterBlockReader_new (fb_result b)) 5000 [3] = Some True)"
  using filter_block_no_false_negatives [OF bloom.filter_policy_axioms, of "[(0, [[1], [2]]), (5000, [[3]])]"] by simp

end
