(* ===== verification/Ldb_Table_Builder.thy ===== *)
theory Ldb_Table_Builder
  imports Ldb_Format Ldb_Filter_Block Ldb_Dbformat
begin

text \<open>
  \<open>TableBuilder\<close> (\<open>table/table_builder.cc\<close>): entries in the order of their keys become a table file.  Data blocks
  are written when they are large enough; the index entry of a block is put off until the first key of the next
  one is known, so that the index key can be short; \<open>Finish\<close> writes the filter, the metaindex, the index and the
  footer.  The file is the pair of operations \<open>app\<close> and \<open>fl\<close>; comparators and filter policies are records of
  their virtual functions, and a comparator's identity is \<open>c_id\<close>.  A failing assertion, a call through a null
  pointer, and an operation of the file that does not return are \<open>None\<close>.
\<close>

declare One_nat_def [simp del]

section \<open>The code\<close>

record Comparator =
  c_id :: nat
  c_Compare :: comparing
  c_FindShortestSeparator :: "byte list \<Rightarrow> byte list \<Rightarrow> byte list option"
  c_FindShortSuccessor :: "byte list \<Rightarrow> byte list option"

record FilterPolicy =
  fp_Name :: "byte list"
  fp_CreateFilter :: creating
  fp_KeyMayMatch :: matching

record Options =
  op_comparator :: Comparator
  op_paranoid_checks :: bool
  op_block_size :: nat
  op_block_restart_interval :: int
  op_compression :: byte
  op_filter_policy :: "FilterPolicy option"

definition BytewiseComparator :: Comparator where
  "BytewiseComparator = \<lparr>c_id = 0, c_Compare = BytewiseCompare,
     c_FindShortestSeparator = (\<lambda>a b. Some (BytewiseFindShortestSeparator a b)),
     c_FindShortSuccessor = (\<lambda>a. Some (BytewiseFindShortSuccessor a))\<rparr>"

definition InternalKeyComparator :: "nat \<Rightarrow> Comparator \<Rightarrow> Comparator" where
  "InternalKeyComparator i user = \<lparr>c_id = i, c_Compare = InternalKeyCompare (c_Compare user),
     c_FindShortestSeparator = InternalFindShortestSeparator (c_Compare user) (\<lambda>a b. the (c_FindShortestSeparator user a b)),
     c_FindShortSuccessor = InternalFindShortSuccessor (c_Compare user) (\<lambda>a. the (c_FindShortSuccessor user a))\<rparr>"

type_synonym 'f appending = "'f \<Rightarrow> byte list \<Rightarrow> (Status \<times> 'f) option"
type_synonym 'f flushing = "'f \<Rightarrow> (Status \<times> 'f) option"

text \<open>The filter block keeps the policy it was made with.\<close>

record 'f TableBuilder =
  tb_options :: Options
  tb_file :: 'f
  tb_offset :: uint64
  tb_status :: Status
  tb_data_block :: BlockBuilder
  tb_index_block :: BlockBuilder
  tb_last_key :: "byte list"
  tb_num_entries :: int
  tb_closed :: bool
  tb_filter_block :: "(FilterPolicy \<times> FilterBlockBuilder) option"
  tb_pending_index_entry :: bool
  tb_pending_handle :: BlockHandle

definition start_filter :: "uint64 \<Rightarrow> 'f TableBuilder \<Rightarrow> 'f TableBuilder option" where
  "start_filter offset r =
     (case tb_filter_block r of
        None \<Rightarrow> Some r
      | Some (p, fb) \<Rightarrow> do { fb \<leftarrow> StartBlock (fp_CreateFilter p) offset fb; Some (r\<lparr>tb_filter_block := Some (p, fb)\<rparr>) })"

definition TableBuilder_new :: "Options \<Rightarrow> 'f \<Rightarrow> 'f TableBuilder option" where
  "TableBuilder_new options file = do {
     data_block \<leftarrow> BlockBuilder_new (op_block_restart_interval options);
     index_block \<leftarrow> BlockBuilder_new 1;
     start_filter 0 \<lparr>tb_options = options, tb_file = file, tb_offset = 0, tb_status = OK, tb_data_block = data_block,
       tb_index_block = index_block, tb_last_key = [], tb_num_entries = 0, tb_closed = False,
       tb_filter_block = map_option (\<lambda>p. (p, FilterBlockBuilder_new)) (op_filter_policy options),
       tb_pending_index_entry = False, tb_pending_handle = BlockHandle_new\<rparr> }"

text \<open>Live block builders share the options of the table builder.\<close>

definition ChangeOptions :: "Options \<Rightarrow> 'f TableBuilder \<Rightarrow> Status \<times> 'f TableBuilder" where
  "ChangeOptions options r =
     (if c_id (op_comparator options) \<noteq> c_id (op_comparator (tb_options r))
      then (InvalidArgument (str ''changing comparator while building table'') [], r)
      else (OK, r\<lparr>tb_options := options,
        tb_data_block := (tb_data_block r)\<lparr>bb_interval := op_block_restart_interval options\<rparr>\<rparr>))"

definition tb_ok :: "'f TableBuilder \<Rightarrow> bool" where
  "tb_ok r \<longleftrightarrow> ok (tb_status r)"

definition WriteRawBlock :: "'f appending \<Rightarrow> byte list \<Rightarrow> byte \<Rightarrow> 'f TableBuilder \<Rightarrow> (BlockHandle \<times> 'f TableBuilder) option" where
  "WriteRawBlock app block_contents t r =
     (let handle = \<lparr>bh_offset = tb_offset r, bh_size = word_of_nat (length block_contents)\<rparr> in do {
        (s, f) \<leftarrow> app (tb_file r) block_contents;
        (let r = r\<lparr>tb_status := s, tb_file := f\<rparr> in
         if \<not> ok s then Some (handle, r)
         else let crc = crc32c_spec (crc32c_spec 0 block_contents) [t];
                  trailer = t # EncodeFixed32 (Mask crc) in do {
           (s, f) \<leftarrow> app (tb_file r) trailer;
           (let r = r\<lparr>tb_status := s, tb_file := f\<rparr> in
            Some (handle, if ok s then r\<lparr>tb_offset := tb_offset r + (word_of_nat (length block_contents) + kBlockTrailerSize)\<rparr> else r)) }) })"

definition compress :: "byte \<Rightarrow> byte list \<Rightarrow> byte list \<times> byte" where
  "compress t raw =
     (if t = kNoCompression then (raw, t)
      else if t = kSnappyCompression
      then (case Snappy_Compress raw of
              Some compressed \<Rightarrow> if length compressed < length raw - length raw div 8 then (compressed, t) else (raw, kNoCompression)
            | None \<Rightarrow> (raw, kNoCompression))
      else ([], t))"

text \<open>The handle, the builder and the block after its reset.\<close>

definition WriteBlock :: "'f appending \<Rightarrow> BlockBuilder \<Rightarrow> 'f TableBuilder \<Rightarrow> (BlockHandle \<times> 'f TableBuilder \<times> BlockBuilder) option" where
  "WriteBlock app block r =
     (if \<not> tb_ok r then None
      else let block = BlockBuilder_Finish block;
               (contents, t) = compress (op_compression (tb_options r)) (bb_buffer block) in do {
        (handle, r) \<leftarrow> WriteRawBlock app contents t r;
        Some (handle, r, BlockBuilder_Reset block) })"

definition TableBuilder_Flush :: "'f appending \<Rightarrow> 'f flushing \<Rightarrow> 'f TableBuilder \<Rightarrow> 'f TableBuilder option" where
  "TableBuilder_Flush app fl r =
     (if tb_closed r then None
      else if \<not> tb_ok r then Some r
      else if BlockBuilder_empty (tb_data_block r) then Some r
      else if tb_pending_index_entry r then None
      else do {
        (handle, r, block) \<leftarrow> WriteBlock app (tb_data_block r) r;
        (let r = r\<lparr>tb_pending_handle := handle, tb_data_block := block\<rparr> in do {
           r \<leftarrow> (if tb_ok r
                then do { (s, f) \<leftarrow> fl (tb_file r); Some (r\<lparr>tb_pending_index_entry := True, tb_status := s, tb_file := f\<rparr>) }
                else Some r);
           start_filter (tb_offset r) r }) })"

text \<open>The index entry of the last block, under a key that separates it from what comes.\<close>

definition add_index_entry :: "byte list \<Rightarrow> 'f TableBuilder \<Rightarrow> 'f TableBuilder option" where
  "add_index_entry index_key r = do {
     handle_encoding \<leftarrow> BlockHandle_EncodeTo (tb_pending_handle r) [];
     index_block \<leftarrow> BlockBuilder_Add (c_Compare (op_comparator (tb_options r))) index_key handle_encoding (tb_index_block r);
     Some (r\<lparr>tb_last_key := index_key, tb_index_block := index_block, tb_pending_index_entry := False\<rparr>) }"

definition TableBuilder_Add :: "'f appending \<Rightarrow> 'f flushing \<Rightarrow> byte list \<Rightarrow> byte list \<Rightarrow> 'f TableBuilder \<Rightarrow> 'f TableBuilder option" where
  "TableBuilder_Add app fl key value r =
     (if tb_closed r then None
      else if \<not> tb_ok r then Some r
      else if 0 < tb_num_entries r \<and> \<not> 0 < c_Compare (op_comparator (tb_options r)) key (tb_last_key r) then None
      else do {
        r \<leftarrow> (if tb_pending_index_entry r
             then if \<not> BlockBuilder_empty (tb_data_block r) then None
               else do {
                 sep \<leftarrow> c_FindShortestSeparator (op_comparator (tb_options r)) (tb_last_key r) key;
                 add_index_entry sep r }
             else Some r);
        (let r = r\<lparr>tb_filter_block := map_option (\<lambda>(p, fb). (p, AddKey key fb)) (tb_filter_block r),
                   tb_last_key := key, tb_num_entries := tb_num_entries r + 1\<rparr> in do {
           data_block \<leftarrow> BlockBuilder_Add (c_Compare (op_comparator (tb_options r))) key value (tb_data_block r);
           (let r = r\<lparr>tb_data_block := data_block\<rparr> in
            if op_block_size (tb_options r) \<le> CurrentSizeEstimate data_block then TableBuilder_Flush app fl r else Some r) }) })"

text \<open>The four parts of \<open>Finish\<close> behind \<open>Flush\<close>.\<close>

definition write_filter :: "'f appending \<Rightarrow> 'f TableBuilder \<Rightarrow> (BlockHandle \<times> 'f TableBuilder) option" where
  "write_filter app r =
     (if \<not> tb_ok r then Some (BlockHandle_new, r)
      else case tb_filter_block r of
          None \<Rightarrow> Some (BlockHandle_new, r)
        | Some (p, fb) \<Rightarrow> do {
            fb \<leftarrow> filter_Finish (fp_CreateFilter p) fb;
            WriteRawBlock app (fb_result fb) kNoCompression (r\<lparr>tb_filter_block := Some (p, fb)\<rparr>) })"

definition write_metaindex :: "'f appending \<Rightarrow> BlockHandle \<Rightarrow> 'f TableBuilder \<Rightarrow> (BlockHandle \<times> 'f TableBuilder) option" where
  "write_metaindex app filter_block_handle r =
     (if \<not> tb_ok r then Some (BlockHandle_new, r)
      else do {
        meta \<leftarrow> BlockBuilder_new (op_block_restart_interval (tb_options r));
        meta \<leftarrow> (if tb_filter_block r \<noteq> None
           then do {
             policy \<leftarrow> op_filter_policy (tb_options r);
             handle_encoding \<leftarrow> BlockHandle_EncodeTo filter_block_handle [];
             BlockBuilder_Add (c_Compare (op_comparator (tb_options r))) (str ''filter.'' @ fp_Name policy) handle_encoding meta }
           else Some meta);
        (handle, r, _) \<leftarrow> WriteBlock app meta r;
        Some (handle, r) })"

definition write_index :: "'f appending \<Rightarrow> 'f TableBuilder \<Rightarrow> (BlockHandle \<times> 'f TableBuilder) option" where
  "write_index app r =
     (if \<not> tb_ok r then Some (BlockHandle_new, r)
      else do {
        r \<leftarrow> (if tb_pending_index_entry r
             then do {
               succ \<leftarrow> c_FindShortSuccessor (op_comparator (tb_options r)) (tb_last_key r);
               add_index_entry succ r }
             else Some r);
        (handle, r, block) \<leftarrow> WriteBlock app (tb_index_block r) r;
        Some (handle, r\<lparr>tb_index_block := block\<rparr>) })"

definition write_footer :: "'f appending \<Rightarrow> BlockHandle \<Rightarrow> BlockHandle \<Rightarrow> 'f TableBuilder \<Rightarrow> 'f TableBuilder option" where
  "write_footer app metaindex_handle index_handle r =
     (if \<not> tb_ok r then Some r
      else do {
        footer_encoding \<leftarrow> Footer_EncodeTo \<lparr>ft_metaindex = metaindex_handle, ft_index = index_handle\<rparr> [];
        (s, f) \<leftarrow> app (tb_file r) footer_encoding;
        (let r = r\<lparr>tb_status := s, tb_file := f\<rparr> in
         Some (if ok s then r\<lparr>tb_offset := tb_offset r + word_of_nat (length footer_encoding)\<rparr> else r)) })"

definition TableBuilder_Finish :: "'f appending \<Rightarrow> 'f flushing \<Rightarrow> 'f TableBuilder \<Rightarrow> (Status \<times> 'f TableBuilder) option" where
  "TableBuilder_Finish app fl r = do {
     r \<leftarrow> TableBuilder_Flush app fl r;
     (if tb_closed r then None
      else do {
        (filter_block_handle, r) \<leftarrow> write_filter app (r\<lparr>tb_closed := True\<rparr>);
        (metaindex_block_handle, r) \<leftarrow> write_metaindex app filter_block_handle r;
        (index_block_handle, r) \<leftarrow> write_index app r;
        r \<leftarrow> write_footer app metaindex_block_handle index_block_handle r;
        Some (tb_status r, r) }) }"

definition Abandon :: "'f TableBuilder \<Rightarrow> 'f TableBuilder option" where
  "Abandon r = (if tb_closed r then None else Some (r\<lparr>tb_closed := True\<rparr>))"

definition NumEntries :: "'f TableBuilder \<Rightarrow> uint64" where
  "NumEntries r = word_of_int (tb_num_entries r)"

definition FileSize :: "'f TableBuilder \<Rightarrow> uint64" where
  "FileSize r = tb_offset r"

section \<open>Contracts\<close>

text \<open>What a table asks of a comparator: an order, and separators and successors that are not longer.\<close>

locale table_comparator = key_order valid "c_Compare C" for valid and C :: Comparator +
  assumes separator_some: "valid a \<Longrightarrow> valid b \<Longrightarrow> c_Compare C a b < 0 \<Longrightarrow>
      \<exists>s. c_FindShortestSeparator C a b = Some s \<and> valid s \<and> c_Compare C a s \<le> 0 \<and> c_Compare C s b < 0 \<and> length s \<le> length a"
    and successor_some: "valid a \<Longrightarrow>
      \<exists>s. c_FindShortSuccessor C a = Some s \<and> valid s \<and> c_Compare C a s \<le> 0 \<and> length s \<le> length a"

interpretation bytewise_table: table_comparator "\<lambda>_. True" BytewiseComparator
proof (rule table_comparator.intro)
  show "key_order (\<lambda>_. True) (c_Compare BytewiseComparator)" by (simp add: BytewiseComparator_def bytewise_order)
  show "table_comparator_axioms (\<lambda>_. True) BytewiseComparator"
    using bytewise.separator_ok bytewise.successor_ok separator_length successor_length
    by unfold_locales (auto simp: BytewiseComparator_def)
qed

lemma internal_table_comparator: "table_comparator (internal_valid (\<lambda>_. True)) (InternalKeyComparator i BytewiseComparator)"
proof (rule table_comparator.intro)
  show "key_order (internal_valid (\<lambda>_. True)) (c_Compare (InternalKeyComparator i BytewiseComparator))"
    using internal_order [OF bytewise_order] by (simp add: InternalKeyComparator_def BytewiseComparator_def)
  show "table_comparator_axioms (internal_valid (\<lambda>_. True)) (InternalKeyComparator i BytewiseComparator)"
    using InternalFindShortestSeparator_ok [OF bytewise_shortener] InternalFindShortSuccessor_ok [OF bytewise_shortener]
    by unfold_locales (auto simp: InternalKeyComparator_def BytewiseComparator_def BytewiseCompare_0 separator_same)
qed

interpretation internal_table: table_comparator "internal_valid (\<lambda>_. True)" "InternalKeyComparator 1 BytewiseComparator"
  by (rule internal_table_comparator)

text \<open>What it asks of the file: a call returns, and when it reports success the file, whose size is that of a
  file of the system, has what was appended.\<close>

definition file_appends :: "'f appending \<Rightarrow> 'f flushing \<Rightarrow> ('f \<Rightarrow> byte list) \<Rightarrow> bool" where
  "file_appends app fl acc \<longleftrightarrow>
     (\<forall>f data. \<exists>s f'. app f data = Some (s, f') \<and> (ok s \<longrightarrow> acc f' = acc f @ data \<and> length (acc f') < 2 ^ 63))
     \<and> (\<forall>f. \<exists>s f'. fl f = Some (s, f') \<and> (ok s \<longrightarrow> acc f' = acc f))"

lemma file_appendsD:
  assumes "file_appends app fl acc"
  shows "\<exists>s f'. app f data = Some (s, f') \<and> (ok s \<longrightarrow> acc f' = acc f @ data \<and> length (acc f') < 2 ^ 63)"
    and "\<exists>s f'. fl f = Some (s, f') \<and> (ok s \<longrightarrow> acc f' = acc f)"
  using assms unfolding file_appends_def by blast+

section \<open>Writing blocks\<close>

lemma stored_at_append: "stored_at c h d \<Longrightarrow> stored_at (c @ x) h d"
  by (auto simp: stored_at_def)

definition offset_ok :: "('f \<Rightarrow> byte list) \<Rightarrow> 'f TableBuilder \<Rightarrow> bool" where
  "offset_ok acc r \<longleftrightarrow> unat (tb_offset r) = length (acc (tb_file r)) \<and> length (acc (tb_file r)) < 2 ^ 63"

lemma WriteRawBlock_ok:
  assumes F: "file_appends app fl acc" and o: "offset_ok acc r"
  shows "\<exists>h s f' o'. WriteRawBlock app d t r = Some (h, r\<lparr>tb_status := s, tb_file := f', tb_offset := o'\<rparr>)
    \<and> (if ok s then acc f' = acc (tb_file r) @ block_image d t \<and> offset_ok acc (r\<lparr>tb_status := s, tb_file := f', tb_offset := o'\<rparr>)
         \<and> (t = kNoCompression \<longrightarrow> stored_at (acc f') h d) \<and> bh_offset h = tb_offset r
         \<and> handle_set h
       else o' = tb_offset r)"
proof -
  let ?h = "\<lparr>bh_offset = tb_offset r, bh_size = word_of_nat (length d)\<rparr>"
  let ?trailer = "t # EncodeFixed32 (Mask (crc32c_spec (crc32c_spec 0 d) [t]))"
  obtain s1 f1 where 1: "app (tb_file r) d = Some (s1, f1)" "ok s1 \<longrightarrow> acc f1 = acc (tb_file r) @ d \<and> length (acc f1) < 2 ^ 63"
    using file_appendsD(1) [OF F, of "tb_file r" d] by blast
  show ?thesis
  proof (cases "ok s1")
    case False
    then have "WriteRawBlock app d t r = Some (?h, r\<lparr>tb_status := s1, tb_file := f1, tb_offset := tb_offset r\<rparr>)"
      using 1(1) by (simp add: WriteRawBlock_def Let_def)
    then show ?thesis using False
      by (intro exI [of _ ?h] exI [of _ s1] exI [of _ f1] exI [of _ "tb_offset r"] conjI) auto
  next
    case True
    obtain s2 f2 where 2: "app f1 ?trailer = Some (s2, f2)" "ok s2 \<longrightarrow> acc f2 = acc f1 @ ?trailer \<and> length (acc f2) < 2 ^ 63"
      using file_appendsD(1) [OF F, of f1 ?trailer] by blast
    define o' where "o' = (if ok s2 then tb_offset r + (word_of_nat (length d) + kBlockTrailerSize) else tb_offset r)"
    have w: "WriteRawBlock app d t r = Some (?h, r\<lparr>tb_status := s2, tb_file := f2, tb_offset := o'\<rparr>)"
      using 1(1) 2(1) True by (simp add: WriteRawBlock_def Let_def o'_def)
    show ?thesis
    proof (cases "ok s2")
      case False
      then show ?thesis using w
        by (intro exI [of _ ?h] exI [of _ s2] exI [of _ f2] exI [of _ o'] conjI) (auto simp: o'_def)
    next
      case ok2: True
      have "crc32c_spec (crc32c_spec 0 d) [t] = crc32c_spec 0 (d @ [t])" by (simp only: crc32c_spec_append)
      then have acc: "acc f2 = acc (tb_file r) @ block_image d t" using 1(2) True 2(2) ok2 by (simp add: block_image_def)
      have small: "length (acc (tb_file r)) + length d + 5 < 2 ^ 63" using 2(2) ok2 acc by simp
      then have ud: "unat (word_of_nat (length d) :: uint64) = length d" by (simp only: unat_of_nat) simp
      have uo: "unat (tb_offset r) = length (acc (tb_file r))" using o by (simp add: offset_ok_def)
      have "unat o' = length (acc f2)"
        using small ok2 by (simp add: o'_def acc unat_word_ariths ud uo kBlockTrailerSize_def)
      then have "offset_ok acc (r\<lparr>tb_status := s2, tb_file := f2, tb_offset := o'\<rparr>)"
        using conjunct2 [OF mp [OF 2(2) ok2]] by (simp add: offset_ok_def)
      moreover have "t = kNoCompression \<longrightarrow> stored_at (acc f2) ?h d" using small by (simp add: stored_at_def ud uo acc)
      moreover have "handle_set ?h"
      proof -
        have big: "unat (NOT 0 :: uint64) = 2 ^ 64 - 1" by (simp add: unsigned_minus_1_eq_mask mask_eq_exp_minus_1)
        have "length d \<noteq> 2 ^ 64 - 1" "length (acc (tb_file r)) \<noteq> 2 ^ 64 - 1" using small by simp_all
        then show ?thesis using ud uo big by (auto simp: handle_set_def)
      qed
      ultimately show ?thesis using w ok2 acc by (intro exI conjI) auto
    qed
  qed
qed

text \<open>A block is written uncompressed when the compression is none or snappy, which the port does not have.\<close>

lemma compress_raw: "t = kNoCompression \<or> t = kSnappyCompression \<Longrightarrow> compress t raw = (raw, kNoCompression)"
  by (auto simp: compress_def Snappy_Compress_def kSnappyCompression_def kNoCompression_def)

lemma WriteBlock_ok:
  fixes b :: BlockBuilder
  assumes F: "file_appends app fl acc" and o: "offset_ok acc r" and "tb_ok r"
    and c: "op_compression (tb_options r) = kNoCompression \<or> op_compression (tb_options r) = kSnappyCompression"
  defines "d \<equiv> bb_buffer (BlockBuilder_Finish b)"
  shows "\<exists>h s f' o'. WriteBlock app b r = Some (h, r\<lparr>tb_status := s, tb_file := f', tb_offset := o'\<rparr>, BlockBuilder_Reset b)
    \<and> (if ok s then acc f' = acc (tb_file r) @ block_image d kNoCompression
         \<and> offset_ok acc (r\<lparr>tb_status := s, tb_file := f', tb_offset := o'\<rparr>) \<and> stored_at (acc f') h d \<and> bh_offset h = tb_offset r
         \<and> handle_set h
       else o' = tb_offset r)"
proof -
  have "BlockBuilder_Reset (BlockBuilder_Finish b) = BlockBuilder_Reset b"
    by (simp add: BlockBuilder_Reset_def BlockBuilder_Finish_def)
  moreover have "compress (op_compression (tb_options r)) d = (d, kNoCompression)" by (rule compress_raw [OF c])
  ultimately have eq: "WriteBlock app b r = do {
      (h, r) \<leftarrow> WriteRawBlock app d kNoCompression r; Some (h, r, BlockBuilder_Reset b) }"
    using assms(3) by (simp add: WriteBlock_def Let_def d_def)
  obtain h s f' o' where w: "WriteRawBlock app d kNoCompression r = Some (h, r\<lparr>tb_status := s, tb_file := f', tb_offset := o'\<rparr>)"
    "if ok s then acc f' = acc (tb_file r) @ block_image d kNoCompression
         \<and> offset_ok acc (r\<lparr>tb_status := s, tb_file := f', tb_offset := o'\<rparr>)
         \<and> (kNoCompression = kNoCompression \<longrightarrow> stored_at (acc f') h d) \<and> bh_offset h = tb_offset r \<and> handle_set h
       else o' = tb_offset r"
    using WriteRawBlock_ok [OF F o, of d kNoCompression] by blast
  show ?thesis unfolding eq w(1) using w(2)
    by (intro exI [of _ h] exI [of _ s] exI [of _ f'] exI [of _ o']) (cases "ok s", auto)
qed

section \<open>The invariant\<close>

text \<open>The bytes of a block of entries; the blocks that have been written, with their handles.\<close>

definition block_data :: "byte list \<Rightarrow> entry list \<Rightarrow> bool" where
  "block_data d b \<longleftrightarrow> (\<exists>interval bb encs idx. built interval bb b encs idx \<and> d = bb_buffer (BlockBuilder_Finish bb))"

type_synonym written = "(entry list \<times> BlockHandle) list"

definition blocks_stored :: "byte list \<Rightarrow> written \<Rightarrow> bool" where
  "blocks_stored c bs \<longleftrightarrow> (\<forall>x\<in>set bs. fst x \<noteq> [] \<and> handle_set (snd x) \<and> (\<exists>d. block_data d (fst x) \<and> stored_at c (snd x) d))"

lemma blocks_stored_append: "blocks_stored c bs \<Longrightarrow> blocks_stored (c @ x) bs"
  unfolding blocks_stored_def using stored_at_append by blast

lemma blocks_stored_snoc:
  assumes "blocks_stored c bs" and "cur \<noteq> []" and "handle_set h" and "block_data d cur" and "stored_at c h d"
  shows "blocks_stored c (bs @ [(cur, h)])"
  using assms unfolding blocks_stored_def by auto

text \<open>The index entries of the first blocks: their keys are not before the block and before all that follows.\<close>

definition index_for :: "(byte list \<Rightarrow> bool) \<Rightarrow> comparing \<Rightarrow> entry list \<Rightarrow> written \<Rightarrow> entry list \<Rightarrow> bool" where
  "index_for valid cmp ies bs rest \<longleftrightarrow> length ies \<le> length bs \<and> (\<forall>k<length ies. snd (ies ! k) = handle_bytes (snd (bs ! k))
     \<and> valid (fst (ies ! k)) \<and> length (fst (ies ! k)) < 2 ^ 32
     \<and> (\<forall>e\<in>set (fst (bs ! k)). cmp (fst e) (fst (ies ! k)) \<le> 0)
     \<and> (\<forall>e\<in>set (concat (map fst (drop (Suc k) bs)) @ rest). cmp (fst (ies ! k)) (fst e) < 0))"

text \<open>The filter block: every key is in the filter of the offset at which its block begins.\<close>

definition filter_holds :: "(byte list \<Rightarrow> bool) \<Rightarrow> FilterPolicy \<Rightarrow> FilterBlockBuilder \<Rightarrow> nat \<Rightarrow> written \<Rightarrow> entry list \<Rightarrow> bool" where
  "filter_holds valid p fb off bs cur \<longleftrightarrow> filter_policy valid (fp_CreateFilter p) (fp_KeyMayMatch p)
     \<and> (\<exists>fs ks added. builder_inv (fp_KeyMayMatch p) valid fb fs ks added \<and> length fs = off div 2048
          \<and> length added = length (concat (map fst bs) @ cur)
          \<and> (\<forall>x\<in>set bs. \<forall>e\<in>set (fst x). (unat (bh_offset (snd x)) div 2048, fst e) \<in> set added)
          \<and> (\<forall>e\<in>set cur. (off div 2048, fst e) \<in> set added))"

definition filter_inv :: "(byte list \<Rightarrow> bool) \<Rightarrow> 'f TableBuilder \<Rightarrow> written \<Rightarrow> entry list \<Rightarrow> bool" where
  "filter_inv valid r bs cur \<longleftrightarrow>
     (case tb_filter_block r of
        None \<Rightarrow> op_filter_policy (tb_options r) = None
      | Some (p, fb) \<Rightarrow> op_filter_policy (tb_options r) = Some p \<and> filter_holds valid p fb (unat (tb_offset r)) bs cur)"

definition builder_ok :: "(byte list \<Rightarrow> bool) \<Rightarrow> 'f TableBuilder \<Rightarrow> bool" where
  "builder_ok valid r \<longleftrightarrow> table_comparator valid (op_comparator (tb_options r))
     \<and> (op_compression (tb_options r) = kNoCompression \<or> op_compression (tb_options r) = kSnappyCompression)
     \<and> 1 \<le> op_block_restart_interval (tb_options r)"

definition tb_inv :: "(byte list \<Rightarrow> bool) \<Rightarrow> ('f \<Rightarrow> byte list) \<Rightarrow> 'f TableBuilder \<Rightarrow> entry list \<Rightarrow> written \<Rightarrow> entry list \<Rightarrow> entry list \<Rightarrow> bool" where
  "tb_inv valid acc r es bs cur ies \<longleftrightarrow>
     builder_ok valid r \<and> tb_ok r \<and> \<not> tb_closed r \<and> offset_ok acc r \<and> es = concat (map fst bs) @ cur
     \<and> entries_ok valid es \<and> ascending (c_Compare (op_comparator (tb_options r))) es
     \<and> tb_last_key r = last_key_of es \<and> tb_num_entries r = int (length es)
     \<and> blocks_stored (acc (tb_file r)) bs
     \<and> (\<exists>interval encs idx. built interval (tb_data_block r) cur encs idx)
     \<and> (\<exists>encs idx. built 1 (tb_index_block r) ies encs idx)
     \<and> index_for valid (c_Compare (op_comparator (tb_options r))) ies bs cur
     \<and> (if tb_pending_index_entry r
        then bs \<noteq> [] \<and> cur = [] \<and> Suc (length ies) = length bs \<and> tb_pending_handle r = snd (last bs)
        else length ies = length bs \<and> (bs = [] \<or> cur \<noteq> []))
     \<and> filter_inv valid r bs cur"

lemma tb_invI:
  assumes "builder_ok valid r" and "tb_ok r" and "\<not> tb_closed r" and "offset_ok acc r" and "es = concat (map fst bs) @ cur"
    and "entries_ok valid es" and "ascending (c_Compare (op_comparator (tb_options r))) es"
    and "tb_last_key r = last_key_of es" and "tb_num_entries r = int (length es)" and "blocks_stored (acc (tb_file r)) bs"
    and "\<exists>interval encs idx. built interval (tb_data_block r) cur encs idx" and "\<exists>encs idx. built 1 (tb_index_block r) ies encs idx"
    and "index_for valid (c_Compare (op_comparator (tb_options r))) ies bs cur"
    and "tb_pending_index_entry r \<Longrightarrow> bs \<noteq> [] \<and> cur = [] \<and> Suc (length ies) = length bs \<and> tb_pending_handle r = snd (last bs)"
    and "\<not> tb_pending_index_entry r \<Longrightarrow> length ies = length bs \<and> (bs = [] \<or> cur \<noteq> [])"
    and "filter_inv valid r bs cur"
  shows "tb_inv valid acc r es bs cur ies"
  using assms unfolding tb_inv_def by simp

lemma tb_invD:
  assumes "tb_inv valid acc r es bs cur ies"
  shows "builder_ok valid r" and "tb_ok r" and "\<not> tb_closed r" and "offset_ok acc r" and "es = concat (map fst bs) @ cur"
    and "entries_ok valid es" and "ascending (c_Compare (op_comparator (tb_options r))) es"
    and "tb_last_key r = last_key_of es" and "tb_num_entries r = int (length es)" and "blocks_stored (acc (tb_file r)) bs"
    and "\<exists>interval encs idx. built interval (tb_data_block r) cur encs idx" and "\<exists>encs idx. built 1 (tb_index_block r) ies encs idx"
    and "index_for valid (c_Compare (op_comparator (tb_options r))) ies bs cur" and "filter_inv valid r bs cur"
  using assms unfolding tb_inv_def by - (elim conjE, assumption)+

lemma tb_inv_pending:
  assumes "tb_inv valid acc r es bs cur ies"
  shows "tb_pending_index_entry r \<Longrightarrow> bs \<noteq> [] \<and> cur = [] \<and> Suc (length ies) = length bs \<and> tb_pending_handle r = snd (last bs)"
    and "\<not> tb_pending_index_entry r \<Longrightarrow> length ies = length bs \<and> (bs = [] \<or> cur \<noteq> [])"
  using assms unfolding tb_inv_def by presburger+

lemma filter_holdsI:
  assumes "filter_policy valid (fp_CreateFilter p) (fp_KeyMayMatch p)" and "builder_inv (fp_KeyMayMatch p) valid fb fs ks added"
    and "length fs = off div 2048" and "length added = length (concat (map fst bs) @ cur)"
    and "\<And>x e. x \<in> set bs \<Longrightarrow> e \<in> set (fst x) \<Longrightarrow> (unat (bh_offset (snd x)) div 2048, fst e) \<in> set added"
    and "\<And>e. e \<in> set cur \<Longrightarrow> (off div 2048, fst e) \<in> set added"
  shows "filter_holds valid p fb off bs cur"
  unfolding filter_holds_def using assms by blast

lemma filter_holdsE:
  assumes "filter_holds valid p fb off bs cur"
  obtains fs ks added where "filter_policy valid (fp_CreateFilter p) (fp_KeyMayMatch p)" "builder_inv (fp_KeyMayMatch p) valid fb fs ks added"
    "length fs = off div 2048" "length added = length (concat (map fst bs) @ cur)"
    "\<And>x e. x \<in> set bs \<Longrightarrow> e \<in> set (fst x) \<Longrightarrow> (unat (bh_offset (snd x)) div 2048, fst e) \<in> set added"
    "\<And>e. e \<in> set cur \<Longrightarrow> (off div 2048, fst e) \<in> set added"
  using assms unfolding filter_holds_def by blast

text \<open>The keys of the block that is written are in the filter of its offset; the next filters; the next key.\<close>

lemma filter_holds_written:
  assumes "filter_holds valid p fb off bs cur" and "unat (bh_offset h) = off"
  shows "filter_holds valid p fb off (bs @ [(cur, h)]) []"
proof -
  from assms(1) obtain fs ks added where b: "filter_policy valid (fp_CreateFilter p) (fp_KeyMayMatch p)"
    "builder_inv (fp_KeyMayMatch p) valid fb fs ks added"
    "length fs = off div 2048" "length added = length (concat (map fst bs) @ cur)"
    "\<And>x e. x \<in> set bs \<Longrightarrow> e \<in> set (fst x) \<Longrightarrow> (unat (bh_offset (snd x)) div 2048, fst e) \<in> set added"
    "\<And>e. e \<in> set cur \<Longrightarrow> (off div 2048, fst e) \<in> set added" by (rule filter_holdsE) blast
  show ?thesis
  proof (rule filter_holdsI [OF b(1-3)])
    fix x e assume "x \<in> set (bs @ [(cur, h)])" "e \<in> set (fst x)"
    then show "(unat (bh_offset (snd x)) div 2048, fst e) \<in> set added" using b(5) [of x e] b(6) [of e] assms(2) by auto
  qed (use b(4) in simp_all)
qed

lemma filter_holds_start:
  assumes "filter_holds valid p fb off bs []" and "off \<le> unat off'" and "length (concat (map fst bs)) < 2 ^ 31"
  shows "\<exists>fb'. StartBlock (fp_CreateFilter p) off' fb = Some fb' \<and> filter_holds valid p fb' (unat off') bs []"
proof -
  from assms(1) obtain fs ks added where b: "filter_policy valid (fp_CreateFilter p) (fp_KeyMayMatch p)"
    "builder_inv (fp_KeyMayMatch p) valid fb fs ks added"
    "length fs = off div 2048" "length added = length (concat (map fst bs) @ [])"
    "\<And>x e. x \<in> set bs \<Longrightarrow> e \<in> set (fst x) \<Longrightarrow> (unat (bh_offset (snd x)) div 2048, fst e) \<in> set added" by (rule filter_holdsE) blast
  have small: "length added < 2 ^ 31" and le: "length fs \<le> unat off' div 2048" using b(3,4) assms(2,3) by (simp_all add: div_le_mono)
  obtain fb' fs' ks' where s: "StartBlock_loop (fp_CreateFilter p) (unat off' div 2048) fb = Some fb'"
    "builder_inv (fp_KeyMayMatch p) valid fb' fs' ks' added" "length fs' = unat off' div 2048"
    using filter_policy.StartBlock_loop_inv [OF b(1,2) small le] by blast
  have "StartBlock (fp_CreateFilter p) off' fb = Some fb'"
    using s(1) le filter_policy.builder_inv_length [OF b(1,2)] by (simp add: StartBlock_def Let_def kFilterBase_2048)
  moreover have "filter_holds valid p fb' (unat off') bs []"
    by (rule filter_holdsI [OF b(1) s(2,3)]) (use b(4,5) in simp_all)
  ultimately show ?thesis by blast
qed

lemma filter_holds_add:
  assumes "filter_holds valid p fb off bs cur" and k: "valid k"
  shows "filter_holds valid p (AddKey k fb) off bs (cur @ [(k, v)])"
proof -
  from assms(1) obtain fs ks added where b: "filter_policy valid (fp_CreateFilter p) (fp_KeyMayMatch p)"
    "builder_inv (fp_KeyMayMatch p) valid fb fs ks added"
    "length fs = off div 2048" "length added = length (concat (map fst bs) @ cur)"
    "\<And>x e. x \<in> set bs \<Longrightarrow> e \<in> set (fst x) \<Longrightarrow> (unat (bh_offset (snd x)) div 2048, fst e) \<in> set added"
    "\<And>e. e \<in> set cur \<Longrightarrow> (off div 2048, fst e) \<in> set added" by (rule filter_holdsE) blast
  show ?thesis
  proof (rule filter_holdsI [OF b(1) filter_policy.AddKey_inv [OF b(1,2) k] b(3)])
    show "(unat (bh_offset (snd x)) div 2048, fst e) \<in> set (added @ [(length fs, k)])" if "x \<in> set bs" "e \<in> set (fst x)" for x e
      using b(5) [OF that] by simp
    show "(off div 2048, fst e) \<in> set (added @ [(length fs, k)])" if "e \<in> set (cur @ [(k, v)])" for e
      using b(6) [of e] b(3) that by auto
  qed (use b(4) in simp)
qed

lemma start_filter_ok:
  assumes f: "filter_inv valid (r\<lparr>tb_offset := o0\<rparr>) bs []" and o: "unat o0 \<le> unat off" and n: "length (concat (map fst bs)) < 2 ^ 31"
  shows "\<exists>x. start_filter off r = Some (r\<lparr>tb_filter_block := x\<rparr>) \<and> filter_inv valid (r\<lparr>tb_filter_block := x, tb_offset := off\<rparr>) bs []"
proof (cases "tb_filter_block r")
  case None
  then show ?thesis using f by (intro exI [of _ None]) (simp add: start_filter_def filter_inv_def)
next
  case (Some x)
  obtain p fb where x: "x = (p, fb)" by (cases x)
  then have "filter_holds valid p fb (unat o0) bs []" using f Some by (simp add: filter_inv_def)
  from filter_holds_start [OF this o n] obtain fb' where
    "StartBlock (fp_CreateFilter p) off fb = Some fb'" "filter_holds valid p fb' (unat off) bs []" by blast
  then show ?thesis using f Some x
    by (intro exI [of _ "Some (p, fb')"]) (auto simp: start_filter_def filter_inv_def)
qed

lemma filter_inv_same:
  assumes "filter_inv valid r bs cur" and "tb_filter_block x = tb_filter_block r" "tb_options x = tb_options r" "tb_offset x = tb_offset r"
  shows "filter_inv valid x bs cur"
  using assms by (auto simp: filter_inv_def split: option.splits)

lemma filter_written:
  assumes f: "filter_inv valid r bs cur" and same: "tb_filter_block x = tb_filter_block r" "tb_options x = tb_options r"
    "tb_offset x = tb_offset r" "bh_offset h = tb_offset r"
  shows "filter_inv valid x (bs @ [(cur, h)]) []"
  using f same filter_holds_written by (auto simp: filter_inv_def split: option.splits)

lemma AddKey_filter:
  assumes f: "filter_inv valid r bs cur" and k: "valid k"
  shows "filter_inv valid (r\<lparr>tb_filter_block := map_option (\<lambda>(p, fb). (p, AddKey k fb)) (tb_filter_block r)\<rparr>) bs (cur @ [(k, v)])"
  using f filter_holds_add [where valid = valid and k = k and v = v, OF _ k] by (auto simp: filter_inv_def split: option.splits)

lemma BlockBuilder_Reset_built: "built interval b es encs idx \<Longrightarrow> built interval (BlockBuilder_Reset b) [] [] [0]"
  by (simp add: built_def BlockBuilder_Reset_def last_key_of_def)

lemma BlockBuilder_empty_built: "built interval b es encs idx \<Longrightarrow> BlockBuilder_empty b \<longleftrightarrow> es = []"
proof -
  assume b: "built interval b es encs idx"
  show ?thesis
  proof (cases es)
    case Nil
    then show ?thesis using b by (auto simp: built_def BlockBuilder_empty_def)
  next
    case (Cons e es')
    then obtain s where "encs ! 0 = entry_enc s (es ! 0)" "encs \<noteq> []" using b by (fastforce simp: built_def)
    then have "concat encs \<noteq> []" using entry_enc_length [of s "es ! 0"] by (cases encs) auto
    then show ?thesis using b Cons by (simp add: built_def BlockBuilder_empty_def)
  qed
qed

lemma Flush_inv:
  assumes F: "file_appends app fl acc" and inv: "tb_inv valid acc r es bs cur ies" and n: "length es < 2 ^ 31"
  shows "\<exists>r'. TableBuilder_Flush app fl r = Some r' \<and> \<not> tb_closed r' \<and> tb_options r' = tb_options r
    \<and> (tb_ok r' \<longrightarrow> (\<exists>bs'. tb_inv valid acc r' es bs' [] ies))"
proof (cases "cur = []")
  case True
  then have "BlockBuilder_empty (tb_data_block r)" using inv BlockBuilder_empty_built by (auto simp: tb_inv_def)
  then show ?thesis using inv True by (auto simp: TableBuilder_Flush_def tb_inv_def)
next
  case False
  obtain interval encs idx where built: "built interval (tb_data_block r) cur encs idx" using inv by (auto simp: tb_inv_def)
  then have ne: "\<not> BlockBuilder_empty (tb_data_block r)" using False BlockBuilder_empty_built by blast
  have I: "builder_ok valid r" "tb_ok r" "\<not> tb_closed r" "offset_ok acc r" "es = concat (map fst bs) @ cur"
    "blocks_stored (acc (tb_file r)) bs" "\<not> tb_pending_index_entry r" "length ies = length bs" "filter_inv valid r bs cur"
    using inv False by (auto simp: tb_inv_def split: if_splits)
  define d where "d = bb_buffer (BlockBuilder_Finish (tb_data_block r))"
  obtain h s f1 o1 where w: "WriteBlock app (tb_data_block r) r = Some (h, r\<lparr>tb_status := s, tb_file := f1, tb_offset := o1\<rparr>, BlockBuilder_Reset (tb_data_block r))"
    "if ok s then acc f1 = acc (tb_file r) @ block_image d kNoCompression
         \<and> offset_ok acc (r\<lparr>tb_status := s, tb_file := f1, tb_offset := o1\<rparr>) \<and> stored_at (acc f1) h d \<and> bh_offset h = tb_offset r \<and> handle_set h
       else o1 = tb_offset r"
    using WriteBlock_ok [OF F I(4,2), of "tb_data_block r"] I(1) unfolding builder_ok_def d_def by blast
  let ?bs = "bs @ [(cur, h)]"
  let ?r = "r\<lparr>tb_status := s, tb_file := f1, tb_offset := o1, tb_pending_handle := h, tb_data_block := BlockBuilder_Reset (tb_data_block r)\<rparr>"
  show ?thesis
  proof (cases "ok s")
    case bad: False
    let ?bad = "bs @ [(cur, \<lparr>bh_offset = tb_offset r, bh_size = 0\<rparr>)]"
    have bad_filter: "filter_inv valid (?r\<lparr>tb_offset := tb_offset r\<rparr>) ?bad []"
      by (rule filter_written [OF I(9)]) simp_all
    have "length (concat (map fst ?bad)) < 2 ^ 31" using n I(5) by simp
    from start_filter_ok [OF bad_filter order_refl this]
    obtain x where x: "start_filter (tb_offset r) ?r = Some (?r\<lparr>tb_filter_block := x\<rparr>)" by blast
    have "o1 = tb_offset r" using w(2) bad by simp
    with x have "start_filter (tb_offset ?r) ?r = Some (?r\<lparr>tb_filter_block := x\<rparr>)" by simp
    then have "TableBuilder_Flush app fl r = Some (?r\<lparr>tb_filter_block := x\<rparr>)"
      using ne I(2,3,7) w(1) bad by (simp add: TableBuilder_Flush_def Let_def tb_ok_def)
    then show ?thesis using I(3) bad by (simp add: tb_ok_def)
  next
    case True
    obtain s2 f2 where fl: "fl f1 = Some (s2, f2)" "ok s2 \<longrightarrow> acc f2 = acc f1" using file_appendsD(2) [OF F] by blast
    let ?r2 = "?r\<lparr>tb_pending_index_entry := True, tb_status := s2, tb_file := f2\<rparr>"
    have wo: "acc f1 = acc (tb_file r) @ block_image d kNoCompression"
         "offset_ok acc (r\<lparr>tb_status := s, tb_file := f1, tb_offset := o1\<rparr>)" "stored_at (acc f1) h d" "bh_offset h = tb_offset r" "handle_set h"
      using w(2) unfolding if_P [OF True] by blast+
    have "unat (tb_offset r) \<le> unat o1" using wo(1,2) I(4) by (simp add: offset_ok_def)
    moreover have "filter_inv valid (?r2\<lparr>tb_offset := tb_offset r\<rparr>) ?bs []" by (rule filter_written [OF I(9)]) (simp_all add: wo)
    ultimately obtain x where x: "start_filter o1 ?r2 = Some (?r2\<lparr>tb_filter_block := x\<rparr>)"
      "filter_inv valid (?r2\<lparr>tb_filter_block := x, tb_offset := o1\<rparr>) ?bs []"
      using start_filter_ok [of valid "tb_offset r" ?r2 ?bs o1] n I(5) by auto
    then have fl_eq: "TableBuilder_Flush app fl r = Some (?r2\<lparr>tb_filter_block := x\<rparr>)"
      using ne I(2,3,7) w(1) True fl(1) by (simp add: TableBuilder_Flush_def Let_def tb_ok_def)
    have "tb_inv valid acc (?r2\<lparr>tb_filter_block := x\<rparr>) es ?bs [] ies" if "ok s2"
    proof -
      have "block_data d cur" unfolding block_data_def d_def using built by blast
      then have "blocks_stored (acc f1) ?bs" using blocks_stored_snoc [OF blocks_stored_append [OF I(6)] False wo(5)] wo(1,3) by metis
      moreover have "index_for valid (c_Compare (op_comparator (tb_options r))) ies ?bs []"
        using inv I(8) by (auto simp: tb_inv_def index_for_def nth_append)
      moreover have "\<exists>interval encs idx. built interval (BlockBuilder_Reset (tb_data_block r)) [] encs idx"
        using BlockBuilder_Reset_built [OF built] by blast
      moreover have "filter_inv valid (?r2\<lparr>tb_filter_block := x\<rparr>) ?bs []" by (rule filter_inv_same [OF x(2)]) simp_all
      moreover have "offset_ok acc (?r2\<lparr>tb_filter_block := x\<rparr>)" using wo(2) that fl(2) by (simp add: offset_ok_def)
      moreover have "builder_ok valid (?r2\<lparr>tb_filter_block := x\<rparr>)" using I(1) by (simp add: builder_ok_def)
      moreover have "acc f2 = acc f1" using fl(2) that by simp
      ultimately show ?thesis
        by (intro tb_invI) (use tb_invD [OF inv] that I(3,5,8) in \<open>simp_all add: tb_ok_def\<close>)
    qed
    then show ?thesis using fl_eq I(3) by (auto simp: tb_ok_def)
  qed
qed

text \<open>The pending index entry: its key is between the last block and what comes.\<close>

lemma add_index_entry_ok:
  assumes inv: "tb_inv valid acc r es bs cur ies" and pend: "tb_pending_index_entry r"
    and sep: "valid sep" "length sep < 2 ^ 32" "c_Compare (op_comparator (tb_options r)) (tb_last_key r) sep \<le> 0"
  defines "ies' \<equiv> ies @ [(sep, handle_bytes (snd (last bs)))]"
  shows "\<exists>ib encs idx. add_index_entry sep r = Some (r\<lparr>tb_last_key := sep, tb_index_block := ib, tb_pending_index_entry := False\<rparr>)
     \<and> built 1 ib ies' encs idx"
    and "length ies' = length bs" and "es \<noteq> []"
    and "(\<And>e. e \<in> set rest \<Longrightarrow> valid (fst e) \<and> c_Compare (op_comparator (tb_options r)) sep (fst e) < 0) \<Longrightarrow>
      index_for valid (c_Compare (op_comparator (tb_options r))) ies' bs rest"
proof -
  let ?cmp = "c_Compare (op_comparator (tb_options r))"
  have "table_comparator valid (op_comparator (tb_options r))" using tb_invD(1) [OF inv] by (simp add: builder_ok_def)
  then have order: "key_order valid ?cmp" by (rule table_comparator.axioms)
  note less_trans = key_order.cmp_less_trans [OF order] and le_trans = key_order.cmp_trans [OF order]
    and flip = key_order.cmp_flip [OF order]
  from tb_inv_pending(1) [OF inv pend] have P: "bs \<noteq> []" "cur = []" "Suc (length ies) = length bs" "tb_pending_handle r = snd (last bs)"
    by blast+
  have last_in: "last bs \<in> set bs" using P(1) by simp
  have stored: "fst (last bs) \<noteq> []" "handle_set (snd (last bs))"
    using tb_invD(10) [OF inv] last_in by (auto simp: blocks_stored_def)
  have es: "es = concat (map fst (butlast bs)) @ fst (last bs)"
  proof -
    have "concat (map fst (butlast bs @ [last bs])) = concat (map fst (butlast bs)) @ fst (last bs)"
      by (simp del: append_butlast_last_id)
    then have "concat (map fst bs) = concat (map fst (butlast bs)) @ fst (last bs)" using P(1) by simp
    then show ?thesis using tb_invD(5) [OF inv] P(2) by simp
  qed
  then show ne: "es \<noteq> []" using stored(1) by simp
  have valid_es: "valid (fst e)" if "e \<in> set es" for e using entries_okD [OF tb_invD(6) [OF inv] that] by blast
  have lk: "tb_last_key r = fst (last es)" "last es \<in> set es" using tb_invD(8) [OF inv] ne by (simp_all add: last_key_of_def)
  have below: "?cmp (fst e) sep \<le> 0" if e: "e \<in> set es" for e
  proof -
    have "?cmp (fst e) (fst (last es)) \<le> 0"
    proof (cases "e = last es")
      case True
      then show ?thesis using key_order.cmp_refl [OF order valid_es [OF e]] by simp
    next
      case False
      obtain j where j: "j < length es" "es ! j = e" using e by (auto simp: in_set_conv_nth)
      then have "j < length es - 1" using False ne by (metis One_nat_def Suc_pred diff_Suc_1 last_conv_nth length_greater_0_conv less_SucE)
      then have "?cmp (fst (es ! j)) (fst (es ! (length es - 1))) < 0"
        using tb_invD(7) [OF inv] j(1) by (simp add: ascending_def sorted_wrt_iff_nth_less)
      then show ?thesis using j(2) ne by (simp add: last_conv_nth)
    qed
    then show ?thesis using le_trans [OF valid_es [OF e] valid_es [OF lk(2)] sep(1)] sep(3) lk(1) by simp
  qed
  have index: "index_for valid ?cmp ies bs []" using tb_invD(13) [OF inv] P(2) by simp
  have drop_last: "last bs \<in> set (drop (Suc k) bs)" if "k < length ies" for k
  proof -
    have n: "Suc k < length bs" using that P(3) by simp
    then have "last (drop (Suc k) bs) = last bs" "drop (Suc k) bs \<noteq> []" by simp_all
    then show ?thesis by (metis last_in_set)
  qed
  have ies_sep: "?cmp (fst (ies ! k)) sep < 0" if k: "k < length ies" for k
  proof -
    have kin: "hd (fst (last bs)) \<in> set (concat (map fst (drop (Suc k) bs)))" using drop_last [OF k] stored(1) by force
    then have 1: "?cmp (fst (ies ! k)) (fst (hd (fst (last bs)))) < 0" "valid (fst (ies ! k))"
      using index k by (auto simp: index_for_def)
    have "hd (fst (last bs)) \<in> set es" unfolding es using stored(1) by simp
    from less_trans [OF 1(2) valid_es [OF this] sep(1) 1(1) below [OF this]] show ?thesis .
  qed
  obtain encs idx where b: "built 1 (tb_index_block r) ies encs idx" using tb_invD(12) [OF inv] by blast
  have asc: "0 < ?cmp sep (last_key_of ies)" if "ies \<noteq> []"
  proof -
    have l: "length ies - 1 < length ies" using that by (cases ies) auto
    then have "?cmp (fst (ies ! (length ies - 1))) sep < 0" "valid (fst (ies ! (length ies - 1)))"
      using ies_sep index by (auto simp: index_for_def)
    then show ?thesis using flip [of "fst (ies ! (length ies - 1))" sep] sep(1) that by (simp add: last_key_of_def last_conv_nth)
  qed
  have "length (handle_bytes (snd (last bs))) < 2 ^ 32" using handle_bytes_length [of "snd (last bs)"] by simp
  from BlockBuilder_Add_built [where cmp = ?cmp and k = sep, OF b sep(2) this asc]
  obtain ib e idx' where "BlockBuilder_Add ?cmp sep (handle_bytes (snd (last bs))) (tb_index_block r) = Some ib"
    "built 1 ib ies' (encs @ [e]) idx'" unfolding ies'_def by blast
  then show "\<exists>ib encs idx. add_index_entry sep r = Some (r\<lparr>tb_last_key := sep, tb_index_block := ib, tb_pending_index_entry := False\<rparr>)
     \<and> built 1 ib ies' encs idx"
    using BlockHandle_EncodeTo_bytes [OF stored(2)] P(4) by (auto simp: add_index_entry_def)
  show "length ies' = length bs" using P(3) by (simp add: ies'_def)
  show "index_for valid ?cmp ies' bs rest" if rest: "\<And>e. e \<in> set rest \<Longrightarrow> valid (fst e) \<and> ?cmp sep (fst e) < 0"
  proof -
    have "snd (ies' ! k) = handle_bytes (snd (bs ! k)) \<and> valid (fst (ies' ! k)) \<and> length (fst (ies' ! k)) < 2 ^ 32
      \<and> (\<forall>e\<in>set (fst (bs ! k)). ?cmp (fst e) (fst (ies' ! k)) \<le> 0)
      \<and> (\<forall>e\<in>set (concat (map fst (drop (Suc k) bs)) @ rest). ?cmp (fst (ies' ! k)) (fst e) < 0)" if k: "k < length ies'" for k
    proof (cases "k < length ies")
      case True
      have "?cmp (fst (ies ! k)) (fst e) < 0" if "e \<in> set rest" for e
        using less_trans [of "fst (ies ! k)" sep "fst e"] index True ies_sep [OF True] rest [OF that] sep(1) by (auto simp: index_for_def)
      then show ?thesis using index True by (simp add: index_for_def ies'_def nth_append ball_Un)
    next
      case False
      then have kl: "k = length ies" using k by (simp add: ies'_def)
      then have "bs ! k = last bs" "drop (Suc k) bs = []" "ies' ! k = (sep, handle_bytes (snd (last bs)))"
        using P(1,3) by (simp_all add: last_conv_nth ies'_def) (metis diff_Suc_1)
      moreover have "?cmp (fst e) sep \<le> 0" if "e \<in> set (fst (last bs))" for e by (rule below) (use that in \<open>simp add: es\<close>)
      ultimately show ?thesis using sep rest by auto
    qed
    then show ?thesis using P(3) by (simp add: index_for_def ies'_def)
  qed
qed

lemma ascending_snoc:
  "ascending cmp (es @ [e]) \<longleftrightarrow> ascending cmp es \<and> (\<forall>x\<in>set es. cmp (fst x) (fst e) < 0)"
  by (simp add: ascending_def sorted_wrt_append)

text \<open>The first half of \<open>Add\<close>: what is pending goes into the index.\<close>

lemma Add_index:
  assumes inv: "tb_inv valid acc r es bs cur ies" and k: "valid k" and asc: "ascending (c_Compare (op_comparator (tb_options r))) (es @ [(k, v)])"
  shows "\<exists>lk ib ies' encs idx. (if tb_pending_index_entry r
      then if \<not> BlockBuilder_empty (tb_data_block r) then None
        else do { sep \<leftarrow> c_FindShortestSeparator (op_comparator (tb_options r)) (tb_last_key r) k; add_index_entry sep r }
      else Some r) = Some (r\<lparr>tb_last_key := lk, tb_index_block := ib, tb_pending_index_entry := False\<rparr>)
    \<and> built 1 ib ies' encs idx \<and> length ies' = length bs
    \<and> index_for valid (c_Compare (op_comparator (tb_options r))) ies' bs (cur @ [(k, v)])"
proof -
  let ?C = "op_comparator (tb_options r)"
  have C: "table_comparator valid ?C" using tb_invD(1) [OF inv] by (simp add: builder_ok_def)
  note order = table_comparator.axioms(1) [OF C]
  have before: "valid (fst e) \<and> c_Compare ?C (fst e) k < 0" if "e \<in> set es" for e
    using asc that entries_okD [OF tb_invD(6) [OF inv] that] by (auto simp: ascending_snoc)
  show ?thesis
  proof (cases "tb_pending_index_entry r")
    case True
    have P: "bs \<noteq> []" "cur = []" using tb_inv_pending(1) [OF inv True] by blast+
    have "es \<noteq> []" using tb_invD(5,10) [OF inv] P by (cases bs) (auto simp: blocks_stored_def)
    then have lk: "tb_last_key r = fst (last es)" "last es \<in> set es" using tb_invD(8) [OF inv] by (simp_all add: last_key_of_def)
    then obtain sep where sep: "c_FindShortestSeparator ?C (tb_last_key r) k = Some sep" "valid sep" "c_Compare ?C (tb_last_key r) sep \<le> 0"
      "c_Compare ?C sep k < 0" "length sep \<le> length (tb_last_key r)"
      using table_comparator.separator_some [OF C, of "fst (last es)" k] before [OF lk(2)] k by auto
    have "length sep < 2 ^ 32" using sep(5) lk entries_okD [OF tb_invD(6) [OF inv] lk(2)] by simp
    note ai = add_index_entry_ok [OF inv True sep(2) this sep(3)]
    obtain ib encs idx where ib: "add_index_entry sep r = Some (r\<lparr>tb_last_key := sep, tb_index_block := ib, tb_pending_index_entry := False\<rparr>)"
      "built 1 ib (ies @ [(sep, handle_bytes (snd (last bs)))]) encs idx" using ai(1) by blast
    have "index_for valid (c_Compare ?C) (ies @ [(sep, handle_bytes (snd (last bs)))]) bs (cur @ [(k, v)])"
      by (rule ai(4)) (use k sep(4) P(2) in simp)
    moreover have "BlockBuilder_empty (tb_data_block r)" using tb_invD(11) [OF inv] P(2) BlockBuilder_empty_built by blast
    ultimately show ?thesis using True ib ai(2) sep(1)
      by (intro exI [of _ sep] exI [of _ ib] exI [of _ "ies @ [(sep, handle_bytes (snd (last bs)))]"] exI [of _ encs] exI [of _ idx]) simp
  next
    case False
    note P = tb_inv_pending(2) [OF inv False]
    have "c_Compare ?C (fst (ies ! j)) k < 0" if j: "j < length ies" for j
    proof -
      have "cur \<noteq> []" using P j by auto
      then have e: "last cur \<in> set cur" "last cur \<in> set es" using tb_invD(5) [OF inv] by auto
      then have "valid (fst (ies ! j))" "c_Compare ?C (fst (ies ! j)) (fst (last cur)) < 0"
        using tb_invD(13) [OF inv] j by (auto simp: index_for_def)
      then show ?thesis using key_order.cmp_less_trans [OF order, of "fst (ies ! j)" "fst (last cur)" k] before [OF e(2)] k by simp
    qed
    then have "index_for valid (c_Compare ?C) ies bs (cur @ [(k, v)])"
      using tb_invD(13) [OF inv] by (auto simp: index_for_def)
    moreover have "r\<lparr>tb_last_key := tb_last_key r, tb_index_block := tb_index_block r, tb_pending_index_entry := False\<rparr> = r" using False by simp
    moreover obtain encs idx where "built 1 (tb_index_block r) ies encs idx" using tb_invD(12) [OF inv] by blast
    ultimately show ?thesis using False P
      by (intro exI [of _ "tb_last_key r"] exI [of _ "tb_index_block r"] exI [of _ ies] exI [of _ encs] exI [of _ idx]) simp
  qed
qed

lemma Add_inv:
  assumes F: "file_appends app fl acc" and inv: "tb_inv valid acc r es bs cur ies" and n: "Suc (length es) < 2 ^ 31"
    and ok: "entries_ok valid (es @ [(k, v)])" and asc: "ascending (c_Compare (op_comparator (tb_options r))) (es @ [(k, v)])"
  shows "\<exists>r'. TableBuilder_Add app fl k v r = Some r' \<and> \<not> tb_closed r' \<and> tb_options r' = tb_options r
    \<and> (tb_ok r' \<longrightarrow> (\<exists>bs' cur' ies'. tb_inv valid acc r' (es @ [(k, v)]) bs' cur' ies'))"
proof -
  let ?C = "op_comparator (tb_options r)"
  note I = tb_invD [OF inv]
  have C: "table_comparator valid ?C" using I(1) by (simp add: builder_ok_def)
  note order = table_comparator.axioms(1) [OF C]
  have kv: "valid k" "length k < 2 ^ 32" "length v < 2 ^ 32" using entries_okD [OF ok, of "(k, v)"] by simp_all
  have after: "0 < c_Compare ?C k (fst e)" if "e \<in> set es" for e
    using asc that key_order.cmp_flip [OF order, of "fst e" k] entries_okD [OF I(6) that] kv(1) by (auto simp: ascending_snoc)
  have ordered: "\<not> (0 < tb_num_entries r \<and> \<not> 0 < c_Compare ?C k (tb_last_key r))"
    using I(8,9) after [of "last es"] by (auto simp: last_key_of_def)
  obtain lk ib ies' encs idx where ai: "(if tb_pending_index_entry r
      then if \<not> BlockBuilder_empty (tb_data_block r) then None
        else do { sep \<leftarrow> c_FindShortestSeparator ?C (tb_last_key r) k; add_index_entry sep r }
      else Some r) = Some (r\<lparr>tb_last_key := lk, tb_index_block := ib, tb_pending_index_entry := False\<rparr>)"
    "built 1 ib ies' encs idx" "length ies' = length bs" "index_for valid (c_Compare ?C) ies' bs (cur @ [(k, v)])"
    using Add_index [OF inv kv(1) asc] by blast
  obtain interval dencs didx where d: "built interval (tb_data_block r) cur dencs didx" using I(11) by blast
  have "0 < c_Compare ?C k (last_key_of cur)" if "cur \<noteq> []" using after [of "last cur"] I(5) that by (simp add: last_key_of_def)
  from BlockBuilder_Add_built [where cmp = "c_Compare ?C" and k = k, OF d kv(2,3) this]
  obtain db e didx' where db: "BlockBuilder_Add (c_Compare ?C) k v (tb_data_block r) = Some db"
    "built interval db (cur @ [(k, v)]) (dencs @ [e]) didx'" by blast
  let ?fb = "map_option (\<lambda>(p, fb). (p, AddKey k fb)) (tb_filter_block r)"
  define r2 where "r2 = r\<lparr>tb_last_key := lk, tb_index_block := ib, tb_pending_index_entry := False, tb_filter_block := ?fb,
    tb_last_key := k, tb_num_entries := tb_num_entries r + 1, tb_data_block := db\<rparr>"
  have add: "TableBuilder_Add app fl k v r =
      (if op_block_size (tb_options r) \<le> CurrentSizeEstimate db then TableBuilder_Flush app fl r2 else Some r2)"
    unfolding TableBuilder_Add_def if_not_P [OF ordered] ai(1) using I(2,3) db(1) by (simp add: Let_def r2_def)
  have "filter_inv valid r2 bs (cur @ [(k, v)])"
    by (rule filter_inv_same [OF AddKey_filter [OF I(14) kv(1)]]) (simp_all add: r2_def)
  moreover have "builder_ok valid r2" "tb_ok r2" "\<not> tb_closed r2" "offset_ok acc r2" "blocks_stored (acc (tb_file r2)) bs"
    using I(1-4,10) by (simp_all add: r2_def builder_ok_def tb_ok_def offset_ok_def)
  ultimately have inv2: "tb_inv valid acc r2 (es @ [(k, v)]) bs (cur @ [(k, v)]) ies'"
    using I(5,9) ok asc ai(2-4) db(2) by (intro tb_invI) (auto simp: r2_def last_key_of_def)
  show ?thesis
  proof (cases "op_block_size (tb_options r) \<le> CurrentSizeEstimate db")
    case True
    have "length (es @ [(k, v)]) < 2 ^ 31" using n by simp
    from Flush_inv [OF F inv2 this] show ?thesis using True add by (auto simp: r2_def)
  next
    case False
    then show ?thesis using add inv2 tb_invD(3) [OF inv2] by (auto simp: r2_def)
  qed
qed

section \<open>Finishing\<close>

text \<open>What the writes behind the last data block keep, and what they add to the file.\<close>

definition wrote :: "('f \<Rightarrow> byte list) \<Rightarrow> 'f TableBuilder \<Rightarrow> 'f TableBuilder \<Rightarrow> bool" where
  "wrote acc r r' \<longleftrightarrow> tb_options r' = tb_options r \<and> tb_index_block r' = tb_index_block r \<and> tb_last_key r' = tb_last_key r
     \<and> tb_pending_index_entry r' = tb_pending_index_entry r \<and> tb_pending_handle r' = tb_pending_handle r
     \<and> (tb_filter_block r' = None \<longleftrightarrow> tb_filter_block r = None)
     \<and> (tb_ok r' \<longrightarrow> offset_ok acc r' \<and> (\<exists>x. acc (tb_file r') = acc (tb_file r) @ x))"

definition filter_stored :: "byte list \<Rightarrow> FilterPolicy \<Rightarrow> written \<Rightarrow> BlockHandle \<Rightarrow> bool" where
  "filter_stored c p bs h \<longleftrightarrow> handle_set h \<and> (\<exists>fs. stored_at c h (filter_block_bytes fs)
     \<and> (\<forall>x\<in>set bs. \<forall>e\<in>set (fst x). unat (bh_offset (snd x)) div 2048 < length fs
          \<and> fp_KeyMayMatch p (fst e) (fs ! (unat (bh_offset (snd x)) div 2048)) = Some True))"

lemma write_filter_ok:
  assumes F: "file_appends app fl acc" and o: "offset_ok acc r" and ok: "tb_ok r" and f: "filter_inv valid r bs []"
    and n: "length (concat (map fst bs)) < 2 ^ 31"
  shows "\<exists>h r'. write_filter app r = Some (h, r') \<and> wrote acc r r'
    \<and> (\<forall>p. tb_ok r' \<longrightarrow> op_filter_policy (tb_options r) = Some p \<longrightarrow> filter_stored (acc (tb_file r')) p bs h)"
proof (cases "tb_filter_block r")
  case None
  then show ?thesis using f o ok by (auto simp: write_filter_def wrote_def filter_inv_def)
next
  case (Some x)
  obtain p fb where x: "tb_filter_block r = Some (p, fb)" using Some by (cases x) simp
  then have p: "op_filter_policy (tb_options r) = Some p" "filter_holds valid p fb (unat (tb_offset r)) bs []"
    using f by (simp_all add: filter_inv_def)
  from p(2) obtain fs ks added where b: "filter_policy valid (fp_CreateFilter p) (fp_KeyMayMatch p)"
    "builder_inv (fp_KeyMayMatch p) valid fb fs ks added" "length added = length (concat (map fst bs) @ [])"
    "\<And>x e. x \<in> set bs \<Longrightarrow> e \<in> set (fst x) \<Longrightarrow> (unat (bh_offset (snd x)) div 2048, fst e) \<in> set added" by (rule filter_holdsE) blast
  have "length added < 2 ^ 31" using b(3) n by simp
  then obtain fb' fs' where fin: "filter_Finish (fp_CreateFilter p) fb = Some fb'" "fb_result fb' = filter_block_bytes fs'"
    "list_all (\<lambda>(i, k). i < length fs' \<and> fp_KeyMayMatch p k (fs' ! i) = Some True) added"
    using filter_policy.filter_Finish_inv [OF b(1,2)] by blast
  let ?r = "r\<lparr>tb_filter_block := Some (p, fb')\<rparr>"
  have "offset_ok acc ?r" using o by (simp add: offset_ok_def)
  from WriteRawBlock_ok [OF F this, of "filter_block_bytes fs'" kNoCompression]
  obtain h s f' o' where w: "WriteRawBlock app (filter_block_bytes fs') kNoCompression ?r = Some (h, ?r\<lparr>tb_status := s, tb_file := f', tb_offset := o'\<rparr>)"
    "if ok s then acc f' = acc (tb_file ?r) @ block_image (filter_block_bytes fs') kNoCompression
        \<and> offset_ok acc (?r\<lparr>tb_status := s, tb_file := f', tb_offset := o'\<rparr>)
        \<and> (kNoCompression = kNoCompression \<longrightarrow> stored_at (acc f') h (filter_block_bytes fs')) \<and> bh_offset h = tb_offset ?r \<and> handle_set h
     else o' = tb_offset ?r" by blast
  have "filter_stored (acc f') p bs h" if "ok s"
    using w(2) that b(4) fin(3) by (fastforce simp: filter_stored_def list_all_iff)
  then show ?thesis using w ok x fin(1,2) p(1)
    by (intro exI [of _ h] exI [of _ "?r\<lparr>tb_status := s, tb_file := f', tb_offset := o'\<rparr>"])
      (auto simp: write_filter_def wrote_def tb_ok_def)
qed

fun metaindex_entries :: "FilterPolicy option \<Rightarrow> BlockHandle \<Rightarrow> entry list" where
  "metaindex_entries None h = []"
| "metaindex_entries (Some p) h = [(str ''filter.'' @ fp_Name p, handle_bytes h)]"

lemma write_metaindex_ok:
  assumes F: "file_appends app fl acc" and o: "offset_ok acc r" and ok: "tb_ok r" and bo: "builder_ok valid r"
    and f: "tb_filter_block r = None \<longleftrightarrow> op_filter_policy (tb_options r) = None"
    and p: "\<And>p. op_filter_policy (tb_options r) = Some p \<Longrightarrow> handle_set fh \<and> length (fp_Name p) < 2 ^ 31"
  shows "\<exists>h r'. write_metaindex app fh r = Some (h, r') \<and> wrote acc r r' \<and> (tb_ok r' \<longrightarrow> handle_set h
    \<and> (\<exists>d. block_data d (metaindex_entries (op_filter_policy (tb_options r)) fh) \<and> stored_at (acc (tb_file r')) h d))"
proof -
  have B: "op_compression (tb_options r) = kNoCompression \<or> op_compression (tb_options r) = kSnappyCompression"
    "1 \<le> op_block_restart_interval (tb_options r)" using bo by (simp_all add: builder_ok_def)
  obtain m where m: "BlockBuilder_new (op_block_restart_interval (tb_options r)) = Some m" "built (op_block_restart_interval (tb_options r)) m [] [] [0]"
    using BlockBuilder_new_built [OF B(2)] by blast
  obtain m' encs idx where m': "(if tb_filter_block r \<noteq> None
       then do { policy \<leftarrow> op_filter_policy (tb_options r); handle_encoding \<leftarrow> BlockHandle_EncodeTo fh [];
             BlockBuilder_Add (c_Compare (op_comparator (tb_options r))) (str ''filter.'' @ fp_Name policy) handle_encoding m }
       else Some m) = Some m'"
    "built (op_block_restart_interval (tb_options r)) m' (metaindex_entries (op_filter_policy (tb_options r)) fh) encs idx"
  proof (cases "op_filter_policy (tb_options r)")
    case None
    then show ?thesis using that m(2) f by simp
  next
    case (Some p')
    have l: "length (str ''filter.'' @ fp_Name p') < 2 ^ 32" "length (handle_bytes fh) < 2 ^ 32"
      using p [OF Some] handle_bytes_length [of fh] by (simp_all add: str_def)
    from BlockBuilder_Add_built [where cmp = "c_Compare (op_comparator (tb_options r))", OF m(2) l] show ?thesis
      using that Some f BlockHandle_EncodeTo_bytes [of fh "[]"] p [OF Some] by auto
  qed
  let ?d = "bb_buffer (BlockBuilder_Finish m')"
  from WriteBlock_ok [OF F o ok B(1), of m'] obtain h s f' o' where
    w: "WriteBlock app m' r = Some (h, r\<lparr>tb_status := s, tb_file := f', tb_offset := o'\<rparr>, BlockBuilder_Reset m')"
    "if ok s then acc f' = acc (tb_file r) @ block_image ?d kNoCompression
         \<and> offset_ok acc (r\<lparr>tb_status := s, tb_file := f', tb_offset := o'\<rparr>) \<and> stored_at (acc f') h ?d \<and> bh_offset h = tb_offset r \<and> handle_set h
       else o' = tb_offset r" by blast
  have "block_data ?d (metaindex_entries (op_filter_policy (tb_options r)) fh)" using m'(2) unfolding block_data_def by blast
  then have "\<exists>d. block_data d (metaindex_entries (op_filter_policy (tb_options r)) fh) \<and> stored_at (acc f') h d" if "ok s"
    using w(2) that by auto
  moreover have "write_metaindex app fh r = Some (h, r\<lparr>tb_status := s, tb_file := f', tb_offset := o'\<rparr>)"
    unfolding write_metaindex_def m(1) using ok m'(1) w(1) by simp
  ultimately show ?thesis using w(2)
    by (intro exI [of _ h] exI [of _ "r\<lparr>tb_status := s, tb_file := f', tb_offset := o'\<rparr>"]) (auto simp: wrote_def tb_ok_def)
qed

lemma wrote_trans: "wrote acc r r' \<Longrightarrow> tb_ok r' \<Longrightarrow> wrote acc r' r'' \<Longrightarrow> wrote acc r r''"
  by (auto simp: wrote_def)

lemma add_index_entry_frame:
  assumes "add_index_entry sep r = Some (r\<lparr>tb_last_key := sep, tb_index_block := ib, tb_pending_index_entry := False\<rparr>)"
    and "tb_pending_handle x = tb_pending_handle r" "tb_index_block x = tb_index_block r" "tb_options x = tb_options r"
  shows "add_index_entry sep x = Some (x\<lparr>tb_last_key := sep, tb_index_block := ib, tb_pending_index_entry := False\<rparr>)"
proof -
  obtain e ib' where e: "BlockHandle_EncodeTo (tb_pending_handle r) [] = Some e"
    "BlockBuilder_Add (c_Compare (op_comparator (tb_options r))) sep e (tb_index_block r) = Some ib'"
    "r\<lparr>tb_last_key := sep, tb_index_block := ib', tb_pending_index_entry := False\<rparr>
      = r\<lparr>tb_last_key := sep, tb_index_block := ib, tb_pending_index_entry := False\<rparr>"
    using assms(1) by (auto simp: add_index_entry_def bind_eq_Some_conv)
  then have "ib' = ib" using arg_cong [OF e(3), of tb_index_block] by simp
  then show ?thesis using e(1,2) assms(2-4) by (simp add: add_index_entry_def)
qed

text \<open>The whole index: an entry for every block.\<close>

lemma index_finished:
  assumes inv: "tb_inv valid acc r es bs [] ies" and w: "wrote acc r x"
  shows "\<exists>lk ib ies' encs idx. (if tb_pending_index_entry x
      then do { succ \<leftarrow> c_FindShortSuccessor (op_comparator (tb_options x)) (tb_last_key x); add_index_entry succ x }
      else Some x) = Some (x\<lparr>tb_last_key := lk, tb_index_block := ib, tb_pending_index_entry := False\<rparr>)
    \<and> built 1 ib ies' encs idx \<and> length ies' = length bs \<and> index_for valid (c_Compare (op_comparator (tb_options r))) ies' bs []"
proof -
  let ?C = "op_comparator (tb_options r)"
  have C: "table_comparator valid ?C" using tb_invD(1) [OF inv] by (simp add: builder_ok_def)
  have X: "tb_options x = tb_options r" "tb_index_block x = tb_index_block r" "tb_last_key x = tb_last_key r"
    "tb_pending_index_entry x = tb_pending_index_entry r" "tb_pending_handle x = tb_pending_handle r"
    using w by (simp_all add: wrote_def)
  show ?thesis
  proof (cases "tb_pending_index_entry r")
    case True
    have "bs \<noteq> []" using tb_inv_pending(1) [OF inv True] by blast
    then have "es \<noteq> []" using tb_invD(5,10) [OF inv] by (cases bs) (auto simp: blocks_stored_def)
    then have lk: "tb_last_key r = fst (last es)" "last es \<in> set es" using tb_invD(8) [OF inv] by (simp_all add: last_key_of_def)
    have last: "valid (fst (last es))" "length (fst (last es)) < 2 ^ 32"
      using entries_okD [OF tb_invD(6) [OF inv] lk(2)] by simp_all
    then obtain sep where sep: "c_FindShortSuccessor ?C (tb_last_key r) = Some sep" "valid sep" "c_Compare ?C (tb_last_key r) sep \<le> 0"
      "length sep \<le> length (tb_last_key r)"
      using table_comparator.successor_some [OF C, of "fst (last es)"] lk by auto
    have "length sep < 2 ^ 32" using sep(4) lk(1) last(2) by simp
    note ai = add_index_entry_ok [OF inv True sep(2) this sep(3)]
    obtain ib encs idx where ib: "add_index_entry sep r = Some (r\<lparr>tb_last_key := sep, tb_index_block := ib, tb_pending_index_entry := False\<rparr>)"
      "built 1 ib (ies @ [(sep, handle_bytes (snd (last bs)))]) encs idx" using ai(1) by blast
    have "index_for valid (c_Compare ?C) (ies @ [(sep, handle_bytes (snd (last bs)))]) bs []" by (rule ai(4)) simp
    then show ?thesis using True X ib(2) ai(2) sep(1) add_index_entry_frame [OF ib(1) X(5,2,1)]
      by (intro exI [of _ sep] exI [of _ ib] exI [of _ "ies @ [(sep, handle_bytes (snd (last bs)))]"] exI [of _ encs] exI [of _ idx]) simp
  next
    case False
    obtain encs idx where "built 1 (tb_index_block r) ies encs idx" using tb_invD(12) [OF inv] by blast
    moreover have "x\<lparr>tb_last_key := tb_last_key r, tb_index_block := tb_index_block r, tb_pending_index_entry := False\<rparr> = x"
      using False X by simp
    ultimately show ?thesis using False X tb_inv_pending(2) [OF inv False] tb_invD(13) [OF inv]
      by (intro exI [of _ "tb_last_key r"] exI [of _ "tb_index_block r"] exI [of _ ies] exI [of _ encs] exI [of _ idx]) simp
  qed
qed

lemma write_index_ok:
  assumes F: "file_appends app fl acc" and inv: "tb_inv valid acc r es bs [] ies" and w: "wrote acc r x" and ok: "tb_ok x"
  shows "\<exists>h x'. write_index app x = Some (h, x') \<and> (tb_ok x' \<longrightarrow> offset_ok acc x' \<and> handle_set h
    \<and> (\<exists>y. acc (tb_file x') = acc (tb_file x) @ y)
    \<and> (\<exists>ies' d. length ies' = length bs \<and> index_for valid (c_Compare (op_comparator (tb_options r))) ies' bs []
         \<and> block_data d ies' \<and> stored_at (acc (tb_file x')) h d))"
proof -
  obtain lk ib ies' encs idx where i: "(if tb_pending_index_entry x
      then do { succ \<leftarrow> c_FindShortSuccessor (op_comparator (tb_options x)) (tb_last_key x); add_index_entry succ x }
      else Some x) = Some (x\<lparr>tb_last_key := lk, tb_index_block := ib, tb_pending_index_entry := False\<rparr>)"
    "built 1 ib ies' encs idx" "length ies' = length bs" "index_for valid (c_Compare (op_comparator (tb_options r))) ies' bs []"
    using index_finished [OF inv w] by blast
  let ?x = "x\<lparr>tb_last_key := lk, tb_index_block := ib, tb_pending_index_entry := False\<rparr>"
  let ?d = "bb_buffer (BlockBuilder_Finish ib)"
  have x: "offset_ok acc ?x" "tb_ok ?x" "op_compression (tb_options ?x) = kNoCompression \<or> op_compression (tb_options ?x) = kSnappyCompression"
    using w ok tb_invD(1) [OF inv] by (simp_all add: wrote_def offset_ok_def tb_ok_def builder_ok_def)
  from WriteBlock_ok [OF F x, of ib] obtain h s f' o' where
    wb: "WriteBlock app ib ?x = Some (h, ?x\<lparr>tb_status := s, tb_file := f', tb_offset := o'\<rparr>, BlockBuilder_Reset ib)"
    "if ok s then acc f' = acc (tb_file ?x) @ block_image ?d kNoCompression
         \<and> offset_ok acc (?x\<lparr>tb_status := s, tb_file := f', tb_offset := o'\<rparr>) \<and> stored_at (acc f') h ?d \<and> bh_offset h = tb_offset ?x \<and> handle_set h
       else o' = tb_offset ?x" by blast
  let ?x' = "?x\<lparr>tb_status := s, tb_file := f', tb_offset := o', tb_index_block := BlockBuilder_Reset ib\<rparr>"
  have "write_index app x = Some (h, ?x')" unfolding write_index_def i(1) using ok wb(1) by simp
  moreover have "block_data ?d ies'" using i(2) unfolding block_data_def by blast
  then have "\<exists>ies' d. length ies' = length bs \<and> index_for valid (c_Compare (op_comparator (tb_options r))) ies' bs []
         \<and> block_data d ies' \<and> stored_at (acc f') h d" if "ok s" using wb(2) i(3,4) unfolding if_P [OF that] by blast
  ultimately show ?thesis using wb(2) by (intro exI [of _ h] exI [of _ ?x']) (auto simp: tb_ok_def offset_ok_def)
qed

lemma write_footer_ok:
  assumes F: "file_appends app fl acc" and ok: "tb_ok x" and h: "handle_set hm" "handle_set hi"
  shows "\<exists>x'. write_footer app hm hi x = Some x'
    \<and> (tb_ok x' \<longrightarrow> acc (tb_file x') = acc (tb_file x) @ footer_bytes \<lparr>ft_metaindex = hm, ft_index = hi\<rparr>)"
proof -
  let ?f = "footer_bytes \<lparr>ft_metaindex = hm, ft_index = hi\<rparr>"
  obtain s f' where a: "app (tb_file x) ?f = Some (s, f')" "ok s \<longrightarrow> acc f' = acc (tb_file x) @ ?f \<and> length (acc f') < 2 ^ 63"
    using file_appendsD(1) [OF F, of "tb_file x" ?f] by blast
  have "write_footer app hm hi x = Some (if ok s then x\<lparr>tb_status := s, tb_file := f', tb_offset := tb_offset x + word_of_nat (length ?f)\<rparr>
     else x\<lparr>tb_status := s, tb_file := f'\<rparr>)"
    using ok a(1) Footer_EncodeTo_bytes [of "\<lparr>ft_metaindex = hm, ft_index = hi\<rparr>"] h by (simp add: write_footer_def Let_def)
  then show ?thesis using a(2) by (simp add: tb_ok_def)
qed

text \<open>What a table file is: its blocks hold the entries; the index leads to the blocks and separates them; the
  metaindex leads to the filter, which has every key under the offset of its block; the footer leads to both.\<close>

definition table_bytes :: "(byte list \<Rightarrow> bool) \<Rightarrow> comparing \<Rightarrow> FilterPolicy option \<Rightarrow> byte list \<Rightarrow> entry list \<Rightarrow> bool" where
  "table_bytes valid cmp policy c es \<longleftrightarrow> (\<exists>bs ies hm hi hf dm di start.
     es = concat (map fst bs) \<and> blocks_stored c bs
     \<and> length ies = length bs \<and> index_for valid cmp ies bs [] \<and> block_data di ies \<and> stored_at c hi di \<and> handle_set hi
     \<and> block_data dm (metaindex_entries policy hf) \<and> stored_at c hm dm \<and> handle_set hm
     \<and> (\<forall>p. policy = Some p \<longrightarrow> filter_stored c p bs hf)
     \<and> c = start @ footer_bytes \<lparr>ft_metaindex = hm, ft_index = hi\<rparr>)"

lemma filter_stored_append: "filter_stored c p bs h \<Longrightarrow> filter_stored (c @ x) p bs h"
  unfolding filter_stored_def using stored_at_append by blast

lemma table_assembled:
  assumes b: "blocks_stored c0 bs" and f: "\<And>p. policy = Some p \<Longrightarrow> filter_stored (c0 @ y1) p bs fh"
    and m: "block_data dm (metaindex_entries policy fh)" "stored_at (c0 @ y1 @ y2) hm dm" "handle_set hm"
    and i: "length ies = length bs" "index_for valid cmp ies bs []" "block_data di ies" "stored_at (c0 @ y1 @ y2 @ y3) hi di" "handle_set hi"
  shows "table_bytes valid cmp policy (c0 @ y1 @ y2 @ y3 @ footer_bytes \<lparr>ft_metaindex = hm, ft_index = hi\<rparr>) (concat (map fst bs))"
proof -
  let ?c = "c0 @ y1 @ y2 @ y3 @ footer_bytes \<lparr>ft_metaindex = hm, ft_index = hi\<rparr>"
  have "blocks_stored ?c bs" by (rule blocks_stored_append [OF b])
  moreover have "stored_at ?c hm dm" using stored_at_append [OF m(2)] by simp
  moreover have "stored_at ?c hi di" using stored_at_append [OF i(4)] by simp
  moreover have "filter_stored ?c p bs fh" if "policy = Some p" for p using filter_stored_append [OF f [OF that]] by simp
  moreover have "?c = (c0 @ y1 @ y2 @ y3) @ footer_bytes \<lparr>ft_metaindex = hm, ft_index = hi\<rparr>" by simp
  ultimately show ?thesis unfolding table_bytes_def using m(1,3) i(1-3,5) by blast
qed

lemma Finish_ok:
  assumes F: "file_appends app fl acc" and inv: "tb_inv valid acc r es bs cur ies" and n: "length es < 2 ^ 31"
    and name: "\<And>p. op_filter_policy (tb_options r) = Some p \<Longrightarrow> length (fp_Name p) < 2 ^ 31"
  shows "\<exists>s r'. TableBuilder_Finish app fl r = Some (s, r') \<and> (ok s \<longrightarrow>
    table_bytes valid (c_Compare (op_comparator (tb_options r))) (op_filter_policy (tb_options r)) (acc (tb_file r')) es)"
proof -
  obtain r1 where r1: "TableBuilder_Flush app fl r = Some r1" "\<not> tb_closed r1" "tb_options r1 = tb_options r"
    "tb_ok r1 \<longrightarrow> (\<exists>bs'. tb_inv valid acc r1 es bs' [] ies)" using Flush_inv [OF F inv n] by blast
  let ?x0 = "r1\<lparr>tb_closed := True\<rparr>"
  have fin: "TableBuilder_Finish app fl r = do { (fh, r) \<leftarrow> write_filter app ?x0; (hm, r) \<leftarrow> write_metaindex app fh r;
      (hi, r) \<leftarrow> write_index app r; r \<leftarrow> write_footer app hm hi r; Some (tb_status r, r) }"
    using r1(1,2) by (simp add: TableBuilder_Finish_def)
  have skip: "write_filter app x = Some (BlockHandle_new, x)" "write_metaindex app fh x = Some (BlockHandle_new, x)"
    "write_index app x = Some (BlockHandle_new, x)" "write_footer app hm hi x = Some x" if "\<not> tb_ok x" for x fh hm hi
    using that by (simp_all add: write_filter_def write_metaindex_def write_index_def write_footer_def)
  show ?thesis
  proof (cases "tb_ok r1")
    case False
    then show ?thesis unfolding fin by (simp add: skip tb_ok_def)
  next
    case True
    then obtain bs' where inv1: "tb_inv valid acc r1 es bs' [] ies" using r1(4) by blast
    note I = tb_invD [OF inv1]
    have es: "es = concat (map fst bs')" using I(5) by simp
    have "filter_inv valid ?x0 bs' []" by (rule filter_inv_same [OF I(14)]) simp_all
    moreover have "offset_ok acc ?x0" "tb_ok ?x0" using I(4) True by (simp_all add: offset_ok_def tb_ok_def)
    moreover have "length (concat (map fst bs')) < 2 ^ 31" using n es by simp
    ultimately obtain fh x1 where x1: "write_filter app ?x0 = Some (fh, x1)" "wrote acc ?x0 x1"
      "\<And>p. tb_ok x1 \<Longrightarrow> op_filter_policy (tb_options ?x0) = Some p \<Longrightarrow> filter_stored (acc (tb_file x1)) p bs' fh"
      using write_filter_ok [OF F] by blast
    have w1: "wrote acc r1 x1" using x1(2) by (simp add: wrote_def)
    show ?thesis
    proof (cases "tb_ok x1")
      case False
      then show ?thesis unfolding fin x1(1) by (simp add: skip tb_ok_def)
    next
      case ok1: True
      have "tb_filter_block r1 = None \<longleftrightarrow> op_filter_policy (tb_options r1) = None"
        using I(14) by (auto simp: filter_inv_def split: option.splits)
      then have f1: "tb_filter_block x1 = None \<longleftrightarrow> op_filter_policy (tb_options x1) = None" using w1 by (simp add: wrote_def)
      have b1: "builder_ok valid x1" "offset_ok acc x1" and opt: "tb_options x1 = tb_options r"
        using I(1) w1 ok1 r1(3) by (simp_all add: builder_ok_def wrote_def)
      have p1: "handle_set fh \<and> length (fp_Name p) < 2 ^ 31" if "op_filter_policy (tb_options x1) = Some p" for p
        using x1(3) [OF ok1, of p] that name [of p] opt r1(3) by (simp add: filter_stored_def)
      from write_metaindex_ok [OF F b1(2) ok1 b1(1) f1 p1] obtain hm x2 where x2: "write_metaindex app fh x1 = Some (hm, x2)" "wrote acc x1 x2"
        "tb_ok x2 \<longrightarrow> handle_set hm \<and> (\<exists>d. block_data d (metaindex_entries (op_filter_policy (tb_options x1)) fh) \<and> stored_at (acc (tb_file x2)) hm d)"
        by blast
      show ?thesis
      proof (cases "tb_ok x2")
        case False
        then show ?thesis unfolding fin x1(1) using x2(1) by (simp add: skip tb_ok_def)
      next
        case ok2: True
        obtain hi x3 where x3: "write_index app x2 = Some (hi, x3)" "tb_ok x3 \<longrightarrow> offset_ok acc x3 \<and> handle_set hi
           \<and> (\<exists>y. acc (tb_file x3) = acc (tb_file x2) @ y)
           \<and> (\<exists>ies' d. length ies' = length bs' \<and> index_for valid (c_Compare (op_comparator (tb_options r1))) ies' bs' []
                \<and> block_data d ies' \<and> stored_at (acc (tb_file x3)) hi d)"
          using write_index_ok [OF F inv1 wrote_trans [OF w1 ok1 x2(2)] ok2] by blast
        show ?thesis
        proof (cases "tb_ok x3")
          case False
          then show ?thesis unfolding fin x1(1) using x2(1) x3(1) by (simp add: skip tb_ok_def)
        next
          case ok3: True
          have hs: "handle_set hm" "handle_set hi" using x2(3) ok2 x3(2) ok3 by blast+
          obtain x4 where x4: "write_footer app hm hi x3 = Some x4"
            "tb_ok x4 \<longrightarrow> acc (tb_file x4) = acc (tb_file x3) @ footer_bytes \<lparr>ft_metaindex = hm, ft_index = hi\<rparr>"
            using write_footer_ok [OF F ok3 hs] by blast
          have run: "TableBuilder_Finish app fl r = Some (tb_status x4, x4)" unfolding fin x1(1) using x2(1) x3(1) x4(1) by simp
          have "table_bytes valid (c_Compare (op_comparator (tb_options r))) (op_filter_policy (tb_options r)) (acc (tb_file x4)) es" if "tb_ok x4"
          proof -
            obtain y1 where y1: "acc (tb_file x1) = acc (tb_file r1) @ y1" using w1 ok1 by (auto simp: wrote_def)
            obtain y2 where y2: "acc (tb_file x2) = acc (tb_file x1) @ y2" using x2(2) ok2 by (auto simp: wrote_def)
            obtain y3 where y3: "acc (tb_file x3) = acc (tb_file x2) @ y3" using x3(2) ok3 by blast
            note c = x4(2) [rule_format, OF that]
            obtain dm where dm: "block_data dm (metaindex_entries (op_filter_policy (tb_options r)) fh)" "stored_at (acc (tb_file x2)) hm dm"
              using x2(3) ok2 opt by auto
            obtain ies' di where di: "length ies' = length bs'" "index_for valid (c_Compare (op_comparator (tb_options r))) ies' bs' []"
              "block_data di ies'" "stored_at (acc (tb_file x3)) hi di"
              using x3(2) ok3 r1(3) by auto
            have "table_bytes valid (c_Compare (op_comparator (tb_options r))) (op_filter_policy (tb_options r))
                (acc (tb_file r1) @ y1 @ y2 @ y3 @ footer_bytes \<lparr>ft_metaindex = hm, ft_index = hi\<rparr>) (concat (map fst bs'))"
              by (rule table_assembled [OF I(10) _ dm(1) _ hs(1) di(1-3) _ hs(2)])
                (use x1(3) [OF ok1] r1(3) dm(2) di(4) y1 y2 y3 in simp_all)
            then show ?thesis using c y1 y2 y3 es by simp
          qed
          then show ?thesis using run by (auto simp: tb_ok_def)
        qed
      qed
    qed
  qed
qed

section \<open>From the first key to the footer\<close>

definition options_ok :: "(byte list \<Rightarrow> bool) \<Rightarrow> Options \<Rightarrow> bool" where
  "options_ok valid options \<longleftrightarrow> table_comparator valid (op_comparator options)
     \<and> (op_compression options = kNoCompression \<or> op_compression options = kSnappyCompression)
     \<and> 1 \<le> op_block_restart_interval options
     \<and> (case op_filter_policy options of None \<Rightarrow> True
        | Some p \<Rightarrow> filter_policy valid (fp_CreateFilter p) (fp_KeyMayMatch p) \<and> length (fp_Name p) < 2 ^ 31)"

lemma TableBuilder_new_inv:
  assumes ok: "options_ok valid options" and f: "acc file = []"
  shows "\<exists>r. TableBuilder_new options file = Some r \<and> tb_options r = options \<and> tb_inv valid acc r [] [] [] []"
proof -
  obtain db where db: "BlockBuilder_new (op_block_restart_interval options) = Some db" "built (op_block_restart_interval options) db [] [] [0]"
    using BlockBuilder_new_built ok unfolding options_ok_def by blast
  obtain ib where ib: "BlockBuilder_new 1 = Some ib" "built 1 ib [] [] [0]" using BlockBuilder_new_built [of 1] by auto
  let ?r = "\<lparr>tb_options = options, tb_file = file, tb_offset = 0, tb_status = OK, tb_data_block = db,
       tb_index_block = ib, tb_last_key = [], tb_num_entries = 0, tb_closed = False,
       tb_filter_block = map_option (\<lambda>p. (p, FilterBlockBuilder_new)) (op_filter_policy options),
       tb_pending_index_entry = False, tb_pending_handle = BlockHandle_new\<rparr>"
  have "filter_holds valid p FilterBlockBuilder_new 0 [] []" if "op_filter_policy options = Some p" for p
    using ok that by (intro filter_holdsI [where fs = "[]" and ks = "[]" and added = "[]"])
      (auto simp: options_ok_def builder_inv_def FilterBlockBuilder_new_def starts_def offsets_of_def)
  then have "filter_inv valid (?r\<lparr>tb_offset := 0\<rparr>) [] []" by (auto simp: filter_inv_def split: option.splits)
  from start_filter_ok [OF this order_refl] obtain x where x: "start_filter 0 ?r = Some (?r\<lparr>tb_filter_block := x\<rparr>)"
    "filter_inv valid (?r\<lparr>tb_filter_block := x, tb_offset := 0\<rparr>) [] []" by auto
  have "filter_inv valid (?r\<lparr>tb_filter_block := x\<rparr>) [] []" by (rule filter_inv_same [OF x(2)]) simp_all
  moreover have "builder_ok valid (?r\<lparr>tb_filter_block := x\<rparr>)" using ok by (simp add: builder_ok_def options_ok_def)
  ultimately have "tb_inv valid acc (?r\<lparr>tb_filter_block := x\<rparr>) [] [] [] []"
    using db(2) ib(2) f
    by (intro tb_invI) (auto simp: tb_ok_def ok_def offset_ok_def entries_ok_def ascending_def last_key_of_def blocks_stored_def index_for_def)
  then show ?thesis using db(1) ib(1) x(1) by (simp add: TableBuilder_new_def)
qed

fun add_all :: "'f appending \<Rightarrow> 'f flushing \<Rightarrow> entry list \<Rightarrow> 'f TableBuilder \<Rightarrow> 'f TableBuilder option" where
  "add_all app fl [] r = Some r"
| "add_all app fl ((k, v) # es) r = Option.bind (TableBuilder_Add app fl k v r) (add_all app fl es)"

text \<open>The table that a client writes: it adds entries and finishes.\<close>

definition write_table :: "'f appending \<Rightarrow> 'f flushing \<Rightarrow> Options \<Rightarrow> 'f \<Rightarrow> entry list \<Rightarrow> (Status \<times> 'f TableBuilder) option" where
  "write_table app fl options file es =
     do { r \<leftarrow> TableBuilder_new options file; r \<leftarrow> add_all app fl es r; TableBuilder_Finish app fl r }"

lemma add_all_stopped: "\<not> tb_ok r \<Longrightarrow> \<not> tb_closed r \<Longrightarrow> add_all app fl es r = Some r"
  by (induction es) (auto simp: TableBuilder_Add_def)

lemma add_all_inv:
  assumes F: "file_appends app fl acc"
  shows "tb_inv valid acc r es bs cur ies \<Longrightarrow> length (es @ new) < 2 ^ 31 \<Longrightarrow> entries_ok valid (es @ new) \<Longrightarrow>
    ascending (c_Compare (op_comparator (tb_options r))) (es @ new) \<Longrightarrow>
    \<exists>r'. add_all app fl new r = Some r' \<and> \<not> tb_closed r' \<and> tb_options r' = tb_options r
      \<and> (tb_ok r' \<longrightarrow> (\<exists>bs' cur' ies'. tb_inv valid acc r' (es @ new) bs' cur' ies'))"
proof (induction new arbitrary: r es bs cur ies)
  case Nil
  then show ?case using tb_invD(3) [OF Nil(1)] by auto
next
  case (Cons e new)
  obtain k v where e: "e = (k, v)" by fastforce
  have split: "es @ e # new = (es @ [(k, v)]) @ new" by (simp add: e)
  have "Suc (length es) < 2 ^ 31" "entries_ok valid (es @ [(k, v)])" "ascending (c_Compare (op_comparator (tb_options r))) (es @ [(k, v)])"
    using Cons.prems(2-4) unfolding split by (simp_all add: entries_ok_def ascending_def sorted_wrt_append)
  from Add_inv [OF F Cons.prems(1) this] obtain r1 where r1: "TableBuilder_Add app fl k v r = Some r1" "\<not> tb_closed r1" "tb_options r1 = tb_options r"
    "tb_ok r1 \<longrightarrow> (\<exists>bs' cur' ies'. tb_inv valid acc r1 (es @ [(k, v)]) bs' cur' ies')" by blast
  show ?case
  proof (cases "tb_ok r1")
    case True
    then obtain bs' cur' ies' where i: "tb_inv valid acc r1 (es @ [(k, v)]) bs' cur' ies'" using r1(4) by blast
    from Cons.IH [OF i] Cons.prems(2-4) show ?thesis unfolding split using r1(1,3) e by simp
  next
    case False
    then show ?thesis using r1 e add_all_stopped [OF False r1(2)] by simp
  qed
qed

section \<open>A bad status is one that the file reported\<close>

definition reported :: "'f appending \<Rightarrow> 'f flushing \<Rightarrow> Status \<Rightarrow> bool" where
  "reported app fl s \<longleftrightarrow> (\<exists>f data f'. app f data = Some (s, f')) \<or> (\<exists>f f'. fl f = Some (s, f'))"

definition status_from :: "'f appending \<Rightarrow> 'f flushing \<Rightarrow> 'f TableBuilder \<Rightarrow> 'f TableBuilder \<Rightarrow> bool" where
  "status_from app fl r r' \<longleftrightarrow> tb_status r' = tb_status r \<or> reported app fl (tb_status r')"

lemma status_from_trans: "status_from app fl r r1 \<Longrightarrow> status_from app fl r1 r2 \<Longrightarrow> status_from app fl r r2"
  by (auto simp: status_from_def)

lemma start_filter_status: "start_filter off r = Some r' \<Longrightarrow> tb_status r' = tb_status r"
  by (auto simp: start_filter_def bind_eq_Some_conv split: option.splits prod.splits)

lemma WriteRawBlock_status: "WriteRawBlock app d t r = Some (h, r') \<Longrightarrow> status_from app fl r r'"
  by (auto simp: WriteRawBlock_def Let_def status_from_def reported_def bind_eq_Some_conv split: if_splits prod.splits)

lemma WriteBlock_status: "WriteBlock app b r = Some (h, r', b') \<Longrightarrow> status_from app fl r r'"
  using WriteRawBlock_status by (fastforce simp: WriteBlock_def Let_def bind_eq_Some_conv split: if_splits prod.splits)

lemma Flush_status:
  assumes "TableBuilder_Flush app fl r = Some r'"
  shows "status_from app fl r r'"
proof (cases "r' = r")
  case False
  then obtain h r1 b where w: "WriteBlock app (tb_data_block r) r = Some (h, r1, b)"
    and rest: "do { r \<leftarrow> (if tb_ok (r1\<lparr>tb_pending_handle := h, tb_data_block := b\<rparr>)
        then do { (s, f) \<leftarrow> fl (tb_file r1); Some (r1\<lparr>tb_pending_handle := h, tb_data_block := b, tb_pending_index_entry := True, tb_status := s, tb_file := f\<rparr>) }
        else Some (r1\<lparr>tb_pending_handle := h, tb_data_block := b\<rparr>)); start_filter (tb_offset r) r } = Some r'"
    using assms by (auto simp: TableBuilder_Flush_def Let_def bind_eq_Some_conv split: if_splits prod.splits)
  have "status_from app fl r1 r'"
    using rest by (auto simp: status_from_def reported_def bind_eq_Some_conv dest!: start_filter_status split: if_splits prod.splits)
  then show ?thesis using status_from_trans [OF WriteBlock_status [OF w]] by blast
qed (simp add: status_from_def)

lemma add_index_entry_status: "add_index_entry k r = Some r' \<Longrightarrow> tb_status r' = tb_status r"
  by (auto simp: add_index_entry_def bind_eq_Some_conv)

lemma Add_status: "TableBuilder_Add app fl k v r = Some r' \<Longrightarrow> status_from app fl r r'"
  by (auto simp: TableBuilder_Add_def Let_def bind_eq_Some_conv status_from_def dest!: Flush_status add_index_entry_status split: if_splits)

lemma add_all_status: "add_all app fl es r = Some r' \<Longrightarrow> status_from app fl r r'"
proof (induction es arbitrary: r)
  case (Cons e es)
  then show ?case using Add_status status_from_trans by (cases e) (fastforce simp: bind_eq_Some_conv)
qed (simp add: status_from_def)

lemma Finish_status:
  assumes "TableBuilder_Finish app fl r = Some (s, r')"
  shows "s = tb_status r' \<and> status_from app fl r r'"
proof -
  obtain r0 fh r1 hm r2 hi r3 where r: "TableBuilder_Flush app fl r = Some r0" "write_filter app (r0\<lparr>tb_closed := True\<rparr>) = Some (fh, r1)"
    "write_metaindex app fh r1 = Some (hm, r2)" "write_index app r2 = Some (hi, r3)" "write_footer app hm hi r3 = Some r'" "s = tb_status r'"
    using assms by (auto simp: TableBuilder_Finish_def bind_eq_Some_conv split: if_splits prod.splits)
  have "status_from app fl r0 r1"
    using r(2) by (auto simp: write_filter_def bind_eq_Some_conv status_from_def split: if_splits option.splits prod.splits
        dest!: WriteRawBlock_status [where fl = fl])
  moreover have "status_from app fl r1 r2"
    using r(3) by (auto simp: write_metaindex_def bind_eq_Some_conv status_from_def split: if_splits option.splits prod.splits
        dest!: WriteBlock_status [where fl = fl])
  moreover have "status_from app fl r2 r3"
    using r(4) by (auto simp: write_index_def bind_eq_Some_conv status_from_def split: if_splits option.splits prod.splits
        dest!: WriteBlock_status [where fl = fl] add_index_entry_status)
  moreover have "status_from app fl r3 r'"
    using r(5) by (auto simp: write_footer_def Let_def bind_eq_Some_conv status_from_def reported_def split: if_splits prod.splits)
  ultimately show ?thesis using r(6) status_from_trans Flush_status [OF r(1)] by metis
qed

lemma write_table_status:
  assumes "write_table app fl options file es = Some (s, r)"
  shows "ok s \<or> reported app fl s"
proof -
  obtain r0 r1 where r: "TableBuilder_new options file = Some r0" "add_all app fl es r0 = Some r1" "TableBuilder_Finish app fl r1 = Some (s, r)"
    using assms by (auto simp: write_table_def bind_eq_Some_conv)
  have "tb_status r0 = OK" using r(1) start_filter_status by (fastforce simp: TableBuilder_new_def bind_eq_Some_conv)
  then show ?thesis using Finish_status [OF r(3)] add_all_status [OF r(2)] by (auto simp: status_from_def ok_def)
qed

lemma write_table_ok:
  assumes "options_ok valid options" and "file_appends app fl acc" and "acc file = []"
    and "entries_ok valid es" and "ascending (c_Compare (op_comparator options)) es" and "length es < 2 ^ 31"
  shows "\<exists>s r. write_table app fl options file es = Some (s, r)
    \<and> (ok s \<longrightarrow> table_bytes valid (c_Compare (op_comparator options)) (op_filter_policy options) (acc (tb_file r)) es)"
proof -
  obtain r0 where r0: "TableBuilder_new options file = Some r0" "tb_options r0 = options" "tb_inv valid acc r0 [] [] [] []"
    using TableBuilder_new_inv [of valid options acc "file", OF assms(1,3)] by blast
  obtain r1 where r1: "add_all app fl es r0 = Some r1" "\<not> tb_closed r1" "tb_options r1 = options"
    "tb_ok r1 \<longrightarrow> (\<exists>bs cur ies. tb_inv valid acc r1 es bs cur ies)"
    using add_all_inv [OF assms(2) r0(3), of es] assms(4-6) r0(2) by auto
  show ?thesis
  proof (cases "tb_ok r1")
    case True
    then obtain bs cur ies where i: "tb_inv valid acc r1 es bs cur ies" using r1(4) by blast
    have "length (fp_Name p) < 2 ^ 31" if "op_filter_policy (tb_options r1) = Some p" for p
      using assms(1) that r1(3) by (simp add: options_ok_def)
    from Finish_ok [OF assms(2) i assms(6) this] show ?thesis using r0(1) r1(1,3) by (auto simp: write_table_def)
  next
    case False
    then have "TableBuilder_Finish app fl r1 = Some (tb_status r1, r1\<lparr>tb_closed := True\<rparr>)" using r1(2)
      by (simp add: TableBuilder_Finish_def TableBuilder_Flush_def write_filter_def write_metaindex_def write_index_def write_footer_def tb_ok_def)
    then show ?thesis using r0(1) r1(1) False by (simp add: write_table_def tb_ok_def)
  qed
qed

section \<open>Properties\<close>

text \<open>C6: \<open>TableBuilder\<close> is correct up to the footer, errors included.  Building a table of entries in ascending
  order returns, whatever the file does; when \<open>Finish\<close> answers OK the file is the table of the entries (blocks, index,
  filter, metaindex, footer), and any other answer is one that the file gave.\<close>

theorem write_table_writes_table:
  assumes "options_ok valid options" and "file_appends app fl acc" and "acc file = []"
    and "entries_ok valid es" and "ascending (c_Compare (op_comparator options)) es" and "length es < 2 ^ 31"
  shows "\<exists>s r. write_table app fl options file es = Some (s, r)
    \<and> (if ok s then table_bytes valid (c_Compare (op_comparator options)) (op_filter_policy options) (acc (tb_file r)) es
       else reported app fl s)"
proof -
  obtain s r where w: "write_table app fl options file es = Some (s, r)"
    "ok s \<longrightarrow> table_bytes valid (c_Compare (op_comparator options)) (op_filter_policy options) (acc (tb_file r)) es"
    using write_table_ok [of valid options app fl acc "file" es, OF assms] by blast
  then show ?thesis using write_table_status [OF w(1)] by auto
qed

definition memory_append :: "byte list appending" where
  "memory_append f data =
     (if length f + length data < 2 ^ 63 then Some (OK, f @ data) else Some (IOError (str ''disk full'') [], f))"

definition memory_flush :: "byte list flushing" where
  "memory_flush f = Some (OK, f)"

lemma memory_appends: "file_appends memory_append memory_flush (\<lambda>f. f)"
  by (simp add: file_appends_def memory_append_def memory_flush_def ok_def IOError_def Status_new_def)

definition bloom_policy :: FilterPolicy where
  "bloom_policy = \<lparr>fp_Name = str ''leveldb.BuiltinBloomFilter2'', fp_CreateFilter = BloomCreateFilter bloom_10, fp_KeyMayMatch = BloomKeyMayMatch\<rparr>"

definition default_options :: Options where
  "default_options = \<lparr>op_comparator = BytewiseComparator, op_paranoid_checks = False, op_block_size = 4096,
     op_block_restart_interval = 16, op_compression = kSnappyCompression, op_filter_policy = Some bloom_policy\<rparr>"

lemma default_options_ok: "options_ok (\<lambda>_. True) default_options"
proof -
  have "length (str ''leveldb.BuiltinBloomFilter2'') < 2 ^ 31" by (simp add: str_def)
  then show ?thesis
    using bytewise_table.table_comparator_axioms bloom.filter_policy_axioms
    by (simp add: options_ok_def default_options_def bloom_policy_def)
qed

lemma default_entries: "entries_ok (\<lambda>_. True) [([97], [1]), ([98], [2])]"
  "ascending (c_Compare (op_comparator default_options)) [([97], [1]), ([98], [2])]"
  by (simp_all add: entries_ok_def default_options_def BytewiseComparator_def ascending_def) code_simp

theorem write_table_writes_table_witness:
  "\<exists>s r. write_table memory_append memory_flush default_options [] [([97], [1]), ([98], [2])] = Some (s, r)
    \<and> (if ok s then table_bytes (\<lambda>_. True) (c_Compare (op_comparator default_options)) (op_filter_policy default_options)
           (tb_file r) [([97], [1]), ([98], [2])]
       else reported memory_append memory_flush s)"
  by (rule write_table_writes_table [OF default_options_ok memory_appends _ default_entries]) simp_all

text \<open>C38: the invariant of the builder.  \<open>Add\<close> returns and keeps it, whether it writes the index entry that is
  pending, flushes the block that has grown, or only adds to the block: the blocks in the file and the open block are
  the entries so far, in order; the index separates the blocks; the filter has every key; the offset is the size of the file.\<close>

theorem table_builder_keeps_invariant:
  assumes "file_appends app fl acc" and "tb_inv valid acc r es bs cur ies" and "Suc (length es) < 2 ^ 31"
    and "entries_ok valid (es @ [(k, v)])" and "ascending (c_Compare (op_comparator (tb_options r))) (es @ [(k, v)])"
  shows "\<exists>r'. TableBuilder_Add app fl k v r = Some r' \<and> \<not> tb_closed r'
    \<and> (if tb_ok r' then \<exists>bs' cur' ies'. tb_inv valid acc r' (es @ [(k, v)]) bs' cur' ies' else reported app fl (tb_status r'))"
proof -
  obtain r' where r': "TableBuilder_Add app fl k v r = Some r'" "\<not> tb_closed r'"
    "tb_ok r' \<longrightarrow> (\<exists>bs' cur' ies'. tb_inv valid acc r' (es @ [(k, v)]) bs' cur' ies')" using Add_inv [OF assms] by blast
  moreover have "reported app fl (tb_status r')" if "\<not> tb_ok r'"
    using Add_status [OF r'(1)] tb_invD(2) [OF assms(2)] that by (auto simp: status_from_def tb_ok_def)
  ultimately show ?thesis by auto
qed

theorem table_builder_keeps_invariant_witness:
  "\<exists>r r'. TableBuilder_new default_options [] = Some r \<and> TableBuilder_Add memory_append memory_flush [97] [1] r = Some r'
    \<and> (if tb_ok r' then \<exists>bs' cur' ies'. tb_inv (\<lambda>_. True) (\<lambda>f. f) r' [([97], [1])] bs' cur' ies'
       else reported memory_append memory_flush (tb_status r'))"
proof -
  obtain r where r: "TableBuilder_new default_options [] = Some r" "tb_options r = default_options"
    "tb_inv (\<lambda>_. True) (\<lambda>f. f) r [] [] [] []" using TableBuilder_new_inv [OF default_options_ok, of "\<lambda>f. f" "[]"] by auto
  from table_builder_keeps_invariant [OF memory_appends r(3), of "[97]" "[1]"] r(1) show ?thesis
    by (auto simp: entries_ok_def ascending_def)
qed

text \<open>C39: \<open>ChangeOptions\<close> takes a filter policy away from a table that was begun with one: the builder keeps the filter
  block, and \<open>Finish\<close> calls \<open>Name\<close> through the null policy when it writes the metaindex.\<close>

theorem ChangeOptions_drops_filter_policy:
  assumes "options_ok valid options" and "file_appends app fl acc" and "acc file = []" and "op_filter_policy options = Some p"
  shows "\<exists>r r'. TableBuilder_new options file = Some r \<and> ChangeOptions (options\<lparr>op_filter_policy := None\<rparr>) r = (OK, r')
    \<and> write_metaindex app h r' = None"
proof -
  obtain r where r: "TableBuilder_new options file = Some r" "tb_options r = options" "tb_inv valid acc r [] [] [] []"
    using TableBuilder_new_inv [of valid options acc "file", OF assms(1,3)] by blast
  let ?r = "r\<lparr>tb_options := options\<lparr>op_filter_policy := None\<rparr>,
    tb_data_block := (tb_data_block r)\<lparr>bb_interval := op_block_restart_interval options\<rparr>\<rparr>"
  have "ChangeOptions (options\<lparr>op_filter_policy := None\<rparr>) r = (OK, ?r)" by (simp add: ChangeOptions_def r(2))
  moreover have "tb_filter_block r \<noteq> None"
    using tb_invD(14) [OF r(3)] assms(4) r(2) by (auto simp: filter_inv_def split: option.splits)
  then have "write_metaindex app h ?r = None"
    using tb_invD(2) [OF r(3)] by (auto simp: write_metaindex_def tb_ok_def bind_eq_None_conv)
  ultimately show ?thesis using r(1) by blast
qed

theorem ChangeOptions_drops_filter_policy_witness:
  "\<exists>r r'. TableBuilder_new default_options [] = Some r
    \<and> ChangeOptions (default_options\<lparr>op_filter_policy := None\<rparr>) r = (OK, r') \<and> write_metaindex memory_append BlockHandle_new r' = None"
  by (rule ChangeOptions_drops_filter_policy [OF default_options_ok memory_appends]) (simp_all add: default_options_def)

end
