(* ===== verification/Ldb_Two_Level.thy ===== *)
theory Ldb_Two_Level
  imports Ldb_Iterator
begin

text \<open>
  \<open>TwoLevelIterator\<close> (\<open>table/two_level_iterator.cc\<close>): an iterator over the index, whose values are block
  handles, and an iterator over the block that the current handle names, which the function \<open>block_function\<close>
  opens; a call of it that does not return is \<open>None\<close>.  Over an index whose keys separate the blocks it keeps the contract of an iterator over the
  concatenation of the blocks.  Its loops are partial functions: a loop that does not end is \<open>None\<close>, as a call
  that fails an assertion.
\<close>

declare One_nat_def [simp del]

section \<open>The code\<close>

record ('a, 'b) TwoLevelIterator =
  tl_status :: Status
  tl_index :: "'a IteratorWrapper"
  tl_data :: "'b IteratorWrapper"
  tl_handle :: "byte list"

definition NewTwoLevelIterator :: "'a Iterator \<Rightarrow> 'a \<Rightarrow> ('a, 'b) TwoLevelIterator option" where
  "NewTwoLevelIterator iops index = do {
     w \<leftarrow> wrapper_Set iops (Some index) wrapper_new;
     Some \<lparr>tl_status = OK, tl_index = w, tl_data = wrapper_new, tl_handle = []\<rparr> }"

definition SaveError :: "Status \<Rightarrow> ('a, 'b) TwoLevelIterator \<Rightarrow> ('a, 'b) TwoLevelIterator" where
  "SaveError s t = (if ok (tl_status t) \<and> \<not> ok s then t\<lparr>tl_status := s\<rparr> else t)"

definition SetDataIterator :: "'b Iterator \<Rightarrow> 'b option \<Rightarrow> ('a, 'b) TwoLevelIterator \<Rightarrow> ('a, 'b) TwoLevelIterator option" where
  "SetDataIterator dops it t =
     (let t = (if w_iter (tl_data t) \<noteq> None then SaveError (i_status (wrapper_ops dops) (tl_data t)) t else t) in
      do { d \<leftarrow> wrapper_Set dops it (tl_data t); Some (t\<lparr>tl_data := d\<rparr>) })"

definition InitDataBlock :: "'a Iterator \<Rightarrow> 'b Iterator \<Rightarrow> (byte list \<Rightarrow> 'b option) \<Rightarrow> ('a, 'b) TwoLevelIterator
    \<Rightarrow> ('a, 'b) TwoLevelIterator option" where
  "InitDataBlock iops dops block_function t =
     (if \<not> w_valid (tl_index t) then SetDataIterator dops None t
      else do {
        handle \<leftarrow> i_value (wrapper_ops iops) (tl_index t);
        (if w_iter (tl_data t) \<noteq> None \<and> slice_compare handle (tl_handle t) = 0 then Some t
         else do {
           iter \<leftarrow> block_function handle;
           SetDataIterator dops (Some iter) (t\<lparr>tl_handle := handle\<rparr>) }) })"

definition on_data :: "('b IteratorWrapper \<Rightarrow> 'b IteratorWrapper option) \<Rightarrow> ('a, 'b) TwoLevelIterator \<Rightarrow> ('a, 'b) TwoLevelIterator option" where
  "on_data f t = do { d \<leftarrow> f (tl_data t); Some (t\<lparr>tl_data := d\<rparr>) }"

definition on_index :: "('a IteratorWrapper \<Rightarrow> 'a IteratorWrapper option) \<Rightarrow> ('a, 'b) TwoLevelIterator \<Rightarrow> ('a, 'b) TwoLevelIterator option" where
  "on_index f t = do { w \<leftarrow> f (tl_index t); Some (t\<lparr>tl_index := w\<rparr>) }"

definition on_data_if :: "('b IteratorWrapper \<Rightarrow> 'b IteratorWrapper option) \<Rightarrow> ('a, 'b) TwoLevelIterator \<Rightarrow> ('a, 'b) TwoLevelIterator option" where
  "on_data_if f t = (if w_iter (tl_data t) \<noteq> None then on_data f t else Some t)"

partial_function (option) SkipEmptyDataBlocksForward :: "'a Iterator \<Rightarrow> 'b Iterator \<Rightarrow> (byte list \<Rightarrow> 'b option) \<Rightarrow> ('a, 'b) TwoLevelIterator
    \<Rightarrow> ('a, 'b) TwoLevelIterator option" where
  "SkipEmptyDataBlocksForward iops dops block_function t =
     (if w_iter (tl_data t) = None \<or> \<not> w_valid (tl_data t) then
        if \<not> w_valid (tl_index t) then SetDataIterator dops None t
        else do {
          t \<leftarrow> on_index (i_Next (wrapper_ops iops)) t;
          t \<leftarrow> InitDataBlock iops dops block_function t;
          t \<leftarrow> on_data_if (i_SeekToFirst (wrapper_ops dops)) t;
          SkipEmptyDataBlocksForward iops dops block_function t }
      else Some t)"

partial_function (option) SkipEmptyDataBlocksBackward :: "'a Iterator \<Rightarrow> 'b Iterator \<Rightarrow> (byte list \<Rightarrow> 'b option) \<Rightarrow> ('a, 'b) TwoLevelIterator
    \<Rightarrow> ('a, 'b) TwoLevelIterator option" where
  "SkipEmptyDataBlocksBackward iops dops block_function t =
     (if w_iter (tl_data t) = None \<or> \<not> w_valid (tl_data t) then
        if \<not> w_valid (tl_index t) then SetDataIterator dops None t
        else do {
          t \<leftarrow> on_index (i_Prev (wrapper_ops iops)) t;
          t \<leftarrow> InitDataBlock iops dops block_function t;
          t \<leftarrow> on_data_if (i_SeekToLast (wrapper_ops dops)) t;
          SkipEmptyDataBlocksBackward iops dops block_function t }
      else Some t)"

definition two_level_status :: "'a Iterator \<Rightarrow> 'b Iterator \<Rightarrow> ('a, 'b) TwoLevelIterator \<Rightarrow> Status" where
  "two_level_status iops dops t =
     (if \<not> ok (i_status (wrapper_ops iops) (tl_index t)) then i_status (wrapper_ops iops) (tl_index t)
      else if w_iter (tl_data t) \<noteq> None \<and> \<not> ok (i_status (wrapper_ops dops) (tl_data t)) then i_status (wrapper_ops dops) (tl_data t)
      else tl_status t)"

definition two_level_seek :: "'a Iterator \<Rightarrow> 'b Iterator \<Rightarrow> (byte list \<Rightarrow> 'b option) \<Rightarrow> ('a IteratorWrapper \<Rightarrow> 'a IteratorWrapper option)
    \<Rightarrow> ('b IteratorWrapper \<Rightarrow> 'b IteratorWrapper option) \<Rightarrow> ('a, 'b) TwoLevelIterator \<Rightarrow> ('a, 'b) TwoLevelIterator option" where
  "two_level_seek iops dops block_function f g t = do {
     t \<leftarrow> on_index f t;
     t \<leftarrow> InitDataBlock iops dops block_function t;
     on_data_if g t }"

definition two_level_ops :: "'a Iterator \<Rightarrow> 'b Iterator \<Rightarrow> (byte list \<Rightarrow> 'b option) \<Rightarrow> ('a, 'b) TwoLevelIterator Iterator" where
  "two_level_ops iops dops bf = \<lparr>
     i_Valid = (\<lambda>t. w_valid (tl_data t)),
     i_SeekToFirst = (\<lambda>t. Option.bind
        (two_level_seek iops dops bf (i_SeekToFirst (wrapper_ops iops)) (i_SeekToFirst (wrapper_ops dops)) t)
        (SkipEmptyDataBlocksForward iops dops bf)),
     i_SeekToLast = (\<lambda>t. Option.bind
        (two_level_seek iops dops bf (i_SeekToLast (wrapper_ops iops)) (i_SeekToLast (wrapper_ops dops)) t)
        (SkipEmptyDataBlocksBackward iops dops bf)),
     i_Seek = (\<lambda>target t. Option.bind
        (two_level_seek iops dops bf (i_Seek (wrapper_ops iops) target) (i_Seek (wrapper_ops dops) target) t)
        (SkipEmptyDataBlocksForward iops dops bf)),
     i_Next = (\<lambda>t. if w_valid (tl_data t)
        then Option.bind (on_data (i_Next (wrapper_ops dops)) t) (SkipEmptyDataBlocksForward iops dops bf) else None),
     i_Prev = (\<lambda>t. if w_valid (tl_data t)
        then Option.bind (on_data (i_Prev (wrapper_ops dops)) t) (SkipEmptyDataBlocksBackward iops dops bf) else None),
     i_key = (\<lambda>t. i_key (wrapper_ops dops) (tl_data t)),
     i_value = (\<lambda>t. i_value (wrapper_ops dops) (tl_data t)),
     i_status = two_level_status iops dops\<rparr>"

section \<open>The contract\<close>

text \<open>The blocks that the entries of an index name, and where the blocks before \<open>k\<close> end.\<close>

definition blocks :: "(byte list \<Rightarrow> entry list) \<Rightarrow> entry list \<Rightarrow> entry list" where
  "blocks blk ies = concat (map (blk \<circ> snd) ies)"

definition block_start :: "(byte list \<Rightarrow> entry list) \<Rightarrow> entry list \<Rightarrow> nat \<Rightarrow> nat" where
  "block_start blk ies k = length (blocks blk (take k ies))"

text \<open>An index separates its blocks: the keys of a block are not after its index key, the keys of later blocks are.\<close>

definition separates :: "comparing \<Rightarrow> (byte list \<Rightarrow> entry list) \<Rightarrow> entry list \<Rightarrow> bool" where
  "separates cmp blk ies \<longleftrightarrow> (\<forall>k<length ies. (\<forall>e\<in>set (blk (snd (ies ! k))). cmp (fst e) (fst (ies ! k)) \<le> 0)
     \<and> (\<forall>e\<in>set (blocks blk (drop (Suc k) ies)). cmp (fst (ies ! k)) (fst e) < 0))"

lemma block_start_Suc:
  "k < length ies \<Longrightarrow> block_start blk ies (Suc k) = block_start blk ies k + length (blk (snd (ies ! k)))"
  by (simp add: block_start_def blocks_def take_Suc_conv_app_nth)

lemma block_start_0 [simp]: "block_start blk ies 0 = 0"
  by (simp add: block_start_def blocks_def)

lemma block_start_all: "length ies \<le> k \<Longrightarrow> block_start blk ies k = length (blocks blk ies)"
  by (simp add: block_start_def)

lemma blocks_split:
  assumes "k < length ies"
  shows "blocks blk ies = blocks blk (take k ies) @ blk (snd (ies ! k)) @ blocks blk (drop (Suc k) ies)"
proof -
  have "ies = take k ies @ ies ! k # drop (Suc k) ies" using assms by (rule id_take_nth_drop)
  then have "blocks blk ies = blocks blk (take k ies @ ies ! k # drop (Suc k) ies)" by simp
  then show ?thesis by (simp add: blocks_def)
qed

lemma blocks_nth:
  assumes "k < length ies" and "p < length (blk (snd (ies ! k)))"
  shows "blocks blk ies ! (block_start blk ies k + p) = blk (snd (ies ! k)) ! p"
    and "block_start blk ies k + p < length (blocks blk ies)"
  using assms(2) by (simp_all add: blocks_split [OF assms(1)] block_start_def nth_append)

lemma blocks_member:
  assumes "e \<in> set (blocks blk ies)"
  obtains k where "k < length ies" and "e \<in> set (blk (snd (ies ! k)))"
proof -
  obtain x where "x \<in> set ies" "e \<in> set (blk (snd x))" using assms by (auto simp: blocks_def)
  then show ?thesis using that in_set_conv_nth [of x ies] by blast
qed

locale two_level = index: iterator_over iops cmp valid istand + data: iterator_over dops cmp valid dstand + key_order valid cmp
  for iops :: "'a Iterator" and dops :: "'b Iterator" and cmp :: comparing and valid istand dstand
begin

text \<open>The index stands at \<open>k\<close>; the data iterator, if there is one, at \<open>p\<close> of the block that the handle names.\<close>

definition opens :: "(byte list \<Rightarrow> 'b option) \<Rightarrow> (byte list \<Rightarrow> entry list) \<Rightarrow> entry list \<Rightarrow> bool" where
  "opens bf blk ies \<longleftrightarrow> (\<forall>h\<in>snd ` set ies. \<exists>d p. bf h = Some d \<and> dstand (blk h) p d)"

definition in_block :: "(byte list \<Rightarrow> entry list) \<Rightarrow> nat \<Rightarrow> ('a, 'b) TwoLevelIterator \<Rightarrow> bool" where
  "in_block blk p t \<longleftrightarrow> wrapped dops dstand (blk (tl_handle t)) p (tl_data t)"

definition no_block :: "('a, 'b) TwoLevelIterator \<Rightarrow> bool" where
  "no_block t \<longleftrightarrow> w_iter (tl_data t) = None \<and> \<not> w_valid (tl_data t)"

definition index_at :: "entry list \<Rightarrow> nat \<Rightarrow> ('a, 'b) TwoLevelIterator \<Rightarrow> bool" where
  "index_at ies k t \<longleftrightarrow> tl_status t = OK \<and> wrapped iops istand ies k (tl_index t)"

definition in_index :: "(byte list \<Rightarrow> entry list) \<Rightarrow> entry list \<Rightarrow> nat \<Rightarrow> nat \<Rightarrow> ('a, 'b) TwoLevelIterator \<Rightarrow> bool" where
  "in_index blk ies k p t \<longleftrightarrow> index_at ies k t \<and>
     (if k < length ies then tl_handle t = snd (ies ! k) \<and> in_block blk p t else no_block t)"

definition stands_in :: "(byte list \<Rightarrow> entry list) \<Rightarrow> entry list \<Rightarrow> nat \<Rightarrow> ('a, 'b) TwoLevelIterator \<Rightarrow> bool" where
  "stands_in blk ies j t \<longleftrightarrow>
     (if j < length (blocks blk ies)
      then \<exists>k p. k < length ies \<and> p < length (blk (snd (ies ! k))) \<and> j = block_start blk ies k + p \<and> in_index blk ies k p t
      else j = length (blocks blk ies) \<and> no_block t \<and> (\<exists>k. index_at ies k t))"

lemmas wrapped_index = wrapper_over [OF index.iterator_over_axioms]
lemmas wrapped_data = wrapper_over [OF data.iterator_over_axioms]

lemma index_place:
  assumes "index_at ies k t"
  shows "k \<le> length ies" and "w_valid (tl_index t) \<longleftrightarrow> k < length ies" and "i_status (wrapper_ops iops) (tl_index t) = OK"
    and "k < length ies \<Longrightarrow> i_value (wrapper_ops iops) (tl_index t) = Some (snd (ies ! k))"
  using assms iterator_over.place [OF wrapped_index, of ies k "tl_index t"] iterator_over.here [OF wrapped_index, of ies k "tl_index t"]
  by (auto simp: index_at_def wrapper_ops_def)

lemma block_place:
  assumes "in_block blk p t"
  shows "p \<le> length (blk (tl_handle t))" and "w_valid (tl_data t) \<longleftrightarrow> p < length (blk (tl_handle t))"
    and "i_status (wrapper_ops dops) (tl_data t) = OK" and "w_iter (tl_data t) \<noteq> None"
  using assms iterator_over.place [OF wrapped_data, of "blk (tl_handle t)" p "tl_data t"]
  by (auto simp: in_block_def wrapper_ops_def wrapped_def)

text \<open>What the data iterator can be between two calls.\<close>

definition any_block :: "(byte list \<Rightarrow> entry list) \<Rightarrow> ('a, 'b) TwoLevelIterator \<Rightarrow> bool" where
  "any_block blk t \<longleftrightarrow> no_block t \<or> (\<exists>p. in_block blk p t)"

lemma SaveError_OK [simp]: "SaveError OK t = t"
  by (simp add: SaveError_def ok_def)

lemma SetDataIterator_None:
  assumes "any_block blk t"
  shows "SetDataIterator dops None t = Some (t\<lparr>tl_data := (tl_data t)\<lparr>w_iter := None, w_valid := False\<rparr>\<rparr>)"
  using assms block_place(3) by (auto simp: any_block_def no_block_def SetDataIterator_def wrapper_Set_def Let_def)

lemma SetDataIterator_Some:
  assumes "w_iter (tl_data t) = None \<or> i_status (wrapper_ops dops) (tl_data t) = OK" and "dstand (blk (tl_handle t)) p d"
  shows "\<exists>d'. SetDataIterator dops (Some d) t = Some (t\<lparr>tl_data := d'\<rparr>) \<and> in_block blk p (t\<lparr>tl_data := d'\<rparr>)"
proof -
  obtain d' where "wrapper_Update dops (tl_data t\<lparr>w_iter := Some d\<rparr>) = Some d'" "wrapped dops dstand (blk (tl_handle t)) p d'"
    using wrapper_Update_ok [OF data.iterator_over_axioms, of "(tl_data t)\<lparr>w_iter := Some d\<rparr>" d, OF _ assms(2)] by auto
  then show ?thesis using assms(1) by (auto simp: SetDataIterator_def wrapper_Set_def Let_def in_block_def)
qed

lemma InitDataBlock_ok:
  assumes op: "opens bf blk ies" and "index_at ies k t" and "any_block blk t"
  shows "\<exists>t' p. InitDataBlock iops dops bf t = Some t' \<and> in_index blk ies k p t'"
proof (cases "k < length ies")
  case False
  then show ?thesis using assms(2) index_place(2) [OF assms(2)]
    by (simp add: InitDataBlock_def SetDataIterator_None [OF assms(3)] in_index_def index_at_def no_block_def)
next
  case True
  have h: "i_value (wrapper_ops iops) (tl_index t) = Some (snd (ies ! k))" "w_valid (tl_index t)"
    using index_place(2,4) [OF assms(2)] True by simp_all
  show ?thesis
  proof (cases "w_iter (tl_data t) \<noteq> None \<and> snd (ies ! k) = tl_handle t")
    case same: True
    then show ?thesis using h assms(2,3) True
      by (auto simp: InitDataBlock_def in_index_def any_block_def no_block_def slice_compare_lex lex_compare_0)
  next
    case False
    let ?t = "t\<lparr>tl_handle := snd (ies ! k)\<rparr>"
    obtain d p where d: "bf (snd (ies ! k)) = Some d" "dstand (blk (snd (ies ! k))) p d"
      using op True by (fastforce simp: opens_def)
    have "w_iter (tl_data ?t) = None \<or> i_status (wrapper_ops dops) (tl_data ?t) = OK"
      using assms(3) block_place(3) by (auto simp: any_block_def no_block_def)
    from SetDataIterator_Some [of ?t blk p d, OF this] d(2) obtain d' where
      "SetDataIterator dops (Some d) ?t = Some (?t\<lparr>tl_data := d'\<rparr>)" "in_block blk p (?t\<lparr>tl_data := d'\<rparr>)" by auto
    moreover have "InitDataBlock iops dops bf t = SetDataIterator dops (Some d) ?t"
      using False h d(1) by (auto simp: InitDataBlock_def slice_compare_lex lex_compare_0)
    ultimately show ?thesis using assms(2) True by (auto simp: in_index_def index_at_def intro!: exI [of _ p])
  qed
qed

lemma in_index_any_block: "in_index blk ies k p t \<Longrightarrow> index_at ies k t \<and> any_block blk t"
  by (auto simp: in_index_def any_block_def split: if_splits)

text \<open>A step of the index, the block it names, and a step in that block.\<close>

lemma seek_ok:
  assumes "opens bf blk ies" and "index_at ies k t" and "any_block blk t"
    and "\<exists>w. f (tl_index t) = Some w \<and> wrapped iops istand ies k' w"
    and "\<And>p u. k' < length ies \<Longrightarrow> wrapped dops dstand (blk (snd (ies ! k'))) p u \<Longrightarrow>
      \<exists>u'. g u = Some u' \<and> wrapped dops dstand (blk (snd (ies ! k'))) q u'"
  shows "\<exists>t'. two_level_seek iops dops bf f g t = Some t' \<and> in_index blk ies k' q t'"
proof -
  obtain w where w: "f (tl_index t) = Some w" "wrapped iops istand ies k' w" using assms(4) by blast
  let ?t = "t\<lparr>tl_index := w\<rparr>"
  have at: "index_at ies k' ?t" "any_block blk ?t"
    using assms(2,3) w(2) by (auto simp: index_at_def any_block_def in_block_def no_block_def)
  obtain t' p where t': "InitDataBlock iops dops bf ?t = Some t'" "in_index blk ies k' p t'"
    using InitDataBlock_ok [OF assms(1) at] by blast
  have "\<exists>t''. on_data_if g t' = Some t'' \<and> in_index blk ies k' q t''"
  proof (cases "k' < length ies")
    case True
    then have b: "in_block blk p t'" "tl_handle t' = snd (ies ! k')" using t'(2) by (simp_all add: in_index_def)
    then obtain u' where "g (tl_data t') = Some u'" "wrapped dops dstand (blk (snd (ies ! k'))) q u'"
      using assms(5) [OF True, of p "tl_data t'"] by (auto simp: in_block_def)
    then show ?thesis using b(2) t'(2) True block_place(4) [OF b(1)]
      by (auto simp: on_data_if_def on_data_def in_index_def index_at_def in_block_def)
  next
    case False
    then show ?thesis using t'(2) by (simp add: on_data_if_def in_index_def no_block_def)
  qed
  then show ?thesis using w(1) t'(1) by (simp add: two_level_seek_def on_index_def)
qed

lemma no_block_stops:
  assumes "no_block t" and "index_at ies k t" and "length ies \<le> k"
  shows "\<exists>t'. SkipEmptyDataBlocksForward iops dops bf t = Some t' \<and> stands_in blk ies (length (blocks blk ies)) t'"
    and "\<exists>t'. SkipEmptyDataBlocksBackward iops dops bf t = Some t' \<and> stands_in blk ies (length (blocks blk ies)) t'"
  using assms(1) index_place(1,2) [OF assms(2)] assms(2,3) SetDataIterator_None [of blk t]
  by (auto simp: SkipEmptyDataBlocksForward.simps [of _ _ _ t] SkipEmptyDataBlocksBackward.simps [of _ _ _ t]
      no_block_def any_block_def stands_in_def index_at_def)

lemma skips_nothing:
  assumes "in_index blk ies k p t" and "k < length ies" and "p < length (blk (snd (ies ! k)))"
  shows "SkipEmptyDataBlocksForward iops dops bf t = Some t" and "SkipEmptyDataBlocksBackward iops dops bf t = Some t"
    and "stands_in blk ies (block_start blk ies k + p) t"
proof -
  have b: "in_block blk p t" "tl_handle t = snd (ies ! k)" using assms(1,2) by (simp_all add: in_index_def)
  show "SkipEmptyDataBlocksForward iops dops bf t = Some t" "SkipEmptyDataBlocksBackward iops dops bf t = Some t"
    using block_place [OF b(1)] b(2) assms(3)
    by (auto simp: SkipEmptyDataBlocksForward.simps [of _ _ _ t] SkipEmptyDataBlocksBackward.simps [of _ _ _ t])
  show "stands_in blk ies (block_start blk ies k + p) t"
    using blocks_nth(2) [where blk = blk and ies = ies and k = k and p = p, OF assms(2,3)] assms by (auto simp: stands_in_def)
qed

lemma skips:
  assumes "in_index blk ies k p t" and "\<not> (k < length ies \<and> p < length (blk (snd (ies ! k))))"
  shows "w_iter (tl_data t) = None \<or> \<not> w_valid (tl_data t)" and "w_valid (tl_index t) \<longleftrightarrow> k < length ies"
  using assms block_place [of blk p t] index_place(2) [of ies k t] by (auto simp: in_index_def no_block_def split: if_splits)

lemma bind_seek: "Option.bind (two_level_seek iops dops bf f g t) h =
    do { t \<leftarrow> on_index f t; t \<leftarrow> InitDataBlock iops dops bf t; t \<leftarrow> on_data_if g t; h t }"
  by (simp add: two_level_seek_def)

lemma skip_forward:
  assumes op: "opens bf blk ies"
  shows "in_index blk ies k p t \<Longrightarrow> k < length ies \<Longrightarrow> p \<le> length (blk (snd (ies ! k))) \<Longrightarrow>
    \<exists>t'. SkipEmptyDataBlocksForward iops dops bf t = Some t' \<and> stands_in blk ies (block_start blk ies k + p) t'"
proof (induction "length ies - k" arbitrary: k p t rule: less_induct)
  case less
  show ?case
  proof (cases "p < length (blk (snd (ies ! k)))")
    case True
    from skips_nothing [OF less.prems(1,2) this] show ?thesis by blast
  next
    case False
    with less.prems(2,3) have start: "block_start blk ies k + p = block_start blk ies (Suc k)" by (simp add: block_start_Suc)
    note st = in_index_any_block [OF less.prems(1)]
    have "\<exists>t'. two_level_seek iops dops bf (i_Next (wrapper_ops iops)) (i_SeekToFirst (wrapper_ops dops)) t = Some t'
        \<and> in_index blk ies (Suc k) 0 t'"
      using st less.prems(2) iterator_over.to_next [OF wrapped_index, of ies k "tl_index t"]
      by (intro seek_ok [OF op conjunct1 conjunct2]) (auto simp: index_at_def intro: iterator_over.to_first [OF wrapped_data])
    then obtain t' where t': "two_level_seek iops dops bf (i_Next (wrapper_ops iops)) (i_SeekToFirst (wrapper_ops dops)) t = Some t'"
      "in_index blk ies (Suc k) 0 t'" by blast
    have eq: "SkipEmptyDataBlocksForward iops dops bf t = SkipEmptyDataBlocksForward iops dops bf t'"
      using skips [OF less.prems(1)] False less.prems(2) bind_seek [of bf "i_Next (wrapper_ops iops)" "i_SeekToFirst (wrapper_ops dops)" t
          "SkipEmptyDataBlocksForward iops dops bf"] t'(1)
      by (simp add: SkipEmptyDataBlocksForward.simps [of _ _ _ t])
    show ?thesis
    proof (cases "Suc k < length ies")
      case True
      with less.hyps [OF _ t'(2) True] less.prems(2) show ?thesis by (simp add: eq start)
    next
      case False
      then have "no_block t'" "index_at ies (Suc k) t'" using t'(2) by (simp_all add: in_index_def)
      from no_block_stops(1) [OF this, of bf blk] False show ?thesis by (simp add: eq start block_start_all)
    qed
  qed
qed

lemma skip_backward:
  assumes op: "opens bf blk ies"
  shows "in_index blk ies k p t \<Longrightarrow> k < length ies \<Longrightarrow> p = length (blk (snd (ies ! k))) \<Longrightarrow>
    \<exists>t'. SkipEmptyDataBlocksBackward iops dops bf t = Some t'
      \<and> stands_in blk ies (before_place (blocks blk ies) (block_start blk ies k)) t'"
proof (induction k arbitrary: p t rule: less_induct)
  case (less k)
  let ?k = "before_place ies k"
  note st = in_index_any_block [OF less.prems(1)]
  have "\<exists>t'. two_level_seek iops dops bf (i_Prev (wrapper_ops iops)) (i_SeekToLast (wrapper_ops dops)) t = Some t'
      \<and> in_index blk ies ?k (length (blk (snd (ies ! ?k))) - 1) t'"
    using st less.prems(2) iterator_over.to_prev [OF wrapped_index, of ies k "tl_index t"]
    by (intro seek_ok [OF op conjunct1 conjunct2]) (auto simp: index_at_def intro: iterator_over.to_last [OF wrapped_data])
  then obtain t' where t': "two_level_seek iops dops bf (i_Prev (wrapper_ops iops)) (i_SeekToLast (wrapper_ops dops)) t = Some t'"
    "in_index blk ies ?k (length (blk (snd (ies ! ?k))) - 1) t'" by blast
  have eq: "SkipEmptyDataBlocksBackward iops dops bf t = SkipEmptyDataBlocksBackward iops dops bf t'"
    using skips [OF less.prems(1)] less.prems(2,3) bind_seek [of bf "i_Prev (wrapper_ops iops)" "i_SeekToLast (wrapper_ops dops)" t
        "SkipEmptyDataBlocksBackward iops dops bf"] t'(1)
    by (simp add: SkipEmptyDataBlocksBackward.simps [of _ _ _ t])
  show ?case
  proof (cases k)
    case 0
    then have "no_block t'" "index_at ies ?k t'" using t'(2) by (simp_all add: in_index_def before_place_def)
    from no_block_stops(2) [OF this, of bf blk] show ?thesis using 0 by (simp add: eq before_place_def)
  next
    case (Suc i)
    then have i: "?k = i" "i < k" "i < length ies" using less.prems(2) by (simp_all add: before_place_def)
    show ?thesis
    proof (cases "blk (snd (ies ! i)) = []")
      case True
      from less.IH [OF i(2) t'(2) [unfolded i(1)] i(3)] True show ?thesis
        using i(3) Suc by (simp add: eq block_start_Suc)
    next
      case False
      then have l: "length (blk (snd (ies ! i))) - 1 < length (blk (snd (ies ! i)))" by simp
      then have "block_start blk ies k - 1 = block_start blk ies i + (length (blk (snd (ies ! i))) - 1)"
        using block_start_Suc [OF i(3), of blk] Suc by simp
      with l skips_nothing [OF t'(2) [unfolded i(1)] i(3) l] show ?thesis
        using i(3) Suc False by (simp add: eq block_start_Suc before_place_def)
    qed
  qed
qed

text \<open>What an index that separates its blocks gives: an ascending concatenation, and the place of a target.\<close>

lemma opens_blocks:
  assumes "opens bf blk ies" and "k < length ies"
  shows "ascending cmp (blk (snd (ies ! k)))" and "list_all (valid \<circ> fst) (blk (snd (ies ! k)))"
proof -
  obtain d p where "dstand (blk (snd (ies ! k))) p d" using assms by (fastforce simp: opens_def)
  from data.entries [OF this] show "ascending cmp (blk (snd (ies ! k)))" "list_all (valid \<circ> fst) (blk (snd (ies ! k)))"
    by simp_all
qed

lemma blocks_valid:
  assumes "opens bf blk ies"
  shows "list_all (valid \<circ> fst) (blocks blk ies)"
proof -
  have "valid (fst e)" if e: "e \<in> set (blocks blk ies)" for e
  proof -
    from e obtain k where k: "k < length ies" "e \<in> set (blk (snd (ies ! k)))" by (rule blocks_member)
    with opens_blocks(2) [OF assms k(1)] show ?thesis by (simp add: list_all_iff)
  qed
  then show ?thesis by (simp add: list_all_iff)
qed

lemma blocks_ascending:
  assumes op: "opens bf blk ies" and sep: "separates cmp blk ies" and v: "list_all (valid \<circ> fst) ies"
  shows "ascending cmp (blocks blk ies)"
proof -
  have "ascending cmp (blocks blk (drop k ies))" if "k \<le> length ies" for k
    using that
  proof (induction "length ies - k" arbitrary: k)
    case (Suc n)
    then have k: "k < length ies" and n: "n = length ies - Suc k" by auto
    have eq: "blocks blk (drop k ies) = blk (snd (ies ! k)) @ blocks blk (drop (Suc k) ies)"
      using k by (simp add: blocks_def Cons_nth_drop_Suc [symmetric])
    have "cmp (fst e) (fst f) < 0" if "e \<in> set (blk (snd (ies ! k)))" "f \<in> set (blocks blk (drop (Suc k) ies))" for e f
    proof (rule cmp_less_trans2)
      show "cmp (fst e) (fst (ies ! k)) \<le> 0" "cmp (fst (ies ! k)) (fst f) < 0" using sep k that by (simp_all add: separates_def)
      have "f \<in> set (blocks blk ies)" "e \<in> set (blocks blk ies)" using that by (simp_all add: blocks_split [OF k])
      then show "valid (fst e)" "valid (fst f)" using blocks_valid [OF op] by (simp_all add: list_all_iff)
      show "valid (fst (ies ! k))" using v k by (simp add: list_all_length)
    qed
    then show ?case using Suc.hyps(1) [OF n] k opens_blocks(1) [OF op k] by (simp add: eq ascending_def sorted_wrt_append)
  qed (simp add: blocks_def ascending_def)
  from this [of 0] show ?thesis by simp
qed

lemma lower_blocks:
  assumes op: "opens bf blk ies" and sep: "separates cmp blk ies" and v: "list_all (valid \<circ> fst) ies" and t: "valid t"
  defines "i \<equiv> lower cmp ies t"
  shows "lower cmp (blocks blk ies) t = (if i < length ies then block_start blk ies i + lower cmp (blk (snd (ies ! i))) t
    else length (blocks blk ies))"
proof -
  have before: "cmp (fst e) t < 0" if "e \<in> set (blocks blk (take i ies))" for e
  proof -
    from that obtain k where "k < length (take i ies)" "e \<in> set (blk (snd (take i ies ! k)))" by (rule blocks_member)
    then have k: "k < i" "k < length ies" "e \<in> set (blk (snd (ies ! k)))" by simp_all
    have "cmp (fst (ies ! k)) t < 0"
      using k(1) set_takeWhileD [OF nth_mem, of k "\<lambda>e. cmp (fst e) t < 0" ies]
      by (simp add: i_def lower_def takeWhile_nth)
    moreover have "cmp (fst e) (fst (ies ! k)) \<le> 0" using sep k(2,3) by (simp add: separates_def)
    moreover have "e \<in> set (blocks blk ies)" using k(3) by (simp add: blocks_split [OF k(2)])
    then have "valid (fst e)" using blocks_valid [OF op] by (simp add: list_all_iff)
    moreover have "valid (fst (ies ! k))" using v k(2) by (simp add: list_all_length)
    ultimately show ?thesis using cmp_less_trans2 t by blast
  qed
  show ?thesis
  proof (cases "i < length ies")
    case False
    then have "take i ies = ies" by simp
    with before have "takeWhile (\<lambda>e. cmp (fst e) t < 0) (blocks blk ies) = blocks blk ies" by simp
    then show ?thesis using False by (simp add: lower_def del: takeWhile_eq_all_conv)
  next
    case True
    have "\<not> cmp (fst (ies ! i)) t < 0" using True nth_length_takeWhile [of "\<lambda>e. cmp (fst e) t < 0" ies] by (simp add: i_def lower_def)
    moreover have vi: "valid (fst (ies ! i))" using v True by (simp add: list_all_length)
    ultimately have ti: "cmp t (fst (ies ! i)) \<le> 0" using cmp_flip [OF t vi] cmp_flip [OF vi t] by linarith
    have after: "\<not> cmp (fst e) t < 0" if "e \<in> set (blocks blk (drop (Suc i) ies))" for e
    proof -
      have "e \<in> set (blocks blk ies)" using that by (simp add: blocks_split [OF True])
      then have ve: "valid (fst e)" using blocks_valid [OF op] by (simp add: list_all_iff)
      have "cmp (fst (ies ! i)) (fst e) < 0" using sep True that by (simp add: separates_def)
      then have "cmp t (fst e) < 0" using cmp_less_trans2 [OF t vi ve ti] by simp
      then show ?thesis using cmp_flip [OF t ve] by linarith
    qed
    let ?P = "\<lambda>e. cmp (fst e) t < 0"
    have "takeWhile ?P (blk (snd (ies ! i)) @ blocks blk (drop (Suc i) ies)) = takeWhile ?P (blk (snd (ies ! i)))"
      using after by (cases "blocks blk (drop (Suc i) ies)") (auto simp: takeWhile_append takeWhile_eq_all_conv [THEN iffD2])
    then have "takeWhile ?P (blocks blk ies) = blocks blk (take i ies) @ takeWhile ?P (blk (snd (ies ! i)))"
      using before by (simp add: blocks_split [OF True])
    then show ?thesis using True by (simp add: lower_def block_start_def)
  qed
qed

end

definition on_two_level :: "'a Iterator \<Rightarrow> 'b Iterator \<Rightarrow> comparing \<Rightarrow> (entry list \<Rightarrow> nat \<Rightarrow> 'a \<Rightarrow> bool) \<Rightarrow> (entry list \<Rightarrow> nat \<Rightarrow> 'b \<Rightarrow> bool)
    \<Rightarrow> (byte list \<Rightarrow> 'b option) \<Rightarrow> entry list \<Rightarrow> nat \<Rightarrow> ('a, 'b) TwoLevelIterator \<Rightarrow> bool" where
  "on_two_level iops dops cmp istand dstand bf es j t \<longleftrightarrow> (\<exists>blk ies. es = blocks blk ies \<and> separates cmp blk ies
     \<and> two_level.opens dstand bf blk ies \<and> two_level.stands_in iops dops istand dstand blk ies j t)"

context two_level
begin

lemma two_level_over: "iterator_over (two_level_ops iops dops bf) cmp valid (on_two_level iops dops cmp istand dstand bf)"
proof unfold_locales
  fix es j t
  assume "on_two_level iops dops cmp istand dstand bf es j t"
  then obtain blk ies where es: "es = blocks blk ies" and sep: "separates cmp blk ies"
    and op: "opens bf blk ies" and st: "stands_in blk ies j t" by (auto simp: on_two_level_def)
  have intro: "on_two_level iops dops cmp istand dstand bf es j' t'" if "stands_in blk ies j' t'" for j' t'
    using that es sep op by (auto simp: on_two_level_def)
  have "(\<exists>k. index_at ies k t) \<and> any_block blk t"
  proof (cases "j < length (blocks blk ies)")
    case True
    then obtain k p where "in_index blk ies k p t" using st by (auto simp: stands_in_def)
    from in_index_any_block [OF this] show ?thesis by blast
  next
    case False
    then show ?thesis using st by (simp add: stands_in_def any_block_def)
  qed
  then obtain k0 where at: "index_at ies k0 t" and ab: "any_block blk t" by blast
  have v: "list_all (valid \<circ> fst) ies" using at index.entries by (auto simp: index_at_def wrapped_def)
  note seek = seek_ok [OF op at ab]
  have iw: "wrapped iops istand ies k0 (tl_index t)" using at by (simp add: index_at_def)
  show "j \<le> length es \<and> (i_Valid (two_level_ops iops dops bf) t \<longleftrightarrow> j < length es) \<and> i_status (two_level_ops iops dops bf) t = OK"
    using st block_place [of blk _ t] index_place(3) [OF at] at
    by (auto simp: es stands_in_def two_level_ops_def in_index_def no_block_def two_level_status_def index_at_def ok_def split: if_splits)
  show "ascending cmp es \<and> list_all (valid \<circ> fst) es"
    using blocks_ascending [OF op sep v] blocks_valid [OF op] es by simp
  have fwd: "\<exists>t'. Option.bind r (SkipEmptyDataBlocksForward iops dops bf) = Some t' \<and> on_two_level iops dops cmp istand dstand bf es j' t'"
    if "\<exists>u. r = Some u \<and> in_index blk ies k p u"
      "if k < length ies then p \<le> length (blk (snd (ies ! k))) \<and> j' = block_start blk ies k + p else j' = length es" for r k p j'
  proof (cases "k < length ies")
    case True
    with that skip_forward [OF op, of k p] intro show ?thesis by fastforce
  next
    case False
    with that no_block_stops(1) [of _ ies k bf blk] intro show ?thesis by (fastforce simp: in_index_def es)
  qed
  have bwd: "\<exists>t'. Option.bind r (SkipEmptyDataBlocksBackward iops dops bf) = Some t' \<and> on_two_level iops dops cmp istand dstand bf es j' t'"
    if "\<exists>u. r = Some u \<and> in_index blk ies k p u"
      "if k < length ies then if p < length (blk (snd (ies ! k))) then j' = block_start blk ies k + p
         else p = length (blk (snd (ies ! k))) \<and> j' = before_place es (block_start blk ies k)
       else j' = length es" for r k p j'
  proof (cases "k < length ies")
    case True
    then show ?thesis using that skip_backward [OF op, of k p] skips_nothing(2,3) [of blk ies k p] intro
      by (cases "p < length (blk (snd (ies ! k)))") (fastforce simp: es)+
  next
    case False
    with that no_block_stops(2) [of _ ies k bf blk] intro show ?thesis by (fastforce simp: in_index_def es)
  qed
  note idefs = two_level_ops_def
  show "\<exists>t'. i_SeekToFirst (two_level_ops iops dops bf) t = Some t' \<and> on_two_level iops dops cmp istand dstand bf es 0 t'"
    unfolding idefs Iterator.simps
  proof (rule fwd)
    show "\<exists>u. two_level_seek iops dops bf (i_SeekToFirst (wrapper_ops iops)) (i_SeekToFirst (wrapper_ops dops)) t = Some u
        \<and> in_index blk ies 0 0 u"
      by (rule seek, rule iterator_over.to_first [OF wrapped_index iw]) (rule iterator_over.to_first [OF wrapped_data])
  qed (simp add: es blocks_def)
  show "\<exists>t'. i_SeekToLast (two_level_ops iops dops bf) t = Some t' \<and> on_two_level iops dops cmp istand dstand bf es (length es - 1) t'"
    unfolding idefs Iterator.simps
  proof (rule bwd)
    show "\<exists>u. two_level_seek iops dops bf (i_SeekToLast (wrapper_ops iops)) (i_SeekToLast (wrapper_ops dops)) t = Some u
        \<and> in_index blk ies (length ies - 1) (length (blk (snd (ies ! (length ies - 1)))) - 1) u"
      by (rule seek, rule iterator_over.to_last [OF wrapped_index iw]) (rule iterator_over.to_last [OF wrapped_data])
    show "if length ies - 1 < length ies then
        if length (blk (snd (ies ! (length ies - 1)))) - 1 < length (blk (snd (ies ! (length ies - 1))))
        then length es - 1 = block_start blk ies (length ies - 1) + (length (blk (snd (ies ! (length ies - 1)))) - 1)
        else length (blk (snd (ies ! (length ies - 1)))) - 1 = length (blk (snd (ies ! (length ies - 1)))) \<and>
          length es - 1 = before_place es (block_start blk ies (length ies - 1))
      else length es - 1 = length es"
    proof (cases "length ies")
      case 0
      then show ?thesis by (simp add: es blocks_def)
    next
      case (Suc n)
      then show ?thesis using block_start_Suc [of n ies blk] block_start_all [of ies "length ies" blk]
        by (cases "length (blk (snd (ies ! n)))") (simp_all add: es before_place_def)
    qed
  qed
  show "\<exists>t'. i_Seek (two_level_ops iops dops bf) target t = Some t'
      \<and> on_two_level iops dops cmp istand dstand bf es (lower cmp es target) t'" if "valid target" for target
    unfolding idefs Iterator.simps
  proof (rule fwd)
    show "\<exists>u. two_level_seek iops dops bf (i_Seek (wrapper_ops iops) target) (i_Seek (wrapper_ops dops) target) t = Some u
        \<and> in_index blk ies (lower cmp ies target) (lower cmp (blk (snd (ies ! lower cmp ies target))) target) u"
      by (rule seek, rule iterator_over.to_target [OF wrapped_index iw that]) (rule iterator_over.to_target [OF wrapped_data _ that])
  qed (simp add: es lower_blocks [OF op sep v that], simp add: lower_def length_takeWhile_le)
  assume j: "j < length es"
  then obtain k p where k: "k < length ies" and p: "p < length (blk (snd (ies ! k)))" and jk: "j = block_start blk ies k + p"
    and ix: "in_index blk ies k p t" using st unfolding stands_in_def es by (metis (no_types))
  have b: "in_block blk p t" "tl_handle t = snd (ies ! k)" "index_at ies k t" using ix k by (simp_all add: in_index_def)
  have w: "wrapped dops dstand (blk (snd (ies ! k))) p (tl_data t)" using b by (simp add: in_block_def)
  have V: "w_valid (tl_data t)" using block_place(2) [OF b(1)] b(2) p by simp
  show "i_key (two_level_ops iops dops bf) t = Some (fst (es ! j)) \<and> i_value (two_level_ops iops dops bf) t = Some (snd (es ! j))"
    using iterator_over.here [OF wrapped_data w p] blocks_nth(1) [where blk = blk and ies = ies and k = k and p = p, OF k p] by (simp add: idefs es jk)
  have move: "\<exists>u. on_data f t = Some u \<and> in_index blk ies k p' u"
    if "\<exists>w'. f (tl_data t) = Some w' \<and> wrapped dops dstand (blk (snd (ies ! k))) p' w'" for f p'
    using that b k by (auto simp: on_data_def in_index_def in_block_def index_at_def)
  show "\<exists>t'. i_Next (two_level_ops iops dops bf) t = Some t' \<and> on_two_level iops dops cmp istand dstand bf es (Suc j) t'"
    using fwd [OF move [where f = "i_Next (wrapper_ops dops)" and p' = "Suc p",
      OF iterator_over.to_next [OF wrapped_data w p]], of "Suc j"] V k p jk by (simp add: idefs)
  show "\<exists>t'. i_Prev (two_level_ops iops dops bf) t = Some t' \<and> on_two_level iops dops cmp istand dstand bf es (before_place es j) t'"
    using bwd [OF move [where f = "i_Prev (wrapper_ops dops)", OF iterator_over.to_prev [OF wrapped_data w p]],
        of "before_place es j"] V k p jk
    by (cases p) (simp_all add: idefs before_place_def)
qed

text \<open>A new iterator stands nowhere: it is behind the last entry.\<close>

lemma two_level_new:
  assumes "istand ies k index" and "separates cmp blk ies" and "opens bf blk ies"
  shows "\<exists>t. NewTwoLevelIterator iops index = Some t
    \<and> on_two_level iops dops cmp istand dstand bf (blocks blk ies) (length (blocks blk ies)) t"
proof -
  obtain w where "wrapper_Update iops (wrapper_new\<lparr>w_iter := Some index\<rparr>) = Some w" "wrapped iops istand ies k w"
    using wrapper_Update_ok [OF index.iterator_over_axioms, of "wrapper_new\<lparr>w_iter := Some index\<rparr>" index, OF _ assms(1)] by auto
  then show ?thesis using assms(2,3)
    by (auto simp: NewTwoLevelIterator_def wrapper_Set_def Let_def on_two_level_def stands_in_def no_block_def wrapper_new_def index_at_def)
qed

end

interpretation two_blocks: two_level "block_ops BytewiseCompare" "block_ops BytewiseCompare" BytewiseCompare "\<lambda>_. True"
    "on_entries BytewiseCompare (\<lambda>_. True)" "on_entries BytewiseCompare (\<lambda>_. True)"
  by (intro two_level.intro block_iterator.iterator_over_axioms bytewise_order)

end
