(* ===== verification/Ldb_Table.thy ===== *)
theory Ldb_Table
  imports Ldb_Table_Builder Ldb_Two_Level
begin

text \<open>
  \<open>Table\<close> (\<open>table/table.cc\<close>): a table file is opened by reading its footer, its index and its filter; an iterator on it
  is the two-level iterator over the index, and \<open>InternalGet\<close> looks one key up.  The block cache is what it answers
  for a key, a parameter; \<open>BlockReader\<close> also returns what it inserts.  On a file that \<open>TableBuilder\<close> wrote these
  show exactly the entries that were added.
\<close>

declare One_nat_def [simp del]

section \<open>The code\<close>

type_synonym cache = "(byte list \<Rightarrow> Block option) option"

text \<open>The filter keeps the policy it was made with; the options carry no cache here, it is an argument.\<close>

record Table =
  ta_options :: Options
  ta_file :: RandomAccessFile
  ta_cache_id :: uint64
  ta_filter :: "(FilterPolicy \<times> FilterBlockReader) option"
  ta_metaindex_handle :: BlockHandle
  ta_index_block :: Block

definition paranoid :: "Options \<Rightarrow> ReadOptions" where
  "paranoid options = (if op_paranoid_checks options then ReadOptions_new\<lparr>ro_verify_checksums := True\<rparr> else ReadOptions_new)"

definition ReadFilter :: "byte list \<Rightarrow> Table \<Rightarrow> Table option" where
  "ReadFilter filter_handle_value t =
     (let (s, filter_handle, v) = BlockHandle_DecodeFrom BlockHandle_new filter_handle_value in
      if \<not> ok s then Some t
      else do {
        (s, block) \<leftarrow> ReadBlock (ta_file t) (paranoid (ta_options t)) filter_handle;
        (if \<not> ok s then Some t
         else do {
           policy \<leftarrow> op_filter_policy (ta_options t);
           Some (t\<lparr>ta_filter := Some (policy, FilterBlockReader_new (bc_data block))\<rparr>) }) })"

definition ReadMeta :: "Footer \<Rightarrow> Table \<Rightarrow> Table option" where
  "ReadMeta footer t =
     (case op_filter_policy (ta_options t) of
        None \<Rightarrow> Some t
      | Some policy \<Rightarrow> do {
          (s, contents) \<leftarrow> ReadBlock (ta_file t) (paranoid (ta_options t)) (ft_metaindex footer);
          (if \<not> ok s then Some t
           else let key = str ''filter.'' @ fp_Name policy; ops = block_ops BytewiseCompare in do {
             meta \<leftarrow> Block_new (bc_data contents);
             iter \<leftarrow> Block_NewIterator meta;
             iter \<leftarrow> i_Seek ops key iter;
             (if i_Valid ops iter
              then do {
                k \<leftarrow> i_key ops iter;
                (if k = key then do { v \<leftarrow> i_value ops iter; ReadFilter v t } else Some t) }
              else Some t) }) })"

text \<open>The number that the cache gives to the table is an argument.\<close>

definition Table_Open :: "uint64 \<Rightarrow> Options \<Rightarrow> RandomAccessFile \<Rightarrow> uint64 \<Rightarrow> (Status \<times> Table option) option" where
  "Table_Open cache_id options file file_size =
     (if unat file_size < kEncodedLength then Some (Corruption (str ''file is too short to be an sstable'') [], None)
      else let (s, footer_input) = rf_Read file (file_size - word_of_nat kEncodedLength) (word_of_nat kEncodedLength) in
        if \<not> ok s then Some (s, None)
        else do {
          (s, footer, _) \<leftarrow> Footer_DecodeFrom Footer_new footer_input;
          (if \<not> ok s then Some (s, None)
           else do {
             (s, index_block_contents) \<leftarrow> ReadBlock file (paranoid options) (ft_index footer);
             (if ok s
              then do {
                index_block \<leftarrow> Block_new (bc_data index_block_contents);
                t \<leftarrow> ReadMeta footer \<lparr>ta_options = options, ta_file = file, ta_cache_id = cache_id, ta_filter = None,
                  ta_metaindex_handle = ft_metaindex footer, ta_index_block = index_block\<rparr>;
                Some (s, Some t) }
              else Some (s, None)) }) })"

definition cache_key :: "uint64 \<Rightarrow> BlockHandle \<Rightarrow> byte list" where
  "cache_key cache_id handle = EncodeFixed64 cache_id @ EncodeFixed64 (bh_offset handle)"

text \<open>The status, the block, and what is inserted into the cache.\<close>

definition find_block :: "cache \<Rightarrow> Table \<Rightarrow> ReadOptions \<Rightarrow> BlockHandle \<Rightarrow> (Status \<times> Block option \<times> (byte list \<times> Block) option) option" where
  "find_block block_cache t options handle =
     (case block_cache of
        Some answers \<Rightarrow>
          (case answers (cache_key (ta_cache_id t) handle) of
             Some block \<Rightarrow> Some (OK, Some block, None)
           | None \<Rightarrow> do {
               (s, contents) \<leftarrow> ReadBlock (ta_file t) options handle;
               (if ok s
                then do {
                  block \<leftarrow> Block_new (bc_data contents);
                  Some (s, Some block, if bc_cachable contents \<and> ro_fill_cache options then Some (cache_key (ta_cache_id t) handle, block) else None) }
                else Some (s, None, None)) })
      | None \<Rightarrow> do {
          (s, contents) \<leftarrow> ReadBlock (ta_file t) options handle;
          (if ok s then do { block \<leftarrow> Block_new (bc_data contents); Some (s, Some block, None) } else Some (s, None, None)) })"

definition BlockReader :: "cache \<Rightarrow> Table \<Rightarrow> ReadOptions \<Rightarrow> byte list \<Rightarrow> (any_iter \<times> (byte list \<times> Block) option) option" where
  "BlockReader block_cache t options index_value =
     (let (s, handle, input) = BlockHandle_DecodeFrom BlockHandle_new index_value in do {
        (s, block, inserted) \<leftarrow> (if ok s then find_block block_cache t options handle else Some (s, None, None));
        (case block of
           Some b \<Rightarrow> do { iter \<leftarrow> Block_NewIterator b; Some (iter, inserted) }
         | None \<Rightarrow> Some (Error_iter s, inserted)) })"

abbreviation table_cmp :: "Table \<Rightarrow> comparing" where
  "table_cmp t \<equiv> c_Compare (op_comparator (ta_options t))"

definition Table_NewIterator :: "Table \<Rightarrow> (any_iter, any_iter) TwoLevelIterator option" where
  "Table_NewIterator t = do {
     index_iter \<leftarrow> Block_NewIterator (ta_index_block t);
     NewTwoLevelIterator (block_ops (table_cmp t)) index_iter }"

definition table_ops :: "cache \<Rightarrow> Table \<Rightarrow> ReadOptions \<Rightarrow> (any_iter, any_iter) TwoLevelIterator Iterator" where
  "table_ops block_cache t options =
     two_level_ops (block_ops (table_cmp t)) (block_ops (table_cmp t)) (\<lambda>v. map_option fst (BlockReader block_cache t options v))"

text \<open>The status and what \<open>handle_result\<close> is called with.\<close>

definition filter_denies :: "Table \<Rightarrow> byte list \<Rightarrow> byte list \<Rightarrow> bool option" where
  "filter_denies t handle_value k =
     (case ta_filter t of
        None \<Rightarrow> Some False
      | Some (policy, reader) \<Rightarrow>
          (let (s, handle, input) = BlockHandle_DecodeFrom BlockHandle_new handle_value in
           if ok s then map_option Not (filter_KeyMayMatch (fp_KeyMayMatch policy) reader (bh_offset handle) k) else Some False))"

definition InternalGet :: "cache \<Rightarrow> Table \<Rightarrow> ReadOptions \<Rightarrow> byte list \<Rightarrow> (Status \<times> (byte list \<times> byte list) option) option" where
  "InternalGet block_cache t options k = (let ops = block_ops (table_cmp t) in do {
     iiter \<leftarrow> Block_NewIterator (ta_index_block t);
     iiter \<leftarrow> i_Seek ops k iiter;
     (s, result) \<leftarrow>
       (if i_Valid ops iiter
        then do {
          handle_value \<leftarrow> i_value ops iiter;
          denied \<leftarrow> filter_denies t handle_value k;
          (if denied then Some (OK, None)
           else do {
             (block_iter, _) \<leftarrow> BlockReader block_cache t options handle_value;
             block_iter \<leftarrow> i_Seek ops k block_iter;
             result \<leftarrow> (if i_Valid ops block_iter
                then do { key \<leftarrow> i_key ops block_iter; v \<leftarrow> i_value ops block_iter; Some (Some (key, v)) }
                else Some None);
             Some (i_status ops block_iter, result) }) }
        else Some (OK, None));
     Some (if ok s then i_status ops iiter else s, result) })"

definition ApproximateOffsetOf :: "Table \<Rightarrow> byte list \<Rightarrow> uint64 option" where
  "ApproximateOffsetOf t key = (let ops = block_ops (table_cmp t) in do {
     index_iter \<leftarrow> Block_NewIterator (ta_index_block t);
     index_iter \<leftarrow> i_Seek ops key index_iter;
     (if i_Valid ops index_iter
      then do {
        input \<leftarrow> i_value ops index_iter;
        (let (s, handle, _) = BlockHandle_DecodeFrom BlockHandle_new input in
         Some (if ok s then bh_offset handle else bh_offset (ta_metaindex_handle t))) }
      else Some (bh_offset (ta_metaindex_handle t))) })"

section \<open>Blocks that were stored\<close>

lemma new_iterator_current: "Block_NewIterator blk = Some (Block_iter it) \<Longrightarrow> bi_current it = unat (bi_restarts it)"
  by (auto simp: Block_NewIterator_def block_iter_new_def bind_eq_Some_conv split: if_splits)

lemma block_data_iterates:
  assumes "block_data d es" and "entries_ok valid es" and "ascending cmp es" and "length d < 2 ^ 32"
  shows "\<exists>blk it. Block_new d = Some blk \<and> Block_NewIterator blk = Some it \<and> on_entries cmp valid es (length es) it"
proof -
  obtain interval bb encs idx where b: "built interval bb es encs idx" "d = bb_buffer (BlockBuilder_Finish bb)"
    using assms(1) by (auto simp: block_data_def)
  obtain R num off idx' blk it where lay: "laid_out d R num es off idx'" "Block_new d = Some blk"
    "Block_NewIterator blk = Some (Block_iter it)" "over d R num OK it"
    using built_block [OF b(1) assms(2)] assms(4) b(2) by blast
  have "done_with d R num OK it" using lay(4) new_iterator_current [OF lay(3)] by (simp add: done_with_def over_def)
  moreover have "list_all (valid \<circ> fst) es" using entries_okD [OF assms(2)] by (simp add: list_all_iff)
  ultimately have "on_entries cmp valid es (length es) (Block_iter it)"
    unfolding on_entries_def using lay(1) assms(3)
    by (intro conjI exI [of _ d] exI [of _ R] exI [of _ num] exI [of _ off] exI [of _ idx'] exI [of _ it]) simp_all
  then show ?thesis using lay(2,3) by blast
qed

text \<open>A block determines its entries.\<close>

lemma block_data_unique:
  assumes "key_order valid cmp" and "length d < 2 ^ 32"
    and "block_data d es" "entries_ok valid es" "ascending cmp es" and "block_data d fs" "entries_ok valid fs" "ascending cmp fs"
  shows "es = fs"
proof -
  obtain blk it where it: "Block_new d = Some blk" "Block_NewIterator blk = Some it" "on_entries cmp valid es (length es) it"
    using block_data_iterates [OF assms(3-5,2)] by blast
  then have it2: "on_entries cmp valid fs (length fs) it" using block_data_iterates [OF assms(6-8,2)] by auto
  note c = block_iterator_over [OF assms(1)]
  obtain i where i: "i_SeekToFirst (block_ops cmp) it = Some i" "on_entries cmp valid es 0 i" using iterator_over.to_first [OF c it(3)] by blast
  then have j: "on_entries cmp valid fs 0 i" using iterator_over.to_first [OF c it2] by auto
  show ?thesis
    using iterator_over.shown_Next [OF c i(2), of "length es + length fs"] iterator_over.shown_Next [OF c j, of "length es + length fs"] by simp
qed

lemma handle_bytes_inj: "handle_bytes h = handle_bytes k \<Longrightarrow> h = k"
  using BlockHandle_DecodeFrom_bytes [of BlockHandle_new h "[]"] BlockHandle_DecodeFrom_bytes [of BlockHandle_new k "[]"] by simp

lemma stored_same: "stored_at c h d \<Longrightarrow> stored_at c h d' \<Longrightarrow> d = d'"
proof -
  assume a: "stored_at c h d" "stored_at c h d'"
  then have l: "length d = length d'" by (simp add: stored_at_def)
  have "block_image d kNoCompression = block_image d' kNoCompression" using a l by (simp add: stored_at_def)
  then have "take (length d) (block_image d kNoCompression) = take (length d') (block_image d' kNoCompression)" using l by simp
  then show ?thesis by (simp add: block_image_def)
qed

text \<open>The cache answers with the block that is stored.\<close>

definition cache_ok :: "cache \<Rightarrow> uint64 \<Rightarrow> byte list \<Rightarrow> bool" where
  "cache_ok block_cache cache_id c \<longleftrightarrow> (\<forall>answers h d b. block_cache = Some answers \<longrightarrow> answers (cache_key cache_id h) = Some b \<longrightarrow> stored_at c h d
     \<longrightarrow> Block_new d = Some b)"

lemma find_block_stored:
  assumes f: "random_access_file (rf_Read (ta_file t)) c" and small: "length c < 2 ^ 64" and st: "stored_at c h d"
    and blk: "Block_new d = Some blk" and cache: "cache_ok block_cache (ta_cache_id t) c"
  shows "\<exists>ins. find_block block_cache t options h = Some (OK, Some blk, ins) \<and> (ins = None \<or> ins = Some (cache_key (ta_cache_id t) h, blk))"
proof -
  note rd = ReadBlock_stored [OF f small st, of options]
  show ?thesis
  proof (cases block_cache)
    case None
    then show ?thesis using rd blk by (simp add: find_block_def ok_def)
  next
    case (Some answers)
    show ?thesis
    proof (cases "answers (cache_key (ta_cache_id t) h)")
      case None
      then show ?thesis using rd blk Some by (simp add: find_block_def ok_def)
    next
      case (Some b)
      then have "b = blk" using cache st blk \<open>block_cache = Some answers\<close> unfolding cache_ok_def by fastforce
      then show ?thesis using Some \<open>block_cache = Some answers\<close> by (simp add: find_block_def)
    qed
  qed
qed

lemma BlockReader_stored:
  assumes "random_access_file (rf_Read (ta_file t)) c" and "length c < 2 ^ 64" and "stored_at c h d"
    and "Block_new d = Some blk" and "Block_NewIterator blk = Some it" and "cache_ok block_cache (ta_cache_id t) c"
  shows "\<exists>ins. BlockReader block_cache t options (handle_bytes h) = Some (it, ins) \<and> (ins = None \<or> ins = Some (cache_key (ta_cache_id t) h, blk))"
  using find_block_stored [OF assms(1-4,6), of options] assms(5) BlockHandle_DecodeFrom_bytes [of BlockHandle_new h "[]"]
  by (auto simp: BlockReader_def ok_def)

section \<open>A table that is open\<close>

definition filter_good :: "(byte list \<Rightarrow> bool) \<Rightarrow> Table \<Rightarrow> written \<Rightarrow> bool" where
  "filter_good valid t bs \<longleftrightarrow> (case ta_filter t of None \<Rightarrow> True
     | Some (p, r) \<Rightarrow> filter_policy valid (fp_CreateFilter p) (fp_KeyMayMatch p) \<and> (\<exists>fs. r = FilterBlockReader_new (filter_block_bytes fs)
         \<and> length (filter_block_bytes fs) < 2 ^ 32
         \<and> (\<forall>x\<in>set bs. \<forall>e\<in>set (fst x). unat (bh_offset (snd x)) div 2048 < length fs
              \<and> fp_KeyMayMatch p (fst e) (fs ! (unat (bh_offset (snd x)) div 2048)) = Some True)))"

definition table_open :: "(byte list \<Rightarrow> bool) \<Rightarrow> Table \<Rightarrow> byte list \<Rightarrow> written \<Rightarrow> entry list \<Rightarrow> bool" where
  "table_open valid t c bs ies \<longleftrightarrow> key_order valid (table_cmp t) \<and> random_access_file (rf_Read (ta_file t)) c \<and> length c < 2 ^ 32
     \<and> entries_ok valid (concat (map fst bs)) \<and> ascending (table_cmp t) (concat (map fst bs)) \<and> blocks_stored c bs
     \<and> length ies = length bs \<and> index_for valid (table_cmp t) ies bs [] \<and> ascending (table_cmp t) ies \<and> entries_ok valid ies
     \<and> (\<exists>it. Block_NewIterator (ta_index_block t) = Some it \<and> on_entries (table_cmp t) valid ies (length ies) it)
     \<and> filter_good valid t bs"

lemma table_openD:
  assumes "table_open valid t c bs ies"
  shows "key_order valid (table_cmp t)" and "random_access_file (rf_Read (ta_file t)) c" and "length c < 2 ^ 32"
    and "entries_ok valid (concat (map fst bs))" and "ascending (table_cmp t) (concat (map fst bs))" and "blocks_stored c bs"
    and "length ies = length bs" and "index_for valid (table_cmp t) ies bs []" and "ascending (table_cmp t) ies" and "entries_ok valid ies"
    and "\<exists>it. Block_NewIterator (ta_index_block t) = Some it \<and> on_entries (table_cmp t) valid ies (length ies) it"
    and "filter_good valid t bs"
  using assms unfolding table_open_def by - (elim conjE, assumption)+

text \<open>The block that the value of an index entry names.\<close>

definition block_of :: "written \<Rightarrow> byte list \<Rightarrow> entry list" where
  "block_of bs v = the (map_of (map (\<lambda>(b, h). (handle_bytes h, b)) bs) v)"

lemma in_concat: "x \<in> set bs \<Longrightarrow> e \<in> set (fst x) \<Longrightarrow> e \<in> set (concat (map fst bs))"
  by auto

lemma stored_block:
  assumes o: "table_open valid t c bs ies" and x: "x \<in> set bs"
  shows "\<exists>d blk it. stored_at c (snd x) d \<and> length d < 2 ^ 32 \<and> block_data d (fst x) \<and> entries_ok valid (fst x) \<and> ascending (table_cmp t) (fst x)
    \<and> Block_new d = Some blk \<and> Block_NewIterator blk = Some it \<and> on_entries (table_cmp t) valid (fst x) (length (fst x)) it"
proof -
  note T = table_openD [OF o]
  obtain d where d: "block_data d (fst x)" "stored_at c (snd x) d" using T(6) x by (auto simp: blocks_stored_def)
  have small: "length d < 2 ^ 32" using d(2) T(3) by (simp add: stored_at_def)
  have e: "entries_ok valid (fst x)" using T(4) in_concat [OF x] unfolding entries_ok_def list_all_iff by blast
  have "ascending (table_cmp t) (fst x)"
  proof -
    obtain l r where "bs = l @ x # r" using x by (meson split_list)
    then show ?thesis using T(5) by (simp add: ascending_def sorted_wrt_append)
  qed
  then show ?thesis using block_data_iterates [OF d(1) e _ small] d small e by blast
qed

lemma block_of_stored:
  assumes o: "table_open valid t c bs ies" and x: "x \<in> set bs"
  shows "block_of bs (handle_bytes (snd x)) = fst x"
proof -
  have "(handle_bytes (snd x), fst x) \<in> set (map (\<lambda>(b, h). (handle_bytes h, b)) bs)"
    using imageI [OF x, of "\<lambda>(b, h). (handle_bytes h, b)"] by (simp add: case_prod_beta)
  then obtain b where b: "map_of (map (\<lambda>(b, h). (handle_bytes h, b)) bs) (handle_bytes (snd x)) = Some b" by (metis weak_map_of_SomeI)
  then obtain y where y: "y \<in> set bs" "handle_bytes (snd y) = handle_bytes (snd x)" "fst y = b" by (force dest: map_of_SomeD)
  obtain d where d: "stored_at c (snd x) d" "length d < 2 ^ 32" "block_data d (fst x)" "entries_ok valid (fst x)" "ascending (table_cmp t) (fst x)"
    using stored_block [OF o x] by blast
  obtain d' where d': "stored_at c (snd y) d'" "block_data d' (fst y)" "entries_ok valid (fst y)" "ascending (table_cmp t) (fst y)"
    using stored_block [OF o y(1)] by blast
  have "d' = d" using stored_same [OF d(1)] d'(1) handle_bytes_inj [OF y(2)] by simp
  then have "fst y = fst x" using block_data_unique [OF table_openD(1) [OF o] d(2) _ d'(3,4) d(3-5)] d'(2) by blast
  then show ?thesis using b y(3) by (simp add: block_of_def)
qed

section \<open>Iterating over it\<close>

lemma table_two_level:
  assumes "table_open valid t c bs ies"
  shows "two_level (block_ops (table_cmp t)) (block_ops (table_cmp t)) (table_cmp t) valid (on_entries (table_cmp t) valid) (on_entries (table_cmp t) valid)"
  by (intro two_level.intro block_iterator_over table_openD(1) [OF assms])

lemma index_value:
  assumes o: "table_open valid t c bs ies" and k: "k < length ies"
  shows "bs ! k \<in> set bs" and "snd (ies ! k) = handle_bytes (snd (bs ! k))" and "block_of bs (snd (ies ! k)) = fst (bs ! k)"
proof -
  show in_bs: "bs ! k \<in> set bs" using k table_openD(7) [OF o] by simp
  show v: "snd (ies ! k) = handle_bytes (snd (bs ! k))" using table_openD(8) [OF o] k by (simp add: index_for_def)
  show "block_of bs (snd (ies ! k)) = fst (bs ! k)" using block_of_stored [OF o in_bs] v by simp
qed

lemma blocks_all:
  assumes o: "table_open valid t c bs ies"
  shows "map (block_of bs \<circ> snd) ies = map fst bs"
  using index_value(3) [OF o] table_openD(7) [OF o] by (intro nth_equalityI) simp_all

lemma table_separates:
  assumes o: "table_open valid t c bs ies"
  shows "separates (table_cmp t) (block_of bs) ies" and "blocks (block_of bs) ies = concat (map fst bs)"
proof -
  have drops: "blocks (block_of bs) (drop k ies) = concat (map fst (drop k bs))" for k
    using arg_cong [OF blocks_all [OF o], of "\<lambda>l. concat (drop k l)"] by (simp add: blocks_def drop_map)
  show "blocks (block_of bs) ies = concat (map fst bs)" using drops [of 0] by simp
  show "separates (table_cmp t) (block_of bs) ies"
    unfolding separates_def
  proof (intro allI impI conjI)
    fix k assume k: "k < length ies"
    show "\<forall>e\<in>set (block_of bs (snd (ies ! k))). table_cmp t (fst e) (fst (ies ! k)) \<le> 0"
      using table_openD(8) [OF o] k unfolding index_value(3) [OF o k] index_for_def by blast
    show "\<forall>e\<in>set (blocks (block_of bs) (drop (Suc k) ies)). table_cmp t (fst (ies ! k)) (fst e) < 0"
      using table_openD(8) [OF o] k unfolding drops index_for_def append_Nil2 by blast
  qed
qed

lemma table_opens:
  assumes o: "table_open valid t c bs ies" and cache: "cache_ok block_cache (ta_cache_id t) c"
  shows "two_level.opens (on_entries (table_cmp t) valid) (\<lambda>v. map_option fst (BlockReader block_cache t options v)) (block_of bs) ies"
  unfolding two_level.opens_def [OF table_two_level [OF o]]
proof
  fix v assume "v \<in> snd ` set ies"
  then obtain k where k: "k < length ies" "v = snd (ies ! k)" by (auto simp: in_set_conv_nth)
  note x = index_value [OF o k(1)]
  obtain d blk it where d: "stored_at c (snd (bs ! k)) d" "Block_new d = Some blk" "Block_NewIterator blk = Some it"
    "on_entries (table_cmp t) valid (fst (bs ! k)) (length (fst (bs ! k))) it" using stored_block [OF o x(1)] by blast
  have "length c < 2 ^ 64" using table_openD(3) [OF o] by simp
  from BlockReader_stored [OF table_openD(2) [OF o] this d(1-3) cache, of options] x(2,3) k(2) d(4)
  show "\<exists>d p. map_option fst (BlockReader block_cache t options v) = Some d \<and> on_entries (table_cmp t) valid (block_of bs v) p d"
    by auto
qed

lemma table_iterates:
  assumes o: "table_open valid t c bs ies" and cache: "cache_ok block_cache (ta_cache_id t) c"
  shows "\<exists>it. Table_NewIterator t = Some it
    \<and> on_two_level (block_ops (table_cmp t)) (block_ops (table_cmp t)) (table_cmp t) (on_entries (table_cmp t) valid) (on_entries (table_cmp t) valid)
        (\<lambda>v. map_option fst (BlockReader block_cache t options v)) (concat (map fst bs)) (length (concat (map fst bs))) it"
proof -
  obtain it where it: "Block_NewIterator (ta_index_block t) = Some it" "on_entries (table_cmp t) valid ies (length ies) it"
    using table_openD(11) [OF o] by blast
  from two_level.two_level_new [OF table_two_level [OF o] it(2) table_separates(1) [OF o] table_opens [OF o cache, of options]] it(1)
  show ?thesis unfolding table_separates(2) [OF o] by (auto simp: Table_NewIterator_def)
qed

section \<open>Looking a key up\<close>

text \<open>Behind the last filter everything may match.\<close>

lemma filter_beyond:
  assumes len: "length (filter_block_bytes fs) < 2 ^ 32" and i: "length fs \<le> unat off div 2048"
  shows "filter_KeyMayMatch may_match (FilterBlockReader_new (filter_block_bytes fs)) off k = Some True"
  unfolding reader_of_block [OF len] filter_KeyMayMatch_def Let_def using i by (simp add: unat_drop_bit)

lemma filter_answers:
  assumes g: "filter_good valid t bs" and k: "valid k"
  shows "\<exists>b. filter_denies t (handle_bytes h) k = Some b"
    and "(b0, h) \<in> set bs \<Longrightarrow> (k, v) \<in> set b0 \<Longrightarrow> filter_denies t (handle_bytes h) k = Some False"
proof -
  have dec: "BlockHandle_DecodeFrom BlockHandle_new (handle_bytes h) = (OK, h, [])"
    using BlockHandle_DecodeFrom_bytes [of BlockHandle_new h "[]"] by simp
  show "\<exists>b. filter_denies t (handle_bytes h) k = Some b"
  proof (cases "ta_filter t")
    case (Some x)
    then obtain p fs where p: "x = (p, FilterBlockReader_new (filter_block_bytes fs))" "length (filter_block_bytes fs) < 2 ^ 32"
      "filter_policy valid (fp_CreateFilter p) (fp_KeyMayMatch p)" using g by (cases x) (auto simp: filter_good_def)
    have "filter_KeyMayMatch (fp_KeyMayMatch p) (FilterBlockReader_new (filter_block_bytes fs)) (bh_offset h) k \<noteq> None"
    proof (cases "unat (bh_offset h) div 2048 < length fs")
      case True
      then show ?thesis using filter_of_block [OF p(2) True] filter_policy.match_total [OF p(3) k] by simp
    next
      case False
      then show ?thesis using filter_beyond [OF p(2)] by simp
    qed
    then show ?thesis using Some p(1) dec by (auto simp: filter_denies_def ok_def)
  qed (auto simp: filter_denies_def)
  assume h: "(b0, h) \<in> set bs" "(k, v) \<in> set b0"
  show "filter_denies t (handle_bytes h) k = Some False"
  proof (cases "ta_filter t")
    case (Some x)
    then obtain p fs where p: "x = (p, FilterBlockReader_new (filter_block_bytes fs))" "length (filter_block_bytes fs) < 2 ^ 32"
      "\<forall>x\<in>set bs. \<forall>e\<in>set (fst x). unat (bh_offset (snd x)) div 2048 < length fs
              \<and> fp_KeyMayMatch p (fst e) (fs ! (unat (bh_offset (snd x)) div 2048)) = Some True" using g by (cases x) (auto simp: filter_good_def)
    have "unat (bh_offset h) div 2048 < length fs" "fp_KeyMayMatch p k (fs ! (unat (bh_offset h) div 2048)) = Some True"
      using p(3) h by fastforce+
    then show ?thesis using Some p(1) dec filter_of_block [OF p(2)] by (simp add: filter_denies_def ok_def)
  qed (simp add: filter_denies_def)
qed

lemma lower_member:
  assumes ord: "key_order valid cmp" and a: "ascending cmp es" "list_all (valid \<circ> fst) es" and k: "(k, v) \<in> set es"
  shows "lower cmp es k < length es" and "es ! lower cmp es k = (k, v)"
proof -
  obtain j where j: "j < length es" "es ! j = (k, v)" using k by (auto simp: in_set_conv_nth)
  have vk: "valid k" using a(2) k by (auto simp: list_all_iff)
  have "lower cmp es k = j"
    unfolding lower_def
  proof (rule takeWhile_eq_take_P_nth [THEN arg_cong [where f = length], THEN trans])
    show "cmp (fst (es ! i)) k < 0" if "i < j" "i < length es" for i
      using a(1) j that by (metis ascending_def fst_conv sorted_wrt_nth_less)
    show "\<not> cmp (fst (es ! j)) k < 0" using key_order.cmp_refl [OF ord vk] j(2) by simp
  qed (use j in simp)
  then show "lower cmp es k < length es" "es ! lower cmp es k = (k, v)" using j by simp_all
qed

text \<open>The index leads to the block of a key that is there.\<close>

lemma index_of_key:
  assumes o: "table_open valid t c bs ies" and k: "(k, v) \<in> set (concat (map fst bs))"
  shows "lower (table_cmp t) ies k < length ies" and "(k, v) \<in> set (fst (bs ! lower (table_cmp t) ies k))"
proof -
  note T = table_openD [OF o]
  let ?P = "\<lambda>e. table_cmp t (fst e) k < 0"
  let ?i = "lower (table_cmp t) ies k"
  obtain x where x: "x \<in> set bs" "(k, v) \<in> set (fst x)" using k by auto
  then obtain j where j: "j < length ies" "(k, v) \<in> set (fst (bs ! j))" using T(7) by (metis in_set_conv_nth)
  have vk: "valid k" using entries_okD [OF T(4) k] by simp
  have vi: "valid (fst (ies ! i))" if "i < length ies" for i using entries_okD [OF T(10) nth_mem [OF that]] by blast
  have "table_cmp t k (fst (ies ! j)) \<le> 0" using T(8) j by (fastforce simp: index_for_def)
  then have "\<not> ?P (ies ! j)" using key_order.cmp_flip [OF T(1) vi [OF j(1)] vk] by linarith
  then have le: "?i \<le> j" unfolding lower_def using j(1) by (metis length_takeWhile_le not_le nth_mem set_takeWhileD takeWhile_nth)
  then show i: "?i < length ies" using j(1) by simp
  have "\<not> ?P (ies ! ?i)" using nth_length_takeWhile [of ?P ies] i by (simp add: lower_def)
  moreover have "?P (ies ! ?i)" if "?i < j"
  proof -
    have "bs ! j \<in> set (drop (Suc ?i) bs)" using that j(1) T(7) by (auto simp: in_set_conv_nth intro!: exI [of _ "j - Suc ?i"])
    then have "(k, v) \<in> set (concat (map fst (drop (Suc ?i) bs)) @ [])" using j(2) by auto
    then show ?thesis using T(8) i by (fastforce simp: index_for_def)
  qed
  ultimately have "?i = j" using le by linarith
  then show "(k, v) \<in> set (fst (bs ! ?i))" using j(2) by simp
qed

lemma InternalGet_ok:
  assumes o: "table_open valid t c bs ies" and cache: "cache_ok block_cache (ta_cache_id t) c" and k: "valid k"
  defines "es \<equiv> concat (map fst bs)"
  shows "\<exists>r. InternalGet block_cache t options k = Some (OK, r)
    \<and> (r = None \<or> lower (table_cmp t) es k < length es \<and> r = Some (es ! lower (table_cmp t) es k))
    \<and> (\<forall>v. (k, v) \<in> set es \<longrightarrow> r = Some (k, v))"
proof -
  note T = table_openD [OF o]
  note over = block_iterator_over [OF T(1)]
  let ?ops = "block_ops (table_cmp t)" and ?on = "on_entries (table_cmp t) valid"
  define i where "i = lower (table_cmp t) ies k"
  obtain it0 where it0: "Block_NewIterator (ta_index_block t) = Some it0" "?on ies (length ies) it0" using T(11) by blast
  obtain it where it: "i_Seek ?ops k it0 = Some it" "?on ies i it" using iterator_over.to_target [OF over it0(2) k] unfolding i_def by blast
  have at: "i_Valid ?ops it \<longleftrightarrow> i < length ies" "i_status ?ops it = OK" using iterator_over.place [OF over, OF it(2)] by blast+
  show ?thesis
  proof (cases "i < length ies")
    case False
    then have "InternalGet block_cache t options k = Some (OK, None)"
      using it0(1) it(1) at by (simp add: InternalGet_def Let_def ok_def)
    moreover have "(k, v) \<notin> set es" for v using index_of_key(1) [OF o] False unfolding i_def es_def by blast
    ultimately show ?thesis by blast
  next
    case True
    note x = index_value [OF o True]
    let ?b = "fst (bs ! i)"
    obtain d blk b0 where d: "stored_at c (snd (bs ! i)) d" "Block_new d = Some blk" "Block_NewIterator blk = Some b0"
      "?on ?b (length ?b) b0" "entries_ok valid ?b" "ascending (table_cmp t) ?b" using stored_block [OF o x(1)] by blast
    have "length c < 2 ^ 64" using T(3) by simp
    from BlockReader_stored [OF T(2) this d(1-3) cache, of options] obtain ins where
      br: "BlockReader block_cache t options (handle_bytes (snd (bs ! i))) = Some (b0, ins)" by blast
    obtain b1 where b1: "i_Seek ?ops k b0 = Some b1" "?on ?b (lower (table_cmp t) ?b k) b1"
      using iterator_over.to_target [OF over d(4) k] by blast
    let ?j = "lower (table_cmp t) ?b k"
    have bat: "i_Valid ?ops b1 \<longleftrightarrow> ?j < length ?b" "i_status ?ops b1 = OK" using iterator_over.place [OF over b1(2)] by blast+
    obtain denied where denied: "filter_denies t (handle_bytes (snd (bs ! i))) k = Some denied" using filter_answers(1) [OF T(12) k] by blast
    have v: "i_value ?ops it = Some (handle_bytes (snd (bs ! i)))" using iterator_over.here [OF over it(2) True] x(2) by simp
    let ?r = "if denied then None else if ?j < length ?b then Some (?b ! ?j) else None"
    have get: "InternalGet block_cache t options k = Some (OK, ?r)"
      using it0(1) it(1) at True v denied br b1(1) bat iterator_over.here [OF over b1(2)]
      by (cases denied; cases "?j < length ?b") (simp_all add: InternalGet_def Let_def ok_def)
    note sep = table_separates [OF o]
    have op: "two_level.opens ?on (\<lambda>v. map_option fst (BlockReader block_cache t options v)) (block_of bs) ies" by (rule table_opens [OF o cache])
    have vi: "list_all (valid \<circ> fst) ies" using entries_okD [OF T(10)] by (simp add: list_all_iff)
    have le: "lower (table_cmp t) es k = block_start (block_of bs) ies i + ?j"
      using two_level.lower_blocks [OF table_two_level [OF o] op sep(1) vi k] True x(3) unfolding sep(2) es_def i_def by simp
    have nth: "?j < length ?b \<Longrightarrow> lower (table_cmp t) es k < length es \<and> es ! lower (table_cmp t) es k = ?b ! ?j"
      using blocks_nth [where blk = "block_of bs" and ies = ies and k = i and p = ?j, OF True] x(3) unfolding sep(2) es_def [symmetric] by (simp add: le)
    have found: "?r = Some (k, v)" if kv: "(k, v) \<in> set es" for v
    proof -
      have "(k, v) \<in> set ?b" using index_of_key(2) [OF o] kv unfolding es_def i_def by blast
      moreover have "list_all (valid \<circ> fst) ?b" using entries_okD [OF d(5)] by (simp add: list_all_iff)
      moreover have "filter_denies t (handle_bytes (snd (bs ! i))) k = Some False"
        by (rule filter_answers(2) [OF T(12) k, of ?b _ v]) (use x(1) \<open>(k, v) \<in> set ?b\<close> in simp_all)
      ultimately show ?thesis using lower_member [OF T(1) d(6)] denied by simp
    qed
    have "?r = None \<or> lower (table_cmp t) es k < length es \<and> ?r = Some (es ! lower (table_cmp t) es k)" using nth by auto
    then show ?thesis using get found by blast
  qed
qed

section \<open>Opening what was written\<close>

lemma index_sorted:
  assumes ord: "key_order valid cmp" and ix: "index_for valid cmp ies bs []" and len: "length ies = length bs"
    and ne: "\<And>x. x \<in> set bs \<Longrightarrow> fst x \<noteq> []" and ok: "entries_ok valid (concat (map fst bs))"
  shows "ascending cmp ies" and "entries_ok valid ies"
proof -
  show "ascending cmp ies"
    unfolding ascending_def sorted_wrt_iff_nth_less
  proof (intro allI impI)
    fix k l assume kl: "k < l" "l < length ies"
    then have bl: "bs ! l \<in> set bs" "bs ! l \<in> set (drop (Suc k) bs)"
      using len nth_mem [of "l - Suc k" "drop (Suc k) bs"] by simp_all
    obtain e where e: "e \<in> set (fst (bs ! l))" using ne [OF bl(1)] by (meson list.set_intros(1) neq_Nil_conv last_in_set)
    have v: "valid (fst (ies ! k))" "valid (fst (ies ! l))" "valid (fst e)"
      using ix kl entries_okD [OF ok, of e] in_concat [OF bl(1) e] by (auto simp: index_for_def)
    have 1: "cmp (fst (ies ! k)) (fst e) < 0" using ix kl e bl(2) by (fastforce simp: index_for_def)
    have 2: "cmp (fst e) (fst (ies ! l)) \<le> 0" using ix kl(2) e by (fastforce simp: index_for_def)
    from key_order.cmp_less_trans [OF ord v(1,3,2) 1 2] show "cmp (fst (ies ! k)) (fst (ies ! l)) < 0" .
  qed
  have "valid (fst (ies ! k)) \<and> length (fst (ies ! k)) < 2 ^ 32 \<and> length (snd (ies ! k)) < 2 ^ 32" if "k < length ies" for k
    using ix that handle_bytes_length [of "snd (bs ! k)"] by (simp add: index_for_def)
  then show "entries_ok valid ies" by (simp add: entries_ok_def list_all_length case_prod_beta)
qed

lemma ReadMeta_ok:
  assumes f: "random_access_file (rf_Read (ta_file t)) c" and small: "length c < 2 ^ 32" and none: "ta_filter t = None"
    and meta: "block_data dm (metaindex_entries (op_filter_policy (ta_options t)) hf)" "stored_at c (ft_metaindex footer) dm"
    and filter: "\<And>p. op_filter_policy (ta_options t) = Some p \<Longrightarrow> filter_stored c p bs hf \<and> length (fp_Name p) < 2 ^ 31
        \<and> filter_policy valid (fp_CreateFilter p) (fp_KeyMayMatch p)"
  shows "\<exists>x. ReadMeta footer t = Some (t\<lparr>ta_filter := x\<rparr>) \<and> filter_good valid (t\<lparr>ta_filter := x\<rparr>) bs"
proof (cases "op_filter_policy (ta_options t)")
  case None
  have "t = t\<lparr>ta_filter := None\<rparr>" using none by simp
  then show ?thesis using None none by (intro exI [of _ None]) (simp add: ReadMeta_def filter_good_def)
next
  case (Some p)
  note F = filter [OF Some]
  have small64: "length c < 2 ^ 64" using small by simp
  let ?key = "str ''filter.'' @ fp_Name p" and ?ops = "block_ops BytewiseCompare"
  let ?es = "[(?key, handle_bytes hf)]"
  have dm: "block_data dm ?es" using meta(1) Some by simp
  have dm_small: "length dm < 2 ^ 32" using meta(2) small by (simp add: stored_at_def)
  have es: "entries_ok (\<lambda>_. True) ?es" "ascending BytewiseCompare ?es"
    using F handle_bytes_length [of hf] by (simp_all add: entries_ok_def ascending_def str_def)
  obtain blk it where it: "Block_new dm = Some blk" "Block_NewIterator blk = Some it" "on_entries BytewiseCompare (\<lambda>_. True) ?es (length ?es) it"
    using block_data_iterates [OF dm es dm_small] by blast
  obtain it1 where it1: "i_Seek ?ops ?key it = Some it1" "on_entries BytewiseCompare (\<lambda>_. True) ?es (lower BytewiseCompare ?es ?key) it1"
    using block_iterator.to_target [OF it(3)] by blast
  have "lower BytewiseCompare ?es ?key = 0" using key_order.cmp_refl [OF bytewise_order, of ?key] by (simp add: lower_def)
  then have at: "on_entries BytewiseCompare (\<lambda>_. True) ?es 0 it1" using it1(2) by simp
  have here: "i_Valid ?ops it1" "i_key ?ops it1 = Some ?key" "i_value ?ops it1 = Some (handle_bytes hf)"
    using block_iterator.place [OF at] block_iterator.here [OF at] by simp_all
  obtain fs where fs: "stored_at c hf (filter_block_bytes fs)" "\<forall>x\<in>set bs. \<forall>e\<in>set (fst x). unat (bh_offset (snd x)) div 2048 < length fs
      \<and> fp_KeyMayMatch p (fst e) (fs ! (unat (bh_offset (snd x)) div 2048)) = Some True" using F by (auto simp: filter_stored_def)
  let ?x = "Some (p, FilterBlockReader_new (filter_block_bytes fs))"
  have "ReadFilter (handle_bytes hf) t = Some (t\<lparr>ta_filter := ?x\<rparr>)"
    using BlockHandle_DecodeFrom_bytes [of BlockHandle_new hf "[]"] ReadBlock_stored [OF f small64 fs(1), of "paranoid (ta_options t)"] Some
    by (simp add: ReadFilter_def ok_def)
  then have "ReadMeta footer t = Some (t\<lparr>ta_filter := ?x\<rparr>)"
    using ReadBlock_stored [OF f small64 meta(2), of "paranoid (ta_options t)"] Some it(1,2) it1(1) here
    by (simp add: ReadMeta_def ok_def Let_def)
  moreover have "length (filter_block_bytes fs) < 2 ^ 32" using fs(1) small by (simp add: stored_at_def)
  then have "filter_good valid (t\<lparr>ta_filter := ?x\<rparr>) bs" using F fs(2) by (auto simp: filter_good_def)
  ultimately show ?thesis by blast
qed

lemma Table_Open_ok:
  assumes tb: "table_bytes valid (c_Compare (op_comparator options)) (op_filter_policy options) c es" and opt: "options_ok valid options"
    and es: "entries_ok valid es" "ascending (c_Compare (op_comparator options)) es"
    and f: "random_access_file (rf_Read file) c" and small: "length c < 2 ^ 32"
  shows "\<exists>t bs ies. Table_Open cache_id options file (word_of_nat (length c)) = Some (OK, Some t) \<and> ta_options t = options
    \<and> ta_cache_id t = cache_id \<and> es = concat (map fst bs) \<and> table_open valid t c bs ies"
proof -
  let ?cmp = "c_Compare (op_comparator options)"
  obtain bs ies hm hi hf dm di start where T: "es = concat (map fst bs)" "blocks_stored c bs"
     "length ies = length bs" "index_for valid ?cmp ies bs []" "block_data di ies" "stored_at c hi di"
     "block_data dm (metaindex_entries (op_filter_policy options) hf)" "stored_at c hm dm"
     "\<And>p. op_filter_policy options = Some p \<Longrightarrow> filter_stored c p bs hf"
     "c = start @ footer_bytes \<lparr>ft_metaindex = hm, ft_index = hi\<rparr>"
    using tb unfolding table_bytes_def by blast
  let ?footer = "\<lparr>ft_metaindex = hm, ft_index = hi\<rparr>"
  have ord: "key_order valid ?cmp" using opt by (simp add: options_ok_def table_comparator.axioms(1))
  have small64: "length c < 2 ^ 64" using small by simp
  have len: "length c = length start + 48" using T(10) by simp
  have us: "unat (word_of_nat (length c) :: uint64) = length c" using small by (simp only: unat_of_nat) simp
  have u48: "unat (48 :: uint64) = 48" by simp
  have le48: "(48 :: uint64) \<le> word_of_nat (length c)" unfolding word_le_nat_alt us using len by simp
  have uo: "unat (word_of_nat (length c) - 48 :: uint64) = length start" using unat_sub [OF le48] us len by simp
  have foot: "rf_Read file (word_of_nat (length c) - word_of_nat kEncodedLength) (word_of_nat kEncodedLength) = (OK, footer_bytes ?footer)"
    using random_access_file.read_ok [OF f small64, of "word_of_nat (length c) - 48" 48] uo len T(10)
    by (simp add: kEncodedLength_def kMaxEncodedLength_def)
  have dec: "Footer_DecodeFrom Footer_new (footer_bytes ?footer) = Some (OK, ?footer, [])"
    using Footer_DecodeFrom_bytes [of Footer_new ?footer "[]"] by simp
  have ne: "fst x \<noteq> []" if "x \<in> set bs" for x using T(2) that by (auto simp: blocks_stored_def)
  have ies: "ascending ?cmp ies" "entries_ok valid ies" using index_sorted [OF ord T(4,3) ne] es(1) unfolding T(1) by blast+
  have "length di < 2 ^ 32" using T(6) small by (simp add: stored_at_def)
  then obtain blk it where it: "Block_new di = Some blk" "Block_NewIterator blk = Some it" "on_entries ?cmp valid ies (length ies) it"
    using block_data_iterates [OF T(5) ies(2,1)] by blast
  let ?t = "\<lparr>ta_options = options, ta_file = file, ta_cache_id = cache_id, ta_filter = None, ta_metaindex_handle = hm, ta_index_block = blk\<rparr>"
  have "\<exists>x. ReadMeta ?footer ?t = Some (?t\<lparr>ta_filter := x\<rparr>) \<and> filter_good valid (?t\<lparr>ta_filter := x\<rparr>) bs"
  proof (rule ReadMeta_ok)
    show "filter_stored c p bs hf \<and> length (fp_Name p) < 2 ^ 31 \<and> filter_policy valid (fp_CreateFilter p) (fp_KeyMayMatch p)"
      if "op_filter_policy (ta_options ?t) = Some p" for p using T(9) opt that by (simp add: options_ok_def)
  qed (use f small T(7,8) in simp_all)
  then obtain x where x: "ReadMeta ?footer ?t = Some (?t\<lparr>ta_filter := x\<rparr>)" "filter_good valid (?t\<lparr>ta_filter := x\<rparr>) bs" by blast
  have "Table_Open cache_id options file (word_of_nat (length c)) = Some (OK, Some (?t\<lparr>ta_filter := x\<rparr>))"
    using foot dec ReadBlock_stored [OF f small64 T(6), of "paranoid options"] it(1) x(1) len us
    by (simp add: Table_Open_def Let_def ok_def kEncodedLength_def kMaxEncodedLength_def)
  moreover have "table_open valid (?t\<lparr>ta_filter := x\<rparr>) c bs ies"
    unfolding table_open_def using ord f small es T(1-4) ies it(2,3) x(2) by simp
  ultimately show ?thesis using T(1) by (intro exI [of _ "?t\<lparr>ta_filter := x\<rparr>"] exI [of _ bs] exI [of _ ies]) simp
qed

section \<open>Properties\<close>

lemma find_lower: "lower cmp es k < length es \<Longrightarrow> find (\<lambda>e. 0 \<le> cmp (fst e) k) es = Some (es ! lower cmp es k)"
  by (induction es) (auto simp: lower_def)

text \<open>A table that is written; when no call on the file failed it is mapped and opened, and \<open>use\<close> is what is then
  done with it.  Otherwise the status is one that the file reported.\<close>

definition written_and_opened :: "'f appending \<Rightarrow> 'f flushing \<Rightarrow> ('f \<Rightarrow> byte list) \<Rightarrow> Options \<Rightarrow> uint64 \<Rightarrow> 'k os \<Rightarrow> byte list \<Rightarrow> 'f \<Rightarrow> entry list
    \<Rightarrow> (byte list \<Rightarrow> Table \<Rightarrow> bool) \<Rightarrow> bool" where
  "written_and_opened app fl acc options cache_id os filename file es use \<longleftrightarrow>
     (\<exists>s r. write_table app fl options file es = Some (s, r) \<and>
        (if ok s \<and> length (acc (tb_file r)) < 2 ^ 32
         then \<exists>t. Table_Open cache_id options (mmap_file os filename (acc (tb_file r))) (word_of_nat (length (acc (tb_file r)))) = Some (OK, Some t)
           \<and> use (acc (tb_file r)) t
         else ok s \<or> reported app fl s))"

lemma written_and_openedI:
  assumes "options_ok valid options" and "file_appends app fl acc" and "acc file = []"
    and "entries_ok valid es" and "ascending (c_Compare (op_comparator options)) es" and "length es < 2 ^ 31"
    and use: "\<And>c t bs ies. ta_options t = options \<Longrightarrow> ta_cache_id t = cache_id \<Longrightarrow> es = concat (map fst bs) \<Longrightarrow> table_open valid t c bs ies \<Longrightarrow> use c t"
  shows "written_and_opened app fl acc options cache_id os filename file es use"
proof -
  obtain s r where w: "write_table app fl options file es = Some (s, r)"
    "ok s \<longrightarrow> table_bytes valid (c_Compare (op_comparator options)) (op_filter_policy options) (acc (tb_file r)) es"
    using write_table_ok [of valid options app fl acc "file" es, OF assms(1-6)] by blast
  let ?c = "acc (tb_file r)"
  show ?thesis
  proof (cases "ok s \<and> length ?c < 2 ^ 32")
    case True
    obtain t bs ies where "Table_Open cache_id options (mmap_file os filename ?c) (word_of_nat (length ?c)) = Some (OK, Some t)"
      "ta_options t = options" "ta_cache_id t = cache_id" "es = concat (map fst bs)" "table_open valid t ?c bs ies"
      using Table_Open_ok [OF _ assms(1,4,5) mapped.random_access_file_axioms, of ?c cache_id os filename] w(2) True by blast
    then show ?thesis using use w(1) True unfolding written_and_opened_def by auto
  next
    case False
    have "ok s \<or> reported app fl s" using write_table_status [OF w(1)] by auto
    then show ?thesis using w(1) False unfolding written_and_opened_def by (intro exI [of _ s] exI [of _ r] conjI w(1)) (simp only: False if_False)
  qed
qed

lemma if_weaken: "(if P then A else C) \<Longrightarrow> (A \<Longrightarrow> B) \<Longrightarrow> if P then B else C"
  by (cases P) simp_all

lemma written_and_opened_mono:
  assumes "written_and_opened app fl acc options cache_id os filename file es use" and "\<And>c t. use c t \<Longrightarrow> use' c t"
  shows "written_and_opened app fl acc options cache_id os filename file es use'"
proof -
  obtain s r where w: "write_table app fl options file es = Some (s, r)"
    and o: "if ok s \<and> length (acc (tb_file r)) < 2 ^ 32
      then \<exists>t. Table_Open cache_id options (mmap_file os filename (acc (tb_file r))) (word_of_nat (length (acc (tb_file r)))) = Some (OK, Some t)
        \<and> use (acc (tb_file r)) t
      else ok s \<or> reported app fl s"
    using assms(1) unfolding written_and_opened_def by (elim exE conjE)
  have "if ok s \<and> length (acc (tb_file r)) < 2 ^ 32
      then \<exists>t. Table_Open cache_id options (mmap_file os filename (acc (tb_file r))) (word_of_nat (length (acc (tb_file r)))) = Some (OK, Some t)
        \<and> use' (acc (tb_file r)) t
      else ok s \<or> reported app fl s"
  proof (rule if_weaken [OF o])
    show "\<exists>t. Table_Open cache_id options (mmap_file os filename (acc (tb_file r))) (word_of_nat (length (acc (tb_file r)))) = Some (OK, Some t)
        \<and> use (acc (tb_file r)) t
      \<Longrightarrow> \<exists>t. Table_Open cache_id options (mmap_file os filename (acc (tb_file r))) (word_of_nat (length (acc (tb_file r)))) = Some (OK, Some t)
        \<and> use' (acc (tb_file r)) t"
      using assms(2) by (elim exE conjE) (rule exI, rule conjI, assumption, rule assms(2), assumption)
  qed
  then show ?thesis unfolding written_and_opened_def by (intro exI [of _ s] exI [of _ r] conjI w)
qed

text \<open>C1: a table file is a sorted map.  A table is built of entries in ascending order and finished; when no call on the
  file failed, the file is mapped and opened.  Opening succeeds, and the iterator of the table shows exactly the
  entries, forwards, backwards and from any key, however they were cut into blocks, and whichever blocks of the table the cache has.\<close>

theorem table_is_a_sorted_map:
  assumes "options_ok valid options" and "file_appends app fl acc" and "acc file = []"
    and "entries_ok valid es" and "ascending (c_Compare (op_comparator options)) es" and "length es < 2 ^ 31"
    and "\<And>c. cache_ok (caches c) cache_id c" and "valid k"
  shows "written_and_opened app fl acc options cache_id os filename file es (\<lambda>c t.
    \<exists>it. Table_NewIterator t = Some it
      \<and> Option.bind (i_SeekToFirst (table_ops (caches c) t ro) it) (shown (table_ops (caches c) t ro) (i_Next (table_ops (caches c) t ro)) (length es)) = Some es
      \<and> Option.bind (i_SeekToLast (table_ops (caches c) t ro) it) (shown (table_ops (caches c) t ro) (i_Prev (table_ops (caches c) t ro)) (length es)) = Some (rev es)
      \<and> Option.bind (i_Seek (table_ops (caches c) t ro) k it) (shown (table_ops (caches c) t ro) (i_Next (table_ops (caches c) t ro)) (length es))
        = Some (dropWhile (\<lambda>e. c_Compare (op_comparator options) (fst e) k < 0) es))"
proof (rule written_and_openedI [of valid options app fl acc "file", OF assms(1-6)])
  fix c t bs ies
  assume t: "ta_options t = options" "ta_cache_id t = cache_id" "es = concat (map fst bs)" "table_open valid t c bs ies"
  let ?ops = "table_ops (caches c) t ro"
  have "cache_ok (caches c) (ta_cache_id t) c" using assms(7) t(2) by simp
  from table_iterates [OF t(4) this, of ro] obtain it where it: "Table_NewIterator t = Some it"
    "on_two_level (block_ops (table_cmp t)) (block_ops (table_cmp t)) (table_cmp t) (on_entries (table_cmp t) valid) (on_entries (table_cmp t) valid)
      (\<lambda>v. map_option fst (BlockReader (caches c) t ro v)) es (length es) it" unfolding t(3) by blast
  note over = two_level.two_level_over [OF table_two_level [OF t(4)], of "\<lambda>v. map_option fst (BlockReader (caches c) t ro v)", folded table_ops_def]
  note first = iterator_over.shown_all(1) [OF over, OF it(2)]
    and last = iterator_over.shown_all(2) [OF over, OF it(2)]
    and seek = iterator_over.shown_all(3) [OF over, OF it(2) assms(8), unfolded t(1)]
  show "\<exists>it. Table_NewIterator t = Some it
      \<and> Option.bind (i_SeekToFirst ?ops it) (shown ?ops (i_Next ?ops) (length es)) = Some es
      \<and> Option.bind (i_SeekToLast ?ops it) (shown ?ops (i_Prev ?ops) (length es)) = Some (rev es)
      \<and> Option.bind (i_Seek ?ops k it) (shown ?ops (i_Next ?ops) (length es)) = Some (dropWhile (\<lambda>e. c_Compare (op_comparator options) (fst e) k < 0) es)"
    by (rule exI [of _ it], rule conjI, rule it(1), rule conjI, rule first, rule conjI, rule last, rule seek)
qed

theorem table_is_a_sorted_map_witness:
  "let es = [([97], [1]), ([98], [2])]; ro = ReadOptions_new in
   written_and_opened memory_append memory_flush (\<lambda>f. f) default_options 1 script_os [] [] es (\<lambda>c t.
    \<exists>it. Table_NewIterator t = Some it
      \<and> Option.bind (i_SeekToFirst (table_ops None t ro) it) (shown (table_ops None t ro) (i_Next (table_ops None t ro)) (length es)) = Some es
      \<and> Option.bind (i_SeekToLast (table_ops None t ro) it) (shown (table_ops None t ro) (i_Prev (table_ops None t ro)) (length es)) = Some (rev es)
      \<and> Option.bind (i_Seek (table_ops None t ro) [97, 1] it) (shown (table_ops None t ro) (i_Next (table_ops None t ro)) (length es))
        = Some (dropWhile (\<lambda>e. c_Compare (op_comparator default_options) (fst e) [97, 1] < 0) es))"
  unfolding Let_def
  by (rule table_is_a_sorted_map [where caches = "\<lambda>_. None", OF default_options_ok memory_appends _ default_entries]) (simp_all add: cache_ok_def)

text \<open>C5: a key that is in the table is found.  On a table that was written and opened \<open>InternalGet\<close> answers OK for every
  key; for a key that was added it calls back with the entry, so that neither the index nor the filter hides
  it; for another key it calls back with the first entry that is not before the key, or not at all.\<close>

theorem table_get_finds_key:
  assumes "options_ok valid options" and "file_appends app fl acc" and "acc file = []"
    and "entries_ok valid es" and "ascending (c_Compare (op_comparator options)) es" and "length es < 2 ^ 31"
    and "\<And>c. cache_ok (caches c) cache_id c" and "valid k"
  shows "written_and_opened app fl acc options cache_id os filename file es (\<lambda>c t.
    \<exists>result. InternalGet (caches c) t ro k = Some (OK, result)
      \<and> (if k \<in> fst ` set es then result = map_option (Pair k) (map_of es k)
         else result = None \<or> result = find (\<lambda>e. 0 \<le> c_Compare (op_comparator options) (fst e) k) es))"
proof (rule written_and_openedI [of valid options app fl acc "file", OF assms(1-6)])
  fix c t bs ies
  assume t: "ta_options t = options" "ta_cache_id t = cache_id" "es = concat (map fst bs)" "table_open valid t c bs ies"
  have "cache_ok (caches c) (ta_cache_id t) c" using assms(7) t(2) by simp
  from InternalGet_ok [OF t(4) this assms(8), of ro] obtain r where r: "InternalGet (caches c) t ro k = Some (OK, r)"
    "r = None \<or> lower (table_cmp t) es k < length es \<and> r = Some (es ! lower (table_cmp t) es k)"
    "\<forall>v. (k, v) \<in> set es \<longrightarrow> r = Some (k, v)" unfolding t(3) by blast
  have "r = map_option (Pair k) (map_of es k)" if "k \<in> fst ` set es"
  proof -
    have "map_of es k \<noteq> None" using that by (simp only: map_of_eq_None_iff not_not)
    then obtain v where v: "map_of es k = Some v" by (elim not_None_eq [THEN iffD1, elim_format] exE)
    have "r = Some (k, v)" by (rule r(3) [rule_format, OF map_of_SomeD [OF v]])
    then show ?thesis by (simp add: v)
  qed
  moreover have "r = None \<or> r = find (\<lambda>e. 0 \<le> c_Compare (op_comparator options) (fst e) k) es"
    using r(2) unfolding t(1) by (elim disjE conjE) (simp_all add: find_lower)
  ultimately show "\<exists>result. InternalGet (caches c) t ro k = Some (OK, result)
      \<and> (if k \<in> fst ` set es then result = map_option (Pair k) (map_of es k)
         else result = None \<or> result = find (\<lambda>e. 0 \<le> c_Compare (op_comparator options) (fst e) k) es)"
    by (intro exI [of _ r] conjI r(1)) (simp only: split: if_splits, blast)
qed

theorem table_get_finds_key_witness:
  "written_and_opened memory_append memory_flush (\<lambda>f. f) default_options 1 script_os [] [] [([97], [1]), ([98], [2])]
    (\<lambda>c t. InternalGet None t ReadOptions_new [98] = Some (OK, Some ([98], [2])))"
  by (rule written_and_opened_mono,
      rule table_get_finds_key [where caches = "\<lambda>_. None" and cache_id = 1 and os = script_os and filename = "[]" and k = "[98]"
        and ro = ReadOptions_new, OF default_options_ok memory_appends _ default_entries])
    (simp_all add: cache_ok_def)

text \<open>The block cache is transparent.  For the handle of a block that is stored, whatever blocks of the table the cache
  answers with, \<open>BlockReader\<close> gives the iterator it gives without a cache; and what it inserts keeps the cache
  one that answers with blocks of the table.\<close>

lemma block_cache_is_transparent:
  assumes "random_access_file (rf_Read (ta_file t)) c" and "length c < 2 ^ 64" and "stored_at c h d"
    and "Block_new d = Some blk" and "Block_NewIterator blk = Some it" and "cache_ok block_cache (ta_cache_id t) c"
  shows "map_option fst (BlockReader None t ro (handle_bytes h)) = Some it
    \<and> (\<exists>inserted. BlockReader block_cache t ro (handle_bytes h) = Some (it, inserted)
         \<and> (inserted = None \<or> inserted = Some (cache_key (ta_cache_id t) h, blk)))"
proof -
  have "cache_ok None (ta_cache_id t) c" by (simp add: cache_ok_def)
  then show ?thesis using BlockReader_stored [OF assms, of ro] BlockReader_stored [OF assms(1-5), of None ro] by auto
qed

end
