(* ===== verification/Spec2Isabelle.thy ===== *)
theory Spec2Isabelle
  imports Proto_Theorems B64 Ldb_Log Ldb_Write_Batch Ldb_Read_Path Ldb_Table
begin

text \<open>
  \<^bold>\<open>The program.\<close>  The repository is an iOS application in Swift and the libraries it ships in
  \<open>src/TinderClone/Pods\<close>.  The development models the C and C++ code of those libraries with
  logic of its own:
  \<^item> \<open>nanopb\<close>, the protocol buffer runtime (\<open>pb.h\<close>, \<open>pb_common.c\<close>, \<open>pb_decode.c\<close>, \<open>pb_encode.c\<close>);
  \<^item> the generated messages that Google's log transport and core diagnostics send with it
    (\<open>cct.nanopb.c\<close>, \<open>firebasecore.nanopb.c\<close> and their headers);
  \<^item> the base64 code of the Firebase database client (\<open>fbase64.c\<close>, \<open>NSData+SRB64Additions.m\<close>);
  \<^item> \<open>leveldb-library\<close>, the key-value store on which the database client keeps its offline data:
    the write-ahead log, memtables, blocks, filters and what they are made of.

  The code is compiled for 64-bit little-endian machines with signed \<open>char\<close>, nanopb with
  \<open>PB_FIELD_32BIT\<close> and \<open>PB_ENABLE_MALLOC\<close>, leveldb for POSIX without hardware checksums.

  \<^bold>\<open>Shared.\<close>  \<open>Prelude\<close> has the result type with undefined behaviour as a value, sequencing, and
  little-endian numbers; \<open>Byte_Format\<close> the varint format both libraries write.

  \<^bold>\<open>nanopb.\<close>  \<open>CMemory\<close> is the memory of the C program: bytes at integer addresses, where an access
  outside every live object is \<open>None\<close>; \<open>CLayout\<close> computes the layout of structures.  \<open>Pb_Types\<close> has
  descriptors and field types (\<open>pb.h\<close>), \<open>Pb_Common\<close> the field iterator, \<open>Pb_Istream\<close> and
  \<open>Pb_Ostream\<close> the streams with the wire primitives, \<open>Pb_Lifecycle\<close> default values, allocation and
  release, \<open>Pb_Decode\<close> and \<open>Pb_Encode\<close> the field and message loops.  A stream is a record with a
  callback and its state, as in the code; a callback field is a parameter.  On top: \<open>Pb_Wire\<close> (the
  primitives implement the wire format), \<open>Pb_Encode_Spec\<close> (the encoding of a message as a function of
  memory, and that \<open>pb_encode\<close> writes it, measures it and reports a full stream), \<open>Pb_Decode_Flow\<close>
  (every decoding step consumes input, so decoding never runs on), \<open>Pb_Lifecycle_Props\<close>, \<open>Pb_Memory_Safe\<close>
  (descriptors that describe a structure, \<open>laid_out\<close>; its initialisation, and decoding into it when all its fields
  are static, never reach undefined behaviour and write nowhere else; pointer fields, callbacks and extensions are
  not covered by the result on decoding), and the properties in \<open>Pb_Theorems\<close>.  The fuel \<open>n\<close> of the encoder and decoder bounds the nesting of messages, one level for
  each call of a message function inside another; the theorems on termination say how much is enough.

  \<^bold>\<open>Messages.\<close>  \<open>Cct_Proto\<close> and \<open>Firebasecore_Proto\<close> have the structures, enumerations, tags and
  descriptor tables, computed by the macros of \<open>pb.h\<close> over the computed layouts; \<open>Proto_Theorems\<close> runs
  nanopb on them.

  \<^bold>\<open>Base64.\<close>  \<open>B64\<close> has both directions of the codec as loops over an object of a given size, with
  the writes checked, and the Objective-C method that calls the encoder.

  \<^bold>\<open>leveldb, values.\<close>  \<open>Ldb_Coding\<close>, \<open>Ldb_Logging\<close>, \<open>Ldb_Status\<close>, \<open>Ldb_Fixed_Arrays\<close>: integers, strings,
  decimal numbers, packed statuses and arrays of offsets.  \<open>Ldb_Crc32c_Tables\<close> and \<open>Ldb_Crc32c\<close>: the
  table-driven checksum, equal to the polynomial division bit by bit.  \<open>Ldb_Env\<close>: files over a kernel
  that is a parameter and may fail, be interrupted or transfer less than asked for.

  \<^bold>\<open>leveldb, the log.\<close>  \<open>Ldb_Log_Writer\<close> and \<open>Ldb_Log_Reader\<close> are the two programs, \<open>Ldb_Log\<close> puts them
  together: what was added is read back, a log that was cut anywhere gives a prefix of its records
  without a report, and the reader returns on any file; also how a record is lost when the filling of a block
  is not written.

  \<^bold>\<open>leveldb, memory.\<close>  \<open>Ldb_Comparator\<close> has the order of keys and the contract of a comparator as
  the locale \<open>key_order\<close>, extended by \<open>key_shortener\<close>; \<open>Ldb_Dbformat\<close> the internal keys, which provide
  the same contract over any user comparator; \<open>Ldb_Random\<close> and \<open>Ldb_Skiplist\<close> the skip list, whose store
  is append-only as the arena is, and where a link that was not stored is no link; \<open>Ldb_Skiplist_Props\<close> its
  invariant and what readers see between any two stores of an insertion, where each \<open>SetNext\<close> is one store; \<open>Ldb_Memtable\<close> the versioned map that it makes; \<open>Ldb_Write_Batch\<close> the batches
  that are inserted into it.

  \<^bold>\<open>leveldb, tables.\<close>  \<open>Ldb_Bloom\<close> has the hash, the Bloom filter and the contract of a filter policy as
  the locale \<open>filter_policy\<close>; \<open>Ldb_Filter_Block\<close> the block of filters over any policy; \<open>Ldb_Block\<close>
  the block builder and the block iterator, \<open>Ldb_Block_Props\<close> what the iterator does on a block that is
  laid out well, and \<open>Ldb_Block_Build\<close> that the builder lays blocks out so, with the theorem that a
  block is a sorted map, and what the length check lets through on other blocks.

  \<^bold>\<open>leveldb, iterators.\<close>  \<open>Ldb_Iterator\<close> has the abstract class as a record of its methods and its contract
  as the locale \<open>iterator_over\<close>: standing at a place of an ascending list of entries, every method moves to
  the place it should.  The memtable and block iterators provide the contract.  \<open>Ldb_Two_Level\<close>
  (\<open>two_level_iterator.cc\<close>), \<open>Ldb_Merger\<close> (\<open>merger.cc\<close>) and \<open>Ldb_Db_Iter\<close> (\<open>db_iter.cc\<close>) need it of the
  iterators below and provide it again: over the entries of all blocks, over the sorted union of the children,
  and over the newest visible value of each user key.  In \<open>Ldb_Merger\<close> the children have no key in common, as the
  internal keys of memtables and tables do not; \<open>Ldb_Merge_Scan\<close> shows what scans of the merging iterator yield when
  children share keys, each as often as it is there.  \<open>Ldb_Read_Path\<close> puts memtables, the merging iterator and
  the database iterator together.

  \<^bold>\<open>leveldb, table files.\<close>  \<open>Ldb_Format\<close> has handles, footer and the reading of a checked block over any file that
  keeps the contract \<open>random_access_file\<close>, which the memory-mapped file provides; \<open>Ldb_Table_Builder\<close> the writer over
  a file whose calls may fail, with comparator, filter policy and options as records of functions; \<open>Ldb_Table\<close> the
  reader, with the block cache as a parameter that may hold any blocks of the table.  What was added to a table is
  what the opened table shows and finds.
  \<^bold>\<open>Conventions.\<close>  A failing assertion, an access outside an object, a signed overflow and the use of
  an unset pointer are \<open>None\<close> in the leveldb theories and \<open>Undef\<close> in the nanopb theories.  Loops that
  end by themselves are recursive functions with a measure; the loops of the skip list and the binary
  search over restart points are \<open>partial_function\<close>s, so that a loop that does not end is \<open>None\<close>, and the
  theorems show \<open>Some\<close>.  Sizes are natural numbers; \<open>uint32_t\<close> and \<open>uint64_t\<close> are words, and every
  conversion that truncates is written out.

  \<^bold>\<open>Not modelled.\<close>  The Swift application, the Objective-C SDKs and the headers of binary frameworks have
  no C logic to model.  Of leveldb the database object with its threads, mutexes and background compaction
  (\<open>db_impl.cc\<close>), version sets, compaction, repair, the table cache and the implementation of the block cache,
  the C binding, the arena and the thread, clock and
  directory functions of the environment are left out.  The component list of the manifest has one
  entry for each part.
\<close>

end
